(* ===== verification/Prelude.thy ===== *)
theory Prelude
  imports Main "HOL-Library.Word" "HOL-Library.Code_Target_Numeral"
begin

text \<open>
  Shared vocabulary of the development.

  The C++ integer types are words of their width (\<open>u8\<close>, \<open>u32\<close>, \<open>u64\<close>; \<open>i64\<close> is the
  same word read with \<open>sint\<close>), a C++ \<open>float\<close> is its 32-bit IEEE pattern (\<open>f32\<close>), and a C++
  \<open>int\<close> whose overflow is undefined is an \<open>int\<close> checked by \<open>chk_int\<close>. A failed
  \<open>assert\<close> or undefined behaviour is a value of the result type \<open>'a res\<close>. The named
  collections \<open>res_simps\<close>, \<open>word_nat_simps\<close> carry the facts the component proofs share.
\<close>

section \<open>Machine types\<close>

type_synonym u8 = "8 word"
type_synonym u32 = "32 word"
type_synonym u64 = "64 word"
type_synonym i64 = "64 word"
type_synonym f32 = "32 word"

named_theorems res_simps \<open>equations of the result type\<close>
named_theorems word_nat_simps \<open>reading words as natural numbers\<close>

section \<open>Results: failed assertions and undefined behaviour as values\<close>

datatype err = AssertFail string | UB string

type_synonym 'a res = "err + 'a"

definition bind_res :: "'a res \<Rightarrow> ('a \<Rightarrow> 'b res) \<Rightarrow> 'b res" where
  "bind_res m f = (case m of Inl e \<Rightarrow> Inl e | Inr x \<Rightarrow> f x)"

definition require :: "bool \<Rightarrow> string \<Rightarrow> unit res" where
  "require b msg = (if b then Inr () else Inl (AssertFail msg))"

fun map_res :: "('a \<Rightarrow> 'b res) \<Rightarrow> 'a list \<Rightarrow> 'b list res" where
  "map_res f [] = Inr []"
| "map_res f (x # xs) = bind_res (f x) (\<lambda>y. bind_res (map_res f xs) (\<lambda>ys. Inr (y # ys)))"

fun each_res :: "('a \<Rightarrow> unit res) \<Rightarrow> 'a list \<Rightarrow> unit res" where
  "each_res f [] = Inr ()"
| "each_res f (x # xs) = bind_res (f x) (\<lambda>_. each_res f xs)"

lemma bind_res_Inl [simp, res_simps]: "bind_res (Inl e) f = Inl e"
  by (simp add: bind_res_def)

lemma bind_res_Inr [simp, res_simps]: "bind_res (Inr x) f = f x"
  by (simp add: bind_res_def)

lemma bind_res_eq_Inr [simp, res_simps]:
  "bind_res m f = Inr y \<longleftrightarrow> (\<exists>x. m = Inr x \<and> f x = Inr y)"
  by (cases m) auto

lemma require_eq_Inr [simp, res_simps]: "require b msg = Inr u \<longleftrightarrow> b"
  by (simp add: require_def)

lemma bind_require:
  "bind_res (require b msg) f = (if b then f () else Inl (AssertFail msg))"
  by (simp add: require_def)

lemma bind_res_cong [fundef_cong]:
  assumes "m = m'" and "\<And>x. m' = Inr x \<Longrightarrow> f x = g x"
  shows "bind_res m f = bind_res m' g"
  using assms by (cases m') auto

lemma map_res_cong [fundef_cong]:
  assumes "xs = ys" and "\<And>x. x \<in> set ys \<Longrightarrow> f x = g x"
  shows "map_res f xs = map_res g ys"
proof -
  from assms(2) have "map_res f ys = map_res g ys" by (induction ys) simp_all
  with assms(1) show ?thesis by simp
qed

lemma each_res_cong [fundef_cong]:
  assumes "xs = ys" and "\<And>x. x \<in> set ys \<Longrightarrow> f x = g x"
  shows "each_res f xs = each_res g ys"
proof -
  from assms(2) have "each_res f ys = each_res g ys" by (induction ys) simp_all
  with assms(1) show ?thesis by simp
qed

lemma each_res_eq_Inr [simp, res_simps]:
  "each_res f xs = Inr u \<longleftrightarrow> (\<forall>x \<in> set xs. f x = Inr ())"
  by (induction xs) auto

lemma map_res_length: "map_res f xs = Inr ys \<Longrightarrow> length ys = length xs"
  by (induction xs arbitrary: ys) auto

lemma map_res_nth:
  "map_res f xs = Inr ys \<Longrightarrow> i < length xs \<Longrightarrow> f (xs ! i) = Inr (ys ! i)"
proof (induction xs arbitrary: ys i)
  case Nil
  then show ?case by simp
next
  case (Cons x xs)
  then show ?case by (cases i) auto
qed

section \<open>C++ signed int\<close>

text \<open>
  Arithmetic on C++ \<open>int\<close> is exact, and leaving the 32-bit range is undefined behaviour.
\<close>

definition in_int :: "int \<Rightarrow> bool" where
  "in_int x \<longleftrightarrow> - (2 ^ 31) \<le> x \<and> x < 2 ^ 31"

definition chk_int :: "int \<Rightarrow> int res" where
  "chk_int x = (if in_int x then Inr x else Inl (UB ''signed overflow''))"

definition in_i64 :: "int \<Rightarrow> bool" where
  "in_i64 x \<longleftrightarrow> - (2 ^ 63) \<le> x \<and> x < 2 ^ 63"

definition chk_i64 :: "int \<Rightarrow> i64 res" where
  "chk_i64 x = (if in_i64 x then Inr (word_of_int x) else Inl (UB ''signed overflow''))"

lemma chk_int_eq_Inr [simp, res_simps]: "chk_int x = Inr y \<longleftrightarrow> in_int x \<and> y = x"
  by (auto simp: chk_int_def)

lemma chk_i64_eq_Inr [simp, res_simps]: "chk_i64 x = Inr y \<longleftrightarrow> in_i64 x \<and> y = word_of_int x"
  by (auto simp: chk_i64_def)

text \<open>Conversions between the integer types, as the compilers bistra is built with do them.\<close>

definition int_of_i64 :: "i64 \<Rightarrow> int" where
  "int_of_i64 w = sint (ucast w :: u32)"

definition int_of_u32 :: "u32 \<Rightarrow> int" where
  "int_of_u32 w = sint w"

definition u32_of_int :: "int \<Rightarrow> u32" where
  "u32_of_int x = word_of_int x"

definition i64_of_u32 :: "u32 \<Rightarrow> i64" where
  "i64_of_u32 w = ucast w"

definition i64_of_int :: "int \<Rightarrow> i64" where
  "i64_of_int x = word_of_int x"

lemma sint_word_of_int_i64: "in_i64 x \<Longrightarrow> sint (word_of_int x :: i64) = x"
  by (simp add: in_i64_def sint_sbintrunc' signed_take_bit_int_eq_self)

lemma in_i64_sint [simp]: "in_i64 (sint (w :: i64))"
  using sint_greater_eq [of w] sint_lt [of w] by (simp add: in_i64_def)

lemma in_int_sint [simp]: "in_int (sint (w :: u32))"
  using sint_greater_eq [of w] sint_lt [of w] by (simp add: in_int_def)

lemma in_int_in_i64: "in_int x \<Longrightarrow> in_i64 x"
  by (simp add: in_int_def in_i64_def)

lemma uint_u32_bound: "uint (w :: u32) < 2 ^ 32"
  using uint_lt2p [of w] by simp

lemma unat_u32_bound: "unat (w :: u32) < 2 ^ 32"
  by (rule order.strict_trans2 [OF unsigned_less]) simp

lemma unat_u64_bound: "unat (w :: u64) < 2 ^ 64"
  by (rule order.strict_trans2 [OF unsigned_less]) simp

lemma unat_i64_of_u32 [word_nat_simps]: "unat (i64_of_u32 w) = unat w"
proof -
  have "uint (ucast w :: i64) = uint w"
    unfolding unsigned_ucast_eq using uint_u32_bound [of w] by (simp add: take_bit_int_eq_self)
  then show ?thesis by (simp only: i64_of_u32_def unat_eq_nat_uint)
qed

lemma sint_i64_of_u32 [word_nat_simps]: "sint (i64_of_u32 w) = int (unat w)"
proof -
  have "sint (ucast w :: i64) = uint w"
    unfolding signed_ucast_eq
    by (rule signed_take_bit_int_eq_self)
      (use uint_u32_bound [of w] in \<open>simp_all add: order.trans [of _ 0]\<close>)
  then show ?thesis by (simp add: i64_of_u32_def)
qed

section \<open>Decimal text (std::to_string)\<close>

definition digit_char :: "nat \<Rightarrow> char" where
  "digit_char d = char_of (48 + d)"

fun dec_nat :: "nat \<Rightarrow> string" where
  "dec_nat n = (if n < 10 then [digit_char n] else dec_nat (n div 10) @ [digit_char (n mod 10)])"

declare dec_nat.simps [simp del]

definition dec_int :: "int \<Rightarrow> string" where
  "dec_int i = (if i < 0 then CHR ''-'' # dec_nat (nat (- i)) else dec_nat (nat i))"

fun undec :: "string \<Rightarrow> nat" where
  "undec s = foldl (\<lambda>n c. 10 * n + (of_char c - 48)) 0 s"

lemma of_char_digit_char: "d < 10 \<Longrightarrow> of_char (digit_char d) = (48 + d :: nat)"
  by (simp add: digit_char_def)

lemma undec_dec_nat: "undec (dec_nat n) = n"
proof (induction n rule: dec_nat.induct)
  case (1 n)
  show ?case
  proof (cases "n < 10")
    case True
    then show ?thesis by (subst dec_nat.simps) (simp add: of_char_digit_char)
  next
    case False
    with "1.IH" have "undec (dec_nat (n div 10)) = n div 10" by simp
    with False show ?thesis by (subst dec_nat.simps) (simp add: of_char_digit_char)
  qed
qed

lemma dec_nat_inject [simp]: "dec_nat m = dec_nat n \<longleftrightarrow> m = n"
  by (metis undec_dec_nat)

lemma dec_nat_nonempty [simp]: "dec_nat n \<noteq> []"
  by (subst dec_nat.simps) simp

end
