(* ===== verification/Utils.thy ===== *)
theory Utils
  imports Prelude
begin

text \<open>
  \<open>lib/Program/Utils.cpp\<close>: the hash mixing functions every \<open>hash\<close> method is built from, the
  number printer of the diagnostics, and the effect of \<open>readFile\<close> on a file's content.
  The printing of heat maps and the file system calls themselves are not modelled.
\<close>

unbundle bit_operations_syntax

section \<open>Hash mixing\<close>

text \<open>
  \<open>ror\<close> is written with two shifts. C++ leaves a shift by 64 undefined, so the function is
  defined for \<open>0 < bits < 64\<close>; the code calls it with 8 and 16.
\<close>

definition ror :: "u64 \<Rightarrow> nat \<Rightarrow> u64" where
  "ror x bits = drop_bit bits x OR push_bit (64 - bits) x"

definition hashJoin :: "u64 \<Rightarrow> u64 \<Rightarrow> u64" where
  "hashJoin one two = ror one 8 XOR ror two 16 XOR (one * two)"

definition hashJoin3 :: "u64 \<Rightarrow> u64 \<Rightarrow> u64 \<Rightarrow> u64" where
  "hashJoin3 one two three = hashJoin one (hashJoin two three)"

text \<open>\<open>char\<close> is signed on the supported targets, so a byte above 127 is sign extended.\<close>

definition u64_of_char :: "char \<Rightarrow> u64" where
  "u64_of_char c = scast (of_char c :: u8)"

definition hashString :: "string \<Rightarrow> u64" where
  "hashString str = foldl (\<lambda>h c. hashJoin h (u64_of_char c)) 0 str"

lemma hashString_Nil [simp]: "hashString [] = 0"
  by (simp add: hashString_def)

lemma hashString_snoc: "hashString (s @ [c]) = hashJoin (hashString s) (u64_of_char c)"
  by (simp add: hashString_def)

lemma ror_is_rotation:
  assumes "0 < bits" and "bits < 64"
  shows "bit (ror x bits) n \<longleftrightarrow> n < 64 \<and> bit x ((n + bits) mod 64)"
proof (cases "n < 64")
  case True
  show ?thesis
  proof (cases "n + bits < 64")
    case True
    moreover have "n < 64 - bits" using True by simp
    ultimately show ?thesis
      using \<open>n < 64\<close> by (simp add: ror_def bit_simps add.commute)
  next
    case False
    then have "(n + bits) mod 64 = n - (64 - bits)"
      using True assms(2) by (simp add: mod_if)
    moreover have "64 - bits \<le> n" using False by simp
    moreover have "\<not> bit x (bits + n)" using False by (auto dest: bit_imp_le_length)
    ultimately show ?thesis
      using True False by (simp add: ror_def bit_simps)
  qed
next
  case False
  then show ?thesis by (auto dest: bit_imp_le_length)
qed

section \<open>Printing numbers with a unit\<close>

definition unit_names :: "string list" where
  "unit_names = ['''', ''K'', ''M'', ''G'', ''T'', ''P'', ''E'']"

text \<open>The loop \<open>while (num > 1000)\<close>: the remaining number and the unit index.\<close>

fun scaleDown :: "nat \<Rightarrow> nat \<Rightarrow> nat \<times> nat" where
  "scaleDown num u = (if 1000 < num then scaleDown (num div 1000) (Suc u) else (num, u))"

declare scaleDown.simps [simp del]

definition prettyPrintNumber :: "u64 \<Rightarrow> string res" where
  "prettyPrintNumber num =
     (case scaleDown (unat num) 0 of
        (n, u) \<Rightarrow>
          if u < length unit_names then Inr (dec_nat n @ unit_names ! u)
          else Inl (UB ''units[unit] out of range''))"

lemma scaleDown_step: "1000 < num \<Longrightarrow> scaleDown num u = scaleDown (num div 1000) (Suc u)"
  by (subst scaleDown.simps) simp

lemma scaleDown_stop: "\<not> 1000 < num \<Longrightarrow> scaleDown num u = (num, u)"
  by (subst scaleDown.simps) simp

lemma scaleDown_bound:
  "num < 1000 ^ Suc k \<Longrightarrow> fst (scaleDown num u) \<le> 1000 \<and> snd (scaleDown num u) \<le> u + k"
proof (induction k arbitrary: num u)
  case 0
  then show ?case by (simp add: scaleDown_stop)
next
  case (Suc k)
  show ?case
  proof (cases "1000 < num")
    case True
    have "num div 1000 < 1000 ^ Suc k"
      using Suc.prems by (simp add: less_mult_imp_div_less mult.commute)
    from Suc.IH [OF this, of "Suc u"] True show ?thesis by (simp add: scaleDown_step)
  next
    case False
    then show ?thesis by (simp add: scaleDown_stop)
  qed
qed

lemma scaleDown_value:
  "u \<le> snd (scaleDown num u) \<and> fst (scaleDown num u) = num div 1000 ^ (snd (scaleDown num u) - u)"
proof (induction num u rule: scaleDown.induct)
  case (1 num u)
  show ?case
  proof (cases "1000 < num")
    case True
    define u' where "u' = snd (scaleDown (num div 1000) (Suc u))"
    from "1.IH" [OF True] have u: "Suc u \<le> u'"
      and n: "fst (scaleDown (num div 1000) (Suc u)) = num div 1000 div 1000 ^ (u' - Suc u)"
      unfolding u'_def by auto
    have "1000 * 1000 ^ (u' - Suc u) = (1000 :: nat) ^ (u' - u)"
      using u by (simp add: Suc_diff_Suc Suc_le_lessD flip: power_Suc)
    then have "num div 1000 div 1000 ^ (u' - Suc u) = num div 1000 ^ (u' - u)"
      by (metis div_mult2_eq)
    with n u True show ?thesis by (simp add: scaleDown_step u'_def)
  next
    case False
    then show ?thesis by (simp add: scaleDown_stop)
  qed
qed

section \<open>Reading a file\<close>

text \<open>
  \<open>readFile\<close> collects the lines \<open>std::getline\<close> returns and appends a newline to each. The
  argument is the content of the file; the result is the string the function returns.
\<close>

fun getlines :: "string \<Rightarrow> string \<Rightarrow> string list" where
  "getlines line [] = (if line = [] then [] else [line])"
| "getlines line (c # cs) =
     (if c = CHR 0x0A then line # getlines [] cs else getlines (line @ [c]) cs)"

definition readFile :: "string \<Rightarrow> string" where
  "readFile content = concat (map (\<lambda>line. line @ [CHR 0x0A]) (getlines [] content))"

lemma getlines_concat:
  "concat (map (\<lambda>line. line @ [CHR 0x0A]) (getlines line cs)) =
     line @ cs @ (if line @ cs = [] \<or> last (CHR 0x0A # cs) = CHR 0x0A \<and> (line = [] \<or> cs \<noteq> [])
                  then [] else [CHR 0x0A])"
  by (induction line cs rule: getlines.induct) auto

section \<open>Properties\<close>

text \<open>\<open>ror\<close> rotates: for a shift that C++ defines, bit \<open>n\<close> of the result is bit
  \<open>(n + bits) mod 64\<close> of the argument, so no bit of a hash is lost.\<close>

theorem ror_rotates:
  "0 < bits \<Longrightarrow> bits < 64 \<Longrightarrow> n < 64 \<Longrightarrow> bit (ror x bits) n = bit x ((n + bits) mod 64)"
  by (simp add: ror_is_rotation)

theorem ror_rotates_witness: "bit (ror (0x100 :: u64) 8) 0 = bit (0x100 :: u64) ((0 + 8) mod 64)"
  using ror_rotates [of 8 0 "0x100"] by simp

text \<open>\<open>prettyPrintNumber\<close> never reads past its table of units: for every 64-bit number the
  division loop ends with a number of at most 1000 and one of the seven units, and what is printed
  is the number divided by that unit.\<close>

theorem prettyPrintNumber_total:
  "\<exists>k < 7. unat num div 1000 ^ k \<le> 1000 \<and>
     prettyPrintNumber num = Inr (dec_nat (unat num div 1000 ^ k) @ unit_names ! k)"
proof -
  let ?r = "scaleDown (unat num) 0"
  have "unat num < 1000 ^ Suc 6" using unat_u64_bound [of num] by simp
  then have b: "fst ?r \<le> 1000" "snd ?r \<le> 6" using scaleDown_bound [of "unat num" 6 0] by simp_all
  have v: "fst ?r = unat num div 1000 ^ snd ?r" using scaleDown_value [of 0 "unat num"] by simp
  have "prettyPrintNumber num = Inr (dec_nat (fst ?r) @ unit_names ! snd ?r)"
    using b by (simp add: prettyPrintNumber_def unit_names_def case_prod_unfold)
  with b v show ?thesis by (intro exI [of _ "snd ?r"]) simp
qed

end
