(* ===== verification/Types.thy ===== *)
theory Types
  imports Utils
begin

text \<open>
  \<open>include/bistra/Program/Types.h\<close>, \<open>lib/Program/Types.cpp\<close> and the two hash methods of
  \<open>lib/Program/Program.cpp\<close>: element kinds, the tensor type \<open>Type\<close> and the scalar or vector
  type \<open>ExprType\<close>. Sizes are 32-bit and their products wrap.
\<close>

section \<open>Element kinds\<close>

datatype ElemKind = Float32Ty | Int8Ty | IndexTy | PtrTy | StringTy

fun elemKind_code :: "ElemKind \<Rightarrow> nat" where
  "elemKind_code Float32Ty = 0"
| "elemKind_code Int8Ty = 1"
| "elemKind_code IndexTy = 2"
| "elemKind_code PtrTy = 3"
| "elemKind_code StringTy = 4"

lemma elemKind_code_inject [simp]: "elemKind_code a = elemKind_code b \<longleftrightarrow> a = b"
  by (cases a; cases b) simp_all

text \<open>The enumeration is ordered by its C++ value.\<close>

instantiation ElemKind :: linorder
begin

definition less_eq_ElemKind :: "ElemKind \<Rightarrow> ElemKind \<Rightarrow> bool" where
  "a \<le> b \<longleftrightarrow> elemKind_code a \<le> elemKind_code b"

definition less_ElemKind :: "ElemKind \<Rightarrow> ElemKind \<Rightarrow> bool" where
  "a < b \<longleftrightarrow> elemKind_code a < elemKind_code b"

instance
  by standard (auto simp: less_eq_ElemKind_def less_ElemKind_def)

end

text \<open>
  \<open>Type::getElementName\<close> and \<open>Type::getElementSizeInBytes\<close> index tables of three entries, so
  the two last kinds read outside the table.
\<close>

definition getElementName :: "ElemKind \<Rightarrow> string res" where
  "getElementName ty =
     (let names = [''float'', ''int8_t'', ''size_t''] in
      if elemKind_code ty < length names then Inr (names ! elemKind_code ty)
      else Inl (UB ''names[Ty] out of range''))"

definition getElementSizeInBytes :: "ElemKind \<Rightarrow> u32 res" where
  "getElementSizeInBytes ty =
     (let sizes = [4, 1, 8] in
      if elemKind_code ty < length sizes then Inr (sizes ! elemKind_code ty)
      else Inl (UB ''sizes[Ty] out of range''))"

section \<open>Tensor types\<close>

record Type =
  ty_sizes :: "u32 list"
  ty_names :: "string list"
  ty_elem :: ElemKind

definition mkType :: "ElemKind \<Rightarrow> u32 list \<Rightarrow> string list \<Rightarrow> Type res" where
  "mkType elemTy dims names =
     bind_res (require (length names = length dims) ''Invalid number of dims'')
       (\<lambda>_. Inr \<lparr>ty_sizes = dims, ty_names = names, ty_elem = elemTy\<rparr>)"

text \<open>\<open>isEqual\<close> compares the element type and the sizes; the names of the dimensions do not count.\<close>

definition Type_isEqual :: "Type \<Rightarrow> Type \<Rightarrow> bool" where
  "Type_isEqual t other \<longleftrightarrow> ty_elem t = ty_elem other \<and> ty_sizes t = ty_sizes other"

definition getNumDims :: "Type \<Rightarrow> nat" where
  "getNumDims t = length (ty_sizes t)"

definition getSize :: "Type \<Rightarrow> u32" where
  "getSize t = foldl (\<lambda>size d. size * d) 1 (ty_sizes t)"

definition getSizeInBytes :: "Type \<Rightarrow> u32 res" where
  "getSizeInBytes t =
     bind_res (getElementSizeInBytes (ty_elem t)) (\<lambda>n. Inr (getSize t * n))"

fun findDim :: "u32 list \<Rightarrow> string list \<Rightarrow> string \<Rightarrow> u32" where
  "findDim (d # ds) (n # ns) name = (if n = name then d else findDim ds ns name)"
| "findDim _ _ name = 0"

definition getDimSizeByName :: "Type \<Rightarrow> string \<Rightarrow> u32" where
  "getDimSizeByName t name = findDim (ty_sizes t) (ty_names t) name"

text \<open>\<open>Type::size\<close> counts the dimensions in an \<open>unsigned char\<close>.\<close>

definition Type_size :: "Type \<Rightarrow> u64" where
  "Type_size t = foldl (\<lambda>s d. s * ucast d) 1 (take (length (ty_sizes t) mod 256) (ty_sizes t))"

definition isIndexTy :: "Type \<Rightarrow> bool" where
  "isIndexTy t \<longleftrightarrow> ty_elem t = IndexTy"

definition hash_Type :: "Type \<Rightarrow> u64" where
  "hash_Type t =
     (let h = hashJoin (of_nat (getNumDims t)) (of_nat (elemKind_code (ty_elem t)));
          h = foldl (\<lambda>h name. hashJoin h (hashString name)) h (ty_names t)
      in foldl (\<lambda>h dim. hashJoin h (ucast dim)) h (ty_sizes t))"

fun dump_dims :: "bool \<Rightarrow> string list \<Rightarrow> u32 list \<Rightarrow> string" where
  "dump_dims first (n # ns) (d # ds) =
     (if first then [] else '','') @ n @ '':'' @ dec_nat (unat d) @ dump_dims False ns ds"
| "dump_dims first _ _ = []"

definition dump_Type :: "Type \<Rightarrow> string res" where
  "dump_Type t =
     bind_res (getElementName (ty_elem t))
       (\<lambda>s. Inr (s @ ''<'' @ dump_dims True (ty_names t) (ty_sizes t) @ ''>''))"

section \<open>Expression types\<close>

record ExprType =
  ety_kind :: ElemKind
  ety_width :: u32

definition mkExprType :: "ElemKind \<Rightarrow> u32 \<Rightarrow> ExprType res" where
  "mkExprType elemTy width =
     bind_res (require (0 < width \<and> width < 64) ''Invalid vector width'')
       (\<lambda>_. Inr \<lparr>ety_kind = elemTy, ety_width = width\<rparr>)"

definition scalarTy :: "ElemKind \<Rightarrow> ExprType" where
  "scalarTy k = \<lparr>ety_kind = k, ety_width = 1\<rparr>"

definition ety_isIndexTy :: "ExprType \<Rightarrow> bool" where
  "ety_isIndexTy t \<longleftrightarrow> ety_kind t = IndexTy"

definition ety_isFPTy :: "ExprType \<Rightarrow> bool" where
  "ety_isFPTy t \<longleftrightarrow> ety_kind t = Float32Ty"

definition ExprType_isEqual :: "ExprType \<Rightarrow> ExprType \<Rightarrow> bool" where
  "ExprType_isEqual t other \<longleftrightarrow> ety_kind t = ety_kind other \<and> ety_width t = ety_width other"

definition isVector :: "ExprType \<Rightarrow> bool" where
  "isVector t \<longleftrightarrow> ety_width t \<noteq> 1"

definition asVector :: "ExprType \<Rightarrow> u32 \<Rightarrow> ExprType res" where
  "asVector t vf =
     bind_res (require (ety_width t = 1) ''Can't vectorize a vector type'')
       (\<lambda>_. mkExprType (ety_kind t) vf)"

definition getTypename :: "ExprType \<Rightarrow> string res" where
  "getTypename t =
     bind_res (getElementName (ety_kind t))
       (\<lambda>res. Inr (if 1 < ety_width t then res @ dec_nat (unat (ety_width t)) else res))"

definition hash_ExprType :: "ExprType \<Rightarrow> u64" where
  "hash_ExprType t = hashJoin (of_nat (elemKind_code (ety_kind t))) (ucast (ety_width t))"

section \<open>Facts\<close>

lemma ExprType_isEqual_iff [simp]: "ExprType_isEqual a b \<longleftrightarrow> a = b"
  by (cases a; cases b) (simp add: ExprType_isEqual_def)

lemma scalarTy_simps [simp]: "ety_kind (scalarTy k) = k" "ety_width (scalarTy k) = 1"
  by (simp_all add: scalarTy_def)

lemma findDim_in_range:
  "length ns = length ds \<Longrightarrow> name \<in> set ns \<Longrightarrow> \<exists>i < length ds. ns ! i = name \<and> findDim ds ns name = ds ! i"
proof (induction ds ns name rule: findDim.induct)
  case (1 d ds n ns name)
  show ?case
  proof (cases "n = name")
    case True
    then show ?thesis by auto
  next
    case False
    with "1.prems" "1.IH" obtain i where "i < length ds" "ns ! i = name" "findDim ds ns name = ds ! i"
      by auto
    with False show ?thesis by (intro exI [of _ "Suc i"]) auto
  qed
qed auto

lemma findDim_absent: "name \<notin> set ns \<Longrightarrow> findDim ds ns name = 0"
  by (induction ds ns name rule: findDim.induct) auto

lemma getSize_unat: "unat (getSize t) = prod_list (map unat (ty_sizes t)) mod 2 ^ 32"
proof -
  have "unat (foldl (\<lambda>size d. size * d) a ds) = (unat a * prod_list (map unat ds)) mod 2 ^ 32"
    for a :: u32 and ds
  proof (induction ds arbitrary: a)
    case Nil
    then show ?case using unat_u32_bound [of a] by simp
  next
    case (Cons d ds)
    have "unat (foldl (\<lambda>size d. size * d) a (d # ds)) = (unat (a * d) * prod_list (map unat ds)) mod 2 ^ 32"
      using Cons.IH [of "a * d"] by simp
    then show ?case by (simp add: unat_word_ariths mod_mult_left_eq mult.assoc)
  qed
  from this [of 1 "ty_sizes t"] show ?thesis by (simp add: getSize_def)
qed

section \<open>Properties\<close>

text \<open>\<open>getSize\<close> of a tensor type is the product of the dimensions, computed in 32 bits: it wraps
  modulo \<open>2 ^ 32\<close> for tensors that are too large.\<close>

theorem getSize_product: "unat (getSize t) = prod_list (map unat (ty_sizes t)) mod 2 ^ 32"
  by (rule getSize_unat)

end
