(* ===== verification/Floats.thy ===== *)
theory Floats
  imports Prelude
begin

text \<open>
  A C++ \<open>float\<close> as its IEEE binary32 pattern. Only what the compiler itself does with constants
  is defined here, bit by bit: comparison, the truncating cast of \<open>ConstantFPExpr::hash\<close> and the
  text of \<open>std::to_string\<close>. The arithmetic of the target and of the host is a parameter of the
  model (the record \<open>machine\<close> of theory Semantics).
\<close>

unbundle bit_operations_syntax

definition f32_neg :: "f32 \<Rightarrow> bool" where
  "f32_neg w \<longleftrightarrow> bit w 31"

definition f32_exp :: "f32 \<Rightarrow> nat" where
  "f32_exp w = unat (drop_bit 23 w AND 0xFF)"

definition f32_man :: "f32 \<Rightarrow> nat" where
  "f32_man w = unat (w AND 0x7FFFFF)"

definition f32_nan :: "f32 \<Rightarrow> bool" where
  "f32_nan w \<longleftrightarrow> f32_exp w = 255 \<and> f32_man w \<noteq> 0"

definition f32_inf :: "f32 \<Rightarrow> bool" where
  "f32_inf w \<longleftrightarrow> f32_exp w = 255 \<and> f32_man w = 0"

definition f32_zero :: "f32 \<Rightarrow> bool" where
  "f32_zero w \<longleftrightarrow> w AND 0x7FFFFFFF = 0"

definition f32_one :: f32 where
  "f32_one = 0x3F800000"

text \<open>The operator \<open>==\<close> on floats: no NaN equals anything, and the two zeros are equal.\<close>

definition f32_eq :: "f32 \<Rightarrow> f32 \<Rightarrow> bool" where
  "f32_eq a b \<longleftrightarrow> \<not> f32_nan a \<and> \<not> f32_nan b \<and> (a = b \<or> f32_zero a \<and> f32_zero b)"

text \<open>
  A finite pattern stands for \<open>significand * 2 ^ (exponent - 150)\<close> with the implicit bit added
  for normal numbers.
\<close>

definition f32_sig :: "f32 \<Rightarrow> nat" where
  "f32_sig w = (if f32_exp w = 0 then f32_man w else 2 ^ 23 + f32_man w)"

definition f32_scale :: "f32 \<Rightarrow> nat" where
  "f32_scale w = (if f32_exp w = 0 then 1 else f32_exp w)"

definition f32_trunc :: "f32 \<Rightarrow> nat" where
  "f32_trunc w =
     (if 150 \<le> f32_scale w then f32_sig w * 2 ^ (f32_scale w - 150)
      else f32_sig w div 2 ^ (150 - f32_scale w))"

text \<open>\<open>static_cast<uint64_t>(float)\<close>: undefined when the truncated value does not fit.\<close>

definition u64_of_f32 :: "f32 \<Rightarrow> u64 res" where
  "u64_of_f32 w =
     (if f32_exp w = 255 \<or> 2 ^ 64 \<le> f32_trunc w \<or> (f32_neg w \<and> f32_trunc w \<noteq> 0)
      then Inl (UB ''float out of range of uint64_t'')
      else Inr (of_nat (f32_trunc w)))"

text \<open>\<open>std::to_string(float)\<close> prints with six decimals, rounding half to even.\<close>

definition round_half_even :: "nat \<Rightarrow> nat \<Rightarrow> nat" where
  "round_half_even n d =
     (let q = n div d; r = n mod d in if d < 2 * r \<or> (2 * r = d \<and> odd q) then Suc q else q)"

definition f32_micros :: "f32 \<Rightarrow> nat" where
  "f32_micros w =
     (if 150 \<le> f32_scale w then f32_sig w * 10 ^ 6 * 2 ^ (f32_scale w - 150)
      else round_half_even (f32_sig w * 10 ^ 6) (2 ^ (150 - f32_scale w)))"

definition pad6 :: "string \<Rightarrow> string" where
  "pad6 s = replicate (6 - length s) (CHR ''0'') @ s"

definition string_of_f32 :: "f32 \<Rightarrow> string" where
  "string_of_f32 w =
     (if f32_neg w then ''-'' else []) @
     (if f32_nan w then ''nan'' else if f32_inf w then ''inf''
      else dec_nat (f32_micros w div 10 ^ 6) @ ''.'' @ pad6 (dec_nat (f32_micros w mod 10 ^ 6)))"

lemma f32_eq_sym: "f32_eq a b \<Longrightarrow> f32_eq b a"
  by (auto simp: f32_eq_def)

lemma f32_eq_trans: "f32_eq a b \<Longrightarrow> f32_eq b c \<Longrightarrow> f32_eq a c"
  by (auto simp: f32_eq_def)

lemma f32_zero_fields: "f32_zero w \<Longrightarrow> f32_exp w = 0 \<and> f32_man w = 0"
proof
  assume z: "f32_zero w"
  then have b: "\<not> bit w n" if "n < 31" for n
  proof -
    have "bit (w AND 0x7FFFFFFF) n \<longleftrightarrow> bit w n \<and> bit (mask 31 :: f32) n"
      by (simp add: bit_simps mask_numeral)
    with z that show ?thesis by (simp add: f32_zero_def bit_simps)
  qed
  have "drop_bit 23 w AND mask 8 = 0"
    by (rule bit_word_eqI) (auto simp: bit_simps b)
  then show "f32_exp w = 0" by (simp add: f32_exp_def mask_numeral)
  have "w AND mask 23 = 0"
    by (rule bit_word_eqI) (auto simp: bit_simps b)
  then show "f32_man w = 0" by (simp add: f32_man_def mask_numeral)
qed

lemma u64_of_f32_zero: "f32_zero w \<Longrightarrow> u64_of_f32 w = Inr 0"
  by (drule f32_zero_fields) (simp add: u64_of_f32_def f32_trunc_def f32_sig_def f32_scale_def)

lemma u64_of_f32_cong: "f32_eq a b \<Longrightarrow> u64_of_f32 a = u64_of_f32 b"
  by (auto simp: f32_eq_def u64_of_f32_zero)

end
