(* ===== verification/Program.thy ===== *)
theory Program
  imports Types Floats
begin

text \<open>
  The program representation of \<open>include/bistra/Program/Program.h\<close>.

  An AST node owns its children through handles, so a program is a tree: the datatypes \<open>expr\<close>
  and \<open>stmt\<close> have the classes of the header as constructors. \<open>Loop*\<close>, \<open>Argument*\<close> and
  \<open>LocalVar*\<close> are shared, not owned, by the expressions that mention them: they are addresses
  into a \<open>heap\<close> that holds the fields of the three classes, so that \<open>setEnd\<close>, \<open>setStride\<close>,
  \<open>setName\<close> and \<open>setType\<close> are seen by every expression that holds the pointer. \<open>hp_next\<close> is
  the next address \<open>new\<close> returns. Debug locations, which no operation but the printing of
  diagnostics reads, are not part of the nodes.
\<close>

section \<open>Nodes\<close>

type_synonym loop_ptr = nat
type_synonym arg_ptr = nat
type_synonym var_ptr = nat

datatype BinOpKind = Mul | Add | Div | Sub | Max | Min | Pow

datatype UnaryOpKind = Exp | Log | Sqrt | Abs

datatype expr =
    IndexExpr ExprType loop_ptr
  | ConstantExpr i64
  | ConstantFPExpr f32
  | ConstantStringExpr string
  | BinaryExpr BinOpKind expr expr
  | UnaryExpr UnaryOpKind expr
  | BroadcastExpr expr u32
  | GEPExpr arg_ptr "expr list"
  | LoadExpr ExprType expr
  | LoadLocalExpr ExprType var_ptr

datatype stmt =
    Loop loop_ptr "stmt list"
  | IfRange expr int int "stmt list"
  | CallStmt string "expr list"
  | StoreStmt expr expr bool
  | StoreLocalStmt var_ptr expr bool

record loop_info =
  lp_name :: string
  lp_end :: u32
  lp_stride :: u32

record argument =
  arg_name :: string
  arg_type :: Type

record local_var =
  var_name :: string
  var_type :: ExprType

record heap =
  hp_loop :: "loop_ptr \<Rightarrow> loop_info"
  hp_arg :: "arg_ptr \<Rightarrow> argument"
  hp_var :: "var_ptr \<Rightarrow> local_var"
  hp_next :: nat

record program =
  pr_name :: string
  pr_args :: "arg_ptr list"
  pr_vars :: "var_ptr list"
  pr_body :: "stmt list"

section \<open>Objects: new and the setters\<close>

definition new_loop :: "heap \<Rightarrow> string \<Rightarrow> u32 \<Rightarrow> u32 \<Rightarrow> loop_ptr \<times> heap" where
  "new_loop h name end stride =
     (hp_next h,
      h\<lparr>hp_loop := (hp_loop h)(hp_next h := \<lparr>lp_name = name, lp_end = end, lp_stride = stride\<rparr>),
        hp_next := Suc (hp_next h)\<rparr>)"

definition new_arg :: "heap \<Rightarrow> argument \<Rightarrow> arg_ptr \<times> heap" where
  "new_arg h a = (hp_next h, h\<lparr>hp_arg := (hp_arg h)(hp_next h := a), hp_next := Suc (hp_next h)\<rparr>)"

definition new_var :: "heap \<Rightarrow> local_var \<Rightarrow> var_ptr \<times> heap" where
  "new_var h v = (hp_next h, h\<lparr>hp_var := (hp_var h)(hp_next h := v), hp_next := Suc (hp_next h)\<rparr>)"

definition loop_name :: "heap \<Rightarrow> loop_ptr \<Rightarrow> string" where
  "loop_name h L = lp_name (hp_loop h L)"

definition loop_end :: "heap \<Rightarrow> loop_ptr \<Rightarrow> u32" where
  "loop_end h L = lp_end (hp_loop h L)"

definition loop_stride :: "heap \<Rightarrow> loop_ptr \<Rightarrow> u32" where
  "loop_stride h L = lp_stride (hp_loop h L)"

definition setName :: "heap \<Rightarrow> loop_ptr \<Rightarrow> string \<Rightarrow> heap" where
  "setName h L name = h\<lparr>hp_loop := (hp_loop h)(L := (hp_loop h L)\<lparr>lp_name := name\<rparr>)\<rparr>"

definition setEnd :: "heap \<Rightarrow> loop_ptr \<Rightarrow> u32 \<Rightarrow> heap" where
  "setEnd h L tc = h\<lparr>hp_loop := (hp_loop h)(L := (hp_loop h L)\<lparr>lp_end := tc\<rparr>)\<rparr>"

definition setStride :: "heap \<Rightarrow> loop_ptr \<Rightarrow> u32 \<Rightarrow> heap" where
  "setStride h L s = h\<lparr>hp_loop := (hp_loop h)(L := (hp_loop h L)\<lparr>lp_stride := s\<rparr>)\<rparr>"

definition arg_setType :: "heap \<Rightarrow> arg_ptr \<Rightarrow> Type \<Rightarrow> heap" where
  "arg_setType h a t = h\<lparr>hp_arg := (hp_arg h)(a := (hp_arg h a)\<lparr>arg_type := t\<rparr>)\<rparr>"

section \<open>Types of expressions\<close>

text \<open>
  The field \<open>type_\<close> of \<open>Expr\<close>, as the constructors set it: a binary expression has the type of
  its left operand, a broadcast the element kind of its operand and the width \<open>vf\<close>.
\<close>

fun getType :: "expr \<Rightarrow> ExprType" where
  "getType (IndexExpr ty L) = ty"
| "getType (ConstantExpr v) = scalarTy IndexTy"
| "getType (ConstantFPExpr v) = scalarTy Float32Ty"
| "getType (ConstantStringExpr s) = scalarTy IndexTy"
| "getType (BinaryExpr k l r) = getType l"
| "getType (UnaryExpr k e) = getType e"
| "getType (BroadcastExpr e vf) = \<lparr>ety_kind = ety_kind (getType e), ety_width = vf\<rparr>"
| "getType (GEPExpr a is) = scalarTy PtrTy"
| "getType (LoadExpr ty g) = ty"
| "getType (LoadLocalExpr ty v) = ty"

fun is_GEP :: "expr \<Rightarrow> bool" where
  "is_GEP (GEPExpr a is) = True"
| "is_GEP _ = False"

section \<open>Constructors with their assertions\<close>

definition new_IndexExpr :: "loop_ptr \<Rightarrow> expr" where
  "new_IndexExpr L = IndexExpr (scalarTy IndexTy) L"

definition new_BinaryExpr :: "expr \<Rightarrow> expr \<Rightarrow> BinOpKind \<Rightarrow> expr res" where
  "new_BinaryExpr l r k =
     bind_res (require (ExprType_isEqual (getType l) (getType r)) ''Invalid expr type'')
       (\<lambda>_. Inr (BinaryExpr k l r))"

definition new_BroadcastExpr :: "expr \<Rightarrow> u32 \<Rightarrow> expr res" where
  "new_BroadcastExpr e vf =
     bind_res (asVector (getType e) vf) (\<lambda>_. Inr (BroadcastExpr e vf))"

definition new_GEPExpr :: "heap \<Rightarrow> arg_ptr \<Rightarrow> expr list \<Rightarrow> expr res" where
  "new_GEPExpr h a indices =
     bind_res (each_res (\<lambda>e. require (ety_isIndexTy (getType e)) ''Argument must be of index kind'')
                indices) (\<lambda>_.
     bind_res (require (getNumDims (arg_type (hp_arg h a)) = length indices)
                ''Invalid number of indices'') (\<lambda>_.
     Inr (GEPExpr a indices)))"

definition new_LoadExpr :: "expr \<Rightarrow> ExprType \<Rightarrow> expr res" where
  "new_LoadExpr gep ty =
     bind_res (require (is_GEP gep) ''dynamic_cast<GEPExpr>'') (\<lambda>_. Inr (LoadExpr ty gep))"

definition new_LoadExpr_arg :: "heap \<Rightarrow> arg_ptr \<Rightarrow> expr list \<Rightarrow> ExprType \<Rightarrow> expr res" where
  "new_LoadExpr_arg h a indices ty =
     bind_res (new_GEPExpr h a indices) (\<lambda>g. Inr (LoadExpr ty g))"

definition new_LoadLocalExpr :: "heap \<Rightarrow> var_ptr \<Rightarrow> expr" where
  "new_LoadLocalExpr h v = LoadLocalExpr (var_type (hp_var h v)) v"

definition new_StoreStmt :: "expr \<Rightarrow> expr \<Rightarrow> bool \<Rightarrow> stmt res" where
  "new_StoreStmt gep value accumulate =
     bind_res (require (is_GEP gep) ''dynamic_cast<GEPExpr>'')
       (\<lambda>_. Inr (StoreStmt gep value accumulate))"

definition new_StoreStmt_arg :: "heap \<Rightarrow> arg_ptr \<Rightarrow> expr list \<Rightarrow> expr \<Rightarrow> bool \<Rightarrow> stmt res" where
  "new_StoreStmt_arg h a indices value accumulate =
     bind_res (new_GEPExpr h a indices) (\<lambda>g. Inr (StoreStmt g value accumulate))"

definition new_StoreLocalStmt :: "heap \<Rightarrow> var_ptr \<Rightarrow> expr \<Rightarrow> bool \<Rightarrow> stmt res" where
  "new_StoreLocalStmt h v value accumulate =
     bind_res (require (ExprType_isEqual (getType value) (var_type (hp_var h v))) ''invalid stored type'')
       (\<lambda>_. Inr (StoreLocalStmt v value accumulate))"

section \<open>Operator symbols\<close>

fun isCommutative :: "BinOpKind \<Rightarrow> bool" where
  "isCommutative Mul = True"
| "isCommutative Add = True"
| "isCommutative Max = True"
| "isCommutative Min = True"
| "isCommutative Div = False"
| "isCommutative Sub = False"
| "isCommutative Pow = False"

fun binOp_code :: "BinOpKind \<Rightarrow> nat" where
  "binOp_code Mul = 0"
| "binOp_code Add = 1"
| "binOp_code Div = 2"
| "binOp_code Sub = 3"
| "binOp_code Max = 4"
| "binOp_code Min = 5"
| "binOp_code Pow = 6"

fun unOp_code :: "UnaryOpKind \<Rightarrow> nat" where
  "unOp_code Exp = 0"
| "unOp_code Log = 1"
| "unOp_code Sqrt = 2"
| "unOp_code Abs = 3"

fun binOpSymbol :: "BinOpKind \<Rightarrow> string" where
  "binOpSymbol Add = '' + ''"
| "binOpSymbol Mul = '' * ''"
| "binOpSymbol Sub = '' - ''"
| "binOpSymbol Div = '' / ''"
| "binOpSymbol Max = ''max''"
| "binOpSymbol Min = ''min''"
| "binOpSymbol Pow = ''pow''"

fun unOpSymbol :: "UnaryOpKind \<Rightarrow> string" where
  "unOpSymbol Exp = ''exp''"
| "unOpSymbol Sqrt = ''sqrt''"
| "unOpSymbol Log = ''log''"
| "unOpSymbol Abs = ''abs''"

lemma binOp_code_inject [simp]: "binOp_code a = binOp_code b \<longleftrightarrow> a = b"
  by (cases a; cases b) simp_all

lemma unOp_code_inject [simp]: "unOp_code a = unOp_code b \<longleftrightarrow> a = b"
  by (cases a; cases b) simp_all

section \<open>Program: arguments and local variables\<close>

definition getVar :: "heap \<Rightarrow> program \<Rightarrow> string \<Rightarrow> var_ptr option" where
  "getVar h p name = find (\<lambda>v. name = var_name (hp_var h v)) (pr_vars p)"

definition getArg :: "program \<Rightarrow> nat \<Rightarrow> arg_ptr res" where
  "getArg p idx =
     bind_res (require (idx < length (pr_args p)) ''Invalid arg index'') (\<lambda>_. Inr (pr_args p ! idx))"

definition getVarAt :: "program \<Rightarrow> nat \<Rightarrow> var_ptr res" where
  "getVarAt p idx =
     bind_res (require (idx < length (pr_vars p)) ''Invalid var index'') (\<lambda>_. Inr (pr_vars p ! idx))"

fun indexIn :: "nat \<Rightarrow> nat list \<Rightarrow> nat \<Rightarrow> nat option" where
  "indexIn idx [] x = None"
| "indexIn idx (a # as) x = (if a = x then Some idx else indexIn (Suc idx) as x)"

definition getArgIndex :: "program \<Rightarrow> arg_ptr \<Rightarrow> nat res" where
  "getArgIndex p arg =
     (case indexIn 0 (pr_args p) arg of Some i \<Rightarrow> Inr i | None \<Rightarrow> Inl (AssertFail ''invalid argument''))"

definition getVarIndex :: "program \<Rightarrow> var_ptr \<Rightarrow> nat res" where
  "getVarIndex p var =
     (case indexIn 0 (pr_vars p) var of Some i \<Rightarrow> Inr i | None \<Rightarrow> Inl (AssertFail ''invalid variable''))"

definition addArg :: "program \<Rightarrow> arg_ptr \<Rightarrow> program" where
  "addArg p a = p\<lparr>pr_args := pr_args p @ [a]\<rparr>"

definition addVar :: "program \<Rightarrow> var_ptr \<Rightarrow> program" where
  "addVar p v = p\<lparr>pr_vars := pr_vars p @ [v]\<rparr>"

definition addArgument ::
  "heap \<Rightarrow> program \<Rightarrow> string \<Rightarrow> u32 list \<Rightarrow> string list \<Rightarrow> ElemKind \<Rightarrow> (arg_ptr \<times> heap \<times> program) res"
where
  "addArgument h p name dims names ty =
     bind_res (mkType ty dims names) (\<lambda>t.
       let (a, h') = new_arg h \<lparr>arg_name = name, arg_type = t\<rparr> in Inr (a, h', addArg p a))"

definition addLocalVar :: "heap \<Rightarrow> program \<Rightarrow> string \<Rightarrow> ExprType \<Rightarrow> var_ptr \<times> heap \<times> program" where
  "addLocalVar h p name ty =
     (let (v, h') = new_var h \<lparr>var_name = name, var_type = ty\<rparr> in (v, h', addVar p v))"

text \<open>
  The loop of \<open>addTempVar\<close> tries \<open>hint1\<close>, \<open>hint2\<close>, and so on until no variable has the name.
  The fuel bounds the number of names tried; \<open>tempName_found\<close> below shows that one more than
  the number of variables is always enough.
\<close>

fun tempName :: "nat \<Rightarrow> heap \<Rightarrow> program \<Rightarrow> string \<Rightarrow> u32 \<Rightarrow> string option" where
  "tempName 0 h p hint counter = None"
| "tempName (Suc fuel) h p hint counter =
     (let name = hint @ dec_nat (unat counter) in
      if getVar h p name \<noteq> None then tempName fuel h p hint (counter + 1) else Some name)"

definition addTempVar :: "heap \<Rightarrow> program \<Rightarrow> string \<Rightarrow> ExprType \<Rightarrow> (var_ptr \<times> heap \<times> program) option" where
  "addTempVar h p hint ty =
     (case tempName (Suc (length (pr_vars p))) h p hint 1 of
        None \<Rightarrow> None
      | Some name \<Rightarrow> Some (addLocalVar h p name ty))"

section \<open>Fresh names\<close>

lemma getVar_None: "getVar h p name = None \<longleftrightarrow> (\<forall>v \<in> set (pr_vars p). var_name (hp_var h v) \<noteq> name)"
  by (auto simp: getVar_def find_None_iff)

definition tried_name :: "string \<Rightarrow> u32 \<Rightarrow> nat \<Rightarrow> string" where
  "tried_name hint counter k = hint @ dec_nat (unat (counter + of_nat k))"

lemma tempName_first:
  "(\<And>j. j < k \<Longrightarrow> getVar h p (tried_name hint counter j) \<noteq> None) \<Longrightarrow>
   getVar h p (tried_name hint counter k) = None \<Longrightarrow>
   tempName (Suc k) h p hint counter = Some (tried_name hint counter k)"
proof (induction k arbitrary: counter)
  case 0
  then show ?case by (simp add: tried_name_def)
next
  case (Suc k)
  have shift: "tried_name hint (counter + 1) j = tried_name hint counter (Suc j)" for j
    by (simp add: tried_name_def add.assoc)
  have "getVar h p (tried_name hint counter 0) \<noteq> None" by (rule Suc.prems(1)) simp
  then have "getVar h p (hint @ dec_nat (unat counter)) \<noteq> None" by (simp add: tried_name_def)
  moreover have "tempName (Suc k) h p hint (counter + 1) = Some (tried_name hint (counter + 1) k)"
    using Suc.prems unfolding shift [symmetric] by (intro Suc.IH) (simp_all add: shift)
  ultimately show ?case unfolding shift by (subst tempName.simps) (simp add: Let_def)
qed

lemma tempName_fuel: "tempName m h p hint c = Some x \<Longrightarrow> m \<le> n \<Longrightarrow> tempName n h p hint c = Some x"
proof (induction m arbitrary: n c)
  case (Suc m)
  then obtain n' where "n = Suc n'" "m \<le> n'" by (cases n) auto
  with Suc show ?case by (auto simp: Let_def split: if_splits)
qed simp

text \<open>Among one more names than there are variables, one is free.\<close>

lemma free_name_exists:
  assumes "length (pr_vars p) < 2 ^ 32"
  shows "\<exists>k \<le> length (pr_vars p). getVar h p (tried_name hint c k) = None"
proof (rule ccontr)
  let ?n = "length (pr_vars p)" and ?name = "tried_name hint c"
  assume none: "\<not> ?thesis"
  have sub: "?name ` {0..?n} \<subseteq> (\<lambda>v. var_name (hp_var h v)) ` set (pr_vars p)"
  proof (rule image_subsetI)
    fix k assume "k \<in> {0..?n}"
    with none have "getVar h p (?name k) \<noteq> None" by auto
    then show "?name k \<in> (\<lambda>v. var_name (hp_var h v)) ` set (pr_vars p)"
      unfolding getVar_None by (metis imageI)
  qed
  have "inj_on ?name {0..?n}"
  proof (rule inj_onI)
    fix i j assume ij: "i \<in> {0..?n}" "j \<in> {0..?n}" "?name i = ?name j"
    then have "c + of_nat i = c + of_nat j" by (simp add: tried_name_def word_unat_eq_iff)
    then have "(of_nat i :: u32) = of_nat j" by simp
    then have "i mod 2 ^ 32 = j mod 2 ^ 32" by (simp add: word_of_nat_eq_iff take_bit_eq_mod)
    with ij assms show "i = j" by simp
  qed
  then have "card (?name ` {0..?n}) = Suc ?n" by (simp add: card_image)
  moreover have "card (?name ` {0..?n}) \<le> card (set (pr_vars p))"
    using card_mono [OF _ sub] card_image_le [of "set (pr_vars p)" "\<lambda>v. var_name (hp_var h v)"] by simp
  moreover have "card (set (pr_vars p)) \<le> ?n" by (rule card_length)
  ultimately show False by simp
qed

lemma tempName_found:
  assumes "length (pr_vars p) < 2 ^ 32"
  obtains k where "tempName (Suc (length (pr_vars p))) h p hint c = Some (tried_name hint c k)"
    "getVar h p (tried_name hint c k) = None"
proof -
  let ?free = "\<lambda>k. getVar h p (tried_name hint c k) = None"
  obtain k0 where k0: "k0 \<le> length (pr_vars p)" "?free k0" using free_name_exists [OF assms] by blast
  define k where "k = (LEAST k. ?free k)"
  have k: "?free k" "k \<le> k0" unfolding k_def using k0(2) by (rule LeastI, rule Least_le)
  have "?free j \<Longrightarrow> k \<le> j" for j unfolding k_def by (rule Least_le)
  then have "\<And>j. j < k \<Longrightarrow> \<not> ?free j" using leD by blast
  then have "tempName (Suc k) h p hint c = Some (tried_name hint c k)"
    by (intro tempName_first k(1))
  then have "tempName (Suc (length (pr_vars p))) h p hint c = Some (tried_name hint c k)"
    by (rule tempName_fuel) (use k(2) k0(1) in simp)
  with k(1) show ?thesis by (rule that [rotated])
qed

text \<open>\<open>addTempVar\<close> always returns a variable, and its name is the hint with a number appended
  and differs from the name of every variable the program already has, so that names stay unique
  as \<open>verify\<close> demands.\<close>

theorem addTempVar_fresh:
  "length (pr_vars p) < 2 ^ 32 \<Longrightarrow>
   \<exists>v h' p' k. addTempVar h p hint ty = Some (v, h', p')
     \<and> pr_vars p' = pr_vars p @ [v]
     \<and> var_name (hp_var h' v) = hint @ dec_nat k \<and> var_type (hp_var h' v) = ty
     \<and> (\<forall>w \<in> set (pr_vars p). var_name (hp_var h w) \<noteq> var_name (hp_var h' v))"
proof -
  assume "length (pr_vars p) < 2 ^ 32"
  then obtain k where k: "tempName (Suc (length (pr_vars p))) h p hint 1 = Some (tried_name hint 1 k)"
    "getVar h p (tried_name hint 1 k) = None" by (rule tempName_found)
  define v h' where "v = hp_next h"
    and "h' = h\<lparr>hp_var := (hp_var h)(v := \<lparr>var_name = tried_name hint 1 k, var_type = ty\<rparr>), hp_next := Suc v\<rparr>"
  have "addTempVar h p hint ty = Some (v, h', addVar p v)"
    using k(1) by (simp add: addTempVar_def addLocalVar_def new_var_def v_def h'_def)
  moreover have "var_name (hp_var h' v) = hint @ dec_nat (unat (1 + of_nat k :: u32))" "var_type (hp_var h' v) = ty"
    "pr_vars (addVar p v) = pr_vars p @ [v]"
    by (simp_all add: h'_def tried_name_def addVar_def)
  moreover have "var_name (hp_var h w) \<noteq> var_name (hp_var h' v)" if "w \<in> set (pr_vars p)" for w
    using k(2) that by (simp add: getVar_None h'_def)
  ultimately show ?thesis by metis
qed

definition demo_vars :: "heap \<times> program" where
  "demo_vars =
     (\<lparr>hp_loop = (\<lambda>L. \<lparr>lp_name = [], lp_end = 1, lp_stride = 1\<rparr>),
       hp_arg = (\<lambda>a. \<lparr>arg_name = [], arg_type = \<lparr>ty_sizes = [], ty_names = [], ty_elem = Float32Ty\<rparr>\<rparr>),
       hp_var = (\<lambda>v. \<lparr>var_name = ''t1'', var_type = scalarTy Float32Ty\<rparr>), hp_next = 1\<rparr>,
      \<lparr>pr_name = ''f'', pr_args = [], pr_vars = [0], pr_body = []\<rparr>)"

theorem addTempVar_fresh_witness:
  "\<exists>v h' p' k. addTempVar (fst demo_vars) (snd demo_vars) ''t'' (scalarTy Float32Ty) = Some (v, h', p')
     \<and> var_name (hp_var h' v) = ''t'' @ dec_nat k \<and> var_name (hp_var h' v) \<noteq> ''t1''"
  using addTempVar_fresh [of "snd demo_vars" "fst demo_vars" "''t''" "scalarTy Float32Ty"]
  by (fastforce simp: demo_vars_def)

end
