(* ===== verification/Hashing.thy ===== *)
theory Hashing
  imports Program
begin

text \<open>
  The \<open>hash\<close> and \<open>compare\<close> methods of \<open>lib/Program/Program.cpp\<close>. Hashes read the names and
  types behind the pointers, comparisons compare the pointers, so two nodes that compare equal
  have the same hash (\<open>compare_expr_hash\<close>, \<open>compare_stmt_hash\<close>); the evaluator pass of the
  optimizer relies on the hash of a program alone to recognise programs it has already run.
\<close>

section \<open>Hash\<close>

definition hash_Argument :: "argument \<Rightarrow> u64" where
  "hash_Argument a = hashJoin (hashString (arg_name a)) (hash_Type (arg_type a))"

definition hash_LocalVar :: "local_var \<Rightarrow> u64" where
  "hash_LocalVar v = hashJoin (hashString (var_name v)) (hash_ExprType (var_type v))"

text \<open>The loops \<open>hash = hashJoin(hash, E->hash())\<close> over the children.\<close>

fun join_hashes :: "u64 \<Rightarrow> u64 res list \<Rightarrow> u64 res" where
  "join_hashes h [] = Inr h"
| "join_hashes h (x # xs) = bind_res x (\<lambda>y. join_hashes (hashJoin h y) xs)"

fun hash_expr :: "heap \<Rightarrow> expr \<Rightarrow> u64 res" where
  "hash_expr h (ConstantExpr v) = Inr v"
| "hash_expr h (ConstantFPExpr v) = u64_of_f32 v"
| "hash_expr h (ConstantStringExpr s) = Inr (hashString s)"
| "hash_expr h (BroadcastExpr e vf) =
     bind_res (hash_expr h e)
       (\<lambda>x. Inr (hashJoin (hash_ExprType (getType (BroadcastExpr e vf))) x))"
| "hash_expr h (LoadExpr ty g) =
     bind_res (hash_expr h g) (\<lambda>x. Inr (hashJoin (hash_ExprType ty) x))"
| "hash_expr h (GEPExpr a is) = join_hashes (hash_Argument (hp_arg h a)) (map (hash_expr h) is)"
| "hash_expr h (LoadLocalExpr ty v) =
     Inr (hashJoin (hash_ExprType ty) (hash_LocalVar (hp_var h v)))"
| "hash_expr h (IndexExpr ty L) = Inr (hashJoin (hashString (loop_name h L)) 0xff)"
| "hash_expr h (BinaryExpr k l r) =
     bind_res (hash_expr h l) (\<lambda>x. bind_res (hash_expr h r) (\<lambda>y.
       Inr (hashJoin3 (of_nat (binOp_code k)) x y)))"
| "hash_expr h (UnaryExpr k e) =
     bind_res (hash_expr h e) (\<lambda>x. Inr (hashJoin (of_nat (unOp_code k)) x))"

text \<open>\<open>Scope::hash\<close> starts from the number of statements.\<close>

fun hash_stmt :: "heap \<Rightarrow> stmt \<Rightarrow> u64 res" where
  "hash_stmt h (Loop L body) =
     bind_res (join_hashes (of_nat (length body)) (map (hash_stmt h) body)) (\<lambda>s.
       Inr (hashJoin (hashJoin3 (hashString (loop_name h L)) (ucast (loop_end h L))
                       (ucast (loop_stride h L))) s))"
| "hash_stmt h (IfRange val start end body) =
     bind_res (hash_expr h val) (\<lambda>v.
     bind_res (join_hashes (of_nat (length body)) (map (hash_stmt h) body)) (\<lambda>s.
       Inr (hashJoin (hashJoin3 v (word_of_int start) (word_of_int end)) s)))"
| "hash_stmt h (CallStmt name params) =
     bind_res (join_hashes (hashString name) (map (hash_expr h) params)) (\<lambda>x.
       Inr (hashJoin x (of_nat (length params))))"
| "hash_stmt h (StoreStmt gep value accumulate) =
     bind_res (hash_expr h gep) (\<lambda>x. bind_res (hash_expr h value) (\<lambda>y.
       Inr (hashJoin3 (of_bool accumulate) x y)))"
| "hash_stmt h (StoreLocalStmt v value accumulate) =
     bind_res (hash_expr h value) (\<lambda>y.
       Inr (hashJoin3 (of_bool accumulate) (hash_LocalVar (hp_var h v)) y))"

definition hash_scope :: "heap \<Rightarrow> stmt list \<Rightarrow> u64 res" where
  "hash_scope h body = join_hashes (of_nat (length body)) (map (hash_stmt h) body)"

definition hash_program :: "heap \<Rightarrow> program \<Rightarrow> u64 res" where
  "hash_program h p =
     (let hash = hashString (pr_name p);
          hash = foldl (\<lambda>x a. hashJoin x (hash_Argument (hp_arg h a))) hash (pr_args p);
          hash = foldl (\<lambda>x v. hashJoin x (hash_LocalVar (hp_var h v))) hash (pr_vars p)
      in bind_res (hash_scope h (pr_body p)) (\<lambda>s. Inr (hashJoin s hash)))"

section \<open>Compare\<close>

text \<open>
  Each method casts the other node dynamically and compares the fields; the pointers to loops,
  arguments and variables are compared as pointers. Lists must have the same length.
\<close>

fun compare_expr :: "expr \<Rightarrow> expr \<Rightarrow> bool"
  and compare_exprs :: "expr list \<Rightarrow> expr list \<Rightarrow> bool" where
  "compare_expr (ConstantExpr a) e = (case e of ConstantExpr b \<Rightarrow> b = a | _ \<Rightarrow> False)"
| "compare_expr (ConstantFPExpr a) e = (case e of ConstantFPExpr b \<Rightarrow> f32_eq b a | _ \<Rightarrow> False)"
| "compare_expr (ConstantStringExpr a) e = (case e of ConstantStringExpr b \<Rightarrow> b = a | _ \<Rightarrow> False)"
| "compare_expr (BroadcastExpr x vf) e =
     (case e of BroadcastExpr x' vf' \<Rightarrow> vf' = vf \<and> compare_expr x x' | _ \<Rightarrow> False)"
| "compare_expr (LoadExpr ty g) e =
     (case e of LoadExpr ty' g' \<Rightarrow> ExprType_isEqual ty' ty \<and> compare_expr g g' | _ \<Rightarrow> False)"
| "compare_expr (GEPExpr a is) e =
     (case e of GEPExpr a' is' \<Rightarrow> a' = a \<and> compare_exprs is is' | _ \<Rightarrow> False)"
| "compare_expr (LoadLocalExpr ty v) e =
     (case e of LoadLocalExpr ty' v' \<Rightarrow> ExprType_isEqual ty' ty \<and> v' = v | _ \<Rightarrow> False)"
| "compare_expr (IndexExpr ty L) e = (case e of IndexExpr ty' L' \<Rightarrow> L' = L | _ \<Rightarrow> False)"
| "compare_expr (BinaryExpr k l r) e =
     (case e of BinaryExpr k' l' r' \<Rightarrow> k' = k \<and> compare_expr l l' \<and> compare_expr r r' | _ \<Rightarrow> False)"
| "compare_expr (UnaryExpr k x) e =
     (case e of UnaryExpr k' x' \<Rightarrow> k' = k \<and> compare_expr x x' | _ \<Rightarrow> False)"
| "compare_exprs [] es = (es = [])"
| "compare_exprs (x # xs) es =
     (case es of [] \<Rightarrow> False | e # es' \<Rightarrow> compare_expr x e \<and> compare_exprs xs es')"

fun compare_stmt :: "heap \<Rightarrow> stmt \<Rightarrow> stmt \<Rightarrow> bool"
  and compare_scope :: "heap \<Rightarrow> stmt list \<Rightarrow> stmt list \<Rightarrow> bool" where
  "compare_stmt h (Loop L body) s =
     (case s of Loop L' body' \<Rightarrow>
        loop_name h L' = loop_name h L \<and> loop_end h L' = loop_end h L
        \<and> loop_stride h L' = loop_stride h L \<and> compare_scope h body body'
      | _ \<Rightarrow> False)"
| "compare_stmt h (IfRange val start end body) s =
     (case s of IfRange val' start' end' body' \<Rightarrow>
        (start', end') = (start, end) \<and> compare_expr val val' \<and> compare_scope h body body'
      | _ \<Rightarrow> False)"
| "compare_stmt h (CallStmt name params) s =
     (case s of CallStmt name' params' \<Rightarrow> name' = name \<and> compare_exprs params params' | _ \<Rightarrow> False)"
| "compare_stmt h (StoreStmt gep value accumulate) s =
     (case s of StoreStmt gep' value' accumulate' \<Rightarrow>
        accumulate' = accumulate \<and> compare_expr gep gep' \<and> compare_expr value value'
      | _ \<Rightarrow> False)"
| "compare_stmt h (StoreLocalStmt v value accumulate) s =
     (case s of StoreLocalStmt v' value' accumulate' \<Rightarrow>
        accumulate' = accumulate \<and> v' = v \<and> compare_expr value' value
      | _ \<Rightarrow> False)"
| "compare_scope h [] ss = (ss = [])"
| "compare_scope h (x # xs) ss =
     (case ss of [] \<Rightarrow> False | s # ss' \<Rightarrow> compare_stmt h x s \<and> compare_scope h xs ss')"

definition compare_program :: "heap \<Rightarrow> program \<Rightarrow> program \<Rightarrow> bool" where
  "compare_program h p other \<longleftrightarrow>
     pr_name other = pr_name p \<and> pr_args other = pr_args p \<and> pr_vars other = pr_vars p
     \<and> compare_scope h (pr_body p) (pr_body other)"

section \<open>Equal nodes have equal hashes\<close>

text \<open>
  Index expressions are compared by their loop alone, while the hash of a broadcast reads the
  element kind of its operand; the element kind of an index expression is the index kind in every
  program that passes \<open>verify\<close>.
\<close>

fun index_kinds_ok :: "expr \<Rightarrow> bool" where
  "index_kinds_ok (IndexExpr ty L) \<longleftrightarrow> ety_kind ty = IndexTy"
| "index_kinds_ok (BinaryExpr k l r) \<longleftrightarrow> index_kinds_ok l \<and> index_kinds_ok r"
| "index_kinds_ok (UnaryExpr k e) \<longleftrightarrow> index_kinds_ok e"
| "index_kinds_ok (BroadcastExpr e vf) \<longleftrightarrow> index_kinds_ok e"
| "index_kinds_ok (GEPExpr a is) \<longleftrightarrow> list_all index_kinds_ok is"
| "index_kinds_ok (LoadExpr ty g) \<longleftrightarrow> index_kinds_ok g"
| "index_kinds_ok _ \<longleftrightarrow> True"

fun index_kinds_stmt :: "stmt \<Rightarrow> bool" where
  "index_kinds_stmt (Loop L body) \<longleftrightarrow> list_all index_kinds_stmt body"
| "index_kinds_stmt (IfRange val start end body) \<longleftrightarrow>
     index_kinds_ok val \<and> list_all index_kinds_stmt body"
| "index_kinds_stmt (CallStmt name params) \<longleftrightarrow> list_all index_kinds_ok params"
| "index_kinds_stmt (StoreStmt gep value accumulate) \<longleftrightarrow> index_kinds_ok gep \<and> index_kinds_ok value"
| "index_kinds_stmt (StoreLocalStmt v value accumulate) \<longleftrightarrow> index_kinds_ok value"

lemma compare_expr_kind:
  "compare_expr e e' \<Longrightarrow> index_kinds_ok e \<Longrightarrow> index_kinds_ok e' \<Longrightarrow>
     ety_kind (getType e) = ety_kind (getType e')"
  by (induction e arbitrary: e') (auto split: expr.splits)

lemma compare_exprs_length: "compare_exprs xs ys \<Longrightarrow> length xs = length ys"
  by (induction xs arbitrary: ys) (auto split: list.splits)

lemma compare_hash_exprs:
  "compare_expr e e' \<Longrightarrow> index_kinds_ok e \<Longrightarrow> index_kinds_ok e' \<Longrightarrow> hash_expr h e = hash_expr h e'"
  "compare_exprs es es' \<Longrightarrow> list_all index_kinds_ok es \<Longrightarrow> list_all index_kinds_ok es' \<Longrightarrow>
     map (hash_expr h) es = map (hash_expr h) es'"
proof (induction e e' and es es' rule: compare_expr_compare_exprs.induct)
  case (2 a e)
  then show ?case by (auto split: expr.splits dest: u64_of_f32_cong)
next
  case (4 x vf e)
  then obtain x' where e: "e = BroadcastExpr x' vf" and c: "compare_expr x x'"
    by (auto split: expr.splits)
  with "4.prems" have "ety_kind (getType x) = ety_kind (getType x')"
    by (intro compare_expr_kind) auto
  with "4.IH" [OF e] e c "4.prems" show ?case by simp
qed (auto split: expr.splits list.splits)

lemma compare_hash_stmts:
  "compare_stmt h s s' \<Longrightarrow> index_kinds_stmt s \<Longrightarrow> index_kinds_stmt s' \<Longrightarrow> hash_stmt h s = hash_stmt h s'"
  "compare_scope h ss ss' \<Longrightarrow> list_all index_kinds_stmt ss \<Longrightarrow> list_all index_kinds_stmt ss' \<Longrightarrow>
     map (hash_stmt h) ss = map (hash_stmt h) ss' \<and> length ss = length ss'"
proof (induction h s s' and h ss ss' rule: compare_stmt_compare_scope.induct)
  case (3 h name params s)
  then obtain params' where s: "s = CallStmt name params'" "compare_exprs params params'"
    by (auto split: stmt.splits)
  with "3.prems" have "map (hash_expr h) params = map (hash_expr h) params'"
    by (intro compare_hash_exprs(2)) auto
  with s show ?case by (simp add: compare_exprs_length)
next
  case (2 h val lo hi body s)
  then show ?case
    by (auto split: stmt.splits dest: compare_hash_exprs(1) [where h = h])
next
  case (4 h gep x acc s)
  then show ?case by (auto split: stmt.splits simp: compare_hash_exprs(1) [where h = h])
next
  case (5 h v x acc s)
  then show ?case by (auto split: stmt.splits simp: compare_hash_exprs(1) [where h = h])
qed (auto split: stmt.splits list.splits)

section \<open>Properties\<close>

text \<open>C30. Statements that \<open>compare\<close> as equal have the same hash, so a table keyed by hashes can use
  \<open>compare\<close> as its equality; on every statement whose index expressions have the index kind.\<close>

theorem compare_implies_equal_hash:
  "compare_stmt h s s' \<Longrightarrow> index_kinds_stmt s \<Longrightarrow> index_kinds_stmt s' \<Longrightarrow> hash_stmt h s = hash_stmt h s'"
  by (rule compare_hash_stmts(1))

definition demo_store :: "f32 \<Rightarrow> stmt" where
  "demo_store f = StoreLocalStmt 0 (BinaryExpr Add (ConstantFPExpr f) (LoadLocalExpr (scalarTy Float32Ty) 0)) True"

text \<open>The two zeros compare as equal.\<close>

theorem compare_implies_equal_hash_witness:
  "hash_stmt (fst demo_vars) (demo_store 0) = hash_stmt (fst demo_vars) (demo_store 0x80000000)"
  by (rule compare_implies_equal_hash)
    (simp_all add: demo_store_def f32_eq_def f32_zero_def f32_nan_def f32_exp_def f32_man_def)

end
