(* ===== verification/Printing.thy ===== *)
theory Printing
  imports Program
begin

text \<open>
  The \<open>dump\<close> methods of \<open>lib/Program/Program.cpp\<close>: the text each node writes to the standard
  output, as a string. Only the types of arguments and variables can fail to print (their element
  names are looked up in a table).
\<close>

definition newline :: char where
  "newline = CHR 0x0A"

definition spaces :: "nat \<Rightarrow> string" where
  "spaces t = replicate t (CHR '' '')"

fun join :: "string \<Rightarrow> string list \<Rightarrow> string" where
  "join sep [] = []"
| "join sep [x] = x"
| "join sep (x # y # zs) = x @ sep @ join sep (y # zs)"

fun escapeCString :: "string \<Rightarrow> string" where
  "escapeCString [] = []"
| "escapeCString (c # cs) =
     (if c = CHR 0x0A then CHR 0x5C # CHR ''n'' # escapeCString cs
      else if c = CHR 0x09 then CHR 0x5C # CHR ''t'' # escapeCString cs
      else c # escapeCString cs)"

definition quote :: string where
  "quote = [CHR 0x22]"

fun dump_expr :: "heap \<Rightarrow> expr \<Rightarrow> string" where
  "dump_expr h (IndexExpr ty L) = loop_name h L"
| "dump_expr h (ConstantExpr v) = dec_int (sint v)"
| "dump_expr h (ConstantFPExpr v) = string_of_f32 v"
| "dump_expr h (ConstantStringExpr s) = '' '' @ quote @ escapeCString s @ quote @ '' ''"
| "dump_expr h (BinaryExpr k l r) =
     ''('' @
     (case k of
        Max \<Rightarrow> '' '' @ binOpSymbol k @ ''('' @ dump_expr h l @ '', '' @ dump_expr h r @ '')''
      | Min \<Rightarrow> '' '' @ binOpSymbol k @ ''('' @ dump_expr h l @ '', '' @ dump_expr h r @ '')''
      | Pow \<Rightarrow> '' '' @ binOpSymbol k @ ''('' @ dump_expr h l @ '', '' @ dump_expr h r @ '')''
      | _ \<Rightarrow> dump_expr h l @ '' '' @ binOpSymbol k @ '' '' @ dump_expr h r) @
     '')''"
| "dump_expr h (UnaryExpr k e) = '' '' @ unOpSymbol k @ ''('' @ dump_expr h e @ '')''"
| "dump_expr h (BroadcastExpr e vf) = ''('' @ dump_expr h e @ '')''"
| "dump_expr h (GEPExpr a is) =
     arg_name (hp_arg h a) @ ''['' @ join '','' (map (dump_expr h) is) @ '']''"
| "dump_expr h (LoadExpr ty g) =
     dump_expr h g @ (if isVector ty then ''.'' @ dec_nat (unat (ety_width ty)) else [])"
| "dump_expr h (LoadLocalExpr ty v) = var_name (hp_var h v)"

fun dump_stmt :: "heap \<Rightarrow> nat \<Rightarrow> stmt \<Rightarrow> string" where
  "dump_stmt h indent (Loop L body) =
     spaces indent @ ''for'' @ '' ('' @ loop_name h L @ '' in 0..'' @ dec_nat (unat (loop_end h L)) @
     (if loop_stride h L \<noteq> 1 then '', '' @ dec_nat (unat (loop_stride h L)) else []) @ '') {'' @
     [newline] @ concat (map (dump_stmt h (indent + 1)) body) @ spaces indent @ ''}'' @ [newline]"
| "dump_stmt h indent (IfRange val start end body) =
     spaces indent @ ''if'' @ '' ('' @ dump_expr h val @ '' in '' @ dec_int start @ '' .. '' @
     dec_int end @ '') {'' @ [newline] @ concat (map (dump_stmt h (indent + 1)) body) @
     spaces indent @ ''}'' @ [newline]"
| "dump_stmt h indent (CallStmt name params) =
     spaces indent @ name @ ''('' @ join '','' (map (dump_expr h) params) @ '')'' @ '';'' @ [newline]"
| "dump_stmt h indent (StoreStmt gep value accumulate) =
     spaces indent @ dump_expr h gep @
     (if isVector (getType value) then ''.'' @ dec_nat (unat (ety_width (getType value))) else []) @
     (if accumulate then '' += '' else '' = '') @ dump_expr h value @ '';'' @ [newline]"
| "dump_stmt h indent (StoreLocalStmt v value accumulate) =
     spaces indent @ var_name (hp_var h v) @ (if accumulate then '' += '' else '' = '') @
     dump_expr h value @ '';'' @ [newline]"

definition dump_Argument :: "argument \<Rightarrow> string res" where
  "dump_Argument a = bind_res (dump_Type (arg_type a)) (\<lambda>t. Inr (arg_name a @ '':'' @ t))"

definition dump_LocalVar :: "local_var \<Rightarrow> string res" where
  "dump_LocalVar v = bind_res (getTypename (var_type v)) (\<lambda>t. Inr (var_name v @ '' : '' @ t))"

definition dump_program :: "heap \<Rightarrow> program \<Rightarrow> string res" where
  "dump_program h p =
     bind_res (map_res (\<lambda>a. dump_Argument (hp_arg h a)) (pr_args p)) (\<lambda>as.
     bind_res (map_res (\<lambda>v. dump_LocalVar (hp_var h v)) (pr_vars p)) (\<lambda>vs.
     Inr (''func '' @ pr_name p @ ''('' @ join '', '' as @ '') {'' @ [newline] @
          concat (map (\<lambda>v. ''var '' @ v @ [newline]) vs) @
          concat (map (dump_stmt h 1) (pr_body p)) @ ''}'' @ [newline])))"

section \<open>Reading escaped strings back\<close>

text \<open>\<open>unescapeCString\<close> of \<open>lib/Parser/Parser.cpp\<close>, which the parser applies to string literals.\<close>

fun unescapeCString :: "string \<Rightarrow> string" where
  "unescapeCString [] = []"
| "unescapeCString (c # cs) =
     (if c = CHR 0x5C then
        (case cs of
           [] \<Rightarrow> [c]
         | d # ds \<Rightarrow>
             (if d = CHR 0x5C then CHR 0x5C # unescapeCString ds
              else if d = CHR ''n'' then CHR 0x0A # unescapeCString ds
              else if d = CHR ''t'' then CHR 0x09 # unescapeCString ds
              else unescapeCString ds))
      else c # unescapeCString cs)"

lemma unescape_escape: "CHR 0x5C \<notin> set s \<Longrightarrow> unescapeCString (escapeCString s) = s"
  by (induction s) auto

text \<open>Balanced nesting: a dumped scope is indented by exactly one more space than its header.\<close>

lemma dump_stmt_indent: "\<exists>rest. dump_stmt h indent s = spaces indent @ rest"
  by (cases s) auto

section \<open>Properties\<close>

text \<open>A string literal without backslashes that \<open>dump\<close> prints is read back as it was: the
  parser's \<open>unescapeCString\<close> undoes \<open>escapeCString\<close>.\<close>

theorem string_literal_roundtrip: "CHR 0x5C \<notin> set s \<Longrightarrow> unescapeCString (escapeCString s) = s"
  by (rule unescape_escape)

theorem string_literal_roundtrip_witness:
  "unescapeCString (escapeCString [CHR ''a'', CHR 0x0A, CHR 0x09]) = [CHR ''a'', CHR 0x0A, CHR 0x09]"
  by (rule string_literal_roundtrip) simp

text \<open>Without the condition it fails: \<open>escapeCString\<close> does not escape backslashes, so a string
  that holds a backslash and an \<open>n\<close> comes back as one newline.\<close>

theorem backslash_not_escaped:
  "unescapeCString (escapeCString [CHR 0x5C, CHR ''n'']) = [CHR 0x0A]"
  by simp

end
