(* ===== verification/Verify.thy ===== *)
theory Verify
  imports Program
begin

text \<open>
  The \<open>verify\<close> methods of \<open>lib/Program/Program.cpp\<close>: the invariant of a program, as the chain
  of assertions the code runs. A method that walks up the parent chain (\<open>IndexExpr::verify\<close> up
  to its loop, \<open>getProgram\<close> up to the program) gets here the list \<open>enc\<close> of the loops around the
  node and the variables \<open>vs\<close> of the program. The assertions on handles (\<open>getParent() == this\<close>,
  non-null references) hold by construction in the tree and are the subject of theory Handles.
\<close>

definition isalnum_c :: "char \<Rightarrow> bool" where
  "isalnum_c c \<longleftrightarrow>
     (let n = of_char c :: nat in
      (48 \<le> n \<and> n \<le> 57) \<or> (65 \<le> n \<and> n \<le> 90) \<or> (97 \<le> n \<and> n \<le> 122))"

definition isLegalName :: "string \<Rightarrow> bool" where
  "isLegalName name \<longleftrightarrow> list_all (\<lambda>c. isalnum_c c \<or> c = CHR ''_'') name"

definition getVar_in :: "heap \<Rightarrow> var_ptr list \<Rightarrow> string \<Rightarrow> var_ptr option" where
  "getVar_in h vs name = find (\<lambda>v. name = var_name (hp_var h v)) vs"

lemma getVar_in_eq: "getVar h p name = getVar_in h (pr_vars p) name"
  by (simp add: getVar_def getVar_in_def)

fun verify_expr :: "heap \<Rightarrow> var_ptr list \<Rightarrow> loop_ptr list \<Rightarrow> expr \<Rightarrow> unit res" where
  "verify_expr h vs enc (ConstantExpr v) = Inr ()"
| "verify_expr h vs enc (ConstantFPExpr v) = Inr ()"
| "verify_expr h vs enc (ConstantStringExpr s) = Inr ()"
| "verify_expr h vs enc (BinaryExpr k l r) =
     bind_res (require (ExprType_isEqual (getType l) (getType r)) ''LHS and RHS type mismatch'')
       (\<lambda>_. bind_res (verify_expr h vs enc l) (\<lambda>_. verify_expr h vs enc r))"
| "verify_expr h vs enc (UnaryExpr k e) = verify_expr h vs enc e"
| "verify_expr h vs enc (IndexExpr ty L) =
     bind_res (require (ety_isIndexTy ty) ''Invalid index type'')
       (\<lambda>_. require (L \<in> set enc) ''index is not contained within its loop scope'')"
| "verify_expr h vs enc (BroadcastExpr e vf) =
     bind_res (verify_expr h vs enc e) (\<lambda>_.
     bind_res (require (ety_width (getType (BroadcastExpr e vf)) = vf) ''Invalid vectorization factor'')
       (\<lambda>_. require (ety_width (getType e) = 1) ''Broadcasting a vector''))"
| "verify_expr h vs enc (GEPExpr a is) =
     bind_res (each_res (\<lambda>e. bind_res (verify_expr h vs enc e)
                 (\<lambda>_. require (ety_isIndexTy (getType e)) ''Argument must be of index kind'')) is) (\<lambda>_.
     bind_res (require (is \<noteq> []) ''Empty argument list'') (\<lambda>_.
     require (getNumDims (arg_type (hp_arg h a)) = length is) ''Invalid number of indices''))"
| "verify_expr h vs enc (LoadExpr ty g) =
     bind_res (require (is_GEP g) ''dynamic_cast<GEPExpr>'') (\<lambda>_.
     bind_res (verify_expr h vs enc g) (\<lambda>_.
     (case g of
        GEPExpr a is \<Rightarrow>
          require (ety_kind ty = ty_elem (arg_type (hp_arg h a))) ''Loaded element type mismatch''
      | _ \<Rightarrow> Inr ())))"
| "verify_expr h vs enc (LoadLocalExpr ty v) =
     bind_res (require (vs \<noteq> []) ''Program has no locals!'') (\<lambda>_.
     bind_res (require (getVar_in h vs (var_name (hp_var h v)) = Some v) ''Vars are not uniqued'') (\<lambda>_.
     require (ExprType_isEqual ty (var_type (hp_var h v))) ''Loaded element type mismatch''))"

fun verify_stmt :: "heap \<Rightarrow> var_ptr list \<Rightarrow> loop_ptr list \<Rightarrow> stmt \<Rightarrow> unit res" where
  "verify_stmt h vs enc (Loop L body) =
     bind_res (require (0 < loop_end h L) ''Loops must not be empty'') (\<lambda>_.
     bind_res (if loop_stride h L = 0 then Inl (UB ''end_ % 0'')
               else require (loop_end h L mod loop_stride h L = 0)
                      ''Trip count must be divisible by the stride'') (\<lambda>_.
     bind_res (require (0 < loop_stride h L \<and> loop_stride h L < 1024) ''Invalid stride'') (\<lambda>_.
     bind_res (require (isLegalName (loop_name h L)) ''Invalid character in index name'') (\<lambda>_.
     each_res (verify_stmt h vs (L # enc)) body))))"
| "verify_stmt h vs enc (IfRange val start end body) =
     bind_res (require (start \<le> end) ''Invalid range'') (\<lambda>_.
     bind_res (verify_expr h vs enc val) (\<lambda>_.
     each_res (verify_stmt h vs enc) body))"
| "verify_stmt h vs enc (CallStmt name params) =
     each_res (\<lambda>e. bind_res (verify_expr h vs enc e)
       (\<lambda>_. require (ety_isIndexTy (getType e)) ''Argument must be of index kind'')) params"
| "verify_stmt h vs enc (StoreStmt gep value accumulate) =
     bind_res (require (is_GEP gep) ''dynamic_cast<GEPExpr>'') (\<lambda>_.
     bind_res (verify_expr h vs enc gep) (\<lambda>_.
     bind_res (verify_expr h vs enc value) (\<lambda>_.
     (case gep of
        GEPExpr a is \<Rightarrow>
          require (ety_kind (getType value) = ty_elem (arg_type (hp_arg h a)))
            ''Stored element type mismatch''
      | _ \<Rightarrow> Inr ()))))"
| "verify_stmt h vs enc (StoreLocalStmt v value accumulate) =
     bind_res (require (vs \<noteq> []) ''Program has no locals!'') (\<lambda>_.
     bind_res (require (getVar_in h vs (var_name (hp_var h v)) = Some v) ''Vars are not uniqued'') (\<lambda>_.
     bind_res (verify_expr h vs enc value) (\<lambda>_.
     require (ExprType_isEqual (getType value) (var_type (hp_var h v))) ''invalid stored type'')))"

abbreviation verify_scope :: "heap \<Rightarrow> var_ptr list \<Rightarrow> loop_ptr list \<Rightarrow> stmt list \<Rightarrow> unit res" where
  "verify_scope h vs enc body \<equiv> each_res (verify_stmt h vs enc) body"

definition verify_program :: "heap \<Rightarrow> program \<Rightarrow> unit res" where
  "verify_program h p =
     bind_res (each_res (\<lambda>a. require (isLegalName (arg_name (hp_arg h a)))
                 ''Invalid character in argument name'') (pr_args p)) (\<lambda>_.
     bind_res (each_res (\<lambda>v. require (isLegalName (var_name (hp_var h v)))
                 ''Invalid character in argument name'') (pr_vars p)) (\<lambda>_.
     bind_res (require (isLegalName (pr_name p)) ''Invalid program name.'') (\<lambda>_.
     verify_scope h (pr_vars p) [] (pr_body p))))"

section \<open>Loops mentioned by a node\<close>

fun loops_of_expr :: "expr \<Rightarrow> loop_ptr set" where
  "loops_of_expr (IndexExpr ty L) = {L}"
| "loops_of_expr (BinaryExpr k l r) = loops_of_expr l \<union> loops_of_expr r"
| "loops_of_expr (UnaryExpr k e) = loops_of_expr e"
| "loops_of_expr (BroadcastExpr e vf) = loops_of_expr e"
| "loops_of_expr (GEPExpr a is) = (\<Union>e \<in> set is. loops_of_expr e)"
| "loops_of_expr (LoadExpr ty g) = loops_of_expr g"
| "loops_of_expr _ = {}"

text \<open>The loops a statement declares, and the loops its expressions refer to.\<close>

fun loops_in :: "stmt \<Rightarrow> loop_ptr set" where
  "loops_in (Loop L body) = insert L (\<Union>s \<in> set body. loops_in s)"
| "loops_in (IfRange val start end body) = (\<Union>s \<in> set body. loops_in s)"
| "loops_in _ = {}"

fun refs_of :: "stmt \<Rightarrow> loop_ptr set" where
  "refs_of (Loop L body) = (\<Union>s \<in> set body. refs_of s)"
| "refs_of (IfRange val start end body) = loops_of_expr val \<union> (\<Union>s \<in> set body. refs_of s)"
| "refs_of (CallStmt name params) = (\<Union>e \<in> set params. loops_of_expr e)"
| "refs_of (StoreStmt gep value accumulate) = loops_of_expr gep \<union> loops_of_expr value"
| "refs_of (StoreLocalStmt v value accumulate) = loops_of_expr value"

text \<open>Static scoping: under the loops of \<open>E\<close>, every index refers to a loop around it.\<close>

fun scoped :: "loop_ptr set \<Rightarrow> stmt \<Rightarrow> bool" where
  "scoped E (Loop L body) \<longleftrightarrow> list_all (scoped (insert L E)) body"
| "scoped E (IfRange val start end body) \<longleftrightarrow> loops_of_expr val \<subseteq> E \<and> list_all (scoped E) body"
| "scoped E (CallStmt name params) \<longleftrightarrow> list_all (\<lambda>e. loops_of_expr e \<subseteq> E) params"
| "scoped E (StoreStmt gep value accumulate) \<longleftrightarrow> loops_of_expr gep \<subseteq> E \<and> loops_of_expr value \<subseteq> E"
| "scoped E (StoreLocalStmt v value accumulate) \<longleftrightarrow> loops_of_expr value \<subseteq> E"

section \<open>What verification guarantees\<close>

text \<open>The conditions of a verified loop, without the result type.\<close>

lemma verify_Loop_iff:
  "verify_stmt h vs enc (Loop L body) = Inr () \<longleftrightarrow>
     0 < loop_end h L \<and> loop_end h L mod loop_stride h L = 0 \<and> 0 < loop_stride h L
     \<and> loop_stride h L < 1024 \<and> isLegalName (loop_name h L)
     \<and> (\<forall>s \<in> set body. verify_stmt h vs (L # enc) s = Inr ())"
  by (cases "loop_stride h L = 0") simp_all

lemma verify_IfRange_iff:
  "verify_stmt h vs enc (IfRange val lo hi body) = Inr () \<longleftrightarrow>
     lo \<le> hi \<and> verify_expr h vs enc val = Inr ()
     \<and> (\<forall>s \<in> set body. verify_stmt h vs enc s = Inr ())"
  by simp

lemma verify_expr_scoped: "verify_expr h vs enc e = Inr () \<Longrightarrow> loops_of_expr e \<subseteq> set enc"
proof (induction e)
  case (GEPExpr a "is")
  then show ?case by auto
qed (auto split: if_splits)

lemma verify_stmt_scoped: "verify_stmt h vs enc s = Inr () \<Longrightarrow> scoped (set enc) s"
proof (induction s arbitrary: enc)
  case (Loop L body)
  have "scoped (set (L # enc)) s" if "s \<in> set body" for s
    using Loop.prems that unfolding verify_Loop_iff by (intro Loop.IH) auto
  then show ?case by (simp add: list_all_iff)
next
  case (IfRange val lo hi body)
  have "scoped (set enc) s" if "s \<in> set body" for s
    using IfRange.prems that unfolding verify_IfRange_iff by (intro IfRange.IH) auto
  with IfRange.prems verify_expr_scoped [of h vs enc val] show ?case unfolding verify_IfRange_iff
    by (simp add: list_all_iff)
qed (auto simp: list_all_iff split: if_splits dest!: verify_expr_scoped)

lemma verify_stmt_loops:
  "verify_stmt h vs enc s = Inr () \<Longrightarrow>
     \<forall>L \<in> loops_in s. 0 < loop_end h L \<and> 0 < loop_stride h L \<and> loop_end h L mod loop_stride h L = 0"
proof (induction s arbitrary: enc)
  case (Loop L body)
  have "\<forall>L' \<in> loops_in s. 0 < loop_end h L' \<and> 0 < loop_stride h L' \<and> loop_end h L' mod loop_stride h L' = 0"
    if "s \<in> set body" for s
    using Loop.prems that unfolding verify_Loop_iff by (intro Loop.IH) auto
  then show ?case using Loop.prems unfolding verify_Loop_iff by auto
next
  case (IfRange val lo hi body)
  have "\<forall>L' \<in> loops_in s. 0 < loop_end h L' \<and> 0 < loop_stride h L' \<and> loop_end h L' mod loop_stride h L' = 0"
    if "s \<in> set body" for s
    using IfRange.prems that unfolding verify_IfRange_iff by (intro IfRange.IH) auto
  then show ?case by auto
qed simp_all

text \<open>Enclosing loops can be added and reordered.\<close>

lemma verify_expr_mono:
  "verify_expr h vs enc e = Inr () \<Longrightarrow> set enc \<subseteq> set enc' \<Longrightarrow> verify_expr h vs enc' e = Inr ()"
proof (induction e)
  case (LoadExpr ty g)
  then show ?case by (auto split: if_splits expr.splits)
qed (auto split: if_splits)

lemma verify_stmt_mono:
  "verify_stmt h vs enc s = Inr () \<Longrightarrow> set enc \<subseteq> set enc' \<Longrightarrow> verify_stmt h vs enc' s = Inr ()"
proof (induction s arbitrary: enc enc')
  case (Loop L body)
  have "verify_stmt h vs (L # enc') s = Inr ()" if "s \<in> set body" for s
  proof (rule Loop.IH [OF that, of "L # enc"])
    show "verify_stmt h vs (L # enc) s = Inr ()"
      using Loop.prems(1) that unfolding verify_Loop_iff by simp
    show "set (L # enc) \<subseteq> set (L # enc')" using Loop.prems(2) by auto
  qed
  with Loop.prems(1) show ?case unfolding verify_Loop_iff by simp
next
  case (IfRange val lo hi body)
  from IfRange.prems have "verify_expr h vs enc' val = Inr ()"
    by (auto split: if_splits dest: verify_expr_mono)
  moreover have "verify_stmt h vs enc' s = Inr ()" if "s \<in> set body" for s
    using IfRange.prems that by (blast intro: IfRange.IH [OF that, of enc] dest: verify_IfRange_iff [THEN iffD1])
  ultimately show ?case using IfRange.prems(1) by simp
next
  case (CallStmt name params)
  then show ?case by (auto split: if_splits intro: verify_expr_mono)
next
  case (StoreStmt g v acc)
  from StoreStmt.prems have "verify_expr h vs enc' g = Inr ()" "verify_expr h vs enc' v = Inr ()"
    by (auto split: if_splits dest: verify_expr_mono)
  with StoreStmt.prems(1) show ?case by (auto split: if_splits)
next
  case (StoreLocalStmt v e acc)
  then show ?case by (auto split: if_splits dest: verify_expr_mono)
qed

section \<open>A verified program\<close>

definition demo_loop :: "heap \<times> program" where
  "demo_loop =
     (\<lparr>hp_loop = (\<lambda>L. \<lparr>lp_name = ''i'', lp_end = 6, lp_stride = 1\<rparr>),
       hp_arg = (\<lambda>a. \<lparr>arg_name = ''A'', arg_type = \<lparr>ty_sizes = [6], ty_names = [''x''], ty_elem = Float32Ty\<rparr>\<rparr>),
       hp_var = (\<lambda>v. \<lparr>var_name = [], var_type = scalarTy Float32Ty\<rparr>), hp_next = 2\<rparr>,
      \<lparr>pr_name = ''f'', pr_args = [1], pr_vars = [],
       pr_body = [Loop 0 [StoreStmt (GEPExpr 1 [IndexExpr (scalarTy IndexTy) 0]) (ConstantFPExpr f32_one) False]]\<rparr>)"

lemma demo_loop_verified: "verify_program (fst demo_loop) (snd demo_loop) = Inr ()"
  by code_simp

end
