(* ===== verification/Clone.thy ===== *)
theory Clone
  imports Hashing Verify
begin

text \<open>
  \<open>CloneCtx\<close> and the \<open>clone\<close> methods of \<open>lib/Program/Program.cpp\<close>. Cloning a loop allocates a
  new loop and records it in the context, so that the index expressions of the cloned body refer
  to the new loop; values that are not in the context are kept. The heap is threaded through
  because cloning allocates. Statements verify themselves before they are cloned, as in the code.

  The lemmas show that cloning only extends the heap, that the context maps every pointer to an
  object with the same fields, and that a clone has the hash of the original. Theory CloneFacts adds
  that the objects of a clone are new.
\<close>

section \<open>The cloning context\<close>

record cctx =
  cc_args :: "arg_ptr \<rightharpoonup> arg_ptr"
  cc_vars :: "var_ptr \<rightharpoonup> var_ptr"
  cc_loops :: "loop_ptr \<rightharpoonup> loop_ptr"

definition empty_ctx :: cctx where
  "empty_ctx = \<lparr>cc_args = Map.empty, cc_vars = Map.empty, cc_loops = Map.empty\<rparr>"

definition map_loop :: "cctx \<Rightarrow> loop_ptr \<Rightarrow> loop_ptr \<Rightarrow> cctx res" where
  "map_loop c from to =
     bind_res (require (cc_loops c from = None) ''Loop already in map'')
       (\<lambda>_. Inr (c\<lparr>cc_loops := (cc_loops c)(from \<mapsto> to)\<rparr>))"

definition map_arg :: "cctx \<Rightarrow> arg_ptr \<Rightarrow> arg_ptr \<Rightarrow> cctx res" where
  "map_arg c from to =
     bind_res (require (cc_args c from = None) ''Argument already in map'')
       (\<lambda>_. Inr (c\<lparr>cc_args := (cc_args c)(from \<mapsto> to)\<rparr>))"

definition map_var :: "cctx \<Rightarrow> var_ptr \<Rightarrow> var_ptr \<Rightarrow> cctx res" where
  "map_var c from to =
     bind_res (require (cc_vars c from = None) ''LocalVar already in map'')
       (\<lambda>_. Inr (c\<lparr>cc_vars := (cc_vars c)(from \<mapsto> to)\<rparr>))"

definition get_loop :: "cctx \<Rightarrow> loop_ptr \<Rightarrow> loop_ptr" where
  "get_loop c from = (case cc_loops c from of Some to \<Rightarrow> to | None \<Rightarrow> from)"

definition get_arg :: "cctx \<Rightarrow> arg_ptr \<Rightarrow> arg_ptr" where
  "get_arg c from = (case cc_args c from of Some to \<Rightarrow> to | None \<Rightarrow> from)"

definition get_var :: "cctx \<Rightarrow> var_ptr \<Rightarrow> var_ptr" where
  "get_var c from = (case cc_vars c from of Some to \<Rightarrow> to | None \<Rightarrow> from)"

section \<open>Clone\<close>

fun clone_expr :: "heap \<Rightarrow> var_ptr list \<Rightarrow> cctx \<Rightarrow> expr \<Rightarrow> expr res" where
  "clone_expr h vs c (ConstantExpr v) = Inr (ConstantExpr v)"
| "clone_expr h vs c (ConstantFPExpr v) = Inr (ConstantFPExpr v)"
| "clone_expr h vs c (ConstantStringExpr s) = Inr (ConstantStringExpr s)"
| "clone_expr h vs c (BinaryExpr k l r) =
     bind_res (clone_expr h vs c l) (\<lambda>l'. bind_res (clone_expr h vs c r) (\<lambda>r'.
       new_BinaryExpr l' r' k))"
| "clone_expr h vs c (UnaryExpr k e) = bind_res (clone_expr h vs c e) (\<lambda>e'. Inr (UnaryExpr k e'))"
| "clone_expr h vs c (BroadcastExpr e vf) =
     bind_res (clone_expr h vs c e) (\<lambda>e'. new_BroadcastExpr e' vf)"
| "clone_expr h vs c (GEPExpr a is) =
     bind_res (map_res (clone_expr h vs c) is) (\<lambda>is'. new_GEPExpr h (get_arg c a) is')"
| "clone_expr h vs c (LoadExpr ty g) =
     bind_res (clone_expr h vs c g) (\<lambda>g'. new_LoadExpr g' ty)"
| "clone_expr h vs c (LoadLocalExpr ty v) =
     bind_res (verify_expr h vs [] (LoadLocalExpr ty v))
       (\<lambda>_. Inr (new_LoadLocalExpr h (get_var c v)))"
| "clone_expr h vs c (IndexExpr ty L) = Inr (new_IndexExpr (get_loop c L))"

fun clone_stmt :: "heap \<Rightarrow> var_ptr list \<Rightarrow> loop_ptr list \<Rightarrow> cctx \<Rightarrow> stmt \<Rightarrow> (stmt \<times> heap \<times> cctx) res"
  and clone_scope ::
    "heap \<Rightarrow> var_ptr list \<Rightarrow> loop_ptr list \<Rightarrow> cctx \<Rightarrow> stmt list \<Rightarrow> (stmt list \<times> heap \<times> cctx) res"
where
  "clone_stmt h vs enc c (Loop L body) =
     (let (L', h1) = new_loop h (loop_name h L) (loop_end h L) (loop_stride h L) in
      bind_res (map_loop c L L') (\<lambda>c1.
      bind_res (clone_scope h1 vs (L # enc) c1 body) (\<lambda>(body', h2, c2).
      Inr (Loop L' body', h2, c2))))"
| "clone_stmt h vs enc c (IfRange val start end body) =
     bind_res (clone_expr h vs c val) (\<lambda>val'.
     bind_res (clone_scope h vs enc c body) (\<lambda>(body', h1, c1).
     Inr (IfRange val' start end body', h1, c1)))"
| "clone_stmt h vs enc c (CallStmt name params) =
     bind_res (verify_stmt h vs enc (CallStmt name params)) (\<lambda>_.
     bind_res (map_res (clone_expr h vs c) params) (\<lambda>params'.
     Inr (CallStmt name params', h, c)))"
| "clone_stmt h vs enc c (StoreStmt gep value accumulate) =
     bind_res (verify_stmt h vs enc (StoreStmt gep value accumulate)) (\<lambda>_.
     bind_res (clone_expr h vs c gep) (\<lambda>gep'.
     bind_res (clone_expr h vs c value) (\<lambda>value'.
     bind_res (new_StoreStmt gep' value' accumulate) (\<lambda>s'.
     Inr (s', h, c)))))"
| "clone_stmt h vs enc c (StoreLocalStmt v value accumulate) =
     bind_res (verify_stmt h vs enc (StoreLocalStmt v value accumulate)) (\<lambda>_.
     bind_res (clone_expr h vs c value) (\<lambda>value'.
     bind_res (new_StoreLocalStmt h (get_var c v) value' accumulate) (\<lambda>s'.
     Inr (s', h, c))))"
| "clone_scope h vs enc c [] = Inr ([], h, c)"
| "clone_scope h vs enc c (s # ss) =
     bind_res (clone_stmt h vs enc c s) (\<lambda>(s', h1, c1).
     bind_res (clone_scope h1 vs enc c1 ss) (\<lambda>(ss', h2, c2).
     Inr (s' # ss', h2, c2)))"

fun clone_args :: "heap \<Rightarrow> cctx \<Rightarrow> arg_ptr list \<Rightarrow> (arg_ptr list \<times> heap \<times> cctx) res" where
  "clone_args h c [] = Inr ([], h, c)"
| "clone_args h c (a # as) =
     (let (a', h1) = new_arg h (hp_arg h a) in
      bind_res (map_arg c a a') (\<lambda>c1.
      bind_res (clone_args h1 c1 as) (\<lambda>(as', h2, c2). Inr (a' # as', h2, c2))))"

fun clone_vars :: "heap \<Rightarrow> cctx \<Rightarrow> var_ptr list \<Rightarrow> (var_ptr list \<times> heap \<times> cctx) res" where
  "clone_vars h c [] = Inr ([], h, c)"
| "clone_vars h c (v # vs) =
     (let (v', h1) = new_var h (hp_var h v) in
      bind_res (map_var c v v') (\<lambda>c1.
      bind_res (clone_vars h1 c1 vs) (\<lambda>(vs', h2, c2). Inr (v' # vs', h2, c2))))"

definition clone_program :: "heap \<Rightarrow> cctx \<Rightarrow> program \<Rightarrow> (program \<times> heap \<times> cctx) res" where
  "clone_program h c p =
     bind_res (verify_program h p) (\<lambda>_.
     bind_res (clone_args h c (pr_args p)) (\<lambda>(as', h1, c1).
     bind_res (clone_vars h1 c1 (pr_vars p)) (\<lambda>(vs', h2, c2).
     bind_res (clone_scope h2 (pr_vars p) [] c2 (pr_body p)) (\<lambda>(body', h3, c3).
     Inr (\<lparr>pr_name = pr_name p, pr_args = as', pr_vars = vs', pr_body = body'\<rparr>, h3, c3)))))"

section \<open>Cloning extends the heap\<close>

definition heap_ext :: "heap \<Rightarrow> heap \<Rightarrow> bool" where
  "heap_ext h h' \<longleftrightarrow>
     hp_next h \<le> hp_next h'
     \<and> (\<forall>L < hp_next h. hp_loop h' L = hp_loop h L)
     \<and> (\<forall>a < hp_next h. hp_arg h' a = hp_arg h a)
     \<and> (\<forall>v < hp_next h. hp_var h' v = hp_var h v)"

lemma heap_ext_refl [simp]: "heap_ext h h"
  by (simp add: heap_ext_def)

lemma heap_ext_trans: "heap_ext h h1 \<Longrightarrow> heap_ext h1 h2 \<Longrightarrow> heap_ext h h2"
  by (auto simp: heap_ext_def)

lemma heap_ext_next: "heap_ext h h' \<Longrightarrow> hp_next h \<le> hp_next h'"
  by (simp add: heap_ext_def)

lemma heap_ext_new:
  "new_loop h n e s = (L, h') \<Longrightarrow> heap_ext h h'"
  "new_arg h a = (x, h') \<Longrightarrow> heap_ext h h'"
  "new_var h v = (y, h') \<Longrightarrow> heap_ext h h'"
  by (auto simp: heap_ext_def new_loop_def new_arg_def new_var_def)

text \<open>Every pair of the context is allocated and holds two objects with the same fields.\<close>

definition ctx_ok :: "heap \<Rightarrow> cctx \<Rightarrow> bool" where
  "ctx_ok h c \<longleftrightarrow>
     (\<forall>x y. cc_loops c x = Some y \<longrightarrow> x < hp_next h \<and> y < hp_next h \<and> hp_loop h y = hp_loop h x)
     \<and> (\<forall>x y. cc_args c x = Some y \<longrightarrow> x < hp_next h \<and> y < hp_next h \<and> hp_arg h y = hp_arg h x)
     \<and> (\<forall>x y. cc_vars c x = Some y \<longrightarrow> x < hp_next h \<and> y < hp_next h \<and> hp_var h y = hp_var h x)"

lemma ctx_ok_empty [simp]: "ctx_ok h empty_ctx"
  by (simp add: ctx_ok_def empty_ctx_def)

lemma ctx_ok_ext: "ctx_ok h c \<Longrightarrow> heap_ext h h' \<Longrightarrow> ctx_ok h' c"
  by (auto simp: ctx_ok_def heap_ext_def) (fastforce)+

lemma ctx_ok_get [simp]:
  assumes "ctx_ok h c"
  shows "hp_loop h (get_loop c L) = hp_loop h L"
    and "hp_arg h (get_arg c a) = hp_arg h a"
    and "hp_var h (get_var c v) = hp_var h v"
  using assms by (auto simp: ctx_ok_def get_loop_def get_arg_def get_var_def split: option.split)

lemma get_loop_bound: "ctx_ok h c \<Longrightarrow> L < hp_next h \<Longrightarrow> get_loop c L < hp_next h"
  by (auto simp: ctx_ok_def get_loop_def split: option.split)

lemma ctx_ok_map_loop:
  assumes "ctx_ok h c" and "L < hp_next h"
    and "new_loop h (loop_name h L) (loop_end h L) (loop_stride h L) = (L', h1)"
    and "map_loop c L L' = Inr c1"
  shows "ctx_ok h1 c1"
proof -
  have "ctx_ok h1 c" using assms(1,3) by (blast intro: ctx_ok_ext heap_ext_new)
  moreover have "L' = hp_next h" "hp_next h1 = Suc (hp_next h)" "hp_loop h1 L' = hp_loop h L"
    "hp_loop h1 L = hp_loop h L"
    using assms(2,3) by (auto simp: new_loop_def loop_name_def loop_end_def loop_stride_def)
  ultimately show ?thesis using assms(2,4) by (auto simp: ctx_ok_def map_loop_def split: if_splits)
qed

section \<open>Pointers below the allocation frontier\<close>

fun args_of_expr :: "expr \<Rightarrow> arg_ptr set" where
  "args_of_expr (BinaryExpr k l r) = args_of_expr l \<union> args_of_expr r"
| "args_of_expr (UnaryExpr k e) = args_of_expr e"
| "args_of_expr (BroadcastExpr e vf) = args_of_expr e"
| "args_of_expr (GEPExpr a is) = insert a (\<Union>e \<in> set is. args_of_expr e)"
| "args_of_expr (LoadExpr ty g) = args_of_expr g"
| "args_of_expr _ = {}"

fun vars_of_expr :: "expr \<Rightarrow> var_ptr set" where
  "vars_of_expr (BinaryExpr k l r) = vars_of_expr l \<union> vars_of_expr r"
| "vars_of_expr (UnaryExpr k e) = vars_of_expr e"
| "vars_of_expr (BroadcastExpr e vf) = vars_of_expr e"
| "vars_of_expr (GEPExpr a is) = (\<Union>e \<in> set is. vars_of_expr e)"
| "vars_of_expr (LoadExpr ty g) = vars_of_expr g"
| "vars_of_expr (LoadLocalExpr ty v) = {v}"
| "vars_of_expr _ = {}"

definition below_expr :: "nat \<Rightarrow> expr \<Rightarrow> bool" where
  "below_expr n e \<longleftrightarrow> (\<forall>x \<in> loops_of_expr e \<union> args_of_expr e \<union> vars_of_expr e. x < n)"

fun below :: "nat \<Rightarrow> stmt \<Rightarrow> bool" where
  "below n (Loop L body) \<longleftrightarrow> L < n \<and> (\<forall>s \<in> set body. below n s)"
| "below n (IfRange val start end body) \<longleftrightarrow> below_expr n val \<and> (\<forall>s \<in> set body. below n s)"
| "below n (CallStmt name params) \<longleftrightarrow> (\<forall>e \<in> set params. below_expr n e)"
| "below n (StoreStmt gep value accumulate) \<longleftrightarrow> below_expr n gep \<and> below_expr n value"
| "below n (StoreLocalStmt v value accumulate) \<longleftrightarrow> v < n \<and> below_expr n value"

lemma below_expr_simps [simp]:
  "below_expr n (ConstantExpr x)" "below_expr n (ConstantFPExpr f)"
  "below_expr n (ConstantStringExpr s)"
  "below_expr n (IndexExpr ty L) \<longleftrightarrow> L < n"
  "below_expr n (BinaryExpr k l r) \<longleftrightarrow> below_expr n l \<and> below_expr n r"
  "below_expr n (UnaryExpr u e) \<longleftrightarrow> below_expr n e"
  "below_expr n (BroadcastExpr e vf) \<longleftrightarrow> below_expr n e"
  "below_expr n (GEPExpr a is) \<longleftrightarrow> a < n \<and> (\<forall>e \<in> set is. below_expr n e)"
  "below_expr n (LoadExpr ty g) \<longleftrightarrow> below_expr n g"
  "below_expr n (LoadLocalExpr ty v) \<longleftrightarrow> v < n"
  by (auto simp: below_expr_def)

lemma below_expr_mono: "below_expr n e \<Longrightarrow> n \<le> m \<Longrightarrow> below_expr m e"
  unfolding below_expr_def using order.strict_trans2 by blast

lemma below_mono: "below n s \<Longrightarrow> n \<le> m \<Longrightarrow> below m s"
  by (induction s) (auto intro: below_expr_mono)

section \<open>Hashes survive allocation and cloning\<close>

lemma join_hashes_cong:
  "(\<And>x. x \<in> set xs \<Longrightarrow> f x = g x) \<Longrightarrow> join_hashes s (map f xs) = join_hashes s (map g xs)"
  by (metis map_cong)

lemma hash_expr_ext:
  "heap_ext h h' \<Longrightarrow> below_expr (hp_next h) e \<Longrightarrow> hash_expr h' e = hash_expr h e"
proof (induction e)
  case (GEPExpr a "is")
  then have "map (hash_expr h') is = map (hash_expr h) is" by simp
  with GEPExpr.prems show ?case by (simp add: heap_ext_def del: map_eq_conv)
qed (auto simp: heap_ext_def loop_name_def)

lemma hash_exprs_ext:
  "heap_ext h h' \<Longrightarrow> \<forall>e \<in> set es. below_expr (hp_next h) e \<Longrightarrow>
     map (hash_expr h') es = map (hash_expr h) es"
  by (simp add: hash_expr_ext)

lemma hash_stmt_ext: "heap_ext h h' \<Longrightarrow> below (hp_next h) s \<Longrightarrow> hash_stmt h' s = hash_stmt h s"
proof (induction s)
  case (Loop L body)
  then have "map (hash_stmt h') body = map (hash_stmt h) body" by simp
  with Loop.prems show ?case
    by (simp add: heap_ext_def loop_name_def loop_end_def loop_stride_def del: map_eq_conv)
next
  case (IfRange val lo hi body)
  then have "map (hash_stmt h') body = map (hash_stmt h) body" by simp
  with IfRange.prems show ?case by (simp add: hash_expr_ext del: map_eq_conv)
next
  case (CallStmt name params)
  then show ?case by (simp add: hash_exprs_ext del: map_eq_conv)
next
  case (StoreLocalStmt v e acc)
  then have "hp_var h' v = hp_var h v" by (simp add: heap_ext_def)
  with StoreLocalStmt show ?case by (simp add: hash_expr_ext)
qed (simp_all add: hash_expr_ext)

lemma clone_expr_hash:
  "ctx_ok h c \<Longrightarrow> index_kinds_ok e \<Longrightarrow> clone_expr h vs c e = Inr e' \<Longrightarrow>
     hash_expr h e' = hash_expr h e \<and> ety_kind (getType e') = ety_kind (getType e)
     \<and> index_kinds_ok e'"
proof (induction e arbitrary: e')
  case (GEPExpr a "is")
  from GEPExpr.prems(3) obtain is' where m: "map_res (clone_expr h vs c) is = Inr is'"
    and e': "e' = GEPExpr (get_arg c a) is'"
    by (auto simp: new_GEPExpr_def)
  have nth: "hash_expr h (is' ! i) = hash_expr h (is ! i) \<and> index_kinds_ok (is' ! i)"
    if "i < length is" for i
    using GEPExpr.IH [of "is ! i" "is' ! i"] that map_res_nth [OF m that] GEPExpr.prems
    by (auto simp: list_all_length)
  have "map (hash_expr h) is' = map (hash_expr h) is"
    using nth map_res_length [OF m] by (auto intro: nth_equalityI)
  moreover have "list_all index_kinds_ok is'"
    using nth map_res_length [OF m] by (auto simp: list_all_length)
  ultimately show ?case using e' GEPExpr.prems(1) by (simp del: map_eq_conv)
next
  case (BinaryExpr k l r)
  from BinaryExpr.prems(3) obtain l' r' where "clone_expr h vs c l = Inr l'"
    "clone_expr h vs c r = Inr r'" "e' = BinaryExpr k l' r'" by (auto simp: new_BinaryExpr_def)
  with BinaryExpr.IH(1) [of l'] BinaryExpr.IH(2) [of r'] BinaryExpr.prems show ?case by simp
next
  case (BroadcastExpr x vf)
  from BroadcastExpr.prems(3) obtain x' where "clone_expr h vs c x = Inr x'"
    and e': "e' = BroadcastExpr x' vf" by (auto simp: new_BroadcastExpr_def)
  with BroadcastExpr.IH [of x'] BroadcastExpr.prems show ?case by simp
next
  case (LoadExpr ty g)
  then show ?case by (fastforce simp: new_LoadExpr_def)
qed (auto simp: new_LoadLocalExpr_def new_IndexExpr_def loop_name_def)

lemma clone_exprs_hash:
  assumes "ctx_ok h c" "list_all index_kinds_ok es" "map_res (clone_expr h vs c) es = Inr es'"
  shows "map (hash_expr h) es' = map (hash_expr h) es" "length es' = length es"
proof -
  show len: "length es' = length es" using map_res_length [OF assms(3)] .
  have "hash_expr h (es' ! i) = hash_expr h (es ! i)" if "i < length es" for i
    using clone_expr_hash [OF assms(1) _ map_res_nth [OF assms(3) that]] assms(2) that
    by (simp add: list_all_length)
  with len show "map (hash_expr h) es' = map (hash_expr h) es" by (auto intro: nth_equalityI)
qed

text \<open>The copy of an expression mentions allocated objects only.\<close>

lemma get_below:
  assumes "ctx_ok h c"
  shows "x < hp_next h \<Longrightarrow> get_loop c x < hp_next h"
    and "y < hp_next h \<Longrightarrow> get_arg c y < hp_next h"
    and "z < hp_next h \<Longrightarrow> get_var c z < hp_next h"
  using assms by (auto simp: ctx_ok_def get_loop_def get_arg_def get_var_def split: option.split)

lemma clone_expr_below:
  "ctx_ok h c \<Longrightarrow> below_expr (hp_next h) e \<Longrightarrow> clone_expr h vs c e = Inr e' \<Longrightarrow>
     below_expr (hp_next h) e'"
proof (induction e arbitrary: e')
  case (GEPExpr a "is")
  from GEPExpr.prems(3) obtain is' where m: "map_res (clone_expr h vs c) is = Inr is'"
    and e': "e' = GEPExpr (get_arg c a) is'"
    by (auto simp: new_GEPExpr_def)
  have "below_expr (hp_next h) (is' ! i)" if "i < length is" for i
    using GEPExpr.IH [of "is ! i" "is' ! i"] that map_res_nth [OF m that] GEPExpr.prems by auto
  then show ?case using e' GEPExpr.prems map_res_length [OF m]
    by (simp add: get_below all_set_conv_all_nth)
next
  case (BinaryExpr k l r)
  from BinaryExpr.prems(3) obtain l' r' where "clone_expr h vs c l = Inr l'"
    "clone_expr h vs c r = Inr r'" "e' = BinaryExpr k l' r'" by (auto simp: new_BinaryExpr_def)
  with BinaryExpr.IH(1) [of l'] BinaryExpr.IH(2) [of r'] BinaryExpr.prems show ?case by simp
qed (auto simp: new_BroadcastExpr_def new_LoadExpr_def new_LoadLocalExpr_def new_IndexExpr_def
      get_below)

text \<open>
  The invariant of the recursion: the heap is extended, the context stays well formed, the copy is
  below the frontier, and its hash is that of the original.
\<close>

definition cloned :: "heap \<Rightarrow> stmt \<Rightarrow> stmt \<times> heap \<times> cctx \<Rightarrow> bool" where
  "cloned h s r \<longleftrightarrow>
     (case r of (s', h', c') \<Rightarrow> heap_ext h h' \<and> ctx_ok h' c' \<and> below (hp_next h') s'
        \<and> hash_stmt h' s' = hash_stmt h s)"

definition cloned_scope :: "heap \<Rightarrow> stmt list \<Rightarrow> stmt list \<times> heap \<times> cctx \<Rightarrow> bool" where
  "cloned_scope h ss r \<longleftrightarrow>
     (case r of (ss', h', c') \<Rightarrow> heap_ext h h' \<and> ctx_ok h' c' \<and> (\<forall>s \<in> set ss'. below (hp_next h') s)
        \<and> map (hash_stmt h') ss' = map (hash_stmt h) ss)"

lemma cloned_scope_length: "cloned_scope h ss (ss', h', c') \<Longrightarrow> length ss' = length ss"
  by (auto simp: cloned_scope_def simp del: map_eq_conv dest: map_eq_imp_length_eq)

lemma clone_stmts_hash:
  "clone_stmt h vs enc c s = Inr r \<Longrightarrow> ctx_ok h c \<Longrightarrow> below (hp_next h) s \<Longrightarrow> index_kinds_stmt s \<Longrightarrow>
     cloned h s r"
  "clone_scope h vs enc c ss = Inr rs \<Longrightarrow> ctx_ok h c \<Longrightarrow> \<forall>s \<in> set ss. below (hp_next h) s \<Longrightarrow>
     list_all index_kinds_stmt ss \<Longrightarrow> cloned_scope h ss rs"
proof (induction h vs enc c s and h vs enc c ss arbitrary: r and rs
    rule: clone_stmt_clone_scope.induct)
  case (1 h vs enc c L body)
  obtain L' h1 where new: "new_loop h (loop_name h L) (loop_end h L) (loop_stride h L) = (L', h1)"
    by fastforce
  with "1.prems"(1) obtain c1 body' h2 c2 where c1: "map_loop c L L' = Inr c1"
    and body: "clone_scope h1 vs (L # enc) c1 body = Inr (body', h2, c2)"
    and r: "r = (Loop L' body', h2, c2)" by auto
  have ext: "heap_ext h h1" using new by (rule heap_ext_new)
  have ok1: "ctx_ok h1 c1" using "1.prems"(2,3) new c1 by (auto intro: ctx_ok_map_loop)
  have low: "\<forall>s \<in> set body. below (hp_next h1) s"
    using "1.prems"(3) heap_ext_next [OF ext] by (auto intro: below_mono)
  have cs: "cloned_scope h1 body (body', h2, c2)"
    using "1.IH" [OF new [symmetric] refl c1 body ok1 low] "1.prems"(4) by simp
  then have ext2: "heap_ext h1 h2" by (simp add: cloned_scope_def)
  have L': "L' = hp_next h" "hp_next h1 = Suc (hp_next h)" "hp_loop h1 L' = hp_loop h L"
    using new by (auto simp: new_loop_def loop_name_def loop_end_def loop_stride_def)
  have loop: "hp_loop h2 L' = hp_loop h L" "L' < hp_next h2"
    using ext2 L' by (auto simp: heap_ext_def)
  have "map (hash_stmt h1) body = map (hash_stmt h) body"
    using "1.prems"(3) ext by (simp add: hash_stmt_ext)
  then have "map (hash_stmt h2) body' = map (hash_stmt h) body"
    using cs by (simp add: cloned_scope_def del: map_eq_conv)
  then have "hash_stmt h2 (Loop L' body') = hash_stmt h (Loop L body)"
    using loop cloned_scope_length [OF cs]
    by (simp add: loop_name_def loop_end_def loop_stride_def del: map_eq_conv)
  then show ?case
    using r cs loop heap_ext_trans [OF ext ext2]
    by (simp add: cloned_def cloned_scope_def del: hash_stmt.simps)
next
  case (2 h vs enc c val lo hi body)
  then obtain val' body' h1 c1 where v: "clone_expr h vs c val = Inr val'"
    and body: "clone_scope h vs enc c body = Inr (body', h1, c1)"
    and r: "r = (IfRange val' lo hi body', h1, c1)" by auto
  have cs: "cloned_scope h body (body', h1, c1)" using "2.IH" [OF v body] "2.prems" by simp
  then have ext: "heap_ext h h1" by (simp add: cloned_scope_def)
  have low: "below_expr (hp_next h) val'" using clone_expr_below v "2.prems" by fastforce
  have "hash_expr h1 val' = hash_expr h val"
    using clone_expr_hash [OF _ _ v] hash_expr_ext [OF ext low] "2.prems" by simp
  then show ?case
    using r cs cloned_scope_length [OF cs] below_expr_mono [OF low heap_ext_next [OF ext]]
    by (simp add: cloned_def cloned_scope_def del: map_eq_conv)
next
  case (3 h vs enc c name params)
  then obtain params' where p: "map_res (clone_expr h vs c) params = Inr params'"
    and r: "r = (CallStmt name params', h, c)" by auto
  have "below_expr (hp_next h) (params' ! i)" if "i < length params" for i
    using clone_expr_below [OF _ _ map_res_nth [OF p that]] "3.prems" that by simp
  then have "\<forall>e \<in> set params'. below_expr (hp_next h) e"
    using map_res_length [OF p] by (simp add: all_set_conv_all_nth)
  with r clone_exprs_hash [OF _ _ p] "3.prems" show ?case
    by (simp add: cloned_def del: map_eq_conv)
next
  case (4 h vs enc c gep v acc)
  then obtain g' v' where "clone_expr h vs c gep = Inr g'" "clone_expr h vs c v = Inr v'"
    and "r = (StoreStmt g' v' acc, h, c)" by (auto simp: new_StoreStmt_def)
  with "4.prems" clone_expr_hash [of h c gep vs g'] clone_expr_hash [of h c v vs v']
    clone_expr_below [of h c gep vs g'] clone_expr_below [of h c v vs v']
  show ?case by (simp add: cloned_def)
next
  case (5 h vs enc c x v acc)
  then obtain v' where "clone_expr h vs c v = Inr v'"
    and "r = (StoreLocalStmt (get_var c x) v' acc, h, c)" by (auto simp: new_StoreLocalStmt_def)
  with "5.prems" clone_expr_hash [of h c v vs v'] clone_expr_below [of h c v vs v']
  show ?case by (simp add: cloned_def get_below)
next
  case (6 h vs enc c)
  then show ?case by (auto simp: cloned_scope_def)
next
  case (7 h vs enc c s ss)
  then obtain s' h1 c1 ss' h2 c2 where s: "clone_stmt h vs enc c s = Inr (s', h1, c1)"
    and ss: "clone_scope h1 vs enc c1 ss = Inr (ss', h2, c2)" and rs: "rs = (s' # ss', h2, c2)"
    by (auto split: prod.splits)
  have one: "cloned h s (s', h1, c1)" using "7.IH"(1) [OF s] "7.prems" by simp
  then have ext: "heap_ext h h1" and ok: "ctx_ok h1 c1" by (simp_all add: cloned_def)
  have low: "\<forall>s \<in> set ss. below (hp_next h1) s"
    using "7.prems"(3) heap_ext_next [OF ext] by (auto intro: below_mono)
  have two: "cloned_scope h1 ss (ss', h2, c2)"
    using "7.IH"(2) [OF s refl refl ss ok low] "7.prems" by simp
  then have ext2: "heap_ext h1 h2" by (simp add: cloned_scope_def)
  have "map (hash_stmt h1) ss = map (hash_stmt h) ss"
    using "7.prems"(3) ext by (simp add: hash_stmt_ext)
  moreover have "hash_stmt h2 s' = hash_stmt h1 s'"
    using one hash_stmt_ext [OF ext2, of s'] by (simp add: cloned_def)
  moreover have "below (hp_next h2) s'"
    using one below_mono heap_ext_next [OF ext2] by (auto simp: cloned_def)
  ultimately show ?case using one two rs heap_ext_trans [OF ext ext2]
    by (simp add: cloned_def cloned_scope_def del: map_eq_conv)
qed

section \<open>Cloning a program\<close>

text \<open>All objects a program mentions are allocated.\<close>

definition below_program :: "heap \<Rightarrow> program \<Rightarrow> bool" where
  "below_program h p \<longleftrightarrow>
     list_all (\<lambda>a. a < hp_next h) (pr_args p) \<and> list_all (\<lambda>v. v < hp_next h) (pr_vars p)
     \<and> list_all (below (hp_next h)) (pr_body p)"

lemma ctx_ok_map_arg:
  assumes "ctx_ok h c" and "a < hp_next h" and "new_arg h (hp_arg h a) = (a', h1)"
    and "map_arg c a a' = Inr c1"
  shows "ctx_ok h1 c1"
proof -
  have "ctx_ok h1 c" using assms(1,3) by (blast intro: ctx_ok_ext heap_ext_new)
  moreover have "a' = hp_next h" "hp_next h1 = Suc (hp_next h)" "hp_arg h1 a' = hp_arg h1 a"
    using assms(2,3) by (auto simp: new_arg_def)
  ultimately show ?thesis using assms(2,4)
    by (auto simp: ctx_ok_def map_arg_def split: if_splits)
qed

lemma ctx_ok_map_var:
  assumes "ctx_ok h c" and "v < hp_next h" and "new_var h (hp_var h v) = (v', h1)"
    and "map_var c v v' = Inr c1"
  shows "ctx_ok h1 c1"
proof -
  have "ctx_ok h1 c" using assms(1,3) by (blast intro: ctx_ok_ext heap_ext_new)
  moreover have "v' = hp_next h" "hp_next h1 = Suc (hp_next h)" "hp_var h1 v' = hp_var h1 v"
    using assms(2,3) by (auto simp: new_var_def)
  ultimately show ?thesis using assms(2,4)
    by (auto simp: ctx_ok_def map_var_def split: if_splits)
qed

lemma clone_args_ok:
  "clone_args h c as = Inr (as', h', c') \<Longrightarrow> ctx_ok h c \<Longrightarrow> list_all (\<lambda>a. a < hp_next h) as \<Longrightarrow>
     heap_ext h h' \<and> ctx_ok h' c' \<and> list_all (\<lambda>a. a < hp_next h') as'
     \<and> map (hp_arg h') as' = map (hp_arg h) as"
proof (induction h c as arbitrary: as' h' c' rule: clone_args.induct)
  case (2 h c a as)
  obtain a' h1 where new: "new_arg h (hp_arg h a) = (a', h1)" by fastforce
  with "2.prems"(1) obtain c1 as'' where m: "map_arg c a a' = Inr c1"
    and cl: "clone_args h1 c1 as = Inr (as'', h', c')" and as': "as' = a' # as''" by auto
  have ext: "heap_ext h h1" using new by (rule heap_ext_new)
  have low: "list_all (\<lambda>a. a < hp_next h1) as"
    using "2.prems"(3) heap_ext_next [OF ext] by (auto simp: list_all_iff)
  have ok: "ctx_ok h1 c1" using "2.prems" new m by (auto intro: ctx_ok_map_arg)
  have rec: "heap_ext h1 h' \<and> ctx_ok h' c' \<and> list_all (\<lambda>a. a < hp_next h') as''
      \<and> map (hp_arg h') as'' = map (hp_arg h1) as"
    using "2.IH" [OF new [symmetric] refl m cl ok low] .
  have "map (hp_arg h1) as = map (hp_arg h) as"
    using "2.prems"(3) ext by (auto simp: heap_ext_def list_all_iff)
  moreover have "hp_arg h' a' = hp_arg h a" "a' < hp_next h'"
    using new rec by (auto simp: heap_ext_def new_arg_def)
  ultimately show ?case using rec as' heap_ext_trans [OF ext] by (simp del: map_eq_conv)
qed simp

lemma clone_vars_ok:
  "clone_vars h c vs = Inr (vs', h', c') \<Longrightarrow> ctx_ok h c \<Longrightarrow> list_all (\<lambda>v. v < hp_next h) vs \<Longrightarrow>
     heap_ext h h' \<and> ctx_ok h' c' \<and> list_all (\<lambda>v. v < hp_next h') vs'
     \<and> map (hp_var h') vs' = map (hp_var h) vs"
proof (induction h c vs arbitrary: vs' h' c' rule: clone_vars.induct)
  case (2 h c v vs)
  obtain v' h1 where new: "new_var h (hp_var h v) = (v', h1)" by fastforce
  with "2.prems"(1) obtain c1 vs'' where m: "map_var c v v' = Inr c1"
    and cl: "clone_vars h1 c1 vs = Inr (vs'', h', c')" and vs': "vs' = v' # vs''" by auto
  have ext: "heap_ext h h1" using new by (rule heap_ext_new)
  have low: "list_all (\<lambda>v. v < hp_next h1) vs"
    using "2.prems"(3) heap_ext_next [OF ext] by (auto simp: list_all_iff)
  have ok: "ctx_ok h1 c1" using "2.prems" new m by (auto intro: ctx_ok_map_var)
  have rec: "heap_ext h1 h' \<and> ctx_ok h' c' \<and> list_all (\<lambda>v. v < hp_next h') vs''
      \<and> map (hp_var h') vs'' = map (hp_var h1) vs"
    using "2.IH" [OF new [symmetric] refl m cl ok low] .
  have "map (hp_var h1) vs = map (hp_var h) vs"
    using "2.prems"(3) ext by (auto simp: heap_ext_def list_all_iff)
  moreover have "hp_var h' v' = hp_var h v" "v' < hp_next h'"
    using new rec by (auto simp: heap_ext_def new_var_def)
  ultimately show ?case using rec vs' heap_ext_trans [OF ext] by (simp del: map_eq_conv)
qed simp

lemma foldl_hash_map: "foldl (\<lambda>x a. hashJoin x (f (g a))) s xs = foldl (\<lambda>x y. hashJoin x (f y)) s (map g xs)"
  by (induction xs arbitrary: s) simp_all

lemma map_same_ext:
  "heap_ext h h' \<Longrightarrow> list_all (\<lambda>a. a < hp_next h) as \<Longrightarrow> map (hp_arg h') as = map (hp_arg h) as"
  "heap_ext h h' \<Longrightarrow> list_all (\<lambda>a. a < hp_next h) vs \<Longrightarrow> map (hp_var h') vs = map (hp_var h) vs"
  by (auto simp: heap_ext_def list_all_iff)

lemma clone_program_hash_eq:
  assumes c: "clone_program h empty_ctx p = Inr (p', h', c')"
    and low: "below_program h p" and kinds: "list_all index_kinds_stmt (pr_body p)"
  shows "hash_program h' p' = hash_program h p \<and> below_program h' p' \<and> heap_ext h h'"
proof -
  from c obtain as' h1 c1 vs' h2 c2 body' where
    as: "clone_args h empty_ctx (pr_args p) = Inr (as', h1, c1)"
    and vs: "clone_vars h1 c1 (pr_vars p) = Inr (vs', h2, c2)"
    and body: "clone_scope h2 (pr_vars p) [] c2 (pr_body p) = Inr (body', h', c')"
    and p': "p' = \<lparr>pr_name = pr_name p, pr_args = as', pr_vars = vs', pr_body = body'\<rparr>"
    by (auto simp: clone_program_def split: prod.splits)
  have A: "heap_ext h h1" "ctx_ok h1 c1" "list_all (\<lambda>a. a < hp_next h1) as'"
    "map (hp_arg h1) as' = map (hp_arg h) (pr_args p)"
    using clone_args_ok [OF as] low by (simp_all add: below_program_def)
  have lv: "list_all (\<lambda>v. v < hp_next h1) (pr_vars p)"
    using low heap_ext_next [OF A(1)] by (auto simp: below_program_def list_all_iff)
  have V: "heap_ext h1 h2" "ctx_ok h2 c2" "list_all (\<lambda>v. v < hp_next h2) vs'"
    "map (hp_var h2) vs' = map (hp_var h1) (pr_vars p)"
    using clone_vars_ok [OF vs A(2) lv] by auto
  have ext: "heap_ext h h2" using A(1) V(1) by (rule heap_ext_trans)
  have lb: "\<forall>s \<in> set (pr_body p). below (hp_next h2) s"
    using low heap_ext_next [OF ext] by (auto simp: below_program_def list_all_iff intro: below_mono)
  have S: "cloned_scope h2 (pr_body p) (body', h', c')"
    using clone_stmts_hash(2) [OF body V(2) lb kinds] .
  then have ext': "heap_ext h2 h'" by (simp add: cloned_scope_def)
  have "map (hash_stmt h2) (pr_body p) = map (hash_stmt h) (pr_body p)"
    using low ext by (simp add: hash_stmt_ext below_program_def list_all_iff)
  then have hs: "hash_scope h' body' = hash_scope h (pr_body p)"
    using S cloned_scope_length [OF S] by (simp add: hash_scope_def cloned_scope_def del: map_eq_conv)
  have args: "map (hp_arg h') as' = map (hp_arg h) (pr_args p)"
    using map_same_ext(1) [OF heap_ext_trans [OF V(1) ext'] A(3)] A(4) by simp
  have vars: "map (hp_var h') vs' = map (hp_var h) (pr_vars p)"
    using map_same_ext(2) [OF ext' V(3)] V(4) map_same_ext(2) [OF A(1), of "pr_vars p"] low
    by (simp add: below_program_def del: map_eq_conv)
  have "hash_program h' p' = hash_program h p"
    unfolding hash_program_def p' Let_def
    by (simp only: program.select_convs hs args vars
          foldl_hash_map [of hash_Argument "hp_arg h"] foldl_hash_map [of hash_Argument "hp_arg h'"]
          foldl_hash_map [of hash_LocalVar "hp_var h"] foldl_hash_map [of hash_LocalVar "hp_var h'"])
  moreover have "below_program h' p'"
    using A(3) V(3) S heap_ext_next [OF V(1)] heap_ext_next [OF ext'] p'
    by (auto simp: below_program_def list_all_iff cloned_scope_def)
  ultimately show ?thesis using heap_ext_trans [OF ext ext'] by simp
qed

end
