(* ===== verification/Analysis.thy ===== *)
theory Analysis
  imports Verify
begin

text \<open>
  \<open>Visitors.h\<close>, the \<open>visit\<close> methods of \<open>lib/Program/Program.cpp\<close> and the queries of
  \<open>lib/Analysis/Value.cpp\<close> and \<open>lib/Analysis/Program.cpp\<close>.

  \<open>visit\<close> walks the tree and calls \<open>enter\<close> and \<open>leave\<close>: it is the list of these calls, and each
  visitor class is a function of that list. The integer ranges are C++ \<open>int\<close>s, whose overflow is
  an error of the result type.
\<close>

section \<open>The visitor\<close>

datatype event = EnterS stmt | LeaveS stmt | EnterE expr | LeaveE expr

fun visit_expr :: "expr \<Rightarrow> event list" where
  "visit_expr (IndexExpr ty L) = [EnterE (IndexExpr ty L), LeaveE (IndexExpr ty L)]"
| "visit_expr (ConstantExpr v) = [EnterE (ConstantExpr v), LeaveE (ConstantExpr v)]"
| "visit_expr (ConstantFPExpr f) = [EnterE (ConstantFPExpr f), LeaveE (ConstantFPExpr f)]"
| "visit_expr (ConstantStringExpr s) =
     [EnterE (ConstantStringExpr s), LeaveE (ConstantStringExpr s)]"
| "visit_expr (BinaryExpr k l r) =
     EnterE (BinaryExpr k l r) # visit_expr l @ visit_expr r @ [LeaveE (BinaryExpr k l r)]"
| "visit_expr (UnaryExpr k e) = EnterE (UnaryExpr k e) # visit_expr e @ [LeaveE (UnaryExpr k e)]"
| "visit_expr (BroadcastExpr e vf) =
     EnterE (BroadcastExpr e vf) # visit_expr e @ [LeaveE (BroadcastExpr e vf)]"
| "visit_expr (GEPExpr a is) =
     EnterE (GEPExpr a is) # concat (map visit_expr is) @ [LeaveE (GEPExpr a is)]"
| "visit_expr (LoadExpr ty g) = EnterE (LoadExpr ty g) # visit_expr g @ [LeaveE (LoadExpr ty g)]"
| "visit_expr (LoadLocalExpr ty v) = [EnterE (LoadLocalExpr ty v), LeaveE (LoadLocalExpr ty v)]"

text \<open>An \<open>IfRange\<close> visits its value before it is entered.\<close>

fun visit_stmt :: "stmt \<Rightarrow> event list" where
  "visit_stmt (Loop L body) =
     EnterS (Loop L body) # concat (map visit_stmt body) @ [LeaveS (Loop L body)]"
| "visit_stmt (IfRange val lo hi body) =
     visit_expr val @ EnterS (IfRange val lo hi body) # concat (map visit_stmt body) @
     [LeaveS (IfRange val lo hi body)]"
| "visit_stmt (CallStmt name params) =
     EnterS (CallStmt name params) # concat (map visit_expr params) @ [LeaveS (CallStmt name params)]"
| "visit_stmt (StoreStmt gep x acc) =
     EnterS (StoreStmt gep x acc) # visit_expr gep @ visit_expr x @ [LeaveS (StoreStmt gep x acc)]"
| "visit_stmt (StoreLocalStmt v x acc) =
     EnterS (StoreLocalStmt v x acc) # visit_expr x @ [LeaveS (StoreLocalStmt v x acc)]"

abbreviation visit_body :: "stmt list \<Rightarrow> event list" where
  "visit_body body \<equiv> concat (map visit_stmt body)"

definition stmts_entered :: "event list \<Rightarrow> stmt list" where
  "stmts_entered evs = concat (map (\<lambda>ev. case ev of EnterS s \<Rightarrow> [s] | _ \<Rightarrow> []) evs)"

definition exprs_entered :: "event list \<Rightarrow> expr list" where
  "exprs_entered evs = concat (map (\<lambda>ev. case ev of EnterE e \<Rightarrow> [e] | _ \<Rightarrow> []) evs)"

definition exprs_left :: "event list \<Rightarrow> expr list" where
  "exprs_left evs = concat (map (\<lambda>ev. case ev of LeaveE e \<Rightarrow> [e] | _ \<Rightarrow> []) evs)"

lemma entered_simps [simp]:
  "stmts_entered [] = []" "exprs_entered [] = []" "exprs_left [] = []"
  "stmts_entered (EnterS s # evs) = s # stmts_entered evs"
  "stmts_entered (LeaveS s' # evs) = stmts_entered evs"
  "stmts_entered (EnterE e # evs) = stmts_entered evs"
  "stmts_entered (LeaveE e' # evs) = stmts_entered evs"
  "exprs_entered (EnterS s # evs) = exprs_entered evs"
  "exprs_entered (LeaveS s' # evs) = exprs_entered evs"
  "exprs_entered (EnterE e # evs) = e # exprs_entered evs"
  "exprs_entered (LeaveE e' # evs) = exprs_entered evs"
  "exprs_left (EnterS s # evs) = exprs_left evs"
  "exprs_left (LeaveS s' # evs) = exprs_left evs"
  "exprs_left (EnterE e # evs) = exprs_left evs"
  "exprs_left (LeaveE e' # evs) = e' # exprs_left evs"
  "stmts_entered (evs @ evs') = stmts_entered evs @ stmts_entered evs'"
  "exprs_entered (evs @ evs') = exprs_entered evs @ exprs_entered evs'"
  "exprs_left (evs @ evs') = exprs_left evs @ exprs_left evs'"
  by (simp_all add: stmts_entered_def exprs_entered_def exprs_left_def)

lemma entered_concat [simp]:
  "stmts_entered (concat xss) = concat (map stmts_entered xss)"
  "exprs_entered (concat xss) = concat (map exprs_entered xss)"
  "exprs_left (concat xss) = concat (map exprs_left xss)"
  by (induction xss) simp_all

section \<open>Collectors\<close>

definition collectStmts :: "stmt \<Rightarrow> stmt list" where
  "collectStmts s = stmts_entered (visit_stmt s)"

definition collectExprs :: "stmt \<Rightarrow> expr list" where
  "collectExprs s = exprs_left (visit_stmt s)"

definition load_locals :: "var_ptr option \<Rightarrow> expr list \<Rightarrow> expr list" where
  "load_locals flt es =
     filter (\<lambda>e. case e of LoadLocalExpr ty v \<Rightarrow> flt = None \<or> flt = Some v | _ \<Rightarrow> False) es"

definition store_locals :: "var_ptr option \<Rightarrow> stmt list \<Rightarrow> stmt list" where
  "store_locals flt ss =
     filter (\<lambda>s. case s of StoreLocalStmt v x acc \<Rightarrow> flt = None \<or> flt = Some v | _ \<Rightarrow> False) ss"

definition collectLocals :: "event list \<Rightarrow> var_ptr option \<Rightarrow> expr list \<times> stmt list" where
  "collectLocals evs flt =
     (load_locals flt (exprs_entered evs), store_locals flt (stmts_entered evs))"

fun gep_dest :: "expr \<Rightarrow> arg_ptr option" where
  "gep_dest (GEPExpr a is) = Some a"
| "gep_dest _ = None"

fun gep_indices :: "expr \<Rightarrow> expr list" where
  "gep_indices (GEPExpr a is) = is"
| "gep_indices _ = []"

definition loads_of :: "arg_ptr option \<Rightarrow> expr list \<Rightarrow> expr list" where
  "loads_of flt es =
     filter (\<lambda>e. case e of LoadExpr ty g \<Rightarrow> flt = None \<or> flt = gep_dest g | _ \<Rightarrow> False) es"

definition stores_of :: "arg_ptr option \<Rightarrow> stmt list \<Rightarrow> stmt list" where
  "stores_of flt ss =
     filter (\<lambda>s. case s of StoreStmt g x acc \<Rightarrow> flt = None \<or> flt = gep_dest g | _ \<Rightarrow> False) ss"

definition collectLoadStores :: "event list \<Rightarrow> arg_ptr option \<Rightarrow> expr list \<times> stmt list" where
  "collectLoadStores evs flt = (loads_of flt (exprs_entered evs), stores_of flt (stmts_entered evs))"

fun index_matches :: "loop_ptr option \<Rightarrow> expr \<Rightarrow> bool" where
  "index_matches flt (IndexExpr ty L) = (flt = None \<or> flt = Some L)"
| "index_matches flt _ = False"

definition collectIndices :: "event list \<Rightarrow> loop_ptr option \<Rightarrow> expr list" where
  "collectIndices evs flt = filter (index_matches flt) (exprs_entered evs)"

definition collectLoops :: "event list \<Rightarrow> stmt list" where
  "collectLoops evs =
     filter (\<lambda>s. case s of Loop L body \<Rightarrow> True | _ \<Rightarrow> False) (stmts_entered evs)"

definition collectIfs :: "event list \<Rightarrow> stmt list" where
  "collectIfs evs =
     filter (\<lambda>s. case s of IfRange val lo hi body \<Rightarrow> True | _ \<Rightarrow> False) (stmts_entered evs)"

fun loop_id :: "stmt \<Rightarrow> loop_ptr option" where
  "loop_id (Loop L body) = Some L"
| "loop_id _ = None"

definition dependsOnLoop :: "event list \<Rightarrow> loop_ptr \<Rightarrow> bool" where
  "dependsOnLoop evs L \<longleftrightarrow> collectIndices evs (Some L) \<noteq> []"

definition getLoopByName :: "heap \<Rightarrow> event list \<Rightarrow> string \<Rightarrow> stmt option" where
  "getLoopByName h evs name =
     find (\<lambda>s. case s of Loop L body \<Rightarrow> loop_name h L = name | _ \<Rightarrow> False) (collectLoops evs)"

fun isScope :: "stmt \<Rightarrow> bool" where
  "isScope (Loop L body) = True"
| "isScope (IfRange val lo hi body) = True"
| "isScope _ = False"

definition isInnermostLoop :: "stmt list \<Rightarrow> bool" where
  "isInnermostLoop body \<longleftrightarrow> \<not> list_ex isScope body"

text \<open>\<open>getNextStmt\<close>: the statement after position \<open>i\<close> of the parent's body.\<close>

definition getNextStmt :: "stmt list \<Rightarrow> nat \<Rightarrow> stmt option" where
  "getNextStmt body i = (if i + 1 < length body then Some (body ! (i + 1)) else None)"

section \<open>Constants and access patterns\<close>

datatype IndexAccessKind = Uniform | Consecutive | Other

text \<open>The case \<open>Mul\<close> falls through into the case \<open>Add\<close> unless both sides are uniform.\<close>

fun getIndexAccessKind :: "expr \<Rightarrow> loop_ptr \<Rightarrow> IndexAccessKind" where
  "getIndexAccessKind (IndexExpr ty L') L = (if L' = L then Consecutive else Uniform)"
| "getIndexAccessKind (BinaryExpr k l r) L =
     (let LK = getIndexAccessKind l L; RK = getIndexAccessKind r L in
      if k = Mul \<or> k = Add then
        (if k = Mul \<and> LK = Uniform \<and> RK = Uniform then Uniform
         else if LK = Other \<or> RK = Other then Other
         else if LK = Uniform \<and> RK = Uniform then Uniform
         else Consecutive)
      else (if LK = Uniform \<and> RK = Uniform then Uniform else Other))"
| "getIndexAccessKind (ConstantExpr v) L = Uniform"
| "getIndexAccessKind (ConstantFPExpr f) L = Uniform"
| "getIndexAccessKind _ L = Other"

definition getZeroExpr :: "ExprType \<Rightarrow> expr res" where
  "getZeroExpr T =
     (let z = (if ety_isIndexTy T then ConstantExpr 0 else ConstantFPExpr 0) in
      bind_res (if isVector T then new_BroadcastExpr z (ety_width T) else Inr z) (\<lambda>ret.
      bind_res (require (ExprType_isEqual (getType ret) T) ''ret->getType() == T'') (\<lambda>_.
      Inr ret)))"

fun isConst :: "expr \<Rightarrow> bool" where
  "isConst (ConstantExpr v) = True"
| "isConst (ConstantFPExpr f) = True"
| "isConst _ = False"

fun isOne :: "expr \<Rightarrow> bool" where
  "isOne (ConstantExpr v) = (v = 1)"
| "isOne (ConstantFPExpr f) = f32_eq f f32_one"
| "isOne _ = False"

fun isZero :: "expr \<Rightarrow> bool" where
  "isZero (ConstantExpr v) = (v = 0)"
| "isZero (ConstantFPExpr f) = f32_eq f 0"
| "isZero _ = False"

definition areLoadsStoresDisjoint :: "expr list \<Rightarrow> stmt list \<Rightarrow> bool" where
  "areLoadsStoresDisjoint loads stores \<longleftrightarrow>
     (let writes = map (\<lambda>s. case s of StoreStmt g x acc \<Rightarrow> gep_dest g | _ \<Rightarrow> None) stores in
      list_all (\<lambda>e. case e of LoadExpr ty g \<Rightarrow> gep_dest g \<notin> set writes | _ \<Rightarrow> True) loads)"

section \<open>Integer ranges\<close>

text \<open>The four products, sums or differences of the bounds, each an \<open>int\<close> operation.\<close>

definition corners :: "(int \<Rightarrow> int \<Rightarrow> int) \<Rightarrow> int \<times> int \<Rightarrow> int \<times> int \<Rightarrow> (int \<times> int) res" where
  "corners f L R =
     bind_res (chk_int (f (fst L) (fst R))) (\<lambda>a.
     bind_res (chk_int (f (fst L) (snd R))) (\<lambda>b.
     bind_res (chk_int (f (snd L) (fst R))) (\<lambda>c.
     bind_res (chk_int (f (snd L) (snd R))) (\<lambda>d.
       let lo = min (min (min a b) c) d; hi = max (max (max a b) c) d in
       bind_res (require (lo \<le> hi) ''invalid range'') (\<lambda>_. Inr (lo, hi))))))"

fun computeKnownIntegerRange :: "heap \<Rightarrow> loop_ptr list option \<Rightarrow> expr \<Rightarrow> (int \<times> int) option res" where
  "computeKnownIntegerRange h live (ConstantExpr v) = Inr (Some (int_of_i64 v, int_of_i64 v))"
| "computeKnownIntegerRange h live (IndexExpr ty L) =
     (if (case live of None \<Rightarrow> False | Some ls \<Rightarrow> L \<notin> set ls) then Inr (Some (0, 0))
      else
        let last = int_of_u32 (loop_end h L - loop_stride h L) in
        bind_res (require (0 \<le> last) ''invalid range'') (\<lambda>_. Inr (Some (0, last))))"
| "computeKnownIntegerRange h live (BinaryExpr k l r) =
     bind_res (computeKnownIntegerRange h live l) (\<lambda>ol.
     (case ol of None \<Rightarrow> Inr None | Some L \<Rightarrow>
      bind_res (computeKnownIntegerRange h live r) (\<lambda>or.
      (case or of None \<Rightarrow> Inr None | Some R \<Rightarrow>
       (case k of
          BinOpKind.Mul \<Rightarrow> bind_res (corners (*) L R) (\<lambda>x. Inr (Some x))
        | BinOpKind.Add \<Rightarrow> bind_res (corners (+) L R) (\<lambda>x. Inr (Some x))
        | BinOpKind.Sub \<Rightarrow> bind_res (corners (-) L R) (\<lambda>x. Inr (Some x))
        | BinOpKind.Div \<Rightarrow> Inr None
        | BinOpKind.Pow \<Rightarrow> Inr None
        | BinOpKind.Min \<Rightarrow>
            (let x = (min (fst L) (fst R), min (snd L) (snd R)) in
             bind_res (require (fst x \<le> snd x) ''invalid range'') (\<lambda>_. Inr (Some x)))
        | BinOpKind.Max \<Rightarrow>
            (let x = (min (fst L) (fst R), min (snd L) (snd R)) in
             bind_res (require (fst x \<le> snd x) ''invalid range'') (\<lambda>_. Inr (Some x))))))))"
| "computeKnownIntegerRange h live _ = Inr None"

datatype RangeRelation = Intersect | Disjoint | Subset

definition getRangeRelation :: "int \<times> int \<Rightarrow> int \<times> int \<Rightarrow> RangeRelation" where
  "getRangeRelation A B =
     (if fst B \<le> fst A \<and> snd A \<le> snd B then Subset
      else if snd A \<le> fst B \<or> snd A \<le> fst B then Disjoint
      else Intersect)"

section \<open>The cost model\<close>

text \<open>Memory operations and arithmetic operations, both 64-bit.\<close>

type_synonym ComputeCostTy = "u64 \<times> u64"

definition cost_add :: "ComputeCostTy \<Rightarrow> ComputeCostTy \<Rightarrow> ComputeCostTy" where
  "cost_add a b = (fst a + fst b, snd a + snd b)"

definition width_of :: "expr \<Rightarrow> u64" where
  "width_of e = ucast (ety_width (getType e))"

fun cost_expr :: "expr \<Rightarrow> ComputeCostTy res" where
  "cost_expr (LoadExpr ty g) = bind_res (cost_expr g) (\<lambda>_. Inr (ucast (ety_width ty), 0))"
| "cost_expr (LoadLocalExpr ty v) = Inr (0, 0)"
| "cost_expr (BinaryExpr k l r) =
     bind_res (cost_expr l) (\<lambda>LHS. bind_res (cost_expr r) (\<lambda>RHS.
       let cost = (if ety_isIndexTy (getType l) then 0 else width_of (BinaryExpr k l r)) in
       Inr (fst LHS + fst RHS, cost + snd LHS + snd RHS)))"
| "cost_expr (UnaryExpr k e) =
     bind_res (cost_expr e) (\<lambda>VV. Inr (fst VV, snd VV + width_of (UnaryExpr k e)))"
| "cost_expr (BroadcastExpr e vf) = bind_res (cost_expr e) (\<lambda>V. Inr (fst V, 1 + snd V))"
| "cost_expr (IndexExpr ty L) = Inr (0, 0)"
| "cost_expr (ConstantExpr v) = Inr (0, 0)"
| "cost_expr (ConstantFPExpr f) = Inr (0, 0)"
| "cost_expr (GEPExpr a is) =
     bind_res (each_res (\<lambda>e. bind_res (cost_expr e) (\<lambda>_. Inr ())) is) (\<lambda>_. Inr (0, 0))"
| "cost_expr (ConstantStringExpr s) = Inl (AssertFail ''Unknown expression'')"

fun cost_stmt :: "heap \<Rightarrow> stmt \<Rightarrow> ComputeCostTy res" where
  "cost_stmt h (Loop L body) =
     bind_res (map_res (cost_stmt h) body) (\<lambda>cs.
       if loop_stride h L = 0 then Inl (UB ''LE->getEnd() / 0'')
       else
         let tripcount = ucast (loop_end h L div loop_stride h L) in
         Inr (foldl (\<lambda>total c. (fst total + fst c * tripcount, snd total + snd c * tripcount))
                (0, 0) cs))"
| "cost_stmt h (IfRange val lo hi body) =
     bind_res (cost_expr val) (\<lambda>v. bind_res (map_res (cost_stmt h) body) (\<lambda>cs.
       Inr (foldl cost_add v cs)))"
| "cost_stmt h (StoreStmt gep x acc) =
     bind_res (cost_expr gep) (\<lambda>_. bind_res (cost_expr x) (\<lambda>c.
       Inr (if acc then (fst c + 2 * width_of x, snd c + 1 * width_of x)
            else (fst c + 1 * width_of x, snd c))))"
| "cost_stmt h (StoreLocalStmt v x acc) =
     bind_res (cost_expr x) (\<lambda>c. Inr (if acc then (fst c, snd c + width_of x) else c))"
| "cost_stmt h (CallStmt name params) =
     bind_res (each_res (\<lambda>e. bind_res (cost_expr e) (\<lambda>_. Inr ())) params)
       (\<lambda>_. Inl (AssertFail ''Unknown statement''))"

definition cost_program :: "heap \<Rightarrow> program \<Rightarrow> ComputeCostTy res" where
  "cost_program h p =
     bind_res (map_res (cost_stmt h) (pr_body p)) (\<lambda>cs. Inr (foldl cost_add (0, 0) cs))"

definition getAccessedMemoryForSubscript :: "heap \<Rightarrow> expr list \<Rightarrow> loop_ptr list option \<Rightarrow> u64 res" where
  "getAccessedMemoryForSubscript h indices live =
     bind_res
       (foldl (\<lambda>acc idx. bind_res acc (\<lambda>span. case span of None \<Rightarrow> Inr None | Some n \<Rightarrow>
            bind_res (computeKnownIntegerRange h live idx) (\<lambda>r. case r of None \<Rightarrow> Inr None
            | Some (lo, hi) \<Rightarrow>
                bind_res (chk_int (hi - lo)) (\<lambda>d. bind_res (chk_int (d + 1)) (\<lambda>d'.
                bind_res (chk_int (n * d')) (\<lambda>n'. Inr (Some n')))))))
         (Inr (Some 1)) indices)
       (\<lambda>span. Inr (case span of None \<Rightarrow> 0 | Some n \<Rightarrow> word_of_int n))"

definition getNumLoadsInLoop :: "heap \<Rightarrow> loop_ptr \<Rightarrow> stmt list \<Rightarrow> u64 res" where
  "getNumLoadsInLoop h L body =
     (let evs = visit_stmt (Loop L body);
          live = L # map (\<lambda>s. case s of Loop l b \<Rightarrow> l | _ \<Rightarrow> L) (collectLoops evs) in
      foldl (\<lambda>mx ld. bind_res mx (\<lambda>m.
          (case ld of
             LoadExpr ty g \<Rightarrow>
               bind_res (getAccessedMemoryForSubscript h (gep_indices g) (Some live)) (\<lambda>n. Inr (m + n))
           | _ \<Rightarrow> Inr m)))
        (Inr 0) (fst (collectLoadStores evs None)))"

definition getNumArithmeticInLoop :: "heap \<Rightarrow> loop_ptr \<Rightarrow> stmt list \<Rightarrow> u64 res" where
  "getNumArithmeticInLoop h L body = bind_res (cost_stmt h (Loop L body)) (\<lambda>c. Inr (snd c))"

section \<open>Facts\<close>

lemma collectLoops_ids: "set (map loop_id (collectLoops (visit_stmt s))) = Some ` loops_in s"
proof -
  have e: "stmts_entered (visit_expr x) = []" for x
    by (induction x) (auto simp: concat_eq_Nil_conv)
  show ?thesis
  proof (induction s)
    case (Loop L body)
    then show ?case by (auto simp: collectLoops_def image_UN image_iff filter_concat)
  next
    case (IfRange val lo hi body)
    then show ?case by (auto simp: collectLoops_def e image_UN image_iff filter_concat)
  qed (auto simp: collectLoops_def e)
qed

text \<open>Searching for an index finds exactly the loops a node refers to.\<close>

definition index_loops :: "expr list \<Rightarrow> loop_ptr set" where
  "index_loops es = {L. \<exists>ty. IndexExpr ty L \<in> set es}"

lemma index_loops_simps [simp]:
  "index_loops [] = {}" "index_loops (xs @ ys) = index_loops xs \<union> index_loops ys"
  "index_loops (concat xss) = (\<Union>xs \<in> set xss. index_loops xs)"
  by (auto simp: index_loops_def)

lemma index_loops_Cons [simp]:
  "index_loops (e # es) = (case e of IndexExpr ty L \<Rightarrow> {L} | _ \<Rightarrow> {}) \<union> index_loops es"
  by (cases e) (auto simp: index_loops_def)

lemma visit_expr_loops: "index_loops (exprs_entered (visit_expr e)) = loops_of_expr e"
  by (induction e) auto

lemma visit_stmt_loops: "index_loops (exprs_entered (visit_stmt s)) = refs_of s"
  by (induction s) (auto simp: visit_expr_loops)

lemma collectIndices_iff: "collectIndices evs (Some L) \<noteq> [] \<longleftrightarrow> L \<in> index_loops (exprs_entered evs)"
proof -
  have "filter (index_matches (Some L)) es \<noteq> [] \<longleftrightarrow> L \<in> index_loops es" for es
  proof (induction es)
    case (Cons e es)
    then show ?case by (cases e) auto
  qed simp
  then show ?thesis by (simp add: collectIndices_def)
qed

lemma dependsOnLoop_stmt: "dependsOnLoop (visit_stmt s) L \<longleftrightarrow> L \<in> refs_of s"
  by (simp add: dependsOnLoop_def collectIndices_iff visit_stmt_loops)

lemma dependsOnLoop_expr: "dependsOnLoop (visit_expr e) L \<longleftrightarrow> L \<in> loops_of_expr e"
  by (simp add: dependsOnLoop_def collectIndices_iff visit_expr_loops)

text \<open>The visitor enters and leaves every node once, in well-nested order.\<close>

lemma visit_expr_balanced: "length (exprs_left (visit_expr e)) = length (exprs_entered (visit_expr e))"
proof (induction e)
  case (GEPExpr a "is")
  then have "map (length \<circ> (exprs_left \<circ> visit_expr)) is = map (length \<circ> (exprs_entered \<circ> visit_expr)) is"
    by simp
  then show ?case by (simp add: length_concat del: map_eq_conv)
qed simp_all

section \<open>Properties\<close>

text \<open>\<open>dependsOnLoop\<close>, which collects index expressions with the visitor, answers exactly whether
  some index expression of the statement refers to the loop.\<close>

theorem dependsOnLoop_iff: "dependsOnLoop (visit_stmt s) L = (L \<in> refs_of s)"
  by (rule dependsOnLoop_stmt)

text \<open>\<open>collectLoops\<close> finds every loop nested in a statement and nothing else.\<close>

theorem collectLoops_finds: "set (map loop_id (collectLoops (visit_stmt s))) = Some ` loops_in s"
  by (rule collectLoops_ids)

text \<open>The fall-through from \<open>Mul\<close> to \<open>Add\<close> makes \<open>getIndexAccessKind\<close> call \<open>i * c\<close> consecutive
  for every constant, although neighbouring iterations are \<open>c\<close> elements apart; the header reserves
  \<open>Consecutive\<close> for accesses that move by one.\<close>

theorem scaled_index_is_called_consecutive:
  "getIndexAccessKind (BinaryExpr Mul (IndexExpr ty L) (ConstantExpr c)) L = Consecutive"
  by simp

text \<open>The upper bound \<open>computeKnownIntegerRange\<close> gives for a maximum is the smaller of the two
  upper bounds: for \<open>max(2, 7)\<close> the result is the range \<open>2 .. 2\<close>, which does not contain 7.\<close>

theorem range_of_max_is_wrong:
  "computeKnownIntegerRange h None (BinaryExpr BinOpKind.Max (ConstantExpr 2) (ConstantExpr 7)) = Inr (Some (2, 2))"
  by (simp add: int_of_i64_def Let_def)

end
