(* ===== verification/Semantics.thy ===== *)
theory Semantics
  imports Clone Analysis "HOL-Library.Signed_Division"
begin

text \<open>
  What a program does when it runs: the effect of the code that \<open>LLVMEmitter\<close> of
  \<open>lib/Backends/LLVMBackend/LLVMBackend.cpp\<close> generates for each node. \<open>eval\<close> follows \<open>generate\<close>
  and \<open>exec\<close> follows the \<open>emit\<close> methods: index arithmetic is 64-bit and wraps, a loop counts from
  zero in steps of its stride while the counter is below its end, an argument is a separate
  array of floats (\<open>noalias\<close>), and addresses are row-major offsets. An operation the generated
  code has no defined result for (division by zero, operands of different shape) gives \<open>None\<close>,
  as does a loop that never ends.

  The floating point operations of the target, the functions a \<open>CallStmt\<close> calls and the condition
  of an \<open>IfRange\<close> are the fields of a \<open>machine\<close>. The functions are compiled with fast-math, whose
  no-signed-zeros flag identifies the two zeros: \<open>canon\<close> maps a constant to its representative.
\<close>

section \<open>Values, states and machines\<close>

datatype val = VIdx "i64 list" | VFlt "f32 list" | VPtr arg_ptr i64 | VStr string

type_synonym memory = "arg_ptr \<Rightarrow> i64 \<Rightarrow> f32"

record state =
  st_mem :: memory
  st_loc :: "var_ptr \<Rightarrow> val"
  st_out :: "(string \<times> val list) list"

record machine =
  m_bin :: "BinOpKind \<Rightarrow> f32 \<Rightarrow> f32 \<Rightarrow> f32"
  m_un :: "UnaryOpKind \<Rightarrow> f32 \<Rightarrow> f32"
  m_ipow :: "i64 \<Rightarrow> i64 \<Rightarrow> i64"
  m_guard :: "i64 \<Rightarrow> int \<Rightarrow> int \<Rightarrow> bool"
  m_call :: "string \<Rightarrow> val list \<Rightarrow> memory \<Rightarrow> memory"

type_synonym env = "loop_ptr \<Rightarrow> i64"

text \<open>The condition of an \<open>IfRange\<close>, and the one the LLVM emitter builds, which joins the two
  comparisons with \<open>or\<close>.\<close>

definition range_guard :: "i64 \<Rightarrow> int \<Rightarrow> int \<Rightarrow> bool" where
  "range_guard x lo hi \<longleftrightarrow> lo \<le> sint x \<and> sint x < hi"

definition llvm_guard :: "i64 \<Rightarrow> int \<Rightarrow> int \<Rightarrow> bool" where
  "llvm_guard x lo hi \<longleftrightarrow>
     (let a = (sint (i64_of_int lo) \<le> sint x); b = (sint x < sint (i64_of_int hi)) in a \<or> b)"

definition canon :: "f32 \<Rightarrow> f32" where
  "canon f = (if f32_zero f then 0 else f)"

section \<open>Expressions\<close>

definition idx_div :: "i64 \<Rightarrow> i64 \<Rightarrow> i64 option" where
  "idx_div a b =
     (if b = 0 \<or> \<not> in_i64 (sint a sdiv sint b) then None else Some (word_of_int (sint a sdiv sint b)))"

fun idx_bin :: "machine \<Rightarrow> BinOpKind \<Rightarrow> i64 \<Rightarrow> i64 \<Rightarrow> i64 option" where
  "idx_bin M Add a b = Some (a + b)"
| "idx_bin M Mul a b = Some (a * b)"
| "idx_bin M Sub a b = Some (a - b)"
| "idx_bin M Div a b = idx_div a b"
| "idx_bin M BinOpKind.Max a b = Some (if sint a \<le> sint b then b else a)"
| "idx_bin M BinOpKind.Min a b = Some (if sint b < sint a then b else a)"
| "idx_bin M Pow a b = Some (m_ipow M a b)"

fun eval_bin :: "machine \<Rightarrow> BinOpKind \<Rightarrow> val \<Rightarrow> val \<Rightarrow> val option" where
  "eval_bin M k (VFlt xs) (VFlt ys) =
     (if length xs = length ys then Some (VFlt (map2 (m_bin M k) xs ys)) else None)"
| "eval_bin M k (VIdx xs) (VIdx ys) =
     (if length xs = length ys then map_option VIdx (those (map2 (idx_bin M k) xs ys)) else None)"
| "eval_bin M k _ _ = None"

fun eval_un :: "machine \<Rightarrow> UnaryOpKind \<Rightarrow> val \<Rightarrow> val option" where
  "eval_un M k (VFlt xs) = Some (VFlt (map (m_un M k) xs))"
| "eval_un M k _ = None"

fun splat :: "u32 \<Rightarrow> val \<Rightarrow> val option" where
  "splat w (VFlt [x]) = Some (VFlt (replicate (unat w) x))"
| "splat w (VIdx [x]) = Some (VIdx (replicate (unat w) x))"
| "splat w _ = None"

fun scalar_idx :: "val \<Rightarrow> i64 option" where
  "scalar_idx (VIdx [x]) = Some x"
| "scalar_idx _ = None"

text \<open>\<open>getIndexOffsetForBuffer\<close>.\<close>

fun gep_offset :: "i64 \<Rightarrow> u32 list \<Rightarrow> i64 list \<Rightarrow> i64" where
  "gep_offset off (d # ds) (x # xs) =
     gep_offset (off + foldl (\<lambda>v dim. v * i64_of_u32 dim) x ds) ds xs"
| "gep_offset off _ _ = off"

definition load_lanes :: "memory \<Rightarrow> arg_ptr \<Rightarrow> i64 \<Rightarrow> u32 \<Rightarrow> f32 list" where
  "load_lanes mem a off w = map (\<lambda>k. mem a (off + of_nat k)) [0..<unat w]"

fun eval :: "machine \<Rightarrow> heap \<Rightarrow> state \<Rightarrow> env \<Rightarrow> expr \<Rightarrow> val option" where
  "eval M h st \<rho> (IndexExpr ty L) = Some (VIdx [\<rho> L])"
| "eval M h st \<rho> (ConstantExpr v) = Some (VIdx [v])"
| "eval M h st \<rho> (ConstantFPExpr f) = Some (VFlt [canon f])"
| "eval M h st \<rho> (ConstantStringExpr s) = Some (VStr s)"
| "eval M h st \<rho> (BinaryExpr k l r) =
     Option.bind (eval M h st \<rho> l) (\<lambda>x. Option.bind (eval M h st \<rho> r) (\<lambda>y. eval_bin M k x y))"
| "eval M h st \<rho> (UnaryExpr k e) = Option.bind (eval M h st \<rho> e) (eval_un M k)"
| "eval M h st \<rho> (BroadcastExpr e vf) = Option.bind (eval M h st \<rho> e) (splat vf)"
| "eval M h st \<rho> (GEPExpr a is) =
     Option.bind (those (map (\<lambda>e. Option.bind (eval M h st \<rho> e) scalar_idx) is)) (\<lambda>xs.
       if length (ty_sizes (arg_type (hp_arg h a))) = length xs
       then Some (VPtr a (gep_offset 0 (ty_sizes (arg_type (hp_arg h a))) xs))
       else None)"
| "eval M h st \<rho> (LoadExpr ty g) =
     Option.bind (eval M h st \<rho> g) (\<lambda>p.
       (case p of
          VPtr a off \<Rightarrow> Some (VFlt (load_lanes (st_mem st) a off (ety_width ty)))
        | _ \<Rightarrow> None))"
| "eval M h st \<rho> (LoadLocalExpr ty v) = Some (st_loc st v)"

section \<open>Statements\<close>

text \<open>The values of a loop counter: from \<open>i\<close> while below the end, in steps of the stride.\<close>

function count_up :: "nat \<Rightarrow> nat \<Rightarrow> nat \<Rightarrow> nat list" where
  "count_up stride fin i =
     (if i < fin \<and> 0 < stride then i # count_up stride fin (i + stride) else [])"
  by pat_completeness auto
termination by (relation "measure (\<lambda>(stride, fin, i). fin - i)") auto

declare count_up.simps [simp del]

fun fold_opt :: "('a \<Rightarrow> 's \<Rightarrow> 's option) \<Rightarrow> 'a list \<Rightarrow> 's \<Rightarrow> 's option" where
  "fold_opt f [] s = Some s"
| "fold_opt f (x # xs) s = Option.bind (f x s) (fold_opt f xs)"

lemma fold_opt_cong [fundef_cong]:
  assumes "xs = ys" "s = t" "\<And>x u. x \<in> set ys \<Longrightarrow> f x u = g x u"
  shows "fold_opt f xs s = fold_opt g ys t"
proof -
  have "fold_opt f ys t = fold_opt g ys t"
    using assms(3)
  proof (induction ys arbitrary: t)
    case (Cons y ys)
    then show ?case by (cases "g y t") simp_all
  qed simp
  then show ?thesis using assms(1,2) by simp
qed

definition store_lanes :: "memory \<Rightarrow> arg_ptr \<Rightarrow> i64 \<Rightarrow> f32 list \<Rightarrow> memory" where
  "store_lanes mem a off xs =
     foldl (\<lambda>m (k, x). m(a := (m a)(off + of_nat k := x))) mem (enumerate 0 xs)"

fun accumulate_val :: "machine \<Rightarrow> bool \<Rightarrow> val \<Rightarrow> val \<Rightarrow> val option" where
  "accumulate_val M False prev x = Some x"
| "accumulate_val M True (VFlt xs) (VFlt ys) =
     (if length xs = length ys then Some (VFlt (map2 (m_bin M Add) xs ys)) else None)"
| "accumulate_val M True _ _ = None"

fun store_to :: "machine \<Rightarrow> bool \<Rightarrow> state \<Rightarrow> val \<Rightarrow> val \<Rightarrow> state option" where
  "store_to M acc st (VPtr a off) (VFlt xs) =
     (let prev = map (\<lambda>k. st_mem st a (off + of_nat k)) [0..<length xs];
          new = (if acc then map2 (m_bin M Add) prev xs else xs)
      in Some (st\<lparr>st_mem := store_lanes (st_mem st) a off new\<rparr>))"
| "store_to M acc st _ _ = None"

fun exec :: "machine \<Rightarrow> heap \<Rightarrow> env \<Rightarrow> stmt \<Rightarrow> state \<Rightarrow> state option" where
  "exec M h \<rho> (Loop L body) st =
     (if loop_stride h L = 0 \<and> 0 < loop_end h L then None
      else fold_opt (\<lambda>i. fold_opt (exec M h (\<rho>(L := of_nat i))) body)
             (count_up (unat (loop_stride h L)) (unat (loop_end h L)) 0) st)"
| "exec M h \<rho> (IfRange val lo hi body) st =
     Option.bind (Option.bind (eval M h st \<rho> val) scalar_idx) (\<lambda>x.
       if m_guard M x lo hi then fold_opt (exec M h \<rho>) body st else Some st)"
| "exec M h \<rho> (CallStmt name params) st =
     Option.bind (those (map (eval M h st \<rho>) params)) (\<lambda>vs.
       Some (st\<lparr>st_mem := m_call M name vs (st_mem st), st_out := st_out st @ [(name, vs)]\<rparr>))"
| "exec M h \<rho> (StoreStmt gep x acc) st =
     Option.bind (eval M h st \<rho> gep) (\<lambda>p. Option.bind (eval M h st \<rho> x) (store_to M acc st p))"
| "exec M h \<rho> (StoreLocalStmt v x acc) st =
     Option.bind (eval M h st \<rho> x) (\<lambda>y.
     Option.bind (accumulate_val M acc (st_loc st v) y) (\<lambda>z.
       Some (st\<lparr>st_loc := (st_loc st)(v := z)\<rparr>)))"

abbreviation exec_body :: "machine \<Rightarrow> heap \<Rightarrow> env \<Rightarrow> stmt list \<Rightarrow> state \<Rightarrow> state option" where
  "exec_body M h \<rho> body \<equiv> fold_opt (exec M h \<rho>) body"

definition run_program :: "machine \<Rightarrow> heap \<Rightarrow> program \<Rightarrow> state \<Rightarrow> state option" where
  "run_program M h p st = exec_body M h (\<lambda>L. 0) (pr_body p) st"

section \<open>Folds\<close>

lemma fold_opt_append: "fold_opt f (xs @ ys) s = Option.bind (fold_opt f xs s) (fold_opt f ys)"
proof (induction xs arbitrary: s)
  case (Cons x xs)
  then show ?case by (cases "f x s") simp_all
qed simp

lemma fold_opt_concat: "fold_opt f (concat xss) s = fold_opt (fold_opt f) xss s"
proof (induction xss arbitrary: s)
  case (Cons xs xss)
  then show ?case by (cases "fold_opt f xs s") (simp_all add: fold_opt_append)
qed simp

lemma fold_opt_map: "fold_opt f (map g xs) s = fold_opt (\<lambda>x. f (g x)) xs s"
proof (induction xs arbitrary: s)
  case (Cons x xs)
  then show ?case by (cases "f (g x) s") simp_all
qed simp

lemma fold_opt_filter:
  "fold_opt (\<lambda>x s. if P x then f x s else Some s) xs s = fold_opt f (filter P xs) s"
proof (induction xs arbitrary: s)
  case (Cons x xs)
  then show ?case by (cases "f x s") simp_all
qed simp

lemma fold_opt_single [simp]: "fold_opt f [x] s = f x s"
  by (cases "f x s") simp_all

section \<open>The counter of a loop\<close>

lemma count_up_empty [simp]: "\<not> i < fin \<Longrightarrow> count_up stride fin i = []"
  by (subst count_up.simps) simp

lemma count_up_step:
  "i < fin \<Longrightarrow> 0 < stride \<Longrightarrow> count_up stride fin i = i # count_up stride fin (i + stride)"
  by (subst count_up.simps) simp

lemma count_up_set: "x \<in> set (count_up stride fin i) \<Longrightarrow> i \<le> x \<and> x < fin \<and> stride dvd (x - i)"
proof (induction stride fin i rule: count_up.induct)
  case (1 stride fin i)
  show ?case
  proof (cases "i < fin \<and> 0 < stride")
    case True
    then have "x = i \<or> x \<in> set (count_up stride fin (i + stride))"
      using "1.prems" by (simp add: count_up_step)
    then show ?thesis
    proof
      assume "x \<in> set (count_up stride fin (i + stride))"
      with "1.IH" True have "i + stride \<le> x" "x < fin" "stride dvd (x - (i + stride))" by auto
      moreover from this have "x - i = (x - (i + stride)) + stride" by simp
      ultimately show ?thesis by (metis add_leD1 dvd_add dvd_refl)
    qed (use True in simp)
  next
    case False
    then show ?thesis using "1.prems" by (subst (asm) count_up.simps) auto
  qed
qed

end
