(* ===== verification/SemFacts.thy ===== *)
theory SemFacts
  imports Semantics
begin

text \<open>
  What the run of a program depends on: the loop counters it refers to, the bounds of the loops
  it contains and the types of the arguments it accesses. From this follow the two facts every
  transformation needs: replacing the index of a loop by an expression is running with the value
  of the expression as the counter (\<open>subst_exec\<close>), and a clone runs like the original
  (\<open>clone_exec\<close>). A verified program depends on no counter. The last section is the arithmetic of
  loop counters.
\<close>

section \<open>Free loops and accessed arguments\<close>

fun free_loops :: "stmt \<Rightarrow> loop_ptr set" where
  "free_loops (Loop L body) = (\<Union>s \<in> set body. free_loops s) - {L}"
| "free_loops (IfRange val lo hi body) = loops_of_expr val \<union> (\<Union>s \<in> set body. free_loops s)"
| "free_loops (CallStmt name params) = (\<Union>e \<in> set params. loops_of_expr e)"
| "free_loops (StoreStmt gep x acc) = loops_of_expr gep \<union> loops_of_expr x"
| "free_loops (StoreLocalStmt v x acc) = loops_of_expr x"

fun args_of :: "stmt \<Rightarrow> arg_ptr set" where
  "args_of (Loop L body) = (\<Union>s \<in> set body. args_of s)"
| "args_of (IfRange val lo hi body) = args_of_expr val \<union> (\<Union>s \<in> set body. args_of s)"
| "args_of (CallStmt name params) = (\<Union>e \<in> set params. args_of_expr e)"
| "args_of (StoreStmt gep x acc) = args_of_expr gep \<union> args_of_expr x"
| "args_of (StoreLocalStmt v x acc) = args_of_expr x"

lemma free_loops_refs: "free_loops s \<subseteq> refs_of s"
  by (induction s) auto

text \<open>A statement is scoped when its free loops are around it.\<close>

lemma scoped_free_loops: "scoped E s \<longleftrightarrow> free_loops s \<subseteq> E"
proof (induction s arbitrary: E)
  case (Loop L body)
  then have "list_all (scoped (insert L E)) body \<longleftrightarrow> (\<forall>s \<in> set body. free_loops s \<subseteq> insert L E)"
    by (simp add: list_all_iff)
  then show ?case by auto
next
  case (IfRange val lo hi body)
  then have "list_all (scoped E) body \<longleftrightarrow> (\<forall>s \<in> set body. free_loops s \<subseteq> E)" by (simp add: list_all_iff)
  then show ?case by auto
qed (auto simp: list_all_iff)

lemma verify_free_loops: "verify_stmt h vs enc s = Inr () \<Longrightarrow> free_loops s \<subseteq> set enc"
  using verify_stmt_scoped scoped_free_loops by blast

section \<open>Congruence\<close>

definition same_bounds :: "loop_ptr set \<Rightarrow> heap \<Rightarrow> heap \<Rightarrow> bool" where
  "same_bounds S h h' \<longleftrightarrow>
     (\<forall>L \<in> S. loop_end h' L = loop_end h L \<and> loop_stride h' L = loop_stride h L)"

definition same_args :: "arg_ptr set \<Rightarrow> heap \<Rightarrow> heap \<Rightarrow> bool" where
  "same_args A h h' \<longleftrightarrow> (\<forall>a \<in> A. arg_type (hp_arg h' a) = arg_type (hp_arg h a))"

lemma same_bounds_refl [simp]: "same_bounds S h h" and same_args_refl [simp]: "same_args A h h"
  by (simp_all add: same_bounds_def same_args_def)

lemma same_bounds_mono: "same_bounds S h h' \<Longrightarrow> T \<subseteq> S \<Longrightarrow> same_bounds T h h'"
  by (auto simp: same_bounds_def)

lemma same_args_mono: "same_args A h h' \<Longrightarrow> B \<subseteq> A \<Longrightarrow> same_args B h h'"
  by (auto simp: same_args_def)

lemma eval_cong:
  "(\<And>L. L \<in> loops_of_expr e \<Longrightarrow> \<rho>' L = \<rho> L) \<Longrightarrow> same_args (args_of_expr e) h h' \<Longrightarrow>
     eval M h' st \<rho>' e = eval M h st \<rho> e"
proof (induction e)
  case (GEPExpr a "is")
  have "eval M h' st \<rho>' e = eval M h st \<rho> e" if "e \<in> set is" for e
    by (rule GEPExpr.IH [OF that]) (use GEPExpr.prems that in \<open>auto simp: same_args_def\<close>)
  then have "map (\<lambda>e. Option.bind (eval M h' st \<rho>' e) scalar_idx) is =
      map (\<lambda>e. Option.bind (eval M h st \<rho> e) scalar_idx) is" by simp
  moreover have "arg_type (hp_arg h' a) = arg_type (hp_arg h a)"
    using GEPExpr.prems(2) by (simp add: same_args_def)
  ultimately show ?case by (simp cong: if_cong del: map_eq_conv)
qed (simp_all add: same_args_def)

lemma evals_cong:
  "(\<And>L. L \<in> (\<Union>e \<in> set es. loops_of_expr e) \<Longrightarrow> \<rho>' L = \<rho> L) \<Longrightarrow>
   same_args (\<Union>e \<in> set es. args_of_expr e) h h' \<Longrightarrow>
     map (eval M h' st \<rho>') es = map (eval M h st \<rho>) es"
  by (auto intro!: eval_cong simp: same_args_def)

lemma exec_cong:
  "(\<And>L. L \<in> free_loops s \<Longrightarrow> \<rho>' L = \<rho> L) \<Longrightarrow> same_bounds (loops_in s) h h' \<Longrightarrow>
   same_args (args_of s) h h' \<Longrightarrow> exec M h' \<rho>' s st = exec M h \<rho> s st"
proof (induction s arbitrary: \<rho> \<rho>' st)
  case (Loop L body)
  have "fold_opt (exec M h' (\<rho>'(L := of_nat i))) body u = fold_opt (exec M h (\<rho>(L := of_nat i))) body u"
    for i u
  proof (rule fold_opt_cong)
    fix s st assume s: "s \<in> set body"
    show "exec M h' (\<rho>'(L := of_nat i)) s st = exec M h (\<rho>(L := of_nat i)) s st"
      by (rule Loop.IH [OF s]) (use s Loop.prems in \<open>auto simp: same_bounds_def same_args_def\<close>)
  qed simp_all
  moreover have "loop_end h' L = loop_end h L" "loop_stride h' L = loop_stride h L"
    using Loop.prems(2) by (simp_all add: same_bounds_def)
  ultimately show ?case by (auto intro: fold_opt_cong)
next
  case (IfRange val lo hi body)
  have "eval M h' st \<rho>' val = eval M h st \<rho> val"
    using IfRange.prems by (auto intro!: eval_cong simp: same_args_def)
  moreover have "fold_opt (exec M h' \<rho>') body st = fold_opt (exec M h \<rho>) body st"
  proof (rule fold_opt_cong)
    fix s st assume s: "s \<in> set body"
    show "exec M h' \<rho>' s st = exec M h \<rho> s st"
      by (rule IfRange.IH [OF s]) (use s IfRange.prems in \<open>auto simp: same_bounds_def same_args_def\<close>)
  qed simp_all
  ultimately show ?case by (simp cong: if_cong)
next
  case (CallStmt name params)
  have "map (eval M h' st \<rho>') params = map (eval M h st \<rho>) params"
    using CallStmt.prems by (intro evals_cong) auto
  then show ?case by (simp del: map_eq_conv)
next
  case (StoreStmt g x acc)
  have "eval M h' st \<rho>' g = eval M h st \<rho> g" "eval M h' st \<rho>' x = eval M h st \<rho> x"
    using StoreStmt.prems by (auto intro!: eval_cong simp: same_args_def)
  then show ?case by simp
next
  case (StoreLocalStmt v x acc)
  have "eval M h' st \<rho>' x = eval M h st \<rho> x"
    using StoreLocalStmt.prems by (auto intro!: eval_cong simp: same_args_def)
  then show ?case by simp
qed

section \<open>Verified programs are closed\<close>

text \<open>C10. The index expressions of a program that \<open>verify\<close> accepts are scoped: each refers to a loop around
  it, not merely to a loop of the program. So a run never reads the counter of a loop that is not running:
  whatever stale values the counters have, the program ends in the same state.\<close>

theorem verified_program_scoped:
  assumes "verify_program h p = Inr ()"
  shows "list_all (scoped {}) (pr_body p)
    \<and> exec_body M h \<rho> (pr_body p) st = exec_body M h \<rho>' (pr_body p) st"
proof
  have v: "verify_stmt h (pr_vars p) [] s = Inr ()" if "s \<in> set (pr_body p)" for s
    using assms that by (auto simp: verify_program_def)
  then show "list_all (scoped {}) (pr_body p)" using verify_stmt_scoped by (force simp: list_all_iff)
  show "exec_body M h \<rho> (pr_body p) st = exec_body M h \<rho>' (pr_body p) st"
    by (intro fold_opt_cong refl exec_cong) (use verify_free_loops [OF v] in \<open>auto simp: same_bounds_def same_args_def\<close>)
qed

theorem verified_program_scoped_witness:
  "list_all (scoped {}) (pr_body (snd demo_loop))
   \<and> (\<forall>M st. exec_body M (fst demo_loop) (\<lambda>L. 0) (pr_body (snd demo_loop)) st
        = exec_body M (fst demo_loop) (\<lambda>L. 7) (pr_body (snd demo_loop)) st)"
  using verified_program_scoped [OF demo_loop_verified] by blast

lemma exec_body_cong:
  assumes "\<And>L. L \<in> (\<Union>s \<in> set body. free_loops s) \<Longrightarrow> \<rho>' L = \<rho> L"
    and "same_bounds (\<Union>s \<in> set body. loops_in s) h h'"
    and "same_args (\<Union>s \<in> set body. args_of s) h h'"
  shows "exec_body M h' \<rho>' body st = exec_body M h \<rho> body st"
proof (rule fold_opt_cong)
  fix s st assume s: "s \<in> set body"
  show "exec M h' \<rho>' s st = exec M h \<rho> s st"
    by (rule exec_cong) (use s assms in \<open>auto simp: same_bounds_def same_args_def\<close>)
qed simp_all

section \<open>Replacing a loop index\<close>

text \<open>
  \<open>collectIndices (S, indices, L)\<close> followed by \<open>idx->replaceUseWith(x)\<close> for every index: the
  references to \<open>L\<close> below \<open>S\<close> become copies of \<open>x\<close>.
\<close>

fun subst_expr :: "loop_ptr \<Rightarrow> expr \<Rightarrow> expr \<Rightarrow> expr" where
  "subst_expr L x (IndexExpr ty L') = (if L' = L then x else IndexExpr ty L')"
| "subst_expr L x (BinaryExpr k l r) = BinaryExpr k (subst_expr L x l) (subst_expr L x r)"
| "subst_expr L x (UnaryExpr k e) = UnaryExpr k (subst_expr L x e)"
| "subst_expr L x (BroadcastExpr e vf) = BroadcastExpr (subst_expr L x e) vf"
| "subst_expr L x (GEPExpr a is) = GEPExpr a (map (subst_expr L x) is)"
| "subst_expr L x (LoadExpr ty g) = LoadExpr ty (subst_expr L x g)"
| "subst_expr L x e = e"

fun subst_stmt :: "loop_ptr \<Rightarrow> expr \<Rightarrow> stmt \<Rightarrow> stmt" where
  "subst_stmt L x (Loop L' body) = Loop L' (map (subst_stmt L x) body)"
| "subst_stmt L x (IfRange val lo hi body) =
     IfRange (subst_expr L x val) lo hi (map (subst_stmt L x) body)"
| "subst_stmt L x (CallStmt name params) = CallStmt name (map (subst_expr L x) params)"
| "subst_stmt L x (StoreStmt gep y acc) = StoreStmt (subst_expr L x gep) (subst_expr L x y) acc"
| "subst_stmt L x (StoreLocalStmt v y acc) = StoreLocalStmt v (subst_expr L x y) acc"

definition index_value :: "machine \<Rightarrow> heap \<Rightarrow> env \<Rightarrow> expr \<Rightarrow> i64 \<Rightarrow> bool" where
  "index_value M h \<rho> x v \<longleftrightarrow> (\<forall>st. eval M h st \<rho> x = Some (VIdx [v]))"

lemma subst_eval:
  "index_value M h \<rho> x v \<Longrightarrow> eval M h st \<rho> (subst_expr L x e) = eval M h st (\<rho>(L := v)) e"
proof (induction e)
  case (GEPExpr a "is")
  have "map (\<lambda>e. Option.bind (eval M h st \<rho> e) scalar_idx) (map (subst_expr L x) is) =
      map (\<lambda>e. Option.bind (eval M h st (\<rho>(L := v)) e) scalar_idx) is"
    unfolding map_map by (rule map_cong [OF refl]) (simp only: comp_apply GEPExpr)
  then show ?case by (simp only: subst_expr.simps eval.simps)
qed (simp_all add: index_value_def)

lemma index_value_update:
  "index_value M h \<rho> x v \<Longrightarrow> L \<notin> loops_of_expr x \<Longrightarrow> index_value M h (\<rho>(L := w)) x v"
proof -
  assume v: "index_value M h \<rho> x v" and L: "L \<notin> loops_of_expr x"
  have "eval M h st (\<rho>(L := w)) x = eval M h st \<rho> x" for st
    by (rule eval_cong) (use L in auto)
  with v show ?thesis by (simp add: index_value_def)
qed

lemma subst_loops_in [simp]: "loops_in (subst_stmt L x s) = loops_in s"
  by (induction s) auto

lemma subst_exec:
  "index_value M h \<rho> x v \<Longrightarrow> L \<notin> loops_in s \<Longrightarrow> loops_of_expr x \<inter> loops_in s = {} \<Longrightarrow>
     exec M h \<rho> (subst_stmt L x s) st = exec M h (\<rho>(L := v)) s st"
proof (induction s arbitrary: \<rho> st)
  case (Loop L' body)
  have "fold_opt (exec M h (\<rho>(L' := of_nat i))) (map (subst_stmt L x) body) u =
      fold_opt (exec M h (\<rho>(L := v, L' := of_nat i))) body u" for i u
    unfolding fold_opt_map
  proof (rule fold_opt_cong)
    fix s st assume s: "s \<in> set body"
    have "exec M h (\<rho>(L' := of_nat i)) (subst_stmt L x s) st =
        exec M h (\<rho>(L' := of_nat i, L := v)) s st"
    proof (rule Loop.IH [OF s])
      show "index_value M h (\<rho>(L' := of_nat i)) x v"
        by (rule index_value_update) (use Loop.prems in auto)
    qed (use s Loop.prems in auto)
    moreover have "\<rho>(L' := of_nat i, L := v) = \<rho>(L := v, L' := of_nat i)"
      using Loop.prems(2) by (simp add: fun_upd_twist)
    ultimately show "exec M h (\<rho>(L' := of_nat i)) (subst_stmt L x s) st =
        exec M h (\<rho>(L := v, L' := of_nat i)) s st" by simp
  qed simp_all
  then have "fold_opt (\<lambda>i. fold_opt (exec M h (\<rho>(L' := of_nat i))) (map (subst_stmt L x) body)) is st =
      fold_opt (\<lambda>i. fold_opt (exec M h (\<rho>(L := v, L' := of_nat i))) body) is st" for "is"
    by - (rule fold_opt_cong, simp_all)
  then show ?case by (simp only: subst_stmt.simps exec.simps)
next
  case (IfRange val lo hi body)
  have "fold_opt (exec M h \<rho>) (map (subst_stmt L x) body) st = fold_opt (exec M h (\<rho>(L := v))) body st"
    unfolding fold_opt_map
  proof (rule fold_opt_cong)
    fix s st assume s: "s \<in> set body"
    show "exec M h \<rho> (subst_stmt L x s) st = exec M h (\<rho>(L := v)) s st"
      by (rule IfRange.IH [OF s]) (use s IfRange.prems in auto)
  qed simp_all
  with IfRange.prems(1) show ?case by (simp add: subst_eval cong: if_cong del: fun_upd_apply)
next
  case (CallStmt name params)
  then have "map (eval M h st \<rho>) (map (subst_expr L x) params) = map (eval M h st (\<rho>(L := v))) params"
    by (simp add: subst_eval)
  then show ?case by (simp del: map_eq_conv map_map fun_upd_apply)
qed (simp_all add: subst_eval del: fun_upd_apply)

lemma subst_exec_body:
  assumes "index_value M h \<rho> x v" "L \<notin> (\<Union>s \<in> set body. loops_in s)"
    "loops_of_expr x \<inter> (\<Union>s \<in> set body. loops_in s) = {}"
  shows "exec_body M h \<rho> (map (subst_stmt L x) body) st = exec_body M h (\<rho>(L := v)) body st"
  unfolding fold_opt_map
proof (rule fold_opt_cong)
  fix s st assume s: "s \<in> set body"
  show "exec M h \<rho> (subst_stmt L x s) st = exec M h (\<rho>(L := v)) s st"
    by (rule subst_exec) (use s assms in auto)
qed simp_all

section \<open>Clones run like the original\<close>

text \<open>Cloning renames the loops of a statement; \<open>tracks\<close> relates the counters of the two runs.\<close>

definition tracks :: "cctx \<Rightarrow> loop_ptr set \<Rightarrow> env \<Rightarrow> env \<Rightarrow> bool" where
  "tracks c S \<rho> \<rho>' \<longleftrightarrow> (\<forall>L \<in> S. \<rho>' (get_loop c L) = \<rho> L)"

text \<open>A context that renames loops only.\<close>

definition loops_only :: "cctx \<Rightarrow> bool" where
  "loops_only c \<longleftrightarrow> cc_args c = Map.empty \<and> cc_vars c = Map.empty"

lemma loops_only_get [simp]: "loops_only c \<Longrightarrow> get_arg c a = a" "loops_only c \<Longrightarrow> get_var c v = v"
  by (simp_all add: loops_only_def get_arg_def get_var_def)

lemma map_loop_loops_only: "map_loop c L L' = Inr c' \<Longrightarrow> loops_only c' = loops_only c"
  by (auto simp: map_loop_def loops_only_def)

lemma same_args_ext: "heap_ext h h' \<Longrightarrow> (\<And>a. a \<in> A \<Longrightarrow> a < hp_next h) \<Longrightarrow> same_args A h h'"
  by (auto simp: heap_ext_def same_args_def)

lemma below_expr_args: "below_expr n e \<Longrightarrow> a \<in> args_of_expr e \<Longrightarrow> a < n"
  by (auto simp: below_expr_def)

lemma below_expr_loops: "below_expr n e \<Longrightarrow> L \<in> loops_of_expr e \<Longrightarrow> L < n"
  by (auto simp: below_expr_def)

lemma below_args: "below n s \<Longrightarrow> a \<in> args_of s \<Longrightarrow> a < n"
  by (induction s) (auto dest: below_expr_args)

lemma below_loops_in: "below n s \<Longrightarrow> L \<in> loops_in s \<Longrightarrow> L < n"
  by (induction s) auto

lemma below_free: "below n s \<Longrightarrow> L \<in> free_loops s \<Longrightarrow> L < n"
  by (induction s) (auto dest: below_expr_loops)

lemma exec_ext:
  "heap_ext h h' \<Longrightarrow> below (hp_next h) s \<Longrightarrow> exec M h' \<rho> s st = exec M h \<rho> s st"
  by (rule exec_cong)
    (auto simp: same_bounds_def heap_ext_def loop_end_def loop_stride_def same_args_def
      dest: below_loops_in below_args)

lemma exec_body_ext:
  "heap_ext h h' \<Longrightarrow> \<forall>s \<in> set body. below (hp_next h) s \<Longrightarrow>
     exec_body M h' \<rho> body st = exec_body M h \<rho> body st"
  by (rule fold_opt_cong) (auto simp: exec_ext)

lemma clone_eval:
  "clone_expr h vs c e = Inr e' \<Longrightarrow> ctx_ok h c \<Longrightarrow> loops_only c \<Longrightarrow>
     tracks c (loops_of_expr e) \<rho> \<rho>' \<Longrightarrow> eval M h st \<rho>' e' = eval M h st \<rho> e"
proof (induction e arbitrary: e')
  case (IndexExpr ty L)
  then show ?case by (auto simp: new_IndexExpr_def tracks_def)
next
  case (BinaryExpr k l r)
  from BinaryExpr.prems(1) obtain l' r' where "clone_expr h vs c l = Inr l'"
    "clone_expr h vs c r = Inr r'" "e' = BinaryExpr k l' r'" by (auto simp: new_BinaryExpr_def)
  with BinaryExpr.IH(1) [of l'] BinaryExpr.IH(2) [of r'] BinaryExpr.prems(2-) show ?case
    by (simp add: tracks_def)
next
  case (GEPExpr a "is")
  from GEPExpr.prems(1) obtain is' where m: "map_res (clone_expr h vs c) is = Inr is'"
    and e': "e' = GEPExpr (get_arg c a) is'"
    by (auto simp: new_GEPExpr_def)
  have "eval M h st \<rho>' (is' ! i) = eval M h st \<rho> (is ! i)" if "i < length is" for i
    by (rule GEPExpr.IH [OF nth_mem [OF that] map_res_nth [OF m that]])
      (use GEPExpr.prems that in \<open>auto simp: tracks_def\<close>)
  then have "map (\<lambda>e. Option.bind (eval M h st \<rho>' e) scalar_idx) is' =
      map (\<lambda>e. Option.bind (eval M h st \<rho> e) scalar_idx) is"
    using map_res_length [OF m] by (auto intro!: nth_equalityI)
  then show ?case using e' GEPExpr.prems(3) by (simp del: map_eq_conv)
qed (auto simp: new_BroadcastExpr_def new_LoadExpr_def new_LoadLocalExpr_def tracks_def)

lemma clone_evals:
  assumes "map_res (clone_expr h vs c) es = Inr es'" "ctx_ok h c" "loops_only c"
    "tracks c (\<Union>e \<in> set es. loops_of_expr e) \<rho> \<rho>'"
  shows "map (eval M h st \<rho>') es' = map (eval M h st \<rho>) es"
proof (rule nth_equalityI)
  show "length (map (eval M h st \<rho>') es') = length (map (eval M h st \<rho>) es)"
    using map_res_length [OF assms(1)] by simp
  fix i assume "i < length (map (eval M h st \<rho>') es')"
  then have i: "i < length es" using map_res_length [OF assms(1)] by simp
  have "eval M h st \<rho>' (es' ! i) = eval M h st \<rho> (es ! i)"
    by (rule clone_eval [OF map_res_nth [OF assms(1) i] assms(2,3)])
      (use assms(4) i in \<open>auto simp: tracks_def\<close>)
  then show "map (eval M h st \<rho>') es' ! i = map (eval M h st \<rho>) es ! i"
    using i map_res_length [OF assms(1)] by simp
qed

text \<open>
  The loops a statement declares, in the order \<open>collectLoops\<close> returns them: a program declares
  each loop once.
\<close>

fun loop_list :: "stmt \<Rightarrow> loop_ptr list" where
  "loop_list (Loop L body) = L # concat (map loop_list body)"
| "loop_list (IfRange val lo hi body) = concat (map loop_list body)"
| "loop_list _ = []"

lemma loop_list_set [simp]: "set (loop_list s) = loops_in s"
  by (induction s) auto

abbreviation body_loops :: "stmt list \<Rightarrow> loop_ptr list" where
  "body_loops body \<equiv> concat (map loop_list body)"

text \<open>Cloning changes the context at the loops of the statement only.\<close>

lemma clone_ctx:
  "clone_stmt h vs enc c s = Inr (s', h', c') \<Longrightarrow>
     (L \<notin> loops_in s \<longrightarrow> get_loop c' L = get_loop c L) \<and> loops_only c' = loops_only c"
  "clone_scope h vs enc c ss = Inr (ss', h', c') \<Longrightarrow>
     ((\<forall>s \<in> set ss. L \<notin> loops_in s) \<longrightarrow> get_loop c' L = get_loop c L) \<and> loops_only c' = loops_only c"
proof (induction h vs enc c s and h vs enc c ss arbitrary: s' h' c' and ss' h' c'
    rule: clone_stmt_clone_scope.induct)
  case (1 h vs enc c L' body)
  obtain L2 h1 where new: "new_loop h (loop_name h L') (loop_end h L') (loop_stride h L') = (L2, h1)"
    by fastforce
  with "1.prems" obtain c1 body' where c1: "map_loop c L' L2 = Inr c1"
    and body: "clone_scope h1 vs (L' # enc) c1 body = Inr (body', h', c')" by auto
  have "L \<noteq> L' \<longrightarrow> get_loop c1 L = get_loop c L"
    using c1 by (auto simp: map_loop_def get_loop_def)
  then show ?case
    using "1.IH" [OF new [symmetric] refl c1 body] map_loop_loops_only [OF c1] by auto
next
  case (2 h vs enc c val lo hi body)
  then obtain val' body' where "clone_expr h vs c val = Inr val'"
    "clone_scope h vs enc c body = Inr (body', h', c')" by auto
  with "2.IH" show ?case by simp
next
  case (7 h vs enc c s ss)
  then obtain s1 h1 c1 ss1 where s: "clone_stmt h vs enc c s = Inr (s1, h1, c1)"
    and ss: "clone_scope h1 vs enc c1 ss = Inr (ss1, h', c')" by (auto split: prod.splits)
  from "7.IH"(1) [OF s] "7.IH"(2) [OF s refl refl ss] show ?case by auto
qed auto

lemma clone_exec_both:
  "clone_stmt h vs enc c s = Inr (s', h', c') \<Longrightarrow> ctx_ok h c \<Longrightarrow> loops_only c \<Longrightarrow>
     below (hp_next h) s \<Longrightarrow> index_kinds_stmt s \<Longrightarrow> distinct (loop_list s) \<Longrightarrow>
     free_loops s \<inter> loops_in s = {} \<Longrightarrow> tracks c (free_loops s) \<rho> \<rho>' \<Longrightarrow>
     exec M h' \<rho>' s' st = exec M h \<rho> s st"
  "clone_scope h vs enc c ss = Inr (ss', h', c') \<Longrightarrow> ctx_ok h c \<Longrightarrow> loops_only c \<Longrightarrow>
     \<forall>s \<in> set ss. below (hp_next h) s \<Longrightarrow> list_all index_kinds_stmt ss \<Longrightarrow>
     distinct (body_loops ss) \<Longrightarrow>
     (\<Union>s \<in> set ss. free_loops s) \<inter> (\<Union>s \<in> set ss. loops_in s) = {} \<Longrightarrow>
     tracks c (\<Union>s \<in> set ss. free_loops s) \<rho> \<rho>' \<Longrightarrow>
     exec_body M h' \<rho>' ss' st = exec_body M h \<rho> ss st"
proof (induction h vs enc c s and h vs enc c ss arbitrary: s' h' c' \<rho> \<rho>' st and ss' h' c' \<rho> \<rho>' st
    rule: clone_stmt_clone_scope.induct)
  case (1 h vs enc c L body)
  obtain L' h1 where new: "new_loop h (loop_name h L) (loop_end h L) (loop_stride h L) = (L', h1)"
    by fastforce
  with "1.prems"(1) obtain c1 body' where c1: "map_loop c L L' = Inr c1"
    and body: "clone_scope h1 vs (L # enc) c1 body = Inr (body', h', c')"
    and s': "s' = Loop L' body'" by auto
  have ext: "heap_ext h h1" using new by (rule heap_ext_new)
  have ok1: "ctx_ok h1 c1" using "1.prems" new c1 by (auto intro: ctx_ok_map_loop)
  have only1: "loops_only c1" using "1.prems"(3) map_loop_loops_only [OF c1] by simp
  have low: "\<forall>s \<in> set body. below (hp_next h1) s"
    using "1.prems"(4) heap_ext_next [OF ext] by (auto intro: below_mono)
  have cs: "cloned_scope h1 body (body', h', c')"
    using clone_stmts_hash(2) [OF body ok1 low] "1.prems"(5) by simp
  have L': "L' = hp_next h" "hp_next h1 = Suc (hp_next h)" "hp_loop h1 L' = hp_loop h L"
    using new by (auto simp: new_loop_def loop_name_def loop_end_def loop_stride_def)
  have "hp_loop h' L' = hp_loop h L"
    using cs L' by (auto simp: cloned_scope_def heap_ext_def)
  then have bounds: "loop_end h' L' = loop_end h L" "loop_stride h' L' = loop_stride h L"
    by (simp_all add: loop_end_def loop_stride_def)
  have "exec_body M h' (\<rho>'(L' := of_nat i)) body' u = exec_body M h (\<rho>(L := of_nat i)) body u" for i u
  proof -
    have "tracks c1 (\<Union>s \<in> set body. free_loops s) (\<rho>(L := of_nat i)) (\<rho>'(L' := of_nat i))"
      unfolding tracks_def
    proof
      fix x assume x: "x \<in> (\<Union>s \<in> set body. free_loops s)"
      show "(\<rho>'(L' := of_nat i)) (get_loop c1 x) = (\<rho>(L := of_nat i)) x"
      proof (cases "x = L")
        case True
        then show ?thesis using c1 by (auto simp: map_loop_def get_loop_def)
      next
        case False
        then have "get_loop c1 x = get_loop c x" using c1 by (auto simp: map_loop_def get_loop_def)
        moreover have "x < hp_next h" using x "1.prems"(4) by (auto dest: below_free)
        then have "get_loop c x \<noteq> L'" using get_below(1) [OF "1.prems"(2)] L'(1) by fastforce
        moreover have "\<rho>' (get_loop c x) = \<rho> x" using "1.prems"(8) x False by (auto simp: tracks_def)
        ultimately show ?thesis using False by simp
      qed
    qed
    moreover have "(\<Union>s \<in> set body. free_loops s) \<inter> (\<Union>s \<in> set body. loops_in s) = {}"
      using "1.prems"(6,7) by (auto simp: disjoint_iff)
    moreover have "list_all index_kinds_stmt body" "distinct (body_loops body)"
      using "1.prems"(5,6) by auto
    ultimately have "exec_body M h' (\<rho>'(L' := of_nat i)) body' u = exec_body M h1 (\<rho>(L := of_nat i)) body u"
      by (intro "1.IH" [OF new [symmetric] refl c1 body ok1 only1 low])
    also have "\<dots> = exec_body M h (\<rho>(L := of_nat i)) body u"
      using "1.prems"(4) ext by (intro exec_body_ext) auto
    finally show ?thesis .
  qed
  then show ?case using s' bounds by (auto intro: fold_opt_cong)
next
  case (2 h vs enc c val lo hi body)
  then obtain val' body' where v: "clone_expr h vs c val = Inr val'"
    and body: "clone_scope h vs enc c body = Inr (body', h', c')"
    and s': "s' = IfRange val' lo hi body'" by auto
  have "exec_body M h' \<rho>' body' st = exec_body M h \<rho> body st"
    using "2.prems" by (intro "2.IH" [OF v body]) (auto simp: tracks_def)
  moreover have "eval M h st \<rho>' val' = eval M h st \<rho> val"
    using "2.prems" by (intro clone_eval [OF v]) (auto simp: tracks_def)
  moreover have "eval M h' st \<rho>' val' = eval M h st \<rho>' val'"
  proof (rule eval_cong)
    have "cloned_scope h body (body', h', c')"
      using clone_stmts_hash(2) [OF body] "2.prems" by simp
    then have ext: "heap_ext h h'" by (simp add: cloned_scope_def)
    have "below_expr (hp_next h) val'" using clone_expr_below v "2.prems" by fastforce
    then show "same_args (args_of_expr val') h h'"
      using ext by (intro same_args_ext) (auto dest: below_expr_args)
  qed simp
  ultimately show ?case using s' by (simp cong: if_cong)
next
  case (3 h vs enc c name params)
  then obtain params' where p: "map_res (clone_expr h vs c) params = Inr params'"
    and r: "s' = CallStmt name params'" "h' = h" by auto
  have "map (eval M h st \<rho>') params' = map (eval M h st \<rho>) params"
    using "3.prems" by (intro clone_evals [OF p]) auto
  with r show ?case by (simp del: map_eq_conv)
next
  case (4 h vs enc c gep v acc)
  then obtain g' v' where g: "clone_expr h vs c gep = Inr g'" and v: "clone_expr h vs c v = Inr v'"
    and r: "s' = StoreStmt g' v' acc" "h' = h" by (auto simp: new_StoreStmt_def)
  have "tracks c (loops_of_expr gep) \<rho> \<rho>'" "tracks c (loops_of_expr v) \<rho> \<rho>'"
    using "4.prems"(8) by (auto simp: tracks_def)
  then have "eval M h st \<rho>' g' = eval M h st \<rho> gep" "eval M h st \<rho>' v' = eval M h st \<rho> v"
    using clone_eval [OF g "4.prems"(2,3)] clone_eval [OF v "4.prems"(2,3)] by simp_all
  with r show ?case by simp
next
  case (5 h vs enc c x v acc)
  then obtain v' where v: "clone_expr h vs c v = Inr v'"
    and r: "s' = StoreLocalStmt x v' acc" "h' = h" by (auto simp: new_StoreLocalStmt_def)
  have "eval M h st \<rho>' v' = eval M h st \<rho> v"
    using "5.prems" by (intro clone_eval [OF v]) auto
  with r show ?case by simp
next
  case (6 h vs enc c)
  then show ?case by simp
next
  case (7 h vs enc c s ss)
  then obtain s1 h1 c1 ss1 where s: "clone_stmt h vs enc c s = Inr (s1, h1, c1)"
    and ss: "clone_scope h1 vs enc c1 ss = Inr (ss1, h', c')" and r: "ss' = s1 # ss1"
    by (auto split: prod.splits)
  have one: "cloned h s (s1, h1, c1)"
    using clone_stmts_hash(1) [OF s] "7.prems" by simp
  then have ext: "heap_ext h h1" and ok: "ctx_ok h1 c1" by (simp_all add: cloned_def)
  have low: "\<forall>s \<in> set ss. below (hp_next h1) s"
    using "7.prems"(4) heap_ext_next [OF ext] by (auto intro: below_mono)
  have two: "cloned_scope h1 ss (ss1, h', c')"
    using clone_stmts_hash(2) [OF ss ok low] "7.prems" by simp
  then have ext2: "heap_ext h1 h'" by (simp add: cloned_scope_def)
  have only: "loops_only c1" using clone_ctx(1) [OF s] "7.prems"(3) by simp
  have A: "exec M h1 \<rho>' s1 u = exec M h \<rho> s u" for u
    using "7.prems" by (intro "7.IH"(1) [OF s]) (auto simp: tracks_def)
  have A': "exec M h' \<rho>' s1 u = exec M h1 \<rho>' s1 u" for u
    using one by (intro exec_ext [OF ext2]) (auto simp: cloned_def)
  have "tracks c1 (\<Union>s \<in> set ss. free_loops s) \<rho> \<rho>'"
    unfolding tracks_def
  proof
    fix x assume x: "x \<in> (\<Union>s \<in> set ss. free_loops s)"
    then have "x \<notin> loops_in s" using "7.prems"(7) by (auto simp: disjoint_iff)
    then have "get_loop c1 x = get_loop c x" using clone_ctx(1) [OF s] by simp
    then show "\<rho>' (get_loop c1 x) = \<rho> x" using "7.prems"(8) x by (auto simp: tracks_def)
  qed
  then have B: "exec_body M h' \<rho>' ss1 u = exec_body M h1 \<rho> ss u" for u
    using "7.prems" low ok only
    by (intro "7.IH"(2) [OF s refl refl ss]) (auto simp: disjoint_iff)
  have B': "exec_body M h1 \<rho> ss u = exec_body M h \<rho> ss u" for u
    using "7.prems"(4) by (intro exec_body_ext [OF ext]) auto
  show ?case unfolding r fold_opt.simps A' A
    by (cases "exec M h \<rho> s st") (simp_all add: B B')
qed

text \<open>A clone declares fresh loops only, each once, and refers to the images of the free loops.\<close>

lemma clone_expr_free: "clone_expr h vs c e = Inr e' \<Longrightarrow> loops_of_expr e' = get_loop c ` loops_of_expr e"
proof (induction e arbitrary: e')
  case (BinaryExpr k l r)
  from BinaryExpr.prems obtain l' r' where "clone_expr h vs c l = Inr l'"
    "clone_expr h vs c r = Inr r'" "e' = BinaryExpr k l' r'" by (auto simp: new_BinaryExpr_def)
  with BinaryExpr.IH show ?case by (simp add: image_Un)
next
  case (GEPExpr a "is")
  from GEPExpr.prems obtain is' where m: "map_res (clone_expr h vs c) is = Inr is'"
    and e': "e' = GEPExpr (get_arg c a) is'" by (auto simp: new_GEPExpr_def)
  have "loops_of_expr (is' ! i) = get_loop c ` loops_of_expr (is ! i)" if "i < length is" for i
    using GEPExpr.IH [OF nth_mem [OF that] map_res_nth [OF m that]] .
  then have "map loops_of_expr is' = map (\<lambda>e. get_loop c ` loops_of_expr e) is"
    using map_res_length [OF m] by (auto intro!: nth_equalityI)
  then have "(\<Union>e \<in> set is'. loops_of_expr e) = (\<Union>e \<in> set is. get_loop c ` loops_of_expr e)"
    by (metis image_set)
  then show ?case using e' by (simp add: image_UN)
qed (auto simp: new_BroadcastExpr_def new_LoadExpr_def new_LoadLocalExpr_def new_IndexExpr_def)

lemma clone_exprs_free:
  "map_res (clone_expr h vs c) es = Inr es' \<Longrightarrow>
     (\<Union>e \<in> set es'. loops_of_expr e) = get_loop c ` (\<Union>e \<in> set es. loops_of_expr e)"
proof (induction es arbitrary: es')
  case (Cons e es)
  from Cons.prems obtain e' es2 where "clone_expr h vs c e = Inr e'"
    "map_res (clone_expr h vs c) es = Inr es2" "es' = e' # es2" by auto
  with Cons.IH [of es2] show ?case by (simp add: clone_expr_free image_Un)
qed simp

definition cloned_shape :: "heap \<Rightarrow> cctx \<Rightarrow> stmt list \<Rightarrow> stmt list \<times> heap \<times> cctx \<Rightarrow> bool" where
  "cloned_shape h c ss r \<longleftrightarrow>
     (case r of (ss', h', c') \<Rightarrow>
        (\<forall>x \<in> set (body_loops ss'). hp_next h \<le> x \<and> x < hp_next h') \<and> distinct (body_loops ss')
        \<and> (\<Union>s \<in> set ss'. free_loops s) \<subseteq> get_loop c ` (\<Union>s \<in> set ss. free_loops s)
        \<and> list_all index_kinds_stmt ss')"

lemma clone_exprs_kinds:
  "map_res (clone_expr h vs c) es = Inr es' \<Longrightarrow> ctx_ok h c \<Longrightarrow> list_all index_kinds_ok es \<Longrightarrow>
     list_all index_kinds_ok es'"
proof (induction es arbitrary: es')
  case (Cons e es)
  from Cons.prems(1) obtain e' es2 where "clone_expr h vs c e = Inr e'"
    "map_res (clone_expr h vs c) es = Inr es2" "es' = e' # es2" by auto
  with Cons.IH [of es2] Cons.prems(2,3) clone_expr_hash [of h c e vs e'] show ?case by simp
qed simp

lemma clone_shape_both:
  "clone_stmt h vs enc c s = Inr r \<Longrightarrow> ctx_ok h c \<Longrightarrow> below (hp_next h) s \<Longrightarrow> index_kinds_stmt s \<Longrightarrow>
     distinct (loop_list s) \<Longrightarrow> free_loops s \<inter> loops_in s = {} \<Longrightarrow>
     cloned_shape h c [s] (case r of (s', h', c') \<Rightarrow> ([s'], h', c'))"
  "clone_scope h vs enc c ss = Inr rs \<Longrightarrow> ctx_ok h c \<Longrightarrow> \<forall>s \<in> set ss. below (hp_next h) s \<Longrightarrow>
     list_all index_kinds_stmt ss \<Longrightarrow> distinct (body_loops ss) \<Longrightarrow>
     (\<Union>s \<in> set ss. free_loops s) \<inter> (\<Union>s \<in> set ss. loops_in s) = {} \<Longrightarrow> cloned_shape h c ss rs"
proof (induction h vs enc c s and h vs enc c ss arbitrary: r and rs
    rule: clone_stmt_clone_scope.induct)
  case (1 h vs enc c L body)
  obtain L' h1 where new: "new_loop h (loop_name h L) (loop_end h L) (loop_stride h L) = (L', h1)"
    by fastforce
  with "1.prems"(1) obtain c1 body' h2 c2 where c1: "map_loop c L L' = Inr c1"
    and body: "clone_scope h1 vs (L # enc) c1 body = Inr (body', h2, c2)"
    and r: "r = (Loop L' body', h2, c2)" by auto
  have ext: "heap_ext h h1" using new by (rule heap_ext_new)
  have ok1: "ctx_ok h1 c1" using "1.prems" new c1 by (auto intro: ctx_ok_map_loop)
  have low: "\<forall>s \<in> set body. below (hp_next h1) s"
    using "1.prems"(3) heap_ext_next [OF ext] by (auto intro: below_mono)
  have L': "L' = hp_next h" "hp_next h1 = Suc (hp_next h)"
    using new by (auto simp: new_loop_def)
  have "(\<Union>s \<in> set body. free_loops s) \<inter> (\<Union>s \<in> set body. loops_in s) = {}"
    using "1.prems"(5,6) by (auto simp: disjoint_iff)
  then have sh: "cloned_shape h1 c1 body (body', h2, c2)"
    using "1.prems"(4,5) by (intro "1.IH" [OF new [symmetric] refl c1 body ok1 low]) auto
  have next2: "hp_next h1 \<le> hp_next h2"
    using clone_stmts_hash(2) [OF body ok1 low] "1.prems"(4)
    by (auto simp: cloned_scope_def dest: heap_ext_next)
  have g: "get_loop c1 L = L'" "\<And>x. x \<noteq> L \<Longrightarrow> get_loop c1 x = get_loop c x"
    using c1 by (auto simp: map_loop_def get_loop_def)
  have fr: "(\<Union>s \<in> set body'. free_loops s) \<subseteq> get_loop c1 ` (\<Union>s \<in> set body. free_loops s)"
    using sh by (simp add: cloned_shape_def)
  have "free_loops (Loop L' body') \<subseteq> get_loop c ` free_loops (Loop L body)"
  proof
    fix y assume "y \<in> free_loops (Loop L' body')"
    then have "y \<in> (\<Union>s \<in> set body'. free_loops s)" "y \<noteq> L'" by auto
    with fr obtain x where x: "x \<in> (\<Union>s \<in> set body. free_loops s)" "y = get_loop c1 x" "y \<noteq> L'"
      by blast
    then have "x \<noteq> L" using g(1) by auto
    with x g(2) show "y \<in> get_loop c ` free_loops (Loop L body)" by auto
  qed
  moreover have "L' \<notin> set (body_loops body')"
    using sh L' by (auto simp: cloned_shape_def simp del: set_concat)
  ultimately show ?case using r sh L' next2
    by (auto simp: cloned_shape_def simp del: set_concat)
next
  case (2 h vs enc c val lo hi body)
  then obtain val' body' h1 c1 where v: "clone_expr h vs c val = Inr val'"
    and body: "clone_scope h vs enc c body = Inr (body', h1, c1)"
    and r: "r = (IfRange val' lo hi body', h1, c1)" by auto
  have sh: "cloned_shape h c body (body', h1, c1)"
    using "2.prems" by (intro "2.IH" [OF v body]) auto
  then show ?case using r clone_expr_free [OF v] clone_expr_hash [OF _ _ v] "2.prems"
    by (simp add: cloned_shape_def image_Un le_supI2 del: set_concat)
next
  case (3 h vs enc c name params)
  then obtain params' where p: "map_res (clone_expr h vs c) params = Inr params'"
    and r: "r = (CallStmt name params', h, c)" by auto
  with clone_exprs_free [OF p] clone_exprs_kinds [OF p] "3.prems" show ?case
    by (simp add: cloned_shape_def)
next
  case (4 h vs enc c gep v acc)
  then obtain g' v' where "clone_expr h vs c gep = Inr g'" "clone_expr h vs c v = Inr v'"
    and "r = (StoreStmt g' v' acc, h, c)" by (auto simp: new_StoreStmt_def)
  with "4.prems" clone_expr_hash [of h c gep vs g'] clone_expr_hash [of h c v vs v']
    clone_expr_free [of h vs c gep g'] clone_expr_free [of h vs c v v']
  show ?case by (simp add: cloned_shape_def image_Un)
next
  case (5 h vs enc c x v acc)
  then obtain v' where "clone_expr h vs c v = Inr v'"
    and "r = (StoreLocalStmt (get_var c x) v' acc, h, c)" by (auto simp: new_StoreLocalStmt_def)
  with "5.prems" clone_expr_hash [of h c v vs v'] clone_expr_free [of h vs c v v']
  show ?case by (simp add: cloned_shape_def)
next
  case (6 h vs enc c)
  then show ?case by (auto simp: cloned_shape_def)
next
  case (7 h vs enc c s ss)
  then obtain s' h1 c1 ss' h2 c2 where s: "clone_stmt h vs enc c s = Inr (s', h1, c1)"
    and ss: "clone_scope h1 vs enc c1 ss = Inr (ss', h2, c2)" and rs: "rs = (s' # ss', h2, c2)"
    by (auto split: prod.splits)
  have one: "cloned h s (s', h1, c1)" using clone_stmts_hash(1) [OF s] "7.prems" by simp
  then have ext: "heap_ext h h1" and ok: "ctx_ok h1 c1" by (simp_all add: cloned_def)
  have low: "\<forall>s \<in> set ss. below (hp_next h1) s"
    using "7.prems"(3) heap_ext_next [OF ext] by (auto intro: below_mono)
  have two: "cloned_scope h1 ss (ss', h2, c2)"
    using clone_stmts_hash(2) [OF ss ok low] "7.prems" by simp
  then have ext2: "heap_ext h1 h2" by (simp add: cloned_scope_def)
  have A: "cloned_shape h c [s] ([s'], h1, c1)"
    using "7.IH"(1) [OF s] "7.prems" by (auto simp: disjoint_iff)
  have B: "cloned_shape h1 c1 ss (ss', h2, c2)"
    using "7.prems" low ok
    by (intro "7.IH"(2) [OF s refl refl ss]) (auto simp: disjoint_iff)
  have g: "get_loop c1 ` (\<Union>s \<in> set ss. free_loops s) = get_loop c ` (\<Union>s \<in> set ss. free_loops s)"
  proof (rule image_cong [OF refl])
    fix x assume "x \<in> (\<Union>s \<in> set ss. free_loops s)"
    then have "x \<notin> loops_in s" using "7.prems"(6) by (auto simp: disjoint_iff)
    then show "get_loop c1 x = get_loop c x" using clone_ctx(1) [OF s] by simp
  qed
  have n: "hp_next h \<le> hp_next h1" "hp_next h1 \<le> hp_next h2"
    using ext ext2 by (auto dest: heap_ext_next)
  have d: "set (loop_list s') \<inter> set (body_loops ss') = {}"
  proof -
    have "x < hp_next h1" if "x \<in> set (loop_list s')" for x
      using A that by (auto simp: cloned_shape_def)
    moreover have "hp_next h1 \<le> x" if "x \<in> set (body_loops ss')" for x
      using B that by (auto simp: cloned_shape_def)
    ultimately show ?thesis by fastforce
  qed
  have "hp_next h \<le> x \<and> x < hp_next h2" if "x \<in> set (body_loops (s' # ss'))" for x
    using that A B n by (fastforce simp: cloned_shape_def simp del: set_concat)
  moreover have "distinct (body_loops (s' # ss'))"
    using A B d by (simp add: cloned_shape_def)
  ultimately show ?case using rs A B g by (auto simp: cloned_shape_def image_Un simp del: set_concat)
qed

section \<open>Arithmetic of loop counters\<close>

lemma count_up_zero [simp]: "count_up 0 fin i = []"
  by (subst count_up.simps) simp

lemma count_up_split:
  "i \<le> m \<Longrightarrow> m \<le> fin \<Longrightarrow> stride dvd (m - i) \<Longrightarrow>
     count_up stride fin i = count_up stride m i @ count_up stride fin m"
proof (induction stride fin i rule: count_up.induct)
  case (1 stride fin i)
  show ?case
  proof (cases "i < m \<and> 0 < stride")
    case True
    then have "stride \<le> m - i" using "1.prems"(3) by (auto dest: dvd_imp_le)
    moreover have "stride dvd (m - (i + stride))"
      using "1.prems"(3) by (metis diff_diff_left dvd_diff_nat dvd_refl)
    ultimately have "count_up stride fin (i + stride) =
        count_up stride m (i + stride) @ count_up stride fin m"
      using "1.prems" True by (intro "1.IH") auto
    then show ?thesis using True "1.prems"(2) by (simp add: count_up_step)
  next
    case False
    then show ?thesis using "1.prems" by (cases "i = m") auto
  qed
qed

lemma count_up_shift: "count_up stride (fin + k) (i + k) = map (\<lambda>x. x + k) (count_up stride fin i)"
proof (induction stride fin i rule: count_up.induct)
  case (1 stride fin i)
  show ?case
  proof (cases "i < fin \<and> 0 < stride")
    case True
    then have "count_up stride (fin + k) (i + stride + k) =
        map (\<lambda>x. x + k) (count_up stride fin (i + stride))"
      using "1.IH" by simp
    moreover have "i + k + stride = i + stride + k" by simp
    ultimately have "count_up stride (fin + k) (i + k + stride) =
        map (\<lambda>x. x + k) (count_up stride fin (i + stride))" by (simp only:)
    then show ?thesis using True count_up_step [of "i + k" "fin + k" stride] by (simp add: count_up_step)
  next
    case False
    then show ?thesis by (cases "0 < stride") auto
  qed
qed

lemma count_up_filter:
  "e \<le> fin \<Longrightarrow> filter (\<lambda>x. x < e) (count_up stride fin i) = count_up stride e i"
proof (induction stride fin i rule: count_up.induct)
  case (1 stride fin i)
  show ?case
  proof (cases "i < fin \<and> 0 < stride")
    case True
    have IH: "filter (\<lambda>x. x < e) (count_up stride fin (i + stride)) = count_up stride e (i + stride)"
      using "1.IH" True "1.prems" by simp
    show ?thesis
    proof (cases "i < e")
      case False
      then show ?thesis using True IH by (simp add: count_up_step)
    qed (use True IH in \<open>simp add: count_up_step\<close>)
  next
    case False
    then show ?thesis using "1.prems" by (cases "0 < stride") auto
  qed
qed

lemma count_up_one: "count_up (Suc 0) n i = [i..<n]"
proof (induction "Suc 0" n i rule: count_up.induct)
  case (1 n i)
  then show ?case by (cases "i < n") (auto simp: count_up_step upt_conv_Cons)
qed

text \<open>A loop of blocks, each block a loop of its own, counts like one loop.\<close>

lemma count_up_blocks:
  assumes "stride dvd b"
  shows "concat (map (\<lambda>i. map (\<lambda>j. j + i * b) (count_up stride b 0)) [0..<n]) = count_up stride (n * b) 0"
proof (induction n)
  case (Suc n)
  have "count_up stride (Suc n * b) 0 = count_up stride (n * b) 0 @ count_up stride (b + n * b) (0 + n * b)"
    using count_up_split [of 0 "n * b" "Suc n * b" stride] assms by (simp add: dvd_mult)
  then show ?case using Suc.IH unfolding count_up_shift by simp
qed simp

lemma count_up_length: "0 < stride \<Longrightarrow> count_up stride stride 0 = [0]"
  by (simp add: count_up_step)

end
