(* ===== verification/CloneFacts.thy ===== *)
theory CloneFacts
  imports SemFacts
begin

text \<open>
  A clone shares nothing with the original. \<open>fresh n\<close>: a node only points to objects from the
  address \<open>n\<close> on. A cloning context maps into such objects, and covers a statement when it maps
  every loop, argument and variable that the statement does not declare itself.
\<close>

section \<open>Fresh nodes\<close>

fun fresh_expr :: "nat \<Rightarrow> expr \<Rightarrow> bool" where
  "fresh_expr n (IndexExpr ty L) \<longleftrightarrow> n \<le> L"
| "fresh_expr n (BinaryExpr k l r) \<longleftrightarrow> fresh_expr n l \<and> fresh_expr n r"
| "fresh_expr n (UnaryExpr k e) \<longleftrightarrow> fresh_expr n e"
| "fresh_expr n (BroadcastExpr e vf) \<longleftrightarrow> fresh_expr n e"
| "fresh_expr n (GEPExpr a is) \<longleftrightarrow> n \<le> a \<and> list_all (fresh_expr n) is"
| "fresh_expr n (LoadExpr ty g) \<longleftrightarrow> fresh_expr n g"
| "fresh_expr n (LoadLocalExpr ty v) \<longleftrightarrow> n \<le> v"
| "fresh_expr n e \<longleftrightarrow> True"

fun fresh :: "nat \<Rightarrow> stmt \<Rightarrow> bool" where
  "fresh n (Loop L body) \<longleftrightarrow> n \<le> L \<and> list_all (fresh n) body"
| "fresh n (IfRange val lo hi body) \<longleftrightarrow> fresh_expr n val \<and> list_all (fresh n) body"
| "fresh n (CallStmt name params) \<longleftrightarrow> list_all (fresh_expr n) params"
| "fresh n (StoreStmt g x acc) \<longleftrightarrow> fresh_expr n g \<and> fresh_expr n x"
| "fresh n (StoreLocalStmt v x acc) \<longleftrightarrow> n \<le> v \<and> fresh_expr n x"

definition fresh_program :: "nat \<Rightarrow> program \<Rightarrow> bool" where
  "fresh_program n p \<longleftrightarrow>
     list_all (\<lambda>a. n \<le> a) (pr_args p) \<and> list_all (\<lambda>v. n \<le> v) (pr_vars p) \<and> list_all (fresh n) (pr_body p)"

section \<open>What a node mentions\<close>

fun locals_of_expr :: "expr \<Rightarrow> var_ptr set" where
  "locals_of_expr (LoadLocalExpr ty v) = {v}"
| "locals_of_expr (BinaryExpr k l r) = locals_of_expr l \<union> locals_of_expr r"
| "locals_of_expr (UnaryExpr k e) = locals_of_expr e"
| "locals_of_expr (BroadcastExpr e vf) = locals_of_expr e"
| "locals_of_expr (GEPExpr a is) = (\<Union>e \<in> set is. locals_of_expr e)"
| "locals_of_expr (LoadExpr ty g) = locals_of_expr g"
| "locals_of_expr e = {}"

fun locals_of :: "stmt \<Rightarrow> var_ptr set" where
  "locals_of (Loop L body) = (\<Union>s \<in> set body. locals_of s)"
| "locals_of (IfRange val lo hi body) = locals_of_expr val \<union> (\<Union>s \<in> set body. locals_of s)"
| "locals_of (CallStmt name params) = (\<Union>e \<in> set params. locals_of_expr e)"
| "locals_of (StoreStmt g x acc) = locals_of_expr g \<union> locals_of_expr x"
| "locals_of (StoreLocalStmt v x acc) = insert v (locals_of_expr x)"

text \<open>A program that mentions its own loops, arguments and variables only.\<close>

definition closed_program :: "program \<Rightarrow> bool" where
  "closed_program p \<longleftrightarrow>
     list_all (\<lambda>s. free_loops s = {} \<and> args_of s \<subseteq> set (pr_args p) \<and> locals_of s \<subseteq> set (pr_vars p)) (pr_body p)"

section \<open>Contexts\<close>

definition maps_from :: "nat \<Rightarrow> cctx \<Rightarrow> bool" where
  "maps_from n c \<longleftrightarrow>
     (\<forall>k x. cc_loops c k = Some x \<longrightarrow> n \<le> x) \<and> (\<forall>k x. cc_args c k = Some x \<longrightarrow> n \<le> x)
     \<and> (\<forall>k x. cc_vars c k = Some x \<longrightarrow> n \<le> x)"

definition covers_expr :: "cctx \<Rightarrow> expr \<Rightarrow> bool" where
  "covers_expr c e \<longleftrightarrow>
     loops_of_expr e \<subseteq> dom (cc_loops c) \<and> args_of_expr e \<subseteq> dom (cc_args c) \<and> locals_of_expr e \<subseteq> dom (cc_vars c)"

definition covers :: "cctx \<Rightarrow> stmt \<Rightarrow> bool" where
  "covers c s \<longleftrightarrow>
     free_loops s \<subseteq> dom (cc_loops c) \<and> args_of s \<subseteq> dom (cc_args c) \<and> locals_of s \<subseteq> dom (cc_vars c)"

definition ctx_grows :: "cctx \<Rightarrow> cctx \<Rightarrow> bool" where
  "ctx_grows c c' \<longleftrightarrow>
     dom (cc_loops c) \<subseteq> dom (cc_loops c') \<and> dom (cc_args c) \<subseteq> dom (cc_args c') \<and> dom (cc_vars c) \<subseteq> dom (cc_vars c')"

lemma covers_grows: "covers c s \<Longrightarrow> ctx_grows c c' \<Longrightarrow> covers c' s"
  unfolding covers_def ctx_grows_def by blast

lemma covers_body:
  assumes "covers c (Loop L body)" "ctx_grows c c1" "L \<in> dom (cc_loops c1)" "s \<in> set body"
  shows "covers c1 s"
proof -
  have "free_loops s \<subseteq> insert L (dom (cc_loops c))" "args_of s \<subseteq> dom (cc_args c)" "locals_of s \<subseteq> dom (cc_vars c)"
    using assms(1,4) unfolding covers_def free_loops.simps args_of.simps locals_of.simps by blast+
  then show ?thesis using assms(2,3) unfolding covers_def ctx_grows_def by blast
qed

lemma ctx_grows_refl [simp]: "ctx_grows c c"
  by (simp add: ctx_grows_def)

lemma ctx_grows_trans: "ctx_grows c c1 \<Longrightarrow> ctx_grows c1 c2 \<Longrightarrow> ctx_grows c c2"
  unfolding ctx_grows_def by blast

lemma mapped_from:
  assumes "maps_from n c"
  shows "x \<in> dom (cc_loops c) \<Longrightarrow> n \<le> get_loop c x" "y \<in> dom (cc_args c) \<Longrightarrow> n \<le> get_arg c y"
    "z \<in> dom (cc_vars c) \<Longrightarrow> n \<le> get_var c z"
  using assms by (auto simp: maps_from_def get_loop_def get_arg_def get_var_def)

lemma map_loop_from:
  "map_loop c L L' = Inr c1 \<Longrightarrow> maps_from n c \<Longrightarrow> n \<le> L' \<Longrightarrow>
     maps_from n c1 \<and> ctx_grows c c1 \<and> L \<in> dom (cc_loops c1)"
  by (auto simp: map_loop_def maps_from_def ctx_grows_def split: if_splits)

lemma map_arg_from:
  "map_arg c a a' = Inr c1 \<Longrightarrow> maps_from n c \<Longrightarrow> n \<le> a' \<Longrightarrow>
     maps_from n c1 \<and> ctx_grows c c1 \<and> a \<in> dom (cc_args c1)"
  by (auto simp: map_arg_def maps_from_def ctx_grows_def split: if_splits)

lemma map_var_from:
  "map_var c v v' = Inr c1 \<Longrightarrow> maps_from n c \<Longrightarrow> n \<le> v' \<Longrightarrow>
     maps_from n c1 \<and> ctx_grows c c1 \<and> v \<in> dom (cc_vars c1)"
  by (auto simp: map_var_def maps_from_def ctx_grows_def split: if_splits)

section \<open>Clones are fresh\<close>

lemma clone_expr_fresh:
  "clone_expr h vs c e = Inr e' \<Longrightarrow> maps_from n c \<Longrightarrow> covers_expr c e \<Longrightarrow> fresh_expr n e'"
proof (induction e arbitrary: e')
  case (GEPExpr a "is")
  from GEPExpr.prems(1) obtain is' where m: "map_res (clone_expr h vs c) is = Inr is'"
    and e': "e' = GEPExpr (get_arg c a) is'"
    by (auto simp: new_GEPExpr_def)
  have "fresh_expr n (is' ! i)" if "i < length is" for i
  proof (rule GEPExpr.IH [OF _ map_res_nth [OF m that] GEPExpr.prems(2)])
    show "is ! i \<in> set is" using that by simp
    then show "covers_expr c (is ! i)" using GEPExpr.prems(3) by (auto simp: covers_expr_def)
  qed
  then show ?case using e' GEPExpr.prems map_res_length [OF m] mapped_from(2)
    by (simp add: covers_expr_def list_all_length)
next
  case (BinaryExpr k l r)
  from BinaryExpr.prems(1) obtain l' r' where "clone_expr h vs c l = Inr l'"
    "clone_expr h vs c r = Inr r'" "e' = BinaryExpr k l' r'" by (auto simp: new_BinaryExpr_def)
  with BinaryExpr.IH(1) [of l'] BinaryExpr.IH(2) [of r'] BinaryExpr.prems show ?case by (simp add: covers_expr_def)
qed (auto simp: new_BroadcastExpr_def new_LoadExpr_def new_LoadLocalExpr_def new_IndexExpr_def covers_expr_def
      intro: mapped_from)

lemma clone_exprs_fresh:
  assumes "map_res (clone_expr h vs c) es = Inr es'" "maps_from n c" "list_all (covers_expr c) es"
  shows "list_all (fresh_expr n) es'"
  unfolding list_all_length using assms map_res_length [OF assms(1)]
  by (auto intro!: clone_expr_fresh [OF map_res_nth [OF assms(1)]] simp: list_all_length)

definition fresh_clone :: "nat \<Rightarrow> heap \<Rightarrow> cctx \<Rightarrow> stmt list \<Rightarrow> heap \<Rightarrow> cctx \<Rightarrow> bool" where
  "fresh_clone n h c ss h' c' \<longleftrightarrow> list_all (fresh n) ss \<and> n \<le> hp_next h' \<and> maps_from n c' \<and> ctx_grows c c'"

lemma clone_stmt_fresh:
  "clone_stmt h vs enc c s = Inr (s', h', c') \<Longrightarrow> maps_from n c \<Longrightarrow> n \<le> hp_next h \<Longrightarrow> covers c s \<Longrightarrow>
     fresh_clone n h c [s'] h' c'"
  "clone_scope h vs enc c ss = Inr (ss', h', c') \<Longrightarrow> maps_from n c \<Longrightarrow> n \<le> hp_next h \<Longrightarrow> list_all (covers c) ss \<Longrightarrow>
     fresh_clone n h c ss' h' c'"
proof (induction h vs enc c s and h vs enc c ss arbitrary: s' h' c' and ss' h' c'
    rule: clone_stmt_clone_scope.induct)
  case (1 h vs enc c L body)
  obtain L' h1 where new: "new_loop h (loop_name h L) (loop_end h L) (loop_stride h L) = (L', h1)" by fastforce
  with "1.prems"(1) obtain c1 body' where c1: "map_loop c L L' = Inr c1"
    and body: "clone_scope h1 vs (L # enc) c1 body = Inr (body', h', c')" and s': "s' = Loop L' body'" by auto
  have L': "n \<le> L'" "n \<le> hp_next h1" using new "1.prems"(3) by (auto simp: new_loop_def)
  from map_loop_from [OF c1 "1.prems"(2) L'(1)] have c1': "maps_from n c1" "ctx_grows c c1" "L \<in> dom (cc_loops c1)" by simp_all
  then have "list_all (covers c1) body" using covers_body [OF "1.prems"(4)] by (simp add: list_all_iff)
  from "1.IH" [OF new [symmetric] refl c1 body c1'(1) L'(2) this] show ?case
    using c1'(2) L'(1) s' by (auto simp: fresh_clone_def intro: ctx_grows_trans)
next
  case (2 h vs enc c val lo hi body)
  then obtain val' body' where v: "clone_expr h vs c val = Inr val'"
    and body: "clone_scope h vs enc c body = Inr (body', h', c')" and s': "s' = IfRange val' lo hi body'" by auto
  have "list_all (covers c) body" "covers_expr c val"
    using "2.prems"(4) by (auto simp: covers_def covers_expr_def list_all_iff)
  with "2.IH" [OF v body "2.prems"(2,3)] clone_expr_fresh [OF v "2.prems"(2)] show ?case
    by (simp add: fresh_clone_def s')
next
  case (3 h vs enc c name params)
  then have "list_all (covers_expr c) params" by (auto simp: covers_def covers_expr_def list_all_iff)
  with 3 clone_exprs_fresh show ?case by (auto simp: fresh_clone_def)
next
  case (4 h vs enc c g x acc)
  then obtain g' x' where "clone_expr h vs c g = Inr g'" "clone_expr h vs c x = Inr x'"
    "s' = StoreStmt g' x' acc" "h' = h" "c' = c" by (auto simp: new_StoreStmt_def)
  moreover have "covers_expr c g" "covers_expr c x" using "4.prems"(4) by (simp_all add: covers_def covers_expr_def)
  ultimately show ?case using 4 clone_expr_fresh by (simp add: fresh_clone_def)
next
  case (5 h vs enc c v x acc)
  then obtain x' where "clone_expr h vs c x = Inr x'" "s' = StoreLocalStmt (get_var c v) x' acc" "h' = h" "c' = c"
    by (auto simp: new_StoreLocalStmt_def)
  moreover have "covers_expr c x" "v \<in> dom (cc_vars c)" using "5.prems"(4) by (simp_all add: covers_def covers_expr_def)
  ultimately show ?case using 5 clone_expr_fresh mapped_from(3) by (simp add: fresh_clone_def)
next
  case (6 h vs enc c)
  then show ?case by (simp add: fresh_clone_def)
next
  case (7 h vs enc c s ss)
  then obtain s1 h1 c1 ss1 where s: "clone_stmt h vs enc c s = Inr (s1, h1, c1)"
    and ss: "clone_scope h1 vs enc c1 ss = Inr (ss1, h', c')" and ss': "ss' = s1 # ss1"
    by (auto split: prod.splits)
  have one: "fresh_clone n h c [s1] h1 c1" using "7.IH"(1) [OF s "7.prems"(2,3)] "7.prems"(4) by simp
  then have "list_all (covers c1) ss" using "7.prems"(4) by (auto simp: fresh_clone_def list_all_iff intro: covers_grows)
  with one "7.IH"(2) [OF s refl refl ss] show ?case
    by (auto simp: fresh_clone_def ss' intro: ctx_grows_trans)
qed

lemma clone_args_fresh:
  "clone_args h c as = Inr (as', h', c') \<Longrightarrow> maps_from n c \<Longrightarrow> n \<le> hp_next h \<Longrightarrow>
     list_all (\<lambda>a. n \<le> a) as' \<and> n \<le> hp_next h' \<and> maps_from n c' \<and> ctx_grows c c' \<and> set as \<subseteq> dom (cc_args c')"
proof (induction h c as arbitrary: as' h' c' rule: clone_args.induct)
  case (2 h c a as)
  obtain a' h1 where new: "new_arg h (hp_arg h a) = (a', h1)" by fastforce
  with "2.prems"(1) obtain c1 as1 where m: "map_arg c a a' = Inr c1"
    and cl: "clone_args h1 c1 as = Inr (as1, h', c')" and as': "as' = a' # as1" by auto
  have a': "n \<le> a'" "n \<le> hp_next h1" using new "2.prems"(3) by (auto simp: new_arg_def)
  note c1 = map_arg_from [OF m "2.prems"(2) a'(1)]
  have rec: "list_all (\<lambda>a. n \<le> a) as1 \<and> n \<le> hp_next h' \<and> maps_from n c' \<and> ctx_grows c1 c' \<and> set as \<subseteq> dom (cc_args c')"
    using "2.IH" [OF new [symmetric] refl m cl _ a'(2)] c1 by blast
  then have "ctx_grows c c'" "a \<in> dom (cc_args c')" using c1 ctx_grows_trans unfolding ctx_grows_def by blast+
  with rec show ?case using a'(1) as' by simp
qed simp

lemma clone_vars_fresh:
  "clone_vars h c vs = Inr (vs', h', c') \<Longrightarrow> maps_from n c \<Longrightarrow> n \<le> hp_next h \<Longrightarrow>
     list_all (\<lambda>v. n \<le> v) vs' \<and> n \<le> hp_next h' \<and> maps_from n c' \<and> ctx_grows c c' \<and> set vs \<subseteq> dom (cc_vars c')"
proof (induction h c vs arbitrary: vs' h' c' rule: clone_vars.induct)
  case (2 h c v vs)
  obtain v' h1 where new: "new_var h (hp_var h v) = (v', h1)" by fastforce
  with "2.prems"(1) obtain c1 vs1 where m: "map_var c v v' = Inr c1"
    and cl: "clone_vars h1 c1 vs = Inr (vs1, h', c')" and vs': "vs' = v' # vs1" by auto
  have v': "n \<le> v'" "n \<le> hp_next h1" using new "2.prems"(3) by (auto simp: new_var_def)
  note c1 = map_var_from [OF m "2.prems"(2) v'(1)]
  have rec: "list_all (\<lambda>v. n \<le> v) vs1 \<and> n \<le> hp_next h' \<and> maps_from n c' \<and> ctx_grows c1 c' \<and> set vs \<subseteq> dom (cc_vars c')"
    using "2.IH" [OF new [symmetric] refl m cl _ v'(2)] c1 by blast
  then have "ctx_grows c c'" "v \<in> dom (cc_vars c')" using c1 ctx_grows_trans unfolding ctx_grows_def by blast+
  with rec show ?case using v'(1) vs' by simp
qed simp

lemma clone_program_fresh:
  assumes "clone_program h empty_ctx p = Inr (p', h', c')" "closed_program p"
  shows "fresh_program (hp_next h) p'"
proof -
  let ?n = "hp_next h"
  from assms(1) obtain as' h1 c1 vs' h2 c2 body' where
    as: "clone_args h empty_ctx (pr_args p) = Inr (as', h1, c1)"
    and vs: "clone_vars h1 c1 (pr_vars p) = Inr (vs', h2, c2)"
    and body: "clone_scope h2 (pr_vars p) [] c2 (pr_body p) = Inr (body', h', c')"
    and p': "p' = \<lparr>pr_name = pr_name p, pr_args = as', pr_vars = vs', pr_body = body'\<rparr>"
    by (auto simp: clone_program_def split: prod.splits)
  have "maps_from ?n empty_ctx" by (simp add: maps_from_def empty_ctx_def)
  note A = clone_args_fresh [OF as this order_refl]
  note V = clone_vars_fresh [OF vs, of ?n]
  have "set (pr_args p) \<subseteq> dom (cc_args c2)" "set (pr_vars p) \<subseteq> dom (cc_vars c2)"
    using A V unfolding ctx_grows_def by blast+
  then have "list_all (covers c2) (pr_body p)"
    using assms(2) unfolding closed_program_def covers_def list_all_iff by blast
  with A V clone_stmt_fresh(2) [OF body, of ?n] show ?thesis
    by (simp add: fresh_program_def fresh_clone_def p')
qed

section \<open>Properties\<close>

text \<open>C28. \<open>Program::clone\<close> makes a deep copy, on programs of allocated objects whose indices have the index
  kind: the copy has the hash of the original, every existing object stays as it was, and when the original
  mentions its own loops, arguments and variables only, the copy shares none of them: every loop it declares or
  refers to, and every argument and variable, is an object that did not exist before.\<close>

theorem clone_keeps_hash:
  assumes "clone_program h empty_ctx p = Inr (p', h', c')" "below_program h p" "list_all index_kinds_stmt (pr_body p)"
  shows "hash_program h' p' = hash_program h p \<and> below_program h' p' \<and> heap_ext h h'
    \<and> (closed_program p \<longrightarrow> fresh_program (hp_next h) p')"
  using clone_program_hash_eq [OF assms] clone_program_fresh [OF assms(1)] by blast

theorem clone_keeps_hash_witness:
  "\<exists>p' h' c'. clone_program (fst demo_loop) empty_ctx (snd demo_loop) = Inr (p', h', c')
     \<and> hash_program h' p' = hash_program (fst demo_loop) (snd demo_loop)
     \<and> fresh_program 2 p' \<and> pr_args p' \<noteq> pr_args (snd demo_loop)"
proof -
  have "case clone_program (fst demo_loop) empty_ctx (snd demo_loop) of Inr r \<Rightarrow> True | Inl e \<Rightarrow> False"
    by code_simp
  then obtain p' h' c' where c: "clone_program (fst demo_loop) empty_ctx (snd demo_loop) = Inr (p', h', c')"
    by (auto split: sum.splits)
  have "below_program (fst demo_loop) (snd demo_loop)" "list_all index_kinds_stmt (pr_body (snd demo_loop))"
    "closed_program (snd demo_loop)" "hp_next (fst demo_loop) = 2" "pr_args (snd demo_loop) = [1]"
    by (simp_all add: demo_loop_def below_program_def closed_program_def)
  with clone_keeps_hash [OF c] c have "fresh_program 2 p'"
    "hash_program h' p' = hash_program (fst demo_loop) (snd demo_loop)" by simp_all
  moreover from this(1) have "pr_args p' \<noteq> [1]" by (auto simp: fresh_program_def)
  ultimately show ?thesis using c \<open>pr_args (snd demo_loop) = [1]\<close> by auto
qed

end
