(* ===== verification/Handles.thy ===== *)
theory Handles
  imports Prelude
begin

text \<open>
  The ownership handles of \<open>include/bistra/Program/UseDef.h\<close> and the operations of \<open>Scope\<close> in
  \<open>lib/Program/Program.cpp\<close> that edit a body through them, at the level of pointers: a handle
  points to a node (\<open>ref_\<close>) and a node points back to the handle that owns it (\<open>user_\<close>). The
  body of a scope is a vector of handles, addressed by scope and position; inserting and erasing
  move the handles behind the insertion point one by one, as the vector does.

  The lemmas show that the two directions always agree, that the assertions of the handle never
  fail, that a node has at most one owner, and that every operation acts on the body as the list
  operation the transformations of the other theories use. The reallocation of the vector, which
  moves every handle once more, and the recursive destruction of a deleted subtree are not
  modelled: \<open>hs_dead\<close> records the nodes passed to \<open>delete\<close>.
\<close>

section \<open>Handles\<close>

type_synonym node = nat

datatype handle = Slot node nat | Field node nat | Tmp node

record hstate =
  hs_ref :: "handle \<Rightarrow> node option"
  hs_own :: "node \<Rightarrow> handle option"
  hs_size :: "node \<Rightarrow> nat"
  hs_dead :: "node list"

fun handle_parent :: "handle \<Rightarrow> node" where
  "handle_parent (Slot s i) = s"
| "handle_parent (Field e i) = e"
| "handle_parent (Tmp s) = s"

definition verify_handle :: "hstate \<Rightarrow> handle \<Rightarrow> unit res" where
  "verify_handle st h =
     require (case hs_ref st h of None \<Rightarrow> True | Some n \<Rightarrow> hs_own st n = Some h)
       ''The handle pointes to an unowned ref.''"

definition setReference :: "hstate \<Rightarrow> handle \<Rightarrow> node option \<Rightarrow> hstate res" where
  "setReference st h r =
     (let st1 = (case hs_ref st h of
                   None \<Rightarrow> st
                 | Some old \<Rightarrow> st\<lparr>hs_own := (hs_own st)(old := None)\<rparr>);
          st2 = st1\<lparr>hs_ref := (hs_ref st1)(h := r)\<rparr>;
          st3 = (case r of
                   None \<Rightarrow> st2
                 | Some n \<Rightarrow>
                     let st' = (case hs_own st2 n of
                                  None \<Rightarrow> st2
                                | Some eh \<Rightarrow> st2\<lparr>hs_ref := (hs_ref st2)(eh := None)\<rparr>)
                     in st'\<lparr>hs_own := (hs_own st')(n := Some h)\<rparr>)
      in bind_res (verify_handle st3 h) (\<lambda>_. Inr st3))"

definition get_handle :: "hstate \<Rightarrow> handle \<Rightarrow> node option res" where
  "get_handle st h = bind_res (verify_handle st h) (\<lambda>_. Inr (hs_ref st h))"

definition take_handle :: "hstate \<Rightarrow> handle \<Rightarrow> (node option \<times> hstate) res" where
  "take_handle st h =
     bind_res (verify_handle st h) (\<lambda>_.
     bind_res (setReference st h None) (\<lambda>st'. Inr (hs_ref st h, st')))"

text \<open>Move assignment: \<open>setReference(other.ref_)\<close>.\<close>

definition move_handle :: "hstate \<Rightarrow> handle \<Rightarrow> handle \<Rightarrow> hstate res" where
  "move_handle st h other = setReference st h (hs_ref st other)"

definition node_parent :: "hstate \<Rightarrow> node \<Rightarrow> node option" where
  "node_parent st n = map_option handle_parent (hs_own st n)"

definition delete_node :: "hstate \<Rightarrow> node \<Rightarrow> hstate" where
  "delete_node st n = st\<lparr>hs_dead := n # hs_dead st\<rparr>"

definition replaceUseWith :: "hstate \<Rightarrow> node \<Rightarrow> node option \<Rightarrow> hstate res" where
  "replaceUseWith st e other =
     (case hs_own st e of
        None \<Rightarrow> Inl (UB ''user_ is null'')
      | Some user \<Rightarrow> bind_res (setReference st user other) (\<lambda>st'. Inr (delete_node st' e)))"

section \<open>Editing the body of a scope\<close>

definition set_size :: "hstate \<Rightarrow> node \<Rightarrow> nat \<Rightarrow> hstate" where
  "set_size st s n = st\<lparr>hs_size := (hs_size st)(s := n)\<rparr>"

text \<open>\<open>emplace_back\<close>: a new handle at the end.\<close>

definition addStmt :: "hstate \<Rightarrow> node \<Rightarrow> node option \<Rightarrow> hstate res" where
  "addStmt st s n =
     bind_res (setReference st (Slot s (hs_size st s)) n)
       (\<lambda>st'. Inr (set_size st' s (Suc (hs_size st s))))"

fun reset_all :: "hstate \<Rightarrow> handle list \<Rightarrow> hstate res" where
  "reset_all st [] = Inr st"
| "reset_all st (h # hs) = bind_res (setReference st h None) (\<lambda>st'. reset_all st' hs)"

definition slots :: "hstate \<Rightarrow> node \<Rightarrow> handle list" where
  "slots st s = map (Slot s) [0..<hs_size st s]"

definition clear_scope :: "hstate \<Rightarrow> node \<Rightarrow> hstate res" where
  "clear_scope st s = bind_res (reset_all st (slots st s)) (\<lambda>st'. Inr (set_size st' s 0))"

fun take_all :: "hstate \<Rightarrow> node \<Rightarrow> handle list \<Rightarrow> hstate res" where
  "take_all st s [] = Inr st"
| "take_all st s (h # hs) =
     bind_res (get_handle st h) (\<lambda>stmt.
     bind_res (setReference st h None) (\<lambda>st1.
     bind_res (addStmt st1 s stmt) (\<lambda>st2. take_all st2 s hs)))"

definition takeContent :: "hstate \<Rightarrow> node \<Rightarrow> node \<Rightarrow> hstate res" where
  "takeContent st s other =
     bind_res (require (s \<noteq> other) ''Taking from self'') (\<lambda>_.
     bind_res (take_all st s (slots st other)) (\<lambda>st'. clear_scope st' other))"

text \<open>\<open>removeStmt\<close>: reset the handles of the statement, then \<open>std::remove_if\<close> and \<open>erase\<close>.\<close>

fun reset_matching :: "hstate \<Rightarrow> node \<Rightarrow> handle list \<Rightarrow> hstate res" where
  "reset_matching st n [] = Inr st"
| "reset_matching st n (h # hs) =
     bind_res (get_handle st h) (\<lambda>r.
     bind_res (if r = Some n then setReference st h None else Inr st) (\<lambda>st'.
     reset_matching st' n hs))"

fun remove_null :: "hstate \<Rightarrow> node \<Rightarrow> nat list \<Rightarrow> nat \<Rightarrow> (hstate \<times> nat) res" where
  "remove_null st s [] j = Inr (st, j)"
| "remove_null st s (i # is) j =
     (if hs_ref st (Slot s i) = None then remove_null st s is j
      else if i = j then remove_null st s is (Suc j)
      else bind_res (move_handle st (Slot s j) (Slot s i)) (\<lambda>st'. remove_null st' s is (Suc j)))"

definition removeStmt :: "hstate \<Rightarrow> node \<Rightarrow> node \<Rightarrow> hstate res" where
  "removeStmt st s n =
     bind_res (reset_matching st n (slots st s)) (\<lambda>st1.
     bind_res (remove_null st1 s [0..<hs_size st s] 0) (\<lambda>(st2, j).
     Inr (set_size st2 s j)))"

definition position :: "hstate \<Rightarrow> node \<Rightarrow> node \<Rightarrow> nat option" where
  "position st s n = find (\<lambda>i. hs_ref st (Slot s i) = Some n) [0..<hs_size st s]"

text \<open>
  \<open>emplace\<close> in the middle: the new handle is built in a temporary, the \<open>d\<close> handles from
  position \<open>k\<close> move up by one, last first, and the temporary moves to position \<open>k\<close>.
\<close>

fun shift_up :: "hstate \<Rightarrow> node \<Rightarrow> nat \<Rightarrow> nat \<Rightarrow> hstate res" where
  "shift_up st s k 0 = Inr st"
| "shift_up st s k (Suc d) =
     bind_res (move_handle st (Slot s (Suc (k + d))) (Slot s (k + d))) (\<lambda>st'. shift_up st' s k d)"

definition emplace :: "hstate \<Rightarrow> node \<Rightarrow> nat \<Rightarrow> node \<Rightarrow> hstate res" where
  "emplace st s k n =
     (if k = hs_size st s then addStmt st s (Some n)
      else bind_res (setReference st (Tmp s) (Some n)) (\<lambda>st1.
           bind_res (shift_up st1 s k (hs_size st s - k)) (\<lambda>st2.
           bind_res (move_handle st2 (Slot s k) (Tmp s)) (\<lambda>st3.
           Inr (set_size st3 s (Suc (hs_size st s)))))))"

definition insertBeforeStmt :: "hstate \<Rightarrow> node \<Rightarrow> node \<Rightarrow> node \<Rightarrow> hstate res" where
  "insertBeforeStmt st s n before =
     (case position st s before of
        None \<Rightarrow> Inl (AssertFail ''Can't find the insertion point'')
      | Some k \<Rightarrow> emplace st s k n)"

definition insertAfterStmt :: "hstate \<Rightarrow> node \<Rightarrow> node \<Rightarrow> node \<Rightarrow> hstate res" where
  "insertAfterStmt st s n after =
     (case position st s after of
        None \<Rightarrow> Inl (AssertFail ''Can't find the insertion point'')
      | Some k \<Rightarrow> emplace st s (Suc k) n)"

fun replace_matching :: "hstate \<Rightarrow> node \<Rightarrow> node \<Rightarrow> handle list \<Rightarrow> hstate res" where
  "replace_matching st newS oldS [] = Inr st"
| "replace_matching st newS oldS (h # hs) =
     bind_res (get_handle st h) (\<lambda>r.
     if r \<noteq> Some oldS then replace_matching st newS oldS hs
     else bind_res (setReference st h (Some newS)) (\<lambda>st'.
          replace_matching (delete_node st' oldS) newS oldS hs))"

definition replaceStmt :: "hstate \<Rightarrow> node \<Rightarrow> node \<Rightarrow> node \<Rightarrow> hstate res" where
  "replaceStmt st s newS oldS =
     bind_res (require (node_parent st oldS = Some s) ''Old stmt not in this scope'') (\<lambda>_.
     bind_res (replace_matching st newS oldS (slots st s)) (\<lambda>st'.
     bind_res (require (node_parent st' newS = Some s) ''New stmt not in this scope'') (\<lambda>_.
     Inr st')))"

section \<open>The invariant\<close>

text \<open>A handle points to a node exactly when the node points back to the handle.\<close>

definition consistent :: "hstate \<Rightarrow> bool" where
  "consistent st \<longleftrightarrow> (\<forall>h n. hs_ref st h = Some n \<longleftrightarrow> hs_own st n = Some h)"

text \<open>What setting a reference does to the pointers of all handles: the node is stolen.\<close>

definition moved :: "(handle \<Rightarrow> node option) \<Rightarrow> handle \<Rightarrow> node option \<Rightarrow> handle \<Rightarrow> node option" where
  "moved f h r = (\<lambda>h'. if h' = h then r else if f h' = r then None else f h')"

definition same_rest :: "hstate \<Rightarrow> hstate \<Rightarrow> bool" where
  "same_rest st st' \<longleftrightarrow> hs_size st' = hs_size st \<and> hs_dead st' = hs_dead st"

lemma consistent_inj:
  "consistent st \<Longrightarrow> hs_ref st h = Some n \<Longrightarrow> hs_ref st h' = Some n \<Longrightarrow> h = h'"
  unfolding consistent_def by (metis option.inject)

lemma consistent_set_size [simp]: "consistent (set_size st s n) = consistent st"
  by (simp add: consistent_def set_size_def)

lemma consistent_delete [simp]: "consistent (delete_node st n) = consistent st"
  by (simp add: consistent_def delete_node_def)

lemma set_size_simps [simp]:
  "hs_ref (set_size st s n) = hs_ref st" "hs_size (set_size st s n) = (hs_size st)(s := n)"
  by (simp_all add: set_size_def)

lemma delete_node_simps [simp]:
  "hs_ref (delete_node st n) = hs_ref st" "hs_size (delete_node st n) = hs_size st"
  by (simp_all add: delete_node_def)

lemma verify_consistent [simp]: "consistent st \<Longrightarrow> verify_handle st h = Inr ()"
  by (auto simp: verify_handle_def consistent_def split: option.split)

lemma get_consistent [simp]: "consistent st \<Longrightarrow> get_handle st h = Inr (hs_ref st h)"
  by (simp add: get_handle_def)

lemma setReference_spec:
  assumes "consistent st"
  obtains st' where "setReference st h r = Inr st'" "consistent st'"
    "hs_ref st' = moved (hs_ref st) h r" "same_rest st st'"
proof -
  have A: "hs_ref st h' = Some n \<longleftrightarrow> hs_own st n = Some h'" for h' n
    using assms by (simp add: consistent_def)
  define own where "own = (\<lambda>n. if r = Some n then Some h
    else if hs_ref st h = Some n then None else hs_own st n)"
  define st' where "st' = st\<lparr>hs_ref := moved (hs_ref st) h r, hs_own := own\<rparr>"
  have ref0: "hs_ref st h' \<noteq> None" if "hs_own st n = Some h'" for h' n
    using that A by auto
  have "consistent st'"
    unfolding consistent_def st'_def using A by (auto simp: moved_def own_def)
  moreover have "setReference st h r = Inr st'"
  proof (cases r)
    case None
    then have "moved (hs_ref st) h r = (hs_ref st)(h := None)" by (auto simp: moved_def)
    moreover have "own = (case hs_ref st h of None \<Rightarrow> hs_own st | Some old \<Rightarrow> (hs_own st)(old := None))"
      using None by (auto simp: own_def split: option.split)
    ultimately show ?thesis using None
      by (cases "hs_ref st h") (simp_all add: setReference_def st'_def verify_handle_def)
  next
    case (Some n)
    show ?thesis
    proof (cases "hs_ref st h")
      case None
      with Some show ?thesis
        using A [of _ n] A [of h n] by (cases "hs_own st n")
          (auto simp: setReference_def st'_def verify_handle_def moved_def own_def fun_eq_iff
            intro!: hstate.equality)
    next
      case (Some old)
      then have o: "hs_own st old = Some h" by (simp add: A)
      show ?thesis
      proof (cases "hs_own st n")
        case None
        then have "\<forall>h'. hs_ref st h' \<noteq> Some n" "old \<noteq> n" using A o by auto
        with None \<open>hs_ref st h = Some old\<close> \<open>r = Some n\<close> show ?thesis
          by (auto simp: setReference_def st'_def verify_handle_def moved_def own_def fun_eq_iff
            intro!: hstate.equality)
      next
        case (Some a)
        then have u: "\<forall>h'. hs_ref st h' = Some n \<longleftrightarrow> h' = a" using A by auto
        show ?thesis
        proof (cases "a = h")
          case True
          then have "old = n" using u [rule_format, of h] \<open>hs_ref st h = Some old\<close> by simp
          with True u \<open>hs_ref st h = Some old\<close>
          have "hs_ref st h = Some n" "\<forall>h'. h' \<noteq> h \<longrightarrow> hs_ref st h' \<noteq> Some n" by simp_all
          with \<open>r = Some n\<close> show ?thesis
            by (auto simp: setReference_def st'_def verify_handle_def moved_def own_def fun_eq_iff
              intro!: hstate.equality)
        next
          case False
          then have "old \<noteq> n" using u \<open>hs_ref st h = Some old\<close> by auto
          with False u Some \<open>hs_ref st h = Some old\<close> \<open>r = Some n\<close> show ?thesis
            by (auto simp: setReference_def st'_def verify_handle_def moved_def own_def fun_eq_iff
              intro!: hstate.equality)
        qed
      qed
    qed
  qed
  ultimately show ?thesis using that by (simp add: st'_def same_rest_def)
qed

section \<open>Operations on the body are list operations\<close>

text \<open>
  The statements of a scope, in order. \<open>tidy\<close>: the slots of every scope hold a statement up to its
  size and nothing behind it, and no temporary is alive.
\<close>

definition content :: "hstate \<Rightarrow> node \<Rightarrow> node option list" where
  "content st s = map (hs_ref st) (slots st s)"

definition tidy :: "hstate \<Rightarrow> bool" where
  "tidy st \<longleftrightarrow>
     (\<forall>s i. hs_size st s \<le> i \<longrightarrow> hs_ref st (Slot s i) = None) \<and> (\<forall>s. hs_ref st (Tmp s) = None)"

lemma content_length [simp]: "length (content st s) = hs_size st s"
  by (simp add: content_def slots_def)

lemma content_nth: "i < hs_size st s \<Longrightarrow> content st s ! i = hs_ref st (Slot s i)"
  by (simp add: content_def slots_def)

lemma addStmt_spec:
  assumes "consistent st" "tidy st"
  obtains st' where "addStmt st s (Some n) = Inr st'" "consistent st'"
    "hs_ref st' = moved (hs_ref st) (Slot s (hs_size st s)) (Some n)"
    "hs_size st' = (hs_size st)(s := Suc (hs_size st s))" "tidy st'"
proof -
  obtain st1 where st1: "setReference st (Slot s (hs_size st s)) (Some n) = Inr st1" "consistent st1"
    "hs_ref st1 = moved (hs_ref st) (Slot s (hs_size st s)) (Some n)" "same_rest st st1"
    using setReference_spec [OF assms(1)] .
  show ?thesis
    by (rule that [of "set_size st1 s (Suc (hs_size st s))"])
      (use st1 assms(2) in \<open>auto simp: addStmt_def same_rest_def tidy_def moved_def\<close>)
qed

text \<open>Adding a statement that no scope of the program holds appends it.\<close>

lemma addStmt_content:
  assumes "consistent st" "tidy st" "hs_own st n = None"
  shows "\<exists>st'. addStmt st s (Some n) = Inr st' \<and> consistent st' \<and> tidy st'
      \<and> content st' s = content st s @ [Some n] \<and> (\<forall>s'. s' \<noteq> s \<longrightarrow> content st' s' = content st s')"
proof -
  obtain st' where a: "addStmt st s (Some n) = Inr st'" "consistent st'"
    "hs_ref st' = moved (hs_ref st) (Slot s (hs_size st s)) (Some n)"
    "hs_size st' = (hs_size st)(s := Suc (hs_size st s))" "tidy st'"
    using addStmt_spec [OF assms(1,2)] .
  have "hs_ref st h \<noteq> Some n" for h using assms(1,3) by (auto simp: consistent_def)
  with a(3) have r: "hs_ref st' = (hs_ref st)(Slot s (hs_size st s) := Some n)"
    by (auto simp: moved_def)
  show ?thesis using a(1,2,4,5) r by (intro exI [of _ st']) (auto simp: content_def slots_def)
qed

text \<open>The positions \<open>k\<close> to \<open>k + d - 1\<close> moved up by one; position \<open>k\<close> is empty if any moved.\<close>

definition shifted :: "node \<Rightarrow> nat \<Rightarrow> nat \<Rightarrow> (handle \<Rightarrow> node option) \<Rightarrow> (handle \<Rightarrow> node option) \<Rightarrow> bool" where
  "shifted s k d f f' \<longleftrightarrow>
     (\<forall>i. k < i \<longrightarrow> i \<le> k + d \<longrightarrow> f' (Slot s i) = f (Slot s (i - 1)))
     \<and> (0 < d \<longrightarrow> f' (Slot s k) = None)
     \<and> (\<forall>h. (\<forall>i. k \<le> i \<longrightarrow> i \<le> k + d \<longrightarrow> h \<noteq> Slot s i) \<longrightarrow> f' h = f h)"

lemma shiftedD:
  assumes "shifted s k d f f'"
  shows "k < i \<Longrightarrow> i \<le> k + d \<Longrightarrow> f' (Slot s i) = f (Slot s (i - 1))"
    and "0 < d \<Longrightarrow> f' (Slot s k) = None"
    and "(\<And>i. k \<le> i \<Longrightarrow> i \<le> k + d \<Longrightarrow> h \<noteq> Slot s i) \<Longrightarrow> f' h = f h"
  using assms by (simp_all add: shifted_def)

lemma shift_up_spec:
  "consistent st \<Longrightarrow> \<exists>st'. shift_up st s k d = Inr st' \<and> consistent st' \<and> same_rest st st'
     \<and> shifted s k d (hs_ref st) (hs_ref st')"
proof (induction d arbitrary: st)
  case 0
  then show ?case by (auto simp: same_rest_def shifted_def)
next
  case (Suc d)
  obtain st1 where st1: "setReference st (Slot s (Suc (k + d))) (hs_ref st (Slot s (k + d))) = Inr st1"
    "consistent st1"
    "hs_ref st1 = moved (hs_ref st) (Slot s (Suc (k + d))) (hs_ref st (Slot s (k + d)))"
    "same_rest st st1"
    using setReference_spec [OF Suc.prems] .
  have other: "hs_ref st1 h = hs_ref st h" if "h \<noteq> Slot s (Suc (k + d))" "h \<noteq> Slot s (k + d)" for h
  proof (cases "hs_ref st h")
    case None
    then show ?thesis using that st1(3) by (simp add: moved_def)
  next
    case (Some n)
    then have "hs_ref st (Slot s (k + d)) \<noteq> Some n" using consistent_inj [OF Suc.prems] that(2) by blast
    then show ?thesis using that st1(3) Some by (simp add: moved_def)
  qed
  have top: "hs_ref st1 (Slot s (k + d)) = None"
    "hs_ref st1 (Slot s (Suc (k + d))) = hs_ref st (Slot s (k + d))"
    using st1(3) by (auto simp: moved_def)
  from Suc.IH [OF st1(2)] obtain st2 where st2: "shift_up st1 s k d = Inr st2" "consistent st2"
    "same_rest st1 st2" "shifted s k d (hs_ref st1) (hs_ref st2)" by blast
  note sh = shiftedD [OF st2(4)]
  have up: "hs_ref st2 (Slot s (Suc (k + d))) = hs_ref st (Slot s (k + d))"
    using sh(3) [of "Slot s (Suc (k + d))"] top by simp
  have mid: "hs_ref st2 (Slot s i) = hs_ref st (Slot s (i - 1))" if "k < i" "i \<le> k + d" for i
    using sh(1) [OF that] other [of "Slot s (i - 1)"] that by simp
  have low: "hs_ref st2 (Slot s k) = None"
    using st2(1) top sh(2) by (cases d) simp_all
  have rest: "hs_ref st2 h = hs_ref st h" if "\<And>i. k \<le> i \<Longrightarrow> i \<le> k + Suc d \<Longrightarrow> h \<noteq> Slot s i" for h
    using sh(3) [of h] other [of h] that by simp
  have "shifted s k (Suc d) (hs_ref st) (hs_ref st2)"
    using mid up low rest by (auto simp: shifted_def le_Suc_eq)
  then show ?case using st1(1) st2(1-3) st1(4)
    by (intro exI [of _ st2]) (simp add: move_handle_def same_rest_def)
qed

lemma emplace_spec:
  assumes "consistent st" "tidy st" "hs_own st n = None" "k \<le> hs_size st s"
  shows "\<exists>st'. emplace st s k n = Inr st' \<and> consistent st' \<and> tidy st'
      \<and> content st' s = take k (content st s) @ Some n # drop k (content st s)
      \<and> (\<forall>s'. s' \<noteq> s \<longrightarrow> content st' s' = content st s')"
proof (cases "k = hs_size st s")
  case True
  with addStmt_content [OF assms(1-3), of s] show ?thesis by (auto simp: emplace_def)
next
  case False
  let ?m = "hs_size st s"
  have free: "hs_ref st h \<noteq> Some n" for h using assms(1,3) by (auto simp: consistent_def)
  obtain st1 where st1: "setReference st (Tmp s) (Some n) = Inr st1" "consistent st1"
    "hs_ref st1 = moved (hs_ref st) (Tmp s) (Some n)" "same_rest st st1"
    using setReference_spec [OF assms(1)] .
  have r1: "hs_ref st1 = (hs_ref st)(Tmp s := Some n)" using st1(3) free by (auto simp: moved_def)
  have km: "k + (?m - k) = ?m" "0 < ?m - k" using False assms(4) by simp_all
  from shift_up_spec [OF st1(2), of s k "?m - k"] obtain st2 where
    st2: "shift_up st1 s k (?m - k) = Inr st2" "consistent st2" "same_rest st1 st2"
    "shifted s k (?m - k) (hs_ref st1) (hs_ref st2)" by blast
  note sh = shiftedD [OF st2(4), unfolded km(1)]
  have tmp: "hs_ref st2 (Tmp s) = Some n" using sh(3) [of "Tmp s"] r1 by simp
  obtain st3 where st3: "setReference st2 (Slot s k) (Some n) = Inr st3" "consistent st3"
    "hs_ref st3 = moved (hs_ref st2) (Slot s k) (Some n)" "same_rest st2 st3"
    using setReference_spec [OF st2(2)] .
  have r3: "hs_ref st3 = (hs_ref st2)(Slot s k := Some n, Tmp s := None)"
  proof -
    have "hs_ref st2 h = Some n \<longleftrightarrow> h = Tmp s" for h
      using tmp consistent_inj [OF st2(2) tmp] by blast
    then show ?thesis using st3(3) by (simp add: moved_def fun_eq_iff)
  qed
  let ?st = "set_size st3 s (Suc ?m)"
  have sz: "hs_size ?st = (hs_size st)(s := Suc ?m)"
    using st1(4) st2(3) st3(4) by (simp add: same_rest_def)
  have "emplace st s k n = Inr ?st"
    using False st1(1) st2(1) st3(1) tmp by (simp add: emplace_def move_handle_def)
  moreover have "tidy ?st"
    using assms(2,4) sz r3 r1 sh(3) by (auto simp: tidy_def)
  moreover have "content ?st s' = content st s'" if "s' \<noteq> s" for s'
    using that sz r3 r1 sh(3) by (auto simp: content_def slots_def)
  moreover have "content ?st s = take k (content st s) @ Some n # drop k (content st s)"
  proof (rule nth_equalityI)
    show "length (content ?st s) = length (take k (content st s) @ Some n # drop k (content st s))"
      using sz assms(4) by simp
    fix i assume "i < length (content ?st s)"
    then have i: "i < Suc ?m" using sz by simp
    have L: "content ?st s ! i = hs_ref st3 (Slot s i)" using i sz by (simp add: content_nth)
    consider "i < k" | "i = k" | "k < i" by linarith
    then show "content ?st s ! i = (take k (content st s) @ Some n # drop k (content st s)) ! i"
    proof cases
      case 1
      then show ?thesis using L r3 r1 sh(3) [of "Slot s i"] assms(4)
        by (simp add: nth_append content_nth)
    next
      case 2
      then show ?thesis using L r3 assms(4) by (simp add: nth_append)
    next
      case 3
      then have "hs_ref st3 (Slot s i) = hs_ref st (Slot s (i - 1))" using r3 r1 sh(1) i by simp
      moreover obtain x where "i = Suc (k + x)" using 3 less_imp_Suc_add by blast
      ultimately show ?thesis using L i assms(4)
        by (simp add: nth_append content_nth)
    qed
  qed
  ultimately show ?thesis using st3(2) by (intro exI [of _ ?st]) simp
qed

lemma position_Some:
  "position st s n = Some k \<Longrightarrow> k < hs_size st s \<and> content st s ! k = Some n"
  by (auto simp: position_def find_Some_iff content_nth)

lemma position_exists: "Some n \<in> set (content st s) \<Longrightarrow> \<exists>k. position st s n = Some k"
  using find_None_iff [of "\<lambda>i. hs_ref st (Slot s i) = Some n" "[0..<hs_size st s]"]
  by (cases "position st s n") (auto simp: position_def content_def slots_def)


lemma no_owner_not_in: "consistent st \<Longrightarrow> hs_own st n = None \<Longrightarrow> hs_ref st h \<noteq> Some n"
  by (auto simp: consistent_def)

text \<open>\<open>reset_all\<close> and the first loop of \<open>removeStmt\<close>.\<close>

lemma reset_all_spec:
  "consistent st \<Longrightarrow> \<exists>st'. reset_all st hs = Inr st' \<and> consistent st' \<and> same_rest st st'
     \<and> hs_ref st' = (\<lambda>h. if h \<in> set hs then None else hs_ref st h)"
proof (induction hs arbitrary: st)
  case Nil
  then show ?case by (simp add: same_rest_def)
next
  case (Cons x hs)
  obtain st1 where st1: "setReference st x None = Inr st1" "consistent st1"
    "hs_ref st1 = moved (hs_ref st) x None" "same_rest st st1"
    using setReference_spec [OF Cons.prems] .
  from Cons.IH [OF st1(2)] obtain st2 where "reset_all st1 hs = Inr st2" "consistent st2"
    "same_rest st1 st2" "hs_ref st2 = (\<lambda>h. if h \<in> set hs then None else hs_ref st1 h)" by blast
  with st1 show ?case
    by (intro exI [of _ st2]) (auto simp: same_rest_def moved_def fun_eq_iff)
qed

lemma reset_matching_spec:
  "consistent st \<Longrightarrow> \<exists>st'. reset_matching st n hs = Inr st' \<and> consistent st' \<and> same_rest st st'
     \<and> hs_ref st' = (\<lambda>h. if h \<in> set hs \<and> hs_ref st h = Some n then None else hs_ref st h)"
proof (induction hs arbitrary: st)
  case Nil
  then show ?case by (simp add: same_rest_def)
next
  case (Cons x hs)
  obtain s1 where s1: "setReference st x None = Inr s1" "consistent s1"
    "hs_ref s1 = moved (hs_ref st) x None" "same_rest st s1"
    using setReference_spec [OF Cons.prems] .
  define st1 where "st1 = (if hs_ref st x = Some n then s1 else st)"
  have one: "(if hs_ref st x = Some n then setReference st x None else Inr st) = Inr st1"
    "consistent st1" "same_rest st st1"
    "hs_ref st1 = (\<lambda>h. if h = x \<and> hs_ref st h = Some n then None else hs_ref st h)"
    using s1 Cons.prems by (auto simp: st1_def same_rest_def moved_def fun_eq_iff)
  from Cons.IH [OF one(2)] obtain st2 where "reset_matching st1 n hs = Inr st2" "consistent st2"
    "same_rest st1 st2"
    "hs_ref st2 = (\<lambda>h. if h \<in> set hs \<and> hs_ref st1 h = Some n then None else hs_ref st1 h)" by blast
  with one Cons.prems show ?case
    by (intro exI [of _ st2]) (auto simp: same_rest_def fun_eq_iff)
qed

text \<open>
  The compaction keeps the statements that are left, in order. \<open>j\<close> counts the handles kept so
  far; the slots from \<open>i\<close> on have not been looked at, those between \<open>j\<close> and \<open>i\<close> are empty.
\<close>

definition kept :: "(handle \<Rightarrow> node option) \<Rightarrow> node \<Rightarrow> nat list \<Rightarrow> node option list" where
  "kept f s is = filter (\<lambda>x. x \<noteq> None) (map (\<lambda>i. f (Slot s i)) is)"

definition compacted :: "node \<Rightarrow> nat \<Rightarrow> nat \<Rightarrow> nat \<Rightarrow> nat \<Rightarrow> (handle \<Rightarrow> node option) \<Rightarrow>
    (handle \<Rightarrow> node option) \<Rightarrow> bool" where
  "compacted s i j m j' f f' \<longleftrightarrow>
     j' = j + length (kept f s [i..<m])
     \<and> map (\<lambda>k. f' (Slot s k)) [0..<m] =
         map (\<lambda>k. f (Slot s k)) [0..<j] @ kept f s [i..<m] @ replicate (m - j') None
     \<and> (\<forall>h. (\<forall>k < m. h \<noteq> Slot s k) \<longrightarrow> f' h = f h)"

lemma remove_null_spec:
  assumes "consistent st" "j \<le> i" "i \<le> m" "\<And>k. j \<le> k \<Longrightarrow> k < i \<Longrightarrow> hs_ref st (Slot s k) = None"
  shows "\<exists>st' j'. remove_null st s [i..<m] j = Inr (st', j') \<and> consistent st' \<and> same_rest st st'
     \<and> compacted s i j m j' (hs_ref st) (hs_ref st')"
  using assms
proof (induction "m - i" arbitrary: st i j)
  case 0
  then have "i = m" by simp
  moreover have "map (\<lambda>k. hs_ref st (Slot s k)) [j..<m] = replicate (m - j) None"
    by (rule nth_equalityI) (use 0 \<open>i = m\<close> in auto)
  moreover have "[0..<m] = [0..<j] @ [j..<m]" using 0 \<open>i = m\<close> upt_add_eq_append [of 0 j "m - j"] by simp
  ultimately show ?case using 0 by (simp add: same_rest_def compacted_def kept_def)
next
  case (Suc d)
  then have im: "i < m" "d = m - Suc i" and up: "[i..<m] = i # [Suc i..<m]"
    by (simp_all add: upt_conv_Cons)
  show ?case
  proof (cases "hs_ref st (Slot s i)")
    case None
    have "\<exists>st' j'. remove_null st s [Suc i..<m] j = Inr (st', j') \<and> consistent st' \<and> same_rest st st'
       \<and> compacted s (Suc i) j m j' (hs_ref st) (hs_ref st')"
      by (rule Suc.hyps(1)) (use im Suc.prems None in \<open>auto simp: less_Suc_eq\<close>)
    then show ?thesis using None up by (auto simp: compacted_def kept_def)
  next
    case (Some n)
    show ?thesis
    proof (cases "i = j")
      case True
      have "\<exists>st' j'. remove_null st s [Suc i..<m] (Suc j) = Inr (st', j') \<and> consistent st'
         \<and> same_rest st st' \<and> compacted s (Suc i) (Suc j) m j' (hs_ref st) (hs_ref st')"
        by (rule Suc.hyps(1)) (use im Suc.prems True in auto)
      then obtain st' j' where R: "remove_null st s [Suc i..<m] (Suc j) = Inr (st', j')"
        "consistent st'" "same_rest st st'" "compacted s (Suc i) (Suc j) m j' (hs_ref st) (hs_ref st')"
        by blast
      have K: "kept (hs_ref st) s [i..<m] = Some n # kept (hs_ref st) s [Suc i..<m]"
        using up Some by (simp add: kept_def)
      have "compacted s i j m j' (hs_ref st) (hs_ref st')"
        using R(4) Some True unfolding compacted_def K by simp
      with R True Some up show ?thesis by auto
    next
      case False
      then have ji: "j < i" using Suc.prems(2) by simp
      obtain s1 where s1: "setReference st (Slot s j) (Some n) = Inr s1" "consistent s1"
        "hs_ref s1 = moved (hs_ref st) (Slot s j) (Some n)" "same_rest st s1"
        using setReference_spec [OF Suc.prems(1)] .
      have "hs_ref st h = Some n \<longleftrightarrow> h = Slot s i" for h
        using Some consistent_inj [OF Suc.prems(1) Some] by blast
      then have r1: "hs_ref s1 = (hs_ref st)(Slot s j := Some n, Slot s i := None)"
        using s1(3) ji by (auto simp: moved_def fun_eq_iff)
      have "\<exists>st' j'. remove_null s1 s [Suc i..<m] (Suc j) = Inr (st', j') \<and> consistent st'
         \<and> same_rest s1 st' \<and> compacted s (Suc i) (Suc j) m j' (hs_ref s1) (hs_ref st')"
        by (rule Suc.hyps(1)) (use im Suc.prems ji s1(2) r1 in \<open>auto simp: less_Suc_eq\<close>)
      then obtain st' j' where R: "remove_null s1 s [Suc i..<m] (Suc j) = Inr (st', j')"
        "consistent st'" "same_rest s1 st'" "compacted s (Suc i) (Suc j) m j' (hs_ref s1) (hs_ref st')"
        by blast
      have K: "kept (hs_ref st) s [i..<m] = Some n # kept (hs_ref s1) s [Suc i..<m]"
        using up Some ji r1 by (simp add: kept_def) (rule arg_cong [of _ _ "filter _"], simp)
      have "compacted s i j m j' (hs_ref st) (hs_ref st')"
        using R(4) r1 ji im unfolding compacted_def K by simp
      with R s1 Some ji up show ?thesis by (auto simp: move_handle_def same_rest_def)
    qed
  qed
qed

text \<open>The operations on bodies, as operations on lists.\<close>

lemma removeStmt_spec:
  assumes "consistent st" "tidy st"
  shows "\<exists>st'. removeStmt st s n = Inr st' \<and> consistent st' \<and> tidy st'
      \<and> content st' s = filter (\<lambda>x. x \<noteq> None \<and> x \<noteq> Some n) (content st s)
      \<and> (\<forall>s'. s' \<noteq> s \<longrightarrow> content st' s' = content st s')"
proof -
  let ?m = "hs_size st s"
  let ?keep = "filter (\<lambda>x. x \<noteq> None \<and> x \<noteq> Some n) (content st s)"
  obtain st1 where st1: "reset_matching st n (slots st s) = Inr st1" "consistent st1" "same_rest st st1"
    "hs_ref st1 = (\<lambda>h. if h \<in> set (slots st s) \<and> hs_ref st h = Some n then None else hs_ref st h)"
    using reset_matching_spec [OF assms(1)] by blast
  obtain st2 j where R: "remove_null st1 s [0..<?m] 0 = Inr (st2, j)" "consistent st2"
    "same_rest st1 st2" "compacted s 0 0 ?m j (hs_ref st1) (hs_ref st2)"
    using remove_null_spec [OF st1(2), of 0 0 ?m s] by auto
  have "map (\<lambda>i. hs_ref st1 (Slot s i)) [0..<?m] =
      map (\<lambda>x. if x = Some n then None else x) (content st s)"
    using st1(4) by (auto simp: content_def slots_def)
  moreover have "filter (\<lambda>x. x \<noteq> None) (map (\<lambda>x. if x = Some n then None else x) xs) =
      filter (\<lambda>x. x \<noteq> None \<and> x \<noteq> Some n) xs" for xs
    by (induction xs) auto
  ultimately have K: "kept (hs_ref st1) s [0..<?m] = ?keep"
    by (simp add: kept_def)
  have j: "j = length (?keep)"
    and C: "map (\<lambda>k. hs_ref st2 (Slot s k)) [0..<?m] =
      ?keep @ replicate (?m - j) None"
    and out: "\<And>h. (\<And>k. k < ?m \<Longrightarrow> h \<noteq> Slot s k) \<Longrightarrow> hs_ref st2 h = hs_ref st1 h"
    using R(4) K by (auto simp: compacted_def)
  have jm: "j \<le> ?m" using j length_filter_le [of _ "content st s"] by simp
  let ?st = "set_size st2 s j"
  have sz2: "hs_size st2 = hs_size st" using st1(3) R(3) by (simp add: same_rest_def)
  then have sz: "hs_size ?st = (hs_size st)(s := j)" by simp
  have nth: "hs_ref st2 (Slot s k) = (?keep @ replicate (?m - j) None) ! k"
    if "k < ?m" for k
    using arg_cong [OF C, of "\<lambda>xs. xs ! k"] that by simp
  have "content ?st s = ?keep"
    by (rule nth_equalityI) (use sz j jm nth in \<open>auto simp: content_nth nth_append\<close>)
  moreover have "hs_ref st2 (Slot s' k) = hs_ref st (Slot s' k)" if "s' \<noteq> s" for s' k
    using out [of "Slot s' k"] that st1(4) by (auto simp: slots_def)
  moreover have "tidy ?st"
    unfolding tidy_def
  proof (intro conjI allI impI)
    fix s' k assume k: "hs_size ?st s' \<le> k"
    show "hs_ref ?st (Slot s' k) = None"
    proof (cases "s' = s \<and> k < ?m")
      case True
      with k sz nth [of k] j show ?thesis by (simp add: nth_append diff_less_mono)
    next
      case False
      then have "hs_ref st2 (Slot s' k) = hs_ref st1 (Slot s' k)" by (intro out) auto
      then show ?thesis using False k sz2 assms(2) st1(4)
        by (cases "s' = s") (auto simp: tidy_def)
    qed
  next
    fix s' show "hs_ref ?st (Tmp s') = None"
      using out [of "Tmp s'"] st1(4) assms(2) by (auto simp: tidy_def)
  qed
  moreover have "removeStmt st s n = Inr ?st" using st1(1) R(1) by (simp add: removeStmt_def)
  ultimately show ?thesis using R(2) sz by (intro exI [of _ ?st]) (auto simp: content_def slots_def)
qed

lemma clear_scope_spec:
  assumes "consistent st" "tidy st"
  shows "\<exists>st'. clear_scope st s = Inr st' \<and> consistent st' \<and> tidy st' \<and> content st' s = []
      \<and> (\<forall>s'. s' \<noteq> s \<longrightarrow> content st' s' = content st s')"
proof -
  obtain st1 where st1: "reset_all st (slots st s) = Inr st1" "consistent st1" "same_rest st st1"
    "hs_ref st1 = (\<lambda>h. if h \<in> set (slots st s) then None else hs_ref st h)"
    using reset_all_spec [OF assms(1)] by blast
  show ?thesis
    by (rule exI [of _ "set_size st1 s 0"])
      (use st1 assms(2) in \<open>auto simp: clear_scope_def content_def slots_def tidy_def same_rest_def
        image_iff not_le\<close>)
qed

lemma position_split:
  assumes "content st s = xs @ Some n # ys" "Some n \<notin> set xs"
  shows "position st s n = Some (length xs)" "length xs < hs_size st s"
proof -
  have len: "hs_size st s = length xs + Suc (length ys)"
    using arg_cong [OF assms(1), of length] by simp
  then show l: "length xs < hs_size st s" by simp
  have at: "hs_ref st (Slot s i) = (xs @ Some n # ys) ! i" if "i < hs_size st s" for i
    using content_nth [OF that] assms(1) by simp
  have "hs_ref st (Slot s j) \<noteq> Some n" if "j < length xs" for j
    using at [of j] that l assms(2) nth_mem [OF that] by (metis nth_append order.strict_trans)
  then show "position st s n = Some (length xs)"
    unfolding position_def find_Some_iff using l at [OF l]
    by (intro exI [of _ "length xs"]) auto
qed

lemma insertBeforeStmt_spec:
  assumes "consistent st" "tidy st" "hs_own st n = None" "content st s = xs @ Some before # ys"
    "Some before \<notin> set xs"
  shows "\<exists>st'. insertBeforeStmt st s n before = Inr st' \<and> consistent st' \<and> tidy st'
      \<and> content st' s = xs @ Some n # Some before # ys
      \<and> (\<forall>s'. s' \<noteq> s \<longrightarrow> content st' s' = content st s')"
  using position_split [OF assms(4,5)] emplace_spec [OF assms(1-3), of "length xs" s] assms(4)
  by (simp add: insertBeforeStmt_def)

lemma insertAfterStmt_spec:
  assumes "consistent st" "tidy st" "hs_own st n = None" "content st s = xs @ Some after # ys"
    "Some after \<notin> set xs"
  shows "\<exists>st'. insertAfterStmt st s n after = Inr st' \<and> consistent st' \<and> tidy st'
      \<and> content st' s = xs @ Some after # Some n # ys
      \<and> (\<forall>s'. s' \<noteq> s \<longrightarrow> content st' s' = content st s')"
  using position_split [OF assms(4,5)] emplace_spec [OF assms(1-3), of "Suc (length xs)" s] assms(4)
  by (simp add: insertAfterStmt_def)

lemma take_all_spec:
  "consistent st \<Longrightarrow> tidy st \<Longrightarrow> s \<noteq> other \<Longrightarrow> m \<le> hs_size st other \<Longrightarrow>
     (\<And>i. i < hs_size st other \<Longrightarrow> hs_ref st (Slot other i) = None \<longleftrightarrow> i < k) \<Longrightarrow>
     \<exists>st'. take_all st s (map (Slot other) [k..<m]) = Inr st' \<and> consistent st' \<and> tidy st'
       \<and> content st' s = content st s @ map (\<lambda>i. hs_ref st (Slot other i)) [k..<m]
       \<and> hs_size st' other = hs_size st other
       \<and> (\<forall>s'. s' \<noteq> s \<longrightarrow> s' \<noteq> other \<longrightarrow> content st' s' = content st s')"
proof (induction "m - k" arbitrary: st k)
  case 0
  then show ?case by simp
next
  case (Suc d)
  let ?h = "Slot other k"
  have up: "[k..<m] = k # [Suc k..<m]" using Suc.hyps(2) by (simp add: upt_conv_Cons)
  have km: "k < hs_size st other" using Suc.hyps(2) Suc.prems(4) by simp
  then obtain n where n: "hs_ref st ?h = Some n" using Suc.prems(5) [of k] by auto
  have only: "hs_ref st h = Some n \<longleftrightarrow> h = ?h" for h
    using n consistent_inj [OF Suc.prems(1) n] by blast
  obtain st1 where st1: "setReference st ?h None = Inr st1" "consistent st1"
    "hs_ref st1 = moved (hs_ref st) ?h None" "same_rest st st1"
    using setReference_spec [OF Suc.prems(1)] .
  have r1: "hs_ref st1 = (hs_ref st)(?h := None)" using st1(3) by (auto simp: moved_def)
  have free: "hs_own st1 n = None"
    using st1(2) r1 only unfolding consistent_def
    by (metis fun_upd_apply not_None_eq option.distinct(1))
  have tidy1: "tidy st1" using Suc.prems(2) r1 st1(4) by (auto simp: tidy_def same_rest_def)
  obtain st2 where a: "addStmt st1 s (Some n) = Inr st2" "consistent st2" "tidy st2"
    "content st2 s = content st1 s @ [Some n]" "\<And>s'. s' \<noteq> s \<Longrightarrow> content st2 s' = content st1 s'"
    using addStmt_content [OF st1(2) tidy1 free, of s] by blast
  have sz2: "hs_size st2 other = hs_size st other"
    using a(5) [of other] Suc.prems(3) st1(4) content_length by (metis same_rest_def)
  have c1: "content st1 s' = content st s'" if "s' \<noteq> other" for s'
    using that r1 st1(4) by (auto simp: content_def slots_def same_rest_def)
  have r2: "hs_ref st2 (Slot other i) = hs_ref st1 (Slot other i)" if "i < hs_size st other" for i
    using a(5) [of other] Suc.prems(3) that sz2 st1(4)
    by (metis content_nth same_rest_def)
  have "\<exists>st'. take_all st2 s (map (Slot other) [Suc k..<m]) = Inr st' \<and> consistent st' \<and> tidy st'
       \<and> content st' s = content st2 s @ map (\<lambda>i. hs_ref st2 (Slot other i)) [Suc k..<m]
       \<and> hs_size st' other = hs_size st2 other
       \<and> (\<forall>s'. s' \<noteq> s \<longrightarrow> s' \<noteq> other \<longrightarrow> content st' s' = content st2 s')"
  proof (rule Suc.hyps(1))
    show "d = m - Suc k" using Suc.hyps(2) by simp
    show "hs_ref st2 (Slot other i) = None \<longleftrightarrow> i < Suc k" if "i < hs_size st2 other" for i
      using that sz2 r2 r1 Suc.prems(5) [of i] by (auto simp: less_Suc_eq)
  qed (use a Suc.prems sz2 in auto)
  moreover have "map (\<lambda>i. hs_ref st2 (Slot other i)) [Suc k..<m] =
      map (\<lambda>i. hs_ref st (Slot other i)) [Suc k..<m]"
    using r2 r1 Suc.prems(4) by auto
  ultimately show ?case
    using up n st1(1) a c1 Suc.prems(1,3) sz2 by (auto simp del: map_eq_conv)
qed

lemma takeContent_spec:
  assumes "consistent st" "tidy st" "s \<noteq> other" "None \<notin> set (content st other)"
  shows "\<exists>st'. takeContent st s other = Inr st' \<and> consistent st' \<and> tidy st'
      \<and> content st' s = content st s @ content st other \<and> content st' other = []
      \<and> (\<forall>s'. s' \<noteq> s \<longrightarrow> s' \<noteq> other \<longrightarrow> content st' s' = content st s')"
proof -
  have full: "hs_ref st (Slot other i) = None \<longleftrightarrow> i < 0" if "i < hs_size st other" for i
    using assms(4) that content_nth [OF that] nth_mem [of i "content st other"]
    by (cases "hs_ref st (Slot other i)") auto
  obtain st1 where st1: "take_all st s (slots st other) = Inr st1" "consistent st1" "tidy st1"
    "content st1 s = content st s @ content st other"
    "\<forall>s'. s' \<noteq> s \<longrightarrow> s' \<noteq> other \<longrightarrow> content st1 s' = content st s'"
    using take_all_spec [OF assms(1-3) order.refl full]
    by (auto simp: slots_def content_def [of st other] comp_def simp del: map_eq_conv)
  obtain st2 where st2: "clear_scope st1 other = Inr st2" "consistent st2" "tidy st2"
    "content st2 other = []" "\<forall>s'. s' \<noteq> other \<longrightarrow> content st2 s' = content st1 s'"
    using clear_scope_spec [OF st1(2,3)] by blast
  show ?thesis using st1 st2 assms(3)
    by (intro exI [of _ st2]) (auto simp: takeContent_def bind_require)
qed

section \<open>Reachable states\<close>

lemma setReference_consistent: "setReference st h r = Inr st' \<Longrightarrow> consistent st \<Longrightarrow> consistent st'"
  by (metis setReference_spec sum.inject(2))

lemma addStmt_consistent: "addStmt st s r = Inr st' \<Longrightarrow> consistent st \<Longrightarrow> consistent st'"
  by (auto simp: addStmt_def dest: setReference_consistent)

lemma reset_all_consistent: "reset_all st hs = Inr st' \<Longrightarrow> consistent st \<Longrightarrow> consistent st'"
  by (induction hs arbitrary: st) (auto dest: setReference_consistent)

lemma clear_scope_consistent: "clear_scope st s = Inr st' \<Longrightarrow> consistent st \<Longrightarrow> consistent st'"
  by (auto simp: clear_scope_def dest: reset_all_consistent)

lemma take_all_consistent: "take_all st s hs = Inr st' \<Longrightarrow> consistent st \<Longrightarrow> consistent st'"
  by (induction hs arbitrary: st) (auto dest!: setReference_consistent addStmt_consistent)

lemma takeContent_consistent: "takeContent st s other = Inr st' \<Longrightarrow> consistent st \<Longrightarrow> consistent st'"
  by (auto simp: takeContent_def dest!: take_all_consistent clear_scope_consistent)

lemma reset_matching_consistent:
  "reset_matching st n hs = Inr st' \<Longrightarrow> consistent st \<Longrightarrow> consistent st'"
  using reset_matching_spec [of st n hs] by auto

lemma remove_null_consistent:
  "remove_null st s is j = Inr (st', j') \<Longrightarrow> consistent st \<Longrightarrow> consistent st'"
  by (induction st s "is" j rule: remove_null.induct)
    (auto simp: move_handle_def split: if_splits dest: setReference_consistent)

lemma removeStmt_consistent: "removeStmt st s n = Inr st' \<Longrightarrow> consistent st \<Longrightarrow> consistent st'"
  by (auto simp: removeStmt_def dest!: reset_matching_consistent remove_null_consistent)

lemma shift_up_consistent: "shift_up st s k d = Inr st' \<Longrightarrow> consistent st \<Longrightarrow> consistent st'"
  by (induction d arbitrary: st) (auto simp: move_handle_def dest: setReference_consistent)

lemma emplace_consistent: "emplace st s k n = Inr st' \<Longrightarrow> consistent st \<Longrightarrow> consistent st'"
  by (auto simp: emplace_def move_handle_def split: if_splits
      dest!: addStmt_consistent setReference_consistent shift_up_consistent)

lemma replace_matching_consistent:
  "replace_matching st new old hs = Inr st' \<Longrightarrow> consistent st \<Longrightarrow> consistent st'"
proof (induction hs arbitrary: st)
  case (Cons h hs)
  then show ?case by (cases "hs_ref st h = Some old") (auto dest!: setReference_consistent)
qed simp

text \<open>
  The edits the compiler makes: expression handles are set and taken, statements are taken out of
  their slot, and bodies are edited through the operations of \<open>Scope\<close>.
\<close>

inductive edit :: "hstate \<Rightarrow> hstate \<Rightarrow> bool" where
  edit_set: "setReference st h r = Inr st' \<Longrightarrow> edit st st'"
| edit_take: "take_handle st h = Inr (r, st') \<Longrightarrow> edit st st'"
| edit_replace_use: "replaceUseWith st e r = Inr st' \<Longrightarrow> edit st st'"
| edit_add: "addStmt st s r = Inr st' \<Longrightarrow> edit st st'"
| edit_clear: "clear_scope st s = Inr st' \<Longrightarrow> edit st st'"
| edit_take_content: "takeContent st s other = Inr st' \<Longrightarrow> edit st st'"
| edit_remove: "removeStmt st s n = Inr st' \<Longrightarrow> edit st st'"
| edit_insert_before: "insertBeforeStmt st s n before = Inr st' \<Longrightarrow> edit st st'"
| edit_insert_after: "insertAfterStmt st s n after = Inr st' \<Longrightarrow> edit st st'"
| edit_replace: "replaceStmt st s new old = Inr st' \<Longrightarrow> edit st st'"

inductive_cases edit_elim: "edit st st'"

lemma edit_consistent: "edit st st' \<Longrightarrow> consistent st \<Longrightarrow> consistent st'"
proof (erule edit_elim)
  fix e r assume "replaceUseWith st e r = Inr st'" "consistent st"
  then show "consistent st'"
    by (auto simp: replaceUseWith_def split: option.splits dest: setReference_consistent)
next
  fix s n old assume "replaceStmt st s n old = Inr st'" "consistent st"
  then show "consistent st'" by (auto simp: replaceStmt_def dest: replace_matching_consistent)
qed (auto simp: take_handle_def insertBeforeStmt_def insertAfterStmt_def split: option.splits
      dest: setReference_consistent addStmt_consistent clear_scope_consistent
        takeContent_consistent removeStmt_consistent emplace_consistent)

text \<open>The empty heap: no node has been put anywhere.\<close>

definition hs_init :: hstate where
  "hs_init = \<lparr>hs_ref = \<lambda>h. None, hs_own = \<lambda>n. None, hs_size = \<lambda>s. 0, hs_dead = []\<rparr>"

lemma edits_consistent: "edit\<^sup>*\<^sup>* hs_init st \<Longrightarrow> consistent st"
  by (induction rule: rtranclp_induct) (auto simp: consistent_def hs_init_def dest: edit_consistent)

section \<open>Properties\<close>

text \<open>C11. Whatever sequence of edits built a tree, ownership is unique and symmetric: a handle holds a
  node exactly when the node names that handle as its owner, so no node hangs in two places, and
  \<open>ASTHandle::verify\<close> succeeds on every handle.\<close>

theorem ownership_invariant:
  "edit\<^sup>*\<^sup>* hs_init st \<Longrightarrow>
     (\<forall>h n. hs_ref st h = Some n \<longleftrightarrow> hs_own st n = Some h)
     \<and> (\<forall>h h' n. hs_ref st h = Some n \<longrightarrow> hs_ref st h' = Some n \<longrightarrow> h = h')
     \<and> (\<forall>h. verify_handle st h = Inr ())"
proof -
  assume "edit\<^sup>*\<^sup>* hs_init st"
  then have c: "consistent st" by (rule edits_consistent)
  then show ?thesis using consistent_inj [OF c] by (auto simp: consistent_def [of st])
qed

theorem ownership_invariant_witness:
  "\<exists>st. addStmt hs_init 0 (Some 1) = Inr st \<and> hs_own st 1 = Some (Slot 0 0) \<and> verify_handle st (Slot 0 0) = Inr ()"
proof -
  have "case addStmt hs_init 0 (Some 1) of Inr st \<Rightarrow> hs_ref st (Slot 0 0) = Some 1 | Inl e \<Rightarrow> False"
    by code_simp
  then obtain st where st: "addStmt hs_init 0 (Some 1) = Inr st" "hs_ref st (Slot 0 0) = Some 1"
    by (auto split: sum.splits)
  have "edit\<^sup>*\<^sup>* hs_init st" using edit_add [OF st(1)] by simp
  from ownership_invariant [OF this] st show ?thesis by auto
qed

text \<open>A scope with the statements 1 and 2.\<close>

definition demo_scope :: hstate where
  "demo_scope = \<lparr>hs_ref = (\<lambda>h. if h = Slot 0 0 then Some 1 else if h = Slot 0 1 then Some 2 else None),
     hs_own = (\<lambda>n. if n = 1 then Some (Slot 0 0) else if n = 2 then Some (Slot 0 1) else None),
     hs_size = (\<lambda>s. if s = 0 then 2 else 0), hs_dead = []\<rparr>"

lemma demo_scope_facts:
  "consistent demo_scope" "tidy demo_scope" "content demo_scope 0 = [Some 1, Some 2]" "content demo_scope 7 = []"
  by (auto simp: demo_scope_def consistent_def tidy_def content_def slots_def numeral_2_eq_2 split: if_splits)

text \<open>\<open>insertBeforeStmt\<close> and \<open>insertAfterStmt\<close> insert an unowned statement next to the first
  occurrence of the insertion point, keep the order of all other statements, and change no other
  scope.\<close>

theorem insert_spec:
  assumes "consistent st" "tidy st" "hs_own st n = None" "content st s = xs @ Some x # ys" "Some x \<notin> set xs"
  shows "\<exists>st1 st2. insertBeforeStmt st s n x = Inr st1 \<and> insertAfterStmt st s n x = Inr st2
      \<and> content st1 s = xs @ Some n # Some x # ys \<and> content st2 s = xs @ Some x # Some n # ys
      \<and> (\<forall>s'. s' \<noteq> s \<longrightarrow> content st1 s' = content st s' \<and> content st2 s' = content st s')
      \<and> consistent st1 \<and> tidy st1 \<and> consistent st2 \<and> tidy st2"
  using insertBeforeStmt_spec [OF assms] insertAfterStmt_spec [OF assms] by metis

theorem insert_spec_witness:
  "\<exists>st1 st2. insertBeforeStmt demo_scope 0 5 2 = Inr st1 \<and> insertAfterStmt demo_scope 0 5 2 = Inr st2
     \<and> content st1 0 = [Some 1, Some 5, Some 2] \<and> content st2 0 = [Some 1, Some 2, Some 5]"
proof -
  have "hs_own demo_scope 5 = None" by (simp add: demo_scope_def)
  from insert_spec [OF demo_scope_facts(1,2) this, of 0 "[Some 1]" 2 "[]"]
  show ?thesis using demo_scope_facts(3) by auto
qed

text \<open>\<open>removeStmt\<close> removes exactly the given statement from its scope, keeps the order of the
  rest, and changes no other scope; a scope that does not hold the statement is unchanged.\<close>

theorem remove_spec:
  "consistent st \<Longrightarrow> tidy st \<Longrightarrow> None \<notin> set (content st s) \<Longrightarrow>
     \<exists>st'. removeStmt st s n = Inr st' \<and> content st' s = filter (\<lambda>x. x \<noteq> Some n) (content st s)
       \<and> (\<forall>s'. s' \<noteq> s \<longrightarrow> content st' s' = content st s') \<and> consistent st' \<and> tidy st'"
proof -
  assume a: "consistent st" "tidy st" "None \<notin> set (content st s)"
  have "filter (\<lambda>x. x \<noteq> None \<and> x \<noteq> Some n) (content st s) = filter (\<lambda>x. x \<noteq> Some n) (content st s)"
    using a(3) by (intro filter_cong refl) (case_tac x, simp_all)
  with removeStmt_spec [OF a(1,2), of s n] show ?thesis by auto
qed

theorem remove_spec_witness: "\<exists>st'. removeStmt demo_scope 0 1 = Inr st' \<and> content st' 0 = [Some 2]"
  using remove_spec [OF demo_scope_facts(1,2), of 0 1] demo_scope_facts(3) by auto

text \<open>\<open>takeContent\<close> appends the statements of the other scope in their order and leaves that
  scope empty; \<open>clear\<close> empties a scope and no other.\<close>

theorem take_content_spec:
  "consistent st \<Longrightarrow> tidy st \<Longrightarrow> s \<noteq> other \<Longrightarrow> None \<notin> set (content st other) \<Longrightarrow>
     \<exists>st'. takeContent st s other = Inr st' \<and> content st' s = content st s @ content st other
       \<and> content st' other = [] \<and> (\<forall>s'. s' \<noteq> s \<and> s' \<noteq> other \<longrightarrow> content st' s' = content st s')
       \<and> consistent st' \<and> tidy st'"
  using takeContent_spec [of st s other] by blast

theorem take_content_spec_witness:
  "\<exists>st'. takeContent demo_scope 7 0 = Inr st' \<and> content st' 7 = [Some 1, Some 2] \<and> content st' 0 = []"
  using take_content_spec [OF demo_scope_facts(1,2), of 7 0] demo_scope_facts(3,4) by auto

end
