(* ===== verification/Transforms.thy ===== *)
theory Transforms
  imports SemFacts
begin

text \<open>
  The loop transformations of \<open>lib/Transforms/Transforms.cpp\<close>: \<open>tile\<close>, \<open>split\<close>,
  \<open>splitScopes\<close>, \<open>distributeAllLoops\<close>, \<open>sink\<close>, \<open>hoist\<close>, \<open>unrollLoop\<close> and \<open>peelLoop\<close>.

  A transformation is called with a pointer to a loop of a program. It computes the statements
  that take the place of the loop in the body of its parent, from the loop's own body, and the
  program is rebuilt around them: \<open>find_loop\<close> looks the loop up, with the loops around it, and
  \<open>replace_loop\<close> puts the new statements in its place, which is what \<open>insertBeforeStmt\<close>,
  \<open>insertAfterStmt\<close> and \<open>removeStmt\<close> on the parent's body do (theory Handles). The fields of the
  loops are on the heap. A returned null pointer or \<open>false\<close> is \<open>None\<close>.
\<close>

section \<open>Looking a loop up and replacing it\<close>

fun find_loop :: "loop_ptr list \<Rightarrow> loop_ptr \<Rightarrow> stmt list \<Rightarrow> (loop_ptr list \<times> stmt list) option"
  and find_loop_in :: "loop_ptr list \<Rightarrow> loop_ptr \<Rightarrow> stmt \<Rightarrow> (loop_ptr list \<times> stmt list) option" where
  "find_loop enc L [] = None"
| "find_loop enc L (s # ss) =
     (case find_loop_in enc L s of Some r \<Rightarrow> Some r | None \<Rightarrow> find_loop enc L ss)"
| "find_loop_in enc L (Loop L' body) =
     (if L' = L then Some (enc, body) else find_loop (L' # enc) L body)"
| "find_loop_in enc L (IfRange val lo hi body) = find_loop enc L body"
| "find_loop_in enc L _ = None"

fun replace_in :: "loop_ptr \<Rightarrow> stmt list \<Rightarrow> stmt \<Rightarrow> stmt list" where
  "replace_in L new (Loop L' body) =
     (if L' = L then new else [Loop L' (concat (map (replace_in L new) body))])"
| "replace_in L new (IfRange val lo hi body) =
     [IfRange val lo hi (concat (map (replace_in L new) body))]"
| "replace_in L new s = [s]"

definition replace_loop :: "loop_ptr \<Rightarrow> stmt list \<Rightarrow> stmt list \<Rightarrow> stmt list" where
  "replace_loop L new ss = concat (map (replace_in L new) ss)"

text \<open>A rewriting of one loop, applied to a program.\<close>

type_synonym 'r loop_rewrite_fun =
  "heap \<Rightarrow> var_ptr list \<Rightarrow> loop_ptr list \<Rightarrow> loop_ptr \<Rightarrow> stmt list \<Rightarrow> ('r \<times> stmt list \<times> heap) option res"

definition on_loop :: "'r loop_rewrite_fun \<Rightarrow> heap \<Rightarrow> program \<Rightarrow> loop_ptr \<Rightarrow>
    ('r \<times> program \<times> heap) option res" where
  "on_loop rw h p L =
     (case find_loop [] L (pr_body p) of
        None \<Rightarrow> Inl (UB ''loop is not in the program'')
      | Some (enc, body) \<Rightarrow>
          bind_res (rw h (pr_vars p) enc L body) (\<lambda>r.
            (case r of None \<Rightarrow> Inr None
             | Some (x, new, h') \<Rightarrow>
                 Inr (Some (x, p\<lparr>pr_body := replace_loop L new (pr_body p)\<rparr>, h')))))"

definition newIndexName :: "string \<Rightarrow> string \<Rightarrow> u32 \<Rightarrow> string" where
  "newIndexName origName suffix index = origName @ ''_'' @ suffix @ ''_'' @ dec_nat (unat index)"

definition mod_u32 :: "u32 \<Rightarrow> u32 \<Rightarrow> u32 res" where
  "mod_u32 a b = (if b = 0 then Inl (UB ''modulo by zero'') else Inr (a mod b))"

section \<open>Tiling\<close>

definition tile_loop :: "u32 \<Rightarrow> loop_ptr loop_rewrite_fun" where
  "tile_loop blockSize h vs enc L body =
     (if loop_end h L \<le> blockSize then Inr None
      else
        bind_res (mod_u32 blockSize (loop_stride h L)) (\<lambda>r.
        if r \<noteq> 0 then Inr None
        else
          bind_res (mod_u32 (loop_end h L) blockSize) (\<lambda>rest.
            let needRangeCheck = (rest \<noteq> 0);
                origLoopRange = loop_end h L;
                (NL, h1) = new_loop h (newIndexName (loop_name h L) ''tile'' blockSize) blockSize
                             (loop_stride h L);
                h2 = setEnd h1 L (loop_end h1 L div blockSize + (if needRangeCheck then 1 else 0));
                h3 = setStride h2 L 1;
                content = (if needRangeCheck
                           then [IfRange (new_IndexExpr L) 0 (int_of_u32 origLoopRange) body]
                           else body)
            in bind_res (new_BinaryExpr (new_IndexExpr L) (ConstantExpr (i64_of_u32 blockSize)) Mul)
                 (\<lambda>mul.
               bind_res (new_BinaryExpr (new_IndexExpr NL) mul Add) (\<lambda>expr.
               Inr (Some (NL, [Loop L (map (subst_stmt L expr) [Loop NL content])], h3)))))))"

definition tile :: "heap \<Rightarrow> program \<Rightarrow> loop_ptr \<Rightarrow> u32 \<Rightarrow> (loop_ptr \<times> program \<times> heap) option res" where
  "tile h p L blockSize = on_loop (tile_loop blockSize) h p L"

section \<open>Splitting and distributing\<close>

text \<open>One loop per packet; every statement of a packet is cloned with the same context.\<close>

fun split_packets :: "u32 \<Rightarrow> heap \<Rightarrow> var_ptr list \<Rightarrow> loop_ptr list \<Rightarrow> loop_ptr \<Rightarrow> stmt list list \<Rightarrow>
    (stmt list \<times> heap) res" where
  "split_packets cnt h vs enc L [] = Inr ([], h)"
| "split_packets cnt h vs enc L (packet # rest) =
     (let (NL, h1) = new_loop h (newIndexName (loop_name h L) ''split'' cnt) (loop_end h L)
                       (loop_stride h L) in
      bind_res (clone_scope h1 vs (L # enc) empty_ctx packet) (\<lambda>(packet', h2, c).
      bind_res (split_packets (cnt + 1) h2 vs enc L rest) (\<lambda>(loops, h3).
      Inr (Loop NL (map (subst_stmt L (new_IndexExpr NL)) packet') # loops, h3))))"

definition split_loop :: "unit loop_rewrite_fun" where
  "split_loop h vs enc L body =
     (if length body < 2 then Inr None
      else bind_res (split_packets 0 h vs enc L (map (\<lambda>s. [s]) body)) (\<lambda>(new, h').
           Inr (Some ((), new, h'))))"

definition split :: "heap \<Rightarrow> program \<Rightarrow> loop_ptr \<Rightarrow> (unit \<times> program \<times> heap) option res" where
  "split h p L = on_loop split_loop h p L"

text \<open>The packets of \<open>splitScopes\<close>: a scope alone, other statements as long as they are adjacent.\<close>

fun packets :: "bool \<Rightarrow> stmt list list \<Rightarrow> stmt list \<Rightarrow> stmt list list" where
  "packets lastIterWasScope ps [] = ps"
| "packets lastIterWasScope ps (s # ss) =
     (if isScope s then packets True (ps @ [[s]]) ss
      else if lastIterWasScope then packets False (ps @ [[s]]) ss
      else packets False (butlast ps @ [last ps @ [s]]) ss)"

definition splitScopes_loop :: "unit loop_rewrite_fun" where
  "splitScopes_loop h vs enc L body =
     bind_res (verify_stmt h vs enc (Loop L body)) (\<lambda>_.
       let ps = packets True [] body in
       if length ps < 2 then Inr None
       else bind_res (split_packets 0 h vs enc L ps) (\<lambda>(new, h'). Inr (Some ((), new, h'))))"

definition splitScopes :: "heap \<Rightarrow> program \<Rightarrow> loop_ptr \<Rightarrow> (unit \<times> program \<times> heap) option res" where
  "splitScopes h p L = on_loop splitScopes_loop h p L"

fun split_first :: "heap \<Rightarrow> program \<Rightarrow> loop_ptr list \<Rightarrow> (program \<times> heap) option res" where
  "split_first h p [] = Inr None"
| "split_first h p (l # ls) =
     bind_res (splitScopes h p l) (\<lambda>r.
       case r of Some (_, p', h') \<Rightarrow> Inr (Some (p', h')) | None \<Rightarrow> split_first h p ls)"

text \<open>The \<open>restart\<close> loop: until no loop of the program can be split.\<close>

partial_function (option) distributeAllLoops ::
    "bool \<Rightarrow> heap \<Rightarrow> program \<Rightarrow> (bool \<times> program \<times> heap) res option" where
  "distributeAllLoops changed h p =
     (case bind_res (verify_program h p) (\<lambda>_. split_first h p (body_loops (pr_body p))) of
        Inl e \<Rightarrow> Some (Inl e)
      | Inr None \<Rightarrow> Some (Inr (changed, p, h))
      | Inr (Some (p', h')) \<Rightarrow> distributeAllLoops True h' p')"

section \<open>Interchange: hoist and sink\<close>

text \<open>
  \<open>hoist\<close> swaps a loop with the scope around it when it is the only statement of that scope.
  \<open>hoist_once\<close> finds the scope; a loop directly in the program has no scope to swap with.
\<close>

fun hoist_once :: "loop_ptr \<Rightarrow> stmt list \<Rightarrow> stmt list option"
  and hoist_in :: "loop_ptr \<Rightarrow> stmt \<Rightarrow> stmt option" where
  "hoist_once L [] = None"
| "hoist_once L (s # ss) =
     (case hoist_in L s of
        Some s' \<Rightarrow> Some (s' # ss)
      | None \<Rightarrow> (case hoist_once L ss of Some ss' \<Rightarrow> Some (s # ss') | None \<Rightarrow> None))"
| "hoist_in L (Loop P body) =
     (case body of
        [Loop L' B] \<Rightarrow>
          if L' = L then Some (Loop L [Loop P B])
          else map_option (Loop P) (hoist_once L body)
      | _ \<Rightarrow> map_option (Loop P) (hoist_once L body))"
| "hoist_in L (IfRange val lo hi body) =
     (case body of
        [Loop L' B] \<Rightarrow>
          if L' = L then Some (Loop L [IfRange val lo hi B])
          else map_option (IfRange val lo hi) (hoist_once L body)
      | _ \<Rightarrow> map_option (IfRange val lo hi) (hoist_once L body))"
| "hoist_in L _ = None"

fun hoist_body :: "stmt list \<Rightarrow> loop_ptr \<Rightarrow> nat \<Rightarrow> bool \<times> stmt list" where
  "hoist_body ss L 0 = (False, ss)"
| "hoist_body ss L (Suc n) =
     (case hoist_once L ss of
        None \<Rightarrow> (False, ss)
      | Some ss' \<Rightarrow> (True, snd (hoist_body ss' L n)))"

definition hoist :: "program \<Rightarrow> loop_ptr \<Rightarrow> u32 \<Rightarrow> bool \<times> program" where
  "hoist p L levels =
     (let (changed, body) = hoist_body (pr_body p) L (unat levels) in (changed, p\<lparr>pr_body := body\<rparr>))"

fun sink_body :: "stmt list \<Rightarrow> loop_ptr \<Rightarrow> nat \<Rightarrow> bool \<times> stmt list" where
  "sink_body ss L 0 = (False, ss)"
| "sink_body ss L (Suc n) =
     (case find_loop [] L ss of
        Some (enc, [Loop inner B]) \<Rightarrow>
          (case hoist_body ss inner 1 of
             (False, _) \<Rightarrow> (False, ss)
           | (True, ss') \<Rightarrow> (True, snd (sink_body ss' L n)))
      | _ \<Rightarrow> (False, ss))"

definition sink :: "program \<Rightarrow> loop_ptr \<Rightarrow> u32 \<Rightarrow> bool \<times> program" where
  "sink p L levels =
     (let (changed, body) = sink_body (pr_body p) L (unat levels) in (changed, p\<lparr>pr_body := body\<rparr>))"

section \<open>Unrolling\<close>

text \<open>
  The counter of the unroll loop is 32 bits wide. \<open>unroll_iters\<close> is the list of its values; it
  is \<open>None\<close> when the counter wraps and the loop does not end.
\<close>

partial_function (option) unroll_iters :: "u32 \<Rightarrow> u32 \<Rightarrow> u32 \<Rightarrow> u32 list option" where
  "unroll_iters fin stride iter =
     (if iter < fin
      then Option.bind (unroll_iters fin stride (iter + stride)) (\<lambda>xs. Some (iter # xs))
      else Some [])"

declare unroll_iters.simps [code]

fun unroll_one :: "heap \<Rightarrow> var_ptr list \<Rightarrow> loop_ptr list \<Rightarrow> loop_ptr \<Rightarrow> u32 \<Rightarrow> stmt list \<Rightarrow>
    (stmt list \<times> heap) res" where
  "unroll_one h vs enc L iter [] = Inr ([], h)"
| "unroll_one h vs enc L iter (s # ss) =
     bind_res (clone_stmt h vs (L # enc) empty_ctx s) (\<lambda>(s', h1, c).
     bind_res (unroll_one h1 vs enc L iter ss) (\<lambda>(ss', h2).
     Inr (subst_stmt L (ConstantExpr (i64_of_u32 iter)) s' # ss', h2)))"

fun unroll_all :: "heap \<Rightarrow> var_ptr list \<Rightarrow> loop_ptr list \<Rightarrow> loop_ptr \<Rightarrow> stmt list \<Rightarrow> u32 list \<Rightarrow>
    (stmt list \<times> heap) res" where
  "unroll_all h vs enc L body [] = Inr ([], h)"
| "unroll_all h vs enc L body (i # is) =
     bind_res (unroll_one h vs enc L i body) (\<lambda>(new, h1).
     bind_res (unroll_all h1 vs enc L body is) (\<lambda>(rest, h2).
     Inr (new @ rest, h2)))"

definition unroll_loop :: "u32 \<Rightarrow> unit loop_rewrite_fun" where
  "unroll_loop maxTripCount h vs enc L body =
     (if maxTripCount < loop_end h L then Inr None
      else
        (case unroll_iters (loop_end h L) (loop_stride h L) 0 of
           None \<Rightarrow> Inl (UB ''infinite loop'')
         | Some iters \<Rightarrow>
             bind_res (unroll_all h vs enc L body iters) (\<lambda>(new, h'). Inr (Some ((), new, h')))))"

definition unrollLoop :: "heap \<Rightarrow> program \<Rightarrow> loop_ptr \<Rightarrow> u32 \<Rightarrow> (unit \<times> program \<times> heap) option res" where
  "unrollLoop h p L maxTripCount = on_loop (unroll_loop maxTripCount) h p L"

section \<open>Peeling\<close>

text \<open>The partition point \<open>k\<close>: a non-positive one counts from the end of the loop.\<close>

definition peel_point :: "u32 \<Rightarrow> int \<Rightarrow> int option res" where
  "peel_point fin k =
     (let orig = int_of_u32 fin in
      if k < 1 then
        bind_res (chk_int (- k)) (\<lambda>n. if n < orig then Inr (Some (orig + k)) else Inr None)
      else Inr (Some k))"

definition peel_loop :: "int \<Rightarrow> loop_ptr loop_rewrite_fun" where
  "peel_loop k0 h vs enc L body =
     (let origLoopEndRange = int_of_u32 (loop_end h L) in
      bind_res (peel_point (loop_end h L) k0) (\<lambda>r.
      case r of None \<Rightarrow> Inr None
      | Some k \<Rightarrow>
          if origLoopEndRange < k then Inr None
          else
            bind_res (mod_u32 (u32_of_int k) (loop_stride h L)) (\<lambda>m.
            if m \<noteq> 0 then Inr None
            else
              let h1 = setEnd h L (u32_of_int k) in
              bind_res (clone_stmt h1 vs enc empty_ctx (Loop L body)) (\<lambda>(s2, h2, c).
              (case s2 of
                 Loop L2 body2 \<Rightarrow>
                   let h3 = setEnd h2 L2 (u32_of_int (origLoopEndRange - k));
                       h4 = setName h3 L2 (newIndexName (loop_name h3 L) ''peeled'' 0) in
                   bind_res (new_BinaryExpr (ConstantExpr (i64_of_int k)) (new_IndexExpr L2) Add)
                     (\<lambda>expr.
                   Inr (Some (L2, [Loop L body, Loop L2 (map (subst_stmt L2 expr) body2)], h4)))
               | _ \<Rightarrow> Inl (UB ''(Loop *)L->clone(map)''))))))"

definition peelLoop :: "heap \<Rightarrow> program \<Rightarrow> loop_ptr \<Rightarrow> int \<Rightarrow> (loop_ptr \<times> program \<times> heap) option res" where
  "peelLoop h p L k = on_loop (peel_loop k) h p L"

end
