(* ===== verification/Rewriting.thy ===== *)
theory Rewriting
  imports Transforms
begin

text \<open>
  The contract of a loop transformation, and what it gives for a whole program.

  A transformation gets a loop and returns the statements that replace it. The locale
  \<open>loop_rewriting\<close> states what it must promise: it leaves every other object of the program as it
  is (\<open>frame\<close>), the new statements are well formed and declare the old loops or fresh ones
  (\<open>shape\<close>), and they run like the loop (\<open>run\<close>). Inside the locale this is lifted to the program
  the loop is part of. Tiling, peeling and unrolling are interpretations.
\<close>

section \<open>Well-formed bodies\<close>

text \<open>
  Every object is allocated, each loop is declared once, an index refers to a loop around it, and
  index expressions have the index kind: what \<open>verify\<close> checks and the construction of a program
  by pointers guarantees.
\<close>

definition free_of :: "stmt list \<Rightarrow> loop_ptr set" where
  "free_of ss = (\<Union>s \<in> set ss. free_loops s)"

definition wf_body :: "heap \<Rightarrow> stmt list \<Rightarrow> bool" where
  "wf_body h ss \<longleftrightarrow>
     list_all (below (hp_next h)) ss \<and> list_all index_kinds_stmt ss \<and> distinct (body_loops ss)
     \<and> free_of ss \<inter> set (body_loops ss) = {}"

definition heap_keeps :: "loop_ptr \<Rightarrow> heap \<Rightarrow> heap \<Rightarrow> bool" where
  "heap_keeps L h h' \<longleftrightarrow>
     hp_next h \<le> hp_next h'
     \<and> (\<forall>x < hp_next h. x \<noteq> L \<longrightarrow> hp_loop h' x = hp_loop h x)
     \<and> (\<forall>a < hp_next h. hp_arg h' a = hp_arg h a)
     \<and> (\<forall>v < hp_next h. hp_var h' v = hp_var h v)"

lemma free_of_simps [simp]:
  "free_of [] = {}" "free_of (s # ss) = free_loops s \<union> free_of ss"
  "free_of (xs @ ys) = free_of xs \<union> free_of ys"
  by (auto simp: free_of_def)

lemma wf_body_Nil [simp]: "wf_body h []"
  by (simp add: wf_body_def)

lemma wf_body_Cons:
  "wf_body h (s # ss) \<longleftrightarrow>
     wf_body h [s] \<and> wf_body h ss \<and> loops_in s \<inter> set (body_loops ss) = {}
     \<and> free_loops s \<inter> set (body_loops ss) = {} \<and> free_of ss \<inter> loops_in s = {}"
  by (auto simp: wf_body_def)

lemma wf_body_append:
  "wf_body h (xs @ ys) \<longleftrightarrow>
     wf_body h xs \<and> wf_body h ys \<and> set (body_loops xs) \<inter> set (body_loops ys) = {}
     \<and> free_of xs \<inter> set (body_loops ys) = {} \<and> free_of ys \<inter> set (body_loops xs) = {}"
  by (auto simp: wf_body_def)

lemma wf_body_Loop:
  "wf_body h [Loop L body] \<longleftrightarrow>
     L < hp_next h \<and> wf_body h body \<and> L \<notin> set (body_loops body)"
proof
  assume "wf_body h [Loop L body]"
  then show "L < hp_next h \<and> wf_body h body \<and> L \<notin> set (body_loops body)"
    by (auto simp: wf_body_def free_of_def list_all_iff disjoint_iff)
next
  assume "L < hp_next h \<and> wf_body h body \<and> L \<notin> set (body_loops body)"
  then show "wf_body h [Loop L body]"
    by (auto simp: wf_body_def free_of_def list_all_iff disjoint_iff)
qed

lemma wf_body_IfRange:
  "wf_body h [IfRange val lo hi body] \<longleftrightarrow>
     below_expr (hp_next h) val \<and> index_kinds_ok val \<and> wf_body h body
     \<and> loops_of_expr val \<inter> set (body_loops body) = {}"
  by (auto simp: wf_body_def free_of_def list_all_iff disjoint_iff)

lemma wf_body_bound: "wf_body h ss \<Longrightarrow> x \<in> set (body_loops ss) \<Longrightarrow> x < hp_next h"
  by (auto simp: wf_body_def list_all_iff dest: below_loops_in)

lemma wf_body_free_bound: "wf_body h ss \<Longrightarrow> x \<in> free_of ss \<Longrightarrow> x < hp_next h"
  by (auto simp: wf_body_def free_of_def list_all_iff dest: below_free)

lemma wf_body_keeps: "wf_body h ss \<Longrightarrow> hp_next h \<le> hp_next h' \<Longrightarrow> wf_body h' ss"
  by (auto simp: wf_body_def list_all_iff intro: below_mono)

text \<open>A body that does not contain the loop runs the same on both heaps.\<close>

lemma exec_keeps:
  assumes "heap_keeps L h h'" "wf_body h ss" "L \<notin> set (body_loops ss)"
  shows "exec_body M h' \<rho> ss st = exec_body M h \<rho> ss st"
proof (rule exec_body_cong)
  show "same_bounds (\<Union>s \<in> set ss. loops_in s) h h'"
  proof (unfold same_bounds_def, rule ballI)
    fix x assume "x \<in> (\<Union>s \<in> set ss. loops_in s)"
    then have "x < hp_next h" "x \<noteq> L" using assms(3) wf_body_bound [OF assms(2), of x] by auto
    then have "hp_loop h' x = hp_loop h x" using assms(1) by (simp add: heap_keeps_def)
    then show "loop_end h' x = loop_end h x \<and> loop_stride h' x = loop_stride h x"
      by (simp add: loop_end_def loop_stride_def)
  qed
  show "same_args (\<Union>s \<in> set ss. args_of s) h h'"
  proof (unfold same_args_def, rule ballI)
    fix a assume "a \<in> (\<Union>s \<in> set ss. args_of s)"
    then have "a < hp_next h" using assms(2) by (auto simp: wf_body_def list_all_iff dest: below_args)
    then show "arg_type (hp_arg h' a) = arg_type (hp_arg h a)"
      using assms(1) by (simp add: heap_keeps_def)
  qed
qed simp

section \<open>Replacing a loop that is not there, or there once\<close>

lemma replace_absent: "L \<notin> loops_in s \<Longrightarrow> replace_in L new s = [s]"
proof (induction s)
  case (Loop L' body)
  then have "concat (map (replace_in L new) body) = concat (map (\<lambda>s. [s]) body)"
    by (intro arg_cong [of _ _ concat] map_cong) auto
  then show ?case using Loop.prems by simp
next
  case (IfRange val lo hi body)
  then have "concat (map (replace_in L new) body) = concat (map (\<lambda>s. [s]) body)"
    by (intro arg_cong [of _ _ concat] map_cong) auto
  then show ?case by simp
qed simp_all

lemma replace_loop_absent: "L \<notin> set (body_loops ss) \<Longrightarrow> replace_loop L new ss = ss"
proof -
  assume "L \<notin> set (body_loops ss)"
  then have "concat (map (replace_in L new) ss) = concat (map (\<lambda>s. [s]) ss)"
    by (intro arg_cong [of _ _ concat] map_cong) (auto simp: replace_absent)
  then show ?thesis by (simp add: replace_loop_def)
qed

lemma replace_loop_simps:
  "replace_loop L new [] = []"
  "replace_loop L new (s # ss) = replace_in L new s @ replace_loop L new ss"
  by (simp_all add: replace_loop_def)

lemma replace_in_Loop:
  "L' \<noteq> L \<Longrightarrow> replace_in L new (Loop L' body) = [Loop L' (replace_loop L new body)]"
  "replace_in L new (IfRange val lo hi body) = [IfRange val lo hi (replace_loop L new body)]"
  by (simp_all add: replace_loop_def)

lemma find_loop_in_loops:
  "find_loop enc L ss = Some (enc', body) \<Longrightarrow> L \<in> set (body_loops ss)"
  "find_loop_in enc L s = Some (enc', body) \<Longrightarrow> L \<in> loops_in s"
  by (induction enc L ss and enc L s rule: find_loop_find_loop_in.induct)
    (auto split: option.splits if_splits)

lemma find_loop_absent:
  "find_loop enc L ss = None \<Longrightarrow> L \<notin> set (body_loops ss)"
  "find_loop_in enc L s = None \<Longrightarrow> L \<notin> loops_in s"
  by (induction enc L ss and enc L s rule: find_loop_find_loop_in.induct)
    (auto split: option.splits if_splits)

text \<open>The loop found is part of the body, with its loops and free loops accounted for.\<close>

lemma find_loop_wf:
  "find_loop enc L ss = Some (enc', body) \<Longrightarrow> wf_body h ss \<Longrightarrow> wf_body h [Loop L body]"
  "find_loop_in enc L s = Some (enc', body) \<Longrightarrow> wf_body h [s] \<Longrightarrow> wf_body h [Loop L body]"
proof (induction enc L ss and enc L s rule: find_loop_find_loop_in.induct)
  case (2 enc L s ss)
  then show ?case by (auto simp: wf_body_Cons [of h s ss] split: option.splits)
next
  case (3 enc L L' body')
  then show ?case by (auto simp: wf_body_Loop split: if_splits)
next
  case (4 enc L val lo hi body')
  then show ?case by (simp add: wf_body_IfRange)
qed simp_all

section \<open>From the loop to the program\<close>

definition fits_body :: "heap \<Rightarrow> heap \<Rightarrow> stmt list \<Rightarrow> stmt list \<Rightarrow> bool" where
  "fits_body h h' ss ss' \<longleftrightarrow>
     wf_body h' ss' \<and> free_of ss' \<subseteq> free_of ss
     \<and> (\<forall>x \<in> set (body_loops ss'). x \<in> set (body_loops ss) \<or> hp_next h \<le> x)"

lemma fits_body_refl: "hp_next h \<le> hp_next h' \<Longrightarrow> wf_body h ss \<Longrightarrow> fits_body h h' ss ss"
  by (auto simp: fits_body_def intro: wf_body_keeps)

lemma fits_body_append:
  assumes xs: "fits_body h h' xs xs'" and ys: "fits_body h h' ys ys'"
    and wf: "wf_body h (xs @ ys)"
    and fresh: "set (body_loops xs') \<inter> set (body_loops ys') \<subseteq> {x. x < hp_next h}"
  shows "fits_body h h' (xs @ ys) (xs' @ ys')"
proof -
  have b: "\<And>x. x \<in> set (body_loops xs) \<Longrightarrow> x < hp_next h" "\<And>x. x \<in> set (body_loops ys) \<Longrightarrow> x < hp_next h"
    "\<And>x. x \<in> free_of xs \<Longrightarrow> x < hp_next h" "\<And>x. x \<in> free_of ys \<Longrightarrow> x < hp_next h"
    using wf wf_body_bound wf_body_free_bound by (auto simp: wf_body_append)
  have d: "set (body_loops xs') \<inter> set (body_loops ys') = {}"
  proof -
    have False if "x \<in> set (body_loops xs')" "x \<in> set (body_loops ys')" for x
    proof -
      have lt: "x < hp_next h" using fresh that by blast
      then have "x \<in> set (body_loops xs)" "x \<in> set (body_loops ys)"
        using xs ys that by (auto simp: fits_body_def simp del: set_concat)
      then show False using wf unfolding wf_body_append by blast
    qed
    then show ?thesis by blast
  qed
  have f1: "free_of xs' \<inter> set (body_loops ys') = {}"
  proof -
    have False if "x \<in> free_of xs'" "x \<in> set (body_loops ys')" for x
    proof -
      have "x \<in> free_of xs" using xs that(1) by (auto simp: fits_body_def)
      moreover from this have "x \<in> set (body_loops ys)"
        using b(3) [of x] ys that(2) by (auto simp: fits_body_def simp del: set_concat)
      ultimately show False using wf unfolding wf_body_append by blast
    qed
    then show ?thesis by blast
  qed
  have f2: "free_of ys' \<inter> set (body_loops xs') = {}"
  proof -
    have False if "x \<in> free_of ys'" "x \<in> set (body_loops xs')" for x
    proof -
      have "x \<in> free_of ys" using ys that(1) by (auto simp: fits_body_def)
      moreover from this have "x \<in> set (body_loops xs)"
        using b(4) [of x] xs that(2) by (auto simp: fits_body_def simp del: set_concat)
      ultimately show False using wf unfolding wf_body_append by blast
    qed
    then show ?thesis by blast
  qed
  have "wf_body h' (xs' @ ys')"
    using xs ys d f1 f2 unfolding wf_body_append by (simp add: fits_body_def)
  then show ?thesis using xs ys by (auto simp: fits_body_def simp del: set_concat)
qed

text \<open>Replacing a loop by statements that fit and run like it.\<close>

definition runs_like :: "machine \<Rightarrow> heap \<Rightarrow> heap \<Rightarrow> stmt list \<Rightarrow> stmt list \<Rightarrow> bool" where
  "runs_like M h h' ss ss' \<longleftrightarrow> (\<forall>\<rho> st. exec_body M h' \<rho> ss' st = exec_body M h \<rho> ss st)"

lemma runs_like_append:
  "runs_like M h h' xs xs' \<Longrightarrow> runs_like M h h' ys ys' \<Longrightarrow> runs_like M h h' (xs @ ys) (xs' @ ys')"
proof -
  assume a: "runs_like M h h' xs xs'" "runs_like M h h' ys ys'"
  then have "exec_body M h' \<rho> ys' = exec_body M h \<rho> ys" for \<rho>
    by (intro ext) (simp add: runs_like_def)
  with a(1) show ?thesis by (simp add: runs_like_def fold_opt_append)
qed

lemma runs_like_Loop:
  assumes "runs_like M h h' body body'" "loop_end h' L = loop_end h L" "loop_stride h' L = loop_stride h L"
  shows "runs_like M h h' [Loop L body] [Loop L body']"
proof -
  have "exec_body M h' \<rho> body' = exec_body M h \<rho> body" for \<rho>
    using assms(1) by (intro ext) (simp add: runs_like_def)
  then show ?thesis using assms(2,3) unfolding runs_like_def fold_opt_single exec.simps by simp
qed

lemma runs_like_IfRange:
  assumes "runs_like M h h' body body'" "same_args (args_of_expr val) h h'"
  shows "runs_like M h h' [IfRange val lo hi body] [IfRange val lo hi body']"
proof -
  have "exec_body M h' \<rho> body' = exec_body M h \<rho> body" for \<rho>
    using assms(1) by (intro ext) (simp add: runs_like_def)
  moreover have "eval M h' st \<rho> val = eval M h st \<rho> val" for st \<rho>
    using assms(2) by (intro eval_cong) auto
  ultimately show ?thesis
    unfolding runs_like_def fold_opt_single exec.simps by (simp cong: if_cong)
qed

lemma heap_keeps_bounds:
  "heap_keeps L h h' \<Longrightarrow> x < hp_next h \<Longrightarrow> x \<noteq> L \<Longrightarrow>
     loop_end h' x = loop_end h x \<and> loop_stride h' x = loop_stride h x"
  by (simp add: heap_keeps_def loop_end_def loop_stride_def)

lemma heap_keeps_args: "heap_keeps L h h' \<Longrightarrow> below_expr (hp_next h) e \<Longrightarrow> same_args (args_of_expr e) h h'"
  by (auto simp: heap_keeps_def same_args_def dest: below_expr_args)

lemma heap_keeps_next: "heap_keeps L h h' \<Longrightarrow> hp_next h \<le> hp_next h'"
  by (simp add: heap_keeps_def)

lemma fits_body_Loop:
  assumes "fits_body h h' body body'" "wf_body h [Loop L' body]" "hp_next h \<le> hp_next h'"
  shows "fits_body h h' [Loop L' body] [Loop L' body']"
proof -
  have L': "L' < hp_next h" "L' \<notin> set (body_loops body)" using assms(2) by (auto simp: wf_body_Loop)
  then have "L' \<notin> set (body_loops body')"
    using assms(1) by (auto simp: fits_body_def simp del: set_concat)
  then have "wf_body h' [Loop L' body']"
    using assms(1,3) L'(1) unfolding wf_body_Loop by (simp add: fits_body_def)
  then show ?thesis using assms(1) by (auto simp: fits_body_def free_of_def)
qed

lemma fits_body_IfRange:
  assumes "fits_body h h' body body'" "wf_body h [IfRange val lo hi body]" "hp_next h \<le> hp_next h'"
  shows "fits_body h h' [IfRange val lo hi body] [IfRange val lo hi body']"
proof -
  have v: "below_expr (hp_next h) val" "index_kinds_ok val" "wf_body h body"
    "loops_of_expr val \<inter> set (body_loops body) = {}"
    using assms(2) by (auto simp: wf_body_IfRange)
  have "x \<notin> set (body_loops body')" if x: "x \<in> loops_of_expr val" for x
    using assms(1) v(4) below_expr_loops [OF v(1) x] x
    by (auto simp: fits_body_def simp del: set_concat)
  then have "loops_of_expr val \<inter> set (body_loops body') = {}" by blast
  then have "wf_body h' [IfRange val lo hi body']"
    using assms(1,3) v below_expr_mono unfolding wf_body_IfRange by (auto simp: fits_body_def)
  then show ?thesis using assms(1) by (auto simp: fits_body_def free_of_def)
qed

text \<open>The lifting of the fit and of the runs.\<close>

lemma replace_loop_fits:
  "find_loop enc L ss = Some (enc', body) \<Longrightarrow> heap_keeps L h h' \<Longrightarrow>
     fits_body h h' [Loop L body] new \<Longrightarrow> wf_body h ss \<Longrightarrow> fits_body h h' ss (replace_loop L new ss)"
  "find_loop_in enc L s = Some (enc', body) \<Longrightarrow> heap_keeps L h h' \<Longrightarrow>
     fits_body h h' [Loop L body] new \<Longrightarrow> wf_body h [s] \<Longrightarrow> fits_body h h' [s] (replace_in L new s)"
proof (induction enc L ss and enc L s rule: find_loop_find_loop_in.induct)
  case (2 enc L s ss)
  have wf: "wf_body h [s]" "wf_body h ss" "wf_body h ([s] @ ss)"
    and d: "loops_in s \<inter> set (body_loops ss) = {}"
    using "2.prems"(4) wf_body_Cons [of h s ss] by simp_all
  have le: "hp_next h \<le> hp_next h'" using "2.prems"(2) by (rule heap_keeps_next)
  show ?case
  proof (cases "find_loop_in enc L s")
    case (Some r)
    then have F: "find_loop_in enc L s = Some (enc', body)" using "2.prems"(1) by simp
    then have "L \<in> loops_in s" by (rule find_loop_in_loops(2))
    then have "L \<notin> set (body_loops ss)" using d by blast
    then have R: "replace_loop L new (s # ss) = replace_in L new s @ ss"
      by (simp add: replace_loop_simps replace_loop_absent)
    have "fits_body h h' ([s] @ ss) (replace_in L new s @ ss)"
    proof (rule fits_body_append)
      show "fits_body h h' [s] (replace_in L new s)"
        by (rule "2.IH"(1) [OF F "2.prems"(2,3) wf(1)])
      show "fits_body h h' ss ss" by (rule fits_body_refl [OF le wf(2)])
    qed (use wf wf_body_bound [OF wf(2)] in auto)
    then show ?thesis by (simp add: R)
  next
    case None
    then have F: "find_loop enc L ss = Some (enc', body)" using "2.prems"(1) by simp
    have R: "replace_loop L new (s # ss) = [s] @ replace_loop L new ss"
      using find_loop_absent(2) [OF None] by (simp add: replace_loop_simps replace_absent)
    have "fits_body h h' ([s] @ ss) ([s] @ replace_loop L new ss)"
    proof (rule fits_body_append)
      show "fits_body h h' [s] [s]" by (rule fits_body_refl [OF le wf(1)])
      show "fits_body h h' ss (replace_loop L new ss)"
        by (rule "2.IH"(2) [OF None F "2.prems"(2,3) wf(2)])
    qed (use wf wf_body_bound [OF wf(1)] in auto)
    then show ?thesis by (simp add: R)
  qed
next
  case (3 enc L L' body')
  show ?case
  proof (cases "L' = L")
    case True
    then show ?thesis using "3.prems" by simp
  next
    case False
    then have F: "find_loop (L' # enc) L body' = Some (enc', body)" using "3.prems"(1) by simp
    have wf: "wf_body h body'" using "3.prems"(4) by (simp add: wf_body_Loop)
    show ?thesis unfolding replace_in_Loop(1) [OF False]
      by (rule fits_body_Loop)
        (use "3.IH" [OF False F "3.prems"(2,3) wf] "3.prems"(2,4) in \<open>auto dest: heap_keeps_next\<close>)
  qed
next
  case (4 enc L val lo hi body')
  then have F: "find_loop enc L body' = Some (enc', body)" by simp
  have wf: "wf_body h body'" using "4.prems"(4) by (simp add: wf_body_IfRange)
  show ?case unfolding replace_in_Loop(2)
    by (rule fits_body_IfRange)
      (use "4.IH" [OF F "4.prems"(2,3) wf] "4.prems"(2,4) in \<open>auto dest: heap_keeps_next\<close>)
qed simp_all

lemma exec_keeps_runs: "heap_keeps L h h' \<Longrightarrow> wf_body h ss \<Longrightarrow> L \<notin> set (body_loops ss) \<Longrightarrow> runs_like M h h' ss ss"
  by (simp add: runs_like_def exec_keeps)

lemma replace_loop_runs:
  "find_loop enc L ss = Some (enc', body) \<Longrightarrow> heap_keeps L h h' \<Longrightarrow>
     runs_like M h h' [Loop L body] new \<Longrightarrow> wf_body h ss \<Longrightarrow> runs_like M h h' ss (replace_loop L new ss)"
  "find_loop_in enc L s = Some (enc', body) \<Longrightarrow> heap_keeps L h h' \<Longrightarrow>
     runs_like M h h' [Loop L body] new \<Longrightarrow> wf_body h [s] \<Longrightarrow> runs_like M h h' [s] (replace_in L new s)"
proof (induction enc L ss and enc L s rule: find_loop_find_loop_in.induct)
  case (2 enc L s ss)
  have wf: "wf_body h [s]" "wf_body h ss"
    and d: "loops_in s \<inter> set (body_loops ss) = {}"
    using "2.prems"(4) wf_body_Cons [of h s ss] by simp_all
  show ?case
  proof (cases "find_loop_in enc L s")
    case (Some r)
    then have F: "find_loop_in enc L s = Some (enc', body)" using "2.prems"(1) by simp
    then have "L \<in> loops_in s" by (rule find_loop_in_loops(2))
    then have a: "L \<notin> set (body_loops ss)" using d by blast
    have "runs_like M h h' ([s] @ ss) (replace_in L new s @ ss)"
      by (rule runs_like_append [OF "2.IH"(1) [OF F "2.prems"(2,3) wf(1)]
            exec_keeps_runs [OF "2.prems"(2) wf(2) a]])
    then show ?thesis using a by (simp add: replace_loop_simps replace_loop_absent)
  next
    case None
    then have F: "find_loop enc L ss = Some (enc', body)" using "2.prems"(1) by simp
    have a: "L \<notin> loops_in s" using find_loop_absent(2) [OF None] .
    have "runs_like M h h' ([s] @ ss) ([s] @ replace_loop L new ss)"
      by (rule runs_like_append [OF exec_keeps_runs [OF "2.prems"(2) wf(1)]
            "2.IH"(2) [OF None F "2.prems"(2,3) wf(2)]]) (use a in simp)
    then show ?thesis using a by (simp add: replace_loop_simps replace_absent)
  qed
next
  case (3 enc L L' body')
  show ?case
  proof (cases "L' = L")
    case True
    then show ?thesis using "3.prems" by simp
  next
    case False
    then have F: "find_loop (L' # enc) L body' = Some (enc', body)" using "3.prems"(1) by simp
    have wf: "wf_body h body'" "L' < hp_next h" using "3.prems"(4) by (simp_all add: wf_body_Loop)
    show ?thesis unfolding replace_in_Loop(1) [OF False]
      using "3.IH" [OF False F "3.prems"(2,3) wf(1)] heap_keeps_bounds [OF "3.prems"(2) wf(2) False]
      by (intro runs_like_Loop) auto
  qed
next
  case (4 enc L val lo hi body')
  then have F: "find_loop enc L body' = Some (enc', body)" by simp
  have wf: "wf_body h body'" "below_expr (hp_next h) val"
    using "4.prems"(4) by (simp_all add: wf_body_IfRange)
  show ?case unfolding replace_in_Loop(2)
    by (rule runs_like_IfRange [OF "4.IH" [OF F "4.prems"(2,3) wf(1)]
          heap_keeps_args [OF "4.prems"(2) wf(2)]])
qed simp_all

section \<open>The contract\<close>

locale loop_rewriting =
  fixes rw :: "'r loop_rewrite_fun"
    and pre :: "machine \<Rightarrow> heap \<Rightarrow> loop_ptr \<Rightarrow> bool"
  assumes frame: "rw h vs enc L body = Inr (Some (x, new, h')) \<Longrightarrow> wf_body h [Loop L body] \<Longrightarrow>
      heap_keeps L h h'"
    and shape: "rw h vs enc L body = Inr (Some (x, new, h')) \<Longrightarrow> wf_body h [Loop L body] \<Longrightarrow>
      fits_body h h' [Loop L body] new"
    and run: "rw h vs enc L body = Inr (Some (x, new, h')) \<Longrightarrow> wf_body h [Loop L body] \<Longrightarrow>
      pre M h L \<Longrightarrow> runs_like M h h' [Loop L body] new"
begin

lemma on_loop_elim:
  assumes "on_loop rw h p L = Inr (Some (x, p', h'))"
  obtains enc body new where "find_loop [] L (pr_body p) = Some (enc, body)"
    "rw h (pr_vars p) enc L body = Inr (Some (x, new, h'))"
    "p' = p\<lparr>pr_body := replace_loop L new (pr_body p)\<rparr>"
  using assms by (auto simp: on_loop_def split: option.splits)

lemma program_wf:
  assumes "on_loop rw h p L = Inr (Some (x, p', h'))" "wf_body h (pr_body p)"
  shows "wf_body h' (pr_body p')"
proof -
  from assms(1) obtain enc body new where f: "find_loop [] L (pr_body p) = Some (enc, body)"
    and r: "rw h (pr_vars p) enc L body = Inr (Some (x, new, h'))"
    and p': "p' = p\<lparr>pr_body := replace_loop L new (pr_body p)\<rparr>" by (rule on_loop_elim)
  have wf: "wf_body h [Loop L body]" using find_loop_wf(1) [OF f assms(2)] .
  show ?thesis
    using replace_loop_fits(1) [OF f frame [OF r wf] shape [OF r wf] assms(2)] p'
    by (simp add: fits_body_def)
qed

lemma program_runs:
  assumes "on_loop rw h p L = Inr (Some (x, p', h'))" "wf_body h (pr_body p)" "pre M h L"
  shows "run_program M h' p' st = run_program M h p st"
proof -
  from assms(1) obtain enc body new where f: "find_loop [] L (pr_body p) = Some (enc, body)"
    and r: "rw h (pr_vars p) enc L body = Inr (Some (x, new, h'))"
    and p': "p' = p\<lparr>pr_body := replace_loop L new (pr_body p)\<rparr>" by (rule on_loop_elim)
  have wf: "wf_body h [Loop L body]" using find_loop_wf(1) [OF f assms(2)] .
  show ?thesis
    using replace_loop_runs(1) [OF f frame [OF r wf] run [OF r wf assms(3)] assms(2)] p'
    by (simp add: run_program_def runs_like_def)
qed

end

end
