(* ===== verification/Interchange.thy ===== *)
theory Interchange
  imports Rewriting Verify "HOL-Library.Multiset"
begin

text \<open>
  What \<open>splitScopes\<close>, \<open>hoist\<close> and \<open>sink\<close> of \<open>lib/Transforms/Transforms.cpp\<close> do to the shape of a
  program. Whether a split or an interchange is legal is left to the user's pragmas by the code,
  so these are statements about the tree: nothing is lost, nothing is duplicated.
\<close>

section \<open>Packets\<close>

lemma packets_concat:
  "b \<or> ps \<noteq> [] \<Longrightarrow> concat (packets b ps ss) = concat ps @ ss"
proof (induction b ps ss rule: packets.induct)
  case (2 b ps s ss)
  have "concat (butlast ps) @ last ps = concat ps" if "ps \<noteq> []"
    using that by (metis append_butlast_last_id concat.simps concat_append append_Nil2)
  then show ?case using 2 by (auto simp flip: append_assoc)
qed simp

definition packet_ok :: "stmt list \<Rightarrow> bool" where
  "packet_ok ps \<longleftrightarrow> (\<exists>s. ps = [s]) \<or> ps \<noteq> [] \<and> list_all (\<lambda>s. \<not> isScope s) ps"

lemma packets_ok:
  "list_all packet_ok ps \<Longrightarrow> (b \<or> ps \<noteq> [] \<and> list_all (\<lambda>s. \<not> isScope s) (last ps)) \<Longrightarrow>
     list_all packet_ok (packets b ps ss)"
proof (induction b ps ss rule: packets.induct)
  case (2 b ps s ss)
  have one: "packet_ok [s]" by (simp add: packet_ok_def)
  have more: "packet_ok (last ps @ [s])" "list_all packet_ok (butlast ps)"
    if "\<not> b" "\<not> isScope s"
    using that 2(4,5) by (auto simp: packet_ok_def list_all_iff dest: in_set_butlastD)
  show ?case using 2 one more by auto
qed simp

text \<open>The packets of \<open>splitScopes\<close>, in order, are the body of the loop: no statement is lost,
  moved or duplicated; and a packet holds either one statement or several that are not scopes.\<close>

theorem packets_partition:
  "concat (packets True [] ss) = ss \<and> list_all packet_ok (packets True [] ss)"
  using packets_concat [of True "[]" ss] packets_ok [of "[]" True ss] by simp

section \<open>Interchange\<close>

lemma only_loop_cases:
  obtains (only) L' B where "body = [Loop L' B]" | (other) "\<And>L' B. body \<noteq> [Loop L' B]"
  by blast

lemma hoist_in_Loop:
  assumes "hoist_in L (Loop P body) = Some s'"
  shows "(\<exists>B. body = [Loop L B] \<and> s' = Loop L [Loop P B]) \<or> (\<exists>b'. hoist_once L body = Some b' \<and> s' = Loop P b')"
proof (cases body rule: only_loop_cases)
  case (only L' B)
  then show ?thesis using assms by (cases "L' = L") auto
next
  case other
  then have "map_option (Loop P) (hoist_once L body) = Some s'"
    using assms by (cases body; cases "tl body"; cases "hd body") (simp_all del: hoist_once.simps)
  then show ?thesis by auto
qed

lemma hoist_in_IfRange:
  assumes "hoist_in L (IfRange val lo hi body) = Some s'"
  shows "(\<exists>B. body = [Loop L B] \<and> s' = Loop L [IfRange val lo hi B])
    \<or> (\<exists>b'. hoist_once L body = Some b' \<and> s' = IfRange val lo hi b')"
proof (cases body rule: only_loop_cases)
  case (only L' B)
  then show ?thesis using assms by (cases "L' = L") auto
next
  case other
  then have "map_option (IfRange val lo hi) (hoist_once L body) = Some s'"
    using assms by (cases body; cases "tl body"; cases "hd body") (simp_all del: hoist_once.simps)
  then show ?thesis by auto
qed

lemma hoist_once_elim:
  assumes "hoist_once L ss = Some ss'"
  obtains xs s s' ys where "ss = xs @ s # ys" "hoist_in L s = Some s'" "ss' = xs @ s' # ys"
proof -
  have "\<exists>xs s s' ys. ss = xs @ s # ys \<and> hoist_in L s = Some s' \<and> ss' = xs @ s' # ys"
    using assms
  proof (induction ss arbitrary: ss')
    case (Cons a ss)
    show ?case
    proof (cases "hoist_in L a")
      case None
      with Cons.prems obtain ss1 where "hoist_once L ss = Some ss1" "ss' = a # ss1"
        by (auto split: option.splits)
      with Cons.IH show ?thesis by (metis append_Cons)
    next
      case (Some a')
      with Cons.prems show ?thesis by (metis append_Nil hoist_once.simps(2) option.inject option.simps(5))
    qed
  qed simp
  then show ?thesis using that by blast
qed

lemma hoist_in_loops: "hoist_in L s = Some s' \<Longrightarrow> mset (loop_list s') = mset (loop_list s)"
proof (induction s arbitrary: s')
  case (Loop P body)
  then show ?case using hoist_in_Loop [OF Loop.prems] by (fastforce elim!: hoist_once_elim)
next
  case (IfRange val lo hi body)
  then show ?case using hoist_in_IfRange [OF IfRange.prems] by (fastforce elim!: hoist_once_elim)
qed simp_all

lemma hoist_body_loops: "mset (body_loops (snd (hoist_body ss L n))) = mset (body_loops ss)"
proof (induction n arbitrary: ss)
  case (Suc n)
  show ?case
  proof (cases "hoist_once L ss")
    case (Some ss')
    then obtain xs s s' ys where "ss = xs @ s # ys" "hoist_in L s = Some s'" "ss' = xs @ s' # ys"
      by (rule hoist_once_elim)
    then show ?thesis using Suc [of ss'] Some hoist_in_loops by simp
  qed simp
qed simp

text \<open>\<open>hoist\<close>, any number of levels, keeps every loop of the program exactly once: it moves
  loops over scopes and neither drops nor copies one.\<close>

theorem hoist_keeps_loops:
  "mset (body_loops (pr_body (snd (hoist p L levels)))) = mset (body_loops (pr_body p))"
  using hoist_body_loops [of "pr_body p" L "unat levels"]
  by (simp add: hoist_def case_prod_beta)

section \<open>When interchanging two loops is legal\<close>

definition commutes :: "('s \<Rightarrow> 's option) \<Rightarrow> ('s \<Rightarrow> 's option) \<Rightarrow> bool" where
  "commutes f g \<longleftrightarrow> (\<forall>s. Option.bind (f s) g = Option.bind (g s) f)"

lemma fold_opt_fun: "fold_opt f [] = Some" "fold_opt f (x # xs) = (\<lambda>s. Option.bind (f x s) (fold_opt f xs))"
  by (simp_all add: fun_eq_iff)

lemma fold_opt_one: "fold_opt f [x] = f x"
  by (simp add: fold_opt_fun)

lemma commutes_fold: "\<forall>x \<in> set xs. commutes (f x) g \<Longrightarrow> commutes (fold_opt f xs) g"
proof (induction xs)
  case (Cons x xs)
  show ?case unfolding commutes_def
  proof
    fix s
    have x: "Option.bind (f x s) g = Option.bind (g s) (f x)" for s
      using Cons.prems by (simp add: commutes_def)
    have xs: "Option.bind (fold_opt f xs s) g = Option.bind (g s) (fold_opt f xs)" for s
      using Cons by (simp add: commutes_def)
    have "Option.bind (fold_opt f (x # xs) s) g = Option.bind (f x s) (\<lambda>t. Option.bind (g t) (fold_opt f xs))"
      by (simp add: xs)
    also have "\<dots> = Option.bind (Option.bind (f x s) g) (fold_opt f xs)" by (cases "f x s") simp_all
    also have "\<dots> = Option.bind (g s) (fold_opt f (x # xs))" unfolding x by (cases "g s") simp_all
    finally show "Option.bind (fold_opt f (x # xs) s) g = Option.bind (g s) (fold_opt f (x # xs))" .
  qed
qed (simp add: commutes_def fold_opt_fun)

lemma fold_pairs:
  "distinct xs \<Longrightarrow> (\<And>x y. x \<in> set xs \<Longrightarrow> y \<in> set xs \<Longrightarrow> x \<noteq> y \<Longrightarrow> commutes (g y) (h x)) \<Longrightarrow>
     Option.bind (fold_opt g xs s) (fold_opt h xs) = fold_opt (\<lambda>x s. Option.bind (g x s) (h x)) xs s"
proof (induction xs arbitrary: s)
  case (Cons x xs)
  have c: "Option.bind (fold_opt g xs t) (h x) = Option.bind (h x t) (fold_opt g xs)" for t
    using commutes_fold [of xs g "h x"] Cons.prems by (auto simp: commutes_def)
  have IH: "Option.bind (fold_opt g xs t) (fold_opt h xs) = fold_opt (\<lambda>x s. Option.bind (g x s) (h x)) xs t" for t
    by (rule Cons.IH) (use Cons.prems in auto)
  have "Option.bind (fold_opt g (x # xs) s) (fold_opt h (x # xs)) =
      Option.bind (g x s) (\<lambda>t. Option.bind (Option.bind (fold_opt g xs t) (h x)) (fold_opt h xs))"
    by (cases "g x s") (simp_all add: fold_opt_fun)
  also have "\<dots> = Option.bind (g x s) (\<lambda>t. Option.bind (h x t) (\<lambda>u. Option.bind (fold_opt g xs u) (fold_opt h xs)))"
    unfolding c by simp
  finally show ?case unfolding IH by (simp add: fold_opt_fun del: fold_opt.simps)
qed simp

lemma fold_nothing: "fold_opt (\<lambda>x. Some) xs s = Some s"
  by (induction xs) simp_all

lemma fold_swap:
  assumes "distinct ps" "distinct ls"
    and "\<And>p q l m. p \<in> set ps \<Longrightarrow> q \<in> set ps \<Longrightarrow> l \<in> set ls \<Longrightarrow> m \<in> set ls \<Longrightarrow> p \<noteq> q \<Longrightarrow> l \<noteq> m \<Longrightarrow> commutes (f p l) (f q m)"
  shows "fold_opt (\<lambda>p. fold_opt (f p) ls) ps s = fold_opt (\<lambda>l. fold_opt (\<lambda>p. f p l) ps) ls s"
  using assms(1,3)
proof (induction ps arbitrary: s)
  case Nil
  have "(\<lambda>l. fold_opt (\<lambda>p. f p l) []) = (\<lambda>l. Some)" by (simp add: fold_opt_fun)
  then show ?case using fold_nothing [of ls s] by simp
next
  case (Cons p ps)
  have IH: "fold_opt (\<lambda>p. fold_opt (f p) ls) ps = fold_opt (\<lambda>l. fold_opt (\<lambda>p. f p l) ps) ls"
    unfolding fun_eq_iff by (rule allI, rule Cons.IH) (use Cons.prems in auto)
  have "commutes (f p y) (fold_opt (\<lambda>q. f q x) ps)" if "x \<in> set ls" "y \<in> set ls" "x \<noteq> y" for x y
  proof -
    have "commutes (fold_opt (\<lambda>q. f q x) ps) (f p y)"
      by (rule commutes_fold) (use Cons.prems that in auto)
    then show ?thesis unfolding commutes_def by metis
  qed
  from fold_pairs [OF assms(2) this, where s = s] show ?case by (simp add: IH)
qed


lemma count_up_distinct: "distinct (count_up s e i)" "\<forall>x \<in> set (count_up s e i). i \<le> x"
proof (induction s e i rule: count_up.induct)
  case (1 s e i)
  { case 1 show ?case using "1.IH" by (subst count_up.simps) force }
  { case 2 show ?case using "1.IH"(2) by (subst count_up.simps) force }
qed

text \<open>The values that the counter of a loop takes.\<close>

definition iterations :: "heap \<Rightarrow> loop_ptr \<Rightarrow> nat list" where
  "iterations h L = count_up (unat (loop_stride h L)) (unat (loop_end h L)) 0"

lemma iterations_distinct: "distinct (iterations h L)"
  unfolding iterations_def by (rule count_up_distinct)

lemma iterations_below: "i \<in> set (iterations h L) \<Longrightarrow> i < unat (loop_end h L)"
  unfolding iterations_def by (drule count_up_set) simp

text \<open>Two iterations of one loop have different indices: a 32-bit end fits the 64-bit counter.\<close>

lemma iterations_inj:
  assumes "i \<in> set (iterations h L)" "j \<in> set (iterations h L')" "(of_nat i :: i64) = of_nat j"
  shows "i = j"
proof -
  have "i < 2 ^ 64" "j < 2 ^ 64"
    using iterations_below [OF assms(1)] iterations_below [OF assms(2)] unsigned_less [of "loop_end h L", where 'a = nat]
      unsigned_less [of "loop_end h L'", where 'a = nat] by simp_all
  moreover have "unat (of_nat i :: i64) = unat (of_nat j :: i64)" using assms(3) by simp
  ultimately show ?thesis by (simp add: unat_of_nat)
qed

lemma exec_Loop_iterations:
  "loop_stride h L \<noteq> 0 \<Longrightarrow> exec M h \<rho> (Loop L body) = fold_opt (\<lambda>i. exec_body M h (\<rho>(L := of_nat i)) body) (iterations h L)"
  by (rule ext) (simp add: iterations_def)

text \<open>C24. Interchange, the step of \<open>hoist\<close> and \<open>sink\<close>, is legal when different iterations commute:
  if running the body at an iteration \<open>(p, l)\<close> of the nest and at another \<open>(q, m)\<close> that differs in both
  indices gives the same in both orders, then the loop nest that \<open>hoist\<close> makes of two perfectly nested
  loops runs like the original. Iterations with an equal index keep their order and need not commute.
  The code leaves the condition to the author of the pragma.\<close>

theorem interchange_legal:
  assumes "hoist_in L (Loop P [Loop L B]) = Some s'" "P \<noteq> L" "loop_stride h P \<noteq> 0" "loop_stride h L \<noteq> 0"
    and "\<And>p q l m. p \<in> set (iterations h P) \<Longrightarrow> q \<in> set (iterations h P) \<Longrightarrow> p \<noteq> q \<Longrightarrow>
      l \<in> set (iterations h L) \<Longrightarrow> m \<in> set (iterations h L) \<Longrightarrow> l \<noteq> m \<Longrightarrow>
      commutes (exec_body M h (\<rho>(P := of_nat p, L := of_nat l)) B) (exec_body M h (\<rho>(P := of_nat q, L := of_nat m)) B)"
  shows "exec M h \<rho> s' st = exec M h \<rho> (Loop P [Loop L B]) st"
proof -
  let ?f = "\<lambda>p l. exec_body M h (\<rho>(P := of_nat p, L := of_nat l)) B"
  note run = exec_Loop_iterations [OF assms(3)] exec_Loop_iterations [OF assms(4)]
  have s': "s' = Loop L [Loop P B]" using assms(1) by simp
  have "exec M h \<rho> (Loop P [Loop L B]) st = fold_opt (\<lambda>p. fold_opt (?f p) (iterations h L)) (iterations h P) st"
    unfolding run fold_opt_one ..
  also have "\<dots> = fold_opt (\<lambda>l. fold_opt (\<lambda>p. ?f p l) (iterations h P)) (iterations h L) st"
    by (rule fold_swap) (use assms(5) iterations_distinct in auto)
  also have "\<dots> = exec M h \<rho> s' st"
    unfolding s' run fold_opt_one fun_upd_twist [OF assms(2)] ..
  finally show ?thesis ..
qed

text \<open>A nest that adds up the rows of a matrix in a column: iterations of one row use the same cell.\<close>

definition row_sum :: stmt where
  "row_sum = StoreStmt (GEPExpr 1 [IndexExpr (scalarTy IndexTy) 0]) (LoadExpr (scalarTy Float32Ty) (GEPExpr 3 [IndexExpr (scalarTy IndexTy) 2])) True"

theorem interchange_legal_witness:
  "\<forall>M \<rho> st. exec M (fst demo_loop) \<rho> (Loop 2 [Loop 0 [row_sum]]) st = exec M (fst demo_loop) \<rho> (Loop 0 [Loop 2 [row_sum]]) st"
proof (intro allI)
  fix M \<rho> st
  show "exec M (fst demo_loop) \<rho> (Loop 2 [Loop 0 [row_sum]]) st = exec M (fst demo_loop) \<rho> (Loop 0 [Loop 2 [row_sum]]) st"
  proof (rule interchange_legal [of 2])
    fix p q l m assume "p \<in> set (iterations (fst demo_loop) 0)" "q \<in> set (iterations (fst demo_loop) 0)" "p \<noteq> q"
    then have "(of_nat p :: i64) \<noteq> of_nat q" using iterations_inj by blast
    then show "commutes (exec_body M (fst demo_loop) (\<rho>(0 := of_nat p, 2 := of_nat l)) [row_sum])
        (exec_body M (fst demo_loop) (\<rho>(0 := of_nat q, 2 := of_nat m)) [row_sum])"
      by (auto simp: commutes_def row_sum_def demo_loop_def store_lanes_def load_lanes_def fold_opt_one fun_upd_twist del: fold_opt.simps)
  qed (simp_all add: demo_loop_def loop_stride_def)
qed

end
