(* ===== verification/Vectorize.thy ===== *)
theory Vectorize
  imports Transforms
begin

text \<open>
  \<open>vectorize\<close> and \<open>widen\<close> of \<open>lib/Transforms/Transforms.cpp\<close>. Both collect the stores that use the
  index of the loop, peel off the iterations that do not fill a step, and rewrite these stores in
  the body of the loop. The set of stores is a set of pointers; in the tree it is the stores that
  contain an index of the loop, and \<open>rewrite_sites\<close> puts statements in the place of each one.

  Peeling may return a null pointer after the checks have passed (for a loop end that is negative
  as an \<open>int\<close>); the loop is then changed although the result is a null pointer, and the result of the
  rewriting is \<open>Some None\<close>.
\<close>

section \<open>Sites\<close>

text \<open>\<open>collectStoreSites\<close> fails when an index of the loop is not below a \<open>StoreStmt\<close>.\<close>

fun sites_ok :: "loop_ptr \<Rightarrow> stmt \<Rightarrow> bool" where
  "sites_ok L (Loop L' body) \<longleftrightarrow> list_all (sites_ok L) body"
| "sites_ok L (IfRange val lo hi body) \<longleftrightarrow> \<not> dependsOnLoop (visit_expr val) L \<and> list_all (sites_ok L) body"
| "sites_ok L (StoreStmt gep x acc) \<longleftrightarrow> True"
| "sites_ok L s \<longleftrightarrow> \<not> dependsOnLoop (visit_stmt s) L"

definition collectStoreSites :: "loop_ptr \<Rightarrow> stmt list \<Rightarrow> stmt list option" where
  "collectStoreSites L body =
     (if list_all (sites_ok L) body
      then Some (filter (\<lambda>s. dependsOnLoop (visit_stmt s) L) (stores_of None (stmts_entered (visit_body body))))
      else None)"

text \<open>Statements in the place of every store that uses the index; \<open>enc\<close> are the loops around it.\<close>

fun rewrite_sites ::
  "(loop_ptr list \<Rightarrow> stmt \<Rightarrow> stmt list res) \<Rightarrow> loop_ptr \<Rightarrow> loop_ptr list \<Rightarrow> stmt \<Rightarrow> stmt list res" where
  "rewrite_sites f L enc (Loop L' body) =
     bind_res (map_res (rewrite_sites f L (L' # enc)) body) (\<lambda>bs. Inr [Loop L' (concat bs)])"
| "rewrite_sites f L enc (IfRange val lo hi body) =
     bind_res (map_res (rewrite_sites f L enc) body) (\<lambda>bs. Inr [IfRange val lo hi (concat bs)])"
| "rewrite_sites f L enc (StoreStmt gep x acc) =
     (if dependsOnLoop (visit_stmt (StoreStmt gep x acc)) L then f enc (StoreStmt gep x acc)
      else Inr [StoreStmt gep x acc])"
| "rewrite_sites f L enc s = Inr [s]"

text \<open>The iterations that do not fill a step: the tail loop, its statement and the heap.\<close>

definition peel_tail ::
  "u32 \<Rightarrow> heap \<Rightarrow> var_ptr list \<Rightarrow> loop_ptr list \<Rightarrow> loop_ptr \<Rightarrow> stmt list \<Rightarrow> (loop_ptr option \<times> stmt list \<times> heap) res" where
  "peel_tail rest h vs enc L body =
     (if rest = 0 then Inr (Some L, [], h)
      else
        bind_res (peel_loop (int_of_u32 (loop_end h L - rest)) h vs enc L body) (\<lambda>r.
        Inr (case r of None \<Rightarrow> (None, [], h) | Some (L2, new, h') \<Rightarrow> (Some L2, tl new, h'))))"

section \<open>Vectorization\<close>

fun mayVectorizeLoadStoreAccess :: "expr list \<Rightarrow> loop_ptr \<Rightarrow> bool" where
  "mayVectorizeLoadStoreAccess [] L = True"
| "mayVectorizeLoadStoreAccess [i] L =
     (getIndexAccessKind i L = Consecutive \<or> getIndexAccessKind i L = Uniform)"
| "mayVectorizeLoadStoreAccess (i # is) L =
     (getIndexAccessKind i L = Uniform \<and> mayVectorizeLoadStoreAccess is L)"

fun load_indices :: "expr \<Rightarrow> expr list" where
  "load_indices (LoadExpr ty g) = gep_indices g"
| "load_indices _ = []"

definition mayVectorizeExpr :: "expr \<Rightarrow> loop_ptr \<Rightarrow> bool" where
  "mayVectorizeExpr E L =
     list_all (\<lambda>ld. mayVectorizeLoadStoreAccess (load_indices ld) L) (fst (collectLoadStores (visit_expr E) None))"

fun mayVectorizeStore :: "loop_ptr \<Rightarrow> stmt \<Rightarrow> bool" where
  "mayVectorizeStore L (StoreStmt gep x acc) \<longleftrightarrow>
     \<not> isVector (getType x) \<and> mayVectorizeExpr x L \<and> mayVectorizeLoadStoreAccess (gep_indices gep) L"
| "mayVectorizeStore L s \<longleftrightarrow> False"

definition broadcast_to :: "expr \<Rightarrow> u32 \<Rightarrow> expr res" where
  "broadcast_to e vf = (if isVector (getType e) then Inr e else new_BroadcastExpr e vf)"

fun vectorizeExpr :: "heap \<Rightarrow> loop_ptr \<Rightarrow> u32 \<Rightarrow> expr \<Rightarrow> expr res" where
  "vectorizeExpr h L vf (IndexExpr ty L') =
     (if L' \<noteq> L then Inr (IndexExpr ty L')
      else bind_res (mkExprType IndexTy vf) (\<lambda>t. Inr (IndexExpr t L)))"
| "vectorizeExpr h L vf (BinaryExpr k l r) =
     bind_res (vectorizeExpr h L vf l) (\<lambda>VL. bind_res (vectorizeExpr h L vf r) (\<lambda>VR.
     if isVector (getType VL) \<noteq> isVector (getType VR) then
       bind_res (broadcast_to VL vf) (\<lambda>VL. bind_res (broadcast_to VR vf) (\<lambda>VR. new_BinaryExpr VL VR k))
     else new_BinaryExpr VL VR k))"
| "vectorizeExpr h L vf (UnaryExpr k e) =
     bind_res (vectorizeExpr h L vf e) (\<lambda>V. Inr (UnaryExpr k V))"
| "vectorizeExpr h L vf (LoadExpr ty g) =
     (if \<not> dependsOnLoop (visit_expr (LoadExpr ty g)) L then Inr (LoadExpr ty g)
      else
        (case g of
           GEPExpr a is \<Rightarrow>
             bind_res (new_GEPExpr h a is) (\<lambda>g'.
             bind_res (mkExprType (ty_elem (arg_type (hp_arg h a))) vf) (\<lambda>t. Inr (LoadExpr t g')))
         | _ \<Rightarrow> Inl (UB ''load without a subscript'')))"
| "vectorizeExpr h L vf (ConstantExpr v) = Inr (ConstantExpr v)"
| "vectorizeExpr h L vf (ConstantFPExpr f) = Inr (ConstantFPExpr f)"
| "vectorizeExpr h L vf (LoadLocalExpr ty v) = Inr (LoadLocalExpr ty v)"
| "vectorizeExpr h L vf e = Inl (AssertFail ''Invalid expression'')"

fun vectorizeStore :: "heap \<Rightarrow> loop_ptr \<Rightarrow> u32 \<Rightarrow> stmt \<Rightarrow> stmt res" where
  "vectorizeStore h L vf (StoreStmt gep x acc) =
     bind_res (vectorizeExpr h L vf x) (\<lambda>val. bind_res (broadcast_to val vf) (\<lambda>val.
     (case gep of
        GEPExpr a is \<Rightarrow> new_StoreStmt_arg h a is val acc
      | _ \<Rightarrow> Inl (UB ''store without a subscript''))))"
| "vectorizeStore h L vf s = Inl (UB ''not a store'')"

fun store_scope :: "stmt \<Rightarrow> bool" where
  "store_scope (CallStmt name params) = False"
| "store_scope (StoreLocalStmt v x acc) = False"
| "store_scope s = True"

definition vectorize_loop :: "u32 \<Rightarrow> (loop_ptr option) loop_rewrite_fun" where
  "vectorize_loop vf h vs enc L body =
     (if loop_end h L < vf \<or> loop_stride h L \<noteq> 1 then Inr None
      else if \<not> list_all store_scope (collectStmts (Loop L body)) then Inr None
      else
        (case collectStoreSites L body of
           None \<Rightarrow> Inr None
         | Some stores \<Rightarrow>
             if \<not> list_all (mayVectorizeStore L) stores then Inr None
             else
               bind_res (mod_u32 (loop_end h L) vf) (\<lambda>rest.
               bind_res (peel_tail rest h vs enc L body) (\<lambda>(tail, after, h1).
               bind_res (map_res (rewrite_sites
                   (\<lambda>enc S. bind_res (vectorizeStore h1 L vf S) (\<lambda>S'. Inr [S'])) L (L # enc)) body) (\<lambda>bs.
               Inr (Some (tail, Loop L (concat bs) # after, setStride h1 L vf)))))))"

definition vectorize :: "heap \<Rightarrow> program \<Rightarrow> loop_ptr \<Rightarrow> u32 \<Rightarrow> (loop_ptr option \<times> program \<times> heap) option res" where
  "vectorize h p L vf = on_loop (vectorize_loop vf) h p L"

section \<open>Widening\<close>

definition shifted_index :: "loop_ptr \<Rightarrow> u32 \<Rightarrow> expr res" where
  "shifted_index L offset = new_BinaryExpr (new_IndexExpr L) (ConstantExpr (i64_of_u32 offset)) Add"

text \<open>\<open>widenStore\<close>: the duplicate that is inserted after the store.\<close>

definition widenStore :: "heap \<Rightarrow> var_ptr list \<Rightarrow> loop_ptr list \<Rightarrow> loop_ptr \<Rightarrow> u32 \<Rightarrow> stmt \<Rightarrow> stmt res" where
  "widenStore h vs enc L offset S =
     bind_res (clone_stmt h vs enc empty_ctx S) (\<lambda>(dup, h', c).
     bind_res (shifted_index L offset) (\<lambda>expr. Inr (subst_stmt L expr dup)))"

text \<open>The duplicates are made from the largest offset down, each inserted right after the store.\<close>

definition widen_copies ::
  "heap \<Rightarrow> var_ptr list \<Rightarrow> loop_ptr list \<Rightarrow> loop_ptr \<Rightarrow> u32 \<Rightarrow> u32 \<Rightarrow> stmt \<Rightarrow> stmt list res" where
  "widen_copies h vs enc L stride wfac S =
     bind_res (map_res (\<lambda>i. widenStore h vs enc L ((wfac - of_nat i) * stride) S) [1..<unat wfac]) (\<lambda>dups.
     Inr (S # rev dups))"

definition widen_loop :: "u32 \<Rightarrow> (loop_ptr option) loop_rewrite_fun" where
  "widen_loop wfac h vs enc L body =
     bind_res (require (1 < wfac \<and> wfac < 1024) ''Unexpected widen factor'') (\<lambda>_.
     let stride = loop_stride h L; newStride = stride * wfac;
         (lloads, lstores) = collectLocals (visit_stmt (Loop L body)) None in
     if lloads \<noteq> [] \<or> lstores \<noteq> [] then Inr None
     else if loop_end h L < newStride then Inr None
     else
       (case collectStoreSites L body of
          None \<Rightarrow> Inr None
        | Some stores \<Rightarrow>
            bind_res (mod_u32 (loop_end h L) newStride) (\<lambda>rest.
            bind_res (peel_tail rest h vs enc L body) (\<lambda>(tail, after, h1).
            bind_res (map_res (rewrite_sites (\<lambda>enc S. widen_copies h1 vs enc L stride wfac S) L (L # enc)) body) (\<lambda>bs.
            Inr (Some (tail, Loop L (concat bs) # after, setStride h1 L newStride)))))))"

definition widen :: "heap \<Rightarrow> program \<Rightarrow> loop_ptr \<Rightarrow> u32 \<Rightarrow> (loop_ptr option \<times> program \<times> heap) option res" where
  "widen h p L wfac = on_loop (widen_loop wfac) h p L"

end
