(* ===== verification/LoopRewrites.thy ===== *)
theory LoopRewrites
  imports Rewriting
begin

text \<open>
  Tiling, peeling and unrolling meet the contract of theory Rewriting: the proofs of its laws, and
  the three interpretations. The arithmetic of the counters is in theory SemFacts; the conditions
  are that the stride is positive and the bounds are C++ \<open>int\<close>s where the code converts them, and,
  for a tiling that needs a range check, that the machine runs an \<open>IfRange\<close> by its range.
\<close>

section \<open>Substitution keeps bodies well formed\<close>

lemma subst_expr_below: "below_expr n e \<Longrightarrow> below_expr n x \<Longrightarrow> below_expr n (subst_expr L x e)"
  by (induction e) auto

lemma subst_below: "below n s \<Longrightarrow> below_expr n x \<Longrightarrow> below n (subst_stmt L x s)"
  by (induction s) (auto intro: subst_expr_below)

lemma subst_expr_kinds: "index_kinds_ok e \<Longrightarrow> index_kinds_ok x \<Longrightarrow> index_kinds_ok (subst_expr L x e)"
  by (induction e) (auto simp: list_all_iff)

lemma subst_kinds: "index_kinds_stmt s \<Longrightarrow> index_kinds_ok x \<Longrightarrow> index_kinds_stmt (subst_stmt L x s)"
  by (induction s) (auto simp: list_all_iff intro: subst_expr_kinds)

lemma subst_loop_list [simp]: "loop_list (subst_stmt L x s) = loop_list s"
proof (induction s)
  case (Loop L' body)
  then have "map (loop_list \<circ> subst_stmt L x) body = map loop_list body" by simp
  then show ?case by (simp only: subst_stmt.simps loop_list.simps map_map)
next
  case (IfRange val lo hi body)
  then have "map (loop_list \<circ> subst_stmt L x) body = map loop_list body" by simp
  then show ?case by (simp only: subst_stmt.simps loop_list.simps map_map)
qed simp_all

lemma subst_body_loops [simp]: "body_loops (map (subst_stmt L x) ss) = body_loops ss"
  by (simp add: comp_def)

lemma subst_expr_loops: "loops_of_expr (subst_expr L x e) \<subseteq> (loops_of_expr e - {L}) \<union> loops_of_expr x"
  by (induction e) auto

lemma subst_free: "free_loops (subst_stmt L x s) \<subseteq> (free_loops s - {L}) \<union> loops_of_expr x"
proof (induction s)
  case (Loop L' body)
  then show ?case by fastforce
next
  case (IfRange val lo hi body)
  then show ?case using subst_expr_loops [of L x val] by fastforce
next
  case (CallStmt name params)
  then show ?case using subst_expr_loops [of L x] by fastforce
next
  case (StoreStmt g e acc)
  then show ?case using subst_expr_loops [of L x g] subst_expr_loops [of L x e] by auto
next
  case (StoreLocalStmt v e acc)
  then show ?case using subst_expr_loops [of L x e] by auto
qed

lemma subst_free_of: "free_of (map (subst_stmt L x) ss) \<subseteq> (free_of ss - {L}) \<union> loops_of_expr x"
  unfolding free_of_def using subst_free by fastforce

lemma wf_subst:
  assumes "wf_body h ss" "below_expr (hp_next h) x" "index_kinds_ok x"
    "loops_of_expr x \<inter> set (body_loops ss) = {}"
  shows "wf_body h (map (subst_stmt L x) ss)"
proof -
  have "free_of (map (subst_stmt L x) ss) \<inter> set (body_loops ss) = {}"
    using subst_free_of [of L x ss] assms(1,4) unfolding wf_body_def by blast
  moreover have "list_all (below (hp_next h)) (map (subst_stmt L x) ss)"
    "list_all index_kinds_stmt (map (subst_stmt L x) ss)"
    using assms(1-3) by (auto simp: wf_body_def list_all_iff intro: subst_below subst_kinds)
  ultimately show ?thesis using assms(1) unfolding wf_body_def subst_body_loops by blast
qed

section \<open>Tiling\<close>

definition tile_index :: "loop_ptr \<Rightarrow> loop_ptr \<Rightarrow> u32 \<Rightarrow> expr" where
  "tile_index NL L bs =
     BinaryExpr Add (new_IndexExpr NL) (BinaryExpr Mul (new_IndexExpr L) (ConstantExpr (i64_of_u32 bs)))"

definition tile_content :: "heap \<Rightarrow> u32 \<Rightarrow> loop_ptr \<Rightarrow> stmt list \<Rightarrow> stmt list" where
  "tile_content h bs L body =
     (if loop_end h L mod bs \<noteq> 0 then [IfRange (new_IndexExpr L) 0 (int_of_u32 (loop_end h L)) body]
      else body)"

definition tile_heap :: "heap \<Rightarrow> u32 \<Rightarrow> loop_ptr \<Rightarrow> heap" where
  "tile_heap h bs L =
     setStride (setEnd (snd (new_loop h (newIndexName (loop_name h L) ''tile'' bs) bs (loop_stride h L))) L
       (loop_end h L div bs + (if loop_end h L mod bs \<noteq> 0 then 1 else 0))) L 1"

lemma tile_loop_elim:
  assumes "tile_loop bs h vs enc L body = Inr (Some (NL, new, h'))" "L < hp_next h"
  shows "bs < loop_end h L" "loop_stride h L \<noteq> 0" "bs mod loop_stride h L = 0" "bs \<noteq> 0"
    "NL = hp_next h" "h' = tile_heap h bs L"
    "new = [Loop L [Loop NL (map (subst_stmt L (tile_index NL L bs)) (tile_content h bs L body))]]"
proof -
  have e: "loop_end (snd (new_loop h n e s)) L = loop_end h L" for n e s
    using assms(2) by (simp add: new_loop_def loop_end_def)
  have A: "\<not> loop_end h L \<le> bs" "loop_stride h L \<noteq> 0" "bs mod loop_stride h L = 0" "bs \<noteq> 0"
    using assms(1) by (auto simp: tile_loop_def mod_u32_def split: if_splits)
  then show "bs < loop_end h L" "loop_stride h L \<noteq> 0" "bs mod loop_stride h L = 0" "bs \<noteq> 0"
    by simp_all
  obtain NL' h1 where N: "new_loop h (newIndexName (loop_name h L) ''tile'' bs) bs (loop_stride h L) = (NL', h1)"
    by fastforce
  then have "NL' = hp_next h" and h1: "loop_end h1 L = loop_end h L"
    using e by (auto simp: new_loop_def)
  then show "NL = hp_next h" "h' = tile_heap h bs L"
    "new = [Loop L [Loop NL (map (subst_stmt L (tile_index NL L bs)) (tile_content h bs L body))]]"
    using assms(1) A N
    by (auto simp: tile_loop_def mod_u32_def tile_heap_def tile_content_def tile_index_def
        new_BinaryExpr_def new_IndexExpr_def bind_require Let_def split: if_splits)
qed

lemma tile_heap_facts:
  assumes "L < hp_next h"
  shows "heap_keeps L h (tile_heap h bs L)" "hp_next (tile_heap h bs L) = Suc (hp_next h)"
    "loop_end (tile_heap h bs L) L = loop_end h L div bs + (if loop_end h L mod bs \<noteq> 0 then 1 else 0)"
    "loop_stride (tile_heap h bs L) L = 1"
    "loop_end (tile_heap h bs L) (hp_next h) = bs"
    "loop_stride (tile_heap h bs L) (hp_next h) = loop_stride h L"
  using assms
  by (simp_all add: tile_heap_def heap_keeps_def new_loop_def setEnd_def setStride_def loop_end_def
      loop_stride_def loop_name_def)

lemma tile_content_wf:
  assumes "wf_body h body" "L < hp_next h" "L \<notin> set (body_loops body)"
  shows "wf_body h (tile_content h bs L body)"
    "body_loops (tile_content h bs L body) = body_loops body"
    "free_of (tile_content h bs L body) \<subseteq> insert L (free_of body)"
  using assms
  by (auto simp: tile_content_def wf_body_IfRange new_IndexExpr_def free_of_def)

lemma tile_shape:
  assumes r: "tile_loop bs h vs enc L body = Inr (Some (NL, new, h'))" and wf: "wf_body h [Loop L body]"
  shows "fits_body h h' [Loop L body] new"
proof -
  let ?c = "tile_content h bs L body"
  let ?x = "tile_index NL L bs"
  have L: "L < hp_next h" "wf_body h body" "L \<notin> set (body_loops body)" using wf by (auto simp: wf_body_Loop)
  note E = tile_loop_elim [OF r L(1)]
  note H = tile_heap_facts [OF L(1), of bs, folded E(6)]
  have c: "wf_body h' ?c" "body_loops ?c = body_loops body" "free_of ?c \<subseteq> insert L (free_of body)"
    using tile_content_wf [OF L(2,1,3), of bs] H(2) by (auto intro: wf_body_keeps)
  have NL: "NL \<notin> set (body_loops body)" "NL \<noteq> L" "NL \<notin> free_of body"
    using E(5) L wf_body_bound [OF L(2)] wf_body_free_bound [OF L(2)] by auto
  have x: "below_expr (hp_next h') ?x" "index_kinds_ok ?x" "loops_of_expr ?x = {NL, L}"
    using E(5) H(2) L(1) by (auto simp: tile_index_def new_IndexExpr_def)
  have "wf_body h' (map (subst_stmt L ?x) ?c)"
    using wf_subst [OF c(1) x(1,2)] x(3) c(2) NL L(3) by auto
  then have W: "wf_body h' [Loop L [Loop NL (map (subst_stmt L ?x) ?c)]]"
    using E(5) H(2) L(1,3) NL unfolding wf_body_Loop
    by (simp add: c(2) wf_body_Loop del: set_concat map_map)
  have "free_of (map (subst_stmt L ?x) ?c) \<subseteq> free_of body \<union> {NL, L}"
    using subst_free_of [of L ?x ?c] c(3) x(3) by auto
  then have "free_of [Loop L [Loop NL (map (subst_stmt L ?x) ?c)]] \<subseteq> free_of [Loop L body]"
    by (auto simp: free_of_def)
  with W show ?thesis using E(5) c(2) unfolding E(7) by (simp add: fits_body_def del: set_concat map_map)
qed

lemma sint_of_nat_i64: "x < 2 ^ 63 \<Longrightarrow> sint (of_nat x :: i64) = int x"
  using sint_word_of_int_i64 [of "int x"] by (simp add: in_i64_def)

lemma fold_opt_same: "(\<And>x u. x \<in> set xs \<Longrightarrow> f x u = g x u) \<Longrightarrow> fold_opt f xs s = fold_opt g xs s"
  by (rule fold_opt_cong) auto

definition tile_pre :: "u32 \<Rightarrow> machine \<Rightarrow> heap \<Rightarrow> loop_ptr \<Rightarrow> bool" where
  "tile_pre bs M h L \<longleftrightarrow>
     loop_end h L mod bs \<noteq> 0 \<longrightarrow> m_guard M = range_guard \<and> unat (loop_end h L) < 2 ^ 31"

lemma int_of_u32_small: "unat w < 2 ^ 31 \<Longrightarrow> int_of_u32 w = int (unat w)"
proof -
  assume a: "unat w < 2 ^ 31"
  then have "signed_take_bit 31 (int (unat w)) = int (unat w)"
    by (intro signed_take_bit_int_eq_self) (simp_all del: of_nat_unat)
  then show ?thesis unfolding int_of_u32_def sint_uint uint_nat by (simp del: of_nat_unat)
qed

text \<open>The value of the tile index, and the run of the content for it.\<close>

lemma tile_index_value:
  "NL \<noteq> L \<Longrightarrow> index_value M h (\<rho>(L := of_nat i, NL := of_nat j)) (tile_index NL L bs)
     (of_nat (j + i * unat bs))"
  by (simp add: index_value_def tile_index_def new_IndexExpr_def i64_of_u32_def)

lemma tile_content_run:
  assumes wf: "wf_body h body" and L: "L < hp_next h" "L \<notin> set (body_loops body)"
    and NL: "NL \<notin> set (body_loops body)" "NL \<notin> free_of body" "NL \<noteq> L"
    and H: "heap_keeps L h h'" and pre: "tile_pre bs M h L" and v: "v < 2 ^ 63"
    and inside: "loop_end h L mod bs = 0 \<Longrightarrow> v < unat (loop_end h L)"
    and x: "index_value M h' \<rho>' x (of_nat v)" "loops_of_expr x \<subseteq> {NL, L}"
    and same: "\<And>l. l \<noteq> L \<Longrightarrow> l \<noteq> NL \<Longrightarrow> \<rho>' l = \<rho> l"
  shows "exec_body M h' \<rho>' (map (subst_stmt L x) (tile_content h bs L body)) st =
    (if v < unat (loop_end h L) then exec_body M h (\<rho>(L := of_nat v)) body st else Some st)"
proof -
  have "exec_body M h' \<rho>' (map (subst_stmt L x) body) u = exec_body M h' (\<rho>'(L := of_nat v)) body u" for u
    using x L(2) NL(1) by (intro subst_exec_body) auto
  also have "\<dots> u = exec_body M h (\<rho>'(L := of_nat v)) body u" for u
    using H wf L(2) by (rule exec_keeps)
  also have "\<dots> u = exec_body M h (\<rho>(L := of_nat v)) body u" for u
    using NL(2) same by (intro exec_body_cong) (auto simp: free_of_def)
  finally have B: "exec_body M h' \<rho>' (map (subst_stmt L x) body) u = exec_body M h (\<rho>(L := of_nat v)) body u"
    for u .
  show ?thesis
  proof (cases "loop_end h L mod bs = 0")
    case True
    then show ?thesis using inside B by (simp add: tile_content_def)
  next
    case False
    then have g: "m_guard M = range_guard" "int_of_u32 (loop_end h L) = int (unat (loop_end h L))"
      using pre int_of_u32_small by (auto simp: tile_pre_def)
    have "eval M h' st \<rho>' x = Some (VIdx [of_nat v])" using x(1) by (simp add: index_value_def)
    then have "exec_body M h' \<rho>' (map (subst_stmt L x) (tile_content h bs L body)) st =
      (if range_guard (of_nat v) 0 (int (unat (loop_end h L)))
       then exec_body M h' \<rho>' (map (subst_stmt L x) body) st else Some st)"
      using False g unfolding tile_content_def
      by (simp add: new_IndexExpr_def del: fold_opt.simps(2) of_nat_unat)
    then show ?thesis using B sint_of_nat_i64 [OF v] by (simp add: range_guard_def del: of_nat_unat)
  qed
qed

lemma unat_mod_0: "(a :: u32) mod b = 0 \<longleftrightarrow> unat b dvd unat a"
  by (metis dvd_eq_mod_eq_0 unat_mod unat_0 unat_eq_zero)

lemma tile_blocks:
  fixes e bs :: u32
  assumes "bs \<noteq> 0"
  defines "n \<equiv> unat (e div bs + (if e mod bs \<noteq> 0 then 1 else 0))"
  shows "unat e \<le> n * unat bs" "e mod bs = 0 \<Longrightarrow> n * unat bs = unat e" "n * unat bs < 2 ^ 33"
proof -
  let ?e = "unat e" and ?b = "unat bs"
  have b: "0 < ?b" using assms(1) by (simp add: unat_gt_0)
  have e: "?e < 2 ^ 32" "?b < 2 ^ 32" by (rule unat_u32_bound)+
  have "n = ?e div ?b + (if ?e mod ?b \<noteq> 0 then 1 else 0)"
  proof (cases "e mod bs = 0")
    case True
    then have "?e mod ?b = 0" by (metis unat_mod unat_0)
    with True show ?thesis by (simp add: n_def unat_div)
  next
    case False
    then have m: "?e mod ?b \<noteq> 0" by (metis unat_mod unat_eq_zero)
    then have "?b \<noteq> 1" by auto
    then have "2 \<le> ?b" using b by linarith
    then have "?e div ?b \<le> ?e div 2" by (intro div_le_mono2) auto
    then have "unat (e div bs) + 1 < 2 ^ 32" using e by (simp add: unat_div)
    then have "unat (e div bs + 1) = unat (e div bs) + 1" by (simp add: unat_word_ariths)
    with False m show ?thesis by (simp add: n_def unat_div)
  qed
  moreover have "e mod bs = 0 \<longleftrightarrow> ?e mod ?b = 0" by (metis unat_mod unat_0 unat_eq_zero)
  moreover define t where "t = ?b * (?e div ?b)"
  ultimately have nb: "n * ?b = t + (if e mod bs = 0 then 0 else ?b)" by (simp add: algebra_simps)
  have t: "?e < ?b + t" "t \<le> ?e" "e mod bs = 0 \<Longrightarrow> t = ?e"
    using b by (simp_all add: t_def dividend_less_times_div unat_mod_0)
  show "?e \<le> n * ?b" "e mod bs = 0 \<Longrightarrow> n * ?b = ?e" "n * ?b < 2 ^ 33"
    unfolding nb using e t by auto
qed

lemma fold_opt_map_fun: "fold_opt f (map g xs) = fold_opt (\<lambda>x. f (g x)) xs"
  by (rule ext) (rule fold_opt_map)

lemma tile_runs:
  assumes r: "tile_loop bs h vs enc L body = Inr (Some (NL, new, h'))" and wf: "wf_body h [Loop L body]"
    and pre: "tile_pre bs M h L"
  shows "runs_like M h h' [Loop L body] new"
proof -
  have L: "L < hp_next h" "wf_body h body" "L \<notin> set (body_loops body)" using wf by (auto simp: wf_body_Loop)
  note E = tile_loop_elim [OF r L(1)]
  note H = tile_heap_facts [OF L(1), of bs, folded E(6)]
  have NL: "NL \<notin> set (body_loops body)" "NL \<notin> free_of body" "NL \<noteq> L"
    using E(5) L wf_body_bound [OF L(2)] wf_body_free_bound [OF L(2)] by auto
  define e s b where "e = unat (loop_end h L)" and "s = unat (loop_stride h L)" and "b = unat bs"
  define n where "n = unat (loop_end h' L)"
  have s: "0 < s" "s dvd b"
    using E(2,3) by (auto simp: s_def b_def unat_gt_0 dvd_eq_mod_eq_0 simp flip: unat_mod)
  have nb: "e \<le> n * b" "loop_end h L mod bs = 0 \<Longrightarrow> n * b = e" "n * b < 2 ^ 33"
    using tile_blocks [OF E(4), of "loop_end h L"] unfolding n_def e_def b_def H(3) by auto
  let ?c = "map (subst_stmt L (tile_index NL L bs)) (tile_content h bs L body)"
  have "exec M h' \<rho> (Loop L [Loop NL ?c]) st = exec M h \<rho> (Loop L body) st" for \<rho> st
  proof -
    define G where "G v = exec_body M h (\<rho>(L := of_nat v)) body" for v
    have in_blk: "j + i * b < n * b" if "j \<in> set (count_up s b 0)" "i \<in> set [0..<n]" for i j
    proof -
      have "Suc i * b \<le> n * b" using that(2) by (intro mult_le_mono1) simp
      moreover have "j < b" using count_up_set [OF that(1)] by simp
      ultimately show ?thesis by simp
    qed
    have blk: "exec_body M h' (\<rho>(L := of_nat i, NL := of_nat j)) ?c u =
        (if j + i * b < e then G (j + i * b) u else Some u)"
      if "j \<in> set (count_up s b 0)" "i \<in> set [0..<n]" for i j u
      unfolding G_def e_def
      by (rule tile_content_run [OF L(2,1,3) NL H(1) pre _ _ tile_index_value [OF NL(3), where bs = bs, folded b_def]])
        (use in_blk [OF that] nb in \<open>auto simp: tile_index_def new_IndexExpr_def e_def\<close>)
    have inner: "exec_body M h' (\<rho>(L := of_nat i)) [Loop NL ?c] u =
        fold_opt (\<lambda>j u. if j + i * b < e then G (j + i * b) u else Some u) (count_up s b 0) u"
      if "i \<in> set [0..<n]" for i u
      using E(2,5) H(5,6) blk [OF _ that] unfolding fold_opt_single exec.simps
      by (auto simp: s_def b_def intro!: fold_opt_same)
    have "exec M h' \<rho> (Loop L [Loop NL ?c]) st =
        fold_opt (\<lambda>i. exec_body M h' (\<rho>(L := of_nat i)) [Loop NL ?c]) [0..<n] st"
      using H(4) unfolding exec.simps by (simp add: n_def count_up_one del: fold_opt.simps(2) upt_Suc)
    also have "\<dots> = fold_opt (\<lambda>i. fold_opt (\<lambda>j u. if j + i * b < e then G (j + i * b) u else Some u)
        (count_up s b 0)) [0..<n] st"
      using inner by (intro fold_opt_same) blast
    also have "\<dots> = fold_opt (\<lambda>v u. if v < e then G v u else Some u)
        (concat (map (\<lambda>i. map (\<lambda>j. j + i * b) (count_up s b 0)) [0..<n])) st"
      by (simp add: fold_opt_concat fold_opt_map_fun)
    also have "\<dots> = fold_opt G (count_up s e 0) st"
      unfolding count_up_blocks [OF s(2)] fold_opt_filter count_up_filter [OF nb(1)] ..
    also have "\<dots> = exec M h \<rho> (Loop L body) st"
      using E(2) unfolding exec.simps by (simp add: G_def [abs_def] e_def s_def)
    finally show ?thesis .
  qed
  then show ?thesis unfolding runs_like_def E(7) fold_opt_single by simp
qed

interpretation tiling: loop_rewriting "tile_loop bs" "tile_pre bs" for bs
proof (unfold_locales, goal_cases)
  case (1 h vs enc L body NL new h')
  then have L: "L < hp_next h" by (simp add: wf_body_Loop)
  then show ?case using tile_heap_facts(1) [OF L] tile_loop_elim(6) [OF 1(1) L] by simp
next
  case (2 h vs enc L body NL new h')
  then show ?case by (rule tile_shape)
next
  case (3 h vs enc L body NL new h' M)
  then show ?case by (rule tile_runs)
qed

section \<open>Peeling\<close>

lemma peel_point_bounds:
  assumes "peel_point fin k0 = Inr (Some k)" "k \<le> int_of_u32 fin"
  shows "1 \<le> k" "unat fin < 2 ^ 31" "k \<le> int (unat fin)" "int_of_u32 fin = int (unat fin)"
proof -
  show k: "1 \<le> k"
    using assms(1) by (auto simp: peel_point_def Let_def split: if_splits)
  then have pos: "0 \<le> int_of_u32 fin" using assms(2) by simp
  show lt: "unat fin < 2 ^ 31"
  proof (rule ccontr)
    assume "\<not> unat fin < 2 ^ 31"
    then have "2 ^ 31 \<le> int (unat fin)" by (simp del: of_nat_unat)
    moreover have "int (unat fin) < 2 ^ 32" using unat_u32_bound [of fin] by (simp del: of_nat_unat)
    moreover have "signed_take_bit 31 x < 0" if "2 ^ 31 \<le> x" "x < 2 ^ 32" for x :: int
    proof -
      have "signed_take_bit 31 x = signed_take_bit 31 (x - 2 ^ 32)"
        by (simp add: signed_take_bit_eq_iff_take_bit_eq take_bit_eq_mod)
      also have "\<dots> = x - 2 ^ 32" using that by (intro signed_take_bit_int_eq_self) simp_all
      finally show ?thesis using that by simp
    qed
    ultimately have "int_of_u32 fin < 0"
      unfolding int_of_u32_def sint_uint uint_nat by (simp del: of_nat_unat)
    with pos show False by simp
  qed
  then show e: "int_of_u32 fin = int (unat fin)" by (rule int_of_u32_small)
  with assms(2) show "k \<le> int (unat fin)" by simp
qed

lemma unat_u32_of_int: "0 \<le> x \<Longrightarrow> x < 2 ^ 32 \<Longrightarrow> unat (u32_of_int x) = nat x"
  by (simp add: u32_of_int_def unat_eq_nat_uint uint_word_of_int)

lemma of_nat_i64_of_int: "0 \<le> x \<Longrightarrow> i64_of_int x = of_nat (nat x)"
  by (simp add: i64_of_int_def)

lemma peel_loop_elim:
  assumes "peel_loop k0 h vs enc L body = Inr (Some (L2, new, h'))" "L < hp_next h"
  obtains k h1a c1 body2 h2 c where
    "peel_point (loop_end h L) k0 = Inr (Some k)" "k \<le> int_of_u32 (loop_end h L)"
    "loop_stride h L \<noteq> 0" "u32_of_int k mod loop_stride h L = 0" "L2 = hp_next h"
    "new_loop (setEnd h L (u32_of_int k)) (loop_name h L) (u32_of_int k) (loop_stride h L) = (L2, h1a)"
    "map_loop empty_ctx L L2 = Inr c1"
    "clone_scope h1a vs (L # enc) c1 body = Inr (body2, h2, c)"
    "new = [Loop L body, Loop L2 (map (subst_stmt L2
        (BinaryExpr Add (ConstantExpr (i64_of_int k)) (new_IndexExpr L2))) body2)]"
    "h' = setName (setEnd h2 L2 (u32_of_int (int_of_u32 (loop_end h L) - k))) L2
        (newIndexName (loop_name (setEnd h2 L2 (u32_of_int (int_of_u32 (loop_end h L) - k))) L) ''peeled'' 0)"
proof -
  obtain k where k: "peel_point (loop_end h L) k0 = Inr (Some k)"
    using assms(1) by (auto simp: peel_loop_def Let_def split: option.splits)
  let ?h1 = "setEnd h L (u32_of_int k)"
  have f: "loop_name ?h1 L = loop_name h L" "loop_end ?h1 L = u32_of_int k"
    "loop_stride ?h1 L = loop_stride h L" "hp_next ?h1 = hp_next h"
    by (simp_all add: setEnd_def loop_name_def loop_end_def loop_stride_def)
  obtain L' h1a where n: "new_loop ?h1 (loop_name h L) (u32_of_int k) (loop_stride h L) = (L', h1a)"
    by fastforce
  then have L': "L' = hp_next h" using f(4) by (simp add: new_loop_def)
  have A: "k \<le> int_of_u32 (loop_end h L)" "loop_stride h L \<noteq> 0" "u32_of_int k mod loop_stride h L = 0"
    using assms(1) k by (auto simp: peel_loop_def Let_def mod_u32_def split: if_splits)
  with assms(1) k n f obtain c1 body2 h2 c where
    B: "map_loop empty_ctx L L' = Inr c1" "clone_scope h1a vs (L # enc) c1 body = Inr (body2, h2, c)"
    and C: "L2 = L'" "new = [Loop L body, Loop L' (map (subst_stmt L'
        (BinaryExpr Add (ConstantExpr (i64_of_int k)) (new_IndexExpr L'))) body2)]"
      "h' = setName (setEnd h2 L' (u32_of_int (int_of_u32 (loop_end h L) - k))) L'
        (newIndexName (loop_name (setEnd h2 L' (u32_of_int (int_of_u32 (loop_end h L) - k))) L) ''peeled'' 0)"
    by (auto simp: peel_loop_def Let_def mod_u32_def new_BinaryExpr_def new_IndexExpr_def bind_require
        split: if_splits)
  show ?thesis by (rule that [of k h1a c1 body2 h2 c]) (use k A B C L' n in auto)
qed

text \<open>The copy of the body, with the context the loop puts in the map.\<close>

lemma clone_body_facts:
  assumes wf: "wf_body h [Loop L body]"
    and n: "new_loop h nm fin sd = (L2, h1)" and m: "map_loop empty_ctx L L2 = Inr c1"
    and cl: "clone_scope h1 vs (L # enc) c1 body = Inr (body2, h2, c)"
    and same: "loop_name h L = nm" "loop_end h L = fin" "loop_stride h L = sd"
  shows "heap_ext h h2" "wf_body h2 body2" "L2 < hp_next h2" "L2 \<notin> set (body_loops body2)"
    "\<forall>x \<in> set (body_loops body2). hp_next h < x" "free_of body2 \<subseteq> insert L2 (free_of body - {L})"
    "loop_end h2 L2 = fin" "loop_stride h2 L2 = sd"
    "(\<And>x. x \<in> free_of body \<Longrightarrow> x \<noteq> L \<Longrightarrow> \<rho>' x = \<rho> x) \<Longrightarrow> \<rho>' L2 = \<rho> L \<Longrightarrow>
       exec_body M h2 \<rho>' body2 st = exec_body M h \<rho> body st"
proof -
  have L: "L < hp_next h" "wf_body h body" "L \<notin> set (body_loops body)" using wf by (auto simp: wf_body_Loop)
  have L2: "L2 = hp_next h" "hp_next h1 = Suc (hp_next h)" "loop_end h1 L2 = fin" "loop_stride h1 L2 = sd"
    using n by (auto simp: new_loop_def loop_end_def loop_stride_def)
  have ext1: "heap_ext h h1" using n by (rule heap_ext_new)
  have only: "loops_only c1" using map_loop_loops_only [OF m] by (simp add: loops_only_def empty_ctx_def)
  have ok: "ctx_ok h1 c1" using ctx_ok_map_loop [OF ctx_ok_empty L(1) _ m] n same by simp
  have low: "\<forall>s \<in> set body. below (hp_next h1) s"
    using L(2) heap_ext_next [OF ext1] by (auto simp: wf_body_def list_all_iff intro: below_mono)
  have kinds: "list_all index_kinds_stmt body" "distinct (body_loops body)"
    "(\<Union>s \<in> set body. free_loops s) \<inter> (\<Union>s \<in> set body. loops_in s) = {}"
    using L(2) by (auto simp: wf_body_def free_of_def)
  have cs: "cloned_scope h1 body (body2, h2, c)" using clone_stmts_hash(2) [OF cl ok low kinds(1)] .
  have sh: "cloned_shape h1 c1 body (body2, h2, c)"
    using clone_shape_both(2) [OF cl ok low kinds] .
  have ext2: "heap_ext h1 h2" using cs by (simp add: cloned_scope_def)
  show "heap_ext h h2" using ext1 ext2 by (rule heap_ext_trans)
  show n2: "L2 < hp_next h2" using L2 heap_ext_next [OF ext2] by simp
  show fresh: "\<forall>x \<in> set (body_loops body2). hp_next h < x"
    using sh L2(2) by (auto simp: cloned_shape_def simp del: set_concat)
  then show "L2 \<notin> set (body_loops body2)" using L2(1) by auto
  have g: "get_loop c1 L = L2" "\<And>x. x \<noteq> L \<Longrightarrow> get_loop c1 x = x"
    using m by (auto simp: map_loop_def get_loop_def empty_ctx_def)
  have "get_loop c1 ` free_of body \<subseteq> insert L2 (free_of body - {L})"
    using g by (auto split: if_splits) (metis g(2))+
  moreover have "free_of body2 \<subseteq> get_loop c1 ` free_of body"
    using sh by (simp add: cloned_shape_def free_of_def)
  ultimately show free: "free_of body2 \<subseteq> insert L2 (free_of body - {L})" by blast
  have "x \<le> hp_next h" if "x \<in> free_of body2" for x
    using free that wf_body_free_bound [OF L(2), of x] L2(1) by auto
  then have "free_of body2 \<inter> set (body_loops body2) = {}" using fresh by fastforce
  moreover have "list_all (below (hp_next h2)) body2" using cs by (simp add: cloned_scope_def list_all_iff)
  ultimately show "wf_body h2 body2" using sh by (simp add: wf_body_def cloned_shape_def)
  show "loop_end h2 L2 = fin" "loop_stride h2 L2 = sd"
    using ext2 L2 by (auto simp: heap_ext_def loop_end_def loop_stride_def)
  show "exec_body M h2 \<rho>' body2 st = exec_body M h \<rho> body st"
    if "\<And>x. x \<in> free_of body \<Longrightarrow> x \<noteq> L \<Longrightarrow> \<rho>' x = \<rho> x" "\<rho>' L2 = \<rho> L"
  proof -
    have "tracks c1 (\<Union>s \<in> set body. free_loops s) \<rho> \<rho>'"
      unfolding tracks_def
    proof
      fix x assume "x \<in> (\<Union>s \<in> set body. free_loops s)"
      then show "\<rho>' (get_loop c1 x) = \<rho> x"
        using that g by (cases "x = L") (auto simp: free_of_def)
    qed
    then have "exec_body M h2 \<rho>' body2 st = exec_body M h1 \<rho> body st"
      by (rule clone_exec_both(2) [OF cl ok only low kinds])
    also have "\<dots> = exec_body M h \<rho> body st"
      using L(2) by (intro exec_body_ext [OF ext1]) (auto simp: wf_body_def list_all_iff)
    finally show ?thesis .
  qed
qed

lemma setters_next [simp]:
  "hp_next (setEnd h L e) = hp_next h" "hp_next (setStride h L d) = hp_next h"
  "hp_next (setName h L n) = hp_next h"
  by (simp_all add: setEnd_def setStride_def setName_def)

lemma setEnd_keeps: "heap_keeps L h (setEnd h L e)" and setName_keeps: "heap_keeps L h (setName h L n)"
  by (simp_all add: heap_keeps_def setEnd_def setName_def)

lemma setters_bounds [simp]:
  "loop_end (setEnd h L e) x = (if x = L then e else loop_end h x)"
  "loop_stride (setEnd h L e) x = loop_stride h x" "loop_name (setEnd h L e) x = loop_name h x"
  "loop_end (setName h L n) x = loop_end h x" "loop_stride (setName h L n) x = loop_stride h x"
  by (simp_all add: setEnd_def setName_def loop_end_def loop_stride_def loop_name_def)

lemma heap_keeps_trans: "heap_keeps L h h1 \<Longrightarrow> heap_keeps L h1 h2 \<Longrightarrow> heap_keeps L h h2"
  by (auto simp: heap_keeps_def)

lemma heap_ext_keeps: "heap_ext h h' \<Longrightarrow> heap_keeps L h h'"
  by (simp add: heap_ext_def heap_keeps_def)

lemma heap_keeps_fresh:
  "heap_keeps L h h1 \<Longrightarrow> heap_keeps L2 h1 h2 \<Longrightarrow> hp_next h \<le> L2 \<Longrightarrow> heap_keeps L h h2"
  by (auto simp: heap_keeps_def)

lemma wf_body_next: "hp_next h' = hp_next h \<Longrightarrow> wf_body h' ss = wf_body h ss"
  by (simp add: wf_body_def)

definition peel_index :: "int \<Rightarrow> loop_ptr \<Rightarrow> expr" where
  "peel_index k L2 = BinaryExpr Add (ConstantExpr (i64_of_int k)) (new_IndexExpr L2)"

lemma peel_index_facts [simp]:
  "loops_of_expr (peel_index k L2) = {L2}" "index_kinds_ok (peel_index k L2)"
  "below_expr n (peel_index k L2) \<longleftrightarrow> L2 < n"
  "0 \<le> k \<Longrightarrow> index_value M h (\<rho>(L2 := of_nat j)) (peel_index k L2) (of_nat (j + nat k))"
  by (simp_all add: peel_index_def new_IndexExpr_def index_value_def of_nat_i64_of_int add.commute)

lemma peel_all:
  assumes r: "peel_loop k0 h vs enc L body = Inr (Some (L2, new, h'))" and wf: "wf_body h [Loop L body]"
  shows "heap_keeps L h h'" "fits_body h h' [Loop L body] new" "runs_like M h h' [Loop L body] new"
proof -
  have L: "L < hp_next h" "wf_body h body" "L \<notin> set (body_loops body)" using wf by (auto simp: wf_body_Loop)
  obtain k h1a c1 body2 h2 c where
    k: "peel_point (loop_end h L) k0 = Inr (Some k)" "k \<le> int_of_u32 (loop_end h L)"
    and s: "loop_stride h L \<noteq> 0" "u32_of_int k mod loop_stride h L = 0" and L2: "L2 = hp_next h"
    and n: "new_loop (setEnd h L (u32_of_int k)) (loop_name h L) (u32_of_int k) (loop_stride h L) = (L2, h1a)"
    and m: "map_loop empty_ctx L L2 = Inr c1"
    and cl: "clone_scope h1a vs (L # enc) c1 body = Inr (body2, h2, c)"
    and new: "new = [Loop L body, Loop L2 (map (subst_stmt L2 (peel_index k L2)) body2)]"
    and h': "h' = setName (setEnd h2 L2 (u32_of_int (int_of_u32 (loop_end h L) - k))) L2
        (newIndexName (loop_name (setEnd h2 L2 (u32_of_int (int_of_u32 (loop_end h L) - k))) L) ''peeled'' 0)"
    using peel_loop_elim [OF r L(1)] unfolding peel_index_def by metis
  note K = peel_point_bounds [OF k]
  let ?hs = "setEnd h L (u32_of_int k)"
  have wfs: "wf_body ?hs [Loop L body]" using wf wf_body_next [of ?hs h] by simp
  note C = clone_body_facts [OF wfs n m cl] 
  have C: "heap_ext ?hs h2" "wf_body h2 body2" "L2 < hp_next h2" "L2 \<notin> set (body_loops body2)"
    "\<forall>x \<in> set (body_loops body2). hp_next h < x" "free_of body2 \<subseteq> insert L2 (free_of body - {L})"
    "loop_stride h2 L2 = loop_stride h L"
    using C by simp_all
  have keep2: "heap_keeps L2 h2 h'"
    unfolding h' by (rule heap_keeps_trans [OF setEnd_keeps setName_keeps])
  show keep: "heap_keeps L h h'"
    by (rule heap_keeps_fresh [OF heap_keeps_trans [OF setEnd_keeps heap_ext_keeps [OF C(1)]] keep2])
      (simp add: L2)
  have next': "hp_next h' = hp_next h2" by (simp add: h')
  have bounds: "loop_end h' L = u32_of_int k" "loop_stride h' L = loop_stride h L"
    "loop_end h' L2 = u32_of_int (int_of_u32 (loop_end h L) - k)" "loop_stride h' L2 = loop_stride h L"
    using C(1,7) L(1) L2
    by (auto simp: h' heap_ext_def loop_end_def loop_stride_def setEnd_def setName_def)
  let ?b2 = "map (subst_stmt L2 (peel_index k L2)) body2"
  have wf2: "wf_body h' body2" using C(2) wf_body_next [OF next'] by simp
  have wfb2: "wf_body h' [Loop L2 ?b2]"
  proof -
    have "wf_body h' ?b2" using wf2 C(3,4) next' by (intro wf_subst) (auto simp del: set_concat)
    then show ?thesis using C(3,4) next' unfolding wf_body_Loop subst_body_loops by simp
  qed
  have free2: "free_of [Loop L2 ?b2] \<subseteq> free_of body - {L}"
    using subst_free_of [of L2 "peel_index k L2" body2] C(6) by (auto simp: free_of_def)
  show "fits_body h h' [Loop L body] new"
  proof -
    have d: "set (body_loops [Loop L body]) \<inter> set (body_loops [Loop L2 ?b2]) = {}"
      using wf_body_bound [OF wf] L2 C(5) by (fastforce simp del: set_concat map_map)
    have f1: "free_of [Loop L body] \<inter> set (body_loops [Loop L2 ?b2]) = {}"
      using wf_body_free_bound [OF wf] L2 C(5) by (fastforce simp del: set_concat map_map)
    have "free_of body \<inter> set (body_loops body) = {}" using L(2) by (simp add: wf_body_def)
    then have f2: "free_of [Loop L2 ?b2] \<inter> set (body_loops [Loop L body]) = {}"
      using free2 by auto
    have "wf_body h' ([Loop L body] @ [Loop L2 ?b2])"
      unfolding wf_body_append using d f1 f2 wfb2 wf_body_keeps [OF wf heap_keeps_next [OF keep]] by simp
    then have "wf_body h' new" by (simp add: new)
    then show ?thesis using free2 L2 C(5)
      by (auto simp: fits_body_def new free_of_def simp del: set_concat map_map)
  qed
  define e d where "e = unat (loop_end h L)" and "d = unat (loop_stride h L)"
  have ub: "unat (u32_of_int k) = nat k" "unat (u32_of_int (int_of_u32 (loop_end h L) - k)) = e - nat k"
    using K unat_u32_bound [of "loop_end h L"]
    by (simp_all add: unat_u32_of_int e_def nat_diff_distrib del: of_nat_unat)
  have ke: "nat k \<le> e" using K(1,3) by (simp add: e_def nat_le_iff del: of_nat_unat)
  have dk: "d dvd nat k" "d \<noteq> 0"
    using s(1) s(2) [unfolded unat_mod_0] ub(1) by (simp_all add: d_def unat_eq_zero)
  have B1: "exec_body M h' \<rho> body u = exec_body M h \<rho> body u" for \<rho> u
    using keep L(2,3) by (rule exec_keeps)
  have B2: "exec_body M h' (\<rho>(L2 := of_nat j)) ?b2 u = exec_body M h (\<rho>(L := of_nat (j + nat k))) body u"
    for \<rho> j u
  proof -
    have "exec_body M h' (\<rho>(L2 := of_nat j)) ?b2 u =
        exec_body M h' (\<rho>(L2 := of_nat j, L2 := of_nat (j + nat k))) body2 u"
      by (rule subst_exec_body [OF peel_index_facts(4)]) (use K(1) C(4) in auto)
    also have "\<dots> = exec_body M h2 (\<rho>(L2 := of_nat (j + nat k))) body2 u"
      using exec_keeps [OF keep2 C(2,4)] by simp
    also have "\<dots> = exec_body M ?hs (\<rho>(L := of_nat (j + nat k))) body u"
      by (rule clone_body_facts(9) [OF wfs n m cl])
        (use wf_body_free_bound [OF L(2)] L2 in \<open>auto\<close>)
    also have "\<dots> = exec_body M h (\<rho>(L := of_nat (j + nat k))) body u"
      by (rule exec_keeps [OF setEnd_keeps L(2,3)])
    finally show ?thesis .
  qed
  have B1': "exec_body M h' \<rho> body = exec_body M h \<rho> body" for \<rho>
    using B1 by (rule ext)
  have B2': "exec_body M h' (\<rho>(L2 := of_nat j)) ?b2 = exec_body M h (\<rho>(L := of_nat (j + nat k))) body" for \<rho> j
    using B2 by (rule ext)
  have "exec_body M h' \<rho> new st = exec_body M h \<rho> [Loop L body] st" for \<rho> st
  proof -
    define G where "G v = exec_body M h (\<rho>(L := of_nat v)) body" for v
    have s1: "exec M h' \<rho> (Loop L body) u = fold_opt G (count_up d (nat k) 0) u" for u
      using s(1) B1' bounds(1,2) ub unfolding exec.simps G_def by (simp add: d_def)
    have s2: "exec M h' \<rho> (Loop L2 ?b2) u = fold_opt G (map (\<lambda>j. j + nat k) (count_up d (e - nat k) 0)) u" for u
      using s(1) B2' bounds(3,4) ub unfolding exec.simps G_def fold_opt_map
      by (simp add: d_def del: of_nat_add)
    have "count_up d e 0 = count_up d (nat k) 0 @ map (\<lambda>j. j + nat k) (count_up d (e - nat k) 0)"
      using count_up_split [of 0 "nat k" e d] count_up_shift [of d "e - nat k" "nat k" 0] ke dk by simp
    moreover have "exec M h' \<rho> (Loop L2 ?b2) = fold_opt G (map (\<lambda>j. j + nat k) (count_up d (e - nat k) 0))"
      using s2 by (rule ext)
    ultimately have "fold_opt G (count_up d e 0) st =
        Option.bind (exec M h' \<rho> (Loop L body) st) (exec M h' \<rho> (Loop L2 ?b2))"
      by (simp only: s1 fold_opt_append)
    moreover have "exec_body M h' \<rho> new st = Option.bind (exec M h' \<rho> (Loop L body) st) (exec M h' \<rho> (Loop L2 ?b2))"
    proof -
      have "fold_opt f [a, b] u = Option.bind (f a u) (f b)" for f :: "stmt \<Rightarrow> state \<Rightarrow> state option" and a b u
        by (cases "f a u") (simp_all del: fold_opt.simps(2) add: fold_opt.simps(2) [of f a "[b]"])
      then show ?thesis unfolding new .
    qed
    moreover have "exec_body M h \<rho> [Loop L body] st = fold_opt G (count_up d e 0) st"
      using s(1) unfolding fold_opt_single exec.simps by (simp add: G_def [abs_def] d_def e_def)
    ultimately show ?thesis by simp
  qed
  then show "runs_like M h h' [Loop L body] new" by (simp add: runs_like_def del: fold_opt.simps(2))
qed

interpretation peeling: loop_rewriting "peel_loop k" "\<lambda>M h L. True" for k
  by unfold_locales (auto intro: peel_all)

section \<open>Unrolling\<close>

text \<open>
  When the stride divides the end of the loop, as \<open>verify\<close> demands, the 32-bit counter reaches the
  end without wrapping.
\<close>

lemma unroll_iters_ok:
  "s \<noteq> 0 \<Longrightarrow> i \<le> e \<Longrightarrow> unat s dvd (unat e - unat i) \<Longrightarrow>
     unroll_iters e s i = Some (map of_nat (count_up (unat s) (unat e) (unat i)))"
proof (induction "unat e - unat i" arbitrary: i rule: less_induct)
  case less
  show ?case
  proof (cases "i < e")
    case True
    then have lt: "unat i < unat e" by (simp add: word_less_nat_alt)
    then have le: "unat s \<le> unat e - unat i" using less.prems(3) by (auto dest: dvd_imp_le)
    then have u: "unat (i + s) = unat i + unat s"
      using lt unat_u32_bound [of e] by (simp add: unat_word_ariths)
    have s: "0 < unat s" using less.prems(1) by (simp add: unat_gt_0)
    have "unroll_iters e s (i + s) = Some (map of_nat (count_up (unat s) (unat e) (unat (i + s))))"
    proof (rule less.hyps)
      show "unat e - unat (i + s) < unat e - unat i" using u le s lt by simp
      show "i + s \<le> e" using u le lt by (simp add: word_le_nat_alt)
      have "unat e - unat (i + s) = (unat e - unat i) - unat s" using u by simp
      then show "unat s dvd (unat e - unat (i + s))"
        by (simp only: dvd_diff_nat [OF less.prems(3) dvd_refl])
    qed (rule less.prems(1))
    then show ?thesis using True lt s u
      by (subst unroll_iters.simps) (simp add: count_up_step)
  next
    case False
    then show ?thesis by (subst unroll_iters.simps) (simp add: word_less_nat_alt)
  qed
qed

definition fresh_copy :: "heap \<Rightarrow> heap \<Rightarrow> loop_ptr set \<Rightarrow> stmt list \<Rightarrow> bool" where
  "fresh_copy h h' F new \<longleftrightarrow>
     heap_ext h h' \<and> wf_body h' new \<and> (\<forall>x \<in> set (body_loops new). hp_next h \<le> x) \<and> free_of new \<subseteq> F"

lemma fresh_copy_append:
  assumes xs: "fresh_copy h h1 F xs" and ys: "fresh_copy h1 h2 F ys" and F: "\<forall>x \<in> F. x < hp_next h"
  shows "fresh_copy h h2 F (xs @ ys)"
proof -
  have n: "hp_next h \<le> hp_next h1" "hp_next h1 \<le> hp_next h2"
    using xs ys by (auto simp: fresh_copy_def dest: heap_ext_next)
  have bx: "hp_next h \<le> x \<and> x < hp_next h1" if "x \<in> set (body_loops xs)" for x
    using xs that wf_body_bound [of h1 xs x] by (simp add: fresh_copy_def del: set_concat)
  have by': "hp_next h1 \<le> x" if "x \<in> set (body_loops ys)" for x
    using ys that by (simp add: fresh_copy_def del: set_concat)
  have fx: "x < hp_next h" if "x \<in> free_of xs \<union> free_of ys" for x
    using that xs ys F by (auto simp: fresh_copy_def)
  have "set (body_loops xs) \<inter> set (body_loops ys) = {}" using bx by' by fastforce
  moreover have "free_of xs \<inter> set (body_loops ys) = {}" using fx by' n by fastforce
  moreover have "free_of ys \<inter> set (body_loops xs) = {}" using fx bx by fastforce
  moreover have "wf_body h2 xs" "wf_body h2 ys"
    using xs ys n wf_body_keeps by (auto simp: fresh_copy_def)
  ultimately have "wf_body h2 (xs @ ys)" unfolding wf_body_append by simp
  moreover have "heap_ext h h2" using xs ys heap_ext_trans by (auto simp: fresh_copy_def)
  moreover have "hp_next h \<le> x" if "x \<in> set (body_loops (xs @ ys))" for x
    using that bx by' n by fastforce
  ultimately show ?thesis using xs ys by (simp add: fresh_copy_def del: set_concat)
qed

lemma get_loop_empty [simp]: "get_loop empty_ctx x = x"
  by (simp add: get_loop_def empty_ctx_def)

lemma clone_one_facts:
  assumes cl: "clone_stmt h vs enc empty_ctx s = Inr (s', h', c')" and wf: "wf_body h [s]"
  shows "fresh_copy h h' (free_loops s) [s']" "exec M h' \<rho> s' st = exec M h \<rho> s st"
proof -
  have W: "below (hp_next h) s" "index_kinds_stmt s" "distinct (loop_list s)"
    "free_loops s \<inter> loops_in s = {}"
    using wf by (auto simp: wf_body_def free_of_def)
  have c: "cloned h s (s', h', c')" using clone_stmts_hash(1) [OF cl _ W(1,2)] by simp
  have sh: "cloned_shape h empty_ctx [s] ([s'], h', c')"
    using clone_shape_both(1) [OF cl _ W] by simp
  have f: "free_loops s' \<subseteq> free_loops s" using sh by (auto simp: cloned_shape_def)
  have b: "\<And>x. x \<in> loops_in s' \<Longrightarrow> hp_next h \<le> x" using sh by (auto simp: cloned_shape_def)
  have "free_loops s' \<inter> loops_in s' = {}"
    using f b below_free [OF W(1)] by fastforce
  then show "fresh_copy h h' (free_loops s) [s']"
    using c sh f b by (auto simp: fresh_copy_def wf_body_def cloned_def cloned_shape_def free_of_def)
  show "exec M h' \<rho> s' st = exec M h \<rho> s st"
    by (rule clone_exec_both(1) [OF cl _ _ W])
      (simp_all add: loops_only_def tracks_def, simp_all add: empty_ctx_def)
qed

lemma fresh_copy_subst:
  assumes "fresh_copy h h' F new" "loops_of_expr x = {}" "below_expr (hp_next h') x" "index_kinds_ok x"
  shows "fresh_copy h h' (F - {L}) (map (subst_stmt L x) new)"
  using assms wf_subst [of h' new x L] subst_free_of [of L x new]
  by (auto simp: fresh_copy_def simp del: set_concat map_map)

lemma unroll_one_facts:
  "unroll_one h vs enc L i ss = Inr (ss', h') \<Longrightarrow> wf_body h ss \<Longrightarrow> L \<notin> set (body_loops ss) \<Longrightarrow>
     L < hp_next h \<Longrightarrow>
     fresh_copy h h' (free_of ss - {L}) ss'
     \<and> (\<forall>\<rho> st. exec_body M h' \<rho> ss' st = exec_body M h (\<rho>(L := i64_of_u32 i)) ss st)"
proof (induction h vs enc L i ss arbitrary: ss' h' rule: unroll_one.induct)
  case (1 h vs enc L i)
  then show ?case by (simp add: fresh_copy_def)
next
  case (2 h vs enc L i s ss)
  let ?x = "ConstantExpr (i64_of_u32 i)"
  from "2.prems"(1) obtain s1 h1 c ss1 where s: "clone_stmt h vs (L # enc) empty_ctx s = Inr (s1, h1, c)"
    and ss: "unroll_one h1 vs enc L i ss = Inr (ss1, h')" and ss': "ss' = subst_stmt L ?x s1 # ss1"
    by (auto split: prod.splits)
  have wf: "wf_body h [s]" "wf_body h ss" using "2.prems"(2) wf_body_Cons [of h s ss] by simp_all
  have A: "fresh_copy h h1 (free_loops s) [s1]" by (rule clone_one_facts(1) [OF s wf(1)])
  have n: "hp_next h \<le> hp_next h1" and ext1: "heap_ext h h1"
    using A by (auto simp: fresh_copy_def dest: heap_ext_next)
  have B: "fresh_copy h1 h' (free_of ss - {L}) ss1
      \<and> (\<forall>\<rho> st. exec_body M h' \<rho> ss1 st = exec_body M h1 (\<rho>(L := i64_of_u32 i)) ss st)"
    using "2.prems" n wf_body_keeps [OF wf(2) n] by (intro "2.IH" [OF s refl refl ss]) auto
  let ?F = "free_of (s # ss) - {L}"
  have F: "\<forall>x \<in> ?F. x < hp_next h" using wf_body_free_bound [OF "2.prems"(2)] by blast
  have A': "fresh_copy h h1 ?F [subst_stmt L ?x s1]"
    using fresh_copy_subst [OF A, of ?x L] by (auto simp: fresh_copy_def)
  have B': "fresh_copy h1 h' ?F ss1" using B by (auto simp: fresh_copy_def)
  have Ln: "L \<notin> loops_in s1" using A "2.prems"(4) by (auto simp: fresh_copy_def)
  have ext2: "heap_ext h1 h'" using B by (simp add: fresh_copy_def)
  have run1: "exec M h' \<rho> (subst_stmt L ?x s1) u = exec M h (\<rho>(L := i64_of_u32 i)) s u" for \<rho> u
  proof -
    have "exec M h' \<rho> (subst_stmt L ?x s1) u = exec M h1 \<rho> (subst_stmt L ?x s1) u"
      using A' by (intro exec_ext [OF ext2]) (simp add: fresh_copy_def wf_body_def)
    also have "\<dots> = exec M h1 (\<rho>(L := i64_of_u32 i)) s1 u"
      using Ln by (intro subst_exec) (simp_all add: index_value_def)
    also have "\<dots> = exec M h (\<rho>(L := i64_of_u32 i)) s u" by (rule clone_one_facts(2) [OF s wf(1)])
    finally show ?thesis .
  qed
  have run2: "exec_body M h' \<rho> ss1 = exec_body M h (\<rho>(L := i64_of_u32 i)) ss" for \<rho>
  proof (rule ext)
    fix u
    have "exec_body M h1 (\<rho>(L := i64_of_u32 i)) ss u = exec_body M h (\<rho>(L := i64_of_u32 i)) ss u"
      using wf(2) by (intro exec_body_ext [OF ext1]) (simp add: wf_body_def list_all_iff)
    with B show "exec_body M h' \<rho> ss1 u = exec_body M h (\<rho>(L := i64_of_u32 i)) ss u" by simp
  qed
  show ?case
    using fresh_copy_append [OF A' B' F] run1 run2 by (simp add: ss' del: fun_upd_apply)
qed

lemma unroll_all_facts:
  "unroll_all h vs enc L body is = Inr (new, h') \<Longrightarrow> wf_body h [Loop L body] \<Longrightarrow>
     fresh_copy h h' (free_of body - {L}) new
     \<and> (\<forall>\<rho> st. exec_body M h' \<rho> new st =
           fold_opt (\<lambda>i. exec_body M h (\<rho>(L := i64_of_u32 i)) body) is st)"
proof (induction "is" arbitrary: h new)
  case Nil
  then show ?case by (simp add: fresh_copy_def)
next
  case (Cons i "is")
  from Cons.prems(1) obtain new1 h1 new2 where one: "unroll_one h vs enc L i body = Inr (new1, h1)"
    and rest: "unroll_all h1 vs enc L body is = Inr (new2, h')" and new: "new = new1 @ new2"
    by (auto split: prod.splits)
  have L: "L < hp_next h" "wf_body h body" "L \<notin> set (body_loops body)"
    using Cons.prems(2) by (auto simp: wf_body_Loop)
  have A: "fresh_copy h h1 (free_of body - {L}) new1"
    "exec_body M h1 \<rho> new1 st = exec_body M h (\<rho>(L := i64_of_u32 i)) body st" for \<rho> st
    using unroll_one_facts [OF one L(2,3,1), of M] by auto
  have ext1: "heap_ext h h1" using A(1) by (simp add: fresh_copy_def)
  have B: "fresh_copy h1 h' (free_of body - {L}) new2"
    "exec_body M h' \<rho> new2 st = fold_opt (\<lambda>i. exec_body M h1 (\<rho>(L := i64_of_u32 i)) body) is st" for \<rho> st
    using Cons.IH [OF rest wf_body_keeps [OF Cons.prems(2) heap_ext_next [OF ext1]]]
    by (auto simp del: fun_upd_apply)
  have ext2: "heap_ext h1 h'" using B(1) by (simp add: fresh_copy_def)
  have same: "exec_body M h1 \<rho> body = exec_body M h \<rho> body" for \<rho>
    using L(2) by (intro ext exec_body_ext [OF ext1]) (simp add: wf_body_def list_all_iff)
  have "exec_body M h' \<rho> new1 st = exec_body M h1 \<rho> new1 st" for \<rho> st
    using A(1) by (intro exec_body_ext [OF ext2]) (simp add: fresh_copy_def wf_body_def list_all_iff)
  then have run1: "exec_body M h' \<rho> new1 st = exec_body M h (\<rho>(L := i64_of_u32 i)) body st" for \<rho> st
    using A(2) by simp
  have run2: "exec_body M h' \<rho> new2 = fold_opt (\<lambda>i. exec_body M h (\<rho>(L := i64_of_u32 i)) body) is" for \<rho>
    using B(2) same by (intro ext) simp
  show ?case
    using fresh_copy_append [OF A(1) B(1)] wf_body_free_bound [OF L(2)] run1 run2
    by (simp add: new fold_opt_append del: fun_upd_apply)
qed

lemma unroll_loop_elim:
  assumes "unroll_loop maxTrip h vs enc L body = Inr (Some (u, new, h'))"
  obtains iters where "unroll_iters (loop_end h L) (loop_stride h L) 0 = Some iters"
    "unroll_all h vs enc L body iters = Inr (new, h')"
  using assms by (auto simp: unroll_loop_def split: if_splits option.splits prod.splits)

definition unroll_pre :: "machine \<Rightarrow> heap \<Rightarrow> loop_ptr \<Rightarrow> bool" where
  "unroll_pre M h L \<longleftrightarrow> loop_stride h L \<noteq> 0 \<and> loop_end h L mod loop_stride h L = 0"

interpretation unrolling: loop_rewriting "unroll_loop maxTrip" unroll_pre for maxTrip
proof (unfold_locales, goal_cases)
  case (1 h vs enc L body u new h')
  from 1(1) obtain iters where "unroll_all h vs enc L body iters = Inr (new, h')"
    by (rule unroll_loop_elim)
  from unroll_all_facts [OF this 1(2)] show ?case by (simp add: fresh_copy_def heap_ext_keeps)
next
  case (2 h vs enc L body u new h')
  from 2(1) obtain iters where "unroll_all h vs enc L body iters = Inr (new, h')"
    by (rule unroll_loop_elim)
  from unroll_all_facts [OF this 2(2)] show ?case
    by (auto simp: fresh_copy_def fits_body_def free_of_def simp del: set_concat)
next
  case (3 h vs enc L body u new h' M)
  from 3(1) obtain iters where i: "unroll_iters (loop_end h L) (loop_stride h L) 0 = Some iters"
    and a: "unroll_all h vs enc L body iters = Inr (new, h')"
    by (rule unroll_loop_elim)
  have s: "loop_stride h L \<noteq> 0" "unat (loop_stride h L) dvd unat (loop_end h L)"
    using 3(3) unat_mod_0 by (auto simp: unroll_pre_def)
  then have "iters = map of_nat (count_up (unat (loop_stride h L)) (unat (loop_end h L)) 0)"
    using i unroll_iters_ok [of "loop_stride h L" 0 "loop_end h L"] by simp
  moreover have "i64_of_u32 (of_nat x) = of_nat x" if "x \<in> set (count_up d (unat (loop_end h L)) 0)" for x d
  proof -
    have "x < 2 ^ 32" using count_up_set [OF that] unat_u32_bound [of "loop_end h L"] by simp
    then show ?thesis
      by (simp add: i64_of_u32_def unsigned_of_nat take_bit_nat_eq_self)
  qed
  ultimately show ?case
    using unroll_all_facts [OF a 3(2), of M] s(1)
    unfolding runs_like_def fold_opt_single exec.simps
    by (auto simp: fold_opt_map intro!: fold_opt_same)
qed

end
