(* ===== verification/Widening.thy ===== *)
theory Widening
  imports Vectorize LoopRewrites Interchange
begin

text \<open>
  Widening is a rewriting of loops in the sense of theory Rewriting, for a loop whose body is one
  store that uses the index: the duplicates run in the order of the iterations they replace. With
  several statements the order changes, and the code does no dependence analysis.
\<close>

section \<open>One step of the widened loop\<close>

lemma widenStore_run:
  assumes r: "widenStore h vs enc L off (StoreStmt g x acc) = Inr s'" and wf: "wf_body h [StoreStmt g x acc]"
    and L: "L < hp_next h"
  shows "exec M h \<rho> s' st = exec M h (\<rho>(L := \<rho> L + i64_of_u32 off)) (StoreStmt g x acc) st"
    "wf_body h [s']" "loops_in s' = {}" "free_of [s'] \<subseteq> insert L (free_of [StoreStmt g x acc])"
proof -
  let ?S = "StoreStmt g x acc" and ?x = "BinaryExpr Add (new_IndexExpr L) (ConstantExpr (i64_of_u32 off))"
  obtain dup c where d: "clone_stmt h vs enc empty_ctx ?S = Inr (dup, h, c)" and s': "s' = subst_stmt L ?x dup"
    using r by (auto simp: widenStore_def shifted_index_def new_BinaryExpr_def split: prod.splits)
  note C = clone_one_facts [OF d wf]
  have nol: "loops_in dup = {}"
    using d by (auto simp: new_StoreStmt_def)
  have iv: "index_value M h \<rho> ?x (\<rho> L + i64_of_u32 off)"
    by (simp add: index_value_def new_IndexExpr_def)
  show "exec M h \<rho> s' st = exec M h (\<rho>(L := \<rho> L + i64_of_u32 off)) ?S st"
    using subst_exec [of M h \<rho> ?x "\<rho> L + i64_of_u32 off" L dup st] iv nol C(2) unfolding s' by simp
  have "wf_body h (map (subst_stmt L ?x) [dup])"
    by (rule wf_subst) (use C(1) L nol in \<open>auto simp: fresh_copy_def new_IndexExpr_def\<close>)
  then show "wf_body h [s']" by (simp add: s')
  show "loops_in s' = {}" by (simp add: s' nol)
  show "free_of [s'] \<subseteq> insert L (free_of [?S])"
    using subst_free [of L ?x dup] C(1) by (auto simp: s' free_of_def fresh_copy_def new_IndexExpr_def)
qed

lemma fold_opt_rel:
  "list_all2 (\<lambda>x y. \<forall>u. f y u = g x u) xs ys \<Longrightarrow> fold_opt f ys s = fold_opt g xs s"
proof (induction arbitrary: s rule: list_all2_induct)
  case (Cons x xs y ys)
  then have "fold_opt f ys = fold_opt g xs" by (intro ext)
  with Cons show ?case by simp
qed simp

lemma map_res_pairs: "map_res f xs = Inr ys \<Longrightarrow> list_all2 (\<lambda>x y. f x = Inr y) xs ys"
  by (auto simp: list_all2_conv_all_nth map_res_length map_res_nth)

lemma rev_down: "map (\<lambda>i. n - i) (rev [1..<n]) = [1..<n]"
  by (rule nth_equalityI) (auto simp: rev_nth)

lemma copies_shape:
  assumes r: "widen_copies h vs enc L stride k (StoreStmt g x acc) = Inr ss" and wf: "wf_body h [StoreStmt g x acc]"
    and L: "L < hp_next h" and k: "1 < k"
  shows "wf_body h ss" "body_loops ss = []" "free_of ss \<subseteq> insert L (free_of [StoreStmt g x acc])"
proof -
  let ?S = "StoreStmt g x acc" and ?w = "\<lambda>i. widenStore h vs enc L ((k - of_nat i) * stride) (StoreStmt g x acc)"
  obtain dups where d: "map_res ?w [1..<unat k] = Inr dups" and ss: "ss = ?S # rev dups"
    using r by (auto simp: widen_copies_def)
  have each: "wf_body h [s] \<and> loops_in s = {} \<and> free_of [s] \<subseteq> insert L (free_of [?S])" if s: "s \<in> set dups" for s
  proof -
    obtain j where j: "j < length dups" "s = dups ! j" using s by (auto simp: in_set_conv_nth)
    then have "?w ([1..<unat k] ! j) = Inr s" using map_res_nth [OF d, of j] map_res_length [OF d] by simp
    then show ?thesis using widenStore_run(2-4) [OF _ wf L] by blast
  qed
  show none: "body_loops ss = []" using each by (auto simp: ss simp flip: set_empty)
  show fr: "free_of ss \<subseteq> insert L (free_of [?S])"
    using each by (auto simp: ss free_of_def)
  show "wf_body h ss"
    using each wf unfolding wf_body_def none by (auto simp: ss list_all_iff)
qed

lemma copies_run:
  assumes r: "widen_copies h vs enc L stride k (StoreStmt g x acc) = Inr ss" and wf: "wf_body h [StoreStmt g x acc]"
    and L: "L < hp_next h" and k: "1 < k" "unat stride * unat k < 2 ^ 32"
  shows "exec_body M h \<rho> ss st =
      fold_opt (\<lambda>i. exec M h (\<rho>(L := \<rho> L + of_nat (i * unat stride))) (StoreStmt g x acc)) [0..<unat k] st"
proof -
  let ?S = "StoreStmt g x acc" and ?w = "\<lambda>i. widenStore h vs enc L ((k - of_nat i) * stride) (StoreStmt g x acc)"
  obtain dups where d: "map_res ?w [1..<unat k] = Inr dups" and ss: "ss = ?S # rev dups"
    using r by (auto simp: widen_copies_def)
  have R: "list_all2 (\<lambda>i s. ?w i = Inr s) (rev [1..<unat k]) (rev dups)"
    using map_res_pairs [OF d] by (simp add: list_all2_rev1)
  have off: "i64_of_u32 ((k - of_nat i) * stride) = of_nat ((unat k - i) * unat stride)" if "i \<in> set (rev [1..<unat k])" for i
  proof -
    have i: "i < unat k" using that by simp
    then have u: "unat (k - of_nat i) = unat k - i"
    proof -
      have "unat (of_nat i :: u32) = i" using i unat_u32_bound [of k] by (simp add: unat_of_nat take_bit_nat_eq_self)
      then show ?thesis using i by (simp add: unat_sub word_le_nat_alt)
    qed
    have "(unat k - i) * unat stride \<le> unat k * unat stride" by (intro mult_le_mono1) simp
    then have "(unat k - i) * unat stride < 2 ^ 32" using k(2) by (metis le_less_trans mult.commute)
    then have u': "unat ((k - of_nat i) * stride) = (unat k - i) * unat stride"
      using u by (simp add: unat_word_ariths)
    have "i64_of_u32 ((k - of_nat i) * stride) = of_nat (unat ((k - of_nat i) * stride))"
      by (simp only: i64_of_u32_def of_nat_unat)
    then show ?thesis unfolding u' .
  qed
  have "list_all2 (\<lambda>i s. \<forall>u. exec M h \<rho> s u = exec M h (\<rho>(L := \<rho> L + of_nat ((unat k - i) * unat stride))) ?S u)
      (rev [1..<unat k]) (rev dups)"
  proof (rule list.rel_mono_strong [OF R], intro allI)
    fix i s u assume i: "i \<in> set (rev [1..<unat k])" and s: "?w i = Inr s"
    show "exec M h \<rho> s u = exec M h (\<rho>(L := \<rho> L + of_nat ((unat k - i) * unat stride))) ?S u"
      using widenStore_run(1) [OF s wf L, of M \<rho> u] unfolding off [OF i] .
  qed
  from fold_opt_rel [OF this] have "exec_body M h \<rho> (rev dups) u =
      fold_opt (\<lambda>i. exec M h (\<rho>(L := \<rho> L + of_nat ((unat k - i) * unat stride))) ?S) (rev [1..<unat k]) u" for u .
  also have "\<dots> u = fold_opt (\<lambda>i. exec M h (\<rho>(L := \<rho> L + of_nat (i * unat stride))) ?S) [1..<unat k] u" for u
    using fold_opt_map [of "\<lambda>i. exec M h (\<rho>(L := \<rho> L + of_nat (i * unat stride))) ?S" "\<lambda>i. unat k - i" "rev [1..<unat k]" u]
    unfolding rev_down by (simp del: exec.simps)
  finally have tl: "exec_body M h \<rho> (rev dups) =
      fold_opt (\<lambda>i. exec M h (\<rho>(L := \<rho> L + of_nat (i * unat stride))) ?S) [1..<unat k]" by (rule ext)
  have "[0..<unat k] = 0 # [1..<unat k]" using k(1) by (simp add: upt_rec word_less_nat_alt)
  then show "exec_body M h \<rho> ss st =
      fold_opt (\<lambda>i. exec M h (\<rho>(L := \<rho> L + of_nat (i * unat stride))) ?S) [0..<unat k] st"
    unfolding ss by (simp add: tl del: exec.simps)
qed

section \<open>The widened loop\<close>

lemma widen_counts:
  assumes "0 < s" "0 < n"
  shows "concat (map (\<lambda>v. map (\<lambda>i. v + i * s) [0..<n]) (count_up (s * n) (m * (s * n)) 0)) = count_up s (m * (s * n)) 0"
proof -
  have one: "count_up b (q * b) 0 = map (\<lambda>i. i * b) [0..<q]" if "0 < b" for b q :: nat
    using count_up_blocks [of b b q] that by (simp add: count_up_length comp_def)
  have inner: "count_up s (s * n) 0 = map (\<lambda>j. j * s) [0..<n]" using one [OF assms(1), of n] by (simp add: mult.commute)
  have outer: "count_up (s * n) (m * (s * n)) 0 = map (\<lambda>i. i * (s * n)) [0..<m]" using one [of "s * n" m] assms by simp
  have "count_up s (m * (s * n)) 0 = concat (map (\<lambda>i. map (\<lambda>j. j + i * (s * n)) (count_up s (s * n) 0)) [0..<m])"
    using count_up_blocks [of s "s * n" m] by simp
  then show ?thesis unfolding inner outer by (simp add: comp_def add.commute)
qed

text \<open>A loop whose body does the work of \<open>k\<close> iterations at once.\<close>

lemma stepped_run:
  assumes r: "\<And>\<rho> u. exec_body M h \<rho> ss u = fold_opt (\<lambda>i. exec M h (\<rho>(L := \<rho> L + of_nat (i * unat (loop_stride h L)))) S) [0..<unat k] u"
    and C: "wf_body h ss" "body_loops ss = []" and L: "L < hp_next h"
    and k: "1 < k" "unat (loop_stride h L) * unat k < 2 ^ 32"
    and s0: "loop_stride h L \<noteq> 0" and e: "loop_end h L mod (loop_stride h L * k) = 0"
  shows "runs_like M h (setStride h L (loop_stride h L * k)) [Loop L [S]] [Loop L ss]"
proof -
  let ?h = "setStride h L (loop_stride h L * k)"
  define s n where "s = unat (loop_stride h L)" and "n = unat k"
  have sn: "0 < s" "0 < n" "unat (loop_stride h L * k) = s * n"
    using s0 k by (auto simp: s_def n_def unat_gt_0 unat_word_ariths word_less_nat_alt)
  have nz: "loop_stride h L * k \<noteq> 0" using sn by (metis less_irrefl mult_pos_pos unat_0)
  obtain m where m: "unat (loop_end h L) = m * (s * n)"
    using e sn(3) unat_mod_0 [of "loop_end h L"] by (metis dvd_def mult.commute)
  have keep: "heap_keeps L h ?h" by (simp add: heap_keeps_def setStride_def)
  have bounds: "loop_end ?h L = loop_end h L" "loop_stride ?h L = loop_stride h L * k"
    by (simp_all add: setStride_def loop_end_def loop_stride_def)
  have "exec M ?h \<rho> (Loop L ss) st = exec M h \<rho> (Loop L [S]) st" for \<rho> st
  proof -
    define G where "G v = exec M h (\<rho>(L := of_nat v)) S" for v
    have body: "exec_body M ?h (\<rho>(L := of_nat v)) ss = fold_opt G (map (\<lambda>i. v + i * s) [0..<n])" for v
    proof (rule ext)
      fix u
      have "exec_body M ?h (\<rho>(L := of_nat v)) ss u = exec_body M h (\<rho>(L := of_nat v)) ss u"
        by (rule exec_keeps [OF keep C(1)]) (simp only: C(2) list.set simp_thms empty_iff)
      then show "exec_body M ?h (\<rho>(L := of_nat v)) ss u = fold_opt G (map (\<lambda>i. v + i * s) [0..<n]) u"
        unfolding r fold_opt_map G_def by (simp add: s_def n_def del: exec.simps)
    qed
    have "exec M ?h \<rho> (Loop L ss) st = fold_opt (\<lambda>v. fold_opt G (map (\<lambda>i. v + i * s) [0..<n])) (count_up (s * n) (m * (s * n)) 0) st"
      using sn nz unfolding exec.simps bounds by (simp add: body m)
    also have "\<dots> = fold_opt G (count_up s (m * (s * n)) 0) st"
      unfolding widen_counts [OF sn(1,2), symmetric] fold_opt_concat fold_opt_map_fun ..
    also have "\<dots> = exec M h \<rho> (Loop L [S]) st"
      using s0 unfolding exec.simps by (simp add: G_def [abs_def] s_def [symmetric] m fold_opt_one del: exec.simps)
    finally show ?thesis .
  qed
  then show ?thesis unfolding runs_like_def fold_opt_single by blast
qed

section \<open>The contract\<close>

text \<open>Widening where the body of the loop is one store that uses the index.\<close>

definition widen_store :: "u32 \<Rightarrow> (loop_ptr option) loop_rewrite_fun" where
  "widen_store k h vs enc L body =
     (case body of
        [StoreStmt g x acc] \<Rightarrow>
          if dependsOnLoop (visit_stmt (StoreStmt g x acc)) L then widen_loop k h vs enc L body else Inr None
      | _ \<Rightarrow> Inr None)"

definition widen_pre :: "u32 \<Rightarrow> machine \<Rightarrow> heap \<Rightarrow> loop_ptr \<Rightarrow> bool" where
  "widen_pre k M h L \<longleftrightarrow> unat (loop_stride h L) * unat k < 2 ^ 32 \<and> unat (loop_end h L) < 2 ^ 31"

lemma widen_store_elim:
  assumes "widen_store k h vs enc L body = Inr (Some (t, new, h'))"
  obtains g x acc after h1 ss where "body = [StoreStmt g x acc]" "1 < k"
    "loop_stride h L * k \<noteq> 0" "loop_stride h L * k \<le> loop_end h L"
    "peel_tail (loop_end h L mod (loop_stride h L * k)) h vs enc L body = Inr (t, after, h1)"
    "widen_copies h1 vs (L # enc) L (loop_stride h L) k (StoreStmt g x acc) = Inr ss"
    "new = Loop L ss # after" "h' = setStride h1 L (loop_stride h L * k)"
proof -
  from assms obtain g x acc where b: "body = [StoreStmt g x acc]" and d: "dependsOnLoop (visit_stmt (StoreStmt g x acc)) L"
    and w: "widen_loop k h vs enc L body = Inr (Some (t, new, h'))"
    by (auto simp: widen_store_def split: list.splits stmt.splits if_splits)
  from w b d obtain after h1 ss where "1 < k" "loop_stride h L * k \<noteq> 0" "loop_stride h L * k \<le> loop_end h L"
    "peel_tail (loop_end h L mod (loop_stride h L * k)) h vs enc L body = Inr (t, after, h1)"
    "widen_copies h1 vs (L # enc) L (loop_stride h L) k (StoreStmt g x acc) = Inr ss"
    "new = Loop L ss # after" "h' = setStride h1 L (loop_stride h L * k)"
    by (auto simp: widen_loop_def mod_u32_def Let_def not_less split: if_splits option.splits prod.splits)
  with b show ?thesis by (rule that)
qed

lemma peel_bounds:
  assumes r: "peel_loop k0 h vs enc L body = Inr (Some (L2, new, h'))" and wf: "wf_body h [Loop L body]"
  shows "\<exists>k. peel_point (loop_end h L) k0 = Inr (Some k) \<and> loop_end h' L = u32_of_int k"
    "loop_stride h' L = loop_stride h L" "\<exists>s. new = [Loop L body, s]"
proof -
  have L: "L < hp_next h" using wf by (simp add: wf_body_Loop)
  obtain k h1a c1 body2 h2 c where
    k: "peel_point (loop_end h L) k0 = Inr (Some k)" and L2: "L2 = hp_next h"
    and n: "new_loop (setEnd h L (u32_of_int k)) (loop_name h L) (u32_of_int k) (loop_stride h L) = (L2, h1a)"
    and m: "map_loop empty_ctx L L2 = Inr c1"
    and cl: "clone_scope h1a vs (L # enc) c1 body = Inr (body2, h2, c)"
    and new: "\<exists>s. new = [Loop L body, s]"
    and h': "h' = setName (setEnd h2 L2 (u32_of_int (int_of_u32 (loop_end h L) - k))) L2
        (newIndexName (loop_name (setEnd h2 L2 (u32_of_int (int_of_u32 (loop_end h L) - k))) L) ''peeled'' 0)"
    using peel_loop_elim [OF r L] by metis
  let ?hs = "setEnd h L (u32_of_int k)"
  have wfs: "wf_body ?hs [Loop L body]" using wf wf_body_next [of ?hs h] by simp
  have ext: "heap_ext ?hs h2" by (rule clone_body_facts(1) [OF wfs n m cl]) simp_all
  then have "hp_loop h2 L = hp_loop ?hs L" using L by (simp add: heap_ext_def)
  then have "loop_end h' L = u32_of_int k" "loop_stride h' L = loop_stride h L"
    using L L2 by (simp_all add: h' loop_end_def loop_stride_def setEnd_def setName_def)
  then show "\<exists>k. peel_point (loop_end h L) k0 = Inr (Some k) \<and> loop_end h' L = u32_of_int k"
    "loop_stride h' L = loop_stride h L" "\<exists>s. new = [Loop L body, s]"
    using k new by blast+
qed

text \<open>What the peeled loop and its tail give, before the body is rewritten.\<close>

lemma peel_tail_elim:
  assumes "peel_tail rest h vs enc L body = Inr (t, after, h1)" "rest \<noteq> 0"
    "peel_loop (int_of_u32 (loop_end h L - rest)) h vs enc L body \<noteq> Inr None"
  obtains L2 new where "peel_loop (int_of_u32 (loop_end h L - rest)) h vs enc L body = Inr (Some (L2, new, h1))"
    "after = tl new"
proof -
  let ?p = "peel_loop (int_of_u32 (loop_end h L - rest)) h vs enc L body"
  obtain x where p: "?p = Inr x" and c: "(case x of None \<Rightarrow> (None, [], h) | Some (L2, new, h') \<Rightarrow> (Some L2, tl new, h')) = (t, after, h1)"
    using assms(1,2) by (auto simp only: peel_tail_def if_False bind_res_eq_Inr sum.inject)
  show ?thesis
  proof (cases x)
    case None
    then show ?thesis using p assms(3) by simp
  next
    case (Some y)
    then show ?thesis using p c by (cases y) (auto intro: that)
  qed
qed

lemma peel_tail_facts:
  assumes r: "peel_tail rest h vs enc L body = Inr (t, after, h1)" and wf: "wf_body h [Loop L body]"
  shows "heap_keeps L h h1 \<and> fits_body h h1 [Loop L body] (Loop L body # after)
    \<and> runs_like M h h1 [Loop L body] (Loop L body # after) \<and> loop_stride h1 L = loop_stride h L"
proof (cases "rest = 0 \<or> peel_loop (int_of_u32 (loop_end h L - rest)) h vs enc L body = Inr None")
  case True
  then have "h1 = h" "after = []" using r by (auto simp: peel_tail_def split: if_splits)
  then show ?thesis using wf by (auto simp: heap_keeps_def runs_like_def intro: fits_body_refl)
next
  case False
  then obtain L2 new where p: "peel_loop (int_of_u32 (loop_end h L - rest)) h vs enc L body = Inr (Some (L2, new, h1))"
    and after: "after = tl new"
    using peel_tail_elim [OF r] by blast
  obtain s where "new = [Loop L body, s]" using peel_bounds(3) [OF p wf] by blast
  then have "Loop L body # after = new" by (simp add: after)
  then show ?thesis using peel_all [OF p wf] peel_bounds(2) [OF p wf] by simp
qed

text \<open>With ends that fit an \<open>int\<close> the tail is peeled off and whole steps remain.\<close>

lemma peel_tail_end:
  assumes r: "peel_tail (loop_end h L mod q) h vs enc L body = Inr (t, after, h1)" and wf: "wf_body h [Loop L body]"
    and q: "q \<noteq> 0" "q \<le> loop_end h L" "unat (loop_stride h L) dvd unat q" and e: "unat (loop_end h L) < 2 ^ 31"
  shows "loop_end h1 L mod q = 0"
proof (cases "loop_end h L mod q = 0")
  case True
  then show ?thesis using r by (simp add: peel_tail_def)
next
  case False
  define K where "K = loop_end h L - loop_end h L mod q"
  have le: "loop_end h L mod q \<le> loop_end h L" by (simp add: word_le_nat_alt unat_mod)
  have k: "unat K = unat (loop_end h L) - unat (loop_end h L) mod unat q" using le by (simp add: K_def unat_sub unat_mod)
  have dvd: "unat q dvd unat K" unfolding k by (simp add: minus_mod_eq_mult_div)
  have qp: "0 < unat q" "unat q \<le> unat (loop_end h L)" using q by (simp_all add: unat_gt_0 word_le_nat_alt)
  have "unat (loop_end h L) mod unat q < unat q" using qp(1) by simp
  then have pos: "0 < unat K" "unat K < 2 ^ 31" using qp(2) e unfolding k by simp_all
  then have ki: "int_of_u32 K = int (unat K)" by (intro int_of_u32_small) simp
  have pt: "peel_point (loop_end h L) (int_of_u32 K) = Inr (Some (int (unat K)))"
    using pos(1) by (simp add: peel_point_def ki del: of_nat_unat)
  have rt: "u32_of_int (int (unat K)) = K" by (simp add: u32_of_int_def)
  have ei: "int_of_u32 (loop_end h L) = int (unat (loop_end h L))" using e by (rule int_of_u32_small)
  have m: "K mod loop_stride h L = 0" using dvd q(3) dvd_trans unat_mod_0 by blast
  have Kle: "unat K \<le> unat (loop_end h L)" unfolding k by simp
  have some: "peel_loop (int_of_u32 K) h vs enc L body \<noteq> Inr None"
    using pt m Kle unfolding peel_loop_def Let_def
    by (auto simp: rt ei mod_u32_def new_BinaryExpr_def new_IndexExpr_def bind_require simp del: of_nat_unat clone_stmt.simps
        split: stmt.splits if_splits)
  obtain L2 new where p: "peel_loop (int_of_u32 K) h vs enc L body = Inr (Some (L2, new, h1))"
    using peel_tail_elim [OF r False some [unfolded K_def]] unfolding K_def by blast
  then have "loop_end h1 L = K" using peel_bounds(1) [OF p wf] pt rt by auto
  then show ?thesis using dvd unat_mod_0 by simp
qed

lemma setStride_keeps: "heap_keeps L h (setStride h L d)"
  by (simp add: heap_keeps_def setStride_def)

text \<open>The loop with its new body and the tail that was peeled off.\<close>

lemma stepped_all:
  assumes p: "peel_tail (loop_end h L mod (loop_stride h L * k)) h vs enc L [S] = Inr (t, after, h1)"
    and wf: "wf_body h [Loop L [S]]" and k: "1 < k" and q: "loop_stride h L * k \<noteq> 0" "loop_stride h L * k \<le> loop_end h L"
    and C: "wf_body h1 ss" "body_loops ss = []" "free_of ss \<subseteq> insert L (free_of [S])"
    and h': "h' = setStride h1 L (loop_stride h L * k)"
  shows "heap_keeps L h h'" "fits_body h h' [Loop L [S]] (Loop L ss # after)"
    "unat (loop_stride h L) * unat k < 2 ^ 32 \<Longrightarrow> unat (loop_end h L) < 2 ^ 31 \<Longrightarrow>
      (\<And>\<rho> u. exec_body M h1 \<rho> ss u = fold_opt (\<lambda>i. exec M h1 (\<rho>(L := \<rho> L + of_nat (i * unat (loop_stride h L)))) S) [0..<unat k] u) \<Longrightarrow>
      runs_like M h h' [Loop L [S]] (Loop L ss # after)"
proof -
  note P = peel_tail_facts [OF p wf]
  have keep: "heap_keeps L h h1" and fits: "fits_body h h1 [Loop L [S]] (Loop L [S] # after)"
    and stride: "loop_stride h1 L = loop_stride h L" using P by simp_all
  show "heap_keeps L h h'" unfolding h' by (rule heap_keeps_trans [OF keep setStride_keeps])
  have W: "wf_body h1 [Loop L [S]]" "wf_body h1 after" "L \<notin> set (body_loops after)"
    "free_loops (Loop L [S]) \<inter> set (body_loops after) = {}" "L \<notin> free_of after"
    using fits wf_body_Cons [of h1 "Loop L [S]" after] by (auto simp: fits_body_def simp del: set_concat free_loops.simps)
  have L1: "L < hp_next h1" using W(1) by (auto simp: wf_body_Loop)
  have next': "hp_next h' = hp_next h1" by (simp add: h')
  show "fits_body h h' [Loop L [S]] (Loop L ss # after)"
  proof -
    have wss: "wf_body h1 [Loop L ss]" using C L1 unfolding wf_body_Loop by simp
    have fr: "free_loops (Loop L ss) \<subseteq> free_loops (Loop L [S])" using C(3) by (auto simp: free_of_def)
    have "wf_body h1 (Loop L ss # after)"
    proof (unfold wf_body_Cons [of h1 "Loop L ss" after], intro conjI)
      have l: "loops_in (Loop L ss) = {L}" using C(2) by (simp flip: set_empty)
      show "loops_in (Loop L ss) \<inter> set (body_loops after) = {}" using W(3) unfolding l by blast
      show "free_loops (Loop L ss) \<inter> set (body_loops after) = {}" using fr W(4) by blast
      show "free_of after \<inter> loops_in (Loop L ss) = {}" using W(5) unfolding l by blast
    qed (rule wss W)+
    then have "wf_body h' (Loop L ss # after)" using wf_body_next [OF next'] by simp
    moreover have "set (body_loops (Loop L ss # after)) \<subseteq> set (body_loops (Loop L [S] # after))" using C(2) by auto
    moreover have "free_of (Loop L ss # after) \<subseteq> free_of (Loop L [S] # after)" using fr by (auto simp del: free_loops.simps)
    ultimately show ?thesis using fits unfolding fits_body_def by blast
  qed
  show "runs_like M h h' [Loop L [S]] (Loop L ss # after)" if o: "unat (loop_stride h L) * unat k < 2 ^ 32" "unat (loop_end h L) < 2 ^ 31"
    and r: "\<And>\<rho> u. exec_body M h1 \<rho> ss u = fold_opt (\<lambda>i. exec M h1 (\<rho>(L := \<rho> L + of_nat (i * unat (loop_stride h L)))) S) [0..<unat k] u"
  proof -
    have s0: "loop_stride h L \<noteq> 0" using q(1) by auto
    have "unat (loop_stride h L * k) = unat (loop_stride h L) * unat k" using o(1) by (simp add: unat_word_ariths)
    then have "unat (loop_stride h L) dvd unat (loop_stride h L * k)" by simp
    then have "loop_end h1 L mod (loop_stride h L * k) = 0" using peel_tail_end [OF p wf q _ o(2)] by blast
    then have "runs_like M h1 h' [Loop L [S]] [Loop L ss]"
      using stepped_run [OF r [folded stride] C(1,2) L1 k] o(1) s0 unfolding h' stride by simp
    moreover have "runs_like M h1 h' after after"
      unfolding h' by (rule exec_keeps_runs [OF setStride_keeps W(2,3)])
    ultimately have "runs_like M h1 h' ([Loop L [S]] @ after) ([Loop L ss] @ after)" by (rule runs_like_append)
    then show ?thesis using P unfolding runs_like_def by (simp del: exec.simps fold_opt.simps)
  qed
qed

lemma widen_all:
  assumes r: "widen_store k h vs enc L body = Inr (Some (t, new, h'))" and wf: "wf_body h [Loop L body]"
  shows "heap_keeps L h h'" "fits_body h h' [Loop L body] new"
    "widen_pre k M h L \<Longrightarrow> runs_like M h h' [Loop L body] new"
proof -
  obtain g x acc after h1 ss where b: "body = [StoreStmt g x acc]" and k: "1 < k"
    and q: "loop_stride h L * k \<noteq> 0" "loop_stride h L * k \<le> loop_end h L"
    and p: "peel_tail (loop_end h L mod (loop_stride h L * k)) h vs enc L body = Inr (t, after, h1)"
    and w: "widen_copies h1 vs (L # enc) L (loop_stride h L) k (StoreStmt g x acc) = Inr ss"
    and new: "new = Loop L ss # after" and h': "h' = setStride h1 L (loop_stride h L * k)"
    using r by (rule widen_store_elim)
  have "wf_body h1 [Loop L body]"
    using peel_tail_facts [OF p wf] wf_body_Cons [of h1 "Loop L body" after] by (auto simp: fits_body_def simp del: set_concat free_loops.simps)
  then have L1: "L < hp_next h1" "wf_body h1 [StoreStmt g x acc]" using b by (auto simp: wf_body_Loop)
  note C = copies_shape [OF w L1(2,1) k]
  note A = stepped_all [OF p [unfolded b] wf [unfolded b] k q C h']
  show "heap_keeps L h h'" "fits_body h h' [Loop L body] new" unfolding b new by (rule A(1,2))+
  show "runs_like M h h' [Loop L body] new" if pre: "widen_pre k M h L"
    unfolding b new by (rule A(3)) (use pre copies_run [OF w L1(2,1) k] in \<open>simp_all add: widen_pre_def del: exec.simps\<close>)
qed

interpretation widening: loop_rewriting "widen_store k" "widen_pre k" for k
proof (unfold_locales, goal_cases)
  case (1 h vs enc L body t new h')
  then show ?case by (rule widen_all(1))
next
  case (2 h vs enc L body t new h')
  then show ?case by (rule widen_all(2))
next
  case (3 h vs enc L body t new h' M)
  then show ?case by (rule widen_all(3))
qed

section \<open>Properties\<close>

text \<open>C21. \<open>widen\<close> keeps what the program computes when the body of the loop is one store that uses the
  index, the widened step fits 32 bits and the end of the loop is an \<open>int\<close>: the copies at shifted
  indices and the peeled tail make up the iterations of the original loop, in their order.\<close>

theorem widen_preserves:
  "widen h p L k = Inr (Some (t, p', h')) \<Longrightarrow> find_loop [] L (pr_body p) = Some (enc, [StoreStmt g x acc]) \<Longrightarrow>
     dependsOnLoop (visit_stmt (StoreStmt g x acc)) L \<Longrightarrow> wf_body h (pr_body p) \<Longrightarrow>
     unat (loop_stride h L) * unat k < 2 ^ 32 \<Longrightarrow> unat (loop_end h L) < 2 ^ 31 \<Longrightarrow>
     run_program M h' p' st = run_program M h p st"
  by (rule widening.program_runs [where k = k and L = L and x = t])
    (simp_all add: widen_def on_loop_def widen_store_def widen_pre_def del: run_program_def)

theorem widen_preserves_witness:
  "\<exists>p' h'. widen (fst demo_loop) (snd demo_loop) 0 4 = Inr (Some (Some 2, p', h'))
     \<and> (\<forall>M st. run_program M h' p' st = run_program M (fst demo_loop) (snd demo_loop) st)"
proof -
  have "case widen (fst demo_loop) (snd demo_loop) 0 4 of Inr (Some (t, p1, h1)) \<Rightarrow> t = Some 2 | _ \<Rightarrow> False"
    by code_simp
  then obtain p1 h1 where w: "widen (fst demo_loop) (snd demo_loop) 0 4 = Inr (Some (Some 2, p1, h1))"
    by (auto split: sum.splits option.splits)
  have wf: "wf_body (fst demo_loop) (pr_body (snd demo_loop))"
    by (simp add: demo_loop_def wf_body_def free_of_def)
  have f: "find_loop [] 0 (pr_body (snd demo_loop)) =
      Some ([], [StoreStmt (GEPExpr 1 [IndexExpr (scalarTy IndexTy) 0]) (ConstantFPExpr f32_one) False])"
    by (simp add: demo_loop_def)
  have d: "dependsOnLoop (visit_stmt (StoreStmt (GEPExpr 1 [IndexExpr (scalarTy IndexTy) 0]) (ConstantFPExpr f32_one) False)) 0"
    unfolding dependsOnLoop_stmt by simp
  have b: "unat (loop_stride (fst demo_loop) 0) * unat (4 :: u32) < 2 ^ 32" "unat (loop_end (fst demo_loop) 0) < 2 ^ 31"
    by (simp_all add: demo_loop_def loop_stride_def loop_end_def)
  show ?thesis using w widen_preserves [OF w f d wf b] by blast
qed

text \<open>\<open>widen\<close> multiplies the stride of the loop but repeats only the stores that use its index:
  a loop of six iterations that calls a function calls it six times before, and three times after
  it was widened by two.\<close>

definition calling_loop :: "heap \<times> program" where
  "calling_loop = (fst demo_loop, (snd demo_loop)\<lparr>pr_body := [Loop 0 [CallStmt ''f'' []]]\<rparr>)"

theorem widen_drops_iterations:
  "\<exists>p' h'. widen (fst calling_loop) (snd calling_loop) 0 2 = Inr (Some (Some 0, p', h'))
     \<and> (\<forall>M st. map_option (\<lambda>s. length (st_out s)) (run_program M (fst calling_loop) (snd calling_loop) st) = Some (length (st_out st) + 6)
       \<and> map_option (\<lambda>s. length (st_out s)) (run_program M h' p' st) = Some (length (st_out st) + 3))"
proof -
  let ?r = "widen (fst calling_loop) (snd calling_loop) 0 2"
  have "case ?r of Inr (Some (t, p1, h1)) \<Rightarrow> t = Some 0 \<and> pr_body p1 = [Loop 0 [CallStmt ''f'' []]]
      \<and> loop_end h1 0 = 6 \<and> loop_stride h1 0 = 2 | _ \<Rightarrow> False"
    by code_simp
  then obtain p1 h1 where w: "?r = Inr (Some (Some 0, p1, h1))" "pr_body p1 = [Loop 0 [CallStmt ''f'' []]]"
    "loop_end h1 0 = 6" "loop_stride h1 0 = 2"
    by (auto split: sum.splits option.splits)
  have c: "count_up 1 6 0 = [0, 1, 2, 3, 4, 5]" "count_up 2 6 0 = [0, 2, 4]"
    by (simp_all add: count_up.simps)
  have "\<forall>M st. map_option (\<lambda>s. length (st_out s)) (run_program M (fst calling_loop) (snd calling_loop) st) = Some (length (st_out st) + 6)
      \<and> map_option (\<lambda>s. length (st_out s)) (run_program M h1 p1 st) = Some (length (st_out st) + 3)"
    using w c by (simp add: run_program_def calling_loop_def demo_loop_def loop_end_def loop_stride_def)
  with w(1) show ?thesis by blast
qed

end
