(* ===== verification/Vectorizing.thy ===== *)
theory Vectorizing
  imports Widening
begin

text \<open>
  Vectorization is a rewriting of loops in the sense of theory Rewriting, where the body of the loop is one store
  whose last subscript moves by one and whose value reads other buffers, or the very element it writes. The
  checks of \<open>mayVectorizeStore\<close> do not look at dependences: \<open>vectorize_breaks_recurrence\<close>.
\<close>

section \<open>Accesses that move by one\<close>

fun flat_index :: "expr \<Rightarrow> bool" where
  "flat_index (IndexExpr ty L) = True"
| "flat_index (ConstantExpr v) = True"
| "flat_index (BinaryExpr k l r) = (flat_index l \<and> flat_index r)"
| "flat_index _ = False"

fun unit_index :: "loop_ptr \<Rightarrow> expr \<Rightarrow> bool" where
  "unit_index L (IndexExpr ty K) = (K = L)"
| "unit_index L (BinaryExpr k l r) =
     (k = Add \<and> (unit_index L l \<and> L \<notin> loops_of_expr r \<or> L \<notin> loops_of_expr l \<and> unit_index L r))"
| "unit_index L _ = False"

definition unit_access :: "loop_ptr \<Rightarrow> expr list \<Rightarrow> bool" where
  "unit_access L is \<longleftrightarrow> is \<noteq> [] \<and> list_all flat_index is \<and> (\<forall>e \<in> set (butlast is). L \<notin> loops_of_expr e) \<and> unit_index L (last is)"

abbreviation ahead :: "env \<Rightarrow> loop_ptr \<Rightarrow> i64 \<Rightarrow> env" where
  "ahead \<rho> L k \<equiv> \<rho>(L := \<rho> L + k)"

lemma eval_ahead: "L \<notin> loops_of_expr e \<Longrightarrow> eval M h st (ahead \<rho> L k) e = eval M h st \<rho> e"
  by (rule eval_cong) auto

lemma flat_eval: "flat_index e \<Longrightarrow> eval M h st \<rho> e = None \<or> (\<exists>c. eval M h st \<rho> e = Some (VIdx [c]))"
proof (induction e)
  case (BinaryExpr k l r)
  then consider "eval M h st \<rho> l = None" | "eval M h st \<rho> r = None" | c d where "eval M h st \<rho> l = Some (VIdx [c])" "eval M h st \<rho> r = Some (VIdx [d])"
    by auto
  then show ?case by cases (auto split: Option.bind_splits option.splits)
qed auto

lemma flat_same: "flat_index e \<Longrightarrow> eval M h st' \<rho> e = eval M h st \<rho> e"
  by (induction e) auto

lemma unit_eval:
  "flat_index e \<Longrightarrow> unit_index L e \<Longrightarrow>
     (\<forall>k. eval M h st (ahead \<rho> L k) e = None) \<or> (\<exists>c. \<forall>k. eval M h st (ahead \<rho> L k) e = Some (VIdx [c + k]))"
proof (induction e)
  case (BinaryExpr b l r)
  have sum: "(\<forall>k. eval M h st (ahead \<rho> L k) (BinaryExpr Add x y) = None \<and> eval M h st (ahead \<rho> L k) (BinaryExpr Add y x) = None)
      \<or> (\<exists>c. \<forall>k. eval M h st (ahead \<rho> L k) (BinaryExpr Add x y) = Some (VIdx [c + k])
               \<and> eval M h st (ahead \<rho> L k) (BinaryExpr Add y x) = Some (VIdx [c + k]))"
    if u: "(\<forall>k. eval M h st (ahead \<rho> L k) x = None) \<or> (\<exists>c. \<forall>k. eval M h st (ahead \<rho> L k) x = Some (VIdx [c + k]))"
      and y: "flat_index y" "L \<notin> loops_of_expr y" for x y
  proof -
    consider "\<forall>k. eval M h st (ahead \<rho> L k) x = None" | "\<forall>k. eval M h st (ahead \<rho> L k) y = None"
      | c d where "\<forall>k. eval M h st (ahead \<rho> L k) x = Some (VIdx [c + k])" "\<forall>k. eval M h st (ahead \<rho> L k) y = Some (VIdx [d])"
      using u flat_eval [OF y(1), of M h st \<rho>] eval_ahead [OF y(2), of M h st \<rho>] by metis
    then show ?thesis
    proof cases
      case 3
      then show ?thesis by (intro disjI2 exI [of _ "c + d"]) (simp add: algebra_simps)
    qed (simp_all add: Option.bind_eq_None_conv)
  qed
  have b: "b = Add" and d: "unit_index L l \<and> L \<notin> loops_of_expr r \<or> L \<notin> loops_of_expr l \<and> unit_index L r"
    and f: "flat_index l" "flat_index r" using BinaryExpr.prems by auto
  from d show ?case unfolding b
  proof (elim disjE conjE)
    assume "unit_index L l" "L \<notin> loops_of_expr r"
    from sum [OF BinaryExpr.IH(1) [OF f(1) this(1)] f(2) this(2)] show "(\<forall>k. eval M h st (ahead \<rho> L k) (BinaryExpr Add l r) = None)
        \<or> (\<exists>c. \<forall>k. eval M h st (ahead \<rho> L k) (BinaryExpr Add l r) = Some (VIdx [c + k]))" by blast
  next
    assume "L \<notin> loops_of_expr l" "unit_index L r"
    from sum [OF BinaryExpr.IH(2) [OF f(2) this(2)] f(1) this(1)] show "(\<forall>k. eval M h st (ahead \<rho> L k) (BinaryExpr Add l r) = None)
        \<or> (\<exists>c. \<forall>k. eval M h st (ahead \<rho> L k) (BinaryExpr Add l r) = Some (VIdx [c + k]))" by blast
  qed
qed auto

lemma gep_offset_step: "length ds = Suc (length xs) \<Longrightarrow> gep_offset off ds (xs @ [c + k]) = gep_offset off ds (xs @ [c]) + k"
proof (induction xs arbitrary: ds off)
  case Nil
  then obtain d where "ds = [d]" by (cases ds) auto
  then show ?case by (simp add: add.assoc)
next
  case (Cons x xs)
  then obtain d ds' where "ds = d # ds'" by (cases ds) auto
  then show ?case using Cons by simp
qed

lemma those_snoc: "those (xs @ [x]) = Option.bind (those xs) (\<lambda>ys. map_option (\<lambda>y. ys @ [y]) x)"
proof (induction xs)
  case Nil
  then show ?case by (cases x) simp_all
next
  case (Cons y xs)
  then show ?case by (cases y; cases "those xs"; cases x) simp_all
qed

lemma those_length: "those xs = Some ys \<Longrightarrow> length ys = length xs"
  by (induction xs arbitrary: ys) (auto split: option.splits)

lemma unit_gep:
  assumes "unit_access L is"
  shows "(\<forall>k. eval M h st (ahead \<rho> L k) (GEPExpr a is) = None) \<or> (\<exists>c. \<forall>k. eval M h st (ahead \<rho> L k) (GEPExpr a is) = Some (VPtr a (c + k)))"
proof -
  obtain js e where "is": "is = js @ [e]" using assms unfolding unit_access_def by (metis append_butlast_last_id)
  have e: "flat_index e" "unit_index L e" and js: "\<forall>x \<in> set js. L \<notin> loops_of_expr x" using assms unfolding unit_access_def "is" by auto
  define xs where "xs = those (map (\<lambda>e. Option.bind (eval M h st \<rho> e) scalar_idx) js)"
  have free: "those (map (\<lambda>e. Option.bind (eval M h st (ahead \<rho> L k) e) scalar_idx) js) = xs" for k
    unfolding xs_def by (rule arg_cong [of _ _ those], rule map_cong) (use js eval_ahead in auto)
  let ?ds = "ty_sizes (arg_type (hp_arg h a))"
  consider "\<forall>k. eval M h st (ahead \<rho> L k) e = None" | "xs = None"
    | c ys where "\<forall>k. eval M h st (ahead \<rho> L k) e = Some (VIdx [c + k])" "xs = Some ys"
    using unit_eval [OF e, of M h st \<rho>] by fastforce
  then show ?thesis
  proof cases
    case (3 c ys)
    show ?thesis
    proof (cases "length ?ds = Suc (length ys)")
      case True
      have "eval M h st (ahead \<rho> L k) (GEPExpr a is) = Some (VPtr a (gep_offset 0 ?ds (ys @ [c]) + k))" for k
        using True 3 free gep_offset_step [OF True, of 0 c k] by (simp add: "is" those_snoc)
      then show ?thesis by blast
    next
      case False
      have "eval M h st (ahead \<rho> L k) (GEPExpr a is) = None" for k using False 3 free by (simp add: "is" those_snoc)
      then show ?thesis by blast
    qed
  qed (simp_all add: "is" those_snoc free Option.bind_eq_None_conv)
qed

lemma flat_gep_same: "list_all flat_index is \<Longrightarrow> eval M h st' \<rho> (GEPExpr a is) = eval M h st \<rho> (GEPExpr a is)"
proof -
  assume f: "list_all flat_index is"
  have "map (\<lambda>e. Option.bind (eval M h st' \<rho> e) scalar_idx) is = map (\<lambda>e. Option.bind (eval M h st \<rho> e) scalar_idx) is"
    by (rule map_cong) (use f flat_same [of _ M h st' \<rho> st] in \<open>auto simp: list_all_iff\<close>)
  then show ?thesis by (simp del: map_eq_conv)
qed

lemma gep_pointer: "eval M h st \<rho> (GEPExpr a is) = None \<or> (\<exists>c. eval M h st \<rho> (GEPExpr a is) = Some (VPtr a c))"
  by (auto split: Option.bind_splits)

section \<open>Values\<close>

text \<open>A value that reads other buffers, at places that do not use the index or move by one with it, or the element
  that is stored.\<close>

fun vec_value :: "loop_ptr \<Rightarrow> arg_ptr \<Rightarrow> expr list \<Rightarrow> expr \<Rightarrow> bool" where
  "vec_value L a is (BinaryExpr k l r) = (vec_value L a is l \<and> vec_value L a is r)"
| "vec_value L a is (UnaryExpr k e) = vec_value L a is e"
| "vec_value L a is (LoadExpr ty g) =
     (case g of
        GEPExpr b js \<Rightarrow> ety_width ty = 1 \<and> list_all flat_index js \<and> ((\<forall>e \<in> set js. L \<notin> loops_of_expr e) \<or> unit_access L js)
          \<and> (b = a \<longrightarrow> js = is)
      | _ \<Rightarrow> False)"
| "vec_value L a is (ConstantFPExpr f) = True"
| "vec_value L a is _ = False"

lemma load_one: "load_lanes mem a c 1 = [mem a c]"
  by (simp add: load_lanes_def)

lemma value_same:
  assumes "eval M h st \<rho> (GEPExpr a is) = Some (VPtr a c)" "\<And>b. b \<noteq> a \<Longrightarrow> st_mem st' b = st_mem st b" "st_mem st' a c = st_mem st a c"
  shows "vec_value L a is x \<Longrightarrow> eval M h st' \<rho> x = eval M h st \<rho> x"
proof (induction x)
  case (LoadExpr ty g)
  then obtain b js where g: "g = GEPExpr b js" and v: "ety_width ty = 1" "list_all flat_index js" "b = a \<longrightarrow> js = is" by (cases g) auto
  note f = flat_gep_same [OF v(2), of M h st' \<rho> b st]
  show ?case
  proof (cases "eval M h st \<rho> (GEPExpr b js)")
    case None
    then show ?thesis unfolding g using f by (simp del: eval.simps(8))
  next
    case (Some p)
    then obtain d where p: "p = VPtr b d" using gep_pointer [of M h st \<rho> b js] by auto
    have "st_mem st' b d = st_mem st b d"
      using assms Some p v(3) by (cases "b = a") auto
    then show ?thesis unfolding g using f Some p v(1) by (simp add: load_one del: eval.simps(8))
  qed
qed auto

lemma vector_free: "vec_value L a is x \<Longrightarrow> vectorizeExpr h L w x = Inr y \<Longrightarrow>
    loops_of_expr y = loops_of_expr x \<and> args_of_expr y = args_of_expr x \<and> vars_of_expr y = vars_of_expr x
    \<and> (index_kinds_ok x \<longrightarrow> index_kinds_ok y)"
proof (induction x arbitrary: y)
  case (BinaryExpr k l r)
  then show ?case by (auto simp: new_BinaryExpr_def broadcast_to_def new_BroadcastExpr_def split: if_splits)
next
  case (LoadExpr ty g)
  then show ?case by (cases g) (auto simp: new_GEPExpr_def split: if_splits)
qed auto

text \<open>The lanes of the vectorized value are the values of the iterations; a value without the index stays scalar.\<close>

definition lanes_of :: "(i64 \<Rightarrow> val option) \<Rightarrow> u32 \<Rightarrow> bool \<Rightarrow> val option \<Rightarrow> bool" where
  "lanes_of g w vec v \<longleftrightarrow> (\<forall>k. g k = None) \<and> v = None
     \<or> (\<exists>f. (\<forall>k. g k = Some (VFlt [f k])) \<and> (if vec then v = Some (VFlt (map (\<lambda>j. f (of_nat j)) [0..<unat w])) else (\<exists>c. f = (\<lambda>k. c) \<and> v = Some (VFlt [c]))))"

lemma lanes_broadcast:
  assumes "lanes_of g w (isVector (getType y)) (eval M h st \<rho> y)" "broadcast_to y w = Inr z" "1 < w"
  shows "lanes_of g w True (eval M h st \<rho> z)" "isVector (getType z)"
proof -
  have c: "isVector (getType y) \<and> z = y \<or> \<not> isVector (getType y) \<and> z = BroadcastExpr y w"
    using assms(2) by (auto simp: broadcast_to_def new_BroadcastExpr_def split: if_splits)
  then show "isVector (getType z)" using assms(3) by (auto simp: isVector_def)
  from c show "lanes_of g w True (eval M h st \<rho> z)"
  proof (elim disjE conjE)
    assume n: "\<not> isVector (getType y)" and z: "z = BroadcastExpr y w"
    from assms(1) n consider "\<forall>k. g k = None" "eval M h st \<rho> y = None"
      | c where "\<forall>k. g k = Some (VFlt [c])" "eval M h st \<rho> y = Some (VFlt [c])"
      unfolding lanes_of_def by auto
    then show ?thesis
    proof cases
      case (2 c)
      have "replicate (unat w) c = map (\<lambda>j. c) [0..<unat w]" by (simp add: map_replicate_const)
      then show ?thesis using 2 z unfolding lanes_of_def by (intro disjI2 exI [of _ "\<lambda>k. c"]) simp
    qed (simp add: lanes_of_def z)
  qed (use assms(1) in simp)
qed

lemma lanes_binary:
  assumes "lanes_of g w b u" "lanes_of g' w b v"
  shows "lanes_of (\<lambda>k. Option.bind (g k) (\<lambda>x. Option.bind (g' k) (eval_bin M op x))) w b
    (Option.bind u (\<lambda>x. Option.bind v (eval_bin M op x)))"
proof -
  consider "\<forall>k. g k = None" "u = None" | "\<forall>k. g' k = None" "v = None"
    | c c' where "\<not> b" "\<forall>k. g k = Some (VFlt [c])" "\<forall>k. g' k = Some (VFlt [c'])" "u = Some (VFlt [c])" "v = Some (VFlt [c'])"
    | f f' where "b" "\<forall>k. g k = Some (VFlt [f k])" "\<forall>k. g' k = Some (VFlt [f' k])"
      "u = Some (VFlt (map (\<lambda>j. f (of_nat j)) [0..<unat w]))" "v = Some (VFlt (map (\<lambda>j. f' (of_nat j)) [0..<unat w]))"
    using assms unfolding lanes_of_def by (cases b) auto
  then show ?thesis
  proof cases
    case (3 c c')
    then show ?thesis unfolding lanes_of_def by (intro disjI2 exI [of _ "\<lambda>k. m_bin M op c c'"]) simp
  next
    case (4 f f')
    have "map2 (m_bin M op) (map (\<lambda>j. f (of_nat j)) [0..<unat w]) (map (\<lambda>j. f' (of_nat j)) [0..<unat w])
        = map (\<lambda>j. m_bin M op (f (of_nat j)) (f' (of_nat j))) [0..<unat w]"
      by (rule nth_equalityI) auto
    with 4 show ?thesis unfolding lanes_of_def by (intro disjI2 exI [of _ "\<lambda>k. m_bin M op (f k) (f' k)"]) simp
  qed (simp_all add: lanes_of_def Option.bind_eq_None_conv)
qed

lemma value_lanes:
  assumes w: "1 < w"
  shows "vec_value L a is x \<Longrightarrow> vectorizeExpr h L w x = Inr y \<Longrightarrow>
    lanes_of (\<lambda>k. eval M h st (ahead \<rho> L k) x) w (isVector (getType y)) (eval M h st \<rho> y)"
proof (induction x arbitrary: y)
  case (BinaryExpr k l r)
  then obtain VL VR where V: "vectorizeExpr h L w l = Inr VL" "vectorizeExpr h L w r = Inr VR" by auto
  have IH: "lanes_of (\<lambda>k. eval M h st (ahead \<rho> L k) l) w (isVector (getType VL)) (eval M h st \<rho> VL)"
    "lanes_of (\<lambda>k. eval M h st (ahead \<rho> L k) r) w (isVector (getType VR)) (eval M h st \<rho> VR)"
    by (rule BinaryExpr.IH(1) [OF _ V(1)], use BinaryExpr.prems(1) in simp) (rule BinaryExpr.IH(2) [OF _ V(2)], use BinaryExpr.prems(1) in simp)
  show ?case
  proof (cases "isVector (getType VL) = isVector (getType VR)")
    case True
    then have "y = BinaryExpr k VL VR" using BinaryExpr.prems(2) V by (simp add: new_BinaryExpr_def)
    then show ?thesis using lanes_binary [OF IH(1) IH(2) [folded True], of M k] by (simp only: eval.simps getType.simps)
  next
    case False
    then obtain l' r' where b: "broadcast_to VL w = Inr l'" "broadcast_to VR w = Inr r'" "y = BinaryExpr k l' r'"
      using BinaryExpr.prems(2) V by (auto simp: new_BinaryExpr_def)
    note B = lanes_broadcast [OF IH(1) b(1) w] lanes_broadcast [OF IH(2) b(2) w]
    show ?thesis using lanes_binary [OF B(1,3), of M k] B(2) unfolding b(3) by (simp only: eval.simps getType.simps)
  qed
next
  case (UnaryExpr k e)
  then obtain V where V: "vectorizeExpr h L w e = Inr V" "y = UnaryExpr k V" by auto
  have IH: "lanes_of (\<lambda>k. eval M h st (ahead \<rho> L k) e) w (isVector (getType V)) (eval M h st \<rho> V)"
    by (rule UnaryExpr.IH [OF _ V(1)]) (use UnaryExpr.prems(1) in simp)
  then consider "\<forall>k. eval M h st (ahead \<rho> L k) e = None" "eval M h st \<rho> V = None"
    | f where "isVector (getType V)" "\<forall>k. eval M h st (ahead \<rho> L k) e = Some (VFlt [f k])"
      "eval M h st \<rho> V = Some (VFlt (map (\<lambda>j. f (of_nat j)) [0..<unat w]))"
    | c where "\<not> isVector (getType V)" "\<forall>k. eval M h st (ahead \<rho> L k) e = Some (VFlt [c])" "eval M h st \<rho> V = Some (VFlt [c])"
    unfolding lanes_of_def by (cases "isVector (getType V)") auto
  then show ?case
  proof cases
    case (2 f)
    then show ?thesis unfolding lanes_of_def V(2) by (intro disjI2 exI [of _ "\<lambda>j. m_un M k (f j)"]) simp
  next
    case (3 c)
    then show ?thesis unfolding lanes_of_def V(2) by (intro disjI2 exI [of _ "\<lambda>j. m_un M k c"]) simp
  qed (simp only: lanes_of_def V(2) eval.simps simp_thms bind.simps)
next
  case (LoadExpr ty g)
  obtain b js where g: "g = GEPExpr b js" and v: "ety_width ty = 1" "list_all flat_index js"
      "(\<forall>e \<in> set js. L \<notin> loops_of_expr e) \<or> unit_access L js"
    using LoadExpr.prems(1) by (cases g) auto
  show ?case
  proof (cases "L \<in> loops_of_expr (LoadExpr ty g)")
    case False
    then have y: "y = LoadExpr ty g" using LoadExpr.prems(2) by (simp add: dependsOnLoop_expr del: visit_expr.simps loops_of_expr.simps)
    have e: "eval M h st (ahead \<rho> L k) (LoadExpr ty g) = eval M h st \<rho> (LoadExpr ty g)" for k by (rule eval_ahead [OF False])
    have n: "\<not> isVector (getType y)" using y v(1) by (simp add: isVector_def)
    consider "eval M h st \<rho> (LoadExpr ty g) = None" | c where "eval M h st \<rho> (LoadExpr ty g) = Some (VFlt [c])"
      using gep_pointer [of M h st \<rho> b js] unfolding g by (auto simp: v(1) load_one simp del: eval.simps(8))
    then show ?thesis
    proof cases
      case (2 c)
      then show ?thesis unfolding lanes_of_def e using n y by (intro disjI2 exI [of _ "\<lambda>k. c"]) simp
    qed (unfold lanes_of_def e y, simp del: eval.simps)
  next
    case True
    then have u: "unit_access L js" using v(3) g by auto
    have "\<exists>t. y = LoadExpr t (GEPExpr b js) \<and> ety_width t = w"
      using LoadExpr.prems(2) True unfolding g
      by (auto simp: dependsOnLoop_expr mkExprType_def new_GEPExpr_def simp del: visit_expr.simps loops_of_expr.simps)
    then obtain t where y: "y = LoadExpr t (GEPExpr b js)" "ety_width t = w" by blast
    have n: "isVector (getType y)" using y w by (simp add: isVector_def)
    have here: "ahead \<rho> L 0 = \<rho>" by simp
    from unit_gep [OF u, of M h st \<rho> b] show ?thesis
    proof (elim disjE exE)
      assume c: "\<forall>k. eval M h st (ahead \<rho> L k) (GEPExpr b js) = None"
      have "eval M h st \<rho> (GEPExpr b js) = None" using spec [OF c, of 0] unfolding here .
      then show ?thesis using c unfolding lanes_of_def g y(1) eval.simps(9) by (simp only: bind.simps simp_thms)
    next
      fix c assume c: "\<forall>k. eval M h st (ahead \<rho> L k) (GEPExpr b js) = Some (VPtr b (c + k))"
      have "eval M h st \<rho> (GEPExpr b js) = Some (VPtr b c)" using spec [OF c, of 0] unfolding here by (simp only: add_0_right)
      then show ?thesis using c n v(1) unfolding lanes_of_def g y(1) by (intro disjI2 exI [of _ "\<lambda>k. st_mem st b (c + k)"])
          (simp add: load_one y(2) load_lanes_def del: eval.simps(8))
    qed
  qed
next
  case (ConstantFPExpr c)
  then show ?case by (auto simp: lanes_of_def isVector_def scalarTy_def intro!: exI [of _ "\<lambda>k. canon c"])
qed simp_all

section \<open>The store\<close>

definition cells :: "(nat \<Rightarrow> f32) \<Rightarrow> arg_ptr \<Rightarrow> i64 \<Rightarrow> nat \<Rightarrow> memory \<Rightarrow> memory" where
  "cells f a c n m = foldl (\<lambda>m k. m(a := (m a)(c + of_nat k := f k))) m [0..<n]"

lemma cells_Suc: "cells f a c (Suc n) m = (let m = cells f a c n m in m(a := (m a)(c + of_nat n := f n)))"
  by (simp add: cells_def Let_def)

lemma cells_other: "b \<noteq> a \<Longrightarrow> cells f a c n m b = m b"
  by (induction n) (simp_all add: cells_Suc Let_def, simp add: cells_def)

lemma cells_later: "n \<le> k \<Longrightarrow> k < 2 ^ 32 \<Longrightarrow> cells f a c n m a (c + of_nat k) = m a (c + of_nat k)"
proof (induction n)
  case (Suc n)
  have "(of_nat n :: i64) \<noteq> of_nat k"
    using Suc.prems by (simp add: word_unat_eq_iff unat_of_nat)
  with Suc show ?case by (simp add: cells_Suc Let_def)
qed (simp add: cells_def)

lemma store_cells: "store_lanes m a c (map f [0..<n]) = cells f a c n m"
proof -
  have "enumerate 0 (map f [0..<n]) = map (\<lambda>k. (k, f k)) [0..<n]"
    by (simp add: enumerate_eq_zip zip_map2 zip_same_conv_map)
  then show ?thesis by (simp add: store_lanes_def cells_def foldl_map)
qed

lemma store_one: "store_lanes m a c [x] = m(a := (m a)(c := x))"
  by (simp add: store_lanes_def)

lemma vector_run:
  assumes V: "vectorizeStore h L w (StoreStmt (GEPExpr a is) x acc) = Inr S'" and w: "1 < w"
    and u: "unit_access L is" and x: "vec_value L a is x"
  shows "exec M h \<rho> S' st = fold_opt (\<lambda>i. exec M h (ahead \<rho> L (of_nat i)) (StoreStmt (GEPExpr a is) x acc)) [0..<unat w] st"
proof -
  let ?S = "StoreStmt (GEPExpr a is) x acc" and ?go = "\<lambda>i. exec M h (ahead \<rho> L (of_nat i)) (StoreStmt (GEPExpr a is) x acc)"
  obtain y z where y: "vectorizeExpr h L w x = Inr y" and z: "broadcast_to y w = Inr z" and S': "S' = StoreStmt (GEPExpr a is) z acc"
    using V by (auto simp: new_StoreStmt_arg_def new_GEPExpr_def)
  have lanes: "lanes_of (\<lambda>k. eval M h st (ahead \<rho> L k) x) w True (eval M h st \<rho> z)"
    by (rule lanes_broadcast(1) [OF value_lanes [OF w x y] z w])
  have here: "ahead \<rho> L 0 = \<rho>" by simp
  have W: "0 < unat w" using w by (simp add: word_less_nat_alt)
  then have first: "[0..<unat w] = 0 # [1..<unat w]" by (simp add: upt_rec)
  from unit_gep [OF u, of M h st \<rho> a] consider "\<forall>k. eval M h st (ahead \<rho> L k) (GEPExpr a is) = None"
    | c where "\<forall>k. eval M h st (ahead \<rho> L k) (GEPExpr a is) = Some (VPtr a (c + k))" by blast
  then show ?thesis
  proof cases
    case 1
    have "eval M h st \<rho> (GEPExpr a is) = None" using spec [OF 1, of 0] unfolding here .
    then have "exec M h \<rho> S' st = None" "?go 0 st = None" unfolding S' by (simp_all add: here del: eval.simps)
    then show ?thesis unfolding first by (simp del: exec.simps)
  next
    case (2 c)
    have g0: "eval M h st \<rho> (GEPExpr a is) = Some (VPtr a c)" using spec [OF 2, of 0] unfolding here by (simp only: add_0_right)
    from lanes consider "\<forall>k. eval M h st (ahead \<rho> L k) x = None" "eval M h st \<rho> z = None"
      | f where "\<forall>k. eval M h st (ahead \<rho> L k) x = Some (VFlt [f k])" "eval M h st \<rho> z = Some (VFlt (map (\<lambda>j. f (of_nat j)) [0..<unat w]))"
      unfolding lanes_of_def by auto
    then show ?thesis
    proof cases
      case 1
      have "eval M h st \<rho> x = None" using spec [OF 1(1), of 0] unfolding here .
      then have "exec M h \<rho> S' st = None" "?go 0 st = None" using 1(2) g0 unfolding S' by (simp_all add: here del: eval.simps)
      then show ?thesis unfolding first by (simp del: exec.simps)
    next
      case (2 f)
      define new where "new k = (if acc then m_bin M Add (st_mem st a (c + of_nat k)) (f (of_nat k)) else f (of_nat k))" for k
      let ?at = "\<lambda>n. st\<lparr>st_mem := cells new a c n (st_mem st)\<rparr>"
      have "fold_opt ?go [0..<n] st = Some (?at n)" if "n \<le> unat w" for n
        using that
      proof (induction n)
        case (Suc n)
        have n: "n < 2 ^ 32" using Suc.prems unat_u32_bound [of w] by simp
        have g: "eval M h st (ahead \<rho> L (of_nat n)) (GEPExpr a is) = Some (VPtr a (c + of_nat n))" using \<open>\<forall>k. _ = Some (VPtr a (c + k))\<close> by blast
        have g': "eval M h (?at n) (ahead \<rho> L (of_nat n)) (GEPExpr a is) = Some (VPtr a (c + of_nat n))"
          using g flat_gep_same u unfolding unit_access_def by metis
        have cell: "cells new a c n (st_mem st) a (c + of_nat n) = st_mem st a (c + of_nat n)" by (rule cells_later [OF order_refl n])
        have "eval M h (?at n) (ahead \<rho> L (of_nat n)) x = eval M h st (ahead \<rho> L (of_nat n)) x"
          by (rule value_same [OF g _ _ x]) (simp_all add: cells_other cell)
        then have x': "eval M h (?at n) (ahead \<rho> L (of_nat n)) x = Some (VFlt [f (of_nat n)])" using 2(1) by simp
        have "store_to M acc (?at n) (VPtr a (c + of_nat n)) (VFlt [f (of_nat n)]) = Some (?at (Suc n))"
          by (simp add: Let_def store_one cell new_def cells_Suc)
        then have "?go n (?at n) = Some (?at (Suc n))" using g' x' by (simp del: eval.simps store_to.simps)
        moreover have "[0..<Suc n] = [0..<n] @ [n]" by simp
        ultimately show ?case using Suc.IH Suc.prems by (simp only: fold_opt_append fold_opt_one bind.simps Suc_leD)
      qed (simp add: cells_def)
      then have "fold_opt ?go [0..<unat w] st = Some (?at (unat w))" by blast
      moreover have "store_to M acc st (VPtr a c) (VFlt (map (\<lambda>j. f (of_nat j)) [0..<unat w])) = Some (?at (unat w))"
      proof -
        have "(if acc then map2 (m_bin M Add) (map (\<lambda>k. st_mem st a (c + of_nat k)) [0..<unat w]) (map (\<lambda>j. f (of_nat j)) [0..<unat w])
            else map (\<lambda>j. f (of_nat j)) [0..<unat w]) = map new [0..<unat w]"
          by (rule nth_equalityI) (auto simp: new_def)
        then show ?thesis by (simp add: Let_def store_cells)
      qed
      ultimately show ?thesis using g0 2(2) unfolding S' by (simp del: eval.simps store_to.simps)
    qed
  qed
qed

section \<open>The contract\<close>

definition vector_store :: "u32 \<Rightarrow> (loop_ptr option) loop_rewrite_fun" where
  "vector_store w h vs enc L body =
     (case body of
        [StoreStmt (GEPExpr a is) x acc] \<Rightarrow>
          if 1 < w \<and> unit_access L is \<and> vec_value L a is x then vectorize_loop w h vs enc L body else Inr None
      | _ \<Rightarrow> Inr None)"

definition vector_pre :: "machine \<Rightarrow> heap \<Rightarrow> loop_ptr \<Rightarrow> bool" where
  "vector_pre M h L \<longleftrightarrow> unat (loop_end h L) < 2 ^ 31"

lemma unit_index_uses: "unit_index L e \<Longrightarrow> L \<in> loops_of_expr e"
  by (induction e) auto

lemma unit_access_uses: "unit_access L is \<Longrightarrow> dependsOnLoop (visit_stmt (StoreStmt (GEPExpr a is) x acc)) L"
  using unit_index_uses [of L "last is"] unfolding dependsOnLoop_stmt unit_access_def by auto

lemma vector_store_elim:
  assumes "vector_store w h vs enc L body = Inr (Some (t, new, h'))"
  obtains a "is" x acc after h1 S' where "body = [StoreStmt (GEPExpr a is) x acc]" "1 < w" "unit_access L is" "vec_value L a is x"
    "loop_stride h L = 1" "w \<le> loop_end h L"
    "peel_tail (loop_end h L mod w) h vs enc L body = Inr (t, after, h1)"
    "vectorizeStore h1 L w (StoreStmt (GEPExpr a is) x acc) = Inr S'" "new = Loop L [S'] # after" "h' = setStride h1 L w"
proof -
  from assms obtain a "is" x acc where b: "body = [StoreStmt (GEPExpr a is) x acc]" and c: "1 < w" "unit_access L is" "vec_value L a is x"
    and v: "vectorize_loop w h vs enc L body = Inr (Some (t, new, h'))"
    by (auto simp: vector_store_def split: list.splits stmt.splits expr.splits if_splits)
  have d: "dependsOnLoop (visit_stmt (StoreStmt (GEPExpr a is) x acc)) L" using c(2) by (rule unit_access_uses)
  from v b d obtain after h1 S' where "loop_stride h L = 1" "w \<le> loop_end h L"
    "peel_tail (loop_end h L mod w) h vs enc L body = Inr (t, after, h1)"
    "vectorizeStore h1 L w (StoreStmt (GEPExpr a is) x acc) = Inr S'" "new = Loop L [S'] # after" "h' = setStride h1 L w"
    by (auto simp: vectorize_loop_def mod_u32_def Let_def not_less simp del: visit_stmt.simps vectorizeStore.simps
        split: if_splits option.splits prod.splits)
  with b c show ?thesis by (rule that)
qed

lemma vector_all:
  assumes r: "vector_store w h vs enc L body = Inr (Some (t, new, h'))" and wf: "wf_body h [Loop L body]"
  shows "heap_keeps L h h'" "fits_body h h' [Loop L body] new" "vector_pre M h L \<Longrightarrow> runs_like M h h' [Loop L body] new"
proof -
  obtain a "is" x acc after h1 S' where b: "body = [StoreStmt (GEPExpr a is) x acc]" and w: "1 < w"
    and u: "unit_access L is" and x: "vec_value L a is x" and s: "loop_stride h L = 1" and e: "w \<le> loop_end h L"
    and p: "peel_tail (loop_end h L mod w) h vs enc L body = Inr (t, after, h1)"
    and V: "vectorizeStore h1 L w (StoreStmt (GEPExpr a is) x acc) = Inr S'" and new: "new = Loop L [S'] # after" and h': "h' = setStride h1 L w"
    using r by (rule vector_store_elim)
  let ?S = "StoreStmt (GEPExpr a is) x acc"
  have W: "loop_stride h L * w = w" by (simp add: s)
  have "wf_body h1 [Loop L body]"
    using peel_tail_facts [OF p wf] wf_body_Cons [of h1 "Loop L body" after] by (auto simp: fits_body_def simp del: set_concat free_loops.simps)
  then have wfS: "wf_body h1 [?S]" using b by (auto simp: wf_body_Loop)
  obtain y z where y: "vectorizeExpr h1 L w x = Inr y" and z: "broadcast_to y w = Inr z" and S': "S' = StoreStmt (GEPExpr a is) z acc"
    using V by (auto simp: new_StoreStmt_arg_def new_GEPExpr_def)
  have "loops_of_expr z = loops_of_expr x" "args_of_expr z = args_of_expr x" "vars_of_expr z = vars_of_expr x" "index_kinds_ok x \<longrightarrow> index_kinds_ok z"
    using vector_free [OF x y] z by (auto simp: broadcast_to_def new_BroadcastExpr_def split: if_splits)
  then have C: "wf_body h1 [S']" "body_loops [S'] = []" "free_of [S'] \<subseteq> insert L (free_of [?S])"
    using wfS unfolding S' wf_body_def by (auto simp: free_of_def below_expr_def)
  have q: "loop_stride h L * w \<noteq> 0" "loop_stride h L * w \<le> loop_end h L" unfolding W using w e by auto
  have p': "peel_tail (loop_end h L mod (loop_stride h L * w)) h vs enc L [?S] = Inr (t, after, h1)"
    and h'': "h' = setStride h1 L (loop_stride h L * w)" using p b h' by (simp_all only: W)
  note A = stepped_all [OF p' wf [unfolded b] w q C h'']
  show "heap_keeps L h h'" "fits_body h h' [Loop L body] new" unfolding b new by (rule A(1,2))+
  show "runs_like M h h' [Loop L body] new" if pre: "vector_pre M h L"
    unfolding b new
  proof (rule A(3))
    show "unat (loop_stride h L) * unat w < 2 ^ 32" using unat_u32_bound [of w] by (simp add: s)
    show "unat (loop_end h L) < 2 ^ 31" using pre by (simp add: vector_pre_def)
    show "exec_body M h1 \<rho> [S'] v = fold_opt (\<lambda>i. exec M h1 (\<rho>(L := \<rho> L + of_nat (i * unat (loop_stride h L)))) ?S) [0..<unat w] v" for \<rho> v
      using vector_run [OF V w u x, of M \<rho> v] unfolding fold_opt_single by (simp add: s del: exec.simps)
  qed
qed

interpretation vectorizing: loop_rewriting "vector_store w" vector_pre for w
proof (unfold_locales, goal_cases)
  case (1 h vs enc L body t new h')
  then show ?case by (rule vector_all(1))
next
  case (2 h vs enc L body t new h')
  then show ?case by (rule vector_all(2))
next
  case (3 h vs enc L body t new h' M)
  then show ?case by (rule vector_all(3))
qed

section \<open>Properties\<close>

text \<open>C22. \<open>vectorize\<close> keeps what the program computes when the body of the loop is one store to an element that
  moves by one, whose value reads other buffers or that element: a vector store with its vector loads and broadcasts
  does what the \<open>w\<close> iterations do one after the other, and the peeled tail does the rest.\<close>

theorem vectorize_preserves:
  "vectorize h p L w = Inr (Some (t, p', h')) \<Longrightarrow> find_loop [] L (pr_body p) = Some (enc, [StoreStmt (GEPExpr a is) x acc]) \<Longrightarrow>
     1 < w \<Longrightarrow> unit_access L is \<Longrightarrow> vec_value L a is x \<Longrightarrow> wf_body h (pr_body p) \<Longrightarrow> unat (loop_end h L) < 2 ^ 31 \<Longrightarrow>
     run_program M h' p' st = run_program M h p st"
  by (rule vectorizing.program_runs [where w = w and L = L and x = t])
    (simp_all add: vectorize_def on_loop_def vector_store_def vector_pre_def del: run_program_def)

theorem vectorize_preserves_witness:
  "\<exists>p' h'. vectorize (fst demo_loop) (snd demo_loop) 0 4 = Inr (Some (Some 2, p', h'))
     \<and> (\<forall>M st. run_program M h' p' st = run_program M (fst demo_loop) (snd demo_loop) st)"
proof -
  have "case vectorize (fst demo_loop) (snd demo_loop) 0 4 of Inr (Some (t, p1, h1)) \<Rightarrow> t = Some 2 | _ \<Rightarrow> False"
    by code_simp
  then obtain p1 h1 where w: "vectorize (fst demo_loop) (snd demo_loop) 0 4 = Inr (Some (Some 2, p1, h1))"
    by (auto split: sum.splits option.splits)
  have wf: "wf_body (fst demo_loop) (pr_body (snd demo_loop))"
    by (simp add: demo_loop_def wf_body_def free_of_def)
  have f: "find_loop [] 0 (pr_body (snd demo_loop)) =
      Some ([], [StoreStmt (GEPExpr 1 [IndexExpr (scalarTy IndexTy) 0]) (ConstantFPExpr f32_one) False])"
    by (simp add: demo_loop_def)
  have b: "unit_access 0 [IndexExpr (scalarTy IndexTy) 0]" "vec_value 0 1 [IndexExpr (scalarTy IndexTy) 0] (ConstantFPExpr f32_one)"
    "unat (loop_end (fst demo_loop) 0) < 2 ^ 31"
    by (simp_all add: unit_access_def demo_loop_def loop_end_def)
  show ?thesis using w vectorize_preserves [OF w f _ b(1,2) wf b(3)] by simp
qed

text \<open>C35. Without those conditions \<open>vectorize\<close> changes results, and it does not check them: in the loop that stores
  \<open>A[i]\<close> to \<open>A[i + 1]\<close> every iteration reads what the one before has written, so the first element is copied to
  all of them; the vectorized loop reads the four elements before it writes and moves them by one.\<close>

definition carry_loop :: "heap \<times> program" where
  "carry_loop =
     ((fst demo_loop)\<lparr>hp_loop := (\<lambda>L. \<lparr>lp_name = ''i'', lp_end = 4, lp_stride = 1\<rparr>)\<rparr>,
      (snd demo_loop)\<lparr>pr_body := [Loop 0
        [StoreStmt (GEPExpr 1 [BinaryExpr Add (IndexExpr (scalarTy IndexTy) 0) (ConstantExpr 1)])
           (LoadExpr (scalarTy Float32Ty) (GEPExpr 1 [IndexExpr (scalarTy IndexTy) 0])) False]]\<rparr>)"

theorem vectorize_breaks_recurrence:
  "verify_program (fst carry_loop) (snd carry_loop) = Inr ()
     \<and> (\<exists>p' h'. vectorize (fst carry_loop) (snd carry_loop) 0 4 = Inr (Some (Some 0, p', h'))
          \<and> (\<forall>M st. map_option (\<lambda>s. st_mem s 1 4) (run_program M (fst carry_loop) (snd carry_loop) st) = Some (st_mem st 1 0)
               \<and> map_option (\<lambda>s. st_mem s 1 4) (run_program M h' p' st) = Some (st_mem st 1 3)))"
proof
  show "verify_program (fst carry_loop) (snd carry_loop) = Inr ()" by code_simp
  let ?r = "vectorize (fst carry_loop) (snd carry_loop) 0 4"
  let ?new = "[Loop 0 [StoreStmt (GEPExpr 1 [BinaryExpr Add (IndexExpr (scalarTy IndexTy) 0) (ConstantExpr 1)])
        (LoadExpr \<lparr>ety_kind = Float32Ty, ety_width = 4\<rparr> (GEPExpr 1 [IndexExpr (scalarTy IndexTy) 0])) False]]"
  have "case ?r of Inr (Some (t, p1, h1)) \<Rightarrow> t = Some 0 \<and> pr_body p1 = ?new \<and> loop_end h1 0 = 4 \<and> loop_stride h1 0 = 4
      \<and> ty_sizes (arg_type (hp_arg h1 1)) = [6] | _ \<Rightarrow> False"
    by code_simp
  then obtain p1 h1 where w: "?r = Inr (Some (Some 0, p1, h1))" "pr_body p1 = ?new" "loop_end h1 0 = 4" "loop_stride h1 0 = 4"
    "ty_sizes (arg_type (hp_arg h1 1)) = [6]"
    by (auto split: sum.splits option.splits)
  have c: "count_up (Suc 0) 4 0 = [0, 1, 2, 3]" "count_up 4 4 0 = [0]"
    by (simp_all add: count_up.simps)
  have "\<forall>M st. map_option (\<lambda>s. st_mem s 1 4) (run_program M (fst carry_loop) (snd carry_loop) st) = Some (st_mem st 1 0)
      \<and> map_option (\<lambda>s. st_mem s 1 4) (run_program M h1 p1 st) = Some (st_mem st 1 3)"
    using w(2-5) c by (simp add: run_program_def carry_loop_def demo_loop_def loop_end_def loop_stride_def Let_def
        store_lanes_def load_lanes_def upt_rec)
  with w(1) show "\<exists>p' h'. ?r = Inr (Some (Some 0, p', h'))
      \<and> (\<forall>M st. map_option (\<lambda>s. st_mem s 1 4) (run_program M (fst carry_loop) (snd carry_loop) st) = Some (st_mem st 1 0)
           \<and> map_option (\<lambda>s. st_mem s 1 4) (run_program M h' p' st) = Some (st_mem st 1 3))" by blast
qed

end
