(* ===== verification/Simplify.thy ===== *)
theory Simplify
  imports LoopRewrites
begin

text \<open>
  \<open>lib/Transforms/Simplify.cpp\<close>: constant folding and arithmetic identities, removal of empty
  loops and of loops that run once, and removal of range checks. A function that returns the
  expression it was given, or a new one, returns here the expression and whether it is another
  node than the argument (\<open>N != E\<close>). The arithmetic of the host, which folds the constants, is the
  parameter \<open>host\<close>; its integer operations have undefined behaviour on overflow.
\<close>

section \<open>Expressions\<close>

record host =
  ho_bin :: "BinOpKind \<Rightarrow> f32 \<Rightarrow> f32 \<Rightarrow> f32"
  ho_ipow :: "i64 \<Rightarrow> i64 \<Rightarrow> i64 res"

fun fold_int :: "host \<Rightarrow> BinOpKind \<Rightarrow> i64 \<Rightarrow> i64 \<Rightarrow> i64 res" where
  "fold_int H Mul a b = chk_i64 (sint a * sint b)"
| "fold_int H Add a b = chk_i64 (sint a + sint b)"
| "fold_int H Div a b =
     (if b = 0 then Inl (UB ''division by zero'') else chk_i64 (sint a sdiv sint b))"
| "fold_int H Sub a b = chk_i64 (sint a - sint b)"
| "fold_int H BinOpKind.Min a b = Inr (if sint b < sint a then b else a)"
| "fold_int H BinOpKind.Max a b = Inr (if sint a < sint b then b else a)"
| "fold_int H Pow a b = ho_ipow H a b"

text \<open>\<open>Min\<close>, \<open>Max\<close> and \<open>Pow\<close> of two float constants read the null pointers \<open>CEL\<close>, \<open>CER\<close>.\<close>

definition fold_fp :: "host \<Rightarrow> BinOpKind \<Rightarrow> f32 \<Rightarrow> f32 \<Rightarrow> f32 res" where
  "fold_fp H k a b =
     (if k \<in> {BinOpKind.Min, BinOpKind.Max, Pow} then Inl (UB ''CEL is null'')
      else Inr (ho_bin H k a b))"

fun identities :: "BinOpKind \<Rightarrow> expr \<Rightarrow> expr \<Rightarrow> expr \<times> bool" where
  "identities Mul SL SR =
     (if isZero SL then (SL, True) else if isZero SR then (SR, True)
      else if isOne SL then (SR, True) else if isOne SR then (SL, True)
      else (BinaryExpr Mul SL SR, False))"
| "identities Add SL SR =
     (if isZero SL then (SR, True) else if isZero SR then (SL, True)
      else (BinaryExpr Add SL SR, False))"
| "identities Div SL SR =
     (if isZero SL then (SL, True) else if isOne SR then (SL, True)
      else (BinaryExpr Div SL SR, False))"
| "identities k SL SR = (BinaryExpr k SL SR, False)"

fun fold_or_identity :: "host \<Rightarrow> BinOpKind \<Rightarrow> expr \<Rightarrow> expr \<Rightarrow> (expr \<times> bool) res" where
  "fold_or_identity H k (ConstantExpr a) (ConstantExpr b) =
     bind_res (fold_int H k a b) (\<lambda>c. Inr (ConstantExpr c, True))"
| "fold_or_identity H k (ConstantFPExpr a) (ConstantFPExpr b) =
     bind_res (fold_fp H k a b) (\<lambda>c. Inr (ConstantFPExpr c, True))"
| "fold_or_identity H k SL SR = Inr (identities k SL SR)"

definition simplify_bin :: "host \<Rightarrow> BinOpKind \<Rightarrow> expr \<Rightarrow> expr \<Rightarrow> (expr \<times> bool) res" where
  "simplify_bin H k SL SR =
     (if \<not> isConst SR \<and> isConst SL \<and> isCommutative k then fold_or_identity H k SR SL
      else fold_or_identity H k SL SR)"

fun simplifyExpr :: "host \<Rightarrow> expr \<Rightarrow> (expr \<times> bool) res" where
  "simplifyExpr H (BinaryExpr k l r) =
     bind_res (simplifyExpr H l) (\<lambda>(SL, _).
     bind_res (simplifyExpr H r) (\<lambda>(SR, _). simplify_bin H k SL SR))"
| "simplifyExpr H e = Inr (e, False)"

text \<open>The number of nodes, by which the passes decrease.\<close>

fun esize :: "expr \<Rightarrow> nat" where
  "esize (BinaryExpr k l r) = Suc (Suc (esize l + esize r))"
| "esize (UnaryExpr k e) = Suc (esize e)"
| "esize (BroadcastExpr e vf) = Suc (esize e)"
| "esize (GEPExpr a is) = Suc (sum_list (map esize is))"
| "esize (LoadExpr ty g) = Suc (esize g)"
| "esize e = 1"

lemma esize_pos: "0 < esize e"
  by (cases e) auto

lemma identities_size:
  "if snd (identities k SL SR) then esize (fst (identities k SL SR)) < Suc (Suc (esize SL + esize SR))
   else esize (fst (identities k SL SR)) = Suc (Suc (esize SL + esize SR))"
  by (cases k) auto

lemma fold_or_identity_size:
  "fold_or_identity H k SL SR = Inr (e, ch) \<Longrightarrow>
     if ch then esize e < Suc (Suc (esize SL + esize SR)) else esize e = Suc (Suc (esize SL + esize SR))"
  using identities_size [of k SL SR]
  by (cases "(H, k, SL, SR)" rule: fold_or_identity.cases) auto

lemma simplify_bin_size:
  "simplify_bin H k SL SR = Inr (e, ch) \<Longrightarrow>
     if ch then esize e < Suc (Suc (esize SL + esize SR)) else esize e = Suc (Suc (esize SL + esize SR))"
  using fold_or_identity_size [of H k SL SR e ch] fold_or_identity_size [of H k SR SL e ch]
  by (auto simp: simplify_bin_def add.commute split: if_splits)

lemma simplifyExpr_size:
  "simplifyExpr H e = Inr (e', ch) \<Longrightarrow> if ch then esize e' < esize e else esize e' \<le> esize e"
proof (induction H e arbitrary: e' ch rule: simplifyExpr.induct)
  case (1 H k l r)
  then obtain SL c1 SR c2 where l: "simplifyExpr H l = Inr (SL, c1)" and r: "simplifyExpr H r = Inr (SR, c2)"
    and b: "simplify_bin H k SL SR = Inr (e', ch)" by auto
  have "esize SL \<le> esize l" using "1.IH"(1) [OF l] by (auto split: if_splits)
  moreover have "esize SR \<le> esize r" using "1.IH"(2) [OF l refl r] by (auto split: if_splits)
  ultimately show ?case using simplify_bin_size [OF b] by (auto split: if_splits)
qed simp_all

section \<open>The expressions of a statement\<close>

text \<open>
  \<open>ExprSimplify\<close>: the indices and values of statements are processed when the statement is
  entered, and the indices of a load when the load is entered, before its subexpressions are
  visited.
\<close>

definition process_all :: "host \<Rightarrow> expr list \<Rightarrow> (expr list \<times> bool) res" where
  "process_all H es =
     bind_res (map_res (simplifyExpr H) es) (\<lambda>ps. Inr (map fst ps, list_ex snd ps))"

definition join_changes :: "(expr \<times> bool) list \<Rightarrow> expr list \<times> bool" where
  "join_changes ps = (map fst ps, list_ex snd ps)"

lemma process_all_size:
  "process_all H es = Inr (es', ch) \<Longrightarrow>
     length es' = length es \<and>
     (if ch then sum_list (map esize es') < sum_list (map esize es)
      else sum_list (map esize es') \<le> sum_list (map esize es))"
proof (induction es arbitrary: es' ch)
  case Nil
  then show ?case by (simp add: process_all_def)
next
  case (Cons e es)
  then obtain p ps where e: "simplifyExpr H e = Inr p" and ps: "map_res (simplifyExpr H) es = Inr ps"
    and r: "es' = fst p # map fst ps" "ch = (snd p \<or> list_ex snd ps)"
    by (auto simp: process_all_def)
  have "process_all H es = Inr (map fst ps, list_ex snd ps)" using ps by (simp add: process_all_def)
  from Cons.IH [OF this] simplifyExpr_size [of H e "fst p" "snd p"] e r
  show ?case by (auto split: if_splits)
qed

lemma esize_mem: "e \<in> set es \<Longrightarrow> esize e \<le> sum_list (map esize es)"
  by (induction es) auto

function simp_loads :: "host \<Rightarrow> expr \<Rightarrow> (expr \<times> bool) res" where
  "simp_loads H (LoadExpr ty g) =
     (case g of
        GEPExpr a is \<Rightarrow>
          bind_res (process_all H is) (\<lambda>(is1, c1).
          bind_res (map_res (simp_loads H) is1) (\<lambda>ps.
            let (is2, c2) = join_changes ps in Inr (LoadExpr ty (GEPExpr a is2), c1 \<or> c2)))
      | _ \<Rightarrow> Inl (UB ''gep_.as<GEPExpr>()''))"
| "simp_loads H (BinaryExpr k l r) =
     bind_res (simp_loads H l) (\<lambda>(l', c1). bind_res (simp_loads H r) (\<lambda>(r', c2).
       Inr (BinaryExpr k l' r', c1 \<or> c2)))"
| "simp_loads H (UnaryExpr k e) = bind_res (simp_loads H e) (\<lambda>(e', c). Inr (UnaryExpr k e', c))"
| "simp_loads H (BroadcastExpr e vf) =
     bind_res (simp_loads H e) (\<lambda>(e', c). Inr (BroadcastExpr e' vf, c))"
| "simp_loads H (GEPExpr a is) =
     bind_res (map_res (simp_loads H) is) (\<lambda>ps.
       let (is2, c2) = join_changes ps in Inr (GEPExpr a is2, c2))"
| "simp_loads H (IndexExpr ity L) = Inr (IndexExpr ity L, False)"
| "simp_loads H (ConstantExpr c) = Inr (ConstantExpr c, False)"
| "simp_loads H (ConstantFPExpr f) = Inr (ConstantFPExpr f, False)"
| "simp_loads H (ConstantStringExpr s) = Inr (ConstantStringExpr s, False)"
| "simp_loads H (LoadLocalExpr lty v) = Inr (LoadLocalExpr lty v, False)"
  by pat_completeness auto
termination
proof (relation "measure (\<lambda>(H, e). esize e)", goal_cases)
  case (2 H ty g a "is" p is1 c1 x)
  then have "sum_list (map esize is1) \<le> sum_list (map esize is)"
    using process_all_size [of H "is" is1 c1] by (auto split: if_splits)
  with 2 esize_mem [of x is1] show ?case by auto
next
  case (7 H a "is" x)
  then show ?case using esize_mem [of x "is"] by auto
qed (auto simp: esize_pos)

definition process :: "host \<Rightarrow> expr \<Rightarrow> (expr \<times> bool) res" where
  "process H e =
     bind_res (simplifyExpr H e) (\<lambda>(e1, c1). bind_res (simp_loads H e1) (\<lambda>(e2, c2). Inr (e2, c1 \<or> c2)))"

fun process_indices :: "host \<Rightarrow> expr \<Rightarrow> (expr \<times> bool) res" where
  "process_indices H (GEPExpr a is) =
     bind_res (process_all H is) (\<lambda>(is1, c1). Inr (GEPExpr a is1, c1))"
| "process_indices H g = Inr (g, False)"

text \<open>An \<open>IfRange\<close> visits its index before it is entered.\<close>

fun simp_stmt :: "host \<Rightarrow> stmt \<Rightarrow> (stmt \<times> bool) res" where
  "simp_stmt H (Loop L body) =
     bind_res (map_res (simp_stmt H) body) (\<lambda>ps. Inr (Loop L (map fst ps), list_ex snd ps))"
| "simp_stmt H (IfRange val lo hi body) =
     bind_res (simp_loads H val) (\<lambda>(val1, c1).
     bind_res (simplifyExpr H val1) (\<lambda>(val2, c2).
     bind_res (map_res (simp_stmt H) body) (\<lambda>ps.
       Inr (IfRange val2 lo hi (map fst ps), c1 \<or> c2 \<or> list_ex snd ps))))"
| "simp_stmt H (CallStmt name params) =
     bind_res (map_res (simp_loads H) params) (\<lambda>ps.
       let (ps', c) = join_changes ps in Inr (CallStmt name ps', c))"
| "simp_stmt H (StoreStmt gep x acc) =
     bind_res (process_indices H gep) (\<lambda>(gep1, c1).
     bind_res (simplifyExpr H x) (\<lambda>(x1, c2).
     bind_res (simp_loads H gep1) (\<lambda>(gep2, c3).
     bind_res (simp_loads H x1) (\<lambda>(x2, c4).
       Inr (StoreStmt gep2 x2 acc, c1 \<or> c2 \<or> c3 \<or> c4)))))"
| "simp_stmt H (StoreLocalStmt v x acc) =
     bind_res (process H x) (\<lambda>(x', c). Inr (StoreLocalStmt v x' acc, c))"

definition simp_stmts :: "host \<Rightarrow> stmt list \<Rightarrow> (stmt list \<times> bool) res" where
  "simp_stmts H ss =
     bind_res (map_res (simp_stmt H) ss) (\<lambda>ps. Inr (map fst ps, list_ex snd ps))"

section \<open>Loops\<close>

text \<open>The two loop removals, as rewritings of one loop, applied to every loop of the program.\<close>

definition empty_loop :: "unit loop_rewrite_fun" where
  "empty_loop h vs enc L body = Inr (if body = [] then Some ((), [], h) else None)"

definition trip1_loop :: "unit loop_rewrite_fun" where
  "trip1_loop h vs enc L body =
     Inr (if loop_end h L \<noteq> loop_stride h L then None
          else Some ((), map (subst_stmt L (ConstantExpr 0)) body, h))"

fun each_loop :: "unit loop_rewrite_fun \<Rightarrow> heap \<Rightarrow> loop_ptr list \<Rightarrow> program \<Rightarrow> bool \<Rightarrow> (program \<times> bool) res" where
  "each_loop rw h [] p changed = Inr (p, changed)"
| "each_loop rw h (L # Ls) p changed =
     bind_res (on_loop rw h p L) (\<lambda>r.
       case r of None \<Rightarrow> each_loop rw h Ls p changed
       | Some (_, p', _) \<Rightarrow> each_loop rw h Ls p' True)"

definition removeEmptyLoops :: "heap \<Rightarrow> program \<Rightarrow> (program \<times> bool) res" where
  "removeEmptyLoops h p = each_loop empty_loop h (body_loops (pr_body p)) p False"

definition removeTrip1Loops :: "heap \<Rightarrow> program \<Rightarrow> (program \<times> bool) res" where
  "removeTrip1Loops h p = each_loop trip1_loop h (body_loops (pr_body p)) p False"

section \<open>Range checks\<close>

text \<open>
  The decision for one check depends only on its index and its range, so deciding all of them and
  rebuilding the body is the same as visiting them in turn.
\<close>

fun simplifyIfs_stmt :: "heap \<Rightarrow> stmt \<Rightarrow> (stmt list \<times> bool) res" where
  "simplifyIfs_stmt h (Loop L body) =
     bind_res (map_res (simplifyIfs_stmt h) body) (\<lambda>ps.
       Inr ([Loop L (concat (map fst ps))], list_ex snd ps))"
| "simplifyIfs_stmt h (IfRange val lo hi body) =
     bind_res (computeKnownIntegerRange h None val) (\<lambda>r.
     bind_res (map_res (simplifyIfs_stmt h) body) (\<lambda>ps.
       let body' = concat (map fst ps); changed = list_ex snd ps in
       Inr (case r of
              None \<Rightarrow> ([IfRange val lo hi body'], changed)
            | Some ir \<Rightarrow>
                (case getRangeRelation ir (lo, hi) of
                   Intersect \<Rightarrow> ([IfRange val lo hi body'], changed)
                 | Disjoint \<Rightarrow> ([], True)
                 | Subset \<Rightarrow> (body', True)))))"
| "simplifyIfs_stmt h s = Inr ([s], False)"

definition simplifyIfs :: "heap \<Rightarrow> program \<Rightarrow> (program \<times> bool) res" where
  "simplifyIfs h p =
     bind_res (map_res (simplifyIfs_stmt h) (pr_body p)) (\<lambda>ps.
       Inr (p\<lparr>pr_body := concat (map fst ps)\<rparr>, list_ex snd ps))"

section \<open>All of it, until nothing changes\<close>

definition simplify_once :: "host \<Rightarrow> heap \<Rightarrow> program \<Rightarrow> (program \<times> bool) res" where
  "simplify_once H h p =
     bind_res (simp_stmts H (pr_body p)) (\<lambda>(body1, c1).
     bind_res (removeEmptyLoops h (p\<lparr>pr_body := body1\<rparr>)) (\<lambda>(p2, c2).
     bind_res (simplifyIfs h p2) (\<lambda>(p3, c3).
     bind_res (removeTrip1Loops h p3) (\<lambda>(p4, c4).
     Inr (p4, c1 \<or> c2 \<or> c3 \<or> c4)))))"

partial_function (option) simplify :: "host \<Rightarrow> heap \<Rightarrow> program \<Rightarrow> (program \<times> bool) res option" where
  "simplify H h p =
     (case simplify_once H h p of
        Inl e \<Rightarrow> Some (Inl e)
      | Inr (p', changed) \<Rightarrow>
          if changed
          then Option.bind (simplify H h p') (\<lambda>r. Some (bind_res r (\<lambda>(p'', _). Inr (p'', True))))
          else Some (Inr (p', False)))"

declare simplify.simps [code]

end
