(* ===== verification/SimplifyFacts.thy ===== *)
theory SimplifyFacts
  imports Simplify
begin

text \<open>
  What \<open>simplify\<close> preserves. Folding constants and applying the identities does not change the
  value of an expression on a machine that computes with the fast-math rules; removing a loop that
  runs once or has no body is a rewriting in the sense of theory Rewriting; and the passes make the
  program smaller, so that \<open>simplify\<close> returns.
\<close>

section \<open>Fast-math\<close>

text \<open>
  What the flags of \<open>enableFastMath\<close> allow the generated code to assume: zeros have no sign, the
  operations have the usual identities and commute; and the host folds constants like the target.
\<close>

definition fast_math :: "machine \<Rightarrow> host \<Rightarrow> bool" where
  "fast_math M H \<longleftrightarrow>
     (\<forall>k a b. k \<in> {Mul, Add, Div, Sub} \<longrightarrow> canon (ho_bin H k a b) = m_bin M k (canon a) (canon b))
     \<and> (\<forall>a b c. ho_ipow H a b = Inr c \<longrightarrow> m_ipow M a b = c)
     \<and> (\<forall>k x y. isCommutative k \<longrightarrow> m_bin M k x y = m_bin M k y x)
     \<and> (\<forall>x. m_bin M Mul 0 x = 0) \<and> (\<forall>x. m_bin M Mul f32_one x = x)
     \<and> (\<forall>x. m_bin M Add 0 x = x) \<and> (\<forall>x. m_bin M Div 0 x = 0) \<and> (\<forall>x. m_bin M Div x f32_one = x)"

lemma isZero_canon: "isZero (ConstantFPExpr f) \<Longrightarrow> canon f = 0"
  by (auto simp: f32_eq_def canon_def)

lemma f32_one_not_zero: "\<not> f32_zero f32_one"
  by (simp add: f32_zero_def f32_one_def)

lemma isOne_canon: "isOne (ConstantFPExpr f) \<Longrightarrow> canon f = f32_one"
  using f32_one_not_zero by (auto simp: f32_eq_def canon_def)

text \<open>The value of a zero or a one.\<close>

lemma isZero_eval:
  "isZero e \<Longrightarrow> eval M h st \<rho> e = Some v \<Longrightarrow> v = VIdx [0] \<or> v = VFlt [0]"
  using isZero_canon by (cases e) auto

lemma isOne_eval:
  "isOne e \<Longrightarrow> eval M h st \<rho> e = Some v \<Longrightarrow> v = VIdx [1] \<or> v = VFlt [f32_one]"
  using isOne_canon by (cases e) auto

lemma eval_bin_idx1:
  assumes "eval_bin M k (VIdx [x]) w = Some v"
  obtains y z where "w = VIdx [y]" "idx_bin M k x y = Some z" "v = VIdx [z]"
proof (cases w)
  case (VIdx ys)
  with assms have "length ys = 1" by (simp split: if_splits)
  then obtain y where "ys = [y]" by (cases ys) auto
  with assms VIdx show ?thesis by (cases "idx_bin M k x y") (auto intro: that)
qed (use assms in simp_all)

lemma eval_bin_idx2:
  assumes "eval_bin M k w (VIdx [x]) = Some v"
  obtains y z where "w = VIdx [y]" "idx_bin M k y x = Some z" "v = VIdx [z]"
proof (cases w)
  case (VIdx ys)
  with assms have "length ys = 1" by (simp split: if_splits)
  then obtain y where "ys = [y]" by (cases ys) auto
  with assms VIdx show ?thesis by (cases "idx_bin M k y x") (auto intro: that)
qed (use assms in simp_all)

lemma eval_bin_flt1:
  assumes "eval_bin M k (VFlt [x]) w = Some v"
  obtains y where "w = VFlt [y]" "v = VFlt [m_bin M k x y]"
proof (cases w)
  case (VFlt ys)
  with assms have "length ys = 1" by (simp split: if_splits)
  then obtain y where "ys = [y]" by (cases ys) auto
  with assms VFlt show ?thesis by (auto intro: that)
qed (use assms in simp_all)

lemma eval_bin_flt2:
  assumes "eval_bin M k w (VFlt [x]) = Some v"
  obtains y where "w = VFlt [y]" "v = VFlt [m_bin M k y x]"
proof (cases w)
  case (VFlt ys)
  with assms have "length ys = 1" by (simp split: if_splits)
  then obtain y where "ys = [y]" by (cases ys) auto
  with assms VFlt show ?thesis by (auto intro: that)
qed (use assms in simp_all)

lemma idx_div_0: "idx_div 0 b = Some z \<Longrightarrow> z = 0"
  by (auto simp: idx_div_def split: if_splits)

lemma sint_1_i64: "sint (1 :: i64) = 1"
  by simp

lemma idx_div_1: "idx_div a 1 = Some z \<Longrightarrow> z = a"
  by (auto simp: idx_div_def split: if_splits)

lemma eval_bin_commute:
  assumes "fast_math M H" "isCommutative k" "eval_bin M k v w = Some x"
  shows "eval_bin M k w v = Some x"
proof -
  have inj: "sint a = sint b \<Longrightarrow> a = b" for a b :: i64
    by (rule signed_word_eqI)
  have idx: "idx_bin M k a b = idx_bin M k b a" for a b
    using assms(2) inj [of a b] by (cases k) (auto simp: mult.commute add.commute)
  have "map2 (m_bin M k) xs ys = map2 (m_bin M k) ys xs" if "length xs = length ys" for xs ys
    using assms(1,2) that by (auto simp: fast_math_def intro!: nth_equalityI)
  moreover have "map2 (idx_bin M k) xs ys = map2 (idx_bin M k) ys xs" if "length xs = length ys" for xs ys
    using idx that by (auto intro!: nth_equalityI)
  ultimately show ?thesis using assms(3) by (cases v; cases w) (auto split: if_splits)
qed

text \<open>The identities, on values.\<close>

lemma value_identities:
  assumes fm: "fast_math M H" and z: "z = VIdx [0] \<or> z = VFlt [0]" and o: "u = VIdx [1] \<or> u = VFlt [f32_one]"
  shows "eval_bin M Mul z w = Some v \<Longrightarrow> v = z" "eval_bin M Mul u w = Some v \<Longrightarrow> v = w"
    "eval_bin M Add z w = Some v \<Longrightarrow> v = w" "eval_bin M Div z w = Some v \<Longrightarrow> v = z"
    "eval_bin M Div w u = Some v \<Longrightarrow> v = w"
proof -
  have m: "m_bin M Mul 0 x = 0" "m_bin M Mul f32_one x = x"
    "m_bin M Add 0 x = x" "m_bin M Div 0 x = 0" "m_bin M Div x f32_one = x" for x
    using fm by (simp_all add: fast_math_def)
  show "v = z" if "eval_bin M Mul z w = Some v"
    using z that m by (auto elim!: eval_bin_idx1 eval_bin_flt1)
  show "v = w" if "eval_bin M Mul u w = Some v"
    using o that m by (auto elim!: eval_bin_idx1 eval_bin_flt1)
  show "v = w" if "eval_bin M Add z w = Some v"
    using z that m by (auto elim!: eval_bin_idx1 eval_bin_flt1)
  show "v = z" if "eval_bin M Div z w = Some v"
    using z that m by (auto elim!: eval_bin_idx1 eval_bin_flt1 dest: idx_div_0)
  show "v = w" if "eval_bin M Div w u = Some v"
    using o that m by (auto elim!: eval_bin_idx2 eval_bin_flt2 dest: idx_div_1)
qed

lemma identities_eval:
  assumes fm: "fast_math M H" and v: "eval M h st \<rho> (BinaryExpr k SL SR) = Some v"
  shows "eval M h st \<rho> (fst (identities k SL SR)) = Some v"
proof -
  from v obtain a b where a: "eval M h st \<rho> SL = Some a" and b: "eval M h st \<rho> SR = Some b"
    and ab: "eval_bin M k a b = Some v" by (auto simp: Option.bind_eq_Some_conv)
  have ba: "isCommutative k \<Longrightarrow> eval_bin M k b a = Some v"
    using eval_bin_commute [OF fm _ ab] .
  note zeroL = value_identities [OF fm isZero_eval [OF _ a] disjI1 [OF refl]]
  note zeroR = value_identities [OF fm isZero_eval [OF _ b] disjI1 [OF refl]]
  note oneL = value_identities [OF fm disjI1 [OF refl] isOne_eval [OF _ a]]
  note oneR = value_identities [OF fm disjI1 [OF refl] isOne_eval [OF _ b]]
  show ?thesis
  proof (cases k)
    case Mul
    have "isZero SL \<Longrightarrow> v = a" "isZero SR \<Longrightarrow> v = b" "isOne SL \<Longrightarrow> v = b" "isOne SR \<Longrightarrow> v = a"
      using zeroL(1) zeroR(1) oneL(2) oneR(2) ab ba Mul by simp_all
    then show ?thesis using Mul a b v by simp
  next
    case Add
    have "isZero SL \<Longrightarrow> v = b" "isZero SR \<Longrightarrow> v = a"
      using zeroL(3) zeroR(3) ab ba Add by simp_all
    then show ?thesis using Add a b v by simp
  next
    case Div
    have "isZero SL \<Longrightarrow> v = a" "isOne SR \<Longrightarrow> v = a"
      using zeroL(4) oneR(5) ab Div by simp_all
    then show ?thesis using Div a b v by simp
  qed (use v in simp_all)
qed

lemma sint_chk: "chk_i64 x = Inr c \<Longrightarrow> c = word_of_int x"
  by simp

lemma fold_int_eval:
  assumes "fast_math M H" "fold_int H k a b = Inr c"
  shows "idx_bin M k a b = Some c"
proof -
  have "sint a = sint b \<Longrightarrow> a = b" by (rule signed_word_eqI)
  then show ?thesis using assms
    by (cases k) (auto simp: fast_math_def idx_div_def split: if_splits)
qed

lemma fold_or_identity_result:
  "fold_or_identity H k SL SR = Inr (e, ch) \<Longrightarrow>
     (\<exists>a b c. SL = ConstantExpr a \<and> SR = ConstantExpr b \<and> fold_int H k a b = Inr c \<and> e = ConstantExpr c)
     \<or> (\<exists>a b c. SL = ConstantFPExpr a \<and> SR = ConstantFPExpr b \<and> fold_fp H k a b = Inr c
          \<and> e = ConstantFPExpr c)
     \<or> e = fst (identities k SL SR)"
  by (cases "(H, k, SL, SR)" rule: fold_or_identity.cases) (auto simp del: identities.simps)

lemma fold_or_identity_eval:
  assumes fm: "fast_math M H" and s: "fold_or_identity H k SL SR = Inr (e, ch)"
    and v: "eval M h st \<rho> (BinaryExpr k SL SR) = Some v"
  shows "eval M h st \<rho> e = Some v"
  using fold_or_identity_result [OF s]
proof (elim disjE exE conjE)
  fix a b c assume "SL = ConstantExpr a" "SR = ConstantExpr b" "fold_int H k a b = Inr c" "e = ConstantExpr c"
  with v fold_int_eval [OF fm] show ?thesis by simp
next
  fix a b c assume F: "SL = ConstantFPExpr a" "SR = ConstantFPExpr b" "fold_fp H k a b = Inr c"
    "e = ConstantFPExpr c"
  have k: "k \<in> {Mul, Add, Div, Sub}" "c = ho_bin H k a b"
    using F(3) by (cases k; simp add: fold_fp_def)+
  have "canon (ho_bin H k a b) = m_bin M k (canon a) (canon b)"
    using fm k(1) unfolding fast_math_def by blast
  then show ?thesis using F k(2) v by simp
next
  assume "e = fst (identities k SL SR)"
  then show ?thesis using identities_eval [OF fm v] by simp
qed

lemma simplify_bin_eval:
  assumes fm: "fast_math M H" and s: "simplify_bin H k SL SR = Inr (e, ch)"
    and v: "eval M h st \<rho> (BinaryExpr k SL SR) = Some v"
  shows "eval M h st \<rho> e = Some v"
proof (cases "\<not> isConst SR \<and> isConst SL \<and> isCommutative k")
  case True
  from v obtain a b where "eval M h st \<rho> SL = Some a" "eval M h st \<rho> SR = Some b"
    "eval_bin M k a b = Some v" by (auto simp: Option.bind_eq_Some_conv)
  then have "eval M h st \<rho> (BinaryExpr k SR SL) = Some v"
    using eval_bin_commute [OF fm, of k a b v] True by simp
  moreover have "fold_or_identity H k SR SL = Inr (e, ch)" using s True by (simp add: simplify_bin_def)
  ultimately show ?thesis by (rule fold_or_identity_eval [OF fm, rotated])
next
  case False
  then have "fold_or_identity H k SL SR = Inr (e, ch)"
    using s unfolding simplify_bin_def by presburger
  then show ?thesis using v by (rule fold_or_identity_eval [OF fm])
qed

lemma simplifyExpr_eval:
  "fast_math M H \<Longrightarrow> simplifyExpr H e = Inr (e', ch) \<Longrightarrow> eval M h st \<rho> e = Some v \<Longrightarrow>
     eval M h st \<rho> e' = Some v"
proof (induction H e arbitrary: e' ch v rule: simplifyExpr.induct)
  case (1 H k l r)
  then obtain SL c1 SR c2 where l: "simplifyExpr H l = Inr (SL, c1)" and r: "simplifyExpr H r = Inr (SR, c2)"
    and b: "simplify_bin H k SL SR = Inr (e', ch)" by auto
  from "1.prems"(3) obtain x y where x: "eval M h st \<rho> l = Some x" "eval M h st \<rho> r = Some y"
    and xy: "eval_bin M k x y = Some v" by (auto simp: Option.bind_eq_Some_conv)
  have "eval M h st \<rho> SL = Some x" by (rule "1.IH"(1) [OF "1.prems"(1) l x(1)])
  moreover have "eval M h st \<rho> SR = Some y" by (rule "1.IH"(2) [OF l refl "1.prems"(1) r x(2)])
  ultimately have "eval M h st \<rho> (BinaryExpr k SL SR) = Some v" using xy by simp
  then show ?case by (rule simplify_bin_eval [OF "1.prems"(1) b])
qed simp_all

section \<open>Statements\<close>

text \<open>The new statement has every result the old one has.\<close>

definition improves :: "(state \<Rightarrow> state option) \<Rightarrow> (state \<Rightarrow> state option) \<Rightarrow> bool" where
  "improves f g \<longleftrightarrow> (\<forall>st st'. f st = Some st' \<longrightarrow> g st = Some st')"

lemma improvesI: "(\<And>st st'. f st = Some st' \<Longrightarrow> g st = Some st') \<Longrightarrow> improves f g"
  by (simp add: improves_def)

lemma improvesD: "improves f g \<Longrightarrow> f st = Some st' \<Longrightarrow> g st = Some st'"
  by (simp add: improves_def)

lemma improves_fold_same:
  "(\<And>x. x \<in> set xs \<Longrightarrow> improves (f x) (g x)) \<Longrightarrow> improves (fold_opt f xs) (fold_opt g xs)"
proof (rule improvesI)
  fix st st'
  assume "\<And>x. x \<in> set xs \<Longrightarrow> improves (f x) (g x)" "fold_opt f xs st = Some st'"
  then show "fold_opt g xs st = Some st'"
  proof (induction xs arbitrary: st)
    case (Cons x xs)
    then obtain u where "f x st = Some u" "fold_opt f xs u = Some st'"
      by (auto simp: Option.bind_eq_Some_conv)
    with Cons show ?case by (simp add: improves_def)
  qed simp
qed

text \<open>Expressions: the value survives each pass.\<close>

definition keeps_value :: "machine \<Rightarrow> expr \<Rightarrow> expr \<Rightarrow> bool" where
  "keeps_value M e e' \<longleftrightarrow>
     (\<forall>h st \<rho> v. eval M h st \<rho> e = Some v \<longrightarrow> eval M h st \<rho> e' = Some v)"

lemma those_Some: "those xs = Some ys \<longleftrightarrow> xs = map Some ys"
proof (induction xs arbitrary: ys)
  case Nil
  then show ?case by auto
next
  case (Cons x xs)
  then show ?case by (cases x; cases ys) auto
qed

lemma keeps_value_evals:
  assumes "list_all2 (keeps_value M) es es'" "map (eval M h st \<rho>) es = map Some vs"
  shows "map (eval M h st \<rho>) es' = map Some vs"
  using assms by (induction arbitrary: vs rule: list_all2_induct) (auto simp: keeps_value_def)

lemma keeps_value_GEP:
  assumes "list_all2 (keeps_value M) is is'"
  shows "keeps_value M (GEPExpr a is) (GEPExpr a is')"
proof -
  have "map (\<lambda>e. Option.bind (eval M h st \<rho> e) scalar_idx) is' = map Some xs"
    if "map (\<lambda>e. Option.bind (eval M h st \<rho> e) scalar_idx) is = map Some xs" for h st \<rho> xs
    using assms that
    by (induction arbitrary: xs rule: list_all2_induct)
      (auto simp: keeps_value_def Option.bind_eq_Some_conv)
  then show ?thesis
    unfolding keeps_value_def eval.simps by (auto simp: Option.bind_eq_Some_conv those_Some)
qed

text \<open>The new expression refers to nothing the old one does not refer to.\<close>

definition fits_expr :: "expr \<Rightarrow> expr \<Rightarrow> bool" where
  "fits_expr e e' \<longleftrightarrow>
     loops_of_expr e' \<subseteq> loops_of_expr e \<and> (\<forall>n. below_expr n e \<longrightarrow> below_expr n e')
     \<and> (index_kinds_ok e \<longrightarrow> index_kinds_ok e')"

lemma fits_expr_refl [simp]: "fits_expr e e"
  by (simp add: fits_expr_def)

lemma fits_expr_trans: "fits_expr e e1 \<Longrightarrow> fits_expr e1 e2 \<Longrightarrow> fits_expr e e2"
  by (auto simp: fits_expr_def)

lemma fits_expr_GEP: "list_all2 fits_expr is is' \<Longrightarrow> fits_expr (GEPExpr a is) (GEPExpr a is')"
proof -
  assume "list_all2 fits_expr is is'"
  then have "(\<Union>e \<in> set is'. loops_of_expr e) \<subseteq> (\<Union>e \<in> set is. loops_of_expr e)
      \<and> (\<forall>n. (\<forall>e \<in> set is. below_expr n e) \<longrightarrow> (\<forall>e \<in> set is'. below_expr n e))
      \<and> (list_all index_kinds_ok is \<longrightarrow> list_all index_kinds_ok is')"
    by (induction rule: list_all2_induct) (auto simp: fits_expr_def)
  then show ?thesis by (simp add: fits_expr_def)
qed

lemma identities_fits:
  "fits_expr (BinaryExpr k SL SR) (fst (identities k SL SR))"
  by (cases k) (auto simp: fits_expr_def)

lemma simplify_bin_fits:
  assumes "simplify_bin H k SL SR = Inr (e, ch)"
  shows "fits_expr (BinaryExpr k SL SR) e"
proof -
  have f: "fits_expr (BinaryExpr k l r) e" if "fold_or_identity H k l r = Inr (e, ch)" for l r
    using fold_or_identity_result [OF that] identities_fits [of k l r]
    by (elim disjE exE conjE) (auto simp: fits_expr_def)
  have "fits_expr (BinaryExpr k SL SR) (BinaryExpr k SR SL)" by (auto simp: fits_expr_def)
  with f assms show ?thesis by (auto simp: simplify_bin_def split: if_splits intro: fits_expr_trans)
qed

lemma fits_expr_Binary:
  "fits_expr l l' \<Longrightarrow> fits_expr r r' \<Longrightarrow> fits_expr (BinaryExpr k l r) (BinaryExpr k l' r')"
  by (auto simp: fits_expr_def)

lemma simplifyExpr_fits: "simplifyExpr H e = Inr (e', ch) \<Longrightarrow> fits_expr e e'"
proof (induction H e arbitrary: e' ch rule: simplifyExpr.induct)
  case (1 H k l r)
  then obtain SL c1 SR c2 where l: "simplifyExpr H l = Inr (SL, c1)" and r: "simplifyExpr H r = Inr (SR, c2)"
    and b: "simplify_bin H k SL SR = Inr (e', ch)" by auto
  show ?case
    using fits_expr_Binary [OF "1.IH"(1) [OF l] "1.IH"(2) [OF l refl r], of k] simplify_bin_fits [OF b]
    by (rule fits_expr_trans)
qed simp_all

text \<open>
  Any relation that holds for \<open>simplifyExpr\<close> and is a congruence holds for all that \<open>ExprSimplify\<close>
  does to the expressions of a statement.
\<close>

inductive stmt_rel :: "(expr \<Rightarrow> expr \<Rightarrow> bool) \<Rightarrow> stmt \<Rightarrow> stmt \<Rightarrow> bool" for R where
  rel_Loop: "list_all2 (stmt_rel R) body body' \<Longrightarrow> stmt_rel R (Loop L body) (Loop L body')"
| rel_IfRange: "R val val' \<Longrightarrow> list_all2 (stmt_rel R) body body' \<Longrightarrow>
    stmt_rel R (IfRange val lo hi body) (IfRange val' lo hi body')"
| rel_Call: "list_all2 R ps ps' \<Longrightarrow> stmt_rel R (CallStmt name ps) (CallStmt name ps')"
| rel_Store: "R g g' \<Longrightarrow> R x x' \<Longrightarrow> stmt_rel R (StoreStmt g x acc) (StoreStmt g' x' acc)"
| rel_StoreLocal: "R x x' \<Longrightarrow> stmt_rel R (StoreLocalStmt v x acc) (StoreLocalStmt v x' acc)"

lemma map_res_rel:
  assumes "map_res f es = Inr ps" "\<And>e p. e \<in> set es \<Longrightarrow> f e = Inr p \<Longrightarrow> Q e (fst p)"
  shows "list_all2 Q es (map fst ps)"
  unfolding list_all2_conv_all_nth
  using map_res_length [OF assms(1)] map_res_nth [OF assms(1)] assms(2) by auto

locale expr_pass =
  fixes H :: host and R :: "expr \<Rightarrow> expr \<Rightarrow> bool"
  assumes same: "R e e"
    and step: "R e e1 \<Longrightarrow> R e1 e2 \<Longrightarrow> R e e2"
    and simp: "simplifyExpr H e = Inr (e', ch) \<Longrightarrow> R e e'"
    and bin: "R l l' \<Longrightarrow> R r r' \<Longrightarrow> R (BinaryExpr k l r) (BinaryExpr k l' r')"
    and un: "R e e' \<Longrightarrow> R (UnaryExpr u e) (UnaryExpr u e')"
    and broadcast: "R e e' \<Longrightarrow> R (BroadcastExpr e vf) (BroadcastExpr e' vf)"
    and gep: "list_all2 R is is' \<Longrightarrow> R (GEPExpr a is) (GEPExpr a is')"
    and load: "R g g' \<Longrightarrow> R (LoadExpr ty g) (LoadExpr ty g')"
begin

lemma process_all_rel:
  assumes "process_all H es = Inr (es', ch)"
  shows "list_all2 R es es'"
proof -
  from assms obtain ps where ps: "map_res (simplifyExpr H) es = Inr ps" "es' = map fst ps"
    by (auto simp: process_all_def)
  show ?thesis unfolding ps(2)
    by (rule map_res_rel [OF ps(1)]) (metis simp prod.collapse)
qed

lemma list_trans: "list_all2 R xs ys \<Longrightarrow> list_all2 R ys zs \<Longrightarrow> list_all2 R xs zs"
  by (rule list_all2_trans [of R R R]) (auto intro: step)

lemma simp_loads_rel: "simp_loads H e = Inr (e', ch) \<Longrightarrow> R e e'"
proof -
  have "simp_loads K e = Inr (e', ch) \<Longrightarrow> K = H \<Longrightarrow> R e e'" for K
  proof (induction K e arbitrary: e' ch rule: simp_loads.induct)
    case (1 K ty g)
    from "1.prems"(1) obtain a "is" where g: "g = GEPExpr a is" by (cases g) auto
    from "1.prems"(1) g obtain is1 c1 ps where p: "process_all K is = Inr (is1, c1)"
      and m: "map_res (simp_loads K) is1 = Inr ps" and e': "e' = LoadExpr ty (GEPExpr a (map fst ps))"
      by (auto simp: join_changes_def)
    have "list_all2 R is1 (map fst ps)"
    proof (rule map_res_rel [OF m])
      show "R e (fst q)" if "e \<in> set is1" "simp_loads K e = Inr q" for e q
        using "1.IH" [OF g p refl that(1), of "fst q" "snd q"] that(2) "1.prems"(2) by simp
    qed
    moreover have "list_all2 R is is1" using p "1.prems"(2) process_all_rel by simp
    ultimately show ?case unfolding g e' by (blast intro: load gep list_trans)
  next
    case (2 K k l r)
    then obtain l' c1 r' c2 where l: "simp_loads K l = Inr (l', c1)" and r: "simp_loads K r = Inr (r', c2)"
      and e': "e' = BinaryExpr k l' r'" by auto
    have "R l l'" by (rule "2.IH"(1) [OF l "2.prems"(2)])
    moreover have "R r r'" by (rule "2.IH"(2) [OF l refl r "2.prems"(2)])
    ultimately show ?case unfolding e' by (rule bin)
  next
    case (3 K u e)
    then obtain x c where x: "simp_loads K e = Inr (x, c)" "e' = UnaryExpr u x" by auto
    show ?case unfolding x(2) by (rule un [OF "3.IH" [OF x(1) "3.prems"(2)]])
  next
    case (4 K e vf)
    then obtain x c where x: "simp_loads K e = Inr (x, c)" "e' = BroadcastExpr x vf" by auto
    show ?case unfolding x(2) by (rule broadcast [OF "4.IH" [OF x(1) "4.prems"(2)]])
  next
    case (5 K a "is")
    then obtain ps where m: "map_res (simp_loads K) is = Inr ps" and e': "e' = GEPExpr a (map fst ps)"
      by (auto simp: join_changes_def)
    have "list_all2 R is (map fst ps)"
    proof (rule map_res_rel [OF m])
      show "R e (fst q)" if "e \<in> set is" "simp_loads K e = Inr q" for e q
        using "5.IH" [OF that(1), of "fst q" "snd q"] that(2) "5.prems"(2) by simp
    qed
    then show ?case unfolding e' by (rule gep)
  qed (simp_all add: same)
  then show "simp_loads H e = Inr (e', ch) \<Longrightarrow> R e e'" by blast
qed

lemma process_indices_rel: "process_indices H g = Inr (g', ch) \<Longrightarrow> R g g'"
  by (cases g) (auto intro: same gep dest: process_all_rel)

lemma simp_stmt_rel: "simp_stmt H s = Inr (s', ch) \<Longrightarrow> stmt_rel R s s'"
proof (induction s arbitrary: s' ch)
  case (Loop L body)
  from Loop.prems obtain ps where m: "map_res (simp_stmt H) body = Inr ps"
    and s': "s' = Loop L (map fst ps)" by auto
  have "list_all2 (stmt_rel R) body (map fst ps)"
    by (rule map_res_rel [OF m]) (metis Loop.IH prod.collapse)
  then show ?case unfolding s' by (rule rel_Loop)
next
  case (IfRange val lo hi body)
  obtain q1 where q1: "simp_loads H val = Inr q1"
    using IfRange.prems by (cases "simp_loads H val") simp_all
  obtain q2 where q2: "simplifyExpr H (fst q1) = Inr q2"
    using IfRange.prems q1 by (cases "simplifyExpr H (fst q1)") (simp_all add: case_prod_unfold)
  obtain ps where m: "map_res (simp_stmt H) body = Inr ps"
    using IfRange.prems q1 q2 by (cases "map_res (simp_stmt H) body") (simp_all add: case_prod_unfold)
  have s': "s' = IfRange (fst q2) lo hi (map fst ps)"
    using IfRange.prems q1 q2 m by (simp add: case_prod_unfold)
  have "list_all2 (stmt_rel R) body (map fst ps)"
    by (rule map_res_rel [OF m]) (metis IfRange.IH prod.collapse)
  moreover have "R val (fst q2)"
    using simp_loads_rel [of val "fst q1" "snd q1"] simp [of "fst q1" "fst q2" "snd q2"] q1 q2
    by (auto intro: step)
  ultimately show ?case unfolding s' by (intro rel_IfRange)
next
  case (CallStmt name params)
  from CallStmt.prems obtain ps where m: "map_res (simp_loads H) params = Inr ps"
    and s': "s' = CallStmt name (map fst ps)" by (auto simp: join_changes_def)
  have "list_all2 R params (map fst ps)"
    by (rule map_res_rel [OF m]) (metis simp_loads_rel prod.collapse)
  then show ?case unfolding s' by (rule rel_Call)
next
  case (StoreStmt g x acc)
  obtain g1 c1 where g1: "process_indices H g = Inr (g1, c1)"
    using StoreStmt.prems by (cases "process_indices H g") auto
  obtain x1 c2 where x1: "simplifyExpr H x = Inr (x1, c2)"
    using StoreStmt.prems g1 by (cases "simplifyExpr H x") auto
  obtain g2 c3 where g2: "simp_loads H g1 = Inr (g2, c3)"
    using StoreStmt.prems g1 x1 by (cases "simp_loads H g1") auto
  obtain x2 c4 where x2: "simp_loads H x1 = Inr (x2, c4)"
    using StoreStmt.prems g1 x1 g2 by (cases "simp_loads H x1") auto
  have s': "s' = StoreStmt g2 x2 acc" using StoreStmt.prems g1 x1 g2 x2 by simp
  show ?case unfolding s'
    using step [OF process_indices_rel [OF g1] simp_loads_rel [OF g2]]
      step [OF simp [OF x1] simp_loads_rel [OF x2]] by (rule rel_Store)
next
  case (StoreLocalStmt v x acc)
  from StoreLocalStmt.prems obtain x1 c1 x2 c2 where x1: "simplifyExpr H x = Inr (x1, c1)"
    and x2: "simp_loads H x1 = Inr (x2, c2)" and s': "s' = StoreLocalStmt v x2 acc"
    by (auto simp: process_def)
  show ?case unfolding s' using step [OF simp [OF x1] simp_loads_rel [OF x2]] by (rule rel_StoreLocal)
qed

lemma simp_stmts_rel: "simp_stmts H ss = Inr (ss', ch) \<Longrightarrow> list_all2 (stmt_rel R) ss ss'"
  unfolding simp_stmts_def by (auto intro!: map_res_rel dest: simp_stmt_rel)

end

interpretation fitting: expr_pass H fits_expr for H
proof (unfold_locales, goal_cases)
  case (3 e e' ch)
  then show ?case by (rule simplifyExpr_fits)
next
  case (7 "is" is' a)
  then show ?case by (rule fits_expr_GEP)
qed (auto simp: fits_expr_def)

text \<open>The value is kept on a machine that computes with the fast-math rules.\<close>

definition keeps_value_on :: "machine \<Rightarrow> host \<Rightarrow> expr \<Rightarrow> expr \<Rightarrow> bool" where
  "keeps_value_on M H e e' \<longleftrightarrow> (fast_math M H \<longrightarrow> keeps_value M e e')"

interpretation valuing: expr_pass H "keeps_value_on M H" for H M
proof (unfold_locales, goal_cases)
  case (3 e e' ch)
  then show ?case by (simp add: keeps_value_on_def keeps_value_def simplifyExpr_eval)
next
  case (7 "is" is' a)
  then show ?case
    unfolding keeps_value_on_def by (auto intro!: keeps_value_GEP elim: list_all2_mono)
qed (auto simp: keeps_value_on_def keeps_value_def Option.bind_eq_Some_conv)

text \<open>What follows for statements.\<close>

lemma improves_bodies:
  "list_all2 (\<lambda>x y. improves (f x) (g y)) xs ys \<Longrightarrow> improves (fold_opt f xs) (fold_opt g ys)"
proof (induction rule: list_all2_induct)
  case (Cons x xs y ys)
  then show ?case by (auto simp: improves_def Option.bind_eq_Some_conv)
qed (simp add: improves_def)

lemma stmt_rel_improves:
  "stmt_rel (keeps_value M) s s' \<Longrightarrow> improves (exec M h \<rho> s) (exec M h \<rho> s')"
proof (induction arbitrary: \<rho> rule: stmt_rel.induct)
  case (rel_Loop body body' L)
  then have b: "improves (exec_body M h \<rho> body) (exec_body M h \<rho> body')" for \<rho>
    by (intro improves_bodies) (auto elim: list_all2_mono)
  have "improves (fold_opt (\<lambda>i. exec_body M h (\<rho>(L := of_nat i)) body) xs)
      (fold_opt (\<lambda>i. exec_body M h (\<rho>(L := of_nat i)) body') xs)" for xs :: "nat list"
    using b by (intro improves_fold_same)
  then show ?case unfolding improves_def exec.simps by auto
next
  case (rel_IfRange val val' body body' lo hi)
  then have b: "improves (exec_body M h \<rho> body) (exec_body M h \<rho> body')" for \<rho>
    by (intro improves_bodies) (auto elim: list_all2_mono)
  with rel_IfRange(1) show ?case unfolding improves_def keeps_value_def
    by (auto simp: Option.bind_eq_Some_conv split: if_splits)
next
  case (rel_Call ps ps' name)
  then show ?case unfolding improves_def
    by (auto simp: Option.bind_eq_Some_conv those_Some dest: keeps_value_evals)
qed (auto simp: improves_def keeps_value_def Option.bind_eq_Some_conv)

lemma stmt_rel_loops: "stmt_rel R s s' \<Longrightarrow> loop_list s' = loop_list s"
proof (induction rule: stmt_rel.induct)
  case (rel_Loop body body' L)
  then have "map loop_list body' = map loop_list body" by (induction rule: list_all2_induct) auto
  then show ?case by (simp only: loop_list.simps)
next
  case (rel_IfRange val val' body body' lo hi)
  from rel_IfRange(2) have "map loop_list body' = map loop_list body"
    by (induction rule: list_all2_induct) auto
  then show ?case by (simp only: loop_list.simps)
qed simp_all

lemma stmts_rel_loops: "list_all2 (stmt_rel R) ss ss' \<Longrightarrow> body_loops ss' = body_loops ss"
  by (induction rule: list_all2_induct) (auto dest: stmt_rel_loops)

lemma stmt_rel_fits:
  "stmt_rel fits_expr s s' \<Longrightarrow>
     free_loops s' \<subseteq> free_loops s \<and> (below n s \<longrightarrow> below n s') \<and> (index_kinds_stmt s \<longrightarrow> index_kinds_stmt s')"
proof (induction rule: stmt_rel.induct)
  case (rel_Loop body body' L)
  then have "(\<Union>s \<in> set body'. free_loops s) \<subseteq> (\<Union>s \<in> set body. free_loops s)
      \<and> ((\<forall>s \<in> set body. below n s) \<longrightarrow> (\<forall>s \<in> set body'. below n s))
      \<and> (list_all index_kinds_stmt body \<longrightarrow> list_all index_kinds_stmt body')"
    by (induction rule: list_all2_induct) auto
  then show ?case by auto
next
  case (rel_IfRange val val' body body' lo hi)
  from rel_IfRange(2) have "(\<Union>s \<in> set body'. free_loops s) \<subseteq> (\<Union>s \<in> set body. free_loops s)
      \<and> ((\<forall>s \<in> set body. below n s) \<longrightarrow> (\<forall>s \<in> set body'. below n s))
      \<and> (list_all index_kinds_stmt body \<longrightarrow> list_all index_kinds_stmt body')"
    by (induction rule: list_all2_induct) auto
  with rel_IfRange(1) show ?case by (auto simp: fits_expr_def)
next
  case (rel_Call ps ps' name)
  then show ?case by (induction rule: list_all2_induct) (auto simp: fits_expr_def)
qed (auto simp: fits_expr_def)

lemma stmt_rel_free: "stmt_rel fits_expr s s' \<Longrightarrow> free_loops s' \<subseteq> free_loops s"
  using stmt_rel_fits by blast

lemma simp_stmts_wf:
  assumes "simp_stmts H ss = Inr (ss', ch)" "wf_body h ss"
  shows "wf_body h ss'" "body_loops ss' = body_loops ss" "free_of ss' \<subseteq> free_of ss"
proof -
  have r: "list_all2 (stmt_rel fits_expr) ss ss'" by (rule fitting.simp_stmts_rel [OF assms(1)])
  show l: "body_loops ss' = body_loops ss" by (rule stmts_rel_loops [OF r])
  from r show f: "free_of ss' \<subseteq> free_of ss"
    by (induction rule: list_all2_induct) (use stmt_rel_free in fastforce)+
  from r have "list_all (below (hp_next h)) ss \<Longrightarrow> list_all (below (hp_next h)) ss'"
    "list_all index_kinds_stmt ss \<Longrightarrow> list_all index_kinds_stmt ss'"
    by (induction rule: list_all2_induct) (use stmt_rel_fits in auto)
  with assms(2) l f show "wf_body h ss'" unfolding wf_body_def by auto
qed

lemma simp_stmts_improves:
  assumes "fast_math M H" "simp_stmts H ss = Inr (ss', ch)"
  shows "improves (exec_body M h \<rho> ss) (exec_body M h \<rho> ss')"
proof (rule improves_bodies)
  have "keeps_value_on M H = keeps_value M" using assms(1) by (intro ext) (simp add: keeps_value_on_def)
  with valuing.simp_stmts_rel [OF assms(2), of M]
  show "list_all2 (\<lambda>x y. improves (exec M h \<rho> x) (exec M h \<rho> y)) ss ss'"
    by (auto elim!: list_all2_mono intro: stmt_rel_improves)
qed

end
