(* ===== verification/SimplifyLoops.thy ===== *)
theory SimplifyLoops
  imports SimplifyFacts
begin

text \<open>
  The loop removals of \<open>simplify\<close>, as loop rewritings that do not touch the heap and make the
  program smaller, and the size by which every round of \<open>simplify\<close> decreases.
\<close>

section \<open>Size\<close>

fun ssize :: "stmt \<Rightarrow> nat" where
  "ssize (Loop L body) = Suc (sum_list (map ssize body))"
| "ssize (IfRange val lo hi body) = Suc (esize val + sum_list (map ssize body))"
| "ssize (CallStmt name params) = Suc (sum_list (map esize params))"
| "ssize (StoreStmt g x acc) = Suc (esize g + esize x)"
| "ssize (StoreLocalStmt v x acc) = Suc (esize x)"

definition bsize :: "stmt list \<Rightarrow> nat" where
  "bsize ss = sum_list (map ssize ss)"

lemma bsize_simps [simp]:
  "bsize [] = 0" "bsize (s # ss) = ssize s + bsize ss" "bsize (xs @ ys) = bsize xs + bsize ys"
  "bsize (concat xss) = sum_list (map bsize xss)"
  by (simp_all add: bsize_def) (induction xss, simp_all add: bsize_def)

lemma ssize_scopes [simp]:
  "ssize (Loop L body) = Suc (bsize body)" "ssize (IfRange val lo hi body) = Suc (esize val + bsize body)"
  by (simp_all add: bsize_def)

declare ssize.simps(1,2) [simp del]

text \<open>\<open>below_if\<close>: smaller when something changed, and never larger.\<close>

definition less_if :: "bool \<Rightarrow> nat \<Rightarrow> nat \<Rightarrow> bool" where
  "less_if ch m n \<longleftrightarrow> m \<le> n \<and> (ch \<longrightarrow> m < n)"

lemma less_if_simps [simp]: "less_if False m n \<longleftrightarrow> m \<le> n" "less_if True m n \<longleftrightarrow> m < n"
  by (auto simp: less_if_def)

lemma less_if_trans: "less_if a l m \<Longrightarrow> less_if b m n \<Longrightarrow> less_if (a \<or> b) l n"
  by (auto simp: less_if_def)

lemma less_if_trans': "less_if a m n \<Longrightarrow> less_if b l m \<Longrightarrow> less_if (a \<or> b) l n"
  by (auto simp: less_if_def)

lemma less_if_add: "less_if a k m \<Longrightarrow> less_if b l n \<Longrightarrow> less_if (a \<or> b) (k + l) (m + n)"
  by (auto simp: less_if_def)

lemma less_if_Suc [simp]: "less_if a (Suc m) (Suc n) \<longleftrightarrow> less_if a m n"
  by (auto simp: less_if_def)

lemma less_if_map_res:
  assumes "map_res f es = Inr ps" "\<And>e q c. e \<in> set es \<Longrightarrow> f e = Inr (q, c) \<Longrightarrow> less_if c (m q) (n e)"
  shows "less_if (list_ex snd ps) (sum_list (map m (map fst ps))) (sum_list (map n es))"
  using assms
proof (induction es arbitrary: ps)
  case (Cons e es)
  then obtain q c qs where e: "f e = Inr (q, c)" and es: "map_res f es = Inr qs" and ps: "ps = (q, c) # qs"
    by auto
  have "less_if (list_ex snd qs) (sum_list (map m (map fst qs))) (sum_list (map n es))"
    using Cons.IH [OF es] Cons.prems(2) by simp
  from less_if_add [OF Cons.prems(2) [OF _ e] this] show ?case by (simp add: ps)
qed simp

lemma simplifyExpr_less: "simplifyExpr H e = Inr (e', c) \<Longrightarrow> less_if c (esize e') (esize e)"
  using simplifyExpr_size [of H e e' c] by (auto simp: less_if_def split: if_splits)

lemma process_all_less:
  "process_all H es = Inr (es', c) \<Longrightarrow> less_if c (sum_list (map esize es')) (sum_list (map esize es))"
  using process_all_size [of H es es' c] by (auto simp: less_if_def split: if_splits)

lemma simp_loads_less: "simp_loads H e = Inr (e', c) \<Longrightarrow> less_if c (esize e') (esize e)"
proof (induction H e arbitrary: e' c rule: simp_loads.induct)
  case (1 H ty g)
  from "1.prems" obtain a "is" where g: "g = GEPExpr a is" by (cases g) auto
  obtain is1 c1 where p: "process_all H is = Inr (is1, c1)"
    using "1.prems" g by (cases "process_all H is") auto
  obtain ps where m: "map_res (simp_loads H) is1 = Inr ps"
    using "1.prems" g p by (cases "map_res (simp_loads H) is1") auto
  have e': "e' = LoadExpr ty (GEPExpr a (map fst ps))" "c \<longleftrightarrow> c1 \<or> list_ex snd ps"
    using "1.prems" g p m by (auto simp: join_changes_def)
  have "less_if (list_ex snd ps) (sum_list (map esize (map fst ps))) (sum_list (map esize is1))"
    using "1.IH" [OF g p refl] by (intro less_if_map_res [OF m]) blast
  from less_if_trans' [OF process_all_less [OF p] this] show ?case by (simp add: g e')
next
  case (2 H k l r)
  obtain l' c1 where l: "simp_loads H l = Inr (l', c1)" using "2.prems" by (cases "simp_loads H l") auto
  obtain r' c2 where r: "simp_loads H r = Inr (r', c2)" using "2.prems" l by (cases "simp_loads H r") auto
  from "2.IH"(1) [OF l] "2.IH"(2) [OF l refl r] have "less_if (c1 \<or> c2) (esize l' + esize r') (esize l + esize r)"
    by (rule less_if_add)
  then show ?case using "2.prems" l r by auto
next
  case (5 H a "is")
  then obtain ps where m: "map_res (simp_loads H) is = Inr ps" and e': "e' = GEPExpr a (map fst ps)"
    "c = list_ex snd ps" by (auto simp: join_changes_def)
  have "less_if (list_ex snd ps) (sum_list (map esize (map fst ps))) (sum_list (map esize is))"
    using "5.IH" by (intro less_if_map_res [OF m]) blast
  then show ?case by (simp add: e')
qed auto

lemma process_indices_less: "process_indices H g = Inr (g', c) \<Longrightarrow> less_if c (esize g') (esize g)"
  by (cases g) (auto dest: process_all_less)

lemma simp_stmt_less: "simp_stmt H s = Inr (s', c) \<Longrightarrow> less_if c (ssize s') (ssize s)"
proof (induction s arbitrary: s' c)
  case (Loop L body)
  from Loop.prems obtain ps where m: "map_res (simp_stmt H) body = Inr ps"
    and s': "s' = Loop L (map fst ps)" "c = list_ex snd ps" by auto
  have "less_if (list_ex snd ps) (bsize (map fst ps)) (bsize body)"
    unfolding bsize_def by (rule less_if_map_res [OF m]) (rule Loop.IH)
  then show ?case by (simp add: s')
next
  case (IfRange val lo hi body)
  obtain q1 c1 where q1: "simp_loads H val = Inr (q1, c1)"
    using IfRange.prems by (cases "simp_loads H val") auto
  obtain q2 c2 where q2: "simplifyExpr H q1 = Inr (q2, c2)"
    using IfRange.prems q1 by (cases "simplifyExpr H q1") auto
  obtain ps where m: "map_res (simp_stmt H) body = Inr ps"
    using IfRange.prems q1 q2 by (cases "map_res (simp_stmt H) body") auto
  have s': "s' = IfRange q2 lo hi (map fst ps)" "c \<longleftrightarrow> (c1 \<or> c2) \<or> list_ex snd ps"
    using IfRange.prems q1 q2 m by auto
  have "less_if (list_ex snd ps) (bsize (map fst ps)) (bsize body)"
    unfolding bsize_def by (rule less_if_map_res [OF m]) (rule IfRange.IH)
  from less_if_add [OF less_if_trans' [OF simp_loads_less [OF q1] simplifyExpr_less [OF q2]] this]
  show ?case by (simp add: s')
next
  case (CallStmt name params)
  from CallStmt.prems obtain ps where m: "map_res (simp_loads H) params = Inr ps"
    and s': "s' = CallStmt name (map fst ps)" "c = list_ex snd ps" by (auto simp: join_changes_def)
  show ?case using less_if_map_res [OF m, of esize esize] simp_loads_less by (simp add: s')
next
  case (StoreStmt g x acc)
  obtain g1 c1 where g1: "process_indices H g = Inr (g1, c1)"
    using StoreStmt.prems by (cases "process_indices H g") auto
  obtain x1 c2 where x1: "simplifyExpr H x = Inr (x1, c2)"
    using StoreStmt.prems g1 by (cases "simplifyExpr H x") auto
  obtain g2 c3 where g2: "simp_loads H g1 = Inr (g2, c3)"
    using StoreStmt.prems g1 x1 by (cases "simp_loads H g1") auto
  obtain x2 c4 where x2: "simp_loads H x1 = Inr (x2, c4)"
    using StoreStmt.prems g1 x1 g2 by (cases "simp_loads H x1") auto
  have s': "s' = StoreStmt g2 x2 acc" "c \<longleftrightarrow> (c1 \<or> c3) \<or> (c2 \<or> c4)"
    using StoreStmt.prems g1 x1 g2 x2 by auto
  from less_if_add [OF less_if_trans' [OF process_indices_less [OF g1] simp_loads_less [OF g2]]
      less_if_trans' [OF simplifyExpr_less [OF x1] simp_loads_less [OF x2]]]
  show ?case by (simp add: s')
next
  case (StoreLocalStmt v x acc)
  obtain x1 c2 where x1: "simplifyExpr H x = Inr (x1, c2)"
    using StoreLocalStmt.prems by (cases "simplifyExpr H x") (auto simp: process_def)
  obtain x2 c4 where x2: "simp_loads H x1 = Inr (x2, c4)"
    using StoreLocalStmt.prems x1 by (cases "simp_loads H x1") (auto simp: process_def)
  have s': "s' = StoreLocalStmt v x2 acc" "c \<longleftrightarrow> c2 \<or> c4"
    using StoreLocalStmt.prems x1 x2 by (auto simp: process_def)
  from less_if_trans' [OF simplifyExpr_less [OF x1] simp_loads_less [OF x2]]
  show ?case by (simp add: s')
qed

lemma simp_stmts_less: "simp_stmts H ss = Inr (ss', c) \<Longrightarrow> less_if c (bsize ss') (bsize ss)"
  unfolding simp_stmts_def bsize_def by (auto intro!: less_if_map_res simp_stmt_less simp del: map_map)

section \<open>Substituting a constant\<close>

lemma subst_expr_size: "esize x = 1 \<Longrightarrow> esize (subst_expr L x e) = esize e"
proof (induction e)
  case (GEPExpr a "is")
  then have "map (esize \<circ> subst_expr L x) is = map esize is" by simp
  then show ?case by (simp del: map_eq_conv)
qed simp_all

lemma subst_stmt_size: "esize x = 1 \<Longrightarrow> ssize (subst_stmt L x s) = ssize s"
proof (induction s)
  case (Loop L' body)
  then have "map (ssize \<circ> subst_stmt L x) body = map ssize body" by simp
  then show ?case by (simp add: bsize_def del: map_eq_conv)
next
  case (IfRange val lo hi body)
  then have "map (ssize \<circ> subst_stmt L x) body = map ssize body" by simp
  then show ?case using IfRange.prems by (simp add: bsize_def subst_expr_size del: map_eq_conv)
next
  case (CallStmt name params)
  then have "map (esize \<circ> subst_expr L x) params = map esize params" by (simp add: subst_expr_size)
  then show ?case by (simp del: map_eq_conv)
qed (simp_all add: subst_expr_size)

lemma subst_body_size: "esize x = 1 \<Longrightarrow> bsize (map (subst_stmt L x) ss) = bsize ss"
  by (induction ss) (simp_all add: subst_stmt_size)

section \<open>Removing loops\<close>

lemma replace_loop_size:
  "find_loop enc L ss = Some (enc', body) \<Longrightarrow> wf_body h ss \<Longrightarrow>
     bsize (replace_loop L new ss) + ssize (Loop L body) = bsize ss + bsize new"
  "find_loop_in enc L s = Some (enc', body) \<Longrightarrow> wf_body h [s] \<Longrightarrow>
     bsize (replace_in L new s) + ssize (Loop L body) = ssize s + bsize new"
proof (induction enc L ss and enc L s rule: find_loop_find_loop_in.induct)
  case (2 enc L s ss)
  have wf: "wf_body h [s]" "wf_body h ss" and d: "loops_in s \<inter> set (body_loops ss) = {}"
    using "2.prems"(2) wf_body_Cons [of h s ss] by simp_all
  show ?case
  proof (cases "find_loop_in enc L s")
    case (Some r)
    then have F: "find_loop_in enc L s = Some (enc', body)" using "2.prems"(1) by simp
    then have "L \<in> loops_in s" by (rule find_loop_in_loops(2))
    then have a: "L \<notin> set (body_loops ss)" using d by blast
    show ?thesis using "2.IH"(1) [OF F wf(1)] by (simp add: replace_loop_simps replace_loop_absent [OF a])
  next
    case None
    then have F: "find_loop enc L ss = Some (enc', body)" using "2.prems"(1) by simp
    show ?thesis using "2.IH"(2) [OF None F wf(2)] find_loop_absent(2) [OF None]
      by (simp add: replace_loop_simps replace_absent)
  qed
next
  case (3 enc L L' body')
  show ?case
  proof (cases "L' = L")
    case True
    then show ?thesis using "3.prems" by simp
  next
    case False
    then have F: "find_loop (L' # enc) L body' = Some (enc', body)" using "3.prems"(1) by simp
    have "wf_body h body'" using "3.prems"(2) by (simp add: wf_body_Loop)
    from "3.IH" [OF False F this] show ?thesis unfolding replace_in_Loop(1) [OF False] by simp
  qed
next
  case (4 enc L val lo hi body')
  then have F: "find_loop enc L body' = Some (enc', body)" by simp
  have "wf_body h body'" using "4.prems"(2) by (simp add: wf_body_IfRange)
  from "4.IH" [OF F this] show ?case unfolding replace_in_Loop(2) by simp
qed simp_all

text \<open>Programs without range checks stay without.\<close>

fun no_ifs :: "stmt \<Rightarrow> bool" where
  "no_ifs (Loop L body) = list_all no_ifs body"
| "no_ifs (IfRange val lo hi body) = False"
| "no_ifs _ = True"

lemma subst_no_ifs: "no_ifs s \<Longrightarrow> no_ifs (subst_stmt L x s)"
  by (induction s) (auto simp: list_all_iff)

lemma replace_no_ifs: "no_ifs s \<Longrightarrow> list_all no_ifs new \<Longrightarrow> list_all no_ifs (replace_in L new s)"
  by (induction s) (auto simp: list_all_iff)

lemma replace_loop_no_ifs:
  "list_all no_ifs ss \<Longrightarrow> list_all no_ifs new \<Longrightarrow> list_all no_ifs (replace_loop L new ss)"
  by (induction ss) (simp_all add: replace_loop_simps replace_no_ifs)

lemma find_no_ifs:
  "find_loop enc L ss = Some (enc', body) \<Longrightarrow> list_all no_ifs ss \<Longrightarrow> list_all no_ifs body"
  "find_loop_in enc L s = Some (enc', body) \<Longrightarrow> no_ifs s \<Longrightarrow> list_all no_ifs body"
  by (induction enc L ss and enc L s rule: find_loop_find_loop_in.induct)
    (auto split: option.splits if_splits)

lemma fits_body_trans: "fits_body h h a b \<Longrightarrow> fits_body h h b c \<Longrightarrow> fits_body h h a c"
  by (auto simp: fits_body_def simp del: set_concat)

lemma fits_body_loops: "fits_body h h a b \<Longrightarrow> set (body_loops b) \<subseteq> set (body_loops a)"
  using wf_body_bound [of h b] by (force simp: fits_body_def simp del: set_concat)

locale loop_removal = loop_rewriting rw pre
  for rw :: "unit loop_rewrite_fun" and pre :: "machine \<Rightarrow> heap \<Rightarrow> loop_ptr \<Rightarrow> bool" +
  assumes same_heap: "rw h vs enc L body = Inr (Some (x, new, h')) \<Longrightarrow> h' = h"
    and smaller: "rw h vs enc L body = Inr (Some (x, new, h')) \<Longrightarrow> bsize new < ssize (Loop L body)"
    and ifs: "rw h vs enc L body = Inr (Some (x, new, h')) \<Longrightarrow> list_all no_ifs body \<Longrightarrow> list_all no_ifs new"
begin

lemma on_loop_smaller:
  assumes "on_loop rw h p L = Inr (Some (x, p', h'))" "wf_body h (pr_body p)"
  shows "bsize (pr_body p') < bsize (pr_body p)" "h' = h" "fits_body h h (pr_body p) (pr_body p')"
    "list_all no_ifs (pr_body p) \<Longrightarrow> list_all no_ifs (pr_body p')"
proof -
  from assms(1) obtain enc body new where f: "find_loop [] L (pr_body p) = Some (enc, body)"
    and r: "rw h (pr_vars p) enc L body = Inr (Some (x, new, h'))"
    and p': "p' = p\<lparr>pr_body := replace_loop L new (pr_body p)\<rparr>" by (rule on_loop_elim)
  have wf: "wf_body h [Loop L body]" using find_loop_wf(1) [OF f assms(2)] .
  show h: "h' = h" by (rule same_heap [OF r])
  show "bsize (pr_body p') < bsize (pr_body p)"
    using replace_loop_size(1) [OF f assms(2), of new] smaller [OF r] p' by simp
  show "fits_body h h (pr_body p) (pr_body p')"
    using replace_loop_fits(1) [OF f frame [OF r wf] shape [OF r wf] assms(2)] p' h by simp
  show "list_all no_ifs (pr_body p')" if n: "list_all no_ifs (pr_body p)"
  proof -
    have "list_all no_ifs new" using ifs [OF r] find_no_ifs(1) [OF f n] by simp
    from replace_loop_no_ifs [OF n this, of L] show ?thesis by (simp add: p')
  qed
qed

lemma each_loop_fits:
  "each_loop rw h Ls p c = Inr (p', c') \<Longrightarrow> wf_body h (pr_body p) \<Longrightarrow>
     fits_body h h (pr_body p) (pr_body p') \<and> bsize (pr_body p') \<le> bsize (pr_body p)
     \<and> (c' \<longrightarrow> c \<or> bsize (pr_body p') < bsize (pr_body p))
     \<and> (list_all no_ifs (pr_body p) \<longrightarrow> list_all no_ifs (pr_body p'))
     \<and> ((\<forall>L \<in> set Ls. pre M h L) \<longrightarrow> run_program M h p' st = run_program M h p st)"
proof (induction Ls arbitrary: p c)
  case Nil
  then show ?case by (simp add: fits_body_refl)
next
  case (Cons L Ls)
  from Cons.prems(1) obtain r where r: "on_loop rw h p L = Inr r"
    and rest: "(case r of None \<Rightarrow> each_loop rw h Ls p c
       | Some (_, p', _) \<Rightarrow> each_loop rw h Ls p' True) = Inr (p', c')" by auto
  show ?case
  proof (cases r)
    case None
    then have "each_loop rw h Ls p c = Inr (p', c')" using rest by simp
    from Cons.IH [OF this Cons.prems(2)] show ?thesis unfolding list.set by blast
  next
    case (Some t)
    obtain u p1 h1 where t: "t = (u, p1, h1)" by (cases t)
    have o: "on_loop rw h p L = Inr (Some (u, p1, h1))" using r Some t by simp
    note sm = on_loop_smaller [OF o Cons.prems(2)]
    have wf1: "wf_body h (pr_body p1)" using sm(3) by (simp add: fits_body_def)
    have run1: "pre M h L \<Longrightarrow> run_program M h p1 st = run_program M h p st"
      using program_runs [OF o Cons.prems(2), of M] sm(2) by simp
    have e: "each_loop rw h Ls p1 True = Inr (p', c')" using rest Some t by simp
    note I = Cons.IH [OF e wf1]
    have "fits_body h h (pr_body p) (pr_body p')"
      using fits_body_trans [OF sm(3)] I by blast
    moreover have "bsize (pr_body p') < bsize (pr_body p)" using I sm(1) by linarith
    moreover have "list_all no_ifs (pr_body p) \<longrightarrow> list_all no_ifs (pr_body p')" using I sm(4) by blast
    moreover have "(\<forall>L \<in> set (L # Ls). pre M h L) \<longrightarrow> run_program M h p' st = run_program M h p st"
      using I run1 by simp
    ultimately show ?thesis by (intro conjI impI) (simp_all only: less_imp_le simp_thms)
  qed
qed

lemma each_loop_less:
  "each_loop rw h Ls p False = Inr (p', c') \<Longrightarrow> wf_body h (pr_body p) \<Longrightarrow>
     less_if c' (bsize (pr_body p')) (bsize (pr_body p))"
  using each_loop_fits [of h Ls p False p' c'] by (simp add: less_if_def)

end

definition positive_stride :: "machine \<Rightarrow> heap \<Rightarrow> loop_ptr \<Rightarrow> bool" where
  "positive_stride M h L \<longleftrightarrow> loop_stride h L \<noteq> 0"

interpretation emptying: loop_removal empty_loop positive_stride
proof (unfold_locales, goal_cases)
  case (3 h vs enc L body x new h' M)
  have "fold_opt (\<lambda>i. fold_opt (exec M h (\<rho>(L := of_nat i))) []) xs st = Some st" for \<rho> st and xs :: "nat list"
    by (induction xs) simp_all
  with 3 show ?case
    unfolding runs_like_def fold_opt_single exec.simps
    by (auto simp: empty_loop_def positive_stride_def simp del: fun_upd_apply split: if_splits)
qed (auto simp: empty_loop_def heap_keeps_def fits_body_def split: if_splits)

interpretation trip1: loop_removal trip1_loop positive_stride
proof (unfold_locales, goal_cases)
  case (1 h vs enc L body x new h')
  then show ?case by (auto simp: trip1_loop_def heap_keeps_def split: if_splits)
next
  case (2 h vs enc L body x new h')
  then have n: "new = map (subst_stmt L (ConstantExpr 0)) body" "h' = h"
    by (auto simp: trip1_loop_def split: if_splits)
  have wf: "wf_body h body" "L \<notin> set (body_loops body)" using 2(2) by (auto simp: wf_body_Loop)
  have "wf_body h new" unfolding n by (rule wf_subst [OF wf(1)]) simp_all
  moreover have "free_of new \<subseteq> free_of [Loop L body]"
    using subst_free_of [of L "ConstantExpr 0" body] by (simp add: n free_of_def)
  ultimately show ?case unfolding fits_body_def n by (simp del: set_concat map_map)
next
  case (3 h vs enc L body x new h' M)
  then have n: "new = map (subst_stmt L (ConstantExpr 0)) body" "h' = h" "loop_end h L = loop_stride h L"
    by (auto simp: trip1_loop_def split: if_splits)
  have s: "0 < unat (loop_stride h L)" using 3(3) by (simp add: positive_stride_def unat_gt_0)
  have wf: "L \<notin> set (body_loops body)" using 3(2) by (auto simp: wf_body_Loop)
  have "exec_body M h \<rho> new st = exec_body M h (\<rho>(L := 0)) body st" for \<rho> st
    unfolding n using wf by (intro subst_exec_body) (simp_all add: index_value_def)
  then show ?case using n(2,3) s 3(3)
    unfolding runs_like_def fold_opt_single exec.simps
    by (simp add: count_up_length positive_stride_def del: fun_upd_apply fold_opt.simps(2))
next
  case (5 h vs enc L body x new h')
  then show ?case by (auto simp: trip1_loop_def subst_body_size split: if_splits)
next
  case (6 h vs enc L body x new h')
  then show ?case by (auto simp: trip1_loop_def list_all_iff subst_no_ifs split: if_splits)
qed (auto simp: trip1_loop_def split: if_splits)

end
