(* ===== verification/Ranges.thy ===== *)
theory Ranges
  imports SimplifyLoops
begin

text \<open>
  The integer ranges of \<open>computeKnownIntegerRange\<close> bound the value of an index expression, for
  expressions without \<open>max\<close>, whose rule takes the smaller upper bound. The bounds are inclusive,
  while the range of an \<open>IfRange\<close> is half-open: removing a check is correct where the two do not
  meet, and wrong in general.
\<close>

section \<open>Ranges bound values\<close>

fun consts_fit :: "expr \<Rightarrow> bool" where
  "consts_fit (ConstantExpr v) = in_int (sint v)"
| "consts_fit (BinaryExpr k l r) = (consts_fit l \<and> consts_fit r)"
| "consts_fit _ = True"

fun no_max :: "expr \<Rightarrow> bool" where
  "no_max (BinaryExpr k l r) = (k \<noteq> BinOpKind.Max \<and> no_max l \<and> no_max r)"
| "no_max _ = True"

text \<open>The counter of a loop whose stride divides its end.\<close>

definition in_trips :: "heap \<Rightarrow> env \<Rightarrow> loop_ptr \<Rightarrow> bool" where
  "in_trips h \<rho> L \<longleftrightarrow> 0 \<le> sint (\<rho> L) \<and> sint (\<rho> L) \<le> int (unat (loop_end h L - loop_stride h L))"

definition whole_trips :: "heap \<Rightarrow> loop_ptr \<Rightarrow> bool" where
  "whole_trips h L \<longleftrightarrow> loop_stride h L \<noteq> 0 \<and> loop_end h L mod loop_stride h L = 0"

lemma int_of_i64_fits: "in_int (sint v) \<Longrightarrow> int_of_i64 v = sint v"
proof -
  assume a: "in_int (sint v)"
  have "ucast (word_of_int x :: i64) = (word_of_int x :: u32)" for x
    by transfer (simp add: take_bit_take_bit)
  from this [of "sint v"] have "ucast v = (word_of_int (sint v) :: u32)"
    unfolding scast_eq [symmetric] by (simp only: scast_id)
  moreover have "sint (word_of_int (sint v) :: u32) = sint v"
    unfolding sint_sbintrunc' using a by (intro signed_take_bit_int_eq_self) (simp_all add: in_int_def)
  ultimately show ?thesis unfolding int_of_i64_def by (simp only:)
qed

lemma int_of_u32_nonneg: "0 \<le> int_of_u32 w \<Longrightarrow> int_of_u32 w = int (unat w)"
proof -
  assume a: "0 \<le> int_of_u32 w"
  have b: "int_of_u32 w = (uint w + 2 ^ 31) mod 2 ^ 32 - 2 ^ 31"
    using int_word_sint [of "uint w", where 'a = 32] by (simp add: int_of_u32_def)
  have "uint w < 2 ^ 31"
  proof (rule ccontr)
    assume "\<not> uint w < 2 ^ 31"
    then have "(uint w + 2 ^ 31) mod 2 ^ 32 = (uint w + 2 ^ 31 - 2 ^ 32) mod 2 ^ 32"
      by (intro mod_pos_geq) simp_all
    also have "\<dots> = uint w + 2 ^ 31 - 2 ^ 32"
      using \<open>\<not> uint w < 2 ^ 31\<close> uint_u32_bound [of w] by (intro mod_pos_pos_trivial) simp_all
    finally have "(uint w + 2 ^ 31) mod 2 ^ 32 = uint w + 2 ^ 31 - 2 ^ 32" .
    with a b uint_u32_bound [of w] show False by simp
  qed
  then show ?thesis using b by simp
qed

lemma corners_bound:
  assumes "corners f (a, b) (c, d) = Inr (lo, hi)"
    and "\<And>y. min (f a y) (f b y) \<le> f x y \<and> f x y \<le> max (f a y) (f b y)"
    and "\<And>x. min (f x c) (f x d) \<le> f x y \<and> f x y \<le> max (f x c) (f x d)"
  shows "lo \<le> f x y" "f x y \<le> hi" "in_int lo" "in_int hi"
proof -
  have e: "in_int (f a c)" "in_int (f a d)" "in_int (f b c)" "in_int (f b d)"
    "lo = min (min (min (f a c) (f a d)) (f b c)) (f b d)" "hi = max (max (max (f a c) (f a d)) (f b c)) (f b d)"
    using assms(1) by (simp_all add: corners_def Let_def)
  show "in_int lo" "in_int hi" using e(1-4) unfolding e(5,6) by (simp_all add: min_def max_def)
  show "lo \<le> f x y" using assms(2) [of y] assms(3) [of a] assms(3) [of b] unfolding e(5) by linarith
  show "f x y \<le> hi" using assms(2) [of y] assms(3) [of a] assms(3) [of b] unfolding e(6) by linarith
qed

lemma mult_between:
  fixes a b c x :: int
  assumes "a \<le> x" "x \<le> b"
  shows "min (a * c) (b * c) \<le> x * c \<and> x * c \<le> max (a * c) (b * c)"
proof (cases "0 \<le> c")
  case True
  then have "a * c \<le> x * c" "x * c \<le> b * c" using assms by (simp_all add: mult_right_mono)
  then show ?thesis by linarith
next
  case False
  then have "x * c \<le> a * c" "b * c \<le> x * c" using assms by (simp_all add: mult_right_mono_neg)
  then show ?thesis by linarith
qed

lemma corners_arith:
  assumes "a \<le> x" "x \<le> b" "c \<le> y" "y \<le> d"
  shows "corners (*) (a, b) (c, d) = Inr (lo, hi) \<Longrightarrow> lo \<le> x * y \<and> x * y \<le> hi \<and> in_int lo \<and> in_int hi"
    and "corners (+) (a, b) (c, d) = Inr (lo, hi) \<Longrightarrow> lo \<le> x + y \<and> x + y \<le> hi \<and> in_int lo \<and> in_int hi"
    and "corners (-) (a, b) (c, d) = Inr (lo, hi) \<Longrightarrow> lo \<le> x - y \<and> x - y \<le> hi \<and> in_int lo \<and> in_int hi"
proof -
  assume m: "corners (*) (a, b) (c, d) = Inr (lo, hi)"
  have "min (a * z) (b * z) \<le> x * z \<and> x * z \<le> max (a * z) (b * z)" for z
    using assms(1,2) by (rule mult_between)
  moreover have "min (z * c) (z * d) \<le> z * y \<and> z * y \<le> max (z * c) (z * d)" for z
    using mult_between [OF assms(3,4), of z] by (simp add: mult.commute)
  ultimately show "lo \<le> x * y \<and> x * y \<le> hi \<and> in_int lo \<and> in_int hi"
    using corners_bound [OF m] by blast
next
  assume "corners (+) (a, b) (c, d) = Inr (lo, hi)"
  from corners_bound [OF this, of x y] show "lo \<le> x + y \<and> x + y \<le> hi \<and> in_int lo \<and> in_int hi"
    using assms by auto
next
  assume "corners (-) (a, b) (c, d) = Inr (lo, hi)"
  from corners_bound [OF this, of x y] show "lo \<le> x - y \<and> x - y \<le> hi \<and> in_int lo \<and> in_int hi"
    using assms by auto
qed

text \<open>64-bit arithmetic is exact where the result fits an \<open>int\<close>.\<close>

lemma in_int_between: "in_int lo \<Longrightarrow> in_int hi \<Longrightarrow> lo \<le> x \<Longrightarrow> x \<le> hi \<Longrightarrow> in_i64 x"
  by (simp add: in_int_def in_i64_def)

lemma sint_arith:
  fixes a b :: i64
  shows "in_i64 (sint a * sint b) \<Longrightarrow> sint (a * b) = sint a * sint b"
    and "in_i64 (sint a + sint b) \<Longrightarrow> sint (a + b) = sint a + sint b"
    and "in_i64 (sint a - sint b) \<Longrightarrow> sint (a - b) = sint a - sint b"
  using sint_word_of_int_i64 [of "sint a * sint b"] sint_word_of_int_i64 [of "sint a + sint b"]
    sint_word_of_int_i64 [of "sint a - sint b"] by simp_all

definition bounds_val :: "int \<times> int \<Rightarrow> val \<Rightarrow> bool" where
  "bounds_val r v \<longleftrightarrow>
     (\<exists>x. v = VIdx [x] \<and> fst r \<le> sint x \<and> sint x \<le> snd r \<and> in_int (fst r) \<and> in_int (snd r))"

lemma range_sound:
  "computeKnownIntegerRange h None e = Inr (Some r) \<Longrightarrow> consts_fit e \<Longrightarrow> no_max e \<Longrightarrow>
     \<forall>L \<in> loops_of_expr e. in_trips h \<rho> L \<Longrightarrow> eval M h st \<rho> e = Some v \<Longrightarrow> bounds_val r v"
proof (induction e arbitrary: r v)
  case (ConstantExpr c)
  then show ?case by (auto simp: bounds_val_def int_of_i64_fits)
next
  case (IndexExpr ty L)
  then have r: "r = (0, int_of_u32 (loop_end h L - loop_stride h L))"
    and nn: "0 \<le> int_of_u32 (loop_end h L - loop_stride h L)" and v: "v = VIdx [\<rho> L]"
    by (auto simp: Let_def)
  have "in_int (int_of_u32 (loop_end h L - loop_stride h L))" by (simp add: int_of_u32_def)
  then show ?case using IndexExpr.prems(4) int_of_u32_nonneg [OF nn]
    by (auto simp: bounds_val_def r v in_trips_def in_int_def simp del: of_nat_unat)
next
  case (BinaryExpr k l r')
  from BinaryExpr.prems(1) obtain L R where L: "computeKnownIntegerRange h None l = Inr (Some L)"
    and R: "computeKnownIntegerRange h None r' = Inr (Some R)"
    by (auto split: option.splits)
  from BinaryExpr.prems(5) obtain vl vr where vl: "eval M h st \<rho> l = Some vl"
    and vr: "eval M h st \<rho> r' = Some vr" and v: "eval_bin M k vl vr = Some v"
    by (auto simp: Option.bind_eq_Some_conv)
  have "bounds_val L vl" "bounds_val R vr"
    using BinaryExpr.IH(1) [OF L _ _ _ vl] BinaryExpr.IH(2) [OF R _ _ _ vr] BinaryExpr.prems(2-4) by auto
  then obtain x y a b c d where vx: "vl = VIdx [x]" "vr = VIdx [y]" and e: "L = (a, b)" "R = (c, d)"
    and B: "a \<le> sint x" "sint x \<le> b" "c \<le> sint y" "sint y \<le> d" "in_int a" "in_int b" "in_int c" "in_int d"
    by (cases L; cases R) (auto simp: bounds_val_def)
  note C = corners_arith [OF B(1-4)]
  show ?case
  proof (cases k)
    case Mul
    have "corners (*) (a, b) (c, d) = Inr (fst r, snd r)" using BinaryExpr.prems(1) Mul L R e by auto
    from C(1) [OF this] show ?thesis using v Mul vx sint_arith(1) [of x y]
      by (auto simp: bounds_val_def in_int_between)
  next
    case Add
    have "corners (+) (a, b) (c, d) = Inr (fst r, snd r)" using BinaryExpr.prems(1) Add L R e by auto
    from C(2) [OF this] show ?thesis using v Add vx sint_arith(2) [of x y]
      by (auto simp: bounds_val_def in_int_between)
  next
    case Sub
    have "corners (-) (a, b) (c, d) = Inr (fst r, snd r)" using BinaryExpr.prems(1) Sub L R e by auto
    from C(3) [OF this] show ?thesis using v Sub vx sint_arith(3) [of x y]
      by (auto simp: bounds_val_def in_int_between)
  next
    case Min
    have "r = (min a c, min b d)" using BinaryExpr.prems(1) Min L R e by (auto simp: Let_def)
    then show ?thesis using v Min vx B by (auto simp: bounds_val_def min_def)
  qed (use BinaryExpr.prems(1,3) L R e in auto)
qed simp_all

section \<open>Removing range checks\<close>

text \<open>The cases in which inclusive and half-open bounds agree.\<close>

definition clear_cut :: "int \<times> int \<Rightarrow> int \<times> int \<Rightarrow> bool" where
  "clear_cut A B \<longleftrightarrow>
     (case getRangeRelation A B of
        Subset \<Rightarrow> snd A < snd B | Disjoint \<Rightarrow> snd A < fst B | Intersect \<Rightarrow> True)"

fun clear_ifs :: "heap \<Rightarrow> stmt \<Rightarrow> bool" where
  "clear_ifs h (Loop L body) = list_all (clear_ifs h) body"
| "clear_ifs h (IfRange val lo hi body) =
     (consts_fit val \<and> no_max val \<and> list_all (clear_ifs h) body
      \<and> (case computeKnownIntegerRange h None val of
            Inr (Some r) \<Rightarrow> clear_cut r (lo, hi) | _ \<Rightarrow> True))"
| "clear_ifs h _ = True"

lemma clear_cut_guard:
  assumes "clear_cut r (lo, hi)" "bounds_val r (VIdx [x])"
  shows "getRangeRelation r (lo, hi) = Subset \<Longrightarrow> range_guard x lo hi"
    and "getRangeRelation r (lo, hi) = Disjoint \<Longrightarrow> \<not> range_guard x lo hi"
  using assms by (auto simp: clear_cut_def getRangeRelation_def bounds_val_def range_guard_def split: if_splits)

lemma counter_within:
  assumes "whole_trips h L" "i \<in> set (count_up (unat (loop_stride h L)) (unat (loop_end h L)) 0)"
  shows "in_trips h (\<rho>(L := of_nat i)) L"
proof -
  let ?s = "unat (loop_stride h L)" and ?e = "unat (loop_end h L)"
  have c: "i < ?e" "?s dvd i" using count_up_set [OF assms(2)] by auto
  have s: "?s dvd ?e" using assms(1) unat_mod_0 by (simp add: whole_trips_def)
  have "0 < ?e - i" "?s dvd ?e - i" using c s by auto
  then have "?s \<le> ?e - i" by (rule dvd_imp_le [rotated])
  then have "loop_stride h L \<le> loop_end h L" "i \<le> ?e - ?s" using c by (simp_all add: word_le_nat_alt)
  then have "i \<le> unat (loop_end h L - loop_stride h L)" by (simp add: unat_sub)
  moreover have "i < 2 ^ 63" using c(1) unat_u32_bound [of "loop_end h L"] by simp
  ultimately show ?thesis by (simp add: in_trips_def sint_of_nat_i64 del: of_nat_unat)
qed

lemma improves_concat:
  "list_all2 (\<lambda>s ss. improves (f s) (fold_opt f ss)) xs xss \<Longrightarrow> improves (fold_opt f xs) (fold_opt f (concat xss))"
proof -
  assume "list_all2 (\<lambda>s ss. improves (f s) (fold_opt f ss)) xs xss"
  then have "improves (fold_opt f xs) (fold_opt (fold_opt f) xss)" by (rule improves_bodies)
  then show ?thesis by (simp add: improves_def fold_opt_concat)
qed

lemma simplifyIfs_stmt_IfRange:
  assumes "simplifyIfs_stmt h (IfRange val lo hi body) = Inr (ss', ch)"
  obtains r ps where "computeKnownIntegerRange h None val = Inr r"
    "map_res (simplifyIfs_stmt h) body = Inr ps"
    "(ss' = [IfRange val lo hi (concat (map fst ps))] \<and> ch = list_ex snd ps)
     \<or> (\<exists>q. r = Some q \<and> getRangeRelation q (lo, hi) = Disjoint \<and> ss' = [] \<and> ch)
     \<or> (\<exists>q. r = Some q \<and> getRangeRelation q (lo, hi) = Subset \<and> ss' = concat (map fst ps) \<and> ch)"
proof -
  from assms obtain r ps where r: "computeKnownIntegerRange h None val = Inr r"
    and ps: "map_res (simplifyIfs_stmt h) body = Inr ps" by auto
  show ?thesis
  proof (rule that [OF r ps], cases r)
    case (Some q)
    then show "(ss' = [IfRange val lo hi (concat (map fst ps))] \<and> ch = list_ex snd ps)
     \<or> (\<exists>q. r = Some q \<and> getRangeRelation q (lo, hi) = Disjoint \<and> ss' = [] \<and> ch)
     \<or> (\<exists>q. r = Some q \<and> getRangeRelation q (lo, hi) = Subset \<and> ss' = concat (map fst ps) \<and> ch)"
      using assms r ps by (cases "getRangeRelation q (lo, hi)") (simp_all add: Let_def)
  qed (use assms r ps in simp)
qed

lemma simplifyIfs_runs:
  "simplifyIfs_stmt h s = Inr (ss', ch) \<Longrightarrow> clear_ifs h s \<Longrightarrow> \<forall>L \<in> loops_in s. whole_trips h L \<Longrightarrow>
     \<forall>L \<in> free_loops s. in_trips h \<rho> L \<Longrightarrow> m_guard M = range_guard \<Longrightarrow>
     improves (exec M h \<rho> s) (exec_body M h \<rho> ss')"
proof (induction s arbitrary: ss' ch \<rho>)
  case (Loop L body)
  from Loop.prems(1) obtain ps where m: "map_res (simplifyIfs_stmt h) body = Inr ps"
    and ss': "ss' = [Loop L (concat (map fst ps))]" by auto
  have b: "improves (exec_body M h (\<rho>(L := of_nat i)) body) (exec_body M h (\<rho>(L := of_nat i)) (concat (map fst ps)))"
    if i: "i \<in> set (count_up (unat (loop_stride h L)) (unat (loop_end h L)) 0)" for i
  proof (rule improves_concat, rule map_res_rel [OF m])
    fix s p assume s: "s \<in> set body" "simplifyIfs_stmt h s = Inr p"
    have "in_trips h (\<rho>(L := of_nat i)) L'" if "L' \<in> free_loops s" for L'
    proof (cases "L' = L")
      case True
      then show ?thesis using counter_within [OF _ i] Loop.prems(3) by auto
    next
      case False
      then show ?thesis using that s(1) Loop.prems(4) by (auto simp: in_trips_def)
    qed
    then show "improves (exec M h (\<rho>(L := of_nat i)) s) (exec_body M h (\<rho>(L := of_nat i)) (fst p))"
      using s Loop.prems(2,3,5)
      by (intro Loop.IH [of s "fst p" "snd p"]) (auto simp: list_all_iff simp del: fun_upd_apply)
  qed
  then show ?case unfolding ss' improves_def fold_opt_single exec.simps
    using improvesD [OF improves_fold_same [OF b]] by (auto simp del: fun_upd_apply)
next
  case (IfRange val lo hi body)
  from IfRange.prems(1) obtain r ps where r: "computeKnownIntegerRange h None val = Inr r"
    and m: "map_res (simplifyIfs_stmt h) body = Inr ps"
    and ss': "(ss' = [IfRange val lo hi (concat (map fst ps))] \<and> ch = list_ex snd ps)
     \<or> (\<exists>q. r = Some q \<and> getRangeRelation q (lo, hi) = Disjoint \<and> ss' = [] \<and> ch)
     \<or> (\<exists>q. r = Some q \<and> getRangeRelation q (lo, hi) = Subset \<and> ss' = concat (map fst ps) \<and> ch)"
    by (rule simplifyIfs_stmt_IfRange)
  have b: "improves (exec_body M h \<rho> body) (exec_body M h \<rho> (concat (map fst ps)))"
  proof (rule improves_concat, rule map_res_rel [OF m])
    fix s p assume "s \<in> set body" "simplifyIfs_stmt h s = Inr p"
    then show "improves (exec M h \<rho> s) (exec_body M h \<rho> (fst p))"
      using IfRange.prems(2-5) by (intro IfRange.IH [of s "fst p" "snd p"]) (auto simp: list_all_iff)
  qed
  show ?case
  proof (rule improvesI)
    fix st st' assume "exec M h \<rho> (IfRange val lo hi body) st = Some st'"
    then obtain v x where v: "eval M h st \<rho> val = Some v" "scalar_idx v = Some x"
      and e: "(if range_guard x lo hi then exec_body M h \<rho> body st else Some st) = Some st'"
      using IfRange.prems(5) by (auto simp: Option.bind_eq_Some_conv)
    have vx: "v = VIdx [x]" using v(2) by (cases v rule: scalar_idx.cases) auto
    have cut: "clear_cut q (lo, hi)" "bounds_val q (VIdx [x])" if "r = Some q" for q
      using IfRange.prems(2,4) r that range_sound [of h val q \<rho> M st v] v(1) vx by auto
    from ss' show "exec_body M h \<rho> ss' st = Some st'"
    proof (elim disjE exE conjE)
      assume "ss' = [IfRange val lo hi (concat (map fst ps))]"
      then show ?thesis using v e b IfRange.prems(5) by (auto simp: improves_def split: if_splits)
    next
      fix q assume q: "r = Some q" "getRangeRelation q (lo, hi) = Disjoint" "ss' = []"
      then show ?thesis using clear_cut_guard(2) [OF cut [OF q(1)]] e by simp
    next
      fix q assume q: "r = Some q" "getRangeRelation q (lo, hi) = Subset" "ss' = concat (map fst ps)"
      then show ?thesis using clear_cut_guard(1) [OF cut [OF q(1)]] e b by (simp add: improves_def)
    qed
  qed
qed (simp_all add: improves_def)

lemma simplifyIfs_improves:
  assumes "simplifyIfs h p = Inr (p', ch)" "list_all (clear_ifs h) (pr_body p)"
    "\<forall>L \<in> set (body_loops (pr_body p)). whole_trips h L" "free_of (pr_body p) = {}"
    "m_guard M = range_guard"
  shows "improves (run_program M h p) (run_program M h p')"
proof -
  from assms(1) obtain ps where m: "map_res (simplifyIfs_stmt h) (pr_body p) = Inr ps"
    and p': "pr_body p' = concat (map fst ps)" by (auto simp: simplifyIfs_def)
  have "improves (exec_body M h (\<lambda>L. 0) (pr_body p)) (exec_body M h (\<lambda>L. 0) (concat (map fst ps)))"
  proof (rule improves_concat, rule map_res_rel [OF m])
    fix s q assume s: "s \<in> set (pr_body p)" "simplifyIfs_stmt h s = Inr q"
    show "improves (exec M h (\<lambda>L. 0) s) (exec_body M h (\<lambda>L. 0) (fst q))"
      using s assms(2-5)
      by (intro simplifyIfs_runs [of h s "fst q" "snd q"]) (auto simp: list_all_iff free_of_def)
  qed
  then show ?thesis by (simp add: improves_def run_program_def p')
qed

text \<open>A program without checks is left alone.\<close>

lemma simplifyIfs_stmt_no_ifs: "no_ifs s \<Longrightarrow> simplifyIfs_stmt h s = Inr ([s], False)"
proof (induction s)
  case (Loop L body)
  then have "map_res (simplifyIfs_stmt h) body = Inr (map (\<lambda>s. ([s], False)) body)"
    by (induction body) auto
  moreover have "concat (map (\<lambda>s. [s]) body) = body" by (induction body) auto
  moreover have "\<not> list_ex snd (map (\<lambda>s. ([s], False)) body)" by (induction body) auto
  ultimately show ?case by (simp add: comp_def)
qed simp_all

lemma simplifyIfs_no_ifs:
  assumes "list_all no_ifs (pr_body p)"
  shows "simplifyIfs h p = Inr (p, False)"
proof -
  have "map_res (simplifyIfs_stmt h) ss = Inr (map (\<lambda>s. ([s], False)) ss)" if "list_all no_ifs ss" for ss
    using that by (induction ss) (auto simp: simplifyIfs_stmt_no_ifs)
  moreover have "concat (map (\<lambda>s. [s]) ss) = ss" "\<not> list_ex snd (map (\<lambda>s. ([s], False)) ss)" for ss :: "stmt list"
    by (induction ss) auto
  ultimately show ?thesis using assms by (simp add: simplifyIfs_def comp_def)
qed

section \<open>Size and well-formedness\<close>

lemma simplifyIfs_less: "simplifyIfs_stmt h s = Inr (ss', ch) \<Longrightarrow> less_if ch (bsize ss') (ssize s)"
proof (induction s arbitrary: ss' ch)
  case (Loop L body)
  from Loop.prems obtain ps where m: "map_res (simplifyIfs_stmt h) body = Inr ps"
    and ss': "ss' = [Loop L (concat (map fst ps))]" "ch = list_ex snd ps" by auto
  have "less_if (list_ex snd ps) (sum_list (map bsize (map fst ps))) (sum_list (map ssize body))"
    by (rule less_if_map_res [OF m]) (rule Loop.IH)
  then show ?case by (simp add: ss' bsize_def [of body])
next
  case (IfRange val lo hi body)
  from IfRange.prems obtain r ps where m: "map_res (simplifyIfs_stmt h) body = Inr ps"
    and ss': "(ss' = [IfRange val lo hi (concat (map fst ps))] \<and> ch = list_ex snd ps)
     \<or> (\<exists>q. r = Some q \<and> getRangeRelation q (lo, hi) = Disjoint \<and> ss' = [] \<and> ch)
     \<or> (\<exists>q. r = Some q \<and> getRangeRelation q (lo, hi) = Subset \<and> ss' = concat (map fst ps) \<and> ch)"
    by (rule simplifyIfs_stmt_IfRange)
  have "less_if (list_ex snd ps) (sum_list (map bsize (map fst ps))) (sum_list (map ssize body))"
    by (rule less_if_map_res [OF m]) (rule IfRange.IH)
  then have b: "less_if (list_ex snd ps) (bsize (concat (map fst ps))) (bsize body)"
    by (simp add: bsize_def [of body])
  from ss' show ?case
    by (elim disjE exE conjE) (use b esize_pos [of val] in \<open>auto simp: less_if_def\<close>)
qed simp_all

lemma fits_body_concat:
  assumes "list_all2 (\<lambda>s ss. wf_body h [s] \<longrightarrow> fits_body h h [s] ss) xs xss" "wf_body h xs"
  shows "fits_body h h xs (concat xss)"
  using assms
proof (induction rule: list_all2_induct)
  case (Cons s xs ss xss)
  have wf: "wf_body h ([s] @ xs)" using Cons.prems by simp
  then have parts: "wf_body h [s]" "wf_body h xs" unfolding wf_body_append by simp_all
  have f: "fits_body h h [s] ss" "fits_body h h xs (concat xss)"
    using Cons.hyps(1) Cons.IH parts by simp_all
  have "fits_body h h ([s] @ xs) (ss @ concat xss)"
    by (rule fits_body_append [OF f wf])
      (use f wf_body_bound in \<open>fastforce simp: fits_body_def simp del: set_concat\<close>)
  then show ?case by simp
qed (simp add: fits_body_def)

lemma simplifyIfs_fits: "simplifyIfs_stmt h s = Inr (ss', ch) \<Longrightarrow> wf_body h [s] \<Longrightarrow> fits_body h h [s] ss'"
proof (induction s arbitrary: ss' ch)
  case (Loop L body)
  from Loop.prems(1) obtain ps where m: "map_res (simplifyIfs_stmt h) body = Inr ps"
    and ss': "ss' = [Loop L (concat (map fst ps))]" by auto
  have wf: "wf_body h body" using Loop.prems(2) by (simp add: wf_body_Loop)
  have "list_all2 (\<lambda>s ss. wf_body h [s] \<longrightarrow> fits_body h h [s] ss) body (map fst ps)"
    by (rule map_res_rel [OF m]) (metis Loop.IH prod.collapse)
  from fits_body_Loop [OF fits_body_concat [OF this wf] Loop.prems(2) order.refl] show ?case
    by (simp only: ss')
next
  case (IfRange val lo hi body)
  from IfRange.prems(1) obtain r ps where m: "map_res (simplifyIfs_stmt h) body = Inr ps"
    and ss': "(ss' = [IfRange val lo hi (concat (map fst ps))] \<and> ch = list_ex snd ps)
     \<or> (\<exists>q. r = Some q \<and> getRangeRelation q (lo, hi) = Disjoint \<and> ss' = [] \<and> ch)
     \<or> (\<exists>q. r = Some q \<and> getRangeRelation q (lo, hi) = Subset \<and> ss' = concat (map fst ps) \<and> ch)"
    by (rule simplifyIfs_stmt_IfRange)
  have wf: "wf_body h body" using IfRange.prems(2) by (simp add: wf_body_IfRange)
  have "list_all2 (\<lambda>s ss. wf_body h [s] \<longrightarrow> fits_body h h [s] ss) body (map fst ps)"
    by (rule map_res_rel [OF m]) (metis IfRange.IH prod.collapse)
  note b = fits_body_concat [OF this wf]
  from ss' show ?case
  proof (elim disjE exE conjE)
    assume "ss' = [IfRange val lo hi (concat (map fst ps))]"
    then show ?thesis using fits_body_IfRange [OF b IfRange.prems(2) order.refl] by simp
  next
    assume "ss' = []"
    then show ?thesis by (simp add: fits_body_def)
  next
    assume "ss' = concat (map fst ps)"
    then show ?thesis using b by (auto simp: fits_body_def free_of_def simp del: set_concat)
  qed
qed (auto intro!: fits_body_refl)

lemma simplifyIfs_all:
  assumes "simplifyIfs h p = Inr (p', ch)" "wf_body h (pr_body p)"
  shows "fits_body h h (pr_body p) (pr_body p')" "less_if ch (bsize (pr_body p')) (bsize (pr_body p))"
proof -
  from assms(1) obtain ps where m: "map_res (simplifyIfs_stmt h) (pr_body p) = Inr ps"
    and p': "pr_body p' = concat (map fst ps)" "ch = list_ex snd ps" by (auto simp: simplifyIfs_def)
  have "list_all2 (\<lambda>s ss. wf_body h [s] \<longrightarrow> fits_body h h [s] ss) (pr_body p) (map fst ps)"
    by (rule map_res_rel [OF m]) (metis simplifyIfs_fits prod.collapse)
  from fits_body_concat [OF this assms(2)] show "fits_body h h (pr_body p) (pr_body p')" by (simp add: p')
  have "less_if (list_ex snd ps) (sum_list (map bsize (map fst ps))) (sum_list (map ssize (pr_body p)))"
    by (rule less_if_map_res [OF m]) (rule simplifyIfs_less)
  then show "less_if ch (bsize (pr_body p')) (bsize (pr_body p))" by (simp add: p' bsize_def [of "pr_body p"])
qed

end
