(* ===== verification/SimplifyCorrect.thy ===== *)
theory SimplifyCorrect
  imports Ranges
begin

text \<open>
  \<open>simplify\<close> as a whole: it returns on every well-formed program, because each round that changes
  something makes the program smaller; and a program without range checks still runs the same.
\<close>

lemma simplify_once_elim:
  assumes "simplify_once H h p = Inr (p', ch)"
  obtains b1 c1 p2 c2 p3 c3 c4 where
    "simp_stmts H (pr_body p) = Inr (b1, c1)" "removeEmptyLoops h (p\<lparr>pr_body := b1\<rparr>) = Inr (p2, c2)"
    "simplifyIfs h p2 = Inr (p3, c3)" "removeTrip1Loops h p3 = Inr (p', c4)"
    "ch \<longleftrightarrow> ((c1 \<or> c2) \<or> c3) \<or> c4"
proof -
  obtain b1 c1 where 1: "simp_stmts H (pr_body p) = Inr (b1, c1)"
    using assms unfolding simplify_once_def by (cases "simp_stmts H (pr_body p)") auto
  obtain p2 c2 where 2: "removeEmptyLoops h (p\<lparr>pr_body := b1\<rparr>) = Inr (p2, c2)"
    using assms 1 unfolding simplify_once_def by (cases "removeEmptyLoops h (p\<lparr>pr_body := b1\<rparr>)") auto
  obtain p3 c3 where 3: "simplifyIfs h p2 = Inr (p3, c3)"
    using assms 1 2 unfolding simplify_once_def by (cases "simplifyIfs h p2") auto
  obtain p4 c4 where 4: "removeTrip1Loops h p3 = Inr (p4, c4)"
    using assms 1 2 3 unfolding simplify_once_def by (cases "removeTrip1Loops h p3") auto
  show ?thesis using assms 1 2 3 4 unfolding simplify_once_def by (intro that [OF 1 2 3, of c4]) auto
qed

lemma simplify_once_fits:
  assumes "simplify_once H h p = Inr (p', ch)" "wf_body h (pr_body p)"
  shows "fits_body h h (pr_body p) (pr_body p')" "less_if ch (bsize (pr_body p')) (bsize (pr_body p))"
proof -
  from assms(1) obtain b1 c1 p2 c2 p3 c3 c4 where s: "simp_stmts H (pr_body p) = Inr (b1, c1)"
    "removeEmptyLoops h (p\<lparr>pr_body := b1\<rparr>) = Inr (p2, c2)"
    "simplifyIfs h p2 = Inr (p3, c3)" "removeTrip1Loops h p3 = Inr (p', c4)"
    and ch: "ch \<longleftrightarrow> ((c1 \<or> c2) \<or> c3) \<or> c4" by (rule simplify_once_elim)
  note W1 = simp_stmts_wf [OF s(1) assms(2)]
  have f1: "fits_body h h (pr_body p) b1" using W1 by (simp add: fits_body_def)
  have s2: "each_loop empty_loop h (body_loops b1) (p\<lparr>pr_body := b1\<rparr>) False = Inr (p2, c2)"
    using s(2) by (simp add: removeEmptyLoops_def)
  have f2: "fits_body h h b1 (pr_body p2)" "less_if c2 (bsize (pr_body p2)) (bsize b1)"
    using emptying.each_loop_fits [OF s2] emptying.each_loop_less [OF s2] W1(1) by simp_all
  have f3: "fits_body h h (pr_body p2) (pr_body p3)" "less_if c3 (bsize (pr_body p3)) (bsize (pr_body p2))"
    using simplifyIfs_all [OF s(3)] f2(1) by (simp_all add: fits_body_def)
  have f4: "fits_body h h (pr_body p3) (pr_body p')" "less_if c4 (bsize (pr_body p')) (bsize (pr_body p3))"
    using trip1.each_loop_fits [of h _ p3 False p' c4] trip1.each_loop_less [of h _ p3 p' c4] s(4) f3(1)
    by (simp_all add: removeTrip1Loops_def fits_body_def)
  show "fits_body h h (pr_body p) (pr_body p')"
    using f1 f2(1) f3(1) f4(1) by (blast intro: fits_body_trans)
  show "less_if ch (bsize (pr_body p')) (bsize (pr_body p))"
    unfolding ch using simp_stmts_less [OF s(1)] f2(2) f3(2) f4(2) by (auto simp: less_if_def)
qed

lemma simplify_returns: "wf_body h (pr_body p) \<Longrightarrow> \<exists>r. simplify H h p = Some r"
proof (induction "bsize (pr_body p)" arbitrary: p rule: less_induct)
  case less
  show ?case
  proof (cases "simplify_once H h p")
    case (Inl e)
    then show ?thesis by (subst simplify.simps) simp
  next
    case (Inr q)
    obtain p' ch where q: "q = (p', ch)" by (cases q)
    note o = simplify_once_fits [OF Inr [unfolded q] less.prems]
    show ?thesis
    proof (cases ch)
      case True
      have "\<exists>r. simplify H h p' = Some r"
        using less.hyps [of p'] o True by (simp add: fits_body_def)
      then show ?thesis using Inr q True by (subst simplify.simps) auto
    next
      case False
      then show ?thesis using Inr q by (subst simplify.simps) simp
    qed
  qed
qed

text \<open>Rule induction for \<open>simplify\<close>: what one round keeps is kept.\<close>

lemma simplify_induct:
  assumes "simplify H h p = Some (Inr (p', ch))" "wf_body h (pr_body p)" "Q p"
    and "\<And>p p1 c. simplify_once H h p = Inr (p1, c) \<Longrightarrow> wf_body h (pr_body p) \<Longrightarrow> Q p \<Longrightarrow> Q p1"
  shows "Q p' \<and> wf_body h (pr_body p')"
  using assms(1-3)
proof (induction "bsize (pr_body p)" arbitrary: p ch rule: less_induct)
  case less
  from less.prems(1) obtain p1 c where o: "simplify_once H h p = Inr (p1, c)"
    by (subst (asm) simplify.simps) (auto split: sum.splits)
  note f = simplify_once_fits [OF o less.prems(2)]
  have w: "wf_body h (pr_body p1)" "Q p1"
    using f(1) assms(4) [OF o less.prems(2,3)] by (simp_all add: fits_body_def)
  show ?case
  proof (cases c)
    case False
    then have "p' = p1" using less.prems(1) o by (subst (asm) simplify.simps) simp
    then show ?thesis using w by simp
  next
    case True
    then obtain ch' where "simplify H h p1 = Some (Inr (p', ch'))"
      using less.prems(1) o by (subst (asm) simplify.simps) (auto simp: Option.bind_eq_Some_conv)
    moreover have "bsize (pr_body p1) < bsize (pr_body p)" using f(2) True by simp
    ultimately show ?thesis using less.hyps w by blast
  qed
qed

definition strides_ok :: "heap \<Rightarrow> stmt list \<Rightarrow> bool" where
  "strides_ok h ss \<longleftrightarrow> (\<forall>L \<in> set (body_loops ss). loop_stride h L \<noteq> 0)"

lemma strides_ok_fits: "strides_ok h a \<Longrightarrow> fits_body h h a b \<Longrightarrow> strides_ok h b"
  using fits_body_loops [of h a b] by (auto simp: strides_ok_def simp del: set_concat)

lemma simp_stmts_no_ifs: "simp_stmts H ss = Inr (ss', ch) \<Longrightarrow> list_all no_ifs ss \<Longrightarrow> list_all no_ifs ss'"
proof -
  have s: "stmt_rel R s s' \<Longrightarrow> no_ifs s \<Longrightarrow> no_ifs s'" for R s s'
  proof (induction rule: stmt_rel.induct)
    case (rel_Loop body body' L)
    from rel_Loop(1) have "list_all no_ifs body \<longrightarrow> list_all no_ifs body'"
      by (induction rule: list_all2_induct) auto
    then show ?case using rel_Loop(2) by simp
  qed simp_all
  assume "simp_stmts H ss = Inr (ss', ch)"
  from fitting.simp_stmts_rel [OF this] show "list_all no_ifs ss \<Longrightarrow> list_all no_ifs ss'"
    by (induction rule: list_all2_induct) (auto intro: s)
qed

lemma simplify_once_improves:
  assumes o: "simplify_once H h p = Inr (p', ch)" and wf: "wf_body h (pr_body p)"
    and fm: "fast_math M H" and st: "strides_ok h (pr_body p)" and ni: "list_all no_ifs (pr_body p)"
  shows "improves (run_program M h p) (run_program M h p')" "list_all no_ifs (pr_body p')"
proof -
  from o obtain b1 c1 p2 c2 p3 c3 c4 where s: "simp_stmts H (pr_body p) = Inr (b1, c1)"
    "removeEmptyLoops h (p\<lparr>pr_body := b1\<rparr>) = Inr (p2, c2)"
    "simplifyIfs h p2 = Inr (p3, c3)" "removeTrip1Loops h p3 = Inr (p', c4)"
    and ch: "ch \<longleftrightarrow> ((c1 \<or> c2) \<or> c3) \<or> c4" by (rule simplify_once_elim)
  note W1 = simp_stmts_wf [OF s(1) wf]
  have n1: "list_all no_ifs b1" by (rule simp_stmts_no_ifs [OF s(1) ni])
  have st1: "\<forall>L \<in> set (body_loops b1). positive_stride M h L"
    using st by (simp add: strides_ok_def positive_stride_def W1(2) del: set_concat)
  have s2: "each_loop empty_loop h (body_loops b1) (p\<lparr>pr_body := b1\<rparr>) False = Inr (p2, c2)"
    using s(2) by (simp add: removeEmptyLoops_def)
  have two: "fits_body h h b1 (pr_body p2)" "list_all no_ifs (pr_body p2)"
    "run_program M h p2 st = run_program M h (p\<lparr>pr_body := b1\<rparr>) st" for st
    using emptying.each_loop_fits [OF s2, of M st] W1(1) n1 st1 by simp_all
  have "p3 = p2" using s(3) simplifyIfs_no_ifs [OF two(2)] by simp
  then have s4: "each_loop trip1_loop h (body_loops (pr_body p2)) p2 False = Inr (p', c4)"
    using s(4) by (simp add: removeTrip1Loops_def)
  have wf2: "wf_body h (pr_body p2)" using two(1) by (simp add: fits_body_def)
  have st2: "\<forall>L \<in> set (body_loops (pr_body p2)). positive_stride M h L"
    using st1 fits_body_loops [OF two(1)] by blast
  note four = trip1.each_loop_fits [OF s4 wf2]
  then show "list_all no_ifs (pr_body p')" using two(2) by simp
  have "run_program M h p' st = run_program M h (p\<lparr>pr_body := b1\<rparr>) st" for st
    using four [of M st] st2 two(3) by simp
  moreover have "improves (run_program M h p) (run_program M h (p\<lparr>pr_body := b1\<rparr>))"
    using simp_stmts_improves [OF fm s(1), of h "\<lambda>L. 0"] by (simp add: improves_def run_program_def)
  ultimately show "improves (run_program M h p) (run_program M h p')" by (simp add: improves_def)
qed

lemma simplify_improves:
  assumes "simplify H h p = Some (Inr (p', ch))" "wf_body h (pr_body p)" "fast_math M H"
    "strides_ok h (pr_body p)" "list_all no_ifs (pr_body p)"
  shows "improves (run_program M h p) (run_program M h p')" "wf_body h (pr_body p')"
proof -
  let ?Q = "\<lambda>q. improves (run_program M h p) (run_program M h q) \<and> strides_ok h (pr_body q)
    \<and> list_all no_ifs (pr_body q)"
  have "?Q p' \<and> wf_body h (pr_body p')"
  proof (rule simplify_induct [OF assms(1,2)])
    show "?Q p" using assms(4,5) by (simp add: improves_def)
    fix q q1 c assume o: "simplify_once H h q = Inr (q1, c)" and wf: "wf_body h (pr_body q)" and Q: "?Q q"
    note i = simplify_once_improves [OF o wf assms(3) Q [THEN conjunct2, THEN conjunct1]
        Q [THEN conjunct2, THEN conjunct2]]
    show "?Q q1"
      using Q i strides_ok_fits [OF _ simplify_once_fits(1) [OF o wf]] by (auto simp: improves_def)
  qed
  then show "improves (run_program M h p) (run_program M h p')" "wf_body h (pr_body p')" by simp_all
qed

end
