(* ===== verification/Pipeline.thy ===== *)
theory Pipeline
  imports SimplifyCorrect
begin

text \<open>
  Sequences of transformations. The optimizer and the pragmas apply \<open>tile\<close>, \<open>peelLoop\<close>,
  \<open>unrollLoop\<close> and the loop removals of \<open>simplify\<close> to a program one after the other, in an order
  it searches for. The invariant of such a sequence is that the body is well formed and every
  loop makes whole trips with an end that fits an \<open>int\<close>; each step keeps it, and under it each
  step keeps what the program computes.
\<close>

section \<open>Copies have the bounds of their originals\<close>

definition copied :: "heap \<Rightarrow> stmt list \<Rightarrow> stmt list \<times> heap \<Rightarrow> bool" where
  "copied h ss r \<longleftrightarrow>
     (case r of (ss', h') \<Rightarrow>
        heap_ext h h' \<and> (\<forall>x \<in> set (body_loops ss'). x < hp_next h')
        \<and> map (hp_loop h') (body_loops ss') = map (hp_loop h) (body_loops ss))"

lemma heap_ext_loops: "heap_ext h h' \<Longrightarrow> \<forall>x \<in> set xs. x < hp_next h \<Longrightarrow> map (hp_loop h') xs = map (hp_loop h) xs"
  by (auto simp: heap_ext_def)

lemma clone_copied:
  "clone_stmt h vs enc c s = Inr (s', h', c') \<Longrightarrow> below (hp_next h) s \<Longrightarrow> copied h [s] ([s'], h')"
  "clone_scope h vs enc c ss = Inr (ss', h', c') \<Longrightarrow> \<forall>s \<in> set ss. below (hp_next h) s \<Longrightarrow> copied h ss (ss', h')"
proof (induction h vs enc c s and h vs enc c ss arbitrary: s' h' c' and ss' h' c'
    rule: clone_stmt_clone_scope.induct)
  case (1 h vs enc c L body)
  obtain L' h1 where new: "new_loop h (loop_name h L) (loop_end h L) (loop_stride h L) = (L', h1)"
    by fastforce
  with "1.prems"(1) obtain c1 body' where c1: "map_loop c L L' = Inr c1"
    and body: "clone_scope h1 vs (L # enc) c1 body = Inr (body', h', c')" and s': "s' = Loop L' body'" by auto
  have ext: "heap_ext h h1" using new by (rule heap_ext_new)
  have low: "\<forall>s \<in> set body. below (hp_next h1) s"
    using "1.prems"(2) heap_ext_next [OF ext] by (auto intro: below_mono)
  have C: "copied h1 body (body', h')" by (rule "1.IH" [OF new [symmetric] refl c1 body low])
  have b: "\<forall>x \<in> set (body_loops body). x < hp_next h"
    using "1.prems"(2) by (auto dest: below_loops_in)
  have L': "L' < hp_next h1" "hp_loop h1 L' = hp_loop h L"
    using new by (auto simp: new_loop_def loop_name_def loop_end_def loop_stride_def)
  have n: "hp_next h1 \<le> hp_next h'" "hp_loop h' L' = hp_loop h1 L'"
    using C L'(1) by (auto simp: copied_def heap_ext_def)
  have "map (hp_loop h') (body_loops body') = map (hp_loop h) (body_loops body)"
    using C heap_ext_loops [OF ext b] by (simp only: copied_def prod.case)
  then show ?case
    using C L' n heap_ext_trans [OF ext] unfolding s' copied_def by auto
next
  case (2 h vs enc c val lo hi body)
  then obtain val' body' where v: "clone_expr h vs c val = Inr val'"
    and body: "clone_scope h vs enc c body = Inr (body', h', c')" and s': "s' = IfRange val' lo hi body'" by auto
  have "copied h body (body', h')" using "2.prems"(2) by (intro "2.IH" [OF v body]) simp
  then show ?case unfolding s' copied_def by simp
next
  case (7 h vs enc c s ss)
  then obtain s1 h1 c1 ss1 where s: "clone_stmt h vs enc c s = Inr (s1, h1, c1)"
    and ss: "clone_scope h1 vs enc c1 ss = Inr (ss1, h', c')" and ss': "ss' = s1 # ss1"
    by (auto split: prod.splits)
  have A: "copied h [s] ([s1], h1)" using "7.IH"(1) [OF s] "7.prems"(2) by simp
  then have ext: "heap_ext h h1" by (simp add: copied_def)
  have low: "\<forall>s \<in> set ss. below (hp_next h1) s"
    using "7.prems"(2) heap_ext_next [OF ext] by (auto intro: below_mono)
  have B: "copied h1 ss (ss1, h')" by (rule "7.IH"(2) [OF s refl refl ss low])
  then have ext2: "heap_ext h1 h'" by (simp add: copied_def)
  have b: "\<forall>x \<in> set (body_loops ss). x < hp_next h"
    using "7.prems"(2) by (auto dest: below_loops_in)
  have "map (hp_loop h') (loop_list s1) = map (hp_loop h) (loop_list s)"
    using A heap_ext_loops [OF ext2, of "loop_list s1"] by (simp add: copied_def)
  moreover have "map (hp_loop h') (body_loops ss1) = map (hp_loop h) (body_loops ss)"
    using B heap_ext_loops [OF ext b] by (simp only: copied_def prod.case)
  ultimately have "map (hp_loop h') (body_loops (s1 # ss1)) = map (hp_loop h) (body_loops (s # ss))"
    by (simp del: map_map map_eq_conv)
  moreover have "\<forall>x \<in> set (body_loops (s1 # ss1)). x < hp_next h'"
    using A B heap_ext_next [OF ext2] by (force simp: copied_def simp del: map_map map_eq_conv)
  ultimately show ?case using heap_ext_trans [OF ext ext2] unfolding ss' copied_def prod.case by blast
qed (auto simp: copied_def new_StoreStmt_def new_StoreLocalStmt_def)

section \<open>The invariant of the loops\<close>

definition loop_ok :: "heap \<Rightarrow> loop_ptr \<Rightarrow> bool" where
  "loop_ok h L \<longleftrightarrow> whole_trips h L \<and> unat (loop_end h L) < 2 ^ 31"

definition loops_ok :: "heap \<Rightarrow> stmt list \<Rightarrow> bool" where
  "loops_ok h ss \<longleftrightarrow> (\<forall>L \<in> set (body_loops ss). loop_ok h L)"

lemma loop_ok_cong: "hp_loop h' L' = hp_loop h L \<Longrightarrow> loop_ok h' L' = loop_ok h L"
  by (simp add: loop_ok_def whole_trips_def loop_end_def loop_stride_def)

lemma loops_ok_copied: "copied h ss (ss', h') \<Longrightarrow> loops_ok h ss \<Longrightarrow> loops_ok h' ss'"
proof -
  assume c: "copied h ss (ss', h')" and ok: "loops_ok h ss"
  then have m: "map (hp_loop h') (body_loops ss') = map (hp_loop h) (body_loops ss)"
    by (simp only: copied_def prod.case)
  have "loop_ok h' x" if "x \<in> set (body_loops ss')" for x
  proof -
    have "hp_loop h' x \<in> set (map (hp_loop h') (body_loops ss'))" using that by simp
    then have "hp_loop h' x \<in> set (map (hp_loop h) (body_loops ss))" unfolding m .
    then obtain y where "y \<in> set (body_loops ss)" "hp_loop h' x = hp_loop h y"
      unfolding set_map by blast
    with ok show ?thesis unfolding loops_ok_def using loop_ok_cong by blast
  qed
  then show ?thesis unfolding loops_ok_def ..
qed

lemma loops_ok_append: "loops_ok h (xs @ ys) \<longleftrightarrow> loops_ok h xs \<and> loops_ok h ys"
  by (auto simp: loops_ok_def)

lemma loops_ok_Loop: "loops_ok h [Loop L body] \<longleftrightarrow> loop_ok h L \<and> loops_ok h body"
  by (auto simp: loops_ok_def)

lemma loops_ok_subst [simp]: "loops_ok h (map (subst_stmt L x) ss) = loops_ok h ss"
  unfolding loops_ok_def subst_body_loops ..

lemma loops_ok_keeps:
  "heap_keeps L h h' \<Longrightarrow> wf_body h ss \<Longrightarrow> L \<notin> set (body_loops ss) \<Longrightarrow> loops_ok h ss \<Longrightarrow> loops_ok h' ss"
  unfolding loops_ok_def heap_keeps_def using wf_body_bound loop_ok_cong by metis

lemma loops_ok_ext: "heap_ext h h' \<Longrightarrow> wf_body h ss \<Longrightarrow> loops_ok h ss \<Longrightarrow> loops_ok h' ss"
  unfolding loops_ok_def heap_ext_def using wf_body_bound loop_ok_cong by metis

lemma replace_loop_loops:
  "set (body_loops (replace_loop L new ss)) \<subseteq> set (body_loops new) \<union> (set (body_loops ss) - {L})"
proof -
  have s: "set (body_loops (replace_in L new s)) \<subseteq> set (body_loops new) \<union> (loops_in s - {L})" for s
    by (induction s) (auto split: if_splits)
  show ?thesis
  proof (induction ss)
    case (Cons s ss)
    then show ?case using s [of s] unfolding replace_loop_simps by auto
  qed (simp add: replace_loop_def)
qed

lemma find_loop_body_loops:
  "find_loop enc L ss = Some (enc', body) \<Longrightarrow> set (body_loops body) \<subseteq> set (body_loops ss)"
  "find_loop_in enc L s = Some (enc', body) \<Longrightarrow> set (body_loops body) \<subseteq> loops_in s"
  by (induction enc L ss and enc L s rule: find_loop_find_loop_in.induct)
    (auto split: option.splits if_splits)

text \<open>The contract of a rewriting that keeps the invariant, and under it needs no other condition.\<close>

locale trip_rewriting = loop_rewriting rw pre
  for rw :: "'r loop_rewrite_fun" and pre :: "machine \<Rightarrow> heap \<Rightarrow> loop_ptr \<Rightarrow> bool" +
  assumes trips: "rw h vs enc L body = Inr (Some (x, new, h')) \<Longrightarrow> wf_body h [Loop L body] \<Longrightarrow>
      loops_ok h [Loop L body] \<Longrightarrow> loops_ok h' new"
    and ready: "m_guard M = range_guard \<Longrightarrow> loop_ok h L \<Longrightarrow> pre M h L"
begin

lemma program_step:
  assumes "on_loop rw h p L = Inr (Some (x, p', h'))" "wf_body h (pr_body p)" "loops_ok h (pr_body p)"
  shows "wf_body h' (pr_body p')" "loops_ok h' (pr_body p')"
    "m_guard M = range_guard \<Longrightarrow> run_program M h' p' st = run_program M h p st"
proof -
  from assms(1) obtain enc body new where f: "find_loop [] L (pr_body p) = Some (enc, body)"
    and r: "rw h (pr_vars p) enc L body = Inr (Some (x, new, h'))"
    and p': "p' = p\<lparr>pr_body := replace_loop L new (pr_body p)\<rparr>" by (rule on_loop_elim)
  have wf: "wf_body h [Loop L body]" using find_loop_wf(1) [OF f assms(2)] .
  have L: "L \<in> set (body_loops (pr_body p))" by (rule find_loop_in_loops(1) [OF f])
  have ok: "loop_ok h L" using L assms(3) by (simp add: loops_ok_def del: set_concat)
  show "wf_body h' (pr_body p')" using program_wf [OF assms(1,2)] .
  show "run_program M h' p' st = run_program M h p st" if "m_guard M = range_guard"
    using program_runs [OF assms(1,2) ready [OF that ok]] .
  have inner: "loops_ok h [Loop L body]"
  proof -
    have "set (body_loops body) \<subseteq> set (body_loops (pr_body p))" by (rule find_loop_body_loops(1) [OF f])
    with assms(3) ok show ?thesis by (auto simp: loops_ok_Loop loops_ok_def simp del: set_concat)
  qed
  have old: "loop_ok h' y" if "y \<in> set (body_loops (pr_body p))" "y \<noteq> L" for y
  proof -
    have "hp_loop h' y = hp_loop h y"
      using frame [OF r wf] that wf_body_bound [OF assms(2) that(1)] by (simp add: heap_keeps_def)
    then show ?thesis using assms(3) that(1) loop_ok_cong unfolding loops_ok_def by blast
  qed
  have "loop_ok h' y" if "y \<in> set (body_loops (replace_loop L new (pr_body p)))" for y
    using replace_loop_loops [of L new "pr_body p"] trips [OF r wf inner] that old [of y]
    unfolding loops_ok_def by blast
  then show "loops_ok h' (pr_body p')" by (simp add: p' loops_ok_def del: set_concat)
qed

end

section \<open>The transformations keep it\<close>

lemma unat_u32_Suc: "unat (x :: u32) + 1 < 2 ^ 32 \<Longrightarrow> unat (x + 1) = unat x + 1"
  by (simp add: unat_word_ariths)

lemma tile_trips:
  assumes r: "tile_loop bs h vs enc L body = Inr (Some (NL, new, h'))" and wf: "wf_body h [Loop L body]"
    and ok: "loops_ok h [Loop L body]"
  shows "loops_ok h' new"
proof -
  have L: "L < hp_next h" "wf_body h body" "L \<notin> set (body_loops body)" using wf by (auto simp: wf_body_Loop)
  note E = tile_loop_elim [OF r L(1)]
  note H = tile_heap_facts [OF L(1), of bs, folded E(6)]
  have okL: "unat (loop_end h L) < 2 ^ 31" and okb: "loops_ok h body"
    using ok by (simp_all add: loops_ok_Loop loop_ok_def)
  have b: "unat bs < unat (loop_end h L)" using E(1) by (simp add: word_less_nat_alt)
  have n: "unat (loop_end h' L) < 2 ^ 31"
  proof -
    have "unat (loop_end h L div bs) \<le> unat (loop_end h L)" by (simp add: unat_div)
    then have small: "unat (loop_end h L div bs) + 1 < 2 ^ 32" using okL by simp
    show ?thesis
    proof (cases "loop_end h L mod bs = 0")
      case True
      then show ?thesis using H(3) \<open>unat (loop_end h L div bs) \<le> _\<close> okL by simp
    next
      case False
      then have "bs \<noteq> 1" by (metis unat_mod_0 unat_1 one_dvd)
      then have "unat bs \<noteq> 0" "unat bs \<noteq> 1" using E(4) by (simp_all add: word_unat_eq_iff)
      then have "2 \<le> unat bs" by linarith
      then have "unat (loop_end h L) div unat bs \<le> unat (loop_end h L) div 2" by (intro div_le_mono2) auto
      moreover have "unat (loop_end h L div bs + 1) = unat (loop_end h L) div unat bs + 1"
        using unat_u32_Suc [OF small] by (simp add: unat_div)
      ultimately show ?thesis using False H(3) okL by simp
    qed
  qed
  have "loop_ok h' L" using n H(4) by (simp add: loop_ok_def whole_trips_def)
  moreover have "loop_ok h' NL"
    using E(2,3,5) H(5,6) b okL by (simp add: loop_ok_def whole_trips_def)
  moreover have "loops_ok h' (tile_content h bs L body)"
    using loops_ok_keeps [OF H(1) L(2,3) okb] tile_content_wf(2) [OF L(2,1,3), of bs]
    by (simp add: loops_ok_def del: set_concat)
  ultimately show ?thesis unfolding E(7) loops_ok_Loop loops_ok_subst by simp
qed

interpretation tiles: trip_rewriting "tile_loop bs" "tile_pre bs" for bs
proof (unfold_locales, goal_cases)
  case (1 h vs enc L body x new h')
  then show ?case by (rule tile_trips)
next
  case (2 M h L)
  then show ?case by (simp add: tile_pre_def loop_ok_def)
qed

lemma peel_trips:
  assumes r: "peel_loop k0 h vs enc L body = Inr (Some (L2, new, h'))" and wf: "wf_body h [Loop L body]"
    and ok: "loops_ok h [Loop L body]"
  shows "loops_ok h' new"
proof -
  have L: "L < hp_next h" "wf_body h body" "L \<notin> set (body_loops body)" using wf by (auto simp: wf_body_Loop)
  obtain k h1a c1 body2 h2 c where
    k: "peel_point (loop_end h L) k0 = Inr (Some k)" "k \<le> int_of_u32 (loop_end h L)"
    and s: "loop_stride h L \<noteq> 0" "u32_of_int k mod loop_stride h L = 0" and L2: "L2 = hp_next h"
    and n: "new_loop (setEnd h L (u32_of_int k)) (loop_name h L) (u32_of_int k) (loop_stride h L) = (L2, h1a)"
    and m: "map_loop empty_ctx L L2 = Inr c1"
    and cl: "clone_scope h1a vs (L # enc) c1 body = Inr (body2, h2, c)"
    and new: "new = [Loop L body, Loop L2 (map (subst_stmt L2 (peel_index k L2)) body2)]"
    and h': "h' = setName (setEnd h2 L2 (u32_of_int (int_of_u32 (loop_end h L) - k))) L2
        (newIndexName (loop_name (setEnd h2 L2 (u32_of_int (int_of_u32 (loop_end h L) - k))) L) ''peeled'' 0)"
    using peel_loop_elim [OF r L(1)] unfolding peel_index_def by metis
  note K = peel_point_bounds [OF k]
  let ?hs = "setEnd h L (u32_of_int k)"
  have okL: "unat (loop_end h L) < 2 ^ 31" "unat (loop_stride h L) dvd unat (loop_end h L)"
    and okb: "loops_ok h body"
    using ok unat_mod_0 by (simp_all add: loops_ok_Loop loop_ok_def whole_trips_def)
  have ub: "unat (u32_of_int k) = nat k" "unat (u32_of_int (int_of_u32 (loop_end h L) - k)) = unat (loop_end h L) - nat k"
    using K unat_u32_bound [of "loop_end h L"]
    by (simp_all add: unat_u32_of_int nat_diff_distrib del: of_nat_unat)
  have dk: "unat (loop_stride h L) dvd nat k" using s(2) ub(1) by (simp add: unat_mod_0)
  have low: "\<forall>s \<in> set body. below (hp_next h1a) s"
    using L(2) n by (auto simp: new_loop_def wf_body_def list_all_iff intro: below_mono)
  have ext1a: "heap_ext h1a h2" using clone_copied(2) [OF cl low] by (simp add: copied_def)
  have ext: "heap_ext ?hs h2" by (rule heap_ext_trans [OF heap_ext_new(1) [OF n] ext1a])
  have L2n: "L2 < hp_next h2" "L2 \<noteq> L" "loop_stride h2 L2 = loop_stride h L"
  proof -
    have "hp_next h1a = Suc (hp_next h)" "hp_loop h1a L2 = \<lparr>lp_name = loop_name h L, lp_end = u32_of_int k, lp_stride = loop_stride h L\<rparr>"
      using n L2 by (auto simp: new_loop_def)
    then show "L2 < hp_next h2" "L2 \<noteq> L" "loop_stride h2 L2 = loop_stride h L"
      using L2 L(1) ext1a by (auto simp: heap_ext_def loop_stride_def)
  qed
  have bounds: "loop_end h' L = u32_of_int k" "loop_stride h' L = loop_stride h L"
    "loop_end h' L2 = u32_of_int (int_of_u32 (loop_end h L) - k)" "loop_stride h' L2 = loop_stride h L"
    using ext L(1) L2n
    by (auto simp: h' heap_ext_def loop_end_def loop_stride_def setEnd_def setName_def)
  have ok1: "loop_ok h' L" unfolding loop_ok_def whole_trips_def bounds
    using s okL(1) ub(1) K(3) by (simp del: of_nat_unat)
  have ok2: "loop_ok h' L2" unfolding loop_ok_def whole_trips_def bounds
    using s(1) okL dk ub(2) by (simp add: unat_mod_0 dvd_diff_nat)
  have okb1: "loops_ok h1a body"
  proof -
    have "loops_ok ?hs body" by (rule loops_ok_keeps [OF setEnd_keeps L(2,3) okb])
    moreover have "wf_body ?hs body" using L(2) wf_body_next [of ?hs h] by simp
    ultimately show ?thesis using loops_ok_ext [OF heap_ext_new(1) [OF n]] by simp
  qed
  have wfs: "wf_body ?hs [Loop L body]" using wf wf_body_next [of ?hs h] by simp
  have C: "wf_body h2 body2" "L2 \<notin> set (body_loops body2)"
    using clone_body_facts(2,4) [OF wfs n m cl] by simp_all
  have "loops_ok h2 body2" by (rule loops_ok_copied [OF clone_copied(2) [OF cl low] okb1])
  then have okb2: "loops_ok h' body2"
    using loops_ok_keeps [OF heap_keeps_trans [OF setEnd_keeps setName_keeps] C] unfolding h' by blast
  have okb': "loops_ok h' body" by (rule loops_ok_keeps [OF peel_all(1) [OF r wf] L(2,3) okb])
  show ?thesis
    unfolding new using loops_ok_append [of h' "[Loop L body]" "[Loop L2 (map (subst_stmt L2 (peel_index k L2)) body2)]"]
    by (simp only: append.simps loops_ok_Loop loops_ok_subst ok1 ok2 okb2 okb' simp_thms)
qed

interpretation peels: trip_rewriting "peel_loop k" "\<lambda>M h L. True" for k
  by unfold_locales (auto intro: peel_trips)

lemma unroll_one_trips:
  "unroll_one h vs enc L i ss = Inr (ss', h') \<Longrightarrow> wf_body h ss \<Longrightarrow> L \<notin> set (body_loops ss) \<Longrightarrow>
     L < hp_next h \<Longrightarrow> loops_ok h ss \<Longrightarrow> loops_ok h' ss'"
proof (induction h vs enc L i ss arbitrary: ss' h' rule: unroll_one.induct)
  case (2 h vs enc L i s ss)
  let ?x = "ConstantExpr (i64_of_u32 i)"
  from "2.prems"(1) obtain s1 h1 c ss1 where s: "clone_stmt h vs (L # enc) empty_ctx s = Inr (s1, h1, c)"
    and ss: "unroll_one h1 vs enc L i ss = Inr (ss1, h')" and ss': "ss' = subst_stmt L ?x s1 # ss1"
    by (auto split: prod.splits)
  have wf: "wf_body h [s]" "wf_body h ss" using "2.prems"(2) wf_body_Cons [of h s ss] by simp_all
  have oks: "loops_ok h [s]" "loops_ok h ss"
    using "2.prems"(5) loops_ok_append [of h "[s]" ss] by simp_all
  have cp: "copied h [s] ([s1], h1)" using clone_copied(1) [OF s] wf(1) by (simp add: wf_body_def)
  then have ext: "heap_ext h h1" by (simp add: copied_def)
  have n: "hp_next h \<le> hp_next h1" using ext by (rule heap_ext_next)
  have wf1: "wf_body h1 ss" by (rule wf_body_keeps [OF wf(2) n])
  have ok1: "loops_ok h1 [s1]" by (rule loops_ok_copied [OF cp oks(1)])
  have A: "fresh_copy h h1 (free_loops s) [s1]" by (rule clone_one_facts(1) [OF s wf(1)])
  have B: "fresh_copy h1 h' (free_of ss - {L}) ss1"
    using unroll_one_facts [OF ss wf1] "2.prems"(3,4) n by simp
  have "loops_ok h' ss1"
    using "2.prems"(3,4) n loops_ok_ext [OF ext wf(2) oks(2)] by (intro "2.IH" [OF s refl refl ss wf1]) auto
  moreover have "loops_ok h' [s1]"
    using A B ok1 by (intro loops_ok_ext [of h1 h']) (simp_all add: fresh_copy_def)
  then have "loops_ok h' [subst_stmt L ?x s1]" using loops_ok_subst [of h' L ?x "[s1]"] by simp
  ultimately show ?case unfolding ss' using loops_ok_append [of h' "[subst_stmt L ?x s1]" ss1] by simp
qed (simp add: loops_ok_def)

lemma unroll_all_trips:
  "unroll_all h vs enc L body is = Inr (new, h') \<Longrightarrow> wf_body h [Loop L body] \<Longrightarrow> loops_ok h body \<Longrightarrow>
     loops_ok h' new"
proof (induction "is" arbitrary: h new)
  case Nil
  then show ?case by (simp add: loops_ok_def)
next
  case (Cons i "is")
  from Cons.prems(1) obtain new1 h1 new2 where one: "unroll_one h vs enc L i body = Inr (new1, h1)"
    and rest: "unroll_all h1 vs enc L body is = Inr (new2, h')" and new: "new = new1 @ new2"
    by (auto split: prod.splits)
  have L: "L < hp_next h" "wf_body h body" "L \<notin> set (body_loops body)"
    using Cons.prems(2) by (auto simp: wf_body_Loop)
  have A: "fresh_copy h h1 (free_of body - {L}) new1" using unroll_one_facts [OF one L(2,3,1)] by simp
  have ext1: "heap_ext h h1" using A by (simp add: fresh_copy_def)
  have wf1: "wf_body h1 [Loop L body]" by (rule wf_body_keeps [OF Cons.prems(2) heap_ext_next [OF ext1]])
  have B: "fresh_copy h1 h' (free_of body - {L}) new2" using unroll_all_facts [OF rest wf1] by simp
  have "loops_ok h1 new1" by (rule unroll_one_trips [OF one L(2,3,1) Cons.prems(3)])
  then have "loops_ok h' new1"
    using A B by (intro loops_ok_ext [of h1 h']) (simp_all add: fresh_copy_def)
  moreover have "loops_ok h' new2"
    using Cons.IH [OF rest wf1 loops_ok_ext [OF ext1 L(2) Cons.prems(3)]] .
  ultimately show ?case by (simp add: new loops_ok_append)
qed

interpretation unrolls: trip_rewriting "unroll_loop maxTrip" unroll_pre for maxTrip
proof (unfold_locales, goal_cases)
  case (1 h vs enc L body u new h')
  from 1(1) obtain iters where "unroll_all h vs enc L body iters = Inr (new, h')"
    by (rule unroll_loop_elim)
  from unroll_all_trips [OF this 1(2)] 1(3) show ?case by (simp add: loops_ok_Loop)
next
  case (2 M h L)
  then show ?case by (simp add: unroll_pre_def loop_ok_def whole_trips_def)
qed

section \<open>Sequences of steps\<close>

inductive opt_step :: "heap \<times> program \<Rightarrow> heap \<times> program \<Rightarrow> bool" where
  step_tile: "tile h p L bs = Inr (Some (NL, p', h')) \<Longrightarrow> opt_step (h, p) (h', p')"
| step_peel: "peelLoop h p L k = Inr (Some (L2, p', h')) \<Longrightarrow> opt_step (h, p) (h', p')"
| step_unroll: "unrollLoop h p L maxTrip = Inr (Some (u, p', h')) \<Longrightarrow> opt_step (h, p) (h', p')"
| step_empty: "removeEmptyLoops h p = Inr (p', c) \<Longrightarrow> opt_step (h, p) (h, p')"
| step_trip1: "removeTrip1Loops h p = Inr (p', c) \<Longrightarrow> opt_step (h, p) (h, p')"

inductive_cases opt_step_elim: "opt_step (h, p) hp'"

definition opt_inv :: "heap \<times> program \<Rightarrow> bool" where
  "opt_inv hp \<longleftrightarrow> wf_body (fst hp) (pr_body (snd hp)) \<and> loops_ok (fst hp) (pr_body (snd hp))"

lemma loops_ok_fits: "fits_body h h a b \<Longrightarrow> loops_ok h a \<Longrightarrow> loops_ok h b"
  using fits_body_loops [of h a b] by (auto simp: loops_ok_def simp del: set_concat)

lemma loops_ok_strides: "loops_ok h ss \<Longrightarrow> \<forall>L \<in> set (body_loops ss). positive_stride M h L"
  by (auto simp: loops_ok_def loop_ok_def whole_trips_def positive_stride_def)

lemma opt_step_inv: "opt_step hp hp' \<Longrightarrow> opt_inv hp \<Longrightarrow> opt_inv hp'"
proof (induction rule: opt_step.induct)
  case (step_tile h p L bs NL p' h')
  then show ?case using tiles.program_step(1,2) [of bs h p L NL p' h'] by (simp add: opt_inv_def tile_def)
next
  case (step_peel h p L k L2 p' h')
  then show ?case using peels.program_step(1,2) [of k h p L L2 p' h'] by (simp add: opt_inv_def peelLoop_def)
next
  case (step_unroll h p L maxTrip u p' h')
  then show ?case
    using unrolls.program_step(1,2) [of maxTrip h p L u p' h'] by (simp add: opt_inv_def unrollLoop_def)
next
  case (step_empty h p p' c)
  then have f: "fits_body h h (pr_body p) (pr_body p')"
    using emptying.each_loop_fits [of h _ p False p' c] by (simp add: opt_inv_def removeEmptyLoops_def)
  then show ?case using step_empty.prems loops_ok_fits [OF f] by (simp add: opt_inv_def fits_body_def)
next
  case (step_trip1 h p p' c)
  then have f: "fits_body h h (pr_body p) (pr_body p')"
    using trip1.each_loop_fits [of h _ p False p' c] by (simp add: opt_inv_def removeTrip1Loops_def)
  then show ?case using step_trip1.prems loops_ok_fits [OF f] by (simp add: opt_inv_def fits_body_def)
qed

lemma opt_step_runs:
  "opt_step hp hp' \<Longrightarrow> opt_inv hp \<Longrightarrow> m_guard M = range_guard \<Longrightarrow>
     run_program M (fst hp') (snd hp') st = run_program M (fst hp) (snd hp) st"
proof (induction rule: opt_step.induct)
  case (step_tile h p L bs NL p' h')
  then show ?case using tiles.program_step(3) [of bs h p L NL p' h' M] by (simp add: opt_inv_def tile_def)
next
  case (step_peel h p L k L2 p' h')
  then show ?case using peels.program_step(3) [of k h p L L2 p' h' M] by (simp add: opt_inv_def peelLoop_def)
next
  case (step_unroll h p L maxTrip u p' h')
  then show ?case
    using unrolls.program_step(3) [of maxTrip h p L u p' h' M] by (simp add: opt_inv_def unrollLoop_def)
next
  case (step_empty h p p' c)
  then show ?case
    using emptying.each_loop_fits [of h _ p False p' c M st] loops_ok_strides
    by (auto simp: opt_inv_def removeEmptyLoops_def simp del: set_concat)
next
  case (step_trip1 h p p' c)
  then show ?case
    using trip1.each_loop_fits [of h _ p False p' c M st] loops_ok_strides
    by (auto simp: opt_inv_def removeTrip1Loops_def simp del: set_concat)
qed

lemma opt_steps:
  assumes "opt_step\<^sup>*\<^sup>* hp hp'" "opt_inv hp"
  shows "opt_inv hp'"
    and "m_guard M = range_guard \<Longrightarrow>
      run_program M (fst hp') (snd hp') st = run_program M (fst hp) (snd hp) st"
proof -
  have "opt_inv hp' \<and> (m_guard M = range_guard \<longrightarrow>
      run_program M (fst hp') (snd hp') st = run_program M (fst hp) (snd hp) st)"
    using assms
  proof (induction rule: rtranclp_induct)
    case (step y z)
    then show ?case using opt_step_inv [of y z] opt_step_runs [of y z M st] by simp
  qed simp
  then show "opt_inv hp'" "m_guard M = range_guard \<Longrightarrow>
      run_program M (fst hp') (snd hp') st = run_program M (fst hp) (snd hp) st" by simp_all
qed

text \<open>A verified program makes whole trips.\<close>

lemma verify_program_whole_trips:
  "verify_program h p = Inr () \<Longrightarrow> \<forall>L \<in> set (body_loops (pr_body p)). whole_trips h L"
  using verify_stmt_loops [of h "pr_vars p" "[]"] by (fastforce simp: verify_program_def whole_trips_def)

end
