(* ===== verification/Schedules.thy ===== *)
theory Schedules
  imports Vectorizing Pipeline
begin

text \<open>
  Schedules: the steps of theory Pipeline together with vectorization and widening, where these are safe. All of
  them keep the invariant that programs are well formed and loops make whole trips, so they can be mixed in any
  order.
\<close>

section \<open>Whole trips\<close>

lemma peel_tail_trips:
  assumes r: "peel_tail rest h vs enc L body = Inr (t, after, h1)" and wf: "wf_body h [Loop L body]" and ok: "loops_ok h [Loop L body]"
  shows "loops_ok h1 (Loop L body # after)"
proof (cases "rest = 0 \<or> peel_loop (int_of_u32 (loop_end h L - rest)) h vs enc L body = Inr None")
  case True
  then have "h1 = h" "after = []" using r by (auto simp: peel_tail_def split: if_splits)
  then show ?thesis using ok by simp
next
  case False
  then obtain L2 new where p: "peel_loop (int_of_u32 (loop_end h L - rest)) h vs enc L body = Inr (Some (L2, new, h1))"
    and after: "after = tl new"
    using peel_tail_elim [OF r] by blast
  obtain s where "new = [Loop L body, s]" using peel_bounds(3) [OF p wf] by blast
  then have "Loop L body # after = new" by (simp add: after)
  then show ?thesis using peel_trips [OF p wf ok] by simp
qed

lemma stepped_trips:
  assumes p: "peel_tail (loop_end h L mod (loop_stride h L * k)) h vs enc L [S] = Inr (t, after, h1)"
    and wf: "wf_body h [Loop L [S]]" and ok: "loops_ok h [Loop L [S]]"
    and q: "loop_stride h L * k \<noteq> 0" "loop_stride h L * k \<le> loop_end h L" and o: "unat (loop_stride h L) * unat k < 2 ^ 32"
    and ss: "body_loops ss = []" and h': "h' = setStride h1 L (loop_stride h L * k)"
  shows "loops_ok h' (Loop L ss # after)"
proof -
  have ok1: "loops_ok h1 (Loop L [S] # after)" by (rule peel_tail_trips [OF p wf ok])
  have e: "unat (loop_end h L) < 2 ^ 31" using ok by (simp add: loops_ok_Loop loop_ok_def)
  have "unat (loop_stride h L * k) = unat (loop_stride h L) * unat k" using o by (simp add: unat_word_ariths)
  then have "unat (loop_stride h L) dvd unat (loop_stride h L * k)" by simp
  then have "loop_end h1 L mod (loop_stride h L * k) = 0" using peel_tail_end [OF p wf q _ e] by blast
  then have "loop_ok h' L" using ok1 loops_ok_append [of h1 "[Loop L [S]]" after] q(1)
    by (simp add: loops_ok_Loop loop_ok_def whole_trips_def h') (simp add: setStride_def loop_end_def loop_stride_def)
  moreover have "fits_body h h1 [Loop L [S]] (Loop L [S] # after)" using peel_tail_facts [OF p wf] by blast
  then have W: "wf_body h1 after" "L \<notin> set (body_loops after)"
    using wf_body_Cons [of h1 "Loop L [S]" after] by (auto simp: fits_body_def simp del: set_concat)
  have "loops_ok h1 after" using ok1 loops_ok_append [of h1 "[Loop L [S]]" after] by simp
  then have "loops_ok h' after" unfolding h' by (rule loops_ok_keeps [OF setStride_keeps W])
  ultimately show ?thesis using loops_ok_append [of h' "[Loop L ss]" after] ss by (simp add: loops_ok_Loop) (simp add: loops_ok_def)
qed

interpretation vector_trips: trip_rewriting "vector_store w" vector_pre for w
proof (unfold_locales, goal_cases)
  case (1 h vs enc L body t new h')
  obtain a "is" x acc after h1 S' where b: "body = [StoreStmt (GEPExpr a is) x acc]" and w: "1 < w" and s: "loop_stride h L = 1"
    and e: "w \<le> loop_end h L" and p: "peel_tail (loop_end h L mod w) h vs enc L body = Inr (t, after, h1)"
    and V: "vectorizeStore h1 L w (StoreStmt (GEPExpr a is) x acc) = Inr S'" and new: "new = Loop L [S'] # after" and h': "h' = setStride h1 L w"
    using 1(1) by (rule vector_store_elim)
  have ss: "body_loops [S'] = []" using V by (auto simp: new_StoreStmt_arg_def new_GEPExpr_def)
  have W: "loop_stride h L * w = w" by (simp add: s)
  have p': "peel_tail (loop_end h L mod (loop_stride h L * w)) h vs enc L [StoreStmt (GEPExpr a is) x acc] = Inr (t, after, h1)"
    and h'': "h' = setStride h1 L (loop_stride h L * w)" using p b h' by (simp_all only: W)
  have q: "loop_stride h L * w \<noteq> 0" "loop_stride h L * w \<le> loop_end h L" unfolding W using w e by auto
  have o: "unat (loop_stride h L) * unat w < 2 ^ 32" using unat_u32_bound [of w] by (simp add: s)
  show ?case unfolding new by (rule stepped_trips [OF p' 1(2) [unfolded b] 1(3) [unfolded b] q o ss h''])
next
  case (2 M h L)
  then show ?case by (simp add: vector_pre_def loop_ok_def)
qed

text \<open>Widening by a factor whose step fits 32 bits.\<close>

definition widen_fitting :: "u32 \<Rightarrow> (loop_ptr option) loop_rewrite_fun" where
  "widen_fitting k h vs enc L body =
     (if unat (loop_stride h L) * unat k < 2 ^ 32 then widen_store k h vs enc L body else Inr None)"

interpretation widen_trips: trip_rewriting "widen_fitting k" vector_pre for k
proof (unfold_locales, goal_cases)
  case (1 h vs enc L body t new h')
  then show ?case by (auto simp: widen_fitting_def split: if_splits dest: widen_all(1))
next
  case (2 h vs enc L body t new h')
  then show ?case by (auto simp: widen_fitting_def split: if_splits dest: widen_all(2))
next
  case (3 h vs enc L body t new h' M)
  then show ?case using widen_all(3) [of k h vs enc L body t new h' M]
    by (simp add: widen_fitting_def widen_pre_def vector_pre_def split: if_splits)
next
  case (4 h vs enc L body t new h')
  then have o: "unat (loop_stride h L) * unat k < 2 ^ 32" and w: "widen_store k h vs enc L body = Inr (Some (t, new, h'))"
    by (simp_all add: widen_fitting_def split: if_splits)
  obtain g x acc after h1 ss where b: "body = [StoreStmt g x acc]" and k: "1 < k"
    and q: "loop_stride h L * k \<noteq> 0" "loop_stride h L * k \<le> loop_end h L"
    and p: "peel_tail (loop_end h L mod (loop_stride h L * k)) h vs enc L body = Inr (t, after, h1)"
    and c: "widen_copies h1 vs (L # enc) L (loop_stride h L) k (StoreStmt g x acc) = Inr ss"
    and new: "new = Loop L ss # after" and h': "h' = setStride h1 L (loop_stride h L * k)"
    using w by (rule widen_store_elim)
  have "wf_body h1 [Loop L body]"
    using peel_tail_facts [OF p 4(2)] wf_body_Cons [of h1 "Loop L body" after] by (auto simp: fits_body_def simp del: set_concat free_loops.simps)
  then have "body_loops ss = []" using copies_shape(2) [OF c _ _ k] b by (auto simp: wf_body_Loop)
  then show ?case unfolding new by (rule stepped_trips [OF p [unfolded b] 4(2) [unfolded b] 4(3) [unfolded b] q o _ h'])
next
  case (5 M h L)
  then show ?case by (simp add: vector_pre_def loop_ok_def)
qed

section \<open>Schedules\<close>

inductive schedule :: "heap \<times> program \<Rightarrow> heap \<times> program \<Rightarrow> bool" where
  by_step: "opt_step hp hp' \<Longrightarrow> schedule hp hp'"
| by_vectorize: "vectorize h p L w = Inr (Some (t, p', h')) \<Longrightarrow> find_loop [] L (pr_body p) = Some (enc, [StoreStmt (GEPExpr a is) x acc]) \<Longrightarrow>
    1 < w \<Longrightarrow> unit_access L is \<Longrightarrow> vec_value L a is x \<Longrightarrow> schedule (h, p) (h', p')"
| by_widen: "widen h p L k = Inr (Some (t, p', h')) \<Longrightarrow> find_loop [] L (pr_body p) = Some (enc, [StoreStmt g x acc]) \<Longrightarrow>
    dependsOnLoop (visit_stmt (StoreStmt g x acc)) L \<Longrightarrow> unat (loop_stride h L) * unat k < 2 ^ 32 \<Longrightarrow> schedule (h, p) (h', p')"

lemma schedule_keeps:
  "schedule hp hp' \<Longrightarrow> opt_inv hp \<Longrightarrow> m_guard M = range_guard \<Longrightarrow>
     opt_inv hp' \<and> run_program M (fst hp') (snd hp') st = run_program M (fst hp) (snd hp) st"
proof (induction rule: schedule.induct)
  case (by_step hp hp')
  then show ?case using opt_step_inv opt_step_runs by blast
next
  case (by_vectorize h p L w t p' h' enc a "is" x acc)
  then have "on_loop (vector_store w) h p L = Inr (Some (t, p', h'))"
    by (simp add: vectorize_def on_loop_def vector_store_def)
  from vector_trips.program_step [OF this] by_vectorize show ?case by (simp add: opt_inv_def)
next
  case (by_widen h p L k t p' h' enc g x acc)
  then have "on_loop (widen_fitting k) h p L = Inr (Some (t, p', h'))"
    by (simp add: widen_def on_loop_def widen_fitting_def widen_store_def)
  from widen_trips.program_step [OF this] by_widen show ?case by (simp add: opt_inv_def)
qed

lemma schedules_keep:
  assumes "schedule\<^sup>*\<^sup>* hp hp'" "opt_inv hp" "m_guard M = range_guard"
  shows "opt_inv hp' \<and> run_program M (fst hp') (snd hp') st = run_program M (fst hp) (snd hp) st"
  using assms(1,2)
proof (induction rule: rtranclp_induct)
  case (step y z)
  then show ?case using schedule_keeps [OF step.hyps(2) _ assms(3), of st] by simp
qed simp

end
