(* ===== verification/TileChecks.thy ===== *)
theory TileChecks
  imports SimplifyCorrect Interchange
begin

text \<open>
  A range check that \<open>tile\<close> inserts and \<open>simplify\<close> removes although it is needed, for every
  one-dimensional array whose size leaves \<open>bs - 1\<close> elements to the last block.
\<close>

section \<open>The sizes\<close>

definition one_short :: "u32 \<Rightarrow> u32 \<Rightarrow> bool" where
  "one_short n bs \<longleftrightarrow> 1 < bs \<and> bs < n \<and> n mod bs = bs - 1 \<and> unat n < 2 ^ 31"

lemma one_short_nat:
  assumes "one_short n bs"
  shows "2 \<le> unat bs" "unat n = unat (n div bs) * unat bs + (unat bs - 1)" "0 < unat (n div bs)"
    "unat (n div bs + 1) = Suc (unat (n div bs))" "unat (bs - 1) = unat bs - 1" "n mod bs \<noteq> 0" "unat n < 2 ^ 31"
    "unat bs < unat n" "unat (n div bs) < unat n"
proof -
  have a: "1 < bs" "bs < n" "n mod bs = bs - 1" "unat n < 2 ^ 31" using assms by (simp_all add: one_short_def)
  show b: "2 \<le> unat bs" using a(1) by (simp add: word_less_nat_alt)
  show m: "unat (bs - 1) = unat bs - 1" using a(1) by (intro unat_minus_one) auto
  show "unat n < 2 ^ 31" by (rule a)
  show lt: "unat bs < unat n" using a(2) by (simp add: word_less_nat_alt)
  have "unat n mod unat bs = unat bs - 1" using a(3) m by (metis unat_mod)
  then show n: "unat n = unat (n div bs) * unat bs + (unat bs - 1)"
    by (metis div_mult_mod_eq unat_div)
  show k: "0 < unat (n div bs)" using n lt b by (cases "unat (n div bs)") auto
  have "unat (n div bs) * 2 \<le> unat (n div bs) * unat bs" using b by (rule mult_le_mono2)
  with n k show kn: "unat (n div bs) < unat n" by linarith
  then have "unat (n div bs) + 1 < 2 ^ 32" using a(4) by simp
  then show "unat (n div bs + 1) = Suc (unat (n div bs))" by (simp add: unat_word_ariths)
  show "n mod bs \<noteq> 0" using a(3) m b by auto
qed

section \<open>What tile makes\<close>

definition fill_loop :: "loop_ptr \<Rightarrow> arg_ptr \<Rightarrow> f32 \<Rightarrow> stmt" where
  "fill_loop L a c = Loop L [StoreStmt (GEPExpr a [new_IndexExpr L]) (ConstantFPExpr c) False]"

definition blocks_of :: "loop_ptr \<Rightarrow> loop_ptr \<Rightarrow> stmt list \<Rightarrow> stmt" where
  "blocks_of L NL body = Loop L [Loop NL body]"

definition block_store :: "loop_ptr \<Rightarrow> loop_ptr \<Rightarrow> u32 \<Rightarrow> arg_ptr \<Rightarrow> f32 \<Rightarrow> stmt" where
  "block_store L NL bs a c = StoreStmt (GEPExpr a [tile_index NL L bs]) (ConstantFPExpr c) False"

lemma fill_tiled:
  assumes "L < hp_next h" "loop_end h L = n" "loop_stride h L = 1" "one_short n bs" "pr_body p = [fill_loop L a c]"
  shows "tile h p L bs = Inr (Some (hp_next h, p\<lparr>pr_body := [blocks_of L (hp_next h)
      [IfRange (tile_index (hp_next h) L bs) 0 (int (unat n)) [block_store L (hp_next h) bs a c]]]\<rparr>, tile_heap h bs L))"
proof -
  note N = one_short_nat [OF assms(4)]
  have n: "\<not> n \<le> bs" "bs \<noteq> 0" "int_of_u32 n = int (unat n)"
    using N(1,8) int_of_u32_small [OF N(7)] by (auto simp: word_le_nat_alt)
  have "bs mod 1 = 0" by (metis mod_by_1)
  moreover have "loop_end (snd (new_loop h nm e s)) L = n" for nm e s
    using assms(1,2) by (simp add: new_loop_def loop_end_def)
  ultimately show ?thesis using assms n N(6)
    by (simp add: tile_def on_loop_def fill_loop_def tile_loop_def mod_u32_def tile_heap_def tile_index_def block_store_def
        blocks_of_def new_BinaryExpr_def new_IndexExpr_def new_loop_def Let_def replace_loop_def bind_require)
qed

section \<open>What simplify makes of it\<close>

lemma index_range:
  "0 \<le> int_of_u32 (loop_end h L - loop_stride h L) \<Longrightarrow>
     computeKnownIntegerRange h None (new_IndexExpr L) = Inr (Some (0, int_of_u32 (loop_end h L - loop_stride h L)))"
  by (simp add: new_IndexExpr_def)

lemma block_size_int: "unat bs < 2 ^ 31 \<Longrightarrow> int_of_i64 (i64_of_u32 bs) = int (unat bs)"
proof -
  assume "unat bs < 2 ^ 31"
  moreover have "ucast (ucast bs :: i64) = bs"
    by (rule bit_word_eqI) (auto simp: bit_ucast_iff)
  ultimately show ?thesis using int_of_u32_small [of bs] by (simp add: int_of_i64_def i64_of_u32_def int_of_u32_def)
qed

lemma corners_up:
  "0 \<le> b \<Longrightarrow> 0 \<le> k \<Longrightarrow> in_int (k * b) \<Longrightarrow> corners (*) (0, k) (b, b) = Inr (0, k * b)"
  "0 \<le> x \<Longrightarrow> 0 \<le> y \<Longrightarrow> in_int (x + y) \<Longrightarrow> corners (+) (0, x) (0, y) = Inr (0, x + y)"
  by (auto simp: corners_def chk_int_def in_int_def Let_def)

lemma block_index_range:
  assumes "one_short n bs" "loop_end h L = n div bs + 1" "loop_stride h L = 1" "loop_end h NL = bs" "loop_stride h NL = 1"
  shows "computeKnownIntegerRange h None (tile_index NL L bs) = Inr (Some (0, int (unat n)))"
proof -
  note N = one_short_nat [OF assms(1)]
  let ?k = "int (unat (n div bs))" and ?b = "int (unat bs)"
  have n: "int (unat n) = (?b - 1) + ?k * ?b" using N(1,2) by (simp del: of_nat_unat flip: of_nat_mult)
  have lt: "unat bs < 2 ^ 31" "unat (n div bs) < 2 ^ 31" "unat (bs - 1) < 2 ^ 31" using N(5,7,8,9) by auto
  have "0 \<le> m \<Longrightarrow> int (unat n) = ?b - 1 + m \<Longrightarrow> in_int m \<and> in_int (?b - 1 + m)" for m
    using N(1,7) by (simp add: in_int_def del: of_nat_unat)
  from this [OF _ n] have i: "in_int (?k * ?b)" "in_int (?b - 1 + ?k * ?b)" by simp_all
  have "computeKnownIntegerRange h None (new_IndexExpr L) = Inr (Some (0, ?k))"
    using assms(2,3) int_of_u32_small [OF lt(2)] by (simp add: index_range del: of_nat_unat)
  moreover have "computeKnownIntegerRange h None (new_IndexExpr NL) = Inr (Some (0, ?b - 1))"
    using assms(4,5) int_of_u32_small [OF lt(3)] N(1,5) by (simp add: index_range of_nat_diff del: of_nat_unat)
  ultimately show ?thesis
    using i n block_size_int [OF lt(1)] N(1) corners_up(1) [OF _ _ i(1)] corners_up(2) [OF _ _ i(2)]
    by (simp add: tile_index_def del: of_nat_unat)
qed

lemma block_index_fixed:
  "2 \<le> unat bs \<Longrightarrow> simplifyExpr H (tile_index NL L bs) = Inr (tile_index NL L bs, False)"
  "simp_loads H (tile_index NL L bs) = Inr (tile_index NL L bs, False)"
proof -
  assume b: "2 \<le> unat bs"
  have "i64_of_u32 bs \<noteq> 0" "i64_of_u32 bs \<noteq> 1" using b unat_i64_of_u32 [of bs] by auto
  then show "simplifyExpr H (tile_index NL L bs) = Inr (tile_index NL L bs, False)"
    by (simp add: tile_index_def new_IndexExpr_def simplify_bin_def)
next
  show "simp_loads H (tile_index NL L bs) = Inr (tile_index NL L bs, False)"
    by (simp add: tile_index_def new_IndexExpr_def)
qed

lemma block_store_fixed:
  "2 \<le> unat bs \<Longrightarrow> simp_stmt H (block_store L NL bs a c) = Inr (block_store L NL bs a c, False)"
  by (simp add: block_store_def block_index_fixed process_all_def join_changes_def)

lemma block_store_flat:
  "loop_list (block_store L NL bs a c) = []" "simplifyIfs_stmt h (block_store L NL bs a c) = Inr ([block_store L NL bs a c], False)"
  "find_loop_in enc K (block_store L NL bs a c) = None" "replace_in K new (block_store L NL bs a c) = [block_store L NL bs a c]"
  by (simp_all add: block_store_def)

lemma blocks_simplified:
  assumes "one_short n bs" "loop_end h L = n div bs + 1" "loop_stride h L = 1" "loop_end h NL = bs" "loop_stride h NL = 1" "NL \<noteq> L"
    and "pr_body p = [blocks_of L NL [IfRange (tile_index NL L bs) 0 (int (unat n)) [block_store L NL bs a c]]]"
  shows "simplify H h p = Some (Inr (p\<lparr>pr_body := [blocks_of L NL [block_store L NL bs a c]]\<rparr>, True))"
proof -
  let ?q = "p\<lparr>pr_body := [blocks_of L NL [block_store L NL bs a c]]\<rparr>"
  note N = one_short_nat [OF assms(1)]
  have e: "loop_end h L \<noteq> loop_stride h L" "loop_end h NL \<noteq> loop_stride h NL" using assms N(1,3,4) by auto
  note runs = simplify_once_def blocks_of_def simp_stmts_def block_store_fixed [OF N(1)] block_index_fixed(1) [OF N(1)]
    block_index_fixed(2) removeEmptyLoops_def on_loop_def empty_loop_def removeTrip1Loops_def trip1_loop_def e assms(6) assms(6) [symmetric] block_store_flat
    simplifyIfs_def block_index_range [OF assms(1-5)] getRangeRelation_def join_changes_def
  have p: "p = p\<lparr>pr_body := pr_body p\<rparr>" by simp
  have "simplify_once H h p = Inr (?q, True)"
    unfolding assms(7) [symmetric] by (subst p, subst assms(7)) (simp add: runs)
  moreover have "simplify_once H h ?q = Inr (?q, False)" by (simp add: runs)
  ultimately show ?thesis by (subst simplify.simps, simp, subst simplify.simps, simp)
qed

section \<open>The runs\<close>

definition put :: "arg_ptr \<Rightarrow> f32 \<Rightarrow> i64 \<Rightarrow> state \<Rightarrow> state" where
  "put a c x st = st\<lparr>st_mem := (st_mem st)(a := (st_mem st a)(x := canon c))\<rparr>"

lemma put_mem: "st_mem (put a c x st) a y = (if y = x then canon c else st_mem st a y)"
  by (simp add: put_def)

lemma store_puts:
  assumes "ty_sizes (arg_type (hp_arg h a)) = [n]" "index_value M h \<rho> e x"
  shows "exec M h \<rho> (StoreStmt (GEPExpr a [e]) (ConstantFPExpr c) False) = (\<lambda>st. Some (put a c x st))"
  using assms by (intro ext) (simp add: index_value_def put_def store_lanes_def Let_def)

lemma fold_total: "fold_opt (\<lambda>i st. Some (f i st)) xs st = Some (fold f xs st)"
  by (induction xs arbitrary: st) auto

lemma fold_puts_other: "y \<notin> g ` set xs \<Longrightarrow> st_mem (fold (\<lambda>i. put a c (g i)) xs st) a y = st_mem st a y"
  by (induction xs arbitrary: st) (auto simp: put_mem)

lemma fill_runs:
  assumes "loop_end h L = n" "loop_stride h L = 1" "ty_sizes (arg_type (hp_arg h a)) = [n]"
  shows "\<exists>st'. exec M h \<rho> (fill_loop L a c) st = Some st' \<and> st_mem st' a (i64_of_u32 n) = st_mem st a (i64_of_u32 n)"
proof -
  have "index_value M h (\<rho>(L := x)) (new_IndexExpr L) x" for x by (simp add: index_value_def new_IndexExpr_def)
  note store = store_puts [OF assms(3) this, where c = c]
  have "exec M h \<rho> (fill_loop L a c) st = Some (fold (\<lambda>i. put a c (of_nat i)) [0..<unat n] st)"
    using assms(1,2) by (simp add: fill_loop_def store fold_total fold_opt_one count_up_one del: exec.simps(4) fold_opt.simps(2))
  moreover have "i64_of_u32 n \<notin> of_nat ` set [0..<unat n]"
  proof
    assume "i64_of_u32 n \<in> of_nat ` set [0..<unat n]"
    then obtain i where i: "i < unat n" "i64_of_u32 n = of_nat i" by auto
    from i(1) have "i < 2 ^ 64" using unat_u32_bound [of n] by simp
    then have "unat (of_nat i :: i64) = i" by (simp add: unat_of_nat)
    with i unat_i64_of_u32 [of n] show False by simp
  qed
  ultimately show ?thesis using fold_puts_other by blast
qed

lemma blocks_run:
  assumes "one_short n bs" "loop_end h L = n div bs + 1" "loop_stride h L = 1" "loop_end h NL = bs" "loop_stride h NL = 1" "NL \<noteq> L"
    and "ty_sizes (arg_type (hp_arg h a)) = [n]"
  shows "\<exists>st'. exec M h \<rho> (blocks_of L NL [block_store L NL bs a c]) st = Some st' \<and> st_mem st' a (i64_of_u32 n) = canon c"
proof -
  note N = one_short_nat [OF assms(1)]
  let ?k = "unat (n div bs)" and ?b = "unat bs"
  let ?row = "\<lambda>i. fold (\<lambda>j. put a c (of_nat (j + i * ?b)))"
  note store = store_puts [OF assms(7) tile_index_value [OF assms(6)], where c = c]
  have "exec M h \<rho> (blocks_of L NL [block_store L NL bs a c]) st = Some (fold (\<lambda>i. ?row i [0..<?b]) [0..<Suc ?k] st)"
    using assms(2-5) N(4) unfolding blocks_of_def block_store_def
    by (simp add: store fold_total fold_opt_one count_up_one del: exec.simps(4) fold_opt.simps(2) upt_Suc)
  moreover have "[0..<?b] = [0..<?b - 1] @ [?b - 1]" using N(1) upt_Suc_append [of 0 "?b - 1"] by simp
  moreover have "of_nat (?b - 1 + ?k * ?b) = i64_of_u32 n"
  proof -
    have "of_nat (unat (i64_of_u32 n)) = i64_of_u32 n" by simp
    then show ?thesis using N(2) unat_i64_of_u32 [of n] by (simp only: add.commute)
  qed
  ultimately show ?thesis by (simp add: put_mem del: of_nat_add of_nat_mult)
qed

text \<open>All of it: the tiled program still runs like the loop, the simplified one writes behind the array.\<close>

lemma needed_check_removed:
  assumes "L < hp_next h" "loop_end h L = n" "loop_stride h L = 1" "one_short n bs" "pr_body p = [fill_loop L a c]"
    and "a < hp_next h" "ty_sizes (arg_type (hp_arg h a)) = [n]" "m_guard M = range_guard"
  shows "\<exists>NL p1 h1 p2 st1 st2. tile h p L bs = Inr (Some (NL, p1, h1)) \<and> simplify H h1 p1 = Some (Inr (p2, True))
    \<and> run_program M h p st = Some st1 \<and> run_program M h1 p1 st = Some st1 \<and> run_program M h1 p2 st = Some st2
    \<and> st_mem st1 a (i64_of_u32 n) = st_mem st a (i64_of_u32 n) \<and> st_mem st2 a (i64_of_u32 n) = canon c"
proof -
  note N = one_short_nat [OF assms(4)]
  let ?NL = "hp_next h" and ?h = "tile_heap h bs L"
  let ?body = "\<lambda>ss. p\<lparr>pr_body := [blocks_of L ?NL ss]\<rparr>"
  let ?p1 = "?body [IfRange (tile_index ?NL L bs) 0 (int (unat n)) [block_store L ?NL bs a c]]" and ?p2 = "?body [block_store L ?NL bs a c]"
  have t: "tile h p L bs = Inr (Some (?NL, ?p1, ?h))" by (rule fill_tiled [OF assms(1-5)])
  have ends: "loop_end ?h L = n div bs + 1" "loop_stride ?h L = 1" "loop_end ?h ?NL = bs" "loop_stride ?h ?NL = 1" "?NL \<noteq> L"
    using tile_heap_facts [OF assms(1), of bs] assms(1-3) N(6) by auto
  have "wf_body h (pr_body p)" using assms(1,5,6) by (simp add: fill_loop_def wf_body_def free_of_def new_IndexExpr_def)
  with t have same: "run_program M ?h ?p1 st = run_program M h p st"
    unfolding tile_def by (intro tiling.program_runs) (use assms(2,8) N(7) in \<open>auto simp: tile_pre_def\<close>)
  have s: "simplify H ?h ?p1 = Some (Inr (?p2, True))"
    using blocks_simplified [OF assms(4) ends, of ?p1] by simp
  obtain st1 where "run_program M h p st = Some st1" "st_mem st1 a (i64_of_u32 n) = st_mem st a (i64_of_u32 n)"
    using fill_runs [OF assms(2,3,7), where M = M and \<rho> = "\<lambda>L. 0" and c = c and st = st] assms(5)
    by (auto simp: run_program_def fold_opt_one simp del: fold_opt.simps(2))
  moreover have "ty_sizes (arg_type (hp_arg ?h a)) = [n]"
    using assms(7) by (simp add: tile_heap_def new_loop_def setEnd_def setStride_def)
  then obtain st2 where "run_program M ?h ?p2 st = Some st2" "st_mem st2 a (i64_of_u32 n) = canon c"
    using blocks_run [OF assms(4) ends, where M = M and \<rho> = "\<lambda>L. 0" and a = a and c = c and st = st]
    by (auto simp: run_program_def fold_opt_one simp del: fold_opt.simps(2))
  ultimately show ?thesis using t same s by metis
qed

end
