(* ===== verification/Fusion.thy ===== *)
theory Fusion
  imports Interchange
begin

text \<open>
  \<open>lib/Transforms/Dependence.cpp\<close> and \<open>fuse\<close> of \<open>lib/Transforms/Transforms.cpp\<close>. A loop is fused
  with the statement after it in the body of its parent, so the functions take the statements of
  the parent from the loop on. The sets of accesses and variables are lists: the code only asks
  whether some element, or some pair, has a property.
\<close>

section \<open>Dependence analysis\<close>

datatype DepRelationKind = SomeDep | Equals | NoDep

definition isRefOfLoop :: "expr \<Rightarrow> loop_ptr \<Rightarrow> bool \<Rightarrow> bool" where
  "isRefOfLoop e L recursive =
     (case e of
        IndexExpr ty L' \<Rightarrow> L' = L
      | _ \<Rightarrow> if recursive then collectIndices (visit_expr e) (Some L) \<noteq> [] else False)"

definition ranges_disjoint :: "(int \<times> int) option \<Rightarrow> (int \<times> int) option \<Rightarrow> bool" where
  "ranges_disjoint r1 r2 =
     (case (r1, r2) of
        (Some range1, Some range2) \<Rightarrow> snd range1 < fst range2 \<or> snd range2 < fst range1
      | _ \<Rightarrow> False)"

fun compare_subscripts :: "heap \<Rightarrow> loop_ptr \<Rightarrow> loop_ptr \<Rightarrow> (expr \<times> expr) list \<Rightarrow> DepRelationKind res" where
  "compare_subscripts h I1 I2 [] = Inr Equals"
| "compare_subscripts h I1 I2 ((e1, e2) # es) =
     (if isRefOfLoop e1 I1 False \<and> isRefOfLoop e2 I2 False then compare_subscripts h I1 I2 es
      else
        bind_res (computeKnownIntegerRange h None e1) (\<lambda>r1.
        bind_res (computeKnownIntegerRange h None e2) (\<lambda>r2.
        if ranges_disjoint r1 r2 then compare_subscripts h I1 I2 es
        else if isRefOfLoop e1 I1 True \<or> isRefOfLoop e2 I2 True then Inr SomeDep
        else compare_subscripts h I1 I2 es)))"

definition checkWeakSIVDependenceForIndex ::
  "heap \<Rightarrow> loop_ptr \<Rightarrow> loop_ptr \<Rightarrow> arg_ptr option \<Rightarrow> arg_ptr option \<Rightarrow> expr list \<Rightarrow> expr list \<Rightarrow> DepRelationKind res"
where
  "checkWeakSIVDependenceForIndex h I1 I2 A1 A2 indices1 indices2 =
     (if A1 \<noteq> A2 then Inr NoDep
      else
        bind_res (require (length indices1 = length indices2) ''Invalid index vector'') (\<lambda>_.
        compare_subscripts h I1 I2 (zip indices1 indices2)))"

text \<open>The buffer and the subscripts of a load or a store.\<close>

fun store_gep :: "stmt \<Rightarrow> expr" where
  "store_gep (StoreStmt g x acc) = g"
| "store_gep s = ConstantExpr 0"

fun load_gep :: "expr \<Rightarrow> expr" where
  "load_gep (LoadExpr ty g) = g"
| "load_gep e = ConstantExpr 0"

definition depends :: "heap \<Rightarrow> loop_ptr \<Rightarrow> loop_ptr \<Rightarrow> expr \<Rightarrow> expr \<Rightarrow> DepRelationKind res" where
  "depends h I1 I2 W1 X2 =
     checkWeakSIVDependenceForIndex h I1 I2 (gep_dest W1) (gep_dest X2) (gep_indices W1) (gep_indices X2)"

section \<open>Fusion\<close>

definition doSetsIntersect :: "'a list \<Rightarrow> 'a list \<Rightarrow> bool" where
  "doSetsIntersect first second = list_ex (\<lambda>e. e \<in> set second) first"

text \<open>\<open>VarUsageCollector\<close> and \<open>StorageUsageCollector\<close>: what a visit reads and writes.\<close>

definition varsRead :: "event list \<Rightarrow> var_ptr list" where
  "varsRead evs = concat (map (\<lambda>e. case e of LoadLocalExpr ty v \<Rightarrow> [v] | _ \<Rightarrow> []) (exprs_entered evs))"

definition varsWrite :: "event list \<Rightarrow> var_ptr list" where
  "varsWrite evs = concat (map (\<lambda>s. case s of StoreLocalStmt v x acc \<Rightarrow> [v] | _ \<Rightarrow> []) (stmts_entered evs))"

definition argsRead :: "event list \<Rightarrow> expr list" where
  "argsRead evs = map load_gep (loads_of None (exprs_entered evs))"

definition argsWrite :: "event list \<Rightarrow> expr list" where
  "argsWrite evs = map store_gep (stores_of None (stmts_entered evs))"

definition vars_conflict :: "event list \<Rightarrow> event list \<Rightarrow> bool" where
  "vars_conflict V1 V2 \<longleftrightarrow>
     doSetsIntersect (varsWrite V1) (varsWrite V2) \<or> doSetsIntersect (varsWrite V1) (varsRead V2) \<or>
     doSetsIntersect (varsRead V1) (varsWrite V2)"

text \<open>Whether one of the pairs is dependent; the first one that is ends the search.\<close>

fun some_dep :: "heap \<Rightarrow> loop_ptr \<Rightarrow> loop_ptr \<Rightarrow> (expr \<times> expr) list \<Rightarrow> bool res" where
  "some_dep h I1 I2 [] = Inr False"
| "some_dep h I1 I2 ((x, y) # ps) =
     bind_res (depends h I1 I2 x y) (\<lambda>d. if d = SomeDep then Inr True else some_dep h I1 I2 ps)"

definition buffers_conflict :: "heap \<Rightarrow> loop_ptr \<Rightarrow> loop_ptr \<Rightarrow> event list \<Rightarrow> event list \<Rightarrow> bool res" where
  "buffers_conflict h L L2 V1 V2 =
     bind_res (some_dep h L L2 (List.product (argsWrite V1) (argsWrite V2 @ argsRead V2))) (\<lambda>a.
     if a then Inr True
     else some_dep h L2 L (List.product (argsWrite V2) (argsRead V1)))"

definition may_fuse :: "heap \<Rightarrow> loop_ptr \<Rightarrow> stmt list \<Rightarrow> loop_ptr \<Rightarrow> stmt list \<Rightarrow> bool res" where
  "may_fuse h L b1 L2 b2 =
     (let V1 = visit_stmt (Loop L b1); V2 = visit_stmt (Loop L2 b2) in
      if loop_end h L \<noteq> loop_end h L2 \<or> loop_stride h L \<noteq> loop_stride h L2 then Inr False
      else if vars_conflict V1 V2 then Inr False
      else bind_res (buffers_conflict h L L2 V1 V2) (\<lambda>c. Inr (\<not> c)))"

definition fused_body :: "loop_ptr \<Rightarrow> stmt list \<Rightarrow> loop_ptr \<Rightarrow> stmt list \<Rightarrow> stmt list" where
  "fused_body L b1 L2 b2 = b1 @ map (subst_stmt L2 (new_IndexExpr L)) b2"

text \<open>The number of statements bounds the recursion on the loops inside.\<close>

fun stmt_count :: "stmt \<Rightarrow> nat" where
  "stmt_count (Loop L body) = Suc (sum_list (map stmt_count body))"
| "stmt_count (IfRange val lo hi body) = Suc (sum_list (map stmt_count body))"
| "stmt_count s = 1"

abbreviation body_count :: "stmt list \<Rightarrow> nat" where
  "body_count ss \<equiv> sum_list (map stmt_count ss)"

lemma stmt_count_subst [simp]: "stmt_count (subst_stmt L x s) = stmt_count s"
proof (induction s)
  case (Loop L' body)
  then have "map (stmt_count \<circ> subst_stmt L x) body = map stmt_count body" by simp
  then show ?case by (simp only: subst_stmt.simps stmt_count.simps map_map)
next
  case (IfRange val lo hi body)
  then have "map (stmt_count \<circ> subst_stmt L x) body = map stmt_count body" by simp
  then show ?case by (simp only: subst_stmt.simps stmt_count.simps map_map)
qed simp_all

lemma stmt_count_pos: "0 < stmt_count s"
  by (cases s) simp_all

lemma fused_count [simp]: "body_count (fused_body L b1 L2 b2) = body_count b1 + body_count b2"
  by (simp add: fused_body_def comp_def)

text \<open>\<open>fuse_next\<close> fuses the loop at the head with the next statement; \<open>fuse_first\<close> tries the loops
  of a body from the left until one is fused.\<close>

function fuse_next :: "u32 \<Rightarrow> heap \<Rightarrow> stmt list \<Rightarrow> stmt list option res"
  and fuse_first :: "u32 \<Rightarrow> heap \<Rightarrow> stmt list \<Rightarrow> stmt list res" where
  "fuse_next levels h ss =
     (case ss of
        Loop L b1 # Loop L2 b2 # rest \<Rightarrow>
          bind_res (may_fuse h L b1 L2 b2) (\<lambda>ok.
          if \<not> ok then Inr None
          else bind_res (fuse_first (levels - 1) h (fused_body L b1 L2 b2)) (\<lambda>body.
               Inr (Some (Loop L body # rest))))
      | _ \<Rightarrow> Inr None)"
| "fuse_first levels h ss =
     (case ss of
        [] \<Rightarrow> Inr []
      | s # rest \<Rightarrow>
          bind_res (fuse_next levels h (s # rest)) (\<lambda>r.
          case r of
            Some new \<Rightarrow> Inr new
          | None \<Rightarrow> bind_res (fuse_first levels h rest) (\<lambda>rest'. Inr (s # rest'))))"
  by pat_completeness auto
termination
  by (relation "measure (case_sum (\<lambda>(levels, h, ss). 2 * body_count ss) (\<lambda>(levels, h, ss). 2 * body_count ss + 1))")
    (auto simp: stmt_count_pos)

declare fuse_next.simps [simp del] fuse_first.simps [simp del]

text \<open>An edit of the body of the parent from a loop on.\<close>

fun at_loop :: "(stmt list \<Rightarrow> stmt list option res) \<Rightarrow> loop_ptr \<Rightarrow> stmt list \<Rightarrow> stmt list option res option"
  and at_loop_in :: "(stmt list \<Rightarrow> stmt list option res) \<Rightarrow> loop_ptr \<Rightarrow> stmt \<Rightarrow> stmt option res option" where
  "at_loop f L [] = None"
| "at_loop f L (s # ss) =
     (if loop_id s = Some L then Some (f (s # ss))
      else
        (case at_loop_in f L s of
           Some r \<Rightarrow> Some (bind_res r (\<lambda>x. Inr (map_option (\<lambda>s'. s' # ss) x)))
         | None \<Rightarrow> map_option (\<lambda>r. bind_res r (\<lambda>x. Inr (map_option (\<lambda>ss'. s # ss') x))) (at_loop f L ss)))"
| "at_loop_in f L (Loop L' body) =
     map_option (\<lambda>r. bind_res r (\<lambda>x. Inr (map_option (Loop L') x))) (at_loop f L body)"
| "at_loop_in f L (IfRange val lo hi body) =
     map_option (\<lambda>r. bind_res r (\<lambda>x. Inr (map_option (IfRange val lo hi) x))) (at_loop f L body)"
| "at_loop_in f L s = None"

definition fuse :: "heap \<Rightarrow> program \<Rightarrow> loop_ptr \<Rightarrow> u32 \<Rightarrow> program option res" where
  "fuse h p L levels =
     (case at_loop (fuse_next levels h) L (pr_body p) of
        None \<Rightarrow> Inl (UB ''loop is not in the program'')
      | Some r \<Rightarrow> bind_res r (\<lambda>x. Inr (map_option (\<lambda>body. p\<lparr>pr_body := body\<rparr>) x)))"

section \<open>What fusion does to a run\<close>

text \<open>An edit that runs alike in the body of the parent runs alike in the program.\<close>

definition edit_ok :: "machine \<Rightarrow> heap \<Rightarrow> (stmt list \<Rightarrow> stmt list option res) \<Rightarrow> bool" where
  "edit_ok M h f \<longleftrightarrow>
     (\<forall>ss ss' \<rho> st. f ss = Inr (Some ss') \<longrightarrow> wf_body h ss \<longrightarrow> exec_body M h \<rho> ss' st = exec_body M h \<rho> ss st)"

lemma fold_opt_Cons: "fold_opt f (x # xs) s = Option.bind (f x s) (fold_opt f xs)"
  by simp

lemma at_loop_runs:
  "at_loop f L ss = Some (Inr (Some ss')) \<Longrightarrow> edit_ok M h f \<Longrightarrow> wf_body h ss \<Longrightarrow> exec_body M h \<rho> ss' st = exec_body M h \<rho> ss st"
  "at_loop_in f L s = Some (Inr (Some s')) \<Longrightarrow> edit_ok M h f \<Longrightarrow> wf_body h [s] \<Longrightarrow> exec M h \<rho> s' st = exec M h \<rho> s st"
proof (induction f L ss and f L s arbitrary: ss' \<rho> st and s' \<rho> st rule: at_loop_at_loop_in.induct)
  case (2 f L s ss)
  have wf: "wf_body h [s]" "wf_body h ss" using "2.prems"(3) wf_body_Cons [of h s ss] by simp_all
  consider (here) "loop_id s = Some L" "f (s # ss) = Inr (Some ss')"
    | (inside) s1 where "loop_id s \<noteq> Some L" "at_loop_in f L s = Some (Inr (Some s1))" "ss' = s1 # ss"
    | (later) ss1 where "loop_id s \<noteq> Some L" "at_loop_in f L s = None" "at_loop f L ss = Some (Inr (Some ss1))" "ss' = s # ss1"
    using "2.prems"(1) by (auto split: if_splits option.splits)
  then show ?case
  proof cases
    case here
    then show ?thesis using "2.prems"(2,3) unfolding edit_ok_def by blast
  next
    case inside
    from "2.IH"(1) [OF inside(1,2) "2.prems"(2) wf(1)] show ?thesis
      unfolding inside(3) fold_opt_Cons by (simp only:)
  next
    case later
    have "exec_body M h \<rho> ss1 = exec_body M h \<rho> ss"
      by (rule ext) (rule "2.IH"(2) [OF later(1,2,3) "2.prems"(2) wf(2)])
    then show ?thesis unfolding later(4) fold_opt_Cons by simp
  qed
next
  case (3 f L L' body)
  obtain b where b: "at_loop f L body = Some (Inr (Some b))" "s' = Loop L' b" using "3.prems"(1) by auto
  have "exec_body M h \<rho> b = exec_body M h \<rho> body" for \<rho>
    using "3.IH" [OF b(1) "3.prems"(2)] "3.prems"(3) by (intro ext) (simp add: wf_body_Loop)
  then show ?case by (simp add: b(2))
next
  case (4 f L val lo hi body)
  obtain b where b: "at_loop f L body = Some (Inr (Some b))" "s' = IfRange val lo hi b" using "4.prems"(1) by auto
  have "wf_body h body" using "4.prems"(3) by (auto simp: wf_body_def free_of_def list_all_iff)
  then have "exec_body M h \<rho> b = exec_body M h \<rho> body" for \<rho>
    using "4.IH" [OF b(1) "4.prems"(2)] by (intro ext) simp
  then show ?case unfolding b(2) exec.simps by presburger
qed simp_all

lemma may_fuse_bounds:
  "may_fuse h L b1 L2 b2 = Inr True \<Longrightarrow> loop_end h L = loop_end h L2 \<and> loop_stride h L = loop_stride h L2"
  by (auto simp: may_fuse_def Let_def split: if_splits)

lemma fused_run:
  assumes "loop_end h L = loop_end h L2" "loop_stride h L = loop_stride h L2"
    and wf: "wf_body h (Loop L b1 # Loop L2 b2 # rest)"
    and c: "\<And>i j. i \<in> set (iterations h L) \<Longrightarrow> j \<in> set (iterations h L2) \<Longrightarrow> i \<noteq> j \<Longrightarrow>
      commutes (exec_body M h (\<rho>(L := of_nat i)) b1) (exec_body M h (\<rho>(L2 := of_nat j)) b2)"
  shows "exec_body M h \<rho> (Loop L (fused_body L b1 L2 b2) # rest) st = exec_body M h \<rho> (Loop L b1 # Loop L2 b2 # rest) st"
proof -
  have W: "L \<noteq> L2" "L2 \<notin> set (body_loops b2)" "L \<notin> set (body_loops b2)" "L \<notin> free_of b2 - {L2}"
    using wf by (auto simp: wf_body_def free_of_def)
  let ?g = "\<lambda>i. exec_body M h (\<rho>(L := of_nat i)) b1" and ?k = "\<lambda>i. exec_body M h (\<rho>(L2 := of_nat i)) b2"
  let ?is = "count_up (unat (loop_stride h L)) (unat (loop_end h L)) 0"
  have b2: "exec_body M h (\<rho>(L := of_nat i)) (map (subst_stmt L2 (new_IndexExpr L)) b2) u = ?k i u" for i u
  proof -
    have "exec_body M h (\<rho>(L := of_nat i)) (map (subst_stmt L2 (new_IndexExpr L)) b2) u =
        exec_body M h (\<rho>(L := of_nat i, L2 := of_nat i)) b2 u"
      by (rule subst_exec_body) (use W in \<open>auto simp: index_value_def new_IndexExpr_def\<close>)
    also have "\<dots> = ?k i u"
    proof (rule fold_opt_cong)
      fix s u assume "s \<in> set b2"
      then show "exec M h (\<rho>(L := of_nat i, L2 := of_nat i)) s u = exec M h (\<rho>(L2 := of_nat i)) s u"
        by (intro exec_cong) (use W in \<open>auto simp: free_of_def same_bounds_def same_args_def\<close>)
    qed simp_all
    finally show ?thesis .
  qed
  have body: "exec_body M h (\<rho>(L := of_nat i)) (fused_body L b1 L2 b2) u = Option.bind (?g i u) (?k i)" for i u
    unfolding fused_body_def fold_opt_append using b2 by (metis (no_types, lifting) ext)
  then have body': "(\<lambda>i. exec_body M h (\<rho>(L := of_nat i)) (fused_body L b1 L2 b2)) = (\<lambda>i u. Option.bind (?g i u) (?k i))"
    by (intro ext)
  have "exec M h \<rho> (Loop L (fused_body L b1 L2 b2)) u = Option.bind (exec M h \<rho> (Loop L b1) u) (exec M h \<rho> (Loop L2 b2))" for u
  proof (cases "loop_stride h L = 0 \<and> 0 < loop_end h L")
    case False
    have e: "exec M h \<rho> (Loop L b1) = fold_opt ?g ?is" "exec M h \<rho> (Loop L2 b2) = fold_opt ?k ?is"
      "exec M h \<rho> (Loop L (fused_body L b1 L2 b2)) = fold_opt (\<lambda>i u. Option.bind (?g i u) (?k i)) ?is"
      by (rule ext, use False assms(1,2) body' in simp)+
    show ?thesis unfolding e by (rule fold_pairs [symmetric]) (use c assms(1,2) count_up_distinct in \<open>auto simp: iterations_def\<close>)
  qed (use assms in auto)
  then show ?thesis unfolding fold_opt_fun by (simp del: exec.simps)
qed

section \<open>Properties\<close>

text \<open>C23. Fusing a loop with the next one is legal when the two bodies commute across iterations: if
  the statements of the parent body from the loop on are rewritten to the fused loop, and running
  the first body at one iteration and the second body at a different one gives the same in both orders, then the
  statements run as before. At one and the same iteration the bodies need not commute, so the second loop may
  read what the first has written there. The checks of \<open>fuse\<close> provide the equal bounds.\<close>

theorem fuse_legal:
  assumes "fuse_next levels h (Loop L b1 # Loop L2 b2 # rest) = Inr (Some (Loop L (fused_body L b1 L2 b2) # rest))"
    and "wf_body h (Loop L b1 # Loop L2 b2 # rest)"
    and "\<And>i j. i \<in> set (iterations h L) \<Longrightarrow> j \<in> set (iterations h L2) \<Longrightarrow> i \<noteq> j \<Longrightarrow>
      commutes (exec_body M h (\<rho>(L := of_nat i)) b1) (exec_body M h (\<rho>(L2 := of_nat j)) b2)"
  shows "exec_body M h \<rho> (Loop L (fused_body L b1 L2 b2) # rest) st = exec_body M h \<rho> (Loop L b1 # Loop L2 b2 # rest) st"
proof -
  from assms(1) have "may_fuse h L b1 L2 b2 = Inr True" by (subst (asm) fuse_next.simps) (auto split: if_splits)
  then show ?thesis using may_fuse_bounds fused_run [OF _ _ assms(2,3)] by blast
qed

definition two_loops :: "stmt list \<Rightarrow> stmt list \<Rightarrow> heap \<times> program" where
  "two_loops b1 b2 =
     (\<lparr>hp_loop = (\<lambda>L. \<lparr>lp_name = (if L = 0 then ''i'' else ''j''), lp_end = 4, lp_stride = 1\<rparr>),
       hp_arg = (\<lambda>a. \<lparr>arg_name = (if a = 1 then ''A'' else ''B''), arg_type = \<lparr>ty_sizes = [4], ty_names = [''x''], ty_elem = Float32Ty\<rparr>\<rparr>),
       hp_var = (\<lambda>v. \<lparr>var_name = [], var_type = scalarTy Float32Ty\<rparr>), hp_next = 4\<rparr>,
      \<lparr>pr_name = ''f'', pr_args = [1, 3], pr_vars = [], pr_body = [Loop 0 b1, Loop 2 b2]\<rparr>)"

definition set_to_one :: "arg_ptr \<Rightarrow> loop_ptr \<Rightarrow> stmt" where
  "set_to_one a L = StoreStmt (GEPExpr a [IndexExpr (scalarTy IndexTy) L]) (ConstantFPExpr f32_one) False"

text \<open>A producer and its consumer: the second loop copies the cells that the first one sets.\<close>

definition copy_cell :: stmt where
  "copy_cell = StoreStmt (GEPExpr 3 [IndexExpr (scalarTy IndexTy) 2])
     (LoadExpr (scalarTy Float32Ty) (GEPExpr 1 [IndexExpr (scalarTy IndexTy) 2])) False"

theorem fuse_legal_witness:
  "\<forall>M \<rho> st. exec_body M (fst (two_loops [set_to_one 1 0] [copy_cell])) \<rho> [Loop 0 (fused_body 0 [set_to_one 1 0] 2 [copy_cell])] st =
     exec_body M (fst (two_loops [set_to_one 1 0] [copy_cell])) \<rho> [Loop 0 [set_to_one 1 0], Loop 2 [copy_cell]] st"
proof (intro allI)
  fix M \<rho> st
  let ?h = "fst (two_loops [set_to_one 1 0] [copy_cell])"
  show "exec_body M ?h \<rho> [Loop 0 (fused_body 0 [set_to_one 1 0] 2 [copy_cell])] st =
     exec_body M ?h \<rho> [Loop 0 [set_to_one 1 0], Loop 2 [copy_cell]] st"
  proof (rule fuse_legal)
    show "fuse_next 1 ?h [Loop 0 [set_to_one 1 0], Loop 2 [copy_cell]] =
        Inr (Some [Loop 0 (fused_body 0 [set_to_one 1 0] 2 [copy_cell])])"
      by code_simp
    show "wf_body ?h [Loop 0 [set_to_one 1 0], Loop 2 [copy_cell]]"
      by (simp add: two_loops_def set_to_one_def copy_cell_def wf_body_def free_of_def)
    fix i j assume "i \<in> set (iterations ?h 0)" "j \<in> set (iterations ?h 2)" "i \<noteq> j"
    then have "(of_nat i :: i64) \<noteq> of_nat j" using iterations_inj by blast
    then show "commutes (exec_body M ?h (\<rho>(0 := of_nat i)) [set_to_one 1 0]) (exec_body M ?h (\<rho>(2 := of_nat j)) [copy_cell])"
      by (auto simp: commutes_def set_to_one_def copy_cell_def two_loops_def store_lanes_def load_lanes_def fun_upd_twist fold_opt_one
          del: fold_opt.simps)
  qed
qed

text \<open>C34. The dependence test lets loops fuse that must not be: accesses of the same cell through
  subscripts that use neither index count as equal. The first loop adds one to \<open>A[0]\<close> in each of its
  iterations and the second copies \<open>A[0]\<close> to \<open>B\<close>; after \<open>fuse\<close> the copies see the partial sums, so
  the programs differ on every machine whose sum of two and of one ones differ.\<close>

definition sum_then_copy :: "heap \<times> program" where
  "sum_then_copy = two_loops
     [StoreStmt (GEPExpr 1 [ConstantExpr 0]) (ConstantFPExpr f32_one) True]
     [StoreStmt (GEPExpr 3 [IndexExpr (scalarTy IndexTy) 2]) (LoadExpr (scalarTy Float32Ty) (GEPExpr 1 [ConstantExpr 0])) False]"

theorem fuse_mixes_iterations:
  "\<exists>p'. fuse (fst sum_then_copy) (snd sum_then_copy) 0 1 = Inr (Some p')
     \<and> (\<forall>M st. let one = canon f32_one; plus = (\<lambda>x. m_bin M Add x one); a = st_mem st 1 0 in
          map_option (\<lambda>s. st_mem s 3 0) (run_program M (fst sum_then_copy) (snd sum_then_copy) st) = Some (plus (plus (plus (plus a))))
          \<and> map_option (\<lambda>s. st_mem s 3 0) (run_program M (fst sum_then_copy) p' st) = Some (plus a))"
proof -
  let ?h = "fst sum_then_copy"
  have "case fuse ?h (snd sum_then_copy) 0 1 of
      Inr (Some p') \<Rightarrow> pr_body p' = [Loop 0 (fused_body 0
          [StoreStmt (GEPExpr 1 [ConstantExpr 0]) (ConstantFPExpr f32_one) True] 2
          [StoreStmt (GEPExpr 3 [IndexExpr (scalarTy IndexTy) 2]) (LoadExpr (scalarTy Float32Ty) (GEPExpr 1 [ConstantExpr 0])) False])]
    | _ \<Rightarrow> False" by code_simp
  then obtain p' where p': "fuse ?h (snd sum_then_copy) 0 1 = Inr (Some p')"
    "pr_body p' = [Loop 0 (fused_body 0
          [StoreStmt (GEPExpr 1 [ConstantExpr 0]) (ConstantFPExpr f32_one) True] 2
          [StoreStmt (GEPExpr 3 [IndexExpr (scalarTy IndexTy) 2]) (LoadExpr (scalarTy Float32Ty) (GEPExpr 1 [ConstantExpr 0])) False])]"
    by (auto split: sum.splits option.splits)
  have c: "count_up (Suc 0) 4 0 = [0, 1, 2, 3]" by (simp add: count_up.simps)
  show ?thesis
    using p' by (simp add: run_program_def sum_then_copy_def two_loops_def fused_body_def new_IndexExpr_def
        loop_end_def loop_stride_def c store_lanes_def load_lanes_def Let_def fold_opt_fun del: fold_opt.simps)
qed

end
