(* ===== verification/Licm.thy ===== *)
theory Licm
  imports Transforms
begin

text \<open>
  \<open>promoteLICM\<close> and \<open>changeLayout\<close> of \<open>lib/Transforms/Transforms.cpp\<close>.

  \<open>hoistLoads\<close> collects the loads of the loop in the order of the visitor and replaces those that
  do not depend on the loop; \<open>replaceUseWith\<close> deletes the replaced node, so a load inside the
  subscript of a replaced load is used after it was freed. In the tree this is one walk in the
  visitor's order, with the program, the heap and the statements put before the loop as its state.
\<close>

section \<open>Hoisting loads\<close>

type_synonym licm_state = "heap \<times> program \<times> stmt list"

definition has_loads :: "expr \<Rightarrow> bool" where
  "has_loads e \<longleftrightarrow> loads_of None (exprs_entered (visit_expr e)) \<noteq> []"

definition hoist_load :: "licm_state \<Rightarrow> ExprType \<Rightarrow> expr \<Rightarrow> (expr \<times> licm_state) res" where
  "hoist_load st ty g =
     (case st of (h, p, saves) \<Rightarrow>
       (case gep_dest g of
          None \<Rightarrow> Inl (UB ''load without a buffer'')
        | Some a \<Rightarrow>
            (case addTempVar h p (arg_name (hp_arg h a)) ty of
               None \<Rightarrow> Inl (UB ''no free name'')
             | Some (v, h1, p1) \<Rightarrow>
                 bind_res (clone_expr h1 (pr_vars p1) empty_ctx (LoadExpr ty g)) (\<lambda>e.
                 bind_res (new_StoreLocalStmt h1 v e False) (\<lambda>save.
                 Inr (new_LoadLocalExpr h1 v, h1, p1, saves @ [save]))))))"

fun hoist_expr :: "loop_ptr \<Rightarrow> licm_state \<Rightarrow> expr \<Rightarrow> (expr \<times> licm_state) res"
  and hoist_exprs :: "loop_ptr \<Rightarrow> licm_state \<Rightarrow> expr list \<Rightarrow> (expr list \<times> licm_state) res" where
  "hoist_expr L st (LoadExpr ty g) =
     (if dependsOnLoop (visit_expr (LoadExpr ty g)) L
      then bind_res (hoist_expr L st g) (\<lambda>(g', st'). Inr (LoadExpr ty g', st'))
      else if has_loads g then Inl (UB ''use after free'')
      else hoist_load st ty g)"
| "hoist_expr L st (BinaryExpr k l r) =
     bind_res (hoist_expr L st l) (\<lambda>(l', st1). bind_res (hoist_expr L st1 r) (\<lambda>(r', st2).
     Inr (BinaryExpr k l' r', st2)))"
| "hoist_expr L st (UnaryExpr k e) = bind_res (hoist_expr L st e) (\<lambda>(e', st'). Inr (UnaryExpr k e', st'))"
| "hoist_expr L st (BroadcastExpr e vf) =
     bind_res (hoist_expr L st e) (\<lambda>(e', st'). Inr (BroadcastExpr e' vf, st'))"
| "hoist_expr L st (GEPExpr a is) = bind_res (hoist_exprs L st is) (\<lambda>(is', st'). Inr (GEPExpr a is', st'))"
| "hoist_expr L st e = Inr (e, st)"
| "hoist_exprs L st [] = Inr ([], st)"
| "hoist_exprs L st (e # es) =
     bind_res (hoist_expr L st e) (\<lambda>(e', st1). bind_res (hoist_exprs L st1 es) (\<lambda>(es', st2).
     Inr (e' # es', st2)))"

fun is_StoreStmt :: "stmt \<Rightarrow> bool" where
  "is_StoreStmt (StoreStmt gep x acc) = True"
| "is_StoreStmt s = False"

fun hoist_stores :: "loop_ptr \<Rightarrow> licm_state \<Rightarrow> stmt list \<Rightarrow> (stmt list \<times> licm_state) res" where
  "hoist_stores L st (StoreStmt gep x acc # ss) =
     bind_res (hoist_expr L st gep) (\<lambda>(gep', st1). bind_res (hoist_expr L st1 x) (\<lambda>(x', st2).
     bind_res (hoist_stores L st2 ss) (\<lambda>(ss', st3). Inr (StoreStmt gep' x' acc # ss', st3))))"
| "hoist_stores L st ss = Inr (ss, st)"

text \<open>Both directions: no access may touch a buffer that is read and written, and the body may
  hold only stores. The rewriting also returns the program with its new variables.\<close>

definition licm_ok :: "loop_ptr \<Rightarrow> stmt list \<Rightarrow> bool" where
  "licm_ok L body \<longleftrightarrow>
     (case collectLoadStores (visit_stmt (Loop L body)) None of (loads, stores) \<Rightarrow> areLoadsStoresDisjoint loads stores)
     \<and> list_all is_StoreStmt body"

definition hoistLoads_loop :: "program \<Rightarrow> program loop_rewrite_fun" where
  "hoistLoads_loop p h vs enc L body =
     (if \<not> licm_ok L body then Inr None
      else bind_res (hoist_stores L (h, p, []) body) (\<lambda>(body', h', p', saves).
           Inr (Some (p', saves @ [Loop L body'], h'))))"

text \<open>The new variables go to the program, the new body to its tree. The result of \<open>hoistLoads\<close> is
  \<open>false\<close> in any case.\<close>

definition with_vars :: "(program \<times> program \<times> heap) option \<Rightarrow> heap \<Rightarrow> program \<Rightarrow> program \<times> heap" where
  "with_vars r h p = (case r of None \<Rightarrow> (p, h) | Some (p1, p2, h') \<Rightarrow> (p1\<lparr>pr_body := pr_body p2\<rparr>, h'))"

definition hoistLoads :: "heap \<Rightarrow> program \<Rightarrow> loop_ptr \<Rightarrow> (bool \<times> program \<times> heap) res" where
  "hoistLoads h p L = bind_res (on_loop (hoistLoads_loop p) h p L) (\<lambda>r. Inr (False, with_vars r h p))"

section \<open>Sinking stores\<close>

text \<open>The state is extended by the statements put after the loop; each is put right after it.\<close>

type_synonym sink_state = "heap \<times> program \<times> stmt list \<times> stmt list"

definition sink_store ::
  "sink_state \<Rightarrow> arg_ptr \<Rightarrow> expr list \<Rightarrow> expr \<Rightarrow> bool \<Rightarrow> (stmt \<times> sink_state) res" where
  "sink_store st a indices x acc =
     (case st of (h, p, inits, flushes) \<Rightarrow>
       (case addTempVar h p (arg_name (hp_arg h a)) (getType x) of
          None \<Rightarrow> Inl (UB ''no free name'')
        | Some (v, h1, p1) \<Rightarrow>
            bind_res (getZeroExpr (getType x)) (\<lambda>z.
            bind_res (new_StoreLocalStmt h1 v z False) (\<lambda>init.
            bind_res (map_res (clone_expr h1 (pr_vars p1) empty_ctx) indices) (\<lambda>indices'.
            bind_res (new_StoreStmt_arg h1 a indices' (new_LoadLocalExpr h1 v) acc) (\<lambda>flush.
            bind_res (clone_expr h1 (pr_vars p1) empty_ctx x) (\<lambda>x'.
            bind_res (new_StoreLocalStmt h1 v x' acc) (\<lambda>save.
            Inr (save, h1, p1, inits @ [init], flush # flushes)))))))))"

fun sink_stores :: "loop_ptr \<Rightarrow> sink_state \<Rightarrow> stmt list \<Rightarrow> (bool \<times> stmt list \<times> sink_state) res" where
  "sink_stores L st (StoreStmt gep x acc # ss) =
     (if list_ex (\<lambda>i. dependsOnLoop (visit_expr i) L) (gep_indices gep) then
        bind_res (sink_stores L st ss) (\<lambda>(changed, ss', st'). Inr (changed, StoreStmt gep x acc # ss', st'))
      else
        (case gep_dest gep of
           None \<Rightarrow> Inl (UB ''store without a buffer'')
         | Some a \<Rightarrow>
             bind_res (sink_store st a (gep_indices gep) x acc) (\<lambda>(save, st1).
             bind_res (sink_stores L st1 ss) (\<lambda>(changed, ss', st'). Inr (True, save # ss', st')))))"
| "sink_stores L st ss = Inr (False, ss, st)"

definition sinkStores_loop :: "program \<Rightarrow> (bool \<times> program) loop_rewrite_fun" where
  "sinkStores_loop p h vs enc L body =
     (if \<not> licm_ok L body then Inr None
      else bind_res (sink_stores L (h, p, [], []) body) (\<lambda>(changed, body', h', p', inits, flushes).
           Inr (Some ((changed, p'), inits @ [Loop L body'] @ flushes, h'))))"

definition sinkStores :: "heap \<Rightarrow> program \<Rightarrow> loop_ptr \<Rightarrow> (bool \<times> program \<times> heap) res" where
  "sinkStores h p L =
     bind_res (on_loop (sinkStores_loop p) h p L) (\<lambda>r.
     Inr (case r of
            None \<Rightarrow> (False, p, h)
          | Some ((changed, p1), p2, h') \<Rightarrow> (changed, p1\<lparr>pr_body := pr_body p2\<rparr>, h')))"

fun promote_loops :: "bool \<Rightarrow> heap \<Rightarrow> program \<Rightarrow> loop_ptr list \<Rightarrow> (bool \<times> program \<times> heap) res" where
  "promote_loops changed h p [] = Inr (changed, p, h)"
| "promote_loops changed h p (L # Ls) =
     bind_res (hoistLoads h p L) (\<lambda>(c1, p1, h1).
     bind_res (sinkStores h1 p1 L) (\<lambda>(c2, p2, h2).
     promote_loops (changed \<or> c1 \<or> c2) h2 p2 Ls))"

definition promoteLICM :: "heap \<Rightarrow> program \<Rightarrow> (bool \<times> program \<times> heap) res" where
  "promoteLICM h p = promote_loops False h p (body_loops (pr_body p))"

section \<open>Layout\<close>

text \<open>Every element is moved to its new place; reading one twice, or outside the vector, is
  undefined.\<close>

definition swizzle :: "'a list \<Rightarrow> u32 list \<Rightarrow> 'a list res" where
  "swizzle elems shuffle =
     bind_res (require (length elems = length shuffle) ''Invalid shuffle'') (\<lambda>_.
     if list_all (\<lambda>i. unat i < length elems) shuffle \<and> distinct shuffle
     then Inr (map (\<lambda>i. elems ! unat i) shuffle)
     else Inl (UB ''moved-from or out of range element''))"

fun relayout_expr :: "arg_ptr \<Rightarrow> u32 list \<Rightarrow> expr \<Rightarrow> expr res" where
  "relayout_expr a shuffle (BinaryExpr k l r) =
     bind_res (relayout_expr a shuffle l) (\<lambda>l'. bind_res (relayout_expr a shuffle r) (\<lambda>r'. Inr (BinaryExpr k l' r')))"
| "relayout_expr a shuffle (UnaryExpr k e) = bind_res (relayout_expr a shuffle e) (\<lambda>e'. Inr (UnaryExpr k e'))"
| "relayout_expr a shuffle (BroadcastExpr e vf) =
     bind_res (relayout_expr a shuffle e) (\<lambda>e'. Inr (BroadcastExpr e' vf))"
| "relayout_expr a shuffle (GEPExpr b is) =
     bind_res (map_res (relayout_expr a shuffle) is) (\<lambda>is'. Inr (GEPExpr b is'))"
| "relayout_expr a shuffle (LoadExpr ty g) =
     bind_res (relayout_expr a shuffle g) (\<lambda>g'.
     (case g' of
        GEPExpr b is \<Rightarrow>
          if b = a then bind_res (swizzle is shuffle) (\<lambda>is'. Inr (LoadExpr ty (GEPExpr b is'))) else Inr (LoadExpr ty g')
      | _ \<Rightarrow> Inr (LoadExpr ty g')))"
| "relayout_expr a shuffle e = Inr e"

fun relayout_stmt :: "arg_ptr \<Rightarrow> u32 list \<Rightarrow> stmt \<Rightarrow> stmt res" where
  "relayout_stmt a shuffle (Loop L body) = bind_res (map_res (relayout_stmt a shuffle) body) (\<lambda>b. Inr (Loop L b))"
| "relayout_stmt a shuffle (IfRange val lo hi body) =
     bind_res (relayout_expr a shuffle val) (\<lambda>val'.
     bind_res (map_res (relayout_stmt a shuffle) body) (\<lambda>b. Inr (IfRange val' lo hi b)))"
| "relayout_stmt a shuffle (CallStmt name params) =
     bind_res (map_res (relayout_expr a shuffle) params) (\<lambda>ps. Inr (CallStmt name ps))"
| "relayout_stmt a shuffle (StoreStmt gep x acc) =
     bind_res (relayout_expr a shuffle gep) (\<lambda>gep'.
     bind_res (relayout_expr a shuffle x) (\<lambda>x'.
     (case gep' of
        GEPExpr b is \<Rightarrow>
          if b = a then bind_res (swizzle is shuffle) (\<lambda>is'. Inr (StoreStmt (GEPExpr b is') x' acc))
          else Inr (StoreStmt gep' x' acc)
      | _ \<Rightarrow> Inr (StoreStmt gep' x' acc))))"
| "relayout_stmt a shuffle (StoreLocalStmt v x acc) =
     bind_res (relayout_expr a shuffle x) (\<lambda>x'. Inr (StoreLocalStmt v x' acc))"

definition changeLayout :: "heap \<Rightarrow> program \<Rightarrow> u32 \<Rightarrow> u32 list \<Rightarrow> (program \<times> heap) res" where
  "changeLayout h p argIndex shuffle =
     bind_res (require (unat argIndex < length (pr_args p)) ''Invalid arg index'') (\<lambda>_.
     let a = pr_args p ! unat argIndex; oldTy = arg_type (hp_arg h a) in
     bind_res (swizzle (ty_names oldTy) shuffle) (\<lambda>names.
     bind_res (swizzle (ty_sizes oldTy) shuffle) (\<lambda>dims.
     bind_res (mkType (ty_elem oldTy) dims names) (\<lambda>newTy.
     bind_res (map_res (relayout_stmt a shuffle) (pr_body p)) (\<lambda>body.
     Inr (p\<lparr>pr_body := body\<rparr>, h\<lparr>hp_arg := (hp_arg h)(a := (hp_arg h a)\<lparr>arg_type := newTy\<rparr>)\<rparr>))))))"

section \<open>Changing a layout back\<close>

text \<open>\<open>unsh\<close> undoes \<open>shuffle\<close>.\<close>

definition inverse_shuffle :: "u32 list \<Rightarrow> u32 list \<Rightarrow> bool" where
  "inverse_shuffle shuffle unsh \<longleftrightarrow>
     length unsh = length shuffle \<and> distinct unsh
     \<and> list_all (\<lambda>k. unat (unsh ! k) < length shuffle \<and> unat (shuffle ! unat (unsh ! k)) = k) [0..<length unsh]"

lemma swizzle_Inr:
  "swizzle xs shuffle = Inr ys \<longleftrightarrow>
     length xs = length shuffle \<and> (\<forall>i \<in> set shuffle. unat i < length xs) \<and> distinct shuffle
     \<and> ys = map (\<lambda>i. xs ! unat i) shuffle"
  by (auto simp: swizzle_def list_all_iff)

lemma swizzle_back:
  assumes "swizzle xs shuffle = Inr ys" "inverse_shuffle shuffle unsh"
  shows "swizzle ys unsh = Inr xs"
proof -
  have l: "length xs = length unsh" "length ys = length unsh" "length shuffle = length unsh"
    using assms by (simp_all add: swizzle_Inr inverse_shuffle_def)
  have b: "unat (unsh ! k) < length unsh \<and> unat (shuffle ! unat (unsh ! k)) = k" if "k < length unsh" for k
    using assms(2) that by (auto simp: inverse_shuffle_def list_all_iff)
  have "xs = map (\<lambda>i. ys ! unat i) unsh"
  proof (rule nth_equalityI)
    fix k assume k: "k < length xs"
    then have "ys ! unat (unsh ! k) = xs ! unat (shuffle ! unat (unsh ! k))"
      using assms(1) b [of k] l by (simp add: swizzle_Inr)
    then show "xs ! k = map (\<lambda>i. ys ! unat i) unsh ! k" using b [of k] k l by simp
  qed (simp add: l)
  then show ?thesis
    using b l assms(2) by (auto simp: swizzle_Inr inverse_shuffle_def in_set_conv_nth)
qed

lemma swizzle_map:
  assumes "swizzle xs shuffle = Inr ys" "length zs = length xs" "\<And>i. i < length xs \<Longrightarrow> f (xs ! i) = Inr (zs ! i)"
  shows "\<exists>ws. swizzle zs shuffle = Inr ws \<and> map_res f ys = Inr ws"
proof -
  have m: "map_res f (map (\<lambda>i. xs ! unat i) sh) = Inr (map (\<lambda>i. zs ! unat i) sh)" if "\<forall>i \<in> set sh. unat i < length xs" for sh
    using that by (induction sh) (simp_all add: assms(3))
  then have "map_res f (map (\<lambda>i. xs ! unat i) shuffle) = Inr (map (\<lambda>i. zs ! unat i) shuffle)"
    using assms(1) m [of shuffle] unfolding swizzle_Inr by blast
  then show ?thesis using assms(1,2) by (auto simp: swizzle_Inr)
qed

lemma map_res_back:
  assumes "map_res f xs = Inr ys" "\<And>x y. x \<in> set xs \<Longrightarrow> f x = Inr y \<Longrightarrow> g y = Inr x"
  shows "map_res g ys = Inr xs"
  using assms by (induction xs arbitrary: ys) auto

text \<open>A subscript of the buffer, permuted there and back.\<close>

lemma subscript_back:
  assumes m: "map_res f is = Inr js" and s: "swizzle is shuffle = Inr ys" and u: "inverse_shuffle shuffle unsh"
  shows "\<exists>ws. map_res f ys = Inr ws \<and> swizzle ws unsh = Inr js"
proof -
  have "f (is ! i) = Inr (js ! i)" if "i < length is" for i using map_res_nth [OF m that] .
  from swizzle_map [OF s _ this] map_res_length [OF m]
  obtain ws where "swizzle js shuffle = Inr ws" "map_res f ys = Inr ws" by auto
  then show ?thesis using swizzle_back [OF _ u] by blast
qed

lemma relayout_GEP: "relayout_expr a shuffle g = Inr g' \<Longrightarrow> is_GEP g' = is_GEP g"
proof (cases g)
  case (LoadExpr ty k)
  moreover assume "relayout_expr a shuffle g = Inr g'"
  ultimately obtain k' where "(case k' of GEPExpr b is \<Rightarrow>
        if b = a then bind_res (swizzle is shuffle) (\<lambda>is'. Inr (LoadExpr ty (GEPExpr b is'))) else Inr (LoadExpr ty k')
      | _ \<Rightarrow> Inr (LoadExpr ty k')) = Inr g'" by auto
  then show ?thesis using LoadExpr by (cases k') (auto split: if_splits)
qed auto

lemma relayout_expr_back:
  "relayout_expr a shuffle e = Inr e' \<Longrightarrow> inverse_shuffle shuffle unsh \<Longrightarrow> relayout_expr a unsh e' = Inr e"
proof (induction e arbitrary: e')
  case (GEPExpr b "is")
  then obtain js where js: "map_res (relayout_expr a shuffle) is = Inr js" "e' = GEPExpr b js" by auto
  have "map_res (relayout_expr a unsh) js = Inr is" using map_res_back [OF js(1)] GEPExpr.IH GEPExpr.prems(2) by blast
  then show ?case by (simp add: js)
next
  case (LoadExpr ty g)
  then obtain g' where g: "relayout_expr a shuffle g = Inr g'" by auto
  show ?case
  proof (cases "is_GEP g'")
    case False
    then have "e' = LoadExpr ty g'" "\<not> is_GEP g" using LoadExpr.prems(1) g relayout_GEP [OF g] by (cases g'; simp)+
    then show ?thesis using LoadExpr.IH [OF g LoadExpr.prems(2)] by (cases g) simp_all
  next
    case True
    then obtain b js "is" where gj: "g = GEPExpr b js" "g' = GEPExpr b is" "map_res (relayout_expr a shuffle) js = Inr is"
      using g relayout_GEP [OF g] by (cases g) auto
    have undo: "map_res (relayout_expr a unsh) is = Inr js"
      using LoadExpr.IH [OF g LoadExpr.prems(2)] gj by simp
    show ?thesis
    proof (cases "b = a")
      case True
      then obtain ys where ys: "swizzle is shuffle = Inr ys" "e' = LoadExpr ty (GEPExpr a ys)"
        using LoadExpr.prems(1) g gj by auto
      obtain ws where "map_res (relayout_expr a unsh) ys = Inr ws" "swizzle ws unsh = Inr js"
        using subscript_back [OF undo ys(1) LoadExpr.prems(2)] by blast
      then show ?thesis using True by (simp add: ys(2) gj(1))
    next
      case False
      then show ?thesis using LoadExpr.prems(1) g gj undo by auto
    qed
  qed
qed auto

lemma relayout_stmt_back:
  "relayout_stmt a shuffle s = Inr s' \<Longrightarrow> inverse_shuffle shuffle unsh \<Longrightarrow> relayout_stmt a unsh s' = Inr s"
proof (induction s arbitrary: s')
  case (Loop L body)
  then obtain b where b: "map_res (relayout_stmt a shuffle) body = Inr b" "s' = Loop L b" by auto
  have "map_res (relayout_stmt a unsh) b = Inr body" using map_res_back [OF b(1)] Loop.IH Loop.prems(2) by blast
  then show ?case by (simp add: b)
next
  case (IfRange val lo hi body)
  then obtain v b where b: "relayout_expr a shuffle val = Inr v" "map_res (relayout_stmt a shuffle) body = Inr b"
    "s' = IfRange v lo hi b" by auto
  have "map_res (relayout_stmt a unsh) b = Inr body" using map_res_back [OF b(2)] IfRange.IH IfRange.prems(2) by blast
  then show ?case using relayout_expr_back [OF b(1) IfRange.prems(2)] by (simp add: b)
next
  case (CallStmt name params)
  then obtain ps where b: "map_res (relayout_expr a shuffle) params = Inr ps" "s' = CallStmt name ps" by auto
  have "map_res (relayout_expr a unsh) ps = Inr params" using map_res_back [OF b(1)] relayout_expr_back CallStmt.prems(2) by blast
  then show ?case by (simp add: b)
next
  case (StoreStmt g x acc)
  then obtain g' x' where g: "relayout_expr a shuffle g = Inr g'" and x: "relayout_expr a shuffle x = Inr x'" by auto
  note gb = relayout_expr_back [OF g StoreStmt.prems(2)] and xb = relayout_expr_back [OF x StoreStmt.prems(2)]
  show ?case
  proof (cases "is_GEP g'")
    case False
    then have "s' = StoreStmt g' x' acc" "\<not> is_GEP g" using StoreStmt.prems(1) g x relayout_GEP [OF g] by (cases g'; simp)+
    then show ?thesis using gb xb by (cases g) simp_all
  next
    case True
    then obtain b js "is" where gj: "g = GEPExpr b js" "g' = GEPExpr b is" "map_res (relayout_expr a shuffle) js = Inr is"
      using g relayout_GEP [OF g] by (cases g) auto
    have undo: "map_res (relayout_expr a unsh) is = Inr js" using gb gj by simp
    show ?thesis
    proof (cases "b = a")
      case True
      then obtain ys where ys: "swizzle is shuffle = Inr ys" "s' = StoreStmt (GEPExpr a ys) x' acc"
        using StoreStmt.prems(1) g x gj by auto
      obtain ws where "map_res (relayout_expr a unsh) ys = Inr ws" "swizzle ws unsh = Inr js"
        using subscript_back [OF undo ys(1) StoreStmt.prems(2)] by blast
      then show ?thesis using True xb by (simp add: ys(2) gj(1))
    next
      case False
      then show ?thesis using StoreStmt.prems(1) g x gj undo xb by auto
    qed
  qed
next
  case (StoreLocalStmt v x acc)
  then show ?case by (auto dest: relayout_expr_back)
qed

section \<open>Properties\<close>

text \<open>Changing the layout of an argument and changing it back with the inverse shuffle restores
  the program and the type of the argument.\<close>

theorem layout_roundtrip:
  "changeLayout h p i shuffle = Inr (p', h') \<Longrightarrow> inverse_shuffle shuffle unsh \<Longrightarrow>
     changeLayout h' p' i unsh = Inr (p, h)"
proof -
  assume c: "changeLayout h p i shuffle = Inr (p', h')" and u: "inverse_shuffle shuffle unsh"
  let ?a = "pr_args p ! unat i"
  from c obtain names dims body where i: "unat i < length (pr_args p)"
    and n: "swizzle (ty_names (arg_type (hp_arg h ?a))) shuffle = Inr names"
    and d: "swizzle (ty_sizes (arg_type (hp_arg h ?a))) shuffle = Inr dims"
    and b: "map_res (relayout_stmt ?a shuffle) (pr_body p) = Inr body"
    and p': "p' = p\<lparr>pr_body := body\<rparr>"
    and h': "h' = h\<lparr>hp_arg := (hp_arg h)(?a := (hp_arg h ?a)\<lparr>arg_type :=
        \<lparr>ty_sizes = dims, ty_names = names, ty_elem = ty_elem (arg_type (hp_arg h ?a))\<rparr>\<rparr>)\<rparr>"
    by (auto simp: changeLayout_def Let_def mkType_def)
  have body: "map_res (relayout_stmt ?a unsh) body = Inr (pr_body p)"
    by (rule map_res_back [OF b]) (rule relayout_stmt_back [OF _ u])
  have e: "x\<lparr>arg_type := \<lparr>ty_sizes = ty_sizes (arg_type x), ty_names = ty_names (arg_type x), ty_elem = ty_elem (arg_type x)\<rparr>\<rparr> = x"
    for x by (cases x) simp
  have "length (ty_names (arg_type (hp_arg h ?a))) = length (ty_sizes (arg_type (hp_arg h ?a)))"
    using n d by (simp add: swizzle_Inr)
  then show ?thesis
    using i body swizzle_back [OF n u] swizzle_back [OF d u]
    by (simp add: changeLayout_def Let_def mkType_def p' h' e)
qed

definition transposed_copy :: "heap \<times> program" where
  "transposed_copy =
     (let ix = (\<lambda>L. IndexExpr (scalarTy IndexTy) L) in
      (\<lparr>hp_loop = (\<lambda>L. \<lparr>lp_name = (if L = 0 then ''i'' else ''j''), lp_end = 4, lp_stride = 1\<rparr>),
        hp_arg = (\<lambda>a. \<lparr>arg_name = (if a = 1 then ''A'' else ''B''), arg_type = \<lparr>ty_sizes = [4, 5], ty_names = [''x'', ''y''], ty_elem = Float32Ty\<rparr>\<rparr>),
        hp_var = (\<lambda>v. \<lparr>var_name = [], var_type = scalarTy Float32Ty\<rparr>), hp_next = 4\<rparr>,
       \<lparr>pr_name = ''f'', pr_args = [1, 3], pr_vars = [],
        pr_body = [Loop 0 [Loop 2 [StoreStmt (GEPExpr 1 [ix 0, ix 2])
          (LoadExpr (scalarTy Float32Ty) (GEPExpr 3 [ix 2, ix 0])) False]]]\<rparr>))"

theorem layout_roundtrip_witness:
  "\<exists>p' h'. changeLayout (fst transposed_copy) (snd transposed_copy) 0 [1, 0] = Inr (p', h')
     \<and> ty_sizes (arg_type (hp_arg h' 1)) = [5, 4]
     \<and> changeLayout h' p' 0 [1, 0] = Inr (snd transposed_copy, fst transposed_copy)"
proof -
  let ?c = "changeLayout (fst transposed_copy) (snd transposed_copy) 0 [1, 0]"
  have "case ?c of Inr (p', h') \<Rightarrow> ty_sizes (arg_type (hp_arg h' 1)) = [5, 4] | _ \<Rightarrow> False" by code_simp
  then obtain p' h' where c: "?c = Inr (p', h')" "ty_sizes (arg_type (hp_arg h' 1)) = [5, 4]"
    by (auto split: sum.splits)
  have "inverse_shuffle [1, 0] [1, 0]" by (simp add: inverse_shuffle_def upt_rec)
  from layout_roundtrip [OF c(1) this] c show ?thesis by blast
qed

text \<open>C36. Two stores that \<open>sinkStores\<close> moves out of a loop change their order: each final store is put
  right after the loop, before the ones already there. A loop that stores first to \<open>A[0]\<close> what it
  reads from \<open>B\<close> and then what it reads from \<open>C\<close> leaves the element of \<open>B\<close> after the promotion, and
  that of \<open>C\<close> before.\<close>

definition store_twice :: "heap \<times> program" where
  "store_twice =
     (let ld = (\<lambda>a. LoadExpr (scalarTy Float32Ty) (GEPExpr a [IndexExpr (scalarTy IndexTy) 0]));
          put = (\<lambda>e. StoreStmt (GEPExpr 1 [ConstantExpr 0]) e False) in
      (\<lparr>hp_loop = (\<lambda>L. \<lparr>lp_name = ''i'', lp_end = 2, lp_stride = 1\<rparr>),
        hp_arg = (\<lambda>a. \<lparr>arg_name = (if a = 1 then ''A'' else if a = 2 then ''B'' else ''C''),
          arg_type = \<lparr>ty_sizes = [2], ty_names = [''x''], ty_elem = Float32Ty\<rparr>\<rparr>),
        hp_var = (\<lambda>v. \<lparr>var_name = [], var_type = scalarTy Float32Ty\<rparr>), hp_next = 4\<rparr>,
       \<lparr>pr_name = ''f'', pr_args = [1, 2, 3], pr_vars = [], pr_body = [Loop 0 [put (ld 2), put (ld 3)]]\<rparr>))"

theorem licm_reverses_stores:
  "verify_program (fst store_twice) (snd store_twice) = Inr () \<and>
   (\<exists>p' h'. promoteLICM (fst store_twice) (snd store_twice) = Inr (True, p', h')
     \<and> (\<forall>M st. map_option (\<lambda>s. st_mem s 1 0) (run_program M (fst store_twice) (snd store_twice) st) = Some (st_mem st 3 1)
       \<and> map_option (\<lambda>s. st_mem s 1 0) (run_program M h' p' st) = Some (st_mem st 2 1)))"
proof (intro conjI)
  show "verify_program (fst store_twice) (snd store_twice) = Inr ()" by code_simp
  let ?ld = "\<lambda>a. LoadExpr (scalarTy Float32Ty) (GEPExpr a [IndexExpr (scalarTy IndexTy) 0])"
  let ?get = "\<lambda>v. LoadLocalExpr (scalarTy Float32Ty) v"
  let ?new = "[StoreLocalStmt 4 (ConstantFPExpr 0) False, StoreLocalStmt 5 (ConstantFPExpr 0) False,
      Loop 0 [StoreLocalStmt 4 (?ld 2) False, StoreLocalStmt 5 (?ld 3) False],
      StoreStmt (GEPExpr 1 [ConstantExpr 0]) (?get 5) False, StoreStmt (GEPExpr 1 [ConstantExpr 0]) (?get 4) False]"
  have "case promoteLICM (fst store_twice) (snd store_twice) of
      Inr (c, p', h') \<Rightarrow> c \<and> pr_body p' = ?new \<and> loop_end h' 0 = 2 \<and> loop_stride h' 0 = 1
        \<and> (\<forall>a \<in> {1, 2, 3}. ty_sizes (arg_type (hp_arg h' a)) = [2])
    | _ \<Rightarrow> False" by code_simp
  then obtain p' h' where c: "promoteLICM (fst store_twice) (snd store_twice) = Inr (True, p', h')"
    and p': "pr_body p' = ?new" "loop_end h' 0 = 2" "loop_stride h' 0 = 1"
      "\<forall>a \<in> {1, 2, 3}. ty_sizes (arg_type (hp_arg h' a)) = [2]"
    by (auto split: sum.splits)
  have n: "count_up (Suc 0) 2 0 = [0, 1]" by (simp add: count_up.simps)
  have "\<forall>M st. map_option (\<lambda>s. st_mem s 1 0) (run_program M (fst store_twice) (snd store_twice) st) = Some (st_mem st 3 1)
       \<and> map_option (\<lambda>s. st_mem s 1 0) (run_program M h' p' st) = Some (st_mem st 2 1)"
    using p' by (simp add: run_program_def store_twice_def Let_def loop_end_def loop_stride_def n
        store_lanes_def load_lanes_def)
  with c show "\<exists>p' h'. promoteLICM (fst store_twice) (snd store_twice) = Inr (True, p', h')
     \<and> (\<forall>M st. map_option (\<lambda>s. st_mem s 1 0) (run_program M (fst store_twice) (snd store_twice) st) = Some (st_mem st 3 1)
       \<and> map_option (\<lambda>s. st_mem s 1 0) (run_program M h' p' st) = Some (st_mem st 2 1))" by blast
qed

end
