(* ===== verification/Pragmas.thy ===== *)
theory Pragmas
  imports Vectorize Fusion Licm Pipeline
begin

text \<open>
  \<open>Pragma.h\<close> and \<open>applyPragmaCommand\<close> of \<open>lib/Transforms/Transforms.cpp\<close>: the commands that the parser
  reads from the comments of a program and that the optimizer tries out. A command names a loop; its
  parameter is an \<open>int\<close> that becomes \<open>unsigned\<close> where the transformation takes one.
\<close>

datatype PragmaKind =
    vectorize_pragma | unroll_pragma | widen_pragma | tile_pragma | peel_pragma
  | hoist_pragma | sink_pragma | fuse_pragma | distribute_pragma | other_pragma

record PragmaCommand =
  pc_kind :: PragmaKind
  pc_loopName :: string
  pc_newName :: string
  pc_param :: int
  pc_loc :: nat

section \<open>Distributing the scope around a loop\<close>

text \<open>The path of positions to the scope whose body holds the loop; the empty path is the program.\<close>

fun parent_path :: "loop_ptr \<Rightarrow> nat \<Rightarrow> stmt list \<Rightarrow> nat list option"
  and parent_in :: "loop_ptr \<Rightarrow> nat \<Rightarrow> stmt \<Rightarrow> nat list option" where
  "parent_path L i [] = None"
| "parent_path L i (s # ss) =
     (if loop_id s = Some L then Some []
      else (case parent_in L i s of Some path \<Rightarrow> Some path | None \<Rightarrow> parent_path L (i + 1) ss))"
| "parent_in L i (Loop L' body) = map_option (Cons i) (parent_path L 0 body)"
| "parent_in L i (IfRange val lo hi body) = map_option (Cons i) (parent_path L 0 body)"
| "parent_in L i s = None"

text \<open>The statement at a path that is not empty, with the loops around it.\<close>

fun scope_at :: "loop_ptr list \<Rightarrow> nat list \<Rightarrow> stmt list \<Rightarrow> (loop_ptr list \<times> stmt) option" where
  "scope_at enc [] ss = None"
| "scope_at enc [i] ss = (if i < length ss then Some (enc, ss ! i) else None)"
| "scope_at enc (i # path) ss =
     (if i < length ss then
        (case ss ! i of
           Loop L body \<Rightarrow> scope_at (L # enc) path body
         | IfRange val lo hi body \<Rightarrow> scope_at enc path body
         | _ \<Rightarrow> None)
      else None)"

text \<open>A scope that is a loop is in the list of its own loops. When it is the one that is split, the
  scope itself is deleted, and the next round uses it after it was freed.\<close>

definition split_in_scope :: "heap \<Rightarrow> program \<Rightarrow> stmt \<Rightarrow> (program \<times> heap) option res" where
  "split_in_scope h p s =
     (case s of
        Loop P body \<Rightarrow>
          bind_res (splitScopes h p P) (\<lambda>r.
          case r of Some x \<Rightarrow> Inl (UB ''use after free'') | None \<Rightarrow> split_first h p (body_loops body))
      | _ \<Rightarrow> split_first h p (loop_list s))"

partial_function (option) distribute_scope ::
    "nat list \<Rightarrow> bool \<Rightarrow> heap \<Rightarrow> program \<Rightarrow> (bool \<times> program \<times> heap) res option" where
  "distribute_scope path changed h p =
     (case scope_at [] path (pr_body p) of
        None \<Rightarrow> Some (Inl (UB ''no scope''))
      | Some (enc, s) \<Rightarrow>
          (case bind_res (verify_stmt h (pr_vars p) enc s) (\<lambda>_. split_in_scope h p s) of
             Inl e \<Rightarrow> Some (Inl e)
           | Inr None \<Rightarrow> Some (Inr (changed, p, h))
           | Inr (Some (p', h')) \<Rightarrow> distribute_scope path True h' p'))"

definition distribute_parent :: "heap \<Rightarrow> program \<Rightarrow> loop_ptr \<Rightarrow> (bool \<times> program \<times> heap) res option" where
  "distribute_parent h p L =
     (case parent_path L 0 (pr_body p) of
        None \<Rightarrow> Some (Inl (UB ''loop is not in the program''))
      | Some [] \<Rightarrow> distributeAllLoops False h p
      | Some path \<Rightarrow> distribute_scope path False h p)"

section \<open>Applying a command\<close>

text \<open>The new loop gets the name of the command, if it has one. A transformation that changed the
  program but returned a null pointer reports no change.\<close>

definition renamed_result ::
  "string \<Rightarrow> heap \<Rightarrow> program \<Rightarrow> (loop_ptr option \<times> program \<times> heap) option \<Rightarrow> bool \<times> program \<times> heap" where
  "renamed_result newName h p r =
     (case r of
        None \<Rightarrow> (False, p, h)
      | Some (None, p', h') \<Rightarrow> (False, p', h')
      | Some (Some L2, p', h') \<Rightarrow> (True, p', if newName \<noteq> [] then setName h' L2 newName else h'))"

definition loop_result :: "(loop_ptr \<times> program \<times> heap) option \<Rightarrow> (loop_ptr option \<times> program \<times> heap) option" where
  "loop_result r = map_option (\<lambda>(L, p, h). (Some L, p, h)) r"

definition applyPragmaCommand :: "heap \<Rightarrow> program \<Rightarrow> PragmaCommand \<Rightarrow> (bool \<times> program \<times> heap) res option" where
  "applyPragmaCommand h prog pc =
     (case getLoopByName h (visit_body (pr_body prog)) (pc_loopName pc) of
        Some (Loop L body) \<Rightarrow>
          (let param = pc_param pc; uparam = u32_of_int (pc_param pc); named = renamed_result (pc_newName pc) h prog in
           case pc_kind pc of
             vectorize_pragma \<Rightarrow> Some (bind_res (vectorize h prog L uparam) (\<lambda>r. Inr (named r)))
           | unroll_pragma \<Rightarrow>
               Some (bind_res (unrollLoop h prog L uparam) (\<lambda>r.
                 Inr (case r of None \<Rightarrow> (False, prog, h) | Some (u, p', h') \<Rightarrow> (True, p', h'))))
           | widen_pragma \<Rightarrow> Some (bind_res (widen h prog L uparam) (\<lambda>r. Inr (named r)))
           | tile_pragma \<Rightarrow> Some (bind_res (tile h prog L uparam) (\<lambda>r. Inr (named (loop_result r))))
           | peel_pragma \<Rightarrow> Some (bind_res (peelLoop h prog L param) (\<lambda>r. Inr (named (loop_result r))))
           | hoist_pragma \<Rightarrow> (case hoist prog L uparam of (changed, p') \<Rightarrow> Some (Inr (changed, p', h)))
           | sink_pragma \<Rightarrow> (case sink prog L uparam of (changed, p') \<Rightarrow> Some (Inr (changed, p', h)))
           | fuse_pragma \<Rightarrow>
               Some (bind_res (fuse h prog L uparam) (\<lambda>r.
                 Inr (case r of None \<Rightarrow> (False, prog, h) | Some p' \<Rightarrow> (True, p', h))))
           | distribute_pragma \<Rightarrow> distribute_parent h prog L
           | other_pragma \<Rightarrow> Some (Inl (AssertFail ''Invalid pragma'')))
      | _ \<Rightarrow> Some (Inl (AssertFail ''Could not find the loop L'')))"

section \<open>Commands that keep the meaning\<close>

text \<open>Only names change.\<close>

lemma setName_run [simp]: "run_program M (setName h L n) p st = run_program M h p st"
  unfolding run_program_def
  by (intro fold_opt_cong refl exec_cong)
    (simp_all add: same_bounds_def same_args_def setName_def loop_end_def loop_stride_def)

lemma setName_wf [simp]: "wf_body (setName h L n) ss = wf_body h ss"
  by (rule wf_body_next) (simp add: setName_def)

lemma setName_loops_ok [simp]: "loops_ok (setName h L n) ss = loops_ok h ss"
proof -
  have "loop_ok (setName h L n) x = loop_ok h x" for x
    by (simp add: loop_ok_def whole_trips_def setName_def loop_end_def loop_stride_def)
  then show ?thesis by (simp add: loops_ok_def)
qed

definition safe_pragma :: "PragmaKind \<Rightarrow> bool" where
  "safe_pragma k \<longleftrightarrow> k \<in> {tile_pragma, peel_pragma, unroll_pragma}"

lemma pragma_opt_step:
  assumes "applyPragmaCommand h p pc = Some (Inr (changed, p', h'))" "safe_pragma (pc_kind pc)"
  shows "(p' = p \<and> h' = h) \<or> (\<exists>h1 L n. opt_step (h, p) (h1, p') \<and> h' \<in> {h1, setName h1 L n})"
proof -
  let ?step = "\<lambda>h1. opt_step (h, p) (h1, p')"
  have new: "(p' = p \<and> h' = h) \<or> (\<exists>h1 L n. ?step h1 \<and> h' \<in> {h1, setName h1 L n})"
    if "renamed_result n h p (loop_result r) = (changed, p', h')" "\<And>L p1 h1. r = Some (L, p1, h1) \<Longrightarrow> opt_step (h, p) (h1, p1)"
    for r n
  proof (cases r)
    case (Some x)
    then obtain L2 p2 h2 where x: "r = Some (L2, p2, h2)" by (cases x) auto
    from that(2) [OF x] that(1) x show ?thesis
      by (auto simp: renamed_result_def loop_result_def split: if_splits)
  qed (use that in \<open>simp add: renamed_result_def loop_result_def\<close>)
  obtain L body where L: "getLoopByName h (visit_body (pr_body p)) (pc_loopName pc) = Some (Loop L body)"
    using assms(1) by (auto simp: applyPragmaCommand_def split: option.splits stmt.splits)
  consider (tile) "pc_kind pc = tile_pragma" | (peel) "pc_kind pc = peel_pragma" | (unroll) "pc_kind pc = unroll_pragma"
    using assms(2) unfolding safe_pragma_def by blast
  then show ?thesis
  proof cases
    case tile
    with assms(1) L obtain r where "Transforms.tile h p L (u32_of_int (pc_param pc)) = Inr r"
      "renamed_result (pc_newName pc) h p (loop_result r) = (changed, p', h')"
      by (auto simp: applyPragmaCommand_def Let_def)
    then show ?thesis using new opt_step.step_tile by blast
  next
    case peel
    with assms(1) L obtain r where "peelLoop h p L (pc_param pc) = Inr r"
      "renamed_result (pc_newName pc) h p (loop_result r) = (changed, p', h')"
      by (auto simp: applyPragmaCommand_def Let_def)
    then show ?thesis using new opt_step.step_peel by blast
  next
    case unroll
    with assms(1) L obtain r where "unrollLoop h p L (u32_of_int (pc_param pc)) = Inr r"
      "(case r of None \<Rightarrow> (False, p, h) | Some (u, p2, h2) \<Rightarrow> (True, p2, h2)) = (changed, p', h')"
      by (auto simp: applyPragmaCommand_def Let_def)
    then have "(p' = p \<and> h' = h) \<or> opt_step (h, p) (h', p')"
      using opt_step.step_unroll [of h p L "u32_of_int (pc_param pc)" "()" p' h'] by (auto split: option.splits)
    then show ?thesis by blast
  qed
qed

text \<open>Only range checks look at the guard of the machine.\<close>

lemma idx_bin_guard: "idx_bin (M\<lparr>m_guard := g\<rparr>) k = idx_bin M k"
  by (intro ext) (cases k; simp)

lemma eval_bin_guard: "eval_bin (M\<lparr>m_guard := g\<rparr>) k x y = eval_bin M k x y"
  by (cases "(M, k, x, y)" rule: eval_bin.cases) (simp_all add: idx_bin_guard)

lemma eval_un_guard: "eval_un (M\<lparr>m_guard := g\<rparr>) k x = eval_un M k x"
  by (cases x) simp_all

lemma store_guard: "store_to (M\<lparr>m_guard := g\<rparr>) acc st p x = store_to M acc st p x"
  by (cases p; cases x) (simp_all add: Let_def)

lemma accumulate_guard: "accumulate_val (M\<lparr>m_guard := g\<rparr>) acc x y = accumulate_val M acc x y"
  by (cases acc; cases x; cases y) simp_all

lemma eval_guard: "eval (M\<lparr>m_guard := g\<rparr>) h st \<rho> e = eval M h st \<rho> e"
proof (induction e)
  case (GEPExpr a "is")
  then have "map (\<lambda>e. Option.bind (eval (M\<lparr>m_guard := g\<rparr>) h st \<rho> e) scalar_idx) is
      = map (\<lambda>e. Option.bind (eval M h st \<rho> e) scalar_idx) is"
    by simp
  then show ?case by (simp only: eval.simps)
next
  case (BinaryExpr k l r)
  have "eval_bin (M\<lparr>m_guard := g\<rparr>) k = eval_bin M k" by (intro ext) (rule eval_bin_guard)
  with BinaryExpr show ?case by simp
next
  case (UnaryExpr k e)
  have "eval_un (M\<lparr>m_guard := g\<rparr>) k = eval_un M k" by (intro ext) (rule eval_un_guard)
  with UnaryExpr show ?case by simp
qed simp_all

lemma exec_guard: "no_ifs s \<Longrightarrow> exec (M\<lparr>m_guard := g\<rparr>) h \<rho> s st = exec M h \<rho> s st"
proof (induction s arbitrary: \<rho> st)
  case (Loop L body)
  have "fold_opt (exec (M\<lparr>m_guard := g\<rparr>) h (\<rho>(L := of_nat i))) body = fold_opt (exec M h (\<rho>(L := of_nat i))) body" for i
    by (intro ext fold_opt_cong refl Loop.IH) (use Loop.prems in \<open>simp_all add: list_all_iff\<close>)
  then show ?case by simp
next
  case (StoreStmt gp x acc)
  have "store_to (M\<lparr>m_guard := g\<rparr>) acc st = store_to M acc st" by (intro ext) (rule store_guard)
  then show ?case by (simp add: eval_guard)
next
  case (StoreLocalStmt v x acc)
  have "accumulate_val (M\<lparr>m_guard := g\<rparr>) acc y = accumulate_val M acc y" for y by (intro ext) (rule accumulate_guard)
  then show ?case by (simp add: eval_guard)
next
  case (CallStmt name params)
  have "map (eval (M\<lparr>m_guard := g\<rparr>) h st \<rho>) params = map (eval M h st \<rho>) params" by (simp add: eval_guard)
  then show ?case by (simp del: map_eq_conv)
qed simp_all

lemma run_guard:
  assumes "list_all no_ifs (pr_body p)"
  shows "run_program (M\<lparr>m_guard := g\<rparr>) h p st = run_program M h p st"
  unfolding run_program_def by (intro fold_opt_cong refl exec_guard) (use assms in \<open>simp add: list_all_iff\<close>)

text \<open>So two programs without range checks that run alike with one guard run alike with every guard.\<close>

definition guarded :: "machine \<Rightarrow> program \<Rightarrow> program \<Rightarrow> bool" where
  "guarded M p p' \<longleftrightarrow> m_guard M = range_guard \<or> list_all no_ifs (pr_body p) \<and> list_all no_ifs (pr_body p')"

lemma guarded_runs:
  assumes "guarded M p p'" "\<And>M. m_guard M = range_guard \<Longrightarrow> run_program M h' p' st = run_program M h p st"
  shows "run_program M h' p' st = run_program M h p st"
proof (cases "m_guard M = range_guard")
  case False
  then have n: "list_all no_ifs (pr_body p)" "list_all no_ifs (pr_body p')" using assms(1) by (simp_all add: guarded_def)
  have "run_program (M\<lparr>m_guard := range_guard\<rparr>) h' p' st = run_program (M\<lparr>m_guard := range_guard\<rparr>) h p st"
    by (rule assms(2)) simp
  then show ?thesis by (simp only: run_guard [OF n(1)] run_guard [OF n(2)])
qed (rule assms(2))

lemma pragma_keeps:
  "applyPragmaCommand h p pc = Some (Inr (changed, p', h')) \<Longrightarrow> safe_pragma (pc_kind pc) \<Longrightarrow>
     wf_body h (pr_body p) \<Longrightarrow> loops_ok h (pr_body p) \<Longrightarrow>
     wf_body h' (pr_body p') \<and> loops_ok h' (pr_body p')
     \<and> (m_guard M = range_guard \<longrightarrow> run_program M h' p' st = run_program M h p st)"
proof -
  assume a: "applyPragmaCommand h p pc = Some (Inr (changed, p', h'))" "safe_pragma (pc_kind pc)"
    and ok: "wf_body h (pr_body p)" "loops_ok h (pr_body p)"
  from pragma_opt_step [OF a] show ?thesis
  proof
    assume "\<exists>h1 L n. opt_step (h, p) (h1, p') \<and> h' \<in> {h1, setName h1 L n}"
    then obtain h1 L n where s: "opt_step (h, p) (h1, p')" "h' = h1 \<or> h' = setName h1 L n" by blast
    have i: "opt_inv (h, p)" using ok by (simp add: opt_inv_def)
    have "opt_inv (h1, p')" by (rule opt_step_inv [OF s(1) i])
    moreover have "m_guard M = range_guard \<longrightarrow> run_program M h1 p' st = run_program M h p st"
      using opt_step_runs [OF s(1) i] by simp
    ultimately show ?thesis using s(2) by (auto simp: opt_inv_def)
  qed (use ok in simp)
qed

text \<open>C20. A \<open>tile\<close>, \<open>peel\<close> or \<open>unroll\<close> command, whatever its parameters and its new name, on a well-formed
  program whose loops have non-zero strides that divide their ends, keeps the program such, and keeps what it
  computes on every machine that implements the half-open range check, and on every machine at all when there
  is no range check in the program before or after the command. The second case is that of the code that LLVM
  gets, whose range checks have no effect (C33): a \<open>tile\<close> with a block that does not divide the loop is kept by
  the first case only.\<close>

theorem pragma_preserves:
  assumes "applyPragmaCommand h p pc = Some (Inr (changed, p', h'))" "pc_kind pc \<in> {tile_pragma, peel_pragma, unroll_pragma}"
    and "wf_body h (pr_body p)" "loops_ok h (pr_body p)"
  shows "wf_body h' (pr_body p') \<and> loops_ok h' (pr_body p')
    \<and> (m_guard M = range_guard \<or> list_all no_ifs (pr_body p) \<and> list_all no_ifs (pr_body p')
        \<longrightarrow> run_program M h' p' st = run_program M h p st)"
proof -
  have k: "safe_pragma (pc_kind pc)" using assms(2) by (simp add: safe_pragma_def)
  show ?thesis
    using pragma_keeps [OF assms(1) k assms(3,4)] guarded_runs [of M p p' h' st h] unfolding guarded_def by blast
qed

text \<open>A block of three divides a loop of six: no check is added, and the emitted guard will do.\<close>

theorem pragma_preserves_witness:
  "\<exists>p' h'. applyPragmaCommand (fst demo_loop) (snd demo_loop) \<lparr>pc_kind = tile_pragma, pc_loopName = ''i'', pc_newName = ''t'', pc_param = 3, pc_loc = 0\<rparr>
       = Some (Inr (True, p', h'))
     \<and> wf_body h' (pr_body p') \<and> loop_name h' 2 = ''t''
     \<and> (\<forall>M st. m_guard M = llvm_guard \<longrightarrow> run_program M h' p' st = run_program M (fst demo_loop) (snd demo_loop) st)"
proof -
  let ?a = "applyPragmaCommand (fst demo_loop) (snd demo_loop) \<lparr>pc_kind = tile_pragma, pc_loopName = ''i'', pc_newName = ''t'', pc_param = 3, pc_loc = 0\<rparr>"
  have "case ?a of Some (Inr (c, p', h')) \<Rightarrow> c \<and> loop_name h' 2 = ''t'' \<and> list_all no_ifs (pr_body p') | _ \<Rightarrow> False" by code_simp
  then obtain p' h' where a: "?a = Some (Inr (True, p', h'))" "loop_name h' 2 = ''t''" "list_all no_ifs (pr_body p')"
    by (auto split: option.splits sum.splits)
  have "wf_body (fst demo_loop) (pr_body (snd demo_loop))" "loops_ok (fst demo_loop) (pr_body (snd demo_loop))"
    "list_all no_ifs (pr_body (snd demo_loop))"
    by (simp_all add: demo_loop_def wf_body_def free_of_def loops_ok_def loop_ok_def whole_trips_def loop_end_def loop_stride_def)
  with pragma_preserves [OF a(1) _ this(1,2)] a show ?thesis by (auto simp: safe_pragma_def)
qed

end
