(* ===== verification/Streams.thy ===== *)
theory Streams
  imports Program
begin

text \<open>
  The building blocks of \<open>Bytecode.h\<close>: \<open>IdTable\<close>, \<open>StreamWriter\<close> and \<open>StreamReader\<close>. A stream is
  a list of bytes; the writer appends to it, the reader holds the stream and a position. A table
  searches with the equality of its elements, which for tensor types is \<open>Type::isEqual\<close> and does
  not see the names of the dimensions: the laws of a table are stated in the locale \<open>id_store\<close> for
  any equivalence, and interpreted for the four tables of the code. The laws of a writer and its
  reader are the locale \<open>codec\<close>.
\<close>

section \<open>IdTable\<close>

record 'a id_table =
  it_table :: "'a list"
  it_locked :: bool

definition empty_table :: "'a id_table" where
  "empty_table = \<lparr>it_table = [], it_locked = False\<rparr>"

definition lock_table :: "'a id_table \<Rightarrow> 'a id_table" where
  "lock_table t = t\<lparr>it_locked := True\<rparr>"

fun search :: "('a \<Rightarrow> 'a \<Rightarrow> bool) \<Rightarrow> nat \<Rightarrow> 'a list \<Rightarrow> 'a \<Rightarrow> nat option" where
  "search eq i [] x = None"
| "search eq i (y # ys) x = (if eq y x then Some i else search eq (Suc i) ys x)"

definition getIdFor :: "('a \<Rightarrow> 'a \<Rightarrow> bool) \<Rightarrow> 'a id_table \<Rightarrow> 'a \<Rightarrow> (u32 \<times> 'a id_table) res" where
  "getIdFor eq t x =
     (case search eq 0 (it_table t) x of
        Some i \<Rightarrow> Inr (of_nat i, t)
      | None \<Rightarrow>
          bind_res (require (\<not> it_locked t) ''Table must be unlocked'') (\<lambda>_.
          Inr (of_nat (length (it_table t)), t\<lparr>it_table := it_table t @ [x]\<rparr>)))"

definition getById :: "'a id_table \<Rightarrow> u32 \<Rightarrow> 'a res" where
  "getById t i =
     bind_res (require (unat i < length (it_table t)) ''Element not in table'')
       (\<lambda>_. Inr (it_table t ! unat i))"

text \<open>All elements of a list, one after the other.\<close>

fun getIdForAll :: "('a \<Rightarrow> 'a \<Rightarrow> bool) \<Rightarrow> 'a id_table \<Rightarrow> 'a list \<Rightarrow> 'a id_table res" where
  "getIdForAll eq t [] = Inr t"
| "getIdForAll eq t (x # xs) = bind_res (getIdFor eq t x) (\<lambda>(_, t'). getIdForAll eq t' xs)"

fun distinct_by :: "('a \<Rightarrow> 'a \<Rightarrow> bool) \<Rightarrow> 'a list \<Rightarrow> bool" where
  "distinct_by eq [] = True"
| "distinct_by eq (x # xs) = (list_all (\<lambda>y. \<not> eq x y) xs \<and> distinct_by eq xs)"

lemma unat_of_nat_u32: "n < 2 ^ 32 \<Longrightarrow> unat (of_nat n :: u32) = n"
  by (simp add: unat_of_nat)

lemma distinct_by_append:
  "distinct_by eq (xs @ ys) \<longleftrightarrow>
     distinct_by eq xs \<and> distinct_by eq ys \<and> (\<forall>x \<in> set xs. \<forall>y \<in> set ys. \<not> eq x y)"
  by (induction xs) (auto simp: list_all_iff)

lemma distinct_by_snoc:
  "distinct_by eq (xs @ [x]) \<longleftrightarrow> distinct_by eq xs \<and> list_all (\<lambda>y. \<not> eq y x) xs"
  by (induction xs) (auto simp: list_all_iff)

lemma distinct_by_eq [simp]: "distinct_by (=) xs = distinct xs"
  by (induction xs) (auto simp: list_all_iff)

lemma search_None: "search eq i ys x = None \<longleftrightarrow> list_all (\<lambda>y. \<not> eq y x) ys"
  by (induction ys arbitrary: i) auto

lemma search_Some:
  "search eq i ys x = Some j \<Longrightarrow> i \<le> j \<and> j - i < length ys \<and> eq (ys ! (j - i)) x"
  by (induction ys arbitrary: i) (fastforce simp: nth_Cons' split: if_splits)+

text \<open>The first table is a prefix of the second.\<close>

definition grows :: "'a id_table \<Rightarrow> 'a id_table \<Rightarrow> bool" where
  "grows t t' \<longleftrightarrow> it_locked t' = it_locked t \<and> (\<exists>xs. it_table t' = it_table t @ xs)"

lemma grows_refl [simp]: "grows t t"
  by (simp add: grows_def)

lemma grows_trans: "grows t t1 \<Longrightarrow> grows t1 t2 \<Longrightarrow> grows t t2"
  by (auto simp: grows_def)

locale id_store =
  fixes eq :: "'a \<Rightarrow> 'a \<Rightarrow> bool"
  assumes eq_refl: "eq x x"
    and eq_sym: "eq x y \<Longrightarrow> eq y x"
    and eq_trans: "eq x y \<Longrightarrow> eq y z \<Longrightarrow> eq x z"
begin

definition wf_table :: "'a id_table \<Rightarrow> bool" where
  "wf_table t \<longleftrightarrow> distinct_by eq (it_table t)"

lemma wf_empty: "wf_table empty_table"
  by (simp add: wf_table_def empty_table_def)

lemma getIdFor_cases:
  assumes "getIdFor eq t x = Inr (i, t')"
  obtains (old) j where "search eq 0 (it_table t) x = Some j" "i = of_nat j" "t' = t"
    | (new) "search eq 0 (it_table t) x = None" "i = of_nat (length (it_table t))"
        "t' = t\<lparr>it_table := it_table t @ [x]\<rparr>"
  using assms by (auto simp: getIdFor_def split: option.splits)

lemma getIdFor_grows: "getIdFor eq t x = Inr (i, t') \<Longrightarrow> grows t t'"
  by (erule getIdFor_cases) (auto simp: grows_def)

lemma getIdFor_wf: "getIdFor eq t x = Inr (i, t') \<Longrightarrow> wf_table t \<Longrightarrow> wf_table t'"
  by (erule getIdFor_cases) (auto simp: wf_table_def distinct_by_snoc search_None)

text \<open>The number is an index of every later table, and the element there is equal to \<open>x\<close>.\<close>

lemma getIdFor_index:
  assumes "getIdFor eq t x = Inr (i, t')" "grows t' F" "length (it_table F) \<le> 2 ^ 32"
  shows "unat i < length (it_table F)" "eq (it_table F ! unat i) x"
proof -
  obtain ys where F: "it_table F = it_table t' @ ys" using assms(2) by (auto simp: grows_def)
  have "unat i < length (it_table t') \<and> eq (it_table t' ! unat i) x"
    using assms(1)
  proof (cases rule: getIdFor_cases)
    case (old j)
    from search_Some [OF old(1)] have "j < length (it_table t)" "eq (it_table t ! j) x" by simp_all
    moreover from this have "unat i = j"
      using assms(3) F old by (simp add: unat_of_nat_u32)
    ultimately show ?thesis using old by simp
  next
    case new
    then have "unat i = length (it_table t)"
      using assms(3) F by (simp add: unat_of_nat_u32)
    then show ?thesis using new eq_refl by simp
  qed
  then show "unat i < length (it_table F)" "eq (it_table F ! unat i) x"
    using F by (simp_all add: nth_append)
qed

lemma getById_getIdFor:
  "getIdFor eq t x = Inr (i, t') \<Longrightarrow> grows t' F \<Longrightarrow> length (it_table F) \<le> 2 ^ 32 \<Longrightarrow>
     \<exists>y. getById F i = Inr y \<and> eq y x"
  using getIdFor_index [of t x i t' F] by (auto simp: getById_def)

text \<open>Asking twice gives the same number and leaves the table alone.\<close>

lemma getIdFor_again: "getIdFor eq t x = Inr (i, t') \<Longrightarrow> getIdFor eq t' x = Inr (i, t')"
proof (erule getIdFor_cases)
  assume "search eq 0 (it_table t) x = None" "i = of_nat (length (it_table t))" "t' = t\<lparr>it_table := it_table t @ [x]\<rparr>"
  moreover have "search eq k ys x = None \<Longrightarrow> search eq k (ys @ [x]) x = Some (k + length ys)" for k ys
    by (induction ys arbitrary: k) (auto simp: eq_refl split: if_splits)
  ultimately show ?thesis by (simp add: getIdFor_def)
qed (simp add: getIdFor_def)

text \<open>Entering a list of different elements rebuilds the list.\<close>

lemma getIdForAll_distinct:
  "\<not> it_locked t \<Longrightarrow> distinct_by eq (it_table t @ xs) \<Longrightarrow>
     getIdForAll eq t xs = Inr (t\<lparr>it_table := it_table t @ xs\<rparr>)"
proof (induction xs arbitrary: t)
  case (Cons x xs)
  have "distinct_by eq (it_table t @ [x])"
    using Cons.prems(2) by (auto simp: distinct_by_append)
  then have "search eq 0 (it_table t) x = None" by (simp add: search_None distinct_by_snoc)
  then have "getIdFor eq t x = Inr (of_nat (length (it_table t)), t\<lparr>it_table := it_table t @ [x]\<rparr>)"
    using Cons.prems(1) by (simp add: getIdFor_def require_def)
  moreover have "getIdForAll eq (t\<lparr>it_table := it_table t @ [x]\<rparr>) xs
      = Inr (t\<lparr>it_table := (it_table t @ [x]) @ xs\<rparr>)"
    using Cons.IH [of "t\<lparr>it_table := it_table t @ [x]\<rparr>"] Cons.prems by simp
  ultimately show ?case by simp
qed simp

lemma getIdForAll_grows: "getIdForAll eq t xs = Inr t' \<Longrightarrow> grows t t'"
  by (induction xs arbitrary: t) (auto intro: grows_trans dest: getIdFor_grows)

lemma getIdForAll_wf: "getIdForAll eq t xs = Inr t' \<Longrightarrow> wf_table t \<Longrightarrow> wf_table t'"
  by (induction xs arbitrary: t) (auto dest: getIdFor_wf)

lemma getIdForAll_mem:
  assumes "getIdForAll eq t xs = Inr t'" "x \<in> set xs"
  shows "\<exists>y \<in> set (it_table t'). eq y x"
  using assms
proof (induction xs arbitrary: t)
  case (Cons a xs)
  from Cons.prems(1) obtain i t1 where g: "getIdFor eq t a = Inr (i, t1)" and r: "getIdForAll eq t1 xs = Inr t'"
    by auto
  from getIdForAll_grows [OF r] have sub: "set (it_table t1) \<subseteq> set (it_table t')"
    by (auto simp: grows_def)
  have "\<exists>y \<in> set (it_table t1). eq y a"
    using g by (cases rule: getIdFor_cases) (auto dest!: search_Some simp: eq_refl)
  with Cons sub r show ?case by auto
qed simp

end

interpretation names: id_store "(=) :: string \<Rightarrow> string \<Rightarrow> bool"
  by unfold_locales auto

interpretation etypes: id_store ExprType_isEqual
  by unfold_locales auto

interpretation ttypes: id_store Type_isEqual
  by unfold_locales (auto simp: Type_isEqual_def)

interpretation nodes: id_store "(=) :: 'k \<Rightarrow> 'k \<Rightarrow> bool"
  by unfold_locales auto

section \<open>StreamWriter\<close>

type_synonym stream = "u8 list"

definition write_u8 :: "stream \<Rightarrow> u8 \<Rightarrow> stream" where
  "write_u8 out num = out @ [num]"

definition write_u32 :: "stream \<Rightarrow> u32 \<Rightarrow> stream" where
  "write_u32 out num =
     write_u8 (write_u8 (write_u8 (write_u8 out (ucast (drop_bit 24 num)))
       (ucast (drop_bit 16 num))) (ucast (drop_bit 8 num))) (ucast num)"

text \<open>A float is written as its bit pattern.\<close>

definition write_f32 :: "stream \<Rightarrow> f32 \<Rightarrow> stream" where
  "write_f32 out num = write_u32 out num"

definition byte_of_char :: "char \<Rightarrow> u8" where
  "byte_of_char c = of_nat (of_char c)"

definition char_of_byte :: "u8 \<Rightarrow> char" where
  "char_of_byte b = char_of (unat b)"

lemma char_of_byte_of_char [simp]: "char_of_byte (byte_of_char c) = c"
proof -
  have "of_char c < (256 :: nat)" by simp
  then have "unat (of_nat (of_char c) :: u8) = of_char c" by (simp add: unat_of_nat)
  then show ?thesis by (simp add: char_of_byte_def byte_of_char_def)
qed

definition write_str :: "stream \<Rightarrow> string \<Rightarrow> stream res" where
  "write_str out s =
     bind_res (require (length s < 256) ''String too long to serialize'') (\<lambda>_.
     Inr (foldl (\<lambda>out c. out @ [byte_of_char c]) (write_u8 out (of_nat (length s))) s))"

section \<open>StreamReader\<close>

record reader =
  rd_stream :: stream
  rd_pos :: nat

definition readU8 :: "reader \<Rightarrow> (u8 \<times> reader) res" where
  "readU8 r =
     bind_res (require (rd_pos r < length (rd_stream r)) ''stream_.size() > pos_'') (\<lambda>_.
     Inr (rd_stream r ! rd_pos r, r\<lparr>rd_pos := Suc (rd_pos r)\<rparr>))"

definition readU32 :: "reader \<Rightarrow> (u32 \<times> reader) res" where
  "readU32 r =
     bind_res (readU8 r) (\<lambda>(a, r). bind_res (readU8 r) (\<lambda>(b, r).
     bind_res (readU8 r) (\<lambda>(c, r). bind_res (readU8 r) (\<lambda>(d, r).
     Inr (push_bit 8 (push_bit 8 (push_bit 8 (push_bit 8 0 + ucast a) + ucast b) + ucast c) + ucast d, r)))))"

definition readF32 :: "reader \<Rightarrow> (f32 \<times> reader) res" where
  "readF32 r = readU32 r"

text \<open>
  \<open>readStr\<close> indexes the string without a check: at the end of the string this is the terminating
  null character, beyond it the behaviour is undefined.
\<close>

fun readChars :: "nat \<Rightarrow> reader \<Rightarrow> (string \<times> reader) res" where
  "readChars 0 r = Inr ([], r)"
| "readChars (Suc n) r =
     (if length (rd_stream r) < rd_pos r then Inl (UB ''stream_[pos_] out of range'')
      else
        let c = (if rd_pos r < length (rd_stream r) then char_of_byte (rd_stream r ! rd_pos r) else CHR 0x00) in
        bind_res (readChars n (r\<lparr>rd_pos := Suc (rd_pos r)\<rparr>)) (\<lambda>(cs, r'). Inr (c # cs, r')))"

definition readStr :: "reader \<Rightarrow> (string \<times> reader) res" where
  "readStr r = bind_res (readU8 r) (\<lambda>(len, r). readChars (unat len) r)"

definition hasMore :: "reader \<Rightarrow> bool" where
  "hasMore r \<longleftrightarrow> rd_pos r \<noteq> length (rd_stream r)"

section \<open>What is written is read back\<close>

text \<open>The reader stands before the bytes \<open>bs\<close>, and the reader that has read them.\<close>

definition ahead :: "reader \<Rightarrow> stream \<Rightarrow> bool" where
  "ahead r bs \<longleftrightarrow> rd_pos r \<le> length (rd_stream r) \<and> (\<exists>rest. drop (rd_pos r) (rd_stream r) = bs @ rest)"

definition skip :: "stream \<Rightarrow> reader \<Rightarrow> reader" where
  "skip bs r = r\<lparr>rd_pos := rd_pos r + length bs\<rparr>"

lemma skip_append [simp]: "skip ys (skip xs r) = skip (xs @ ys) r"
  by (simp add: skip_def add.assoc)

lemma skip_Nil [simp]: "skip [] r = r"
  by (simp add: skip_def)

lemma ahead_append: "ahead r (xs @ ys) \<longleftrightarrow> ahead r xs \<and> ahead (skip xs r) ys"
proof
  assume a: "ahead r (xs @ ys)"
  then obtain rest where r: "drop (rd_pos r) (rd_stream r) = xs @ ys @ rest" and p: "rd_pos r \<le> length (rd_stream r)"
    by (auto simp: ahead_def)
  have "drop (length xs + rd_pos r) (rd_stream r) = ys @ rest"
    by (metis append_eq_conv_conj drop_drop r)
  moreover have "rd_pos r + length xs \<le> length (rd_stream r)"
    using arg_cong [OF r, of length] p by simp
  ultimately show "ahead r xs \<and> ahead (skip xs r) ys"
    using r p by (auto simp: ahead_def skip_def add.commute)
next
  assume a: "ahead r xs \<and> ahead (skip xs r) ys"
  then obtain rest rest' where "drop (rd_pos r) (rd_stream r) = xs @ rest" "rd_pos r \<le> length (rd_stream r)"
    "drop (length xs + rd_pos r) (rd_stream r) = ys @ rest'"
    by (auto simp: ahead_def skip_def add.commute)
  then show "ahead r (xs @ ys)" unfolding ahead_def
    by (metis append.assoc append_eq_conv_conj drop_drop)
qed

lemma ahead_start: "ahead \<lparr>rd_stream = bs @ rest, rd_pos = 0\<rparr> bs"
  by (simp add: ahead_def)

text \<open>A reader is right for a writer when it takes exactly the written bytes.\<close>

definition reads :: "(reader \<Rightarrow> ('a \<times> reader) res) \<Rightarrow> stream \<Rightarrow> 'a \<Rightarrow> bool" where
  "reads get bs x \<longleftrightarrow> (\<forall>r. ahead r bs \<longrightarrow> get r = Inr (x, skip bs r))"

lemma readsD: "reads get bs x \<Longrightarrow> ahead r bs \<Longrightarrow> get r = Inr (x, skip bs r)"
  by (simp add: reads_def)

locale codec =
  fixes put :: "'a \<Rightarrow> stream" and get :: "reader \<Rightarrow> ('a \<times> reader) res" and ok :: "'a \<Rightarrow> bool"
  assumes read_back: "ok x \<Longrightarrow> reads get (put x) x"
begin

lemma read_one: "ok x \<Longrightarrow> ahead r (put x) \<Longrightarrow> get r = Inr (x, skip (put x) r)"
  by (rule readsD [OF read_back])

lemma read_then: "ok x \<Longrightarrow> ahead r (put x @ rest) \<Longrightarrow> get r = Inr (x, skip (put x) r) \<and> ahead (skip (put x) r) rest"
  by (simp add: ahead_append read_one)

text \<open>Two different values never have a common stream.\<close>

lemma put_inject: "ok x \<Longrightarrow> ok y \<Longrightarrow> put x @ xs = put y @ ys \<Longrightarrow> x = y \<and> xs = ys"
proof -
  assume o: "ok x" "ok y" and e: "put x @ xs = put y @ ys"
  let ?r = "\<lparr>rd_stream = put x @ xs, rd_pos = 0\<rparr>"
  have "get ?r = Inr (x, skip (put x) ?r)" by (rule read_one [OF o(1) ahead_start])
  moreover have "get ?r = Inr (y, skip (put y) ?r)" unfolding e by (rule read_one [OF o(2) ahead_start])
  ultimately have "x = y" by simp
  with e show "x = y \<and> xs = ys" by simp
qed

end

section \<open>The codecs of the code\<close>

text \<open>What the writers append, as functions of the value.\<close>

definition enc_u32 :: "u32 \<Rightarrow> stream" where
  "enc_u32 num = [ucast (drop_bit 24 num), ucast (drop_bit 16 num), ucast (drop_bit 8 num), ucast num]"

definition enc_str :: "string \<Rightarrow> stream" where
  "enc_str s = of_nat (length s) # map byte_of_char s"

lemma write_u32_enc: "write_u32 out num = out @ enc_u32 num"
  by (simp add: write_u32_def write_u8_def enc_u32_def)

lemma write_str_enc: "write_str out s = Inr out' \<longleftrightarrow> length s < 256 \<and> out' = out @ enc_str s"
proof -
  have "foldl (\<lambda>out c. out @ [byte_of_char c]) xs s = xs @ map byte_of_char s" for xs
    by (induction s arbitrary: xs) auto
  then show ?thesis by (auto simp: write_str_def write_u8_def enc_str_def)
qed

lemma byte_of_word: "(ucast (ucast (drop_bit k w) :: u8) :: u32) = of_nat (unat w div 2 ^ k mod 256)" for w :: u32
proof -
  have "unat (ucast (ucast (drop_bit k w) :: u8) :: u32) = unat w div 2 ^ k mod 256"
  proof -
    have "unat (ucast (ucast (drop_bit k w) :: u8) :: u32) = take_bit 8 (drop_bit k (unat w))"
      by (rule bit_eqI) (auto simp: bit_simps)
    then show ?thesis by (simp add: take_bit_eq_mod drop_bit_eq_div)
  qed
  then show ?thesis by (metis of_nat_unat ucast_id)
qed

lemma nat_bytes: "n < 2 ^ 32 \<Longrightarrow>
    ((n div 2 ^ 24 mod 256 * 256 + n div 2 ^ 16 mod 256) * 256 + n div 2 ^ 8 mod 256) * 256 + n mod 256 = (n :: nat)"
proof -
  assume "n < 2 ^ 32"
  then have "n div 2 ^ 24 < 256" by (simp add: less_mult_imp_div_less)
  moreover have "n div 2 ^ 16 div 256 = n div 2 ^ 24" "n div 2 ^ 8 div 256 = n div 2 ^ 16" "n div 256 = n div 2 ^ 8"
    by (simp_all add: div_mult2_eq [symmetric])
  ultimately show ?thesis by (metis div_mod_decomp mod_less)
qed

lemma join_bytes:
  "push_bit 8 (push_bit 8 (push_bit 8 (push_bit 8 0 + ucast (ucast (drop_bit 24 w) :: u8)) + ucast (ucast (drop_bit 16 w) :: u8))
     + ucast (ucast (drop_bit 8 w) :: u8)) + ucast (ucast w :: u8) = (w :: u32)"
proof -
  have b0: "(ucast (ucast w :: u8) :: u32) = of_nat (unat w mod 256)"
    using byte_of_word [of 0 w] by simp
  have "of_nat (((unat w div 2 ^ 24 mod 256 * 256 + unat w div 2 ^ 16 mod 256) * 256 + unat w div 2 ^ 8 mod 256) * 256
      + unat w mod 256) = w"
    by (subst nat_bytes) (use unat_u32_bound [of w] in simp_all)
  then show ?thesis unfolding byte_of_word b0 by (simp add: push_bit_eq_mult del: of_nat_mod)
qed

lemma readU8_ahead: "ahead r (b # bs) \<Longrightarrow> readU8 r = Inr (b, skip [b] r)"
proof -
  assume "ahead r (b # bs)"
  then obtain rest where d: "drop (rd_pos r) (rd_stream r) = b # bs @ rest" by (auto simp: ahead_def)
  then have "rd_pos r < length (rd_stream r)" by (metis drop_all leI list.simps(3))
  moreover from d this have "rd_stream r ! rd_pos r = b" by (metis hd_drop_conv_nth list.sel(1))
  ultimately show ?thesis by (simp add: readU8_def skip_def require_def)
qed

lemma readU32_ahead: "ahead r (enc_u32 w) \<Longrightarrow> readU32 r = Inr (w, skip (enc_u32 w) r)"
proof -
  have split: "enc_u32 w = [ucast (drop_bit 24 w)] @ [ucast (drop_bit 16 w)] @ [ucast (drop_bit 8 w)] @ [ucast w]"
    by (simp add: enc_u32_def)
  assume "ahead r (enc_u32 w)"
  then have a: "ahead r [ucast (drop_bit 24 w)]" "ahead (skip [ucast (drop_bit 24 w)] r) [ucast (drop_bit 16 w)]"
    "ahead (skip [ucast (drop_bit 24 w), ucast (drop_bit 16 w)] r) [ucast (drop_bit 8 w)]"
    "ahead (skip [ucast (drop_bit 24 w), ucast (drop_bit 16 w), ucast (drop_bit 8 w)] r) [ucast w]"
    unfolding split ahead_append by simp_all
  show ?thesis
    using join_bytes [of w] by (simp add: readU32_def a [THEN readU8_ahead]) (simp add: enc_u32_def)
qed

lemma readChars_ahead: "ahead r (map byte_of_char s) \<Longrightarrow> readChars (length s) r = Inr (s, skip (map byte_of_char s) r)"
proof (induction s arbitrary: r)
  case (Cons c s)
  then have a: "ahead r ([byte_of_char c] @ map byte_of_char s)" by simp
  then have r: "readU8 r = Inr (byte_of_char c, skip [byte_of_char c] r)"
    by (simp only: ahead_append) (blast intro: readU8_ahead)
  then have "rd_pos r < length (rd_stream r)" "rd_stream r ! rd_pos r = byte_of_char c"
    by (auto simp: readU8_def)
  moreover have "readChars (length s) (skip [byte_of_char c] r) = Inr (s, skip (byte_of_char c # map byte_of_char s) r)"
    using Cons.IH [of "skip [byte_of_char c] r"] a unfolding ahead_append by simp
  ultimately show ?case by (simp add: skip_def)
qed simp

lemma readStr_ahead: "length s < 256 \<Longrightarrow> ahead r (enc_str s) \<Longrightarrow> readStr r = Inr (s, skip (enc_str s) r)"
proof -
  assume l: "length s < 256" and "ahead r (enc_str s)"
  then have a: "ahead r ([of_nat (length s)] @ map byte_of_char s)" by (simp add: enc_str_def)
  have "unat (of_nat (length s) :: u8) = length s" using l by (simp add: unat_of_nat)
  then show ?thesis
    using a [unfolded ahead_append] readU8_ahead [of r "of_nat (length s)" "[]"]
      readChars_ahead [of "skip [of_nat (length s)] r" s]
    by (simp add: readStr_def enc_str_def)
qed

interpretation byte_codec: codec "\<lambda>b. [b]" readU8 "\<lambda>b. True"
  by unfold_locales (simp add: reads_def readU8_ahead)

interpretation word_codec: codec enc_u32 readU32 "\<lambda>w. True"
  by unfold_locales (simp add: reads_def readU32_ahead)

interpretation float_codec: codec enc_u32 readF32 "\<lambda>w. True"
  by unfold_locales (simp add: reads_def readF32_def readU32_ahead)

interpretation string_codec: codec enc_str readStr "\<lambda>s. length s < 256"
  by unfold_locales (simp add: reads_def readStr_ahead)

end
