(* ===== verification/Bytecode.thy ===== *)
theory Bytecode
  imports Streams Analysis
begin

text \<open>
  \<open>lib/Bytecode/Bytecode.cpp\<close>: a program as a stream of bytes, and back.

  The serializer looks at a node through its address, so the nodes of the tree get labels that
  stand for their addresses: an expression the number of its place in \<open>collectExprs\<close>, a statement
  the number of its place in \<open>collectStmts\<close>, except that a loop is known by its pointer, which is
  what the index expressions hold. \<open>serialize\<close> of a node is the list of its calls of \<open>SW.write\<close>,
  in order; the calls are carried out by \<open>do_writes\<close>, which fills the tables and the stream.

  The deserializer builds the tree under the identifiers of the statements (\<open>dnode\<close>); the pointer
  of an index expression is not known when it is read, and until the end it is the identifier it is
  waiting for. Using one expression twice moves it out of its first user and leaves a null handle
  there; this is an error of the model.
\<close>

section \<open>Serialization\<close>

datatype skey = KProg | KLoop loop_ptr | KStmt nat

record ser =
  se_out :: stream
  se_strs :: "string id_table"
  se_etys :: "ExprType id_table"
  se_ttys :: "Type id_table"
  se_exprs :: "nat id_table"
  se_stmts :: "skey id_table"

definition ser_init :: ser where
  "ser_init = \<lparr>se_out = [], se_strs = empty_table, se_etys = empty_table, se_ttys = empty_table,
     se_exprs = empty_table, se_stmts = empty_table\<rparr>"

text \<open>The calls of \<open>SW.write\<close>, with the expression whose value is written.\<close>

datatype put =
    W8 u8
  | W32 u32
  | WF32 f32
  | WStr string
  | WEty ExprType
  | WTty Type
  | WExpr nat
  | WStmt skey
  | WArg arg_ptr
  | WVar var_ptr
  | Touch skey

fun do_write :: "program \<Rightarrow> put \<Rightarrow> ser \<Rightarrow> ser res" where
  "do_write p (W8 b) s = Inr (s\<lparr>se_out := write_u8 (se_out s) b\<rparr>)"
| "do_write p (W32 n) s = Inr (s\<lparr>se_out := write_u32 (se_out s) n\<rparr>)"
| "do_write p (WF32 f) s = Inr (s\<lparr>se_out := write_f32 (se_out s) f\<rparr>)"
| "do_write p (WStr x) s =
     bind_res (getIdFor (=) (se_strs s) x) (\<lambda>(i, t). Inr (s\<lparr>se_strs := t, se_out := write_u32 (se_out s) i\<rparr>))"
| "do_write p (WEty x) s =
     bind_res (getIdFor ExprType_isEqual (se_etys s) x) (\<lambda>(i, t).
       Inr (s\<lparr>se_etys := t, se_out := write_u32 (se_out s) i\<rparr>))"
| "do_write p (WTty x) s =
     bind_res (getIdFor Type_isEqual (se_ttys s) x) (\<lambda>(i, t).
       Inr (s\<lparr>se_ttys := t, se_out := write_u32 (se_out s) i\<rparr>))"
| "do_write p (WExpr x) s =
     bind_res (getIdFor (=) (se_exprs s) x) (\<lambda>(i, t). Inr (s\<lparr>se_exprs := t, se_out := write_u32 (se_out s) i\<rparr>))"
| "do_write p (WStmt x) s =
     bind_res (getIdFor (=) (se_stmts s) x) (\<lambda>(i, t). Inr (s\<lparr>se_stmts := t, se_out := write_u32 (se_out s) i\<rparr>))"
| "do_write p (WArg a) s =
     bind_res (getArgIndex p a) (\<lambda>i. Inr (s\<lparr>se_out := write_u32 (se_out s) (of_nat i)\<rparr>))"
| "do_write p (WVar v) s =
     bind_res (getVarIndex p v) (\<lambda>i. Inr (s\<lparr>se_out := write_u32 (se_out s) (of_nat i)\<rparr>))"
| "do_write p (Touch x) s =
     bind_res (getIdFor (=) (se_stmts s) x) (\<lambda>(i, t). Inr (s\<lparr>se_stmts := t\<rparr>))"

fun do_writes :: "program \<Rightarrow> put list \<Rightarrow> ser \<Rightarrow> ser res" where
  "do_writes p [] s = Inr s"
| "do_writes p (w # ws) s = bind_res (do_write p w s) (do_writes p ws)"

subsection \<open>Labels\<close>

definition ecount :: "expr \<Rightarrow> nat" where
  "ecount e = length (exprs_left (visit_expr e))"

lemma ecount_simps [simp]:
  "ecount (IndexExpr ty L) = 1" "ecount (ConstantExpr v) = 1" "ecount (ConstantFPExpr f) = 1"
  "ecount (ConstantStringExpr x) = 1" "ecount (LoadLocalExpr ty x0) = 1"
  "ecount (BinaryExpr k l r) = ecount l + ecount r + 1" "ecount (UnaryExpr u e) = ecount e + 1"
  "ecount (BroadcastExpr e vf) = ecount e + 1" "ecount (LoadExpr ty g) = ecount g + 1"
  "ecount (GEPExpr a is) = sum_list (map ecount is) + 1"
  by (simp_all add: ecount_def [abs_def] length_concat comp_def)

lemma ecount_pos [simp]: "0 < ecount e"
  by (cases e) simp_all

text \<open>The label of the root of each of several expressions that are visited in turn.\<close>

fun roots :: "nat \<Rightarrow> expr list \<Rightarrow> nat list" where
  "roots n [] = []"
| "roots n (e # es) = (n + ecount e - 1) # roots (n + ecount e) es"

text \<open>
  The expressions below a node in the order of \<open>collectExprs\<close>, each with its label and the labels
  of its children; \<open>n\<close> is the first label. The root comes last.
\<close>

fun subexprs :: "expr \<Rightarrow> expr list" where
  "subexprs (BinaryExpr k l r) = [l, r]"
| "subexprs (UnaryExpr k e) = [e]"
| "subexprs (BroadcastExpr e vf) = [e]"
| "subexprs (LoadExpr ty g) = [g]"
| "subexprs (GEPExpr a is) = is"
| "subexprs e = []"

lemma ecount_subexprs: "ecount e = Suc (sum_list (map ecount (subexprs e)))"
  by (cases e) simp_all

function (sequential) label_expr :: "nat \<Rightarrow> expr \<Rightarrow> (nat \<times> nat list \<times> expr) list"
  and label_exprs :: "nat \<Rightarrow> expr list \<Rightarrow> (nat \<times> nat list \<times> expr) list" where
  "label_expr n e =
     label_exprs n (subexprs e) @ [(n + sum_list (map ecount (subexprs e)), roots n (subexprs e), e)]"
| "label_exprs n [] = []"
| "label_exprs n (e # es) = label_expr n e @ label_exprs (n + ecount e) es"
  by pat_completeness auto
termination
  by (relation "measure (case_sum (\<lambda>(n, e). 2 * ecount e) (\<lambda>(n, es). 2 * sum_list (map ecount es) + 1))")
    (auto simp: ecount_subexprs)

declare label_expr.simps [simp del]

text \<open>The expressions that statements own, in the order they are visited.\<close>

fun own_exprs :: "stmt \<Rightarrow> expr list" where
  "own_exprs (Loop L body) = []"
| "own_exprs (IfRange val lo hi body) = [val]"
| "own_exprs (CallStmt name params) = params"
| "own_exprs (StoreStmt gep x acc) = [gep, x]"
| "own_exprs (StoreLocalStmt v x acc) = [x]"

fun all_exprs :: "stmt \<Rightarrow> expr list" where
  "all_exprs (Loop L body) = concat (map all_exprs body)"
| "all_exprs (IfRange val lo hi body) = val # concat (map all_exprs body)"
| "all_exprs s = own_exprs s"

definition s_exprs :: "stmt \<Rightarrow> nat" where
  "s_exprs s = sum_list (map ecount (all_exprs s))"

definition s_stmts :: "stmt \<Rightarrow> nat" where
  "s_stmts s = length (stmts_entered (visit_stmt s))"

text \<open>
  The statements in the order of \<open>collectStmts\<close>, each with its key, the key of its parent and the
  labels of its expressions; \<open>m\<close> and \<open>n\<close> are the next labels of a statement and of an expression.
\<close>

fun label_stmt :: "skey \<Rightarrow> nat \<Rightarrow> nat \<Rightarrow> stmt \<Rightarrow> (skey \<times> skey \<times> nat list \<times> stmt) list"
  and label_body :: "skey \<Rightarrow> nat \<Rightarrow> nat \<Rightarrow> stmt list \<Rightarrow> (skey \<times> skey \<times> nat list \<times> stmt) list" where
  "label_stmt par m n (Loop L body) =
     (KLoop L, par, [], Loop L body) # label_body (KLoop L) (Suc m) n body"
| "label_stmt par m n (IfRange val lo hi body) =
     (KStmt m, par, roots n [val], IfRange val lo hi body) # label_body (KStmt m) (Suc m) (n + ecount val) body"
| "label_stmt par m n (CallStmt name params) = [(KStmt m, par, roots n params, CallStmt name params)]"
| "label_stmt par m n (StoreStmt gep x acc) = [(KStmt m, par, roots n [gep, x], StoreStmt gep x acc)]"
| "label_stmt par m n (StoreLocalStmt v x acc) = [(KStmt m, par, roots n [x], StoreLocalStmt v x acc)]"
| "label_body par m n [] = []"
| "label_body par m n (s # ss) = label_stmt par m n s @ label_body par (m + s_stmts s) (n + s_exprs s) ss"

subsection \<open>The writes of a node\<close>

text \<open>\<open>Bytecode::serialize\<close> of an expression: the kind, its own number, its fields.\<close>

fun expr_writes :: "nat \<times> nat list \<times> expr \<Rightarrow> put list" where
  "expr_writes (me, kids, ConstantExpr v) = [W32 0, WExpr me, W32 (ucast v)]"
| "expr_writes (me, kids, ConstantFPExpr f) = [W32 1, WExpr me, WF32 f]"
| "expr_writes (me, kids, ConstantStringExpr x) = [W32 2, WExpr me, WStr x]"
| "expr_writes (me, kids, BinaryExpr k l r) = [W32 3, WExpr me, W8 (of_nat (binOp_code k))] @ map WExpr kids"
| "expr_writes (me, kids, UnaryExpr k e) = [W32 4, WExpr me, W8 (of_nat (unOp_code k))] @ map WExpr kids"
| "expr_writes (me, kids, LoadExpr ty g) = [W32 5, WExpr me, WEty ty] @ map WExpr kids"
| "expr_writes (me, kids, LoadLocalExpr ty v) = [W32 6, WExpr me, WVar v]"
| "expr_writes (me, kids, BroadcastExpr e vf) = [W32 7, WExpr me] @ map WExpr kids @ [W8 (ucast vf)]"
| "expr_writes (me, kids, IndexExpr ty L) = [W32 8, WExpr me, WStmt (KLoop L)]"
| "expr_writes (me, kids, GEPExpr a is) =
     [W32 9, WExpr me, WArg a, W32 (of_nat (length is))] @ map WExpr kids"

text \<open>
  \<open>Bytecode::serialize\<close> of a statement. An \<open>IfRange\<close> writes the start of its range twice. The
  value of a store is written before its subscript.
\<close>

fun stmt_writes :: "heap \<Rightarrow> skey \<times> skey \<times> nat list \<times> stmt \<Rightarrow> put list" where
  "stmt_writes h (me, par, kids, Loop L body) =
     [W32 0, WStmt me, WStmt par, WStr (loop_name h L), W32 (loop_end h L), W32 (loop_stride h L)]"
| "stmt_writes h (me, par, kids, IfRange val lo hi body) =
     [W32 4, WStmt me, WStmt par] @ map WExpr kids @ [W32 (u32_of_int lo), W32 (u32_of_int lo)]"
| "stmt_writes h (me, par, kids, CallStmt name params) =
     [W32 1, WStmt me, WStmt par, WStr name, W8 (of_nat (length params))] @ map WExpr kids"
| "stmt_writes h (me, par, kids, StoreStmt gep x acc) =
     [W32 2, WStmt me, WStmt par, W8 (of_bool acc)] @ map WExpr (rev kids)"
| "stmt_writes h (me, par, kids, StoreLocalStmt v x acc) =
     [W32 3, WStmt me, WStmt par, WVar v, W8 (of_bool acc)] @ map WExpr kids"

text \<open>The declarations of a program, and all writes of \<open>Bytecode::serialize(Program *)\<close>.\<close>

definition decl_writes :: "heap \<Rightarrow> program \<Rightarrow> put list" where
  "decl_writes h p =
     [WStr (pr_name p), W32 (of_nat (length (pr_args p)))]
     @ concat (map (\<lambda>a. [WStr (arg_name (hp_arg h a)), WTty (arg_type (hp_arg h a))]) (pr_args p))
     @ [W32 (of_nat (length (pr_vars p)))]
     @ concat (map (\<lambda>v. [WStr (var_name (hp_var h v)), WEty (var_type (hp_var h v))]) (pr_vars p))"

definition program_exprs :: "program \<Rightarrow> (nat \<times> nat list \<times> expr) list" where
  "program_exprs p = label_exprs 0 (concat (map all_exprs (pr_body p)))"

definition program_stmts :: "program \<Rightarrow> (skey \<times> skey \<times> nat list \<times> stmt) list" where
  "program_stmts p = label_body KProg 1 0 (pr_body p)"

definition program_writes :: "heap \<Rightarrow> program \<Rightarrow> put list" where
  "program_writes h p =
     decl_writes h p @ [Touch KProg]
     @ [W32 (of_nat (length (program_exprs p)))] @ concat (map expr_writes (program_exprs p))
     @ [W32 (of_nat (length (program_stmts p)))] @ concat (map (stmt_writes h) (program_stmts p))"

subsection \<open>The header\<close>

fun write_strs :: "stream \<Rightarrow> string list \<Rightarrow> stream res" where
  "write_strs out [] = Inr out"
| "write_strs out (s # ss) = bind_res (write_str out s) (\<lambda>out. write_strs out ss)"

definition write_etys :: "stream \<Rightarrow> ExprType list \<Rightarrow> stream" where
  "write_etys out ets =
     foldl (\<lambda>out et. write_u8 (write_u8 out (of_nat (elemKind_code (ety_kind et)))) (ucast (ety_width et))) out ets"

fun write_dims :: "string id_table \<Rightarrow> stream \<Rightarrow> (u32 \<times> string) list \<Rightarrow> stream res" where
  "write_dims t out [] = Inr out"
| "write_dims t out ((d, name) # ds) =
     bind_res (getIdFor (=) t name) (\<lambda>(i, t'). write_dims t' (write_u32 (write_u32 out d) i) ds)"

fun write_ttys :: "string id_table \<Rightarrow> stream \<Rightarrow> Type list \<Rightarrow> stream res" where
  "write_ttys t out [] = Inr out"
| "write_ttys t out (tt # tts) =
     bind_res (write_dims t
         (write_u8 (write_u8 out (of_nat (elemKind_code (ty_elem tt)))) (of_nat (getNumDims tt)))
         (zip (ty_sizes tt) (ty_names tt)))
       (\<lambda>out. write_ttys t out tts)"

definition serialize_header :: "string id_table \<Rightarrow> ExprType list \<Rightarrow> Type list \<Rightarrow> stream res" where
  "serialize_header strs etys ttys =
     bind_res (getIdForAll (=) strs (concat (map ty_names ttys))) (\<lambda>strs1.
     let strs = lock_table strs1;
         out = write_u32 (write_u32 [] 0x03070102) (of_nat (length (it_table strs)))
     in bind_res (write_strs out (it_table strs)) (\<lambda>out.
        let out = write_etys (write_u32 out (of_nat (length etys))) etys;
            out = write_u32 out (of_nat (length ttys))
        in write_ttys strs out ttys))"

definition serialize :: "heap \<Rightarrow> program \<Rightarrow> stream res" where
  "serialize h p =
     bind_res (do_writes p (program_writes h p) ser_init) (\<lambda>s.
     bind_res (serialize_header (se_strs s) (it_table (se_etys s)) (it_table (se_ttys s))) (\<lambda>header.
     Inr (header @ se_out s)))"

section \<open>Deserialization\<close>

subsection \<open>The header\<close>

record header =
  hd_strs :: "string id_table"
  hd_etys :: "ExprType id_table"
  hd_ttys :: "Type id_table"

fun elemKind_of_code :: "u8 \<Rightarrow> ElemKind res" where
  "elemKind_of_code c =
     (if c = 0 then Inr Float32Ty else if c = 1 then Inr Int8Ty else if c = 2 then Inr IndexTy
      else if c = 3 then Inr PtrTy else if c = 4 then Inr StringTy
      else Inl (UB ''no such ElemKind''))"

declare elemKind_of_code.simps [simp del]

fun read_strs :: "nat \<Rightarrow> string id_table \<Rightarrow> reader \<Rightarrow> (string id_table \<times> reader) res" where
  "read_strs 0 t r = Inr (t, r)"
| "read_strs (Suc n) t r =
     bind_res (readStr r) (\<lambda>(s, r). bind_res (getIdFor (=) t s) (\<lambda>(_, t). read_strs n t r))"

fun read_etys :: "nat \<Rightarrow> ExprType id_table \<Rightarrow> reader \<Rightarrow> (ExprType id_table \<times> reader) res" where
  "read_etys 0 t r = Inr (t, r)"
| "read_etys (Suc n) t r =
     bind_res (readU8 r) (\<lambda>(tp, r). bind_res (readU8 r) (\<lambda>(width, r).
     bind_res (elemKind_of_code tp) (\<lambda>k. bind_res (mkExprType k (ucast width)) (\<lambda>et.
     bind_res (getIdFor ExprType_isEqual t et) (\<lambda>(_, t). read_etys n t r)))))"

fun read_dims :: "nat \<Rightarrow> string id_table \<Rightarrow> reader \<Rightarrow> (u32 list \<times> string list \<times> reader) res" where
  "read_dims 0 t r = Inr ([], [], r)"
| "read_dims (Suc n) t r =
     bind_res (readU32 r) (\<lambda>(d, r). bind_res (readU32 r) (\<lambda>(i, r). bind_res (getById t i) (\<lambda>name.
     bind_res (read_dims n t r) (\<lambda>(ds, names, r). Inr (d # ds, name # names, r)))))"

fun read_ttys :: "nat \<Rightarrow> string id_table \<Rightarrow> Type id_table \<Rightarrow> reader \<Rightarrow> (Type id_table \<times> reader) res" where
  "read_ttys 0 strs t r = Inr (t, r)"
| "read_ttys (Suc n) strs t r =
     bind_res (readU8 r) (\<lambda>(elemTy, r). bind_res (readU8 r) (\<lambda>(numDims, r).
     bind_res (read_dims (unat numDims) strs r) (\<lambda>(sizes, names, r).
     bind_res (elemKind_of_code elemTy) (\<lambda>k. bind_res (mkType k sizes names) (\<lambda>T.
     bind_res (getIdFor Type_isEqual t T) (\<lambda>(_, t). read_ttys n strs t r))))))"

definition deserialize_header :: "reader \<Rightarrow> (header \<times> reader) res" where
  "deserialize_header r =
     bind_res (readU32 r) (\<lambda>(magic, r).
     bind_res (require (magic = 0x03070102) ''Invalid signature'') (\<lambda>_.
     bind_res (readU32 r) (\<lambda>(n, r).
     bind_res (read_strs (unat n) empty_table r) (\<lambda>(strs, r).
     bind_res (readU32 r) (\<lambda>(n, r).
     bind_res (read_etys (unat n) empty_table r) (\<lambda>(etys, r).
     bind_res (readU32 r) (\<lambda>(n, r).
     bind_res (read_ttys (unat n) strs empty_table r) (\<lambda>(ttys, r).
     Inr (\<lparr>hd_strs = lock_table strs, hd_etys = lock_table etys, hd_ttys = lock_table ttys\<rparr>, r)))))))))"

subsection \<open>The state of the deserializer\<close>

datatype dshell = DProg | DLoop loop_ptr | DIf expr int int | DStmt stmt

datatype dnode = DNode u32 dshell "dnode list"

text \<open>What the statement map knows of a statement: the program, a loop, another scope, or no scope.\<close>

datatype sref = RProg | RLoop loop_ptr | RIf | RLeaf

record des =
  ds_rd :: reader
  ds_heap :: heap
  ds_prog :: program
  ds_exprs :: "u32 \<rightharpoonup> expr"
  ds_used :: "u32 set"
  ds_stmts :: "u32 \<rightharpoonup> sref"
  ds_later :: "u32 list"
  ds_tree :: dnode

definition registerExpr :: "u32 \<Rightarrow> expr \<Rightarrow> des \<Rightarrow> des res" where
  "registerExpr i e d =
     bind_res (require (ds_exprs d i = None) ''id already in map'')
       (\<lambda>_. Inr (d\<lparr>ds_exprs := (ds_exprs d)(i \<mapsto> e)\<rparr>))"

definition registerStmt :: "u32 \<Rightarrow> sref \<Rightarrow> des \<Rightarrow> des res" where
  "registerStmt i s d =
     bind_res (require (ds_stmts d i = None) ''id already in map'')
       (\<lambda>_. Inr (d\<lparr>ds_stmts := (ds_stmts d)(i \<mapsto> s)\<rparr>))"

definition registerResolveLater :: "u32 \<Rightarrow> des \<Rightarrow> des" where
  "registerResolveLater i d = d\<lparr>ds_later := ds_later d @ [i]\<rparr>"

text \<open>\<open>getExpr\<close>, by a node that takes the ownership.\<close>

definition getExpr :: "u32 \<Rightarrow> des \<Rightarrow> (expr \<times> des) res" where
  "getExpr i d =
     (case ds_exprs d i of
        None \<Rightarrow> Inl (AssertFail ''id not in map'')
      | Some e \<Rightarrow>
          if i \<in> ds_used d then Inl (UB ''expression has two owners'')
          else Inr (e, d\<lparr>ds_used := insert i (ds_used d)\<rparr>))"

definition getStmt :: "u32 \<Rightarrow> des \<Rightarrow> sref res" where
  "getStmt i d =
     (case ds_stmts d i of None \<Rightarrow> Inl (AssertFail ''id not in map'') | Some s \<Rightarrow> Inr s)"

text \<open>Reading, in the state.\<close>

definition get8 :: "des \<Rightarrow> (u8 \<times> des) res" where
  "get8 d = bind_res (readU8 (ds_rd d)) (\<lambda>(x, r). Inr (x, d\<lparr>ds_rd := r\<rparr>))"

definition get32 :: "des \<Rightarrow> (u32 \<times> des) res" where
  "get32 d = bind_res (readU32 (ds_rd d)) (\<lambda>(x, r). Inr (x, d\<lparr>ds_rd := r\<rparr>))"

definition get_f32 :: "des \<Rightarrow> (f32 \<times> des) res" where
  "get_f32 d = bind_res (readF32 (ds_rd d)) (\<lambda>(x, r). Inr (x, d\<lparr>ds_rd := r\<rparr>))"

definition get_kid :: "des \<Rightarrow> (expr \<times> des) res" where
  "get_kid d = bind_res (get32 d) (\<lambda>(i, d). getExpr i d)"

fun get_kids :: "nat \<Rightarrow> des \<Rightarrow> (expr list \<times> des) res" where
  "get_kids 0 d = Inr ([], d)"
| "get_kids (Suc n) d =
     bind_res (get_kid d) (\<lambda>(e, d). bind_res (get_kids n d) (\<lambda>(es, d). Inr (e # es, d)))"

fun binOp_of_code :: "u8 \<Rightarrow> BinOpKind res" where
  "binOp_of_code c =
     (if c = 0 then Inr Mul else if c = 1 then Inr Add else if c = 2 then Inr Div
      else if c = 3 then Inr Sub else if c = 4 then Inr BinOpKind.Max else if c = 5 then Inr BinOpKind.Min
      else if c = 6 then Inr Pow else Inl (UB ''no such BinOpKind''))"

fun unOp_of_code :: "u8 \<Rightarrow> UnaryOpKind res" where
  "unOp_of_code c =
     (if c = 0 then Inr Exp else if c = 1 then Inr Log else if c = 2 then Inr Sqrt
      else if c = 3 then Inr Abs else Inl (UB ''no such UnaryOpKind''))"

declare binOp_of_code.simps [simp del] unOp_of_code.simps [simp del]

subsection \<open>Expressions\<close>

definition deserialize_binary :: "u32 \<Rightarrow> des \<Rightarrow> des res" where
  "deserialize_binary i d =
     bind_res (get8 d) (\<lambda>(kind, d). bind_res (get_kid d) (\<lambda>(L, d). bind_res (get_kid d) (\<lambda>(R, d).
     bind_res (binOp_of_code kind) (\<lambda>k. bind_res (new_BinaryExpr L R k) (\<lambda>e. registerExpr i e d)))))"

text \<open>
  \<open>deserializeExpr\<close>. The case of string constants has no \<open>return\<close> and continues with the case of
  binary expressions.
\<close>

definition deserialize_expr :: "header \<Rightarrow> des \<Rightarrow> des res" where
  "deserialize_expr H d =
     bind_res (get32 d) (\<lambda>(opcode, d).
     bind_res (require (opcode < 10) ''Invalid token'') (\<lambda>_.
     bind_res (get32 d) (\<lambda>(i, d).
     if opcode = 0 then bind_res (get32 d) (\<lambda>(v, d). registerExpr i (ConstantExpr (i64_of_u32 v)) d)
     else if opcode = 1 then bind_res (get_f32 d) (\<lambda>(f, d). registerExpr i (ConstantFPExpr f) d)
     else if opcode = 2 then
       bind_res (get32 d) (\<lambda>(s, d). bind_res (getById (hd_strs H) s) (\<lambda>val.
       bind_res (registerExpr i (ConstantStringExpr val) d) (deserialize_binary i)))
     else if opcode = 3 then deserialize_binary i d
     else if opcode = 4 then
       bind_res (get8 d) (\<lambda>(kind, d). bind_res (get_kid d) (\<lambda>(V, d).
       bind_res (unOp_of_code kind) (\<lambda>k. registerExpr i (UnaryExpr k V) d)))
     else if opcode = 9 then
       bind_res (get32 d) (\<lambda>(a, d). bind_res (getArg (ds_prog d) (unat a)) (\<lambda>arg.
       bind_res (get32 d) (\<lambda>(n, d). bind_res (get_kids (unat n) d) (\<lambda>(indices, d).
       bind_res (new_GEPExpr (ds_heap d) arg indices) (\<lambda>e. registerExpr i e d)))))
     else if opcode = 5 then
       bind_res (get32 d) (\<lambda>(t, d). bind_res (getById (hd_etys H) t) (\<lambda>ety.
       bind_res (get_kid d) (\<lambda>(g, d). bind_res (new_LoadExpr g ety) (\<lambda>e. registerExpr i e d))))
     else if opcode = 6 then
       bind_res (get32 d) (\<lambda>(v, d). bind_res (getVarAt (ds_prog d) (unat v)) (\<lambda>var.
       registerExpr i (new_LoadLocalExpr (ds_heap d) var) d))
     else if opcode = 7 then
       bind_res (get_kid d) (\<lambda>(V, d). bind_res (get8 d) (\<lambda>(vf, d).
       bind_res (new_BroadcastExpr V (ucast vf)) (\<lambda>e. registerExpr i e d)))
     else
       bind_res (get32 d) (\<lambda>(L, d).
       bind_res (registerExpr i (new_IndexExpr (unat L)) d) (\<lambda>d. Inr (registerResolveLater L d))))))"

fun repeat_res :: "nat \<Rightarrow> ('s \<Rightarrow> 's res) \<Rightarrow> 's \<Rightarrow> 's res" where
  "repeat_res 0 f s = Inr s"
| "repeat_res (Suc n) f s = bind_res (f s) (repeat_res n f)"

subsection \<open>Statements\<close>

text \<open>\<open>parent->addStmt(S)\<close>: the new node becomes the last child.\<close>

fun graft :: "u32 \<Rightarrow> dnode \<Rightarrow> dnode \<Rightarrow> dnode" where
  "graft pid x (DNode i sh ks) = DNode i sh (map (graft pid x) ks @ (if i = pid then [x] else []))"

definition add_stmt :: "u32 \<Rightarrow> u32 \<Rightarrow> dshell \<Rightarrow> sref \<Rightarrow> des \<Rightarrow> des res" where
  "add_stmt pid i sh ref d =
     bind_res (getStmt pid d) (\<lambda>parent.
     if parent = RLeaf then Inl (UB ''parent is not a scope'')
     else registerStmt i ref (d\<lparr>ds_tree := graft pid (DNode i sh []) (ds_tree d)\<rparr>))"

definition deserialize_stmt :: "header \<Rightarrow> des \<Rightarrow> des res" where
  "deserialize_stmt H d =
     bind_res (get32 d) (\<lambda>(opcode, d).
     bind_res (require (opcode < 5) ''Invalid token'') (\<lambda>_.
     bind_res (get32 d) (\<lambda>(i, d). bind_res (get32 d) (\<lambda>(pid, d).
     bind_res (getStmt pid d) (\<lambda>_.
     if opcode = 0 then
       bind_res (get32 d) (\<lambda>(s, d). bind_res (getById (hd_strs H) s) (\<lambda>name.
       bind_res (get32 d) (\<lambda>(fin, d). bind_res (get32 d) (\<lambda>(stride, d).
       let (L, h') = new_loop (ds_heap d) name fin stride in
       add_stmt pid i (DLoop L) (RLoop L) (d\<lparr>ds_heap := h'\<rparr>)))))
     else if opcode = 4 then
       bind_res (get_kid d) (\<lambda>(val, d). bind_res (get32 d) (\<lambda>(start, d). bind_res (get32 d) (\<lambda>(fin, d).
       add_stmt pid i (DIf val (int_of_u32 start) (int_of_u32 fin)) RIf d)))
     else if opcode = 1 then
       bind_res (get32 d) (\<lambda>(s, d). bind_res (getById (hd_strs H) s) (\<lambda>name.
       bind_res (get8 d) (\<lambda>(n, d). bind_res (get_kids (unat n) d) (\<lambda>(params, d).
       add_stmt pid i (DStmt (CallStmt name params)) RLeaf d))))
     else if opcode = 2 then
       bind_res (get8 d) (\<lambda>(acc, d). bind_res (get_kid d) (\<lambda>(x, d). bind_res (get_kid d) (\<lambda>(g, d).
       bind_res (new_StoreStmt g x (acc \<noteq> 0)) (\<lambda>s. add_stmt pid i (DStmt s) RLeaf d))))
     else
       bind_res (get32 d) (\<lambda>(v, d). bind_res (getVarAt (ds_prog d) (unat v)) (\<lambda>var.
       bind_res (get8 d) (\<lambda>(acc, d). bind_res (get_kid d) (\<lambda>(x, d).
       bind_res (new_StoreLocalStmt (ds_heap d) var x (acc \<noteq> 0)) (\<lambda>s. add_stmt pid i (DStmt s) RLeaf d)))))))))) "

subsection \<open>Programs\<close>

fun read_args :: "nat \<Rightarrow> header \<Rightarrow> des \<Rightarrow> des res" where
  "read_args 0 H d = Inr d"
| "read_args (Suc n) H d =
     bind_res (get32 d) (\<lambda>(s, d). bind_res (getById (hd_strs H) s) (\<lambda>name.
     bind_res (get32 d) (\<lambda>(t, d). bind_res (getById (hd_ttys H) t) (\<lambda>type.
     let (a, h') = new_arg (ds_heap d) \<lparr>arg_name = name, arg_type = type\<rparr> in
     read_args n H (d\<lparr>ds_heap := h', ds_prog := addArg (ds_prog d) a\<rparr>)))))"

fun read_vars :: "nat \<Rightarrow> header \<Rightarrow> des \<Rightarrow> des res" where
  "read_vars 0 H d = Inr d"
| "read_vars (Suc n) H d =
     bind_res (get32 d) (\<lambda>(s, d). bind_res (getById (hd_strs H) s) (\<lambda>name.
     bind_res (get32 d) (\<lambda>(t, d). bind_res (getById (hd_etys H) t) (\<lambda>type.
     let (v, h') = new_var (ds_heap d) \<lparr>var_name = name, var_type = type\<rparr> in
     read_vars n H (d\<lparr>ds_heap := h', ds_prog := addVar (ds_prog d) v\<rparr>)))))"

text \<open>Renaming the pointers of a node; resolving the indices renames the loops.\<close>

fun ren_expr :: "(loop_ptr \<Rightarrow> loop_ptr) \<Rightarrow> (arg_ptr \<Rightarrow> arg_ptr) \<Rightarrow> (var_ptr \<Rightarrow> var_ptr) \<Rightarrow> expr \<Rightarrow> expr" where
  "ren_expr fl fa fv (IndexExpr ty L) = IndexExpr ty (fl L)"
| "ren_expr fl fa fv (BinaryExpr k l r) = BinaryExpr k (ren_expr fl fa fv l) (ren_expr fl fa fv r)"
| "ren_expr fl fa fv (UnaryExpr k e) = UnaryExpr k (ren_expr fl fa fv e)"
| "ren_expr fl fa fv (BroadcastExpr e vf) = BroadcastExpr (ren_expr fl fa fv e) vf"
| "ren_expr fl fa fv (GEPExpr a is) = GEPExpr (fa a) (map (ren_expr fl fa fv) is)"
| "ren_expr fl fa fv (LoadExpr ty g) = LoadExpr ty (ren_expr fl fa fv g)"
| "ren_expr fl fa fv (LoadLocalExpr ty v) = LoadLocalExpr ty (fv v)"
| "ren_expr fl fa fv e = e"

fun ren_stmt :: "(loop_ptr \<Rightarrow> loop_ptr) \<Rightarrow> (arg_ptr \<Rightarrow> arg_ptr) \<Rightarrow> (var_ptr \<Rightarrow> var_ptr) \<Rightarrow> stmt \<Rightarrow> stmt" where
  "ren_stmt fl fa fv (Loop L body) = Loop (fl L) (map (ren_stmt fl fa fv) body)"
| "ren_stmt fl fa fv (IfRange val lo hi body) =
     IfRange (ren_expr fl fa fv val) lo hi (map (ren_stmt fl fa fv) body)"
| "ren_stmt fl fa fv (CallStmt name params) = CallStmt name (map (ren_expr fl fa fv) params)"
| "ren_stmt fl fa fv (StoreStmt gep x acc) = StoreStmt (ren_expr fl fa fv gep) (ren_expr fl fa fv x) acc"
| "ren_stmt fl fa fv (StoreLocalStmt v x acc) = StoreLocalStmt (fv v) (ren_expr fl fa fv x) acc"

text \<open>The finished tree; \<open>f\<close> gives the loop an index was waiting for.\<close>

fun build :: "(nat \<Rightarrow> loop_ptr) \<Rightarrow> dnode \<Rightarrow> stmt list" where
  "build f (DNode i sh ks) =
     (let body = concat (map (build f) ks) in
      case sh of
        DProg \<Rightarrow> body
      | DLoop L \<Rightarrow> [Loop L body]
      | DIf val lo hi \<Rightarrow> [IfRange (ren_expr f id id val) lo hi body]
      | DStmt s \<Rightarrow> [ren_stmt f id id s])"

definition resolve :: "des \<Rightarrow> u32 \<Rightarrow> unit res" where
  "resolve d i =
     bind_res (getStmt i d) (\<lambda>s. case s of RLoop L \<Rightarrow> Inr () | _ \<Rightarrow> Inl (UB ''index without a loop''))"

definition resolved :: "des \<Rightarrow> nat \<Rightarrow> loop_ptr" where
  "resolved d i = (case ds_stmts d (of_nat i) of Some (RLoop L) \<Rightarrow> L | _ \<Rightarrow> i)"

definition deserialize :: "heap \<Rightarrow> stream \<Rightarrow> (program \<times> heap) res" where
  "deserialize h media =
     bind_res (deserialize_header \<lparr>rd_stream = media, rd_pos = 0\<rparr>) (\<lambda>(H, r).
     bind_res (readU32 r) (\<lambda>(s, r). bind_res (getById (hd_strs H) s) (\<lambda>name.
     let d = \<lparr>ds_rd = r, ds_heap = h, ds_prog = \<lparr>pr_name = name, pr_args = [], pr_vars = [], pr_body = []\<rparr>,
              ds_exprs = Map.empty, ds_used = {}, ds_stmts = [0 \<mapsto> RProg], ds_later = [],
              ds_tree = DNode 0 DProg []\<rparr> in
     bind_res (get32 d) (\<lambda>(n, d). bind_res (read_args (unat n) H d) (\<lambda>d.
     bind_res (get32 d) (\<lambda>(n, d). bind_res (read_vars (unat n) H d) (\<lambda>d.
     bind_res (get32 d) (\<lambda>(n, d). bind_res (repeat_res (unat n) (deserialize_expr H) d) (\<lambda>d.
     bind_res (get32 d) (\<lambda>(n, d). bind_res (repeat_res (unat n) (deserialize_stmt H) d) (\<lambda>d.
     bind_res (each_res (resolve d) (ds_later d)) (\<lambda>_.
     Inr ((ds_prog d)\<lparr>pr_body := build (resolved d) (ds_tree d)\<rparr>, ds_heap d)))))))))))))"

end
