(* ===== verification/SerializeFacts.thy ===== *)
theory SerializeFacts
  imports Bytecode
begin

text \<open>
  What the serializer writes. The numbers in the stream depend on the state of the tables at the
  moment of writing, but tables only grow and a number never changes its meaning: so the stream is
  a function of the final tables, \<open>enc_puts\<close>, and the header is \<open>enc_header\<close>.
\<close>

section \<open>Numbers of a table\<close>

definition id_in :: "('a \<Rightarrow> 'a \<Rightarrow> bool) \<Rightarrow> 'a id_table \<Rightarrow> 'a \<Rightarrow> u32" where
  "id_in eq t x = of_nat (the (search eq 0 (it_table t) x))"

definition known_in :: "('a \<Rightarrow> 'a \<Rightarrow> bool) \<Rightarrow> 'a id_table \<Rightarrow> 'a \<Rightarrow> bool" where
  "known_in eq t x \<longleftrightarrow> search eq 0 (it_table t) x \<noteq> None"

lemma search_append: "search eq i ys x = Some j \<Longrightarrow> search eq i (ys @ zs) x = Some j"
  by (induction ys arbitrary: i) (auto split: if_splits)

lemma search_last: "search eq i ys x = None \<Longrightarrow> eq x x \<Longrightarrow> search eq i (ys @ x # zs) x = Some (i + length ys)"
  by (induction ys arbitrary: i) (auto split: if_splits)

context id_store
begin

lemma getIdFor_id:
  assumes "getIdFor eq t x = Inr (i, t')" "grows t' F"
  shows "i = id_in eq F x" "known_in eq F x"
proof -
  obtain ys where F: "it_table F = it_table t' @ ys" using assms(2) by (auto simp: grows_def)
  have "\<exists>j. i = of_nat j \<and> search eq 0 (it_table F) x = Some j"
    using assms(1)
  proof (cases rule: getIdFor_cases)
    case (old j)
    then show ?thesis using F search_append by fastforce
  next
    case new
    then show ?thesis using F search_last [OF new(1) eq_refl, of ys] by simp
  qed
  then show "i = id_in eq F x" "known_in eq F x" by (auto simp: id_in_def known_in_def)
qed

lemma getIdFor_open:
  assumes "\<not> it_locked t" "length (it_table t) \<le> n"
  shows "\<exists>i t'. getIdFor eq t x = Inr (i, t') \<and> \<not> it_locked t' \<and> length (it_table t') \<le> Suc n
    \<and> (wf_table t \<longrightarrow> wf_table t')"
proof -
  obtain i t' where g: "getIdFor eq t x = Inr (i, t')" and l: "length (it_table t') \<le> Suc n"
    using assms by (cases "search eq 0 (it_table t) x") (auto simp: getIdFor_def require_def)
  with getIdFor_grows [OF g] getIdFor_wf [OF g] assms(1) show ?thesis by (auto simp: grows_def)
qed

lemma known_lookup:
  assumes "known_in eq F x" "length (it_table F) \<le> 2 ^ 32"
  shows "\<exists>y. getById F (id_in eq F x) = Inr y \<and> eq y x"
proof -
  obtain j where j: "search eq 0 (it_table F) x = Some j" using assms(1) by (auto simp: known_in_def)
  from search_Some [OF j] have b: "j < length (it_table F)" "eq (it_table F ! j) x" by simp_all
  with assms(2) have "unat (of_nat j :: u32) = j" by (intro unat_of_nat_u32) simp
  then show ?thesis using j b by (simp add: id_in_def getById_def require_def)
qed

lemma id_inject:
  assumes "known_in eq F x" "known_in eq F y" "length (it_table F) \<le> 2 ^ 32" "id_in eq F x = id_in eq F y"
  shows "eq x y"
  using known_lookup [OF assms(1,3)] known_lookup [OF assms(2,3)] assms(4) by (metis Inr_inject eq_sym eq_trans)

end

section \<open>The stream of a list of writes\<close>

definition ser_grows :: "ser \<Rightarrow> ser \<Rightarrow> bool" where
  "ser_grows s F \<longleftrightarrow>
     grows (se_strs s) (se_strs F) \<and> grows (se_etys s) (se_etys F) \<and> grows (se_ttys s) (se_ttys F)
     \<and> grows (se_exprs s) (se_exprs F) \<and> grows (se_stmts s) (se_stmts F)"

lemma ser_grows_refl [simp]: "ser_grows s s"
  by (simp add: ser_grows_def)

lemma ser_grows_trans: "ser_grows s t \<Longrightarrow> ser_grows t u \<Longrightarrow> ser_grows s u"
  by (auto simp: ser_grows_def intro: grows_trans)

fun enc_put :: "ser \<Rightarrow> program \<Rightarrow> put \<Rightarrow> stream" where
  "enc_put F p (W8 b) = [b]"
| "enc_put F p (W32 n) = enc_u32 n"
| "enc_put F p (WF32 f) = enc_u32 f"
| "enc_put F p (WStr x) = enc_u32 (id_in (=) (se_strs F) x)"
| "enc_put F p (WEty x) = enc_u32 (id_in ExprType_isEqual (se_etys F) x)"
| "enc_put F p (WTty x) = enc_u32 (id_in Type_isEqual (se_ttys F) x)"
| "enc_put F p (WExpr x) = enc_u32 (id_in (=) (se_exprs F) x)"
| "enc_put F p (WStmt x) = enc_u32 (id_in (=) (se_stmts F) x)"
| "enc_put F p (WArg a) = enc_u32 (of_nat (the (indexIn 0 (pr_args p) a)))"
| "enc_put F p (WVar v) = enc_u32 (of_nat (the (indexIn 0 (pr_vars p) v)))"
| "enc_put F p (Touch x) = []"

definition enc_puts :: "ser \<Rightarrow> program \<Rightarrow> put list \<Rightarrow> stream" where
  "enc_puts F p ws = concat (map (enc_put F p) ws)"

lemma enc_puts_simps [simp]:
  "enc_puts F p [] = []" "enc_puts F p (w # ws) = enc_put F p w @ enc_puts F p ws"
  "enc_puts F p (ws @ ws') = enc_puts F p ws @ enc_puts F p ws'"
  by (simp_all add: enc_puts_def)

text \<open>What a write needs to be readable.\<close>

fun known :: "ser \<Rightarrow> program \<Rightarrow> put \<Rightarrow> bool" where
  "known F p (WStr x) = known_in (=) (se_strs F) x"
| "known F p (WEty x) = known_in ExprType_isEqual (se_etys F) x"
| "known F p (WTty x) = known_in Type_isEqual (se_ttys F) x"
| "known F p (WExpr x) = known_in (=) (se_exprs F) x"
| "known F p (WStmt x) = known_in (=) (se_stmts F) x"
| "known F p (Touch x) = known_in (=) (se_stmts F) x"
| "known F p (WArg a) = (a \<in> set (pr_args p))"
| "known F p (WVar v) = (v \<in> set (pr_vars p))"
| "known F p w = True"

lemma indexIn_None: "indexIn i xs x = None \<longleftrightarrow> x \<notin> set xs"
  by (induction i xs x rule: indexIn.induct) auto

lemma indexIn_Some: "indexIn i xs x = Some j \<Longrightarrow> i \<le> j \<and> j - i < length xs \<and> xs ! (j - i) = x"
  by (induction i xs x arbitrary: j rule: indexIn.induct) (fastforce simp: nth_Cons' split: if_splits)+

lemma do_write_stream:
  assumes "do_write p w s = Inr s'"
  shows "ser_grows s s' \<and> (\<forall>F. ser_grows s' F \<longrightarrow> se_out s' = se_out s @ enc_put F p w \<and> known F p w)"
proof (cases w)
  case (WStr x)
  with assms obtain i t where g: "getIdFor (=) (se_strs s) x = Inr (i, t)"
    and s': "s' = s\<lparr>se_strs := t, se_out := write_u32 (se_out s) i\<rparr>" by auto
  show ?thesis
    using nodes.getIdFor_grows [OF g] nodes.getIdFor_id [OF g] WStr by (fastforce simp: s' ser_grows_def write_u32_enc)
next
  case (WEty x)
  with assms obtain i t where g: "getIdFor ExprType_isEqual (se_etys s) x = Inr (i, t)"
    and s': "s' = s\<lparr>se_etys := t, se_out := write_u32 (se_out s) i\<rparr>" by auto
  show ?thesis
    using etypes.getIdFor_grows [OF g] etypes.getIdFor_id [OF g] WEty by (fastforce simp: s' ser_grows_def write_u32_enc)
next
  case (WTty x)
  with assms obtain i t where g: "getIdFor Type_isEqual (se_ttys s) x = Inr (i, t)"
    and s': "s' = s\<lparr>se_ttys := t, se_out := write_u32 (se_out s) i\<rparr>" by auto
  show ?thesis
    using ttypes.getIdFor_grows [OF g] ttypes.getIdFor_id [OF g] WTty by (fastforce simp: s' ser_grows_def write_u32_enc)
next
  case (WExpr x)
  with assms obtain i t where g: "getIdFor (=) (se_exprs s) x = Inr (i, t)"
    and s': "s' = s\<lparr>se_exprs := t, se_out := write_u32 (se_out s) i\<rparr>" by auto
  show ?thesis
    using nodes.getIdFor_grows [OF g] nodes.getIdFor_id [OF g] WExpr by (fastforce simp: s' ser_grows_def write_u32_enc)
next
  case (WStmt x)
  with assms obtain i t where g: "getIdFor (=) (se_stmts s) x = Inr (i, t)"
    and s': "s' = s\<lparr>se_stmts := t, se_out := write_u32 (se_out s) i\<rparr>" by auto
  show ?thesis
    using nodes.getIdFor_grows [OF g] nodes.getIdFor_id [OF g] WStmt by (fastforce simp: s' ser_grows_def write_u32_enc)
next
  case (Touch x)
  with assms obtain i t where g: "getIdFor (=) (se_stmts s) x = Inr (i, t)"
    and s': "s' = s\<lparr>se_stmts := t\<rparr>" by auto
  show ?thesis
    using nodes.getIdFor_grows [OF g] nodes.getIdFor_id [OF g] Touch by (fastforce simp: s' ser_grows_def)
next
  case (WArg a)
  with assms show ?thesis
    using indexIn_None [of 0 "pr_args p" a] by (auto simp: getArgIndex_def write_u32_enc ser_grows_def split: option.splits)
next
  case (WVar v)
  with assms show ?thesis
    using indexIn_None [of 0 "pr_vars p" v] by (auto simp: getVarIndex_def write_u32_enc ser_grows_def split: option.splits)
qed (use assms in \<open>auto simp: write_u8_def write_u32_enc write_f32_def ser_grows_def\<close>)

lemma do_writes_stream:
  "do_writes p ws s = Inr s' \<Longrightarrow> ser_grows s s' \<and>
     (\<forall>F. ser_grows s' F \<longrightarrow> se_out s' = se_out s @ enc_puts F p ws \<and> (\<forall>w \<in> set ws. known F p w))"
proof (induction ws arbitrary: s)
  case (Cons w ws)
  then obtain s1 where s1: "do_write p w s = Inr s1" "do_writes p ws s1 = Inr s'" by auto
  from do_write_stream [OF s1(1)] Cons.IH [OF s1(2)] show ?case by (auto intro: ser_grows_trans)
qed simp

text \<open>Nothing is locked while the body is written, so all writes go through.\<close>

definition open_tables :: "nat \<Rightarrow> ser \<Rightarrow> bool" where
  "open_tables n s \<longleftrightarrow>
     \<not> it_locked (se_strs s) \<and> \<not> it_locked (se_etys s) \<and> \<not> it_locked (se_ttys s)
     \<and> \<not> it_locked (se_exprs s) \<and> \<not> it_locked (se_stmts s)
     \<and> length (it_table (se_strs s)) \<le> n \<and> length (it_table (se_etys s)) \<le> n \<and> length (it_table (se_ttys s)) \<le> n
     \<and> length (it_table (se_exprs s)) \<le> n \<and> length (it_table (se_stmts s)) \<le> n
     \<and> names.wf_table (se_strs s) \<and> etypes.wf_table (se_etys s) \<and> ttypes.wf_table (se_ttys s)"

lemma grows_unlocked: "grows t t' \<Longrightarrow> it_locked t' = it_locked t"
  by (simp add: grows_def)

definition writable :: "program \<Rightarrow> put \<Rightarrow> bool" where
  "writable p w \<longleftrightarrow> (\<forall>a. w = WArg a \<longrightarrow> a \<in> set (pr_args p)) \<and> (\<forall>v. w = WVar v \<longrightarrow> v \<in> set (pr_vars p))"

lemma do_write_some:
  assumes o: "open_tables n s" and w: "writable p w"
  shows "\<exists>s'. do_write p w s = Inr s' \<and> open_tables (Suc n) s'"
proof -
  note u = o [unfolded open_tables_def]
  have str: "\<exists>i t. getIdFor (=) (se_strs s) x = Inr (i, t) \<and> \<not> it_locked t \<and> length (it_table t) \<le> Suc n \<and> names.wf_table t" for x
    using names.getIdFor_open [of "se_strs s" n x] u by blast
  have ety: "\<exists>i t. getIdFor ExprType_isEqual (se_etys s) x = Inr (i, t) \<and> \<not> it_locked t \<and> length (it_table t) \<le> Suc n \<and> etypes.wf_table t" for x
    using etypes.getIdFor_open [of "se_etys s" n x] u by blast
  have tty: "\<exists>i t. getIdFor Type_isEqual (se_ttys s) x = Inr (i, t) \<and> \<not> it_locked t \<and> length (it_table t) \<le> Suc n \<and> ttypes.wf_table t" for x
    using ttypes.getIdFor_open [of "se_ttys s" n x] u by blast
  have ex: "\<exists>i t. getIdFor (=) (se_exprs s) x = Inr (i, t) \<and> \<not> it_locked t \<and> length (it_table t) \<le> Suc n" for x
    using nodes.getIdFor_open [of "se_exprs s" n x] u by blast
  have st: "\<exists>i t. getIdFor (=) (se_stmts s) x = Inr (i, t) \<and> \<not> it_locked t \<and> length (it_table t) \<le> Suc n" for x
    using nodes.getIdFor_open [of "se_stmts s" n x] u by blast
  have le: "k \<le> n \<Longrightarrow> k \<le> Suc n" for k by simp
  show ?thesis
  proof (cases w)
    case (WStr x) then show ?thesis using str [of x] u by (auto simp: open_tables_def le)
  next
    case (WEty x) then show ?thesis using ety [of x] u by (auto simp: open_tables_def le)
  next
    case (WTty x) then show ?thesis using tty [of x] u by (auto simp: open_tables_def le)
  next
    case (WExpr x) then show ?thesis using ex [of x] u by (auto simp: open_tables_def le)
  next
    case (WStmt x) then show ?thesis using st [of x] u by (auto simp: open_tables_def le)
  next
    case (Touch x) then show ?thesis using st [of x] u by (auto simp: open_tables_def le)
  next
    case (WArg a)
    then obtain i where "indexIn 0 (pr_args p) a = Some i"
      using w indexIn_None [of 0 "pr_args p" a] by (auto simp: writable_def)
    then show ?thesis using WArg u by (auto simp: open_tables_def le getArgIndex_def)
  next
    case (WVar v)
    then obtain i where "indexIn 0 (pr_vars p) v = Some i"
      using w indexIn_None [of 0 "pr_vars p" v] by (auto simp: writable_def)
    then show ?thesis using WVar u by (auto simp: open_tables_def le getVarIndex_def)
  qed (use u in \<open>auto simp: open_tables_def le\<close>)
qed

lemma do_writes_some:
  "open_tables n s \<Longrightarrow> list_all (writable p) ws \<Longrightarrow> \<exists>s'. do_writes p ws s = Inr s' \<and> open_tables (n + length ws) s'"
proof (induction ws arbitrary: n s)
  case (Cons w ws)
  then obtain s1 where "do_write p w s = Inr s1" "open_tables (Suc n) s1"
    using do_write_some [of n s p w] by auto
  with Cons.IH [of "Suc n" s1] Cons.prems show ?case by auto
qed auto

lemma open_init: "open_tables 0 ser_init"
  by (simp add: open_tables_def ser_init_def empty_table_def names.wf_table_def etypes.wf_table_def ttypes.wf_table_def)

end
