(* ===== verification/HeaderFacts.thy ===== *)
theory HeaderFacts
  imports SerializeFacts
begin

text \<open>
  The header of a bytecode file: \<open>BytecodeHeader::deserialize\<close> rebuilds the three tables that
  \<open>BytecodeHeader::serialize\<close> has written, in the same order.
\<close>

section \<open>The stream of a header\<close>

definition enc_ety :: "ExprType \<Rightarrow> stream" where
  "enc_ety et = [of_nat (elemKind_code (ety_kind et)), ucast (ety_width et)]"

definition enc_dim :: "string id_table \<Rightarrow> u32 \<times> string \<Rightarrow> stream" where
  "enc_dim t dn = enc_u32 (fst dn) @ enc_u32 (id_in (=) t (snd dn))"

definition enc_tty :: "string id_table \<Rightarrow> Type \<Rightarrow> stream" where
  "enc_tty t tt =
     [of_nat (elemKind_code (ty_elem tt)), of_nat (getNumDims tt)]
     @ concat (map (enc_dim t) (zip (ty_sizes tt) (ty_names tt)))"

definition enc_header :: "string id_table \<Rightarrow> ExprType list \<Rightarrow> Type list \<Rightarrow> stream" where
  "enc_header t etys ttys =
     enc_u32 0x03070102 @ enc_u32 (of_nat (length (it_table t))) @ concat (map enc_str (it_table t))
     @ enc_u32 (of_nat (length etys)) @ concat (map enc_ety etys)
     @ enc_u32 (of_nat (length ttys)) @ concat (map (enc_tty t) ttys)"

lemma write_strs_enc:
  "list_all (\<lambda>s. length s < 256) ss \<Longrightarrow> write_strs out ss = Inr (out @ concat (map enc_str ss))"
  by (induction ss arbitrary: out) (auto simp: write_str_enc)

lemma write_etys_enc: "write_etys out ets = out @ concat (map enc_ety ets)"
proof -
  have "foldl (\<lambda>out et. write_u8 (write_u8 out (of_nat (elemKind_code (ety_kind et)))) (ucast (ety_width et))) out ets
      = out @ concat (map enc_ety ets)" for out
    by (induction ets arbitrary: out) (auto simp: write_u8_def enc_ety_def)
  then show ?thesis by (simp add: write_etys_def)
qed

lemma getIdFor_known: "known_in eq t x \<Longrightarrow> getIdFor eq t x = Inr (id_in eq t x, t)"
  by (auto simp: known_in_def getIdFor_def id_in_def)

lemma write_dims_enc:
  "list_all (\<lambda>dn. known_in (=) t (snd dn)) ds \<Longrightarrow> write_dims t out ds = Inr (out @ concat (map (enc_dim t) ds))"
  by (induction t out ds rule: write_dims.induct)
    (auto simp: getIdFor_known write_u32_enc enc_dim_def)

lemma write_ttys_enc:
  "list_all (\<lambda>tt. list_all (known_in (=) t) (ty_names tt)) tts \<Longrightarrow>
     write_ttys t out tts = Inr (out @ concat (map (enc_tty t) tts))"
proof (induction tts arbitrary: out)
  case (Cons tt tts)
  have "list_all (\<lambda>dn. known_in (=) t (snd dn)) (zip (ty_sizes tt) (ty_names tt))"
    using Cons.prems by (auto simp: list_all_iff dest: set_zip_rightD)
  from write_dims_enc [OF this] Cons show ?case
    by (simp add: write_u8_def enc_tty_def)
qed simp

lemma known_in_mem: "known_in (=) t x \<longleftrightarrow> x \<in> set (it_table t)"
  by (auto simp: known_in_def search_None list_all_iff)

lemma known_in_lock [simp]:
  "known_in eq (lock_table t) x = known_in eq t x" "id_in eq (lock_table t) x = id_in eq t x"
  "it_table (lock_table t) = it_table t"
  by (simp_all add: known_in_def id_in_def lock_table_def)

lemma enc_lock [simp]: "enc_dim (lock_table t) = enc_dim t" "enc_tty (lock_table t) = enc_tty t"
proof -
  show d: "enc_dim (lock_table t) = enc_dim t" by (simp add: fun_eq_iff enc_dim_def)
  show "enc_tty (lock_table t) = enc_tty t" unfolding enc_tty_def [abs_def] d ..
qed

lemma serialize_header_enc:
  assumes "getIdForAll (=) t0 (concat (map ty_names ttys)) = Inr t" "list_all (\<lambda>s. length s < 256) (it_table t)"
  shows "serialize_header t0 etys ttys = Inr (enc_header t etys ttys)"
proof -
  have "known_in (=) t x" if "x \<in> set (ty_names tt)" "tt \<in> set ttys" for x tt
    using nodes.getIdForAll_mem [OF assms(1), of x] that by (auto simp: known_in_mem)
  then have "list_all (\<lambda>tt. list_all (known_in (=) (lock_table t)) (ty_names tt)) ttys"
    by (simp add: list_all_iff)
  from write_ttys_enc [OF this] show ?thesis
    using assms by (simp add: serialize_header_def Let_def write_strs_enc write_etys_enc write_u32_enc enc_header_def)
qed

section \<open>Reading it back\<close>

lemma then_u8: "ahead r (b # rest) \<Longrightarrow> readU8 r = Inr (b, skip [b] r) \<and> ahead (skip [b] r) rest"
  using byte_codec.read_then [of r b rest] by simp

lemma then_u32: "ahead r (enc_u32 w @ rest) \<Longrightarrow> readU32 r = Inr (w, skip (enc_u32 w) r) \<and> ahead (skip (enc_u32 w) r) rest"
  using word_codec.read_then [of r w rest] by simp

lemma elemKind_of_code_code [simp]: "elemKind_of_code (of_nat (elemKind_code k)) = Inr k"
  by (cases k) (simp_all add: elemKind_of_code.simps)

lemma read_strs_all:
  "ahead r (concat (map enc_str ss)) \<Longrightarrow> list_all (\<lambda>s. length s < 256) ss \<Longrightarrow>
     read_strs (length ss) t r =
       bind_res (getIdForAll (=) t ss) (\<lambda>t'. Inr (t', skip (concat (map enc_str ss)) r))"
proof (induction ss arbitrary: t r)
  case (Cons s ss)
  then have s: "readStr r = Inr (s, skip (enc_str s) r)" "ahead (skip (enc_str s) r) (concat (map enc_str ss))"
    using string_codec.read_then [of s] by auto
  show ?case
  proof (cases "getIdFor (=) t s")
    case (Inr q)
    then show ?thesis using s Cons.IH [OF s(2)] Cons.prems(2) by (cases q) simp
  qed (simp add: s)
qed simp

lemma isEqual_eq: "ExprType_isEqual = (=)"
  by (simp add: fun_eq_iff)

definition ety_ok :: "ExprType \<Rightarrow> bool" where
  "ety_ok et \<longleftrightarrow> 0 < ety_width et \<and> ety_width et < 64"

lemma width_byte: "w < 64 \<Longrightarrow> ucast (ucast w :: u8) = (w :: u32)"
proof -
  assume "w < 64"
  then have "unat w < 64" by (simp add: word_less_nat_alt)
  then have "unat (ucast (ucast w :: u8) :: u32) = unat w"
    by (simp add: unsigned_ucast_eq unsigned_take_bit_eq take_bit_nat_eq_self)
  then show ?thesis by (metis word_unat_eq_iff)
qed

lemma read_etys_all:
  "ahead r (concat (map enc_ety ets)) \<Longrightarrow> list_all ety_ok ets \<Longrightarrow>
     read_etys (length ets) t r =
       bind_res (getIdForAll ExprType_isEqual t ets) (\<lambda>t'. Inr (t', skip (concat (map enc_ety ets)) r))"
proof (induction ets arbitrary: t r)
  case (Cons et ets)
  have a: "ahead r (of_nat (elemKind_code (ety_kind et)) # ucast (ety_width et) # concat (map enc_ety ets))"
    using Cons.prems(1) enc_ety_def [of et] by simp
  note s1 = then_u8 [OF a] and s2 = then_u8 [OF then_u8 [OF a, THEN conjunct2]]
  have e: "readU8 r = Inr (of_nat (elemKind_code (ety_kind et)), skip [of_nat (elemKind_code (ety_kind et))] r)"
    "readU8 (skip [of_nat (elemKind_code (ety_kind et))] r) = Inr (ucast (ety_width et), skip (enc_ety et) r)"
    "ahead (skip (enc_ety et) r) (concat (map enc_ety ets))"
    using s1 s2 by (simp_all add: enc_ety_def)
  have "mkExprType (ety_kind et) (ucast (ucast (ety_width et) :: u8)) = Inr et"
    using Cons.prems(2) by (simp add: mkExprType_def ety_ok_def width_byte require_def)
  with Cons.IH [OF e(3)] Cons.prems(2) e show ?case
    by (cases "getIdFor (=) t et") (auto simp: isEqual_eq)
qed simp

lemma read_dims_all:
  assumes "length (it_table t) \<le> 2 ^ 32"
  shows "ahead r (concat (map (enc_dim t) ds)) \<Longrightarrow> list_all (\<lambda>dn. known_in (=) t (snd dn)) ds \<Longrightarrow>
     read_dims (length ds) t r = Inr (map fst ds, map snd ds, skip (concat (map (enc_dim t) ds)) r)"
proof (induction ds arbitrary: r)
  case (Cons dn ds)
  obtain d name where dn: "dn = (d, name)" by (cases dn)
  have a: "ahead r (enc_u32 d @ enc_u32 (id_in (=) t name) @ concat (map (enc_dim t) ds))"
    using Cons.prems(1) enc_dim_def [of t dn] by (simp add: dn)
  have r: "readU32 r = Inr (d, skip (enc_u32 d) r)"
    "readU32 (skip (enc_u32 d) r) = Inr (id_in (=) t name, skip (enc_dim t dn) r)"
    "ahead (skip (enc_dim t dn) r) (concat (map (enc_dim t) ds))"
    using then_u32 [OF a] then_u32 [OF then_u32 [OF a, THEN conjunct2]] by (simp_all add: dn enc_dim_def)
  have "getById t (id_in (=) t name) = Inr name"
    using nodes.known_lookup [of t name] assms Cons.prems(2) by (auto simp: dn)
  with Cons.IH [OF r(3)] Cons.prems(2) r show ?case by (simp add: dn)
qed simp

definition tty_ok :: "string id_table \<Rightarrow> Type \<Rightarrow> bool" where
  "tty_ok t tt \<longleftrightarrow>
     length (ty_names tt) = length (ty_sizes tt) \<and> length (ty_sizes tt) < 256
     \<and> list_all (known_in (=) t) (ty_names tt)"

lemma read_ttys_all:
  assumes "length (it_table strs) \<le> 2 ^ 32"
  shows "ahead r (concat (map (enc_tty strs) tts)) \<Longrightarrow> list_all (tty_ok strs) tts \<Longrightarrow>
     read_ttys (length tts) strs t r =
       bind_res (getIdForAll Type_isEqual t tts) (\<lambda>t'. Inr (t', skip (concat (map (enc_tty strs) tts)) r))"
proof (induction tts arbitrary: t r)
  case (Cons tt tts)
  let ?k = "of_nat (elemKind_code (ty_elem tt)) :: u8" and ?n = "of_nat (getNumDims tt) :: u8"
  let ?ds = "zip (ty_sizes tt) (ty_names tt)"
  have ok: "length (ty_names tt) = length (ty_sizes tt)" "length (ty_sizes tt) < 256"
    "list_all (known_in (=) strs) (ty_names tt)"
    using Cons.prems(2) by (simp_all add: tty_ok_def)
  have enc: "enc_tty strs tt = [?k] @ [?n] @ concat (map (enc_dim strs) ?ds)" by (simp add: enc_tty_def)
  have a: "ahead r (?k # ?n # concat (map (enc_dim strs) ?ds) @ concat (map (enc_tty strs) tts))"
    using Cons.prems(1) by (simp add: enc)
  have n: "unat ?n = length ?ds" using ok by (simp add: getNumDims_def unat_of_nat)
  have kn: "list_all (\<lambda>dn. known_in (=) strs (snd dn)) ?ds"
    using ok(3) by (auto simp: list_all_iff dest: set_zip_rightD)
  have r: "readU8 r = Inr (?k, skip [?k] r)" "readU8 (skip [?k] r) = Inr (?n, skip [?k, ?n] r)"
    "read_dims (unat ?n) strs (skip [?k, ?n] r) = Inr (ty_sizes tt, ty_names tt, skip (enc_tty strs tt) r)"
    "ahead (skip (enc_tty strs tt) r) (concat (map (enc_tty strs) tts))"
    using then_u8 [OF a] then_u8 [OF then_u8 [OF a, THEN conjunct2]]
      read_dims_all [OF assms _ kn, of "skip [?k, ?n] r"] ok(1)
    by (simp_all add: n enc ahead_append)
  have T: "mkType (ty_elem tt) (ty_sizes tt) (ty_names tt) = Inr tt"
    using ok(1) by (simp add: mkType_def require_def)
  from Cons.IH [OF r(4)] Cons.prems(2) r T show ?case
    by (cases "getIdFor Type_isEqual t tt") auto
qed simp

lemma getIdForAll_fresh:
  "distinct_by (=) ss \<Longrightarrow> getIdForAll (=) empty_table ss = Inr \<lparr>it_table = ss, it_locked = False\<rparr>"
  "distinct_by ExprType_isEqual es \<Longrightarrow> getIdForAll ExprType_isEqual empty_table es = Inr \<lparr>it_table = es, it_locked = False\<rparr>"
  "distinct_by Type_isEqual ts \<Longrightarrow> getIdForAll Type_isEqual empty_table ts = Inr \<lparr>it_table = ts, it_locked = False\<rparr>"
  using nodes.getIdForAll_distinct [of empty_table ss] etypes.getIdForAll_distinct [of empty_table es]
    ttypes.getIdForAll_distinct [of empty_table ts]
  by (simp_all add: empty_table_def)

definition header_of :: "string id_table \<Rightarrow> ExprType list \<Rightarrow> Type list \<Rightarrow> header" where
  "header_of t etys ttys =
     \<lparr>hd_strs = \<lparr>it_table = it_table t, it_locked = True\<rparr>, hd_etys = \<lparr>it_table = etys, it_locked = True\<rparr>,
      hd_ttys = \<lparr>it_table = ttys, it_locked = True\<rparr>\<rparr>"

text \<open>The round trip of the header.\<close>

lemma header_roundtrip:
  assumes a: "ahead r (enc_header t etys ttys)"
    and len: "length (it_table t) < 2 ^ 32" "length etys < 2 ^ 32" "length ttys < 2 ^ 32"
    and d: "distinct (it_table t)" "distinct_by ExprType_isEqual etys" "distinct_by Type_isEqual ttys"
    and ok: "list_all (\<lambda>s. length s < 256) (it_table t)" "list_all ety_ok etys" "list_all (tty_ok t) ttys"
  shows "deserialize_header r = Inr (header_of t etys ttys, skip (enc_header t etys ttys) r)"
proof -
  let ?m = "enc_u32 0x03070102" and ?n1 = "enc_u32 (of_nat (length (it_table t)))" and ?s = "concat (map enc_str (it_table t))"
  let ?n2 = "enc_u32 (of_nat (length etys))" and ?e = "concat (map enc_ety etys)"
  let ?n3 = "enc_u32 (of_nat (length ttys))" and ?t = "concat (map (enc_tty t) ttys)"
  let ?T = "\<lparr>it_table = it_table t, it_locked = False\<rparr>"
  note n = unat_of_nat_u32 [OF len(1)] unat_of_nat_u32 [OF len(2)] unat_of_nat_u32 [OF len(3)]
  have same: "enc_tty ?T = enc_tty t" "tty_ok ?T = tty_ok t"
    by (simp_all add: fun_eq_iff enc_tty_def enc_dim_def [abs_def] id_in_def tty_ok_def known_in_def [abs_def])
  have p: "ahead r ?m" "ahead (skip ?m r) ?n1" "ahead (skip (?m @ ?n1) r) ?s" "ahead (skip (?m @ ?n1 @ ?s) r) ?n2"
    "ahead (skip (?m @ ?n1 @ ?s @ ?n2) r) ?e" "ahead (skip (?m @ ?n1 @ ?s @ ?n2 @ ?e) r) ?n3"
    "ahead (skip (?m @ ?n1 @ ?s @ ?n2 @ ?e @ ?n3) r) ?t"
    using a unfolding enc_header_def ahead_append by simp_all
  have r: "readU32 r = Inr (0x03070102, skip ?m r)"
    "readU32 (skip ?m r) = Inr (of_nat (length (it_table t)), skip (?m @ ?n1) r)"
    "read_strs (length (it_table t)) empty_table (skip (?m @ ?n1) r) = Inr (?T, skip (?m @ ?n1 @ ?s) r)"
    "readU32 (skip (?m @ ?n1 @ ?s) r) = Inr (of_nat (length etys), skip (?m @ ?n1 @ ?s @ ?n2) r)"
    "read_etys (length etys) empty_table (skip (?m @ ?n1 @ ?s @ ?n2) r)
      = Inr (\<lparr>it_table = etys, it_locked = False\<rparr>, skip (?m @ ?n1 @ ?s @ ?n2 @ ?e) r)"
    "readU32 (skip (?m @ ?n1 @ ?s @ ?n2 @ ?e) r) = Inr (of_nat (length ttys), skip (?m @ ?n1 @ ?s @ ?n2 @ ?e @ ?n3) r)"
    "read_ttys (length ttys) ?T empty_table (skip (?m @ ?n1 @ ?s @ ?n2 @ ?e @ ?n3) r)
      = Inr (\<lparr>it_table = ttys, it_locked = False\<rparr>, skip (?m @ ?n1 @ ?s @ ?n2 @ ?e @ ?n3 @ ?t) r)"
    using p ok len d read_ttys_all [of ?T "skip (?m @ ?n1 @ ?s @ ?n2 @ ?e @ ?n3) r" ttys empty_table, unfolded same]
    by (simp_all add: p(1,2,4,6) [THEN readU32_ahead] read_strs_all read_etys_all getIdForAll_fresh)
  show ?thesis
    by (simp add: deserialize_header_def r n header_of_def lock_table_def require_def) (simp add: enc_header_def)
qed

end
