(* ===== verification/DecodeFacts.thy ===== *)
theory DecodeFacts
  imports HeaderFacts
begin

text \<open>
  Reading the body of a bytecode file back: the declarations, the expressions, the statements.
\<close>

section \<open>A reader between two streams\<close>

definition between :: "stream \<Rightarrow> stream \<Rightarrow> reader" where
  "between pre suf = \<lparr>rd_stream = pre @ suf, rd_pos = length pre\<rparr>"

lemma ahead_between: "ahead (between pre (bs @ suf)) bs"
  by (simp add: ahead_def between_def)

lemma skip_between: "skip bs (between pre (bs @ suf)) = between (pre @ bs) suf"
  by (simp add: skip_def between_def)

lemma read_between [simp]:
  "readU8 (between pre (b # suf)) = Inr (b, between (pre @ [b]) suf)"
  "readU32 (between pre (enc_u32 w @ suf)) = Inr (w, between (pre @ enc_u32 w) suf)"
  "readF32 (between pre (enc_u32 w @ suf)) = Inr (w, between (pre @ enc_u32 w) suf)"
  using readU8_ahead [of "between pre (b # suf)" b "[]"] ahead_between [of pre "[b]" suf] skip_between [of "[b]" pre suf]
    readU32_ahead [OF ahead_between] skip_between [of "enc_u32 w" pre suf]
  by (simp_all add: readF32_def)

lemma get_between:
  "ds_rd d = between pre (b # suf) \<Longrightarrow> get8 d = Inr (b, d\<lparr>ds_rd := between (pre @ [b]) suf\<rparr>)"
  "ds_rd d = between pre (enc_u32 w @ suf) \<Longrightarrow> get32 d = Inr (w, d\<lparr>ds_rd := between (pre @ enc_u32 w) suf\<rparr>)"
  "ds_rd d = between pre (enc_u32 f @ suf) \<Longrightarrow> get_f32 d = Inr (f, d\<lparr>ds_rd := between (pre @ enc_u32 f) suf\<rparr>)"
  by (simp_all add: get8_def get32_def get_f32_def)

section \<open>What an expression needs to be portable\<close>

fun portable_expr :: "heap \<Rightarrow> program \<Rightarrow> expr \<Rightarrow> bool" where
  "portable_expr h p (ConstantExpr v) \<longleftrightarrow> unat v < 2 ^ 32"
| "portable_expr h p (ConstantFPExpr f) \<longleftrightarrow> True"
| "portable_expr h p (ConstantStringExpr s) \<longleftrightarrow> False"
| "portable_expr h p (BinaryExpr k l r) \<longleftrightarrow> getType l = getType r \<and> portable_expr h p l \<and> portable_expr h p r"
| "portable_expr h p (UnaryExpr k e) \<longleftrightarrow> portable_expr h p e"
| "portable_expr h p (LoadExpr ty g) \<longleftrightarrow> is_GEP g \<and> ety_ok ty \<and> portable_expr h p g"
| "portable_expr h p (LoadLocalExpr ty v) \<longleftrightarrow> v \<in> set (pr_vars p) \<and> ty = var_type (hp_var h v)"
| "portable_expr h p (BroadcastExpr e vf) \<longleftrightarrow> ety_width (getType e) = 1 \<and> 0 < vf \<and> vf < 64 \<and> portable_expr h p e"
| "portable_expr h p (IndexExpr ty L) \<longleftrightarrow> ty = scalarTy IndexTy"
| "portable_expr h p (GEPExpr a is) \<longleftrightarrow>
     a \<in> set (pr_args p) \<and> list_all (\<lambda>e. ety_isIndexTy (getType e)) is
     \<and> getNumDims (arg_type (hp_arg h a)) = length is \<and> length is < 2 ^ 32 \<and> list_all (portable_expr h p) is"

lemma portable_subexprs: "portable_expr h p e \<Longrightarrow> list_all (portable_expr h p) (subexprs e)"
  by (cases e) auto

section \<open>Names, tables, identifiers\<close>

text \<open>The tables of the header are the final tables of the serializer, and small enough.\<close>

definition decodes :: "header \<Rightarrow> ser \<Rightarrow> bool" where
  "decodes H F \<longleftrightarrow>
     it_table (hd_strs H) = it_table (se_strs F) \<and> it_table (hd_etys H) = it_table (se_etys F)
     \<and> it_table (hd_ttys H) = it_table (se_ttys F)
     \<and> length (it_table (se_strs F)) \<le> 2 ^ 32 \<and> length (it_table (se_etys F)) \<le> 2 ^ 32
     \<and> length (it_table (se_ttys F)) \<le> 2 ^ 32 \<and> length (it_table (se_exprs F)) \<le> 2 ^ 32
     \<and> length (it_table (se_stmts F)) \<le> 2 ^ 32"

lemma getById_same: "it_table t = it_table t' \<Longrightarrow> getById t i = getById t' i"
  by (simp add: getById_def)

lemma decodes_lookup:
  assumes "decodes H F"
  shows "known_in (=) (se_strs F) x \<Longrightarrow> getById (hd_strs H) (id_in (=) (se_strs F) x) = Inr x"
    "known_in ExprType_isEqual (se_etys F) y \<Longrightarrow> getById (hd_etys H) (id_in ExprType_isEqual (se_etys F) y) = Inr y"
    "known_in Type_isEqual (se_ttys F) z \<Longrightarrow>
       \<exists>z'. getById (hd_ttys H) (id_in Type_isEqual (se_ttys F) z) = Inr z' \<and> Type_isEqual z' z"
  using assms nodes.known_lookup [of "se_strs F" x] etypes.known_lookup [of "se_etys F" y]
    ttypes.known_lookup [of "se_ttys F" z]
    getById_same [of "hd_strs H" "se_strs F"] getById_same [of "hd_etys H" "se_etys F"] getById_same [of "hd_ttys H" "se_ttys F"]
  by (auto simp: decodes_def)

definition eid :: "ser \<Rightarrow> nat \<Rightarrow> u32" where
  "eid F n = id_in (=) (se_exprs F) n"

definition sid :: "ser \<Rightarrow> skey \<Rightarrow> u32" where
  "sid F k = id_in (=) (se_stmts F) k"

lemma eid_inject:
  "decodes H F \<Longrightarrow> known_in (=) (se_exprs F) m \<Longrightarrow> known_in (=) (se_exprs F) n \<Longrightarrow> eid F m = eid F n \<longleftrightarrow> m = n"
  using nodes.id_inject [of "se_exprs F" m n] by (auto simp: eid_def decodes_def)

lemma sid_inject:
  "decodes H F \<Longrightarrow> known_in (=) (se_stmts F) k \<Longrightarrow> known_in (=) (se_stmts F) k' \<Longrightarrow> sid F k = sid F k' \<longleftrightarrow> k = k'"
  using nodes.id_inject [of "se_stmts F" k k'] by (auto simp: sid_def decodes_def)

text \<open>Arguments and variables correspond by their position.\<close>

definition at_pos :: "nat list \<Rightarrow> nat list \<Rightarrow> nat \<Rightarrow> nat" where
  "at_pos xs ys x = (case indexIn 0 xs x of Some i \<Rightarrow> ys ! i | None \<Rightarrow> x)"

text \<open>The declarations of the new program match those of the old one.\<close>

definition declared :: "heap \<Rightarrow> program \<Rightarrow> des \<Rightarrow> bool" where
  "declared h p d \<longleftrightarrow>
     length (pr_args (ds_prog d)) = length (pr_args p) \<and> length (pr_vars (ds_prog d)) = length (pr_vars p)
     \<and> length (pr_args p) < 2 ^ 32 \<and> length (pr_vars p) < 2 ^ 32
     \<and> (\<forall>i < length (pr_args p). hp_arg (ds_heap d) (pr_args (ds_prog d) ! i) = hp_arg h (pr_args p ! i))
     \<and> (\<forall>i < length (pr_vars p). hp_var (ds_heap d) (pr_vars (ds_prog d) ! i) = hp_var h (pr_vars p ! i))"

definition new_args :: "program \<Rightarrow> des \<Rightarrow> arg_ptr \<Rightarrow> arg_ptr" where
  "new_args p d = at_pos (pr_args p) (pr_args (ds_prog d))"

definition new_vars :: "program \<Rightarrow> des \<Rightarrow> var_ptr \<Rightarrow> var_ptr" where
  "new_vars p d = at_pos (pr_vars p) (pr_vars (ds_prog d))"

lemma declared_arg:
  assumes "declared h p d" "a \<in> set (pr_args p)"
  shows "getArg (ds_prog d) (unat (of_nat (the (indexIn 0 (pr_args p) a)) :: u32)) = Inr (new_args p d a)"
    "hp_arg (ds_heap d) (new_args p d a) = hp_arg h a"
proof -
  obtain i where i: "indexIn 0 (pr_args p) a = Some i" using assms(2) indexIn_None [of 0 "pr_args p" a] by auto
  from indexIn_Some [OF i] have b: "i < length (pr_args p)" "pr_args p ! i = a" by simp_all
  then have "unat (of_nat i :: u32) = i" using assms(1) by (intro unat_of_nat_u32) (simp add: declared_def)
  then show "getArg (ds_prog d) (unat (of_nat (the (indexIn 0 (pr_args p) a)) :: u32)) = Inr (new_args p d a)"
    "hp_arg (ds_heap d) (new_args p d a) = hp_arg h a"
    using assms(1) i b by (auto simp: getArg_def require_def new_args_def at_pos_def declared_def)
qed

lemma declared_var:
  assumes "declared h p d" "v \<in> set (pr_vars p)"
  shows "getVarAt (ds_prog d) (unat (of_nat (the (indexIn 0 (pr_vars p) v)) :: u32)) = Inr (new_vars p d v)"
    "hp_var (ds_heap d) (new_vars p d v) = hp_var h v"
proof -
  obtain i where i: "indexIn 0 (pr_vars p) v = Some i" using assms(2) indexIn_None [of 0 "pr_vars p" v] by auto
  from indexIn_Some [OF i] have b: "i < length (pr_vars p)" "pr_vars p ! i = v" by simp_all
  then have "unat (of_nat i :: u32) = i" using assms(1) by (intro unat_of_nat_u32) (simp add: declared_def)
  then show "getVarAt (ds_prog d) (unat (of_nat (the (indexIn 0 (pr_vars p) v)) :: u32)) = Inr (new_vars p d v)"
    "hp_var (ds_heap d) (new_vars p d v) = hp_var h v"
    using assms(1) i b by (auto simp: getVarAt_def require_def new_vars_def at_pos_def declared_def)
qed

section \<open>Expressions\<close>

text \<open>An expression as it is while its loops are still identifiers.\<close>

definition raw :: "ser \<Rightarrow> program \<Rightarrow> des \<Rightarrow> expr \<Rightarrow> expr" where
  "raw F p d = ren_expr (\<lambda>L. unat (sid F (KLoop L))) (new_args p d) (new_vars p d)"

lemma getType_ren [simp]: "getType (ren_expr fl fa fv e) = getType e"
  by (induction e) simp_all

lemma is_GEP_ren [simp]: "is_GEP (ren_expr fl fa fv e) = is_GEP e"
  by (cases e) simp_all

lemma get_kid_between:
  assumes "ds_rd d = between pre (enc_u32 i @ suf)" "ds_exprs d i = Some e" "i \<notin> ds_used d"
  shows "get_kid d = Inr (e, d\<lparr>ds_rd := between (pre @ enc_u32 i) suf, ds_used := insert i (ds_used d)\<rparr>)"
  using assms by (simp add: get_kid_def get_between(2) [OF assms(1)] getExpr_def)

lemma get_kids_between:
  "ds_rd d = between pre (enc_puts F p (map WExpr ks) @ suf) \<Longrightarrow>
   list_all2 (\<lambda>k e. ds_exprs d (eid F k) = Some e) ks es \<Longrightarrow> distinct (map (eid F) ks) \<Longrightarrow>
   \<forall>k \<in> set ks. eid F k \<notin> ds_used d \<Longrightarrow>
   get_kids (length ks) d = Inr (es, d\<lparr>ds_rd := between (pre @ enc_puts F p (map WExpr ks)) suf,
     ds_used := ds_used d \<union> eid F ` set ks\<rparr>)"
proof (induction ks arbitrary: d pre es)
  case (Cons k ks)
  from Cons.prems(2) obtain e es' where es: "es = e # es'" "ds_exprs d (eid F k) = Some e"
    "list_all2 (\<lambda>k e. ds_exprs d (eid F k) = Some e) ks es'"
    by (auto simp: list_all2_Cons1)
  let ?d = "d\<lparr>ds_rd := between (pre @ enc_u32 (eid F k)) (enc_puts F p (map WExpr ks) @ suf), ds_used := insert (eid F k) (ds_used d)\<rparr>"
  have k: "get_kid d = Inr (e, ?d)"
    using get_kid_between [of d pre "eid F k" "enc_puts F p (map WExpr ks) @ suf" e] Cons.prems(1,4) es(2)
    by (simp add: eid_def)
  have k_new: "\<forall>k' \<in> set ks. eid F k' \<noteq> eid F k" using Cons.prems(3) by (simp add: image_iff) metis
  have "get_kids (length ks) ?d = Inr (es', ?d\<lparr>ds_rd := between ((pre @ enc_u32 (eid F k)) @ enc_puts F p (map WExpr ks)) suf,
      ds_used := ds_used ?d \<union> eid F ` set ks\<rparr>)"
    by (rule Cons.IH) (use Cons.prems es(3) k_new in simp_all)
  then show ?case by (simp add: k es(1) eid_def)
qed simp

text \<open>The identifiers an expression leaves to be resolved when it is read.\<close>

fun waits :: "expr \<Rightarrow> loop_ptr list" where
  "waits (IndexExpr ty L) = [L]"
| "waits e = []"

definition after_node :: "ser \<Rightarrow> program \<Rightarrow> stream \<Rightarrow> stream \<Rightarrow> nat \<Rightarrow> nat list \<Rightarrow> expr \<Rightarrow> des \<Rightarrow> des" where
  "after_node F p pre suf me kids e d =
     d\<lparr>ds_rd := between (pre @ enc_puts F p (expr_writes (me, kids, e))) suf,
       ds_exprs := (ds_exprs d)(eid F me \<mapsto> raw F p d e), ds_used := ds_used d \<union> eid F ` set kids,
       ds_later := ds_later d @ map (\<lambda>L. sid F (KLoop L)) (waits e)\<rparr>"

lemma op_codes [simp]:
  "binOp_of_code (of_nat (binOp_code k)) = Inr k" "unOp_of_code (of_nat (unOp_code u)) = Inr u"
  by (cases k; simp add: binOp_of_code.simps) (cases u; simp add: unOp_of_code.simps)

lemma const_portable: "unat (v :: i64) < 2 ^ 32 \<Longrightarrow> i64_of_u32 (ucast v) = v"
proof -
  assume "unat v < 2 ^ 32"
  then have "unat (ucast (ucast v :: u32) :: i64) = unat v"
    by (simp add: unsigned_ucast_eq unsigned_take_bit_eq take_bit_nat_eq_self)
  then show ?thesis unfolding i64_of_u32_def by (metis word_unat_eq_iff)
qed

lemma kids1: "list_all2 P ks [e] \<Longrightarrow> \<exists>k. ks = [k] \<and> P k e"
  and kids2: "list_all2 P ks [e, e'] \<Longrightarrow> \<exists>k k'. ks = [k, k'] \<and> P k e \<and> P k' e'"
  by (auto simp: list_all2_Cons2)

lemma deserialize_node:
  assumes H: "decodes H F" and D: "declared h p d" and e: "portable_expr h p e"
    and rd: "ds_rd d = between pre (enc_puts F p (expr_writes (me, kids, e)) @ suf)"
    and kn: "\<forall>w \<in> set (expr_writes (me, kids, e)). known F p w"
    and kids: "list_all2 (\<lambda>k e. ds_exprs d (eid F k) = Some (raw F p d e)) kids (subexprs e)"
    and once: "distinct (map (eid F) kids)" "\<forall>k \<in> set kids. eid F k \<notin> ds_used d"
    and me: "ds_exprs d (eid F me) = None"
  shows "deserialize_expr H d = Inr (after_node F p pre suf me kids e d)"
proof (cases e)
  case (IndexExpr ty L)
  then show ?thesis using rd e me kids
    by (simp add: deserialize_expr_def get_between(2) require_def registerExpr_def registerResolveLater_def
        new_IndexExpr_def after_node_def raw_def eid_def sid_def)
next
  case (ConstantExpr v)
  then show ?thesis using rd e me kids
    by (simp add: deserialize_expr_def get_between(2) require_def registerExpr_def const_portable
        after_node_def raw_def eid_def)
next
  case (ConstantFPExpr f)
  then show ?thesis using rd e me kids
    by (simp add: deserialize_expr_def get_between(2,3) require_def registerExpr_def after_node_def raw_def eid_def)
next
  case (ConstantStringExpr s)
  then show ?thesis using e by simp
next
  case (LoadLocalExpr ty v)
  then have "v \<in> set (pr_vars p)" "ty = var_type (hp_var h v)" using e by simp_all
  then show ?thesis using rd me kids declared_var [OF D, of v] LoadLocalExpr
    by (simp add: deserialize_expr_def get_between(2) require_def registerExpr_def new_LoadLocalExpr_def
        after_node_def raw_def eid_def)
next
  case (UnaryExpr u x)
  from kids obtain k where k: "kids = [k]" "ds_exprs d (eid F k) = Some (raw F p d x)"
    unfolding UnaryExpr subexprs.simps by (auto dest: kids1)
  with UnaryExpr show ?thesis using rd me once
    by (simp add: deserialize_expr_def get_between(1,2) get_kid_between require_def registerExpr_def
        after_node_def raw_def eid_def)
next
  case (BroadcastExpr x vf)
  from kids obtain k where k: "kids = [k]" "ds_exprs d (eid F k) = Some (raw F p d x)"
    unfolding BroadcastExpr subexprs.simps by (auto dest: kids1)
  have "ety_width (getType x) = 1" "0 < vf" "vf < 64" using e BroadcastExpr by simp_all
  with k BroadcastExpr show ?thesis using rd me once
    by (simp add: deserialize_expr_def get_between(1,2) get_kid_between require_def registerExpr_def
        new_BroadcastExpr_def asVector_def mkExprType_def width_byte after_node_def raw_def eid_def)
next
  case (LoadExpr ty x)
  from kids obtain k where k: "kids = [k]" "ds_exprs d (eid F k) = Some (raw F p d x)"
    unfolding LoadExpr subexprs.simps by (auto dest: kids1)
  have "is_GEP x" using e LoadExpr by simp
  with k LoadExpr decodes_lookup(2) [OF H, of ty] show ?thesis using rd me once kn
    by (simp add: deserialize_expr_def get_between(1,2) get_kid_between require_def registerExpr_def
        new_LoadExpr_def after_node_def raw_def eid_def)
next
  case (BinaryExpr b l r)
  from kids obtain k k' where k: "kids = [k, k']" "ds_exprs d (eid F k) = Some (raw F p d l)"
      "ds_exprs d (eid F k') = Some (raw F p d r)"
    unfolding BinaryExpr subexprs.simps by (auto dest: kids2)
  have "getType l = getType r" using e BinaryExpr by simp
  with k BinaryExpr show ?thesis using rd me once
    by (simp add: deserialize_expr_def deserialize_binary_def get_between(1,2) get_kid_between require_def registerExpr_def
        new_BinaryExpr_def after_node_def raw_def eid_def insert_commute)
next
  case (GEPExpr a xs)
  have p: "a \<in> set (pr_args p)" "getNumDims (arg_type (hp_arg h a)) = length xs" "length xs < 2 ^ 32"
    "list_all (\<lambda>e. ety_isIndexTy (getType e)) xs"
    using e GEPExpr by simp_all
  have n: "unat (of_nat (length xs) :: u32) = length kids"
    using unat_of_nat_u32 [OF p(3)] kids GEPExpr by (simp add: list_all2_lengthD)
  let ?es = "map (raw F p d) xs"
  let ?pre = "pre @ enc_u32 9 @ enc_u32 (eid F me) @ enc_u32 (of_nat (the (indexIn 0 (pr_args p) a))) @ enc_u32 (of_nat (length xs))"
  let ?d = "d\<lparr>ds_rd := between ?pre (enc_puts F p (map WExpr kids) @ suf)\<rparr>"
  have g: "get_kids (length kids) ?d = Inr (?es, ?d\<lparr>ds_rd := between (?pre @ enc_puts F p (map WExpr kids)) suf,
      ds_used := ds_used ?d \<union> eid F ` set kids\<rparr>)"
    by (rule get_kids_between) (use kids once GEPExpr in \<open>auto simp: list_all2_map2\<close>)
  have "new_GEPExpr (ds_heap d) (new_args p d a) ?es = Inr (raw F p d e)"
    using p declared_arg(2) [OF D p(1)] GEPExpr
    by (auto simp: new_GEPExpr_def raw_def list_all_iff require_def)
  with g declared_arg(1) [OF D p(1)] GEPExpr show ?thesis using rd me
    by (simp add: deserialize_expr_def get_between(1,2) require_def registerExpr_def n after_node_def eid_def)
qed

lemma repeat_res_add: "repeat_res (m + n) f s = bind_res (repeat_res m f s) (repeat_res n f)"
proof (induction m arbitrary: s)
  case (Suc m)
  then show ?case by (cases "f s") simp_all
qed simp

lemma roots_range: "set (roots n es) \<subseteq> {n..<n + sum_list (map ecount es)}"
proof (induction n es rule: roots.induct)
  case (2 n e es)
  have "n + ecount e - 1 \<in> {n..<n + sum_list (map ecount (e # es))}"
    using ecount_subexprs [of e] by simp
  with 2 show ?case by auto
qed simp

lemma roots_distinct: "distinct (roots n es)"
proof (induction n es rule: roots.induct)
  case (2 n e es)
  have "n + ecount e - 1 \<notin> set (roots (n + ecount e) es)"
    using roots_range [of "n + ecount e" es] ecount_subexprs [of e] by fastforce
  with 2 show ?case by simp
qed simp

lemma roots_length [simp]: "length (roots n es) = length es"
  by (induction n es rule: roots.induct) simp_all

text \<open>Nothing is known under the labels from \<open>m\<close> to \<open>n\<close>.\<close>

definition free_ids :: "ser \<Rightarrow> des \<Rightarrow> nat \<Rightarrow> nat \<Rightarrow> bool" where
  "free_ids F d m n \<longleftrightarrow> (\<forall>k \<in> {m..<n}. ds_exprs d (eid F k) = None \<and> eid F k \<notin> ds_used d)"

text \<open>What stays when expressions are read: all but the stream and the expressions.\<close>

definition same_stmts :: "des \<Rightarrow> des \<Rightarrow> bool" where
  "same_stmts d d' \<longleftrightarrow>
     ds_heap d' = ds_heap d \<and> ds_prog d' = ds_prog d \<and> ds_stmts d' = ds_stmts d \<and> ds_tree d' = ds_tree d"

lemma same_stmts_declared: "same_stmts d d' \<Longrightarrow> declared h p d' = declared h p d"
  by (simp add: same_stmts_def declared_def)

lemma same_stmts_raw: "same_stmts d d' \<Longrightarrow> raw F p d' = raw F p d"
  by (simp add: same_stmts_def raw_def new_args_def new_vars_def)

lemma same_stmts_trans: "same_stmts d d1 \<Longrightarrow> same_stmts d1 d2 \<Longrightarrow> same_stmts d d2"
  by (simp add: same_stmts_def)

text \<open>The expressions with the labels from \<open>n\<close> to \<open>m\<close> have been read; the roots among them have no owner yet.\<close>

definition exprs_read :: "ser \<Rightarrow> program \<Rightarrow> nat \<Rightarrow> nat \<Rightarrow> nat list \<Rightarrow> expr list \<Rightarrow> des \<Rightarrow> des \<Rightarrow> bool" where
  "exprs_read F p n m ks es d d' \<longleftrightarrow>
     same_stmts d d'
     \<and> list_all2 (\<lambda>k e. ds_exprs d' (eid F k) = Some (raw F p d e)) ks es
     \<and> (\<forall>i. i \<notin> eid F ` {n..<m} \<longrightarrow> ds_exprs d' i = ds_exprs d i)
     \<and> ds_used d' = ds_used d \<union> eid F ` ({n..<m} - set ks)
     \<and> set (ds_later d') = set (ds_later d) \<union> (\<lambda>L. sid F (KLoop L)) ` (\<Union>e \<in> set es. loops_of_expr e)"

lemma loops_subexprs: "loops_of_expr e = set (waits e) \<union> (\<Union>x \<in> set (subexprs e). loops_of_expr x)"
  by (cases e) auto

lemma inj_not_image: "inj_on f {..<N} \<Longrightarrow> k < N \<Longrightarrow> A \<subseteq> {..<N} \<Longrightarrow> f k \<in> f ` A \<longleftrightarrow> k \<in> (A :: nat set)"
  by (auto simp: inj_on_def)

lemma read_node:
  assumes H: "decodes H F" and inj: "inj_on (eid F) {..<N}"
    and r: "exprs_read F p n m (roots n (subexprs e)) (subexprs e) d d1"
    and m: "m = n + sum_list (map ecount (subexprs e))" "m < N"
    and D: "declared h p d" and e: "portable_expr h p e"
    and kn: "\<forall>w \<in> set (expr_writes (m, roots n (subexprs e), e)). known F p w"
    and free: "free_ids F d n (Suc m)"
    and rd: "ds_rd d1 = between pre (enc_puts F p (expr_writes (m, roots n (subexprs e), e)) @ suf)"
  shows "\<exists>d'. deserialize_expr H d1 = Inr d' \<and> exprs_read F p n (Suc m) [m] [e] d d'
    \<and> ds_rd d' = between (pre @ enc_puts F p (expr_writes (m, roots n (subexprs e), e))) suf"
proof -
  let ?ks = "roots n (subexprs e)" and ?A = "{n..<m}"
  have s: "same_stmts d d1" and used: "ds_used d1 = ds_used d \<union> eid F ` (?A - set ?ks)"
    and reg: "\<forall>i. i \<notin> eid F ` ?A \<longrightarrow> ds_exprs d1 i = ds_exprs d i"
    using r by (simp_all add: exprs_read_def)
  have sub: "set ?ks \<subseteq> ?A" using roots_range [of n "subexprs e"] m(1) by simp
  have range: "?A \<subseteq> {..<N}" "?A - set ?ks \<subseteq> {..<N}" using m(2) by auto
  have "inj_on (eid F) (set ?ks)" using inj range(1) sub by (meson inj_on_subset order.trans)
  then have once: "distinct (map (eid F) ?ks)" by (simp add: distinct_map roots_distinct)
  have unused: "\<forall>k \<in> set ?ks. eid F k \<notin> ds_used d1"
  proof
    fix k assume k: "k \<in> set ?ks"
    then have "k < N" "k \<in> {n..<Suc m}" using sub m(2) by auto
    then show "eid F k \<notin> ds_used d1"
      using free k used inj_not_image [OF inj _ range(2), of k] by (auto simp: free_ids_def)
  qed
  have me: "ds_exprs d1 (eid F m) = None"
    using reg free inj_not_image [OF inj m(2) range(1)] m(1) by (simp add: free_ids_def)
  have kids: "list_all2 (\<lambda>k e. ds_exprs d1 (eid F k) = Some (raw F p d1 e)) ?ks (subexprs e)"
    using r by (simp add: exprs_read_def same_stmts_raw [OF s])
  have D1: "declared h p d1" using D by (simp add: same_stmts_declared [OF s])
  note x = deserialize_node [OF H D1 e rd kn kids once unused me]
  let ?d = "after_node F p pre suf m ?ks e d1"
  have "exprs_read F p n (Suc m) [m] [e] d ?d"
    unfolding exprs_read_def
  proof (intro conjI)
    show "same_stmts d ?d" using s by (simp add: same_stmts_def after_node_def)
    show "list_all2 (\<lambda>k e. ds_exprs ?d (eid F k) = Some (raw F p d e)) [m] [e]"
      by (simp add: after_node_def same_stmts_raw [OF s])
    show "\<forall>i. i \<notin> eid F ` {n..<Suc m} \<longrightarrow> ds_exprs ?d i = ds_exprs d i"
      using reg m(1) by (auto simp: after_node_def atLeastLessThanSuc)
    have "eid F ` (?A - set ?ks) \<union> eid F ` set ?ks = eid F ` ?A" using sub by (simp add: Un_absorb2 flip: image_Un)
    moreover have "{n..<Suc m} - set [m] = ?A" by auto
    ultimately show "ds_used ?d = ds_used d \<union> eid F ` ({n..<Suc m} - set [m])"
      by (simp add: after_node_def used Un_assoc)
    have "set (ds_later d1) = set (ds_later d) \<union> (\<lambda>L. sid F (KLoop L)) ` (\<Union>e \<in> set (subexprs e). loops_of_expr e)"
      using r by (simp add: exprs_read_def)
    then show "set (ds_later ?d) = set (ds_later d) \<union> (\<lambda>L. sid F (KLoop L)) ` (\<Union>e \<in> set [e]. loops_of_expr e)"
      using loops_subexprs [of e] by (auto simp: after_node_def)
  qed
  with x show ?thesis by (auto simp: after_node_def)
qed

lemma exprs_read_append:
  assumes inj: "inj_on (eid F) {..<N}" and l: "l \<le> m" "m \<le> q" "q \<le> N"
    and ks: "set ks \<subseteq> {l..<m}" "set ks' \<subseteq> {m..<q}"
    and r: "exprs_read F p l m ks es d d1" and r': "exprs_read F p m q ks' es' d1 d2"
  shows "exprs_read F p l q (ks @ ks') (es @ es') d d2"
  unfolding exprs_read_def
proof (intro conjI)
  have s: "same_stmts d d1" "same_stmts d1 d2" using r r' by (simp_all add: exprs_read_def)
  then show "same_stmts d d2" by (rule same_stmts_trans)
  have A: "{m..<q} \<subseteq> {..<N}" using l by auto
  have keep: "ds_exprs d2 (eid F k) = ds_exprs d1 (eid F k)" if "k \<in> set ks" for k
  proof -
    have k: "k < m" using ks(1) that by auto
    then have "eid F k \<notin> eid F ` {m..<q}" using inj_not_image [OF inj _ A, of k] l by auto
    then show ?thesis using r' by (simp add: exprs_read_def)
  qed
  have "list_all2 (\<lambda>k e. ds_exprs d1 (eid F k) = Some (raw F p d e)) ks es"
    using r by (simp add: exprs_read_def)
  then have "list_all2 (\<lambda>k e. ds_exprs d2 (eid F k) = Some (raw F p d e)) ks es"
    using keep by (auto simp: list_all2_conv_all_nth)
  moreover have "list_all2 (\<lambda>k e. ds_exprs d2 (eid F k) = Some (raw F p d e)) ks' es'"
    using r' by (simp add: exprs_read_def same_stmts_raw [OF s(1)])
  ultimately show "list_all2 (\<lambda>k e. ds_exprs d2 (eid F k) = Some (raw F p d e)) (ks @ ks') (es @ es')"
    by (rule list_all2_appendI)
  have un: "{l..<q} = {l..<m} \<union> {m..<q}" using l by auto
  show "\<forall>i. i \<notin> eid F ` {l..<q} \<longrightarrow> ds_exprs d2 i = ds_exprs d i"
    using r r' by (simp add: un image_Un exprs_read_def)
  have "{l..<q} - set (ks @ ks') = ({l..<m} - set ks) \<union> ({m..<q} - set ks')" using ks l by auto
  then show "ds_used d2 = ds_used d \<union> eid F ` ({l..<q} - set (ks @ ks'))"
    using r r' by (simp add: exprs_read_def image_Un Un_assoc)
  show "set (ds_later d2) = set (ds_later d) \<union> (\<lambda>L. sid F (KLoop L)) ` (\<Union>e \<in> set (es @ es'). loops_of_expr e)"
    using r r' by (auto simp: exprs_read_def)
qed

lemma free_ids_later:
  assumes inj: "inj_on (eid F) {..<N}" and free: "free_ids F d l q" and l: "l \<le> m" "q \<le> N"
    and r: "exprs_read F p l m ks es d d1"
  shows "free_ids F d1 m q"
proof -
  have A: "{l..<m} - set ks \<subseteq> {..<N}" "{l..<m} \<subseteq> {..<N}" if "m < q" using that l by auto
  show ?thesis unfolding free_ids_def
  proof
    fix k assume k: "k \<in> {m..<q}"
    then have mq: "m < q" and kN: "k < N" using l by auto
    have "eid F k \<notin> eid F ` {l..<m}" "eid F k \<notin> eid F ` ({l..<m} - set ks)"
      using inj_not_image [OF inj kN] A [OF mq] k by auto
    then show "ds_exprs d1 (eid F k) = None \<and> eid F k \<notin> ds_used d1"
      using r free k l by (auto simp: exprs_read_def free_ids_def)
  qed
qed

lemma free_ids_sub: "free_ids F d l q \<Longrightarrow> l \<le> l' \<Longrightarrow> q' \<le> q \<Longrightarrow> free_ids F d l' q'"
  by (auto simp: free_ids_def)

abbreviation expr_bytes :: "ser \<Rightarrow> program \<Rightarrow> (nat \<times> nat list \<times> expr) list \<Rightarrow> stream" where
  "expr_bytes F p ns \<equiv> enc_puts F p (concat (map expr_writes ns))"

text \<open>Reading all expressions of a list: after it every root is known and free to be owned.\<close>

lemma read_exprs:
  assumes H: "decodes H F" and inj: "inj_on (eid F) {..<N}"
  shows "\<lbrakk>ds_rd d = between pre (expr_bytes F p (label_expr n e) @ suf); declared h p d; portable_expr h p e;
      \<forall>w \<in> set (concat (map expr_writes (label_expr n e))). known F p w; free_ids F d n (n + ecount e); n + ecount e \<le> N\<rbrakk>
     \<Longrightarrow> \<exists>d'. repeat_res (ecount e) (deserialize_expr H) d = Inr d'
       \<and> exprs_read F p n (n + ecount e) [n + ecount e - 1] [e] d d'
       \<and> ds_rd d' = between (pre @ expr_bytes F p (label_expr n e)) suf"
   and "\<lbrakk>ds_rd d = between pre (expr_bytes F p (label_exprs n es) @ suf); declared h p d; list_all (portable_expr h p) es;
      \<forall>w \<in> set (concat (map expr_writes (label_exprs n es))). known F p w;
      free_ids F d n (n + sum_list (map ecount es)); n + sum_list (map ecount es) \<le> N\<rbrakk>
     \<Longrightarrow> \<exists>d'. repeat_res (sum_list (map ecount es)) (deserialize_expr H) d = Inr d'
       \<and> exprs_read F p n (n + sum_list (map ecount es)) (roots n es) es d d'
       \<and> ds_rd d' = between (pre @ expr_bytes F p (label_exprs n es)) suf"
proof (induction n e and n es arbitrary: d pre suf and d pre suf rule: label_expr_label_exprs.induct)
  case (1 n e)
  let ?m = "n + sum_list (map ecount (subexprs e))" and ?w = "expr_writes (n + sum_list (map ecount (subexprs e)), roots n (subexprs e), e)"
  have c: "n + ecount e = Suc ?m" "ecount e = sum_list (map ecount (subexprs e)) + 1" using ecount_subexprs [of e] by simp_all
  have enc: "expr_bytes F p (label_expr n e) = expr_bytes F p (label_exprs n (subexprs e)) @ enc_puts F p ?w"
    by (simp add: label_expr.simps)
  have "\<exists>d1. repeat_res (sum_list (map ecount (subexprs e))) (deserialize_expr H) d = Inr d1
      \<and> exprs_read F p n ?m (roots n (subexprs e)) (subexprs e) d d1
      \<and> ds_rd d1 = between (pre @ expr_bytes F p (label_exprs n (subexprs e))) (enc_puts F p ?w @ suf)"
  proof (rule "1.IH")
    show "ds_rd d = between pre (expr_bytes F p (label_exprs n (subexprs e)) @ enc_puts F p ?w @ suf)"
      using "1.prems"(1) by (simp add: enc)
    show "free_ids F d n ?m" using "1.prems"(5) by (rule free_ids_sub) (simp_all add: c)
    show "\<forall>w \<in> set (concat (map expr_writes (label_exprs n (subexprs e)))). known F p w"
      using "1.prems"(4) by (simp add: label_expr.simps)
  qed (use "1.prems" c portable_subexprs in simp_all)
  then obtain d1 where d1: "repeat_res (sum_list (map ecount (subexprs e))) (deserialize_expr H) d = Inr d1"
    "exprs_read F p n ?m (roots n (subexprs e)) (subexprs e) d d1"
    "ds_rd d1 = between (pre @ expr_bytes F p (label_exprs n (subexprs e))) (enc_puts F p ?w @ suf)" by blast
  have "\<exists>d'. deserialize_expr H d1 = Inr d' \<and> exprs_read F p n (Suc ?m) [?m] [e] d d'
      \<and> ds_rd d' = between ((pre @ expr_bytes F p (label_exprs n (subexprs e))) @ enc_puts F p ?w) suf"
    by (rule read_node [OF H inj d1(2) refl _ "1.prems"(2,3) _ _ d1(3)])
      (use "1.prems"(4,5,6) c in \<open>auto simp: label_expr.simps\<close>)
  then obtain d' where d': "deserialize_expr H d1 = Inr d'" "exprs_read F p n (Suc ?m) [?m] [e] d d'"
    "ds_rd d' = between (pre @ expr_bytes F p (label_expr n e)) suf" by (auto simp: enc)
  have "repeat_res (ecount e) (deserialize_expr H) d = Inr d'"
    unfolding c(2) repeat_res_add using d1(1) d'(1) by simp
  with d' show ?case by (auto simp: c(1))
next
  case (2 n)
  then show ?case by (simp add: exprs_read_def same_stmts_def)
next
  case (3 n e es)
  let ?q = "n + ecount e + sum_list (map ecount es)"
  have "\<exists>d1. repeat_res (ecount e) (deserialize_expr H) d = Inr d1
      \<and> exprs_read F p n (n + ecount e) [n + ecount e - 1] [e] d d1
      \<and> ds_rd d1 = between (pre @ expr_bytes F p (label_expr n e)) (expr_bytes F p (label_exprs (n + ecount e) es) @ suf)"
  proof (rule "3.IH"(1))
    show "free_ids F d n (n + ecount e)" using "3.prems"(5) by (rule free_ids_sub) simp_all
  qed (use "3.prems" in auto)
  then obtain d1 where d1: "repeat_res (ecount e) (deserialize_expr H) d = Inr d1"
    "exprs_read F p n (n + ecount e) [n + ecount e - 1] [e] d d1"
    "ds_rd d1 = between (pre @ expr_bytes F p (label_expr n e)) (expr_bytes F p (label_exprs (n + ecount e) es) @ suf)"
    by blast
  have s: "same_stmts d d1" using d1(2) by (simp add: exprs_read_def)
  have "\<exists>d2. repeat_res (sum_list (map ecount es)) (deserialize_expr H) d1 = Inr d2
      \<and> exprs_read F p (n + ecount e) ?q (roots (n + ecount e) es) es d1 d2
      \<and> ds_rd d2 = between ((pre @ expr_bytes F p (label_expr n e)) @ expr_bytes F p (label_exprs (n + ecount e) es)) suf"
  proof (rule "3.IH"(2))
    show "free_ids F d1 (n + ecount e) ?q"
      by (rule free_ids_later [OF inj _ _ _ d1(2)]) (use "3.prems" in \<open>auto simp: add.assoc\<close>)
  qed (use "3.prems" d1(3) in \<open>auto simp: same_stmts_declared [OF s] add.assoc\<close>)
  then obtain d2 where d2: "repeat_res (sum_list (map ecount es)) (deserialize_expr H) d1 = Inr d2"
    "exprs_read F p (n + ecount e) ?q (roots (n + ecount e) es) es d1 d2"
    "ds_rd d2 = between ((pre @ expr_bytes F p (label_expr n e)) @ expr_bytes F p (label_exprs (n + ecount e) es)) suf"
    by blast
  have "exprs_read F p n ?q ([n + ecount e - 1] @ roots (n + ecount e) es) ([e] @ es) d d2"
    by (rule exprs_read_append [OF inj _ _ _ _ _ d1(2) d2(2)])
      (use "3.prems"(6) roots_range [of "n + ecount e" es] ecount_subexprs [of e] in \<open>auto simp: add.assoc\<close>)
  then show ?case using d1(1) d2(1,3) by (auto simp: repeat_res_add add.assoc)
qed

end
