(* ===== verification/DecodeStmts.thy ===== *)
theory DecodeStmts
  imports DecodeFacts SemFacts
begin

text \<open>
  Reading the statements of a bytecode file back. The statements come in the order in which
  \<open>collectStmts\<close> enters them, each with the identifier of its parent: adding each one as the last
  child of its parent rebuilds the tree.
\<close>

section \<open>Growing the tree\<close>

fun node_ids :: "dnode \<Rightarrow> u32 set" where
  "node_ids (DNode i sh ks) = insert i (\<Union>k \<in> set ks. node_ids k)"

fun graft_list :: "u32 \<Rightarrow> dnode list \<Rightarrow> dnode \<Rightarrow> dnode" where
  "graft_list pid [] t = t"
| "graft_list pid (x # xs) t = graft_list pid xs (graft pid x t)"

lemma graft_list_append: "graft_list pid (xs @ ys) t = graft_list pid ys (graft_list pid xs t)"
  by (induction xs arbitrary: t) simp_all

lemma graft_absent: "pid \<notin> node_ids t \<Longrightarrow> graft pid x t = t"
proof (induction t)
  case (DNode i sh ks)
  then have "map (graft pid x) ks = ks" by (intro map_idI) auto
  with DNode.prems show ?case by auto
qed

lemma graft_ids: "node_ids (graft pid x t) \<subseteq> node_ids t \<union> node_ids x"
proof (induction t)
  case (DNode i sh ks)
  have "(\<Union>k \<in> set ks. node_ids (graft pid x k)) \<subseteq> (\<Union>k \<in> set ks. node_ids k) \<union> node_ids x"
    using DNode by blast
  then show ?case by (cases "i = pid") (simp_all, blast+)
qed

lemma graft_under_new:
  assumes "i \<notin> (\<Union>k \<in> set ks. node_ids k)"
  shows "i \<notin> node_ids t \<Longrightarrow> graft i x (graft pid (DNode i sh ks) t) = graft pid (DNode i sh (ks @ [x])) t"
proof (induction t)
  case (DNode j s cs)
  have ks: "map (graft i x) ks = ks" using assms by (intro map_idI graft_absent) auto
  have "map (\<lambda>c. graft i x (graft pid (DNode i sh ks) c)) cs = map (graft pid (DNode i sh (ks @ [x]))) cs"
    using DNode by (intro map_cong refl) auto
  with DNode.prems ks show ?case by (auto simp: comp_def)
qed

lemma graft_list_under_new:
  "i \<notin> node_ids t \<Longrightarrow> i \<notin> (\<Union>k \<in> set (ks @ xs). node_ids k) \<Longrightarrow>
     graft_list i xs (graft pid (DNode i sh ks) t) = graft pid (DNode i sh (ks @ xs)) t"
proof (induction xs arbitrary: ks)
  case (Cons x xs)
  have "graft i x (graft pid (DNode i sh ks) t) = graft pid (DNode i sh (ks @ [x])) t"
    by (rule graft_under_new) (use Cons.prems in auto)
  with Cons.IH [of "ks @ [x]"] Cons.prems show ?case by simp
qed simp

section \<open>What a statement needs to be portable, and what it loses\<close>

fun portable_stmt :: "heap \<Rightarrow> program \<Rightarrow> stmt \<Rightarrow> bool" where
  "portable_stmt h p (Loop L body) \<longleftrightarrow> list_all (portable_stmt h p) body"
| "portable_stmt h p (IfRange val lo hi body) \<longleftrightarrow>
     portable_expr h p val \<and> in_int lo \<and> list_all (portable_stmt h p) body"
| "portable_stmt h p (CallStmt name params) \<longleftrightarrow> length params < 256 \<and> list_all (portable_expr h p) params"
| "portable_stmt h p (StoreStmt gep x acc) \<longleftrightarrow> is_GEP gep \<and> portable_expr h p gep \<and> portable_expr h p x"
| "portable_stmt h p (StoreLocalStmt v x acc) \<longleftrightarrow>
     v \<in> set (pr_vars p) \<and> getType x = var_type (hp_var h v) \<and> portable_expr h p x"

text \<open>The end of a range is lost: what is read is the start, twice.\<close>

fun lose_ends :: "stmt \<Rightarrow> stmt" where
  "lose_ends (Loop L body) = Loop L (map lose_ends body)"
| "lose_ends (IfRange val lo hi body) = IfRange val lo lo (map lose_ends body)"
| "lose_ends s = s"

lemma portable_all_exprs: "portable_stmt h p s \<Longrightarrow> list_all (portable_expr h p) (all_exprs s)"
  by (induction s) (auto simp: list_all_iff)

text \<open>The node the deserializer makes of a statement; \<open>g\<close> gives the new loops.\<close>

fun node_of :: "ser \<Rightarrow> program \<Rightarrow> des \<Rightarrow> (loop_ptr \<Rightarrow> loop_ptr) \<Rightarrow> nat \<Rightarrow> stmt \<Rightarrow> dnode"
  and nodes_of :: "ser \<Rightarrow> program \<Rightarrow> des \<Rightarrow> (loop_ptr \<Rightarrow> loop_ptr) \<Rightarrow> nat \<Rightarrow> stmt list \<Rightarrow> dnode list" where
  "node_of F p d g m (Loop L body) =
     DNode (sid F (KLoop L)) (DLoop (g L)) (nodes_of F p d g (Suc m) body)"
| "node_of F p d g m (IfRange val lo hi body) =
     DNode (sid F (KStmt m)) (DIf (raw F p d val) lo lo) (nodes_of F p d g (Suc m) body)"
| "node_of F p d g m (CallStmt name params) =
     DNode (sid F (KStmt m)) (DStmt (CallStmt name (map (raw F p d) params))) []"
| "node_of F p d g m (StoreStmt gep x acc) =
     DNode (sid F (KStmt m)) (DStmt (StoreStmt (raw F p d gep) (raw F p d x) acc)) []"
| "node_of F p d g m (StoreLocalStmt v x acc) =
     DNode (sid F (KStmt m)) (DStmt (StoreLocalStmt (new_vars p d v) (raw F p d x) acc)) []"
| "nodes_of F p d g m [] = []"
| "nodes_of F p d g m (s # ss) = node_of F p d g m s # nodes_of F p d g (m + s_stmts s) ss"

lemma node_of_cong:
  "(\<And>L. L \<in> loops_in s \<Longrightarrow> g L = g' L) \<Longrightarrow> node_of F p d g m s = node_of F p d g' m s"
  "(\<And>L. L \<in> (\<Union>s \<in> set ss. loops_in s) \<Longrightarrow> g L = g' L) \<Longrightarrow> nodes_of F p d g m ss = nodes_of F p d g' m ss"
  by (induction F p d g m s and F p d g m ss rule: node_of_nodes_of.induct) auto

lemma node_of_same:
  "ds_prog d' = ds_prog d \<Longrightarrow> node_of F p d' g m s = node_of F p d g m s"
  "ds_prog d' = ds_prog d \<Longrightarrow> nodes_of F p d' g m ss = nodes_of F p d g m ss"
  by (induction F p d' g m s and F p d' g m ss rule: node_of_nodes_of.induct)
    (simp_all add: raw_def new_args_def new_vars_def)

section \<open>Keys\<close>

fun stmt_keys :: "nat \<Rightarrow> stmt \<Rightarrow> skey list"
  and body_keys :: "nat \<Rightarrow> stmt list \<Rightarrow> skey list" where
  "stmt_keys m (Loop L body) = KLoop L # body_keys (Suc m) body"
| "stmt_keys m (IfRange val lo hi body) = KStmt m # body_keys (Suc m) body"
| "stmt_keys m s = [KStmt m]"
| "body_keys m [] = []"
| "body_keys m (s # ss) = stmt_keys m s @ body_keys (m + s_stmts s) ss"

lemma s_stmts_simps [simp]:
  "s_stmts (Loop L body) = Suc (sum_list (map s_stmts body))"
  "s_stmts (IfRange val lo hi body) = Suc (sum_list (map s_stmts body))"
  "s_stmts (CallStmt name params) = 1" "s_stmts (StoreStmt gep x acc) = 1" "s_stmts (StoreLocalStmt v x acc) = 1"
proof -
  have "stmts_entered (visit_expr e) = []" for e by (induction e) (auto simp: concat_eq_Nil_conv)
  then show "s_stmts (Loop L body) = Suc (sum_list (map s_stmts body))"
    "s_stmts (IfRange val lo hi body) = Suc (sum_list (map s_stmts body))"
    "s_stmts (CallStmt name params) = 1" "s_stmts (StoreStmt gep x acc) = 1" "s_stmts (StoreLocalStmt v x acc) = 1"
    by (simp_all add: s_stmts_def [abs_def] length_concat comp_def)
qed

lemma label_keys:
  "map fst (label_stmt par m n s) = stmt_keys m s"
  "map fst (label_body par m n ss) = body_keys m ss"
  by (induction par m n s and par m n ss rule: label_stmt_label_body.induct) simp_all

lemma label_length:
  "length (label_stmt par m n s) = s_stmts s"
  "length (label_body par m n ss) = sum_list (map s_stmts ss)"
  by (induction par m n s and par m n ss rule: label_stmt_label_body.induct) simp_all

lemma keys_range:
  "k \<in> set (stmt_keys m s) \<Longrightarrow> (\<exists>L \<in> loops_in s. k = KLoop L) \<or> (\<exists>i. k = KStmt i \<and> m \<le> i \<and> i < m + s_stmts s)"
  "k \<in> set (body_keys m ss) \<Longrightarrow>
     (\<exists>L \<in> set (body_loops ss). k = KLoop L) \<or> (\<exists>i. k = KStmt i \<and> m \<le> i \<and> i < m + sum_list (map s_stmts ss))"
  by (induction m s and m ss rule: stmt_keys_body_keys.induct) fastforce+

lemma keys_distinct:
  "distinct (loop_list s) \<Longrightarrow> distinct (stmt_keys m s)"
  "distinct (body_loops ss) \<Longrightarrow> distinct (body_keys m ss)"
proof (induction m s and m ss rule: stmt_keys_body_keys.induct)
  case (1 m L body)
  then show ?case using keys_range(2) [of "KLoop L" "Suc m" body] by auto
next
  case (2 m val lo hi body)
  then show ?case using keys_range(2) [of "KStmt m" "Suc m" body] by auto
next
  case (5 m s ss)
  have "k \<notin> set (body_keys (m + s_stmts s) ss)" if "k \<in> set (stmt_keys m s)" for k
    using keys_range(1) [OF that] keys_range(2) [of k "m + s_stmts s" ss] 5(3) by auto
  with 5 show ?case by auto
qed simp_all

lemma loops_keys:
  "L \<in> loops_in s \<Longrightarrow> KLoop L \<in> set (stmt_keys m s)"
  "L \<in> (\<Union>s \<in> set ss. loops_in s) \<Longrightarrow> KLoop L \<in> set (body_keys m ss)"
  by (induction m s and m ss rule: stmt_keys_body_keys.induct) auto

end
