(* ===== verification/DecodeTree.thy ===== *)
theory DecodeTree
  imports DecodeStmts
begin

text \<open>
  The statement section of a bytecode file reads back as the tree that was written: one entry at
  a time, then by induction over the tree.
\<close>

section \<open>One statement\<close>

fun shell_of :: "ser \<Rightarrow> program \<Rightarrow> des \<Rightarrow> (loop_ptr \<Rightarrow> loop_ptr) \<Rightarrow> stmt \<Rightarrow> dshell" where
  "shell_of F p d g (Loop L body) = DLoop (g L)"
| "shell_of F p d g (IfRange val lo hi body) = DIf (raw F p d val) lo lo"
| "shell_of F p d g (CallStmt name params) = DStmt (CallStmt name (map (raw F p d) params))"
| "shell_of F p d g (StoreStmt gep x acc) = DStmt (StoreStmt (raw F p d gep) (raw F p d x) acc)"
| "shell_of F p d g (StoreLocalStmt v x acc) = DStmt (StoreLocalStmt (new_vars p d v) (raw F p d x) acc)"

fun ref_of :: "(loop_ptr \<Rightarrow> loop_ptr) \<Rightarrow> stmt \<Rightarrow> sref" where
  "ref_of g (Loop L body) = RLoop (g L)"
| "ref_of g (IfRange val lo hi body) = RIf"
| "ref_of g s = RLeaf"

fun heap_after :: "heap \<Rightarrow> heap \<Rightarrow> stmt \<Rightarrow> heap" where
  "heap_after h h' (Loop L body) = snd (new_loop h' (loop_name h L) (loop_end h L) (loop_stride h L))"
| "heap_after h h' s = h'"

definition after_stmt :: "ser \<Rightarrow> program \<Rightarrow> heap \<Rightarrow> stream \<Rightarrow> stream \<Rightarrow> skey \<Rightarrow> skey \<Rightarrow> nat list \<Rightarrow> stmt \<Rightarrow> des \<Rightarrow> des" where
  "after_stmt F p h pre suf me par kids s d =
     (let g = (\<lambda>L. hp_next (ds_heap d)) in
      d\<lparr>ds_rd := between (pre @ enc_puts F p (stmt_writes h (me, par, kids, s))) suf,
        ds_heap := heap_after h (ds_heap d) s, ds_used := ds_used d \<union> eid F ` set kids,
        ds_stmts := (ds_stmts d)(sid F me \<mapsto> ref_of g s),
        ds_tree := graft (sid F par) (DNode (sid F me) (shell_of F p d g s) []) (ds_tree d)\<rparr>)"

lemma int_of_u32_of_int: "in_int x \<Longrightarrow> int_of_u32 (u32_of_int x) = x"
  by (simp add: in_int_def int_of_u32_def u32_of_int_def signed_of_int signed_take_bit_int_eq_self)

lemma of_bool_u8 [simp]: "(of_bool b :: u8) \<noteq> 0 \<longleftrightarrow> b"
  by (cases b) simp_all

lemma unat_of_nat_u8: "n < 256 \<Longrightarrow> unat (of_nat n :: u8) = n"
  by (simp add: unat_of_nat take_bit_nat_eq_self)

lemma deserialize_entry:
  assumes H: "decodes H F" and D: "declared h p d" and s: "portable_stmt h p s"
    and rd: "ds_rd d = between pre (enc_puts F p (stmt_writes h (me, par, kids, s)) @ suf)"
    and kn: "\<forall>w \<in> set (stmt_writes h (me, par, kids, s)). known F p w"
    and kids: "list_all2 (\<lambda>k e. ds_exprs d (eid F k) = Some (raw F p d e)) kids (own_exprs s)"
    and once: "distinct (map (eid F) kids)" "\<forall>k \<in> set kids. eid F k \<notin> ds_used d"
    and me: "ds_stmts d (sid F me) = None"
    and par: "ds_stmts d (sid F par) = Some r" "r \<noteq> RLeaf"
  shows "deserialize_stmt H d = Inr (after_stmt F p h pre suf me par kids s d)"
proof (cases s)
  case (Loop L body)
  then show ?thesis using rd me par kids kn decodes_lookup(1) [OF H, of "loop_name h L"]
    by (simp add: deserialize_stmt_def get_between require_def add_stmt_def getStmt_def registerStmt_def
        new_loop_def Let_def after_stmt_def sid_def)
next
  case (IfRange val lo hi body)
  from kids obtain k where k: "kids = [k]" "ds_exprs d (eid F k) = Some (raw F p d val)"
    unfolding IfRange own_exprs.simps by (auto dest: kids1)
  have "int_of_u32 (u32_of_int lo) = lo" using s IfRange by (simp add: int_of_u32_of_int)
  with k IfRange show ?thesis using rd me par once
    by (simp add: deserialize_stmt_def get_between get_kid_between require_def add_stmt_def getStmt_def registerStmt_def
        Let_def after_stmt_def sid_def eid_def)
next
  case (StoreStmt gep x acc)
  from kids obtain k k' where k: "kids = [k, k']" "ds_exprs d (eid F k) = Some (raw F p d gep)"
      "ds_exprs d (eid F k') = Some (raw F p d x)"
    unfolding StoreStmt own_exprs.simps by (auto dest: kids2)
  have "is_GEP gep" using s StoreStmt by simp
  then have "new_StoreStmt (raw F p d gep) (raw F p d x) acc = Inr (StoreStmt (raw F p d gep) (raw F p d x) acc)"
    by (simp add: new_StoreStmt_def require_def raw_def)
  with k StoreStmt show ?thesis using rd me par once
    by (simp add: deserialize_stmt_def get_between get_kid_between require_def add_stmt_def getStmt_def registerStmt_def
        Let_def after_stmt_def sid_def eid_def insert_commute)
next
  case (StoreLocalStmt v x acc)
  from kids obtain k where k: "kids = [k]" "ds_exprs d (eid F k) = Some (raw F p d x)"
    unfolding StoreLocalStmt own_exprs.simps by (auto dest: kids1)
  have v: "v \<in> set (pr_vars p)" "getType x = var_type (hp_var h v)" using s StoreLocalStmt by simp_all
  then have "new_StoreLocalStmt (ds_heap d) (new_vars p d v) (raw F p d x) acc
      = Inr (StoreLocalStmt (new_vars p d v) (raw F p d x) acc)"
    using declared_var(2) [OF D v(1)] by (simp add: new_StoreLocalStmt_def require_def raw_def)
  with k StoreLocalStmt declared_var(1) [OF D v(1)] show ?thesis using rd me par once
    by (simp add: deserialize_stmt_def get_between get_kid_between require_def add_stmt_def getStmt_def registerStmt_def
        Let_def after_stmt_def sid_def eid_def)
next
  case (CallStmt name params)
  have n: "unat (of_nat (length params) :: u8) = length kids"
    using s kids CallStmt by (simp add: unat_of_nat_u8 list_all2_lengthD)
  let ?pre = "pre @ enc_u32 1 @ enc_u32 (sid F me) @ enc_u32 (sid F par) @ enc_u32 (id_in (=) (se_strs F) name)
      @ [of_nat (length params)]"
  let ?d = "d\<lparr>ds_rd := between ?pre (enc_puts F p (map WExpr kids) @ suf)\<rparr>"
  have g: "get_kids (length kids) ?d = Inr (map (raw F p d) params,
      ?d\<lparr>ds_rd := between (?pre @ enc_puts F p (map WExpr kids)) suf, ds_used := ds_used ?d \<union> eid F ` set kids\<rparr>)"
    by (rule get_kids_between) (use kids once CallStmt in \<open>auto simp: list_all2_map2\<close>)
  then show ?thesis using rd me par kn decodes_lookup(1) [OF H, of name] CallStmt
    by (simp add: deserialize_stmt_def get_between require_def n add_stmt_def getStmt_def registerStmt_def
        Let_def after_stmt_def sid_def)
qed

section \<open>Several statements\<close>

text \<open>The loop that was made for an old one.\<close>

definition new_loops :: "ser \<Rightarrow> des \<Rightarrow> loop_ptr \<Rightarrow> loop_ptr" where
  "new_loops F d L = resolved d (unat (sid F (KLoop L)))"

lemma new_loops_at: "ds_stmts d (sid F (KLoop L)) = Some (RLoop l) \<Longrightarrow> new_loops F d L = l"
  by (simp add: new_loops_def resolved_def)

lemma new_loops_cong: "ds_stmts d (sid F (KLoop L)) = ds_stmts d' (sid F (KLoop L)) \<Longrightarrow> new_loops F d L = new_loops F d' L"
  by (simp add: new_loops_def resolved_def)

text \<open>What a run of statements needs: their parent, free identifiers, and their expressions.\<close>

definition ready :: "ser \<Rightarrow> program \<Rightarrow> heap \<Rightarrow> skey \<Rightarrow> skey list \<Rightarrow> nat list \<Rightarrow> expr list \<Rightarrow> des \<Rightarrow> bool" where
  "ready F p h par ks rs es d \<longleftrightarrow>
     declared h p d \<and> (\<exists>r. ds_stmts d (sid F par) = Some r \<and> r \<noteq> RLeaf)
     \<and> node_ids (ds_tree d) \<subseteq> dom (ds_stmts d)
     \<and> (\<forall>k \<in> set ks. ds_stmts d (sid F k) = None) \<and> distinct (map (sid F) ks)
     \<and> list_all2 (\<lambda>k e. ds_exprs d (eid F k) = Some (raw F p d e)) rs es
     \<and> (\<forall>k \<in> set rs. eid F k \<notin> ds_used d) \<and> distinct (map (eid F) rs)"

text \<open>
  What reading a run of statements does: \<open>N\<close> gives the new children of the parent from the new
  loops, which are fresh and look like the old ones.
\<close>

definition stmts_read ::
  "ser \<Rightarrow> heap \<Rightarrow> skey \<Rightarrow> skey list \<Rightarrow> nat list \<Rightarrow> ((loop_ptr \<Rightarrow> loop_ptr) \<Rightarrow> dnode list) \<Rightarrow> des \<Rightarrow> des \<Rightarrow> bool" where
  "stmts_read F h par ks rs N d d' \<longleftrightarrow>
     ds_prog d' = ds_prog d \<and> ds_exprs d' = ds_exprs d \<and> ds_later d' = ds_later d
     \<and> hp_arg (ds_heap d') = hp_arg (ds_heap d) \<and> hp_var (ds_heap d') = hp_var (ds_heap d)
     \<and> ds_used d' = ds_used d \<union> eid F ` set rs
     \<and> (\<forall>i. i \<notin> sid F ` set ks \<longrightarrow> ds_stmts d' i = ds_stmts d i)
     \<and> hp_next (ds_heap d) \<le> hp_next (ds_heap d')
     \<and> (\<forall>l < hp_next (ds_heap d). hp_loop (ds_heap d') l = hp_loop (ds_heap d) l)
     \<and> (\<forall>L. KLoop L \<in> set ks \<longrightarrow> (\<exists>l. ds_stmts d' (sid F (KLoop L)) = Some (RLoop l)
          \<and> hp_next (ds_heap d) \<le> l \<and> l < hp_next (ds_heap d') \<and> hp_loop (ds_heap d') l = hp_loop h L))
     \<and> inj_on (new_loops F d') {L. KLoop L \<in> set ks}
     \<and> node_ids (ds_tree d') \<subseteq> dom (ds_stmts d')
     \<and> ds_tree d' = graft_list (sid F par) (N (new_loops F d')) (ds_tree d)"

lemma stmts_read_ids: "stmts_read F h par ks rs N d d' \<Longrightarrow> node_ids (ds_tree d') \<subseteq> dom (ds_stmts d')"
  unfolding stmts_read_def by blast

lemma stmts_read_keep:
  "stmts_read F h par ks rs N d d' \<Longrightarrow> i \<notin> sid F ` set ks \<Longrightarrow> ds_stmts d' i = ds_stmts d i"
  unfolding stmts_read_def by blast

lemma ready_later:
  assumes r: "ready F p h par (ks @ ks') (rs @ rs') (es @ es') d" and l: "length rs = length es"
    and s: "stmts_read F h par ks rs N d d1"
    and par: "ds_stmts d1 (sid F par') = Some r" "r \<noteq> RLeaf"
  shows "ready F p h par' ks' rs' es' d1"
proof -
  have p: "ds_prog d1 = ds_prog d" "ds_exprs d1 = ds_exprs d" "hp_arg (ds_heap d1) = hp_arg (ds_heap d)"
    "hp_var (ds_heap d1) = hp_var (ds_heap d)" "ds_used d1 = ds_used d \<union> eid F ` set rs"
    and keep: "\<forall>i. i \<notin> sid F ` set ks \<longrightarrow> ds_stmts d1 i = ds_stmts d i"
    using s by (simp_all add: stmts_read_def)
  have ids: "node_ids (ds_tree d1) \<subseteq> dom (ds_stmts d1)" using s by (rule stmts_read_ids)
  have raw: "raw F p d1 = raw F p d" by (simp add: raw_def new_args_def new_vars_def p(1))
  have decl: "declared h p d1 = declared h p d" by (simp add: declared_def p)
  have ks: "sid F k \<notin> sid F ` set ks" if "k \<in> set ks'" for k
    using r that by (auto simp: ready_def)
  have rs: "eid F k \<notin> eid F ` set rs" if "k \<in> set rs'" for k
    using r that by (auto simp: ready_def)
  show ?thesis
    using r par ids keep ks rs unfolding ready_def decl raw p(2,5)
    by (auto simp: l list_all2_append)
qed

lemma parent_stays:
  assumes "ready F p h par (ks @ ks') rs es d" "stmts_read F h par ks rs' N d d1"
  shows "ds_stmts d1 (sid F par) = ds_stmts d (sid F par)"
proof (rule stmts_read_keep [OF assms(2)])
  show "sid F par \<notin> sid F ` set ks" using assms(1) by (auto simp: ready_def)
qed

lemma new_loops_stay:
  assumes r: "ready F p h par (ks @ ks') rs es d" and s: "stmts_read F h par' ks' rs' N d1 d2" and L: "KLoop L \<in> set ks"
  shows "ds_stmts d2 (sid F (KLoop L)) = ds_stmts d1 (sid F (KLoop L))" "new_loops F d2 L = new_loops F d1 L"
proof -
  have "sid F (KLoop L) \<notin> sid F ` set ks'" using r L by (auto simp: ready_def)
  with s show e: "ds_stmts d2 (sid F (KLoop L)) = ds_stmts d1 (sid F (KLoop L))"
    by (rule stmts_read_keep)
  then show "new_loops F d2 L = new_loops F d1 L" by (rule new_loops_cong)
qed

text \<open>Two runs make a run; where the nodes of the second go is left open.\<close>

lemma stmts_read_join:
  assumes r: "ready F p h par (ks @ ks') rs0 es d"
    and s: "stmts_read F h par ks rs N d d1" and s': "stmts_read F h par' ks' rs' N' d1 d2"
    and t: "ds_tree d2 = graft_list (sid F par) (M (new_loops F d2)) (ds_tree d)"
  shows "stmts_read F h par (ks @ ks') (rs @ rs') M d d2"
proof -
  have "inj_on (new_loops F d2) ({L. KLoop L \<in> set ks} \<union> {L. KLoop L \<in> set ks'})"
  proof (rule inj_on_Un [THEN iffD2], intro conjI)
    show "inj_on (new_loops F d2) {L. KLoop L \<in> set ks}"
      using s new_loops_stay(2) [OF r s'] inj_on_cong [of "{L. KLoop L \<in> set ks}" "new_loops F d2" "new_loops F d1"]
      by (simp add: stmts_read_def)
    show "inj_on (new_loops F d2) {L. KLoop L \<in> set ks'}" using s' by (simp add: stmts_read_def)
    have "new_loops F d2 L < hp_next (ds_heap d1)" if "KLoop L \<in> set ks" for L
      using s that new_loops_stay(2) [OF r s' that] by (auto simp: stmts_read_def new_loops_at)
    moreover have "hp_next (ds_heap d1) \<le> new_loops F d2 L" if "KLoop L \<in> set ks'" for L
      using s' that by (auto simp: stmts_read_def new_loops_at)
    ultimately show "new_loops F d2 ` ({L. KLoop L \<in> set ks} - {L. KLoop L \<in> set ks'})
        \<inter> new_loops F d2 ` ({L. KLoop L \<in> set ks'} - {L. KLoop L \<in> set ks}) = {}"
      by (fastforce simp: not_less)
  qed
  moreover have "{L. KLoop L \<in> set ks} \<union> {L. KLoop L \<in> set ks'} = {L. KLoop L \<in> set (ks @ ks')}" by auto
  ultimately have inj: "inj_on (new_loops F d2) {L. KLoop L \<in> set (ks @ ks')}" by simp
  have loops: "\<exists>l. ds_stmts d2 (sid F (KLoop L)) = Some (RLoop l)
      \<and> hp_next (ds_heap d) \<le> l \<and> l < hp_next (ds_heap d2) \<and> hp_loop (ds_heap d2) l = hp_loop h L"
    if "KLoop L \<in> set (ks @ ks')" for L
  proof (cases "KLoop L \<in> set ks")
    case True
    then obtain l where l: "ds_stmts d1 (sid F (KLoop L)) = Some (RLoop l)" "hp_next (ds_heap d) \<le> l"
      "l < hp_next (ds_heap d1)" "hp_loop (ds_heap d1) l = hp_loop h L"
      using s by (auto simp: stmts_read_def)
    then show ?thesis using s' new_loops_stay(1) [OF r s' True] by (auto simp: stmts_read_def)
  next
    case False
    then obtain l where "ds_stmts d2 (sid F (KLoop L)) = Some (RLoop l)" "hp_next (ds_heap d1) \<le> l"
      "l < hp_next (ds_heap d2)" "hp_loop (ds_heap d2) l = hp_loop h L"
      using s' \<open>KLoop L \<in> set (ks @ ks')\<close> by (auto simp: stmts_read_def)
    then show ?thesis using s by (auto simp: stmts_read_def)
  qed
  have old: "\<forall>l < hp_next (ds_heap d). hp_loop (ds_heap d2) l = hp_loop (ds_heap d) l"
    using s s' by (simp add: stmts_read_def)
  have ids: "node_ids (ds_tree d2) \<subseteq> dom (ds_stmts d2)" using s' by (rule stmts_read_ids)
  show ?thesis
    unfolding stmts_read_def
  proof (intro conjI)
    show "\<forall>i. i \<notin> sid F ` set (ks @ ks') \<longrightarrow> ds_stmts d2 i = ds_stmts d i"
      using stmts_read_keep [OF s] stmts_read_keep [OF s'] by (simp add: image_Un)
    show "\<forall>L. KLoop L \<in> set (ks @ ks') \<longrightarrow> (\<exists>l. ds_stmts d2 (sid F (KLoop L)) = Some (RLoop l)
        \<and> hp_next (ds_heap d) \<le> l \<and> l < hp_next (ds_heap d2) \<and> hp_loop (ds_heap d2) l = hp_loop h L)"
      using loops by blast
  qed (use inj old ids t s s' in \<open>simp_all add: stmts_read_def image_Un Un_assoc\<close>)
qed

text \<open>The key of a statement: a loop is known by its pointer.\<close>

fun key_fits :: "skey \<Rightarrow> stmt \<Rightarrow> bool" where
  "key_fits me (Loop L body) \<longleftrightarrow> me = KLoop L"
| "key_fits me s \<longleftrightarrow> (\<exists>m. me = KStmt m)"

lemma entry_read:
  assumes H: "decodes H F" and s: "portable_stmt h p s" and key: "key_fits me s"
    and r: "ready F p h par ([me] @ ks) (kids @ rs) (own_exprs s @ es) d" and l: "length kids = length (own_exprs s)"
    and rd: "ds_rd d = between pre (enc_puts F p (stmt_writes h (me, par, kids, s)) @ suf)"
    and kn: "\<forall>w \<in> set (stmt_writes h (me, par, kids, s)). known F p w"
  shows "\<exists>d1 g. deserialize_stmt H d = Inr d1 \<and> ds_stmts d1 (sid F me) = Some (ref_of g s)
    \<and> stmts_read F h par [me] kids (\<lambda>g. [DNode (sid F me) (shell_of F p d g s) []]) d d1
    \<and> ds_rd d1 = between (pre @ enc_puts F p (stmt_writes h (me, par, kids, s))) suf"
proof -
  let ?d = "after_stmt F p h pre suf me par kids s d" and ?g = "\<lambda>L. hp_next (ds_heap d)"
  obtain ref where par: "ds_stmts d (sid F par) = Some ref" "ref \<noteq> RLeaf" using r by (auto simp: ready_def)
  have D: "declared h p d" using r by (simp add: ready_def)
  have kids: "list_all2 (\<lambda>k e. ds_exprs d (eid F k) = Some (raw F p d e)) kids (own_exprs s)"
    using r by (simp add: ready_def list_all2_append l)
  have "deserialize_stmt H d = Inr ?d"
    by (rule deserialize_entry [OF H D s rd kn kids _ _ _ par]) (use r in \<open>auto simp: ready_def\<close>)
  moreover have "ds_stmts ?d (sid F me) = Some (ref_of ?g s)" by (simp add: after_stmt_def Let_def)
  moreover have "stmts_read F h par [me] kids (\<lambda>g. [DNode (sid F me) (shell_of F p d g s) []]) d ?d"
  proof -
    have ids: "node_ids (ds_tree ?d) \<subseteq> dom (ds_stmts ?d)"
      using r graft_ids [of "sid F par" "DNode (sid F me) (shell_of F p d ?g s) []" "ds_tree d"]
      by (auto simp: after_stmt_def ready_def Let_def)
    have shell: "shell_of F p d (new_loops F ?d) s = shell_of F p d ?g s"
      using key by (cases s) (auto simp: after_stmt_def Let_def new_loops_at)
    have loops: "\<exists>l. ds_stmts ?d (sid F (KLoop L)) = Some (RLoop l)
      \<and> hp_next (ds_heap d) \<le> l \<and> l < hp_next (ds_heap ?d) \<and> hp_loop (ds_heap ?d) l = hp_loop h L"
      if "KLoop L \<in> set [me]" for L
      using key that by (cases s) (auto simp: after_stmt_def Let_def new_loop_def loop_name_def loop_end_def loop_stride_def)
    show ?thesis unfolding stmts_read_def
    proof (intro conjI)
      show "ds_tree ?d = graft_list (sid F par) [DNode (sid F me) (shell_of F p d (new_loops F ?d) s) []] (ds_tree d)"
        unfolding shell by (simp add: after_stmt_def Let_def)
      show "inj_on (new_loops F ?d) {L. KLoop L \<in> set [me]}" by (auto simp: inj_on_def)
      show "hp_next (ds_heap d) \<le> hp_next (ds_heap ?d)" "hp_arg (ds_heap ?d) = hp_arg (ds_heap d)"
        "hp_var (ds_heap ?d) = hp_var (ds_heap d)"
        "\<forall>l < hp_next (ds_heap d). hp_loop (ds_heap ?d) l = hp_loop (ds_heap d) l"
        by (cases s; simp add: after_stmt_def Let_def new_loop_def)+
    qed (use ids loops in \<open>auto simp: after_stmt_def Let_def\<close>)
  qed
  ultimately show ?thesis by (auto simp: after_stmt_def Let_def)
qed

text \<open>The statements below a scope.\<close>

lemma nest_read:
  assumes r: "ready F p h par ([me] @ ks) (kids @ rs) es d"
    and s: "stmts_read F h par [me] kids (\<lambda>g. [DNode (sid F me) (sh g) []]) d d1"
    and b: "stmts_read F h me ks rs N d1 d2"
    and sh: "\<And>g g'. (\<And>L. KLoop L = me \<Longrightarrow> g L = g' L) \<Longrightarrow> sh g = sh g'"
    and N: "\<And>g. (\<Union>k \<in> set (N g). node_ids k) \<subseteq> sid F ` set ks"
  shows "stmts_read F h par (me # ks) (kids @ rs) (\<lambda>g. [DNode (sid F me) (sh g) (N g)]) d d2"
proof -
  have same: "sh (new_loops F d1) = sh (new_loops F d2)"
  proof (rule sh)
    fix L assume "KLoop L = me"
    then show "new_loops F d1 L = new_loops F d2 L" using new_loops_stay(2) [OF r b, of L] by simp
  qed
  have t1: "ds_tree d1 = graft (sid F par) (DNode (sid F me) (sh (new_loops F d2)) []) (ds_tree d)"
    using s by (simp add: stmts_read_def same)
  have t2: "ds_tree d2 = graft_list (sid F me) (N (new_loops F d2)) (ds_tree d1)"
    using b by (simp add: stmts_read_def)
  have me: "sid F me \<notin> node_ids (ds_tree d)" "sid F me \<notin> sid F ` set ks" using r by (auto simp: ready_def)
  have "ds_tree d2 = graft (sid F par) (DNode (sid F me) (sh (new_loops F d2)) ([] @ N (new_loops F d2))) (ds_tree d)"
    unfolding t2 t1 by (rule graft_list_under_new) (use me N [of "new_loops F d2"] in auto)
  then have "ds_tree d2 = graft_list (sid F par) [DNode (sid F me) (sh (new_loops F d2)) (N (new_loops F d2))] (ds_tree d)"
    by simp
  from stmts_read_join [where M = "\<lambda>g. [DNode (sid F me) (sh g) (N g)]", OF r s b this] show ?thesis by simp
qed

lemma append_read:
  assumes r: "ready F p h par (ks @ ks') rs0 es d"
    and s: "stmts_read F h par ks rs N d d1" and s': "stmts_read F h par ks' rs' N' d1 d2"
    and N: "\<And>g g'. (\<And>L. KLoop L \<in> set ks \<Longrightarrow> g L = g' L) \<Longrightarrow> N g = N g'"
  shows "stmts_read F h par (ks @ ks') (rs @ rs') (\<lambda>g. N g @ N' g) d d2"
proof (rule stmts_read_join [OF r s s'])
  have "N (new_loops F d1) = N (new_loops F d2)" by (rule N) (simp add: new_loops_stay(2) [OF r s'])
  with s s' show "ds_tree d2 = graft_list (sid F par) (N (new_loops F d2) @ N' (new_loops F d2)) (ds_tree d)"
    by (simp add: stmts_read_def graft_list_append)
qed

section \<open>The statement section\<close>

lemma nodes_ids:
  "node_ids (node_of F p d g m s) \<subseteq> sid F ` set (stmt_keys m s)"
  "(\<Union>k \<in> set (nodes_of F p d g m ss). node_ids k) \<subseteq> sid F ` set (body_keys m ss)"
  by (induction F p d g m s and F p d g m ss rule: node_of_nodes_of.induct) auto

lemma node_of_keys:
  "(\<And>L. KLoop L \<in> set (stmt_keys m s) \<Longrightarrow> g L = g' L) \<Longrightarrow> node_of F p d g m s = node_of F p d g' m s"
  using loops_keys(1) [of _ s m] node_of_cong(1) [of s g g'] by blast

lemma roots_append: "roots n (es @ es') = roots n es @ roots (n + sum_list (map ecount es)) es'"
  by (induction n es rule: roots.induct) (simp_all add: add.assoc)

lemma s_exprs_body: "sum_list (map s_exprs ss) = sum_list (map ecount (concat (map all_exprs ss)))"
  by (induction ss) (simp_all add: s_exprs_def)

abbreviation stmt_bytes :: "ser \<Rightarrow> program \<Rightarrow> heap \<Rightarrow> (skey \<times> skey \<times> nat list \<times> stmt) list \<Rightarrow> stream" where
  "stmt_bytes F p h es \<equiv> enc_puts F p (concat (map (stmt_writes h) es))"

definition all_known :: "ser \<Rightarrow> program \<Rightarrow> heap \<Rightarrow> (skey \<times> skey \<times> nat list \<times> stmt) list \<Rightarrow> bool" where
  "all_known F p h es \<longleftrightarrow> (\<forall>w \<in> set (concat (map (stmt_writes h) es)). known F p w)"

lemma all_known_simps [simp]:
  "all_known F p h []" "all_known F p h (x # xs) \<longleftrightarrow> (\<forall>w \<in> set (stmt_writes h x). known F p w) \<and> all_known F p h xs"
  "all_known F p h (xs @ ys) \<longleftrightarrow> all_known F p h xs \<and> all_known F p h ys"
  by (auto simp: all_known_def)

text \<open>A statement that has no body.\<close>

lemma read_leaf:
  assumes H: "decodes H F" and s: "portable_stmt h p s" and key: "key_fits me s"
    and rd: "ds_rd d = between pre (stmt_bytes F p h [(me, par, roots n (own_exprs s), s)] @ suf)"
    and kn: "all_known F p h [(me, par, roots n (own_exprs s), s)]"
    and r: "ready F p h par [me] (roots n (own_exprs s)) (own_exprs s) d"
    and N: "\<And>g. N g = [DNode (sid F me) (shell_of F p d g s) []]"
  shows "\<exists>d'. repeat_res 1 (deserialize_stmt H) d = Inr d'
    \<and> stmts_read F h par [me] (roots n (own_exprs s)) N d d'
    \<and> ds_rd d' = between (pre @ stmt_bytes F p h [(me, par, roots n (own_exprs s), s)]) suf"
proof -
  have r': "ready F p h par ([me] @ []) (roots n (own_exprs s) @ []) (own_exprs s @ []) d" using r by simp
  have "N = (\<lambda>g. [DNode (sid F me) (shell_of F p d g s) []])" using N by blast
  then show ?thesis
    using entry_read [OF H s key r' roots_length, of pre suf] rd kn by auto
qed

text \<open>A statement with a body, from its entry and its body.\<close>

lemma read_scope:
  assumes H: "decodes H F" and s: "portable_stmt h p s" and key: "key_fits me s"
    and rd: "ds_rd d = between pre (stmt_bytes F p h ((me, par, roots n (own_exprs s), s) # b) @ suf)"
    and kn: "all_known F p h ((me, par, roots n (own_exprs s), s) # b)"
    and r: "ready F p h par (me # ks) (roots n (own_exprs s) @ rs) (own_exprs s @ es) d"
    and scope: "\<And>g. ref_of g s \<noteq> RLeaf"
    and sh: "\<And>g g'. (\<And>L. KLoop L = me \<Longrightarrow> g L = g' L) \<Longrightarrow> shell_of F p d g s = shell_of F p d g' s"
    and N: "\<And>g. (\<Union>k \<in> set (N g). node_ids k) \<subseteq> sid F ` set ks"
    and M: "\<And>g. M g = [DNode (sid F me) (shell_of F p d g s) (N g)]"
    and body: "\<And>d1 pre1. \<lbrakk>ds_rd d1 = between pre1 (stmt_bytes F p h b @ suf); ready F p h me ks rs es d1; ds_prog d1 = ds_prog d\<rbrakk>
      \<Longrightarrow> \<exists>d'. repeat_res c (deserialize_stmt H) d1 = Inr d' \<and> stmts_read F h me ks rs N d1 d'
        \<and> ds_rd d' = between (pre1 @ stmt_bytes F p h b) suf"
  shows "\<exists>d'. repeat_res (Suc c) (deserialize_stmt H) d = Inr d'
    \<and> stmts_read F h par (me # ks) (roots n (own_exprs s) @ rs) M d d'
    \<and> ds_rd d' = between (pre @ stmt_bytes F p h ((me, par, roots n (own_exprs s), s) # b)) suf"
proof -
  let ?w = "stmt_writes h (me, par, roots n (own_exprs s), s)"
  have r': "ready F p h par ([me] @ ks) (roots n (own_exprs s) @ rs) (own_exprs s @ es) d" using r by simp
  have rd': "ds_rd d = between pre (enc_puts F p ?w @ stmt_bytes F p h b @ suf)" using rd by simp
  obtain d1 g where d1: "deserialize_stmt H d = Inr d1" "ds_stmts d1 (sid F me) = Some (ref_of g s)"
    "stmts_read F h par [me] (roots n (own_exprs s)) (\<lambda>g. [DNode (sid F me) (shell_of F p d g s) []]) d d1"
    "ds_rd d1 = between (pre @ enc_puts F p ?w) (stmt_bytes F p h b @ suf)"
    using entry_read [OF H s key r' roots_length rd'] kn by auto
  have "ready F p h me ks rs es d1" by (rule ready_later [OF r' roots_length d1(3,2) scope])
  moreover have "ds_prog d1 = ds_prog d" using d1(3) by (simp add: stmts_read_def)
  ultimately obtain d' where d': "repeat_res c (deserialize_stmt H) d1 = Inr d'" "stmts_read F h me ks rs N d1 d'"
    "ds_rd d' = between ((pre @ enc_puts F p ?w) @ stmt_bytes F p h b) suf"
    using body [OF d1(4)] by blast
  have "stmts_read F h par (me # ks) (roots n (own_exprs s) @ rs) (\<lambda>g. [DNode (sid F me) (shell_of F p d g s) (N g)]) d d'"
    by (rule nest_read [OF r' d1(3) d'(2) sh N])
  moreover have "M = (\<lambda>g. [DNode (sid F me) (shell_of F p d g s) (N g)])" using M by blast
  ultimately show ?thesis using d1(1) d' by simp
qed

lemma read_stmts:
  assumes H: "decodes H F"
  shows "\<lbrakk>ds_rd d = between pre (stmt_bytes F p h (label_stmt par m n s) @ suf); portable_stmt h p s;
      all_known F p h (label_stmt par m n s); ready F p h par (stmt_keys m s) (roots n (all_exprs s)) (all_exprs s) d;
      ds_prog d = ds_prog d0\<rbrakk>
     \<Longrightarrow> \<exists>d'. repeat_res (s_stmts s) (deserialize_stmt H) d = Inr d'
       \<and> stmts_read F h par (stmt_keys m s) (roots n (all_exprs s)) (\<lambda>g. [node_of F p d0 g m s]) d d'
       \<and> ds_rd d' = between (pre @ stmt_bytes F p h (label_stmt par m n s)) suf"
   and "\<lbrakk>ds_rd d = between pre (stmt_bytes F p h (label_body par m n ss) @ suf); list_all (portable_stmt h p) ss;
      all_known F p h (label_body par m n ss);
      ready F p h par (body_keys m ss) (roots n (concat (map all_exprs ss))) (concat (map all_exprs ss)) d;
      ds_prog d = ds_prog d0\<rbrakk>
     \<Longrightarrow> \<exists>d'. repeat_res (sum_list (map s_stmts ss)) (deserialize_stmt H) d = Inr d'
       \<and> stmts_read F h par (body_keys m ss) (roots n (concat (map all_exprs ss))) (\<lambda>g. nodes_of F p d0 g m ss) d d'
       \<and> ds_rd d' = between (pre @ stmt_bytes F p h (label_body par m n ss)) suf"
proof (induction par m n s and par m n ss arbitrary: d pre suf and d pre suf rule: label_stmt_label_body.induct)
  case (1 par m n L body)
  have raw: "raw F p d = raw F p d0" using "1.prems"(5) by (simp add: raw_def new_args_def new_vars_def)
  have "\<exists>d'. repeat_res (Suc (sum_list (map s_stmts body))) (deserialize_stmt H) d = Inr d'
    \<and> stmts_read F h par (KLoop L # body_keys (Suc m) body) (roots n (own_exprs (Loop L body)) @ roots n (concat (map all_exprs body)))
        (\<lambda>g. [node_of F p d0 g m (Loop L body)]) d d'
    \<and> ds_rd d' = between (pre @ stmt_bytes F p h ((KLoop L, par, roots n (own_exprs (Loop L body)), Loop L body)
        # label_body (KLoop L) (Suc m) n body)) suf"
    by (rule read_scope [OF H, where suf = suf and es = "concat (map all_exprs body)" and N = "\<lambda>g. nodes_of F p d0 g (Suc m) body"])
      (use 1 nodes_ids(2) in auto)
  then show ?case by simp
next
  case (2 par m n val lo hi body)
  have raw: "raw F p d = raw F p d0" using "2.prems"(5) by (simp add: raw_def new_args_def new_vars_def)
  let ?s = "IfRange val lo hi body"
  have "\<exists>d'. repeat_res (Suc (sum_list (map s_stmts body))) (deserialize_stmt H) d = Inr d'
    \<and> stmts_read F h par (KStmt m # body_keys (Suc m) body) (roots n (own_exprs ?s) @ roots (n + ecount val) (concat (map all_exprs body)))
        (\<lambda>g. [node_of F p d0 g m ?s]) d d'
    \<and> ds_rd d' = between (pre @ stmt_bytes F p h ((KStmt m, par, roots n (own_exprs ?s), ?s)
        # label_body (KStmt m) (Suc m) (n + ecount val) body)) suf"
    by (rule read_scope [OF H, where suf = suf and es = "concat (map all_exprs body)" and N = "\<lambda>g. nodes_of F p d0 g (Suc m) body"])
      (use 2 nodes_ids(2) raw in auto)
  then show ?case by simp
next
  case (3 par m n name params)
  have raw: "raw F p d = raw F p d0" using "3.prems"(5) by (simp add: raw_def new_args_def new_vars_def)
  show ?case
    using read_leaf [OF H _ _ _ _ _, of h p "CallStmt name params" "KStmt m" d pre par n suf "\<lambda>g. [node_of F p d0 g m (CallStmt name params)]"]
      3 raw by simp
next
  case (4 par m n gep x acc)
  have raw: "raw F p d = raw F p d0" using "4.prems"(5) by (simp add: raw_def new_args_def new_vars_def)
  show ?case
    using read_leaf [OF H _ _ _ _ _, of h p "StoreStmt gep x acc" "KStmt m" d pre par n suf "\<lambda>g. [node_of F p d0 g m (StoreStmt gep x acc)]"]
      4 raw by simp
next
  case (5 par m n v x acc)
  have raw: "raw F p d = raw F p d0" "new_vars p d = new_vars p d0" using "5.prems"(5) by (simp_all add: raw_def new_args_def new_vars_def)
  show ?case
    using read_leaf [OF H _ _ _ _ _, of h p "StoreLocalStmt v x acc" "KStmt m" d pre par n suf "\<lambda>g. [node_of F p d0 g m (StoreLocalStmt v x acc)]"]
      5 raw by simp
next
  case (6 par m n)
  then have "node_ids (ds_tree d) \<subseteq> dom (ds_stmts d)" by (simp add: ready_def)
  with 6 show ?case by (simp add: stmts_read_def)
next
  case (7 par m n s ss)
  let ?ks = "stmt_keys m s" and ?ks' = "body_keys (m + s_stmts s) ss"
  let ?es = "all_exprs s" and ?es' = "concat (map all_exprs ss)"
  have rs: "roots n (?es @ ?es') = roots n ?es @ roots (n + s_exprs s) ?es'" by (simp add: roots_append s_exprs_def)
  have r: "ready F p h par (?ks @ ?ks') (roots n ?es @ roots (n + s_exprs s) ?es') (?es @ ?es') d"
    using "7.prems"(4) by (simp add: rs)
  have "ready F p h par ?ks (roots n ?es) ?es d" using r by (simp add: ready_def list_all2_append)
  then have "\<exists>d1. repeat_res (s_stmts s) (deserialize_stmt H) d = Inr d1
      \<and> stmts_read F h par ?ks (roots n ?es) (\<lambda>g. [node_of F p d0 g m s]) d d1
      \<and> ds_rd d1 = between (pre @ stmt_bytes F p h (label_stmt par m n s))
          (stmt_bytes F p h (label_body par (m + s_stmts s) (n + s_exprs s) ss) @ suf)"
    using "7.prems" by (intro "7.IH"(1)) auto
  then obtain d1 where d1: "repeat_res (s_stmts s) (deserialize_stmt H) d = Inr d1"
    "stmts_read F h par ?ks (roots n ?es) (\<lambda>g. [node_of F p d0 g m s]) d d1"
    "ds_rd d1 = between (pre @ stmt_bytes F p h (label_stmt par m n s))
          (stmt_bytes F p h (label_body par (m + s_stmts s) (n + s_exprs s) ss) @ suf)" by blast
  obtain ref where "ds_stmts d (sid F par) = Some ref" "ref \<noteq> RLeaf" using r by (auto simp: ready_def)
  then have "ds_stmts d1 (sid F par) = Some ref" "ref \<noteq> RLeaf" using parent_stays [OF r d1(2)] by simp_all
  then have r1: "ready F p h par ?ks' (roots (n + s_exprs s) ?es') ?es' d1" by (rule ready_later [OF r roots_length d1(2)])
  have "ds_prog d1 = ds_prog d0" using d1(2) "7.prems"(5) by (simp add: stmts_read_def)
  then have "\<exists>d2. repeat_res (sum_list (map s_stmts ss)) (deserialize_stmt H) d1 = Inr d2
      \<and> stmts_read F h par ?ks' (roots (n + s_exprs s) ?es') (\<lambda>g. nodes_of F p d0 g (m + s_stmts s) ss) d1 d2
      \<and> ds_rd d2 = between ((pre @ stmt_bytes F p h (label_stmt par m n s))
          @ stmt_bytes F p h (label_body par (m + s_stmts s) (n + s_exprs s) ss)) suf"
    using "7.prems" d1(3) r1 by (intro "7.IH"(2)) auto
  then obtain d2 where d2: "repeat_res (sum_list (map s_stmts ss)) (deserialize_stmt H) d1 = Inr d2"
      "stmts_read F h par ?ks' (roots (n + s_exprs s) ?es') (\<lambda>g. nodes_of F p d0 g (m + s_stmts s) ss) d1 d2"
      "ds_rd d2 = between ((pre @ stmt_bytes F p h (label_stmt par m n s))
          @ stmt_bytes F p h (label_body par (m + s_stmts s) (n + s_exprs s) ss)) suf" by blast
  have "stmts_read F h par (?ks @ ?ks') (roots n ?es @ roots (n + s_exprs s) ?es')
      (\<lambda>g. [node_of F p d0 g m s] @ nodes_of F p d0 g (m + s_stmts s) ss) d d2"
  proof (rule append_read [OF r d1(2) d2(2)])
    fix g g' :: "loop_ptr \<Rightarrow> loop_ptr"
    assume "\<And>L. KLoop L \<in> set ?ks \<Longrightarrow> g L = g' L"
    from node_of_keys [OF this] show "[node_of F p d0 g m s] = [node_of F p d0 g' m s]" by simp
  qed
  then show ?case using d1(1) d2(1,3) by (simp add: rs repeat_res_add)
qed

end
