(* ===== verification/RoundTrip.thy ===== *)
theory RoundTrip
  imports DecodeTree
begin

text \<open>
  The round trip of the bytecode: what \<open>Bytecode::serialize\<close> writes for a portable program,
  \<open>Bytecode::deserialize\<close> reads back as the same program under new pointers, except for the ends
  of its range checks.
\<close>

section \<open>What the tables hold\<close>

text \<open>Every element of a table was written.\<close>

definition from_writes :: "put list \<Rightarrow> ser \<Rightarrow> bool" where
  "from_writes ws s \<longleftrightarrow>
     (\<forall>x \<in> set (it_table (se_strs s)). WStr x \<in> set ws) \<and> (\<forall>x \<in> set (it_table (se_etys s)). WEty x \<in> set ws)
     \<and> (\<forall>x \<in> set (it_table (se_ttys s)). WTty x \<in> set ws)"

lemma getIdFor_set: "getIdFor eq t x = Inr (i, t') \<Longrightarrow> set (it_table t') \<subseteq> insert x (set (it_table t))"
  by (auto simp: getIdFor_def split: option.splits)

lemma getIdForAll_set: "getIdForAll eq t xs = Inr t' \<Longrightarrow> set (it_table t') \<subseteq> set xs \<union> set (it_table t)"
proof (induction xs arbitrary: t)
  case (Cons x xs)
  then obtain i t1 where "getIdFor eq t x = Inr (i, t1)" "getIdForAll eq t1 xs = Inr t'" by auto
  with Cons.IH [of t1] getIdFor_set [of eq t x i t1] show ?case by auto
qed simp

lemma do_write_from:
  assumes "do_write p w s = Inr s'" "from_writes ws s"
  shows "from_writes (ws @ [w]) s'"
  using assms by (cases w) (auto simp: from_writes_def dest!: getIdFor_set)

lemma do_writes_from: "do_writes p ws s = Inr s' \<Longrightarrow> from_writes ws0 s \<Longrightarrow> from_writes (ws0 @ ws) s'"
proof (induction ws arbitrary: s ws0)
  case (Cons w ws)
  then obtain s1 where "do_write p w s = Inr s1" "do_writes p ws s1 = Inr s'" by auto
  with Cons.IH [of s1 "ws0 @ [w]"] do_write_from [of p w s s1 ws0] Cons.prems show ?case by simp
qed simp

lemma from_init: "from_writes [] ser_init"
  by (simp add: from_writes_def ser_init_def empty_table_def)

text \<open>Only statements get an entry in the table of statements.\<close>

fun names_stmt :: "put \<Rightarrow> bool" where
  "names_stmt (WStmt k) = True"
| "names_stmt (Touch k) = True"
| "names_stmt w = False"

lemma do_writes_no_stmt: "do_writes p ws s = Inr s' \<Longrightarrow> list_all (\<lambda>w. \<not> names_stmt w) ws \<Longrightarrow> se_stmts s' = se_stmts s"
proof (induction ws arbitrary: s)
  case (Cons w ws)
  then obtain s1 where s1: "do_write p w s = Inr s1" "do_writes p ws s1 = Inr s'" by auto
  have "se_stmts s1 = se_stmts s" using s1(1) Cons.prems(2) by (cases w) auto
  with Cons s1 show ?case by simp
qed simp

lemma do_writes_append: "do_writes p (ws @ ws') s = bind_res (do_writes p ws s) (do_writes p ws')"
proof (induction ws arbitrary: s)
  case (Cons w ws)
  then show ?case by (cases "do_write p w s") simp_all
qed simp

lemma decl_no_stmt: "list_all (\<lambda>w. \<not> names_stmt w) (decl_writes h p)"
  by (auto simp: decl_writes_def list_all_iff)

text \<open>The program itself has the first identifier.\<close>

lemma program_first:
  assumes "do_writes p (program_writes h p) ser_init = Inr s" "ser_grows s F"
  shows "sid F KProg = 0"
proof -
  obtain ws where ws: "program_writes h p = decl_writes h p @ Touch KProg # ws" by (simp add: program_writes_def)
  obtain s1 s2 where s1: "do_writes p (decl_writes h p) ser_init = Inr s1" "do_write p (Touch KProg) s1 = Inr s2"
    "do_writes p ws s2 = Inr s"
    using assms(1) by (auto simp: ws do_writes_append)
  have "se_stmts s1 = empty_table" using do_writes_no_stmt [OF s1(1) decl_no_stmt] by (simp add: ser_init_def)
  then have "it_table (se_stmts s2) = [KProg]" using s1(2) by (auto simp: getIdFor_def empty_table_def require_def)
  moreover have "grows (se_stmts s2) (se_stmts F)"
    using do_writes_stream [OF s1(3)] assms(2) by (auto simp: ser_grows_def intro: grows_trans)
  ultimately obtain xs where "it_table (se_stmts F) = KProg # xs" by (auto simp: grows_def)
  then show ?thesis by (simp add: sid_def id_in_def)
qed

section \<open>Declarations\<close>

definition arg_writes :: "heap \<Rightarrow> arg_ptr \<Rightarrow> put list" where
  "arg_writes h a = [WStr (arg_name (hp_arg h a)), WTty (arg_type (hp_arg h a))]"

definition var_writes :: "heap \<Rightarrow> var_ptr \<Rightarrow> put list" where
  "var_writes h v = [WStr (var_name (hp_var h v)), WEty (var_type (hp_var h v))]"

text \<open>The heap and the program after the declarations \<open>as\<close> and \<open>vs\<close> of another program were made again.\<close>

fun redeclare_args :: "heap \<Rightarrow> arg_ptr list \<Rightarrow> heap \<times> program \<Rightarrow> heap \<times> program" where
  "redeclare_args h [] hq = hq"
| "redeclare_args h (a # as) (h', q) =
     (let (b, h1) = new_arg h' (hp_arg h a) in redeclare_args h as (h1, addArg q b))"

fun redeclare_vars :: "heap \<Rightarrow> var_ptr list \<Rightarrow> heap \<times> program \<Rightarrow> heap \<times> program" where
  "redeclare_vars h [] hq = hq"
| "redeclare_vars h (v # vs) (h', q) =
     (let (w, h1) = new_var h' (hp_var h v) in redeclare_vars h vs (h1, addVar q w))"

lemma enc_declaration [simp]:
  "enc_puts F p (arg_writes h a) =
     enc_u32 (id_in (=) (se_strs F) (arg_name (hp_arg h a))) @ enc_u32 (id_in Type_isEqual (se_ttys F) (arg_type (hp_arg h a)))"
  "enc_puts F p (var_writes h v) =
     enc_u32 (id_in (=) (se_strs F) (var_name (hp_var h v))) @ enc_u32 (id_in ExprType_isEqual (se_etys F) (var_type (hp_var h v)))"
  by (simp_all add: arg_writes_def var_writes_def)

lemma declaration_eta [simp]:
  "\<lparr>arg_name = arg_name a, arg_type = arg_type a\<rparr> = a" "\<lparr>var_name = var_name v, var_type = var_type v\<rparr> = v"
  by simp_all

lemma read_args_all:
  assumes H: "decodes H F"
    and ty: "\<And>z. known_in Type_isEqual (se_ttys F) z \<Longrightarrow> z \<in> arg_type ` hp_arg h ` set as \<Longrightarrow>
      getById (hd_ttys H) (id_in Type_isEqual (se_ttys F) z) = Inr z"
  shows "ds_rd d = between pre (enc_puts F p (concat (map (arg_writes h) as)) @ suf) \<Longrightarrow>
    \<forall>w \<in> set (concat (map (arg_writes h) as)). known F p w \<Longrightarrow>
    redeclare_args h as (ds_heap d, ds_prog d) = (h', q) \<Longrightarrow>
    read_args (length as) H d = Inr (d\<lparr>ds_rd := between (pre @ enc_puts F p (concat (map (arg_writes h) as))) suf,
      ds_heap := h', ds_prog := q\<rparr>)"
  using ty
proof (induction as arbitrary: d pre)
  case (Cons a as)
  let ?h1 = "snd (new_arg (ds_heap d) (hp_arg h a))" and ?q1 = "addArg (ds_prog d) (fst (new_arg (ds_heap d) (hp_arg h a)))"
  let ?d = "d\<lparr>ds_rd := between (pre @ enc_puts F p (arg_writes h a)) (enc_puts F p (concat (map (arg_writes h) as)) @ suf),
    ds_heap := ?h1, ds_prog := ?q1\<rparr>"
  have "read_args (length as) H ?d = Inr (?d\<lparr>ds_rd := between ((pre @ enc_puts F p (arg_writes h a))
      @ enc_puts F p (concat (map (arg_writes h) as))) suf, ds_heap := h', ds_prog := q\<rparr>)"
    by (rule Cons.IH) (use Cons.prems in \<open>auto simp: new_arg_def\<close>)
  moreover have "getById (hd_ttys H) (id_in Type_isEqual (se_ttys F) (arg_type (hp_arg h a))) = Inr (arg_type (hp_arg h a))"
    using Cons.prems(2,4) by (simp add: arg_writes_def)
  moreover have "getById (hd_strs H) (id_in (=) (se_strs F) (arg_name (hp_arg h a))) = Inr (arg_name (hp_arg h a))"
    using Cons.prems(2) decodes_lookup(1) [OF H] by (simp add: arg_writes_def)
  ultimately show ?case
    using Cons.prems(1) by (simp add: get_between new_arg_def Let_def)
qed simp

lemma read_vars_all:
  assumes H: "decodes H F"
  shows "ds_rd d = between pre (enc_puts F p (concat (map (var_writes h) vs)) @ suf) \<Longrightarrow>
    \<forall>w \<in> set (concat (map (var_writes h) vs)). known F p w \<Longrightarrow>
    redeclare_vars h vs (ds_heap d, ds_prog d) = (h', q) \<Longrightarrow>
    read_vars (length vs) H d = Inr (d\<lparr>ds_rd := between (pre @ enc_puts F p (concat (map (var_writes h) vs))) suf,
      ds_heap := h', ds_prog := q\<rparr>)"
proof (induction vs arbitrary: d pre)
  case (Cons v vs)
  let ?h1 = "snd (new_var (ds_heap d) (hp_var h v))" and ?q1 = "addVar (ds_prog d) (fst (new_var (ds_heap d) (hp_var h v)))"
  let ?d = "d\<lparr>ds_rd := between (pre @ enc_puts F p (var_writes h v)) (enc_puts F p (concat (map (var_writes h) vs)) @ suf),
    ds_heap := ?h1, ds_prog := ?q1\<rparr>"
  have "read_vars (length vs) H ?d = Inr (?d\<lparr>ds_rd := between ((pre @ enc_puts F p (var_writes h v))
      @ enc_puts F p (concat (map (var_writes h) vs))) suf, ds_heap := h', ds_prog := q\<rparr>)"
    by (rule Cons.IH) (use Cons.prems in \<open>auto simp: new_var_def\<close>)
  moreover have "getById (hd_etys H) (id_in ExprType_isEqual (se_etys F) (var_type (hp_var h v))) = Inr (var_type (hp_var h v))"
    using Cons.prems(2) decodes_lookup(2) [OF H] by (simp add: var_writes_def)
  moreover have "getById (hd_strs H) (id_in (=) (se_strs F) (var_name (hp_var h v))) = Inr (var_name (hp_var h v))"
    using Cons.prems(2) decodes_lookup(1) [OF H] by (simp add: var_writes_def)
  ultimately show ?case
    using Cons.prems(1) by (simp add: get_between new_var_def Let_def)
qed simp

lemma redeclare_args_result:
  "redeclare_args h as (h0, q0) = (h', q) \<Longrightarrow>
     q = q0\<lparr>pr_args := pr_args q0 @ [hp_next h0..<hp_next h0 + length as]\<rparr>
     \<and> hp_next h' = hp_next h0 + length as \<and> hp_var h' = hp_var h0 \<and> hp_loop h' = hp_loop h0
     \<and> (\<forall>b < hp_next h0. hp_arg h' b = hp_arg h0 b)
     \<and> (\<forall>i < length as. hp_arg h' (hp_next h0 + i) = hp_arg h (as ! i))"
proof (induction as arbitrary: h0 q0)
  case (Cons a as)
  let ?h1 = "snd (new_arg h0 (hp_arg h a))" and ?q1 = "addArg q0 (hp_next h0)"
  have "redeclare_args h as (?h1, ?q1) = (h', q)" using Cons.prems by (simp add: new_arg_def Let_def)
  note ih = Cons.IH [OF this]
  have "hp_arg h' (hp_next h0 + i) = hp_arg h ((a # as) ! i)" if "i < length (a # as)" for i
    using ih that by (cases i) (simp_all add: new_arg_def)
  moreover have "\<forall>b < hp_next h0. hp_arg h' b = hp_arg h0 b" using ih by (simp add: new_arg_def)
  moreover have "[hp_next h0..<hp_next h0 + length (a # as)] = hp_next h0 # [Suc (hp_next h0)..<Suc (hp_next h0) + length as]"
    by (subst upt_conv_Cons) simp_all
  ultimately show ?case using ih by (simp add: new_arg_def addArg_def del: upt_Suc)
qed simp

lemma redeclare_vars_result:
  "redeclare_vars h vs (h0, q0) = (h', q) \<Longrightarrow>
     q = q0\<lparr>pr_vars := pr_vars q0 @ [hp_next h0..<hp_next h0 + length vs]\<rparr>
     \<and> hp_next h' = hp_next h0 + length vs \<and> hp_arg h' = hp_arg h0 \<and> hp_loop h' = hp_loop h0
     \<and> (\<forall>b < hp_next h0. hp_var h' b = hp_var h0 b)
     \<and> (\<forall>i < length vs. hp_var h' (hp_next h0 + i) = hp_var h (vs ! i))"
proof (induction vs arbitrary: h0 q0)
  case (Cons v vs)
  let ?h1 = "snd (new_var h0 (hp_var h v))" and ?q1 = "addVar q0 (hp_next h0)"
  have "redeclare_vars h vs (?h1, ?q1) = (h', q)" using Cons.prems by (simp add: new_var_def Let_def)
  note ih = Cons.IH [OF this]
  have "hp_var h' (hp_next h0 + i) = hp_var h ((v # vs) ! i)" if "i < length (v # vs)" for i
    using ih that by (cases i) (simp_all add: new_var_def)
  moreover have "\<forall>b < hp_next h0. hp_var h' b = hp_var h0 b" using ih by (simp add: new_var_def)
  moreover have "[hp_next h0..<hp_next h0 + length (v # vs)] = hp_next h0 # [Suc (hp_next h0)..<Suc (hp_next h0) + length vs]"
    by (subst upt_conv_Cons) simp_all
  ultimately show ?case using ih by (simp add: new_var_def addVar_def del: upt_Suc)
qed simp

section \<open>Labels\<close>

lemma label_exprs_fst:
  "map fst (label_expr n e) = [n..<n + ecount e]"
  "map fst (label_exprs n es) = [n..<n + sum_list (map ecount es)]"
proof (induction n e and n es rule: label_expr_label_exprs.induct)
  case (1 n e)
  then show ?case by (simp add: label_expr.simps ecount_subexprs [of e])
next
  case (3 n e es)
  then show ?case by (simp add: upt_add_eq_append [of n "n + ecount e" "sum_list (map ecount es)"] flip: add.assoc)
qed simp

lemma label_exprs_portable:
  "portable_expr h p e \<Longrightarrow> x \<in> set (label_expr n e) \<Longrightarrow> portable_expr h p (snd (snd x))"
  "list_all (portable_expr h p) es \<Longrightarrow> x \<in> set (label_exprs n es) \<Longrightarrow> portable_expr h p (snd (snd x))"
proof (induction n e and n es rule: label_expr_label_exprs.induct)
  case (1 n e)
  then show ?case using portable_subexprs [of h p e] by (auto simp: label_expr.simps)
qed auto

lemma label_stmt_portable:
  "portable_stmt h p s \<Longrightarrow> x \<in> set (label_stmt par m n s) \<Longrightarrow> portable_stmt h p (snd (snd (snd x)))"
  "list_all (portable_stmt h p) ss \<Longrightarrow> x \<in> set (label_body par m n ss) \<Longrightarrow> portable_stmt h p (snd (snd (snd x)))"
  by (induction par m n s and par m n ss rule: label_stmt_label_body.induct) auto

lemma expr_writes_writable:
  assumes "portable_expr h p e" shows "list_all (writable p) (expr_writes (me, kids, e))"
  using assms by (cases e) (auto simp: writable_def list_all_iff)

lemma stmt_writes_writable:
  assumes "portable_stmt h p s" shows "list_all (writable p) (stmt_writes h (me, par, kids, s))"
  using assms by (cases s) (auto simp: writable_def list_all_iff)

lemma expr_writes_me: "WExpr (fst x) \<in> set (expr_writes x)"
  by (cases x rule: expr_writes.cases) simp_all

lemma stmt_writes_me: "WStmt (fst x) \<in> set (stmt_writes h x)"
proof -
  obtain me par kids s where "x = (me, par, kids, s)" by (cases x)
  then show ?thesis by (cases s) simp_all
qed

lemma program_writable:
  assumes "list_all (portable_stmt h p) (pr_body p)"
  shows "list_all (writable p) (program_writes h p)"
proof -
  have d: "list_all (writable p) (decl_writes h p)" by (auto simp: decl_writes_def list_all_iff writable_def)
  have "list_all (portable_expr h p) (concat (map all_exprs (pr_body p)))"
    using assms portable_all_exprs by (auto simp: list_all_iff)
  then have "portable_expr h p e" if "(k, ks, e) \<in> set (program_exprs p)" for k ks e
    using label_exprs_portable(2) that by (fastforce simp: program_exprs_def)
  then have e: "list_all (writable p) (concat (map expr_writes (program_exprs p)))"
    using expr_writes_writable by (fastforce simp: list_all_iff)
  have "portable_stmt h p s" if "(k, par, ks, s) \<in> set (program_stmts p)" for k par ks s
    using label_stmt_portable(2) [OF assms] that by (fastforce simp: program_stmts_def)
  then have s: "list_all (writable p) (concat (map (stmt_writes h) (program_stmts p)))"
    using stmt_writes_writable by (fastforce simp: list_all_iff)
  show ?thesis using d e s by (simp add: program_writes_def writable_def)
qed

section \<open>The finished tree\<close>

lemma graft_list_top:
  "i \<notin> (\<Union>k \<in> set (ks @ xs). node_ids k) \<Longrightarrow> graft_list i xs (DNode i sh ks) = DNode i sh (ks @ xs)"
proof (induction xs arbitrary: ks)
  case (Cons x xs)
  have "map (graft i x) ks = ks" using Cons.prems by (intro map_idI graft_absent) auto
  then show ?case using Cons.IH [of "ks @ [x]"] Cons.prems by simp
qed simp

lemma ren_ren: "ren_expr f id id (ren_expr g fa fv e) = ren_expr (f \<circ> g) fa fv e"
  by (induction e) simp_all

lemma build_nodes:
  assumes "\<And>L. f (unat (sid F (KLoop L))) = g L"
  shows "build f (node_of F p d g m s) = [ren_stmt g (new_args p d) (new_vars p d) (lose_ends s)]"
    "concat (map (build f) (nodes_of F p d g m ss)) = map (\<lambda>s. ren_stmt g (new_args p d) (new_vars p d) (lose_ends s)) ss"
proof -
  have f: "f \<circ> (\<lambda>L. unat (sid F (KLoop L))) = g" using assms by (simp add: fun_eq_iff)
  have raw: "ren_expr f id id (raw F p d e) = ren_expr g (new_args p d) (new_vars p d) e" for e
    by (simp add: raw_def ren_ren f)
  show "build f (node_of F p d g m s) = [ren_stmt g (new_args p d) (new_vars p d) (lose_ends s)]"
    "concat (map (build f) (nodes_of F p d g m ss)) = map (\<lambda>s. ren_stmt g (new_args p d) (new_vars p d) (lose_ends s)) ss"
    by (induction m s and m ss rule: stmt_keys_body_keys.induct) (use raw in \<open>simp_all add: comp_def\<close>)
qed

section \<open>What was written\<close>

text \<open>An entry that fits the format: short strings, narrow vectors, few dimensions.\<close>

fun put_fits :: "put \<Rightarrow> bool" where
  "put_fits (WStr x) \<longleftrightarrow> length x < 256"
| "put_fits (WEty t) \<longleftrightarrow> ety_ok t"
| "put_fits (WTty t) \<longleftrightarrow>
     length (ty_names t) = length (ty_sizes t) \<and> length (ty_sizes t) < 256 \<and> list_all (\<lambda>x. length x < 256) (ty_names t)"
| "put_fits w \<longleftrightarrow> True"

text \<open>The names of the dimensions of the arguments, which get into the table of strings last.\<close>

definition dim_names :: "heap \<Rightarrow> program \<Rightarrow> string list" where
  "dim_names h p = concat (map (\<lambda>a. ty_names (arg_type (hp_arg h a))) (pr_args p))"

text \<open>
  A program that the format can hold. The types of two arguments that are equal for
  \<open>Type::isEqual\<close> share an entry of the table, so they must agree in the names of the dimensions.
\<close>

definition portable :: "heap \<Rightarrow> program \<Rightarrow> bool" where
  "portable h p \<longleftrightarrow>
     list_all (portable_stmt h p) (pr_body p) \<and> list_all put_fits (program_writes h p)
     \<and> length (program_writes h p) + length (dim_names h p) < 2 ^ 32
     \<and> distinct (pr_args p) \<and> distinct (pr_vars p) \<and> distinct (body_loops (pr_body p))
     \<and> list_all (\<lambda>e. loops_of_expr e \<subseteq> set (body_loops (pr_body p))) (concat (map all_exprs (pr_body p)))
     \<and> list_all (\<lambda>a. list_all (\<lambda>b. Type_isEqual (arg_type (hp_arg h a)) (arg_type (hp_arg h b))
         \<longrightarrow> arg_type (hp_arg h a) = arg_type (hp_arg h b)) (pr_args p)) (pr_args p)"

lemma writes_of_type:
  "WTty t \<in> set (program_writes h p) \<Longrightarrow> t \<in> arg_type ` hp_arg h ` set (pr_args p)"
proof -
  assume t: "WTty t \<in> set (program_writes h p)"
  have "WTty t \<notin> set (expr_writes x)" for x by (cases x rule: expr_writes.cases) auto
  moreover have "WTty t \<notin> set (stmt_writes h x)" for x
  proof -
    obtain me par kids s where "x = (me, par, kids, s)" by (cases x)
    then show ?thesis by (cases s) auto
  qed
  ultimately show ?thesis using t by (auto simp: program_writes_def decl_writes_def)
qed

lemma getIdForAll_open:
  "\<not> it_locked t \<Longrightarrow> length (it_table t) \<le> n \<Longrightarrow>
     \<exists>t'. getIdForAll (=) t xs = Inr t' \<and> length (it_table t') \<le> n + length xs"
proof (induction xs arbitrary: t n)
  case (Cons x xs)
  then obtain i t1 where "getIdFor (=) t x = Inr (i, t1)" "\<not> it_locked t1" "length (it_table t1) \<le> Suc n"
    using nodes.getIdFor_open [of t n x] by blast
  with Cons.IH [of t1 "Suc n"] show ?case by auto
qed simp

lemma sum_sub:
  fixes f :: "'a \<Rightarrow> nat"
  assumes "distinct xs" "set xs \<subseteq> set ys"
  shows "sum_list (map f xs) \<le> sum_list (map f ys)"
proof -
  have "sum_list (map f xs) = sum f (set xs)" using assms(1) by (rule sum_list_distinct_conv_sum_set)
  also have "\<dots> \<le> sum f (set ys)" using assms(2) by (intro sum_mono2) auto
  also have "\<dots> \<le> sum_list (map f ys)"
  proof (induction ys)
    case (Cons y ys)
    then show ?case by (cases "y \<in> set ys") (simp_all add: insert_absorb)
  qed simp
  finally show ?thesis .
qed

lemma distinct_by_refl: "distinct_by eq xs \<Longrightarrow> (\<And>x. eq x x) \<Longrightarrow> distinct xs"
  by (induction xs) (auto simp: list_all_iff)

text \<open>The stream and the tables after the serializer is done; \<open>F\<close> are the final tables.\<close>

definition written :: "heap \<Rightarrow> program \<Rightarrow> ser \<Rightarrow> stream \<Rightarrow> bool" where
  "written h p F media \<longleftrightarrow>
     (\<exists>header H. media = header @ enc_puts F p (program_writes h p)
        \<and> (\<forall>suf. deserialize_header (between [] (header @ suf)) = Inr (H, between header suf))
        \<and> decodes H F \<and> (\<forall>t \<in> set (it_table (hd_ttys H)). WTty t \<in> set (program_writes h p)))
     \<and> (\<forall>w \<in> set (program_writes h p). known F p w) \<and> sid F KProg = 0"

lemma serialize_writes:
  assumes P: "portable h p"
  shows "\<exists>F media. serialize h p = Inr media \<and> written h p F media"
proof -
  let ?ws = "program_writes h p"
  have N: "length ?ws + length (dim_names h p) < 2 ^ 32" using P by (simp add: portable_def)
  obtain s where s: "do_writes p ?ws ser_init = Inr s" "open_tables (length ?ws) s"
    using do_writes_some [OF open_init program_writable, of h p] P by (auto simp: portable_def)
  let ?etys = "it_table (se_etys s)" and ?ttys = "it_table (se_ttys s)"
  let ?dims = "concat (map ty_names ?ttys)"
  have from_ws: "from_writes ?ws s" using do_writes_from [OF s(1) from_init] by simp
  have fits: "put_fits w" if "w \<in> set ?ws" for w using P that by (simp add: portable_def list_all_iff)
  have sub: "set ?ttys \<subseteq> set (map (\<lambda>a. arg_type (hp_arg h a)) (pr_args p))"
    using from_ws writes_of_type by (fastforce simp: from_writes_def)
  have wf: "distinct_by Type_isEqual ?ttys" "distinct_by ExprType_isEqual ?etys" "distinct (it_table (se_strs s))"
    using s(2) by (simp_all add: open_tables_def ttypes.wf_table_def etypes.wf_table_def names.wf_table_def)
  have len: "length ?dims \<le> length (dim_names h p)"
    using sum_sub [OF distinct_by_refl [OF wf(1)] sub, of "length \<circ> ty_names"]
    by (simp add: ttypes.eq_refl dim_names_def length_concat comp_def)
  obtain t where t: "getIdForAll (=) (se_strs s) ?dims = Inr t" "length (it_table t) \<le> length ?ws + length ?dims"
    using getIdForAll_open [of "se_strs s" "length ?ws" ?dims] s(2) by (auto simp: open_tables_def)
  define F where "F = s\<lparr>se_strs := t\<rparr>"
  have g: "ser_grows s F" using nodes.getIdForAll_grows [OF t(1)] by (simp add: F_def ser_grows_def)
  have out: "se_out s = enc_puts F p ?ws" "\<forall>w \<in> set ?ws. known F p w"
    using do_writes_stream [OF s(1)] g by (simp_all add: ser_init_def)
  let ?H = "header_of t ?etys ?ttys"
  have "length x < 256" if "x \<in> set (it_table t)" for x
  proof -
    have "x \<in> set ?dims \<or> x \<in> set (it_table (se_strs s))" using getIdForAll_set [OF t(1)] that by auto
    then show ?thesis
    proof
      assume "x \<in> set ?dims"
      then obtain ty where "ty \<in> set ?ttys" "x \<in> set (ty_names ty)" by auto
      then show ?thesis using from_ws fits [of "WTty ty"] by (auto simp: from_writes_def list_all_iff)
    next
      assume "x \<in> set (it_table (se_strs s))"
      then show ?thesis using from_ws fits [of "WStr x"] by (auto simp: from_writes_def)
    qed
  qed
  then have strs: "list_all (\<lambda>s. length s < 256) (it_table t)" by (simp add: list_all_iff)
  have etys: "list_all ety_ok ?etys"
    using from_ws fits [of "WEty x" for x] by (auto simp: from_writes_def list_all_iff)
  have ttys: "list_all (tty_ok t) ?ttys"
  proof (unfold list_all_iff, intro ballI)
    fix ty assume ty: "ty \<in> set ?ttys"
    then have "WTty ty \<in> set ?ws" using from_ws by (simp add: from_writes_def)
    then have "put_fits (WTty ty)" by (rule fits)
    moreover have "known_in (=) t x" if "x \<in> set (ty_names ty)" for x
      using nodes.getIdForAll_mem [OF t(1), of x] ty that by (auto simp: known_in_mem)
    ultimately show "tty_ok t ty" by (simp add: tty_ok_def list_all_iff)
  qed
  have lens: "length (it_table t) < 2 ^ 32" "length ?etys < 2 ^ 32" "length ?ttys < 2 ^ 32"
    "length (it_table (se_exprs s)) \<le> 2 ^ 32" "length (it_table (se_stmts s)) \<le> 2 ^ 32"
    using t(2) len N s(2) by (simp_all add: open_tables_def)
  have wft: "distinct (it_table t)"
    using nodes.getIdForAll_wf [OF t(1)] wf(3) by (simp add: nodes.wf_table_def)
  have head: "deserialize_header (between [] (enc_header t ?etys ?ttys @ suf)) = Inr (?H, between (enc_header t ?etys ?ttys) suf)" for suf
    using header_roundtrip [OF ahead_between lens(1,2,3) wft wf(2,1) strs etys ttys, of "[]" suf]
      skip_between [of "enc_header t ?etys ?ttys" "[]" suf] by simp
  have dec: "decodes ?H F" using lens by (simp add: decodes_def header_of_def F_def)
  have "serialize h p = Inr (enc_header t ?etys ?ttys @ enc_puts F p ?ws)"
    by (simp add: serialize_def s(1) serialize_header_enc [OF t(1) strs] out(1))
  moreover have "written h p F (enc_header t ?etys ?ttys @ enc_puts F p ?ws)"
    unfolding written_def
  proof (intro conjI exI allI)
    show "decodes ?H F" by (rule dec)
    show "\<forall>t \<in> set (it_table (hd_ttys ?H)). WTty t \<in> set ?ws"
      using from_ws by (simp add: header_of_def from_writes_def)
    show "sid F KProg = 0" by (rule program_first [OF s(1) g])
  qed (use head out in simp_all)
  ultimately show ?thesis by blast
qed

section \<open>What was read\<close>

lemma indexIn_nth: "distinct xs \<Longrightarrow> i < length xs \<Longrightarrow> indexIn k xs (xs ! i) = Some (k + i)"
proof (induction xs arbitrary: k i)
  case (Cons x xs)
  then show ?case by (cases i) auto
qed simp

lemma map_at_pos: "distinct xs \<Longrightarrow> length ys = length xs \<Longrightarrow> map (at_pos xs ys) xs = ys"
  by (rule nth_equalityI) (simp_all add: at_pos_def indexIn_nth)

text \<open>The declarations: \<open>q\<close> and \<open>h3\<close> are the program and the heap after them.\<close>

lemma redeclared:
  assumes a: "redeclare_args h (pr_args p) (h2, q0) = (h1, q1)" and v: "redeclare_vars h (pr_vars p) (h1, q1) = (h3, q)"
    and q0: "q0 = \<lparr>pr_name = pr_name p, pr_args = [], pr_vars = [], pr_body = []\<rparr>"
    and P: "length (pr_args p) < 2 ^ 32" "length (pr_vars p) < 2 ^ 32"
    and d: "ds_prog d = q" "ds_heap d = h3"
  shows "declared h p d" "hp_next h2 \<le> hp_next h3"
    "pr_name q = pr_name p" "distinct (pr_args q)" "distinct (pr_vars q)"
    "length (pr_args q) = length (pr_args p)" "length (pr_vars q) = length (pr_vars p)"
proof -
  note A = redeclare_args_result [OF a] and V = redeclare_vars_result [OF v]
  show "declared h p d" using A V P d q0 by (auto simp: declared_def)
  show "hp_next h2 \<le> hp_next h3" "pr_name q = pr_name p" "distinct (pr_args q)" "distinct (pr_vars q)"
    "length (pr_args q) = length (pr_args p)" "length (pr_vars q) = length (pr_vars p)"
    using A V q0 by auto
qed

lemma rd_only [simp]: "declared h p (d\<lparr>ds_rd := rd\<rparr>) = declared h p d" "raw F p (d\<lparr>ds_rd := rd\<rparr>) = raw F p d"
  by (simp_all add: declared_def raw_def new_args_def new_vars_def)

text \<open>The labels are told apart by their identifiers.\<close>

lemma program_exprs_labels:
  "map fst (program_exprs p) = [0..<length (program_exprs p)]"
  "length (program_exprs p) = sum_list (map ecount (concat (map all_exprs (pr_body p))))"
proof -
  let ?es = "concat (map all_exprs (pr_body p))"
  have l: "map fst (program_exprs p) = [0..<sum_list (map ecount ?es)]"
    using label_exprs_fst(2) [of 0 ?es] by (simp add: program_exprs_def)
  then show n: "length (program_exprs p) = sum_list (map ecount ?es)" by (metis length_map length_upt minus_nat.diff_0)
  show "map fst (program_exprs p) = [0..<length (program_exprs p)]" using l n by simp
qed

lemma program_exprs_inj:
  assumes H: "decodes H F" and kn: "\<forall>w \<in> set (program_writes h p). known F p w"
  shows "inj_on (eid F) {..<length (program_exprs p)}"
proof -
  have "known_in (=) (se_exprs F) k" if "k < length (program_exprs p)" for k
  proof -
    have "k \<in> set (map fst (program_exprs p))" using that unfolding program_exprs_labels(1) by simp
    then obtain x where "x \<in> set (program_exprs p)" "k = fst x" by auto
    then have "WExpr k \<in> set (program_writes h p)" using expr_writes_me [of x] by (auto simp: program_writes_def)
    with kn show ?thesis by fastforce
  qed
  then show ?thesis using eid_inject [OF H] by (auto simp: inj_on_def)
qed

lemma program_keys_inj:
  assumes H: "decodes H F" and kn: "\<forall>w \<in> set (program_writes h p). known F p w"
  shows "inj_on (sid F) (insert KProg (set (body_keys 1 (pr_body p))))"
proof -
  have "known_in (=) (se_stmts F) k" if k: "k \<in> insert KProg (set (body_keys 1 (pr_body p)))" for k
  proof (cases "k = KProg")
    case False
    with k have "k \<in> set (map fst (program_stmts p))" by (simp add: program_stmts_def label_keys(2))
    then obtain x where "x \<in> set (program_stmts p)" "k = fst x" by auto
    then have "WStmt k \<in> set (program_writes h p)" using stmt_writes_me [of x h] by (auto simp: program_writes_def)
    with kn show ?thesis by fastforce
  qed (use kn in \<open>simp add: program_writes_def\<close>)
  then show ?thesis using sid_inject [OF H] by (auto simp: inj_on_def)
qed

text \<open>After the expressions the statements can be read.\<close>

lemma ready_for_stmts:
  assumes P: "portable h p" and H: "decodes H F" and kn: "\<forall>w \<in> set (program_writes h p). known F p w" and first: "sid F KProg = 0"
    and D: "declared h p d" and d: "ds_used d = {}" "ds_stmts d = [0 \<mapsto> RProg]" "ds_tree d = DNode 0 DProg []"
    and r: "exprs_read F p 0 (length (program_exprs p)) (roots 0 (concat (map all_exprs (pr_body p)))) (concat (map all_exprs (pr_body p))) d d1"
  shows "ready F p h KProg (body_keys 1 (pr_body p)) (roots 0 (concat (map all_exprs (pr_body p))))
    (concat (map all_exprs (pr_body p))) (d1\<lparr>ds_rd := rd\<rparr>)"
proof -
  let ?es = "concat (map all_exprs (pr_body p))" and ?N = "length (program_exprs p)" and ?d = "d1\<lparr>ds_rd := rd\<rparr>"
  let ?rs = "roots 0 ?es" and ?ks = "body_keys 1 (pr_body p)"
  note inj = program_exprs_inj [OF H kn] and sinj = program_keys_inj [OF H kn]
  have same: "same_stmts d d1" using r by (simp add: exprs_read_def)
  have keys: "distinct ?ks" using P keys_distinct(2) by (simp add: portable_def)
  have "KProg \<notin> set ?ks" using keys_range(2) [of KProg 1 "pr_body p"] by auto
  then have not0: "sid F k \<noteq> 0" if "k \<in> set ?ks" for k
    using inj_on_eq_iff [OF sinj, of k KProg] that first by auto
  have rs: "set ?rs \<subseteq> {..<?N}" using roots_range [of 0 ?es] program_exprs_labels(2) [of p] by auto
  show ?thesis
    unfolding ready_def
  proof (intro conjI)
    show "declared h p ?d" using D same_stmts_declared [OF same] by simp
    show "\<exists>r. ds_stmts ?d (sid F KProg) = Some r \<and> r \<noteq> RLeaf" "node_ids (ds_tree ?d) \<subseteq> dom (ds_stmts ?d)"
      using same d by (simp_all add: same_stmts_def first)
    show "\<forall>k \<in> set ?ks. ds_stmts ?d (sid F k) = None" using same d not0 by (simp add: same_stmts_def)
    show "distinct (map (sid F) ?ks)" using keys sinj by (simp add: distinct_map)
    show "list_all2 (\<lambda>k e. ds_exprs ?d (eid F k) = Some (raw F p ?d e)) ?rs ?es"
      using r same_stmts_raw [OF same] by (simp add: exprs_read_def)
    have "ds_used ?d = eid F ` ({0..<?N} - set ?rs)" using r d by (simp add: exprs_read_def)
    moreover have "{0..<?N} - set ?rs \<subseteq> {..<?N}" by auto
    ultimately show "\<forall>k \<in> set ?rs. eid F k \<notin> ds_used ?d"
      using inj_not_image [OF inj] rs by blast
    show "distinct (map (eid F) ?rs)" using roots_distinct inj_on_subset [OF inj rs] by (simp add: distinct_map)
  qed
qed

text \<open>After the declarations: the expressions, the statements, the indices.\<close>

lemma body_read:
  assumes P: "portable h p" and H: "decodes H F" and kn: "\<forall>w \<in> set (program_writes h p). known F p w" and first: "sid F KProg = 0"
    and D: "declared h p d" and d: "ds_exprs d = Map.empty" "ds_used d = {}" "ds_stmts d = [0 \<mapsto> RProg]"
      "ds_later d = []" "ds_tree d = DNode 0 DProg []"
    and rd: "ds_rd d = between pre (expr_bytes F p (program_exprs p) @ enc_u32 n @ stmt_bytes F p h (program_stmts p))"
  shows "\<exists>d1 d2. repeat_res (length (program_exprs p)) (deserialize_expr H) d = Inr d1
    \<and> get32 d1 = Inr (n, d1\<lparr>ds_rd := between (pre @ expr_bytes F p (program_exprs p) @ enc_u32 n) (stmt_bytes F p h (program_stmts p))\<rparr>)
    \<and> repeat_res (length (program_stmts p)) (deserialize_stmt H)
        (d1\<lparr>ds_rd := between (pre @ expr_bytes F p (program_exprs p) @ enc_u32 n) (stmt_bytes F p h (program_stmts p))\<rparr>) = Inr d2
    \<and> stmts_read F h KProg (body_keys 1 (pr_body p)) (roots 0 (concat (map all_exprs (pr_body p))))
        (\<lambda>g. nodes_of F p d g 1 (pr_body p)) d1 d2
    \<and> ds_prog d1 = ds_prog d \<and> ds_heap d1 = ds_heap d \<and> ds_tree d1 = ds_tree d
    \<and> set (ds_later d1) = (\<lambda>L. sid F (KLoop L)) ` (\<Union>e \<in> set (concat (map all_exprs (pr_body p))). loops_of_expr e)"
proof -
  let ?es = "concat (map all_exprs (pr_body p))" and ?N = "length (program_exprs p)" and ?rs = "roots 0 (concat (map all_exprs (pr_body p)))"
  have ke: "\<forall>w \<in> set (concat (map expr_writes (label_exprs 0 ?es))). known F p w"
    and ks: "all_known F p h (label_body KProg 1 0 (pr_body p))"
    using kn by (auto simp: program_writes_def program_exprs_def program_stmts_def all_known_def)
  have pe: "list_all (portable_expr h p) ?es"
    using P portable_all_exprs by (auto simp: portable_def list_all_iff)
  have "\<exists>d1. repeat_res (sum_list (map ecount ?es)) (deserialize_expr H) d = Inr d1
      \<and> exprs_read F p 0 (0 + sum_list (map ecount ?es)) (roots 0 ?es) ?es d d1
      \<and> ds_rd d1 = between (pre @ expr_bytes F p (label_exprs 0 ?es)) (enc_u32 n @ stmt_bytes F p h (program_stmts p))"
    by (rule read_exprs(2) [OF H program_exprs_inj [OF H kn]])
      (use rd D pe ke d program_exprs_labels(2) [of p] in \<open>simp_all add: program_exprs_def free_ids_def\<close>)
  then obtain d1 where d1: "repeat_res ?N (deserialize_expr H) d = Inr d1" "exprs_read F p 0 ?N ?rs ?es d d1"
      "ds_rd d1 = between (pre @ expr_bytes F p (program_exprs p)) (enc_u32 n @ stmt_bytes F p h (program_stmts p))"
    unfolding program_exprs_labels(2) by (auto simp: program_exprs_def)
  have same: "same_stmts d d1" using d1(2) by (simp add: exprs_read_def)
  let ?d = "d1\<lparr>ds_rd := between (pre @ expr_bytes F p (program_exprs p) @ enc_u32 n) (stmt_bytes F p h (program_stmts p))\<rparr>"
  have "\<exists>d2. repeat_res (sum_list (map s_stmts (pr_body p))) (deserialize_stmt H) ?d = Inr d2
      \<and> stmts_read F h KProg (body_keys 1 (pr_body p)) ?rs (\<lambda>g. nodes_of F p d g 1 (pr_body p)) ?d d2
      \<and> ds_rd d2 = between ((pre @ expr_bytes F p (program_exprs p) @ enc_u32 n) @ stmt_bytes F p h (label_body KProg 1 0 (pr_body p))) []"
    by (intro read_stmts(2) [OF H] ready_for_stmts [OF P H kn first D d(2,3,5) d1(2)])
      (use P ks same in \<open>simp_all add: portable_def program_stmts_def same_stmts_def\<close>)
  then obtain d2 where d2: "repeat_res (length (program_stmts p)) (deserialize_stmt H) ?d = Inr d2"
    "stmts_read F h KProg (body_keys 1 (pr_body p)) ?rs (\<lambda>g. nodes_of F p d g 1 (pr_body p)) ?d d2"
    using label_length(2) [of KProg 1 0 "pr_body p"] by (auto simp: program_stmts_def)
  have "stmts_read F h KProg (body_keys 1 (pr_body p)) ?rs (\<lambda>g. nodes_of F p d g 1 (pr_body p)) d1 d2"
    using d2(2) stmts_read_ids [OF d2(2)] unfolding stmts_read_def by simp
  moreover have "get32 d1 = Inr (n, ?d)" using get_between(2) [OF d1(3)] by simp
  moreover have "set (ds_later d1) = (\<lambda>L. sid F (KLoop L)) ` (\<Union>e \<in> set ?es. loops_of_expr e)"
    using d1(2) d(4) by (simp add: exprs_read_def)
  ultimately show ?thesis using d1(1) d2(1) same unfolding same_stmts_def by blast
qed

text \<open>The indices are resolved and the tree is the renamed body.\<close>

lemma loops_keys_iff: "KLoop L \<in> set (body_keys m ss) \<longleftrightarrow> L \<in> set (body_loops ss)"
  using keys_range(2) [of "KLoop L" m ss] loops_keys(2) [of L ss m] by (auto simp: loop_list_set)

lemma portable_loops:
  assumes "portable h p" "e \<in> set (concat (map all_exprs (pr_body p)))" "L \<in> loops_of_expr e"
  shows "KLoop L \<in> set (body_keys 1 (pr_body p))"
proof -
  have "list_all (\<lambda>e. loops_of_expr e \<subseteq> set (body_loops (pr_body p))) (concat (map all_exprs (pr_body p)))"
    using assms(1) unfolding portable_def by blast
  then show ?thesis using assms(2,3) unfolding loops_keys_iff list_all_iff by blast
qed

lemma finish_read:
  assumes P: "portable h p" and first: "sid F KProg = 0" and t: "ds_tree d1 = DNode 0 DProg []"
    and inj: "inj_on (sid F) (insert KProg (set (body_keys 1 (pr_body p))))"
    and later: "set (ds_later d1) = (\<lambda>L. sid F (KLoop L)) ` (\<Union>e \<in> set (concat (map all_exprs (pr_body p))). loops_of_expr e)"
    and s: "stmts_read F h KProg (body_keys 1 (pr_body p)) rs (\<lambda>g. nodes_of F p d g 1 (pr_body p)) d1 d2"
  shows "each_res (resolve d2) (ds_later d2) = Inr ()"
    "build (resolved d2) (ds_tree d2) =
       map (\<lambda>s. ren_stmt (new_loops F d2) (new_args p d) (new_vars p d) (lose_ends s)) (pr_body p)"
proof -
  let ?ks = "body_keys 1 (pr_body p)"
  have "resolve d2 i = Inr ()" if "i \<in> set (ds_later d2)" for i
  proof -
    have "i \<in> set (ds_later d1)" using that s by (simp add: stmts_read_def)
    then obtain e L where "e \<in> set (concat (map all_exprs (pr_body p)))" "L \<in> loops_of_expr e" "i = sid F (KLoop L)"
      unfolding later by blast
    moreover from this have "KLoop L \<in> set ?ks" using portable_loops [OF P] by blast
    ultimately show ?thesis using s by (auto simp: stmts_read_def resolve_def getStmt_def)
  qed
  then show "each_res (resolve d2) (ds_later d2) = Inr ()" by simp
  have "KProg \<notin> set ?ks" using keys_range(2) [of KProg 1 "pr_body p"] by auto
  then have "0 \<notin> sid F ` set ?ks" using inj first by (auto simp: inj_on_def)
  then have "graft_list 0 (nodes_of F p d (new_loops F d2) 1 (pr_body p)) (DNode 0 DProg [])
      = DNode 0 DProg (nodes_of F p d (new_loops F d2) 1 (pr_body p))"
    using nodes_ids(2) [of F p d "new_loops F d2" 1 "pr_body p"] by (subst graft_list_top) auto
  then have "ds_tree d2 = DNode 0 DProg (nodes_of F p d (new_loops F d2) 1 (pr_body p))"
    using s by (simp add: stmts_read_def t first)
  then show "build (resolved d2) (ds_tree d2) =
      map (\<lambda>s. ren_stmt (new_loops F d2) (new_args p d) (new_vars p d) (lose_ends s)) (pr_body p)"
    using build_nodes(2) [of "resolved d2" F "new_loops F d2"] by (simp add: new_loops_def)
qed

lemma at_pos_nth: "distinct xs \<Longrightarrow> i < length xs \<Longrightarrow> at_pos xs ys (xs ! i) = ys ! i"
  by (simp add: at_pos_def indexIn_nth)

lemma at_pos_inj:
  assumes "distinct xs" "distinct ys" "length ys = length xs"
  shows "inj_on (at_pos xs ys) (set xs)"
  using map_at_pos [OF assms(1,3)] assms(2) by (metis distinct_map)

text \<open>\<open>fl\<close>, \<open>fa\<close> and \<open>fv\<close> rename the program \<open>p\<close> to \<open>q\<close>, and the renamed nodes look the same.\<close>

definition renamed ::
  "(loop_ptr \<Rightarrow> loop_ptr) \<Rightarrow> (arg_ptr \<Rightarrow> arg_ptr) \<Rightarrow> (var_ptr \<Rightarrow> var_ptr) \<Rightarrow> heap \<Rightarrow> program \<Rightarrow> heap \<Rightarrow> program \<Rightarrow> bool" where
  "renamed fl fa fv h p h' q \<longleftrightarrow>
     q = \<lparr>pr_name = pr_name p, pr_args = map fa (pr_args p), pr_vars = map fv (pr_vars p),
          pr_body = map (ren_stmt fl fa fv) (pr_body p)\<rparr>
     \<and> inj_on fl (set (body_loops (pr_body p))) \<and> inj_on fa (set (pr_args p)) \<and> inj_on fv (set (pr_vars p))
     \<and> (\<forall>L \<in> set (body_loops (pr_body p)). hp_loop h' (fl L) = hp_loop h L)
     \<and> (\<forall>a \<in> set (pr_args p). hp_arg h' (fa a) = hp_arg h a)
     \<and> (\<forall>v \<in> set (pr_vars p). hp_var h' (fv v) = hp_var h v)"

lemma length_concat_ge: "(\<And>x. x \<in> set xs \<Longrightarrow> f x \<noteq> []) \<Longrightarrow> length xs \<le> length (concat (map f xs))"
proof (induction xs)
  case (Cons x xs)
  then have "length xs \<le> length (concat (map f xs))" "f x \<noteq> []" by simp_all
  then show ?case by (cases "f x") simp_all
qed simp

lemma portable_counts:
  assumes "portable h p"
  shows "length (pr_args p) < 2 ^ 32" "length (pr_vars p) < 2 ^ 32"
    "length (program_exprs p) < 2 ^ 32" "length (program_stmts p) < 2 ^ 32"
proof -
  have "length (program_exprs p) \<le> length (concat (map expr_writes (program_exprs p)))"
    using expr_writes_me by (intro length_concat_ge) (metis empty_iff list.set(1))
  moreover have "length (program_stmts p) \<le> length (concat (map (stmt_writes h) (program_stmts p)))"
    using stmt_writes_me by (intro length_concat_ge) (metis empty_iff list.set(1))
  moreover have "length (pr_args p) \<le> length (concat (map (\<lambda>a. [WStr (arg_name (hp_arg h a)), WTty (arg_type (hp_arg h a))]) (pr_args p)))"
    "length (pr_vars p) \<le> length (concat (map (\<lambda>v. [WStr (var_name (hp_var h v)), WEty (var_type (hp_var h v))]) (pr_vars p)))"
    by (intro length_concat_ge; simp)+
  moreover have "length (program_writes h p) < 2 ^ 32" using assms by (simp add: portable_def)
  ultimately show "length (pr_args p) < 2 ^ 32" "length (pr_vars p) < 2 ^ 32"
    "length (program_exprs p) < 2 ^ 32" "length (program_stmts p) < 2 ^ 32"
    by (simp_all only: program_writes_def decl_writes_def length_append)
qed

definition body_lost :: "program \<Rightarrow> program" where
  "body_lost p = p\<lparr>pr_body := map lose_ends (pr_body p)\<rparr>"

lemma body_loops_lost [simp]: "body_loops (map lose_ends ss) = body_loops ss"
proof -
  have "loop_list (lose_ends s) = loop_list s" for s
    by (induction s) (simp_all add: comp_def cong: map_cong)
  then show ?thesis by (simp add: comp_def)
qed

lemma types_decoded:
  assumes P: "portable h p" and H: "decodes H F" and tt: "\<forall>t \<in> set (it_table (hd_ttys H)). WTty t \<in> set (program_writes h p)"
    and k: "known_in Type_isEqual (se_ttys F) z" and z: "z \<in> arg_type ` hp_arg h ` set (pr_args p)"
  shows "getById (hd_ttys H) (id_in Type_isEqual (se_ttys F) z) = Inr z"
proof -
  obtain z' where z': "getById (hd_ttys H) (id_in Type_isEqual (se_ttys F) z) = Inr z'" "Type_isEqual z' z"
    using decodes_lookup(3) [OF H k] by blast
  then have "z' \<in> set (it_table (hd_ttys H))" by (auto simp: getById_def split: if_splits)
  then have "z' \<in> arg_type ` hp_arg h ` set (pr_args p)" using tt writes_of_type by blast
  then have "z' = z" using P z z'(2) unfolding portable_def list_all_iff by blast
  with z'(1) show ?thesis by simp
qed

text \<open>The state of the deserializer before the expressions.\<close>

definition des_init :: "reader \<Rightarrow> heap \<Rightarrow> program \<Rightarrow> des" where
  "des_init r h q =
     \<lparr>ds_rd = r, ds_heap = h, ds_prog = q, ds_exprs = Map.empty, ds_used = {}, ds_stmts = [0 \<mapsto> RProg],
      ds_later = [], ds_tree = DNode 0 DProg []\<rparr>"

lemma des_init_simps [simp]:
  "ds_rd (des_init r h q) = r" "ds_heap (des_init r h q) = h" "ds_prog (des_init r h q) = q"
  "ds_exprs (des_init r h q) = Map.empty" "ds_used (des_init r h q) = {}" "ds_stmts (des_init r h q) = [0 \<mapsto> RProg]"
  "ds_later (des_init r h q) = []" "ds_tree (des_init r h q) = DNode 0 DProg []"
  "(des_init r h q)\<lparr>ds_rd := r'\<rparr> = des_init r' h q"
  "(des_init r h q)\<lparr>ds_rd := r', ds_heap := h', ds_prog := q'\<rparr> = des_init r' h' q'"
  by (simp_all add: des_init_def)

lemma get32_init [simp]:
  "get32 (des_init (between pre (enc_u32 w @ suf)) h q) = Inr (w, des_init (between (pre @ enc_u32 w) suf) h q)"
  using get_between(2) [of "des_init (between pre (enc_u32 w @ suf)) h q" pre w suf] by simp

text \<open>Reading the declarations gives the redeclared program.\<close>

lemma deserialize_decls:
  assumes P: "portable h p" and W: "written h p F media"
    and a: "redeclare_args h (pr_args p) (h2, \<lparr>pr_name = pr_name p, pr_args = [], pr_vars = [], pr_body = []\<rparr>) = (h1, q1)"
    and v: "redeclare_vars h (pr_vars p) (h1, q1) = (h3, q)"
  shows "\<exists>H pre. decodes H F \<and>
    deserialize h2 media =
     (let d = des_init (between pre (expr_bytes F p (program_exprs p) @ enc_u32 (of_nat (length (program_stmts p)))
           @ stmt_bytes F p h (program_stmts p))) h3 q in
      bind_res (repeat_res (length (program_exprs p)) (deserialize_expr H) d) (\<lambda>d.
      bind_res (get32 d) (\<lambda>(n, d). bind_res (repeat_res (unat n) (deserialize_stmt H) d) (\<lambda>d.
      bind_res (each_res (resolve d) (ds_later d)) (\<lambda>_.
      Inr ((ds_prog d)\<lparr>pr_body := build (resolved d) (ds_tree d)\<rparr>, ds_heap d))))))"
proof -
  obtain header H where media: "media = header @ enc_puts F p (program_writes h p)"
    and head: "\<And>suf. deserialize_header (between [] (header @ suf)) = Inr (H, between header suf)"
    and H: "decodes H F" and tt: "\<forall>t \<in> set (it_table (hd_ttys H)). WTty t \<in> set (program_writes h p)"
    and kn: "\<forall>w \<in> set (program_writes h p). known F p w"
    using W by (auto simp: written_def)
  let ?nm = "id_in (=) (se_strs F) (pr_name p)"
  let ?A = "enc_puts F p (concat (map (arg_writes h) (pr_args p)))" and ?V = "enc_puts F p (concat (map (var_writes h) (pr_vars p)))"
  let ?na = "enc_u32 (of_nat (length (pr_args p)))" and ?nv = "enc_u32 (of_nat (length (pr_vars p)))"
  let ?ne = "enc_u32 (of_nat (length (program_exprs p)))"
  let ?B = "expr_bytes F p (program_exprs p) @ enc_u32 (of_nat (length (program_stmts p))) @ stmt_bytes F p h (program_stmts p)"
  note counts = portable_counts [OF P, THEN unat_of_nat_u32]
  have m: "media = header @ enc_u32 ?nm @ ?na @ ?A @ ?nv @ ?V @ ?ne @ ?B"
    by (simp add: media program_writes_def decl_writes_def arg_writes_def [abs_def] var_writes_def [abs_def])
  have ka: "\<forall>w \<in> set (concat (map (arg_writes h) (pr_args p))). known F p w"
    and kv: "\<forall>w \<in> set (concat (map (var_writes h) (pr_vars p))). known F p w" and kp: "known_in (=) (se_strs F) (pr_name p)"
    using kn by (auto simp: program_writes_def decl_writes_def arg_writes_def [abs_def] var_writes_def [abs_def])
  have nm: "getById (hd_strs H) ?nm = Inr (pr_name p)" using decodes_lookup(1) [OF H kp] .
  let ?q0 = "\<lparr>pr_name = pr_name p, pr_args = [], pr_vars = [], pr_body = []\<rparr>"
  let ?p2 = "header @ enc_u32 ?nm @ ?na" and ?p4 = "header @ enc_u32 ?nm @ ?na @ ?A @ ?nv"
  have A: "read_args (length (pr_args p)) H (des_init (between ?p2 (?A @ ?nv @ ?V @ ?ne @ ?B)) h2 ?q0)
      = Inr (des_init (between (?p2 @ ?A) (?nv @ ?V @ ?ne @ ?B)) h1 q1)"
    using read_args_all [where d = "des_init (between ?p2 (?A @ ?nv @ ?V @ ?ne @ ?B)) h2 ?q0", OF H types_decoded [OF P H tt] _ ka,
        of ?p2 "?nv @ ?V @ ?ne @ ?B" h1 q1] a by simp
  have V: "read_vars (length (pr_vars p)) H (des_init (between ?p4 (?V @ ?ne @ ?B)) h1 q1)
      = Inr (des_init (between (?p4 @ ?V) (?ne @ ?B)) h3 q)"
    using read_vars_all [where d = "des_init (between ?p4 (?V @ ?ne @ ?B)) h1 q1", OF H _ kv,
        of ?p4 "?ne @ ?B" h3 q] v by simp
  have start: "\<lparr>rd_stream = media, rd_pos = 0\<rparr> = between [] (header @ enc_u32 ?nm @ ?na @ ?A @ ?nv @ ?V @ ?ne @ ?B)"
    by (simp add: between_def m)
  show ?thesis
  proof (intro exI conjI)
    show "decodes H F" by (rule H)
    show "deserialize h2 media = (let d = des_init (between (header @ enc_u32 ?nm @ ?na @ ?A @ ?nv @ ?V @ ?ne) ?B) h3 q in
      bind_res (repeat_res (length (program_exprs p)) (deserialize_expr H) d) (\<lambda>d.
      bind_res (get32 d) (\<lambda>(n, d). bind_res (repeat_res (unat n) (deserialize_stmt H) d) (\<lambda>d.
      bind_res (each_res (resolve d) (ds_later d)) (\<lambda>_.
      Inr ((ds_prog d)\<lparr>pr_body := build (resolved d) (ds_tree d)\<rparr>, ds_heap d))))))"
      unfolding deserialize_def start des_init_def [symmetric]
      using A V by (simp add: head nm counts Let_def)
  qed
qed

lemma stmts_read_loops:
  "stmts_read F h par ks rs N d d' \<Longrightarrow> KLoop L \<in> set ks \<Longrightarrow>
     \<exists>l. ds_stmts d' (sid F (KLoop L)) = Some (RLoop l) \<and> hp_next (ds_heap d) \<le> l \<and> hp_loop (ds_heap d') l = hp_loop h L"
  by (auto simp: stmts_read_def)

lemma loops_lost [simp]: "loops_in (lose_ends s) = loops_in s"
  by (induction s) simp_all

lemma deserialize_written:
  assumes P: "portable h p" and W: "written h p F media"
  shows "\<exists>q h' fl fa fv. deserialize h2 media = Inr (q, h') \<and> renamed fl fa fv h (body_lost p) h' q
    \<and> (\<forall>L \<in> set (body_loops (pr_body p)). hp_next h2 \<le> fl L)"
proof -
  let ?q0 = "\<lparr>pr_name = pr_name p, pr_args = [], pr_vars = [], pr_body = []\<rparr>"
  let ?es = "concat (map all_exprs (pr_body p))"
  obtain h1 q1 where a: "redeclare_args h (pr_args p) (h2, ?q0) = (h1, q1)" by (metis surj_pair)
  obtain h3 q where v: "redeclare_vars h (pr_vars p) (h1, q1) = (h3, q)" by (metis surj_pair)
  obtain H pre where H: "decodes H F" and des: "deserialize h2 media =
     (let d = des_init (between pre (expr_bytes F p (program_exprs p) @ enc_u32 (of_nat (length (program_stmts p)))
           @ stmt_bytes F p h (program_stmts p))) h3 q in
      bind_res (repeat_res (length (program_exprs p)) (deserialize_expr H) d) (\<lambda>d.
      bind_res (get32 d) (\<lambda>(n, d). bind_res (repeat_res (unat n) (deserialize_stmt H) d) (\<lambda>d.
      bind_res (each_res (resolve d) (ds_later d)) (\<lambda>_.
      Inr ((ds_prog d)\<lparr>pr_body := build (resolved d) (ds_tree d)\<rparr>, ds_heap d))))))"
    using deserialize_decls [OF P W a v] by blast
  have kn: "\<forall>w \<in> set (program_writes h p). known F p w" and first: "sid F KProg = 0"
    using W by (simp_all add: written_def)
  note counts = portable_counts [OF P]
  let ?d = "des_init (between pre (expr_bytes F p (program_exprs p) @ enc_u32 (of_nat (length (program_stmts p)))
           @ stmt_bytes F p h (program_stmts p))) h3 q"
  note q = redeclared [OF a v refl counts(1,2), of ?d, simplified]
  obtain d1 d2 n' where r: "repeat_res (length (program_exprs p)) (deserialize_expr H) ?d = Inr d1"
    "get32 d1 = Inr (of_nat (length (program_stmts p)), n')" "repeat_res (length (program_stmts p)) (deserialize_stmt H) n' = Inr d2"
    and s: "stmts_read F h KProg (body_keys 1 (pr_body p)) (roots 0 ?es) (\<lambda>g. nodes_of F p ?d g 1 (pr_body p)) d1 d2"
    and same: "ds_prog d1 = q" "ds_heap d1 = h3" "ds_tree d1 = DNode 0 DProg []"
    and later: "set (ds_later d1) = (\<lambda>L. sid F (KLoop L)) ` (\<Union>e \<in> set ?es. loops_of_expr e)"
    using body_read [OF P H kn first q(1) _ _ _ _ _, of pre "of_nat (length (program_stmts p))"] by auto
  note fin = finish_read [OF P first same(3) program_keys_inj [OF H kn] later s]
  let ?fl = "new_loops F d2" and ?fa = "new_args p ?d" and ?fv = "new_vars p ?d"
  let ?q = "q\<lparr>pr_body := map (\<lambda>s. ren_stmt ?fl ?fa ?fv (lose_ends s)) (pr_body p)\<rparr>"
  have "ds_prog d2 = q" using s same by (simp add: stmts_read_def)
  then have "deserialize h2 media = Inr (?q, ds_heap d2)"
    by (simp add: des Let_def r unat_of_nat_u32 [OF counts(4)] fin)
  moreover have "renamed ?fl ?fa ?fv h (body_lost p) (ds_heap d2) ?q"
  proof -
    have d: "distinct (pr_args p)" "distinct (pr_vars p)" using P by (simp_all add: portable_def)
    have m: "map ?fa (pr_args p) = pr_args q" "map ?fv (pr_vars p) = pr_vars q"
      using d q by (simp_all add: new_args_def new_vars_def map_at_pos)
    have D: "declared h p (?d\<lparr>ds_heap := ds_heap d2\<rparr>)"
      using q(1) s same by (simp add: declared_def stmts_read_def)
    have "hp_arg (ds_heap d2) (?fa x) = hp_arg h x" if "x \<in> set (pr_args p)" for x
      using declared_arg(2) [OF D that] by (simp add: new_args_def)
    moreover have "hp_var (ds_heap d2) (?fv x) = hp_var h x" if "x \<in> set (pr_vars p)" for x
      using declared_var(2) [OF D that] by (simp add: new_vars_def)
    moreover have "inj_on ?fa (set (pr_args p))" "inj_on ?fv (set (pr_vars p))"
      using at_pos_inj [OF d(1), of "pr_args q"] at_pos_inj [OF d(2), of "pr_vars q"] q
      by (simp_all add: new_args_def new_vars_def)
    moreover have "inj_on ?fl (set (body_loops (pr_body p)))"
      using s by (simp add: stmts_read_def loops_keys_iff del: set_concat)
    moreover have "hp_loop (ds_heap d2) (?fl L) = hp_loop h L" if "L \<in> set (body_loops (pr_body p))" for L
      using stmts_read_loops [OF s, unfolded loops_keys_iff, OF that] new_loops_at [of d2 F L] by auto
    ultimately show ?thesis
      unfolding renamed_def using m q(3) by (simp add: body_lost_def comp_def)
  qed
  moreover have "hp_next h2 \<le> ?fl L" if L: "L \<in> set (body_loops (pr_body p))" for L
  proof -
    obtain l where "ds_stmts d2 (sid F (KLoop L)) = Some (RLoop l)" "hp_next (ds_heap d1) \<le> l"
      using stmts_read_loops [OF s, unfolded loops_keys_iff, OF L] by blast
    then show ?thesis using q(2) same new_loops_at [of d2 F L l] by simp
  qed
  ultimately show ?thesis by blast
qed

section \<open>The round trip\<close>

lemma bytecode_ends_lost:
  assumes "portable h p"
  shows "\<exists>media q h' fl fa fv. serialize h p = Inr media \<and> deserialize h2 media = Inr (q, h')
    \<and> renamed fl fa fv h (body_lost p) h' q \<and> (\<forall>L \<in> set (body_loops (pr_body p)). hp_next h2 \<le> fl L)"
  using serialize_writes [OF assms] deserialize_written [OF assms] by blast


text \<open>C12. A portable program survives the bytecode: serializing it succeeds, and deserializing the
  bytes (in any heap) gives the same program with fresh loops, arguments and variables that look
  like the old ones, except that the end of every range check has become its start.\<close>

theorem bytecode_roundtrip:
  assumes "portable h p"
  shows "\<exists>media q h' fl fa fv. serialize h p = Inr media \<and> deserialize h2 media = Inr (q, h')
    \<and> renamed fl fa fv h (body_lost p) h' q \<and> (\<forall>L \<in> set (body_loops (pr_body p)). hp_next h2 \<le> fl L)"
  using assms by (rule bytecode_ends_lost)

lemma demo_loop_portable: "portable (fst demo_loop) (snd demo_loop)"
  by code_simp

theorem bytecode_roundtrip_witness:
  "\<exists>media q h'. serialize (fst demo_loop) (snd demo_loop) = Inr media
    \<and> deserialize (fst demo_loop) media = Inr (q, h') \<and> length (pr_body q) = 1 \<and> pr_name q = ''f''"
  using bytecode_roundtrip [OF demo_loop_portable, of "fst demo_loop"]
  by (auto simp: renamed_def body_lost_def demo_loop_def)

section \<open>What is not portable\<close>

definition demo_ranged :: "heap \<times> program" where
  "demo_ranged =
     (fst demo_loop, (snd demo_loop)\<lparr>pr_body := [Loop 0 [IfRange (IndexExpr (scalarTy IndexTy) 0) 2 5 [CallStmt ''g'' []]]]\<rparr>)"

text \<open>A range check loses its end in the bytecode: from 2 to 5 it becomes from 2 to 2, and its body never runs.\<close>

theorem range_end_lost:
  "\<exists>media q h' L. serialize (fst demo_ranged) (snd demo_ranged) = Inr media
     \<and> deserialize (fst demo_ranged) media = Inr (q, h')
     \<and> pr_body q = [Loop L [IfRange (IndexExpr (scalarTy IndexTy) L) 2 2 [CallStmt ''g'' []]]]"
proof -
  have "portable (fst demo_ranged) (snd demo_ranged)" by code_simp
  from bytecode_ends_lost [OF this, of "fst demo_ranged"] show ?thesis
    by (fastforce simp: renamed_def body_lost_def demo_ranged_def demo_loop_def)
qed

text \<open>A negative constant would come back as a large positive one.\<close>

theorem negative_constant_changes: "i64_of_u32 (ucast (- 1 :: i64)) = 4294967295"
  by code_simp

lemma get_kid_exprs: "get_kid d = Inr (e, d') \<Longrightarrow> ds_exprs d' = ds_exprs d"
  by (auto simp: get_kid_def get32_def getExpr_def split: option.splits if_splits)

lemma deserialize_binary_fresh:
  assumes "deserialize_binary i d = Inr d'" shows "ds_exprs d i = None"
proof -
  obtain k d1 l d2 x d3 where "get8 d = Inr (k, d1)" and kids: "get_kid d1 = Inr (l, d2)" "get_kid d2 = Inr (x, d3)"
    and free: "ds_exprs d3 i = None"
    using assms by (auto simp: deserialize_binary_def registerExpr_def require_def split: if_splits)
  then have "ds_exprs d1 = ds_exprs d" by (auto simp: get8_def)
  with free kids [THEN get_kid_exprs] show ?thesis by simp
qed

text \<open>A string constant can be written but never read: its case of \<open>deserializeExpr\<close> falls through
  to the case of binary expressions, whose \<open>registerExpr\<close> finds the identifier in use, or the stream
  ends before that. Whatever follows the opcode, reading the expression fails.\<close>

theorem string_constant_unreadable:
  assumes "readU32 (ds_rd d) = Inr (2, r)"
  shows "\<exists>e. deserialize_expr H d = Inl e"
proof (rule ccontr)
  assume "\<nexists>e. deserialize_expr H d = Inl e"
  then obtain d' where "deserialize_expr H d = Inr d'" by (cases "deserialize_expr H d") auto
  moreover have "get32 d = Inr (2, d\<lparr>ds_rd := r\<rparr>)" using assms by (simp add: get32_def)
  then have "deserialize_expr H d =
      bind_res (get32 (d\<lparr>ds_rd := r\<rparr>)) (\<lambda>(i, d). bind_res (get32 d) (\<lambda>(s, d). bind_res (getById (hd_strs H) s)
        (\<lambda>val. bind_res (registerExpr i (ConstantStringExpr val) d) (deserialize_binary i))))"
    by (simp add: deserialize_expr_def require_def)
  ultimately obtain i d1 d2 val where "registerExpr i (ConstantStringExpr val) d1 = Inr d2" "deserialize_binary i d2 = Inr d'"
    by auto
  with deserialize_binary_fresh [of i d2 d'] show False
    by (auto simp: registerExpr_def require_def split: if_splits)
qed

theorem string_constant_unreadable_witness:
  "\<exists>e. deserialize_expr (header_of empty_table [] []) (des_init (between [] [0, 0, 0, 2]) (fst demo_loop) (snd demo_loop)) = Inl e"
proof (rule string_constant_unreadable)
  show "readU32 (ds_rd (des_init (between [] [0, 0, 0, 2]) (fst demo_loop) (snd demo_loop))) = Inr (2, between [0, 0, 0, 2] [])"
    by (simp add: between_def readU32_def readU8_def require_def)
qed

text \<open>The table of types does not see the names of dimensions: equal types share an identifier.\<close>

theorem dim_names_merged:
  assumes "do_write p (WTty T) s = Inr s1" "Type_isEqual T T'"
  shows "do_write p (WTty T') s1 = Inr (s1\<lparr>se_out := se_out s1 @ drop (length (se_out s)) (se_out s1)\<rparr>)"
proof -
  obtain i t where g: "getIdFor Type_isEqual (se_ttys s) T = Inr (i, t)"
    and s1: "s1 = s\<lparr>se_ttys := t, se_out := write_u32 (se_out s) i\<rparr>"
    using assms(1) by auto
  have eq: "Type_isEqual y T = Type_isEqual y T'" for y
    using assms(2) by (meson ttypes.eq_trans ttypes.eq_sym)
  have search_eq: "search Type_isEqual k xs T = search Type_isEqual k xs T'" for k xs
    by (induction xs arbitrary: k) (simp_all add: eq)
  have "t = t\<lparr>it_table := it_table t @ [T]\<rparr> \<Longrightarrow> False" by (metis append_self_conv id_table.select_convs(1) id_table.surjective id_table.update_convs(1) not_Cons_self2)
  with eq ttypes.getIdFor_again [OF g] have "getIdFor Type_isEqual t T' = Inr (i, t)"
    by (auto simp: getIdFor_def search_eq split: option.splits)
  then show ?thesis by (simp add: s1 write_u32_enc)
qed

end
