(* ===== verification/Lexer.thy ===== *)
theory Lexer
  imports Verify
begin

text \<open>
  \<open>Tokens.def\<close>, \<open>Token.h\<close> and \<open>lib/Parser/Lexer.cpp\<close>. The buffer is a C string. A pointer into it is
  the text from there on, and a \<open>DebugLoc\<close> is the length of that text, so that the end of the
  buffer is at 0; reading \<open>*curPtr_\<close> at the end gives the terminating zero. A token is the
  constructor of its macro in \<open>Tokens.def\<close> applied to the name given there.
\<close>

section \<open>Tokens\<close>

datatype TokenKind =
    unknown
  | KEYWORD string
  | BUILTIN_TYPE string
  | BUILTIN_FUNC string
  | PUNCTUATOR string
  | OTHER string

definition keyword_names :: "string list" where
  "keyword_names =
     [''script'', ''func'', ''for'', ''in'', ''if'', ''var'', ''let'', ''auto'', ''as'', ''to'', ''times'',
      ''vectorize'', ''unroll'', ''widen'', ''tile'', ''peel'', ''hoist'', ''sink'', ''fuse'', ''rename'', ''distribute'']"

definition type_names :: "string list" where
  "type_names = [''float'', ''int8'', ''index'']"

definition func_names :: "string list" where
  "func_names = [''min'', ''max'', ''pow'', ''log'', ''exp'', ''sqrt'', ''abs'']"

abbreviation tok_eof :: TokenKind where "tok_eof \<equiv> OTHER ''eof''"
abbreviation tok_identifier :: TokenKind where "tok_identifier \<equiv> OTHER ''identifier''"
abbreviation tok_integer :: TokenKind where "tok_integer \<equiv> OTHER ''integer_literal''"
abbreviation tok_float :: TokenKind where "tok_float \<equiv> OTHER ''float_literal''"
abbreviation tok_string :: TokenKind where "tok_string \<equiv> OTHER ''string_literal''"

text \<open>\<open>getName\<close> looks the kind up in a table of the same macros.\<close>

fun token_name :: "TokenKind \<Rightarrow> string" where
  "token_name unknown = ''unknown''"
| "token_name (KEYWORD x) = ''kw_'' @ x"
| "token_name (BUILTIN_TYPE x) = ''builtin_type_'' @ x"
| "token_name (BUILTIN_FUNC x) = ''builtin_func_'' @ x"
| "token_name (PUNCTUATOR x) = x"
| "token_name (OTHER x) = x"

record token =
  tk_kind :: TokenKind
  tk_text :: string
  tk_loc :: nat

section \<open>Characters\<close>

definition isdigit_c :: "char \<Rightarrow> bool" where
  "isdigit_c c \<longleftrightarrow> 48 \<le> (of_char c :: nat) \<and> (of_char c :: nat) \<le> 57"

definition isalpha_c :: "char \<Rightarrow> bool" where
  "isalpha_c c \<longleftrightarrow> isalnum_c c \<and> \<not> isdigit_c c"

definition word_char :: "char \<Rightarrow> bool" where
  "word_char c \<longleftrightarrow> isalnum_c c \<or> c = CHR ''_''"

definition is_blank :: "char \<Rightarrow> bool" where
  "is_blank c \<longleftrightarrow> c \<in> {CHR '' '', CHR 0x09, CHR 0x0A, CHR 0x0D, CHR '';''}"

section \<open>Lexing\<close>

text \<open>The text after a comment: the end of the line is eaten with it.\<close>

fun skipSlashSlashComment :: "string \<Rightarrow> string" where
  "skipSlashSlashComment [] = []"
| "skipSlashSlashComment (c # cs) = (if c = CHR 0x0A \<or> c = CHR 0x0D then cs else skipSlashSlashComment cs)"

lemma skip_comment_length [simp]: "length (skipSlashSlashComment cs) \<le> length cs"
  by (induction cs) auto

text \<open>The jumps to \<open>Restart\<close>: what precedes a token.\<close>

function skip_blanks :: "string \<Rightarrow> string" where
  "skip_blanks cs =
     (case cs of
        [] \<Rightarrow> []
      | c # cs' \<Rightarrow>
          if is_blank c then skip_blanks cs'
          else if c = CHR ''/'' \<and> cs' \<noteq> [] \<and> hd cs' = CHR ''/'' then skip_blanks (skipSlashSlashComment cs')
          else cs)"
  by pat_completeness auto
termination by (relation "measure length") (auto simp: le_imp_less_Suc)

declare skip_blanks.simps [simp del]

text \<open>\<open>formToken\<close>: the kind, the text and what follows it.\<close>

type_synonym lexeme = "TokenKind \<times> string \<times> string"

definition formToken :: "TokenKind \<Rightarrow> string \<Rightarrow> string \<Rightarrow> lexeme res" where
  "formToken kind tx rest = bind_res (require (tx \<noteq> []) ''Invalid text range'') (\<lambda>_. Inr (kind, tx, rest))"

definition word_kind :: "string \<Rightarrow> TokenKind" where
  "word_kind tx =
     (if tx \<in> set func_names then BUILTIN_FUNC tx
      else if tx \<in> set type_names then BUILTIN_TYPE tx
      else if tx \<in> set keyword_names then KEYWORD tx
      else tok_identifier)"

definition lexIdentifier :: "string \<Rightarrow> lexeme res" where
  "lexIdentifier cs =
     (let tx = takeWhile word_char cs in formToken (word_kind tx) tx (dropWhile word_char cs))"

text \<open>The digits of a number with at most one period among them, and whether there was one.\<close>

fun number_chars :: "bool \<Rightarrow> string \<Rightarrow> string \<times> bool" where
  "number_chars seenPoint [] = ([], seenPoint)"
| "number_chars seenPoint (c # cs) =
     (if isdigit_c c then (let (tx, p) = number_chars seenPoint cs in (c # tx, p))
      else if c = CHR ''.'' \<and> \<not> seenPoint then (let (tx, p) = number_chars True cs in (c # tx, p))
      else ([], seenPoint))"

text \<open>The first character has been read; a minus sign after it is eaten as well.\<close>

definition lexNumber :: "string \<Rightarrow> lexeme res" where
  "lexNumber cs =
     (let sgn = (if tl cs \<noteq> [] \<and> hd (tl cs) = CHR ''-'' then [CHR ''-''] else []);
          (digits, seenPoint) = number_chars False (drop (length sgn) (tl cs));
          tx = hd cs # sgn @ digits in
      formToken (if seenPoint then tok_float else tok_integer) tx (drop (length tx) cs))"

text \<open>The closing quote is skipped when there is one.\<close>

definition lexString :: "string \<Rightarrow> lexeme res" where
  "lexString cs =
     (let tx = takeWhile (\<lambda>c. c \<noteq> CHR 0x22) cs in
      formToken tok_string tx (drop (length tx + 1) cs))"

definition punct1 :: "(char \<times> string) list" where
  "punct1 =
     [(CHR ''#'', ''hash''), (CHR '','', ''comma''), (CHR '':'', ''colon''), (CHR ''.'', ''period''), (CHR ''='', ''assign''),
      (CHR ''<'', ''lt''), (CHR ''>'', ''gt''), (CHR ''!'', ''bang''), (CHR ''+'', ''plus''), (CHR ''-'', ''minus''), (CHR ''*'', ''mult''),
      (CHR ''/'', ''div''), (CHR ''{'', ''l_brace''), (CHR ''}'', ''r_brace''), (CHR ''('', ''l_paren''), (CHR '')'', ''r_paren''),
      (CHR ''['', ''l_square''), (CHR '']'', ''r_square'')]"

definition punct2 :: "(char \<times> char \<times> string) list" where
  "punct2 =
     [(CHR ''.'', CHR ''.'', ''range''), (CHR ''='', CHR ''='', ''equal''), (CHR ''<'', CHR ''='', ''lte''), (CHR ''>'', CHR ''='', ''gte''),
      (CHR ''!'', CHR ''='', ''not_equal''), (CHR ''+'', CHR ''='', ''plusEquals'')]"

text \<open>The \<open>switch\<close> of \<open>Lex\<close> on the first character of the token.\<close>

definition lex_token :: "string \<Rightarrow> lexeme res" where
  "lex_token cs =
     (case cs of
        [] \<Rightarrow> formToken tok_eof [CHR 0x00] []
      | c # cs' \<Rightarrow>
          if isalpha_c c \<or> c = CHR ''_'' then lexIdentifier cs
          else if isdigit_c c then lexNumber cs
          else if c = CHR 0x22 then lexString cs'
          else if c = CHR ''-'' \<and> cs' \<noteq> [] \<and> isdigit_c (hd cs') then lexNumber cs
          else
            (case find (\<lambda>(a, b, n). a = c \<and> cs' \<noteq> [] \<and> b = hd cs') punct2 of
               Some (a, b, n) \<Rightarrow> formToken (PUNCTUATOR n) [a, b] (tl cs')
             | None \<Rightarrow>
                 (case map_of punct1 c of
                    Some n \<Rightarrow> formToken (PUNCTUATOR n) [c] cs'
                  | None \<Rightarrow> formToken unknown [c] cs')))"

text \<open>The next token of a text and what follows it.\<close>

definition next_token :: "string \<Rightarrow> (token \<times> string) res" where
  "next_token cs =
     (let start = skip_blanks cs in
      bind_res (lex_token start) (\<lambda>(kind, tx, rest).
      Inr (\<lparr>tk_kind = kind, tk_text = tx, tk_loc =
         (if kind = tok_string then length start - 1 else length start)\<rparr>, rest)))"

section \<open>Progress\<close>

lemma skip_blanks_length: "length (skip_blanks cs) \<le> length cs"
proof (induction cs rule: skip_blanks.induct)
  case (1 cs)
  show ?case
  proof (cases cs)
    case Nil
    then show ?thesis by (simp add: skip_blanks.simps)
  next
    case (Cons c cs')
    consider "is_blank c" | "\<not> is_blank c" "c = CHR ''/'' \<and> cs' \<noteq> [] \<and> hd cs' = CHR ''/''"
      | "\<not> is_blank c" "\<not> (c = CHR ''/'' \<and> cs' \<noteq> [] \<and> hd cs' = CHR ''/'')" by blast
    then show ?thesis
    proof cases
      case 1
      then show ?thesis using "1.IH"(1) [OF Cons] Cons by (subst skip_blanks.simps) simp
    next
      case 2
      then have "length (skip_blanks (skipSlashSlashComment cs')) \<le> length (skipSlashSlashComment cs')"
        using "1.IH"(2) [OF Cons] by simp
      then have "length (skip_blanks (skipSlashSlashComment cs')) \<le> length cs'" using skip_comment_length le_trans by blast
      then show ?thesis using 2 Cons by (subst skip_blanks.simps) simp
    next
      case 3
      then show ?thesis using Cons by (subst skip_blanks.simps) auto
    qed
  qed
qed

lemma formToken_Inr [simp]: "formToken k tx rest = Inr (kind, t, r) \<longleftrightarrow> tx \<noteq> [] \<and> kind = k \<and> t = tx \<and> r = rest"
  by (auto simp: formToken_def)

lemma word_char_start: "isalpha_c c \<or> c = CHR ''_'' \<Longrightarrow> word_char c"
  by (auto simp: isalpha_c_def word_char_def)

lemma lexNumber_progress:
  "lexNumber cs = Inr (kind, tx, rest) \<Longrightarrow> cs \<noteq> [] \<Longrightarrow> (kind = tok_eof \<longleftrightarrow> cs = []) \<and> (cs \<noteq> [] \<longrightarrow> length rest < length cs)"
  by (cases cs) (auto simp: lexNumber_def Let_def split: prod.splits)

text \<open>A token is the end of the buffer exactly when nothing is left, and otherwise it eats text.\<close>

lemma lex_token_progress:
  assumes "lex_token cs = Inr (kind, tx, rest)"
  shows "kind = tok_eof \<longleftrightarrow> cs = []" "cs \<noteq> [] \<Longrightarrow> length rest < length cs"
proof -
  have w: "word_kind t \<noteq> tok_eof" for t by (simp add: word_kind_def)
  have "(kind = tok_eof \<longleftrightarrow> cs = []) \<and> (cs \<noteq> [] \<longrightarrow> length rest < length cs)"
  proof (cases cs)
    case Nil
    then show ?thesis using assms by (simp add: lex_token_def)
  next
    case (Cons c cs')
    let ?w = "isalpha_c c \<or> c = CHR ''_''"
    consider (word) ?w
      | (number) "\<not> ?w" "isdigit_c c"
      | (str) "\<not> ?w" "\<not> isdigit_c c" "c = CHR 0x22"
      | (minus) "\<not> ?w" "\<not> isdigit_c c" "c \<noteq> CHR 0x22" "c = CHR ''-'' \<and> cs' \<noteq> [] \<and> isdigit_c (hd cs')"
      | (punct) "\<not> ?w" "\<not> isdigit_c c" "c \<noteq> CHR 0x22" "\<not> (c = CHR ''-'' \<and> cs' \<noteq> [] \<and> isdigit_c (hd cs'))"
      by blast
    then show ?thesis
    proof cases
      case word
      then have wc: "word_char c" by (rule word_char_start)
      have "lexIdentifier cs = Inr (kind, tx, rest)" using assms word by (simp add: Cons lex_token_def)
      then have "kind = word_kind tx" "rest = dropWhile word_char cs'" using wc by (simp_all add: Cons lexIdentifier_def Let_def)
      then show ?thesis using w [of tx] length_dropWhile_le [of word_char cs'] by (simp add: Cons)
    next
      case number
      then have "lexNumber cs = Inr (kind, tx, rest)" using assms by (simp add: Cons lex_token_def)
      then show ?thesis by (rule lexNumber_progress) (simp add: Cons)
    next
      case str
      then have "lexString cs' = Inr (kind, tx, rest)" using assms by (simp add: Cons lex_token_def)
      then show ?thesis by (auto simp: Cons lexString_def Let_def)
    next
      case minus
      then have "lexNumber cs = Inr (kind, tx, rest)" using assms by (simp add: Cons lex_token_def)
      then show ?thesis by (rule lexNumber_progress) (simp add: Cons)
    next
      case punct
      then have "(case find (\<lambda>(a, b, n). a = c \<and> cs' \<noteq> [] \<and> b = hd cs') punct2 of
               Some (a, b, n) \<Rightarrow> formToken (PUNCTUATOR n) [a, b] (tl cs')
             | None \<Rightarrow>
                 (case map_of punct1 c of
                    Some n \<Rightarrow> formToken (PUNCTUATOR n) [c] cs'
                  | None \<Rightarrow> formToken unknown [c] cs')) = Inr (kind, tx, rest)"
        using assms unfolding Cons lex_token_def list.case by (simp only: if_False)
      then show ?thesis by (auto simp: Cons split: option.splits)
    qed
  qed
  then show "kind = tok_eof \<longleftrightarrow> cs = []" "cs \<noteq> [] \<Longrightarrow> length rest < length cs" by simp_all
qed

text \<open>How much a parser has left in front of it: nothing at the end, else the current token and the
  text after it.\<close>

definition token_left :: "token \<Rightarrow> string \<Rightarrow> nat" where
  "token_left t rest = (if tk_kind t = tok_eof then 0 else Suc (length rest))"

lemma next_token_progress:
  assumes "next_token cs = Inr (t, rest)"
  shows "token_left t rest \<le> length cs"
proof -
  obtain kind tx where l: "lex_token (skip_blanks cs) = Inr (kind, tx, rest)" and t: "tk_kind t = kind"
    using assms by (auto simp: next_token_def Let_def split: prod.splits)
  show ?thesis
    using lex_token_progress [OF l] skip_blanks_length [of cs] by (auto simp: token_left_def t)
qed

end
