(* ===== verification/ParserContext.thy ===== *)
theory ParserContext
  imports Lexer Pragmas Printing
begin

text \<open>
  \<open>ParserContext.h\<close>, \<open>lib/Parser/ParserContext.cpp\<close>, and the state of \<open>Parser.h\<close>: the context with
  its named values and its diagnostics, extended by the position of the lexer and the current token.
  The context also carries the heap, on which the parser allocates. What \<open>diagnose\<close> prints is the
  text \<open>cx_out\<close>. The counters of messages are unbounded.
\<close>

record context_state =
  cx_filename :: string
  cx_buffer :: string
  cx_prog :: "program option"
  cx_numErrors :: nat
  cx_numWarnings :: nat
  cx_numNotes :: nat
  cx_pragmas :: "PragmaCommand list"
  cx_argMap :: "arg_ptr list"
  cx_varMap :: "var_ptr list"
  cx_loopStack :: "loop_ptr list"
  cx_letStack :: "(string \<times> expr) list"
  cx_varStack :: "(string \<times> var_ptr) list"
  cx_out :: string
  cx_heap :: heap

record parser = context_state +
  ps_rest :: string
  ps_tok :: token

section \<open>Named values\<close>

text \<open>Stacks are lists with the top at the end; a search starts at the top.\<close>

definition stack_getByName :: "(string \<times> 'a) list \<Rightarrow> string \<Rightarrow> 'a option" where
  "stack_getByName stack name = map_of (rev stack) name"

definition restoreStack :: "'a list \<Rightarrow> nat \<Rightarrow> 'a list res" where
  "restoreStack stack hnd = bind_res (require (hnd \<le> length stack) ''Invalid state'') (\<lambda>_. Inr (take hnd stack))"

definition argMap_getByName :: "heap \<Rightarrow> arg_ptr list \<Rightarrow> string \<Rightarrow> arg_ptr option" where
  "argMap_getByName h as name = find (\<lambda>a. arg_name (hp_arg h a) = name) as"

definition varMap_getByName :: "heap \<Rightarrow> var_ptr list \<Rightarrow> string \<Rightarrow> var_ptr option" where
  "varMap_getByName h vs name = find (\<lambda>v. var_name (hp_var h v) = name) vs"

definition argMap_register :: "heap \<Rightarrow> arg_ptr list \<Rightarrow> arg_ptr \<Rightarrow> arg_ptr list res" where
  "argMap_register h as a =
     bind_res (require (argMap_getByName h as (arg_name (hp_arg h a)) = None) ''Argument already registered'') (\<lambda>_.
     Inr (as @ [a]))"

definition varMap_register :: "heap \<Rightarrow> var_ptr list \<Rightarrow> var_ptr \<Rightarrow> var_ptr list res" where
  "varMap_register h vs v =
     bind_res (require (varMap_getByName h vs (var_name (hp_var h v)) = None) ''Argument already registered'') (\<lambda>_.
     Inr (vs @ [v]))"

definition loopStack_getByName :: "heap \<Rightarrow> loop_ptr list \<Rightarrow> string \<Rightarrow> loop_ptr option" where
  "loopStack_getByName h ls name = find (\<lambda>L. loop_name h L = name) (rev ls)"

section \<open>Diagnostics\<close>

datatype DiagnoseKind = Error | Warning | Note

text \<open>Line and column, from zero; a newline is column zero of the next line.\<close>

definition getLineCol :: "string \<Rightarrow> nat \<Rightarrow> (nat \<times> nat) res" where
  "getLineCol buffer pos =
     bind_res (require (0 < pos) ''Invalid buffer position'') (\<lambda>_.
     Inr (foldl (\<lambda>(line, col) c. if c = newline then (line + 1, 0) else (line, col + 1)) (0, 0)
       (take (length buffer - pos) (tl buffer))))"

fun diagnose_label :: "DiagnoseKind \<Rightarrow> string" where
  "diagnose_label Error = '' error: ''"
| "diagnose_label Warning = '' warning: ''"
| "diagnose_label Note = '' note: ''"

text \<open>The line around the position, and the marker under it.\<close>

definition context_line :: "string \<Rightarrow> nat \<Rightarrow> string" where
  "context_line buffer pos =
     (let pre = rev (takeWhile (\<lambda>c. c \<noteq> newline) (rev (take (length buffer - pos) buffer)));
          post = takeWhile (\<lambda>c. c \<noteq> newline) (drop (length buffer - pos) buffer) in
      pre @ post @ [newline] @ spaces (length pre) @ ''^'' @ [newline, newline])"

definition count_message :: "DiagnoseKind \<Rightarrow> 'a context_state_scheme \<Rightarrow> 'a context_state_scheme" where
  "count_message kind s =
     (case kind of
        Error \<Rightarrow> s\<lparr>cx_numErrors := cx_numErrors s + 1\<rparr>
      | Warning \<Rightarrow> s\<lparr>cx_numWarnings := cx_numWarnings s + 1\<rparr>
      | Note \<Rightarrow> s\<lparr>cx_numNotes := cx_numNotes s + 1\<rparr>)"

definition diagnose :: "DiagnoseKind \<Rightarrow> nat \<Rightarrow> string \<Rightarrow> 'a context_state_scheme \<Rightarrow> 'a context_state_scheme res" where
  "diagnose kind loc message s =
     bind_res (getLineCol (cx_buffer s) loc) (\<lambda>(line, col).
     let text = cx_filename s @ '':'' @ dec_nat line @ '':'' @ dec_nat col @ '':'' @ diagnose_label kind @ message @ [newline]
           @ context_line (cx_buffer s) loc in
     Inr ((count_message kind s)\<lparr>cx_out := cx_out s @ text\<rparr>))"

text \<open>A location that is not valid gives line and column zero and no line.\<close>

definition diagnose_npos :: "DiagnoseKind \<Rightarrow> string \<Rightarrow> 'a context_state_scheme \<Rightarrow> 'a context_state_scheme" where
  "diagnose_npos kind message s =
     (let text = cx_filename s @ '':0:0:'' @ diagnose_label kind @ message @ [newline, newline] in
      (count_message kind s)\<lparr>cx_out := cx_out s @ text\<rparr>)"

section \<open>Laws of the named values\<close>

text \<open>What the parser relies on: a registered name is found, newest first, other names are not
  affected, and restoring the stack forgets exactly what was pushed since.\<close>

locale scoped_names =
  fixes look :: "'s \<Rightarrow> string \<Rightarrow> 'v option"
    and push :: "'s \<Rightarrow> string \<Rightarrow> 'v \<Rightarrow> 's"
    and level :: "'s \<Rightarrow> nat"
    and restore :: "'s \<Rightarrow> nat \<Rightarrow> 's res"
  assumes look_push: "look (push s n v) m = (if m = n then Some v else look s m)"
    and level_push: "level (push s n v) = Suc (level s)"
    and restore_level: "restore s (level s) = Inr s"
    and restore_push: "k \<le> level s \<Longrightarrow> restore (push s n v) k = restore s k"
begin

text \<open>Any number of names pushed in an inner scope.\<close>

fun pushes :: "'s \<Rightarrow> (string \<times> 'v) list \<Rightarrow> 's" where
  "pushes s [] = s"
| "pushes s ((n, v) # xs) = pushes (push s n v) xs"

lemma level_pushes: "level (pushes s xs) = level s + length xs"
  by (induction s xs rule: pushes.induct) (simp_all add: level_push)

lemma scope_exit: "restore (pushes s xs) (level s) = Inr s"
proof -
  have "k \<le> level s \<Longrightarrow> restore (pushes s xs) k = restore s k" for k
    by (induction s xs rule: pushes.induct) (simp_all add: restore_push level_push)
  then show ?thesis by (simp add: restore_level)
qed

lemma inner_shadows: "look (pushes s xs) m = (case map_of (rev xs) m of Some v \<Rightarrow> Some v | None \<Rightarrow> look s m)"
  by (induction s xs rule: pushes.induct) (auto simp: look_push map_add_def split: option.splits)

end

interpretation lets: scoped_names stack_getByName "\<lambda>s n v. s @ [(n, v)]" length restoreStack
  by unfold_locales (auto simp: stack_getByName_def restoreStack_def bind_require)

lemma getLineCol_end: "getLineCol buffer 0 = Inl (AssertFail ''Invalid buffer position'')"
  by (simp add: getLineCol_def require_def)

lemma diagnose_Inr:
  "diagnose kind loc message s = Inr s' \<Longrightarrow> 0 < loc \<and> cx_out s' \<noteq> cx_out s
     \<and> cx_numErrors s' = cx_numErrors s + (if kind = Error then 1 else 0)"
  by (cases kind) (auto simp: diagnose_def getLineCol_def count_message_def Let_def split: prod.splits)

end
