(* ===== verification/Numbers.thy ===== *)
theory Numbers
  imports Floats Lexer
begin

text \<open>
  The conversions of the C library that the parser applies to number tokens: \<open>atoi\<close>, and \<open>atof\<close>
  followed by the conversion of the \<open>double\<close> to the \<open>float\<close> of a constant. Both read the longest
  prefix that is a number. \<open>atof\<close> is correctly rounded, and so is the conversion; a value beyond the
  largest number is infinite.
\<close>

section \<open>Integers\<close>

definition signed_text :: "string \<Rightarrow> bool \<times> string" where
  "signed_text s = (case s of c # cs \<Rightarrow> if c = CHR ''-'' then (True, cs) else (False, s) | [] \<Rightarrow> (False, []))"

definition atoi :: "string \<Rightarrow> int res" where
  "atoi s =
     (let (neg, ds) = signed_text s; n = int (undec (takeWhile isdigit_c ds)); v = (if neg then - n else n) in
      if in_int v then Inr v else Inl (UB ''atoi out of range''))"

section \<open>Floats\<close>

fun bit_length :: "nat \<Rightarrow> nat" where
  "bit_length n = (if n = 0 then 0 else Suc (bit_length (n div 2)))"

declare bit_length.simps [simp del]

text \<open>The exponent of the leading bit of the quotient \<open>n / d\<close>.\<close>

definition log2_ratio :: "nat \<Rightarrow> nat \<Rightarrow> int" where
  "log2_ratio n d =
     (let g = int (bit_length n) - int (bit_length d) in
      if d * 2 ^ nat g \<le> n * 2 ^ nat (- g) then g else g - 1)"

text \<open>The number \<open>m * 2 ^ e\<close> nearest to \<open>n / d\<close> with at most \<open>p\<close> bits and an exponent of at least
  \<open>emin\<close>, ties to even.\<close>

definition round_ratio :: "nat \<Rightarrow> int \<Rightarrow> nat \<Rightarrow> nat \<Rightarrow> nat \<times> int" where
  "round_ratio p emin n d =
     (if n = 0 then (0, emin)
      else
        let e = max emin (log2_ratio n d - (int p - 1)) in
        (round_half_even (n * 2 ^ nat (- e)) (d * 2 ^ nat e), e))"

definition f32_encode :: "nat \<Rightarrow> int \<Rightarrow> f32" where
  "f32_encode m e =
     (if 2 ^ 128 \<le> m * 2 ^ nat e then 0x7F800000
      else if m < 2 ^ 23 then of_nat m
      else if m < 2 ^ 24 then of_int ((e + 150) * 2 ^ 23 + int m - 2 ^ 23)
      else of_int ((e + 151) * 2 ^ 23 + int m div 2 - 2 ^ 23))"

text \<open>First to a \<open>double\<close>, then to a \<open>float\<close>.\<close>

definition f32_of_ratio :: "nat \<Rightarrow> nat \<Rightarrow> f32" where
  "f32_of_ratio n d =
     (let (m, e) = round_ratio 53 (- 1074) n d in
      if 2 ^ 1024 \<le> m * 2 ^ nat e then 0x7F800000
      else (case round_ratio 24 (- 149) (m * 2 ^ nat e) (2 ^ nat (- e)) of (m', e') \<Rightarrow> f32_encode m' e'))"

definition f32_of_text :: "string \<Rightarrow> f32" where
  "f32_of_text s =
     (let (neg, ds) = signed_text s;
          whole = takeWhile isdigit_c ds; rest = dropWhile isdigit_c ds;
          frac = (case rest of c # cs \<Rightarrow> if c = CHR ''.'' then takeWhile isdigit_c cs else [] | [] \<Rightarrow> []);
          f = f32_of_ratio (undec (whole @ frac)) (10 ^ length frac) in
      if neg then f OR 0x80000000 else f)"

end
