(* ===== verification/Parser.thy ===== *)
theory Parser
  imports ParserContext Numbers Simplify
begin

text \<open>
  \<open>lib/Parser/Parser.cpp\<close>, up to expressions. A method of \<open>Parser\<close> is a function from the state to
  its result and the new state; it may also fail with an assertion, and \<open>None\<close> is a run that has
  used up its fuel, a number that bounds the nesting and the rounds of each loop; theory ParserFacts
  shows how much is enough. A method with a flag and output parameters returns an option
  of the outputs, where \<open>None\<close> is the flag \<open>true\<close>; a null pointer to an expression is \<open>None\<close> as well.
\<close>

type_synonym 'a parse = "parser \<Rightarrow> ('a \<times> parser) res option"

definition retP :: "'a \<Rightarrow> 'a parse" where
  "retP x s = Some (Inr (x, s))"

definition bindP :: "'a parse \<Rightarrow> ('a \<Rightarrow> 'b parse) \<Rightarrow> 'b parse" where
  "bindP m f s = (case m s of None \<Rightarrow> None | Some (Inl e) \<Rightarrow> Some (Inl e) | Some (Inr (x, s')) \<Rightarrow> f x s')"

definition thenP :: "'a parse \<Rightarrow> 'b parse \<Rightarrow> 'b parse" where
  "thenP m k = bindP m (\<lambda>_. k)"

definition failP :: "err \<Rightarrow> 'a parse" where
  "failP e s = Some (Inl e)"

definition liftP :: "'a res \<Rightarrow> 'a parse" where
  "liftP r s = Some (bind_res r (\<lambda>x. Inr (x, s)))"

definition getP :: "(parser \<Rightarrow> 'a) \<Rightarrow> 'a parse" where
  "getP f s = Some (Inr (f s, s))"

definition putP :: "(parser \<Rightarrow> parser) \<Rightarrow> unit parse" where
  "putP f s = Some (Inr ((), f s))"

definition tokP :: "token parse" where
  "tokP = getP ps_tok"

definition isP :: "TokenKind \<Rightarrow> bool parse" where
  "isP K = getP (\<lambda>s. tk_kind (ps_tok s) = K)"

section \<open>Tokens\<close>

definition Lex :: "parser \<Rightarrow> parser res" where
  "Lex s =
     bind_res (next_token (ps_rest s)) (\<lambda>(t, rest).
     bind_res (if tk_kind t = unknown then diagnose Error (length rest) ''Invalid character.'' (s\<lparr>ps_rest := rest\<rparr>)
               else Inr (s\<lparr>ps_rest := rest\<rparr>)) (\<lambda>s'.
     Inr (s'\<lparr>ps_tok := t\<rparr>)))"

definition consumeToken :: "unit parse" where
  "consumeToken s =
     Some (bind_res (require (tk_kind (ps_tok s) \<noteq> tok_eof) ''Lexing past eof!'') (\<lambda>_.
       bind_res (Lex s) (\<lambda>s'. Inr ((), s'))))"

definition consumeTokenKind :: "TokenKind \<Rightarrow> unit parse" where
  "consumeTokenKind K =
     bindP (isP K) (\<lambda>b. if b then consumeToken else failP (AssertFail ''Consuming wrong token kind''))"

definition consumeIf :: "TokenKind \<Rightarrow> bool parse" where
  "consumeIf K = bindP (isP K) (\<lambda>b. if b then thenP consumeToken (retP True) else retP False)"

text \<open>A message at the current token, and at a token seen before.\<close>

definition error_at :: "nat \<Rightarrow> string \<Rightarrow> unit parse" where
  "error_at loc msg s = Some (bind_res (diagnose Error loc msg s) (\<lambda>s'. Inr ((), s')))"

definition errorP :: "string \<Rightarrow> unit parse" where
  "errorP msg = bindP tokP (\<lambda>t. error_at (tk_loc t) msg)"

text \<open>Reports and returns the error result.\<close>

definition give_up :: "string \<Rightarrow> 'a option parse" where
  "give_up msg = thenP (errorP msg) (retP None)"

definition ps_left :: "parser \<Rightarrow> nat" where
  "ps_left s = token_left (ps_tok s) (ps_rest s)"

lemma Lex_left: "Lex s = Inr s' \<Longrightarrow> tk_kind (ps_tok s) \<noteq> tok_eof \<Longrightarrow> ps_left s' < ps_left s"
proof -
  assume l: "Lex s = Inr s'" and ne: "tk_kind (ps_tok s) \<noteq> tok_eof"
  obtain t rest s1 where n: "next_token (ps_rest s) = Inr (t, rest)" and s': "s' = s1\<lparr>ps_tok := t\<rparr>"
    and s1: "(if tk_kind t = unknown then diagnose Error (length rest) ''Invalid character.'' (s\<lparr>ps_rest := rest\<rparr>)
               else Inr (s\<lparr>ps_rest := rest\<rparr>)) = Inr s1"
    using l unfolding Lex_def by (auto simp del: if_split_asm)
  have "ps_rest s1 = rest"
    using s1 by (auto simp: diagnose_def count_message_def Let_def split: if_splits prod.splits)
  then show ?thesis using next_token_progress [OF n] ne by (simp add: ps_left_def s' token_left_def)
qed

function skipUntil :: "TokenKind \<Rightarrow> unit parse" where
  "skipUntil T s =
     (if T = unknown \<or> tk_kind (ps_tok s) = tok_eof \<or> tk_kind (ps_tok s) = T then Some (Inr ((), s))
      else (case Lex s of Inl e \<Rightarrow> Some (Inl e) | Inr s' \<Rightarrow> skipUntil T s'))"
  by pat_completeness auto
termination by (relation "measure (ps_left \<circ> snd)") (auto intro: Lex_left)

function skipUntilOneOf :: "TokenKind \<Rightarrow> TokenKind \<Rightarrow> unit parse" where
  "skipUntilOneOf A B s =
     (if tk_kind (ps_tok s) = tok_eof \<or> tk_kind (ps_tok s) = A \<or> tk_kind (ps_tok s) = B then Some (Inr ((), s))
      else (case Lex s of Inl e \<Rightarrow> Some (Inl e) | Inr s' \<Rightarrow> skipUntilOneOf A B s'))"
  by pat_completeness auto
termination by (relation "measure (\<lambda>(A, B, s). ps_left s)") (auto intro: Lex_left)

declare skipUntil.simps [simp del] skipUntilOneOf.simps [simp del]

section \<open>Literals and names\<close>

definition squoted :: "string \<Rightarrow> string" where
  "squoted s = [CHR 0x27] @ s @ [CHR 0x27]"

definition parseIntegerLiteral :: "int option parse" where
  "parseIntegerLiteral =
     bindP tokP (\<lambda>t.
     if tk_kind t = tok_integer
     then bindP (liftP (atoi (tk_text t))) (\<lambda>v. thenP (consumeTokenKind tok_integer) (retP (Some v)))
     else retP None)"

definition parseStringLiteral :: "string option parse" where
  "parseStringLiteral =
     bindP tokP (\<lambda>t.
     if tk_kind t = tok_string then thenP (consumeTokenKind tok_string) (retP (Some (tk_text t))) else retP None)"

definition parseFloatLiteral :: "f32 option parse" where
  "parseFloatLiteral =
     bindP tokP (\<lambda>t.
     if tk_kind t = tok_float then thenP (consumeIf tok_float) (retP (Some (f32_of_text (tk_text t)))) else retP None)"

definition parseIdentifier :: "string option parse" where
  "parseIdentifier =
     bindP tokP (\<lambda>t.
     if tk_kind t = tok_identifier then thenP (consumeTokenKind tok_identifier) (retP (Some (tk_text t))) else retP None)"

definition lookup_let :: "string \<Rightarrow> expr option parse" where
  "lookup_let name = getP (\<lambda>s. stack_getByName (cx_letStack s) name)"

definition lookup_arg :: "string \<Rightarrow> arg_ptr option parse" where
  "lookup_arg name = getP (\<lambda>s. argMap_getByName (cx_heap s) (cx_argMap s) name)"

definition heapP :: "heap parse" where
  "heapP = getP cx_heap"

definition parseIntegerLiteralOrLetConstant :: "int option parse" where
  "parseIntegerLiteralOrLetConstant =
     bindP parseIntegerLiteral (\<lambda>i.
     case i of
       Some v \<Rightarrow> retP (Some v)
     | None \<Rightarrow>
         bindP tokP (\<lambda>t.
         if tk_kind t = tok_identifier then
           bindP parseIdentifier (\<lambda>_.
           bindP (lookup_let (tk_text t)) (\<lambda>e.
           case e of
             Some (ConstantExpr v) \<Rightarrow> retP (Some (int_of_i64 v))
           | Some _ \<Rightarrow> thenP (error_at (tk_loc t) (''variable '' @ squoted (tk_text t) @ '' is not a simple constant'')) (retP None)
           | None \<Rightarrow> thenP (error_at (tk_loc t) (''Unknown identifier '' @ squoted (tk_text t))) (retP None)))
         else retP None))"

section \<open>Expressions\<close>

text \<open>\<open>BinaryOps.def\<close>.\<close>

definition precedences :: "(string \<times> nat) list" where
  "precedences =
     [(''period'', 100), (''bang'', 90), (''mult'', 80), (''div'', 80), (''rem'', 80), (''plus'', 70), (''minus'', 70),
      (''gt'', 60), (''gte'', 60), (''lt'', 60), (''lte'', 60), (''not_equal'', 50), (''equal'', 50)]"

definition getBinOpPrecedence :: "TokenKind \<Rightarrow> nat" where
  "getBinOpPrecedence k =
     (case k of PUNCTUATOR n \<Rightarrow> (case map_of precedences n of Some p \<Rightarrow> p | None \<Rightarrow> 0) | _ \<Rightarrow> 0)"

definition tryToAdjustTypes :: "expr \<Rightarrow> expr \<Rightarrow> (expr \<times> expr) res" where
  "tryToAdjustTypes LHS RHS =
     (let LT = getType LHS; RT = getType RHS in
      if ExprType_isEqual LT RT then Inr (LHS, RHS)
      else if 0 < ety_width LT \<and> ety_width RT = 1 then bind_res (new_BroadcastExpr RHS (ety_width LT)) (\<lambda>e. Inr (LHS, e))
      else if 0 < ety_width RT \<and> ety_width LT = 1 then bind_res (new_BroadcastExpr LHS (ety_width RT)) (\<lambda>e. Inr (e, RHS))
      else Inr (LHS, RHS))"

definition operator_kinds :: "(string \<times> BinOpKind) list" where
  "operator_kinds = [(''+'', BinOpKind.Add), (''*'', BinOpKind.Mul), (''/'', BinOpKind.Div), (''-'', BinOpKind.Sub)]"

text \<open>The operator and its operands; a left operand that is null is dereferenced.\<close>

definition combine :: "token \<Rightarrow> expr option \<Rightarrow> expr \<Rightarrow> expr option parse" where
  "combine op LHS RHS =
     (case map_of operator_kinds (tk_text op) of
        None \<Rightarrow> give_up (''unsupported operator: '' @ squoted (tk_text op) @ ''.'')
      | Some k \<Rightarrow>
          (case LHS of
             None \<Rightarrow> failP (UB ''null operand'')
           | Some l \<Rightarrow>
               bindP (liftP (tryToAdjustTypes l RHS)) (\<lambda>(l', r').
               if ExprType_isEqual (getType l') (getType r')
               then bindP (liftP (new_BinaryExpr l' r' k)) (\<lambda>e. retP (Some e))
               else thenP (error_at (tk_loc op) ''operator types mismatch'') (retP None))))"

definition check_call_args :: "nat \<Rightarrow> bool \<Rightarrow> nat \<Rightarrow> expr list \<Rightarrow> expr list option parse" where
  "check_call_args callLoc sameTy expectedArgs args =
     bindP (consumeIf (PUNCTUATOR ''r_paren'')) (\<lambda>ok.
     thenP (if ok then retP () else thenP (errorP ''expecting right paren in argument list'') (skipUntil (PUNCTUATOR ''gt'')))
      (if expectedArgs \<noteq> 0 \<and> expectedArgs \<noteq> length args
       then give_up (''expecting '' @ dec_nat expectedArgs @ '' arguments'')
       else if sameTy \<and> \<not> list_all (\<lambda>e. ExprType_isEqual (getType e) (getType (hd args))) args
       then thenP (error_at callLoc ''passing arguments of different types.'') (retP None)
       else retP (Some args)))"

definition builtin_binary :: "(string \<times> BinOpKind) list" where
  "builtin_binary = [(''max'', BinOpKind.Max), (''min'', BinOpKind.Min), (''pow'', BinOpKind.Pow)]"

definition builtin_unary :: "(string \<times> UnaryOpKind) list" where
  "builtin_unary = [(''log'', Log), (''exp'', Exp), (''sqrt'', Sqrt), (''abs'', Abs)]"

text \<open>A name that is not followed by a subscript: an index, a variable, or a value bound by \<open>let\<close>,
  which is cloned. The clone of a load of a variable asks for the program around the node, which
  has none.\<close>

definition parse_let_value :: "string \<Rightarrow> expr option parse" where
  "parse_let_value varName =
     bindP (lookup_let varName) (\<lambda>e.
     case e of
       Some e \<Rightarrow> bindP heapP (\<lambda>h. bindP (liftP (clone_expr h [] empty_ctx e)) (\<lambda>e'. retP (Some e')))
     | None \<Rightarrow> give_up (''unknown identifier: '' @ varName @ ''.''))"

text \<open>The vector width and the load.\<close>

definition parse_load :: "arg_ptr \<Rightarrow> expr list \<Rightarrow> nat \<Rightarrow> expr option parse" where
  "parse_load A exprs argLoc =
     bindP heapP (\<lambda>h.
     if getNumDims (arg_type (hp_arg h A)) \<noteq> length exprs
     then thenP (error_at argLoc ''Invalid number of indices for buffer subscript.'') (retP None)
     else
       bindP (consumeIf (PUNCTUATOR ''period'')) (\<lambda>vec.
       bindP (if vec then
                bindP tokP (\<lambda>t.
                bindP parseIntegerLiteralOrLetConstant (\<lambda>w.
                case w of Some w \<Rightarrow> retP w | None \<Rightarrow> thenP (error_at (tk_loc t) ''expecting vector width.'') (retP 1)))
              else retP 1) (\<lambda>loadWidth.
       bindP (liftP (mkExprType (ty_elem (arg_type (hp_arg h A))) (u32_of_int loadWidth))) (\<lambda>ty.
       bindP (liftP (new_LoadExpr_arg h A exprs ty)) (\<lambda>e. retP (Some e))))))"

text \<open>The loops and the methods below parse nested expressions with \<open>pe\<close>, which \<open>parseExpr\<close> ties back to
  itself with less fuel.\<close>

type_synonym expr_parser = "nat \<Rightarrow> expr option parse"

primrec parseExprRest :: "expr_parser \<Rightarrow> nat \<Rightarrow> nat \<Rightarrow> expr option \<Rightarrow> expr option parse" where
  "parseExprRest pe 0 RBP LHS = (\<lambda>s. None)"
| "parseExprRest pe (Suc n) RBP LHS =
     bindP tokP (\<lambda>op.
     let LBP = getBinOpPrecedence (tk_kind op) in
     if LBP \<le> RBP then retP LHS
     else
       thenP consumeToken
        (bindP (pe LBP) (\<lambda>RHS.
         case RHS of
           None \<Rightarrow> retP None
         | Some r \<Rightarrow>
             bindP (combine op LHS r) (\<lambda>e.
             case e of None \<Rightarrow> retP None | Some e \<Rightarrow> parseExprRest pe n RBP (Some e)))))"

primrec parseMoreArgs :: "expr_parser \<Rightarrow> nat \<Rightarrow> expr list \<Rightarrow> expr list option parse" where
  "parseMoreArgs pe 0 args = (\<lambda>s. None)"
| "parseMoreArgs pe (Suc n) args =
     bindP (isP (PUNCTUATOR ''comma'')) (\<lambda>more.
     if \<not> more then retP (Some args)
     else
       thenP (consumeTokenKind (PUNCTUATOR ''comma''))
        (bindP (pe 1) (\<lambda>e.
         case e of
           None \<Rightarrow> thenP (skipUntilOneOf (PUNCTUATOR ''r_paren'') (PUNCTUATOR ''r_brace'')) (retP None)
         | Some e \<Rightarrow> parseMoreArgs pe n (args @ [e]))))"

definition parseCallArgumentList :: "expr_parser \<Rightarrow> nat \<Rightarrow> bool \<Rightarrow> nat \<Rightarrow> expr list option parse" where
  "parseCallArgumentList pe n sameTy expectedArgs =
     bindP tokP (\<lambda>t.
     bindP (consumeIf (PUNCTUATOR ''l_paren'')) (\<lambda>ok.
     if \<not> ok then give_up ''expecting left paren in argument list.''
     else
       bindP (pe 1) (\<lambda>e.
       case e of
         None \<Rightarrow> thenP (skipUntilOneOf (PUNCTUATOR ''r_paren'') (PUNCTUATOR ''r_brace'')) (retP None)
       | Some e \<Rightarrow>
           bindP (parseMoreArgs pe n [e]) (\<lambda>args.
           case args of None \<Rightarrow> retP None | Some args \<Rightarrow> check_call_args (tk_loc t) sameTy expectedArgs args))))"

primrec parseSubscripts :: "expr_parser \<Rightarrow> nat \<Rightarrow> TokenKind \<Rightarrow> expr list \<Rightarrow> expr list option parse" where
  "parseSubscripts pe 0 R exprs = (\<lambda>s. None)"
| "parseSubscripts pe (Suc n) R exprs =
     bindP (pe 1) (\<lambda>e.
     case e of
       None \<Rightarrow> retP None
     | Some e \<Rightarrow>
         bindP (isP R) (\<lambda>done.
         if done then thenP (consumeTokenKind R) (retP (Some (exprs @ [e])))
         else
           bindP (isP (PUNCTUATOR ''comma'')) (\<lambda>more.
           if more then thenP (consumeTokenKind (PUNCTUATOR ''comma'')) (parseSubscripts pe n R (exprs @ [e]))
           else give_up ''expecting comma or end of parameter list.'')))"

definition parseSubscriptList :: "expr_parser \<Rightarrow> nat \<Rightarrow> TokenKind \<Rightarrow> TokenKind \<Rightarrow> expr list option parse" where
  "parseSubscriptList pe n L R =
     bindP (consumeIf L) (\<lambda>ok.
     if \<not> ok then give_up ''expecting open brace for parameter list.'' else parseSubscripts pe n R [])"

definition parseBuiltinFunction :: "expr_parser \<Rightarrow> nat \<Rightarrow> expr option parse" where
  "parseBuiltinFunction pe n =
     bindP tokP (\<lambda>t.
     thenP consumeToken
      (case tk_kind t of
         BUILTIN_FUNC f \<Rightarrow>
           (case map_of builtin_binary f of
              Some k \<Rightarrow>
                bindP (parseCallArgumentList pe n True 2) (\<lambda>args.
                case args of
                  None \<Rightarrow> retP None
                | Some args \<Rightarrow> bindP (liftP (new_BinaryExpr (args ! 0) (args ! 1) k)) (\<lambda>e. retP (Some e)))
            | None \<Rightarrow>
                (case map_of builtin_unary f of
                   Some k \<Rightarrow>
                     bindP (parseCallArgumentList pe n False 1) (\<lambda>args.
                     case args of None \<Rightarrow> retP None | Some args \<Rightarrow> retP (Some (UnaryExpr k (args ! 0))))
                 | None \<Rightarrow> give_up ''Unable to parse built-in function''))
       | _ \<Rightarrow> give_up ''Unable to parse built-in function''))"

text \<open>The case of a name in \<open>parseExprPrimary\<close>.\<close>

definition parse_name :: "expr_parser \<Rightarrow> nat \<Rightarrow> expr option parse" where
  "parse_name pe n =
     bindP tokP (\<lambda>t.
     bindP parseIdentifier (\<lambda>_.
     bindP heapP (\<lambda>h.
     bindP (getP (\<lambda>s. loopStack_getByName h (cx_loopStack s) (tk_text t))) (\<lambda>L.
     case L of
       Some L \<Rightarrow> retP (Some (new_IndexExpr L))
     | None \<Rightarrow>
         bindP (getP (\<lambda>s. varMap_getByName h (cx_varMap s) (tk_text t))) (\<lambda>LV.
         case LV of
           Some v \<Rightarrow> retP (Some (new_LoadLocalExpr h v))
         | None \<Rightarrow>
             bindP (isP (PUNCTUATOR ''l_square'')) (\<lambda>subscript.
             if subscript then
               bindP (lookup_arg (tk_text t)) (\<lambda>A.
               case A of
                 None \<Rightarrow> give_up (''unknown subscript argument '' @ tk_text t @ ''.'')
               | Some A \<Rightarrow>
                   bindP (parseSubscriptList pe n (PUNCTUATOR ''l_square'') (PUNCTUATOR ''r_square'')) (\<lambda>exprs.
                   case exprs of None \<Rightarrow> retP None | Some exprs \<Rightarrow> parse_load A exprs (tk_loc t)))
             else parse_let_value (tk_text t)))))))"

definition parseExprPrimary :: "expr_parser \<Rightarrow> nat \<Rightarrow> expr option parse" where
  "parseExprPrimary pe n =
     bindP tokP (\<lambda>t.
     if tk_kind t = tok_integer then
       bindP parseIntegerLiteral (\<lambda>v.
       case v of Some num \<Rightarrow> retP (Some (ConstantExpr (i64_of_int num))) | None \<Rightarrow> failP (UB ''uninitialized number''))
     else if tk_kind t = tok_float then
       bindP parseFloatLiteral (\<lambda>v.
       case v of Some num \<Rightarrow> retP (Some (ConstantFPExpr num)) | None \<Rightarrow> failP (UB ''uninitialized number''))
     else if tk_kind t = tok_string then
       bindP parseStringLiteral (\<lambda>v.
       retP (Some (ConstantStringExpr (unescapeCString (case v of Some str \<Rightarrow> str | None \<Rightarrow> [])))))
     else if tk_kind t = tok_identifier then parse_name pe n
     else if tk_kind t = PUNCTUATOR ''l_paren'' then
       thenP (consumeTokenKind (PUNCTUATOR ''l_paren''))
        (bindP (pe 1) (\<lambda>e.
         case e of
           None \<Rightarrow> retP None
         | Some sub \<Rightarrow>
             bindP (consumeIf (PUNCTUATOR ''r_paren'')) (\<lambda>closed.
             if closed then retP (Some sub) else give_up ''expected right paren to close the expression.'')))
     else (case tk_kind t of
             BUILTIN_FUNC f \<Rightarrow> parseBuiltinFunction pe n
           | _ \<Rightarrow> give_up ''unknown expression.''))"

primrec parseExpr :: "nat \<Rightarrow> expr_parser" where
  "parseExpr 0 = (\<lambda>RBP s. None)"
| "parseExpr (Suc n) = (\<lambda>RBP. bindP (parseExprPrimary (parseExpr n) n) (parseExprRest (parseExpr n) (Suc n) RBP))"

declare parseExprRest.simps [simp del] parseMoreArgs.simps [simp del] parseSubscripts.simps [simp del]
  parseExpr.simps [simp del]

end
