(* ===== verification/ParserStmts.thy ===== *)
theory ParserStmts
  imports Parser
begin

text \<open>
  \<open>lib/Parser/Parser.cpp\<close>: types, declarations, statements, scopes, the script of pragmas and the
  program. \<open>parseScope\<close> adds to the scope it is given; here it returns the statements. Where the code
  goes on with a null condition after an error, the tree has \<open>null_expr\<close> in its place.
\<close>

abbreviation punct :: "string \<Rightarrow> TokenKind" where "punct \<equiv> PUNCTUATOR"

section \<open>Types\<close>

definition parseTypePair :: "(string \<times> int) option parse" where
  "parseTypePair =
     bindP parseIdentifier (\<lambda>name.
     case name of
       None \<Rightarrow> give_up ''expecting dimension name.''
     | Some name \<Rightarrow>
         bindP (consumeIf (punct ''colon'')) (\<lambda>ok.
         if \<not> ok then give_up (''expecting colon after dimension name '' @ name @ ''.'')
         else
           bindP parseIntegerLiteralOrLetConstant (\<lambda>v.
           case v of
             None \<Rightarrow> give_up (''expecting integer or constant after dimension name '' @ name @ ''.'')
           | Some v \<Rightarrow> retP (Some (name, v)))))"

definition parseBuiltinType :: "ElemKind option parse" where
  "parseBuiltinType =
     bindP tokP (\<lambda>t.
     if tk_kind t = BUILTIN_TYPE ''float'' then thenP consumeToken (retP (Some Float32Ty))
     else if tk_kind t = BUILTIN_TYPE ''int8'' then thenP consumeToken (retP (Some Int8Ty))
     else if tk_kind t = BUILTIN_TYPE ''index'' then thenP consumeToken (retP (Some IndexTy))
     else give_up ''expecting typename'')"

primrec parseMoreDims :: "nat \<Rightarrow> (string \<times> int) list \<Rightarrow> (string \<times> int) list parse" where
  "parseMoreDims 0 dims = (\<lambda>s. None)"
| "parseMoreDims (Suc n) dims =
     bindP (isP (punct ''comma'')) (\<lambda>more.
     if \<not> more then retP dims
     else
       thenP (consumeTokenKind (punct ''comma''))
        (bindP parseTypePair (\<lambda>d.
         case d of
           None \<Rightarrow> thenP (skipUntil (punct ''gt'')) (retP dims)
         | Some d \<Rightarrow> parseMoreDims n (dims @ [d]))))"

text \<open>The type and the name of a parameter. The type keeps its old value when the method fails; the
  name is set first. After a bad first dimension the code stores an uninitialized size.\<close>

definition parseNamedType :: "nat \<Rightarrow> Type \<Rightarrow> (bool \<times> Type \<times> string) parse" where
  "parseNamedType n T =
     bindP tokP (\<lambda>t. let name = tk_text t; fail = (\<lambda>msg. thenP (errorP msg) (retP (True, T, name))) in
     bindP (consumeIf tok_identifier) (\<lambda>ok.
     if \<not> ok then fail ''expecting buffer argument name''
     else
       bindP (consumeIf (punct ''colon'')) (\<lambda>ok.
       thenP (if ok then retP () else errorP (''expecting colon after typename: '' @ quote @ name @ quote))
        (bindP parseBuiltinType (\<lambda>ty.
         case ty of
           None \<Rightarrow> retP (True, T, name)
         | Some scalarsTy \<Rightarrow>
             bindP (consumeIf (punct ''lt'')) (\<lambda>ok.
             if \<not> ok then fail ''expecting dimension list''
             else
               bindP parseTypePair (\<lambda>d.
               case d of
                 None \<Rightarrow>
                   thenP (skipUntilOneOf (punct ''comma'') (punct ''r_paren'')) (failP (UB ''uninitialized dimension''))
               | Some d \<Rightarrow>
                   bindP (parseMoreDims n [d]) (\<lambda>dims.
                   bindP (consumeIf (punct ''gt'')) (\<lambda>ok.
                   thenP (if ok then retP () else thenP (errorP ''expecting dimension list'') (skipUntil (punct ''gt'')))
                    (bindP (liftP (mkType scalarsTy (map (\<lambda>d. u32_of_int (snd d)) dims) (map fst dims))) (\<lambda>T'.
                     retP (False, T', name))))))))))))"

section \<open>Ranges\<close>

text \<open>A dimension of an argument, such as \<open>C.x\<close>.\<close>

definition parse_dim :: "string \<Rightarrow> int option parse" where
  "parse_dim varName =
     bindP (lookup_arg varName) (\<lambda>arg.
     case arg of
       None \<Rightarrow> give_up (''unexpected argument name in for loop range: '' @ varName)
     | Some arg \<Rightarrow>
         bindP (consumeIf (punct ''period'')) (\<lambda>ok.
         if \<not> ok then give_up (''expecting a member access in loop range: '' @ varName)
         else
           bindP parseIdentifier (\<lambda>dimName.
           case dimName of
             None \<Rightarrow> give_up (''expecting dimension name in loop range: '' @ varName)
           | Some dimName \<Rightarrow>
               bindP heapP (\<lambda>h.
               let value = int_of_u32 (getDimSizeByName (arg_type (hp_arg h arg)) dimName) in
               if value = 0 then give_up (''invalid dimension name in: '' @ varName @ ''.'' @ dimName)
               else retP (Some value)))))"

definition parseLiteralOrDimExpr :: "int option parse" where
  "parseLiteralOrDimExpr =
     bindP tokP (\<lambda>t.
     if tk_kind t = tok_integer then parseIntegerLiteral
     else if tk_kind t = tok_identifier then
       bindP parseIdentifier (\<lambda>_.
       bindP (lookup_let (tk_text t)) (\<lambda>e.
       case e of Some (ConstantExpr v) \<Rightarrow> retP (Some (int_of_i64 v)) | _ \<Rightarrow> parse_dim (tk_text t)))
     else give_up ''invalid expression in dimension name'')"

section \<open>Declarations\<close>

text \<open>\<open>True\<close> is an error.\<close>

definition parseLetStmt :: "host \<Rightarrow> nat \<Rightarrow> bool parse" where
  "parseLetStmt H n =
     thenP (consumeTokenKind (KEYWORD ''let''))
      (bindP parseIdentifier (\<lambda>name.
       thenP (if name = None then errorP (''expecting a variable name in '' @ squoted ''let'' @ '' expr'') else retP ())
        (bindP (consumeIf (punct ''assign'')) (\<lambda>ok.
         thenP (if ok then retP () else errorP ''expecting assignment in let expression'')
          (bindP (parseExpr n 1) (\<lambda>e.
           case e of
             None \<Rightarrow> retP True
           | Some e \<Rightarrow>
               bindP (liftP (simplifyExpr H e)) (\<lambda>(e', ch).
               thenP (putP (\<lambda>s. s\<lparr>cx_letStack := cx_letStack s @ [(case name of Some x \<Rightarrow> x | None \<Rightarrow> [], e')]\<rparr>))
                (retP False))))))))"

definition declare_var :: "string \<Rightarrow> ElemKind \<Rightarrow> var_ptr parse" where
  "declare_var name k =
     bindP (liftP (mkExprType k 1)) (\<lambda>ty.
     bindP heapP (\<lambda>h. let (v, h') = new_var h \<lparr>var_name = name, var_type = ty\<rparr> in
     bindP (getP cx_varMap) (\<lambda>vs.
     bindP (liftP (varMap_register h' vs v)) (\<lambda>vs'.
     thenP (putP (\<lambda>s. s\<lparr>cx_heap := h', cx_varMap := vs', cx_varStack := cx_varStack s @ [(name, v)]\<rparr>)) (retP v)))))"

text \<open>The statement that initializes the variable, if any; the outer \<open>None\<close> is an error.\<close>

definition parseVarDecl :: "nat \<Rightarrow> stmt list option parse" where
  "parseVarDecl n =
     thenP (consumeTokenKind (KEYWORD ''var''))
      (bindP parseIdentifier (\<lambda>name. let varName = (case name of Some x \<Rightarrow> x | None \<Rightarrow> []) in
       thenP (if name = None then errorP ''expecting a variable name in var decleration'' else retP ())
        (bindP (consumeIf (punct ''colon'')) (\<lambda>ok.
         thenP (if ok then retP () else errorP ''expecting colon in var expression'')
          (bindP parseBuiltinType (\<lambda>ty.
           case ty of
             None \<Rightarrow> retP None
           | Some scalarsTy \<Rightarrow>
               bindP tokP (\<lambda>t.
               bindP (consumeIf (punct ''assign'')) (\<lambda>assigned.
               bindP (if assigned then parseExpr n 1 else retP None) (\<lambda>storedValue.
               bindP (getP (\<lambda>s. varMap_getByName (cx_heap s) (cx_varMap s) varName)) (\<lambda>LV.
               if LV \<noteq> None then give_up (varName @ '' variable with this name already exists'')
               else
                 bindP (declare_var varName scalarsTy) (\<lambda>v.
                 case storedValue of
                   None \<Rightarrow> retP (Some [])
                 | Some e \<Rightarrow>
                     bindP heapP (\<lambda>h.
                     if \<not> ExprType_isEqual (getType e) (var_type (hp_var h v))
                     then thenP (error_at (tk_loc t) ''assignment types mismatch'') (retP None)
                     else bindP (liftP (new_StoreLocalStmt h v e False)) (\<lambda>init. retP (Some [init]))))))))))))))"

section \<open>Assignments and calls\<close>

text \<open>The operator: whether it accumulates.\<close>

definition parse_assign :: "string \<Rightarrow> bool option parse" where
  "parse_assign msg =
     bindP tokP (\<lambda>t.
     if tk_kind t = punct ''plusEquals'' then thenP consumeToken (retP (Some True))
     else if tk_kind t = punct ''assign'' then thenP consumeToken (retP (Some False))
     else give_up msg)"

definition parse_var_assign :: "nat \<Rightarrow> var_ptr \<Rightarrow> nat \<Rightarrow> stmt option parse" where
  "parse_var_assign n var argLoc =
     bindP (parse_assign ''expecting assignment operator after local variable access.'') (\<lambda>acc.
     case acc of
       None \<Rightarrow> retP None
     | Some acc \<Rightarrow>
         bindP (parseExpr n 1) (\<lambda>e.
         case e of
           None \<Rightarrow> retP None
         | Some e \<Rightarrow>
             bindP heapP (\<lambda>h.
             if \<not> ExprType_isEqual (var_type (hp_var h var)) (getType e)
             then thenP (error_at argLoc ''invalid assignment type'') (retP None)
             else bindP (liftP (new_StoreLocalStmt h var e acc)) (\<lambda>st. retP (Some st)))))"

definition parse_store :: "nat \<Rightarrow> arg_ptr \<Rightarrow> nat \<Rightarrow> stmt option parse" where
  "parse_store n arg argLoc =
     bindP (parseSubscriptList (parseExpr n) n (punct ''l_square'') (punct ''r_square'')) (\<lambda>indices.
     case indices of
       None \<Rightarrow> retP None
     | Some indices \<Rightarrow>
         bindP (parse_assign ''expecting assignment operator after buffer access.'') (\<lambda>acc.
         case acc of
           None \<Rightarrow> retP None
         | Some acc \<Rightarrow>
             bindP (parseExpr n 1) (\<lambda>e.
             case e of
               None \<Rightarrow> retP None
             | Some e \<Rightarrow>
                 bindP heapP (\<lambda>h.
                 if getNumDims (arg_type (hp_arg h arg)) \<noteq> length indices
                 then thenP (error_at argLoc ''Invalid number of indices for argument subscript'') (retP None)
                 else bindP (liftP (new_StoreStmt_arg h arg indices e acc)) (\<lambda>st. retP (Some st))))))"

text \<open>The statement that starts with a name.\<close>

definition parse_named_stmt :: "nat \<Rightarrow> stmt option parse" where
  "parse_named_stmt n =
     bindP tokP (\<lambda>t. let varName = tk_text t in
     bindP parseIdentifier (\<lambda>_.
     bindP (getP (\<lambda>s. stack_getByName (cx_varStack s) varName)) (\<lambda>var.
     case var of
       Some var \<Rightarrow> parse_var_assign n var (tk_loc t)
     | None \<Rightarrow>
         bindP tokP (\<lambda>t2.
         if tk_kind t2 = punct ''l_paren'' then
           bindP (parseSubscriptList (parseExpr n) n (punct ''l_paren'') (punct ''r_paren'')) (\<lambda>params.
           case params of None \<Rightarrow> retP None | Some params \<Rightarrow> retP (Some (CallStmt varName params)))
         else
           bindP (lookup_arg varName) (\<lambda>arg.
           case arg of
             None \<Rightarrow> give_up ''accessing unknown variable.''
           | Some arg \<Rightarrow>
               if tk_kind t2 = punct ''l_square'' then parse_store n arg (tk_loc t)
               else give_up (''expecting subscript after identifier '' @ varName @ ''.''))))))"

section \<open>Loops and range checks\<close>

text \<open>The header of a loop between the parentheses: the end and the stride. After an error in it the
  code goes on with what it has.\<close>

definition parse_for_range :: "(int \<times> int) parse" where
  "parse_for_range =
     bindP parseIntegerLiteral (\<lambda>zero.
     if zero \<noteq> Some 0 then
       thenP (errorP (''expecting '' @ squoted ''0'' @ '' in the for base range. Remember the space between the zero and ''
           @ squoted ''..''))
        (thenP (skipUntil (punct ''r_paren'')) (retP (0, 1)))
     else
       bindP (consumeIf (punct ''range'')) (\<lambda>ok.
       if \<not> ok then
         thenP (errorP (''expecting the '' @ squoted ''..'' @ '' range in the for loop. Remember the space between the zero and ''
             @ squoted ''..''))
          (thenP (skipUntil (punct ''r_paren'')) (retP (0, 1)))
       else
         bindP parseLiteralOrDimExpr (\<lambda>endRange.
         case endRange of
           None \<Rightarrow> thenP (errorP ''unable to parse loop range.'') (thenP (skipUntil (punct ''r_paren'')) (retP (0, 1)))
         | Some endRange \<Rightarrow>
             bindP (consumeIf (punct ''comma'')) (\<lambda>strided.
             if \<not> strided then retP (endRange, 1)
             else
               bindP tokP (\<lambda>t.
               bindP parseIntegerLiteralOrLetConstant (\<lambda>stride.
               case stride of
                 Some stride \<Rightarrow> retP (endRange, stride)
               | None \<Rightarrow> thenP (error_at (tk_loc t) ''expecting stride parameter.'') (retP (endRange, 1))))))))"

text \<open>\<open>endRange % stride\<close> on \<open>int\<close>s.\<close>

definition rem_nonzero :: "int \<Rightarrow> int \<Rightarrow> bool res" where
  "rem_nonzero a b =
     (if b = 0 then Inl (UB ''modulo by zero'')
      else if a = - (2 ^ 31) \<and> b = - 1 then Inl (UB ''int overflow'')
      else Inr (\<not> b dvd a))"

type_synonym scope_parser = "stmt list parse"

text \<open>The loop and its body.\<close>

definition parse_loop :: "scope_parser \<Rightarrow> string \<Rightarrow> int \<Rightarrow> int \<Rightarrow> stmt option parse" where
  "parse_loop parse_scope indexName endRange stride =
     bindP heapP (\<lambda>h. let (L, h') = new_loop h indexName (u32_of_int endRange) (u32_of_int stride) in
     thenP (putP (\<lambda>s. s\<lparr>cx_heap := h', cx_loopStack := cx_loopStack s @ [L]\<rparr>))
      (bindP parse_scope (\<lambda>body.
       bindP (getP cx_loopStack) (\<lambda>ls.
       if ls = [] then failP (UB ''empty loop stack'')
       else if last ls \<noteq> L then failP (AssertFail ''Popped an unexpected loop'')
       else
         thenP (putP (\<lambda>s. s\<lparr>cx_loopStack := butlast ls\<rparr>)) (retP (Some (Loop L body)))))))"

definition parseForStmt :: "scope_parser \<Rightarrow> stmt option parse" where
  "parseForStmt parse_scope =
     bindP tokP (\<lambda>t0.
     thenP (consumeTokenKind (KEYWORD ''for''))
      (bindP (consumeIf (punct ''l_paren'')) (\<lambda>ok.
       if \<not> ok then give_up ''expecting left paren in for loop.''
       else
         bindP parseIdentifier (\<lambda>indexName.
         case indexName of
           None \<Rightarrow> give_up ''expecting index name in for loop.''
         | Some indexName \<Rightarrow>
             bindP (consumeIf (KEYWORD ''in'')) (\<lambda>ok.
             if \<not> ok then give_up (''expecting '' @ squoted ''in'' @ '' keyword in the for loop.'')
             else
               bindP parse_for_range (\<lambda>(endRange, stride).
               bindP (consumeIf (punct ''r_paren'')) (\<lambda>ok.
               thenP (if ok then retP () else errorP ''expecting right brace in for loop.'')
                (bindP (liftP (rem_nonzero endRange stride)) (\<lambda>bad.
                 if bad then thenP (error_at (tk_loc t0) ''loop stride must divide the loop range'') (retP None)
                 else
                   parse_loop parse_scope indexName endRange stride)))))))))"

text \<open>The header of a range check; the condition may be null.\<close>

definition parse_if_range :: "nat \<Rightarrow> (expr option \<times> int \<times> int) parse" where
  "parse_if_range n =
     bindP (parseExpr n 1) (\<lambda>indexVal.
     case indexVal of
       None \<Rightarrow> thenP (skipUntil (punct ''r_paren'')) (retP (None, 0, 0))
     | Some _ \<Rightarrow>
         bindP (consumeIf (KEYWORD ''in'')) (\<lambda>ok.
         if \<not> ok then
           thenP (errorP (''expecting '' @ squoted ''in'' @ '' keyword in the for loop.''))
            (thenP (skipUntil (punct ''r_paren'')) (retP (indexVal, 0, 0)))
         else
           bindP parseLiteralOrDimExpr (\<lambda>lo.
           case lo of
             None \<Rightarrow> thenP (errorP ''unable to parse if-range.'') (thenP (skipUntil (punct ''r_paren'')) (retP (indexVal, 0, 0)))
           | Some lo \<Rightarrow>
               bindP (consumeIf (punct ''range'')) (\<lambda>ok.
               if \<not> ok then
                 thenP (errorP (''expecting the '' @ squoted ''..''
                     @ '' range in the if-range loop. Remember the space between the value and '' @ squoted ''..''))
                  (thenP (skipUntil (punct ''r_paren'')) (retP (indexVal, lo, 0)))
               else
                 bindP parseLiteralOrDimExpr (\<lambda>hi.
                 case hi of
                   None \<Rightarrow> thenP (errorP ''unable to parse if-range.'') (thenP (skipUntil (punct ''r_paren'')) (retP (indexVal, lo, 0)))
                 | Some hi \<Rightarrow> retP (indexVal, lo, hi))))))"

text \<open>\<open>parseIfStmt\<close> builds the range check also when its condition is null. The tree has no null pointers, so
  this one is a node that no constructor returns: a load from what is not an address. \<open>verify\<close>, \<open>clone\<close> and the
  run of a program fail on it, as the code does when it follows the pointer.\<close>

definition null_expr :: expr where
  "null_expr = LoadExpr (scalarTy IndexTy) (ConstantStringExpr [])"

lemma null_expr_fails:
  "verify_expr h vs enc null_expr \<noteq> Inr ()" "clone_expr h vs c null_expr \<noteq> Inr e" "eval M h st \<rho> null_expr = None"
  "new_LoadExpr g ty \<noteq> Inr null_expr"
  by (auto simp: null_expr_def new_LoadExpr_def)

definition parseIfStmt :: "nat \<Rightarrow> scope_parser \<Rightarrow> stmt option parse" where
  "parseIfStmt n parse_scope =
     thenP (consumeTokenKind (KEYWORD ''if''))
      (bindP (consumeIf (punct ''l_paren'')) (\<lambda>ok.
       thenP (if ok then retP () else errorP ''expecting left paren in for loop.'')
        (bindP (parse_if_range n) (\<lambda>(indexVal, lo, hi).
         bindP (consumeIf (punct ''r_paren'')) (\<lambda>ok.
         thenP (if ok then retP () else errorP ''expecting right brace in if-range.'')
          (bindP parse_scope (\<lambda>body.
           retP (Some (IfRange (case indexVal of Some e \<Rightarrow> e | None \<Rightarrow> null_expr) lo hi body)))))))))"

definition parseOneStmt :: "nat \<Rightarrow> scope_parser \<Rightarrow> stmt option parse" where
  "parseOneStmt n parse_scope =
     bindP tokP (\<lambda>t.
     if tk_kind t = tok_identifier then parse_named_stmt n
     else if tk_kind t = KEYWORD ''for'' then parseForStmt parse_scope
     else if tk_kind t = KEYWORD ''if'' then parseIfStmt n parse_scope
     else give_up ''unknown statement in scope body.'')"

end
