(* ===== verification/ParserProgram.thy ===== *)
theory ParserProgram
  imports ParserStmts
begin

text \<open>
  \<open>lib/Parser/Parser.cpp\<close>: scopes, functions, scripts and \<open>parseProgram\<close>. A buffer is the text of a
  file up to a zero byte. The fuel of \<open>parse\<close> is one more than the length of the buffer.
\<close>

section \<open>Scopes\<close>

primrec parse_lets :: "host \<Rightarrow> nat \<Rightarrow> nat \<Rightarrow> bool parse" where
  "parse_lets H n 0 = (\<lambda>s. None)"
| "parse_lets H n (Suc k) =
     bindP (isP (KEYWORD ''let'')) (\<lambda>b.
     if \<not> b then retP False
     else bindP (parseLetStmt H n) (\<lambda>failed. if failed then retP True else parse_lets H n k))"

primrec parse_vars :: "nat \<Rightarrow> nat \<Rightarrow> stmt list \<Rightarrow> (bool \<times> stmt list) parse" where
  "parse_vars n 0 stmts = (\<lambda>s. None)"
| "parse_vars n (Suc k) stmts =
     bindP (isP (KEYWORD ''var'')) (\<lambda>b.
     if \<not> b then retP (False, stmts)
     else
       bindP (parseVarDecl n) (\<lambda>r.
       case r of None \<Rightarrow> retP (True, stmts) | Some init \<Rightarrow> parse_vars n k (stmts @ init)))"

primrec parse_stmts :: "host \<Rightarrow> nat \<Rightarrow> scope_parser \<Rightarrow> nat \<Rightarrow> stmt list \<Rightarrow> stmt list parse" where
  "parse_stmts H n parse_scope 0 stmts = (\<lambda>s. None)"
| "parse_stmts H n parse_scope (Suc k) stmts =
     bindP (isP (punct ''r_brace'')) (\<lambda>done.
     if done then retP stmts
     else
       bindP (parse_lets H n n) (\<lambda>failed.
       if failed then thenP (skipUntil (punct ''r_brace'')) (retP stmts)
       else
         bindP (parse_vars n n stmts) (\<lambda>(failed, stmts).
         if failed then thenP (skipUntil (punct ''r_brace'')) (retP stmts)
         else
           bindP (parseOneStmt n parse_scope) (\<lambda>st.
           case st of
             None \<Rightarrow> thenP (skipUntil (punct ''r_brace'')) (retP stmts)
           | Some st \<Rightarrow> parse_stmts H n parse_scope k (stmts @ [st])))))"

definition restore_lets :: "nat \<Rightarrow> unit parse" where
  "restore_lets letStackHandle =
     bindP (getP cx_letStack) (\<lambda>lets.
     bindP (liftP (restoreStack lets letStackHandle)) (\<lambda>lets'.
     putP (\<lambda>s. s\<lparr>cx_letStack := lets'\<rparr>)))"

primrec parseScope :: "host \<Rightarrow> nat \<Rightarrow> scope_parser" where
  "parseScope H 0 = (\<lambda>s. None)"
| "parseScope H (Suc n) =
     bindP (getP (\<lambda>s. length (cx_letStack s))) (\<lambda>letStackHandle.
     bindP (consumeIf (punct ''l_brace'')) (\<lambda>ok.
     thenP (if ok then retP () else errorP ''expecting left brace for scope body.'')
      (bindP (parse_stmts H (Suc n) (parseScope H n) (Suc n) []) (\<lambda>stmts.
       bindP (consumeIf (punct ''r_brace'')) (\<lambda>ok.
       thenP (if ok then retP () else errorP ''expecting closing brace to scope body.'')
        (thenP (restore_lets letStackHandle) (retP stmts)))))))"

section \<open>Functions\<close>

definition register_arg :: "string \<Rightarrow> Type \<Rightarrow> unit parse" where
  "register_arg name T =
     bindP heapP (\<lambda>h. let (a, h') = new_arg h \<lparr>arg_name = name, arg_type = T\<rparr> in
     bindP (getP cx_argMap) (\<lambda>as.
     bindP (liftP (argMap_register h' as a)) (\<lambda>as'.
     putP (\<lambda>s. s\<lparr>cx_heap := h', cx_argMap := as'\<rparr>))))"

primrec parse_params :: "nat \<Rightarrow> Type \<Rightarrow> unit parse" where
  "parse_params 0 T = (\<lambda>s. None)"
| "parse_params (Suc n) T =
     bindP (isP (punct ''comma'')) (\<lambda>more.
     if \<not> more then retP ()
     else
       thenP (consumeTokenKind (punct ''comma''))
        (bindP (parseNamedType n T) (\<lambda>(failed, T, typeName).
         thenP (if failed then skipUntil (punct ''comma'') else retP ())
          (bindP (lookup_arg typeName) (\<lambda>known.
           if known \<noteq> None then thenP (errorP ''argument with this name already exists.'') (parse_params n T)
           else thenP (register_arg typeName T) (parse_params n T))))))"

definition no_type :: Type where
  "no_type = \<lparr>ty_sizes = [], ty_names = [], ty_elem = Float32Ty\<rparr>"

definition parseFunctionDecl :: "host \<Rightarrow> nat \<Rightarrow> program option parse" where
  "parseFunctionDecl H n =
     thenP (consumeTokenKind (KEYWORD ''func''))
      (bindP parseIdentifier (\<lambda>name.
       thenP (if name = None then thenP (errorP ''expecting function name after def.'') (skipUntil (punct ''l_paren'')) else retP ())
        (bindP (consumeIf (punct ''l_paren'')) (\<lambda>ok.
         thenP (if ok then retP () else errorP ''expecting argument list after function name.'')
          (bindP (parseNamedType n no_type) (\<lambda>(failed, T, typeName).
           if failed then retP None
           else
             thenP (register_arg typeName T)
              (thenP (parse_params n T)
                (bindP (consumeIf (punct ''r_paren'')) (\<lambda>ok.
                 thenP (if ok then retP ()
                        else thenP (errorP ''expecting the end of the argument list.'') (skipUntil (punct ''l_brace'')))
                  (bindP (parseScope H n) (\<lambda>body.
                   bindP (getP (\<lambda>s. \<lparr>pr_name = (case name of Some x \<Rightarrow> x | None \<Rightarrow> ''prog''), pr_args = cx_argMap s,
                       pr_vars = cx_varMap s, pr_body = body\<rparr>)) (\<lambda>p.
                   retP (Some p)))))))))))))"

section \<open>Scripts\<close>

definition script_kinds :: "(TokenKind \<times> PragmaKind) list" where
  "script_kinds =
     [(KEYWORD ''vectorize'', vectorize_pragma), (KEYWORD ''widen'', widen_pragma), (KEYWORD ''tile'', tile_pragma),
      (KEYWORD ''peel'', peel_pragma), (KEYWORD ''unroll'', unroll_pragma), (KEYWORD ''hoist'', hoist_pragma),
      (KEYWORD ''sink'', sink_pragma), (KEYWORD ''fuse'', fuse_pragma), (KEYWORD ''distribute'', distribute_pragma)]"

definition add_pragma :: "PragmaKind \<Rightarrow> nat \<Rightarrow> string \<Rightarrow> string \<Rightarrow> int \<Rightarrow> unit parse" where
  "add_pragma pk loc loopName newName arg0 =
     putP (\<lambda>s. s\<lparr>cx_pragmas := cx_pragmas s @
       [\<lparr>pc_kind = pk, pc_loopName = loopName, pc_newName = newName, pc_param = arg0, pc_loc = loc\<rparr>]\<rparr>)"

definition script_error :: "string \<Rightarrow> unit parse" where
  "script_error msg = thenP (errorP msg) (skipUntil (punct ''r_brace''))"

text \<open>The parameters of a command, after its name.\<close>

definition parse_command :: "PragmaKind \<Rightarrow> nat \<Rightarrow> unit parse" where
  "parse_command pk loc =
     bindP parseStringLiteral (\<lambda>loopName.
     case loopName of
       None \<Rightarrow> script_error ''expecting loop name after command.''
     | Some loopName \<Rightarrow>
         if pk = distribute_pragma then add_pragma pk loc loopName [] 0
         else
           thenP (consumeIf (KEYWORD ''to''))
            (bindP parseIntegerLiteral (\<lambda>arg0.
             case arg0 of
               None \<Rightarrow> script_error ''expecting integer literal''
             | Some arg0 \<Rightarrow>
                 thenP (consumeIf (KEYWORD ''times''))
                  (bindP (consumeIf (KEYWORD ''as'')) (\<lambda>renamed.
                   if \<not> renamed then add_pragma pk loc loopName [] arg0
                   else
                     bindP parseStringLiteral (\<lambda>newName.
                     case newName of
                       None \<Rightarrow> script_error ''expecting string literal''
                     | Some newName \<Rightarrow> add_pragma pk loc loopName newName arg0))))))"

primrec parse_commands :: "nat \<Rightarrow> unit parse" where
  "parse_commands 0 = (\<lambda>s. None)"
| "parse_commands (Suc n) =
     bindP tokP (\<lambda>t.
     if tk_kind t = punct ''r_brace'' then consumeTokenKind (punct ''r_brace'')
     else
       (case map_of script_kinds (tk_kind t) of
          None \<Rightarrow> script_error (''unknown command name.'' @ [newline])
        | Some pk \<Rightarrow> thenP consumeToken (thenP (parse_command pk (tk_loc t)) (parse_commands n))))"

definition parseScriptDecl :: "nat \<Rightarrow> unit parse" where
  "parseScriptDecl n =
     thenP (consumeTokenKind (KEYWORD ''script''))
      (bindP (consumeIf (KEYWORD ''for'')) (\<lambda>ok.
       if \<not> ok then thenP (errorP (''expecting '' @ squoted ''for'' @ '' keyword.'')) (skipUntil tok_eof)
       else
         bindP parseStringLiteral (\<lambda>progName.
         thenP (if progName = None
                then thenP (errorP ''expecting target name after script definition.'') (skipUntil (punct ''l_brace''))
                else retP ())
          (bindP (consumeIf (punct ''l_brace'')) (\<lambda>ok.
           thenP (if ok then retP () else errorP ''expecting left brace for scope body.'')
            (parse_commands n))))))"

section \<open>Programs\<close>

definition parse :: "host \<Rightarrow> nat \<Rightarrow> unit parse" where
  "parse H n =
     thenP consumeToken
      (bindP (parse_lets H n n) (\<lambda>failed.
       if failed then retP ()
       else
         bindP (isP (KEYWORD ''func'')) (\<lambda>func.
         if \<not> func then errorP ''expecting function decleration.''
         else
           bindP (parseFunctionDecl H n) (\<lambda>p.
           thenP (if p \<noteq> None then putP (\<lambda>s. s\<lparr>cx_prog := p\<rparr>) else retP ())
            (bindP (isP (KEYWORD ''script'')) (\<lambda>script.
             thenP (if script then parseScriptDecl n else retP ())
              (bindP (isP tok_eof) (\<lambda>at_end.
               if at_end then retP () else errorP ''expecting eof of file after function.''))))))))"

definition new_context :: "heap \<Rightarrow> string \<Rightarrow> string \<Rightarrow> context_state" where
  "new_context h buffer filename =
     \<lparr>cx_filename = filename, cx_buffer = buffer, cx_prog = None, cx_numErrors = 0, cx_numWarnings = 0, cx_numNotes = 0,
      cx_pragmas = [], cx_argMap = [], cx_varMap = [], cx_loopStack = [], cx_letStack = [], cx_varStack = [],
      cx_out = [], cx_heap = h\<rparr>"

text \<open>The parser starts at the beginning of the buffer with an empty token.\<close>

definition new_parser :: "context_state \<Rightarrow> parser" where
  "new_parser c = context_state.extend c (parser.fields (cx_buffer c) \<lparr>tk_kind = OTHER ''comment'', tk_text = [], tk_loc = 0\<rparr>)"

definition register_lets :: "string list \<Rightarrow> int list \<Rightarrow> context_state \<Rightarrow> context_state" where
  "register_lets letNames letValues c =
     c\<lparr>cx_letStack := cx_letStack c @ zip letNames (map (\<lambda>v. ConstantExpr (i64_of_int v)) letValues)\<rparr>"

definition parseProgram :: "host \<Rightarrow> context_state \<Rightarrow> string list \<Rightarrow> int list \<Rightarrow> (program option \<times> parser) res option" where
  "parseProgram H c letNames letValues =
     (if length letNames \<noteq> length letValues then Some (Inl (AssertFail ''Invalid let initialization''))
      else
        bindP (parse H (length (cx_buffer c) + 1)) (\<lambda>_. getP cx_prog) (new_parser (register_lets letNames letValues c)))"

end
