(* ===== verification/ParserRules.thy ===== *)
theory ParserRules
  imports ParserProgram SimplifyFacts Rewriting
begin

text \<open>
  Rules for the total correctness of parser methods. \<open>ends m s Q\<close>: from the state \<open>s\<close> the method \<open>m\<close>
  does not run out of fuel, and unless it stops with an assertion or undefined behaviour, its result
  and its final state satisfy \<open>Q\<close>. The rules follow the structure of a method; they are collected in
  \<open>ends_rules\<close>.
\<close>

definition ends :: "'a parse \<Rightarrow> parser \<Rightarrow> ('a \<Rightarrow> parser \<Rightarrow> bool) \<Rightarrow> bool" where
  "ends m s Q = (case m s of None \<Rightarrow> False | Some (Inl e) \<Rightarrow> True | Some (Inr (x, s')) \<Rightarrow> Q x s')"

named_theorems ends_rules

section \<open>The monad\<close>

lemma ends_mono: "ends m s P \<Longrightarrow> (\<And>x s'. P x s' \<Longrightarrow> Q x s') \<Longrightarrow> ends m s Q"
  by (auto simp: ends_def split: option.splits sum.splits prod.splits)

lemma ends_bind [ends_rules]: "ends m s (\<lambda>x s'. ends (f x) s' Q) \<Longrightarrow> ends (bindP m f) s Q"
  by (auto simp: ends_def bindP_def split: option.splits sum.splits prod.splits)

lemma ends_then [ends_rules]: "ends m s (\<lambda>_ s'. ends k s' Q) \<Longrightarrow> ends (thenP m k) s Q"
  unfolding thenP_def by (rule ends_bind)

lemma ends_ret [ends_rules]: "Q x s \<Longrightarrow> ends (retP x) s Q"
  by (simp add: ends_def retP_def)

lemma ends_fail [ends_rules]: "ends (failP e) s Q"
  by (simp add: ends_def failP_def)

lemma ends_lift [ends_rules]: "(\<And>x. r = Inr x \<Longrightarrow> Q x s) \<Longrightarrow> ends (liftP r) s Q"
  by (cases r) (simp_all add: ends_def liftP_def)

lemma ends_get [ends_rules]: "Q (f s) s \<Longrightarrow> ends (getP f) s Q"
  by (simp add: ends_def getP_def)

lemma ends_put [ends_rules]: "Q () (f s) \<Longrightarrow> ends (putP f) s Q"
  by (simp add: ends_def putP_def)

lemma ends_tok [ends_rules]: "Q (ps_tok s) s \<Longrightarrow> ends tokP s Q"
  unfolding tokP_def by (rule ends_get)

lemma ends_is [ends_rules]: "Q (tk_kind (ps_tok s) = K) s \<Longrightarrow> ends (isP K) s Q"
  unfolding isP_def by (rule ends_get)

lemma ends_heap [ends_rules]: "Q (cx_heap s) s \<Longrightarrow> ends heapP s Q"
  unfolding heapP_def by (rule ends_get)

lemma ends_if [ends_rules]:
  "(b \<Longrightarrow> ends m s Q) \<Longrightarrow> (\<not> b \<Longrightarrow> ends k s Q) \<Longrightarrow> ends (if b then m else k) s Q"
  by simp

lemma ends_option [ends_rules]:
  "(x = None \<Longrightarrow> ends m s Q) \<Longrightarrow> (\<And>y. x = Some y \<Longrightarrow> ends (f y) s Q) \<Longrightarrow>
     ends (case x of None \<Rightarrow> m | Some y \<Rightarrow> f y) s Q"
  by (cases x) simp_all

lemma ends_prod [ends_rules]: "(\<And>a b. x = (a, b) \<Longrightarrow> ends (f a b) s Q) \<Longrightarrow> ends (case x of (a, b) \<Rightarrow> f a b) s Q"
  by (cases x) simp

lemma ends_let [ends_rules]: "ends (f x) s Q \<Longrightarrow> ends (let y = x in f y) s Q"
  by simp

section \<open>Tokens and messages\<close>

text \<open>What tokens and messages leave alone: everything but the position and the diagnostics. The
  pragmas are left out as well.\<close>

definition named :: "parser \<Rightarrow> context_state" where
  "named s =
     (context_state.truncate s)\<lparr>cx_numErrors := 0, cx_numWarnings := 0, cx_numNotes := 0, cx_pragmas := [], cx_out := []\<rparr>"

text \<open>Fields of a parser as fields of its named values, so that equations between these apply.\<close>

lemma named_folds:
  fixes s :: parser
  shows "cx_heap s = cx_heap (named s)" "cx_argMap s = cx_argMap (named s)" "cx_varMap s = cx_varMap (named s)"
    "cx_loopStack s = cx_loopStack (named s)" "cx_letStack s = cx_letStack (named s)"
    "cx_varStack s = cx_varStack (named s)" "cx_prog s = cx_prog (named s)" "cx_buffer s = cx_buffer (named s)"
  by (simp_all add: named_def context_state.truncate_def)

lemma named_updates [simp]:
  fixes s :: parser
  shows "named (s\<lparr>cx_heap := h\<rparr>) = (named s)\<lparr>cx_heap := h\<rparr>"
    "named (s\<lparr>cx_argMap := as\<rparr>) = (named s)\<lparr>cx_argMap := as\<rparr>"
    "named (s\<lparr>cx_varMap := vs\<rparr>) = (named s)\<lparr>cx_varMap := vs\<rparr>"
    "named (s\<lparr>cx_loopStack := ls\<rparr>) = (named s)\<lparr>cx_loopStack := ls\<rparr>"
    "named (s\<lparr>cx_letStack := lets\<rparr>) = (named s)\<lparr>cx_letStack := lets\<rparr>"
    "named (s\<lparr>cx_varStack := vars\<rparr>) = (named s)\<lparr>cx_varStack := vars\<rparr>"
    "named (s\<lparr>cx_prog := p\<rparr>) = (named s)\<lparr>cx_prog := p\<rparr>"
    "named (s\<lparr>cx_pragmas := ps\<rparr>) = named s"
    "named (s\<lparr>cx_out := x\<rparr>) = named s" "named (s\<lparr>cx_numErrors := n\<rparr>) = named s"
    "named (s\<lparr>cx_numWarnings := n\<rparr>) = named s" "named (s\<lparr>cx_numNotes := n\<rparr>) = named s"
    "named (s\<lparr>ps_rest := r\<rparr>) = named s" "named (s\<lparr>ps_tok := t\<rparr>) = named s"
  by (simp_all add: named_def context_state.truncate_def)

lemma ps_left_updates [simp]:
  fixes s :: parser
  shows "ps_left (s\<lparr>cx_heap := h\<rparr>) = ps_left s" "ps_left (s\<lparr>cx_argMap := as\<rparr>) = ps_left s"
    "ps_left (s\<lparr>cx_varMap := vs\<rparr>) = ps_left s" "ps_left (s\<lparr>cx_loopStack := ls\<rparr>) = ps_left s"
    "ps_left (s\<lparr>cx_letStack := lets\<rparr>) = ps_left s" "ps_left (s\<lparr>cx_varStack := vars\<rparr>) = ps_left s"
    "ps_left (s\<lparr>cx_prog := p\<rparr>) = ps_left s" "ps_left (s\<lparr>cx_pragmas := ps\<rparr>) = ps_left s"
  by (simp_all add: ps_left_def)

definition moved :: "parser \<Rightarrow> parser \<Rightarrow> bool" where
  "moved s s' \<longleftrightarrow> named s' = named s \<and> ps_left s' \<le> ps_left s"

definition used :: "parser \<Rightarrow> parser \<Rightarrow> bool" where
  "used s s' \<longleftrightarrow> named s' = named s \<and> ps_left s' < ps_left s"

lemma moved_refl [simp]: "moved s s"
  by (simp add: moved_def)

lemma used_moved: "used s s' \<Longrightarrow> moved s s'"
  by (simp add: used_def moved_def)

lemma diagnose_keeps: "diagnose k loc msg s = Inr s' \<Longrightarrow> named s' = named s \<and> ps_tok s' = ps_tok s \<and> ps_rest s' = ps_rest s"
  by (cases k) (auto simp: diagnose_def getLineCol_def count_message_def Let_def split: prod.splits)

lemma Lex_keeps: "Lex s = Inr s' \<Longrightarrow> named s' = named s"
proof -
  assume "Lex s = Inr s'"
  then obtain t rest s1 where s': "s' = s1\<lparr>ps_tok := t\<rparr>"
    and s1: "(if tk_kind t = unknown then diagnose Error (length rest) ''Invalid character.'' (s\<lparr>ps_rest := rest\<rparr>)
               else Inr (s\<lparr>ps_rest := rest\<rparr>)) = Inr s1"
    unfolding Lex_def by (auto simp del: if_split_asm)
  have "named s1 = named (s\<lparr>ps_rest := rest\<rparr>)" using s1 diagnose_keeps by (auto split: if_splits)
  then show ?thesis by (simp add: s')
qed

lemma ends_error_at [ends_rules]: "(\<And>s'. moved s s' \<Longrightarrow> Q () s') \<Longrightarrow> ends (error_at loc msg) s Q"
  by (cases "diagnose Error loc msg s") (auto simp: ends_def error_at_def moved_def ps_left_def dest!: diagnose_keeps)

lemma ends_error [ends_rules]: "(\<And>s'. moved s s' \<Longrightarrow> Q () s') \<Longrightarrow> ends (errorP msg) s Q"
  unfolding errorP_def by (intro ends_rules)

lemma ends_give_up [ends_rules]: "(\<And>s'. moved s s' \<Longrightarrow> Q None s') \<Longrightarrow> ends (give_up msg) s Q"
  unfolding give_up_def by (intro ends_rules)

lemma ends_consume [ends_rules]: "(\<And>s'. used s s' \<Longrightarrow> Q () s') \<Longrightarrow> ends consumeToken s Q"
  by (cases "Lex s") (auto simp: ends_def consumeToken_def bind_require used_def dest: Lex_keeps Lex_left)

lemma ends_consume_kind [ends_rules]: "(\<And>s'. used s s' \<Longrightarrow> Q () s') \<Longrightarrow> ends (consumeTokenKind K) s Q"
  unfolding consumeTokenKind_def by (intro ends_rules)

lemma ends_consumeIf [ends_rules]:
  "(\<And>s'. used s s' \<Longrightarrow> Q True s') \<Longrightarrow> (tk_kind (ps_tok s) \<noteq> K \<Longrightarrow> Q False s) \<Longrightarrow> ends (consumeIf K) s Q"
  unfolding consumeIf_def by (intro ends_rules)

lemma moved_trans: "moved s s1 \<Longrightarrow> moved s1 s2 \<Longrightarrow> moved s s2"
  by (auto simp: moved_def)

lemma used_then_moved: "used s s1 \<Longrightarrow> moved s1 s2 \<Longrightarrow> used s s2"
  by (auto simp: moved_def used_def)

lemma moved_then_used: "moved s s1 \<Longrightarrow> used s1 s2 \<Longrightarrow> used s s2"
  by (auto simp: moved_def used_def)

lemma ends_skipUntil [ends_rules]: "(\<And>s'. moved s s' \<Longrightarrow> Q () s') \<Longrightarrow> ends (skipUntil T) s Q"
proof (induction T s rule: skipUntil.induct)
  case (1 T s)
  show ?case
  proof (cases "T = unknown \<or> tk_kind (ps_tok s) = tok_eof \<or> tk_kind (ps_tok s) = T")
    case True
    then show ?thesis using 1(2) [of s] by (simp add: ends_def skipUntil.simps [of T s])
  next
    case False
    show ?thesis
    proof (cases "Lex s")
      case (Inl e)
      then show ?thesis using False by (simp add: ends_def skipUntil.simps [of T s])
    next
      case (Inr s1)
      then have u: "used s s1" using False Lex_keeps Lex_left by (simp add: used_def)
      have "ends (skipUntil T) s1 Q" using 1(1) [OF False Inr] 1(2) u moved_trans used_moved by blast
      then show ?thesis using False Inr by (simp add: ends_def skipUntil.simps [of T s])
    qed
  qed
qed

lemma ends_skipUntilOneOf [ends_rules]: "(\<And>s'. moved s s' \<Longrightarrow> Q () s') \<Longrightarrow> ends (skipUntilOneOf A B) s Q"
proof (induction A B s rule: skipUntilOneOf.induct)
  case (1 A B s)
  show ?case
  proof (cases "tk_kind (ps_tok s) = tok_eof \<or> tk_kind (ps_tok s) = A \<or> tk_kind (ps_tok s) = B")
    case True
    then show ?thesis using 1(2) [of s] by (simp add: ends_def skipUntilOneOf.simps [of A B s])
  next
    case False
    show ?thesis
    proof (cases "Lex s")
      case (Inl e)
      then show ?thesis using False by (simp add: ends_def skipUntilOneOf.simps [of A B s])
    next
      case (Inr s1)
      then have u: "used s s1" using False Lex_keeps Lex_left by (simp add: used_def)
      have "ends (skipUntilOneOf A B) s1 Q" using 1(1) [OF False Inr] 1(2) u moved_trans used_moved by blast
      then show ?thesis using False Inr by (simp add: ends_def skipUntilOneOf.simps [of A B s])
    qed
  qed
qed

section \<open>Literals and names\<close>

text \<open>Success eats a token; failure means that the token is of another kind, or adds a message.\<close>

definition literal_post :: "TokenKind \<Rightarrow> parser \<Rightarrow> 'a option \<Rightarrow> parser \<Rightarrow> bool" where
  "literal_post K s r s' \<longleftrightarrow>
     moved s s' \<and> (r \<noteq> None \<longrightarrow> used s s') \<and> (r = None \<longrightarrow> tk_kind (ps_tok s) \<noteq> K)"

lemma ends_literal [ends_rules]:
  assumes "\<And>r s'. literal_post tok_integer s r s' \<Longrightarrow> Q r s'"
  shows "ends parseIntegerLiteral s Q"
  unfolding parseIntegerLiteral_def
  by (intro ends_rules assms) (auto simp: literal_post_def used_moved)

lemma ends_string [ends_rules]:
  assumes "\<And>r s'. literal_post tok_string s r s' \<Longrightarrow> Q r s'"
  shows "ends parseStringLiteral s Q"
  unfolding parseStringLiteral_def
  by (intro ends_rules assms) (auto simp: literal_post_def used_moved)

lemma ends_float [ends_rules]:
  assumes "\<And>r s'. literal_post tok_float s r s' \<Longrightarrow> Q r s'"
  shows "ends parseFloatLiteral s Q"
  unfolding parseFloatLiteral_def
  by (intro ends_rules assms) (auto simp: literal_post_def used_moved)

lemma ends_identifier [ends_rules]:
  assumes "\<And>r s'. literal_post tok_identifier s r s' \<Longrightarrow> Q r s'"
  shows "ends parseIdentifier s Q"
  unfolding parseIdentifier_def
  by (intro ends_rules assms) (auto simp: literal_post_def used_moved)

end
