(* ===== verification/ParserExprs.thy ===== *)
theory ParserExprs
  imports ParserRules
begin

text \<open>
  What the methods for expressions do with the state, and what they return: they leave all named
  values alone, and an expression only mentions loops of the loop stack and allocated objects. Their
  fuel suffices when it exceeds what is left of the buffer.
\<close>

section \<open>The invariant of the named values\<close>

definition expr_in :: "context_state \<Rightarrow> expr \<Rightarrow> bool" where
  "expr_in c e \<longleftrightarrow>
     loops_of_expr e \<subseteq> set (cx_loopStack c) \<and> below_expr (hp_next (cx_heap c)) e \<and> index_kinds_ok e"

definition names_ok :: "context_state \<Rightarrow> bool" where
  "names_ok c \<longleftrightarrow>
     (\<forall>x \<in> set (cx_loopStack c) \<union> set (cx_argMap c) \<union> set (cx_varMap c) \<union> snd ` set (cx_varStack c).
        x < hp_next (cx_heap c))
     \<and> distinct (cx_loopStack c) \<and> (\<forall>e \<in> snd ` set (cx_letStack c). expr_in c e)"

lemma expr_in_simps [simp]:
  "expr_in c (ConstantExpr v)" "expr_in c (ConstantFPExpr f)" "expr_in c (ConstantStringExpr x)"
  "expr_in c (BinaryExpr k l r) \<longleftrightarrow> expr_in c l \<and> expr_in c r"
  "expr_in c (UnaryExpr u e) \<longleftrightarrow> expr_in c e"
  "expr_in c (BroadcastExpr e vf) \<longleftrightarrow> expr_in c e"
  "expr_in c (LoadExpr ty g) \<longleftrightarrow> expr_in c g"
  "expr_in c (GEPExpr a is) \<longleftrightarrow> a < hp_next (cx_heap c) \<and> list_all (expr_in c) is"
  by (auto simp: expr_in_def list_all_iff)

lemma find_in: "find P xs = Some x \<Longrightarrow> x \<in> set xs"
  by (auto simp: find_Some_iff)

lemma found_loop_in:
  "loopStack_getByName h (cx_loopStack c) n = Some L \<Longrightarrow> names_ok c \<Longrightarrow> expr_in c (new_IndexExpr L)"
  unfolding loopStack_getByName_def
  by (drule find_in) (auto simp: expr_in_def names_ok_def new_IndexExpr_def scalarTy_def)

lemma found_var_in:
  "varMap_getByName h (cx_varMap c) n = Some v \<Longrightarrow> names_ok c \<Longrightarrow> expr_in c (new_LoadLocalExpr h v)"
  unfolding varMap_getByName_def by (drule find_in) (simp add: new_LoadLocalExpr_def expr_in_def names_ok_def)

lemma found_arg_below:
  "argMap_getByName h (cx_argMap c) n = Some a \<Longrightarrow> names_ok c \<Longrightarrow> a < hp_next (cx_heap c)"
  unfolding argMap_getByName_def by (drule find_in) (simp add: names_ok_def)

lemma found_let_in: "stack_getByName (cx_letStack c) n = Some e \<Longrightarrow> names_ok c \<Longrightarrow> expr_in c e"
  unfolding stack_getByName_def names_ok_def by (drule map_of_SomeD) force

lemma clone_in: "clone_expr (cx_heap c) [] empty_ctx e = Inr e' \<Longrightarrow> expr_in c e \<Longrightarrow> expr_in c e'"
proof -
  assume e': "clone_expr (cx_heap c) [] empty_ctx e = Inr e'" and i: "expr_in c e"
  have "loops_of_expr e' = loops_of_expr e"
    using clone_expr_free [OF e'] by (simp add: empty_ctx_def get_loop_def)
  moreover have "below_expr (hp_next (cx_heap c)) e'"
    using clone_expr_below [OF ctx_ok_empty _ e'] i by (simp add: expr_in_def)
  moreover have "index_kinds_ok e'" using clone_expr_hash [OF ctx_ok_empty _ e'] i by (simp add: expr_in_def)
  ultimately show ?thesis using i by (simp add: expr_in_def)
qed

lemma new_GEP_in:
  "new_GEPExpr h a es = Inr g \<Longrightarrow> a < hp_next (cx_heap c) \<Longrightarrow> list_all (expr_in c) es \<Longrightarrow> expr_in c g"
  by (auto simp: new_GEPExpr_def bind_require split: if_splits)

lemma new_Load_in:
  "new_LoadExpr_arg h a es ty = Inr g \<Longrightarrow> a < hp_next (cx_heap c) \<Longrightarrow> list_all (expr_in c) es \<Longrightarrow> expr_in c g"
  by (auto simp: new_LoadExpr_arg_def dest: new_GEP_in)

lemma new_Binary_in: "new_BinaryExpr l r k = Inr e \<Longrightarrow> expr_in c l \<Longrightarrow> expr_in c r \<Longrightarrow> expr_in c e"
  by (auto simp: new_BinaryExpr_def bind_require split: if_splits)

lemma adjust_in: "tryToAdjustTypes l r = Inr (l', r') \<Longrightarrow> expr_in c l \<Longrightarrow> expr_in c r \<Longrightarrow> expr_in c l' \<and> expr_in c r'"
  by (auto simp: tryToAdjustTypes_def Let_def new_BroadcastExpr_def split: if_splits)

lemma simplified_in: "simplifyExpr H e = Inr (e', ch) \<Longrightarrow> expr_in c e \<Longrightarrow> expr_in c e'"
  using simplifyExpr_fits [of H e e' ch] by (auto simp: fits_expr_def expr_in_def below_expr_def)

section \<open>Expressions\<close>

definition expr_post :: "parser \<Rightarrow> expr option \<Rightarrow> parser \<Rightarrow> bool" where
  "expr_post s r s' \<longleftrightarrow> moved s s' \<and> (\<forall>e. r = Some e \<longrightarrow> used s s' \<and> expr_in (named s) e)"

definition list_post :: "parser \<Rightarrow> expr list option \<Rightarrow> parser \<Rightarrow> bool" where
  "list_post s r s' \<longleftrightarrow> moved s s' \<and> (\<forall>es. r = Some es \<longrightarrow> list_all (expr_in (named s)) es)"

text \<open>Enough fuel for the buffers with fewer than \<open>n\<close> characters left.\<close>

definition expr_spec :: "expr_parser \<Rightarrow> nat \<Rightarrow> bool" where
  "expr_spec pe n \<longleftrightarrow>
     (\<forall>RBP s. names_ok (named s) \<longrightarrow> ps_left s < n \<longrightarrow> ends (pe RBP) s (expr_post s))"

lemma ends_pe:
  assumes "expr_spec pe n" "names_ok (named s)" "ps_left s < n" "\<And>r s'. expr_post s r s' \<Longrightarrow> Q r s'"
  shows "ends (pe RBP) s Q"
  using assms(1-3) unfolding expr_spec_def by (auto intro: ends_mono assms(4))

text \<open>What the goals left by the rules need.\<close>

lemmas post_defs = expr_post_def list_post_def literal_post_def moved_def used_def

lemma ends_combine:
  assumes "expr_in (named s) r" "LHS \<noteq> None \<Longrightarrow> expr_in (named s) (the LHS)"
    and "\<And>e s'. moved s s' \<Longrightarrow> e \<noteq> None \<longrightarrow> LHS \<noteq> None \<and> expr_in (named s) (the e) \<Longrightarrow> Q e s'"
  shows "ends (combine op LHS r) s Q"
  unfolding combine_def
  by (intro ends_rules assms(3)) (use assms(1,2) in \<open>auto dest!: adjust_in new_Binary_in\<close>)

lemma parseExprRest_ends:
  assumes "expr_spec pe n"
  shows "k \<le> Suc n \<Longrightarrow> names_ok (named s) \<Longrightarrow> ps_left s < k \<Longrightarrow> (LHS \<noteq> None \<Longrightarrow> expr_in (named s) (the LHS)) \<Longrightarrow>
    ends (parseExprRest pe k RBP LHS) s (\<lambda>r s'. moved s s' \<and> (r \<noteq> None \<longrightarrow> LHS \<noteq> None \<and> expr_in (named s) (the r)))"
proof (induction k arbitrary: s LHS)
  case 0
  then show ?case by simp
next
  case (Suc k)
  show ?case
    unfolding parseExprRest.simps
    by (intro ends_rules ends_pe [OF assms] ends_combine ends_mono [OF Suc.IH])
      (use Suc.prems in \<open>auto simp: post_defs\<close>)
qed

lemma parseMoreArgs_ends:
  assumes "expr_spec pe n"
  shows "k \<le> n \<Longrightarrow> names_ok (named s) \<Longrightarrow> ps_left s < k \<Longrightarrow> list_all (expr_in (named s)) args \<Longrightarrow>
    ends (parseMoreArgs pe k args) s (list_post s)"
proof (induction k arbitrary: s args)
  case 0
  then show ?case by simp
next
  case (Suc k)
  show ?case
    unfolding parseMoreArgs.simps
    by (intro ends_rules ends_pe [OF assms] ends_mono [OF Suc.IH]) (use Suc.prems in \<open>auto simp: post_defs\<close>)
qed

lemma ends_call_args:
  assumes "list_all (expr_in (named s)) args"
    and "\<And>r s'. list_post s r s' \<Longrightarrow> \<forall>es. r = Some es \<longrightarrow> k \<noteq> 0 \<longrightarrow> length es = k \<Longrightarrow> Q r s'"
  shows "ends (check_call_args loc sameTy k args) s Q"
  unfolding check_call_args_def
  by (intro ends_rules assms(2)) (use assms(1) in \<open>auto simp: post_defs\<close>)

lemma parseCallArgumentList_ends:
  assumes "expr_spec pe n" "names_ok (named s)" "ps_left s \<le> n"
    and "\<And>r s'. list_post s r s' \<Longrightarrow> \<forall>es. r = Some es \<longrightarrow> k \<noteq> 0 \<longrightarrow> length es = k \<Longrightarrow> Q r s'"
  shows "ends (parseCallArgumentList pe n sameTy k) s Q"
  unfolding parseCallArgumentList_def
  by (intro ends_rules ends_pe [OF assms(1)] ends_mono [OF parseMoreArgs_ends [OF assms(1) order_refl]]
      ends_call_args assms(4)) (use assms(2,3) in \<open>auto simp: post_defs\<close>)

lemma parseSubscripts_ends:
  assumes "expr_spec pe n"
  shows "k \<le> n \<Longrightarrow> names_ok (named s) \<Longrightarrow> ps_left s < k \<Longrightarrow> list_all (expr_in (named s)) es \<Longrightarrow>
    ends (parseSubscripts pe k R es) s (list_post s)"
proof (induction k arbitrary: s es)
  case 0
  then show ?case by simp
next
  case (Suc k)
  show ?case
    unfolding parseSubscripts.simps
    by (intro ends_rules ends_pe [OF assms] ends_mono [OF Suc.IH]) (use Suc.prems in \<open>auto simp: post_defs\<close>)
qed

lemma parseSubscriptList_ends:
  assumes "expr_spec pe n" "names_ok (named s)" "ps_left s \<le> n" "\<And>r s'. list_post s r s' \<Longrightarrow> Q r s'"
  shows "ends (parseSubscriptList pe n L R) s Q"
  unfolding parseSubscriptList_def
  by (intro ends_rules ends_mono [OF parseSubscripts_ends [OF assms(1) order_refl]] assms(4))
    (use assms(2,3) in \<open>auto simp: post_defs\<close>)

lemma ends_token_case:
  "(\<And>f. k = BUILTIN_FUNC f \<Longrightarrow> ends (g f) s Q) \<Longrightarrow> ends h s Q \<Longrightarrow>
     ends (case k of BUILTIN_FUNC f \<Rightarrow> g f | _ \<Rightarrow> h) s Q"
  by (cases k) simp_all

lemma list_all_at: "list_all P xs \<Longrightarrow> i < length xs \<Longrightarrow> P (xs ! i)"
  by (simp add: list_all_length)

lemma new_Binary_args_in:
  "new_BinaryExpr (args ! 0) (args ! 1) k = Inr e \<Longrightarrow> list_all (expr_in c) args \<Longrightarrow> length args = 2 \<Longrightarrow> expr_in c e"
  by (erule new_Binary_in) (auto intro: list_all_at)

lemma parseBuiltinFunction_ends:
  assumes "expr_spec pe n" "names_ok (named s)" "ps_left s \<le> n" "\<And>r s'. expr_post s r s' \<Longrightarrow> Q r s'"
  shows "ends (parseBuiltinFunction pe n) s Q"
  unfolding parseBuiltinFunction_def
  by (intro ends_rules ends_token_case parseCallArgumentList_ends [OF assms(1)] assms(4))
    (use assms(2,3) in \<open>auto simp: post_defs intro: list_all_at new_Binary_args_in [simplified]\<close>)

lemma parse_let_value_ends:
  assumes "names_ok (named s)" "\<And>r s'. moved s s' \<Longrightarrow> \<forall>e. r = Some e \<longrightarrow> expr_in (named s) e \<Longrightarrow> Q r s'"
  shows "ends (parse_let_value n) s Q"
  unfolding parse_let_value_def lookup_let_def
  by (intro ends_rules assms(2)) (use assms(1) in \<open>auto simp: named_folds dest: found_let_in clone_in\<close>)

lemma ends_constant_case [ends_rules]:
  "(\<And>v. e = ConstantExpr v \<Longrightarrow> ends (g v) s Q) \<Longrightarrow> ends h s Q \<Longrightarrow>
     ends (case e of ConstantExpr v \<Rightarrow> g v | _ \<Rightarrow> h) s Q"
  by (cases e) simp_all

lemma ends_number [ends_rules]:
  assumes "\<And>r s'. moved s s' \<Longrightarrow> r \<noteq> None \<longrightarrow> used s s' \<Longrightarrow> Q r s'"
  shows "ends parseIntegerLiteralOrLetConstant s Q"
  unfolding parseIntegerLiteralOrLetConstant_def lookup_let_def
  by (intro ends_rules assms) (auto simp: post_defs)

lemma parse_load_ends:
  assumes "a < hp_next (cx_heap (named s))" "list_all (expr_in (named s)) es"
    and "\<And>r s'. moved s s' \<Longrightarrow> \<forall>e. r = Some e \<longrightarrow> expr_in (named s) e \<Longrightarrow> Q r s'"
  shows "ends (parse_load a es loc) s Q"
  unfolding parse_load_def
  by (intro ends_rules assms(3)) (use assms(1,2) in \<open>auto simp: post_defs intro: new_Load_in\<close>)

lemma parse_name_ends:
  assumes "expr_spec pe n" "names_ok (named s)" "ps_left s \<le> n" "tk_kind (ps_tok s) = tok_identifier"
    and "\<And>r s'. expr_post s r s' \<Longrightarrow> Q r s'"
  shows "ends (parse_name pe n) s Q"
  unfolding parse_name_def lookup_arg_def
  by (intro ends_rules parseSubscriptList_ends [OF assms(1)] parse_load_ends parse_let_value_ends assms(5))
    (use assms(2-4) in \<open>auto simp: post_defs named_folds intro: found_loop_in found_var_in found_arg_below\<close>)

lemma parseExprPrimary_ends:
  assumes "expr_spec pe n" "names_ok (named s)" "ps_left s \<le> n" "\<And>r s'. expr_post s r s' \<Longrightarrow> Q r s'"
  shows "ends (parseExprPrimary pe n) s Q"
  unfolding parseExprPrimary_def
  by (intro ends_rules ends_token_case ends_pe [OF assms(1)] parse_name_ends [OF assms(1)] parseBuiltinFunction_ends [OF assms(1)] assms(4))
    (use assms(2,3) in \<open>auto simp: post_defs\<close>)

lemma parseExpr_spec: "expr_spec (parseExpr n) n"
proof (induction n)
  case 0
  then show ?case by (simp add: expr_spec_def)
next
  case (Suc n)
  have "ends (parseExpr (Suc n) RBP) s (expr_post s)" if ok: "names_ok (named s)" and left: "ps_left s < Suc n" for RBP s
    unfolding parseExpr.simps
    by (intro ends_rules parseExprPrimary_ends [OF Suc.IH] ends_mono [OF parseExprRest_ends [OF Suc.IH order_refl]])
      (use ok left in \<open>auto simp: post_defs\<close>)
  then show ?case by (simp add: expr_spec_def)
qed

lemmas ends_parseExpr = ends_pe [OF parseExpr_spec]

end
