(* ===== verification/ParserBodies.thy ===== *)
theory ParserBodies
  imports ParserExprs
begin

text \<open>
  What the methods for statements do with the state, and what they return. Scopes only add to the
  objects and names; the loops of the statements they return are new and distinct, and their free
  loops are on the loop stack.
\<close>

section \<open>Growing contexts\<close>

definition grown :: "context_state \<Rightarrow> context_state \<Rightarrow> bool" where
  "grown c c' \<longleftrightarrow>
     names_ok c' \<and> hp_next (cx_heap c) \<le> hp_next (cx_heap c') \<and> cx_loopStack c' = cx_loopStack c
     \<and> cx_argMap c' = cx_argMap c \<and> cx_prog c' = cx_prog c \<and> (\<exists>lets. cx_letStack c' = cx_letStack c @ lets)"

definition stmts_in :: "context_state \<Rightarrow> context_state \<Rightarrow> stmt list \<Rightarrow> bool" where
  "stmts_in c c' ss \<longleftrightarrow>
     list_all (below (hp_next (cx_heap c'))) ss \<and> list_all index_kinds_stmt ss \<and> distinct (body_loops ss)
     \<and> free_of ss \<subseteq> set (cx_loopStack c)
     \<and> (\<forall>L \<in> set (body_loops ss). hp_next (cx_heap c) \<le> L \<and> L < hp_next (cx_heap c'))"

lemma grown_refl: "names_ok c \<Longrightarrow> grown c c"
  by (simp add: grown_def)

lemma grown_trans: "grown c c1 \<Longrightarrow> grown c1 c2 \<Longrightarrow> grown c c2"
  by (auto simp: grown_def)

lemma grown_names: "grown c c' \<Longrightarrow> names_ok c'"
  by (simp add: grown_def)

lemma expr_in_mono:
  "expr_in c e \<Longrightarrow> hp_next (cx_heap c) \<le> hp_next (cx_heap c') \<Longrightarrow> set (cx_loopStack c) \<subseteq> set (cx_loopStack c') \<Longrightarrow>
     expr_in c' e"
  unfolding expr_in_def below_expr_def by (meson le_trans less_le_trans subset_trans)

lemma stmts_in_Nil [simp]: "stmts_in c c' []"
  by (simp add: stmts_in_def)

lemma stmts_in_append:
  assumes xs: "stmts_in c c1 xs" and g1: "grown c c1" and g2: "grown c1 c2" and ys: "stmts_in c1 c2 ys"
  shows "stmts_in c c2 (xs @ ys)"
proof -
  have le: "hp_next (cx_heap c) \<le> hp_next (cx_heap c1)" "hp_next (cx_heap c1) \<le> hp_next (cx_heap c2)"
    using g1 g2 by (simp_all add: grown_def)
  have bx: "hp_next (cx_heap c) \<le> L \<and> L < hp_next (cx_heap c1)" if "L \<in> set (body_loops xs)" for L
    using xs that unfolding stmts_in_def by blast
  have bnd_y: "hp_next (cx_heap c1) \<le> L \<and> L < hp_next (cx_heap c2)" if "L \<in> set (body_loops ys)" for L
    using ys that unfolding stmts_in_def by blast
  have "list_all (below (hp_next (cx_heap c2))) xs"
    using xs le(2) by (auto simp: stmts_in_def list_all_iff intro: below_mono)
  moreover have "set (body_loops xs) \<inter> set (body_loops ys) = {}"
    using bx bnd_y leD by (metis disjoint_iff)
  moreover have "\<forall>L \<in> set (body_loops (xs @ ys)). hp_next (cx_heap c) \<le> L \<and> L < hp_next (cx_heap c2)"
    using bx bnd_y le by (metis Un_iff concat_append le_trans less_le_trans map_append set_append)
  moreover have "free_of (xs @ ys) \<subseteq> set (cx_loopStack c)" using xs ys g1 by (simp add: stmts_in_def grown_def)
  ultimately show ?thesis using xs ys unfolding stmts_in_def by auto
qed

lemma stmts_in_later: "stmts_in c c1 xs \<Longrightarrow> grown c c1 \<Longrightarrow> grown c1 c2 \<Longrightarrow> stmts_in c c2 xs"
  using stmts_in_append [of c c1 xs c2 "[]"] by simp

lemma stmts_in_wf: "stmts_in c c' ss \<Longrightarrow> cx_loopStack c = [] \<Longrightarrow> wf_body (cx_heap c') ss"
  by (auto simp: stmts_in_def wf_body_def)

text \<open>Statements without a body.\<close>

lemma stmts_in_simple:
  "stmts_in c c [CallStmt n es] \<longleftrightarrow> list_all (expr_in c) es"
  "stmts_in c c [StoreStmt g x acc] \<longleftrightarrow> expr_in c g \<and> expr_in c x"
  "stmts_in c c [StoreLocalStmt v x acc] \<longleftrightarrow> v < hp_next (cx_heap c) \<and> expr_in c x"
  by (auto simp: stmts_in_def expr_in_def list_all_iff)

lemma new_Store_in:
  "new_StoreStmt_arg h a es x acc = Inr st \<Longrightarrow> a < hp_next (cx_heap c) \<Longrightarrow> list_all (expr_in c) es \<Longrightarrow> expr_in c x \<Longrightarrow>
     stmts_in c c [st]"
  by (auto simp: new_StoreStmt_arg_def stmts_in_simple dest: new_GEP_in)

lemma new_StoreLocal_in:
  "new_StoreLocalStmt h v x acc = Inr st \<Longrightarrow> v < hp_next (cx_heap c) \<Longrightarrow> expr_in c x \<Longrightarrow> stmts_in c c [st]"
  by (auto simp: new_StoreLocalStmt_def bind_require stmts_in_simple split: if_splits)

section \<open>Types and ranges\<close>

lemma parseTypePair_ends [ends_rules]:
  "(\<And>r s'. moved s s' \<Longrightarrow> r \<noteq> None \<longrightarrow> used s s' \<Longrightarrow> Q r s') \<Longrightarrow> ends parseTypePair s Q"
  unfolding parseTypePair_def by (intro ends_rules) (auto simp: post_defs)

lemma parseBuiltinType_ends [ends_rules]:
  "(\<And>r s'. moved s s' \<Longrightarrow> r \<noteq> None \<longrightarrow> used s s' \<Longrightarrow> Q r s') \<Longrightarrow> ends parseBuiltinType s Q"
  unfolding parseBuiltinType_def by (intro ends_rules) (auto simp: post_defs)

lemma parseMoreDims_ends: "ps_left s < k \<Longrightarrow> ends (parseMoreDims k dims) s (\<lambda>_. moved s)"
proof (induction k arbitrary: s dims)
  case 0
  then show ?case by simp
next
  case (Suc k)
  show ?case
    unfolding parseMoreDims.simps by (intro ends_rules ends_mono [OF Suc.IH]) (use Suc.prems in \<open>auto simp: post_defs\<close>)
qed

lemma parseNamedType_ends:
  assumes "ps_left s \<le> n" "\<And>r s'. moved s s' \<Longrightarrow> Q r s'"
  shows "ends (parseNamedType n T) s Q"
  unfolding parseNamedType_def
  by (intro ends_rules ends_mono [OF parseMoreDims_ends] assms(2)) (use assms(1) in \<open>auto simp: post_defs\<close>)

lemma parse_dim_ends [ends_rules]: "(\<And>r s'. moved s s' \<Longrightarrow> Q r s') \<Longrightarrow> ends (parse_dim n) s Q"
  unfolding parse_dim_def lookup_arg_def by (intro ends_rules) (auto simp: post_defs)

lemma parseLiteralOrDimExpr_ends [ends_rules]: "(\<And>r s'. moved s s' \<Longrightarrow> Q r s') \<Longrightarrow> ends parseLiteralOrDimExpr s Q"
  unfolding parseLiteralOrDimExpr_def lookup_let_def by (intro ends_rules) (auto simp: post_defs)

lemma parse_for_range_ends [ends_rules]: "(\<And>r s'. moved s s' \<Longrightarrow> Q r s') \<Longrightarrow> ends parse_for_range s Q"
  unfolding parse_for_range_def by (intro ends_rules) (auto simp: post_defs)

lemma parse_if_range_ends:
  assumes "names_ok (named s)" "ps_left s < n"
    and "\<And>v lo hi s'. moved s s' \<Longrightarrow> v \<noteq> None \<longrightarrow> expr_in (named s) (the v) \<Longrightarrow> Q (v, lo, hi) s'"
  shows "ends (parse_if_range n) s Q"
  unfolding parse_if_range_def
  by (intro ends_rules ends_parseExpr assms(3)) (use assms(1,2) in \<open>auto simp: post_defs\<close>)

section \<open>Declarations\<close>

text \<open>The statements so far of a scope that started in the context \<open>c\<close>.\<close>

definition body_inv :: "context_state \<Rightarrow> parser \<Rightarrow> stmt list \<Rightarrow> bool" where
  "body_inv c s ss \<longleftrightarrow> grown c (named s) \<and> stmts_in c (named s) ss"

lemma body_inv_names: "body_inv c s ss \<Longrightarrow> names_ok (named s)"
  by (simp add: body_inv_def grown_def)

lemma body_inv_add:
  "body_inv c s ss \<Longrightarrow> grown (named s) (named s') \<Longrightarrow> stmts_in (named s) (named s') xs \<Longrightarrow> body_inv c s' (ss @ xs)"
  unfolding body_inv_def by (blast intro: grown_trans stmts_in_append)

lemma body_inv_grown: "body_inv c s ss \<Longrightarrow> grown (named s) (named s') \<Longrightarrow> body_inv c s' ss"
  unfolding body_inv_def by (blast intro: grown_trans stmts_in_later)

lemma body_inv_start: "names_ok (named s) \<Longrightarrow> body_inv (named s) s []"
  by (simp add: body_inv_def grown_refl)

lemma expr_in_updates [simp]:
  "expr_in (c\<lparr>cx_letStack := lets\<rparr>) e = expr_in c e"
  "expr_in (c\<lparr>cx_varStack := vars\<rparr>) e = expr_in c e"
  "expr_in (c\<lparr>cx_varMap := vs\<rparr>) e = expr_in c e"
  "expr_in (c\<lparr>cx_argMap := as\<rparr>) e = expr_in c e"
  by (simp_all add: expr_in_def)

lemma grown_let:
  "names_ok c \<Longrightarrow> expr_in c e \<Longrightarrow> grown c (c\<lparr>cx_letStack := cx_letStack c @ [(n, e)]\<rparr>)"
  by (auto simp: grown_def names_ok_def)

lemma grown_var:
  assumes "names_ok c" "new_var (cx_heap c) x = (v, h')" "varMap_register h' (cx_varMap c) v = Inr vs"
  shows "grown c (c\<lparr>cx_heap := h', cx_varMap := vs, cx_varStack := cx_varStack c @ [(n, v)]\<rparr>)" "v < hp_next h'"
proof -
  have h': "hp_next h' = Suc (hp_next (cx_heap c))" "v = hp_next (cx_heap c)" using assms(2) by (auto simp: new_var_def)
  have vs: "vs = cx_varMap c @ [v]" using assms(3) by (auto simp: varMap_register_def bind_require split: if_splits)
  have e: "expr_in (c\<lparr>cx_heap := h', cx_varMap := vs, cx_varStack := vars\<rparr>) e" if "expr_in c e" for e vars
    using expr_in_mono [OF that] h' by simp
  show "v < hp_next h'" using h' by simp
  show "grown c (c\<lparr>cx_heap := h', cx_varMap := vs, cx_varStack := cx_varStack c @ [(n, v)]\<rparr>)"
    using assms(1) e by (auto simp: grown_def names_ok_def h' vs less_Suc_eq)
qed

lemma parseLetStmt_ends:
  assumes "names_ok (named s)" "ps_left s \<le> n"
    and "\<And>r s'. ps_left s' < ps_left s \<Longrightarrow> grown (named s) (named s') \<Longrightarrow> Q r s'"
  shows "ends (parseLetStmt H n) s Q"
  unfolding parseLetStmt_def
  by (intro ends_rules ends_parseExpr assms(3))
    (use assms(1,2) in \<open>auto simp: post_defs named_folds grown_refl intro: grown_let simplified_in\<close>)

lemma parse_lets_ends:
  "k \<le> n \<Longrightarrow> ps_left s < k \<Longrightarrow> names_ok (named s) \<Longrightarrow>
     ends (parse_lets H n k) s (\<lambda>r s'. ps_left s' \<le> ps_left s \<and> grown (named s) (named s'))"
proof (induction k arbitrary: s)
  case 0
  then show ?case by simp
next
  case (Suc k)
  show ?case
    unfolding parse_lets.simps
    by (intro ends_rules parseLetStmt_ends ends_mono [OF Suc.IH])
      (use Suc.prems in \<open>auto simp: grown_refl dest: grown_names intro: grown_trans\<close>)
qed

lemma declare_var_ends:
  assumes "names_ok (named s)"
    and "\<And>v s'. ps_left s' = ps_left s \<Longrightarrow> grown (named s) (named s') \<Longrightarrow> v < hp_next (cx_heap (named s')) \<Longrightarrow> Q v s'"
  shows "ends (declare_var n k) s Q"
  unfolding declare_var_def
  by (intro ends_rules assms(2)) (use assms(1) in \<open>auto simp: named_folds dest: grown_var\<close>)

lemma stmts_in_here: "stmts_in c' c' ss \<Longrightarrow> grown c c' \<Longrightarrow> stmts_in c c' ss"
  using stmts_in_append [of c c' "[]" c' ss] by (simp add: grown_refl grown_names)

lemma init_in:
  assumes "new_StoreLocalStmt h v x acc = Inr st" "expr_in c x" "grown c c'" "v < hp_next (cx_heap c')"
  shows "stmts_in c c' [st]"
proof -
  have "expr_in c' x" using assms(2,3) expr_in_mono by (auto simp: grown_def)
  then show ?thesis using new_StoreLocal_in [OF assms(1,4)] stmts_in_here [OF _ assms(3)] by blast
qed

lemma parseVarDecl_ends:
  assumes "names_ok (named s)" "ps_left s \<le> n"
    and "\<And>r s'. ps_left s' < ps_left s \<Longrightarrow> grown (named s) (named s') \<Longrightarrow>
      \<forall>ss. r = Some ss \<longrightarrow> stmts_in (named s) (named s') ss \<Longrightarrow> Q r s'"
  shows "ends (parseVarDecl n) s Q"
  unfolding parseVarDecl_def Let_def
  by (intro ends_rules ends_parseExpr declare_var_ends assms(3))
    (use assms(1,2) in \<open>auto simp: post_defs grown_refl intro: init_in\<close>)

lemma parse_vars_ends:
  "k \<le> n \<Longrightarrow> ps_left s < k \<Longrightarrow> body_inv c s ss \<Longrightarrow>
     ends (parse_vars n k ss) s (\<lambda>(failed, ss') s'. ps_left s' \<le> ps_left s \<and> body_inv c s' ss')"
proof (induction k arbitrary: s ss)
  case 0
  then show ?case by simp
next
  case (Suc k)
  show ?case
    unfolding parse_vars.simps
    by (intro ends_rules parseVarDecl_ends ends_mono [OF Suc.IH])
      (use Suc.prems in \<open>auto dest: body_inv_names intro: body_inv_add body_inv_grown\<close>)
qed

section \<open>Statements\<close>

lemma parse_assign_ends [ends_rules]:
  "(\<And>r s'. moved s s' \<Longrightarrow> Q r s') \<Longrightarrow> ends (parse_assign msg) s Q"
  unfolding parse_assign_def by (intro ends_rules) (auto simp: post_defs)

lemma parse_var_assign_ends:
  assumes "names_ok (named s)" "ps_left s < n" "v < hp_next (cx_heap (named s))"
    and "\<And>r s'. moved s s' \<Longrightarrow> \<forall>st. r = Some st \<longrightarrow> stmts_in (named s) (named s) [st] \<Longrightarrow> Q r s'"
  shows "ends (parse_var_assign n v loc) s Q"
  unfolding parse_var_assign_def
  by (intro ends_rules ends_parseExpr assms(4))
    (use assms(1-3) in \<open>auto simp: post_defs intro: new_StoreLocal_in\<close>)

lemma parse_store_ends:
  assumes "names_ok (named s)" "ps_left s < n" "a < hp_next (cx_heap (named s))"
    and "\<And>r s'. moved s s' \<Longrightarrow> \<forall>st. r = Some st \<longrightarrow> stmts_in (named s) (named s) [st] \<Longrightarrow> Q r s'"
  shows "ends (parse_store n a loc) s Q"
  unfolding parse_store_def
  by (intro ends_rules ends_parseExpr parseSubscriptList_ends [OF parseExpr_spec] assms(4))
    (use assms(1-3) in \<open>auto simp: post_defs intro: new_Store_in\<close>)

lemma found_varStack_below:
  "stack_getByName (cx_varStack c) n = Some v \<Longrightarrow> names_ok c \<Longrightarrow> v < hp_next (cx_heap c)"
  unfolding stack_getByName_def names_ok_def by (drule map_of_SomeD) force

text \<open>What a statement parser does: the statement is new, and the lets and loops are as before.\<close>

definition stmt_post :: "parser \<Rightarrow> stmt option \<Rightarrow> parser \<Rightarrow> bool" where
  "stmt_post s r s' \<longleftrightarrow>
     ps_left s' \<le> ps_left s \<and> grown (named s) (named s') \<and> cx_letStack (named s') = cx_letStack (named s)
     \<and> (\<forall>st. r = Some st \<longrightarrow> ps_left s' < ps_left s \<and> stmts_in (named s) (named s') [st])"

lemma parse_named_stmt_ends:
  assumes "names_ok (named s)" "ps_left s \<le> n" "tk_kind (ps_tok s) = tok_identifier"
    and "\<And>r s'. stmt_post s r s' \<Longrightarrow> Q r s'"
  shows "ends (parse_named_stmt n) s Q"
  unfolding parse_named_stmt_def Let_def lookup_arg_def
  by (intro ends_rules parseSubscriptList_ends [OF parseExpr_spec] parse_var_assign_ends parse_store_ends assms(4))
    (use assms(1-3) in \<open>auto simp: post_defs stmt_post_def named_folds grown_refl stmts_in_simple
        intro: found_varStack_below found_arg_below\<close>)

section \<open>Loops and scopes\<close>

definition scope_post :: "parser \<Rightarrow> stmt list \<Rightarrow> parser \<Rightarrow> bool" where
  "scope_post s ss s' \<longleftrightarrow>
     ps_left s' \<le> ps_left s \<and> grown (named s) (named s') \<and> cx_letStack (named s') = cx_letStack (named s)
     \<and> stmts_in (named s) (named s') ss"

definition scope_spec :: "scope_parser \<Rightarrow> nat \<Rightarrow> bool" where
  "scope_spec ps n \<longleftrightarrow> (\<forall>s. names_ok (named s) \<longrightarrow> ps_left s < n \<longrightarrow> ends ps s (scope_post s))"

lemma ends_scope:
  assumes "scope_spec ps n" "names_ok (named s)" "ps_left s < n" "\<And>ss s'. scope_post s ss s' \<Longrightarrow> Q ss s'"
  shows "ends ps s Q"
  using assms(1-3) unfolding scope_spec_def by (auto intro: ends_mono assms(4))

lemma push_loop:
  assumes "names_ok c" "new_loop (cx_heap c) nm e st = (L, h')"
  shows "names_ok (c\<lparr>cx_heap := h', cx_loopStack := cx_loopStack c @ [L]\<rparr>)" "L = hp_next (cx_heap c)"
    "hp_next h' = Suc (hp_next (cx_heap c))"
proof -
  let ?c = "c\<lparr>cx_heap := h', cx_loopStack := cx_loopStack c @ [L]\<rparr>"
  show h': "L = hp_next (cx_heap c)" "hp_next h' = Suc (hp_next (cx_heap c))" using assms(2) by (auto simp: new_loop_def)
  have "expr_in ?c e" if "expr_in c e" for e using expr_in_mono [OF that, of ?c] h' by auto
  then show "names_ok ?c" using assms(1) h' by (auto simp: names_ok_def less_Suc_eq)
qed

text \<open>Leaving a loop.\<close>

lemma pop_loop:
  assumes c: "names_ok c" and new: "new_loop (cx_heap c) nm e st = (L, h')"
    and c1: "c1 = c\<lparr>cx_heap := h', cx_loopStack := cx_loopStack c @ [L]\<rparr>"
    and g: "grown c1 c2" and lets: "cx_letStack c2 = cx_letStack c1" and body: "stmts_in c1 c2 body"
  shows "grown c (c2\<lparr>cx_loopStack := butlast (cx_loopStack c2)\<rparr>)"
    "stmts_in c (c2\<lparr>cx_loopStack := butlast (cx_loopStack c2)\<rparr>) [Loop L body]"
proof -
  let ?c3 = "c2\<lparr>cx_loopStack := butlast (cx_loopStack c2)\<rparr>"
  note L = push_loop(2,3) [OF c new]
  have le: "hp_next (cx_heap c) < hp_next (cx_heap c2)" using g L by (simp add: grown_def c1)
  have stack: "cx_loopStack c2 = cx_loopStack c @ [L]" using g by (simp add: grown_def c1)
  have "expr_in ?c3 e" if "expr_in c e" for e using expr_in_mono [OF that, of ?c3] le stack by simp
  moreover have "names_ok c2" using g by (rule grown_names)
  ultimately have "names_ok ?c3" using c lets stack by (auto simp: names_ok_def c1)
  then show "grown c ?c3" using g lets le stack by (auto simp: grown_def c1)
  have low: "Suc (hp_next (cx_heap c)) \<le> x" if "x \<in> set (body_loops body)" for x
    using body L that unfolding stmts_in_def c1 by auto
  have "L \<notin> set (body_loops body)" using low [of L] L(1) by auto
  moreover have "\<forall>x \<in> set (body_loops body). hp_next (cx_heap c) \<le> x" using low Suc_leD by blast
  ultimately show "stmts_in c ?c3 [Loop L body]"
    using body L le unfolding stmts_in_def c1 by (auto simp: free_of_def list_all_iff)
qed

lemma pop_loop_post:
  assumes "scope_post (s1\<lparr>cx_heap := h', cx_loopStack := cx_loopStack (named s) @ [L]\<rparr>) body s'"
    and "named s1 = named s" "names_ok (named s)" "new_loop (cx_heap (named s)) nm e st = (L, h')"
  shows "grown (named s) ((named s')\<lparr>cx_loopStack := butlast (cx_loopStack (named s'))\<rparr>)"
    "stmts_in (named s) ((named s')\<lparr>cx_loopStack := butlast (cx_loopStack (named s'))\<rparr>) [Loop L body]"
    "cx_letStack (named s') = cx_letStack (named s)" "ps_left s' \<le> ps_left s1"
  using assms(1,2) pop_loop [OF assms(3,4) refl, of "named s'" body] by (auto simp: scope_post_def)

lemma parse_loop_ends:
  assumes "scope_spec ps n" "names_ok (named s)" "ps_left s < n"
    and "\<And>L body s'. grown (named s) (named s') \<Longrightarrow> stmts_in (named s) (named s') [Loop L body] \<Longrightarrow>
      cx_letStack (named s') = cx_letStack (named s) \<Longrightarrow> ps_left s' \<le> ps_left s \<Longrightarrow> Q (Some (Loop L body)) s'"
  shows "ends (parse_loop ps nm e st) s Q"
  unfolding parse_loop_def Let_def
  by (intro ends_rules ends_scope [OF assms(1)] assms(4))
    (use assms(2,3) in \<open>auto simp: named_folds push_loop dest: pop_loop_post\<close>)

end
