(* ===== verification/ParserFacts.thy ===== *)
theory ParserFacts
  imports ParserBodies
begin

text \<open>
  The parser as a whole: it ends on every buffer, with a fuel of one more than its length, and the
  program it registers is well formed.
\<close>

section \<open>Statements with a body\<close>

lemma parseForStmt_ends:
  assumes "scope_spec ps n" "names_ok (named s)" "ps_left s \<le> n" "\<And>r s'. stmt_post s r s' \<Longrightarrow> Q r s'"
  shows "ends (parseForStmt ps) s Q"
  unfolding parseForStmt_def
  by (intro ends_rules parse_loop_ends [OF assms(1)] assms(4))
    (use assms(2,3) in \<open>auto simp: post_defs stmt_post_def grown_refl\<close>)

lemma if_in:
  assumes "expr_in c e" "stmts_in c c' body" "grown c c'"
  shows "stmts_in c c' [IfRange e lo hi body]"
proof -
  have "expr_in c' e" using assms(1,3) expr_in_mono by (auto simp: grown_def)
  then show ?thesis using assms by (auto simp: stmts_in_def expr_in_def free_of_def list_all_iff)
qed

lemma parseIfStmt_ends:
  assumes "scope_spec ps n" "n \<le> m" "names_ok (named s)" "ps_left s \<le> n" "\<And>r s'. stmt_post s r s' \<Longrightarrow> Q r s'"
  shows "ends (parseIfStmt m ps) s Q"
  unfolding parseIfStmt_def
  by (intro ends_rules parse_if_range_ends ends_scope [OF assms(1)] assms(5))
    (use assms(2-4) in \<open>auto simp: post_defs stmt_post_def scope_post_def grown_refl null_expr_def intro!: if_in split: option.split\<close>)

lemma parseOneStmt_ends:
  assumes "scope_spec ps n" "n \<le> m" "names_ok (named s)" "ps_left s \<le> n" "\<And>r s'. stmt_post s r s' \<Longrightarrow> Q r s'"
  shows "ends (parseOneStmt m ps) s Q"
  unfolding parseOneStmt_def
  by (intro ends_rules parse_named_stmt_ends parseForStmt_ends [OF assms(1)] parseIfStmt_ends [OF assms(1)] assms(5))
    (use assms(2-4) in \<open>auto simp: post_defs stmt_post_def grown_refl\<close>)

lemma body_inv_named: "body_inv c s ss \<Longrightarrow> named s' = named s \<Longrightarrow> body_inv c s' ss"
  by (simp add: body_inv_def)

lemma parse_stmts_ends:
  assumes "scope_spec ps n"
  shows "k \<le> Suc n \<Longrightarrow> ps_left s < k \<Longrightarrow> body_inv c s ss \<Longrightarrow>
    ends (parse_stmts H (Suc n) ps k ss) s (\<lambda>ss' s'. ps_left s' \<le> ps_left s \<and> body_inv c s' ss')"
proof (induction k arbitrary: s ss)
  case 0
  then show ?case by simp
next
  case (Suc k)
  show ?case
    unfolding parse_stmts.simps
    by (intro ends_rules ends_mono [OF parse_lets_ends [OF order_refl]] ends_mono [OF parse_vars_ends [OF order_refl]]
        parseOneStmt_ends [OF assms, where m = "Suc n"] ends_mono [OF Suc.IH])
      (use Suc.prems in \<open>auto simp: stmt_post_def moved_def dest: body_inv_names intro: body_inv_add body_inv_grown body_inv_named\<close>)
qed

lemma restore_lets_ends:
  assumes g: "grown c (named s)" and c: "names_ok c" and n: "n = length (cx_letStack c)"
    and Q: "\<And>s'. ps_left s' = ps_left s \<Longrightarrow> grown c (named s') \<Longrightarrow> cx_letStack (named s') = cx_letStack c \<Longrightarrow>
      cx_heap (named s') = cx_heap (named s) \<Longrightarrow> Q () s'"
  shows "ends (restore_lets n) s Q"
proof -
  obtain lets where lets: "cx_letStack (named s) = cx_letStack c @ lets" using g by (auto simp: grown_def)
  have r: "restoreStack (cx_letStack (named s)) n = Inr (cx_letStack c)"
    by (simp add: restoreStack_def lets n bind_require)
  have "grown c ((named s)\<lparr>cx_letStack := cx_letStack c\<rparr>)"
    using g by (auto simp: grown_def names_ok_def)
  then show ?thesis
    unfolding restore_lets_def by (intro ends_rules Q) (use r in \<open>auto simp: named_folds\<close>)
qed

lemma stmts_in_heap: "stmts_in c c1 ss \<Longrightarrow> cx_heap c2 = cx_heap c1 \<Longrightarrow> stmts_in c c2 ss"
  by (simp add: stmts_in_def)

lemma parseScope_spec: "scope_spec (parseScope H n) n"
proof (induction n)
  case 0
  then show ?case by (simp add: scope_spec_def)
next
  case (Suc n)
  have "ends (parseScope H (Suc n)) s (scope_post s)" if ok: "names_ok (named s)" and left: "ps_left s < Suc n" for s
    unfolding parseScope.simps
    by (intro ends_rules ends_mono [OF parse_stmts_ends [OF Suc.IH order_refl, where c = "named s"]]
        restore_lets_ends [where c = "named s"])
      (use ok left in \<open>auto simp: post_defs scope_post_def named_folds body_inv_def grown_refl intro: stmts_in_heap\<close>)
  then show ?case by (simp add: scope_spec_def)
qed

section \<open>Functions and scripts\<close>

text \<open>Arguments are allocated while the loop stack is empty.\<close>

definition header_post :: "parser \<Rightarrow> parser \<Rightarrow> bool" where
  "header_post s s' \<longleftrightarrow>
     ps_left s' \<le> ps_left s \<and> names_ok (named s') \<and> cx_loopStack (named s') = cx_loopStack (named s)
     \<and> cx_prog (named s') = cx_prog (named s)"

lemma header_post_trans: "header_post s s1 \<Longrightarrow> header_post s1 s2 \<Longrightarrow> header_post s s2"
  by (simp add: header_post_def)

lemma moved_header: "moved s s' \<Longrightarrow> names_ok (named s) \<Longrightarrow> header_post s s'"
  by (simp add: header_post_def moved_def)

lemma used_header: "used s s' \<Longrightarrow> names_ok (named s) \<Longrightarrow> header_post s s'"
  by (simp add: header_post_def used_def)

lemma names_ok_arg:
  assumes "names_ok c" "new_arg (cx_heap c) x = (a, h')" "argMap_register h' (cx_argMap c) a = Inr as"
  shows "names_ok (c\<lparr>cx_heap := h', cx_argMap := as\<rparr>)"
proof -
  have h': "hp_next h' = Suc (hp_next (cx_heap c))" "a = hp_next (cx_heap c)" using assms(2) by (auto simp: new_arg_def)
  have as: "as = cx_argMap c @ [a]" using assms(3) by (auto simp: argMap_register_def bind_require split: if_splits)
  have "expr_in (c\<lparr>cx_heap := h', cx_argMap := as\<rparr>) e" if "expr_in c e" for e using expr_in_mono [OF that] h' by simp
  then show ?thesis using assms(1) by (auto simp: names_ok_def h' as less_Suc_eq)
qed

lemma register_arg_ends [ends_rules]:
  assumes "names_ok (named s)" "\<And>s'. header_post s s' \<Longrightarrow> Q () s'"
  shows "ends (register_arg n T) s Q"
  unfolding register_arg_def Let_def
  by (intro ends_rules assms(2)) (use assms(1) in \<open>auto simp: header_post_def named_folds intro: names_ok_arg\<close>)

lemma parse_params_ends:
  "names_ok (named s) \<Longrightarrow> ps_left s < k \<Longrightarrow> ends (parse_params k T) s (\<lambda>_. header_post s)"
proof (induction k arbitrary: s T)
  case 0
  then show ?case by simp
next
  case (Suc k)
  show ?case
    unfolding parse_params.simps lookup_arg_def
    by (intro ends_rules parseNamedType_ends ends_mono [OF Suc.IH])
      (use Suc.prems in \<open>auto simp: post_defs header_post_def\<close>)
qed

definition program_in :: "heap \<Rightarrow> program \<Rightarrow> bool" where
  "program_in h p \<longleftrightarrow> wf_body h (pr_body p) \<and> (\<forall>x \<in> set (pr_args p) \<union> set (pr_vars p). x < hp_next h)"

lemma parsed_body_in:
  assumes "stmts_in c c' body" "names_ok c'" "cx_loopStack c = []" "cx_argMap c' = as"
  shows "program_in (cx_heap c') \<lparr>pr_name = n, pr_args = as, pr_vars = cx_varMap c', pr_body = body\<rparr>"
  using assms stmts_in_wf [of c c' body] by (auto simp: program_in_def names_ok_def)

lemma parseFunctionDecl_ends:
  assumes "names_ok (named s)" "ps_left s \<le> n" "cx_loopStack (named s) = []"
    and "\<And>r s'. header_post s s' \<Longrightarrow> \<forall>p. r = Some p \<longrightarrow> program_in (cx_heap (named s')) p \<Longrightarrow> Q r s'"
  shows "ends (parseFunctionDecl H n) s Q"
  unfolding parseFunctionDecl_def
  by (intro ends_rules parseNamedType_ends ends_mono [OF parse_params_ends] ends_scope [OF parseScope_spec] assms(4))
    (use assms(1-3) in \<open>auto simp: post_defs header_post_def named_folds scope_post_def grown_def intro: parsed_body_in\<close>)

lemma add_pragma_ends [ends_rules]: "(\<And>s'. moved s s' \<Longrightarrow> Q () s') \<Longrightarrow> ends (add_pragma pk loc l nm x) s Q"
  unfolding add_pragma_def by (intro ends_rules) (auto simp: moved_def)

lemma script_error_ends [ends_rules]: "(\<And>s'. moved s s' \<Longrightarrow> Q () s') \<Longrightarrow> ends (script_error msg) s Q"
  unfolding script_error_def by (intro ends_rules) (auto simp: moved_def)

lemma parse_command_ends [ends_rules]: "(\<And>s'. moved s s' \<Longrightarrow> Q () s') \<Longrightarrow> ends (parse_command pk loc) s Q"
  unfolding parse_command_def by (intro ends_rules) (auto simp: post_defs)

lemma parse_commands_ends: "ps_left s < k \<Longrightarrow> ends (parse_commands k) s (\<lambda>_. moved s)"
proof (induction k arbitrary: s)
  case 0
  then show ?case by simp
next
  case (Suc k)
  show ?case
    unfolding parse_commands.simps by (intro ends_rules ends_mono [OF Suc.IH]) (use Suc.prems in \<open>auto simp: post_defs\<close>)
qed

lemma parseScriptDecl_ends:
  assumes "ps_left s \<le> n" "\<And>s'. moved s s' \<Longrightarrow> Q () s'"
  shows "ends (parseScriptDecl n) s Q"
  unfolding parseScriptDecl_def
  by (intro ends_rules ends_mono [OF parse_commands_ends])
    (use assms(1) in \<open>auto simp: post_defs intro!: assms(2)\<close>)

section \<open>Programs\<close>

definition result_in :: "parser \<Rightarrow> bool" where
  "result_in s \<longleftrightarrow> (\<forall>p. cx_prog s = Some p \<longrightarrow> program_in (cx_heap s) p)"

lemma parse_ends:
  assumes "names_ok (named s)" "cx_loopStack (named s) = []" "cx_prog (named s) = None" "ps_left s \<le> n"
  shows "ends (parse H n) s (\<lambda>_. result_in)"
  unfolding parse_def
  by (intro ends_rules ends_mono [OF parse_lets_ends [OF order_refl]] parseFunctionDecl_ends parseScriptDecl_ends)
    (use assms in \<open>auto simp: post_defs result_in_def named_folds header_post_def grown_def\<close>)

lemma new_parser_named: "named (new_parser c) = c\<lparr>cx_numErrors := 0, cx_numWarnings := 0, cx_numNotes := 0, cx_pragmas := [], cx_out := []\<rparr>"
  by (simp add: named_def new_parser_def context_state.defs parser.defs)

lemma names_ok_start: "names_ok (named (new_parser (register_lets names vals (new_context h buffer filename))))"
  by (auto simp: new_parser_named register_lets_def new_context_def names_ok_def dest!: set_zip_rightD)

lemma ends_parseProgram:
  assumes "length names = length vals"
  shows "ends (bindP (parse H (length buffer + 1)) (\<lambda>_. getP cx_prog))
    (new_parser (register_lets names vals (new_context h buffer filename)))
    (\<lambda>r s. \<forall>p. r = Some p \<longrightarrow> program_in (cx_heap s) p)"
proof (intro ends_rules ends_mono [OF parse_ends])
  let ?s = "new_parser (register_lets names vals (new_context h buffer filename))"
  show "names_ok (named ?s)" by (rule names_ok_start)
  show "cx_loopStack (named ?s) = []" "cx_prog (named ?s) = None"
    by (simp_all add: new_parser_named register_lets_def new_context_def)
  show "ps_left ?s \<le> length buffer + 1"
    by (simp add: new_parser_def register_lets_def new_context_def context_state.defs parser.defs ps_left_def token_left_def)
qed (auto simp: result_in_def)

lemma parsed_wf:
  assumes "parseProgram H (new_context h buffer filename) names vals = Some (Inr (Some p, s))"
  shows "wf_body (cx_heap s) (pr_body p) \<and> below_program (cx_heap s) p"
proof -
  have l: "length names = length vals" using assms by (simp add: parseProgram_def split: if_splits)
  have "program_in (cx_heap s) p"
    using ends_parseProgram [OF l, of H buffer h filename] assms l
    by (auto simp: ends_def parseProgram_def new_context_def)
  then show ?thesis by (auto simp: program_in_def below_program_def wf_body_def list_all_iff)
qed

section \<open>Properties\<close>

text \<open>C14. The parser ends on every buffer, whatever it holds: \<open>parse\<close> with a fuel of one more than the
  length of the buffer does not run out of it, in no scope, loop of tokens or nested expression. Every
  round of every loop eats a token or leaves the loop.\<close>

theorem parse_finishes: "\<exists>r. parseProgram H (new_context h buffer filename) names vals = Some r"
proof (cases "length names = length vals")
  case True
  show ?thesis
    using ends_parseProgram [OF True, of H buffer h filename] True
    by (auto simp: ends_def parseProgram_def new_context_def split: option.splits)
next
  case False
  then show ?thesis by (simp add: parseProgram_def)
qed

end
