(* ===== verification/ParserErrors.thy ===== *)
theory ParserErrors
  imports ParserFacts
begin

text \<open>
  The counter of errors. \<open>errs m n Q\<close>: every result of the method \<open>m\<close> from a state with \<open>n\<close> errors
  satisfies \<open>Q\<close>, together with the number of errors after it. The rules follow the structure of a
  method, like those for termination; what the other fields of the state hold does not matter here.
\<close>

definition errs :: "'a parse \<Rightarrow> nat \<Rightarrow> ('a \<Rightarrow> nat \<Rightarrow> bool) \<Rightarrow> bool" where
  "errs m n Q \<longleftrightarrow> (\<forall>s x s'. cx_numErrors s = n \<longrightarrow> m s = Some (Inr (x, s')) \<longrightarrow> Q x (cx_numErrors s'))"

named_theorems errs_rules

section \<open>The monad\<close>

lemma errs_mono: "errs m n P \<Longrightarrow> (\<And>x k. P x k \<Longrightarrow> Q x k) \<Longrightarrow> errs m n Q"
  by (simp add: errs_def)

lemma errs_bind [errs_rules]: "errs m n (\<lambda>x k. errs (f x) k Q) \<Longrightarrow> errs (bindP m f) n Q"
  unfolding errs_def bindP_def by (fastforce split: option.splits sum.splits prod.splits)

lemma errs_then [errs_rules]: "errs m n (\<lambda>_ k. errs m' k Q) \<Longrightarrow> errs (thenP m m') n Q"
  unfolding thenP_def by (rule errs_bind)

lemma errs_ret [errs_rules]: "Q x n \<Longrightarrow> errs (retP x) n Q"
  by (simp add: errs_def retP_def)

lemma errs_fail [errs_rules]: "errs (failP e) n Q"
  by (simp add: errs_def failP_def)

lemma errs_fuel [errs_rules]: "errs (\<lambda>s. None) n Q"
  by (simp add: errs_def)

lemma errs_lift [errs_rules]: "(\<And>x. r = Inr x \<Longrightarrow> Q x n) \<Longrightarrow> errs (liftP r) n Q"
  by (cases r) (auto simp: errs_def liftP_def)

lemma errs_get [errs_rules]: "(\<And>s. Q (f s) n) \<Longrightarrow> errs (getP f) n Q"
  by (auto simp: errs_def getP_def)

lemma errs_tok [errs_rules]: "(\<And>x. Q x n) \<Longrightarrow> errs tokP n Q"
  unfolding tokP_def by (rule errs_get)

lemma errs_is [errs_rules]: "(\<And>x. Q x n) \<Longrightarrow> errs (isP K) n Q"
  unfolding isP_def by (rule errs_get)

lemma errs_heap [errs_rules]: "(\<And>x. Q x n) \<Longrightarrow> errs heapP n Q"
  unfolding heapP_def by (rule errs_get)

lemma errs_put [errs_rules]: "(\<And>s. cx_numErrors (f s) = cx_numErrors s) \<Longrightarrow> Q () n \<Longrightarrow> errs (putP f) n Q"
  by (simp add: errs_def putP_def)

lemma errs_if [errs_rules]: "(b \<Longrightarrow> errs m n Q) \<Longrightarrow> (\<not> b \<Longrightarrow> errs m' n Q) \<Longrightarrow> errs (if b then m else m') n Q"
  by simp

lemma errs_option [errs_rules]:
  "(x = None \<Longrightarrow> errs m n Q) \<Longrightarrow> (\<And>y. x = Some y \<Longrightarrow> errs (f y) n Q) \<Longrightarrow> errs (case x of None \<Rightarrow> m | Some y \<Rightarrow> f y) n Q"
  by (cases x) simp_all

lemma errs_prod [errs_rules]: "(\<And>a b. x = (a, b) \<Longrightarrow> errs (f a b) n Q) \<Longrightarrow> errs (case x of (a, b) \<Rightarrow> f a b) n Q"
  by (cases x) simp

lemma errs_let [errs_rules]: "errs (f x) n Q \<Longrightarrow> errs (let y = x in f y) n Q"
  by simp

lemma errs_constant_case [errs_rules]:
  "(\<And>v. e = ConstantExpr v \<Longrightarrow> errs (g v) n Q) \<Longrightarrow> errs m n Q \<Longrightarrow> errs (case e of ConstantExpr v \<Rightarrow> g v | _ \<Rightarrow> m) n Q"
  by (cases e) simp_all

lemma errs_token_case [errs_rules]:
  "(\<And>f. k = BUILTIN_FUNC f \<Longrightarrow> errs (g f) n Q) \<Longrightarrow> errs m n Q \<Longrightarrow> errs (case k of BUILTIN_FUNC f \<Rightarrow> g f | _ \<Rightarrow> m) n Q"
  by (cases k) simp_all

section \<open>Tokens and messages\<close>

lemma diagnose_counts: "diagnose Error loc msg s = Inr s' \<Longrightarrow> cx_numErrors s' = cx_numErrors s + 1"
  by (auto simp: diagnose_def count_message_def Let_def split: prod.splits)

lemma Lex_counts: "Lex s = Inr s' \<Longrightarrow> cx_numErrors s \<le> cx_numErrors s'"
proof -
  assume "Lex s = Inr s'"
  then obtain t rest s1 where s': "s' = s1\<lparr>ps_tok := t\<rparr>"
    and s1: "(if tk_kind t = unknown then diagnose Error (length rest) ''Invalid character.'' (s\<lparr>ps_rest := rest\<rparr>)
               else Inr (s\<lparr>ps_rest := rest\<rparr>)) = Inr s1"
    unfolding Lex_def by (auto simp del: if_split_asm)
  then show ?thesis using diagnose_counts by (fastforce split: if_splits)
qed

lemma errs_error_at [errs_rules]: "Q () (n + 1) \<Longrightarrow> errs (error_at loc msg) n Q"
  by (auto simp: errs_def error_at_def dest: diagnose_counts)

lemma errs_error [errs_rules]: "Q () (n + 1) \<Longrightarrow> errs (errorP msg) n Q"
  unfolding errorP_def by (intro errs_rules)

lemma errs_give_up [errs_rules]: "Q None (n + 1) \<Longrightarrow> errs (give_up msg) n Q"
  unfolding give_up_def by (intro errs_rules)

lemma errs_consume [errs_rules]: "(\<And>k. n \<le> k \<Longrightarrow> Q () k) \<Longrightarrow> errs consumeToken n Q"
  by (auto simp: errs_def consumeToken_def dest: Lex_counts)

lemma errs_consume_kind [errs_rules]: "(\<And>k. n \<le> k \<Longrightarrow> Q () k) \<Longrightarrow> errs (consumeTokenKind K) n Q"
  unfolding consumeTokenKind_def by (intro errs_rules)

lemma errs_consumeIf [errs_rules]: "(\<And>x k. n \<le> k \<Longrightarrow> Q x k) \<Longrightarrow> errs (consumeIf K) n Q"
  unfolding consumeIf_def by (intro errs_rules) auto

lemma skipUntil_counts: "skipUntil T s = Some (Inr (u, s')) \<Longrightarrow> cx_numErrors s \<le> cx_numErrors s'"
proof (induction T s rule: skipUntil.induct)
  case (1 T s)
  then show ?case
    by (subst (asm) (2) skipUntil.simps) (auto split: if_splits sum.splits dest: Lex_counts)
qed

lemma skipUntilOneOf_counts: "skipUntilOneOf A B s = Some (Inr (u, s')) \<Longrightarrow> cx_numErrors s \<le> cx_numErrors s'"
proof (induction A B s rule: skipUntilOneOf.induct)
  case (1 A B s)
  then show ?case
    by (subst (asm) (2) skipUntilOneOf.simps) (auto split: if_splits sum.splits dest: Lex_counts)
qed

lemma errs_skipUntil [errs_rules]: "(\<And>k. n \<le> k \<Longrightarrow> Q () k) \<Longrightarrow> errs (skipUntil T) n Q"
  by (auto simp: errs_def dest: skipUntil_counts)

lemma errs_skipUntilOneOf [errs_rules]: "(\<And>k. n \<le> k \<Longrightarrow> Q () k) \<Longrightarrow> errs (skipUntilOneOf A B) n Q"
  by (auto simp: errs_def dest: skipUntilOneOf_counts)

section \<open>Literals and names\<close>

lemma errs_integer [errs_rules]: "(\<And>x k. n \<le> k \<Longrightarrow> Q x k) \<Longrightarrow> errs parseIntegerLiteral n Q"
  unfolding parseIntegerLiteral_def by (intro errs_rules) auto

lemma errs_string [errs_rules]: "(\<And>x k. n \<le> k \<Longrightarrow> Q x k) \<Longrightarrow> errs parseStringLiteral n Q"
  unfolding parseStringLiteral_def by (intro errs_rules) auto

lemma errs_float [errs_rules]: "(\<And>x k. n \<le> k \<Longrightarrow> Q x k) \<Longrightarrow> errs parseFloatLiteral n Q"
  unfolding parseFloatLiteral_def by (intro errs_rules) auto

lemma errs_identifier [errs_rules]: "(\<And>x k. n \<le> k \<Longrightarrow> Q x k) \<Longrightarrow> errs parseIdentifier n Q"
  unfolding parseIdentifier_def by (intro errs_rules) auto

lemma errs_number [errs_rules]: "(\<And>x k. n \<le> k \<Longrightarrow> Q x k) \<Longrightarrow> errs parseIntegerLiteralOrLetConstant n Q"
  unfolding parseIntegerLiteralOrLetConstant_def lookup_let_def by (intro errs_rules) auto

section \<open>Expressions\<close>

text \<open>What the constructors return is not null.\<close>

lemma not_null:
  "ConstantExpr v \<noteq> null_expr" "ConstantFPExpr x \<noteq> null_expr" "ConstantStringExpr y \<noteq> null_expr"
  "UnaryExpr u e \<noteq> null_expr" "new_IndexExpr L \<noteq> null_expr" "new_LoadLocalExpr h v' \<noteq> null_expr"
  "new_BinaryExpr l r k = Inr b \<Longrightarrow> b \<noteq> null_expr" "new_LoadExpr_arg h a es ty = Inr ld \<Longrightarrow> ld \<noteq> null_expr"
  by (auto simp: null_expr_def new_IndexExpr_def new_LoadLocalExpr_def new_BinaryExpr_def new_LoadExpr_arg_def new_GEPExpr_def)

lemma clone_not_null: "clone_expr h vs c e = Inr e' \<Longrightarrow> e' \<noteq> null_expr"
  by (cases e) (auto simp: null_expr_def new_IndexExpr_def new_LoadLocalExpr_def new_BinaryExpr_def new_LoadExpr_def
      new_BroadcastExpr_def new_GEPExpr_def)

definition nonnull :: "expr option \<Rightarrow> bool" where
  "nonnull r \<longleftrightarrow> r \<noteq> Some null_expr"

lemma nonnull_simps [simp]:
  "nonnull None" "nonnull (Some (ConstantExpr v))" "nonnull (Some (ConstantFPExpr x))" "nonnull (Some (ConstantStringExpr y))"
  "nonnull (Some (UnaryExpr u e))" "nonnull (Some (new_IndexExpr L))" "nonnull (Some (new_LoadLocalExpr h v'))"
  "new_BinaryExpr l r k = Inr b \<Longrightarrow> nonnull (Some b)" "new_LoadExpr_arg h a es ty = Inr ld \<Longrightarrow> nonnull (Some ld)"
  "clone_expr h vs c e = Inr e' \<Longrightarrow> nonnull (Some e')"
  using not_null clone_not_null by (auto simp: nonnull_def)

text \<open>An expression that is null has been reported.\<close>

definition reports :: "(nat \<Rightarrow> expr option parse) \<Rightarrow> bool" where
  "reports pe \<longleftrightarrow> (\<forall>RBP n. errs (pe RBP) n (\<lambda>r k. n \<le> k \<and> (r = None \<longrightarrow> n < k) \<and> nonnull r))"

lemma errs_pe: "reports pe \<Longrightarrow> (\<And>r k. n \<le> k \<Longrightarrow> (r = None \<longrightarrow> n < k) \<Longrightarrow> nonnull r \<Longrightarrow> Q r k) \<Longrightarrow> errs (pe RBP) n Q"
  unfolding reports_def using errs_mono by blast

lemma errs_combine [errs_rules]:
  "(\<And>r k. n \<le> k \<Longrightarrow> (r = None \<longrightarrow> n < k) \<Longrightarrow> nonnull r \<Longrightarrow> Q r k) \<Longrightarrow> errs (combine op LHS r) n Q"
  unfolding combine_def by (intro errs_rules) auto

lemma errs_rest:
  "reports pe \<Longrightarrow> errs (parseExprRest pe f RBP LHS) n (\<lambda>r k. n \<le> k \<and> (r = None \<longrightarrow> LHS = None \<or> n < k) \<and> (nonnull LHS \<longrightarrow> nonnull r))"
proof (induction f arbitrary: LHS n)
  case (Suc f)
  show ?case
    unfolding parseExprRest.simps by (intro errs_rules errs_pe [OF Suc.prems] errs_mono [OF Suc.IH [OF Suc.prems]]) auto
qed (simp add: parseExprRest.simps errs_fuel)

lemma errs_more_args:
  "reports pe \<Longrightarrow> errs (parseMoreArgs pe f args) n (\<lambda>r k. n \<le> k \<and> (r = None \<longrightarrow> n < k))"
proof (induction f arbitrary: args n)
  case (Suc f)
  show ?case
    unfolding parseMoreArgs.simps by (intro errs_rules errs_pe [OF Suc.prems] errs_mono [OF Suc.IH [OF Suc.prems]]) auto
qed (simp add: parseMoreArgs.simps errs_fuel)

lemma errs_subscripts:
  "reports pe \<Longrightarrow> errs (parseSubscripts pe f R es) n (\<lambda>r k. n \<le> k \<and> (r = None \<longrightarrow> n < k))"
proof (induction f arbitrary: es n)
  case (Suc f)
  show ?case
    unfolding parseSubscripts.simps by (intro errs_rules errs_pe [OF Suc.prems] errs_mono [OF Suc.IH [OF Suc.prems]]) auto
qed (simp add: parseSubscripts.simps errs_fuel)


lemma errs_subscript_list:
  "reports pe \<Longrightarrow> (\<And>r k. n \<le> k \<Longrightarrow> (r = None \<longrightarrow> n < k) \<Longrightarrow> Q r k) \<Longrightarrow> errs (parseSubscriptList pe f L R) n Q"
  unfolding parseSubscriptList_def by (intro errs_rules errs_mono [OF errs_subscripts]) auto

lemma errs_call_args [errs_rules]:
  "(\<And>r k. n \<le> k \<Longrightarrow> (r = None \<longrightarrow> n < k) \<Longrightarrow> Q r k) \<Longrightarrow> errs (check_call_args loc sameTy k args) n Q"
  unfolding check_call_args_def by (intro errs_rules) auto

lemma errs_arguments:
  "reports pe \<Longrightarrow> (\<And>r k. n \<le> k \<Longrightarrow> (r = None \<longrightarrow> n < k) \<Longrightarrow> Q r k) \<Longrightarrow> errs (parseCallArgumentList pe f sameTy m) n Q"
  unfolding parseCallArgumentList_def by (intro errs_rules errs_pe [of pe] errs_mono [OF errs_more_args]) auto

lemma errs_builtin:
  "reports pe \<Longrightarrow> (\<And>r k. n \<le> k \<Longrightarrow> (r = None \<longrightarrow> n < k) \<Longrightarrow> nonnull r \<Longrightarrow> Q r k) \<Longrightarrow> errs (parseBuiltinFunction pe f) n Q"
  unfolding parseBuiltinFunction_def by (intro errs_rules errs_arguments) auto

lemma errs_let_value [errs_rules]:
  "(\<And>r k. n \<le> k \<Longrightarrow> (r = None \<longrightarrow> n < k) \<Longrightarrow> nonnull r \<Longrightarrow> Q r k) \<Longrightarrow> errs (parse_let_value m) n Q"
  unfolding parse_let_value_def lookup_let_def by (intro errs_rules) auto

lemma errs_load [errs_rules]:
  "(\<And>r k. n \<le> k \<Longrightarrow> (r = None \<longrightarrow> n < k) \<Longrightarrow> nonnull r \<Longrightarrow> Q r k) \<Longrightarrow> errs (parse_load A es loc) n Q"
  unfolding parse_load_def by (intro errs_rules) auto

lemma errs_name:
  "reports pe \<Longrightarrow> (\<And>r k. n \<le> k \<Longrightarrow> (r = None \<longrightarrow> n < k) \<Longrightarrow> nonnull r \<Longrightarrow> Q r k) \<Longrightarrow> errs (parse_name pe f) n Q"
  unfolding parse_name_def lookup_arg_def by (intro errs_rules errs_subscript_list) auto

lemma errs_primary:
  "reports pe \<Longrightarrow> (\<And>r k. n \<le> k \<Longrightarrow> (r = None \<longrightarrow> n < k) \<Longrightarrow> nonnull r \<Longrightarrow> Q r k) \<Longrightarrow> errs (parseExprPrimary pe f) n Q"
  unfolding parseExprPrimary_def by (intro errs_rules errs_pe [of pe] errs_name [of pe] errs_builtin [of pe]) auto

lemma parseExpr_reports: "reports (parseExpr f)"
proof (induction f)
  case (Suc f)
  have "errs (parseExpr (Suc f) RBP) n (\<lambda>r k. n \<le> k \<and> (r = None \<longrightarrow> n < k) \<and> nonnull r)" for RBP n
    unfolding parseExpr.simps by (intro errs_rules errs_primary [OF Suc.IH] errs_mono [OF errs_rest [OF Suc.IH]]) auto
  then show ?case by (simp add: reports_def)
qed (simp add: reports_def parseExpr.simps errs_fuel)

lemmas errs_expr [errs_rules] = errs_pe [OF parseExpr_reports]

section \<open>Types and declarations\<close>

lemma errs_pair [errs_rules]:
  "(\<And>r k. n \<le> k \<Longrightarrow> (r = None \<longrightarrow> n < k) \<Longrightarrow> Q r k) \<Longrightarrow> errs parseTypePair n Q"
  unfolding parseTypePair_def by (intro errs_rules) auto

lemma errs_builtin_type [errs_rules]:
  "(\<And>r k. n \<le> k \<Longrightarrow> (r = None \<longrightarrow> n < k) \<Longrightarrow> Q r k) \<Longrightarrow> errs parseBuiltinType n Q"
  unfolding parseBuiltinType_def by (intro errs_rules) auto

lemma errs_more_dims: "errs (parseMoreDims f dims) n (\<lambda>_ k. n \<le> k)"
proof (induction f arbitrary: dims n)
  case (Suc f)
  show ?case unfolding parseMoreDims.simps by (intro errs_rules errs_mono [OF Suc.IH]) auto
qed (simp add: errs_fuel)

lemma errs_named_type [errs_rules]:
  "(\<And>failed T' name k. n \<le> k \<Longrightarrow> (failed \<longrightarrow> n < k) \<Longrightarrow> Q (failed, T', name) k) \<Longrightarrow> errs (parseNamedType f T) n Q"
  unfolding parseNamedType_def by (intro errs_rules errs_mono [OF errs_more_dims]) auto

lemma errs_dim [errs_rules]: "(\<And>r k. n \<le> k \<Longrightarrow> Q r k) \<Longrightarrow> errs (parse_dim v) n Q"
  unfolding parse_dim_def lookup_arg_def by (intro errs_rules) auto

lemma errs_literal_or_dim [errs_rules]: "(\<And>r k. n \<le> k \<Longrightarrow> Q r k) \<Longrightarrow> errs parseLiteralOrDimExpr n Q"
  unfolding parseLiteralOrDimExpr_def lookup_let_def by (intro errs_rules) auto

lemma errs_let_stmt [errs_rules]:
  "(\<And>failed k. n \<le> k \<Longrightarrow> (failed \<longrightarrow> n < k) \<Longrightarrow> Q failed k) \<Longrightarrow> errs (parseLetStmt H f) n Q"
  unfolding parseLetStmt_def by (intro errs_rules) auto

lemma errs_lets: "errs (parse_lets H m f) n (\<lambda>failed k. n \<le> k \<and> (failed \<longrightarrow> n < k))"
proof (induction f arbitrary: n)
  case (Suc f)
  show ?case unfolding parse_lets.simps by (intro errs_rules errs_mono [OF Suc.IH]) auto
qed (simp add: errs_fuel)

lemma errs_declare [errs_rules]: "(\<And>v. Q v n) \<Longrightarrow> errs (declare_var nm k) n Q"
  unfolding declare_var_def by (intro errs_rules) auto

section \<open>Statements\<close>

text \<open>No range check has a null condition.\<close>

fun conditions_given :: "stmt \<Rightarrow> bool" where
  "conditions_given (Loop L body) \<longleftrightarrow> list_all conditions_given body"
| "conditions_given (IfRange val lo hi body) \<longleftrightarrow> val \<noteq> null_expr \<and> list_all conditions_given body"
| "conditions_given s \<longleftrightarrow> True"

lemma new_stmts_given:
  "new_StoreStmt_arg h a es x acc = Inr st \<Longrightarrow> conditions_given st"
  "new_StoreLocalStmt h v x acc = Inr st' \<Longrightarrow> conditions_given st'"
  by (auto simp: new_StoreStmt_arg_def new_StoreLocalStmt_def)

lemma errs_var_decl [errs_rules]:
  "(\<And>r k. n \<le> k \<Longrightarrow> (r = None \<longrightarrow> n < k) \<Longrightarrow> pred_option (list_all conditions_given) r \<Longrightarrow> Q r k) \<Longrightarrow> errs (parseVarDecl f) n Q"
  unfolding parseVarDecl_def by (intro errs_rules) (auto dest: new_stmts_given)

lemma errs_vars: "errs (parse_vars m f ss) n (\<lambda>(failed, ss') k. n \<le> k \<and> (failed \<longrightarrow> n < k) \<and> (list_all conditions_given ss \<longrightarrow> list_all conditions_given ss'))"
proof (induction f arbitrary: n ss)
  case (Suc f)
  show ?case unfolding parse_vars.simps by (intro errs_rules errs_mono [OF Suc.IH]) auto
qed (simp add: errs_fuel)

lemma errs_assign [errs_rules]:
  "(\<And>r k. n \<le> k \<Longrightarrow> (r = None \<longrightarrow> n < k) \<Longrightarrow> Q r k) \<Longrightarrow> errs (parse_assign msg) n Q"
  unfolding parse_assign_def by (intro errs_rules) auto

lemma errs_var_assign [errs_rules]:
  "(\<And>r k. n \<le> k \<Longrightarrow> (r = None \<longrightarrow> n < k) \<Longrightarrow> (k = n \<longrightarrow> pred_option conditions_given r) \<Longrightarrow> Q r k) \<Longrightarrow> errs (parse_var_assign f v loc) n Q"
  unfolding parse_var_assign_def by (intro errs_rules) (auto dest: new_stmts_given)

lemma errs_store [errs_rules]:
  "(\<And>r k. n \<le> k \<Longrightarrow> (r = None \<longrightarrow> n < k) \<Longrightarrow> (k = n \<longrightarrow> pred_option conditions_given r) \<Longrightarrow> Q r k) \<Longrightarrow> errs (parse_store f a loc) n Q"
  unfolding parse_store_def by (intro errs_rules errs_subscript_list [OF parseExpr_reports]) (auto dest: new_stmts_given)

lemma errs_named_stmt [errs_rules]:
  "(\<And>r k. n \<le> k \<Longrightarrow> (r = None \<longrightarrow> n < k) \<Longrightarrow> (k = n \<longrightarrow> pred_option conditions_given r) \<Longrightarrow> Q r k) \<Longrightarrow> errs (parse_named_stmt f) n Q"
  unfolding parse_named_stmt_def lookup_arg_def by (intro errs_rules errs_subscript_list [OF parseExpr_reports]) auto

lemma errs_for_range [errs_rules]: "(\<And>r k. n \<le> k \<Longrightarrow> Q r k) \<Longrightarrow> errs parse_for_range n Q"
  unfolding parse_for_range_def by (intro errs_rules) auto

lemma errs_if_range [errs_rules]:
  "(\<And>v lo hi k. n \<le> k \<Longrightarrow> (v = None \<longrightarrow> n < k) \<Longrightarrow> nonnull v \<Longrightarrow> Q (v, lo, hi) k) \<Longrightarrow> errs (parse_if_range f) n Q"
  unfolding parse_if_range_def by (intro errs_rules) auto

definition scope_counts :: "scope_parser \<Rightarrow> bool" where
  "scope_counts ps \<longleftrightarrow> (\<forall>n. errs ps n (\<lambda>ss k. n \<le> k \<and> (k = n \<longrightarrow> list_all conditions_given ss)))"

lemma errs_scope: "scope_counts ps \<Longrightarrow> (\<And>ss k. n \<le> k \<Longrightarrow> (k = n \<longrightarrow> list_all conditions_given ss) \<Longrightarrow> Q ss k) \<Longrightarrow> errs ps n Q"
  unfolding scope_counts_def using errs_mono by blast

lemma errs_loop:
  "scope_counts ps \<Longrightarrow> (\<And>r k. n \<le> k \<Longrightarrow> (r = None \<longrightarrow> n < k) \<Longrightarrow> (k = n \<longrightarrow> pred_option conditions_given r) \<Longrightarrow> Q r k) \<Longrightarrow> errs (parse_loop ps nm e st) n Q"
  unfolding parse_loop_def by (intro errs_rules errs_scope [of ps]) auto

lemma errs_for:
  "scope_counts ps \<Longrightarrow> (\<And>r k. n \<le> k \<Longrightarrow> (r = None \<longrightarrow> n < k) \<Longrightarrow> (k = n \<longrightarrow> pred_option conditions_given r) \<Longrightarrow> Q r k) \<Longrightarrow> errs (parseForStmt ps) n Q"
  unfolding parseForStmt_def by (intro errs_rules errs_loop) auto

lemma nonnull_IfRange: "nonnull (Some e) \<Longrightarrow> conditions_given (IfRange e lo hi ss) \<longleftrightarrow> list_all conditions_given ss"
  by (simp add: nonnull_def)

lemma errs_ifs:
  "scope_counts ps \<Longrightarrow> (\<And>r k. n \<le> k \<Longrightarrow> (r = None \<longrightarrow> n < k) \<Longrightarrow> (k = n \<longrightarrow> pred_option conditions_given r) \<Longrightarrow> Q r k) \<Longrightarrow> errs (parseIfStmt f ps) n Q"
  unfolding parseIfStmt_def by (intro errs_rules errs_scope [of ps]) (auto simp: nonnull_IfRange simp del: conditions_given.simps(2))

lemma errs_one_stmt:
  "scope_counts ps \<Longrightarrow> (\<And>r k. n \<le> k \<Longrightarrow> (r = None \<longrightarrow> n < k) \<Longrightarrow> (k = n \<longrightarrow> pred_option conditions_given r) \<Longrightarrow> Q r k) \<Longrightarrow> errs (parseOneStmt f ps) n Q"
  unfolding parseOneStmt_def by (intro errs_rules errs_for errs_ifs) auto

lemma errs_stmts: "scope_counts ps \<Longrightarrow> errs (parse_stmts H m ps f ss) n
    (\<lambda>ss' k. n \<le> k \<and> (k = n \<longrightarrow> list_all conditions_given ss \<longrightarrow> list_all conditions_given ss'))"
proof (induction f arbitrary: n ss)
  case (Suc f)
  show ?case
    unfolding parse_stmts.simps
    by (intro errs_rules errs_mono [OF errs_lets] errs_mono [OF errs_vars] errs_one_stmt [OF Suc.prems]
        errs_mono [OF Suc.IH [OF Suc.prems]]) auto
qed (simp add: errs_fuel)

lemma errs_restore [errs_rules]: "Q () n \<Longrightarrow> errs (restore_lets m) n Q"
  unfolding restore_lets_def by (intro errs_rules) auto

lemma parseScope_counts: "scope_counts (parseScope H f)"
proof (induction f)
  case (Suc f)
  show ?case
    unfolding scope_counts_def parseScope.simps by (intro allI errs_rules errs_mono [OF errs_stmts [OF Suc.IH]]) auto
qed (simp add: scope_counts_def errs_fuel)

section \<open>Programs\<close>

lemma errs_register [errs_rules]: "Q () n \<Longrightarrow> errs (register_arg nm T) n Q"
  unfolding register_arg_def by (intro errs_rules) auto

lemma errs_params: "errs (parse_params f T) n (\<lambda>_ k. n \<le> k)"
proof (induction f arbitrary: T n)
  case (Suc f)
  show ?case unfolding parse_params.simps lookup_arg_def by (intro errs_rules errs_mono [OF Suc.IH]) auto
qed (simp add: errs_fuel)

lemma errs_function [errs_rules]:
  "(\<And>r k. n \<le> k \<Longrightarrow> (r = None \<longrightarrow> n < k) \<Longrightarrow> (k = n \<longrightarrow> pred_option (\<lambda>p. list_all conditions_given (pr_body p)) r) \<Longrightarrow> Q r k) \<Longrightarrow> errs (parseFunctionDecl H f) n Q"
  unfolding parseFunctionDecl_def
  by (intro errs_rules errs_mono [OF errs_params] errs_scope [OF parseScope_counts]) auto

lemma errs_pragma [errs_rules]: "Q () n \<Longrightarrow> errs (add_pragma pk loc l nm x) n Q"
  unfolding add_pragma_def by (intro errs_rules) auto

lemma errs_script_error [errs_rules]: "(\<And>k. n < k \<Longrightarrow> Q () k) \<Longrightarrow> errs (script_error msg) n Q"
  unfolding script_error_def by (intro errs_rules) auto

lemma errs_command [errs_rules]: "(\<And>k. n \<le> k \<Longrightarrow> Q () k) \<Longrightarrow> errs (parse_command pk loc) n Q"
  unfolding parse_command_def by (intro errs_rules) auto

lemma errs_commands: "errs (parse_commands f) n (\<lambda>_ k. n \<le> k)"
proof (induction f arbitrary: n)
  case (Suc f)
  show ?case unfolding parse_commands.simps by (intro errs_rules errs_mono [OF Suc.IH]) auto
qed (simp add: errs_fuel)

lemma errs_script [errs_rules]: "(\<And>k. n \<le> k \<Longrightarrow> Q () k) \<Longrightarrow> errs (parseScriptDecl f) n Q"
  unfolding parseScriptDecl_def by (intro errs_rules errs_mono [OF errs_commands]) auto


lemma bindP_result: "bindP m f s = Some (Inr (y, s')) \<longleftrightarrow> (\<exists>x s1. m s = Some (Inr (x, s1)) \<and> f x s1 = Some (Inr (y, s')))"
  by (auto simp: bindP_def split: option.splits sum.splits)

lemma errsD: "errs m n Q \<Longrightarrow> m s = Some (Inr (x, s')) \<Longrightarrow> cx_numErrors s = n \<Longrightarrow> Q x (cx_numErrors s')"
  by (simp add: errs_def)

lemma errs_leD:
  "errs m (cx_numErrors s) (\<lambda>_ k. cx_numErrors s \<le> k) \<Longrightarrow> m s = Some (Inr (x, s')) \<Longrightarrow> cx_numErrors s \<le> cx_numErrors s'"
  by (simp add: errs_def)

lemma endsD: "ends m s Q \<Longrightarrow> m s = Some (Inr (x, s')) \<Longrightarrow> Q x s'"
  by (simp add: ends_def)

text \<open>What the steps of \<open>parse\<close> do to the counter.\<close>

lemma counter_steps:
  "consumeToken s = Some (Inr (u, s')) \<Longrightarrow> cx_numErrors s \<le> cx_numErrors s'"
  "parse_lets H m f s = Some (Inr (b, s')) \<Longrightarrow> cx_numErrors s \<le> cx_numErrors s' \<and> (b \<longrightarrow> cx_numErrors s < cx_numErrors s')"
  "parseFunctionDecl H f s = Some (Inr (p, s')) \<Longrightarrow> cx_numErrors s \<le> cx_numErrors s' \<and> (p = None \<longrightarrow> cx_numErrors s < cx_numErrors s')"
  "parseScriptDecl f s = Some (Inr (u, s')) \<Longrightarrow> cx_numErrors s \<le> cx_numErrors s'"
  "errorP msg s = Some (Inr (u, s')) \<Longrightarrow> cx_numErrors s < cx_numErrors s'"
  by (rule errsD [OF _ _ refl, rotated], assumption, intro errs_rules errs_mono [OF errs_lets], simp)+

lemma function_given:
  assumes "parseFunctionDecl H f s = Some (Inr (p, s'))" "cx_numErrors s' = cx_numErrors s"
  shows "pred_option (\<lambda>p. list_all conditions_given (pr_body p)) p"
proof -
  have "errs (parseFunctionDecl H f) n (\<lambda>r k. k = n \<longrightarrow> pred_option (\<lambda>p. list_all conditions_given (pr_body p)) r)" for n
    by (rule errs_function) simp
  from errsD [OF this assms(1) refl] assms(2) show ?thesis by simp
qed

lemma script_keeps_program: "parseScriptDecl f s = Some (Inr (u, s')) \<Longrightarrow> ps_left s \<le> f \<Longrightarrow> cx_prog s' = cx_prog s"
proof -
  assume r: "parseScriptDecl f s = Some (Inr (u, s'))" and l: "ps_left s \<le> f"
  have "named s' = named s" using endsD [OF parseScriptDecl_ends [OF l, where Q = "\<lambda>_ s'. moved s s'"] r] by (simp add: moved_def)
  then show ?thesis by (simp add: named_folds)
qed

lemma header_left:
  assumes "consumeToken s = Some (Inr (u1, s1))" "parse_lets H n n s1 = Some (Inr (b, s2))"
    "parseFunctionDecl H n s2 = Some (Inr (p, s3))"
    and s: "names_ok (named s)" "cx_loopStack (named s) = []" "ps_left s \<le> n"
  shows "ps_left s3 \<le> n"
proof -
  have 1: "used s s1" using endsD [OF ends_consume assms(1), where Q = "\<lambda>_ s1. used s s1"] by simp
  then have "names_ok (named s1)" "ps_left s1 < n" using s by (simp_all add: used_def)
  from endsD [OF parse_lets_ends [OF order_refl this(2,1)] assms(2)]
  have 2: "ps_left s2 \<le> ps_left s1" "grown (named s1) (named s2)" by simp_all
  have "ends (parseFunctionDecl H n) s2 (\<lambda>_. header_post s2)"
    by (rule parseFunctionDecl_ends) (use 1 2 s in \<open>auto simp: used_def grown_def\<close>)
  from endsD [OF this assms(3)] show ?thesis using 1 2 s(3) by (simp add: header_post_def used_def)
qed

text \<open>A run of \<open>parse\<close> without a new error goes through the function and ends at the end of the file.\<close>

lemma parse_without_errors:
  assumes r: "parse H n s = Some (Inr (u, s'))" and e: "cx_numErrors s' = cx_numErrors s"
    and s: "names_ok (named s)" "cx_loopStack (named s) = []" "ps_left s \<le> n"
  shows "cx_prog s' \<noteq> None \<and> pred_option (\<lambda>p. list_all conditions_given (pr_body p)) (cx_prog s') \<and> tk_kind (ps_tok s') = tok_eof"
proof -
  let ?script = "\<lambda>script. thenP (if script then parseScriptDecl n else retP ())
    (bindP (isP tok_eof) (\<lambda>at_end. if at_end then retP () else errorP ''expecting eof of file after function.''))"
  let ?put = "\<lambda>p. if p \<noteq> None then putP (\<lambda>s. s\<lparr>cx_prog := p\<rparr>) else retP ()"
  let ?func = "\<lambda>func. if \<not> func then errorP ''expecting function decleration.''
    else bindP (parseFunctionDecl H n) (\<lambda>p. thenP (?put p) (bindP (isP (KEYWORD ''script'')) ?script))"
  obtain s1 b s2 where 1: "consumeToken s = Some (Inr ((), s1))" "parse_lets H n n s1 = Some (Inr (b, s2))"
    and r2: "(if b then retP () else bindP (isP (KEYWORD ''func'')) ?func) s2 = Some (Inr (u, s'))"
    using r unfolding parse_def thenP_def [of consumeToken] by (auto simp: bindP_result)
  have script_mono: "cx_numErrors t \<le> cx_numErrors t'" if "bindP (isP (KEYWORD ''script'')) ?script t = Some (Inr (u, t'))" for t t'
    by (rule errs_leD [where m = "bindP (isP (KEYWORD ''script'')) ?script" and s = t, OF _ that]) (intro errs_rules, simp_all)
  have func_mono: "cx_numErrors t \<le> cx_numErrors t'" if "bindP (isP (KEYWORD ''func'')) ?func t = Some (Inr (u, t'))" for t t'
    by (rule errs_leD [where m = "bindP (isP (KEYWORD ''func'')) ?func" and s = t, OF _ that]) (intro errs_rules, auto)
  have b: "\<not> b" "cx_numErrors s \<le> cx_numErrors s2"
    using counter_steps(1) [OF 1(1)] counter_steps(2) [OF 1(2)] r2 e by (auto simp: retP_def split: if_splits)
  have "tk_kind (ps_tok s2) = KEYWORD ''func''"
    using r2 b e counter_steps(5) by (fastforce simp: bindP_result isP_def getP_def split: if_splits)
  then obtain p s3 where 3: "parseFunctionDecl H n s2 = Some (Inr (p, s3))"
    and r3: "thenP (?put p) (bindP (isP (KEYWORD ''script'')) ?script) s3 = Some (Inr (u, s'))"
    using r2 b(1) by (auto simp: bindP_result isP_def getP_def)
  have s3: "ps_left s3 \<le> n" by (rule header_left [OF 1 3 s])
  obtain s4 where s4: "s4 = (if p \<noteq> None then s3\<lparr>cx_prog := p\<rparr> else s3)"
    and r4: "bindP (isP (KEYWORD ''script'')) ?script s4 = Some (Inr (u, s'))"
    using r3 by (cases p) (auto simp: thenP_def bindP_result putP_def retP_def)
  have le: "cx_numErrors s4 \<le> cx_numErrors s'" by (rule script_mono [OF r4])
  then have p: "p \<noteq> None" using counter_steps(3) [OF 3] s4 b(2) e by (cases p) auto
  then have "cx_numErrors s3 = cx_numErrors s2" using counter_steps(3) [OF 3] le s4 b(2) e by auto
  note given = function_given [OF 3 this]
  let ?eof = "bindP (isP tok_eof) (\<lambda>at_end. if at_end then retP () else errorP ''expecting eof of file after function.'')"
  have "\<exists>s5. (s5 = s4 \<or> parseScriptDecl n s4 = Some (Inr ((), s5))) \<and> ?eof s5 = Some (Inr (u, s'))"
  proof (cases "tk_kind (ps_tok s4) = KEYWORD ''script''")
    case True
    then obtain s5 where "parseScriptDecl n s4 = Some (Inr ((), s5))" "?eof s5 = Some (Inr (u, s'))"
      using r4 unfolding thenP_def bindP_result [of "isP (KEYWORD ''script'')"] isP_def [of "KEYWORD ''script''"] getP_def
      by (auto simp: bindP_result)
    then show ?thesis by blast
  next
    case False
    then have "?eof s4 = Some (Inr (u, s'))" using r4 by (simp add: thenP_def bindP_def isP_def getP_def retP_def)
    then show ?thesis by blast
  qed
  then obtain s5 where s5: "s5 = s4 \<or> parseScriptDecl n s4 = Some (Inr ((), s5))" and r5: "?eof s5 = Some (Inr (u, s'))"
    by blast
  have prog: "cx_prog s5 = p" using s5 script_keeps_program s3 s4 p by (auto simp: ps_left_def)
  have m: "cx_numErrors s \<le> cx_numErrors s5"
    using s5 counter_steps(4) [of n s4] counter_steps(3) [OF 3] s4 b(2) p by fastforce
  show ?thesis using r5 prog p given m e counter_steps(5) by (fastforce simp: bindP_result isP_def getP_def retP_def split: if_splits)
qed

lemma parse_silent:
  assumes "parseProgram H (new_context h buffer filename) names vals = Some (Inr (r, s))" "cx_numErrors s = 0"
  shows "r = cx_prog s \<and> r \<noteq> None \<and> pred_option (\<lambda>p. list_all conditions_given (pr_body p)) r \<and> tk_kind (ps_tok s) = tok_eof"
proof -
  let ?s = "new_parser (register_lets names vals (new_context h buffer filename))"
  have "length names = length vals" using assms(1) by (simp add: parseProgram_def split: if_splits)
  then have p: "parse H (length buffer + 1) ?s = Some (Inr ((), s))" "r = cx_prog s"
    using assms(1) by (auto simp: parseProgram_def new_context_def bindP_result getP_def)
  have "cx_numErrors ?s = 0" by (simp add: new_parser_def register_lets_def new_context_def context_state.defs parser.defs)
  moreover have "cx_loopStack (named ?s) = []" by (simp add: new_parser_named register_lets_def new_context_def)
  moreover have "ps_left ?s \<le> length buffer + 1"
    by (simp add: new_parser_def register_lets_def new_context_def context_state.defs parser.defs ps_left_def token_left_def)
  ultimately show ?thesis using parse_without_errors [OF p(1) _ names_ok_start] assms(2) p(2) by simp
qed

text \<open>C16. The parser does not fail in silence: when it returns without having reported an error, it has
  registered a program and read the file to its end.\<close>

theorem silent_parse_succeeds:
  assumes "parseProgram H (new_context h buffer filename) names vals = Some (Inr (r, s))" "cx_numErrors s = 0"
  shows "r = cx_prog s \<and> r \<noteq> None \<and> tk_kind (ps_tok s) = tok_eof"
  using parse_silent [OF assms] by blast

text \<open>C15. Every program the parser registers, also after errors it has reported, has a well-formed structure: all
  objects are allocated, every loop is declared once, and every index refers to a loop around it, even
  through \<open>let\<close> values. After an error it may hold range checks whose condition is a null pointer, which the
  rest of the compiler must not touch; a program parsed without an error holds none, so the theorems about
  transformations apply to it.\<close>

theorem parsed_program_wf:
  assumes "parseProgram H (new_context h buffer filename) names vals = Some (Inr (Some p, s))"
  shows "wf_body (cx_heap s) (pr_body p) \<and> below_program (cx_heap s) p
    \<and> (cx_numErrors s = 0 \<longrightarrow> list_all conditions_given (pr_body p))"
  using parsed_wf [OF assms] parse_silent [OF assms] by auto

end
