(* ===== verification/ParserTexts.thy ===== *)
theory ParserTexts
  imports ParserErrors
begin

text \<open>
  The parser on families of texts: loops as \<open>dump\<close> prints them, and loops with a stride of zero. The
  statement parser is run step by step on a text with a variable name, bounds and rest.
\<close>

section \<open>Lexing\<close>

lemma word_not_blank: "word_char c \<Longrightarrow> \<not> is_blank c \<and> c \<noteq> CHR ''/''"
  by (auto simp: word_char_def isalnum_c_def is_blank_def)

lemma skip_blanks_space [simp]: "skip_blanks (CHR '' '' # cs) = skip_blanks cs"
  by (subst skip_blanks.simps) (simp add: is_blank_def)

lemma skip_blanks_stop: "\<not> is_blank c \<Longrightarrow> c \<noteq> CHR ''/'' \<Longrightarrow> skip_blanks (c # cs) = c # cs"
  by (subst skip_blanks.simps) simp

lemma skip_spaces [simp]: "skip_blanks (spaces n @ cs) = skip_blanks cs"
  by (induction n) (simp_all add: spaces_def)

lemmas lexing = next_token_def lex_token_def isalpha_c_def isalnum_c_def isdigit_c_def lexIdentifier_def word_char_def
  formToken_def bind_require word_kind_def func_names_def type_names_def keyword_names_def lexNumber_def
  punct1_def punct2_def Let_def is_blank_def

text \<open>The words and signs of a loop header.\<close>

lemma header_tokens:
  "next_token (spaces n @ ''for ('' @ cs) = Inr (\<lparr>tk_kind = KEYWORD ''for'', tk_text = ''for'', tk_loc = length cs + 5\<rparr>, '' ('' @ cs)"
  "next_token ('' ('' @ cs) = Inr (\<lparr>tk_kind = punct ''l_paren'', tk_text = ''('', tk_loc = length cs + 1\<rparr>, cs)"
  "next_token ('' in 0'' @ cs) = Inr (\<lparr>tk_kind = KEYWORD ''in'', tk_text = ''in'', tk_loc = length cs + 4\<rparr>, '' 0'' @ cs)"
  "next_token ('' 0..'' @ cs) = Inr (\<lparr>tk_kind = tok_float, tk_text = ''0.'', tk_loc = length cs + 3\<rparr>, ''.'' @ cs)"
  "next_token ('' 0 .. '' @ cs) = Inr (\<lparr>tk_kind = tok_integer, tk_text = ''0'', tk_loc = length cs + 5\<rparr>, '' .. '' @ cs)"
  "next_token ('' .. '' @ cs) = Inr (\<lparr>tk_kind = punct ''range'', tk_text = ''..'', tk_loc = length cs + 3\<rparr>, '' '' @ cs)"
  "next_token ('', '' @ cs) = Inr (\<lparr>tk_kind = punct ''comma'', tk_text = '','', tk_loc = length cs + 2\<rparr>, '' '' @ cs)"
  "next_token ('' 0)'' @ cs) = Inr (\<lparr>tk_kind = tok_integer, tk_text = ''0'', tk_loc = length cs + 2\<rparr>, '')'' @ cs)"
  "next_token ('')'' @ cs) = Inr (\<lparr>tk_kind = punct ''r_paren'', tk_text = '')'', tk_loc = length cs + 1\<rparr>, cs)"
  by (simp_all add: lexing skip_blanks_stop)

lemma lexNumber_kind: "\<exists>k tx rest. lexNumber (c # cs) = Inr (k, tx, rest) \<and> k \<in> {tok_integer, tok_float}"
  by (auto simp: lexNumber_def Let_def formToken_def bind_require split: prod.split)

lemma take_word:
  assumes "list_all word_char name" "\<not> word_char c"
  shows "takeWhile word_char (name @ c # cs) = name" "dropWhile word_char (name @ c # cs) = c # cs"
  using assms by (induction name) simp_all

lemma legal_word: "isLegalName name \<Longrightarrow> list_all word_char name"
  by (auto simp: isLegalName_def word_char_def list_all_iff)

lemma skip_blanks_name:
  assumes "isLegalName name" "name \<noteq> []"
  shows "skip_blanks (name @ cs) = name @ cs"
proof -
  obtain x xs where x: "name = x # xs" using assms(2) by (cases name) auto
  then have "word_char x" using legal_word [OF assms(1)] by simp
  then show ?thesis using word_not_blank x by (simp add: skip_blanks_stop)
qed

text \<open>The token at a legal name that does not start with a digit.\<close>

lemma identifier_token:
  assumes "isLegalName name" "name \<noteq> []" "\<not> isdigit_c (hd name)" "word_kind name = K" "\<not> word_char c"
  shows "\<exists>t. next_token (name @ c # cs) = Inr (t, c # cs) \<and> tk_kind t = K \<and> tk_text t = name"
proof -
  obtain x xs where x: "name = x # xs" using assms(2) by (cases name) auto
  have w: "list_all word_char name" by (rule legal_word [OF assms(1)])
  then have "isalpha_c x \<or> x = CHR ''_''" using assms(3) x by (auto simp: isalpha_c_def word_char_def)
  then have "lex_token (name @ c # cs) = Inr (K, name, c # cs)"
    using take_word [OF w assms(5)] assms(4) by (simp add: x lex_token_def lexIdentifier_def formToken_def bind_require Let_def)
  then show ?thesis using skip_blanks_name [OF assms(1,2)] by (simp add: next_token_def Let_def)
qed

text \<open>The token at a legal name: the name, if it is an identifier.\<close>

lemma name_token:
  assumes "isLegalName name" "\<not> word_char c" "next_token (c # cs) = Inr (t0, rest0)" "tk_kind t0 \<notin> {unknown, tok_identifier}"
  shows "\<exists>t rest. next_token (name @ c # cs) = Inr (t, rest) \<and> tk_kind t \<noteq> unknown
    \<and> (tk_kind t = tok_identifier \<longrightarrow> tk_text t = name \<and> rest = c # cs)"
proof (cases name)
  case Nil
  then show ?thesis using assms(3,4) by simp
next
  case (Cons x xs)
  show ?thesis
  proof (cases "isdigit_c x")
    case False
    then have "\<exists>t. next_token (name @ c # cs) = Inr (t, c # cs) \<and> tk_kind t = word_kind name \<and> tk_text t = name"
      using identifier_token [OF assms(1) _ _ refl assms(2)] Cons by simp
    moreover have "word_kind name \<noteq> unknown" by (simp add: word_kind_def)
    ultimately show ?thesis by auto
  next
    case True
    then have "\<not> (isalpha_c x \<or> x = CHR ''_'')" by (auto simp: isalpha_c_def isdigit_c_def)
    with True obtain k tx rest where "lex_token (name @ c # cs) = Inr (k, tx, rest)" "k \<in> {tok_integer, tok_float}"
      using lexNumber_kind [of x "xs @ c # cs"] by (auto simp: Cons lex_token_def)
    then show ?thesis using skip_blanks_name [OF assms(1), of "c # cs"] Cons by (auto simp: next_token_def Let_def)
  qed
qed

section \<open>Steps\<close>

text \<open>A run that ends has counted more than \<open>n\<close> errors.\<close>

definition raises :: "nat \<Rightarrow> 'a parse \<Rightarrow> parser \<Rightarrow> bool" where
  "raises n m s \<longleftrightarrow> (\<forall>x s'. m s = Some (Inr (x, s')) \<longrightarrow> n < cx_numErrors s')"

lemma raises_step: "m s = r \<Longrightarrow> r = Some (Inr (x, s1)) \<Longrightarrow> raises n (f x) s1 \<Longrightarrow> raises n (bindP m f) s"
  by (simp add: raises_def bindP_def)

lemma raises_errs: "errs m (cx_numErrors s) (\<lambda>_ k. n < k) \<Longrightarrow> raises n m s"
  by (auto simp: raises_def errs_def)

lemma raises_bind:
  assumes "raises n m s" "\<And>x k. errs (f x) k (\<lambda>_ k'. k \<le> k')"
  shows "raises n (bindP m f) s"
  unfolding raises_def
proof (intro allI impI)
  fix y s' assume "bindP m f s = Some (Inr (y, s'))"
  then obtain x s1 where x: "m s = Some (Inr (x, s1))" "f x s1 = Some (Inr (y, s'))" by (auto simp: bindP_result)
  have "n < cx_numErrors s1" using assms(1) x(1) by (simp add: raises_def)
  also have "\<dots> \<le> cx_numErrors s'" by (rule errs_leD [OF assms(2) x(2)])
  finally show "n < cx_numErrors s'" .
qed

lemma bind_runs: "m s = r \<Longrightarrow> r = Some (Inr (x, s1)) \<Longrightarrow> f x s1 = q \<Longrightarrow> bindP m f s = q"
  by (simp add: bindP_def)

definition at_token :: "parser \<Rightarrow> token \<Rightarrow> string \<Rightarrow> parser" where
  "at_token s t rest = s\<lparr>ps_rest := rest, ps_tok := t\<rparr>"

lemma at_token_simps [simp]:
  "ps_tok (at_token s t rest) = t" "ps_rest (at_token s t rest) = rest" "cx_numErrors (at_token s t rest) = cx_numErrors s"
  "at_token (at_token s t0 rest0) t rest = at_token s t rest"
  by (simp_all add: at_token_def)

lemma consume_step:
  assumes "tk_kind (ps_tok s) \<noteq> tok_eof" "next_token (ps_rest s) = Inr (t, rest)" "tk_kind t \<noteq> unknown"
  shows "consumeToken s = Some (Inr ((), at_token s t rest))"
  using assms by (simp add: consumeToken_def Lex_def bind_require at_token_def)

lemma consumes:
  assumes "tk_kind (ps_tok s) = K" "K \<noteq> tok_eof" "next_token (ps_rest s) = Inr (t, rest)" "tk_kind t \<noteq> unknown"
  shows "consumeTokenKind K s = Some (Inr ((), at_token s t rest))" "consumeIf K s = Some (Inr (True, at_token s t rest))"
  using assms consume_step [of s t rest]
  by (simp_all add: consumeTokenKind_def consumeIf_def bindP_def thenP_def isP_def getP_def retP_def)

lemma identifier_step:
  assumes "tk_kind (ps_tok s) = tok_identifier" "next_token (ps_rest s) = Inr (t, rest)" "tk_kind t \<noteq> unknown"
  shows "parseIdentifier s = Some (Inr (Some (tk_text (ps_tok s)), at_token s t rest))"
  using assms consumes(1) [OF assms(1) _ assms(2,3)]
  by (simp add: parseIdentifier_def bindP_def thenP_def tokP_def getP_def retP_def)

lemma no_identifier: "tk_kind (ps_tok s) \<noteq> tok_identifier \<Longrightarrow> parseIdentifier s = Some (Inr (None, s))"
  by (simp add: parseIdentifier_def bindP_def tokP_def getP_def retP_def)

lemma integer_step:
  assumes "tk_kind (ps_tok s) = tok_integer" "atoi (tk_text (ps_tok s)) = Inr v" "next_token (ps_rest s) = Inr (t, rest)" "tk_kind t \<noteq> unknown"
  shows "parseIntegerLiteral s = Some (Inr (Some v, at_token s t rest))"
  using assms consumes(1) [OF assms(1) _ assms(3,4)]
  by (simp add: parseIntegerLiteral_def bindP_def thenP_def tokP_def getP_def retP_def liftP_def)

lemma no_integer: "tk_kind (ps_tok s) \<noteq> tok_integer \<Longrightarrow> parseIntegerLiteral s = Some (Inr (None, s))"
  by (simp add: parseIntegerLiteral_def bindP_def tokP_def getP_def retP_def)

lemma tok_step: "tokP s = Some (Inr (ps_tok s, s))"
  by (simp add: tokP_def getP_def)

section \<open>Loops as they are printed\<close>

lemma range_raises: "tk_kind (ps_tok s) \<noteq> tok_integer \<Longrightarrow> raises (cx_numErrors s) parse_for_range s"
  unfolding parse_for_range_def
  by (rule raises_step, erule no_integer, rule refl) (auto intro!: raises_errs errs_rules)

lemma identifier_missing:
  "tk_kind (ps_tok s) \<noteq> tok_identifier \<Longrightarrow>
     raises (cx_numErrors s) (bindP parseIdentifier (\<lambda>x. case x of None \<Rightarrow> give_up msg | Some y \<Rightarrow> f y)) s"
  by (rule raises_step, erule no_identifier, rule refl) (auto intro!: raises_errs errs_rules)

text \<open>The statement from its first token on.\<close>

lemma printed_for_raises:
  assumes legal: "isLegalName name" and t: "tk_kind (ps_tok s) = KEYWORD ''for''" and r: "ps_rest s = '' ('' @ name @ '' in 0..'' @ cs"
  shows "raises (cx_numErrors s) (parseForStmt (parseScope H m)) s"
proof -
  have in_tok: "next_token (CHR '' '' # ''in 0..'' @ cs) =
      Inr (\<lparr>tk_kind = KEYWORD ''in'', tk_text = ''in'', tk_loc = length cs + 6\<rparr>, '' 0..'' @ cs)"
    using header_tokens(3) [of "''..'' @ cs"] by simp
  obtain t1 rest1 where n: "next_token (name @ CHR '' '' # ''in 0..'' @ cs) = Inr (t1, rest1)" "tk_kind t1 \<noteq> unknown"
    "tk_kind t1 = tok_identifier \<Longrightarrow> tk_text t1 = name \<and> rest1 = CHR '' '' # ''in 0..'' @ cs"
    using name_token [OF legal _ in_tok] by (auto simp: word_char_def isalnum_c_def)
  let ?paren = "\<lparr>tk_kind = punct ''l_paren'', tk_text = ''('', tk_loc = length (name @ '' in 0..'' @ cs) + 1\<rparr>"
  let ?s1 = "at_token s ?paren (name @ '' in 0..'' @ cs)" and ?s2 = "at_token s t1 rest1"
  have c1: "consumeTokenKind (KEYWORD ''for'') s = Some (Inr ((), ?s1))"
    by (rule consumes(1) [OF t]) (use header_tokens(2) r in simp_all)
  have c2: "consumeIf (punct ''l_paren'') ?s1 = Some (Inr (True, ?s2))"
    using consumes(2) [of ?s1 "punct ''l_paren''" t1 rest1] n by simp
  show ?thesis
  proof (cases "tk_kind t1 = tok_identifier")
    case False
    show ?thesis unfolding parseForStmt_def thenP_def
      apply (rule raises_step, rule tok_step, rule refl)
      apply (rule raises_step, rule c1, rule refl)
      apply (rule raises_step, rule c2, rule refl)
      using identifier_missing [of ?s2] False by simp
  next
    case True
    let ?in = "\<lparr>tk_kind = KEYWORD ''in'', tk_text = ''in'', tk_loc = length cs + 6\<rparr>"
    let ?zero = "\<lparr>tk_kind = tok_float, tk_text = ''0.'', tk_loc = length cs + 3\<rparr>"
    let ?s3 = "at_token s ?in ('' 0..'' @ cs)" and ?s4 = "at_token s ?zero (''.'' @ cs)"
    have c3: "parseIdentifier ?s2 = Some (Inr (Some name, ?s3))"
      using identifier_step [of ?s2 ?in "'' 0..'' @ cs"] True n(3) in_tok by simp
    have c4: "consumeIf (KEYWORD ''in'') ?s3 = Some (Inr (True, ?s4))"
      using consumes(2) [of ?s3 "KEYWORD ''in''" ?zero "''.'' @ cs"] header_tokens(4) [of cs] by simp
    have range: "raises (cx_numErrors s) parse_for_range ?s4" using range_raises [of ?s4] by simp
    show ?thesis unfolding parseForStmt_def thenP_def
      apply (rule raises_step, rule tok_step, rule refl)
      apply (rule raises_step, rule c1, rule refl)
      apply (rule raises_step, rule c2, rule refl)
      apply (simp only: option.case simp_thms if_False)
      apply (rule raises_step, rule c3, rule refl)
      apply (simp only: option.case simp_thms if_False)
      apply (rule raises_step, rule c4, rule refl)
      apply (simp only: option.case simp_thms if_False)
      apply (rule raises_bind [OF range])
      apply (auto intro!: errs_rules errs_loop [OF parseScope_counts])
      done
  qed
qed

text \<open>C39. The parser does not read loops as \<open>dump\<close> prints them: on the text of any loop with a legal name,
  at any indentation, with any body, in any context and before any further text, the statement parser reports an
  error, if it returns at all. The end is printed as in \<open>0..9\<close>, without the spaces that the lexer
  needs, which reads \<open>0.\<close> as a float.\<close>

theorem printed_loop_rejected:
  assumes "isLegalName (loop_name h L)" "ps_rest s = dump_stmt h indent (Loop L body) @ rest"
    and "thenP consumeToken (parseOneStmt n (parseScope H m)) s = Some (Inr (r, s'))"
  shows "cx_numErrors s < cx_numErrors s'"
proof -
  obtain cs where cs: "ps_rest s = spaces indent @ ''for ('' @ loop_name h L @ '' in 0..'' @ cs"
    using assms(2) by simp
  let ?cs = "loop_name h L @ '' in 0..'' @ cs"
  let ?for = "\<lparr>tk_kind = KEYWORD ''for'', tk_text = ''for'', tk_loc = length ?cs + 5\<rparr>"
  let ?s1 = "at_token s ?for ('' ('' @ ?cs)"
  have "tk_kind (ps_tok s) \<noteq> tok_eof"
    using assms(3) by (auto simp: thenP_def bindP_def consumeToken_def bind_require split: if_splits)
  then have c: "consumeToken s = Some (Inr ((), ?s1))"
    by (rule consume_step) (use header_tokens(1) [of indent ?cs] cs in simp_all)
  have "raises (cx_numErrors s) (parseOneStmt n (parseScope H m)) ?s1"
    unfolding parseOneStmt_def
    by (rule raises_step, rule tok_step, rule refl) (use printed_for_raises [OF assms(1), of ?s1 cs H m] in simp)
  then have "raises (cx_numErrors s) (thenP consumeToken (parseOneStmt n (parseScope H m))) s"
    unfolding thenP_def using c by (intro raises_step [of consumeToken]) simp_all
  with assms(3) show ?thesis by (simp add: raises_def)
qed

section \<open>Loops with a stride of zero\<close>

lemma digits_token:
  assumes "e \<noteq> []" "list_all isdigit_c e"
  shows "next_token ('' '' @ e @ '', 0)'' @ cs) =
    Inr (\<lparr>tk_kind = tok_integer, tk_text = e, tk_loc = length e + length cs + 4\<rparr>, '', 0)'' @ cs)"
proof -
  obtain d ds where e: "e = d # ds" using assms(1) by (cases e) auto
  have d: "isdigit_c d" "list_all isdigit_c ds" using assms(2) by (simp_all add: e)
  have dg: "\<not> is_blank c \<and> c \<noteq> CHR ''/'' \<and> c \<noteq> CHR ''_'' \<and> \<not> isalpha_c c \<and> c \<noteq> CHR ''-''" if "isdigit_c c" for c
    using that by (auto simp: isdigit_c_def is_blank_def isalpha_c_def)
  have "number_chars False (ds @ '', 0)'' @ cs) = (ds, False)" using d(2)
    by (induction ds) (simp_all add: isdigit_c_def)
  moreover have "\<not> (ds @ '', 0)'' @ cs \<noteq> [] \<and> hd (ds @ '', 0)'' @ cs) = CHR ''-'')" using d(2) dg by (cases ds) auto
  ultimately have "lexNumber (e @ '', 0)'' @ cs) = Inr (tok_integer, e, '', 0)'' @ cs)"
    by (simp add: e lexNumber_def formToken_def bind_require)
  then have "lex_token (e @ '', 0)'' @ cs) = Inr (tok_integer, e, '', 0)'' @ cs)"
    using d(1) dg by (simp add: e lex_token_def)
  moreover have "skip_blanks ('' '' @ e @ '', 0)'' @ cs) = e @ '', 0)'' @ cs"
    using dg [OF d(1)] by (simp add: e skip_blanks_stop)
  ultimately show ?thesis by (simp add: next_token_def)
qed

text \<open>The range after the word \<open>in\<close>, from its first token on.\<close>

lemma zero_range:
  assumes "e \<noteq> []" "list_all isdigit_c e" "atoi e = Inr v"
    and s: "tk_kind (ps_tok s) = tok_integer" "tk_text (ps_tok s) = ''0''" "ps_rest s = '' .. '' @ e @ '', 0)'' @ rest"
  shows "parse_for_range s = Some (Inr ((v, 0), at_token s \<lparr>tk_kind = punct ''r_paren'', tk_text = '')'', tk_loc = length rest + 1\<rparr> rest))"
proof -
  have zero: "atoi ''0'' = Inr 0" by code_simp
  let ?dots = "\<lparr>tk_kind = punct ''range'', tk_text = ''..'', tk_loc = length (e @ '', 0)'' @ rest) + 3\<rparr>"
  let ?last = "\<lparr>tk_kind = tok_integer, tk_text = e, tk_loc = length e + length rest + 4\<rparr>"
  let ?comma = "\<lparr>tk_kind = punct ''comma'', tk_text = '','', tk_loc = length (''0)'' @ rest) + 2\<rparr>"
  let ?zero = "\<lparr>tk_kind = tok_integer, tk_text = ''0'', tk_loc = length rest + 2\<rparr>"
  let ?paren = "\<lparr>tk_kind = punct ''r_paren'', tk_text = '')'', tk_loc = length rest + 1\<rparr>"
  have 1: "parseIntegerLiteral s = Some (Inr (Some 0, at_token s ?dots ('' '' @ e @ '', 0)'' @ rest)))"
    by (rule integer_step) (use s zero header_tokens(6) [of "e @ '', 0)'' @ rest"] in simp_all)
  have 2: "consumeIf (punct ''range'') (at_token s ?dots ('' '' @ e @ '', 0)'' @ rest)) = Some (Inr (True, at_token s ?last ('', 0)'' @ rest)))"
    using consumes(2) [of "at_token s ?dots ('' '' @ e @ '', 0)'' @ rest)" "punct ''range''" ?last "'', 0)'' @ rest"]
      digits_token [OF assms(1,2), of rest] by simp
  have 3: "parseIntegerLiteral (at_token s ?last ('', 0)'' @ rest)) = Some (Inr (Some v, at_token s ?comma ('' 0)'' @ rest)))"
    using integer_step [of "at_token s ?last ('', 0)'' @ rest)" v ?comma "'' 0)'' @ rest"] assms(3) header_tokens(7) [of "''0)'' @ rest"] by simp
  then have 3: "parseLiteralOrDimExpr (at_token s ?last ('', 0)'' @ rest)) = Some (Inr (Some v, at_token s ?comma ('' 0)'' @ rest)))"
    unfolding parseLiteralOrDimExpr_def by (intro bind_runs [OF tok_step refl]) simp
  have 4: "consumeIf (punct ''comma'') (at_token s ?comma ('' 0)'' @ rest)) = Some (Inr (True, at_token s ?zero ('')'' @ rest)))"
    using consumes(2) [of "at_token s ?comma ('' 0)'' @ rest)" "punct ''comma''" ?zero "'')'' @ rest"] header_tokens(8) [of rest] by simp
  have lit: "parseIntegerLiteral (at_token s ?zero ('')'' @ rest)) = Some (Inr (Some 0, at_token s ?paren rest))"
    using integer_step [of "at_token s ?zero ('')'' @ rest)" 0 ?paren rest] zero header_tokens(9) [of rest] by simp
  have 5: "parseIntegerLiteralOrLetConstant (at_token s ?zero ('')'' @ rest)) = Some (Inr (Some 0, at_token s ?paren rest))"
    unfolding parseIntegerLiteralOrLetConstant_def by (rule bind_runs, rule lit, rule refl) (simp only: option.case retP_def)
  show ?thesis
    unfolding parse_for_range_def
    apply (rule bind_runs, rule 1, rule refl)
    apply (simp only: if_False simp_thms)
    apply (rule bind_runs, rule 2, rule refl)
    apply (simp only: if_False simp_thms)
    apply (rule bind_runs, rule 3, rule refl)
    apply (simp only: option.case)
    apply (rule bind_runs, rule 4, rule refl)
    apply (simp only: if_False simp_thms)
    apply (rule bind_runs, rule tok_step, rule refl)
    apply (rule bind_runs, rule 5, rule refl)
    apply (simp only: option.case retP_def)
    done
qed

text \<open>C40. A stride of zero is not reported: on a loop whose name is an identifier, with any literal end, in any
  context and before any further text, the statement parser divides the end by the stride, which is undefined
  behaviour of the compiler.\<close>

theorem zero_stride_crashes:
  assumes name: "isLegalName name" "name \<noteq> []" "\<not> isdigit_c (hd name)" "word_kind name = tok_identifier"
    and e: "e \<noteq> []" "list_all isdigit_c e" "atoi e = Inr v"
    and s: "tk_kind (ps_tok s) \<noteq> tok_eof" "ps_rest s = spaces indent @ ''for ('' @ name @ '' in 0 .. '' @ e @ '', 0)'' @ rest"
    and more: "next_token rest = Inr (t, rest')" "tk_kind t \<noteq> unknown"
  shows "thenP consumeToken (parseOneStmt n parse_scope) s = Some (Inl (UB ''modulo by zero''))"
proof -
  let ?cs = "e @ '', 0)'' @ rest"
  let ?for = "\<lparr>tk_kind = KEYWORD ''for'', tk_text = ''for'', tk_loc = length (name @ '' in 0 .. '' @ ?cs) + 5\<rparr>"
  let ?paren = "\<lparr>tk_kind = punct ''l_paren'', tk_text = ''('', tk_loc = length (name @ '' in 0 .. '' @ ?cs) + 1\<rparr>"
  let ?in = "\<lparr>tk_kind = KEYWORD ''in'', tk_text = ''in'', tk_loc = length ('' .. '' @ ?cs) + 4\<rparr>"
  let ?zero = "\<lparr>tk_kind = tok_integer, tk_text = ''0'', tk_loc = length ?cs + 5\<rparr>"
  let ?close = "\<lparr>tk_kind = punct ''r_paren'', tk_text = '')'', tk_loc = length rest + 1\<rparr>"
  obtain t1 where n: "next_token (name @ '' in 0 .. '' @ ?cs) = Inr (t1, '' in 0 .. '' @ ?cs)"
    "tk_kind t1 = tok_identifier" "tk_text t1 = name"
    using identifier_token [OF name, of "CHR '' ''" "''in 0 .. '' @ ?cs"] by (auto simp: word_char_def isalnum_c_def)
  let ?s1 = "at_token s ?for ('' ('' @ name @ '' in 0 .. '' @ ?cs)" and ?s2 = "at_token s ?paren (name @ '' in 0 .. '' @ ?cs)"
  let ?s3 = "at_token s t1 ('' in 0 .. '' @ ?cs)" and ?s4 = "at_token s ?in ('' 0 .. '' @ ?cs)"
  let ?s5 = "at_token s ?zero ('' .. '' @ ?cs)" and ?s6 = "at_token s ?close rest"
  have c0: "consumeToken s = Some (Inr ((), ?s1))"
    by (rule consume_step) (use s header_tokens(1) [of indent "name @ '' in 0 .. '' @ ?cs"] in simp_all)
  have c1: "consumeTokenKind (KEYWORD ''for'') ?s1 = Some (Inr ((), ?s2))"
    using consumes(1) [of ?s1 "KEYWORD ''for''" ?paren "name @ '' in 0 .. '' @ ?cs"] header_tokens(2) [of "name @ '' in 0 .. '' @ ?cs"] by simp
  have c2: "consumeIf (punct ''l_paren'') ?s2 = Some (Inr (True, ?s3))"
    using consumes(2) [of ?s2 "punct ''l_paren''" t1 "'' in 0 .. '' @ ?cs"] n by simp
  have c3: "parseIdentifier ?s3 = Some (Inr (Some name, ?s4))"
    using identifier_step [of ?s3 ?in "'' 0 .. '' @ ?cs"] n header_tokens(3) [of "'' .. '' @ ?cs"] by simp
  have c4: "consumeIf (KEYWORD ''in'') ?s4 = Some (Inr (True, ?s5))"
    using consumes(2) [of ?s4 "KEYWORD ''in''" ?zero "'' .. '' @ ?cs"] header_tokens(5) [of ?cs] by simp
  have c5: "parse_for_range ?s5 = Some (Inr ((v, 0), ?s6))"
    using zero_range [OF e, of ?s5 rest] by simp
  have c6: "consumeIf (punct ''r_paren'') ?s6 = Some (Inr (True, at_token s t rest'))"
    using consumes(2) [of ?s6 "punct ''r_paren''" t rest'] more by simp
  have for_runs: "parseForStmt parse_scope ?s1 = Some (Inl (UB ''modulo by zero''))"
    unfolding parseForStmt_def thenP_def
    apply (rule bind_runs, rule tok_step, rule refl)
    apply (rule bind_runs, rule c1, rule refl)
    apply (rule bind_runs, rule c2, rule refl)
    apply (simp only: if_False simp_thms)
    apply (rule bind_runs, rule c3, rule refl)
    apply (simp only: option.case)
    apply (rule bind_runs, rule c4, rule refl)
    apply (simp only: if_False simp_thms)
    apply (rule bind_runs, rule c5, rule refl)
    apply (simp only: prod.case)
    apply (rule bind_runs, rule c6, rule refl)
    apply (simp add: bindP_def retP_def liftP_def rem_nonzero_def)
    done
  show ?thesis unfolding thenP_def
    by (rule bind_runs, rule c0, rule refl) (simp add: parseOneStmt_def bindP_def tokP_def getP_def for_runs [simplified])
qed

end
