(* ===== verification/ParserRun.thy ===== *)
theory ParserRun
  imports ParserTexts
begin

text \<open>
  Running the parser on a given text by rewriting. A sequence of methods is unfolded one method at a
  time: \<open>next_run\<close> stops the simplifier from looking at the rest before the first method has returned.
  With it, some texts on which the parser misbehaves.
\<close>

section \<open>Rules\<close>

definition next_run :: "('a \<times> parser) res option \<Rightarrow> ('a \<Rightarrow> 'b parse) \<Rightarrow> ('b \<times> parser) res option" where
  "next_run r f = (case r of None \<Rightarrow> None | Some (Inl e) \<Rightarrow> Some (Inl e) | Some (Inr (x, s')) \<Rightarrow> f x s')"

lemma next_run_cong [cong]: "r = r' \<Longrightarrow> next_run r f = next_run r' f"
  by simp

lemma next_run_simps: "next_run (Some (Inr (x, s'))) f = f x s'" "next_run (Some (Inl e)) f = Some (Inl e)"
  by (simp_all add: next_run_def)

lemma bindP_run: "bindP m f s = next_run (m s) f"
  by (simp add: bindP_def next_run_def)

lemma thenP_run: "thenP m k s = next_run (m s) (\<lambda>_. k)"
  by (simp add: thenP_def bindP_run)

text \<open>The state after the next token.\<close>

definition lexed :: "parser \<Rightarrow> (token \<times> string) res \<Rightarrow> parser res" where
  "lexed s r =
     bind_res r (\<lambda>(t, rest).
     bind_res (if tk_kind t = unknown then diagnose Error (length rest) ''Invalid character.'' (s\<lparr>ps_rest := rest\<rparr>)
               else Inr (s\<lparr>ps_rest := rest\<rparr>)) (\<lambda>s'. Inr (s'\<lparr>ps_tok := t\<rparr>)))"

lemma Lex_run: "Lex s = lexed s (next_token (ps_rest s))"
  by (simp add: Lex_def lexed_def)

lemma lexed_run: "tk_kind t \<noteq> unknown \<Longrightarrow> lexed s (Inr (t, rest)) = Inr (s\<lparr>ps_rest := rest, ps_tok := t\<rparr>)"
  by (simp add: lexed_def)

lemma lexed_cong [cong]: "r = r' \<Longrightarrow> lexed s r = lexed s r'"
  by simp

lemma consume_run:
  "consumeToken s =
     (if tk_kind (ps_tok s) = tok_eof then Some (Inl (AssertFail ''Lexing past eof!''))
      else (case lexed s (next_token (ps_rest s)) of Inl e \<Rightarrow> Some (Inl e) | Inr s' \<Rightarrow> Some (Inr ((), s'))))"
  by (auto simp: consumeToken_def bind_require Lex_run split: sum.splits)

lemma expr_case_run [simp]:
  "(case ConstantExpr v of ConstantExpr v \<Rightarrow> f v | _ \<Rightarrow> g) = f v"
  by simp

lemmas lex_runs = next_token_def skip_blanks.simps is_blank_def lex_token_def isalpha_c_def isalnum_c_def
  isdigit_c_def lexIdentifier_def word_char_def formToken_def bind_require word_kind_def func_names_def
  type_names_def keyword_names_def lexNumber_def lexString_def punct1_def punct2_def Let_def

lemmas token_runs = bindP_run thenP_run next_run_simps consume_run lexed_run retP_def getP_def putP_def failP_def
  liftP_def tokP_def isP_def heapP_def error_at_def diagnose_def getLineCol_def count_message_def
  skipUntil.simps skipUntilOneOf.simps Lex_run
  consumeTokenKind_def [THEN fun_cong] consumeIf_def [THEN fun_cong] errorP_def [THEN fun_cong] give_up_def [THEN fun_cong]
  parseIntegerLiteral_def [THEN fun_cong] parseStringLiteral_def [THEN fun_cong] parseFloatLiteral_def [THEN fun_cong]
  parseIdentifier_def [THEN fun_cong] parseIntegerLiteralOrLetConstant_def [THEN fun_cong]
  lookup_let_def lookup_arg_def stack_getByName_def argMap_getByName_def varMap_getByName_def loopStack_getByName_def
  argMap_register_def varMap_register_def restoreStack_def newline_def

lemmas expr_runs = parseExpr.simps(2) [THEN fun_cong, THEN fun_cong] parseExprRest.simps(2) [THEN fun_cong]
  parseExprPrimary_def [THEN fun_cong] parse_name_def [THEN fun_cong] parse_load_def [THEN fun_cong]
  parse_let_value_def [THEN fun_cong] combine_def [THEN fun_cong] parseSubscriptList_def [THEN fun_cong]
  parseSubscripts.simps(2) [THEN fun_cong] parseBuiltinFunction_def [THEN fun_cong]
  parseCallArgumentList_def [THEN fun_cong] parseMoreArgs.simps(2) [THEN fun_cong] check_call_args_def [THEN fun_cong]
  getBinOpPrecedence_def precedences_def operator_kinds_def builtin_binary_def builtin_unary_def
  atoi_def signed_text_def in_int_def

lemmas stmt_runs = parseTypePair_def [THEN fun_cong] parseBuiltinType_def [THEN fun_cong]
  parseMoreDims.simps(2) [THEN fun_cong] parseNamedType_def [THEN fun_cong] parse_dim_def [THEN fun_cong]
  parseLiteralOrDimExpr_def [THEN fun_cong] parseLetStmt_def [THEN fun_cong] declare_var_def [THEN fun_cong]
  parseVarDecl_def [THEN fun_cong] parse_assign_def [THEN fun_cong] parse_var_assign_def [THEN fun_cong]
  parse_store_def [THEN fun_cong] parse_named_stmt_def [THEN fun_cong] parse_for_range_def [THEN fun_cong]
  parse_loop_def [THEN fun_cong] parseForStmt_def [THEN fun_cong] parse_if_range_def [THEN fun_cong]
  parseIfStmt_def [THEN fun_cong] parseOneStmt_def [THEN fun_cong] rem_nonzero_def

lemmas program_runs = parse_lets.simps(2) [THEN fun_cong] parse_vars.simps(2) [THEN fun_cong]
  parse_stmts.simps(2) [THEN fun_cong] restore_lets_def [THEN fun_cong] parseScope.simps(2) [THEN fun_cong]
  register_arg_def [THEN fun_cong] parse_params.simps(2) [THEN fun_cong] parseFunctionDecl_def [THEN fun_cong]
  parse_def [THEN fun_cong] parseProgram_def register_lets_def new_context_def new_parser_def
  context_state.defs parser.defs mkType_def no_type_def
  new_arg_def new_var_def new_loop_def tryToAdjustTypes_def new_BinaryExpr_def new_StoreStmt_arg_def new_GEPExpr_def
  new_StoreLocalStmt_def new_BroadcastExpr_def new_LoadExpr_arg_def new_IndexExpr_def getNumDims_def ety_isIndexTy_def
  scalarTy_def loop_name_def

declare parse_lets.simps [simp del] parse_vars.simps [simp del] parse_stmts.simps [simp del]
  parseScope.simps [simp del] parse_params.simps [simp del] parseMoreDims.simps [simp del]
  parse_commands.simps [simp del]

lemmas parser_runs = lex_runs token_runs expr_runs stmt_runs program_runs

section \<open>A loop, its text, and the text read again\<close>

definition parse_text :: "string \<Rightarrow> heap \<Rightarrow> (program option \<times> parser) res option" where
  "parse_text src h = parseProgram \<lparr>ho_bin = (\<lambda>k a b. a), ho_ipow = (\<lambda>a b. Inr a)\<rparr> (new_context h src ''f'') [] []"

abbreviation loop_text :: string where
  "loop_text \<equiv> ''func f(A:float<x:9>){for(i in 0 .. 9){A[i]=1}}''"

definition printed_loop :: string where
  "printed_loop =
     ''func f(A:float<x:9>) {'' @ [newline] @ '' for (i in 0..9) {'' @ [newline] @ ''  A[i] = 1;'' @ [newline]
       @ '' }'' @ [newline] @ ''}'' @ [newline]"

lemma loop_text_parses:
  "\<exists>p s. parse_text loop_text h = Some (Inr (Some p, s)) \<and> cx_numErrors s = 0
     \<and> dump_program (cx_heap s) p = Inr printed_loop"
  by (simp add: parse_text_def parser_runs)
    (simp add: dump_program_def dump_Argument_def dump_Type_def printed_loop_def newline_def spaces_def loop_name_def loop_end_def
      loop_stride_def u32_of_int_def i64_of_int_def
      getElementName_def Let_def isVector_def scalarTy_def dec_int_def dec_nat.simps digit_char_def,
      code_simp)

lemma printed_loop_error:
  "\<exists>p s. parse_text printed_loop h = Some (Inr (p, s)) \<and> 0 < cx_numErrors s"
  apply (simp add: parse_text_def parser_runs printed_loop_def)
  done

section \<open>Properties\<close>

text \<open>The text that \<open>dump\<close> prints for a parsed program with a loop.\<close>

lemma dumped_program_rejected:
  "\<exists>p s. parse_text loop_text h = Some (Inr (Some p, s)) \<and> cx_numErrors s = 0
     \<and> (\<exists>t r s'. dump_program (cx_heap s) p = Inr t \<and> parse_text t h = Some (Inr (r, s')) \<and> 0 < cx_numErrors s')"
  using loop_text_parses printed_loop_error by blast

text \<open>A loop without a body, printed and read at the start of a file.\<close>

definition reading :: "string \<Rightarrow> parser" where
  "reading src = new_parser (new_context (fst demo_loop) src ''f'')"

lemma printed_empty_loop:
  "dump_stmt (fst demo_loop) 1 (Loop 0 []) = '' for (i in 0..6) {'' @ [newline] @ '' }'' @ [newline]"
  by code_simp

lemma legal_index: "isLegalName ''i''"
  by code_simp

theorem printed_loop_rejected_witness:
  "\<exists>r s'. thenP consumeToken (parseOneStmt 3 (parseScope \<lparr>ho_bin = (\<lambda>k a b. a), ho_ipow = (\<lambda>a b. Inr a)\<rparr> 3))
       (reading (dump_stmt (fst demo_loop) 1 (Loop 0 []) @ ''}'')) = Some (Inr (r, s')) \<and> 0 < cx_numErrors s'"
proof -
  let ?run = "thenP consumeToken (parseOneStmt 3 (parseScope \<lparr>ho_bin = (\<lambda>k a b. a), ho_ipow = (\<lambda>a b. Inr a)\<rparr> 3))"
  let ?s = "reading (dump_stmt (fst demo_loop) 1 (Loop 0 []) @ ''}'')"
  have "\<exists>r s'. ?run ?s = Some (Inr (r, s'))"
    unfolding printed_empty_loop reading_def by (simp add: parser_runs numeral_3_eq_3)
  moreover have "isLegalName (loop_name (fst demo_loop) 0)" using legal_index by (simp add: loop_name_def demo_loop_def)
  moreover have "ps_rest ?s = dump_stmt (fst demo_loop) 1 (Loop 0 []) @ ''}''" "cx_numErrors ?s = 0"
    by (simp_all add: reading_def new_parser_def new_context_def context_state.defs parser.defs del: dump_stmt.simps)
  ultimately show ?thesis using printed_loop_rejected by metis
qed

theorem zero_stride_crashes_witness:
  "thenP consumeToken (parseOneStmt 3 (parseScope \<lparr>ho_bin = (\<lambda>k a b. a), ho_ipow = (\<lambda>a b. Inr a)\<rparr> 3))
     (reading ''for (i in 0 .. 9, 0){A[i]=1}}'') = Some (Inl (UB ''modulo by zero''))"
proof (rule zero_stride_crashes [OF legal_index])
  show "ps_rest (reading ''for (i in 0 .. 9, 0){A[i]=1}}'') = spaces 0 @ ''for ('' @ ''i'' @ '' in 0 .. '' @ ''9'' @ '', 0)'' @ ''{A[i]=1}}''"
    by (simp add: reading_def new_parser_def new_context_def context_state.defs parser.defs spaces_def)
  show "atoi ''9'' = Inr 9" by code_simp
  show "next_token ''{A[i]=1}}'' = Inr (\<lparr>tk_kind = punct ''l_brace'', tk_text = ''{'', tk_loc = 9\<rparr>, ''A[i]=1}}'')" by code_simp
qed (simp_all add: word_kind_def func_names_def type_names_def keyword_names_def isdigit_c_def reading_def new_parser_def
    new_context_def context_state.defs parser.defs)

text \<open>A minus sign after the first digit is part of a number, so a difference of two literals is
  read as its first digit, without a message.\<close>

theorem difference_is_first_digit:
  "\<exists>p s a. parse_text ''func f(A:float<x:9>){A[5-3]=1}'' h = Some (Inr (Some p, s)) \<and> cx_numErrors s = 0
     \<and> pr_body p = [StoreStmt (GEPExpr a [ConstantExpr 5]) (ConstantExpr 1) False]"
  by (simp add: parse_text_def parser_runs) (simp add: i64_of_int_def)

text \<open>Texts that stop the parser instead of being reported: an unknown name followed by an
  operator dereferences a null pointer, a stride of zero divides by zero, and an error at the end of
  the buffer runs into an assertion of the diagnostics.\<close>

theorem malformed_texts_crash:
  "parse_text ''func f(A:float<x:9>){A[k+1]=1}'' h = Some (Inl (UB ''null operand''))
   \<and> parse_text ''func f(A:float<x:9>){for(i in 0 .. 9,0){A[i]=1}}'' h = Some (Inl (UB ''modulo by zero''))
   \<and> parse_text ''func f(A:float<x:9>){'' h = Some (Inl (AssertFail ''Invalid buffer position''))"
  by (intro conjI) (simp_all add: parse_text_def parser_runs)

text \<open>A range check in a loop, and one without a condition: the parser registers the latter with a null pointer.\<close>

lemma checked_text_parses:
  "\<exists>p s L a. parse_text ''func f(A:float<x:9>){for(i in 0 .. 9){if(i in 2 .. 4){A[i]=1}}}'' h = Some (Inr (Some p, s))
     \<and> cx_numErrors s = 0
     \<and> pr_body p = [Loop L [IfRange (new_IndexExpr L) 2 4 [StoreStmt (GEPExpr a [new_IndexExpr L]) (ConstantExpr 1) False]]]"
  by (simp add: parse_text_def parser_runs) (simp add: i64_of_int_def)

lemma null_condition_registered:
  "\<exists>p s. parse_text ''func f(A:float<x:9>){if( ){}}'' h = Some (Inr (Some p, s))
     \<and> 0 < cx_numErrors s \<and> pr_body p = [IfRange null_expr 0 0 []]"
  by (simp add: parse_text_def parser_runs)

theorem parsed_program_wf_witness:
  "\<exists>p s. parse_text ''func f(A:float<x:9>){for(i in 0 .. 9){if(i in 2 .. 4){A[i]=1}}}'' (fst demo_loop) = Some (Inr (Some p, s))
     \<and> wf_body (cx_heap s) (pr_body p) \<and> below_program (cx_heap s) p \<and> list_all conditions_given (pr_body p) \<and> pr_body p \<noteq> []"
proof -
  obtain p s where p: "parse_text ''func f(A:float<x:9>){for(i in 0 .. 9){if(i in 2 .. 4){A[i]=1}}}'' (fst demo_loop) = Some (Inr (Some p, s))"
    "cx_numErrors s = 0" "pr_body p \<noteq> []"
    using checked_text_parses [of "fst demo_loop"] by auto
  from parsed_program_wf [OF p(1) [unfolded parse_text_def]] p show ?thesis by blast
qed

theorem silent_parse_succeeds_witness:
  "\<exists>p s. parse_text loop_text (fst demo_loop) = Some (Inr (Some p, s)) \<and> tk_kind (ps_tok s) = tok_eof"
  using loop_text_parses [of "fst demo_loop"] silent_parse_succeeds unfolding parse_text_def by metis

lemma legal_names: "isLegalName ''A''" "isLegalName ''f''" "isLegalName ''i''" "ety_isIndexTy (scalarTy IndexTy)"
  by code_simp+

text \<open>The parser accepts programs that the verifier does not: a negative stride that divides the range,
  an empty range, and an integer stored in an array of floats.\<close>

theorem parser_accepts_unverifiable:
  "(\<exists>p s. parse_text ''func f(A:float<x:9>){for(i in 0 .. 9,-3){A[i]=1}}'' h = Some (Inr (Some p, s)) \<and> cx_numErrors s = 0
      \<and> verify_program (cx_heap s) p = Inl (AssertFail ''Trip count must be divisible by the stride''))
   \<and> (\<exists>p s. parse_text ''func f(A:float<x:9>){for(i in 0 .. 0){A[i]=1}}'' h = Some (Inr (Some p, s)) \<and> cx_numErrors s = 0
      \<and> verify_program (cx_heap s) p = Inl (AssertFail ''Loops must not be empty''))
   \<and> (\<exists>p s. parse_text ''func f(A:float<x:9>){A[0]=1}'' h = Some (Inr (Some p, s)) \<and> cx_numErrors s = 0
      \<and> verify_program (cx_heap s) p = Inl (AssertFail ''Stored element type mismatch''))"
  by (intro conjI; simp add: parse_text_def parser_runs)
    (simp_all add: verify_program_def loop_end_def loop_stride_def u32_of_int_def legal_names require_def getNumDims_def)

end
