(* ===== verification/Optimizer.thy ===== *)
theory Optimizer
  imports Complex_Main Pragmas Bytecode Hashing
begin

text \<open>
  \<open>lib/Optimizer/Optimizer.cpp\<close>: the search over transformed programs, guided by measured times, and
  the static pipeline. A pass is a function of the program and the state of the search; it hands
  programs on to the next pass. The state of the evaluator at the end of the chain carries the heap as
  well, on which the passes clone. The machine the programs run on is the record \<open>backend\<close>: the time
  of a run may depend on how many runs there were before; it is a rational, where the code has a \<open>double\<close>. The
  console is not modelled, nor the dump of the best program and its rate that the evaluator prints there.
\<close>

record backend =
  be_regs :: u32
  be_width :: u32
  be_time :: "nat \<Rightarrow> heap \<Rightarrow> program \<Rightarrow> rat"

record save_options =
  sv_path :: string
  sv_text :: bool
  sv_bytecode :: bool

datatype saved_file = Bytecode_file stream | Code_file program bool

record search =
  sr_heap :: heap
  sr_bestTime :: rat
  sr_bestProgram :: "program option"
  sr_alreadyRan :: "u64 list"
  sr_measured :: "rat list"
  sr_saved :: "saved_file option"

section \<open>Runs\<close>

text \<open>A run may fail, and it may not end (\<open>None\<close>).\<close>

type_synonym 'a run = "'a res option"

definition bindR :: "'a run \<Rightarrow> ('a \<Rightarrow> 'b run) \<Rightarrow> 'b run" where
  "bindR m f = (case m of None \<Rightarrow> None | Some (Inl e) \<Rightarrow> Some (Inl e) | Some (Inr x) \<Rightarrow> f x)"

definition retR :: "'a \<Rightarrow> 'a run" where
  "retR x = Some (Inr x)"

text \<open>A step that works on the heap of the search.\<close>

definition on_heap :: "(heap \<Rightarrow> ('a \<times> heap) res) \<Rightarrow> search \<Rightarrow> ('a \<times> search) run" where
  "on_heap f st = Some (bind_res (f (sr_heap st)) (\<lambda>(x, h). Inr (x, st\<lparr>sr_heap := h\<rparr>)))"

definition checked :: "program \<Rightarrow> search \<Rightarrow> unit run" where
  "checked p st = Some (verify_program (sr_heap st) p)"

definition cloned_program :: "program \<Rightarrow> search \<Rightarrow> ((program \<times> cctx) \<times> search) run" where
  "cloned_program p = on_heap (\<lambda>h. bind_res (clone_program h empty_ctx p) (\<lambda>(p', h', c). Inr ((p', c), h')))"

fun foldR :: "('a \<Rightarrow> 's \<Rightarrow> 's run) \<Rightarrow> 'a list \<Rightarrow> 's \<Rightarrow> 's run" where
  "foldR f [] s = retR s"
| "foldR f (x # xs) s = bindR (f x s) (foldR f xs)"

type_synonym pass = "program \<Rightarrow> search \<Rightarrow> search run"

section \<open>The evaluator\<close>

definition save_best :: "save_options \<Rightarrow> program \<Rightarrow> search \<Rightarrow> search res" where
  "save_best sv p st =
     (if sv_path sv = [] then Inr st
      else if sv_bytecode sv
      then bind_res (serialize (sr_heap st) p) (\<lambda>bs. Inr (st\<lparr>sr_saved := Some (Bytecode_file bs)\<rparr>))
      else Inr (st\<lparr>sr_saved := Some (Code_file p (sv_text sv))\<rparr>))"

text \<open>The time of a run, whose number is that of the runs before it.\<close>

definition measure_run :: "backend \<Rightarrow> program \<Rightarrow> search \<Rightarrow> rat \<times> search" where
  "measure_run B p st =
     (let t = be_time B (length (sr_measured st)) (sr_heap st) p in (t, st\<lparr>sr_measured := sr_measured st @ [t]\<rparr>))"

definition evaluator_doIt :: "backend \<Rightarrow> save_options \<Rightarrow> pass" where
  "evaluator_doIt B sv p st =
     bindR (Some (hash_program (sr_heap st) p)) (\<lambda>hash.
     if hash \<in> set (sr_alreadyRan st) then retR st
     else
       let st = st\<lparr>sr_alreadyRan := hash # sr_alreadyRan st\<rparr> in
       bindR (checked p st) (\<lambda>_.
       bindR (Some (cost_program (sr_heap st) p)) (\<lambda>info.
       let (time, st) = measure_run B p st in
       if time < sr_bestTime st then
         bindR (cloned_program p st) (\<lambda>((best, c), st).
         Some (save_best sv p (st\<lparr>sr_bestTime := time, sr_bestProgram := Some best\<rparr>)))
       else retR st)))"

section \<open>Loops\<close>

definition collectInnermostLoops :: "stmt list \<Rightarrow> loop_ptr list" where
  "collectInnermostLoops ss =
     concat (map (\<lambda>s. case s of Loop L body \<Rightarrow> if isInnermostLoop body then [L] else [] | _ \<Rightarrow> [])
       (collectLoops (visit_body ss)))"

text \<open>A loop of the program: the loops around it and its body.\<close>

definition the_loop :: "stmt list \<Rightarrow> loop_ptr \<Rightarrow> (loop_ptr list \<times> stmt list) res" where
  "the_loop ss L = (case find_loop [] L ss of None \<Rightarrow> Inl (UB ''loop is not in the program'') | Some r \<Rightarrow> Inr r)"

definition collectLoopHierarchy :: "stmt list \<Rightarrow> loop_ptr \<Rightarrow> nat \<Rightarrow> loop_ptr list res" where
  "collectLoopHierarchy ss L levels = bind_res (the_loop ss L) (\<lambda>(enc, body). Inr (take levels (L # enc)))"

section \<open>The filter\<close>

definition is_StoreLocal :: "stmt \<Rightarrow> bool" where
  "is_StoreLocal s = (case s of StoreLocalStmt v x acc \<Rightarrow> True | _ \<Rightarrow> False)"

definition small_loop :: "backend \<Rightarrow> stmt \<Rightarrow> bool" where
  "small_loop B s =
     (case s of
        Loop L body \<Rightarrow> length body \<le> 64 \<and> length (filter is_StoreLocal body) \<le> unat (be_regs B)
      | _ \<Rightarrow> True)"

definition filter_doIt :: "backend \<Rightarrow> pass \<Rightarrow> pass" where
  "filter_doIt B nextPass p st =
     (if list_all (small_loop B) (collectLoops (visit_body (pr_body p))) then nextPass p st else retR st)"

section \<open>Fusion\<close>

definition collectArgsUsed :: "stmt \<Rightarrow> arg_ptr list" where
  "collectArgsUsed s = remdups (concat (map (\<lambda>e. case e of GEPExpr a is \<Rightarrow> [a] | _ \<Rightarrow> []) (collectExprs s)))"

text \<open>The loop with its body, and the statement after it in its scope.\<close>

fun next_of :: "loop_ptr \<Rightarrow> stmt list \<Rightarrow> (stmt \<times> stmt option) option"
  and next_in :: "loop_ptr \<Rightarrow> stmt \<Rightarrow> (stmt \<times> stmt option) option" where
  "next_of L [] = None"
| "next_of L (s # ss) =
     (if loop_id s = Some L then Some (s, case ss of [] \<Rightarrow> None | s' # ss' \<Rightarrow> Some s')
      else (case next_in L s of Some r \<Rightarrow> Some r | None \<Rightarrow> next_of L ss))"
| "next_in L (Loop L' body) = next_of L body"
| "next_in L (IfRange val lo hi body) = next_of L body"
| "next_in L s = None"

definition share_buffers :: "stmt \<Rightarrow> stmt \<Rightarrow> bool" where
  "share_buffers s1 s2 =
     (let buffers1 = collectArgsUsed s1; buffers2 = collectArgsUsed s2;
          numShared = length (filter (\<lambda>a. a \<in> set buffers2) buffers1);
          numBuffers = max (length buffers1) (length buffers2) in
      \<not> numShared < numBuffers div 2)"

text \<open>One pass over the loops up to the next \<open>restart\<close> or \<open>return\<close>.\<close>

datatype sweep = Restart program | ReturnFalse | EndOfLoop

fun fuse_sweep :: "heap \<Rightarrow> program \<Rightarrow> loop_ptr list \<Rightarrow> sweep res" where
  "fuse_sweep h p [] = Inr EndOfLoop"
| "fuse_sweep h p (L # Ls) =
     (case next_of L (pr_body p) of
        None \<Rightarrow> Inl (UB ''loop is not in the program'')
      | Some (s, nxt) \<Rightarrow>
          (case nxt of
             Some (Loop L2 body2) \<Rightarrow>
               if \<not> share_buffers s (Loop L2 body2) then fuse_sweep h p Ls
               else bind_res (fuse h p L 8) (\<lambda>f. case f of Some p' \<Rightarrow> Inr (Restart p') | None \<Rightarrow> fuse_sweep h p Ls)
           | _ \<Rightarrow> Inr ReturnFalse))"

partial_function (option) tryToFuseAllShallowLoops ::
    "host \<Rightarrow> heap \<Rightarrow> bool \<Rightarrow> program \<Rightarrow> (bool \<times> program) res option" where
  "tryToFuseAllShallowLoops H h changed p =
     (case fuse_sweep h p (body_loops (pr_body p)) of
        Inl e \<Rightarrow> Some (Inl e)
      | Inr EndOfLoop \<Rightarrow> Some (Inr (changed, p))
      | Inr ReturnFalse \<Rightarrow> Some (Inr (False, p))
      | Inr (Restart p') \<Rightarrow>
          Option.bind (simplify H h p') (\<lambda>r.
          case r of Inl e \<Rightarrow> Some (Inl e) | Inr (p'', c) \<Rightarrow> tryToFuseAllShallowLoops H h True p''))"

definition fuse_doIt :: "host \<Rightarrow> pass \<Rightarrow> pass" where
  "fuse_doIt H nextPass p st =
     bindR (checked p st) (\<lambda>_.
     bindR (cloned_program p st) (\<lambda>((np, c), st).
     bindR (tryToFuseAllShallowLoops H (sr_heap st) False np) (\<lambda>(changed, np).
     bindR (if changed then nextPass np st else retR st) (nextPass p))))"

section \<open>Vectorization\<close>

fun vectorize_each :: "u32 \<Rightarrow> loop_ptr list \<Rightarrow> bool \<times> program \<Rightarrow> heap \<Rightarrow> ((bool \<times> program) \<times> heap) res" where
  "vectorize_each VF [] cp h = Inr (cp, h)"
| "vectorize_each VF (L # Ls) (changed, p) h =
     bind_res (vectorize h p L VF) (\<lambda>r.
     case renamed_result [] h p r of (c, p', h') \<Rightarrow> vectorize_each VF Ls (changed \<or> c, p') h')"

definition tryToVectorizeAllLoops :: "program \<Rightarrow> u32 \<Rightarrow> heap \<Rightarrow> ((bool \<times> program) \<times> heap) res" where
  "tryToVectorizeAllLoops p VF = vectorize_each VF (body_loops (pr_body p)) (False, p)"

definition vectorizer_doIt :: "backend \<Rightarrow> pass \<Rightarrow> pass" where
  "vectorizer_doIt B nextPass p st =
     bindR (checked p st) (\<lambda>_.
     bindR (cloned_program p st) (\<lambda>((np, c), st).
     bindR (on_heap (tryToVectorizeAllLoops np (be_width B)) st) (\<lambda>((changed, np), st).
     bindR (if changed then nextPass np st else retR st) (nextPass p))))"

section \<open>Interchange\<close>

fun addOnce :: "'a list \<Rightarrow> 'a \<Rightarrow> 'a list" where
  "addOnce xs x = (if x \<in> set xs then xs else xs @ [x])"

text \<open>The loop of the last subscript, when it is an index.\<close>

definition last_index :: "expr list \<Rightarrow> loop_ptr option res" where
  "last_index is =
     (if is = [] then Inl (UB ''back() of an empty vector'')
      else Inr (case last is of IndexExpr ty L \<Rightarrow> Some L | _ \<Rightarrow> None))"

definition collectLastIndexForAllIndices :: "event list \<Rightarrow> loop_ptr option res" where
  "collectLastIndexForAllIndices evs =
     (let (loads, stores) = collectLoadStores evs None in
      bind_res (map_res (\<lambda>s. last_index (gep_indices (store_gep s))) stores) (\<lambda>xs.
      bind_res (map_res (\<lambda>e. last_index (gep_indices (load_gep e))) loads) (\<lambda>ys.
      let loops = foldl addOnce [] (concat (map (\<lambda>x. case x of None \<Rightarrow> [] | Some L \<Rightarrow> [L]) (xs @ ys))) in
      Inr (if length loops \<noteq> 1 then None else Some (last loops)))))"

fun sink_each :: "heap \<Rightarrow> loop_ptr list \<Rightarrow> bool \<times> program \<Rightarrow> (bool \<times> program) res" where
  "sink_each h [] cp = Inr cp"
| "sink_each h (L # Ls) (changed, p) =
     bind_res (the_loop (pr_body p) L) (\<lambda>(enc, body).
     bind_res (collectLastIndexForAllIndices (visit_stmt (Loop L body))) (\<lambda>x.
     case x of
       None \<Rightarrow> sink_each h Ls (changed, p)
     | Some loopToSink \<Rightarrow>
         (case sink p loopToSink 8 of
            (c, p') \<Rightarrow> bind_res (verify_program h p') (\<lambda>_. sink_each h Ls (changed \<or> c, p')))))"

definition sinkLoopsForConsecutiveIndexAccess :: "heap \<Rightarrow> program \<Rightarrow> (bool \<times> program) res" where
  "sinkLoopsForConsecutiveIndexAccess h p = sink_each h (collectInnermostLoops (pr_body p)) (False, p)"

definition interchanger_doIt :: "pass \<Rightarrow> pass" where
  "interchanger_doIt nextPass p st =
     bindR (checked p st) (\<lambda>_.
     bindR (cloned_program p st) (\<lambda>((np, c), st).
     bindR (Some (sinkLoopsForConsecutiveIndexAccess (sr_heap st) np)) (\<lambda>(changed, np).
     bindR (if changed then nextPass np st else retR st) (nextPass p))))"

end
