(* ===== verification/Autotune.thy ===== *)
theory Autotune
  imports Optimizer Licm
begin

text \<open>
  \<open>lib/Optimizer/Optimizer.cpp\<close>, continued: the passes that try many variants, the two entry points
  \<open>optimizeEvaluate\<close> and \<open>optimizeStatic\<close>. The variants of a loop nest are the words over an alphabet of
  block sizes, or of widths, in the order of their numbers. \<open>changed\<close> is declared outside of the loop
  over the variants and stays set.
\<close>

section \<open>Numbers\<close>

definition roundTileSize :: "u32 \<Rightarrow> u32 \<Rightarrow> u32 res" where
  "roundTileSize tileSize stride = bind_res (mod_u32 tileSize stride) (\<lambda>r. Inr (tileSize - r))"

definition ipow :: "u64 \<Rightarrow> u64 \<Rightarrow> u64" where
  "ipow a b = ((\<lambda>res. res * a) ^^ unat b) 1"

definition getComputeIOInfo :: "heap \<Rightarrow> loop_ptr \<Rightarrow> stmt list \<Rightarrow> ComputeCostTy res" where
  "getComputeIOInfo h L body = cost_stmt h (Loop L body)"

definition numTries :: "u64 \<Rightarrow> nat \<Rightarrow> nat res" where
  "numTries alphabet len =
     (let n = unat (ucast (ipow alphabet (of_nat len)) :: u32) in
      bind_res (require (n < 1000000) ''Too many combinations!'') (\<lambda>_. Inr n))"

section \<open>Tiling\<close>

definition tile_sizes :: "u32 list" where
  "tile_sizes = [8, 16, 32, 64, 128, 256]"

text \<open>One variant: \<open>ctr\<close> selects the block sizes from the innermost loop outwards.\<close>

fun tile_nest :: "cctx \<Rightarrow> heap \<Rightarrow> u32 \<Rightarrow> loop_ptr list \<Rightarrow> nat \<Rightarrow> bool \<times> program \<Rightarrow> heap \<Rightarrow> ((bool \<times> program) \<times> heap) res" where
  "tile_nest c h0 depth [] ctr cp h = Inr (cp, h)"
| "tile_nest c h0 depth (L # Ls) ctr (changed, p) h =
     (let block = tile_sizes ! (ctr mod length tile_sizes); ctr' = ctr div length tile_sizes in
      bind_res (roundTileSize block (loop_stride h0 L)) (\<lambda>ts.
      if ts = 0 then tile_nest c h0 depth Ls ctr' (changed, p) h
      else
        bind_res (tile h p (get_loop c L) ts) (\<lambda>r.
        case r of
          None \<Rightarrow> tile_nest c h0 depth Ls ctr' (changed, p) h
        | Some (NL, p', h') \<Rightarrow>
            (case hoist p' (get_loop c L) depth of
               (hoisted, p'') \<Rightarrow> tile_nest c h0 depth Ls ctr' (changed \<or> hoisted, p'') h'))))"

definition tile_attempt :: "pass \<Rightarrow> program \<Rightarrow> loop_ptr list \<Rightarrow> nat \<Rightarrow> bool \<times> search \<Rightarrow> (bool \<times> search) run" where
  "tile_attempt nextPass p nest attemptID = (\<lambda>(changed, st).
     bindR (cloned_program p st) (\<lambda>((np, c), st).
     bindR (on_heap (tile_nest c (sr_heap st) (of_nat (length nest)) nest attemptID (changed, np)) st) (\<lambda>((changed, np), st).
     bindR (if changed then nextPass np st else retR st) (\<lambda>st. retR (changed, st)))))"

definition worth_tiling :: "heap \<Rightarrow> program \<Rightarrow> loop_ptr \<Rightarrow> bool res" where
  "worth_tiling h p outer =
     bind_res (the_loop (pr_body p) outer) (\<lambda>(enc, body).
     bind_res (getComputeIOInfo h outer body) (\<lambda>info.
     if snd info = 0 then Inr False
     else bind_res (getNumLoadsInLoop h outer body) (\<lambda>IOPL. Inr (\<not> IOPL < 2 ^ 13))))"

definition tile_innermost :: "pass \<Rightarrow> program \<Rightarrow> loop_ptr \<Rightarrow> search \<Rightarrow> search run" where
  "tile_innermost nextPass p inner st =
     bindR (Some (collectLoopHierarchy (pr_body p) inner 4)) (\<lambda>nest.
     if length nest < 2 then retR st
     else
       bindR (Some (worth_tiling (sr_heap st) p (last nest))) (\<lambda>worth.
       if \<not> worth then retR st
       else
         bindR (Some (numTries (of_nat (length tile_sizes)) (length nest))) (\<lambda>n.
         bindR (foldR (tile_attempt nextPass p nest) [0..<n] (False, st)) (\<lambda>(changed, st). retR st))))"

definition tiler_doIt :: "pass \<Rightarrow> pass" where
  "tiler_doIt nextPass p st =
     bindR (checked p st) (\<lambda>_.
     bindR (nextPass p st) (foldR (tile_innermost nextPass p) (collectInnermostLoops (pr_body p))))"

section \<open>Widening\<close>

definition widths :: "u32 list" where
  "widths = [2, 3, 4, 5]"

fun widen_nest :: "cctx \<Rightarrow> loop_ptr list \<Rightarrow> nat \<Rightarrow> bool \<times> u32 \<times> program \<Rightarrow> heap \<Rightarrow> ((bool \<times> u32 \<times> program) \<times> heap) res" where
  "widen_nest c [] ctr s h = Inr (s, h)"
| "widen_nest c (L # Ls) ctr (changed, numRegs, p) h =
     (let ws = widths ! (ctr mod length widths); ctr' = ctr div length widths in
      bind_res (widen h p (get_loop c L) ws) (\<lambda>r.
      case renamed_result [] h p r of
        (widened, p', h') \<Rightarrow> widen_nest c Ls ctr' (changed \<or> widened, numRegs * ws, p') h'))"

definition widen_attempt :: "backend \<Rightarrow> pass \<Rightarrow> program \<Rightarrow> loop_ptr list \<Rightarrow> nat \<Rightarrow> bool \<times> search \<Rightarrow> (bool \<times> search) run" where
  "widen_attempt B nextPass p nest attemptID = (\<lambda>(changed, st).
     bindR (cloned_program p st) (\<lambda>((np, c), st).
     bindR (on_heap (widen_nest c nest attemptID (changed, 1, np)) st) (\<lambda>((changed, numRegs, np), st).
     bindR (if changed \<and> numRegs \<le> be_regs B then nextPass np st else retR st) (\<lambda>st. retR (changed, st)))))"

definition worth_widening :: "heap \<Rightarrow> program \<Rightarrow> loop_ptr \<Rightarrow> bool res" where
  "worth_widening h p outer =
     bind_res (the_loop (pr_body p) outer) (\<lambda>(enc, body).
     bind_res (getComputeIOInfo h outer body) (\<lambda>info. Inr (snd info \<noteq> 0)))"

definition widen_innermost :: "backend \<Rightarrow> pass \<Rightarrow> program \<Rightarrow> loop_ptr \<Rightarrow> search \<Rightarrow> search run" where
  "widen_innermost B nextPass p inner st =
     bindR (Some (collectLoopHierarchy (pr_body p) inner 4)) (\<lambda>hierarchy.
     let nest = tl hierarchy in
     if nest = [] then retR st
     else
       bindR (Some (worth_widening (sr_heap st) p (last nest))) (\<lambda>worth.
       if \<not> worth then retR st
       else
         bindR (Some (numTries (of_nat (length widths)) (length nest))) (\<lambda>n.
         bindR (foldR (widen_attempt B nextPass p nest) [0..<n] (False, st)) (\<lambda>(changed, st). retR st))))"

definition widner_doIt :: "backend \<Rightarrow> pass \<Rightarrow> pass" where
  "widner_doIt B nextPass p st =
     bindR (checked p st) (\<lambda>_.
     bindR (foldR (widen_innermost B nextPass p) (collectInnermostLoops (pr_body p)) st) (nextPass p))"

section \<open>Cleaning up and distributing\<close>

definition simplified :: "host \<Rightarrow> program \<Rightarrow> search \<Rightarrow> (program \<times> bool) run" where
  "simplified H p st = simplify H (sr_heap st) p"

definition promoter_doIt :: "host \<Rightarrow> pass \<Rightarrow> pass" where
  "promoter_doIt H nextPass p st =
     bindR (checked p st) (\<lambda>_.
     bindR (cloned_program p st) (\<lambda>((np, c), st).
     bindR (simplified H np st) (\<lambda>(np, b).
     bindR (on_heap (\<lambda>h. bind_res (promoteLICM h np) (\<lambda>(ch, np, h'). Inr (np, h'))) st) (\<lambda>(np, st).
     nextPass np st))))"

definition distributed :: "program \<Rightarrow> search \<Rightarrow> ((bool \<times> program) \<times> search) run" where
  "distributed p st =
     bindR (distributeAllLoops False (sr_heap st) p) (\<lambda>(ch, p', h'). retR ((ch, p'), st\<lparr>sr_heap := h'\<rparr>))"

definition distribute_doIt :: "host \<Rightarrow> pass \<Rightarrow> pass" where
  "distribute_doIt H nextPass p st =
     bindR (checked p st) (\<lambda>_.
     bindR (cloned_program p st) (\<lambda>((np, c), st).
     bindR (distributed np st) (\<lambda>((ch, np), st).
     bindR (simplified H np st) (\<lambda>(np, b). nextPass np st))))"

section \<open>The search\<close>

definition pass_chain :: "host \<Rightarrow> backend \<Rightarrow> save_options \<Rightarrow> pass" where
  "pass_chain H B sv =
     (let ps = filter_doIt B (evaluator_doIt B sv);
          ps = promoter_doIt H ps;
          ps = widner_doIt B ps;
          ps = vectorizer_doIt B ps;
          ps = fuse_doIt H ps;
          ps = tiler_doIt ps;
          ps = interchanger_doIt ps
      in distribute_doIt H ps)"

definition new_search :: "heap \<Rightarrow> search" where
  "new_search h =
     \<lparr>sr_heap = h, sr_bestTime = 1000, sr_bestProgram = None, sr_alreadyRan = [], sr_measured = [], sr_saved = None\<rparr>"

definition optimizeEvaluate :: "host \<Rightarrow> backend \<Rightarrow> save_options \<Rightarrow> heap \<Rightarrow> program \<Rightarrow> (program option \<times> search) run" where
  "optimizeEvaluate H B sv h p =
     bindR (pass_chain H B sv p (new_search h)) (\<lambda>st. retR (sr_bestProgram st, st))"

section \<open>The static pipeline\<close>

fun tile_each :: "heap \<Rightarrow> loop_ptr list \<Rightarrow> bool \<times> program \<Rightarrow> ((bool \<times> program) \<times> heap) res" where
  "tile_each h [] cp = Inr (cp, h)"
| "tile_each h (inner # Ls) (changed, p) =
     bind_res (the_loop (pr_body p) inner) (\<lambda>(enc, body).
     case enc of
       [] \<Rightarrow> tile_each h Ls (changed, p)
     | outer # _ \<Rightarrow>
         bind_res (the_loop (pr_body p) outer) (\<lambda>(enc', body').
         bind_res (getNumLoadsInLoop h outer body') (\<lambda>IOPL.
         if IOPL < 2 ^ 13 \<or> loop_end h outer < 32 \<or> loop_end h inner < 32 then tile_each h Ls (changed, p)
         else
           bind_res (collectLastIndexForAllIndices (visit_stmt (Loop outer body'))) (\<lambda>lastIndexLoop.
           if lastIndexLoop \<noteq> None then tile_each h Ls (changed, p)
           else
             bind_res (tile h p inner 32) (\<lambda>t1.
             case renamed_result [] h p (loop_result t1) of (b1, p1, h1) \<Rightarrow>
             bind_res (tile h1 p1 outer 32) (\<lambda>t2.
             case renamed_result [] h1 p1 (loop_result t2) of (b2, p2, h2) \<Rightarrow>
             if \<not> b1 \<and> \<not> b2 then tile_each h2 Ls (changed, p2)
             else tile_each h2 Ls (True, snd (hoist p2 inner 1))))))))"

definition tryToTileForLocality :: "heap \<Rightarrow> program \<Rightarrow> ((bool \<times> program) \<times> heap) res" where
  "tryToTileForLocality h p = tile_each h (collectInnermostLoops (pr_body p)) (False, p)"

definition optimizeStatic :: "host \<Rightarrow> backend \<Rightarrow> heap \<Rightarrow> program \<Rightarrow> (program \<times> heap) run" where
  "optimizeStatic H B h p =
     bindR (Some (clone_program h empty_ctx p)) (\<lambda>(np, h, c).
     bindR (distributeAllLoops False h np) (\<lambda>(ch, np, h).
     bindR (simplify H h np) (\<lambda>(np, ch).
     bindR (Some (sinkLoopsForConsecutiveIndexAccess h np)) (\<lambda>(ch, np).
     bindR (tryToFuseAllShallowLoops H h False np) (\<lambda>(ch, np).
     bindR (Some (tryToVectorizeAllLoops np (be_width B) h)) (\<lambda>((ch, np), h).
     bindR (Some (tryToTileForLocality h np)) (\<lambda>((ch, np), h).
     bindR (simplify H h np) (\<lambda>(np, ch).
     bindR (Some (promoteLICM h np)) (\<lambda>(ch, np, h).
     bindR (simplify H h np) (\<lambda>(np, ch).
     retR (np, h)))))))))))"

end
