(* ===== verification/Driver.thy ===== *)
theory Driver
  imports Autotune ParserProgram
begin

text \<open>
  \<open>tools/bistrac/bistrac.cpp\<close>: the warnings, \<open>parseAndOptimize\<close> and \<open>main\<close>. The trees have no source
  locations, so a warning of the analysis is its kind and its text; the errors about pragmas carry the
  location of the command. What \<open>main\<close> does to the outside is a list of effects.
\<close>

type_synonym diagnostic = "DiagnoseKind \<times> string"

section \<open>Warnings\<close>

fun store_value :: "stmt \<Rightarrow> expr" where
  "store_value (StoreStmt g x acc) = x"
| "store_value s = ConstantExpr 0"

text \<open>The accesses with the expression to blame: loads first, then the values of stores.\<close>

fun most_expensive :: "heap \<Rightarrow> loop_ptr list \<Rightarrow> (expr list \<times> expr) list \<Rightarrow> expr option \<times> u64 \<Rightarrow> (expr option \<times> u64) res" where
  "most_expensive h live [] m = Inr m"
| "most_expensive h live ((indices, e) # accs) (mxE, mx) =
     bind_res (getAccessedMemoryForSubscript h indices (Some live)) (\<lambda>io.
     most_expensive h live accs (if mx < io then (Some e, io) else (mxE, mx)))"

definition getExpensiveOp :: "heap \<Rightarrow> stmt list \<Rightarrow> (expr option \<times> u64) res" where
  "getExpensiveOp h S =
     (case collectLoadStores (visit_body S) None of
        (loads, stores) \<Rightarrow>
          most_expensive h (body_loops S)
            (map (\<lambda>ld. (gep_indices (load_gep ld), ld)) loads
              @ map (\<lambda>st. (gep_indices (store_gep st), store_value st)) stores)
            (None, 0))"

definition warnIfLoopNotProperlyTiled :: "heap \<Rightarrow> stmt list \<Rightarrow> loop_ptr \<Rightarrow> diagnostic list res" where
  "warnIfLoopNotProperlyTiled h ss L =
     bind_res (the_loop ss L) (\<lambda>(enc, body).
     case enc of
       [] \<Rightarrow> Inr []
     | PL # _ \<Rightarrow>
         bind_res (the_loop ss PL) (\<lambda>(enc', pbody).
         bind_res (getNumLoadsInLoop h L body) (\<lambda>IOL.
         bind_res (getNumLoadsInLoop h PL pbody) (\<lambda>IOPL.
         if IOL < 1024 * 16 \<and> 1024 * 64 < IOPL then
           bind_res (prettyPrintNumber IOPL) (\<lambda>n.
           bind_res (prettyPrintNumber IOL) (\<lambda>m.
           Inr [(Warning, ''consider tiling a loop that touches '' @ n @ '' elements''),
                (Note, ''here is a possible inner loop that touches only '' @ m @ '' elements'')]))
         else Inr []))))"

text \<open>The visit of a statement without what is below a range check.\<close>

fun unguarded :: "stmt \<Rightarrow> event list" where
  "unguarded (Loop L body) = EnterS (Loop L body) # concat (map unguarded body) @ [LeaveS (Loop L body)]"
| "unguarded (IfRange val lo hi body) = []"
| "unguarded s = visit_stmt s"

text \<open>The checks of one access, from dimension \<open>i\<close> on.\<close>

fun overflow_at :: "heap \<Rightarrow> Type \<Rightarrow> nat \<Rightarrow> expr list \<Rightarrow> diagnostic list res" where
  "overflow_at h ty i [] = Inr []"
| "overflow_at h ty i (idx # indices) =
     bind_res (computeKnownIntegerRange h None idx) (\<lambda>r.
     bind_res
       (case r of
          None \<Rightarrow> Inr []
        | Some rg \<Rightarrow>
            if i < length (ty_sizes ty) then
              (let bufferSize = int_of_u32 (ty_sizes ty ! i) in
               Inr (if fst rg < 0 \<or> bufferSize < snd rg
                    then [(Warning, ''buffer overflow detected at index '' @ dec_nat i),
                          (Note, ''the index range is '' @ dec_int (fst rg) @ '' .. '' @ dec_int (snd rg)
                             @ '', but the buffer range is 0 .. '' @ dec_int bufferSize)]
                    else []))
            else Inl (UB ''getDims()[i]'')) (\<lambda>ds.
     bind_res (overflow_at h ty (Suc i) indices) (\<lambda>ds'. Inr (ds @ ds'))))"

definition overflow_of :: "heap \<Rightarrow> expr \<Rightarrow> diagnostic list res" where
  "overflow_of h gep =
     (case gep of
        GEPExpr a indices \<Rightarrow> overflow_at h (arg_type (hp_arg h a)) 0 indices
      | _ \<Rightarrow> Inl (UB ''dynamic_cast<GEPExpr>''))"

definition detectOverflow :: "heap \<Rightarrow> stmt list \<Rightarrow> diagnostic list res" where
  "detectOverflow h ss =
     (case collectLoadStores (concat (map unguarded ss)) None of
        (loads, stores) \<Rightarrow>
          bind_res (map_res (overflow_of h) (map load_gep loads @ map store_gep stores)) (\<lambda>dss. Inr (concat dss)))"

definition hot_loop :: "heap \<Rightarrow> stmt list \<Rightarrow> diagnostic list res" where
  "hot_loop h ss =
     bind_res (getExpensiveOp h ss) (\<lambda>EC.
     case EC of
       (Some e, n) \<Rightarrow>
         if ety_width (getType e) = 1 then
           bind_res (prettyPrintNumber n) (\<lambda>t. Inr [(Warning, ''a hot loop performs '' @ t @ '' unvectorized operations'')])
         else Inr []
     | (None, n) \<Rightarrow> Inr [])"

definition analyzeProgram :: "heap \<Rightarrow> program \<Rightarrow> diagnostic list res" where
  "analyzeProgram h p =
     bind_res (cost_program h p) (\<lambda>info.
     bind_res (hot_loop h (pr_body p)) (\<lambda>hot.
     bind_res (map_res (warnIfLoopNotProperlyTiled h (pr_body p)) (body_loops (pr_body p))) (\<lambda>tiled.
     bind_res (detectOverflow h (pr_body p)) (\<lambda>over.
     Inr ((Note, ''the program performs '' @ dec_nat (unat (snd info)) @ '' arithmetic ops and ''
             @ dec_nat (unat (fst info)) @ '' memory ops'') # hot @ concat tiled @ over)))))"

section \<open>Parsing and pragmas\<close>

definition endsWith :: "string \<Rightarrow> string \<Rightarrow> bool" where
  "endsWith str suffix =
     (if length str < length suffix then False else drop (length str - length suffix) str = suffix)"

fun apply_pragmas :: "PragmaCommand list \<Rightarrow> program \<Rightarrow> parser \<Rightarrow> (program \<times> parser) res option" where
  "apply_pragmas [] p s = Some (Inr (p, s))"
| "apply_pragmas (pc # pcs) p s =
     (case applyPragmaCommand (cx_heap s) p pc of
        None \<Rightarrow> None
      | Some (Inl e) \<Rightarrow> Some (Inl e)
      | Some (Inr (res, p', h')) \<Rightarrow>
          if res then apply_pragmas pcs p' (s\<lparr>cx_heap := h'\<rparr>)
          else
            Some (bind_res (dump_program h' p') (\<lambda>text.
                  bind_res (diagnose Error (pc_loc pc) ''unable to apply the pragma'' (s\<lparr>cx_heap := h', cx_out := cx_out s @ text\<rparr>)) (\<lambda>s'.
                  Inr (p', s')))))"

definition parseAndOptimize :: "host \<Rightarrow> context_state \<Rightarrow> (program option \<times> parser) res option" where
  "parseAndOptimize H ctx =
     (case parseProgram H ctx [] [] of
        None \<Rightarrow> None
      | Some (Inl e) \<Rightarrow> Some (Inl e)
      | Some (Inr (p, s)) \<Rightarrow>
          if 0 < cx_numErrors s then Some (Inr (None, s))
          else
            (case p of
               None \<Rightarrow> if cx_pragmas s = [] then Some (Inr (None, s)) else Some (Inl (UB ''null program''))
             | Some p \<Rightarrow>
                 (case apply_pragmas (cx_pragmas s) p s of
                    None \<Rightarrow> None
                  | Some r \<Rightarrow> Some (bind_res r (\<lambda>(p', s'). Inr (Some p', s'))))))"

section \<open>The driver\<close>

record flags =
  fl_dump :: bool
  fl_warn :: bool
  fl_opt :: bool
  fl_tune :: bool
  fl_time :: bool
  fl_textual :: bool
  fl_bytecode :: bool
  fl_out :: string

text \<open>What happens outside: printed text, the messages of the parser and of the analysis, the file that
  the search saved, and the output file.\<close>

datatype effect =
    Messages string
  | Tuned string "saved_file option" "rat list"
  | Dumped string
  | Timed string rat
  | Diagnosed "diagnostic list"
  | Wrote string saved_file

definition load_program :: "host \<Rightarrow> string \<Rightarrow> string \<Rightarrow> heap \<Rightarrow> (program option \<times> heap \<times> string) run" where
  "load_program H inFile content h =
     (if endsWith inFile ''.bc''
      then Some (bind_res (deserialize h (map of_char content)) (\<lambda>(p, h'). Inr (Some p, h', [])))
      else
        bindR (parseAndOptimize H (new_context h (takeWhile (\<lambda>c. c \<noteq> CHR 0x00) content) inFile)) (\<lambda>(p, s).
        retR (p, cx_heap s, cx_out s)))"

definition emit_output :: "flags \<Rightarrow> heap \<Rightarrow> program \<Rightarrow> effect list res" where
  "emit_output fl h p =
     (if fl_out fl = [] then Inr []
      else if fl_bytecode fl then bind_res (serialize h p) (\<lambda>bs. Inr [Wrote (fl_out fl) (Bytecode_file bs)])
      else Inr [Wrote (fl_out fl) (Code_file p (fl_textual fl))])"

definition after_load :: "host \<Rightarrow> backend \<Rightarrow> flags \<Rightarrow> heap \<Rightarrow> program \<Rightarrow> effect list run" where
  "after_load H B fl h p =
     bindR (if fl_tune fl then
              (let outFile = (if fl_out fl \<noteq> [] then fl_out fl else ''/tmp/file.s'') in
               bindR (optimizeEvaluate H B \<lparr>sv_path = outFile, sv_text = fl_textual fl, sv_bytecode = fl_bytecode fl\<rparr> h p)
                 (\<lambda>(best, st). retR (sr_heap st, sr_measured st, [Tuned outFile (sr_saved st) (sr_measured st)])))
            else retR (h, [], [])) (\<lambda>(h, runs, tuned).
     bindR (if fl_opt fl then optimizeStatic H B h p else retR (p, h)) (\<lambda>(p, h).
     bindR (if fl_dump fl then Some (bind_res (dump_program h p) (\<lambda>t. Inr [Dumped t])) else retR []) (\<lambda>dumped.
     bindR (retR (if fl_time fl then [Timed (pr_name p) (be_time B (length runs) h p)] else [])) (\<lambda>timed.
     bindR (if fl_warn fl then Some (bind_res (analyzeProgram h p) (\<lambda>ds. Inr [Diagnosed ds])) else retR []) (\<lambda>warned.
     bindR (Some (emit_output fl h p)) (\<lambda>written.
     retR (tuned @ dumped @ timed @ warned @ written)))))))"

text \<open>The exit code and the effects, for an input file with the given content.\<close>

definition bistrac_main :: "host \<Rightarrow> backend \<Rightarrow> flags \<Rightarrow> string \<Rightarrow> string \<Rightarrow> heap \<Rightarrow> (int \<times> effect list) run" where
  "bistrac_main H B fl inFile file h =
     bindR (load_program H inFile (readFile file) h) (\<lambda>(program, h, out).
     case program of
       None \<Rightarrow> retR (1, [Messages out])
     | Some p \<Rightarrow> bindR (after_load H B fl h p) (\<lambda>effects. retR (0, Messages out # effects)))"

end
