(* ===== verification/DriverFacts.thy ===== *)
theory DriverFacts
  imports Driver ParserRun
begin

text \<open>
  What the driver guarantees: a compiled program runs like the parsed one when its script only tiles,
  peels and unrolls; the driver gives up only after a message; and what the overflow check is worth.
\<close>

section \<open>Scripts\<close>

lemma apply_pragmas_keeps:
  assumes "apply_pragmas pcs p s = Some (Inr (p', s'))" "\<forall>pc \<in> set pcs. safe_pragma (pc_kind pc)"
    and "wf_body (cx_heap s) (pr_body p)" "loops_ok (cx_heap s) (pr_body p)"
  shows "wf_body (cx_heap s') (pr_body p') \<and> loops_ok (cx_heap s') (pr_body p')
    \<and> (m_guard M = range_guard \<longrightarrow> run_program M (cx_heap s') p' st = run_program M (cx_heap s) p st)"
  using assms
proof (induction pcs p s rule: apply_pragmas.induct)
  case (2 pc pcs p s)
  from "2.prems"(1) obtain res q h where q: "applyPragmaCommand (cx_heap s) p pc = Some (Inr (res, q, h))"
    by (auto split: option.splits sum.splits)
  have keeps: "wf_body h (pr_body q) \<and> loops_ok h (pr_body q)
      \<and> (m_guard M = range_guard \<longrightarrow> run_program M h q st = run_program M (cx_heap s) p st)"
    using pragma_keeps [OF q] "2.prems"(2-4) by simp
  show ?case
  proof (cases res)
    case True
    then have r: "apply_pragmas pcs q (s\<lparr>cx_heap := h\<rparr>) = Some (Inr (p', s'))" using "2.prems"(1) q by simp
    have "wf_body (cx_heap s') (pr_body p') \<and> loops_ok (cx_heap s') (pr_body p')
      \<and> (m_guard M = range_guard \<longrightarrow> run_program M (cx_heap s') p' st = run_program M h q st)"
      using "2.IH" [OF q refl refl refl True r] "2.prems"(2) keeps by simp
    then show ?thesis using keeps by simp
  next
    case False
    then obtain msg where "p' = q" "diagnose Error (pc_loc pc) ''unable to apply the pragma'' (s\<lparr>cx_heap := h, cx_out := cx_out s @ msg\<rparr>) = Inr s'"
      using "2.prems"(1) q by auto
    moreover from this(2) have "cx_heap s' = h" using diagnose_keeps by (fastforce simp: named_folds)
    ultimately show ?thesis using keeps by simp
  qed
qed simp

lemma parseAndOptimize_elim:
  assumes "parseAndOptimize H ctx = Some (Inr (Some p, s))"
  obtains q s0 where "parseProgram H ctx [] [] = Some (Inr (Some q, s0))" "cx_numErrors s0 = 0"
    "apply_pragmas (cx_pragmas s0) q s0 = Some (Inr (p, s))"
  using assms by (auto simp: parseAndOptimize_def split: option.splits sum.splits if_splits)

text \<open>C2. From the text to the compiled program: when the script of a file only tiles, peels and unrolls, and
  the loops of the parsed program have non-zero strides that divide their ends, then the program that
  \<open>parseAndOptimize\<close> returns is well formed, and it computes what the parsed program computes, also when
  the last command was rejected, on every machine that implements the half-open range check, and on every
  machine at all when neither program has a range check. The second case is that of the emitted code, whose
  range checks have no effect (C33); there a \<open>tile\<close> whose block does not divide its loop may change the result.\<close>

theorem compile_preserves:
  assumes "parseProgram H (new_context h buffer filename) [] [] = Some (Inr (Some q, s0))"
    and "parseAndOptimize H (new_context h buffer filename) = Some (Inr (Some p, s))"
    and "\<forall>pc \<in> set (cx_pragmas s0). pc_kind pc \<in> {tile_pragma, peel_pragma, unroll_pragma}"
    and "loops_ok (cx_heap s0) (pr_body q)"
  shows "wf_body (cx_heap s) (pr_body p)
    \<and> (m_guard M = range_guard \<or> list_all no_ifs (pr_body q) \<and> list_all no_ifs (pr_body p)
        \<longrightarrow> run_program M (cx_heap s) p st = run_program M (cx_heap s0) q st)"
proof -
  have wf: "wf_body (cx_heap s0) (pr_body q)" using parsed_wf [OF assms(1)] by simp
  have safe: "\<forall>pc \<in> set (cx_pragmas s0). safe_pragma (pc_kind pc)" using assms(3) by (simp add: safe_pragma_def)
  have "apply_pragmas (cx_pragmas s0) q s0 = Some (Inr (p, s))"
    using parseAndOptimize_elim [OF assms(2)] assms(1) by auto
  note keeps = apply_pragmas_keeps [OF this safe wf assms(4)]
  have "guarded M q p \<Longrightarrow> run_program M (cx_heap s) p st = run_program M (cx_heap s0) q st"
    by (rule guarded_runs) (use keeps in blast)+
  with keeps show ?thesis unfolding guarded_def by blast
qed

text \<open>C18. The driver gives up on a file only after a message: \<open>parseAndOptimize\<close> returns no program only
  when the parser has reported an error, and a program it returns was parsed without one.\<close>

theorem driver_fails_loudly:
  assumes "parseAndOptimize H (new_context h buffer filename) = Some (Inr (r, s))"
  shows "r = None \<longleftrightarrow> (\<exists>q s0. parseProgram H (new_context h buffer filename) [] [] = Some (Inr (q, s0)) \<and> 0 < cx_numErrors s0)"
proof -
  obtain q s0 where p: "parseProgram H (new_context h buffer filename) [] [] = Some (Inr (q, s0))"
    using assms by (auto simp: parseAndOptimize_def split: option.splits sum.splits)
  show ?thesis
  proof (cases "cx_numErrors s0 = 0")
    case True
    then obtain q' where "q = Some q'" using parse_silent [OF p] by auto
    then show ?thesis using assms p True by (auto simp: parseAndOptimize_def split: option.splits sum.splits)
  next
    case False
    then show ?thesis using assms p by (simp add: parseAndOptimize_def)
  qed
qed


section \<open>A file with a script\<close>

definition no_host :: host where
  "no_host = \<lparr>ho_bin = (\<lambda>k a b. a), ho_ipow = (\<lambda>a b. Inr a)\<rparr>"

definition scripted_text :: string where
  "scripted_text = ''func f(A:float<x:9>){for(i in 0 .. 9){A[i]=1}}script for'' @ quote @ ''x'' @ quote @ ''{tile'' @ quote @ ''i'' @ quote @ ''3}''"

declare parse_lets.simps [simp del] parse_vars.simps [simp del] parse_stmts.simps [simp del]
  parseScope.simps [simp del] parse_params.simps [simp del] parseMoreDims.simps [simp del]
  parse_commands.simps [simp del]

lemmas script_runs = parseScriptDecl_def [THEN fun_cong] parse_commands.simps(2) [THEN fun_cong] parse_command_def [THEN fun_cong]
  add_pragma_def [THEN fun_cong] script_kinds_def

lemma scripted_parses:
  "\<exists>L a n s. parseProgram no_host (new_context h scripted_text ''f'') [] [] =
       Some (Inr (Some \<lparr>pr_name = ''f'', pr_args = [a], pr_vars = [], pr_body = [Loop L [StoreStmt (GEPExpr a [new_IndexExpr L]) (ConstantExpr 1) False]]\<rparr>, s))
     \<and> cx_numErrors s = 0 \<and> L < hp_next (cx_heap s) \<and> hp_loop (cx_heap s) L = \<lparr>lp_name = ''i'', lp_end = 9, lp_stride = 1\<rparr>
     \<and> cx_pragmas s = [\<lparr>pc_kind = tile_pragma, pc_loopName = ''i'', pc_newName = [], pc_param = 3, pc_loc = n\<rparr>]"
  apply (simp add: scripted_text_def parser_runs script_runs quote_def u32_of_int_def i64_of_int_def)
  done

lemma tile_nine:
  assumes "hp_loop h L = \<lparr>lp_name = ''i'', lp_end = 9, lp_stride = 1\<rparr>" "L < hp_next h" "list_all no_ifs body"
  shows "\<exists>p' h'. applyPragmaCommand h \<lparr>pr_name = ''f'', pr_args = as, pr_vars = [], pr_body = [Loop L body]\<rparr>
    \<lparr>pc_kind = tile_pragma, pc_loopName = ''i'', pc_newName = [], pc_param = 3, pc_loc = n\<rparr> = Some (Inr (True, p', h'))
    \<and> list_all no_ifs (pr_body p')"
proof -
  let ?p = "\<lparr>pr_name = ''f'', pr_args = as, pr_vars = [], pr_body = [Loop L body]\<rparr>"
  obtain NL e h' where r: "tile_loop 3 h [] [] L body = Inr (Some (NL, [Loop L [subst_stmt L e (Loop NL body)]], h'))"
    using assms(1,2) by (auto simp: tile_loop_def loop_name_def loop_end_def loop_stride_def mod_u32_def new_loop_def Let_def
        new_BinaryExpr_def new_IndexExpr_def simp del: subst_stmt.simps)
  have "tile h ?p L 3 = Inr (Some (NL, ?p\<lparr>pr_body := [Loop L [subst_stmt L e (Loop NL body)]]\<rparr>, h'))"
    using r by (simp add: tile_def on_loop_def replace_loop_def del: subst_stmt.simps)
  moreover have "no_ifs (subst_stmt L e (Loop NL body))" using assms(3) by (intro subst_no_ifs) simp
  ultimately show ?thesis using assms(1,2)
    by (simp add: applyPragmaCommand_def getLoopByName_def collectLoops_def loop_name_def u32_of_int_def renamed_result_def loop_result_def
        del: subst_stmt.simps)
qed

theorem compile_preserves_witness:
  "\<exists>q s0 p s. parseAndOptimize no_host (new_context (fst demo_loop) scripted_text ''f'') = Some (Inr (Some p, s))
     \<and> wf_body (cx_heap s) (pr_body p)
     \<and> (\<forall>M st. m_guard M = llvm_guard \<longrightarrow> run_program M (cx_heap s) p st = run_program M (cx_heap s0) q st)
     \<and> parseProgram no_host (new_context (fst demo_loop) scripted_text ''f'') [] [] = Some (Inr (Some q, s0))"
proof -
  obtain L a n s0 where q: "parseProgram no_host (new_context (fst demo_loop) scripted_text ''f'') [] [] =
       Some (Inr (Some \<lparr>pr_name = ''f'', pr_args = [a], pr_vars = [], pr_body = [Loop L [StoreStmt (GEPExpr a [new_IndexExpr L]) (ConstantExpr 1) False]]\<rparr>, s0))"
      (is "_ = Some (Inr (Some ?q, s0))")
    and s0: "cx_numErrors s0 = 0" "L < hp_next (cx_heap s0)" "hp_loop (cx_heap s0) L = \<lparr>lp_name = ''i'', lp_end = 9, lp_stride = 1\<rparr>"
      "cx_pragmas s0 = [\<lparr>pc_kind = tile_pragma, pc_loopName = ''i'', pc_newName = [], pc_param = 3, pc_loc = n\<rparr>]"
    using scripted_parses [of "fst demo_loop"] by blast
  obtain p' h' where p': "applyPragmaCommand (cx_heap s0) ?q (hd (cx_pragmas s0)) = Some (Inr (True, p', h'))" "list_all no_ifs (pr_body p')"
    using tile_nine [OF s0(3,2)] s0(4) by force
  then have opt: "parseAndOptimize no_host (new_context (fst demo_loop) scripted_text ''f'') = Some (Inr (Some p', s0\<lparr>cx_heap := h'\<rparr>))"
    using q s0 by (simp add: parseAndOptimize_def)
  have "\<forall>pc \<in> set (cx_pragmas s0). pc_kind pc \<in> {tile_pragma, peel_pragma, unroll_pragma}" using s0(4) by simp
  moreover have "loops_ok (cx_heap s0) (pr_body ?q)"
    using s0(2,3) by (simp add: loops_ok_def loop_ok_def whole_trips_def loop_end_def loop_stride_def)
  ultimately have "wf_body (cx_heap (s0\<lparr>cx_heap := h'\<rparr>)) (pr_body p')
      \<and> run_program M (cx_heap (s0\<lparr>cx_heap := h'\<rparr>)) p' st = run_program M (cx_heap s0) ?q st" for M st
    using compile_preserves [OF q opt, of M st] p'(2) by simp
  with q opt show ?thesis by blast
qed

theorem driver_fails_loudly_witness:
  "\<exists>s. parseAndOptimize no_host (new_context (fst demo_loop) printed_loop ''f'') = Some (Inr (None, s))"
proof -
  obtain p s where "parseProgram no_host (new_context (fst demo_loop) printed_loop ''f'') [] [] = Some (Inr (p, s))" "0 < cx_numErrors s"
    using printed_loop_error [of "fst demo_loop"] by (auto simp: parse_text_def no_host_def)
  moreover from this obtain r s' where "parseAndOptimize no_host (new_context (fst demo_loop) printed_loop ''f'') = Some (Inr (r, s'))"
    by (simp add: parseAndOptimize_def)
  ultimately show ?thesis using driver_fails_loudly by blast
qed

section \<open>The overflow check\<close>

lemma overflow_at_silent:
  "overflow_at h ty n is = Inr [] \<Longrightarrow> i < length is \<Longrightarrow> computeKnownIntegerRange h None (is ! i) = Inr (Some r) \<Longrightarrow>
    n + i < length (ty_sizes ty) \<and> 0 \<le> fst r \<and> snd r \<le> int_of_u32 (ty_sizes ty ! (n + i))"
proof (induction h ty n "is" arbitrary: i rule: overflow_at.induct)
  case (2 h ty n idx indices)
  from "2.prems"(1) obtain k ds where k: "computeKnownIntegerRange h None idx = Inr k"
    "(case k of None \<Rightarrow> Inr []
        | Some rg \<Rightarrow>
            if n < length (ty_sizes ty) then
              (let bufferSize = int_of_u32 (ty_sizes ty ! n) in
               Inr (if fst rg < 0 \<or> bufferSize < snd rg
                    then [(Warning, ''buffer overflow detected at index '' @ dec_nat n),
                          (Note, ''the index range is '' @ dec_int (fst rg) @ '' .. '' @ dec_int (snd rg)
                             @ '', but the buffer range is 0 .. '' @ dec_int bufferSize)]
                    else []))
            else Inl (UB ''getDims()[i]'')) = Inr ds"
    "overflow_at h ty (Suc n) indices = Inr []" "ds = []"
    by auto
  show ?case
  proof (cases i)
    case 0
    with k "2.prems"(3) show ?thesis by (auto simp: Let_def split: if_splits)
  next
    case (Suc j)
    with "2.IH" [OF k(1,2,3), of j] "2.prems" show ?thesis by simp
  qed
qed simp

lemma detectOverflow_silent:
  assumes "detectOverflow h ss = Inr []" "collectLoadStores (concat (map unguarded ss)) None = (loads, stores)"
    and "GEPExpr a is \<in> set (map load_gep loads @ map store_gep stores)"
  shows "overflow_at h (arg_type (hp_arg h a)) 0 is = Inr []"
proof -
  let ?geps = "map load_gep loads @ map store_gep stores"
  from assms(1,2) obtain dss where d: "map_res (overflow_of h) ?geps = Inr dss" "concat dss = []"
    by (auto simp: detectOverflow_def)
  from assms(3) obtain i where "i < length ?geps" "?geps ! i = GEPExpr a is" by (metis in_set_conv_nth)
  then have "overflow_of h (GEPExpr a is) = Inr (dss ! i)" "dss ! i \<in> set dss"
    using map_res_nth [OF d(1)] map_res_length [OF d(1)] by (metis, metis nth_mem)
  with d(2) show ?thesis by (simp add: overflow_of_def)
qed

text \<open>C19. What the silence of the overflow check is worth: when it reports nothing for a program, then an
  index of an access outside the range checks, whose range is known, evaluates to a value from 0 up to
  and including the size of its dimension, at every iteration of the loops. The index must not use \<open>max\<close>, whose
  interval the analysis gets wrong, and its constants must fit an \<open>int\<close>, to which the analysis truncates them:
  outside these conditions an access that leaves the array can go without a warning.\<close>

theorem unwarned_access_in_bounds:
  assumes "detectOverflow h ss = Inr []" "collectLoadStores (concat (map unguarded ss)) None = (loads, stores)"
    and "GEPExpr a is \<in> set (map load_gep loads @ map store_gep stores)" "i < length is"
    and "computeKnownIntegerRange h None (is ! i) = Inr (Some r)" "consts_fit (is ! i)" "no_max (is ! i)"
    and "\<forall>L \<in> loops_of_expr (is ! i). 0 \<le> sint (\<rho> L) \<and> sint (\<rho> L) \<le> int (unat (loop_end h L - loop_stride h L))"
      "eval M h st \<rho> (is ! i) = Some v"
  shows "i < length (ty_sizes (arg_type (hp_arg h a)))
    \<and> (\<exists>x. v = VIdx [x] \<and> 0 \<le> sint x \<and> sint x \<le> int (unat (ty_sizes (arg_type (hp_arg h a)) ! i)))"
proof -
  have silent: "i < length (ty_sizes (arg_type (hp_arg h a)))" "0 \<le> fst r"
      "snd r \<le> int_of_u32 (ty_sizes (arg_type (hp_arg h a)) ! i)"
    using overflow_at_silent [OF detectOverflow_silent [OF assms(1-3)] assms(4,5)] by simp_all
  obtain x where "v = VIdx [x]" "fst r \<le> sint x" "sint x \<le> snd r"
    using range_sound [unfolded in_trips_def, OF assms(5-9)] by (auto simp: bounds_val_def)
  with silent int_of_u32_nonneg show ?thesis by fastforce
qed

theorem unwarned_access_in_bounds_witness:
  "detectOverflow (fst demo_loop) (pr_body (snd demo_loop)) = Inr []
     \<and> (\<exists>x. VIdx [5] = VIdx [x] \<and> 0 \<le> sint x \<and> sint x \<le> int (unat (ty_sizes (arg_type (hp_arg (fst demo_loop) 1)) ! 0)))"
proof -
  let ?h = "fst demo_loop" and ?is = "[IndexExpr (scalarTy IndexTy) 0]"
  have o: "detectOverflow ?h (pr_body (snd demo_loop)) = Inr []" by code_simp
  have c: "collectLoadStores (concat (map unguarded (pr_body (snd demo_loop)))) None
      = ([], [StoreStmt (GEPExpr 1 ?is) (ConstantFPExpr f32_one) False])"
    by code_simp
  have r: "computeKnownIntegerRange ?h None (?is ! 0) = Inr (Some (0, 5))" by code_simp
  show ?thesis
    using unwarned_access_in_bounds [OF o c _ _ r, of 1 "\<lambda>_. 5" undefined undefined "VIdx [5]"] o
    by (simp add: demo_loop_def loop_end_def loop_stride_def)
qed

text \<open>The check is off by one: an access at the index that equals the size of the dimension gets no
  warning, although it is behind the end of the array.\<close>

theorem overflow_by_one_unnoticed:
  "\<exists>p s a. parseProgram no_host (new_context h ''func f(A:float<x:4>){A[4]=1}'' ''f'') [] [] = Some (Inr (Some p, s))
     \<and> cx_numErrors s = 0 \<and> pr_body p = [StoreStmt (GEPExpr a [ConstantExpr 4]) (ConstantExpr 1) False]
     \<and> ty_sizes (arg_type (hp_arg (cx_heap s) a)) = [4] \<and> detectOverflow (cx_heap s) (pr_body p) = Inr []"
  by (simp add: parser_runs no_host_def)
    (simp add: detectOverflow_def overflow_of_def collectLoadStores_def loads_of_def stores_of_def i64_of_int_def u32_of_int_def
      int_of_i64_def int_of_u32_def getNumDims_def)

end
