(* ===== verification/FuseFacts.thy ===== *)
theory FuseFacts
  imports Optimizer SimplifyCorrect
begin

text \<open>
  The sweeps of \<open>tryToFuseAllShallowLoops\<close>. Fusing keeps a body well formed and removes a loop, and
  \<open>simplify\<close> adds none, so the restarts end. A sweep that meets a loop without a loop after it gives up,
  and the last loop of a program never has one: the function reports a change only for a program
  whose loops have all gone.
\<close>

section \<open>Fusing and well-formedness\<close>

text \<open>A rewriting of a body that keeps it well formed and removes a loop of it.\<close>

definition loses_loop :: "heap \<Rightarrow> stmt list \<Rightarrow> stmt list \<Rightarrow> bool" where
  "loses_loop h ss ss' \<longleftrightarrow> fits_body h h ss ss' \<and> \<not> set (body_loops ss) \<subseteq> set (body_loops ss')"

lemma fits_body_length: "fits_body h h a b \<Longrightarrow> wf_body h a \<Longrightarrow> length (body_loops b) \<le> length (body_loops a)"
  using fits_body_loops [of h a b]
  by (metis List.finite_set card_mono distinct_card fits_body_def wf_body_def)

lemma loses_loop_length: "loses_loop h a b \<Longrightarrow> wf_body h a \<Longrightarrow> length (body_loops b) < length (body_loops a)"
proof -
  assume l: "loses_loop h a b" and wf: "wf_body h a"
  then have "set (body_loops b) \<subset> set (body_loops a)"
    using fits_body_loops [of h a b] unfolding loses_loop_def by blast
  then have "card (set (body_loops b)) < card (set (body_loops a))" by (simp only: psubset_card_mono List.finite_set)
  then show ?thesis using l wf by (simp add: distinct_card loses_loop_def fits_body_def wf_body_def del: set_concat)
qed

lemma fits_same_append:
  assumes "fits_body h h xs xs'" "fits_body h h ys ys'" "wf_body h (xs @ ys)"
  shows "fits_body h h (xs @ ys) (xs' @ ys')"
  using fits_body_append [OF assms] assms(1) wf_body_bound by (fastforce simp: fits_body_def simp del: set_concat)

lemma fits_same_Cons:
  assumes "fits_body h h [s] [s']" "fits_body h h ss ss'" "wf_body h (s # ss)"
  shows "fits_body h h (s # ss) (s' # ss')"
  using fits_same_append [of h "[s]" "[s']" ss ss'] assms by simp

lemma fits_fused:
  assumes wf: "wf_body h [Loop L b1, Loop L2 b2]"
  shows "wf_body h (fused_body L b1 L2 b2)" "fits_body h h [Loop L b1, Loop L2 b2] [Loop L (fused_body L b1 L2 b2)]"
proof -
  let ?x = "new_IndexExpr L" and ?b = "map (subst_stmt L2 (new_IndexExpr L)) b2"
  have w: "L < hp_next h" "wf_body h b1" "wf_body h b2" "L \<notin> set (body_loops b1)" "L \<notin> set (body_loops b2)" "L \<noteq> L2"
    "set (body_loops b1) \<inter> set (body_loops b2) = {}" "free_of b1 \<inter> set (body_loops b2) = {}"
    "(free_of b2 - {L2}) \<inter> set (body_loops b1) = {}"
    "L2 \<notin> set (body_loops b1)" "L \<notin> free_of b2 - {L2}" "L2 \<notin> free_of b1 - {L}"
    using wf unfolding wf_body_Cons [of h "Loop L b1"] wf_body_Loop by (auto simp: free_of_def)
  have x: "below_expr (hp_next h) ?x" "index_kinds_ok ?x" "loops_of_expr ?x = {L}"
    using w(1) by (simp_all add: new_IndexExpr_def)
  have b: "wf_body h ?b" by (rule wf_subst) (use w x in auto)
  have fr: "free_of ?b \<subseteq> insert L (free_of b2 - {L2})" using subst_free_of [of L2 ?x b2] x(3) by auto
  show f: "wf_body h (fused_body L b1 L2 b2)"
    unfolding fused_body_def wf_body_append subst_body_loops using w b fr by blast
  then have "wf_body h [Loop L (fused_body L b1 L2 b2)]"
    unfolding wf_body_Loop using w(1,4,5) by (auto simp: fused_body_def simp del: set_concat map_map)
  moreover have "free_of [Loop L (fused_body L b1 L2 b2)] \<subseteq> free_of [Loop L b1, Loop L2 b2]"
    using fr by (auto simp: fused_body_def free_of_def)
  moreover have "set (body_loops [Loop L (fused_body L b1 L2 b2)]) \<subseteq> set (body_loops [Loop L b1, Loop L2 b2])"
    using subst_body_loops [of L2 ?x b2] by (auto simp: fused_body_def simp del: set_concat map_map)
  ultimately show "fits_body h h [Loop L b1, Loop L2 b2] [Loop L (fused_body L b1 L2 b2)]"
    by (auto simp: fits_body_def simp del: set_concat)
qed

lemma fuse_next_elim:
  assumes "fuse_next levels h ss = Inr (Some ss')"
  obtains L b1 L2 b2 rest body where "ss = Loop L b1 # Loop L2 b2 # rest" "ss' = Loop L body # rest"
    "fuse_first (levels - 1) h (fused_body L b1 L2 b2) = Inr body"
proof -
  from assms have "\<exists>L b1 L2 b2 rest body. ss = Loop L b1 # Loop L2 b2 # rest \<and> ss' = Loop L body # rest
      \<and> fuse_first (levels - 1) h (fused_body L b1 L2 b2) = Inr body"
    by (subst (asm) fuse_next.simps) (simp split: list.split_asm stmt.split_asm if_split_asm, blast)
  then show ?thesis using that by blast
qed

lemma fuse_first_Cons:
  assumes "fuse_first levels h (s # ss) = Inr ss'"
  obtains "fuse_next levels h (s # ss) = Inr (Some ss')"
  | ss1 where "fuse_next levels h (s # ss) = Inr None" "fuse_first levels h ss = Inr ss1" "ss' = s # ss1"
proof (cases "fuse_next levels h (s # ss)")
  case (Inl e)
  then show ?thesis using assms by (subst (asm) fuse_first.simps) simp
next
  case (Inr r)
  then show ?thesis using assms that by (cases r; subst (asm) (2) fuse_first.simps) auto
qed

lemma fuse_first_Nil [simp]: "fuse_first levels h [] = Inr []"
  by (subst fuse_first.simps) simp

lemma fuse_fits:
  "body_count ss \<le> n \<Longrightarrow> wf_body h ss \<Longrightarrow> fuse_next levels h ss = Inr (Some ss') \<Longrightarrow> loses_loop h ss ss'"
  "body_count ss \<le> n \<Longrightarrow> wf_body h ss \<Longrightarrow> fuse_first levels h ss = Inr ss' \<Longrightarrow> fits_body h h ss ss'"
proof (induction n arbitrary: levels ss ss' rule: less_induct)
  case (less n)
  have nx: "loses_loop h ss ss'"
    if c: "body_count ss \<le> n" and wf: "wf_body h ss" and f: "fuse_next levels h ss = Inr (Some ss')" for levels ss ss'
  proof -
    from f obtain L b1 L2 b2 rest body where e: "ss = Loop L b1 # Loop L2 b2 # rest" "ss' = Loop L body # rest"
      and b: "fuse_first (levels - 1) h (fused_body L b1 L2 b2) = Inr body" by (rule fuse_next_elim)
    have w: "wf_body h [Loop L b1, Loop L2 b2]" "wf_body h rest"
      using wf wf_body_append [of h "[Loop L b1, Loop L2 b2]" rest] e(1) by simp_all
    have k: "body_count (fused_body L b1 L2 b2) < n" using c by (simp add: e(1))
    note F = fits_fused [OF w(1)]
    have fb: "fits_body h h (fused_body L b1 L2 b2) body" by (rule less.IH(2) [OF k order_refl F(1) b])
    have "fits_body h h [Loop L (fused_body L b1 L2 b2)] [Loop L body]"
      by (rule fits_body_Loop [OF fb]) (use F(2) in \<open>simp_all add: fits_body_def\<close>)
    then have "fits_body h h [Loop L b1, Loop L2 b2] [Loop L body]" using F(2) fits_body_trans by blast
    from fits_same_append [OF this fits_body_refl [OF order_refl w(2)]] wf
    have "fits_body h h ss ss'" by (simp add: e)
    moreover have "L2 \<notin> set (body_loops ss')"
      using wf fits_body_loops [OF fb] by (auto simp: e wf_body_def fused_body_def simp del: map_map)
    ultimately show ?thesis using e(1) unfolding loses_loop_def by auto
  qed
  {
    case 1
    then show ?case by (rule nx)
  next
    case 2
    then show ?case
    proof (induction ss arbitrary: ss')
      case Nil
      then show ?case by (simp add: fits_body_refl)
    next
      case (Cons s ss)
      have wf: "wf_body h [s]" "wf_body h ss" using Cons.prems(2) wf_body_Cons [of h s ss] by simp_all
      from Cons.prems(3) show ?case
      proof (cases rule: fuse_first_Cons)
        case 1
        then show ?thesis using nx [OF Cons.prems(1,2)] by (simp add: loses_loop_def)
      next
        case (2 ss1)
        then have "fits_body h h ss ss1" using Cons.IH Cons.prems(1) wf(2) by simp
        with 2(3) show ?thesis using fits_same_Cons [OF fits_body_refl [OF order_refl wf(1)] _ Cons.prems(2)] by simp
      qed
    qed
  }
qed

section \<open>Fusing in a program\<close>

lemma loses_loop_Cons:
  assumes "wf_body h (s # ss)"
  shows "loses_loop h [s] [s'] \<Longrightarrow> loses_loop h (s # ss) (s' # ss)" "loses_loop h ss ss' \<Longrightarrow> loses_loop h (s # ss) (s # ss')"
proof -
  have wf: "wf_body h [s]" "wf_body h ss" "loops_in s \<inter> set (body_loops ss) = {}"
    using assms wf_body_Cons [of h s ss] by simp_all
  note r = fits_body_refl [OF order_refl]
  have c: "set (body_loops (x # xs)) = loops_in x \<union> set (body_loops xs)" for x xs by simp
  show "loses_loop h (s # ss) (s' # ss)" if "loses_loop h [s] [s']"
    using that wf fits_same_Cons [OF _ r [OF wf(2)] assms] c [of s ss] c [of s' ss] c [of s "[]"] c [of s' "[]"]
    unfolding loses_loop_def by auto
  show "loses_loop h (s # ss) (s # ss')" if "loses_loop h ss ss'"
    using that wf(3) fits_same_Cons [OF r [OF wf(1)] _ assms] c [of s ss] c [of s ss'] unfolding loses_loop_def by blast
qed

definition edit_loses :: "heap \<Rightarrow> (stmt list \<Rightarrow> stmt list option res) \<Rightarrow> bool" where
  "edit_loses h f \<longleftrightarrow> (\<forall>ss ss'. f ss = Inr (Some ss') \<longrightarrow> wf_body h ss \<longrightarrow> loses_loop h ss ss')"

lemma at_loop_loses:
  "at_loop f L ss = Some (Inr (Some ss')) \<Longrightarrow> edit_loses h f \<Longrightarrow> wf_body h ss \<Longrightarrow> loses_loop h ss ss'"
  "at_loop_in f L s = Some (Inr (Some s')) \<Longrightarrow> edit_loses h f \<Longrightarrow> wf_body h [s] \<Longrightarrow> loses_loop h [s] [s']"
proof (induction f L ss and f L s arbitrary: ss' and s' rule: at_loop_at_loop_in.induct)
  case (2 f L s ss)
  have wf: "wf_body h [s]" "wf_body h ss" using "2.prems"(3) wf_body_Cons [of h s ss] by simp_all
  consider (here) "f (s # ss) = Inr (Some ss')"
    | (inside) s1 where "loop_id s \<noteq> Some L" "at_loop_in f L s = Some (Inr (Some s1))" "ss' = s1 # ss"
    | (later) ss1 where "loop_id s \<noteq> Some L" "at_loop_in f L s = None" "at_loop f L ss = Some (Inr (Some ss1))" "ss' = s # ss1"
    using "2.prems"(1) by (auto split: if_splits option.splits)
  then show ?case
  proof cases
    case here
    then show ?thesis using "2.prems"(2,3) unfolding edit_loses_def by blast
  next
    case inside
    then show ?thesis using "2.IH"(1) "2.prems"(2) wf loses_loop_Cons(1) [OF "2.prems"(3)] by blast
  next
    case later
    then show ?thesis using "2.IH"(2) "2.prems"(2) wf loses_loop_Cons(2) [OF "2.prems"(3)] by blast
  qed
next
  case (3 f L L' body)
  obtain b where b: "at_loop f L body = Some (Inr (Some b))" "s' = Loop L' b" using "3.prems"(1) by auto
  have wf: "wf_body h body" "L' \<notin> set (body_loops body)" using "3.prems"(3) unfolding wf_body_Loop by simp_all
  have "loses_loop h body b" using "3.IH" b(1) "3.prems"(2) wf(1) by blast
  then show ?case unfolding b(2) using fits_body_Loop [OF _ "3.prems"(3) order_refl] wf(2) by (auto simp: loses_loop_def)
next
  case (4 f L val lo hi body)
  obtain b where b: "at_loop f L body = Some (Inr (Some b))" "s' = IfRange val lo hi b" using "4.prems"(1) by auto
  have wf: "wf_body h body" using "4.prems"(3) unfolding wf_body_IfRange by simp
  have "loses_loop h body b" using "4.IH" b(1) "4.prems"(2) wf by blast
  then show ?case unfolding b(2) using fits_body_IfRange [OF _ "4.prems"(3) order_refl] by (auto simp: loses_loop_def)
qed simp_all

lemma fuse_loses:
  assumes "fuse h p L levels = Inr (Some p')" "wf_body h (pr_body p)"
  shows "loses_loop h (pr_body p) (pr_body p')"
proof -
  obtain body where "at_loop (fuse_next levels h) L (pr_body p) = Some (Inr (Some body))" "p' = p\<lparr>pr_body := body\<rparr>"
    using assms(1) by (auto simp: fuse_def split: option.splits)
  moreover have "edit_loses h (fuse_next levels h)" using fuse_fits(1) [OF order_refl] unfolding edit_loses_def by blast
  ultimately show ?thesis using at_loop_loses(1) assms(2) by fastforce
qed

lemma sweep_restart:
  "fuse_sweep h p Ls = Inr (Restart p') \<Longrightarrow> \<exists>L \<in> set Ls. fuse h p L 8 = Inr (Some p')"
  by (induction Ls) (auto split: option.splits stmt.splits if_splits)

lemma sweep_end:
  "fuse_sweep h p Ls = Inr EndOfLoop \<Longrightarrow> L \<in> set Ls \<Longrightarrow> \<exists>s L2 b2. next_of L (pr_body p) = Some (s, Some (Loop L2 b2))"
  by (induction Ls) (auto split: option.splits stmt.splits if_splits)

lemma simplify_fits:
  assumes "simplify H h p = Some (Inr (p', ch))" "wf_body h (pr_body p)"
  shows "fits_body h h (pr_body p) (pr_body p')"
  using simplify_induct [OF assms, where Q = "\<lambda>q. fits_body h h (pr_body p) (pr_body q)"] simplify_once_fits(1)
    fits_body_refl [OF order_refl assms(2)] fits_body_trans by blast

text \<open>What a sweep that restarts has done, after \<open>simplify\<close>.\<close>

lemma restart_fits:
  assumes "fuse_sweep h p Ls = Inr (Restart q)" "wf_body h (pr_body p)" "simplify H h q = Some (Inr (p', ch))"
  shows "fits_body h h (pr_body p) (pr_body p')" "wf_body h (pr_body p')"
    "length (body_loops (pr_body p')) < length (body_loops (pr_body p))"
proof -
  obtain L where "fuse h p L 8 = Inr (Some q)" using sweep_restart [OF assms(1)] by blast
  then have l: "loses_loop h (pr_body p) (pr_body q)" by (rule fuse_loses [OF _ assms(2)])
  then have wq: "wf_body h (pr_body q)" by (simp add: loses_loop_def fits_body_def)
  note s = simplify_fits [OF assms(3) wq]
  show "fits_body h h (pr_body p) (pr_body p')" using l s fits_body_trans unfolding loses_loop_def by blast
  then show "wf_body h (pr_body p')" by (simp add: fits_body_def)
  show "length (body_loops (pr_body p')) < length (body_loops (pr_body p))"
    using loses_loop_length [OF l assms(2)] fits_body_length [OF s wq] by simp
qed

section \<open>The last loop\<close>

lemma next_of_later:
  "next_of L ss = Some (s, Some (Loop L2 b2)) \<Longrightarrow> \<exists>xs ys. body_loops ss = xs @ L # ys \<and> L2 \<in> set ys"
  "next_in L t = Some (s, Some (Loop L2 b2)) \<Longrightarrow> \<exists>xs ys. loop_list t = xs @ L # ys \<and> L2 \<in> set ys"
proof (induction L ss and L t rule: next_of_next_in.induct)
  case (2 L t ts)
  consider (here) b ts' where "t = Loop L b" "ts = Loop L2 b2 # ts'"
    | (inside) "loop_id t \<noteq> Some L" "next_in L t = Some (s, Some (Loop L2 b2))"
    | (later) "loop_id t \<noteq> Some L" "next_in L t = None" "next_of L ts = Some (s, Some (Loop L2 b2))"
    using "2.prems" by (cases t; cases ts) (auto split: if_splits option.splits)
  then show ?case
  proof cases
    case here
    then have "body_loops (t # ts) = [] @ L # (body_loops b @ L2 # body_loops b2 @ body_loops ts')" by simp
    then show ?thesis by (metis Un_iff list.set_intros(1) set_append)
  next
    case inside
    then obtain xs ys where "loop_list t = xs @ L # ys" "L2 \<in> set ys" using "2.IH"(1) by blast
    then have "body_loops (t # ts) = xs @ L # (ys @ body_loops ts)" "L2 \<in> set (ys @ body_loops ts)" by simp_all
    then show ?thesis by blast
  next
    case later
    then obtain xs ys where "body_loops ts = xs @ L # ys" "L2 \<in> set ys" using "2.IH"(2) by blast
    then have "body_loops (t # ts) = (loop_list t @ xs) @ L # ys" by simp
    with \<open>L2 \<in> set ys\<close> show ?thesis by blast
  qed
next
  case (3 L L' body)
  then obtain xs ys where "body_loops body = xs @ L # ys" "L2 \<in> set ys" by auto
  then have "loop_list (Loop L' body) = (L' # xs) @ L # ys" by simp
  with \<open>L2 \<in> set ys\<close> show ?case by blast
qed simp_all

lemma sweep_end_no_loops:
  assumes "fuse_sweep h p (body_loops (pr_body p)) = Inr EndOfLoop" "distinct (body_loops (pr_body p))"
  shows "body_loops (pr_body p) = []"
proof (rule ccontr)
  let ?Ls = "body_loops (pr_body p)"
  assume n: "?Ls \<noteq> []"
  then obtain s L2 b2 where "next_of (last ?Ls) (pr_body p) = Some (s, Some (Loop L2 b2))"
    using sweep_end [OF assms(1) last_in_set] by blast
  then obtain xs ys where "?Ls = xs @ last ?Ls # ys" "L2 \<in> set ys" using next_of_later(1) by blast
  then show False using assms(2) by (metis distinct.simps(2) distinct_append last.simps last_appendR last_in_set list.distinct(1) list.set_cases)
qed

text \<open>C31. The restarts end: on every well-formed program \<open>tryToFuseAllShallowLoops\<close> returns.\<close>

theorem fuse_restarts_end:
  "wf_body h (pr_body p) \<Longrightarrow> \<exists>r. tryToFuseAllShallowLoops H h changed p = Some r"
proof (induction "length (body_loops (pr_body p))" arbitrary: p changed rule: less_induct)
  case less
  show ?case
  proof (cases "\<exists>q. fuse_sweep h p (body_loops (pr_body p)) = Inr (Restart q)")
    case True
    then obtain q where q: "fuse_sweep h p (body_loops (pr_body p)) = Inr (Restart q)" by blast
    obtain L where "fuse h p L 8 = Inr (Some q)" using sweep_restart [OF q] by blast
    then have "wf_body h (pr_body q)" using fuse_loses less.prems unfolding loses_loop_def fits_body_def by blast
    then obtain r where r: "simplify H h q = Some r" using simplify_returns by blast
    show ?thesis
    proof (cases r)
      case (Inl e)
      then show ?thesis using q r by (subst tryToFuseAllShallowLoops.simps) simp
    next
      case (Inr x)
      then obtain p' ch where x: "simplify H h q = Some (Inr (p', ch))" using r by (cases x) simp
      from less.hyps [OF restart_fits(3) [OF q less.prems x] restart_fits(2) [OF q less.prems x]]
      show ?thesis using q x by (subst tryToFuseAllShallowLoops.simps) simp
    qed
  next
    case False
    then show ?thesis by (subst tryToFuseAllShallowLoops.simps) (simp split: sum.split sweep.split)
  qed
qed

text \<open>C37. The function does not report what it has done: from a well-formed program it returns
  \<open>True\<close> only with a program that has no loop left, so \<open>fuse_doIt\<close> never tries a fused program
  that has one.\<close>

theorem fused_programs_not_tried:
  "tryToFuseAllShallowLoops H h changed p = Some (Inr (True, p')) \<Longrightarrow> wf_body h (pr_body p) \<Longrightarrow> body_loops (pr_body p') = []"
proof (induction "length (body_loops (pr_body p))" arbitrary: p changed rule: less_induct)
  case less
  note u = less.prems(1) [unfolded tryToFuseAllShallowLoops.simps [of H h changed p]]
  from u consider (fin) "p' = p" "fuse_sweep h p (body_loops (pr_body p)) = Inr EndOfLoop"
    | (again) q p1 ch where "fuse_sweep h p (body_loops (pr_body p)) = Inr (Restart q)" "simplify H h q = Some (Inr (p1, ch))"
        "tryToFuseAllShallowLoops H h True p1 = Some (Inr (True, p'))"
    by (auto split: sum.split_asm sweep.split_asm elim!: bind_eq_Some_conv [THEN iffD1, elim_format])
  then show ?case
  proof cases
    case fin
    then show ?thesis using sweep_end_no_loops less.prems(2) by (simp add: wf_body_def del: concat_eq_Nil_conv)
  next
    case again
    note r = restart_fits [OF again(1) less.prems(2) again(2)]
    from less.hyps [OF r(3) again(3) r(2)] show ?thesis .
  qed
qed


text \<open>Two empty loops are fused to one, which \<open>simplify\<close> removes; two loops that store are fused to one
  loop, and the function says it did nothing.\<close>

definition two_stores :: "heap \<times> program" where
  "two_stores = two_loops [set_to_one 1 0] [set_to_one 1 2]"

lemma sweeps_of_two_loops:
  "fuse_sweep (fst (two_loops [] [])) (snd (two_loops [] [])) [0, 2] =
     Inr (Restart ((snd (two_loops [] []))\<lparr>pr_body := [Loop 0 []]\<rparr>))"
  "fuse_sweep (fst two_stores) (snd two_stores) [0, 2] =
     Inr (Restart ((snd (two_loops [] []))\<lparr>pr_body := [Loop 0 [set_to_one 1 0, set_to_one 1 0]]\<rparr>))"
  "fuse_sweep (fst two_stores) ((snd (two_loops [] []))\<lparr>pr_body := [Loop 0 [set_to_one 1 0, set_to_one 1 0]]\<rparr>) [0] =
     Inr ReturnFalse"
  by code_simp+

lemma simplify_two_loops:
  "simplify_once H (fst (two_loops [] [])) ((snd (two_loops [] []))\<lparr>pr_body := [Loop 0 []]\<rparr>) =
     Inr ((snd (two_loops [] []))\<lparr>pr_body := []\<rparr>, True)"
  "simplify_once H (fst (two_loops [] [])) ((snd (two_loops [] []))\<lparr>pr_body := []\<rparr>) =
     Inr ((snd (two_loops [] []))\<lparr>pr_body := []\<rparr>, False)"
  "simplify_once H (fst two_stores) ((snd (two_loops [] []))\<lparr>pr_body := [Loop 0 [set_to_one 1 0, set_to_one 1 0]]\<rparr>) =
     Inr ((snd (two_loops [] []))\<lparr>pr_body := [Loop 0 [set_to_one 1 0, set_to_one 1 0]]\<rparr>, False)"
  by code_simp+

lemma sweep_unfold:
  "fuse_sweep h p (body_loops (pr_body p)) = Inr (Restart q) \<Longrightarrow> simplify H h q = Some (Inr (p', c)) \<Longrightarrow>
     tryToFuseAllShallowLoops H h ch p = tryToFuseAllShallowLoops H h True p'"
  "fuse_sweep h p (body_loops (pr_body p)) = Inr ReturnFalse \<Longrightarrow> tryToFuseAllShallowLoops H h ch p = Some (Inr (False, p))"
  "fuse_sweep h p (body_loops (pr_body p)) = Inr EndOfLoop \<Longrightarrow> tryToFuseAllShallowLoops H h ch p = Some (Inr (ch, p))"
  by (simp_all add: tryToFuseAllShallowLoops.simps [of H h ch p])

lemma fusing_two_loops:
  "tryToFuseAllShallowLoops H (fst (two_loops [] [])) changed (snd (two_loops [] [])) =
     Some (Inr (True, (snd (two_loops [] []))\<lparr>pr_body := []\<rparr>))"
  "tryToFuseAllShallowLoops H (fst two_stores) changed (snd two_stores) =
     Some (Inr (False, (snd (two_loops [] []))\<lparr>pr_body := [Loop 0 [set_to_one 1 0, set_to_one 1 0]]\<rparr>))"
proof -
  let ?p = "\<lambda>ss. (snd (two_loops [] []))\<lparr>pr_body := ss\<rparr>"
  have b: "body_loops (pr_body (snd (two_loops [] []))) = [0, 2]" "body_loops (pr_body (snd two_stores)) = [0, 2]"
    "body_loops (pr_body (?p [Loop 0 [set_to_one 1 0, set_to_one 1 0]])) = [0]"
    by (simp_all add: two_stores_def two_loops_def set_to_one_def)
  have "simplify H (fst (two_loops [] [])) (?p [Loop 0 []]) = Some (Inr (?p [], True))"
    by (subst simplify.simps, simp add: simplify_two_loops, subst simplify.simps, simp add: simplify_two_loops)
  from sweep_unfold(1) [OF _ this, of "snd (two_loops [] [])"]
  show "tryToFuseAllShallowLoops H (fst (two_loops [] [])) changed (snd (two_loops [] [])) = Some (Inr (True, ?p []))"
    by (simp only: b sweeps_of_two_loops) (simp add: sweep_unfold(3))
  have "simplify H (fst two_stores) (?p [Loop 0 [set_to_one 1 0, set_to_one 1 0]]) =
      Some (Inr (?p [Loop 0 [set_to_one 1 0, set_to_one 1 0]], False))"
    by (subst simplify.simps, simp only: simplify_two_loops) simp
  from sweep_unfold(1) [OF _ this, of "snd two_stores"]
  show "tryToFuseAllShallowLoops H (fst two_stores) changed (snd two_stores) = Some (Inr (False, ?p [Loop 0 [set_to_one 1 0, set_to_one 1 0]]))"
    by (simp only: b sweeps_of_two_loops) (rule sweep_unfold(2), simp only: b(3) sweeps_of_two_loops)
qed

lemma two_loops_wf: "wf_body (fst (two_loops [] [])) (pr_body (snd (two_loops [] [])))"
  by (simp add: two_loops_def wf_body_def free_of_def)

theorem fused_programs_not_tried_witness:
  "\<forall>H. \<exists>p'. tryToFuseAllShallowLoops H (fst (two_loops [] [])) False (snd (two_loops [] [])) = Some (Inr (True, p'))
     \<and> body_loops (pr_body p') = []"
  using fusing_two_loops(1) fused_programs_not_tried [OF fusing_two_loops(1) two_loops_wf] by blast

theorem fuse_restarts_end_witness:
  "\<forall>H. \<exists>r. tryToFuseAllShallowLoops H (fst (two_loops [] [])) False (snd (two_loops [] [])) = Some r"
  using fuse_restarts_end [OF two_loops_wf] by blast

end
