(* ===== verification/SearchFacts.thy ===== *)
theory SearchFacts
  imports Autotune FuseFacts
begin

text \<open>
  What the search of \<open>optimizeEvaluate\<close> finds. The interface between the passes is the one the class
  \<open>Pass\<close> gives them, a next pass to hand programs to: the locale \<open>next_pass\<close> says of it that it keeps
  an invariant of the state of the search, and every pass put before it then keeps it as well.
\<close>

section \<open>Rules for runs\<close>

text \<open>Every result of a run satisfies \<open>Q\<close>; the rules follow the structure of the passes.\<close>

definition yields :: "'a run \<Rightarrow> ('a \<Rightarrow> bool) \<Rightarrow> bool" where
  "yields m Q \<longleftrightarrow> (\<forall>x. m = Some (Inr x) \<longrightarrow> Q x)"

named_theorems yields_rules \<open>rules for the runs of passes\<close>

lemma yieldsD: "yields m Q \<Longrightarrow> m = Some (Inr x) \<Longrightarrow> Q x"
  by (simp add: yields_def)

lemma yields_mono: "yields m P \<Longrightarrow> (\<And>x. P x \<Longrightarrow> Q x) \<Longrightarrow> yields m Q"
  by (simp add: yields_def)

lemma yields_bind [yields_rules]: "yields m (\<lambda>x. yields (f x) Q) \<Longrightarrow> yields (bindR m f) Q"
  by (auto simp: yields_def bindR_def split: option.splits sum.splits)

lemma yields_ret [yields_rules]: "Q x \<Longrightarrow> yields (retR x) Q"
  by (simp add: yields_def retR_def)

lemma yields_pure [yields_rules]: "(\<And>x. m = Inr x \<Longrightarrow> Q x) \<Longrightarrow> yields (Some m) Q"
  by (simp add: yields_def)

lemma yields_checked [yields_rules]: "(verify_program (sr_heap st) p = Inr () \<Longrightarrow> Q ()) \<Longrightarrow> yields (checked p st) Q"
  by (simp add: yields_def checked_def)

lemma yields_if [yields_rules]: "(b \<Longrightarrow> yields x Q) \<Longrightarrow> (\<not> b \<Longrightarrow> yields y Q) \<Longrightarrow> yields (if b then x else y) Q"
  by simp

lemma yields_prod [yields_rules]: "(\<And>x y. z = (x, y) \<Longrightarrow> yields (f x y) Q) \<Longrightarrow> yields (case z of (x, y) \<Rightarrow> f x y) Q"
  by (cases z) simp

lemma yields_fold:
  assumes "Q s" "\<And>x s. x \<in> set xs \<Longrightarrow> Q s \<Longrightarrow> yields (f x s) Q"
  shows "yields (foldR f xs s) Q"
  using assms
proof (induction xs arbitrary: s)
  case (Cons x xs)
  have "yields (f x s) (\<lambda>s. yields (foldR f xs s) Q)"
    by (rule yields_mono [where P = Q]) (use Cons in auto)
  then show ?case by (simp add: yields_bind)
qed (simp add: yields_ret)

named_theorems run_simps \<open>equations of the runs of passes\<close>

lemma bindR_Inr [run_simps]: "bindR m f = Some (Inr y) \<longleftrightarrow> (\<exists>x. m = Some (Inr x) \<and> f x = Some (Inr y))"
  by (auto simp: bindR_def split: option.split sum.split)

lemma retR_Inr [run_simps]: "retR x = Some (Inr y) \<longleftrightarrow> x = y"
  by (simp add: retR_def)

lemma on_heap_Inr [run_simps]:
  "on_heap f st = Some (Inr (x, st')) \<longleftrightarrow> (\<exists>h. f (sr_heap st) = Inr (x, h) \<and> st' = st\<lparr>sr_heap := h\<rparr>)"
  by (auto simp: on_heap_def)

section \<open>Invariants of the search\<close>

text \<open>Passes other than the evaluator change the state of the search on the heap only.\<close>

locale search_invariant =
  fixes I :: "search \<Rightarrow> bool"
  assumes heap_stable: "I st \<Longrightarrow> I (st\<lparr>sr_heap := h\<rparr>)"
begin

lemma yields_heap: "I st \<Longrightarrow> (\<And>x st'. I st' \<Longrightarrow> Q (x, st')) \<Longrightarrow> yields (on_heap f st) Q"
  by (auto simp: yields_def on_heap_def heap_stable)

lemma yields_cloned: "I st \<Longrightarrow> (\<And>x st'. I st' \<Longrightarrow> Q (x, st')) \<Longrightarrow> yields (cloned_program p st) Q"
  unfolding cloned_program_def by (rule yields_heap)

lemma yields_distributed: "I st \<Longrightarrow> (\<And>x st'. I st' \<Longrightarrow> Q (x, st')) \<Longrightarrow> yields (distributed p st) Q"
  by (auto simp: distributed_def yields_def bindR_def retR_def heap_stable split: option.splits sum.splits)

lemma yields_any: "(\<And>x. Q x) \<Longrightarrow> yields m Q"
  by (simp add: yields_def)

lemmas step_rules = yields_rules yields_heap yields_cloned yields_distributed

end

locale next_pass = search_invariant I for I :: "search \<Rightarrow> bool" +
  fixes nextPass :: pass
  assumes next_keeps: "I st \<Longrightarrow> yields (nextPass p st) I"
begin

lemma yields_next: "I st \<Longrightarrow> (\<And>st'. I st' \<Longrightarrow> Q st') \<Longrightarrow> yields (nextPass p st) Q"
  using next_keeps yields_mono by blast

lemmas pass_rules = step_rules yields_next

lemma filter_keeps: "I st \<Longrightarrow> yields (filter_doIt B nextPass p st) I"
  by (auto simp: filter_doIt_def intro!: pass_rules)

lemma promoter_keeps: "I st \<Longrightarrow> yields (promoter_doIt H nextPass p st) I"
  by (auto simp: promoter_doIt_def intro!: pass_rules yields_any [of _ "simplified H p st" for p st])

lemma distribute_keeps: "I st \<Longrightarrow> yields (distribute_doIt H nextPass p st) I"
  by (auto simp: distribute_doIt_def intro!: pass_rules yields_any [of _ "simplified H p st" for p st])

lemma vectorizer_keeps: "I st \<Longrightarrow> yields (vectorizer_doIt B nextPass p st) I"
  by (auto simp: vectorizer_doIt_def intro!: pass_rules)

lemma interchanger_keeps: "I st \<Longrightarrow> yields (interchanger_doIt nextPass p st) I"
  by (auto simp: interchanger_doIt_def intro!: pass_rules)

lemma fuse_keeps: "I st \<Longrightarrow> yields (fuse_doIt H nextPass p st) I"
  by (auto simp: fuse_doIt_def intro!: pass_rules yields_any [of _ "tryToFuseAllShallowLoops H h c p" for h c p])

lemma tile_attempt_keeps: "I (snd s) \<Longrightarrow> yields (tile_attempt nextPass p nest k s) (\<lambda>s. I (snd s))"
  by (auto simp: tile_attempt_def intro!: pass_rules)

lemma tile_innermost_keeps: "I st \<Longrightarrow> yields (tile_innermost nextPass p L st) I"
  by (auto simp: tile_innermost_def
      intro!: pass_rules yields_mono [OF yields_fold [where Q = "\<lambda>s. I (snd s)"]] tile_attempt_keeps)

lemma tiler_keeps: "I st \<Longrightarrow> yields (tiler_doIt nextPass p st) I"
  by (auto simp: tiler_doIt_def intro!: pass_rules yields_fold tile_innermost_keeps)

lemma widen_attempt_keeps: "I (snd s) \<Longrightarrow> yields (widen_attempt B nextPass p nest k s) (\<lambda>s. I (snd s))"
  by (auto simp: widen_attempt_def intro!: pass_rules)

lemma widen_innermost_keeps: "I st \<Longrightarrow> yields (widen_innermost B nextPass p L st) I"
  by (auto simp: widen_innermost_def Let_def
      intro!: pass_rules yields_mono [OF yields_fold [where Q = "\<lambda>s. I (snd s)"]] widen_attempt_keeps)

lemma widner_keeps: "I st \<Longrightarrow> yields (widner_doIt B nextPass p st) I"
  by (auto simp: widner_doIt_def intro!: pass_rules yields_mono [OF yields_fold [where Q = I]] widen_innermost_keeps)

end


section \<open>The evaluator\<close>

text \<open>The best time is the least one measured, or the bound the search starts with; the best program is
  the clone of a program that passed the verifier and took that time. No two programs with the same hash
  are run.\<close>

definition best_found :: "backend \<Rightarrow> search \<Rightarrow> bool" where
  "best_found B st \<longleftrightarrow>
     (case sr_bestProgram st of
        None \<Rightarrow> \<forall>t \<in> set (sr_measured st). 1000 \<le> t
      | Some best \<Rightarrow>
          sr_bestTime st < 1000
          \<and> (\<exists>k < length (sr_measured st). \<exists>h p h' c.
               sr_measured st ! k = sr_bestTime st \<and> be_time B k h p = sr_bestTime st
               \<and> verify_program h p = Inr () \<and> clone_program h empty_ctx p = Inr (best, h', c)))"

definition search_ok :: "backend \<Rightarrow> search \<Rightarrow> bool" where
  "search_ok B st \<longleftrightarrow>
     sr_bestTime st = foldl min 1000 (sr_measured st) \<and> best_found B st
     \<and> distinct (sr_alreadyRan st) \<and> length (sr_alreadyRan st) = length (sr_measured st)"

lemma search_ok_heap [simp]: "search_ok B (st\<lparr>sr_heap := h\<rparr>) \<longleftrightarrow> search_ok B st"
  by (simp add: search_ok_def best_found_def cong: option.case_cong)

lemma search_ok_saved [simp]: "search_ok B (st\<lparr>sr_saved := x\<rparr>) \<longleftrightarrow> search_ok B st"
  by (simp add: search_ok_def best_found_def cong: option.case_cong)

lemma search_ok_new: "search_ok B (new_search h)"
  by (simp add: search_ok_def best_found_def new_search_def)

lemma foldl_min_le: "foldl min a xs \<le> (a :: rat)"
  by (induction xs arbitrary: a) (simp, metis foldl_Cons min.bounded_iff)

lemma foldl_min_bound: "\<forall>x \<in> set xs. (a :: rat) \<le> x \<Longrightarrow> foldl min a xs = a"
  by (induction xs) (auto simp: min_def)

text \<open>A run that is not the fastest so far, and one that is.\<close>

lemma best_found_worse:
  assumes "best_found B st" "sr_bestTime st \<le> t" "sr_bestTime st = foldl min 1000 (sr_measured st)"
  shows "best_found B (st\<lparr>sr_alreadyRan := x, sr_measured := sr_measured st @ [t]\<rparr>)"
proof (cases "sr_bestProgram st")
  case None
  then have "\<forall>u \<in> set (sr_measured st). 1000 \<le> u" using assms(1) by (simp add: best_found_def)
  then have "sr_bestTime st = 1000" unfolding assms(3) by (rule foldl_min_bound)
  then show ?thesis using None assms(1,2) by (auto simp: best_found_def)
next
  case (Some best)
  then obtain k h p h' c where "sr_bestTime st < 1000" "k < length (sr_measured st)" "sr_measured st ! k = sr_bestTime st"
    "be_time B k h p = sr_bestTime st" "verify_program h p = Inr ()" "clone_program h empty_ctx p = Inr (best, h', c)"
    using assms(1) by (auto simp: best_found_def)
  then show ?thesis using Some
    unfolding best_found_def by (simp add: nth_append) (metis less_Suc_eq)
qed

lemma search_ok_worse:
  assumes "search_ok B st" "sr_bestTime st \<le> t" "x \<notin> set (sr_alreadyRan st)"
  shows "search_ok B (st\<lparr>sr_alreadyRan := x # sr_alreadyRan st, sr_measured := sr_measured st @ [t]\<rparr>)"
proof -
  have m: "sr_bestTime st = foldl min 1000 (sr_measured st)" using assms(1) by (simp add: search_ok_def)
  then show ?thesis using assms best_found_worse [OF _ assms(2) m] by (simp add: search_ok_def min_def)
qed

lemma search_ok_better:
  assumes "search_ok B st" "t < sr_bestTime st" "x \<notin> set (sr_alreadyRan st)"
    and "t = be_time B (length (sr_measured st)) h p" "verify_program h p = Inr ()"
    and "clone_program h empty_ctx p = Inr (best, h', c)"
  shows "search_ok B (st\<lparr>sr_alreadyRan := x # sr_alreadyRan st, sr_measured := sr_measured st @ [t],
    sr_heap := h', sr_bestTime := t, sr_bestProgram := Some best\<rparr>)"
proof -
  have m: "sr_bestTime st = foldl min 1000 (sr_measured st)" using assms(1) by (simp add: search_ok_def)
  then have "t < 1000" "min (foldl min 1000 (sr_measured st)) t = t"
    using assms(2) foldl_min_le [of 1000 "sr_measured st"] by simp_all
  then show ?thesis using assms
    by (auto simp: search_ok_def best_found_def nth_append intro!: exI [of _ "length (sr_measured st)"])
qed

lemma save_best_ok: "save_best sv p st = Inr st' \<Longrightarrow> search_ok B st \<Longrightarrow> search_ok B st'"
  by (auto simp: save_best_def split: if_splits)

lemma evaluator_keeps: "search_ok B st \<Longrightarrow> yields (evaluator_doIt B sv p st) (search_ok B)"
proof -
  assume ok: "search_ok B st"
  have "search_ok B st'" if r: "evaluator_doIt B sv p st = Some (Inr st')" for st'
  proof -
    let ?t = "be_time B (length (sr_measured st)) (sr_heap st) p"
    let ?s = "\<lambda>x. st\<lparr>sr_alreadyRan := x # sr_alreadyRan st, sr_measured := sr_measured st @ [?t]\<rparr>"
    from r consider (old) "st' = st"
      | (worse) x where "x \<notin> set (sr_alreadyRan st)" "sr_bestTime st \<le> ?t" "st' = ?s x"
      | (better) x best h' c where "x \<notin> set (sr_alreadyRan st)" "?t < sr_bestTime st" "verify_program (sr_heap st) p = Inr ()"
          "clone_program (sr_heap st) empty_ctx p = Inr (best, h', c)"
          "save_best sv p ((?s x)\<lparr>sr_heap := h', sr_bestTime := ?t, sr_bestProgram := Some best\<rparr>) = Inr st'"
      by (auto simp: evaluator_doIt_def run_simps Let_def measure_run_def cloned_program_def checked_def split: if_splits)
    then show ?thesis
    proof cases
      case worse
      then show ?thesis using search_ok_worse [OF ok] by simp
    next
      case better
      then show ?thesis using save_best_ok search_ok_better [OF ok better(2,1) refl better(3,4)] by simp
    qed (use ok in simp)
  qed
  then show ?thesis by (simp add: yields_def)
qed

section \<open>The chain of passes\<close>

interpretation evaluator: next_pass "search_ok B" "evaluator_doIt B sv" for B sv
  by unfold_locales (simp_all add: evaluator_keeps)

text \<open>A pass in front of a next pass is a next pass for the one before it.\<close>

context next_pass
begin

lemma filter_next: "next_pass I (filter_doIt B nextPass)"
  by unfold_locales (rule filter_keeps)

lemma promoter_next: "next_pass I (promoter_doIt H nextPass)"
  by unfold_locales (rule promoter_keeps)

lemma distribute_next: "next_pass I (distribute_doIt H nextPass)"
  by unfold_locales (rule distribute_keeps)

lemma vectorizer_next: "next_pass I (vectorizer_doIt B nextPass)"
  by unfold_locales (rule vectorizer_keeps)

lemma interchanger_next: "next_pass I (interchanger_doIt nextPass)"
  by unfold_locales (rule interchanger_keeps)

lemma fuse_next: "next_pass I (fuse_doIt H nextPass)"
  by unfold_locales (rule fuse_keeps)

lemma tiler_next: "next_pass I (tiler_doIt nextPass)"
  by unfold_locales (rule tiler_keeps)

lemma widner_next: "next_pass I (widner_doIt B nextPass)"
  by unfold_locales (rule widner_keeps)

end

interpretation chain: next_pass "search_ok B" "pass_chain H B sv" for H B sv
  unfolding pass_chain_def Let_def
  by (intro next_pass.distribute_next next_pass.interchanger_next next_pass.tiler_next next_pass.fuse_next
      next_pass.vectorizer_next next_pass.widner_next next_pass.promoter_next next_pass.filter_next)
    (rule evaluator.next_pass_axioms)

text \<open>C17. What \<open>optimizeEvaluate\<close> returns is the best of what it measured: the best time is the least
  of the measured times below 1000, no two measured programs have the same hash, and the returned
  program, if there is one, is a clone of a verified program whose run took the best time; there is none
  only when every run took 1000 seconds or more.\<close>

theorem search_returns_best:
  "optimizeEvaluate H B sv h p = Some (Inr (best, st)) \<Longrightarrow>
     best = sr_bestProgram st \<and> sr_bestTime st = foldl min 1000 (sr_measured st)
     \<and> distinct (sr_alreadyRan st) \<and> length (sr_alreadyRan st) = length (sr_measured st)
     \<and> (best = None \<longleftrightarrow> (\<forall>t \<in> set (sr_measured st). 1000 \<le> t))
     \<and> (\<forall>b. best = Some b \<longrightarrow>
          (\<exists>k < length (sr_measured st). \<exists>h' q h'' c.
             be_time B k h' q = sr_bestTime st \<and> verify_program h' q = Inr ()
             \<and> clone_program h' empty_ctx q = Inr (b, h'', c)))"
proof -
  assume "optimizeEvaluate H B sv h p = Some (Inr (best, st))"
  then have c: "pass_chain H B sv p (new_search h) = Some (Inr st)" and b: "best = sr_bestProgram st"
    by (auto simp: optimizeEvaluate_def run_simps)
  have ok: "search_ok B st"
    using c by (rule yieldsD [OF chain.next_keeps [OF search_ok_new]])
  have m: "\<not> (\<forall>t \<in> set (sr_measured st). 1000 \<le> t)" if "foldl min 1000 (sr_measured st) < 1000"
    using that foldl_min_bound by fastforce
  show ?thesis
  proof (cases "sr_bestProgram st")
    case None
    then show ?thesis using ok b by (simp add: search_ok_def best_found_def)
  next
    case (Some x)
    have f: "best_found B st" using ok by (simp add: search_ok_def)
    then have "sr_bestTime st < 1000" using Some by (simp add: best_found_def)
    then have "\<not> (\<forall>t \<in> set (sr_measured st). 1000 \<le> t)" using ok m by (simp add: search_ok_def)
    moreover have "\<exists>k < length (sr_measured st). \<exists>h' q h'' c. be_time B k h' q = sr_bestTime st
        \<and> verify_program h' q = Inr () \<and> clone_program h' empty_ctx q = Inr (x, h'', c)"
      using f unfolding best_found_def Some option.case by blast
    moreover have "best = Some x" using b Some by simp
    ultimately show ?thesis using ok Some unfolding search_ok_def by simp
  qed
qed


section \<open>A search\<close>

definition one_store :: "heap \<Rightarrow> program \<Rightarrow> bool" where
  "one_store h p \<longleftrightarrow>
     (\<exists>a < hp_next h. hp_arg h a = \<lparr>arg_name = ''A'', arg_type = \<lparr>ty_sizes = [4], ty_names = [''x''], ty_elem = Float32Ty\<rparr>\<rparr>
        \<and> p = \<lparr>pr_name = ''f'', pr_args = [a], pr_vars = [],
               pr_body = [StoreStmt (GEPExpr a [ConstantExpr 0]) (ConstantFPExpr f32_one) False]\<rparr>)"

lemma one_store_loops:
  assumes "one_store h p"
  shows "body_loops (pr_body p) = []" "collectInnermostLoops (pr_body p) = []" "collectLoops (visit_body (pr_body p)) = []"
  using assms by (auto simp: one_store_def collectInnermostLoops_def collectLoops_def stmts_entered_def)

lemma one_store_names: "isLegalName ''A''" "isLegalName ''f''" "ety_isIndexTy (scalarTy IndexTy)" "u64_of_f32 f32_one = Inr 1"
  by code_simp+

lemma one_store_verify: "one_store h p \<Longrightarrow> verify_program h p = Inr ()"
  by (auto simp: one_store_def verify_program_def one_store_names getNumDims_def)
lemma one_store_hash: "one_store h p \<Longrightarrow> \<exists>x. hash_program h p = Inr x"
  by (auto simp: one_store_def hash_program_def hash_scope_def one_store_names)
lemma one_store_cost: "one_store h p \<Longrightarrow> \<exists>x. cost_program h p = Inr x"
  by (auto simp: one_store_def cost_program_def)

lemma one_store_clone:
  assumes "one_store h p"
  shows "\<exists>p' h' c. clone_program h empty_ctx p = Inr (p', h', c) \<and> one_store h' p' \<and> one_store h' p"
proof -
  obtain a where a: "a < hp_next h" "hp_arg h a = \<lparr>arg_name = ''A'', arg_type = \<lparr>ty_sizes = [4], ty_names = [''x''], ty_elem = Float32Ty\<rparr>\<rparr>"
    and p: "p = \<lparr>pr_name = ''f'', pr_args = [a], pr_vars = [],
               pr_body = [StoreStmt (GEPExpr a [ConstantExpr 0]) (ConstantFPExpr f32_one) False]\<rparr>"
    using assms by (auto simp: one_store_def)
  show ?thesis using a one_store_verify [OF assms]
    by (simp add: p clone_program_def new_arg_def map_arg_def empty_ctx_def new_GEPExpr_def new_StoreStmt_def get_arg_def
        one_store_names getNumDims_def one_store_def bind_require)
qed

lemma one_store_simplify: "one_store h p \<Longrightarrow> simplify_once H h p = Inr (p, False)"
  by (auto simp: one_store_def simplify_once_def simp_stmts_def process_all_def join_changes_def removeEmptyLoops_def
      removeTrip1Loops_def simplifyIfs_def cong: conj_cong)
lemma one_store_distribute: "one_store h p \<Longrightarrow> distributeAllLoops False h p = Some (Inr (False, p, h))"
  by (subst distributeAllLoops.simps) (simp add: one_store_verify one_store_loops del: concat_eq_Nil_conv)

lemma one_store_passes:
  assumes "one_store h p"
  shows "sinkLoopsForConsecutiveIndexAccess h p = Inr (False, p)" "tryToFuseAllShallowLoops H h False p = Some (Inr (False, p))"
    "tryToVectorizeAllLoops p VF h = Inr ((False, p), h)" "promoteLICM h p = Inr (False, p, h)"
  using one_store_loops [OF assms]
  by (simp_all add: sinkLoopsForConsecutiveIndexAccess_def sweep_unfold(3) tryToVectorizeAllLoops_def promoteLICM_def del: concat_eq_Nil_conv)


text \<open>On this program each pass hands its clone, or the program itself, to the next one.\<close>

lemma one_store_cloned:
  assumes "one_store (sr_heap st) p"
  obtains p' h' c where "cloned_program p st = Some (Inr ((p', c), st\<lparr>sr_heap := h'\<rparr>))" "one_store h' p'" "one_store h' p"
  using one_store_clone [OF assms] that by (auto simp: cloned_program_def on_heap_def)

lemma bindR_ret [simp]: "bindR (Some (Inr x)) f = f x"
  by (simp add: bindR_def)

lemma one_store_checked: "one_store (sr_heap st) p \<Longrightarrow> checked p st = Some (Inr ())"
  by (simp add: checked_def one_store_verify)

text \<open>A pass that ends with one run of the evaluator, which takes three seconds.\<close>

definition before_run :: "search \<Rightarrow> program \<Rightarrow> bool" where
  "before_run st p \<longleftrightarrow> one_store (sr_heap st) p \<and> sr_alreadyRan st = [] \<and> sr_bestTime st = 1000 \<and> sr_measured st = []"

definition runs_once :: "pass \<Rightarrow> bool" where
  "runs_once ps \<longleftrightarrow>
     (\<forall>p st. before_run st p \<longrightarrow>
        (\<exists>st'. ps p st = Some (Inr st') \<and> sr_measured st' = [3] \<and> sr_bestProgram st' \<noteq> None))"

definition three_seconds :: backend where
  "three_seconds = \<lparr>be_regs = 16, be_width = 8, be_time = (\<lambda>k h p. 3)\<rparr>"

definition no_saving :: save_options where
  "no_saving = \<lparr>sv_path = [], sv_text = False, sv_bytecode = False\<rparr>"

lemma before_cloned:
  assumes "before_run st p"
  obtains p' h' c where "cloned_program p st = Some (Inr ((p', c), st\<lparr>sr_heap := h'\<rparr>))"
    "before_run (st\<lparr>sr_heap := h'\<rparr>) p'" "before_run (st\<lparr>sr_heap := h'\<rparr>) p" "one_store h' p'" "one_store h' p"
proof -
  have "one_store (sr_heap st) p" using assms by (simp add: before_run_def)
  then obtain p' h' c where "cloned_program p st = Some (Inr ((p', c), st\<lparr>sr_heap := h'\<rparr>))" "one_store h' p'" "one_store h' p"
    by (rule one_store_cloned)
  then show ?thesis using assms that by (simp add: before_run_def)
qed

lemma before_store: "before_run st p \<Longrightarrow> one_store (sr_heap st) p"
  by (simp add: before_run_def)

lemmas before_quiet = one_store_loops [OF before_store] one_store_checked [OF before_store] retR_def

lemmas quiet_steps = one_store_loops one_store_checked one_store_passes retR_def

text \<open>The passes of the chain, from the evaluator on.\<close>

lemma once_evaluator: "\<not> sv_bytecode sv \<Longrightarrow> runs_once (evaluator_doIt three_seconds sv)"
  unfolding runs_once_def
proof (intro allI impI)
  fix p and st :: search
  assume t: "\<not> sv_bytecode sv" and b: "before_run st p"
  note o = before_store [OF b]
  obtain x y where h: "hash_program (sr_heap st) p = Inr x" "cost_program (sr_heap st) p = Inr y"
    using one_store_hash [OF o] one_store_cost [OF o] by blast
  let ?st = "st\<lparr>sr_alreadyRan := [x], sr_measured := [3]\<rparr>"
  have o': "one_store (sr_heap ?st) p" using o by simp
  obtain p' h' c where "cloned_program p ?st = Some (Inr ((p', c), ?st\<lparr>sr_heap := h'\<rparr>))"
    using one_store_cloned [OF o'] by blast
  then show "\<exists>st'. evaluator_doIt three_seconds sv p st = Some (Inr st') \<and> sr_measured st' = [3] \<and> sr_bestProgram st' \<noteq> None"
    using b h o t by (simp add: evaluator_doIt_def before_run_def checked_def one_store_verify measure_run_def three_seconds_def
        save_best_def)
qed

lemma once_filter: "runs_once ps \<Longrightarrow> runs_once (filter_doIt B ps)"
  by (auto simp: runs_once_def filter_doIt_def before_quiet)

lemma once_tiler: "runs_once ps \<Longrightarrow> runs_once (tiler_doIt ps)"
  unfolding runs_once_def tiler_doIt_def by (fastforce simp: before_quiet)

lemma once_widner: "runs_once ps \<Longrightarrow> runs_once (widner_doIt B ps)"
  by (auto simp: runs_once_def widner_doIt_def before_quiet)

lemma once_cloned:
  assumes "runs_once ps"
    and "\<And>p st p' h' c. one_store (sr_heap st) p \<Longrightarrow> cloned_program p st = Some (Inr ((p', c), st\<lparr>sr_heap := h'\<rparr>)) \<Longrightarrow>
      one_store h' p' \<Longrightarrow> one_store h' p \<Longrightarrow> \<exists>q \<in> {p, p'}. ps' p st = ps q (st\<lparr>sr_heap := h'\<rparr>)"
  shows "runs_once ps'"
  unfolding runs_once_def
proof (intro allI impI)
  fix p and st :: search
  assume b: "before_run st p"
  then obtain p' h' c where c: "cloned_program p st = Some (Inr ((p', c), st\<lparr>sr_heap := h'\<rparr>))"
    "before_run (st\<lparr>sr_heap := h'\<rparr>) p'" "before_run (st\<lparr>sr_heap := h'\<rparr>) p" "one_store h' p'" "one_store h' p"
    by (rule before_cloned)
  then show "\<exists>st'. ps' p st = Some (Inr st') \<and> sr_measured st' = [3] \<and> sr_bestProgram st' \<noteq> None"
    using assms(1) assms(2) [OF before_store [OF b] c(1,4,5)] by (auto simp: runs_once_def)
qed

lemma one_store_simplified: "one_store (sr_heap st) p \<Longrightarrow> simplified H p st = Some (Inr (p, False))"
  unfolding simplified_def by (subst simplify.simps) (simp add: one_store_simplify)

lemma once_fuse: "runs_once ps \<Longrightarrow> runs_once (fuse_doIt H ps)"
  by (erule once_cloned) (simp add: fuse_doIt_def quiet_steps)

lemma once_interchanger: "runs_once ps \<Longrightarrow> runs_once (interchanger_doIt ps)"
  by (erule once_cloned) (simp add: interchanger_doIt_def quiet_steps)

lemma once_vectorizer: "runs_once ps \<Longrightarrow> runs_once (vectorizer_doIt B ps)"
  by (erule once_cloned) (simp add: vectorizer_doIt_def quiet_steps on_heap_def)

lemma once_promoter: "runs_once ps \<Longrightarrow> runs_once (promoter_doIt H ps)"
  by (erule once_cloned) (simp add: promoter_doIt_def quiet_steps on_heap_def one_store_simplified)

lemma once_distribute: "runs_once ps \<Longrightarrow> runs_once (distribute_doIt H ps)"
  by (erule once_cloned) (simp add: distribute_doIt_def quiet_steps distributed_def one_store_distribute one_store_simplified)

lemma search_of_one_store:
  assumes "one_store h p" "\<not> sv_bytecode sv"
  shows "\<exists>b st. optimizeEvaluate H three_seconds sv h p = Some (Inr (Some b, st)) \<and> sr_measured st = [3]"
proof -
  have "runs_once (pass_chain H three_seconds sv)"
    unfolding pass_chain_def Let_def
    by (intro once_distribute once_interchanger once_tiler once_fuse once_vectorizer once_widner once_promoter once_filter
      once_evaluator [OF assms(2)])
  moreover have "before_run (new_search h) p" using assms by (simp add: before_run_def new_search_def)
  ultimately show ?thesis by (fastforce simp: runs_once_def optimizeEvaluate_def retR_def)
qed


definition store_heap :: heap where
  "store_heap = fst (two_loops [] [])"

definition store_program :: program where
  "store_program = \<lparr>pr_name = ''f'', pr_args = [1], pr_vars = [],
     pr_body = [StoreStmt (GEPExpr 1 [ConstantExpr 0]) (ConstantFPExpr f32_one) False]\<rparr>"

lemma saves_no_bytecode: "\<not> sv_bytecode no_saving"
  by (simp add: no_saving_def)

lemma store_program_ok: "one_store store_heap store_program"
  by (simp add: one_store_def store_heap_def store_program_def two_loops_def)

theorem search_returns_best_witness:
  "\<forall>H. \<exists>b st. optimizeEvaluate H three_seconds no_saving store_heap store_program = Some (Inr (Some b, st))
     \<and> sr_bestTime st = 3 \<and> length (sr_alreadyRan st) = 1"
proof
  fix H
  obtain b st where o: "optimizeEvaluate H three_seconds no_saving store_heap store_program = Some (Inr (Some b, st))"
    and m: "sr_measured st = [3]"
    using search_of_one_store [OF store_program_ok, of no_saving H] by (auto simp: saves_no_bytecode)
  have "sr_bestTime st = 3 \<and> length (sr_alreadyRan st) = 1" using search_returns_best [OF o] m by simp
  then show "\<exists>b st. optimizeEvaluate H three_seconds no_saving store_heap store_program = Some (Inr (Some b, st))
     \<and> sr_bestTime st = 3 \<and> length (sr_alreadyRan st) = 1"
    using o by (intro exI [of _ b] exI [of _ st]) simp
qed

end
