(* ===== verification/Tuning.thy ===== *)
theory Tuning
  imports Driver SearchFacts
begin

text \<open>
  How the driver uses the search: what is left of a tuned program after \<open>main\<close> has run.
\<close>

declare parse_lets.simps [simp del] parse_vars.simps [simp del] parse_stmts.simps [simp del]
  parseScope.simps [simp del] parse_params.simps [simp del] parseMoreDims.simps [simp del]
  parse_commands.simps [simp del]

lemma bindR_elim: "bindR m f = Some (Inr y) \<Longrightarrow> (\<And>x. m = Some (Inr x) \<Longrightarrow> f x = Some (Inr y) \<Longrightarrow> thesis) \<Longrightarrow> thesis"
  by (auto simp: bindR_def split: option.splits sum.splits)

definition saving :: "flags \<Rightarrow> save_options" where
  "saving fl = \<lparr>sv_path = fl_out fl, sv_text = fl_textual fl, sv_bytecode = fl_bytecode fl\<rparr>"

text \<open>C38. Tuning with an output file is lost: the search saves its best program to the file of \<open>--out\<close>, but
  the driver drops the program the search returns and, last, writes the program it started from to
  the same file.\<close>

theorem tuned_output_overwritten:
  assumes "after_load H B fl h p = Some (Inr effects)" "fl_tune fl" "\<not> fl_opt fl" "fl_out fl \<noteq> []" "\<not> fl_bytecode fl"
  shows "\<exists>best st rest. optimizeEvaluate H B (saving fl) h p = Some (Inr (best, st))
    \<and> effects = Tuned (fl_out fl) (sr_saved st) (sr_measured st) # rest @ [Wrote (fl_out fl) (Code_file p (fl_textual fl))]"
proof -
  from assms(1) obtain tuned h1 runs q h2 dumped timed warned written where
    t: "bindR (optimizeEvaluate H B (saving fl) h p)
         (\<lambda>(best, st). retR (sr_heap st, sr_measured st, [Tuned (fl_out fl) (sr_saved st) (sr_measured st)])) =
        Some (Inr (h1, runs, tuned))"
    and q: "retR (p, h1) = Some (Inr (q, h2))"
    and w: "Some (emit_output fl h2 q) = Some (Inr written)"
    and e: "retR (tuned @ dumped @ timed @ warned @ written) = Some (Inr effects)"
    unfolding after_load_def Let_def saving_def
    by (simp only: assms(2-4) if_True if_False not_False_eq_True) (elim bindR_elim, auto elim!: bindR_elim)
  from t obtain best st where "optimizeEvaluate H B (saving fl) h p = Some (Inr (best, st))"
    "tuned = [Tuned (fl_out fl) (sr_saved st) (sr_measured st)]"
    by (auto elim!: bindR_elim simp: retR_def)
  moreover have "written = [Wrote (fl_out fl) (Code_file p (fl_textual fl))]"
    using w q assms(4,5) by (simp add: emit_output_def retR_def)
  ultimately have "optimizeEvaluate H B (saving fl) h p = Some (Inr (best, st))
    \<and> effects = Tuned (fl_out fl) (sr_saved st) (sr_measured st) # (dumped @ timed @ warned)
       @ [Wrote (fl_out fl) (Code_file p (fl_textual fl))]"
    using e by (simp add: retR_def)
  then show ?thesis by blast
qed

definition tune_flags :: flags where
  "tune_flags = \<lparr>fl_dump = False, fl_warn = False, fl_opt = False, fl_tune = True, fl_time = False,
     fl_textual = True, fl_bytecode = False, fl_out = ''f.s''\<rparr>"

lemma tuning_saves_code: "\<not> sv_bytecode (saving tune_flags)"
  by (simp add: saving_def tune_flags_def)

theorem tuned_output_overwritten_witness:
  "\<forall>H. \<exists>saved rest. after_load H three_seconds tune_flags store_heap store_program =
     Some (Inr (Tuned ''f.s'' saved [3] # rest @ [Wrote ''f.s'' (Code_file store_program True)]))"
proof
  fix H
  obtain b st where o: "optimizeEvaluate H three_seconds (saving tune_flags) store_heap store_program = Some (Inr (Some b, st))"
    and m: "sr_measured st = [3]"
    using search_of_one_store [OF store_program_ok, of "saving tune_flags" H] by (auto simp: tuning_saves_code)
  have "\<exists>effects. after_load H three_seconds tune_flags store_heap store_program = Some (Inr effects)"
    using o by (simp add: after_load_def saving_def tune_flags_def emit_output_def bindR_def retR_def)
  then obtain effects where e: "after_load H three_seconds tune_flags store_heap store_program = Some (Inr effects)" by blast
  obtain b' st' rest where "optimizeEvaluate H three_seconds (saving tune_flags) store_heap store_program = Some (Inr (b', st'))"
    "effects = Tuned ''f.s'' (sr_saved st') (sr_measured st') # rest @ [Wrote ''f.s'' (Code_file store_program True)]"
    using tuned_output_overwritten [OF e] by (auto simp: tune_flags_def)
  with o m e show "\<exists>saved rest. after_load H three_seconds tune_flags store_heap store_program =
     Some (Inr (Tuned ''f.s'' saved [3] # rest @ [Wrote ''f.s'' (Code_file store_program True)]))"
    by auto
qed

end
