(* ===== verification/TypeSafety.thy ===== *)
theory TypeSafety
  imports Verify Semantics
begin

text \<open>
  What the types of \<open>Types.h\<close> and the checks of \<open>verify\<close> are worth at run time: a verified expression
  evaluates to a value of the kind and the width of its type, and a verified program does not get
  stuck. The checks leave gaps, which \<open>plain_expr\<close> and \<open>plain_stmt\<close> close: string constants have the
  type of an index, an index may be divided by zero, a range check may test a float, a subscript may be a
  vector, and the operand of a unary operator may be an index.
\<close>

section \<open>Values of a type\<close>

fun has_type :: "val \<Rightarrow> ExprType \<Rightarrow> bool" where
  "has_type (VIdx xs) t = (ety_kind t = IndexTy \<and> length xs = unat (ety_width t))"
| "has_type (VFlt xs) t = (ety_kind t = Float32Ty \<and> length xs = unat (ety_width t))"
| "has_type (VPtr a off) t = (t = scalarTy PtrTy)"
| "has_type (VStr s) t = False"

definition locals_typed :: "heap \<Rightarrow> var_ptr list \<Rightarrow> state \<Rightarrow> bool" where
  "locals_typed h vs st \<longleftrightarrow> (\<forall>v \<in> set vs. has_type (st_loc st v) (var_type (hp_var h v)))"

definition scalar_index :: "expr \<Rightarrow> bool" where
  "scalar_index e \<longleftrightarrow> getType e = scalarTy IndexTy"

fun plain_expr :: "expr \<Rightarrow> bool" where
  "plain_expr (ConstantStringExpr s) = False"
| "plain_expr (IndexExpr ty L) = (ty = scalarTy IndexTy)"
| "plain_expr (BinaryExpr k l r) =
     (plain_expr l \<and> plain_expr r \<and> ety_kind (getType l) \<noteq> PtrTy \<and> (ety_kind (getType l) = IndexTy \<longrightarrow> k \<noteq> BinOpKind.Div))"
| "plain_expr (UnaryExpr k e) = (plain_expr e \<and> ety_kind (getType e) = Float32Ty)"
| "plain_expr (BroadcastExpr e vf) = (plain_expr e \<and> ety_kind (getType e) \<noteq> PtrTy)"
| "plain_expr (GEPExpr a is) = list_all (\<lambda>e. plain_expr e \<and> scalar_index e) is"
| "plain_expr (LoadExpr ty g) = (plain_expr g \<and> ety_kind ty = Float32Ty)"
| "plain_expr e = True"

fun plain_stmt :: "stmt \<Rightarrow> bool" where
  "plain_stmt (Loop L body) = list_all plain_stmt body"
| "plain_stmt (IfRange e lo hi body) = (plain_expr e \<and> scalar_index e \<and> list_all plain_stmt body)"
| "plain_stmt (CallStmt name params) = list_all plain_expr params"
| "plain_stmt (StoreStmt g e acc) = (plain_expr g \<and> plain_expr e \<and> ety_kind (getType e) = Float32Ty)"
| "plain_stmt (StoreLocalStmt v e acc) = (plain_expr e \<and> (acc \<longrightarrow> ety_kind (getType e) = Float32Ty))"

section \<open>Expressions\<close>

lemma has_type_index: "has_type v t \<Longrightarrow> ety_kind t = IndexTy \<Longrightarrow> \<exists>xs. v = VIdx xs \<and> length xs = unat (ety_width t)"
  by (cases v) (auto simp: scalarTy_def)

lemma has_type_float: "has_type v t \<Longrightarrow> ety_kind t = Float32Ty \<Longrightarrow> \<exists>xs. v = VFlt xs \<and> length xs = unat (ety_width t)"
  by (cases v) (auto simp: scalarTy_def)

lemma has_type_lanes: "has_type v t \<Longrightarrow> ety_kind t \<noteq> PtrTy \<Longrightarrow>
    (\<exists>xs. v = VIdx xs \<and> ety_kind t = IndexTy \<and> length xs = unat (ety_width t))
    \<or> (\<exists>xs. v = VFlt xs \<and> ety_kind t = Float32Ty \<and> length xs = unat (ety_width t))"
  by (cases v) (auto simp: scalarTy_def)

lemma length_1: "length xs = Suc 0 \<longleftrightarrow> (\<exists>x. xs = [x])"
  by (cases xs) auto

lemma scalar_value: "has_type v (getType e) \<Longrightarrow> scalar_index e \<Longrightarrow> \<exists>x. v = VIdx [x]"
  by (cases v) (auto simp: scalar_index_def scalarTy_def length_1)

lemma those_all: "\<forall>x \<in> set xs. \<exists>y. f x = Some y \<and> P y \<Longrightarrow> \<exists>ys. those (map f xs) = Some ys \<and> length ys = length xs \<and> list_all P ys"
  by (induction xs) fastforce+

lemma idx_bin_total: "k \<noteq> BinOpKind.Div \<Longrightarrow> \<exists>z. idx_bin M k x y = Some z"
  by (cases k) simp_all

lemma eval_bin_typed:
  assumes "has_type x t" "has_type y t" "ety_kind t \<noteq> PtrTy" "ety_kind t = IndexTy \<Longrightarrow> k \<noteq> BinOpKind.Div"
  shows "\<exists>z. eval_bin M k x y = Some z \<and> has_type z t"
  using has_type_lanes [OF assms(1,3)]
proof (elim disjE exE conjE)
  fix xs assume x: "x = VIdx xs" "ety_kind t = IndexTy" "length xs = unat (ety_width t)"
  then obtain ys where y: "y = VIdx ys" "length ys = unat (ety_width t)" using has_type_index [OF assms(2)] by auto
  have "\<forall>p \<in> set (zip xs ys). \<exists>z. (\<lambda>(a, b). idx_bin M k a b) p = Some z \<and> True"
    using idx_bin_total assms(4) x(2) by (auto split: prod.split)
  from those_all [OF this] obtain zs where "those (map2 (idx_bin M k) xs ys) = Some zs" "length zs = length (zip xs ys)" by auto
  with x y show ?thesis by simp
next
  fix xs assume x: "x = VFlt xs" "ety_kind t = Float32Ty" "length xs = unat (ety_width t)"
  then obtain ys where "y = VFlt ys" "length ys = unat (ety_width t)" using has_type_float [OF assms(2)] by auto
  with x show ?thesis by simp
qed

lemma splat_typed:
  assumes "has_type v t" "ety_kind t \<noteq> PtrTy" "ety_width t = 1"
  shows "\<exists>z. splat w v = Some z \<and> has_type z (t\<lparr>ety_width := w\<rparr>)"
  using has_type_lanes [OF assms(1,2)] assms(3) by (auto simp: length_1)

lemma eval_typed:
  "verify_expr h vs enc e = Inr () \<Longrightarrow> plain_expr e \<Longrightarrow> locals_typed h vs st \<Longrightarrow>
    \<exists>v. eval M h st \<rho> e = Some v \<and> has_type v (getType e)"
proof (induction e)
  case (BinaryExpr k l r)
  then obtain x y where "eval M h st \<rho> l = Some x" "has_type x (getType l)" "eval M h st \<rho> r = Some y" "has_type y (getType l)"
    by auto
  with BinaryExpr.prems eval_bin_typed [of x "getType l" y k M] show ?case by auto
next
  case (UnaryExpr k e)
  then obtain x where "eval M h st \<rho> e = Some x" "has_type x (getType e)" by auto
  with UnaryExpr.prems has_type_float [of x "getType e"] show ?case by auto
next
  case (BroadcastExpr e vf)
  then obtain x where "eval M h st \<rho> e = Some x" "has_type x (getType e)" by auto
  with BroadcastExpr.prems splat_typed [of x "getType e" vf] show ?case
    by (cases "getType e") auto
next
  case (GEPExpr a "is")
  have "\<exists>y. Option.bind (eval M h st \<rho> e) scalar_idx = Some y \<and> True" if "e \<in> set is" for e
  proof -
    have "\<exists>v. eval M h st \<rho> e = Some v \<and> has_type v (getType e)" "scalar_index e"
      using GEPExpr that by (auto simp: list_all_iff)
    then show ?thesis using scalar_value by fastforce
  qed
  then obtain ys where "those (map (\<lambda>e. Option.bind (eval M h st \<rho> e) scalar_idx) is) = Some ys" "length ys = length is"
    using those_all [of "is" "\<lambda>e. Option.bind (eval M h st \<rho> e) scalar_idx" "\<lambda>_. True"] by auto
  then show ?case using GEPExpr.prems by (auto simp: getNumDims_def)
next
  case (LoadExpr ty g)
  then obtain p where p: "eval M h st \<rho> g = Some p" "has_type p (getType g)" by auto
  have "is_GEP g" using LoadExpr.prems by simp
  with p have "\<exists>a off. p = VPtr a off" by (cases g; cases p) (auto simp: scalarTy_def)
  with p LoadExpr.prems show ?case by (auto simp: load_lanes_def)
next
  case (LoadLocalExpr ty v)
  then have "v \<in> set vs" by (auto simp: getVar_in_def find_Some_iff)
  with LoadLocalExpr show ?case by (auto simp: locals_typed_def)
qed (auto simp: scalarTy_def)

section \<open>Statements\<close>

lemma store_to_typed:
  assumes "eval M h st \<rho> g = Some p" "has_type p (getType g)" "is_GEP g" "has_type v t" "ety_kind t = Float32Ty"
  shows "\<exists>st'. store_to M acc st p v = Some st' \<and> st_loc st' = st_loc st"
proof -
  obtain xs where v: "v = VFlt xs" using has_type_float [OF assms(4,5)] by auto
  have "\<exists>a off. p = VPtr a off" using assms(1-3) by (cases g; cases p) (auto simp: scalarTy_def)
  with v show ?thesis by (auto simp: Let_def)
qed

lemma accumulate_typed:
  assumes "has_type u t" "has_type v t" "acc \<Longrightarrow> ety_kind t = Float32Ty"
  shows "\<exists>z. accumulate_val M acc u v = Some z \<and> has_type z t"
proof (cases acc)
  case True
  with assms has_type_float [of u t] has_type_float [of v t] show ?thesis by auto
qed (use assms in simp)

lemma fold_opt_total:
  assumes "\<And>x s. x \<in> set xs \<Longrightarrow> I s \<Longrightarrow> \<exists>s'. f x s = Some s' \<and> I s'" "I s"
  shows "\<exists>s'. fold_opt f xs s = Some s' \<and> I s'"
  using assms
proof (induction xs arbitrary: s)
  case (Cons x xs)
  then obtain t where "f x s = Some t" "I t" by (meson list.set_intros(1))
  with Cons.IH [of t] Cons.prems(1) show ?case by simp
qed simp

lemma exec_typed:
  "verify_stmt h vs enc s = Inr () \<Longrightarrow> plain_stmt s \<Longrightarrow> locals_typed h vs st \<Longrightarrow>
    \<exists>st'. exec M h \<rho> s st = Some st' \<and> locals_typed h vs st'"
proof (induction s arbitrary: enc \<rho> st)
  case (Loop L body)
  have body: "\<exists>st'. fold_opt (exec M h \<rho>') body st = Some st' \<and> locals_typed h vs st'"
    if "locals_typed h vs st" for \<rho>' st
    by (rule fold_opt_total [where I = "locals_typed h vs", OF _ that])
      (use Loop.IH [of _ "L # enc"] Loop.prems(1,2) in \<open>auto simp: list_all_iff\<close>)
  have "\<exists>st'. fold_opt (\<lambda>i. fold_opt (exec M h (\<rho>(L := of_nat i))) body) xs st = Some st' \<and> locals_typed h vs st'" for xs
    by (rule fold_opt_total [where I = "locals_typed h vs", OF _ Loop.prems(3)]) (rule body)
  moreover have "loop_stride h L \<noteq> 0" using Loop.prems(1) by auto
  ultimately show ?case by simp
next
  case (IfRange e lo hi body)
  then have "verify_expr h vs enc e = Inr ()" "plain_expr e" "scalar_index e" by simp_all
  with eval_typed [OF this(1,2) IfRange.prems(3), of M \<rho>] obtain x where x: "eval M h st \<rho> e = Some (VIdx [x])"
    using scalar_value by blast
  have "\<exists>st'. fold_opt (exec M h \<rho>) body st = Some st' \<and> locals_typed h vs st'"
    by (rule fold_opt_total [where I = "locals_typed h vs", OF _ IfRange.prems(3)])
      (use IfRange.IH [of _ enc] IfRange.prems(1,2) in \<open>auto simp: list_all_iff\<close>)
  with x IfRange.prems(3) show ?case by simp
next
  case (CallStmt name params)
  have "\<forall>e \<in> set params. \<exists>v. eval M h st \<rho> e = Some v \<and> True"
    using CallStmt eval_typed [of h vs enc _ st M \<rho>] by (fastforce simp: list_all_iff)
  from those_all [OF this] CallStmt.prems(3) show ?case by (auto simp: locals_typed_def)
next
  case (StoreStmt g e acc)
  then have v: "verify_expr h vs enc g = Inr ()" "verify_expr h vs enc e = Inr ()" "is_GEP g"
    "plain_expr g" "plain_expr e" "ety_kind (getType e) = Float32Ty" by auto
  obtain p where p: "eval M h st \<rho> g = Some p" "has_type p (getType g)"
    using eval_typed [OF v(1,4) StoreStmt.prems(3)] by blast
  obtain y where y: "eval M h st \<rho> e = Some y" "has_type y (getType e)"
    using eval_typed [OF v(2,5) StoreStmt.prems(3)] by blast
  from store_to_typed [OF p v(3) y(2) v(6)] p y StoreStmt.prems(3) show ?case by (fastforce simp: locals_typed_def)
next
  case (StoreLocalStmt v e acc)
  then have e: "verify_expr h vs enc e = Inr ()" "plain_expr e" "v \<in> set vs" "getType e = var_type (hp_var h v)"
    "acc \<Longrightarrow> ety_kind (getType e) = Float32Ty"
    by (auto simp: getVar_in_def find_Some_iff)
  obtain y where y: "eval M h st \<rho> e = Some y" "has_type y (getType e)"
    using eval_typed [OF e(1,2) StoreLocalStmt.prems(3)] by blast
  have "has_type (st_loc st v) (getType e)" using StoreLocalStmt.prems(3) e(3,4) by (simp add: locals_typed_def)
  from accumulate_typed [OF this y(2) e(5)] obtain z where "accumulate_val M acc (st_loc st v) y = Some z" "has_type z (getType e)"
    by blast
  with y StoreLocalStmt.prems(3) e(4) show ?case by (auto simp: locals_typed_def)
qed

section \<open>Properties\<close>

text \<open>C9. Type safety: a program that \<open>verify\<close> accepts, whose statements are plain, runs to its end from every
  state whose local variables have values of their types, and the final state is again such a state. In
  particular no operation meets operands of the wrong kind or width, and no loop runs forever.\<close>

theorem verified_program_runs:
  assumes "verify_program h p = Inr ()" "list_all plain_stmt (pr_body p)" "locals_typed h (pr_vars p) st"
  shows "\<exists>st'. run_program M h p st = Some st' \<and> locals_typed h (pr_vars p) st'"
  unfolding run_program_def
  by (rule fold_opt_total [where I = "locals_typed h (pr_vars p)", OF _ assms(3)], rule exec_typed)
    (use assms(1,2) in \<open>auto simp: verify_program_def list_all_iff\<close>)

theorem verified_program_runs_witness:
  "\<forall>M st. \<exists>st'. run_program M (fst demo_loop) (snd demo_loop) st = Some st'"
proof (intro allI)
  fix M st
  have "list_all plain_stmt (pr_body (snd demo_loop))" "locals_typed (fst demo_loop) (pr_vars (snd demo_loop)) st"
    by (simp_all add: demo_loop_def locals_typed_def scalar_index_def scalarTy_def)
  from verified_program_runs [OF demo_loop_verified this, of M]
  show "\<exists>st'. run_program M (fst demo_loop) (snd demo_loop) st = Some st'" by blast
qed

text \<open>The gap of string constants: a verified program that gets stuck, since a string counts as an index.\<close>

lemma verified_program_stuck:
  "\<exists>h p. verify_program h p = Inr () \<and> (\<forall>M st. run_program M h p st = None)"
proof (intro exI conjI allI)
  let ?h = "fst demo_loop" and ?p = "(snd demo_loop)\<lparr>pr_body := [CallStmt ''g'' [BinaryExpr Add (ConstantStringExpr ''s'') (ConstantExpr 1)]]\<rparr>"
  show "verify_program ?h ?p = Inr ()" by code_simp
  show "run_program M ?h ?p st = None" for M st by (simp add: run_program_def)
qed

end
