(* ===== verification/BytecodeFile.thy ===== *)
theory BytecodeFile
  imports Driver RoundTrip
begin

text \<open>
  A bytecode file: \<open>main\<close> writes the bytes that \<open>serialize\<close> returns and reads them back with \<open>readFile\<close>,
  which may add a newline at the end. The deserializer does not look past what it reads, so a longer stream
  gives the same program.
\<close>

section \<open>Longer streams\<close>

definition longer :: "stream \<Rightarrow> reader \<Rightarrow> reader" where
  "longer xs r = r\<lparr>rd_stream := rd_stream r @ xs\<rparr>"

definition ahead_of :: "reader \<Rightarrow> reader \<Rightarrow> bool" where
  "ahead_of r r' \<longleftrightarrow> rd_stream r' = rd_stream r \<and> rd_pos r \<le> rd_pos r'"

definition inside :: "reader \<Rightarrow> bool" where
  "inside r \<longleftrightarrow> rd_pos r \<le> length (rd_stream r)"

lemma longer_simps [simp]: "rd_pos (longer xs r) = rd_pos r" "rd_stream (longer xs r) = rd_stream r @ xs"
  by (simp_all add: longer_def)

lemma longer_pos: "longer xs (r\<lparr>rd_pos := k\<rparr>) = (longer xs r)\<lparr>rd_pos := k\<rparr>"
  by (cases r) (simp add: longer_def)

lemma ahead_of_refl [simp]: "ahead_of r r"
  by (simp add: ahead_of_def)

lemma ahead_of_trans: "ahead_of r r' \<Longrightarrow> ahead_of r' r'' \<Longrightarrow> ahead_of r r''"
  by (simp add: ahead_of_def)

lemma inside_before: "ahead_of r r' \<Longrightarrow> inside r' \<Longrightarrow> inside r"
  by (simp add: ahead_of_def inside_def)

text \<open>A function on a state that holds a reader does not look past its end: if it ends inside the stream, then
  it does the same on a longer stream.\<close>

definition framed :: "('s \<Rightarrow> reader) \<Rightarrow> (reader \<Rightarrow> 's \<Rightarrow> 's) \<Rightarrow> stream \<Rightarrow> ('s \<Rightarrow> ('a \<times> 's) res) \<Rightarrow> bool" where
  "framed rd put xs f \<longleftrightarrow> (\<forall>s x s'. f s = Inr (x, s') \<longrightarrow> ahead_of (rd s) (rd s')
     \<and> (inside (rd s') \<longrightarrow> f (put (longer xs (rd s)) s) = Inr (x, put (longer xs (rd s')) s')))"

definition framed_step :: "('s \<Rightarrow> reader) \<Rightarrow> (reader \<Rightarrow> 's \<Rightarrow> 's) \<Rightarrow> stream \<Rightarrow> ('s \<Rightarrow> 's res) \<Rightarrow> bool" where
  "framed_step rd put xs f \<longleftrightarrow> framed rd put xs (\<lambda>s. bind_res (f s) (\<lambda>s. Inr ((), s)))"

lemma framedD:
  assumes "framed rd put xs f" "f s = Inr (x, s')"
  shows "ahead_of (rd s) (rd s')" "inside (rd s') \<Longrightarrow> f (put (longer xs (rd s)) s) = Inr (x, put (longer xs (rd s')) s')"
  using assms by (auto simp: framed_def)

lemma framed_stepD:
  assumes "framed_step rd put xs f" "f s = Inr s'"
  shows "ahead_of (rd s) (rd s')" "inside (rd s') \<Longrightarrow> f (put (longer xs (rd s)) s) = Inr (put (longer xs (rd s')) s')"
  using assms by (fastforce simp: framed_step_def framed_def)+

lemma framed_stepI:
  assumes "\<And>s s'. f s = Inr s' \<Longrightarrow> ahead_of (rd s) (rd s')"
    and "\<And>s s'. f s = Inr s' \<Longrightarrow> inside (rd s') \<Longrightarrow> f (put (longer xs (rd s)) s) = Inr (put (longer xs (rd s')) s')"
  shows "framed_step rd put xs f"
  using assms by (fastforce simp: framed_step_def framed_def)

section \<open>Rules\<close>

text \<open>A state with a reader: the laws of its field.\<close>

locale cursor =
  fixes rd :: "'s \<Rightarrow> reader" and put :: "reader \<Rightarrow> 's \<Rightarrow> 's"
  assumes rd_put [simp]: "rd (put r s) = r"
    and put_put [simp]: "put r (put r' s) = put r s"
begin

lemma framed_ret [intro]: "framed rd put xs (\<lambda>s. Inr (x, s))"
  by (simp add: framed_def)

lemma framed_bind:
  assumes f: "framed rd put xs f" and g: "\<And>x. framed rd put xs (g x)"
  shows "framed rd put xs (\<lambda>s. bind_res (f s) (\<lambda>(x, s). g x s))"
  unfolding framed_def
proof (intro allI impI)
  fix s y s'' assume "bind_res (f s) (\<lambda>(x, s). g x s) = Inr (y, s'')"
  then obtain x s' where 1: "f s = Inr (x, s')" and 2: "g x s' = Inr (y, s'')" by auto
  note F = framedD [OF f 1] and G = framedD [OF g 2]
  from ahead_of_trans [OF F(1) G(1)] F(2) [OF inside_before [OF G(1)]] G(2)
  show "ahead_of (rd s) (rd s'') \<and> (inside (rd s'') \<longrightarrow>
      bind_res (f (put (longer xs (rd s)) s)) (\<lambda>(x, s). g x s) = Inr (y, put (longer xs (rd s'')) s''))"
    by simp
qed

lemma framed_view:
  assumes "\<And>r s. c (put r s) = c s" "\<And>x. framed rd put xs (g x)"
  shows "framed rd put xs (\<lambda>s. bind_res (c s) (\<lambda>x. g x s))"
  unfolding framed_def using assms(1) framedD [OF assms(2)] by fastforce

lemma framed_if:
  "framed rd put xs f \<Longrightarrow> framed rd put xs g \<Longrightarrow> framed rd put xs (\<lambda>s. if b then f s else g s)"
  by (cases b) simp_all

lemma step_ret: "framed_step rd put xs Inr"
  by (rule framed_stepI) simp_all

lemma step_bind:
  assumes "framed rd put xs f" "\<And>x. framed_step rd put xs (g x)"
  shows "framed_step rd put xs (\<lambda>s. bind_res (f s) (\<lambda>(x, s). g x s))"
proof -
  have "framed rd put xs (\<lambda>s. bind_res (f s) (\<lambda>(x, s). bind_res (g x s) (\<lambda>s. Inr ((), s))))"
    using assms by (intro framed_bind) (simp_all add: framed_step_def)
  moreover have "(\<lambda>s. bind_res (bind_res (f s) (\<lambda>(x, s). g x s)) (\<lambda>s. Inr ((), s))) =
      (\<lambda>s. bind_res (f s) (\<lambda>(x, s). bind_res (g x s) (\<lambda>s. Inr ((), s))))"
    by (auto simp: bind_res_def split: sum.split)
  ultimately show ?thesis by (simp add: framed_step_def)
qed

lemma step_view:
  assumes "\<And>r s. c (put r s) = c s" "\<And>x. framed_step rd put xs (g x)"
  shows "framed_step rd put xs (\<lambda>s. bind_res (c s) (\<lambda>x. g x s))"
  by (rule framed_stepI) (use assms(1) framed_stepD [OF assms(2)] in fastforce)+

lemma step_seq:
  assumes "framed_step rd put xs f" "framed_step rd put xs g"
  shows "framed_step rd put xs (\<lambda>s. bind_res (f s) g)"
proof (rule framed_stepI)
  fix s s'' assume "bind_res (f s) g = Inr s''"
  then obtain s' where 1: "f s = Inr s'" and 2: "g s' = Inr s''" by auto
  note F = framed_stepD [OF assms(1) 1] and G = framed_stepD [OF assms(2) 2]
  show "ahead_of (rd s) (rd s'')" using ahead_of_trans [OF F(1) G(1)] .
  show "bind_res (f (put (longer xs (rd s)) s)) g = Inr (put (longer xs (rd s'')) s'')" if "inside (rd s'')"
    using F(2) [OF inside_before [OF G(1) that]] G(2) [OF that] by simp
qed

lemma step_if:
  "framed_step rd put xs f \<Longrightarrow> framed_step rd put xs g \<Longrightarrow> framed_step rd put xs (\<lambda>s. if b then f s else g s)"
  by (cases b) simp_all

text \<open>A change of the other fields.\<close>

lemma step_update:
  assumes "framed_step rd put xs f" "\<And>s. rd (u s) = rd s" "\<And>r s. u (put r s) = put r (u s)"
  shows "framed_step rd put xs (\<lambda>s. f (u s))"
  by (rule framed_stepI) (use framed_stepD [OF assms(1)] assms(2,3) in \<open>metis+\<close>)

lemma step_repeat: "framed_step rd put xs f \<Longrightarrow> framed_step rd put xs (repeat_res n f)"
proof (induction n)
  case (Suc n)
  have "repeat_res (Suc n) f = (\<lambda>s. bind_res (f s) (repeat_res n f))" by (rule ext) simp
  then show ?case using step_seq [OF Suc.prems Suc.IH [OF Suc.prems]] by simp
qed (use step_ret in \<open>simp add: repeat_res.simps(1) [abs_def]\<close>)

lemma framed_split: "(\<And>a b. framed rd put xs (g a b)) \<Longrightarrow> framed rd put xs (\<lambda>s. case x of (a, b) \<Rightarrow> g a b s)"
  by (cases x) simp

lemma step_split: "(\<And>a b. framed_step rd put xs (g a b)) \<Longrightarrow> framed_step rd put xs (\<lambda>s. case x of (a, b) \<Rightarrow> g a b s)"
  by (cases x) simp

lemma framed_split_fun: "(\<And>a b. framed rd put xs (g a b)) \<Longrightarrow> framed rd put xs (case x of (a, b) \<Rightarrow> g a b)"
  by (cases x) simp

lemma step_fail: "framed_step rd put xs (\<lambda>s. Inl e)"
  by (rule framed_stepI) simp_all

lemma step_let:
  assumes "\<And>r s. c (put r s) = c s" "\<And>x. framed_step rd put xs (g x)"
  shows "framed_step rd put xs (\<lambda>s. let x = c s in g x s)"
  by (rule framed_stepI) (use assms(1) framed_stepD [OF assms(2)] in \<open>simp_all add: Let_def\<close>)

text \<open>A reader of the stream, in the state.\<close>

lemma framed_lift:
  assumes "framed id (\<lambda>r _. r) xs f"
  shows "framed rd put xs (\<lambda>s. bind_res (f (rd s)) (\<lambda>(x, r). Inr (x, put r s)))"
  unfolding framed_def using framedD [OF assms] by fastforce

end

interpretation stream: cursor id "\<lambda>r _. r"
  by unfold_locales simp_all

interpretation state: cursor ds_rd "\<lambda>r. ds_rd_update (\<lambda>_. r)"
  by unfold_locales simp_all

lemmas stream_rules = stream.framed_ret stream.framed_bind stream.framed_split stream.framed_split_fun stream.framed_view stream.framed_if

lemmas state_rules = state.framed_ret state.framed_bind state.framed_split state.framed_view state.framed_if

lemmas step_rules = state.step_ret state.step_fail state.step_bind state.step_split state.step_view state.step_let state.step_if

section \<open>The readers\<close>

abbreviation stream_framed :: "stream \<Rightarrow> (reader \<Rightarrow> ('a \<times> reader) res) \<Rightarrow> bool" where
  "stream_framed \<equiv> framed id (\<lambda>r _. r)"

abbreviation state_framed :: "stream \<Rightarrow> (des \<Rightarrow> ('a \<times> des) res) \<Rightarrow> bool" where
  "state_framed \<equiv> framed ds_rd (\<lambda>r. ds_rd_update (\<lambda>_. r))"

abbreviation state_step :: "stream \<Rightarrow> (des \<Rightarrow> des res) \<Rightarrow> bool" where
  "state_step \<equiv> framed_step ds_rd (\<lambda>r. ds_rd_update (\<lambda>_. r))"

named_theorems framed_intros

lemma framed_readU8 [framed_intros]: "stream_framed xs readU8"
  by (auto simp: framed_def readU8_def require_def longer_def ahead_of_def inside_def nth_append split: if_splits)

lemma framed_readU32 [framed_intros]: "stream_framed xs readU32"
  unfolding readU32_def [abs_def] by (rule framed_intros stream_rules)+

lemma framed_readF32 [framed_intros]: "stream_framed xs readF32"
  unfolding readF32_def [abs_def] by (rule framed_intros)

lemma framed_readChars: "stream_framed xs (readChars n)"
proof (induction n)
  case (Suc n)
  show ?case unfolding framed_def
  proof (intro allI impI)
    fix r cs r' assume r: "readChars (Suc n) r = Inr (cs, r')"
    let ?r = "r\<lparr>rd_pos := Suc (rd_pos r)\<rparr>"
    obtain cs' where tail: "readChars n ?r = Inr (cs', r')"
      and cs: "cs = (if rd_pos r < length (rd_stream r) then char_of_byte (rd_stream r ! rd_pos r) else CHR 0x00) # cs'"
      using r by (auto simp: Let_def split: if_splits)
    note t = framedD [OF Suc.IH tail]
    have "ahead_of r r'" using t(1) by (simp add: ahead_of_def)
    moreover have "readChars (Suc n) (longer xs r) = Inr (cs, longer xs r')" if "inside r'"
    proof -
      have "rd_pos r < length (rd_stream r)" using t(1) that by (simp add: ahead_of_def inside_def)
      moreover have "readChars n ((longer xs r)\<lparr>rd_pos := Suc (rd_pos r)\<rparr>) = Inr (cs', longer xs r')"
        using t(2) that by (simp add: longer_pos)
      ultimately show ?thesis using cs by (simp add: Let_def nth_append)
    qed
    ultimately show "ahead_of (id r) (id r') \<and> (inside (id r') \<longrightarrow> readChars (Suc n) (longer xs (id r)) = Inr (cs, longer xs (id r')))"
      by simp
  qed
qed (simp add: framed_def)

lemma framed_readStr [framed_intros]: "stream_framed xs readStr"
  unfolding readStr_def [abs_def] by (rule framed_intros framed_readChars stream_rules)+

section \<open>The header\<close>

lemma framed_read_strs [framed_intros]: "stream_framed xs (read_strs n t)"
proof (induction n arbitrary: t)
  case (Suc n)
  show ?case unfolding read_strs.simps(2) [abs_def] by (rule Suc.IH framed_intros stream_rules refl)+
qed (simp add: framed_def)

lemma framed_read_etys [framed_intros]: "stream_framed xs (read_etys n t)"
proof (induction n arbitrary: t)
  case (Suc n)
  show ?case unfolding read_etys.simps(2) [abs_def] by (rule Suc.IH framed_intros stream_rules refl)+
qed (simp add: framed_def)

lemma read_dims_longer:
  "read_dims n t r = Inr (ds, names, r') \<Longrightarrow> ahead_of r r' \<and> (inside r' \<longrightarrow> read_dims n t (longer xs r) = Inr (ds, names, longer xs r'))"
proof (induction n arbitrary: r ds names)
  case (Suc n)
  from Suc.prems obtain d r1 i r2 name ds' names' where
    1: "readU32 r = Inr (d, r1)" and 2: "readU32 r1 = Inr (i, r2)" and nm: "getById t i = Inr name"
    and 3: "read_dims n t r2 = Inr (ds', names', r')" and res: "ds = d # ds'" "names = name # names'"
    by auto
  note a = framedD [OF framed_readU32 1, simplified] and b = framedD [OF framed_readU32 2, simplified]
    and c = Suc.IH [OF 3]
  have "ahead_of r r'" using ahead_of_trans [OF a(1) ahead_of_trans [OF b(1)]] c by blast
  moreover have "read_dims (Suc n) t (longer xs r) = Inr (ds, names, longer xs r')" if "inside r'"
  proof -
    have "inside r2" "inside r1" using inside_before c that b(1) by blast+
    then show ?thesis using a(2) b(2) c that nm res by simp
  qed
  ultimately show ?case by blast
qed simp

lemma framed_read_ttys [framed_intros]: "stream_framed xs (read_ttys n strs t)"
proof (induction n arbitrary: t)
  case (Suc n)
  let ?dims = "\<lambda>k r. bind_res (read_dims k strs r) (\<lambda>(ds, names, r). Inr ((ds, names), r))"
  have dims: "stream_framed xs (?dims k)" for k
    unfolding framed_def using read_dims_longer [where t = strs and xs = xs] by fastforce
  have "read_ttys (Suc n) strs t r =
     bind_res (readU8 r) (\<lambda>(elemTy, r). bind_res (readU8 r) (\<lambda>(numDims, r).
     bind_res (?dims (unat numDims) r) (\<lambda>((sizes, names), r).
     bind_res (elemKind_of_code elemTy) (\<lambda>k. bind_res (mkType k sizes names) (\<lambda>T.
     bind_res (getIdFor Type_isEqual t T) (\<lambda>(_, t). read_ttys n strs t r))))))" for r
    by (auto simp: bind_res_def split: sum.split prod.split)
  then have eq: "read_ttys (Suc n) strs t = (\<lambda>r.
     bind_res (readU8 r) (\<lambda>(elemTy, r). bind_res (readU8 r) (\<lambda>(numDims, r).
     bind_res (?dims (unat numDims) r) (\<lambda>((sizes, names), r).
     bind_res (elemKind_of_code elemTy) (\<lambda>k. bind_res (mkType k sizes names) (\<lambda>T.
     bind_res (getIdFor Type_isEqual t T) (\<lambda>(_, t). read_ttys n strs t r)))))))" by (rule ext)
  show ?case unfolding eq by (rule Suc.IH framed_intros dims stream_rules refl)+
qed (simp add: framed_def)

lemma framed_header [framed_intros]: "stream_framed xs deserialize_header"
  unfolding deserialize_header_def [abs_def] by (rule framed_intros stream_rules refl)+

section \<open>Expressions and statements\<close>

lemma framed_get [framed_intros]: "state_framed xs get8" "state_framed xs get32" "state_framed xs get_f32"
  unfolding get8_def [abs_def] get32_def [abs_def] get_f32_def [abs_def] by (rule state.framed_lift framed_intros)+

lemma framed_getExpr [framed_intros]: "state_framed xs (getExpr i)"
  by (auto simp: framed_def getExpr_def split: option.splits if_splits)

lemma framed_get_kid [framed_intros]: "state_framed xs get_kid"
  unfolding get_kid_def [abs_def] by (rule framed_intros state_rules)+

lemma framed_get_kids [framed_intros]: "state_framed xs (get_kids n)"
proof (induction n)
  case (Suc n)
  show ?case unfolding get_kids.simps(2) [abs_def] by (rule Suc.IH framed_intros state_rules)+
qed (simp add: framed_def)

lemma step_registerExpr:
  assumes "\<And>r d. c (d\<lparr>ds_rd := r\<rparr>) = c d"
  shows "state_step xs (\<lambda>d. registerExpr i (c d) d)"
  by (rule framed_stepI) (use assms in \<open>auto simp: registerExpr_def require_def split: if_splits\<close>)

lemma step_registerStmt: "state_step xs (registerStmt i s)"
  by (rule framed_stepI) (auto simp: registerStmt_def require_def split: if_splits)

lemma step_add_stmt [framed_intros]: "state_step xs (add_stmt pid i sh ref)"
  unfolding add_stmt_def [abs_def]
proof (rule state.step_view)
  have "state_step xs (\<lambda>d. registerStmt i ref (d\<lparr>ds_tree := graft pid (DNode i sh []) (ds_tree d)\<rparr>))"
    by (rule state.step_update [OF step_registerStmt]) simp_all
  then show "state_step xs (\<lambda>d. if parent = RLeaf then Inl (UB ''parent is not a scope'')
      else registerStmt i ref (d\<lparr>ds_tree := graft pid (DNode i sh []) (ds_tree d)\<rparr>))" for parent
    by (intro state.step_if state.step_fail)
qed (simp add: getStmt_def)

lemma step_binary [framed_intros]: "state_step xs (deserialize_binary i)"
  unfolding deserialize_binary_def [abs_def] by (rule framed_intros step_registerExpr step_rules refl)+

lemma step_later [framed_intros]: "state_step xs (\<lambda>d. Inr (registerResolveLater L d))"
  by (rule framed_stepI) (auto simp: registerResolveLater_def)

lemma step_index: "state_step xs (\<lambda>d. bind_res (registerExpr i e d) (\<lambda>d. Inr (registerResolveLater L d)))"
  by (rule state.step_seq [OF step_registerExpr [OF refl] step_later])

lemma step_string:
  "state_step xs (\<lambda>d. bind_res (registerExpr i e d) (deserialize_binary i))"
  by (rule state.step_seq [OF step_registerExpr [OF refl] step_binary])

lemma step_deserialize_expr: "state_step xs (deserialize_expr H)"
  unfolding deserialize_expr_def [abs_def]
  by (rule framed_intros step_index step_string step_registerExpr step_rules refl | simp; fail)+

lemma step_add_loop: "state_step xs (\<lambda>d. add_stmt pid i sh ref (d\<lparr>ds_heap := h'\<rparr>))"
  by (rule state.step_update [OF step_add_stmt]) simp_all

lemma step_deserialize_stmt: "state_step xs (deserialize_stmt H)"
  unfolding deserialize_stmt_def [abs_def]
  by (rule framed_intros step_add_loop step_rules refl | simp add: getStmt_def; fail)+

lemma step_read_args [framed_intros]: "state_step xs (read_args n H)"
proof (induction n)
  case (Suc n)
  have u: "state_step xs (\<lambda>d. read_args n H (d\<lparr>ds_heap := h', ds_prog := addArg (ds_prog d) a\<rparr>))" for h' a
    by (rule state.step_update [OF Suc.IH]) simp_all
  show ?case unfolding read_args.simps(2) [abs_def] by (rule framed_intros u step_rules refl | simp; fail)+
qed (use state.step_ret in \<open>simp add: read_args.simps(1) [abs_def]\<close>)

lemma step_read_vars [framed_intros]: "state_step xs (read_vars n H)"
proof (induction n)
  case (Suc n)
  have u: "state_step xs (\<lambda>d. read_vars n H (d\<lparr>ds_heap := h', ds_prog := addVar (ds_prog d) v\<rparr>))" for h' v
    by (rule state.step_update [OF Suc.IH]) simp_all
  show ?case unfolding read_vars.simps(2) [abs_def] by (rule framed_intros u step_rules refl | simp; fail)+
qed (use state.step_ret in \<open>simp add: read_vars.simps(1) [abs_def]\<close>)

section \<open>Programs\<close>

lemma inside_get32: "get32 d = Inr (x, d') \<Longrightarrow> inside (ds_rd d')"
  by (auto simp: get32_def readU32_def readU8_def require_def inside_def split: if_splits)

text \<open>What is read in the state, from the number of the arguments to the statements.\<close>

definition read_program :: "header \<Rightarrow> des \<Rightarrow> des res" where
  "read_program H d =
     bind_res (get32 d) (\<lambda>(n, d). bind_res (read_args (unat n) H d) (\<lambda>d.
     bind_res (get32 d) (\<lambda>(n, d). bind_res (read_vars (unat n) H d) (\<lambda>d.
     bind_res (get32 d) (\<lambda>(n, d). bind_res (repeat_res (unat n) (deserialize_expr H) d) (\<lambda>d.
     bind_res (get32 d) (\<lambda>(n, d). repeat_res (unat n) (deserialize_stmt H) d)))))))"

lemma step_read_program: "state_step xs (read_program H)"
  unfolding read_program_def [abs_def]
  by (rule framed_intros state.step_seq state.step_repeat step_deserialize_expr step_deserialize_stmt state.step_bind)+

definition first_state :: "heap \<Rightarrow> string \<Rightarrow> reader \<Rightarrow> des" where
  "first_state h name r =
     \<lparr>ds_rd = r, ds_heap = h, ds_prog = \<lparr>pr_name = name, pr_args = [], pr_vars = [], pr_body = []\<rparr>,
      ds_exprs = Map.empty, ds_used = {}, ds_stmts = [0 \<mapsto> RProg], ds_later = [], ds_tree = DNode 0 DProg []\<rparr>"

lemma deserialize_eq:
  "deserialize h media =
     bind_res (deserialize_header \<lparr>rd_stream = media, rd_pos = 0\<rparr>) (\<lambda>(H, r).
     bind_res (readU32 r) (\<lambda>(s, r). bind_res (getById (hd_strs H) s) (\<lambda>name.
     bind_res (read_program H (first_state h name r)) (\<lambda>d.
     bind_res (each_res (resolve d) (ds_later d)) (\<lambda>_.
     Inr ((ds_prog d)\<lparr>pr_body := build (resolved d) (ds_tree d)\<rparr>, ds_heap d))))))"
  by (auto simp: deserialize_def read_program_def first_state_def bind_res_def Let_def split: sum.split prod.split)

text \<open>Reading statements goes forward, so a program that has been read ends inside the stream.\<close>

lemma inside_get8: "get8 d = Inr (x, d') \<Longrightarrow> inside (ds_rd d')"
  by (auto simp: get8_def readU8_def require_def inside_def split: if_splits)

lemma inside_get_kid: "get_kid d = Inr (x, d') \<Longrightarrow> inside (ds_rd d')"
  by (auto simp: get_kid_def getExpr_def dest!: inside_get32 split: option.splits if_splits)

lemma inside_get_kids: "get_kids n d = Inr (x, d') \<Longrightarrow> inside (ds_rd d) \<Longrightarrow> inside (ds_rd d')"
  by (induction n arbitrary: d x) (auto dest: inside_get_kid)

lemma add_stmt_reader: "add_stmt pid i sh ref d = Inr d' \<Longrightarrow> ds_rd d' = ds_rd d"
  by (auto simp: add_stmt_def registerStmt_def require_def split: if_splits)

lemma statement_inside: "deserialize_stmt H d = Inr d' \<Longrightarrow> inside (ds_rd d')"
  by (auto simp: deserialize_stmt_def Let_def new_loop_def split: if_splits
    dest!: add_stmt_reader dest: inside_get32 inside_get8 inside_get_kid inside_get_kids)

lemma statements_inside: "repeat_res n (deserialize_stmt H) d = Inr d' \<Longrightarrow> inside (ds_rd d) \<Longrightarrow> inside (ds_rd d')"
  by (induction n arbitrary: d) (auto dest: statement_inside)

lemma read_program_inside: "read_program H d = Inr d' \<Longrightarrow> inside (ds_rd d')"
  by (auto simp: read_program_def dest: statements_inside inside_get32)

text \<open>What follows a program in the stream does not matter.\<close>

lemma deserialize_longer:
  assumes "deserialize h media = Inr (p, h')"
  shows "deserialize h (media @ xs) = Inr (p, h')"
proof -
  let ?r = "\<lparr>rd_stream = media, rd_pos = 0\<rparr>"
  obtain H r1 w r2 name d where
    1: "deserialize_header ?r = Inr (H, r1)" and 2: "readU32 r1 = Inr (w, r2)" and nm: "getById (hd_strs H) w = Inr name"
    and 3: "read_program H (first_state h name r2) = Inr d"
    and 4: "each_res (resolve d) (ds_later d) = Inr ()" "(ds_prog d)\<lparr>pr_body := build (resolved d) (ds_tree d)\<rparr> = p" "ds_heap d = h'"
    using assms by (auto simp: deserialize_eq)
  note a = framedD [OF framed_header [of xs] 1, simplified] and b = framedD [OF framed_readU32 [of xs] 2, simplified]
    and c = framed_stepD [OF step_read_program [of xs] 3]
  have r: "ds_rd (first_state h name r2) = r2" "\<And>r. (first_state h name r2)\<lparr>ds_rd := r\<rparr> = first_state h name r"
    by (simp_all add: first_state_def)
  have "inside (ds_rd d)" using read_program_inside [OF 3] .
  moreover from this have "inside r2" "inside r1" using inside_before c(1) b(1) r by metis+
  ultimately have e: "deserialize_header (longer xs ?r) = Inr (H, longer xs r1)" "readU32 (longer xs r1) = Inr (w, longer xs r2)"
    "read_program H (first_state h name (longer xs r2)) = Inr (d\<lparr>ds_rd := longer xs (ds_rd d)\<rparr>)"
    using a(2) b(2) c(2) r by simp_all
  have l: "\<lparr>rd_stream = media @ xs, rd_pos = 0\<rparr> = longer xs ?r" by (simp add: longer_def)
  have "resolve (d\<lparr>ds_rd := r\<rparr>) = resolve d" "resolved (d\<lparr>ds_rd := r\<rparr>) = resolved d" for r
    by (rule ext, simp add: resolve_def resolved_def getStmt_def)+
  then show ?thesis unfolding deserialize_eq l using e nm 4 by simp
qed

section \<open>Files\<close>

lemma readFile_longer: "\<exists>xs. readFile cs = cs @ xs"
  by (auto simp: readFile_def getlines_concat)

lemma byte_of_char_of_byte: "of_char (char_of_byte b) = (b :: u8)"
proof -
  have "(of_char (char_of_byte b) :: u8) = of_nat (of_char (char_of_byte b))" by (rule of_nat_of_char [symmetric])
  also have "\<dots> = of_nat (unat b)" using unsigned_less [of b, where 'a = nat] by (simp add: char_of_byte_def)
  finally show ?thesis by simp
qed

text \<open>C13. A program survives its file: \<open>main\<close> with \<open>--bytecode --out\<close> writes the bytes of a portable program, and
  \<open>main\<close> on a \<open>.bc\<close> file with these bytes loads a program that differs only in its fresh pointers and in the
  lost ends of range checks, although \<open>readFile\<close> reads lines and may add a newline.\<close>

theorem bytecode_file_roundtrip:
  assumes "portable h p" "endsWith inFile ''.bc''" "fl_bytecode fl" "fl_out fl \<noteq> []"
  shows "\<exists>media q h' fl' fa fv. emit_output fl h p = Inr [Wrote (fl_out fl) (Bytecode_file media)]
     \<and> load_program H inFile (readFile (map char_of_byte media)) h2 = Some (Inr (Some q, h', []))
     \<and> renamed fl' fa fv h (body_lost p) h' q"
proof -
  obtain media q h' fl' fa fv where m: "serialize h p = Inr media" "deserialize h2 media = Inr (q, h')"
    "renamed fl' fa fv h (body_lost p) h' q"
    using bytecode_ends_lost [OF assms(1), of h2] by blast
  obtain xs where "readFile (map char_of_byte media) = map char_of_byte media @ xs" using readFile_longer by blast
  then have "load_program H inFile (readFile (map char_of_byte media)) h2 = Some (Inr (Some q, h', []))"
    using deserialize_longer [OF m(2)] assms(2) by (simp add: load_program_def comp_def byte_of_char_of_byte)
  moreover have "emit_output fl h p = Inr [Wrote (fl_out fl) (Bytecode_file media)]"
    using assms(3,4) m(1) by (simp add: emit_output_def)
  ultimately show ?thesis using m(3) by blast
qed

definition bytecode_flags :: flags where
  "bytecode_flags = \<lparr>fl_dump = False, fl_warn = False, fl_opt = False, fl_tune = False, fl_time = False,
     fl_textual = False, fl_bytecode = True, fl_out = ''f.bc''\<rparr>"

theorem bytecode_file_roundtrip_witness:
  "\<forall>H. \<exists>media q h'. emit_output bytecode_flags (fst demo_loop) (snd demo_loop) = Inr [Wrote ''f.bc'' (Bytecode_file media)]
     \<and> load_program H ''f.bc'' (readFile (map char_of_byte media)) (fst demo_loop) = Some (Inr (Some q, h', []))
     \<and> length (pr_body q) = 1 \<and> pr_name q = ''f''"
proof
  fix H
  have f: "fl_bytecode bytecode_flags" "fl_out bytecode_flags \<noteq> []" "endsWith ''f.bc'' ''.bc''" "fl_out bytecode_flags = ''f.bc''"
    by (simp_all add: bytecode_flags_def endsWith_def)
  show "\<exists>media q h'. emit_output bytecode_flags (fst demo_loop) (snd demo_loop) = Inr [Wrote ''f.bc'' (Bytecode_file media)]
     \<and> load_program H ''f.bc'' (readFile (map char_of_byte media)) (fst demo_loop) = Some (Inr (Some q, h', []))
     \<and> length (pr_body q) = 1 \<and> pr_name q = ''f''"
    using bytecode_file_roundtrip [OF demo_loop_portable f(3,1,2), of H "fst demo_loop"] f(4)
    by (fastforce simp: renamed_def body_lost_def demo_loop_def)
qed

end
