(* ===== verification/LlvmEmitter.thy ===== *)
theory LlvmEmitter
  imports Semantics
begin

text \<open>
  The emission of code, \<open>LLVMEmitter\<close> of \<open>lib/Backends/LLVMBackend/LLVMBackend.cpp\<close>: the calls of the
  builder become instructions in basic blocks, and a machine runs them. Theory Semantics is what a
  program means; theories EmitExprs to EmitProgram show that the emitted code does it. The builder's
  folding of constants, the names of values and the alignment of accesses are not modelled. A
  conversion to a wider float keeps the value. Left out is the \<open>APInt\<close> that \<open>generate\<close> builds of a float constant and
  does not use, although the conversion is undefined for a negative constant. Two arguments of one name,
  which LLVM would rename, share the entry of the last one in \<open>name_args\<close>; the verified programs of the
  results have distinct names.
\<close>

section \<open>Instructions\<close>

type_synonym reg = nat

datatype operand = Reg reg | Const val

datatype irty = TI64 | TF32 | TPtr | TVec irty u32

datatype fpred = OGE | OLT

datatype ipred = SGE | SLT

datatype instr =
    IAlloca reg
  | ILoad reg irty operand
  | IStore operand operand
  | IArith reg bool BinOpKind operand operand
  | IFCmp reg fpred operand operand
  | IICmp reg ipred operand operand
  | IOr reg operand operand
  | ISelect reg operand operand operand
  | IUnary reg UnaryOpKind operand
  | ISplat reg u32 operand
  | IGep reg operand operand
  | IGepByte reg operand operand
  | IBitCast reg operand
  | IFPExt reg operand
  | ICall string "operand list"

datatype terminator = IBr nat | ICondBr operand nat nat | IRet

fun ll_width :: "irty \<Rightarrow> u32" where
  "ll_width (TVec t w) = w"
| "ll_width t = 1"

fun ll_elem :: "irty \<Rightarrow> irty" where
  "ll_elem (TVec t w) = t"
| "ll_elem t = t"

definition is_vec :: "irty \<Rightarrow> bool" where
  "is_vec t = (case t of TVec u w \<Rightarrow> True | _ \<Rightarrow> False)"

definition getLLVMTypeForType :: "ExprType \<Rightarrow> irty res" where
  "getLLVMTypeForType t =
     bind_res
       (case ety_kind t of
          Float32Ty \<Rightarrow> Inr TF32
        | IndexTy \<Rightarrow> Inr TI64
        | PtrTy \<Rightarrow> Inr TPtr
        | _ \<Rightarrow> Inl (AssertFail ''Invalid type'')) (\<lambda>res.
     if isVector t
     then bind_res (require (res \<noteq> TPtr) ''Can't create a vector of pointers'') (\<lambda>_. Inr (TVec res (ety_width t)))
     else Inr res)"

section \<open>The machine\<close>

text \<open>Addresses count floats; a step in bytes has to be a whole number of them. A register holds a value, the address of a stack slot or the bits of a comparison.\<close>

datatype irval = IVal val | ISlot nat | IBits "bool list"

record mach =
  mc_regs :: "reg \<Rightarrow> irval"
  mc_slots :: "nat \<Rightarrow> irval"
  mc_next :: nat
  mc_mem :: memory
  mc_out :: "(string \<times> val list) list"

definition opval :: "mach \<Rightarrow> operand \<Rightarrow> irval" where
  "opval m x = (case x of Reg r \<Rightarrow> mc_regs m r | Const v \<Rightarrow> IVal v)"

definition set_reg :: "reg \<Rightarrow> irval \<Rightarrow> mach \<Rightarrow> mach" where
  "set_reg r v m = m\<lparr>mc_regs := (mc_regs m)(r := v)\<rparr>"

definition load_from :: "mach \<Rightarrow> irty \<Rightarrow> irval \<Rightarrow> irval option" where
  "load_from m ty p =
     (case p of
        ISlot k \<Rightarrow> Some (mc_slots m k)
      | IVal (VPtr a off) \<Rightarrow>
          if ll_elem ty = TF32 then Some (IVal (VFlt (load_lanes (mc_mem m) a off (ll_width ty)))) else None
      | _ \<Rightarrow> None)"

definition store_at :: "irval \<Rightarrow> irval \<Rightarrow> mach \<Rightarrow> mach option" where
  "store_at v p m =
     (case p of
        ISlot k \<Rightarrow> Some (m\<lparr>mc_slots := (mc_slots m)(k := v)\<rparr>)
      | IVal (VPtr a off) \<Rightarrow>
          (case v of
             IVal (VFlt xs) \<Rightarrow> Some (m\<lparr>mc_mem := store_lanes (mc_mem m) a off xs\<rparr>)
           | _ \<Rightarrow> None)
      | _ \<Rightarrow> None)"

text \<open>The arithmetic of floats and of integers; a wrong kind of operand is not a valid instruction.\<close>

definition arith :: "machine \<Rightarrow> bool \<Rightarrow> BinOpKind \<Rightarrow> irval \<Rightarrow> irval \<Rightarrow> irval option" where
  "arith M isFP k x y =
     (case (x, y) of
        (IVal (VFlt xs), IVal (VFlt ys)) \<Rightarrow>
          if isFP \<and> k \<in> {Add, Mul, Sub, Div, Pow} then map_option IVal (eval_bin M k (VFlt xs) (VFlt ys)) else None
      | (IVal (VIdx xs), IVal (VIdx ys)) \<Rightarrow>
          if \<not> isFP \<and> k \<in> {Add, Mul, Sub, Div} then map_option IVal (eval_bin M k (VIdx xs) (VIdx ys)) else None
      | _ \<Rightarrow> None)"

definition fcmp :: "(fpred \<Rightarrow> f32 \<Rightarrow> f32 \<Rightarrow> bool) \<Rightarrow> fpred \<Rightarrow> irval \<Rightarrow> irval \<Rightarrow> irval option" where
  "fcmp C p x y =
     (case (x, y) of
        (IVal (VFlt xs), IVal (VFlt ys)) \<Rightarrow> if length xs = length ys then Some (IBits (map2 (C p) xs ys)) else None
      | _ \<Rightarrow> None)"

definition select_val :: "irval \<Rightarrow> irval \<Rightarrow> irval \<Rightarrow> irval option" where
  "select_val c x y =
     (case (c, x, y) of
        (IBits bs, IVal (VFlt xs), IVal (VFlt ys)) \<Rightarrow>
          if length bs = length xs \<and> length xs = length ys
          then Some (IVal (VFlt (map2 (\<lambda>b (u, v). if b then u else v) bs (zip xs ys)))) else None
      | _ \<Rightarrow> None)"

definition icmp :: "ipred \<Rightarrow> irval \<Rightarrow> irval \<Rightarrow> irval option" where
  "icmp p x y =
     (case (x, y) of
        (IVal (VIdx [a]), IVal (VIdx [b])) \<Rightarrow>
          Some (IBits [case p of SGE \<Rightarrow> sint b \<le> sint a | SLT \<Rightarrow> sint a < sint b])
      | _ \<Rightarrow> None)"

definition or_bits :: "irval \<Rightarrow> irval \<Rightarrow> irval option" where
  "or_bits x y = (case (x, y) of (IBits [a], IBits [b]) \<Rightarrow> Some (IBits [a \<or> b]) | _ \<Rightarrow> None)"

definition gep :: "irval \<Rightarrow> irval \<Rightarrow> irval option" where
  "gep p x = (case (p, x) of (IVal (VPtr a off), IVal (VIdx [i])) \<Rightarrow> Some (IVal (VPtr a (off + i))) | _ \<Rightarrow> None)"

definition gep_byte :: "irval \<Rightarrow> irval \<Rightarrow> irval option" where
  "gep_byte p x =
     (case (p, x) of
        (IVal (VPtr a off), IVal (VIdx [i])) \<Rightarrow> if i mod 4 = 0 then Some (IVal (VPtr a (off + i div 4))) else None
      | _ \<Rightarrow> None)"

definition the_val :: "irval \<Rightarrow> val option" where
  "the_val x = (case x of IVal v \<Rightarrow> Some v | _ \<Rightarrow> None)"

fun exec_instr :: "machine \<Rightarrow> (fpred \<Rightarrow> f32 \<Rightarrow> f32 \<Rightarrow> bool) \<Rightarrow> instr \<Rightarrow> mach \<Rightarrow> mach option" where
  "exec_instr M C (IAlloca r) m = Some (set_reg r (ISlot (mc_next m)) (m\<lparr>mc_next := Suc (mc_next m)\<rparr>))"
| "exec_instr M C (ILoad r ty p) m = map_option (\<lambda>v. set_reg r v m) (load_from m ty (opval m p))"
| "exec_instr M C (IStore x p) m = store_at (opval m x) (opval m p) m"
| "exec_instr M C (IArith r isFP k x y) m = map_option (\<lambda>v. set_reg r v m) (arith M isFP k (opval m x) (opval m y))"
| "exec_instr M C (IFCmp r p x y) m = map_option (\<lambda>v. set_reg r v m) (fcmp C p (opval m x) (opval m y))"
| "exec_instr M C (IICmp r p x y) m = map_option (\<lambda>v. set_reg r v m) (icmp p (opval m x) (opval m y))"
| "exec_instr M C (IOr r x y) m = map_option (\<lambda>v. set_reg r v m) (or_bits (opval m x) (opval m y))"
| "exec_instr M C (ISelect r c x y) m =
     map_option (\<lambda>v. set_reg r v m) (select_val (opval m c) (opval m x) (opval m y))"
| "exec_instr M C (IUnary r k x) m =
     Option.bind (the_val (opval m x)) (\<lambda>v. map_option (\<lambda>v. set_reg r (IVal v) m) (eval_un M k v))"
| "exec_instr M C (ISplat r w x) m =
     Option.bind (the_val (opval m x)) (\<lambda>v. map_option (\<lambda>v. set_reg r (IVal v) m) (splat w v))"
| "exec_instr M C (IGep r p x) m = map_option (\<lambda>v. set_reg r v m) (gep (opval m p) (opval m x))"
| "exec_instr M C (IGepByte r p x) m = map_option (\<lambda>v. set_reg r v m) (gep_byte (opval m p) (opval m x))"
| "exec_instr M C (IBitCast r x) m = Some (set_reg r (opval m x) m)"
| "exec_instr M C (IFPExt r x) m = Some (set_reg r (opval m x) m)"
| "exec_instr M C (ICall name args) m =
     Option.bind (those (map (\<lambda>x. the_val (opval m x)) args)) (\<lambda>vs.
       Some (m\<lparr>mc_mem := m_call M name vs (mc_mem m), mc_out := mc_out m @ [(name, vs)]\<rparr>))"

text \<open>A function is its blocks. A position is a block and the number of the instructions before it.\<close>

record code =
  fn_code :: "nat \<Rightarrow> instr list"
  fn_term :: "nat \<Rightarrow> terminator option"

type_synonym config = "(nat \<times> nat) \<times> mach"

definition ir_step :: "machine \<Rightarrow> (fpred \<Rightarrow> f32 \<Rightarrow> f32 \<Rightarrow> bool) \<Rightarrow> 'x code_scheme \<Rightarrow> config \<Rightarrow> config option" where
  "ir_step M C F = (\<lambda>((b, i), m).
     if i < length (fn_code F b) then map_option (\<lambda>m'. ((b, Suc i), m')) (exec_instr M C (fn_code F b ! i) m)
     else
       (case fn_term F b of
          Some (IBr l) \<Rightarrow> Some ((l, 0), m)
        | Some (ICondBr x l1 l2) \<Rightarrow>
            (case opval m x of IBits [c] \<Rightarrow> Some ((if c then l1 else l2, 0), m) | _ \<Rightarrow> None)
        | _ \<Rightarrow> None))"

fun ir_steps :: "machine \<Rightarrow> (fpred \<Rightarrow> f32 \<Rightarrow> f32 \<Rightarrow> bool) \<Rightarrow> 'x code_scheme \<Rightarrow> nat \<Rightarrow> config \<Rightarrow> config option" where
  "ir_steps M C F 0 c = Some c"
| "ir_steps M C F (Suc n) c = Option.bind (ir_step M C F c) (ir_steps M C F n)"

definition returned :: "'x code_scheme \<Rightarrow> config \<Rightarrow> bool" where
  "returned F c = (case c of ((b, i), m) \<Rightarrow> i = length (fn_code F b) \<and> fn_term F b = Some IRet)"

section \<open>Expressions\<close>

text \<open>What the emitter knows of names and loops, and the builder's next register.\<close>

type_synonym named = "string \<Rightarrow> (operand \<times> irty) option"
type_synonym indices = "loop_ptr \<Rightarrow> operand option"

definition named_at :: "named \<Rightarrow> string \<Rightarrow> (operand \<times> irty) res" where
  "named_at N name = (case N name of None \<Rightarrow> Inl (UB ''null value'') | Some x \<Rightarrow> Inr x)"

definition index_at :: "indices \<Rightarrow> loop_ptr \<Rightarrow> operand res" where
  "index_at X L = (case X L of None \<Rightarrow> Inl (UB ''null value'') | Some x \<Rightarrow> Inr x)"

fun gen_scale :: "operand \<Rightarrow> u32 list \<Rightarrow> reg \<Rightarrow> operand \<times> instr list \<times> reg" where
  "gen_scale x [] r = (x, [], r)"
| "gen_scale x (d # ds) r =
     (case gen_scale (Reg r) ds (Suc r) of
        (y, is, r') \<Rightarrow> (y, IArith r False Mul x (Const (VIdx [i64_of_u32 d])) # is, r'))"

definition gen_bin :: "BinOpKind \<Rightarrow> bool \<Rightarrow> operand \<Rightarrow> operand \<Rightarrow> reg \<Rightarrow> operand \<times> instr list \<times> reg" where
  "gen_bin k isFP x y r =
     (case k of
        BinOpKind.Max \<Rightarrow> (Reg (Suc r), [IFCmp r OGE x y, ISelect (Suc r) (Reg r) x y], r + 2)
      | BinOpKind.Min \<Rightarrow> (Reg (Suc r), [IFCmp r OLT x y, ISelect (Suc r) (Reg r) x y], r + 2)
      | _ \<Rightarrow> (Reg r, [IArith r isFP k x y], Suc r))"

fun generate :: "heap \<Rightarrow> named \<Rightarrow> indices \<Rightarrow> expr \<Rightarrow> reg \<Rightarrow> ((operand \<times> irty) \<times> instr list \<times> reg) res"
  and gen_offset :: "heap \<Rightarrow> named \<Rightarrow> indices \<Rightarrow> operand \<Rightarrow> u32 list \<Rightarrow> expr list \<Rightarrow> reg \<Rightarrow> (operand \<times> instr list \<times> reg) res" where
  "generate h N X (IndexExpr ty L) r =
     bind_res (getLLVMTypeForType ty) (\<lambda>_.
     bind_res (index_at X L) (\<lambda>p. Inr ((Reg r, TI64), [ILoad r TI64 p], Suc r)))"
| "generate h N X (ConstantExpr v) r = Inr ((Const (VIdx [v]), TI64), [], r)"
| "generate h N X (ConstantFPExpr f) r = Inr ((Const (VFlt [canon f]), TF32), [], r)"
| "generate h N X (ConstantStringExpr s) r = Inr ((Const (VStr s), TPtr), [], r)"
| "generate h N X (BinaryExpr k l x) r =
     bind_res (getLLVMTypeForType (getType l)) (\<lambda>_.
     bind_res (generate h N X l r) (\<lambda>((a, ty), is, r).
     bind_res (generate h N X x r) (\<lambda>((b, ty'), js, r).
     case gen_bin k (\<not> ety_isIndexTy (getType l)) a b r of (y, ks, r) \<Rightarrow> Inr ((y, ty), is @ js @ ks, r))))"
| "generate h N X (UnaryExpr k e) r =
     bind_res (getLLVMTypeForType (getType e)) (\<lambda>_.
     bind_res (generate h N X e r) (\<lambda>((a, ty), is, r).
     Inr ((Reg r, ty), is @ [IUnary r k a], Suc r)))"
| "generate h N X (BroadcastExpr e vf) r =
     bind_res (getLLVMTypeForType (getType (BroadcastExpr e vf))) (\<lambda>_.
     bind_res (generate h N X e r) (\<lambda>((a, ty), is, r).
     bind_res (require (\<not> is_vec ty) ''must be a scalar'') (\<lambda>_.
     Inr ((Reg r, TVec ty vf), is @ [ISplat r vf a], Suc r))))"
| "generate h N X (LoadLocalExpr ty v) r =
     bind_res (getLLVMTypeForType ty) (\<lambda>_.
     bind_res (named_at N (var_name (hp_var h v))) (\<lambda>(p, t). Inr ((Reg r, t), [ILoad r t p], Suc r)))"
| "generate h N X (GEPExpr a is) r =
     bind_res (require (length (ty_sizes (arg_type (hp_arg h a))) = length is) ''invalid number of indices'') (\<lambda>_.
     bind_res (gen_offset h N X (Const (VIdx [0])) (ty_sizes (arg_type (hp_arg h a))) is r) (\<lambda>(off, js, r).
     bind_res (named_at N (arg_name (hp_arg h a))) (\<lambda>(p, t). Inr ((Reg r, TPtr), js @ [IGep r p off], Suc r))))"
| "generate h N X (LoadExpr ty g) r =
     bind_res (getLLVMTypeForType ty) (\<lambda>_.
     bind_res (generate h N X g r) (\<lambda>((p, pty), is, r).
     bind_res (case g of GEPExpr a js \<Rightarrow> named_at N (arg_name (hp_arg h a)) | _ \<Rightarrow> Inl (UB ''dynamic_cast<GEPExpr>'')) (\<lambda>(q, t).
     if isVector ty
     then bind_res (require (t \<noteq> TPtr) ''Can't create a vector of pointers'') (\<lambda>_.
          Inr ((Reg (Suc r), TVec t (ety_width ty)),
            is @ [IBitCast r p, ILoad (Suc r) (TVec t (ety_width ty)) (Reg r)], r + 2))
     else Inr ((Reg r, t), is @ [ILoad r t p], Suc r))))"
| "gen_offset h N X off ds [] r = Inr (off, [], r)"
| "gen_offset h N X off ds (e # es) r =
     bind_res (generate h N X e r) (\<lambda>((x, ty), is, r).
     case gen_scale x (tl ds) r of (y, js, r) \<Rightarrow>
     bind_res (gen_offset h N X (Reg r) (tl ds) es (Suc r)) (\<lambda>(z, ks, r').
     Inr (z, is @ js @ IArith r False Add off y # ks, r')))"

section \<open>Statements\<close>

record emitter = code +
  em_named :: named
  em_index :: indices
  em_reg :: reg
  em_blocks :: nat
  em_at :: nat

definition put_code :: "instr list \<Rightarrow> reg \<Rightarrow> emitter \<Rightarrow> emitter" where
  "put_code is r E = E\<lparr>fn_code := (fn_code E)(em_at E := fn_code E (em_at E) @ is), em_reg := r\<rparr>"

definition put_term :: "terminator \<Rightarrow> emitter \<Rightarrow> emitter" where
  "put_term t E = E\<lparr>fn_term := (fn_term E)(em_at E \<mapsto> t)\<rparr>"

definition new_blocks :: "nat \<Rightarrow> emitter \<Rightarrow> emitter" where
  "new_blocks n E = E\<lparr>em_blocks := em_blocks E + n\<rparr>"

definition goto :: "nat \<Rightarrow> emitter \<Rightarrow> emitter" where
  "goto b E = E\<lparr>em_at := b\<rparr>"

definition emit_StoreLocal :: "heap \<Rightarrow> var_ptr \<Rightarrow> expr \<Rightarrow> bool \<Rightarrow> emitter \<Rightarrow> emitter res" where
  "emit_StoreLocal h v x acc E =
     bind_res (named_at (em_named E) (var_name (hp_var h v))) (\<lambda>(p, t).
     bind_res (generate h (em_named E) (em_index E) x (em_reg E)) (\<lambda>((a, ty), is, r).
     Inr (if acc then put_code (is @ [ILoad r t p, IArith (Suc r) True Add (Reg r) a, IStore (Reg (Suc r)) p]) (r + 2) E
          else put_code (is @ [IStore a p]) r E)))"

definition emit_Store :: "heap \<Rightarrow> expr \<Rightarrow> expr \<Rightarrow> bool \<Rightarrow> emitter \<Rightarrow> emitter res" where
  "emit_Store h g x acc E =
     bind_res (generate h (em_named E) (em_index E) g (em_reg E)) (\<lambda>((p, pt), is, r).
     bind_res (generate h (em_named E) (em_index E) x r) (\<lambda>((a, ty), js, r).
     Inr (if acc
          then put_code (is @ js @ [IBitCast r p, ILoad (r + 1) ty (Reg r), IArith (r + 2) True Add (Reg (r + 1)) a,
                 IStore (Reg (r + 2)) (Reg r)]) (r + 3) E
          else put_code (is @ js @ [IBitCast r p, IStore a (Reg r)]) (r + 1) E)))"

text \<open>The parameters of a call; floats are promoted.\<close>

fun gen_params :: "heap \<Rightarrow> named \<Rightarrow> indices \<Rightarrow> expr list \<Rightarrow> reg \<Rightarrow> (operand list \<times> instr list \<times> reg) res" where
  "gen_params h N X [] r = Inr ([], [], r)"
| "gen_params h N X (e # es) r =
     bind_res (generate h N X e r) (\<lambda>((x, ty), is, r).
     case (if ty = TF32 then (Reg r, [IFPExt r x], Suc r) else (x, [], r)) of (y, js, r) \<Rightarrow>
     bind_res (gen_params h N X es r) (\<lambda>(ys, ks, r). Inr (y # ys, is @ js @ ks, r)))"

definition emit_Call :: "heap \<Rightarrow> string \<Rightarrow> expr list \<Rightarrow> emitter \<Rightarrow> emitter res" where
  "emit_Call h name params E =
     bind_res (gen_params h (em_named E) (em_index E) params (em_reg E)) (\<lambda>(xs, is, r).
     Inr (put_code (is @ [ICall name xs]) r E))"

text \<open>The head of a range check: the condition, the two blocks and the branch. The insertion point is then
  the block of the body.\<close>

definition range_head :: "heap \<Rightarrow> expr \<Rightarrow> int \<Rightarrow> int \<Rightarrow> emitter \<Rightarrow> emitter res" where
  "range_head h val lo hi E =
     bind_res (generate h (em_named E) (em_index E) val (em_reg E)) (\<lambda>((x, ty), is, r).
     let inrng = em_blocks E; cont = em_blocks E + 1 in
     Inr (goto inrng (put_term (ICondBr (Reg (r + 2)) inrng cont)
       (put_code (is @ [IICmp r SGE x (Const (VIdx [i64_of_int lo])), IICmp (r + 1) SLT x (Const (VIdx [i64_of_int hi])),
          IOr (r + 2) (Reg r) (Reg (r + 1))]) (r + 3) (new_blocks 2 E)))))"

text \<open>The blocks of a loop up to the start of its body: the counter, the header with the test, and the step.\<close>

definition loop_head :: "heap \<Rightarrow> loop_ptr \<Rightarrow> emitter \<Rightarrow> emitter" where
  "loop_head h L E =
     (let r = em_reg E; header = em_blocks E; body = em_blocks E + 1; nextIter = em_blocks E + 2; exit = em_blocks E + 3;
          E = put_code [IAlloca r, IStore (Const (VIdx [0])) (Reg r)] (r + 1) E;
          E = new_blocks 4 (E\<lparr>em_index := (em_index E)(L \<mapsto> Reg r)\<rparr>);
          E = goto header (put_term (IBr header) E);
          E = put_code [ILoad (r + 1) TI64 (Reg r),
                IICmp (r + 2) SLT (Reg (r + 1)) (Const (VIdx [i64_of_u32 (loop_end h L)]))] (r + 3) E;
          E = goto nextIter (put_term (ICondBr (Reg (r + 2)) body exit) E);
          E = put_code [ILoad (r + 3) TI64 (Reg r),
                IArith (r + 4) False Add (Reg (r + 3)) (Const (VIdx [i64_of_u32 (loop_stride h L)])),
                IStore (Reg (r + 4)) (Reg r)] (r + 5) E
      in goto body (put_term (IBr header) E))"

fun emit :: "heap \<Rightarrow> stmt \<Rightarrow> emitter \<Rightarrow> emitter res"
  and emit_all :: "heap \<Rightarrow> stmt list \<Rightarrow> emitter \<Rightarrow> emitter res" where
  "emit h (Loop L body) E =
     bind_res (emit_all h body (loop_head h L E)) (\<lambda>E'.
     Inr (goto (em_blocks E + 3) (put_term (IBr (em_blocks E + 2)) E')))"
| "emit h (IfRange val lo hi body) E =
     bind_res (range_head h val lo hi E) (\<lambda>E1.
     bind_res (emit_all h body E1) (\<lambda>E'.
     Inr (goto (em_blocks E + 1) (put_term (IBr (em_blocks E + 1)) E'))))"
| "emit h (CallStmt name params) E = emit_Call h name params E"
| "emit h (StoreStmt g x acc) E = emit_Store h g x acc E"
| "emit h (StoreLocalStmt v x acc) E = emit_StoreLocal h v x acc E"
| "emit_all h [] E = Inr E"
| "emit_all h (s # ss) E = bind_res (emit h s E) (emit_all h ss)"

section \<open>Programs\<close>

definition emitPrototype :: "heap \<Rightarrow> program \<Rightarrow> string list res" where
  "emitPrototype h p =
     bind_res (each_res (\<lambda>a. require (ty_elem (arg_type (hp_arg h a)) = Float32Ty) ''Invalid parameter'') (pr_args p)) (\<lambda>_.
     Inr (map (\<lambda>a. arg_name (hp_arg h a)) (pr_args p)))"

text \<open>The parameters are the first registers.\<close>

fun name_args :: "string list \<Rightarrow> reg \<Rightarrow> named \<Rightarrow> named" where
  "name_args [] r N = N"
| "name_args (n # ns) r N = name_args ns (Suc r) (N(n \<mapsto> (Reg r, TF32)))"

fun alloca_vars :: "heap \<Rightarrow> var_ptr list \<Rightarrow> emitter \<Rightarrow> emitter res" where
  "alloca_vars h [] E = Inr E"
| "alloca_vars h (v # vs) E =
     bind_res (getLLVMTypeForType (var_type (hp_var h v))) (\<lambda>ty.
     alloca_vars h vs ((put_code [IAlloca (em_reg E)] (Suc (em_reg E)) E)
       \<lparr>em_named := (em_named E)(var_name (hp_var h v) \<mapsto> (Reg (em_reg E), ty))\<rparr>))"

definition entry_emitter :: "string list \<Rightarrow> emitter" where
  "entry_emitter names =
     \<lparr>fn_code = (\<lambda>b. []), fn_term = (\<lambda>b. None), em_named = name_args names 0 (\<lambda>n. None), em_index = (\<lambda>L. None),
      em_reg = length names, em_blocks = 1, em_at = 0\<rparr>"

definition emit_program :: "heap \<Rightarrow> program \<Rightarrow> emitter res" where
  "emit_program h p =
     bind_res (emitPrototype h p) (\<lambda>names.
     bind_res (alloca_vars h (pr_vars p) (entry_emitter names)) (\<lambda>E.
     bind_res (emit_all h (pr_body p) E) (\<lambda>E.
     Inr (put_term IRet E))))"

text \<open>The machine at the entry of the function: the buffers are in the first registers; the stack holds what
  it held before.\<close>

definition entry_machine :: "program \<Rightarrow> (nat \<Rightarrow> irval) \<Rightarrow> memory \<Rightarrow> (string \<times> val list) list \<Rightarrow> mach" where
  "entry_machine p stack mem out =
     \<lparr>mc_regs = (\<lambda>r. if r < length (pr_args p) then IVal (VPtr (pr_args p ! r) 0) else ISlot 0),
      mc_slots = stack, mc_next = 0, mc_mem = mem, mc_out = out\<rparr>"

end
