(* ===== verification/EmitExprs.thy ===== *)
theory EmitExprs
  imports LlvmEmitter TypeSafety SemFacts
begin

text \<open>
  The code of an expression computes its value. \<open>env_ok\<close> is the match between the state of a
  program and the machine: buffers are in registers, local variables and loop counters in slots of the stack.
\<close>

section \<open>Straight-line code\<close>

abbreviation run_code :: "machine \<Rightarrow> (fpred \<Rightarrow> f32 \<Rightarrow> f32 \<Rightarrow> bool) \<Rightarrow> instr list \<Rightarrow> mach \<Rightarrow> mach option" where
  "run_code M C is m \<equiv> fold_opt (exec_instr M C) is m"

text \<open>Only registers from \<open>r\<close> on have changed.\<close>

definition quiet :: "reg \<Rightarrow> mach \<Rightarrow> mach \<Rightarrow> bool" where
  "quiet r m m' \<longleftrightarrow> (\<forall>q < r. mc_regs m' q = mc_regs m q) \<and> mc_slots m' = mc_slots m \<and> mc_next m' = mc_next m
     \<and> mc_mem m' = mc_mem m \<and> mc_out m' = mc_out m"

lemma quiet_refl [simp]: "quiet r m m"
  by (simp add: quiet_def)

lemma quiet_trans: "quiet r m m' \<Longrightarrow> quiet r' m' m'' \<Longrightarrow> r \<le> r' \<Longrightarrow> quiet r m m''"
  by (auto simp: quiet_def)

lemma quiet_set_reg [simp]: "r \<le> q \<Longrightarrow> quiet r m (set_reg q v m)"
  by (auto simp: quiet_def set_reg_def)

definition op_below :: "reg \<Rightarrow> operand \<Rightarrow> bool" where
  "op_below r x \<longleftrightarrow> (\<forall>q. x = Reg q \<longrightarrow> q < r)"

lemma op_below_simps [simp]: "op_below r (Reg q) \<longleftrightarrow> q < r" "op_below r (Const v)"
  by (auto simp: op_below_def)

lemma op_below_mono: "op_below r x \<Longrightarrow> r \<le> r' \<Longrightarrow> op_below r' x"
  by (auto simp: op_below_def)

lemma opval_quiet: "quiet r m m' \<Longrightarrow> op_below r x \<Longrightarrow> opval m' x = opval m x"
  by (cases x) (simp_all add: quiet_def opval_def)

lemma opval_simps [simp]: "opval m (Const v) = IVal v" "opval (set_reg r w m) (Reg r) = w"
  by (simp_all add: opval_def set_reg_def)

lemma opval_other: "op_below r x \<Longrightarrow> r \<le> q \<Longrightarrow> opval (set_reg q v m) x = opval m x"
  by (rule opval_quiet [of r]) simp_all

lemma run_code_append: "run_code M C (is @ js) m = Option.bind (run_code M C is m) (run_code M C js)"
  by (rule fold_opt_append)

section \<open>The match\<close>

definition env_ok :: "heap \<Rightarrow> arg_ptr list \<Rightarrow> var_ptr list \<Rightarrow> loop_ptr list \<Rightarrow> named \<Rightarrow> indices \<Rightarrow>
    (var_ptr + loop_ptr \<Rightarrow> nat) \<Rightarrow> env \<Rightarrow> state \<Rightarrow> reg \<Rightarrow> mach \<Rightarrow> bool" where
  "env_ok h args vs enc N X \<sigma> \<rho> st r m \<longleftrightarrow>
     mc_mem m = st_mem st \<and> mc_out m = st_out st
     \<and> (\<forall>a \<in> set args. \<exists>q < r. N (arg_name (hp_arg h a)) = Some (Reg q, TF32) \<and> mc_regs m q = IVal (VPtr a 0))
     \<and> (\<forall>v \<in> set vs. \<exists>q < r. \<exists>t. N (var_name (hp_var h v)) = Some (Reg q, t) \<and> getLLVMTypeForType (var_type (hp_var h v)) = Inr t
          \<and> mc_regs m q = ISlot (\<sigma> (Inl v)) \<and> mc_slots m (\<sigma> (Inl v)) = IVal (st_loc st v))
     \<and> (\<forall>L \<in> set enc. \<exists>q < r. X L = Some (Reg q) \<and> mc_regs m q = ISlot (\<sigma> (Inr L)) \<and> mc_slots m (\<sigma> (Inr L)) = IVal (VIdx [\<rho> L]))
     \<and> inj_on \<sigma> (Inl ` set vs \<union> Inr ` set enc) \<and> (\<forall>k \<in> Inl ` set vs \<union> Inr ` set enc. \<sigma> k < mc_next m)"

lemma env_ok_quiet:
  assumes e: "env_ok h args vs enc N X \<sigma> \<rho> st r m" and q: "quiet r m m'" and r: "r \<le> r'"
  shows "env_ok h args vs enc N X \<sigma> \<rho> st r' m'"
proof -
  have regs: "mc_regs m' k = mc_regs m k \<and> k < r'" if "k < r" for k using q r that by (simp add: quiet_def)
  have same: "mc_slots m' = mc_slots m" "mc_next m' = mc_next m" "mc_mem m' = mc_mem m" "mc_out m' = mc_out m"
    using q by (simp_all add: quiet_def)
  from e show ?thesis unfolding env_ok_def same
  proof (elim conjE, intro conjI)
    assume "\<forall>a \<in> set args. \<exists>q < r. N (arg_name (hp_arg h a)) = Some (Reg q, TF32) \<and> mc_regs m q = IVal (VPtr a 0)"
    then show "\<forall>a \<in> set args. \<exists>q < r'. N (arg_name (hp_arg h a)) = Some (Reg q, TF32) \<and> mc_regs m' q = IVal (VPtr a 0)"
      using regs by metis
  next
    assume a: "\<forall>v \<in> set vs. \<exists>q < r. \<exists>t. N (var_name (hp_var h v)) = Some (Reg q, t) \<and> getLLVMTypeForType (var_type (hp_var h v)) = Inr t
          \<and> mc_regs m q = ISlot (\<sigma> (Inl v)) \<and> mc_slots m (\<sigma> (Inl v)) = IVal (st_loc st v)"
    show "\<forall>v \<in> set vs. \<exists>q < r'. \<exists>t. N (var_name (hp_var h v)) = Some (Reg q, t) \<and> getLLVMTypeForType (var_type (hp_var h v)) = Inr t
          \<and> mc_regs m' q = ISlot (\<sigma> (Inl v)) \<and> mc_slots m (\<sigma> (Inl v)) = IVal (st_loc st v)"
    proof
      fix v assume "v \<in> set vs"
      with a obtain q t where "q < r" "N (var_name (hp_var h v)) = Some (Reg q, t) \<and> getLLVMTypeForType (var_type (hp_var h v)) = Inr t
          \<and> mc_regs m q = ISlot (\<sigma> (Inl v)) \<and> mc_slots m (\<sigma> (Inl v)) = IVal (st_loc st v)" by blast
      with regs [of q] show "\<exists>q < r'. \<exists>t. N (var_name (hp_var h v)) = Some (Reg q, t) \<and> getLLVMTypeForType (var_type (hp_var h v)) = Inr t
          \<and> mc_regs m' q = ISlot (\<sigma> (Inl v)) \<and> mc_slots m (\<sigma> (Inl v)) = IVal (st_loc st v)"
        by (intro exI [of _ q]) simp
    qed
  next
    assume "\<forall>L \<in> set enc. \<exists>q < r. X L = Some (Reg q) \<and> mc_regs m q = ISlot (\<sigma> (Inr L)) \<and> mc_slots m (\<sigma> (Inr L)) = IVal (VIdx [\<rho> L])"
    then show "\<forall>L \<in> set enc. \<exists>q < r'. X L = Some (Reg q) \<and> mc_regs m' q = ISlot (\<sigma> (Inr L)) \<and> mc_slots m (\<sigma> (Inr L)) = IVal (VIdx [\<rho> L])"
      using regs by metis
  qed
qed

lemma env_arg:
  assumes "env_ok h args vs enc N X \<sigma> \<rho> st r m" "a \<in> set args"
  obtains q where "q < r" "named_at N (arg_name (hp_arg h a)) = Inr (Reg q, TF32)" "opval m (Reg q) = IVal (VPtr a 0)"
  using assms unfolding env_ok_def named_at_def opval_def by fastforce

lemma env_var:
  assumes "env_ok h args vs enc N X \<sigma> \<rho> st r m" "v \<in> set vs"
  obtains q t where "q < r" "named_at N (var_name (hp_var h v)) = Inr (Reg q, t)"
    "getLLVMTypeForType (var_type (hp_var h v)) = Inr t" "opval m (Reg q) = ISlot (\<sigma> (Inl v))"
    "mc_slots m (\<sigma> (Inl v)) = IVal (st_loc st v)"
  using assms unfolding env_ok_def named_at_def opval_def by fastforce

lemma env_loop:
  assumes "env_ok h args vs enc N X \<sigma> \<rho> st r m" "L \<in> set enc"
  obtains q where "q < r" "index_at X L = Inr (Reg q)" "opval m (Reg q) = ISlot (\<sigma> (Inr L))"
    "mc_slots m (\<sigma> (Inr L)) = IVal (VIdx [\<rho> L])"
  using assms unfolding env_ok_def index_at_def opval_def by fastforce

section \<open>What can be emitted\<close>

text \<open>LLVM has no comparison of integers by a float predicate, and \<open>powi\<close> takes a float.\<close>

fun emits_expr :: "expr \<Rightarrow> bool" where
  "emits_expr (BinaryExpr k l r) =
     (emits_expr l \<and> emits_expr r \<and> (ety_kind (getType l) = IndexTy \<longrightarrow> k \<notin> {BinOpKind.Max, BinOpKind.Min, Pow}))"
| "emits_expr (UnaryExpr k e) = emits_expr e"
| "emits_expr (BroadcastExpr e vf) = (emits_expr e \<and> vf \<noteq> 1)"
| "emits_expr (GEPExpr a is) = list_all emits_expr is"
| "emits_expr (LoadExpr ty g) = emits_expr g"
| "emits_expr e = True"

definition cmp_ok :: "machine \<Rightarrow> (fpred \<Rightarrow> f32 \<Rightarrow> f32 \<Rightarrow> bool) \<Rightarrow> bool" where
  "cmp_ok M C \<longleftrightarrow> (\<forall>x y. m_bin M BinOpKind.Max x y = (if C OGE x y then x else y)
     \<and> m_bin M BinOpKind.Min x y = (if C OLT x y then x else y))"

lemma lltype_index [simp]: "getLLVMTypeForType (scalarTy IndexTy) = Inr TI64"
  and lltype_ptr [simp]: "getLLVMTypeForType (scalarTy PtrTy) = Inr TPtr"
  and lltype_float [simp]: "getLLVMTypeForType (scalarTy Float32Ty) = Inr TF32"
  by (simp_all add: getLLVMTypeForType_def isVector_def scalarTy_def)

lemma lltype_lanes:
  "getLLVMTypeForType t = Inr ty \<Longrightarrow> ety_kind t = Float32Ty \<Longrightarrow> ll_elem ty = TF32 \<and> ll_width ty = ety_width t"
  "getLLVMTypeForType t = Inr ty \<Longrightarrow> is_vec ty \<longleftrightarrow> ety_width t \<noteq> 1"
  by (auto simp: getLLVMTypeForType_def isVector_def is_vec_def split: if_splits ElemKind.splits)

section \<open>Operations\<close>

lemma gen_bin_runs:
  assumes g: "gen_bin k isFP a b r = (y, is, r')" and x: "opval m a = IVal x" "opval m b = IVal z"
    and t: "has_type x t" "has_type z t" "ety_kind t \<noteq> PtrTy" and isFP: "isFP \<longleftrightarrow> ety_kind t \<noteq> IndexTy"
    and k: "ety_kind t = IndexTy \<Longrightarrow> k \<notin> {BinOpKind.Max, BinOpKind.Min, Pow}" and C: "cmp_ok M C"
    and v: "eval_bin M k x z = Some v" and below: "op_below r a" "op_below r b"
  shows "\<exists>m'. run_code M C is m = Some m' \<and> quiet r m m' \<and> opval m' y = IVal v \<and> op_below r' y \<and> r < r'"
  using has_type_lanes [OF t(1,3)]
proof (elim disjE exE conjE)
  fix xs assume i: "x = VIdx xs" "ety_kind t = IndexTy" "length xs = unat (ety_width t)"
  then obtain ys where z: "z = VIdx ys" using has_type_index [OF t(2)] by auto
  from g k [OF i(2)] have "y = Reg r" "is = [IArith r isFP k a b]" "r' = Suc r" by (auto simp: gen_bin_def split: BinOpKind.splits)
  moreover have "arith M isFP k (IVal x) (IVal z) = Some (IVal v)"
    using k [OF i(2)] i z v isFP by (cases k) (auto simp: arith_def)
  ultimately show ?thesis using x by simp
next
  fix xs assume i: "x = VFlt xs" "ety_kind t = Float32Ty" "length xs = unat (ety_width t)"
  then obtain ys where z: "z = VFlt ys" "length ys = length xs" using has_type_float [OF t(2)] by auto
  show ?thesis
  proof (cases "k = BinOpKind.Max \<or> k = BinOpKind.Min")
    case True
    define p where "p = (if k = BinOpKind.Max then OGE else OLT)"
    have g': "y = Reg (Suc r)" "is = [IFCmp r p a b, ISelect (Suc r) (Reg r) a b]" "r' = r + 2"
      using g True by (auto simp: gen_bin_def p_def)
    let ?m = "set_reg r (IBits (map2 (C p) xs ys)) m"
    have "exec_instr M C (IFCmp r p a b) m = Some ?m" using x i z by (simp add: fcmp_def)
    moreover have "opval ?m a = IVal x" "opval ?m b = IVal z" using x below by (simp_all add: opval_other)
    moreover have "select_val (IBits (map2 (C p) xs ys)) (IVal x) (IVal z) = Some (IVal v)"
    proof -
      have "map2 (\<lambda>b (u, v). if b then u else v) (map2 (C p) xs ys) (zip xs ys) = map2 (m_bin M k) xs ys"
        using C True z(2)
        by (intro nth_equalityI) (auto simp: cmp_ok_def p_def)
      then show ?thesis using i z v by (auto simp: select_val_def)
    qed
    ultimately show ?thesis unfolding g' by (auto simp: quiet_def set_reg_def opval_def)
  next
    case False
    then have "y = Reg r" "is = [IArith r isFP k a b]" "r' = Suc r" using g by (cases k; auto simp: gen_bin_def)+
    moreover have "arith M isFP k (IVal x) (IVal z) = Some (IVal v)"
      using False i z v isFP by (cases k) (auto simp: arith_def)
    ultimately show ?thesis using x by simp
  qed
qed

lemma gen_scale_runs:
  "gen_scale x ds r = (y, is, r') \<Longrightarrow> opval m x = IVal (VIdx [i]) \<Longrightarrow> op_below r x \<Longrightarrow>
    \<exists>m'. run_code M C is m = Some m' \<and> quiet r m m' \<and> opval m' y = IVal (VIdx [foldl (\<lambda>v dim. v * i64_of_u32 dim) i ds])
      \<and> op_below r' y \<and> r \<le> r'"
proof (induction ds arbitrary: x r "is" m i)
  case (Cons d ds)
  obtain js where js: "gen_scale (Reg r) ds (Suc r) = (y, js, r')"
    "is = IArith r False Mul x (Const (VIdx [i64_of_u32 d])) # js"
    using Cons.prems(1) by (auto split: prod.splits)
  let ?m = "set_reg r (IVal (VIdx [i * i64_of_u32 d])) m"
  obtain m' where "run_code M C js ?m = Some m'" "quiet (Suc r) ?m m'" "op_below r' y" "Suc r \<le> r'"
    "opval m' y = IVal (VIdx [foldl (\<lambda>v dim. v * i64_of_u32 dim) (i * i64_of_u32 d) ds])"
    using Cons.IH [OF js(1), of ?m "i * i64_of_u32 d"] by auto
  moreover have "quiet r m m'" using quiet_trans [of r m ?m "Suc r" m'] calculation(2) by simp
  ultimately show ?case using Cons.prems(2) js(2) by (simp add: arith_def)
qed auto

end
