(* ===== verification/EmitRuns.thy ===== *)
theory EmitRuns
  imports EmitExprs
begin

definition computes :: "machine \<Rightarrow> (fpred \<Rightarrow> f32 \<Rightarrow> f32 \<Rightarrow> bool) \<Rightarrow> heap \<Rightarrow> named \<Rightarrow> indices \<Rightarrow> state \<Rightarrow> env \<Rightarrow>
    (reg \<Rightarrow> mach \<Rightarrow> bool) \<Rightarrow> expr \<Rightarrow> bool" where
  "computes M C h N X st \<rho> P e \<longleftrightarrow> (\<forall>r m. P r m \<longrightarrow>
     (\<exists>x ty is r' m' v. generate h N X e r = Inr ((x, ty), is, r') \<and> getLLVMTypeForType (getType e) = Inr ty
        \<and> eval M h st \<rho> e = Some v \<and> has_type v (getType e)
        \<and> run_code M C is m = Some m' \<and> quiet r m m' \<and> P r' m' \<and> opval m' x = IVal v \<and> op_below r' x \<and> r \<le> r'))"

lemma computesE:
  assumes "computes M C h N X st \<rho> P e" "P r m"
  obtains x ty "is" r' m' v where "generate h N X e r = Inr ((x, ty), is, r')" "getLLVMTypeForType (getType e) = Inr ty"
    "eval M h st \<rho> e = Some v" "has_type v (getType e)" "run_code M C is m = Some m'" "quiet r m m'" "P r' m'"
    "opval m' x = IVal v" "op_below r' x" "r \<le> r'"
  using assms unfolding computes_def by blast

text \<open>A match that survives quiet code.\<close>

locale quiet_match =
  fixes P :: "reg \<Rightarrow> mach \<Rightarrow> bool"
  assumes keeps: "P r m \<Longrightarrow> quiet r m m' \<Longrightarrow> r \<le> r' \<Longrightarrow> P r' m'"
begin

text \<open>One more instruction, whose result goes to the next register.\<close>

lemma after_set: "P r m \<Longrightarrow> P (Suc r) (set_reg r v m)"
  by (rule keeps [of r m]) simp_all

lemma offset_runs:
  assumes "\<And>e. e \<in> set es \<Longrightarrow> computes M C h N X st \<rho> P e \<and> scalar_index e" "length es = length ds"
  shows "P r m \<Longrightarrow> opval m off = IVal (VIdx [i]) \<Longrightarrow> op_below r off \<Longrightarrow>
    \<exists>z is r' m' xs. gen_offset h N X off ds es r = Inr (z, is, r')
      \<and> those (map (\<lambda>e. Option.bind (eval M h st \<rho> e) scalar_idx) es) = Some xs \<and> length xs = length es
      \<and> run_code M C is m = Some m' \<and> quiet r m m' \<and> P r' m' \<and> opval m' z = IVal (VIdx [gep_offset i ds xs]) \<and> op_below r' z \<and> r \<le> r'"
  using assms
proof (induction es arbitrary: ds off i r m)
  case (Cons e es)
  then obtain d ds' where ds: "ds = d # ds'" by (cases ds) auto
  have "computes M C h N X st \<rho> P e" "scalar_index e" using Cons.prems(4) by auto
  with Cons.prems(1) obtain x ty "is" r1 m1 v where e: "generate h N X e r = Inr ((x, ty), is, r1)" "eval M h st \<rho> e = Some v"
    "has_type v (getType e)" "run_code M C is m = Some m1" "quiet r m m1" "P r1 m1" "opval m1 x = IVal v" "op_below r1 x" "r \<le> r1"
    by (blast elim: computesE)
  obtain a where a: "v = VIdx [a]" using scalar_value [OF e(3) \<open>scalar_index e\<close>] by blast
  obtain y js r2 where s: "gen_scale x ds' r1 = (y, js, r2)" by (metis prod_cases3)
  let ?b = "foldl (\<lambda>v dim. v * i64_of_u32 dim) a ds'"
  obtain m2 where m2: "run_code M C js m1 = Some m2" "quiet r1 m1 m2" "opval m2 y = IVal (VIdx [?b])" "op_below r2 y" "r1 \<le> r2"
    using gen_scale_runs [OF s _ e(8), of m1 a] e(7) a by auto
  have P2: "P r2 m2" using keeps e(6) m2(2,5) by blast
  have off: "opval m2 off = IVal (VIdx [i])"
    using opval_quiet [OF quiet_trans [OF e(5) m2(2) e(9)] Cons.prems(3)] Cons.prems(2) by simp
  let ?m3 = "set_reg r2 (IVal (VIdx [i + ?b])) m2"
  have add: "exec_instr M C (IArith r2 False Add off y) m2 = Some ?m3" using off m2(3) by (simp add: arith_def)
  obtain z ks r4 m4 xs where rest: "gen_offset h N X (Reg r2) ds' es (Suc r2) = Inr (z, ks, r4)"
      "those (map (\<lambda>e. Option.bind (eval M h st \<rho> e) scalar_idx) es) = Some xs" "length xs = length es"
      "run_code M C ks ?m3 = Some m4" "quiet (Suc r2) ?m3 m4" "P r4 m4" "opval m4 z = IVal (VIdx [gep_offset (i + ?b) ds' xs])"
      "op_below r4 z" "Suc r2 \<le> r4"
    using Cons.IH [where r = "Suc r2" and m = ?m3 and off = "Reg r2" and i = "i + ?b" and ds = ds'] after_set [OF P2] Cons.prems(4,5) ds
    by auto
  have "quiet r m m4"
    using quiet_trans [OF quiet_trans [OF e(5) m2(2) e(9)] quiet_trans [of r2 m2 ?m3 "Suc r2" m4]] rest(5) e(9) m2(5) by simp
  then show ?case using e s m2 add rest a ds
    by (simp add: run_code_append del: exec_instr.simps)
qed auto

end

lemma generate_runs:
  assumes "quiet_match P" and "cmp_ok M C"
    and P: "\<And>r m. P r m \<Longrightarrow> env_ok h args vs enc N X \<sigma> \<rho> st r m"
  shows "verify_expr h vs enc e = Inr () \<Longrightarrow> plain_expr e \<Longrightarrow> emits_expr e \<Longrightarrow> args_of_expr e \<subseteq> set args \<Longrightarrow>
    locals_typed h vs st \<Longrightarrow> computes M C h N X st \<rho> P e"
proof (induction e)
  case (IndexExpr ty L)
  then have L: "L \<in> set enc" "ty = scalarTy IndexTy" by simp_all
  show ?case unfolding computes_def
  proof (intro allI impI)
    fix r m assume p: "P r m"
    obtain q where q: "q < r" "index_at X L = Inr (Reg q)" "opval m (Reg q) = ISlot (\<sigma> (Inr L))" "mc_slots m (\<sigma> (Inr L)) = IVal (VIdx [\<rho> L])"
      using env_loop [OF P [OF p] L(1)] by blast
    show "\<exists>x t is r' m' v. generate h N X (IndexExpr ty L) r = Inr ((x, t), is, r') \<and> getLLVMTypeForType (getType (IndexExpr ty L)) = Inr t
        \<and> eval M h st \<rho> (IndexExpr ty L) = Some v \<and> has_type v (getType (IndexExpr ty L))
        \<and> run_code M C is m = Some m' \<and> quiet r m m' \<and> P r' m' \<and> opval m' x = IVal v \<and> op_below r' x \<and> r \<le> r'"
      using q L(2) quiet_match.after_set [OF assms(1) p] by (simp add: load_from_def)
  qed
next
  case (LoadLocalExpr ty v)
  then have v: "v \<in> set vs" "ty = var_type (hp_var h v)" by (auto simp: getVar_in_def find_Some_iff)
  then have "has_type (st_loc st v) ty" using LoadLocalExpr.prems(5) by (simp add: locals_typed_def)
  show ?case unfolding computes_def
  proof (intro allI impI)
    fix r m assume p: "P r m"
    obtain q t where "q < r" "named_at N (var_name (hp_var h v)) = Inr (Reg q, t)"
      "getLLVMTypeForType (var_type (hp_var h v)) = Inr t" "opval m (Reg q) = ISlot (\<sigma> (Inl v))"
      "mc_slots m (\<sigma> (Inl v)) = IVal (st_loc st v)"
      using env_var [OF P [OF p] v(1)] by blast
    then show "\<exists>x t is r' m' w. generate h N X (LoadLocalExpr ty v) r = Inr ((x, t), is, r') \<and> getLLVMTypeForType (getType (LoadLocalExpr ty v)) = Inr t
        \<and> eval M h st \<rho> (LoadLocalExpr ty v) = Some w \<and> has_type w (getType (LoadLocalExpr ty v))
        \<and> run_code M C is m = Some m' \<and> quiet r m m' \<and> P r' m' \<and> opval m' x = IVal w \<and> op_below r' x \<and> r \<le> r'"
      using v(2) \<open>has_type (st_loc st v) ty\<close> quiet_match.after_set [OF assms(1) p] by (simp add: load_from_def)
  qed
next
  case (ConstantExpr w)
  then show ?case by (simp add: computes_def)
next
  case (ConstantFPExpr w)
  then show ?case by (simp add: computes_def)
next
  case (ConstantStringExpr w)
  then show ?case by simp
next
  case (BinaryExpr k l e)
  then have IH: "computes M C h N X st \<rho> P l" "computes M C h N X st \<rho> P e" "getType e = getType l" by auto
  show ?case unfolding computes_def
  proof (intro allI impI)
    fix r m assume p: "P r m"
    obtain x ty "is" r1 m1 v where l: "generate h N X l r = Inr ((x, ty), is, r1)" "getLLVMTypeForType (getType l) = Inr ty"
      "eval M h st \<rho> l = Some v" "has_type v (getType l)" "run_code M C is m = Some m1" "quiet r m m1" "P r1 m1"
      "opval m1 x = IVal v" "op_below r1 x" "r \<le> r1"
      using computesE [OF IH(1) p] .
    obtain y ty' js r2 m2 w where e: "generate h N X e r1 = Inr ((y, ty'), js, r2)"
      "eval M h st \<rho> e = Some w" "has_type w (getType l)" "run_code M C js m1 = Some m2" "quiet r1 m1 m2" "P r2 m2"
      "opval m2 y = IVal w" "op_below r2 y" "r1 \<le> r2"
      using computesE [OF IH(2) l(7)] IH(3) by metis
    have k: "ety_kind (getType l) \<noteq> PtrTy" "ety_kind (getType l) = IndexTy \<Longrightarrow> k \<noteq> BinOpKind.Div"
      "ety_kind (getType l) = IndexTy \<Longrightarrow> k \<notin> {BinOpKind.Max, BinOpKind.Min, Pow}"
      using BinaryExpr.prems by auto
    obtain u where u: "eval_bin M k v w = Some u" "has_type u (getType l)"
      using eval_bin_typed [OF l(4) e(3) k(1,2)] by blast
    obtain z ks r3 where g: "gen_bin k (\<not> ety_isIndexTy (getType l)) x y r2 = (z, ks, r3)" by (metis prod_cases3)
    have x: "opval m2 x = IVal v" "op_below r2 x" using opval_quiet [OF e(5) l(9)] l(8) op_below_mono [OF l(9) e(9)] by simp_all
    obtain m3 where b: "run_code M C ks m2 = Some m3" "quiet r2 m2 m3" "opval m3 z = IVal u" "op_below r3 z" "r2 < r3"
      using gen_bin_runs [OF g x(1) e(7) l(4) e(3) k(1) _ k(3) assms(2) u(1) x(2) e(8)] by (auto simp: ety_isIndexTy_def)
    have "quiet r m m3" using quiet_trans [OF quiet_trans [OF l(6) e(5) l(10)] b(2)] l(10) e(9) by simp
    moreover have "P r3 m3" using quiet_match.keeps [OF assms(1) e(6) b(2)] b(5) by simp
    ultimately show "\<exists>x t is r' m' w. generate h N X (BinaryExpr k l e) r = Inr ((x, t), is, r') \<and> getLLVMTypeForType (getType (BinaryExpr k l e)) = Inr t
        \<and> eval M h st \<rho> (BinaryExpr k l e) = Some w \<and> has_type w (getType (BinaryExpr k l e))
        \<and> run_code M C is m = Some m' \<and> quiet r m m' \<and> P r' m' \<and> opval m' x = IVal w \<and> op_below r' x \<and> r \<le> r'"
      using l e u g b by (simp add: run_code_append)
  qed
next
  case (UnaryExpr k e)
  then have IH: "computes M C h N X st \<rho> P e" "ety_kind (getType e) = Float32Ty" by auto
  show ?case unfolding computes_def
  proof (intro allI impI)
    fix r m assume p: "P r m"
    obtain x ty "is" r1 m1 v where l: "generate h N X e r = Inr ((x, ty), is, r1)" "getLLVMTypeForType (getType e) = Inr ty"
      "eval M h st \<rho> e = Some v" "has_type v (getType e)" "run_code M C is m = Some m1" "quiet r m m1" "P r1 m1"
      "opval m1 x = IVal v" "op_below r1 x" "r \<le> r1"
      using computesE [OF IH(1) p] .
    obtain xs where xs: "v = VFlt xs" "length xs = unat (ety_width (getType e))" using has_type_float [OF l(4) IH(2)] by blast
    have "quiet r m (set_reg r1 w m1)" for w using quiet_trans [OF l(6) quiet_set_reg [of r1 r1]] l(10) by simp
    then show "\<exists>x t is r' m' w. generate h N X (UnaryExpr k e) r = Inr ((x, t), is, r') \<and> getLLVMTypeForType (getType (UnaryExpr k e)) = Inr t
        \<and> eval M h st \<rho> (UnaryExpr k e) = Some w \<and> has_type w (getType (UnaryExpr k e))
        \<and> run_code M C is m = Some m' \<and> quiet r m m' \<and> P r' m' \<and> opval m' x = IVal w \<and> op_below r' x \<and> r \<le> r'"
      using l xs IH(2) quiet_match.after_set [OF assms(1) l(7)] by (simp add: run_code_append the_val_def)
  qed
next
  case (BroadcastExpr e vf)
  then have IH: "computes M C h N X st \<rho> P e" "ety_width (getType e) = 1" "ety_kind (getType e) \<noteq> PtrTy" "vf \<noteq> 1" by auto
  show ?case unfolding computes_def
  proof (intro allI impI)
    fix r m assume p: "P r m"
    obtain x ty "is" r1 m1 v where l: "generate h N X e r = Inr ((x, ty), is, r1)" "getLLVMTypeForType (getType e) = Inr ty"
      "eval M h st \<rho> e = Some v" "has_type v (getType e)" "run_code M C is m = Some m1" "quiet r m m1" "P r1 m1"
      "opval m1 x = IVal v" "op_below r1 x" "r \<le> r1"
      using computesE [OF IH(1) p] .
    obtain w where w: "splat vf v = Some w" "has_type w ((getType e)\<lparr>ety_width := vf\<rparr>)" using splat_typed [OF l(4) IH(3,2)] by blast
    have ty: "\<not> is_vec ty" using lltype_lanes(2) [OF l(2)] IH(2) by simp
    have t: "getLLVMTypeForType (getType (BroadcastExpr e vf)) = Inr (TVec ty vf)"
      using l(2) IH by (auto simp: getLLVMTypeForType_def isVector_def split: if_splits ElemKind.splits)
    have T: "getType (BroadcastExpr e vf) = (getType e)\<lparr>ety_width := vf\<rparr>" by (cases "getType e") simp
    have "quiet r m (set_reg r1 w m1)" for w using quiet_trans [OF l(6) quiet_set_reg [of r1 r1]] l(10) by simp
    then show "\<exists>x t is r' m' w. generate h N X (BroadcastExpr e vf) r = Inr ((x, t), is, r') \<and> getLLVMTypeForType (getType (BroadcastExpr e vf)) = Inr t
        \<and> eval M h st \<rho> (BroadcastExpr e vf) = Some w \<and> has_type w (getType (BroadcastExpr e vf))
        \<and> run_code M C is m = Some m' \<and> quiet r m m' \<and> P r' m' \<and> opval m' x = IVal w \<and> op_below r' x \<and> r \<le> r'"
      using l w ty t quiet_match.after_set [OF assms(1) l(7)]
      by (simp add: run_code_append the_val_def T del: getType.simps)
  qed
next
  case (GEPExpr a "is")
  then have a: "a \<in> set args" "length (ty_sizes (arg_type (hp_arg h a))) = length is" by (auto simp: getNumDims_def)
  have IH: "computes M C h N X st \<rho> P e \<and> scalar_index e" if "e \<in> set is" for e
  proof -
    have "args_of_expr e \<subseteq> set args" using GEPExpr.prems(4) that by auto
    then show ?thesis using GEPExpr that by (auto simp: list_all_iff)
  qed
  show ?case unfolding computes_def
  proof (intro allI impI)
    fix r m assume p: "P r m"
    obtain z js r1 m1 xs where o: "gen_offset h N X (Const (VIdx [0])) (ty_sizes (arg_type (hp_arg h a))) is r = Inr (z, js, r1)"
        "those (map (\<lambda>e. Option.bind (eval M h st \<rho> e) scalar_idx) is) = Some xs" "length xs = length is"
        "run_code M C js m = Some m1" "quiet r m m1" "P r1 m1"
        "opval m1 z = IVal (VIdx [gep_offset 0 (ty_sizes (arg_type (hp_arg h a))) xs])" "op_below r1 z" "r \<le> r1"
      using quiet_match.offset_runs [OF assms(1) IH _ p, of "is" "ty_sizes (arg_type (hp_arg h a))" "Const (VIdx [0])" 0] a(2) by auto
    obtain q where "q < r1" "named_at N (arg_name (hp_arg h a)) = Inr (Reg q, TF32)" "opval m1 (Reg q) = IVal (VPtr a 0)"
      using env_arg [OF P [OF o(6)] a(1)] by blast
    moreover have "quiet r m (set_reg r1 w m1)" for w using quiet_trans [OF o(5) quiet_set_reg [of r1 r1]] o(9) by simp
    ultimately show "\<exists>x t js r' m' w. generate h N X (GEPExpr a is) r = Inr ((x, t), js, r') \<and> getLLVMTypeForType (getType (GEPExpr a is)) = Inr t
        \<and> eval M h st \<rho> (GEPExpr a is) = Some w \<and> has_type w (getType (GEPExpr a is))
        \<and> run_code M C js m = Some m' \<and> quiet r m m' \<and> P r' m' \<and> opval m' x = IVal w \<and> op_below r' x \<and> r \<le> r'"
      using o a quiet_match.after_set [OF assms(1) o(6)] by (simp add: run_code_append gep_def)
  qed
next
  case (LoadExpr ty g)
  then have IH: "computes M C h N X st \<rho> P g" "ety_kind ty = Float32Ty" by auto
  obtain a js where g: "g = GEPExpr a js" using LoadExpr.prems(1) by (cases g) auto
  have a: "a \<in> set args" using LoadExpr.prems(4) g by simp
  show ?case unfolding computes_def
  proof (intro allI impI)
    fix r m assume p: "P r m"
    obtain x pty "is" r1 m1 v where l: "generate h N X g r = Inr ((x, pty), is, r1)"
      "eval M h st \<rho> g = Some v" "has_type v (getType g)" "run_code M C is m = Some m1" "quiet r m m1" "P r1 m1"
      "opval m1 x = IVal v" "op_below r1 x" "r \<le> r1"
      using computesE [OF IH(1) p] by metis
    obtain b off where v: "v = VPtr b off" using l(3) g by (cases v) (auto simp: scalarTy_def)
    obtain q where q: "named_at N (arg_name (hp_arg h a)) = Inr (Reg q, TF32)" using env_arg [OF P [OF p] a] by blast
    then have c: "(case g of GEPExpr a js \<Rightarrow> named_at N (arg_name (hp_arg h a)) | _ \<Rightarrow> Inl (UB ''dynamic_cast<GEPExpr>'')) = Inr (Reg q, TF32)"
      using g by simp
    show "\<exists>x t is r' m' w. generate h N X (LoadExpr ty g) r = Inr ((x, t), is, r') \<and> getLLVMTypeForType (getType (LoadExpr ty g)) = Inr t
        \<and> eval M h st \<rho> (LoadExpr ty g) = Some w \<and> has_type w (getType (LoadExpr ty g))
        \<and> run_code M C is m = Some m' \<and> quiet r m m' \<and> P r' m' \<and> opval m' x = IVal w \<and> op_below r' x \<and> r \<le> r'"
    proof (cases "isVector ty")
      case True
      let ?m2 = "set_reg r1 (IVal v) m1"
      have m2: "quiet r1 m1 ?m2" "P (Suc r1) ?m2" using quiet_match.after_set [OF assms(1) l(6)] by simp_all
      let ?m3 = "\<lambda>w. set_reg (Suc r1) w ?m2"
      have "P (r1 + 2) (?m3 w)" "quiet r m (?m3 w)" for w
        using quiet_match.after_set [OF assms(1) m2(2)] quiet_trans [OF quiet_trans [OF l(5) m2(1) l(9)] quiet_set_reg [of "Suc r1" "Suc r1"]] l(9)
        by simp_all
      moreover have "mc_mem ?m2 = st_mem st" using P [OF m2(2)] by (simp add: env_ok_def)
      ultimately show ?thesis using l v c True IH(2)
        by (simp add: run_code_append load_from_def getLLVMTypeForType_def load_lanes_def)
    next
      case False
      have "quiet r m (set_reg r1 w m1)" for w using quiet_trans [OF l(5) quiet_set_reg [of r1 r1]] l(9) by simp
      moreover have "mc_mem m1 = st_mem st" using P [OF l(6)] by (simp add: env_ok_def)
      ultimately show ?thesis using l v c False IH(2) quiet_match.after_set [OF assms(1) l(6)]
        by (simp add: run_code_append load_from_def getLLVMTypeForType_def load_lanes_def isVector_def)
    qed
  qed
qed

end
