(* ===== verification/EmitStmts.thy ===== *)
theory EmitStmts
  imports EmitRuns
begin

text \<open>
  The code of statements: what emission adds to a function, where a run of it leads, and the match of the run
  with the meaning of the statement.
\<close>

section \<open>What emission adds\<close>

definition wf_em :: "emitter \<Rightarrow> bool" where
  "wf_em E \<longleftrightarrow> em_at E < em_blocks E \<and> fn_term E (em_at E) = None
     \<and> (\<forall>b. em_blocks E \<le> b \<longrightarrow> fn_code E b = [] \<and> fn_term E b = None)"

text \<open>Code is only added to the block of the insertion point, and to new blocks.\<close>

definition builds :: "emitter \<Rightarrow> emitter \<Rightarrow> bool" where
  "builds E E' \<longleftrightarrow> em_blocks E \<le> em_blocks E' \<and> em_reg E \<le> em_reg E' \<and> em_named E' = em_named E
     \<and> (\<forall>b < em_blocks E. b \<noteq> em_at E \<longrightarrow> fn_code E' b = fn_code E b \<and> fn_term E' b = fn_term E b)
     \<and> (\<exists>xs. fn_code E' (em_at E) = fn_code E (em_at E) @ xs)
     \<and> (em_at E' = em_at E \<or> em_blocks E \<le> em_at E')"

lemma builds_refl [simp]: "builds E E"
  by (simp add: builds_def)

lemma builds_trans: "builds E E1 \<Longrightarrow> builds E1 E2 \<Longrightarrow> wf_em E \<Longrightarrow> builds E E2"
  unfolding builds_def wf_em_def by (elim conjE exE) (intro conjI allI impI; fastforce)

definition contains :: "emitter \<Rightarrow> emitter \<Rightarrow> bool" where
  "contains F E \<longleftrightarrow> (\<forall>b < em_blocks E. (\<exists>xs. fn_code F b = fn_code E b @ xs)
     \<and> (\<forall>t. fn_term E b = Some t \<longrightarrow> fn_code F b = fn_code E b \<and> fn_term F b = Some t))"

lemma contains_builds:
  assumes "contains F E'" "builds E E'" "wf_em E"
  shows "contains F E"
  unfolding contains_def
proof (intro allI impI)
  fix b assume b: "b < em_blocks E"
  with assms(2) have b': "b < em_blocks E'" by (simp add: builds_def)
  show "(\<exists>xs. fn_code F b = fn_code E b @ xs) \<and> (\<forall>t. fn_term E b = Some t \<longrightarrow> fn_code F b = fn_code E b \<and> fn_term F b = Some t)"
  proof (cases "b = em_at E")
    case True
    obtain xs ys where "fn_code E' b = fn_code E b @ xs" "fn_code F b = fn_code E' b @ ys"
      using assms(1,2) b' True unfolding builds_def contains_def by blast
    then show ?thesis using assms(3) True by (simp add: wf_em_def)
  next
    case False
    with assms(2) b have "fn_code E' b = fn_code E b" "fn_term E' b = fn_term E b" by (simp_all add: builds_def)
    moreover have "(\<exists>xs. fn_code F b = fn_code E' b @ xs) \<and> (\<forall>t. fn_term E' b = Some t \<longrightarrow> fn_code F b = fn_code E' b \<and> fn_term F b = Some t)"
      using assms(1) b' unfolding contains_def by blast
    ultimately show ?thesis by simp
  qed
qed

section \<open>Runs\<close>

definition point :: "emitter \<Rightarrow> nat \<times> nat" where
  "point E = (em_at E, length (fn_code E (em_at E)))"

definition reaches :: "machine \<Rightarrow> (fpred \<Rightarrow> f32 \<Rightarrow> f32 \<Rightarrow> bool) \<Rightarrow> emitter \<Rightarrow> config \<Rightarrow> config \<Rightarrow> bool" where
  "reaches M C F c c' \<longleftrightarrow> (\<exists>n. ir_steps M C F n c = Some c')"

lemma ir_steps_add: "ir_steps M C F n c = Some d \<Longrightarrow> ir_steps M C F (n + k) c = ir_steps M C F k d"
  by (induction n arbitrary: c) (auto split: Option.bind_splits)

lemma reaches_refl [simp]: "reaches M C F c c"
  unfolding reaches_def by (rule exI [of _ 0]) simp

lemma reaches_trans: "reaches M C F c d \<Longrightarrow> reaches M C F d e \<Longrightarrow> reaches M C F c e"
  unfolding reaches_def by (metis ir_steps_add)

lemma reaches_step: "ir_step M C F c = Some d \<Longrightarrow> reaches M C F d e \<Longrightarrow> reaches M C F c e"
  unfolding reaches_def by (metis bind.bind_lunit ir_steps.simps(2))

lemma code_reaches:
  assumes "run_code M C is m = Some m'" "fn_code F b = pre @ is @ post"
  shows "reaches M C F ((b, length pre), m) ((b, length (pre @ is)), m')"
  using assms
proof (induction "is" arbitrary: pre m)
  case (Cons i "is")
  then obtain m1 where m1: "exec_instr M C i m = Some m1" "run_code M C is m1 = Some m'"
    by (cases "exec_instr M C i m") auto
  have "ir_step M C F ((b, length pre), m) = Some ((b, length (pre @ [i])), m1)"
    using Cons.prems(2) m1(1) by (simp add: ir_step_def nth_append)
  moreover have "reaches M C F ((b, length (pre @ [i])), m1) ((b, length ((pre @ [i]) @ is)), m')"
    using Cons.IH [OF m1(2), of "pre @ [i]"] Cons.prems(2) by simp
  ultimately show ?case using reaches_step by fastforce
qed simp

lemma jump_reaches: "fn_term F b = Some (IBr l) \<Longrightarrow> reaches M C F ((b, length (fn_code F b)), m) ((l, 0), m)"
  by (rule reaches_step [OF _ reaches_refl]) (simp add: ir_step_def)

lemma branch_reaches:
  "fn_term F b = Some (ICondBr x l1 l2) \<Longrightarrow> opval m x = IBits [c] \<Longrightarrow>
     reaches M C F ((b, length (fn_code F b)), m) ((if c then l1 else l2, 0), m)"
  by (rule reaches_step [OF _ reaches_refl]) (simp add: ir_step_def)

lemma put_code_reaches:
  assumes "run_code M C is m = Some m'" "contains F (put_code is r E)" "wf_em E"
  shows "reaches M C F (point E, m) (point (put_code is r E), m')"
proof -
  have "em_at E < em_blocks (put_code is r E)" using assms(3) by (simp add: wf_em_def put_code_def)
  with assms(2) obtain xs where "fn_code F (em_at E) = fn_code E (em_at E) @ is @ xs"
    unfolding contains_def by (auto simp: put_code_def)
  from code_reaches [OF assms(1) this] show ?thesis by (simp add: point_def put_code_def)
qed

lemma put_code_keeps:
  "wf_em E \<Longrightarrow> em_reg E \<le> r \<Longrightarrow> wf_em (put_code is r E) \<and> builds E (put_code is r E)"
  by (auto simp: wf_em_def builds_def put_code_def)

section \<open>The match after a statement\<close>

definition state_at :: "var_ptr list \<Rightarrow> loop_ptr list \<Rightarrow> (var_ptr + loop_ptr \<Rightarrow> nat) \<Rightarrow> env \<Rightarrow> state \<Rightarrow> mach \<Rightarrow> bool" where
  "state_at vs enc \<sigma> \<rho> st m \<longleftrightarrow> mc_mem m = st_mem st \<and> mc_out m = st_out st
     \<and> (\<forall>v \<in> set vs. mc_slots m (\<sigma> (Inl v)) = IVal (st_loc st v))
     \<and> (\<forall>L \<in> set enc. mc_slots m (\<sigma> (Inr L)) = IVal (VIdx [\<rho> L]))"

definition regs_same :: "reg \<Rightarrow> mach \<Rightarrow> mach \<Rightarrow> bool" where
  "regs_same r m m' \<longleftrightarrow> (\<forall>q < r. mc_regs m' q = mc_regs m q)"

lemma regs_same_refl [simp]: "regs_same r m m"
  by (simp add: regs_same_def)

lemma regs_same_trans: "regs_same r m m' \<Longrightarrow> regs_same r' m' m'' \<Longrightarrow> r \<le> r' \<Longrightarrow> regs_same r m m''"
  by (auto simp: regs_same_def)

lemma quiet_regs: "quiet r m m' \<Longrightarrow> regs_same r m m'"
  by (simp add: quiet_def regs_same_def)

lemma env_ok_state: "env_ok h args vs enc N X \<sigma> \<rho> st r m \<Longrightarrow> state_at vs enc \<sigma> \<rho> st m"
  unfolding env_ok_def state_at_def by blast

lemma env_ok_update:
  assumes e: "env_ok h args vs enc N X \<sigma> \<rho> st r m" and s: "state_at vs enc \<sigma> \<rho>' st' m'"
    and r: "regs_same r m m'" and n: "mc_next m \<le> mc_next m'"
  shows "env_ok h args vs enc N X \<sigma> \<rho>' st' r m'"
proof -
  have regs: "q < r \<Longrightarrow> mc_regs m' q = mc_regs m q" for q using r by (simp add: regs_same_def)
  show ?thesis unfolding env_ok_def
  proof (intro conjI ballI)
    fix a assume "a \<in> set args"
    then obtain q where "q < r" "N (arg_name (hp_arg h a)) = Some (Reg q, TF32)" "mc_regs m q = IVal (VPtr a 0)"
      using e unfolding env_ok_def by blast
    then show "\<exists>q < r. N (arg_name (hp_arg h a)) = Some (Reg q, TF32) \<and> mc_regs m' q = IVal (VPtr a 0)"
      using regs by (intro exI [of _ q]) simp
  next
    fix v assume v: "v \<in> set vs"
    then obtain q t where "q < r" "N (var_name (hp_var h v)) = Some (Reg q, t)" "getLLVMTypeForType (var_type (hp_var h v)) = Inr t"
      "mc_regs m q = ISlot (\<sigma> (Inl v))" using e unfolding env_ok_def by blast
    then show "\<exists>q < r. \<exists>t. N (var_name (hp_var h v)) = Some (Reg q, t) \<and> getLLVMTypeForType (var_type (hp_var h v)) = Inr t
          \<and> mc_regs m' q = ISlot (\<sigma> (Inl v)) \<and> mc_slots m' (\<sigma> (Inl v)) = IVal (st_loc st' v)"
      using regs s v by (intro exI [of _ q]) (simp add: state_at_def)
  next
    fix L assume L: "L \<in> set enc"
    obtain q where q: "q < r" "index_at X L = Inr (Reg q)" "opval m (Reg q) = ISlot (\<sigma> (Inr L))"
      using env_loop [OF e L] .
    from q(2,3) have "X L = Some (Reg q)" "mc_regs m q = ISlot (\<sigma> (Inr L))"
      by (simp_all add: index_at_def opval_def split: option.splits)
    with q(1) show "\<exists>q < r. X L = Some (Reg q) \<and> mc_regs m' q = ISlot (\<sigma> (Inr L)) \<and> mc_slots m' (\<sigma> (Inr L)) = IVal (VIdx [\<rho>' L])"
      using regs s L by (intro exI [of _ q]) (simp add: state_at_def)
  next
    fix k assume "k \<in> Inl ` set vs \<union> Inr ` set enc"
    then show "\<sigma> k < mc_next m'" using e n unfolding env_ok_def by (metis order_less_le_trans)
  qed (use e s in \<open>simp_all add: env_ok_def state_at_def\<close>)
qed

lemma env_ok_match: "quiet_match (env_ok h args vs enc N X \<sigma> \<rho> st)"
  by unfold_locales (rule env_ok_quiet)

interpretation env_match: quiet_match "env_ok h args vs enc N X \<sigma> \<rho> st" for h args vs enc N X \<sigma> \<rho> st
  by (rule env_ok_match)

lemma env_ok_keys:
  assumes "env_ok h args vs enc N X \<sigma> \<rho> st r m" "k \<in> Inl ` set vs \<union> Inr ` set enc" "l \<in> Inl ` set vs \<union> Inr ` set enc" "\<sigma> k = \<sigma> l"
  shows "k = l"
  using assms unfolding env_ok_def inj_on_def by blast

end
