(* ===== verification/EmitFacts.thy ===== *)
theory EmitFacts
  imports EmitStmts
begin

text \<open>
  What emission keeps: registers are numbered upwards, the block of the insertion point stays open, and code is
  only added.
\<close>

section \<open>Emission keeps the builder well formed\<close>

lemma gen_bin_regs: "gen_bin k isFP x y r = (z, is, r') \<Longrightarrow> r \<le> r'"
  by (cases k) (auto simp: gen_bin_def)

lemma gen_scale_regs: "gen_scale x ds r = (z, is, r') \<Longrightarrow> r \<le> r'"
proof (induction ds arbitrary: x r "is")
  case (Cons d ds)
  then obtain js where "gen_scale (Reg r) ds (Suc r) = (z, js, r')" by (auto split: prod.split_asm)
  with Cons.IH show ?case by fastforce
qed simp

lemma gen_offset_regs:
  assumes "\<And>e x is r r'. e \<in> set es \<Longrightarrow> generate h N X e r = Inr (x, is, r') \<Longrightarrow> r \<le> r'"
  shows "gen_offset h N X off ds es r = Inr (z, is, r') \<Longrightarrow> r \<le> r'"
  using assms
proof (induction es arbitrary: off ds r "is")
  case (Cons e es)
  from Cons.prems(1) obtain x ty js r1 y ks r2 ls where 1: "generate h N X e r = Inr ((x, ty), js, r1)"
    and 2: "gen_scale x (tl ds) r1 = (y, ks, r2)" and 3: "gen_offset h N X (Reg r2) (tl ds) es (Suc r2) = Inr (z, ls, r')"
    by (auto split: prod.split_asm) (metis prod_cases3)
  have "r \<le> r1" using Cons.prems(2) [OF _ 1] by simp
  moreover have "Suc r2 \<le> r'" using Cons.IH [OF 3] Cons.prems(2) by (meson list.set_intros(2))
  ultimately show ?case using gen_scale_regs [OF 2] by simp
qed simp

lemma generate_regs: "generate h N X e r = Inr (x, is, r') \<Longrightarrow> r \<le> r'"
proof (induction e arbitrary: x r "is" r')
  case (BinaryExpr k l e)
  then obtain a ty js r1 b ty' ks r2 z ls where "generate h N X l r = Inr ((a, ty), js, r1)"
    "generate h N X e r1 = Inr ((b, ty'), ks, r2)" "gen_bin k (\<not> ety_isIndexTy (getType l)) a b r2 = (z, ls, r')"
    by (auto split: prod.split_asm) (metis prod_cases3)
  then show ?case using BinaryExpr.IH gen_bin_regs by (meson le_trans)
next
  case (UnaryExpr k e)
  then show ?case by fastforce
next
  case (BroadcastExpr e vf)
  then show ?case by (fastforce simp del: getType.simps)
next
  case (GEPExpr a es)
  then obtain z js r1 where "gen_offset h N X (Const (VIdx [0])) (ty_sizes (arg_type (hp_arg h a))) es r = Inr (z, js, r1)" "Suc r1 = r'"
    by auto
  then show ?case using gen_offset_regs [OF GEPExpr.IH] by fastforce
next
  case (LoadExpr ty g)
  then obtain y js r1 where "generate h N X g r = Inr (y, js, r1)" "r1 \<le> r'" by (fastforce split: if_splits)
  with LoadExpr.IH show ?case by fastforce
qed auto

lemma gen_params_regs: "gen_params h N X es r = Inr (xs, is, r') \<Longrightarrow> r \<le> r'"
  by (induction es arbitrary: r xs "is") (fastforce split: prod.splits if_splits dest: generate_regs)+

lemma loop_head_simps [simp]:
  "em_at (loop_head h L E) = em_blocks E + 1" "em_blocks (loop_head h L E) = em_blocks E + 4"
  "em_reg (loop_head h L E) = em_reg E + 5" "em_named (loop_head h L E) = em_named E"
  "em_index (loop_head h L E) = (em_index E)(L \<mapsto> Reg (em_reg E))"
  by (simp_all add: loop_head_def Let_def goto_def put_term_def put_code_def new_blocks_def)

lemma loop_head_code:
  assumes "wf_em E"
  shows "fn_code (loop_head h L E) (em_at E) = fn_code E (em_at E) @ [IAlloca (em_reg E), IStore (Const (VIdx [0])) (Reg (em_reg E))]"
    "fn_term (loop_head h L E) (em_at E) = Some (IBr (em_blocks E))"
    "fn_code (loop_head h L E) (em_blocks E) = [ILoad (em_reg E + 1) TI64 (Reg (em_reg E)),
       IICmp (em_reg E + 2) SLT (Reg (em_reg E + 1)) (Const (VIdx [i64_of_u32 (loop_end h L)]))]"
    "fn_term (loop_head h L E) (em_blocks E) = Some (ICondBr (Reg (em_reg E + 2)) (em_blocks E + 1) (em_blocks E + 3))"
    "fn_code (loop_head h L E) (em_blocks E + 2) = [ILoad (em_reg E + 3) TI64 (Reg (em_reg E)),
       IArith (em_reg E + 4) False Add (Reg (em_reg E + 3)) (Const (VIdx [i64_of_u32 (loop_stride h L)])),
       IStore (Reg (em_reg E + 4)) (Reg (em_reg E))]"
    "fn_term (loop_head h L E) (em_blocks E + 2) = Some (IBr (em_blocks E))"
    "fn_code (loop_head h L E) (em_blocks E + 1) = []" "fn_code (loop_head h L E) (em_blocks E + 3) = []"
    "fn_term (loop_head h L E) (em_blocks E + 1) = None" "fn_term (loop_head h L E) (em_blocks E + 3) = None"
    "b \<noteq> em_at E \<Longrightarrow> b < em_blocks E \<or> em_blocks E + 4 \<le> b \<Longrightarrow>
       fn_code (loop_head h L E) b = fn_code E b \<and> fn_term (loop_head h L E) b = fn_term E b"
  using assms
  by (auto simp: loop_head_def Let_def goto_def put_term_def put_code_def new_blocks_def wf_em_def)

lemma loop_head_keeps: "wf_em E \<Longrightarrow> wf_em (loop_head h L E) \<and> builds E (loop_head h L E)"
  using loop_head_code [where E = E and h = h and L = L] by (auto simp: wf_em_def builds_def)

text \<open>Leaving a body: a branch from its last block, and on with another block.\<close>

definition leave :: "nat \<Rightarrow> nat \<Rightarrow> emitter \<Rightarrow> emitter" where
  "leave b c E = goto c (put_term (IBr b) E)"

lemma leave_keeps:
  assumes "builds E E1" "wf_em E1" "wf_em E" "em_blocks E \<le> c" "c < em_blocks E1" "c \<noteq> em_at E1" "fn_term E1 c = None"
    "em_blocks E \<le> em_at E1"
  shows "wf_em (leave b c E1) \<and> builds E (leave b c E1)"
  using assms by (auto simp: wf_em_def builds_def leave_def goto_def put_term_def)

lemma range_head_simps:
  assumes "range_head h val lo hi E = Inr E1"
  obtains x ty "is" r where "generate h (em_named E) (em_index E) val (em_reg E) = Inr ((x, ty), is, r)"
    "em_at E1 = em_blocks E" "em_blocks E1 = em_blocks E + 2" "em_reg E1 = r + 3" "em_named E1 = em_named E" "em_index E1 = em_index E"
    "fn_code E1 = (fn_code E)(em_at E := fn_code E (em_at E) @ is @ [IICmp r SGE x (Const (VIdx [i64_of_int lo])),
       IICmp (r + 1) SLT x (Const (VIdx [i64_of_int hi])), IOr (r + 2) (Reg r) (Reg (r + 1))])"
    "fn_term E1 = (fn_term E)(em_at E \<mapsto> ICondBr (Reg (r + 2)) (em_blocks E) (em_blocks E + 1))"
  using assms by (auto simp: range_head_def Let_def goto_def put_term_def put_code_def new_blocks_def)

lemma range_head_keeps:
  assumes "range_head h val lo hi E = Inr E1" "wf_em E"
  shows "wf_em E1 \<and> builds E E1 \<and> em_index E1 = em_index E"
proof -
  obtain x ty "is" r where g: "generate h (em_named E) (em_index E) val (em_reg E) = Inr ((x, ty), is, r)"
    and e: "em_at E1 = em_blocks E" "em_blocks E1 = em_blocks E + 2" "em_reg E1 = r + 3" "em_named E1 = em_named E" "em_index E1 = em_index E"
    "fn_code E1 = (fn_code E)(em_at E := fn_code E (em_at E) @ is @ [IICmp r SGE x (Const (VIdx [i64_of_int lo])),
       IICmp (r + 1) SLT x (Const (VIdx [i64_of_int hi])), IOr (r + 2) (Reg r) (Reg (r + 1))])"
    "fn_term E1 = (fn_term E)(em_at E \<mapsto> ICondBr (Reg (r + 2)) (em_blocks E) (em_blocks E + 1))"
    by (rule range_head_simps [OF assms(1)])
  from generate_regs [OF g] e assms(2) show ?thesis by (auto simp: wf_em_def builds_def)
qed

definition emitted_ok :: "loop_ptr set \<Rightarrow> emitter \<Rightarrow> emitter \<Rightarrow> bool" where
  "emitted_ok Ls E E' \<longleftrightarrow> wf_em E' \<and> builds E E' \<and> (\<forall>L. L \<notin> Ls \<longrightarrow> em_index E' L = em_index E L)"

lemma emit_all_ok:
  assumes "\<And>s E E'. s \<in> set ss \<Longrightarrow> emit h s E = Inr E' \<Longrightarrow> wf_em E \<Longrightarrow> emitted_ok (loops_in s) E E'"
  shows "emit_all h ss E = Inr E' \<Longrightarrow> wf_em E \<Longrightarrow> emitted_ok (\<Union>s \<in> set ss. loops_in s) E E'"
  using assms
proof (induction ss arbitrary: E)
  case (Cons s ss)
  then obtain E1 where 1: "emit h s E = Inr E1" "emit_all h ss E1 = Inr E'" by auto
  have a: "emitted_ok (loops_in s) E E1" using Cons.prems(2,3) 1(1) by (meson list.set_intros(1))
  then have "emitted_ok (\<Union>s \<in> set ss. loops_in s) E1 E'"
    using Cons.IH [OF 1(2)] Cons.prems(3) unfolding emitted_ok_def by (meson list.set_intros(2))
  with a Cons.prems(2) builds_trans show ?case unfolding emitted_ok_def by simp blast
qed (simp add: emitted_ok_def)

lemma put_code_ok: "wf_em E \<Longrightarrow> em_reg E \<le> r \<Longrightarrow> emitted_ok Ls E (put_code is r E)"
  using put_code_keeps [of E r "is"] by (simp add: emitted_ok_def) (simp add: put_code_def)

lemma emit_ok: "emit h s E = Inr E' \<Longrightarrow> wf_em E \<Longrightarrow> emitted_ok (loops_in s) E E'"
proof (induction s arbitrary: E E')
  case (Loop L body)
  let ?E1 = "loop_head h L E"
  from Loop.prems(1) obtain E2 where 2: "emit_all h body ?E1 = Inr E2" and E': "E' = leave (em_blocks E + 2) (em_blocks E + 3) E2"
    by (auto simp: leave_def)
  note h = loop_head_keeps [OF Loop.prems(2), of h L]
  have b: "emitted_ok (\<Union>s \<in> set body. loops_in s) ?E1 E2" using emit_all_ok [OF Loop.IH 2] h by blast
  then have g: "builds ?E1 E2" "wf_em E2" by (simp_all add: emitted_ok_def)
  have "em_at E2 = em_blocks E + 1 \<or> em_blocks E + 4 \<le> em_at E2" "em_blocks E + 4 \<le> em_blocks E2"
    "fn_term E2 (em_blocks E + 3) = None"
    using g(1) loop_head_code(10) [OF Loop.prems(2)] by (auto simp: builds_def)
  then have "wf_em E' \<and> builds E E'"
    unfolding E' using leave_keeps [OF builds_trans [OF _ g(1)] g(2) Loop.prems(2), of "em_blocks E + 3"] h Loop.prems(2) by auto
  moreover have "em_index E' L' = em_index E L'" if "L' \<notin> loops_in (Loop L body)" for L'
    using b that by (simp add: emitted_ok_def E' leave_def goto_def put_term_def)
  ultimately show ?case by (simp add: emitted_ok_def)
next
  case (IfRange val lo hi body)
  from IfRange.prems(1) obtain E1 E2 where 1: "range_head h val lo hi E = Inr E1" and 2: "emit_all h body E1 = Inr E2"
    and E': "E' = leave (em_blocks E + 1) (em_blocks E + 1) E2"
    by (auto simp: leave_def)
  obtain r where e: "em_at E1 = em_blocks E" "em_blocks E1 = em_blocks E + 2" "fn_term E1 = (fn_term E)(em_at E \<mapsto> r)"
    by (rule range_head_simps [OF 1])
  note h = range_head_keeps [OF 1 IfRange.prems(2)]
  have b: "emitted_ok (\<Union>s \<in> set body. loops_in s) E1 E2" using emit_all_ok [OF IfRange.IH 2] h by blast
  then have g: "builds E1 E2" "wf_em E2" by (simp_all add: emitted_ok_def)
  have "em_at E2 = em_blocks E \<or> em_blocks E + 2 \<le> em_at E2" "em_blocks E + 2 \<le> em_blocks E2"
    "fn_term E2 (em_blocks E + 1) = None"
    using g(1) e IfRange.prems(2) by (auto simp: builds_def wf_em_def)
  then have "wf_em E' \<and> builds E E'"
    unfolding E' using leave_keeps [OF builds_trans [OF _ g(1)] g(2) IfRange.prems(2), of "em_blocks E + 1"] h IfRange.prems(2) by auto
  moreover have "em_index E' L' = em_index E L'" if "L' \<notin> loops_in (IfRange val lo hi body)" for L'
    using b that h by (simp add: emitted_ok_def E' leave_def goto_def put_term_def)
  ultimately show ?case by (simp add: emitted_ok_def)
next
  case (CallStmt name params)
  then show ?case by (auto simp: emit_Call_def intro!: put_code_ok dest: gen_params_regs)
next
  case (StoreStmt g x acc)
  then show ?case by (fastforce simp: emit_Store_def intro!: put_code_ok dest: generate_regs split: if_splits)
next
  case (StoreLocalStmt v x acc)
  then show ?case by (fastforce simp: emit_StoreLocal_def intro!: put_code_ok dest: generate_regs split: if_splits)
qed

end
