(* ===== verification/EmitSim.thy ===== *)
theory EmitSim
  imports EmitFacts
begin

text \<open>
  The simulation: the code of a statement, in any function that contains it, leads from its first position to
  the position after it and does what the statement means.
\<close>

section \<open>The statement of the simulation\<close>

definition follows :: "var_ptr list \<Rightarrow> loop_ptr list \<Rightarrow> (var_ptr + loop_ptr \<Rightarrow> nat) \<Rightarrow> env \<Rightarrow> reg \<Rightarrow> state \<Rightarrow> mach \<Rightarrow> mach \<Rightarrow> bool" where
  "follows vs enc \<sigma> \<rho> r st m m' \<longleftrightarrow> state_at vs enc \<sigma> \<rho> st m' \<and> regs_same r m m' \<and> mc_next m \<le> mc_next m'"

definition leads :: "machine \<Rightarrow> (fpred \<Rightarrow> f32 \<Rightarrow> f32 \<Rightarrow> bool) \<Rightarrow> var_ptr list \<Rightarrow> loop_ptr list \<Rightarrow>
    (var_ptr + loop_ptr \<Rightarrow> nat) \<Rightarrow> env \<Rightarrow> emitter \<Rightarrow> emitter \<Rightarrow> state \<Rightarrow> mach \<Rightarrow> bool" where
  "leads M C vs enc \<sigma> \<rho> E E' st m \<longleftrightarrow> (\<forall>F. contains F E' \<longrightarrow>
     (\<exists>m'. reaches M C F (point E, m) (point E', m') \<and> follows vs enc \<sigma> \<rho> (em_reg E) st m m'))"

definition simulates :: "machine \<Rightarrow> (fpred \<Rightarrow> f32 \<Rightarrow> f32 \<Rightarrow> bool) \<Rightarrow> heap \<Rightarrow> arg_ptr list \<Rightarrow> var_ptr list \<Rightarrow> loop_ptr list \<Rightarrow>
    (emitter \<Rightarrow> emitter res) \<Rightarrow> (env \<Rightarrow> state \<Rightarrow> state option) \<Rightarrow> bool" where
  "simulates M C h args vs enc f g \<longleftrightarrow> (\<forall>E \<sigma> \<rho> st m.
     wf_em E \<longrightarrow> env_ok h args vs enc (em_named E) (em_index E) \<sigma> \<rho> st (em_reg E) m \<longrightarrow> locals_typed h vs st \<longrightarrow>
     (\<exists>E' st'. f E = Inr E' \<and> g \<rho> st = Some st' \<and> locals_typed h vs st' \<and> leads M C vs enc \<sigma> \<rho> E E' st' m))"

lemma simulatesI:
  assumes "\<And>E \<sigma> \<rho> st m. wf_em E \<Longrightarrow> env_ok h args vs enc (em_named E) (em_index E) \<sigma> \<rho> st (em_reg E) m \<Longrightarrow> locals_typed h vs st \<Longrightarrow>
     \<exists>E' st'. f E = Inr E' \<and> g \<rho> st = Some st' \<and> locals_typed h vs st' \<and> leads M C vs enc \<sigma> \<rho> E E' st' m"
  shows "simulates M C h args vs enc f g"
  using assms unfolding simulates_def by blast

lemma simulatesE:
  assumes "simulates M C h args vs enc f g" "wf_em E" "env_ok h args vs enc (em_named E) (em_index E) \<sigma> \<rho> st (em_reg E) m"
    "locals_typed h vs st"
  obtains E' st' where "f E = Inr E'" "g \<rho> st = Some st'" "locals_typed h vs st'" "leads M C vs enc \<sigma> \<rho> E E' st' m"
  using assms unfolding simulates_def by blast

lemma leadsE:
  assumes "leads M C vs enc \<sigma> \<rho> E E' st m" "contains F E'"
  obtains m' where "reaches M C F (point E, m) (point E', m')" "follows vs enc \<sigma> \<rho> (em_reg E) st m m'"
  using assms unfolding leads_def by blast

lemma contains_refl [simp]: "contains E E"
  by (simp add: contains_def)

lemma follows_trans: "follows vs enc \<sigma> \<rho> r st1 m m1 \<Longrightarrow> follows vs enc \<sigma> \<rho>' r' st2 m1 m2 \<Longrightarrow> r \<le> r' \<Longrightarrow> follows vs enc \<sigma> \<rho>' r st2 m m2"
  unfolding follows_def using regs_same_trans le_trans by blast

lemma follows_env: "env_ok h args vs enc N X \<sigma> \<rho> st r m \<Longrightarrow> follows vs enc \<sigma> \<rho>' r st' m m' \<Longrightarrow> env_ok h args vs enc N X \<sigma> \<rho>' st' r m'"
  unfolding follows_def using env_ok_update by blast

lemma env_builds:
  assumes "env_ok h args vs enc (em_named E) (em_index E) \<sigma> \<rho> st (em_reg E) m" "builds E E'"
    "\<And>L. L \<in> set enc \<Longrightarrow> em_index E' L = em_index E L"
  shows "env_ok h args vs enc (em_named E') (em_index E') \<sigma> \<rho> st (em_reg E') m"
proof -
  have "env_ok h args vs enc (em_named E) (em_index E') \<sigma> \<rho> st (em_reg E) m"
    using assms(1,3) unfolding env_ok_def by simp
  then show ?thesis using assms(2) env_ok_quiet [OF _ quiet_refl] by (simp add: builds_def)
qed

lemma code_leads:
  assumes "wf_em E" "run_code M C is m = Some m'" "state_at vs enc \<sigma> \<rho> st m'" "regs_same (em_reg E) m m'" "mc_next m \<le> mc_next m'"
  shows "leads M C vs enc \<sigma> \<rho> E (put_code is r E) st m"
  unfolding leads_def follows_def using put_code_reaches [OF assms(2) _ assms(1)] assms(3-5) by blast

lemma leads_trans:
  assumes "leads M C vs enc \<sigma> \<rho> E E1 st1 m" "\<And>m1. follows vs enc \<sigma> \<rho> (em_reg E) st1 m m1 \<Longrightarrow> leads M C vs enc \<sigma> \<rho>' E1 E2 st2 m1"
    and "builds E E1" "builds E1 E2" "wf_em E1"
  shows "leads M C vs enc \<sigma> \<rho>' E E2 st2 m"
  unfolding leads_def
proof (intro allI impI)
  fix F assume F: "contains F E2"
  then obtain m1 where 1: "reaches M C F (point E, m) (point E1, m1)" "follows vs enc \<sigma> \<rho> (em_reg E) st1 m m1"
    using leadsE [OF assms(1)] contains_builds assms(4,5) by blast
  obtain m2 where 2: "reaches M C F (point E1, m1) (point E2, m2)" "follows vs enc \<sigma> \<rho>' (em_reg E1) st2 m1 m2"
    using leadsE [OF assms(2) [OF 1(2)] F] by blast
  have "em_reg E \<le> em_reg E1" using assms(3) by (simp add: builds_def)
  with 1 2 show "\<exists>m'. reaches M C F (point E, m) (point E2, m') \<and> follows vs enc \<sigma> \<rho>' (em_reg E) st2 m m'"
    using reaches_trans follows_trans by blast
qed

text \<open>Statements in sequence.\<close>

lemma simulates_Nil: "simulates M C h args vs enc (emit_all h []) (\<lambda>\<rho>. fold_opt (exec M h \<rho>) [])"
  by (rule simulatesI) (auto simp: leads_def follows_def dest: env_ok_state intro: reaches_refl)

lemma simulates_Cons:
  assumes s: "simulates M C h args vs enc (emit h s) (\<lambda>\<rho>. exec M h \<rho> s)"
    and ss: "simulates M C h args vs enc (emit_all h ss) (\<lambda>\<rho>. fold_opt (exec M h \<rho>) ss)"
    and fresh: "loops_in s \<inter> set enc = {}"
  shows "simulates M C h args vs enc (emit_all h (s # ss)) (\<lambda>\<rho>. fold_opt (exec M h \<rho>) (s # ss))"
proof (rule simulatesI)
  fix E \<sigma> \<rho> st m
  assume E: "wf_em E" "env_ok h args vs enc (em_named E) (em_index E) \<sigma> \<rho> st (em_reg E) m" "locals_typed h vs st"
  obtain E1 st1 where 1: "emit h s E = Inr E1" "exec M h \<rho> s st = Some st1" "locals_typed h vs st1"
    and l1: "leads M C vs enc \<sigma> \<rho> E E1 st1 m"
    by (rule simulatesE [OF s E])
  have k: "wf_em E1" "builds E E1" "\<And>L. L \<in> set enc \<Longrightarrow> em_index E1 L = em_index E L"
    using emit_ok [OF 1(1) E(1)] fresh unfolding emitted_ok_def by blast+
  have env: "env_ok h args vs enc (em_named E1) (em_index E1) \<sigma> \<rho> st1 (em_reg E1) m1"
    if "follows vs enc \<sigma> \<rho> (em_reg E) st1 m m1" for m1
    by (rule env_builds [OF follows_env [OF E(2) that] k(2,3)])
  obtain m0 where "follows vs enc \<sigma> \<rho> (em_reg E) st1 m m0" using leadsE [OF l1 contains_refl] .
  from simulatesE [OF ss k(1) env [OF this] 1(3)] obtain E2 st2
    where 2: "emit_all h ss E1 = Inr E2" "fold_opt (exec M h \<rho>) ss st1 = Some st2" "locals_typed h vs st2" .
  have l2: "leads M C vs enc \<sigma> \<rho> E1 E2 st2 m1" if "follows vs enc \<sigma> \<rho> (em_reg E) st1 m m1" for m1
    using simulatesE [OF ss k(1) env [OF that] 1(3)] 2 by fastforce
  have "builds E1 E2" using emit_all_ok [OF emit_ok 2(1) k(1)] by (simp add: emitted_ok_def)
  with leads_trans [OF l1 l2 k(2) _ k(1)] 1 2
  show "\<exists>E' st'. emit_all h (s # ss) E = Inr E' \<and> fold_opt (exec M h \<rho>) (s # ss) st = Some st' \<and> locals_typed h vs st'
      \<and> leads M C vs enc \<sigma> \<rho> E E' st' m" by simp
qed

lemma simulates_all:
  assumes "\<And>s. s \<in> set ss \<Longrightarrow> simulates M C h args vs enc (emit h s) (\<lambda>\<rho>. exec M h \<rho> s) \<and> loops_in s \<inter> set enc = {}"
  shows "simulates M C h args vs enc (emit_all h ss) (\<lambda>\<rho>. fold_opt (exec M h \<rho>) ss)"
  using assms by (induction ss) (simp_all only: simulates_Nil simulates_Cons list.set_intros)

section \<open>Simple statements\<close>

fun emits_stmt :: "arg_ptr list \<Rightarrow> stmt \<Rightarrow> bool" where
  "emits_stmt args (Loop L body) = list_all (emits_stmt args) body"
| "emits_stmt args (IfRange e lo hi body) = (emits_expr e \<and> args_of_expr e \<subseteq> set args \<and> list_all (emits_stmt args) body)"
| "emits_stmt args (CallStmt name params) = list_all (\<lambda>e. emits_expr e \<and> args_of_expr e \<subseteq> set args) params"
| "emits_stmt args (StoreStmt g e acc) = (emits_expr g \<and> emits_expr e \<and> args_of_expr g \<subseteq> set args \<and> args_of_expr e \<subseteq> set args)"
| "emits_stmt args (StoreLocalStmt v e acc) = (emits_expr e \<and> args_of_expr e \<subseteq> set args)"

lemma expr_computes:
  assumes "verify_expr h vs enc e = Inr ()" "plain_expr e" "emits_expr e" "args_of_expr e \<subseteq> set args" "locals_typed h vs st" "cmp_ok M C"
  shows "computes M C h N X st \<rho> (env_ok h args vs enc N X \<sigma> \<rho> st) e"
  by (rule generate_runs [OF env_ok_match assms(6) _ assms(1-5)])

lemma state_at_loc:
  assumes "env_ok h args vs enc N X \<sigma> \<rho> st r m" "v \<in> set vs" "state_at vs enc \<sigma> \<rho> st m'" "mc_slots m'' = (mc_slots m')(\<sigma> (Inl v) := IVal z)"
    "mc_mem m'' = mc_mem m'" "mc_out m'' = mc_out m'"
  shows "state_at vs enc \<sigma> \<rho> (st\<lparr>st_loc := (st_loc st)(v := z)\<rparr>) m''"
proof -
  have "\<sigma> (Inl w) = \<sigma> (Inl v) \<longleftrightarrow> w = v" if "w \<in> set vs" for w
    using env_ok_keys [OF assms(1), of "Inl w" "Inl v"] that assms(2) by auto
  moreover have "\<sigma> (Inr L) \<noteq> \<sigma> (Inl v)" if "L \<in> set enc" for L
    using env_ok_keys [OF assms(1), of "Inr L" "Inl v"] that assms(2) by auto
  ultimately show ?thesis using assms(3-6) unfolding state_at_def by simp
qed

lemma StoreLocal_simulates:
  assumes v: "verify_stmt h vs enc (StoreLocalStmt v e acc) = Inr ()" and p: "plain_stmt (StoreLocalStmt v e acc)"
    and x: "emits_stmt args (StoreLocalStmt v e acc)" and C: "cmp_ok M C"
  shows "simulates M C h args vs enc (emit h (StoreLocalStmt v e acc)) (\<lambda>\<rho>. exec M h \<rho> (StoreLocalStmt v e acc))"
proof (rule simulatesI)
  fix E \<sigma> \<rho> st m
  assume E: "wf_em E" "env_ok h args vs enc (em_named E) (em_index E) \<sigma> \<rho> st (em_reg E) m" "locals_typed h vs st"
  obtain st' where st': "exec M h \<rho> (StoreLocalStmt v e acc) st = Some st'" "locals_typed h vs st'"
    using exec_typed [OF v p E(3)] by blast
  have e: "verify_expr h vs enc e = Inr ()" "plain_expr e" "emits_expr e" "args_of_expr e \<subseteq> set args" "v \<in> set vs"
    "getType e = var_type (hp_var h v)" "acc \<Longrightarrow> ety_kind (getType e) = Float32Ty"
    using v p x by (auto simp: getVar_in_def find_Some_iff)
  obtain a ty "is" r1 m1 y where g: "generate h (em_named E) (em_index E) e (em_reg E) = Inr ((a, ty), is, r1)"
    "eval M h st \<rho> e = Some y" "has_type y (getType e)" "run_code M C is m = Some m1" "quiet (em_reg E) m m1"
    "env_ok h args vs enc (em_named E) (em_index E) \<sigma> \<rho> st r1 m1" "opval m1 a = IVal y" "op_below r1 a" "em_reg E \<le> r1"
    using computesE [OF expr_computes [OF e(1-4) E(3) C] E(2)] .
  obtain q t where q: "q < r1" "named_at (em_named E) (var_name (hp_var h v)) = Inr (Reg q, t)"
    "getLLVMTypeForType (var_type (hp_var h v)) = Inr t" "opval m1 (Reg q) = ISlot (\<sigma> (Inl v))"
    "mc_slots m1 (\<sigma> (Inl v)) = IVal (st_loc st v)"
    using env_var [OF g(6) e(5)] .
  obtain z where z: "accumulate_val M acc (st_loc st v) y = Some z" "st' = st\<lparr>st_loc := (st_loc st)(v := z)\<rparr>"
    using st' g(2) by (auto split: Option.bind_splits)
  note at = state_at_loc [OF g(6) e(5) env_ok_state [OF g(6)]]
  show "\<exists>E' st'. emit h (StoreLocalStmt v e acc) E = Inr E' \<and> exec M h \<rho> (StoreLocalStmt v e acc) st = Some st' \<and> locals_typed h vs st'
      \<and> leads M C vs enc \<sigma> \<rho> E E' st' m"
  proof (cases acc)
    case False
    let ?m = "m1\<lparr>mc_slots := (mc_slots m1)(\<sigma> (Inl v) := IVal y)\<rparr>"
    have "run_code M C (is @ [IStore a (Reg q)]) m = Some ?m"
      using g q by (simp add: run_code_append store_at_def)
    from code_leads [OF E(1) this, of vs enc \<sigma> \<rho> st' r1] z at [of ?m y] False g(5)
    show ?thesis using st' g q False by (simp add: emit_StoreLocal_def quiet_def regs_same_def)
  next
    case True
    obtain ys where ys: "y = VFlt ys" "length ys = unat (ety_width (getType e))" using has_type_float [OF g(3) e(7) [OF True]] by blast
    obtain xs where xs: "st_loc st v = VFlt xs" "length xs = unat (ety_width (getType e))"
      using E(3) e(5,6,7) True has_type_float [of "st_loc st v" "getType e"] by (auto simp: locals_typed_def)
    let ?m2 = "set_reg r1 (IVal (VFlt xs)) m1"
    let ?m3 = "set_reg (Suc r1) (IVal z) ?m2"
    let ?m = "?m3\<lparr>mc_slots := (mc_slots m1)(\<sigma> (Inl v) := IVal z)\<rparr>"
    have o: "opval ?m2 a = IVal y" "opval ?m3 (Reg q) = ISlot (\<sigma> (Inl v))"
      using opval_other [OF g(8), of r1] g(7) q(1,4) by (simp_all add: opval_def set_reg_def)
    have "exec_instr M C (ILoad r1 t (Reg q)) m1 = Some ?m2" using q xs by (simp add: load_from_def)
    moreover have "exec_instr M C (IArith (Suc r1) True Add (Reg r1) a) ?m2 = Some ?m3"
      using o xs ys z(1) True by (simp add: arith_def)
    moreover have "exec_instr M C (IStore (Reg (Suc r1)) (Reg q)) ?m3 = Some ?m"
      using o by (simp add: store_at_def) (simp add: set_reg_def)
    ultimately have "run_code M C (is @ [ILoad r1 t (Reg q), IArith (Suc r1) True Add (Reg r1) a, IStore (Reg (Suc r1)) (Reg q)]) m = Some ?m"
      using g(4) by (simp add: run_code_append del: exec_instr.simps)
    from code_leads [OF E(1) this, of vs enc \<sigma> \<rho> st' "r1 + 2"] z at [of ?m z] g(5,9)
    show ?thesis using st' g q True by (simp add: emit_StoreLocal_def quiet_def regs_same_def set_reg_def)
  qed
qed

lemma Store_simulates:
  assumes v: "verify_stmt h vs enc (StoreStmt g e acc) = Inr ()" and p: "plain_stmt (StoreStmt g e acc)"
    and x: "emits_stmt args (StoreStmt g e acc)" and C: "cmp_ok M C"
  shows "simulates M C h args vs enc (emit h (StoreStmt g e acc)) (\<lambda>\<rho>. exec M h \<rho> (StoreStmt g e acc))"
proof (rule simulatesI)
  fix E \<sigma> \<rho> st m
  assume E: "wf_em E" "env_ok h args vs enc (em_named E) (em_index E) \<sigma> \<rho> st (em_reg E) m" "locals_typed h vs st"
  obtain st' where st': "exec M h \<rho> (StoreStmt g e acc) st = Some st'" "locals_typed h vs st'"
    using exec_typed [OF v p E(3)] by blast
  have e: "verify_expr h vs enc g = Inr ()" "plain_expr g" "emits_expr g" "args_of_expr g \<subseteq> set args"
    "verify_expr h vs enc e = Inr ()" "plain_expr e" "emits_expr e" "args_of_expr e \<subseteq> set args" "ety_kind (getType e) = Float32Ty" "is_GEP g"
    using v p x by auto
  obtain b tb "is" r1 m1 u where g1: "generate h (em_named E) (em_index E) g (em_reg E) = Inr ((b, tb), is, r1)"
    "eval M h st \<rho> g = Some u" "has_type u (getType g)" "run_code M C is m = Some m1" "quiet (em_reg E) m m1"
    "env_ok h args vs enc (em_named E) (em_index E) \<sigma> \<rho> st r1 m1" "opval m1 b = IVal u" "op_below r1 b" "em_reg E \<le> r1"
    using computesE [OF expr_computes [OF e(1-4) E(3) C] E(2)] by metis
  obtain a ty js r2 m2 y where g2: "generate h (em_named E) (em_index E) e r1 = Inr ((a, ty), js, r2)"
    "getLLVMTypeForType (getType e) = Inr ty"
    "eval M h st \<rho> e = Some y" "has_type y (getType e)" "run_code M C js m1 = Some m2" "quiet r1 m1 m2"
    "env_ok h args vs enc (em_named E) (em_index E) \<sigma> \<rho> st r2 m2" "opval m2 a = IVal y" "op_below r2 a" "r1 \<le> r2"
    using computesE [OF expr_computes [OF e(5-8) E(3) C] g1(6)] .
  obtain ap off where u: "u = VPtr ap off" using g1(3) e(10) by (cases g; cases u) (auto simp: scalarTy_def)
  obtain ys where ys: "y = VFlt ys" "length ys = unat (ety_width (getType e))" using has_type_float [OF g2(4) e(9)] by blast
  have ty: "ll_elem ty = TF32" "ll_width ty = ety_width (getType e)" using lltype_lanes(1) [OF g2(2) e(9)] by simp_all
  have q: "quiet (em_reg E) m m2" "em_reg E \<le> r2" using quiet_trans [OF g1(5) g2(6) g1(9)] g1(9) g2(10) by simp_all
  have b: "opval m2 b = IVal (VPtr ap off)" using opval_quiet [OF g2(6) g1(8)] g1(7) u by simp
  have at: "state_at vs enc \<sigma> \<rho> st m2" by (rule env_ok_state [OF g2(7)])
  let ?m3 = "set_reg r2 (IVal (VPtr ap off)) m2"
  have o: "opval ?m3 a = IVal y" "exec_instr M C (IBitCast r2 b) m2 = Some ?m3" using opval_other [OF g2(9), of r2] g2(8) b by simp_all
  show "\<exists>E' st'. emit h (StoreStmt g e acc) E = Inr E' \<and> exec M h \<rho> (StoreStmt g e acc) st = Some st' \<and> locals_typed h vs st'
      \<and> leads M C vs enc \<sigma> \<rho> E E' st' m"
  proof (cases acc)
    case False
    let ?m = "?m3\<lparr>mc_mem := store_lanes (mc_mem m2) ap off ys\<rparr>"
    have "exec_instr M C (IStore a (Reg r2)) ?m3 = Some ?m" using o ys by (simp add: store_at_def) (simp add: set_reg_def)
    then have run: "run_code M C (is @ js @ [IBitCast r2 b, IStore a (Reg r2)]) m = Some ?m"
      using g1(4) g2(5) o by (simp add: run_code_append del: exec_instr.simps)
    have "state_at vs enc \<sigma> \<rho> st' ?m" using at st'(1) g1(2) g2(3) u ys False by (auto simp: state_at_def set_reg_def)
    from code_leads [OF E(1) run this, of "r2 + 1"] q
    show ?thesis using st' g1 g2 False by (simp add: emit_Store_def quiet_def regs_same_def set_reg_def)
  next
    case True
    let ?xs = "map (\<lambda>k. st_mem st ap (off + of_nat k)) [0..<length ys]"
    let ?m4 = "set_reg (r2 + 1) (IVal (VFlt ?xs)) ?m3"
    let ?zs = "map2 (m_bin M Add) ?xs ys"
    let ?m5 = "set_reg (r2 + 2) (IVal (VFlt ?zs)) ?m4"
    let ?m = "?m5\<lparr>mc_mem := store_lanes (mc_mem m2) ap off ?zs\<rparr>"
    have "exec_instr M C (ILoad (r2 + 1) ty (Reg r2)) ?m3 = Some ?m4"
      using ty ys at by (simp add: load_from_def load_lanes_def) (simp add: set_reg_def state_at_def)
    moreover have "opval ?m4 a = IVal y" using opval_other [of r2 a "r2 + 1" _ ?m3] g2(9) o(1) by simp
    then have "exec_instr M C (IArith (r2 + 2) True Add (Reg (r2 + 1)) a) ?m4 = Some ?m5" using ys by (simp add: arith_def)
    moreover have "opval ?m5 (Reg r2) = IVal (VPtr ap off)" by (simp add: opval_def set_reg_def)
    then have "exec_instr M C (IStore (Reg (r2 + 2)) (Reg r2)) ?m5 = Some ?m" by (simp add: store_at_def) (simp add: set_reg_def)
    ultimately have run: "run_code M C (is @ js @ [IBitCast r2 b, ILoad (r2 + 1) ty (Reg r2), IArith (r2 + 2) True Add (Reg (r2 + 1)) a,
        IStore (Reg (r2 + 2)) (Reg r2)]) m = Some ?m"
      using g1(4) g2(5) o(2) by (simp add: run_code_append del: exec_instr.simps)
    have "state_at vs enc \<sigma> \<rho> st' ?m" using at st'(1) g1(2) g2(3) u ys True by (auto simp: state_at_def set_reg_def Let_def)
    from code_leads [OF E(1) run this, of "r2 + 3"] q
    show ?thesis using st' g1 g2 True by (simp add: emit_Store_def quiet_def regs_same_def set_reg_def)
  qed
qed

lemma params_run:
  assumes C: "cmp_ok M C" and st: "locals_typed h vs st"
    and es: "\<And>e. e \<in> set es \<Longrightarrow> verify_expr h vs enc e = Inr () \<and> plain_expr e \<and> emits_expr e \<and> args_of_expr e \<subseteq> set args"
  shows "env_ok h args vs enc N X \<sigma> \<rho> st r m \<Longrightarrow>
    \<exists>xs is r' m' ws. gen_params h N X es r = Inr (xs, is, r') \<and> those (map (eval M h st \<rho>) es) = Some ws
      \<and> run_code M C is m = Some m' \<and> quiet r m m' \<and> env_ok h args vs enc N X \<sigma> \<rho> st r' m'
      \<and> those (map (\<lambda>x. the_val (opval m' x)) xs) = Some ws \<and> (\<forall>x \<in> set xs. op_below r' x) \<and> r \<le> r'"
  using es
proof (induction es arbitrary: r m)
  case (Cons e es)
  have e: "verify_expr h vs enc e = Inr ()" "plain_expr e" "emits_expr e" "args_of_expr e \<subseteq> set args" using Cons.prems(2) [of e] by simp_all
  obtain x ty "is" r1 m1 w where g: "generate h N X e r = Inr ((x, ty), is, r1)"
    "eval M h st \<rho> e = Some w" "run_code M C is m = Some m1" "quiet r m m1"
    "env_ok h args vs enc N X \<sigma> \<rho> st r1 m1" "opval m1 x = IVal w" "op_below r1 x" "r \<le> r1"
    using computesE [OF expr_computes [OF e st C] Cons.prems(1)] by metis
  obtain y js r2 where y: "(if ty = TF32 then (Reg r1, [IFPExt r1 x], Suc r1) else (x, [], r1)) = (y, js, r2)" by (metis prod_cases3)
  obtain m2 where m2: "run_code M C js m1 = Some m2" "quiet r1 m1 m2" "env_ok h args vs enc N X \<sigma> \<rho> st r2 m2" "opval m2 y = IVal w"
    "op_below r2 y" "r1 \<le> r2"
  proof (cases "ty = TF32")
    case True
    then show ?thesis using y g env_match.after_set [OF g(5)] by (intro that [of "set_reg r1 (IVal w) m1"]) auto
  next
    case False
    then show ?thesis using y g by (intro that [of m1]) auto
  qed
  obtain xs ks r3 m3 ws where rest: "gen_params h N X es r2 = Inr (xs, ks, r3)" "those (map (eval M h st \<rho>) es) = Some ws"
      "run_code M C ks m2 = Some m3" "quiet r2 m2 m3" "env_ok h args vs enc N X \<sigma> \<rho> st r3 m3"
      "those (map (\<lambda>x. the_val (opval m3 x)) xs) = Some ws" "\<forall>x \<in> set xs. op_below r3 x" "r2 \<le> r3"
    using Cons.IH [OF m2(3)] Cons.prems(2) by (meson list.set_intros(2))
  have "opval m3 y = IVal w" "op_below r3 y" using opval_quiet [OF rest(4) m2(5)] m2(4) op_below_mono [OF m2(5) rest(8)] by simp_all
  moreover have "quiet r m m3" using quiet_trans [OF quiet_trans [OF g(4) m2(2) g(8)] rest(4)] g(8) m2(6) by simp
  ultimately show ?case using g y m2 rest by (simp add: run_code_append the_val_def)
qed simp

lemma Call_simulates:
  assumes v: "verify_stmt h vs enc (CallStmt name params) = Inr ()" and p: "plain_stmt (CallStmt name params)"
    and x: "emits_stmt args (CallStmt name params)" and C: "cmp_ok M C"
  shows "simulates M C h args vs enc (emit h (CallStmt name params)) (\<lambda>\<rho>. exec M h \<rho> (CallStmt name params))"
proof (rule simulatesI)
  fix E \<sigma> \<rho> st m
  assume E: "wf_em E" "env_ok h args vs enc (em_named E) (em_index E) \<sigma> \<rho> st (em_reg E) m" "locals_typed h vs st"
  have es: "verify_expr h vs enc e = Inr () \<and> plain_expr e \<and> emits_expr e \<and> args_of_expr e \<subseteq> set args" if "e \<in> set params" for e
    using v p x that by (auto simp: list_all_iff)
  obtain xs "is" r' m' ws where g: "gen_params h (em_named E) (em_index E) params (em_reg E) = Inr (xs, is, r')"
      "those (map (eval M h st \<rho>) params) = Some ws" "run_code M C is m = Some m'" "quiet (em_reg E) m m'"
      "env_ok h args vs enc (em_named E) (em_index E) \<sigma> \<rho> st r' m'" "those (map (\<lambda>x. the_val (opval m' x)) xs) = Some ws"
    using params_run [OF C E(3) es E(2)] by blast
  let ?m = "m'\<lparr>mc_mem := m_call M name ws (mc_mem m'), mc_out := mc_out m' @ [(name, ws)]\<rparr>"
  let ?st = "st\<lparr>st_mem := m_call M name ws (st_mem st), st_out := st_out st @ [(name, ws)]\<rparr>"
  have run: "run_code M C (is @ [ICall name xs]) m = Some ?m" using g by (simp add: run_code_append)
  have "state_at vs enc \<sigma> \<rho> ?st ?m" using env_ok_state [OF g(5)] by (simp add: state_at_def)
  from code_leads [OF E(1) run this, of r'] g(4)
  show "\<exists>E' st'. emit h (CallStmt name params) E = Inr E' \<and> exec M h \<rho> (CallStmt name params) st = Some st' \<and> locals_typed h vs st'
      \<and> leads M C vs enc \<sigma> \<rho> E E' st' m"
    using g E(3) by (simp add: emit_Call_def quiet_def regs_same_def locals_typed_def)
qed

end
