(* ===== verification/EmitControl.thy ===== *)
theory EmitControl
  imports EmitSim
begin

text \<open>The code of range checks and of loops, and of whole programs.\<close>

section \<open>Blocks that are closed\<close>

lemma contains_leave:
  assumes "contains F (leave b c E)" "wf_em E"
  shows "contains F E" "fn_code F (em_at E) = fn_code E (em_at E)" "fn_term F (em_at E) = Some (IBr b)"
proof -
  have "(\<exists>xs. fn_code F k = fn_code E k @ xs) \<and> (\<forall>t. fn_term E k = Some t \<longrightarrow> fn_code F k = fn_code E k \<and> fn_term F k = Some t)"
    if "k < em_blocks E" for k
    using assms that unfolding contains_def wf_em_def
    by (cases "k = em_at E") (auto simp: leave_def goto_def put_term_def)
  then show "contains F E" unfolding contains_def by blast
  show "fn_code F (em_at E) = fn_code E (em_at E)" "fn_term F (em_at E) = Some (IBr b)"
    using assms unfolding contains_def wf_em_def by (auto simp: leave_def goto_def put_term_def)
qed

lemma leave_reaches: "contains F (leave b c E) \<Longrightarrow> wf_em E \<Longrightarrow> reaches M C F (point E, m) ((b, 0), m)"
  using jump_reaches [of F "em_at E" b M C m] contains_leave [of F b c E] by (simp add: point_def)

lemma block_reaches:
  assumes "contains F E1" "wf_em E" "em_at E < em_blocks E1" "fn_code E1 (em_at E) = fn_code E (em_at E) @ is"
    and "fn_term E1 (em_at E) = Some t" "run_code M C is m = Some m'"
  shows "reaches M C F (point E, m) ((em_at E, length (fn_code F (em_at E))), m')" "fn_term F (em_at E) = Some t"
proof -
  have F: "fn_code F (em_at E) = fn_code E (em_at E) @ is" "fn_term F (em_at E) = Some t"
    using assms(1,3,4,5) unfolding contains_def by auto
  show "reaches M C F (point E, m) ((em_at E, length (fn_code F (em_at E))), m')"
    using code_reaches [OF assms(6), of F "em_at E" "fn_code E (em_at E)" "[]"] F by (simp add: point_def)
  show "fn_term F (em_at E) = Some t" by (rule F(2))
qed

section \<open>Range checks\<close>

lemma guard_runs:
  assumes "opval m x = IVal (VIdx [i])" "op_below r x"
  shows "\<exists>m'. run_code M C [IICmp r SGE x (Const (VIdx [i64_of_int lo])), IICmp (r + 1) SLT x (Const (VIdx [i64_of_int hi])),
       IOr (r + 2) (Reg r) (Reg (r + 1))] m = Some m' \<and> quiet r m m' \<and> opval m' (Reg (r + 2)) = IBits [llvm_guard i lo hi]"
  using assms opval_other [OF assms(2), of r]
  by (simp add: icmp_def or_bits_def quiet_def set_reg_def llvm_guard_def Let_def) (simp add: opval_def)

lemma IfRange_simulates:
  assumes body: "simulates M C h args vs enc (emit_all h body) (\<lambda>\<rho>. fold_opt (exec M h \<rho>) body)"
    and e: "verify_expr h vs enc e = Inr ()" "plain_expr e" "emits_expr e" "args_of_expr e \<subseteq> set args" "scalar_index e"
    and M: "m_guard M = llvm_guard" and C: "cmp_ok M C"
  shows "simulates M C h args vs enc (emit h (IfRange e lo hi body)) (\<lambda>\<rho>. exec M h \<rho> (IfRange e lo hi body))"
proof (rule simulatesI)
  fix E \<sigma> \<rho> st m
  assume E: "wf_em E" "env_ok h args vs enc (em_named E) (em_index E) \<sigma> \<rho> st (em_reg E) m" "locals_typed h vs st"
  obtain x ty "is" r m1 v where g: "generate h (em_named E) (em_index E) e (em_reg E) = Inr ((x, ty), is, r)"
    "eval M h st \<rho> e = Some v" "has_type v (getType e)" "run_code M C is m = Some m1" "quiet (em_reg E) m m1"
    "env_ok h args vs enc (em_named E) (em_index E) \<sigma> \<rho> st r m1" "opval m1 x = IVal v" "op_below r x" "em_reg E \<le> r"
    using computesE [OF expr_computes [OF e(1-4) E(3) C] E(2)] by metis
  obtain i where i: "v = VIdx [i]" using scalar_value [OF g(3) e(5)] by blast
  let ?tests = "[IICmp r SGE x (Const (VIdx [i64_of_int lo])), IICmp (r + 1) SLT x (Const (VIdx [i64_of_int hi])), IOr (r + 2) (Reg r) (Reg (r + 1))]"
  obtain m2 where m2: "run_code M C ?tests m1 = Some m2" "quiet r m1 m2" "opval m2 (Reg (r + 2)) = IBits [llvm_guard i lo hi]"
    using guard_runs [of m1 x i r M C lo hi] g(7,8) i by blast
  obtain E1 where 1: "range_head h e lo hi E = Inr E1" using g(1) by (simp add: range_head_def Let_def)
  have h: "em_at E1 = em_blocks E" "em_blocks E1 = em_blocks E + 2" "em_reg E1 = r + 3" "em_named E1 = em_named E" "em_index E1 = em_index E"
    "fn_code E1 = (fn_code E)(em_at E := fn_code E (em_at E) @ is @ ?tests)"
    "fn_term E1 = (fn_term E)(em_at E \<mapsto> ICondBr (Reg (r + 2)) (em_blocks E) (em_blocks E + 1))"
    using 1 g(1) by (auto simp: range_head_def Let_def goto_def put_term_def put_code_def new_blocks_def)
  have k: "wf_em E1" "builds E E1" using range_head_keeps [OF 1 E(1)] by simp_all
  have env2: "env_ok h args vs enc (em_named E1) (em_index E1) \<sigma> \<rho> st (em_reg E1) m2"
    using env_ok_quiet [OF g(6) m2(2)] h by simp
  obtain E2 st2 where 2: "emit_all h body E1 = Inr E2" "fold_opt (exec M h \<rho>) body st = Some st2" "locals_typed h vs st2"
    "leads M C vs enc \<sigma> \<rho> E1 E2 st2 m2"
    using simulatesE [OF body k(1) env2 E(3)] .
  have k2: "wf_em E2" "builds E1 E2" using emit_all_ok [OF emit_ok 2(1) k(1)] by (simp_all add: emitted_ok_def)
  let ?E' = "leave (em_blocks E + 1) (em_blocks E + 1) E2"
  have pos: "point E1 = (em_blocks E, 0)" "point ?E' = (em_blocks E + 1, 0)"
    using h k2(2) E(1) by (auto simp: point_def leave_def goto_def put_term_def wf_em_def builds_def)
  have q: "quiet (em_reg E) m m2" using quiet_trans [OF g(5) m2(2) g(9)] .
  have f2: "follows vs enc \<sigma> \<rho> (em_reg E) st m m2"
    using q env_ok_state [OF env2] by (simp add: follows_def quiet_def regs_same_def)
  have l: "leads M C vs enc \<sigma> \<rho> E ?E' (if llvm_guard i lo hi then st2 else st) m"
    unfolding leads_def
  proof (intro allI impI)
    fix F assume F: "contains F ?E'"
    note F2 = contains_leave(1) [OF F k2(1)]
    have F1: "contains F E1" by (rule contains_builds [OF F2 k2(2) k(1)])
    have run: "run_code M C (is @ ?tests) m = Some m2" using g(4) m2(1) by (simp add: run_code_append del: fold_opt.simps)
    have lt: "em_at E < em_blocks E1" using E(1) h(2) by (simp add: wf_em_def)
    have "reaches M C F (point E, m) ((em_at E, length (fn_code F (em_at E))), m2)"
      and t: "fn_term F (em_at E) = Some (ICondBr (Reg (r + 2)) (em_blocks E) (em_blocks E + 1))"
      using block_reaches [OF F1 E(1) lt _ _ run] h(6,7) by simp_all
    from reaches_trans [OF this(1) branch_reaches [OF t m2(3)]]
    have to: "reaches M C F (point E, m) ((if llvm_guard i lo hi then em_blocks E else em_blocks E + 1, 0), m2)" .
    show "\<exists>m'. reaches M C F (point E, m) (point ?E', m') \<and> follows vs enc \<sigma> \<rho> (em_reg E) (if llvm_guard i lo hi then st2 else st) m m'"
    proof (cases "llvm_guard i lo hi")
      case True
      obtain m3 where m3: "reaches M C F (point E1, m2) (point E2, m3)" "follows vs enc \<sigma> \<rho> (em_reg E1) st2 m2 m3"
        using leadsE [OF 2(4) F2] .
      have "follows vs enc \<sigma> \<rho> (em_reg E) st2 m m3" using follows_trans [OF f2 m3(2)] h(3) g(9) by simp
      moreover have "reaches M C F (point E, m) (point E2, m3)" using reaches_trans [OF _ m3(1)] to True pos(1) by simp
      ultimately show ?thesis using reaches_trans [OF _ leave_reaches [OF F k2(1)]] True pos(2) by fastforce
    next
      case False
      then show ?thesis using to f2 pos(2) by auto
    qed
  qed
  have "emit h (IfRange e lo hi body) E = Inr ?E'" using 1 2(1) by (simp add: leave_def)
  moreover have "exec M h \<rho> (IfRange e lo hi body) st = Some (if llvm_guard i lo hi then st2 else st)"
    using g(2) i M 2(2) by simp
  moreover have "locals_typed h vs (if llvm_guard i lo hi then st2 else st)" using 2(3) E(3) by simp
  ultimately show "\<exists>E' st'. emit h (IfRange e lo hi body) E = Inr E' \<and> exec M h \<rho> (IfRange e lo hi body) st = Some st' \<and> locals_typed h vs st'
      \<and> leads M C vs enc \<sigma> \<rho> E E' st' m" using l by blast
qed

section \<open>Loops\<close>

lemma counter_test:
  assumes "i < 2 ^ 33"
  shows "icmp SLT (IVal (VIdx [of_nat i])) (IVal (VIdx [i64_of_u32 e])) = Some (IBits [i < unat e])"
proof -
  have "in_i64 (int i)" using assms by (simp add: in_i64_def)
  then have "sint (of_nat i :: i64) = int i" using sint_word_of_int_i64 [of "int i"] by simp
  then have "icmp SLT (IVal (VIdx [of_nat i])) (IVal (VIdx [i64_of_u32 e])) = Some (IBits [int i < int (unat e)])"
    unfolding icmp_def by (simp only: prod.case irval.case val.case list.case ipred.case sint_i64_of_u32)
  then show ?thesis by (simp only: of_nat_less_iff)
qed

lemma counter_next: "of_nat i + i64_of_u32 s = of_nat (i + unat s)"
  by (simp add: i64_of_u32_def)

lemma enter_loop:
  assumes e: "env_ok h args vs enc N X \<sigma> \<rho> st r m" and L: "L \<notin> set enc"
  shows "\<exists>m'. run_code M C [IAlloca r, IStore (Const (VIdx [0])) (Reg r)] m = Some m'
    \<and> env_ok h args vs (L # enc) N (X(L \<mapsto> Reg r)) (\<sigma>(Inr L := mc_next m)) (\<rho>(L := 0)) st (Suc r) m'
    \<and> regs_same r m m' \<and> mc_next m \<le> mc_next m'"
proof -
  let ?k = "mc_next m"
  let ?m = "(set_reg r (ISlot ?k) (m\<lparr>mc_next := Suc ?k\<rparr>))\<lparr>mc_slots := (mc_slots m)(?k := IVal (VIdx [0]))\<rparr>"
  have run: "run_code M C [IAlloca r, IStore (Const (VIdx [0])) (Reg r)] m = Some ?m"
    by (simp add: store_at_def) (simp add: set_reg_def)
  have low: "\<sigma> k < ?k" if "k \<in> Inl ` set vs \<union> Inr ` set enc" for k using e that unfolding env_ok_def by blast
  have keys: "inj_on (\<sigma>(Inr L := ?k)) (Inl ` set vs \<union> Inr ` set (L # enc))"
  proof (rule inj_onI)
    fix a b assume ab: "a \<in> Inl ` set vs \<union> Inr ` set (L # enc)" "b \<in> Inl ` set vs \<union> Inr ` set (L # enc)"
      "(\<sigma>(Inr L := ?k)) a = (\<sigma>(Inr L := ?k)) b"
    show "a = b"
    proof (cases "a = Inr L \<or> b = Inr L")
      case True
      then show ?thesis using ab low [of a] low [of b] L by (auto split: if_splits)
    next
      case False
      then show ?thesis using ab env_ok_keys [OF e, of a b] by simp
    qed
  qed
  have slots: "mc_slots ?m (\<sigma> k) = mc_slots m (\<sigma> k)" if "k \<in> Inl ` set vs \<union> Inr ` set enc" for k
    using low [OF that] by simp
  have regs: "mc_regs ?m q = mc_regs m q" if "q < r" for q using that by (simp add: set_reg_def)
  have "env_ok h args vs (L # enc) N (X(L \<mapsto> Reg r)) (\<sigma>(Inr L := ?k)) (\<rho>(L := 0)) st (Suc r) ?m"
    unfolding env_ok_def
  proof (intro conjI ballI)
    show "mc_mem ?m = st_mem st" "mc_out ?m = st_out st" using e by (simp_all add: env_ok_def set_reg_def)
  next
    fix a assume "a \<in> set args"
    then obtain q where "q < r" "N (arg_name (hp_arg h a)) = Some (Reg q, TF32)" "mc_regs m q = IVal (VPtr a 0)"
      using e unfolding env_ok_def by blast
    then show "\<exists>q < Suc r. N (arg_name (hp_arg h a)) = Some (Reg q, TF32) \<and> mc_regs ?m q = IVal (VPtr a 0)"
      using regs by (intro exI [of _ q]) simp
  next
    fix v assume v: "v \<in> set vs"
    then obtain q t where "q < r" "N (var_name (hp_var h v)) = Some (Reg q, t)" "getLLVMTypeForType (var_type (hp_var h v)) = Inr t"
      "mc_regs m q = ISlot (\<sigma> (Inl v))" "mc_slots m (\<sigma> (Inl v)) = IVal (st_loc st v)" using e unfolding env_ok_def by blast
    then show "\<exists>q < Suc r. \<exists>t. N (var_name (hp_var h v)) = Some (Reg q, t) \<and> getLLVMTypeForType (var_type (hp_var h v)) = Inr t
          \<and> mc_regs ?m q = ISlot ((\<sigma>(Inr L := ?k)) (Inl v)) \<and> mc_slots ?m ((\<sigma>(Inr L := ?k)) (Inl v)) = IVal (st_loc st v)"
      using regs slots [of "Inl v"] v by (intro exI [of _ q]) simp
  next
    fix K assume K: "K \<in> set (L # enc)"
    show "\<exists>q < Suc r. (X(L \<mapsto> Reg r)) K = Some (Reg q) \<and> mc_regs ?m q = ISlot ((\<sigma>(Inr L := ?k)) (Inr K))
        \<and> mc_slots ?m ((\<sigma>(Inr L := ?k)) (Inr K)) = IVal (VIdx [(\<rho>(L := 0)) K])"
    proof (cases "K = L")
      case True
      then show ?thesis by (intro exI [of _ r]) (simp add: set_reg_def)
    next
      case False
      with K have K: "K \<in> set enc" by simp
      obtain q where "q < r" "index_at X K = Inr (Reg q)" "opval m (Reg q) = ISlot (\<sigma> (Inr K))" "mc_slots m (\<sigma> (Inr K)) = IVal (VIdx [\<rho> K])"
        using env_loop [OF e K] .
      then show ?thesis using regs slots [of "Inr K"] K False
        by (intro exI [of _ q]) (simp add: index_at_def opval_def split: option.splits)
    qed
  next
    fix k assume "k \<in> Inl ` set vs \<union> Inr ` set (L # enc)"
    then show "(\<sigma>(Inr L := ?k)) k < mc_next ?m" using low [of k] by (auto simp: set_reg_def less_Suc_eq)
  qed (rule keys)
  with run regs show ?thesis by (auto simp: regs_same_def set_reg_def)
qed

lemma state_at_inner:
  "state_at vs (L # enc) (\<sigma>(Inr L := k)) (\<rho>(L := i)) st m \<Longrightarrow> L \<notin> set enc \<Longrightarrow> state_at vs enc \<sigma> \<rho> st m"
  unfolding state_at_def by (auto split: if_splits)

text \<open>The test of the header and the step of the counter.\<close>

lemma header_runs:
  assumes e: "env_ok h args vs (L # enc) N (X(L \<mapsto> Reg r)) \<sigma> (\<rho>(L := of_nat i)) st (Suc r) m" and i: "i < 2 ^ 33"
  shows "\<exists>m'. run_code M C [ILoad (r + 1) TI64 (Reg r), IICmp (r + 2) SLT (Reg (r + 1)) (Const (VIdx [i64_of_u32 fin]))] m = Some m'
    \<and> quiet (Suc r) m m' \<and> opval m' (Reg (r + 2)) = IBits [i < unat fin]"
proof -
  obtain q where q: "index_at (X(L \<mapsto> Reg r)) L = Inr (Reg q)" "opval m (Reg q) = ISlot (\<sigma> (Inr L))"
    "mc_slots m (\<sigma> (Inr L)) = IVal (VIdx [(\<rho>(L := of_nat i)) L])"
    using env_loop [OF e, of L] by auto
  then show ?thesis using counter_test [OF i, of fin] by (simp add: index_at_def load_from_def quiet_def) (simp add: set_reg_def)
qed

lemma step_runs:
  assumes e: "env_ok h args vs (L # enc) N (X(L \<mapsto> Reg r)) \<sigma> (\<rho>(L := of_nat i)) st (Suc r) m"
  shows "\<exists>m'. run_code M C [ILoad (r + 3) TI64 (Reg r), IArith (r + 4) False Add (Reg (r + 3)) (Const (VIdx [i64_of_u32 s])), IStore (Reg (r + 4)) (Reg r)] m
      = Some m'
    \<and> env_ok h args vs (L # enc) N (X(L \<mapsto> Reg r)) \<sigma> (\<rho>(L := of_nat (i + unat s))) st (Suc r) m' \<and> regs_same (Suc r) m m' \<and> mc_next m \<le> mc_next m'"
proof -
  have q: "opval m (Reg r) = ISlot (\<sigma> (Inr L))" "mc_slots m (\<sigma> (Inr L)) = IVal (VIdx [of_nat i])"
    using env_loop [OF e, of L] by (auto simp: index_at_def)
  let ?m1 = "set_reg (r + 3) (IVal (VIdx [of_nat i])) m"
  let ?m2 = "set_reg (r + 4) (IVal (VIdx [of_nat (i + unat s)])) ?m1"
  let ?m = "?m2\<lparr>mc_slots := (mc_slots m)(\<sigma> (Inr L) := IVal (VIdx [of_nat (i + unat s)]))\<rparr>"
  have "exec_instr M C (ILoad (r + 3) TI64 (Reg r)) m = Some ?m1" using q by (simp add: load_from_def)
  moreover have "exec_instr M C (IArith (r + 4) False Add (Reg (r + 3)) (Const (VIdx [i64_of_u32 s]))) ?m1 = Some ?m2"
    using counter_next [of i s] by (simp add: arith_def)
  moreover have "opval ?m2 (Reg r) = ISlot (\<sigma> (Inr L))" using q(1) by (simp add: opval_def set_reg_def)
  then have "exec_instr M C (IStore (Reg (r + 4)) (Reg r)) ?m2 = Some ?m" by (simp add: store_at_def) (simp add: set_reg_def)
  ultimately have run: "run_code M C [ILoad (r + 3) TI64 (Reg r), IArith (r + 4) False Add (Reg (r + 3)) (Const (VIdx [i64_of_u32 s])),
      IStore (Reg (r + 4)) (Reg r)] m = Some ?m" by (simp del: exec_instr.simps)
  have v: "\<sigma> (Inl v) \<noteq> \<sigma> (Inr L)" if "v \<in> set vs" for v using env_ok_keys [OF e, of "Inl v" "Inr L"] that by auto
  have K: "\<sigma> (Inr K) = \<sigma> (Inr L) \<longleftrightarrow> K = L" if "K \<in> set enc" for K using env_ok_keys [OF e, of "Inr K" "Inr L"] that by auto
  have "state_at vs (L # enc) \<sigma> (\<rho>(L := of_nat (i + unat s))) st ?m"
    using env_ok_state [OF e] v K unfolding state_at_def by (auto simp: set_reg_def)
  moreover have regs: "regs_same (Suc r) m ?m" "mc_next m \<le> mc_next ?m" by (simp_all add: regs_same_def set_reg_def)
  ultimately show ?thesis using run env_ok_update [OF e] by blast
qed

text \<open>The trips of a loop, from its header to its exit.\<close>

lemma trips_reach:
  assumes body: "simulates M C h args vs (L # enc) (emit_all h body) (\<lambda>\<rho>. fold_opt (exec M h \<rho>) body)"
    and wf: "wf_em E" and E2: "emit_all h body (loop_head h L E) = Inr E2"
    and F: "contains F (leave (em_blocks E + 2) (em_blocks E + 3) E2)"
    and pos: "0 < unat (loop_stride h L)" "unat (loop_end h L) < 2 ^ 32" "unat (loop_stride h L) < 2 ^ 32"
  shows "i < 2 ^ 33 \<Longrightarrow>
    env_ok h args vs (L # enc) (em_named E) ((em_index E)(L \<mapsto> Reg (em_reg E))) \<sigma> (\<rho>(L := of_nat i)) st (Suc (em_reg E)) m \<Longrightarrow>
    locals_typed h vs st \<Longrightarrow>
    \<exists>st' m' \<rho>'. fold_opt (\<lambda>i. fold_opt (exec M h (\<rho>(L := of_nat i))) body) (count_up (unat (loop_stride h L)) (unat (loop_end h L)) i) st = Some st'
      \<and> locals_typed h vs st' \<and> reaches M C F ((em_blocks E, 0), m) ((em_blocks E + 3, 0), m')
      \<and> follows vs (L # enc) \<sigma> (\<rho>(L := \<rho>')) (Suc (em_reg E)) st' m m'"
proof (induction "unat (loop_stride h L)" "unat (loop_end h L)" i arbitrary: st m rule: count_up.induct)
  case (1 i)
  let ?E1 = "loop_head h L E" and ?r = "em_reg E" and ?X = "(em_index E)(L \<mapsto> Reg (em_reg E))" and ?B = "em_blocks E"
  note k1 = loop_head_keeps [OF wf, of h L]
  have k2: "wf_em E2" "builds ?E1 E2" using emit_all_ok [OF emit_ok E2] k1 by (simp_all add: emitted_ok_def)
  note F2 = contains_leave [OF F k2(1)]
  have F1: "contains F ?E1" using contains_builds [OF F2(1) k2(2)] k1 by blast
  note code = loop_head_code [OF wf, where h = h and L = L]
  have header: "fn_code F ?B = fn_code ?E1 ?B" "fn_term F ?B = Some (ICondBr (Reg (?r + 2)) (?B + 1) (?B + 3))"
    and nextb: "fn_code F (?B + 2) = fn_code ?E1 (?B + 2)" "fn_term F (?B + 2) = Some (IBr ?B)"
    using F1 code(4,6) unfolding contains_def by simp_all
  obtain m1 where m1: "run_code M C (fn_code ?E1 ?B) m = Some m1" "quiet (Suc ?r) m m1"
    "opval m1 (Reg (?r + 2)) = IBits [i < unat (loop_end h L)]"
    using header_runs [OF 1(3,2), of M C "loop_end h L"] code(3) by auto
  have test: "reaches M C F ((?B, 0), m) ((if i < unat (loop_end h L) then ?B + 1 else ?B + 3, 0), m1)"
  proof (rule reaches_trans)
    show "reaches M C F ((?B, 0), m) ((?B, length (fn_code F ?B)), m1)"
      using code_reaches [OF m1(1), of F ?B "[]" "[]"] header(1) by simp
  qed (rule branch_reaches [OF header(2) m1(3)])
  have env1: "env_ok h args vs (L # enc) (em_named E) ?X \<sigma> (\<rho>(L := of_nat i)) st (Suc ?r) m1"
    by (rule env_ok_quiet [OF 1(3) m1(2)]) simp
  have f1: "follows vs (L # enc) \<sigma> (\<rho>(L := of_nat i)) (Suc ?r) st m m1"
    using env_ok_state [OF env1] m1(2) by (simp add: follows_def quiet_def regs_same_def)
  show ?case
  proof (cases "i < unat (loop_end h L)")
    case False
    then show ?thesis using test f1 1(4) by auto
  next
    case True
    have "env_ok h args vs (L # enc) (em_named ?E1) (em_index ?E1) \<sigma> (\<rho>(L := of_nat i)) st (em_reg ?E1) m1"
      using env_ok_quiet [OF env1 quiet_refl, of "?r + 5"] by simp
    from simulatesE [OF body conjunct1 [OF k1] this 1(4)] obtain E3 st1
      where 2: "fold_opt (exec M h (\<rho>(L := of_nat i))) body st = Some st1" "locals_typed h vs st1" "emit_all h body ?E1 = Inr E3"
      and l': "leads M C vs (L # enc) \<sigma> (\<rho>(L := of_nat i)) ?E1 E3 st1 m1" .
    have l: "leads M C vs (L # enc) \<sigma> (\<rho>(L := of_nat i)) ?E1 E2 st1 m1" using l' 2(3) E2 by simp
    obtain m2 where m2: "reaches M C F (point ?E1, m1) (point E2, m2)" "follows vs (L # enc) \<sigma> (\<rho>(L := of_nat i)) (?r + 5) st1 m1 m2"
      using leadsE [OF l F2(1)] by auto
    have f2: "follows vs (L # enc) \<sigma> (\<rho>(L := of_nat i)) (Suc ?r) st1 m m2" using follows_trans [OF f1 m2(2)] by simp
    have env2: "env_ok h args vs (L # enc) (em_named E) ?X \<sigma> (\<rho>(L := of_nat i)) st1 (Suc ?r) m2" by (rule follows_env [OF 1(3) f2])
    obtain m3 where m3: "run_code M C (fn_code ?E1 (?B + 2)) m2 = Some m3" "regs_same (Suc ?r) m2 m3" "mc_next m2 \<le> mc_next m3"
      "env_ok h args vs (L # enc) (em_named E) ?X \<sigma> (\<rho>(L := of_nat (i + unat (loop_stride h L)))) st1 (Suc ?r) m3"
      using step_runs [OF env2, of M C "loop_stride h L"] code(5) by auto
    have "follows vs (L # enc) \<sigma> (\<rho>(L := of_nat (i + unat (loop_stride h L)))) (Suc ?r) st1 m2 m3"
      using env_ok_state [OF m3(4)] m3(2,3) by (simp add: follows_def)
    note f3 = follows_trans [OF f2 this order_refl]
    have "reaches M C F ((?B + 2, 0), m2) ((?B + 2, length (fn_code F (?B + 2))), m3)"
      using code_reaches [OF m3(1), of F "?B + 2" "[]" "[]"] nextb(1) by simp
    note again = reaches_trans [OF this jump_reaches [OF nextb(2)]]
    have "point ?E1 = (?B + 1, 0)" using code(7) by (simp add: point_def)
    then have trip: "reaches M C F ((?B, 0), m) ((?B, 0), m3)"
      using reaches_trans [OF reaches_trans [OF reaches_trans [OF _ m2(1)] leave_reaches [OF F k2(1)]] again] test True by simp
    have "i + unat (loop_stride h L) < 2 ^ 33" using True pos(2,3) by simp
    from 1(1) [OF _ this m3(4) 2(2)] True pos(1) obtain st' m' \<rho>'
      where IH: "fold_opt (\<lambda>i. fold_opt (exec M h (\<rho>(L := of_nat i))) body)
          (count_up (unat (loop_stride h L)) (unat (loop_end h L)) (i + unat (loop_stride h L))) st1 = Some st'"
        "locals_typed h vs st'" "reaches M C F ((?B, 0), m3) ((?B + 3, 0), m')" "follows vs (L # enc) \<sigma> (\<rho>(L := \<rho>')) (Suc ?r) st' m3 m'"
      by blast
    have "follows vs (L # enc) \<sigma> (\<rho>(L := \<rho>')) (Suc ?r) st' m m'" by (rule follows_trans [OF f3 IH(4) order_refl])
    with IH(1-3) 2(1) reaches_trans [OF trip] count_up_step [OF True pos(1)] show ?thesis by auto
  qed
qed

lemma Loop_simulates:
  assumes body: "simulates M C h args vs (L # enc) (emit_all h body) (\<lambda>\<rho>. fold_opt (exec M h \<rho>) body)"
    and L: "L \<notin> set enc" and s: "loop_stride h L \<noteq> 0"
  shows "simulates M C h args vs enc (emit h (Loop L body)) (\<lambda>\<rho>. exec M h \<rho> (Loop L body))"
proof (rule simulatesI)
  fix E \<sigma> \<rho> st m
  assume E: "wf_em E" "env_ok h args vs enc (em_named E) (em_index E) \<sigma> \<rho> st (em_reg E) m" "locals_typed h vs st"
  let ?E1 = "loop_head h L E" and ?r = "em_reg E" and ?B = "em_blocks E" and ?\<sigma> = "\<sigma>(Inr L := mc_next m)"
  obtain m1 where m1: "run_code M C [IAlloca ?r, IStore (Const (VIdx [0])) (Reg ?r)] m = Some m1"
    "env_ok h args vs (L # enc) (em_named E) ((em_index E)(L \<mapsto> Reg ?r)) ?\<sigma> (\<rho>(L := of_nat 0)) st (Suc ?r) m1"
    "regs_same ?r m m1" "mc_next m \<le> mc_next m1"
    using enter_loop [OF E(2) L, of M C] by auto
  note k1 = loop_head_keeps [OF E(1), of h L]
  have "env_ok h args vs (L # enc) (em_named ?E1) (em_index ?E1) ?\<sigma> (\<rho>(L := of_nat 0)) st (em_reg ?E1) m1"
    using env_ok_quiet [OF m1(2) quiet_refl, of "?r + 5"] by simp
  from simulatesE [OF body _ this E(3)] k1 obtain E2 where E2: "emit_all h body ?E1 = Inr E2" by blast
  have k2: "wf_em E2" "builds ?E1 E2" using emit_all_ok [OF emit_ok E2] k1 by (simp_all add: emitted_ok_def)
  let ?E' = "leave (?B + 2) (?B + 3) E2"
  have s': "0 < unat (loop_stride h L)" using s by (simp add: unat_gt_0)
  have run: "exec M h \<rho> (Loop L body) st = fold_opt (\<lambda>i. fold_opt (exec M h (\<rho>(L := of_nat i))) body)
      (count_up (unat (loop_stride h L)) (unat (loop_end h L)) 0) st" using s by simp
  have trips: "\<exists>st' m' i. exec M h \<rho> (Loop L body) st = Some st' \<and> locals_typed h vs st'
      \<and> reaches M C F ((?B, 0), m1) ((?B + 3, 0), m') \<and> follows vs (L # enc) ?\<sigma> (\<rho>(L := i)) (Suc ?r) st' m1 m'"
    if "contains F ?E'" for F
    unfolding run by (rule trips_reach [OF body E(1) E2 that s' unat_u32_bound unat_u32_bound _ m1(2) E(3)]) simp
  have pos: "point ?E' = (?B + 3, 0)"
    using loop_head_code(8,10) [OF E(1), of h L] k2(2) by (auto simp: point_def leave_def goto_def put_term_def builds_def)
  obtain st' where st': "exec M h \<rho> (Loop L body) st = Some st'" "locals_typed h vs st'"
    using trips [OF contains_refl] by blast
  have "leads M C vs enc \<sigma> \<rho> E ?E' st' m"
    unfolding leads_def
  proof (intro allI impI)
    fix F assume F: "contains F ?E'"
    have F1: "contains F ?E1" using contains_builds [OF contains_leave(1) [OF F k2(1)] k2(2)] k1 by blast
    have lt: "em_at E < em_blocks ?E1" using E(1) by (simp add: wf_em_def)
    obtain m' i where m': "reaches M C F ((?B, 0), m1) ((?B + 3, 0), m')" "follows vs (L # enc) ?\<sigma> (\<rho>(L := i)) (Suc ?r) st' m1 m'"
      using trips [OF F] st'(1) by auto
    note to = block_reaches [OF F1 E(1) lt loop_head_code(1,2) [OF E(1), where h = h and L = L] m1(1)]
    have "reaches M C F (point E, m) (point ?E', m')"
      using reaches_trans [OF reaches_trans [OF to(1) jump_reaches [OF to(2)]] m'(1)] pos by simp
    moreover have "follows vs enc \<sigma> \<rho> ?r st' m m'"
      using m'(2) m1(3,4) state_at_inner [OF _ L] regs_same_trans [OF m1(3), of "Suc ?r"] unfolding follows_def by fastforce
    ultimately show "\<exists>m'. reaches M C F (point E, m) (point ?E', m') \<and> follows vs enc \<sigma> \<rho> ?r st' m m'" by blast
  qed
  moreover have "emit h (Loop L body) E = Inr ?E'" using E2 by (simp add: leave_def)
  ultimately show "\<exists>E' st'. emit h (Loop L body) E = Inr E' \<and> exec M h \<rho> (Loop L body) st = Some st' \<and> locals_typed h vs st'
      \<and> leads M C vs enc \<sigma> \<rho> E E' st' m" using st' by blast
qed

lemma stmt_simulates:
  assumes M: "m_guard M = llvm_guard" and C: "cmp_ok M C"
  shows "verify_stmt h vs enc s = Inr () \<Longrightarrow> plain_stmt s \<Longrightarrow> emits_stmt args s \<Longrightarrow> distinct (loop_list s) \<Longrightarrow> loops_in s \<inter> set enc = {} \<Longrightarrow>
    simulates M C h args vs enc (emit h s) (\<lambda>\<rho>. exec M h \<rho> s)"
proof (induction s arbitrary: enc)
  case (Loop L body)
  have "simulates M C h args vs (L # enc) (emit h s) (\<lambda>\<rho>. exec M h \<rho> s) \<and> loops_in s \<inter> set (L # enc) = {}" if s: "s \<in> set body" for s
  proof -
    have "loops_in s \<inter> set (L # enc) = {}" "distinct (loop_list s)"
      using Loop.prems(4,5) s by (auto simp: distinct_concat_iff)
    moreover have "verify_stmt h vs (L # enc) s = Inr ()" "plain_stmt s" "emits_stmt args s"
      using Loop.prems(1-3) s by (auto simp: list_all_iff)
    ultimately show ?thesis using Loop.IH [OF s] by blast
  qed
  then have "simulates M C h args vs (L # enc) (emit_all h body) (\<lambda>\<rho>. fold_opt (exec M h \<rho>) body)" by (rule simulates_all)
  then show ?case by (rule Loop_simulates) (use Loop.prems in auto)
next
  case (IfRange e lo hi body)
  have "simulates M C h args vs enc (emit h s) (\<lambda>\<rho>. exec M h \<rho> s) \<and> loops_in s \<inter> set enc = {}" if s: "s \<in> set body" for s
  proof -
    have "loops_in s \<inter> set enc = {}" "distinct (loop_list s)"
      using IfRange.prems(4,5) s by (auto simp: distinct_concat_iff)
    moreover have "verify_stmt h vs enc s = Inr ()" "plain_stmt s" "emits_stmt args s"
      using IfRange.prems(1-3) s by (auto simp: list_all_iff)
    ultimately show ?thesis using IfRange.IH [OF s] by blast
  qed
  then have "simulates M C h args vs enc (emit_all h body) (\<lambda>\<rho>. fold_opt (exec M h \<rho>) body)" by (rule simulates_all)
  then show ?case by (rule IfRange_simulates) (use IfRange.prems M C in auto)
next
  case (CallStmt name params)
  then show ?case by (intro Call_simulates C) simp_all
next
  case (StoreStmt g e acc)
  then show ?case by (intro Store_simulates C)
next
  case (StoreLocalStmt v e acc)
  then show ?case by (intro StoreLocal_simulates C)
qed

end
