(* ===== verification/EmitProgram.thy ===== *)
theory EmitProgram
  imports EmitControl
begin

text \<open>
  The code of whole programs: the function that \<open>emitProgram\<close> makes of a verified program, run on the buffers
  of the caller, returns with the memory and the calls the program means.
\<close>

section \<open>The entry of a function\<close>

lemma name_args_other: "n \<notin> set names \<Longrightarrow> name_args names r N n = N n"
  by (induction names arbitrary: r N) simp_all

lemma name_args_nth: "distinct names \<Longrightarrow> i < length names \<Longrightarrow> name_args names r N (names ! i) = Some (Reg (r + i), TF32)"
proof (induction names arbitrary: i r N)
  case (Cons n names)
  then show ?case by (cases i) (simp_all add: name_args_other)
qed simp

lemma put_code_append: "put_code js r' (put_code is r E) = put_code (is @ js) r' E"
  by (simp add: put_code_def)

lemma named_irrelevant [simp]:
  "contains F (E\<lparr>em_named := N\<rparr>) = contains F E" "wf_em (E\<lparr>em_named := N\<rparr>) = wf_em E" "point (E\<lparr>em_named := N\<rparr>) = point E"
  by (simp_all add: contains_def wf_em_def point_def)

lemma typed_lltype: "has_type v t \<Longrightarrow> \<exists>ty. getLLVMTypeForType t = Inr ty"
  by (cases v) (auto simp: getLLVMTypeForType_def isVector_def scalarTy_def)

text \<open>One more variable on the stack.\<close>

lemma alloca_var:
  assumes e: "env_ok h args vs enc N X \<sigma> \<rho> st r m" and t: "getLLVMTypeForType (var_type (hp_var h v)) = Inr t"
    and v: "v \<notin> set vs" "\<And>a. a \<in> set args \<Longrightarrow> arg_name (hp_arg h a) \<noteq> var_name (hp_var h v)"
      "\<And>w. w \<in> set vs \<Longrightarrow> var_name (hp_var h w) \<noteq> var_name (hp_var h v)"
    and s: "mc_slots m (mc_next m) = IVal (st_loc st v)"
  shows "env_ok h args (v # vs) enc (N(var_name (hp_var h v) \<mapsto> (Reg r, t))) X (\<sigma>(Inl v := mc_next m)) \<rho> st (Suc r)
    (set_reg r (ISlot (mc_next m)) (m\<lparr>mc_next := Suc (mc_next m)\<rparr>))"
proof -
  let ?k = "mc_next m" and ?N = "N(var_name (hp_var h v) \<mapsto> (Reg r, t))"
  let ?m = "set_reg r (ISlot ?k) (m\<lparr>mc_next := Suc ?k\<rparr>)"
  have low: "\<sigma> k < ?k" if "k \<in> Inl ` set vs \<union> Inr ` set enc" for k using e that unfolding env_ok_def by blast
  have keys: "inj_on (\<sigma>(Inl v := ?k)) (Inl ` set (v # vs) \<union> Inr ` set enc)"
  proof (rule inj_onI)
    fix a b assume ab: "a \<in> Inl ` set (v # vs) \<union> Inr ` set enc" "b \<in> Inl ` set (v # vs) \<union> Inr ` set enc"
      "(\<sigma>(Inl v := ?k)) a = (\<sigma>(Inl v := ?k)) b"
    show "a = b"
    proof (cases "a = Inl v \<or> b = Inl v")
      case True
      then show ?thesis using ab low [of a] low [of b] v(1) by (auto split: if_splits)
    next
      case False
      then show ?thesis using ab env_ok_keys [OF e, of a b] by simp
    qed
  qed
  have regs: "mc_regs ?m q = mc_regs m q" if "q < r" for q using that by (simp add: set_reg_def)
  have slots: "mc_slots ?m = mc_slots m" by (simp add: set_reg_def)
  show ?thesis unfolding env_ok_def slots
  proof (intro conjI ballI)
    show "mc_mem ?m = st_mem st" "mc_out ?m = st_out st" using e by (simp_all add: env_ok_def set_reg_def)
  next
    fix a assume a: "a \<in> set args"
    then obtain q where "q < r" "N (arg_name (hp_arg h a)) = Some (Reg q, TF32)" "mc_regs m q = IVal (VPtr a 0)"
      using e unfolding env_ok_def by blast
    then show "\<exists>q < Suc r. ?N (arg_name (hp_arg h a)) = Some (Reg q, TF32) \<and> mc_regs ?m q = IVal (VPtr a 0)"
      using regs v(2) [OF a] by (intro exI [of _ q]) simp
  next
    fix w assume w: "w \<in> set (v # vs)"
    show "\<exists>q < Suc r. \<exists>t. ?N (var_name (hp_var h w)) = Some (Reg q, t) \<and> getLLVMTypeForType (var_type (hp_var h w)) = Inr t
          \<and> mc_regs ?m q = ISlot ((\<sigma>(Inl v := ?k)) (Inl w)) \<and> mc_slots m ((\<sigma>(Inl v := ?k)) (Inl w)) = IVal (st_loc st w)"
    proof (cases "w = v")
      case True
      then show ?thesis using t s by (intro exI [of _ r]) (simp add: set_reg_def)
    next
      case False
      with w have w: "w \<in> set vs" by simp
      obtain q t where "q < r" "N (var_name (hp_var h w)) = Some (Reg q, t)" "getLLVMTypeForType (var_type (hp_var h w)) = Inr t"
        "mc_regs m q = ISlot (\<sigma> (Inl w))" "mc_slots m (\<sigma> (Inl w)) = IVal (st_loc st w)" using e w unfolding env_ok_def by blast
      then show ?thesis using regs v(3) [OF w] False by (intro exI [of _ q]) simp
    qed
  next
    fix L assume L: "L \<in> set enc"
    obtain q where "q < r" "index_at X L = Inr (Reg q)" "opval m (Reg q) = ISlot (\<sigma> (Inr L))" "mc_slots m (\<sigma> (Inr L)) = IVal (VIdx [\<rho> L])"
      using env_loop [OF e L] .
    then show "\<exists>q < Suc r. X L = Some (Reg q) \<and> mc_regs ?m q = ISlot ((\<sigma>(Inl v := ?k)) (Inr L)) \<and> mc_slots m ((\<sigma>(Inl v := ?k)) (Inr L)) = IVal (VIdx [\<rho> L])"
      using regs by (intro exI [of _ q]) (simp add: index_at_def opval_def split: option.splits)
  next
    fix k assume "k \<in> Inl ` set (v # vs) \<union> Inr ` set enc"
    then show "(\<sigma>(Inl v := ?k)) k < mc_next ?m" using low [of k] by (auto simp: set_reg_def less_Suc_eq)
  qed (rule keys)
qed

lemma alloca_vars_runs:
  assumes "env_ok h args ws enc (em_named E) (em_index E) \<sigma> \<rho> st (em_reg E) m"
    and "distinct (map (\<lambda>v. var_name (hp_var h v)) (vs @ ws))"
    and "\<And>a v. a \<in> set args \<Longrightarrow> v \<in> set vs \<Longrightarrow> arg_name (hp_arg h a) \<noteq> var_name (hp_var h v)"
    and "\<And>v. v \<in> set vs \<Longrightarrow> has_type (st_loc st v) (var_type (hp_var h v))"
    and "\<And>i. i < length vs \<Longrightarrow> mc_slots m (mc_next m + i) = IVal (st_loc st (vs ! i))"
  shows "\<exists>is r N m' \<sigma>'. alloca_vars h vs E = Inr ((put_code is r E)\<lparr>em_named := N\<rparr>) \<and> em_reg E \<le> r \<and> run_code M C is m = Some m'
    \<and> env_ok h args (rev vs @ ws) enc N (em_index E) \<sigma>' \<rho> st r m'"
  using assms
proof (induction vs arbitrary: E ws m \<sigma>)
  case Nil
  then show ?case by (intro exI [of _ "[]"] exI [of _ "em_reg E"] exI [of _ "em_named E"]) (auto simp: put_code_def)
next
  case (Cons v vs)
  obtain t where t: "getLLVMTypeForType (var_type (hp_var h v)) = Inr t" using typed_lltype Cons.prems(4) by (meson list.set_intros(1))
  let ?E = "(put_code [IAlloca (em_reg E)] (Suc (em_reg E)) E)\<lparr>em_named := (em_named E)(var_name (hp_var h v) \<mapsto> (Reg (em_reg E), t))\<rparr>"
  let ?m = "set_reg (em_reg E) (ISlot (mc_next m)) (m\<lparr>mc_next := Suc (mc_next m)\<rparr>)"
  have E: "em_reg ?E = Suc (em_reg E)" "em_index ?E = em_index E" "em_named ?E = (em_named E)(var_name (hp_var h v) \<mapsto> (Reg (em_reg E), t))"
    by (simp_all add: put_code_def)
  have new: "var_name (hp_var h w) \<noteq> var_name (hp_var h v)" if "w \<in> set ws" for w
  proof -
    have "var_name (hp_var h v) \<notin> (\<lambda>v. var_name (hp_var h v)) ` set ws" using Cons.prems(2) by simp
    moreover have "var_name (hp_var h w) \<in> (\<lambda>v. var_name (hp_var h v)) ` set ws" using that by (rule imageI)
    ultimately show ?thesis by metis
  qed
  have env: "env_ok h args (v # ws) enc (em_named ?E) (em_index ?E) (\<sigma>(Inl v := mc_next m)) \<rho> st (em_reg ?E) ?m"
    unfolding E by (rule alloca_var [OF Cons.prems(1) t]) (use Cons.prems(3) Cons.prems(5) [of 0] new in auto)
  have names: "distinct (map (\<lambda>v. var_name (hp_var h v)) (vs @ v # ws))" using Cons.prems(2) by auto
  have slots: "mc_slots ?m (mc_next ?m + i) = IVal (st_loc st (vs ! i))" if "i < length vs" for i
    using Cons.prems(5) [of "Suc i"] that by (simp add: set_reg_def)
  obtain "is" r N m' \<sigma>' where IH: "alloca_vars h vs ?E = Inr ((put_code is r ?E)\<lparr>em_named := N\<rparr>)" "em_reg ?E \<le> r"
      "run_code M C is ?m = Some m'" "env_ok h args (rev vs @ v # ws) enc N (em_index ?E) \<sigma>' \<rho> st r m'"
    using Cons.IH [OF env names Cons.prems(3) Cons.prems(4) slots] by auto
  have "(put_code is r ?E)\<lparr>em_named := N\<rparr> = (put_code (IAlloca (em_reg E) # is) r E)\<lparr>em_named := N\<rparr>"
    by (simp add: put_code_def)
  with IH E t show ?case
    by (intro exI [of _ "IAlloca (em_reg E) # is"] exI [of _ r] exI [of _ N] exI [of _ m'] exI [of _ \<sigma>']) simp
qed

lemma env_ok_rev: "env_ok h args (rev vs) enc N X \<sigma> \<rho> st r m = env_ok h args vs enc N X \<sigma> \<rho> st r m"
  by (simp add: env_ok_def)

lemma entry_ok:
  assumes "distinct (map (\<lambda>a. arg_name (hp_arg h a)) (pr_args p))"
  shows "env_ok h (pr_args p) [] [] (name_args (map (\<lambda>a. arg_name (hp_arg h a)) (pr_args p)) 0 (\<lambda>n. None)) X \<sigma> \<rho> st (length (pr_args p))
    (entry_machine p stack (st_mem st) (st_out st))"
proof -
  have "\<exists>q < length (pr_args p). name_args (map (\<lambda>a. arg_name (hp_arg h a)) (pr_args p)) 0 (\<lambda>n. None) (arg_name (hp_arg h a)) = Some (Reg q, TF32)
      \<and> mc_regs (entry_machine p stack (st_mem st) (st_out st)) q = IVal (VPtr a 0)" if a: "a \<in> set (pr_args p)" for a
  proof -
    obtain i where i: "i < length (pr_args p)" "pr_args p ! i = a" using a unfolding in_set_conv_nth by blast
    then show ?thesis using name_args_nth [OF assms, of i 0 "\<lambda>n. None"] by (intro exI [of _ i]) (simp add: entry_machine_def)
  qed
  then show ?thesis by (simp add: env_ok_def entry_machine_def)
qed

lemma entry_wf: "wf_em (entry_emitter names)"
  by (simp add: wf_em_def entry_emitter_def)

lemma ret_contains:
  assumes "wf_em E"
  shows "contains (put_term IRet E) E" "returned (put_term IRet E) (point E, m)"
  using assms by (auto simp: contains_def put_term_def wf_em_def returned_def point_def)

section \<open>Properties\<close>

text \<open>C3. Correctness of the emitter: for a program that \<open>verify\<close> accepts, whose statements are plain and can
  be emitted, \<open>emitProgram\<close> succeeds, and the function it emits, run from its entry on the caller's buffers with the
  initial values of the variables on the stack, returns after finitely many steps with the memory that the program
  means and the calls it makes, in order. The names are distinct, the buffers are of floats, and the target's
  comparisons, \<open>max\<close> and \<open>min\<close> agree.\<close>

theorem emitted_code_correct:
  assumes v: "verify_program h p = Inr ()" and pl: "list_all plain_stmt (pr_body p)" and em: "list_all (emits_stmt (pr_args p)) (pr_body p)"
    and st: "locals_typed h (pr_vars p) st"
    and fl: "\<forall>a \<in> set (pr_args p). ty_elem (arg_type (hp_arg h a)) = Float32Ty"
    and nm: "distinct (map (\<lambda>a. arg_name (hp_arg h a)) (pr_args p) @ map (\<lambda>v. var_name (hp_var h v)) (pr_vars p))"
    and lp: "distinct (body_loops (pr_body p))"
    and M: "m_guard M = llvm_guard" and C: "cmp_ok M C"
    and stk: "\<forall>i < length (pr_vars p). stack i = IVal (st_loc st (pr_vars p ! i))"
  shows "\<exists>E n c st'. emit_program h p = Inr E \<and> run_program M h p st = Some st'
    \<and> ir_steps M C E n ((0, 0), entry_machine p stack (st_mem st) (st_out st)) = Some c \<and> returned E c
    \<and> mc_mem (snd c) = st_mem st' \<and> mc_out (snd c) = st_out st'"
proof -
  let ?names = "map (\<lambda>a. arg_name (hp_arg h a)) (pr_args p)" and ?m = "entry_machine p stack (st_mem st) (st_out st)"
  let ?E = "entry_emitter ?names"
  have pro: "emitPrototype h p = Inr ?names" using fl by (simp add: emitPrototype_def)
  have e0: "em_reg ?E = length (pr_args p)" "em_named ?E = name_args ?names 0 (\<lambda>n. None)" "point ?E = (0, 0)"
    by (simp_all add: entry_emitter_def point_def)
  have entry: "env_ok h (pr_args p) [] [] (em_named ?E) (em_index ?E) (\<lambda>k. 0) (\<lambda>L. 0) st (em_reg ?E) ?m"
    unfolding e0 by (rule entry_ok) (use nm in simp)
  have names: "arg_name (hp_arg h a) \<noteq> var_name (hp_var h v)" if "a \<in> set (pr_args p)" "v \<in> set (pr_vars p)" for a v
    using nm that by (auto simp: image_iff disjoint_iff)
  have typed: "has_type (st_loc st v) (var_type (hp_var h v))" if "v \<in> set (pr_vars p)" for v
    using st that by (simp add: locals_typed_def)
  have stack: "mc_slots ?m (mc_next ?m + i) = IVal (st_loc st (pr_vars p ! i))" if "i < length (pr_vars p)" for i
    using stk that by (simp add: entry_machine_def)
  have "distinct (map (\<lambda>v. var_name (hp_var h v)) (pr_vars p @ []))" using nm by simp
  from alloca_vars_runs [OF entry this names typed stack, of M C] obtain "is" r N m1 \<sigma> where
    a: "alloca_vars h (pr_vars p) ?E = Inr ((put_code is r ?E)\<lparr>em_named := N\<rparr>)" "em_reg ?E \<le> r" "run_code M C is ?m = Some m1"
    "env_ok h (pr_args p) (pr_vars p) [] N (em_index ?E) \<sigma> (\<lambda>L. 0) st r m1"
    by (auto simp: env_ok_rev)
  let ?E1 = "(put_code is r ?E)\<lparr>em_named := N\<rparr>"
  have w1: "wf_em ?E1" using put_code_keeps [OF entry_wf a(2)] by simp
  have "simulates M C h (pr_args p) (pr_vars p) [] (emit_all h (pr_body p)) (\<lambda>\<rho>. fold_opt (exec M h \<rho>) (pr_body p))"
    by (rule simulates_all) (use stmt_simulates [OF M C] v pl em lp in \<open>auto simp: verify_program_def list_all_iff distinct_concat_iff\<close>)
  moreover have "env_ok h (pr_args p) (pr_vars p) [] (em_named ?E1) (em_index ?E1) \<sigma> (\<lambda>L. 0) st (em_reg ?E1) m1"
    using a(4) by (simp add: put_code_def)
  ultimately obtain E2 st' where 2: "emit_all h (pr_body p) ?E1 = Inr E2"
    "fold_opt (exec M h (\<lambda>L. 0)) (pr_body p) st = Some st'" "leads M C (pr_vars p) [] \<sigma> (\<lambda>L. 0) ?E1 E2 st' m1"
    using simulatesE [OF _ w1 _ st] by blast
  have k2: "wf_em E2" "builds ?E1 E2" using emit_all_ok [OF emit_ok 2(1) w1] by (simp_all add: emitted_ok_def)
  let ?F = "put_term IRet E2"
  obtain m2 where m2: "reaches M C ?F (point ?E1, m1) (point E2, m2)" "follows (pr_vars p) [] \<sigma> (\<lambda>L. 0) (em_reg ?E1) st' m1 m2"
    using leadsE [OF 2(3) ret_contains(1) [OF k2(1)]] .
  have "contains ?F ?E1" by (rule contains_builds [OF ret_contains(1) [OF k2(1)] k2(2) w1])
  then have "reaches M C ?F (point ?E, ?m) (point ?E1, m1)" using put_code_reaches [OF a(3) _ entry_wf] by simp
  then obtain n where "ir_steps M C ?F n ((0, 0), ?m) = Some (point E2, m2)"
    using reaches_trans [OF _ m2(1)] e0(3) unfolding reaches_def by metis
  moreover have "emit_program h p = Inr ?F" using pro a(1) 2(1) by (simp add: emit_program_def)
  moreover have "mc_mem m2 = st_mem st'" "mc_out m2 = st_out st'" using m2(2) by (simp_all add: follows_def state_at_def)
  ultimately show ?thesis using 2(2) ret_contains(2) [OF k2(1)] unfolding run_program_def by fastforce
qed

text \<open>A target that compares the bits of floats.\<close>

definition bits_cmp :: "fpred \<Rightarrow> f32 \<Rightarrow> f32 \<Rightarrow> bool" where
  "bits_cmp p x y = (case p of OGE \<Rightarrow> y \<le> x | OLT \<Rightarrow> x < y)"

definition bits_machine :: machine where
  "bits_machine =
     \<lparr>m_bin = (\<lambda>k x y. case k of
        BinOpKind.Max \<Rightarrow> if bits_cmp OGE x y then x else y
      | BinOpKind.Min \<Rightarrow> if bits_cmp OLT x y then x else y
      | _ \<Rightarrow> x),
      m_un = (\<lambda>k x. x), m_ipow = (\<lambda>x y. x), m_guard = llvm_guard, m_call = (\<lambda>f vs mem. mem)\<rparr>"

theorem emitted_code_correct_witness:
  "\<forall>stack. \<exists>E n c. emit_program (fst demo_loop) (snd demo_loop) = Inr E
    \<and> ir_steps bits_machine bits_cmp E n ((0, 0), entry_machine (snd demo_loop) stack (\<lambda>a i. 0) []) = Some c \<and> returned E c
    \<and> map (mc_mem (snd c) 1) [0, 1, 5, 6] = [f32_one, f32_one, f32_one, 0]"
proof
  fix stack
  let ?h = "fst demo_loop" and ?p = "snd demo_loop" and ?st = "\<lparr>st_mem = (\<lambda>a i. 0), st_loc = (\<lambda>v. VIdx []), st_out = []\<rparr>"
  have "list_all plain_stmt (pr_body ?p)" "list_all (emits_stmt (pr_args ?p)) (pr_body ?p)" "locals_typed ?h (pr_vars ?p) ?st"
    "\<forall>a \<in> set (pr_args ?p). ty_elem (arg_type (hp_arg ?h a)) = Float32Ty"
    "distinct (map (\<lambda>a. arg_name (hp_arg ?h a)) (pr_args ?p) @ map (\<lambda>v. var_name (hp_var ?h v)) (pr_vars ?p))"
    "distinct (body_loops (pr_body ?p))" "m_guard bits_machine = llvm_guard" "cmp_ok bits_machine bits_cmp"
    "\<forall>i < length (pr_vars ?p). stack i = IVal (st_loc ?st (pr_vars ?p ! i))"
    by (simp_all add: demo_loop_def locals_typed_def scalar_index_def scalarTy_def bits_machine_def cmp_ok_def)
  from emitted_code_correct [OF demo_loop_verified this] obtain E n c st' where
    c: "emit_program ?h ?p = Inr E" "run_program bits_machine ?h ?p ?st = Some st'"
    "ir_steps bits_machine bits_cmp E n ((0, 0), entry_machine ?p stack (\<lambda>a i. 0) []) = Some c" "returned E c" "mc_mem (snd c) = st_mem st'"
    by auto
  have "count_up (Suc 0) 6 0 = [0, 1, 2, 3, 4, 5]" by (simp add: count_up.simps)
  then have "map (st_mem st' 1) [0, 1, 5, 6] = [f32_one, f32_one, f32_one, 0]"
    using c(2) by (auto simp: run_program_def demo_loop_def loop_end_def loop_stride_def store_lanes_def canon_def f32_zero_def f32_one_def)
  with c show "\<exists>E n c. emit_program ?h ?p = Inr E
    \<and> ir_steps bits_machine bits_cmp E n ((0, 0), entry_machine ?p stack (\<lambda>a i. 0) []) = Some c \<and> returned E c
    \<and> map (mc_mem (snd c) 1) [0, 1, 5, 6] = [f32_one, f32_one, f32_one, 0]"
    by (intro exI [of _ E] exI [of _ n] exI [of _ c]) simp
qed

end
