(* ===== verification/Benchmark.thy ===== *)
theory Benchmark
  imports EmitProgram
begin

text \<open>
  The benchmark function of \<open>emitBenchmark\<close>, which calls the program a number of times on pieces of one buffer, and
  the scratch memory that \<open>evaluateCode\<close> gives it. The call of the program is the call of a function of the
  machine; its emission is in theory LlvmEmitter.
\<close>

section \<open>The benchmark function\<close>

text \<open>The pointers into the buffer, at 64-bit offsets in bytes.\<close>

fun bench_params :: "heap \<Rightarrow> arg_ptr list \<Rightarrow> u64 \<Rightarrow> reg \<Rightarrow> (operand list \<times> instr list \<times> reg) res" where
  "bench_params h [] off r = Inr ([], [], r)"
| "bench_params h (a # as) off r =
     bind_res (require (ty_elem (arg_type (hp_arg h a)) = Float32Ty) ''Invalid parameter'') (\<lambda>_.
     bind_res (getElementSizeInBytes (ty_elem (arg_type (hp_arg h a)))) (\<lambda>n.
     bind_res (bench_params h as (off + Type_size (arg_type (hp_arg h a)) * ucast n) (Suc r)) (\<lambda>(xs, is, r').
     Inr (Reg r # xs, IGepByte r (Reg 0) (Const (VIdx [off])) # is, r'))))"

text \<open>The loop that calls the program: entry, header, body and exit are the blocks 0 to 3.\<close>

definition bench_loop :: "string \<Rightarrow> int \<Rightarrow> operand list \<Rightarrow> instr list \<Rightarrow> reg \<Rightarrow> emitter \<Rightarrow> emitter" where
  "bench_loop name iter params is r E =
     (let header = em_blocks E; body = em_blocks E + 1; exit = em_blocks E + 2;
          E = put_code (is @ [IAlloca r, IStore (Const (VIdx [0])) (Reg r)]) (r + 1) E;
          E = goto header (put_term (IBr header) (new_blocks 3 E));
          E = put_code [ILoad (r + 1) TI64 (Reg r), IICmp (r + 2) SLT (Reg (r + 1)) (Const (VIdx [i64_of_int iter]))] (r + 3) E;
          E = goto body (put_term (ICondBr (Reg (r + 2)) body exit) E);
          E = put_code [ICall name params, ILoad (r + 3) TI64 (Reg r), IArith (r + 4) False Add (Reg (r + 3)) (Const (VIdx [1])),
                IStore (Reg (r + 4)) (Reg r)] (r + 5) E;
          E = goto exit (put_term (IBr header) E)
      in put_term IRet E)"

definition emitBenchmark :: "heap \<Rightarrow> program \<Rightarrow> int \<Rightarrow> emitter res" where
  "emitBenchmark h p iter =
     bind_res (bench_params h (pr_args p) 0 1) (\<lambda>(params, is, r).
     Inr (bench_loop (pr_name p) iter params is r (entry_emitter [''mem''])))"

section \<open>The scratch memory\<close>

fun scratch_size :: "heap \<Rightarrow> arg_ptr list \<Rightarrow> u64 \<Rightarrow> u64 res" where
  "scratch_size h [] memSz = Inr memSz"
| "scratch_size h (a # as) memSz =
     bind_res (getSizeInBytes (arg_type (hp_arg h a))) (\<lambda>n. scratch_size h as (memSz + ucast n))"

text \<open>The values -2, -1, 0, 1 over and over, as bit patterns.\<close>

definition init_value :: "nat \<Rightarrow> f32" where
  "init_value i = [0xC0000000, 0xBF800000, 0, 0x3F800000] ! (i mod 4)"

definition initBuffer :: "int \<Rightarrow> f32 list" where
  "initBuffer len = map init_value [0..<nat len]"

text \<open>The two functions that are run, and the memory they are run on. The length of the buffer is a signed integer.\<close>

definition evaluateCode :: "heap \<Rightarrow> program \<Rightarrow> int \<Rightarrow> (emitter \<times> emitter \<times> f32 list) res" where
  "evaluateCode h p iter =
     bind_res (emit_program h p) (\<lambda>f.
     bind_res (emitBenchmark h p iter) (\<lambda>b.
     bind_res (scratch_size h (pr_args p) 0) (\<lambda>memSz.
     Inr (f, b, initBuffer (sint (ucast (memSz div 4) :: u32))))))"

text \<open>The functions of an object file, with the benchmark unless \<open>iter\<close> is zero, and those of a single run on given
  memory.\<close>

definition emitProgramCode :: "heap \<Rightarrow> program \<Rightarrow> int \<Rightarrow> emitter list res" where
  "emitProgramCode h p iter =
     bind_res (emit_program h p) (\<lambda>f.
     if iter \<noteq> 0 then bind_res (emitBenchmark h p iter) (\<lambda>b. Inr [f, b]) else Inr [f])"

definition runOnce :: "heap \<Rightarrow> program \<Rightarrow> (emitter \<times> emitter) res" where
  "runOnce h p = bind_res (emit_program h p) (\<lambda>f. bind_res (emitBenchmark h p 1) (\<lambda>b. Inr (f, b)))"

section \<open>Where the buffers are\<close>

definition elements :: "heap \<Rightarrow> arg_ptr \<Rightarrow> nat" where
  "elements h a = prod_list (map unat (ty_sizes (arg_type (hp_arg h a))))"

fun starts :: "heap \<Rightarrow> nat \<Rightarrow> arg_ptr list \<Rightarrow> nat list" where
  "starts h s [] = []"
| "starts h s (a # as) = s # starts h (s + elements h a) as"

definition float_args :: "heap \<Rightarrow> arg_ptr list \<Rightarrow> bool" where
  "float_args h as \<longleftrightarrow> (\<forall>a \<in> set as. ty_elem (arg_type (hp_arg h a)) = Float32Ty \<and> length (ty_sizes (arg_type (hp_arg h a))) < 256)"

lemma foldl_words: "foldl (\<lambda>s d. s * ucast d) (of_nat n) ds = (of_nat (n * prod_list (map unat ds)) :: u64)"
proof (induction ds arbitrary: n)
  case (Cons d ds)
  have "(of_nat n * ucast d :: u64) = of_nat (n * unat d)" by simp
  then show ?case using Cons.IH [of "n * unat d"] by (simp add: mult.assoc)
qed simp

lemma Type_size_elements:
  "length (ty_sizes (arg_type (hp_arg h a))) < 256 \<Longrightarrow> Type_size (arg_type (hp_arg h a)) = of_nat (elements h a)"
  using foldl_words [of 1] by (simp add: Type_size_def elements_def)

lemma size_in_bytes:
  assumes "ty_elem (arg_type (hp_arg h a)) = Float32Ty" "4 * elements h a < 2 ^ 32"
  shows "\<exists>n. getSizeInBytes (arg_type (hp_arg h a)) = Inr n \<and> unat n = 4 * elements h a"
proof -
  have "unat (getSize (arg_type (hp_arg h a))) = elements h a"
    using getSize_unat [of "arg_type (hp_arg h a)"] assms(2) by (simp add: elements_def)
  then have "unat (getSize (arg_type (hp_arg h a)) * 4) = 4 * elements h a"
    using assms(2) by (simp add: unat_mult_lem [THEN iffD1] unat_word_ariths)
  then show ?thesis using assms(1) by (simp add: getSizeInBytes_def getElementSizeInBytes_def)
qed

lemma scratch_sum:
  "float_args h as \<Longrightarrow> \<forall>a \<in> set as. 4 * elements h a < 2 ^ 32 \<Longrightarrow>
     scratch_size h as (of_nat n) = Inr (of_nat (n + 4 * sum_list (map (elements h) as)))"
proof (induction as arbitrary: n)
  case (Cons a as)
  obtain k where k: "getSizeInBytes (arg_type (hp_arg h a)) = Inr k" "unat k = 4 * elements h a"
    using size_in_bytes [of h a] Cons.prems by (auto simp: float_args_def)
  have "(of_nat n + ucast k :: u64) = of_nat (n + 4 * elements h a)" using k(2) by (metis of_nat_add of_nat_unat)
  moreover have "float_args h as" using Cons.prems(1) by (simp add: float_args_def)
  ultimately show ?case using Cons.IH [of "n + 4 * elements h a"] Cons.prems(2) k(1) by (simp add: algebra_simps)
qed simp

text \<open>The buffers follow one another and end at the end of the scratch memory.\<close>

lemma starts_length [simp]: "length (starts h s as) = length as"
  by (induction as arbitrary: s) simp_all

lemma starts_nth: "k < length as \<Longrightarrow> starts h s as ! k = s + sum_list (map (elements h) (take k as))"
proof (induction as arbitrary: s k)
  case (Cons a as)
  then show ?case by (cases k) simp_all
qed simp

lemma starts_next:
  assumes "k < length as"
  shows "starts h s as ! k + elements h (as ! k) = (if Suc k < length as then starts h s as ! Suc k else s + sum_list (map (elements h) as))"
proof (cases "Suc k < length as")
  case True
  then show ?thesis using assms starts_nth [of k as h s] starts_nth [of "Suc k" as h s] by (simp add: take_Suc_conv_app_nth)
next
  case False
  then have as: "as = take k as @ [as ! k]" using take_Suc_conv_app_nth [OF assms] by simp
  have "sum_list (map (elements h) as) = sum_list (map (elements h) (take k as)) + elements h (as ! k)" by (subst as) simp
  then show ?thesis using assms False starts_nth [of k as h s] by simp
qed

section \<open>The run of the benchmark\<close>

lemma byte_offset:
  assumes "mc_regs m 0 = IVal (VPtr a b)" "4 * s < 2 ^ 64"
  shows "exec_instr M C (IGepByte r (Reg 0) (Const (VIdx [of_nat (4 * s)]))) m = Some (set_reg r (IVal (VPtr a (b + of_nat s))) m)"
proof -
  have u: "unat (of_nat (4 * s) :: u64) = 4 * s" using assms(2) by (simp add: unat_of_nat del: of_nat_mult)
  have "unat ((of_nat (4 * s) :: u64) mod 4) = 0" unfolding unat_mod u by simp
  then have "(of_nat (4 * s) :: u64) mod 4 = 0" by (simp only: unat_eq_0)
  moreover have "unat ((of_nat (4 * s) :: u64) div 4) = unat (of_nat s :: u64)"
    unfolding unat_div u using assms(2) by (simp add: unat_of_nat)
  then have "(of_nat (4 * s) :: u64) div 4 = of_nat s" by (simp only: word_unat_eq_iff)
  ultimately show ?thesis using assms(1) by (simp add: gep_byte_def del: of_nat_mult) (simp add: opval_def)
qed

lemma params_code:
  "float_args h as \<Longrightarrow> mc_regs m 0 = IVal (VPtr a b) \<Longrightarrow> 0 < r \<Longrightarrow> 4 * (s + sum_list (map (elements h) as)) < 2 ^ 64 \<Longrightarrow>
    \<exists>xs is r' m'. bench_params h as (of_nat (4 * s)) r = Inr (xs, is, r') \<and> run_code M C is m = Some m' \<and> quiet r m m' \<and> r \<le> r'
      \<and> map (opval m') xs = map (\<lambda>s. IVal (VPtr a (b + of_nat s))) (starts h s as) \<and> (\<forall>x \<in> set xs. op_below r' x)"
proof (induction as arbitrary: r s m)
  case (Cons c as)
  let ?m = "set_reg r (IVal (VPtr a (b + of_nat s))) m"
  have c: "float_args h as" "ty_elem (arg_type (hp_arg h c)) = Float32Ty" "Type_size (arg_type (hp_arg h c)) = of_nat (elements h c)"
    using Cons.prems(1) Type_size_elements [of h c] by (simp_all add: float_args_def)
  have off: "of_nat (4 * s) + Type_size (arg_type (hp_arg h c)) * ucast (4 :: u32) = (of_nat (4 * (s + elements h c)) :: u64)"
    unfolding c(3) by (simp add: ring_distribs mult.commute [of _ 4])
  have "mc_regs ?m 0 = IVal (VPtr a b)" using Cons.prems(2,3) by (simp add: set_reg_def)
  have "4 * (s + elements h c + sum_list (map (elements h) as)) < 2 ^ 64" using Cons.prems(4) by (simp add: algebra_simps)
  from Cons.IH [OF c(1) \<open>mc_regs ?m 0 = _\<close> zero_less_Suc this] obtain xs "is" r' m' where
    IH: "bench_params h as (of_nat (4 * (s + elements h c))) (Suc r) = Inr (xs, is, r')" "run_code M C is ?m = Some m'" "quiet (Suc r) ?m m'"
      "Suc r \<le> r'" "map (opval m') xs = map (\<lambda>s. IVal (VPtr a (b + of_nat s))) (starts h (s + elements h c) as)" "\<forall>x \<in> set xs. op_below r' x"
    by blast
  have "opval m' (Reg r) = IVal (VPtr a (b + of_nat s))" using opval_quiet [OF IH(3), of "Reg r"] by simp
  moreover have "quiet r m m'" using quiet_trans [of r m ?m "Suc r" m'] IH(3) by simp
  moreover have "bench_params h (c # as) (of_nat (4 * s)) r = Inr (Reg r # xs, IGepByte r (Reg 0) (Const (VIdx [of_nat (4 * s)])) # is, r')"
    using c(2) IH(1) off by (simp add: getElementSizeInBytes_def del: of_nat_mult)
  ultimately show ?case using IH byte_offset [OF Cons.prems(2), of s M C r] Cons.prems(4)
    by (intro exI [of _ "Reg r # xs"] exI [of _ "IGepByte r (Reg 0) (Const (VIdx [of_nat (4 * s)])) # is"] exI [of _ r'] exI [of _ m'])
      (simp del: exec_instr.simps bench_params.simps of_nat_mult)
qed simp

lemma block_run: "run_code M C (fn_code F b) m = Some m' \<Longrightarrow> reaches M C F ((b, 0), m) ((b, length (fn_code F b)), m')"
  using code_reaches [of M C "fn_code F b" m m' F b "[]" "[]"] by simp

lemma bench_loop_code:
  "fn_code (bench_loop name iter params is r (entry_emitter ns)) 0 = is @ [IAlloca r, IStore (Const (VIdx [0])) (Reg r)]"
  "fn_term (bench_loop name iter params is r (entry_emitter ns)) 0 = Some (IBr 1)"
  "fn_code (bench_loop name iter params is r (entry_emitter ns)) 1 =
     [ILoad (r + 1) TI64 (Reg r), IICmp (r + 2) SLT (Reg (r + 1)) (Const (VIdx [i64_of_int iter]))]"
  "fn_term (bench_loop name iter params is r (entry_emitter ns)) 1 = Some (ICondBr (Reg (r + 2)) 2 3)"
  "fn_code (bench_loop name iter params is r (entry_emitter ns)) 2 = [ICall name params, ILoad (r + 3) TI64 (Reg r),
     IArith (r + 4) False Add (Reg (r + 3)) (Const (VIdx [1])), IStore (Reg (r + 4)) (Reg r)]"
  "fn_term (bench_loop name iter params is r (entry_emitter ns)) 2 = Some (IBr 1)"
  "fn_code (bench_loop name iter params is r (entry_emitter ns)) 3 = []"
  "fn_term (bench_loop name iter params is r (entry_emitter ns)) 3 = Some IRet"
  by (simp_all add: bench_loop_def Let_def entry_emitter_def put_code_def put_term_def goto_def new_blocks_def)

text \<open>The counter is in its slot, the parameters are in registers below.\<close>

definition bench_at :: "reg \<Rightarrow> operand list \<Rightarrow> val list \<Rightarrow> nat \<Rightarrow> mach \<Rightarrow> bool" where
  "bench_at r xs vs i m \<longleftrightarrow> map (opval m) xs = map IVal vs \<and> (\<forall>x \<in> set xs. op_below r x)
     \<and> (\<exists>k. mc_regs m r = ISlot k \<and> mc_slots m k = IVal (VIdx [of_nat i]))"

lemma bench_header:
  assumes "bench_at r xs vs i m" "in_int iter" "i \<le> nat iter"
  shows "\<exists>m'. run_code M C [ILoad (r + 1) TI64 (Reg r), IICmp (r + 2) SLT (Reg (r + 1)) (Const (VIdx [i64_of_int iter]))] m = Some m'
    \<and> quiet (Suc r) m m' \<and> opval m' (Reg (r + 2)) = IBits [int i < iter] \<and> bench_at r xs vs i m'"
proof -
  obtain k where k: "mc_regs m r = ISlot k" "mc_slots m k = IVal (VIdx [of_nat i])" using assms(1) by (auto simp: bench_at_def)
  have "int i < 2 ^ 31" using assms(2,3) by (cases "0 \<le> iter") (auto simp: in_int_def)
  then have "in_i64 (int i)" "in_i64 iter" using assms(2) by (auto simp: in_int_def in_i64_def)
  then have s: "sint (of_nat i :: i64) = int i" "sint (i64_of_int iter) = iter"
    using sint_word_of_int_i64 [of "int i"] sint_word_of_int_i64 [of iter] by (simp_all add: i64_of_int_def)
  let ?m1 = "set_reg (r + 1) (IVal (VIdx [of_nat i])) m" and ?m = "set_reg (r + 2) (IBits [int i < iter]) (set_reg (r + 1) (IVal (VIdx [of_nat i])) m)"
  have "exec_instr M C (ILoad (r + 1) TI64 (Reg r)) m = Some ?m1" using k by (simp add: load_from_def opval_def)
  moreover have "exec_instr M C (IICmp (r + 2) SLT (Reg (r + 1)) (Const (VIdx [i64_of_int iter]))) ?m1 = Some ?m"
    using s by (simp add: icmp_def)
  moreover have q: "quiet (Suc r) m ?m" by (simp add: quiet_def set_reg_def)
  moreover have "opval ?m x = opval m x" if "x \<in> set xs" for x
    using opval_quiet [OF q] op_below_mono [of r x "Suc r"] assms(1) that by (simp add: bench_at_def)
  then have "map (opval ?m) xs = map (opval m) xs" by simp
  with assms(1) k have "bench_at r xs vs i ?m" unfolding bench_at_def
    by (intro conjI) (simp only:, simp, simp add: set_reg_def)
  ultimately show ?thesis by (simp del: exec_instr.simps)
qed

lemma bench_body:
  assumes "bench_at r xs vs i m"
  shows "\<exists>m'. run_code M C [ICall name xs, ILoad (r + 3) TI64 (Reg r), IArith (r + 4) False Add (Reg (r + 3)) (Const (VIdx [1])),
      IStore (Reg (r + 4)) (Reg r)] m = Some m'
    \<and> bench_at r xs vs (Suc i) m' \<and> mc_mem m' = m_call M name vs (mc_mem m) \<and> mc_out m' = mc_out m @ [(name, vs)]"
proof -
  obtain k where k: "mc_regs m r = ISlot k" "mc_slots m k = IVal (VIdx [of_nat i])" using assms by (auto simp: bench_at_def)
  have "those (map (\<lambda>x. the_val (opval m x)) xs) = those (map the_val (map (opval m) xs))" by (simp add: comp_def)
  also have "map (opval m) xs = map IVal vs" using assms by (simp add: bench_at_def)
  also have "those (map the_val (map IVal vs)) = Some vs" by (induction vs) (simp_all add: the_val_def)
  finally have vs: "those (map (\<lambda>x. the_val (opval m x)) xs) = Some vs" .
  let ?m1 = "m\<lparr>mc_mem := m_call M name vs (mc_mem m), mc_out := mc_out m @ [(name, vs)]\<rparr>"
  let ?m2 = "set_reg (r + 3) (IVal (VIdx [of_nat i])) ?m1"
  let ?m3 = "set_reg (r + 4) (IVal (VIdx [of_nat (Suc i)])) ?m2"
  let ?m = "?m3\<lparr>mc_slots := (mc_slots m)(k := IVal (VIdx [of_nat (Suc i)]))\<rparr>"
  have "exec_instr M C (ICall name xs) m = Some ?m1" using vs by simp
  moreover have "exec_instr M C (ILoad (r + 3) TI64 (Reg r)) ?m1 = Some ?m2" using k by (simp add: load_from_def opval_def)
  moreover have "exec_instr M C (IArith (r + 4) False Add (Reg (r + 3)) (Const (VIdx [1]))) ?m2 = Some ?m3"
    by (simp add: arith_def add.commute)
  moreover have "exec_instr M C (IStore (Reg (r + 4)) (Reg r)) ?m3 = Some ?m"
    using k by (simp add: store_at_def opval_def set_reg_def)
  moreover have "opval ?m x = opval m x" if "x \<in> set xs" for x
    using assms that by (cases x) (auto simp: bench_at_def opval_def set_reg_def)
  then have "map (opval ?m) xs = map (opval m) xs" by simp
  with assms k have "bench_at r xs vs (Suc i) ?m" unfolding bench_at_def
    by (intro conjI) (simp only:, simp, simp add: set_reg_def)
  ultimately show ?thesis by (simp add: set_reg_def del: exec_instr.simps)
qed

lemma bench_trips:
  assumes F: "F = bench_loop name iter xs is r (entry_emitter ns)" and iter: "in_int iter"
  shows "bench_at r xs vs i m \<Longrightarrow> i \<le> nat iter \<Longrightarrow>
    \<exists>m'. reaches M C F ((1, 0), m) ((3, 0), m') \<and> mc_mem m' = (m_call M name vs ^^ (nat iter - i)) (mc_mem m)
      \<and> mc_out m' = mc_out m @ replicate (nat iter - i) (name, vs)"
proof (induction "nat iter - i" arbitrary: i m)
  case 0
  obtain m1 where m1: "run_code M C (fn_code F 1) m = Some m1" "quiet (Suc r) m m1" "opval m1 (Reg (r + 2)) = IBits [int i < iter]"
    using bench_header [OF 0(2) iter 0(3), of M C] unfolding F bench_loop_code by blast
  have t: "fn_term F 1 = Some (ICondBr (Reg (r + 2)) 2 3)" unfolding F by (rule bench_loop_code)
  have "\<not> int i < iter" using 0(1) by simp
  then have "reaches M C F ((1, 0), m) ((3, 0), m1)"
    using reaches_trans [OF block_run [OF m1(1)] branch_reaches [OF t m1(3)]] by simp
  then show ?case using m1(2) 0(1) by (auto simp: quiet_def)
next
  case (Suc n)
  obtain m1 where m1: "run_code M C (fn_code F 1) m = Some m1" "quiet (Suc r) m m1" "opval m1 (Reg (r + 2)) = IBits [int i < iter]"
    "bench_at r xs vs i m1"
    using bench_header [OF Suc(3) iter Suc(4), of M C] unfolding F bench_loop_code by blast
  obtain m2 where m2: "run_code M C (fn_code F 2) m1 = Some m2" "bench_at r xs vs (Suc i) m2" "mc_mem m2 = m_call M name vs (mc_mem m1)"
      "mc_out m2 = mc_out m1 @ [(name, vs)]"
    using bench_body [OF m1(4), of M C name] unfolding F bench_loop_code by blast
  have t: "fn_term F 1 = Some (ICondBr (Reg (r + 2)) 2 3)" "fn_term F 2 = Some (IBr 1)" unfolding F by (rule bench_loop_code)+
  have "int i < iter" using Suc(2) by linarith
  then have to: "reaches M C F ((1, 0), m) ((2, 0), m1)"
    using reaches_trans [OF block_run [OF m1(1)] branch_reaches [OF t(1) m1(3)]] by simp
  have again: "reaches M C F ((2, 0), m1) ((1, 0), m2)"
    using reaches_trans [OF block_run [OF m2(1)] jump_reaches [OF t(2)]] by simp
  obtain m' where m': "reaches M C F ((1, 0), m2) ((3, 0), m')" "mc_mem m' = (m_call M name vs ^^ (nat iter - Suc i)) (mc_mem m2)"
      "mc_out m' = mc_out m2 @ replicate (nat iter - Suc i) (name, vs)"
    using Suc(1) [OF _ m2(2)] Suc(2) by (metis Suc_diff_Suc Suc_leI diff_Suc_1 zero_less_Suc zero_less_diff)
  have n: "nat iter - i = Suc (nat iter - Suc i)" using Suc(2) by linarith
  have "mc_mem m1 = mc_mem m" "mc_out m1 = mc_out m" using m1(2) by (simp_all add: quiet_def)
  then have "mc_mem m' = (m_call M name vs ^^ (nat iter - i)) (mc_mem m)" "mc_out m' = mc_out m @ replicate (nat iter - i) (name, vs)"
    unfolding n using m'(2,3) m2(3,4) by (simp_all add: funpow_swap1)
  with reaches_trans [OF to reaches_trans [OF again m'(1)]] show ?case by blast
qed

section \<open>Properties\<close>

text \<open>C27. The benchmark: when the bytes of every buffer fit in 32 bits and all of them in 64, the function
  \<open>benchmark\<close> calls the program exactly \<open>iter\<close> times (not at all when \<open>iter\<close> is negative), always with the same
  pointers, and returns; the buffers lie one after the other from the start of the scratch memory to its end, so
  they neither overlap nor stick out.\<close>

theorem benchmark_runs:
  assumes a: "float_args h (pr_args p)" and b: "\<forall>a \<in> set (pr_args p). 4 * elements h a < 2 ^ 32"
    and s: "4 * sum_list (map (elements h) (pr_args p)) < 2 ^ 64" and iter: "in_int iter"
  shows "\<exists>B n c ks. emitBenchmark h p iter = Inr B \<and> length ks = length (pr_args p)
    \<and> (let ps = map (\<lambda>k. VPtr base (of_nat k)) ks in
         ir_steps M C B n ((0, 0), entry_machine (p\<lparr>pr_args := [base]\<rparr>) stack mem out) = Some c \<and> returned B c
         \<and> mc_mem (snd c) = (m_call M (pr_name p) ps ^^ nat iter) mem \<and> mc_out (snd c) = out @ replicate (nat iter) (pr_name p, ps))
    \<and> scratch_size h (pr_args p) 0 = Inr (of_nat (4 * sum_list (map (elements h) (pr_args p))))
    \<and> (\<forall>i < length ks. ks ! i + elements h (pr_args p ! i) = (if Suc i < length ks then ks ! Suc i else sum_list (map (elements h) (pr_args p))))"
proof -
  let ?m = "entry_machine (p\<lparr>pr_args := [base]\<rparr>) stack mem out" and ?ks = "starts h 0 (pr_args p)"
  let ?ps = "map (\<lambda>k. VPtr base (of_nat k)) ?ks"
  have "mc_regs ?m 0 = IVal (VPtr base 0)" by (simp add: entry_machine_def)
  from params_code [OF a this, of 1 0 M C] s obtain xs "is" r m1 where
    pc: "bench_params h (pr_args p) 0 1 = Inr (xs, is, r)" "run_code M C is ?m = Some m1" "quiet 1 ?m m1" "1 \<le> r"
      "map (opval m1) xs = map IVal ?ps" "\<forall>x \<in> set xs. op_below r x" by (auto simp: comp_def)
  let ?B = "bench_loop (pr_name p) iter xs is r (entry_emitter [''mem''])"
  let ?m2 = "(set_reg r (ISlot (mc_next m1)) (m1\<lparr>mc_next := Suc (mc_next m1)\<rparr>))\<lparr>mc_slots := (mc_slots m1)(mc_next m1 := IVal (VIdx [0]))\<rparr>"
  have "run_code M C (is @ [IAlloca r, IStore (Const (VIdx [0])) (Reg r)]) ?m = Some ?m2"
    using pc(2) by (simp add: run_code_append store_at_def) (simp add: set_reg_def)
  then have run: "run_code M C (fn_code ?B 0) ?m = Some ?m2" unfolding bench_loop_code .
  have "opval ?m2 x = opval m1 x" if "x \<in> set xs" for x using pc(6) that by (cases x) (auto simp: opval_def set_reg_def)
  then have "map (opval ?m2) xs = map (opval m1) xs" by (rule map_cong [OF refl])
  then have "map (opval ?m2) xs = map IVal ?ps" unfolding pc(5) .
  then have "bench_at r xs ?ps 0 ?m2" using pc(6) by (simp add: bench_at_def) (simp add: set_reg_def)
  from bench_trips [OF refl iter this] obtain m' where
    m': "reaches M C ?B ((1, 0), ?m2) ((3, 0), m')" "mc_mem m' = (m_call M (pr_name p) ?ps ^^ nat iter) mem"
      "mc_out m' = out @ replicate (nat iter) (pr_name p, ?ps)"
    using pc(3) by (force simp: quiet_def set_reg_def entry_machine_def)
  have "reaches M C ?B ((0, 0), ?m) ((1, 0), ?m2)"
    using reaches_trans [OF block_run [OF run] jump_reaches [OF bench_loop_code(2)]] by simp
  from reaches_trans [OF this m'(1)] obtain n where "ir_steps M C ?B n ((0, 0), ?m) = Some ((3, 0), m')" unfolding reaches_def by blast
  moreover have "returned ?B ((3, 0), m')" by (simp add: returned_def bench_loop_code)
  moreover have "emitBenchmark h p iter = Inr ?B" using pc(1) by (simp add: emitBenchmark_def)
  moreover have "scratch_size h (pr_args p) 0 = Inr (of_nat (4 * sum_list (map (elements h) (pr_args p))))"
    using scratch_sum [OF a b, of 0] by simp
  ultimately show ?thesis using m'(2,3) starts_next [of _ "pr_args p" h 0]
    by (intro exI [of _ ?B] exI [of _ n] exI [of _ "((3, 0), m')"] exI [of _ ?ks]) (simp add: Let_def)
qed

theorem benchmark_runs_witness:
  "\<exists>B n c. emitBenchmark (fst demo_loop) ((snd demo_loop)\<lparr>pr_args := [1, 3]\<rparr>) 10 = Inr B
    \<and> ir_steps bits_machine bits_cmp B n ((0, 0), entry_machine ((snd demo_loop)\<lparr>pr_args := [7]\<rparr>) (\<lambda>k. ISlot 0) (\<lambda>a i. 0) []) = Some c
    \<and> returned B c \<and> mc_out (snd c) = replicate 10 (''f'', [VPtr 7 0, VPtr 7 6])
    \<and> scratch_size (fst demo_loop) [1, 3] 0 = Inr 48"
proof -
  let ?h = "fst demo_loop" and ?p = "(snd demo_loop)\<lparr>pr_args := [1, 3]\<rparr>"
  have e: "elements ?h a = 6" for a by (simp add: demo_loop_def elements_def)
  have "float_args ?h (pr_args ?p)" by (simp add: float_args_def demo_loop_def)
  from benchmark_runs [OF this, where iter = 10 and M = bits_machine and C = bits_cmp and base = 7 and stack = "\<lambda>k. ISlot 0"
      and mem = "\<lambda>a i. 0" and out = "[]"] obtain B n c ks where
    b: "emitBenchmark ?h ?p 10 = Inr B" "length ks = Suc (Suc 0)"
      "ir_steps bits_machine bits_cmp B n ((0, 0), entry_machine (?p\<lparr>pr_args := [7]\<rparr>) (\<lambda>k. ISlot 0) (\<lambda>a i. 0) []) = Some c" "returned B c"
      "mc_out (snd c) = replicate 10 (pr_name ?p, map (\<lambda>k. VPtr 7 (of_nat k)) ks)"
      "scratch_size ?h [1, 3] 0 = Inr 48"
      "\<forall>i < length ks. ks ! i + 6 = (if Suc i < length ks then ks ! Suc i else 12)"
    by (auto simp: e in_int_def Let_def)
  have "ks ! 0 + 6 = ks ! 1" "ks ! 1 + 6 = 12" using b(2) b(7) [rule_format, of 0] b(7) [rule_format, of 1] by simp_all
  with b(2) have "ks = [0, 6]" by (auto simp: length_Suc_conv)
  moreover have "pr_name ?p = ''f''" "?p\<lparr>pr_args := [7]\<rparr> = (snd demo_loop)\<lparr>pr_args := [7]\<rparr>" by (simp_all add: demo_loop_def)
  ultimately show ?thesis using b by (intro exI [of _ B] exI [of _ n] exI [of _ c]) simp
qed

text \<open>The bytes of a buffer are counted in 32 bits, but the offsets in 64: a buffer of 65536 times 65536 floats adds
  nothing to the scratch memory, while the next buffer starts behind it.\<close>

lemma scratch_too_small:
  "\<exists>h. scratch_size h [1, 3] 0 = Inr 24
     \<and> (\<exists>xs is r. bench_params h [1, 3] 0 1 = Inr (xs, is, r)
          \<and> is ! 1 = IGepByte 2 (Reg 0) (Const (VIdx [17179869184])))"
proof -
  let ?h = "(fst demo_loop)\<lparr>hp_arg := (\<lambda>a. \<lparr>arg_name = ''A'', arg_type = \<lparr>ty_sizes = if a = 1 then [65536, 65536] else [6],
    ty_names = [], ty_elem = Float32Ty\<rparr>\<rparr>)\<rparr>"
  have "scratch_size ?h [1, 3] 0 = Inr 24" by (simp add: getSizeInBytes_def getSize_def getElementSizeInBytes_def)
  moreover have "\<exists>xs is r. bench_params ?h [1, 3] 0 1 = Inr (xs, is, r) \<and> is ! 1 = IGepByte 2 (Reg 0) (Const (VIdx [17179869184]))"
    by (simp add: Type_size_def getElementSizeInBytes_def)
  ultimately show ?thesis by blast
qed

text \<open>When the buffers fit, \<open>initBuffer\<close> fills the scratch memory to its end.\<close>

lemma scratch_filled:
  assumes "n < 2 ^ 31"
  shows "length (initBuffer (sint (ucast ((of_nat (4 * n) :: u64) div 4) :: u32))) = n"
proof -
  have u: "unat (of_nat (4 * n) :: u64) = 4 * n" using assms by (simp add: unat_of_nat del: of_nat_mult)
  have "unat ((of_nat (4 * n) :: u64) div 4) = unat (of_nat n :: u64)" unfolding unat_div u using assms by (simp add: unat_of_nat)
  then have "(of_nat (4 * n) :: u64) div 4 = of_nat n" by (simp only: word_unat_eq_iff)
  moreover have "unat (of_nat n :: u32) = n" using assms by (simp add: unat_of_nat)
  then have "sint (of_nat n :: u32) = int n" using assms unfolding sint_uint uint_nat
    by (simp add: signed_take_bit_int_eq_self del: of_nat_unat)
  moreover have "(ucast (of_nat n :: u64) :: u32) = of_nat n" using assms by (simp add: unsigned_of_nat take_bit_nat_eq_self)
  ultimately show ?thesis by (simp add: initBuffer_def del: of_nat_mult)
qed

end
