(* ===== verification/Spec2Isabelle.thy ===== *)
theory Spec2Isabelle
  imports Hashing Printing Verify CloneFacts Handles Interchange Schedules TileChecks Pragmas RoundTrip ParserRun DriverFacts Tuning TypeSafety BytecodeFile Benchmark
begin

text \<open>
  A verification development for bistra, a compiler for tensor programs (C++, \<open>src/\<close>). A program is a
  tree of loops, range checks, calls and stores over named buffers; the compiler parses it, rewrites
  its loops (by pragmas or by a search), and hands it to LLVM. The development translates the
  program representation, the parser, the analyses, the transformations and the bytecode into functions, gives
  programs the meaning of the code that the LLVM emitter produces, and proves that the
  transformations keep it, that the bytecode reads back what was written, and that the edits of the
  tree keep its ownership structure.

  \<^bold>\<open>Conventions.\<close> A C++ integer is a word of its width, arithmetic on a signed \<open>int\<close> is exact and
  leaving the range is an error. A float is its IEEE pattern (theory Floats); its arithmetic is a
  parameter, the record \<open>machine\<close> of theory Semantics for the target and \<open>host\<close> of theory Simplify for
  the compiler. A function that may fail returns \<open>'a res\<close>, that is \<open>error + 'a\<close>: an assertion that does
  not hold is \<open>AssertFail\<close>, undefined behaviour is \<open>UB\<close>. Assertions are taken as enabled. Expressions
  and statements are trees; loops, arguments and variables, which are referred to from elsewhere,
  are pointers into the record \<open>heap\<close>, where \<open>hp_next\<close> is the next address that \<open>new\<close> returns. The tree
  with its owning handles (\<open>UseDef.h\<close>) has a model of its own, an explicit store, in theory Handles.

  \<^bold>\<open>Program representation\<close> (\<open>include/bistra/Program\<close>, \<open>lib/Program\<close>).
  \<^item> Types, Utils, Floats: \<open>Types.h\<close>, \<open>Types.cpp\<close>, \<open>Utils.cpp\<close>, the bits of a float.
  \<^item> Program: \<open>Program.h\<close>; the node classes are the datatypes \<open>expr\<close> and \<open>stmt\<close>, one constructor per
    class, constructors with assertions are \<open>new_...\<close> functions.
  \<^item> Hashing, Printing, Verify, Clone: the \<open>hash\<close>, \<open>compare\<close>, \<open>dump\<close>, \<open>verify\<close> and \<open>clone\<close> methods of
    \<open>Program.cpp\<close>. Equal programs have equal hashes. CloneFacts: a clone has the same hash and shares no
    object with its original. What the verifier accepts is scoped, which SemFacts ties to the run.
  \<^item> Handles: \<open>ASTHandle\<close> and the edits of \<open>Scope\<close>, with the invariant that owners and owned agree.

  \<^bold>\<open>Analysis\<close> (\<open>lib/Analysis\<close>): theory Analysis has the visitors as lists of events and the queries of
  \<open>Value.cpp\<close> and \<open>Program.cpp\<close>; theory Ranges shows that the integer ranges contain the values.

  \<^bold>\<open>Meaning.\<close> Theory Semantics is the effect of the code that \<open>LLVMBackend.cpp\<close> emits for each node, as
  an evaluator of expressions and statements over buffers and local variables (\<open>eval\<close>, \<open>exec\<close>); a
  result \<open>None\<close> is a run that traps or is undefined. The range check is a field of \<open>machine\<close>, because the
  emitted one has no effect (\<open>llvm_guard\<close>, \<open>llvm_range_check_has_no_effect\<close>): results about \<open>range_guard\<close> speak of
  the check as it is meant, results about any machine also of the emitted code. Theory SemFacts has what a run depends on,
  substitution of an index, and the run of a clone.

  \<^bold>\<open>Transformations\<close> (\<open>lib/Transforms\<close>).
  \<^item> Transforms: \<open>tile\<close>, \<open>split\<close>, \<open>splitScopes\<close>, \<open>distributeAllLoops\<close>, \<open>hoist\<close>, \<open>sink\<close>, \<open>unrollLoop\<close>,
    \<open>peelLoop\<close>, each as a function on one loop (\<open>tile_loop\<close>, ...) applied to a program by \<open>on_loop\<close>.
  \<^item> Rewriting: the contract of such a function, locale \<open>loop_rewriting\<close>, and what follows for the whole
    program; LoopRewrites interprets it for tile, peel and unroll; Pipeline extends the contract to
    sequences of transformations.
  \<^item> Interchange: distribution and interchange. What has to commute is asked of the iterations the loops
    run (\<open>iterations\<close>) and of no other values of the counters.
  \<^item> Vectorize, Widening, Vectorizing: \<open>vectorize\<close> and \<open>widen\<close>; both meet the contract of Rewriting on a single
    store, vectorization where the lanes do not depend on each other. Schedules: sequences of all these steps.
  \<^item> Fusion: \<open>Dependence.cpp\<close> and \<open>fuse\<close>. Licm: \<open>promoteLICM\<close> and \<open>changeLayout\<close>.
  \<^item> Pragmas: \<open>Pragma.h\<close> and \<open>applyPragmaCommand\<close>.
  \<^item> TileChecks: a range check that \<open>tile\<close> needs and \<open>simplify\<close> removes.
  \<^item> Simplify: \<open>Simplify.cpp\<close>; SimplifyFacts, SimplifyLoops, SimplifyCorrect: it ends, and it keeps every
    final state under the rules of fast math that the emitter enables.

  \<^bold>\<open>Bytecode\<close> (\<open>Bytecode.h\<close>, \<open>Bytecode.cpp\<close>).
  \<^item> Streams: \<open>IdTable\<close>, \<open>StreamWriter\<close>, \<open>StreamReader\<close>, with the locales \<open>id_store\<close> (laws of a table under
    any equivalence, interpreted for strings, both kinds of types and pointers) and \<open>codec\<close> (a reader
    undoes its writer).
  \<^item> Bytecode: the serializer as the list of its writes and their execution, the deserializer as a
    state machine over the stream.
  \<^item> SerializeFacts, HeaderFacts, DecodeFacts, DecodeStmts, DecodeTree, RoundTrip: tables only grow, so
    the stream is a function of the final tables; the header, the declarations, the expressions and
    the statements read back one after the other. The result is \<open>bytecode_roundtrip\<close>; \<open>portable\<close> says
    which programs the format can hold.

  \<^bold>\<open>Parser\<close> (\<open>Parser.h\<close>, \<open>ParserContext.h\<close>, \<open>lib/Parser\<close>).
  \<^item> Lexer: \<open>Lexer.cpp\<close> and the tables of tokens. ParserContext: named values (locale \<open>scoped_names\<close>,
    interpreted for the stack of lets) and diagnostics. Numbers: \<open>atoi\<close> and \<open>atof\<close>.
  \<^item> Parser, ParserStmts, ParserProgram: the methods of \<open>Parser.cpp\<close> in a monad of state, failure and
    fuel; a heap is part of the state, since the parser allocates loops, arguments and variables.
  \<^item> ParserRules: rules for total correctness (\<open>ends\<close>), one per method. ParserExprs, ParserBodies,
    ParserFacts: the parser ends on every buffer and registers well-formed programs only.
  \<^item> ParserErrors: a parse without a message has registered a program and read the whole file, and that
    program has no range check with the null condition that \<open>parseIfStmt\<close> builds after an error (\<open>null_expr\<close>).
  \<^item> ParserTexts: texts the parser mistreats, whatever surrounds them: printed loops and strides of zero.
    ParserRun: running the parser on given texts by rewriting.

  \<^bold>\<open>Optimizer\<close> (\<open>lib/Optimizer\<close>, \<open>Backend.h\<close>).
  \<^item> Optimizer, Autotune: a pass is a function of the program and of the state of the search, which
    calls the next pass; \<open>optimizeEvaluate\<close> is the chain of passes that ends in the evaluator,
    \<open>optimizeStatic\<close> the pipeline without measurements. The machine is the record \<open>backend\<close>: the time of
    a run may depend on the number of runs before it, so no assumption on the clock is made.
  \<^item> SearchFacts: the locales \<open>search_invariant\<close> and \<open>next_pass\<close>, interpreted for the evaluator and the
    chain; the search returns the best of what it measured. FuseFacts: the restarts of the fusion end.

  \<^bold>\<open>Driver\<close> (\<open>tools/bistrac\<close>).
  \<^item> Driver: the warnings, \<open>parseAndOptimize\<close> and \<open>main\<close>, whose outside effects are a list.
  \<^item> DriverFacts: from the text of a file to the compiled program; the worth of the overflow check.
    Tuning: what is left of a tuned program. BytecodeFile: a program survives its bytecode file; the locale
    \<open>cursor\<close> has the laws of a state with a reader, interpreted for the stream and the deserializer.

  \<^bold>\<open>Types at run time.\<close> TypeSafety: a program that \<open>verify\<close> accepts runs to its end without meeting an
  operand of the wrong kind or width, up to the gaps of the verifier that \<open>plain_stmt\<close> excludes.

  \<^bold>\<open>The LLVM emitter\<close> (\<open>LLVMBackend.cpp\<close>).
  \<^item> LlvmEmitter: \<open>generate\<close> and the \<open>emit\<close> methods as functions that add instructions to basic blocks, and a
    machine that runs a function of such blocks, with registers, stack slots and the buffers.
  \<^item> EmitExprs, EmitRuns: the code of an expression computes its value, in every machine that matches the
    state of the program (locale \<open>quiet_match\<close>, interpreted for the match \<open>env_ok\<close>).
  \<^item> EmitStmts, EmitFacts: what emission adds to a function, and runs over its blocks.
  \<^item> EmitSim, EmitControl, EmitProgram: the simulation of statements, of range checks and loops, and of whole
    programs. The result, \<open>emitted_code_correct\<close>, ties the meaning of programs to the emitted code.
  \<^item> Benchmark: \<open>emitBenchmark\<close>, \<open>evaluateCode\<close> and \<open>initBuffer\<close>; the function that is measured calls the program
    as often as it should, on buffers inside the scratch memory. A call is an effect of the machine.

  \<^bold>\<open>Bounds and fuel.\<close> Loops of the source are structural recursions where they can be. \<open>simplify\<close> iterates
  to a fixpoint as a \<open>partial_function\<close>, and \<open>simplify_terminates\<close> shows that it always returns.
  \<open>addTempVar\<close> tries names with fuel one more than the number of variables, which is enough
  (\<open>addTempVar_fresh\<close>). The unroller counts with fuel given by the trip count.
  The parser has fuel one more than the length of the buffer: every loop and every nested call eats a
  token first, and \<open>parse_finishes\<close> shows that this is enough. The restarts of the fusion are a
  \<open>partial_function\<close>, which \<open>fuse_restarts_end\<close> shows to return.

  \<^bold>\<open>Not modelled.\<close> Debug locations; the C backend, which is a stub; LLVM's own part, that is the
  data structures of a module, its optimisation and its execution; the clock, which is a parameter; what the search prints; the
  benchmark and playground tools. The manifest lists each part with the reason.
\<close>

section \<open>A machine to run examples on\<close>

text \<open>
  An arithmetic that satisfies the rules of fast-math, so that the properties can be applied; it
  is not the arithmetic of the target.
\<close>

fun toy_bin :: "BinOpKind \<Rightarrow> f32 \<Rightarrow> f32 \<Rightarrow> f32" where
  "toy_bin Mul x y =
     (if x = 0 \<or> y = 0 then 0 else if x = f32_one then y else if y = f32_one then x else canon (x + y))"
| "toy_bin Add x y = (if x = 0 then y else if y = 0 then x else canon (x + y))"
| "toy_bin Div x y = (if x = 0 then 0 else x)"
| "toy_bin Sub x y = canon (x - y)"
| "toy_bin k x y = canon (x + y)"

definition toy_machine :: machine where
  "toy_machine = \<lparr>m_bin = toy_bin, m_un = (\<lambda>k x. x), m_ipow = (\<lambda>a b. a), m_guard = range_guard,
     m_call = (\<lambda>name vs m. m)\<rparr>"

definition toy_host :: host where
  "toy_host = \<lparr>ho_bin = (\<lambda>k a b. toy_bin k (canon a) (canon b)), ho_ipow = (\<lambda>a b. Inr a)\<rparr>"

definition toy_state :: state where
  "toy_state = \<lparr>st_mem = (\<lambda>a i. 0), st_loc = (\<lambda>v. VFlt [0]), st_out = []\<rparr>"

lemma canon_canon [simp]: "canon (canon x) = canon x"
  by (simp add: canon_def)

lemma canon_consts [simp]: "canon 0 = 0" "canon f32_one = f32_one" "f32_one \<noteq> 0"
  using f32_one_not_zero by (simp_all add: canon_def f32_one_def)

lemma toy_bin_canon:
  "k \<in> {Mul, Add, Div, Sub} \<Longrightarrow> canon (toy_bin k (canon a) (canon b)) = toy_bin k (canon a) (canon b)"
  by auto

lemma toy_bin_commute: "isCommutative k \<Longrightarrow> toy_bin k x y = toy_bin k y x"
  by (cases k) (auto simp: add.commute)

lemma toy_fast_math: "fast_math toy_machine toy_host"
  unfolding fast_math_def toy_machine_def toy_host_def
  using toy_bin_canon toy_bin_commute by auto

lemma toy_guard [simp]: "m_guard toy_machine = range_guard"
  by (simp add: toy_machine_def)

lemma demo_loop_wf: "wf_body (fst demo_loop) (pr_body (snd demo_loop))"
  by (simp add: demo_loop_def wf_body_def free_of_def)

lemma demo_loop_ok: "loops_ok (fst demo_loop) (pr_body (snd demo_loop))"
  by (simp add: demo_loop_def loops_ok_def loop_ok_def whole_trips_def loop_end_def loop_stride_def)

text \<open>Reads the result of a run that has been evaluated.\<close>

lemma ran_with:
  "(case r of Inr (Some (y, p, h)) \<Rightarrow> P y p h | _ \<Rightarrow> False) \<Longrightarrow> \<exists>y p h. r = Inr (Some (y, p, h)) \<and> P y p h"
  by (auto split: sum.splits option.splits)

section \<open>The transformations keep what a program computes\<close>

text \<open>C1. Any sequence of \<open>tile\<close>, \<open>peelLoop\<close>, \<open>unrollLoop\<close>, loop removals and, on a loop around one suitable
  store, \<open>vectorize\<close> and \<open>widen\<close>, in any order and with any parameters, leaves a program that is well formed,
  whose loops make whole trips, and that computes the same final state (memory, locals and calls) from every
  initial state as the program it started from, on every machine that implements the half-open range check.\<close>

theorem optimizer_steps_preserve:
  "schedule\<^sup>*\<^sup>* (h, p) (h', p') \<Longrightarrow> wf_body h (pr_body p) \<Longrightarrow> loops_ok h (pr_body p) \<Longrightarrow>
     m_guard M = range_guard \<Longrightarrow>
     run_program M h' p' st = run_program M h p st \<and> wf_body h' (pr_body p') \<and> loops_ok h' (pr_body p')"
  using schedules_keep [of "(h, p)" "(h', p')" M st] by (simp add: opt_inv_def)

theorem optimizer_steps_preserve_witness:
  "\<exists>h1 p1 h2 p2. vectorize (fst demo_loop) (snd demo_loop) 0 3 = Inr (Some (Some 0, p1, h1))
     \<and> unrollLoop h1 p1 0 10 = Inr (Some ((), p2, h2))
     \<and> run_program toy_machine h2 p2 toy_state = run_program toy_machine (fst demo_loop) (snd demo_loop) toy_state"
proof -
  have "case vectorize (fst demo_loop) (snd demo_loop) 0 3 of
      Inr (Some (t, p1, h1)) \<Rightarrow> t = Some 0 \<and> (case unrollLoop h1 p1 0 10 of Inr (Some (u, p2, h2)) \<Rightarrow> True | _ \<Rightarrow> False)
    | _ \<Rightarrow> False"
    by code_simp
  from ran_with [OF this] obtain p1 h1 where v: "vectorize (fst demo_loop) (snd demo_loop) 0 3 = Inr (Some (Some 0, p1, h1))"
    and r: "case unrollLoop h1 p1 0 10 of Inr (Some (u, p2, h2)) \<Rightarrow> True | _ \<Rightarrow> False"
    by blast
  from ran_with [OF r] obtain p2 h2 where u: "unrollLoop h1 p1 0 10 = Inr (Some ((), p2, h2))"
    by auto
  have f: "find_loop [] 0 (pr_body (snd demo_loop)) =
      Some ([], [StoreStmt (GEPExpr 1 [IndexExpr (scalarTy IndexTy) 0]) (ConstantFPExpr f32_one) False])"
    by (simp add: demo_loop_def)
  have "schedule (fst demo_loop, snd demo_loop) (h1, p1)"
    by (rule by_vectorize [OF v f]) (simp_all add: unit_access_def)
  then have "schedule\<^sup>*\<^sup>* (fst demo_loop, snd demo_loop) (h1, p1)" by (rule r_into_rtranclp)
  then have "schedule\<^sup>*\<^sup>* (fst demo_loop, snd demo_loop) (h2, p2)"
    by (rule rtranclp.rtrancl_into_rtrancl) (rule by_step [OF step_unroll [OF u]])
  note optimizer_steps_preserve [OF this demo_loop_wf demo_loop_ok toy_guard, THEN conjunct1]
  with v u show ?thesis by blast
qed

text \<open>C4. \<open>tile\<close> keeps what the program computes, for every block size it accepts. When the block
  size divides the loop no condition is needed; otherwise the machine must implement the range
  check, and the end of the loop must fit the \<open>int\<close> that the check stores.\<close>

theorem tile_preserves:
  "tile h p L bs = Inr (Some (NL, p', h')) \<Longrightarrow> wf_body h (pr_body p) \<Longrightarrow>
     (loop_end h L mod bs \<noteq> 0 \<longrightarrow> m_guard M = range_guard \<and> unat (loop_end h L) < 2 ^ 31) \<Longrightarrow>
     run_program M h' p' st = run_program M h p st"
  unfolding tile_def by (rule tiling.program_runs) (simp_all add: tile_pre_def)

theorem tile_preserves_witness:
  "\<exists>p' h'. tile (fst demo_loop) (snd demo_loop) 0 4 = Inr (Some (2, p', h'))
     \<and> run_program toy_machine h' p' toy_state = run_program toy_machine (fst demo_loop) (snd demo_loop) toy_state"
proof -
  have "case tile (fst demo_loop) (snd demo_loop) 0 4 of Inr (Some (NL, p1, h1)) \<Rightarrow> NL = 2 | _ \<Rightarrow> False"
    by code_simp
  from ran_with [OF this] obtain p1 h1 where t: "tile (fst demo_loop) (snd demo_loop) 0 4 = Inr (Some (2, p1, h1))"
    by auto
  from tile_preserves [OF t demo_loop_wf, of toy_machine toy_state] t
  show ?thesis by (auto simp: demo_loop_def loop_end_def)
qed

text \<open>C5. \<open>peelLoop\<close> keeps what the program computes, for every partition point it accepts, positive
  or counted from the end.\<close>

theorem peel_preserves:
  "peelLoop h p L k = Inr (Some (L2, p', h')) \<Longrightarrow> wf_body h (pr_body p) \<Longrightarrow>
     run_program M h' p' st = run_program M h p st"
  unfolding peelLoop_def by (rule peeling.program_runs) simp_all

theorem peel_preserves_witness:
  "\<exists>p' h'. peelLoop (fst demo_loop) (snd demo_loop) 0 (- 2) = Inr (Some (2, p', h'))
     \<and> run_program toy_machine h' p' toy_state = run_program toy_machine (fst demo_loop) (snd demo_loop) toy_state"
proof -
  have "case peelLoop (fst demo_loop) (snd demo_loop) 0 (- 2) of Inr (Some (L2, p1, h1)) \<Rightarrow> L2 = 2 | _ \<Rightarrow> False"
    by code_simp
  from ran_with [OF this] obtain p1 h1 where t: "peelLoop (fst demo_loop) (snd demo_loop) 0 (- 2) = Inr (Some (2, p1, h1))"
    by auto
  from peel_preserves [OF t demo_loop_wf, of toy_machine toy_state] t show ?thesis by auto
qed

text \<open>C6. \<open>unrollLoop\<close> keeps what the program computes when the stride divides the end of the loop,
  which \<open>verify\<close> demands of every loop.\<close>

theorem unroll_preserves:
  "unrollLoop h p L maxTrip = Inr (Some (u, p', h')) \<Longrightarrow> wf_body h (pr_body p) \<Longrightarrow>
     loop_stride h L \<noteq> 0 \<Longrightarrow> loop_end h L mod loop_stride h L = 0 \<Longrightarrow>
     run_program M h' p' st = run_program M h p st"
  unfolding unrollLoop_def by (rule unrolling.program_runs) (simp_all add: unroll_pre_def)

theorem unroll_preserves_witness:
  "\<exists>p' h'. unrollLoop (fst demo_loop) (snd demo_loop) 0 6 = Inr (Some ((), p', h'))
     \<and> run_program toy_machine h' p' toy_state = run_program toy_machine (fst demo_loop) (snd demo_loop) toy_state"
proof -
  have "case unrollLoop (fst demo_loop) (snd demo_loop) 0 6 of Inr (Some (u, p1, h1)) \<Rightarrow> True | _ \<Rightarrow> False"
    by code_simp
  from ran_with [OF this] obtain p1 h1 where t: "unrollLoop (fst demo_loop) (snd demo_loop) 0 6 = Inr (Some ((), p1, h1))"
    by auto
  from unroll_preserves [OF t demo_loop_wf, of toy_machine toy_state] t
  show ?thesis by (auto simp: demo_loop_def loop_end_def loop_stride_def)
qed

text \<open>C7. \<open>simplify\<close>, run until nothing changes, computes what the program computed, on programs with
  no range check, under the rules of fast-math: whenever the original reaches a final state, the
  simplified program reaches the same one.\<close>

theorem simplify_preserves:
  "simplify H h p = Some (Inr (p', ch)) \<Longrightarrow> wf_body h (pr_body p) \<Longrightarrow> fast_math M H \<Longrightarrow>
     strides_ok h (pr_body p) \<Longrightarrow> list_all no_ifs (pr_body p) \<Longrightarrow>
     run_program M h p st = Some st' \<Longrightarrow> run_program M h p' st = Some st'"
  using simplify_improves(1) unfolding improves_def by blast

definition demo_simplify :: "heap \<times> program" where
  "demo_simplify =
     (fst demo_loop, (snd demo_loop)\<lparr>pr_body :=
        [Loop 0 [StoreStmt (GEPExpr 1 [BinaryExpr Add (IndexExpr (scalarTy IndexTy) 0) (ConstantExpr 0)])
           (BinaryExpr Mul (ConstantFPExpr f32_one) (ConstantFPExpr 0)) False]]\<rparr>)"

lemma demo_simplify_facts:
  "wf_body (fst demo_simplify) (pr_body (snd demo_simplify))"
  "strides_ok (fst demo_simplify) (pr_body (snd demo_simplify))"
  "list_all no_ifs (pr_body (snd demo_simplify))"
  by (simp_all add: demo_simplify_def demo_loop_def wf_body_def free_of_def strides_ok_def loop_stride_def)

lemma demo_simplify_runs:
  "run_program toy_machine (fst demo_simplify) (snd demo_simplify) toy_state \<noteq> None"
  by code_simp

theorem simplify_preserves_witness:
  "\<exists>p'. simplify toy_host (fst demo_simplify) (snd demo_simplify) = Some (Inr (p', True))
     \<and> run_program toy_machine (fst demo_simplify) p' toy_state
       = run_program toy_machine (fst demo_simplify) (snd demo_simplify) toy_state"
proof -
  have "case simplify toy_host (fst demo_simplify) (snd demo_simplify) of
      Some (Inr (p', ch)) \<Rightarrow> ch | _ \<Rightarrow> False"
    by code_simp
  then obtain p' where s: "simplify toy_host (fst demo_simplify) (snd demo_simplify) = Some (Inr (p', True))"
    by (auto split: option.splits sum.splits)
  obtain st' where r: "run_program toy_machine (fst demo_simplify) (snd demo_simplify) toy_state = Some st'"
    using demo_simplify_runs by blast
  from simplify_preserves [OF s demo_simplify_facts(1) toy_fast_math demo_simplify_facts(2,3) r] s r
  show ?thesis by simp
qed

text \<open>C8. \<open>simplify\<close> ends on every well-formed program: every round that changes something makes the
  program smaller.\<close>

theorem simplify_terminates: "wf_body h (pr_body p) \<Longrightarrow> \<exists>r. simplify H h p = Some r"
  by (rule simplify_returns)

theorem simplify_terminates_witness: "\<exists>r. simplify toy_host (fst demo_loop) (snd demo_loop) = Some r"
  by (rule simplify_terminates [OF demo_loop_wf])

text \<open>\<open>simplifyExpr\<close> keeps the value of an expression, whatever rule applies: constant folding,
  moving a constant to the right, multiplication by zero and one, addition of zero, division of zero
  and by one, at every depth.\<close>

theorem simplifyExpr_value:
  "fast_math M H \<Longrightarrow> simplifyExpr H e = Inr (e', ch) \<Longrightarrow> eval M h st \<rho> e = Some v \<Longrightarrow>
     eval M h st \<rho> e' = Some v"
  by (rule simplifyExpr_eval)

theorem simplifyExpr_value_witness:
  "eval toy_machine (fst demo_loop) toy_state (\<lambda>L. 4) (IndexExpr (scalarTy IndexTy) 0) = Some (VIdx [4])"
proof (rule simplifyExpr_value [OF toy_fast_math])
  show "simplifyExpr toy_host (BinaryExpr Add (ConstantExpr 0) (IndexExpr (scalarTy IndexTy) 0))
      = Inr (IndexExpr (scalarTy IndexTy) 0, True)"
    by code_simp
qed code_simp

text \<open>C26. The interval of \<open>computeKnownIntegerRange\<close> contains the value of the expression, at every
  iteration of the loops around it, for expressions without \<open>Max\<close> whose constants fit an
  \<open>int\<close>.\<close>

theorem range_bounds:
  "computeKnownIntegerRange h None e = Inr (Some r) \<Longrightarrow> consts_fit e \<Longrightarrow> no_max e \<Longrightarrow>
     \<forall>L \<in> loops_of_expr e. in_trips h \<rho> L \<Longrightarrow> eval M h st \<rho> e = Some v \<Longrightarrow> bounds_val r v"
  by (rule range_sound)

theorem range_bounds_witness:
  "bounds_val (2, 7) (VIdx [5])"
proof (rule range_bounds)
  show "computeKnownIntegerRange (fst demo_loop) None
      (BinaryExpr Add (IndexExpr (scalarTy IndexTy) 0) (ConstantExpr 2)) = Inr (Some (2, 7))"
    by code_simp
  show "eval toy_machine (fst demo_loop) toy_state (\<lambda>L. 3)
      (BinaryExpr Add (IndexExpr (scalarTy IndexTy) 0) (ConstantExpr 2)) = Some (VIdx [5])"
    by code_simp
qed (simp_all add: in_trips_def demo_loop_def loop_end_def loop_stride_def in_int_def)

text \<open>C25. \<open>simplifyIfs\<close> only removes checks that make no difference, when the interval and the
  range of every check are clear of the confusion between closed intervals and half-open ranges:
  a check it takes to hold always holds, and one it takes to fail always fails.\<close>

theorem simplifyIfs_sound:
  "simplifyIfs h p = Inr (p', ch) \<Longrightarrow> list_all (clear_ifs h) (pr_body p) \<Longrightarrow>
     \<forall>L \<in> set (body_loops (pr_body p)). whole_trips h L \<Longrightarrow> free_of (pr_body p) = {} \<Longrightarrow>
     m_guard M = range_guard \<Longrightarrow> run_program M h p st = Some st' \<Longrightarrow> run_program M h p' st = Some st'"
  using simplifyIfs_improves unfolding improves_def by blast

definition demo_check :: "heap \<times> program" where
  "demo_check =
     (fst demo_loop, (snd demo_loop)\<lparr>pr_body :=
        [Loop 0 [IfRange (IndexExpr (scalarTy IndexTy) 0) 0 6
          [StoreStmt (GEPExpr 1 [IndexExpr (scalarTy IndexTy) 0]) (ConstantFPExpr f32_one) False]]]\<rparr>)"

theorem simplifyIfs_sound_witness:
  "\<exists>p'. simplifyIfs (fst demo_check) (snd demo_check) = Inr (p', True)
     \<and> run_program toy_machine (fst demo_check) p' toy_state
       = run_program toy_machine (fst demo_check) (snd demo_check) toy_state"
proof -
  have "case simplifyIfs (fst demo_check) (snd demo_check) of Inr (p', ch) \<Rightarrow> ch | _ \<Rightarrow> False"
    by code_simp
  then obtain p' where s: "simplifyIfs (fst demo_check) (snd demo_check) = Inr (p', True)"
    by (auto split: sum.splits)
  have "run_program toy_machine (fst demo_check) (snd demo_check) toy_state \<noteq> None"
    by code_simp
  then obtain st' where r: "run_program toy_machine (fst demo_check) (snd demo_check) toy_state = Some st'"
    by blast
  have c: "list_all (clear_ifs (fst demo_check)) (pr_body (snd demo_check))"
    by code_simp
  have "run_program toy_machine (fst demo_check) p' toy_state = Some st'"
    by (rule simplifyIfs_sound [OF s c _ _ toy_guard r])
      (simp_all add: demo_check_def demo_loop_def whole_trips_def loop_end_def loop_stride_def free_of_def)
  with s r show ?thesis by simp
qed

text \<open>C29. A clone of a well-formed statement (its loops are new, its free indices are those of the
  original) runs exactly like the original, in every state and for every value of the indices.\<close>

theorem clone_runs_alike:
  "clone_stmt h vs enc empty_ctx s = Inr (s', h', c') \<Longrightarrow> wf_body h [s] \<Longrightarrow>
     exec M h' \<rho> s' st = exec M h \<rho> s st"
  by (rule clone_exec_both(1) [where c = empty_ctx])
    (auto simp: wf_body_def free_of_def tracks_def loops_only_def empty_ctx_def get_loop_def ctx_ok_def)

theorem clone_runs_alike_witness:
  "\<exists>s' h'. s' \<noteq> hd (pr_body (snd demo_loop)) \<and>
     exec toy_machine h' (\<lambda>L. 0) s' toy_state
     = exec toy_machine (fst demo_loop) (\<lambda>L. 0) (hd (pr_body (snd demo_loop))) toy_state"
proof -
  have "case clone_stmt (fst demo_loop) [] [] empty_ctx (hd (pr_body (snd demo_loop))) of
      Inr (s', h', c') \<Rightarrow> loop_id s' = Some 2 | _ \<Rightarrow> False"
    by code_simp
  then obtain s' h' c' where c: "clone_stmt (fst demo_loop) [] [] empty_ctx (hd (pr_body (snd demo_loop)))
      = Inr (s', h', c')" and L: "loop_id s' = Some 2"
    by (auto split: sum.splits)
  have w: "wf_body (fst demo_loop) [hd (pr_body (snd demo_loop))]"
    using demo_loop_wf by (simp add: demo_loop_def)
  have "s' \<noteq> hd (pr_body (snd demo_loop))"
    using L by (auto simp: demo_loop_def)
  with clone_runs_alike [OF c w] show ?thesis by blast
qed

text \<open>The 32-bit counter of \<open>unrollLoop\<close> visits exactly the multiples of the stride below the
  end and stops, when the stride divides the end; there is no wrap-around.\<close>

theorem unroll_counter_stops:
  "stride \<noteq> 0 \<Longrightarrow> fin mod stride = 0 \<Longrightarrow>
     unroll_iters fin stride 0 = Some (map of_nat (count_up (unat stride) (unat fin) 0))"
  using unroll_iters_ok [of stride 0 fin]
  by (simp add: unat_mod_distrib [symmetric] mod_eq_0_iff_dvd [symmetric])

theorem unroll_counter_stops_witness:
  "unroll_iters 4294967292 2147483646 0 = Some [0, 2147483646]"
  using unroll_counter_stops [of 2147483646 4294967292] by (simp add: count_up.simps)

section \<open>What modelling found\<close>

text \<open>A loop over all three elements of an array, tiled by two.\<close>

definition demo_odd :: "heap \<times> program" where
  "demo_odd =
     ((fst demo_loop)\<lparr>hp_loop := (\<lambda>L. \<lparr>lp_name = ''i'', lp_end = 3, lp_stride = 1\<rparr>),
        hp_arg := (\<lambda>a. \<lparr>arg_name = ''A'', arg_type = \<lparr>ty_sizes = [3], ty_names = [''x''], ty_elem = Float32Ty\<rparr>\<rparr>)\<rparr>,
      snd demo_loop)"

text \<open>C32. Tiling followed by \<open>simplify\<close> makes a program write behind its array. Take any loop over all \<open>n\<close> elements
  of a one-dimensional array that stores a constant in each, and any block size that leaves \<open>bs - 1\<close> elements
  for the last block. \<open>tile\<close> adds a range check and keeps what the loop does; the greatest value of the checked
  index is \<open>n\<close>, which \<open>getRangeRelation\<close> takes to lie in the half-open range from 0 to \<open>n\<close>, so \<open>simplify\<close> removes the
  check. On every machine that implements the check and from every state, the loop and its tiled form leave
  element \<open>n\<close> alone, which is the first one behind the array, and the simplified program overwrites it.\<close>

theorem tile_then_simplify_writes_outside:
  assumes "L < hp_next h" "loop_end h L = n" "loop_stride h L = 1" "a < hp_next h" "ty_sizes (arg_type (hp_arg h a)) = [n]"
    and "pr_body p = [Loop L [StoreStmt (GEPExpr a [new_IndexExpr L]) (ConstantFPExpr c) False]]"
    and "1 < bs" "bs < n" "n mod bs = bs - 1" "unat n < 2 ^ 31" "m_guard M = range_guard"
  shows "\<exists>NL p1 h1 p2 st1 st2. tile h p L bs = Inr (Some (NL, p1, h1)) \<and> simplify H h1 p1 = Some (Inr (p2, True))
    \<and> run_program M h p st = Some st1 \<and> run_program M h1 p1 st = Some st1 \<and> run_program M h1 p2 st = Some st2
    \<and> st_mem st1 a (i64_of_u32 n) = st_mem st a (i64_of_u32 n) \<and> st_mem st2 a (i64_of_u32 n) = canon c"
  using assms by (intro needed_check_removed) (simp_all add: one_short_def fill_loop_def)

theorem tile_then_simplify_writes_outside_witness:
  "verify_program (fst demo_odd) (snd demo_odd) = Inr () \<and>
   (\<exists>NL p1 h1 p2 st1 st2. tile (fst demo_odd) (snd demo_odd) 0 2 = Inr (Some (NL, p1, h1))
     \<and> simplify toy_host h1 p1 = Some (Inr (p2, True))
     \<and> run_program toy_machine (fst demo_odd) (snd demo_odd) toy_state = Some st1 \<and> st_mem st1 1 3 = 0
     \<and> run_program toy_machine h1 p2 toy_state = Some st2 \<and> st_mem st2 1 3 = f32_one)"
proof -
  have "verify_program (fst demo_odd) (snd demo_odd) = Inr ()" by code_simp
  moreover have "\<exists>NL p1 h1 p2 st1 st2. tile (fst demo_odd) (snd demo_odd) 0 2 = Inr (Some (NL, p1, h1))
     \<and> simplify toy_host h1 p1 = Some (Inr (p2, True))
     \<and> run_program toy_machine (fst demo_odd) (snd demo_odd) toy_state = Some st1
     \<and> run_program toy_machine h1 p1 toy_state = Some st1 \<and> run_program toy_machine h1 p2 toy_state = Some st2
     \<and> st_mem st1 1 (i64_of_u32 3) = st_mem toy_state 1 (i64_of_u32 3) \<and> st_mem st2 1 (i64_of_u32 3) = canon f32_one"
    by (rule tile_then_simplify_writes_outside)
      (simp_all add: demo_odd_def demo_loop_def loop_end_def loop_stride_def new_IndexExpr_def)
  moreover have "st_mem toy_state 1 (i64_of_u32 3) = 0" "i64_of_u32 3 = 3" by (simp_all add: toy_state_def i64_of_u32_def)
  ultimately show ?thesis by auto
qed

text \<open>C33. In code generated by the LLVM backend a range check has no effect: the two comparisons are
  joined by \<open>or\<close>, and one of them holds for every index as soon as the range is not reversed, so the
  body runs always.\<close>

theorem llvm_range_check_has_no_effect:
  "m_guard M = llvm_guard \<Longrightarrow> in_int lo \<Longrightarrow> in_int hi \<Longrightarrow> lo \<le> hi \<Longrightarrow> eval M h st \<rho> val = Some (VIdx [x]) \<Longrightarrow>
     exec M h \<rho> (IfRange val lo hi body) st = exec_body M h \<rho> body st"
proof -
  assume g: "m_guard M = llvm_guard" and i: "in_int lo" "in_int hi" and le: "lo \<le> hi"
    and v: "eval M h st \<rho> val = Some (VIdx [x])"
  have "sint (i64_of_int lo) = lo" "sint (i64_of_int hi) = hi"
    using i by (simp_all add: i64_of_int_def in_int_def signed_take_bit_int_eq_self sint_sbintrunc')
  then have "llvm_guard x lo hi" using le by (auto simp: llvm_guard_def)
  then show ?thesis by (simp add: v g)
qed

theorem llvm_range_check_has_no_effect_witness:
  "exec (toy_machine\<lparr>m_guard := llvm_guard\<rparr>) (fst demo_odd) (\<lambda>L. 0) (IfRange (ConstantExpr 7) 0 3 []) toy_state
   = Some toy_state"
  using llvm_range_check_has_no_effect [of "toy_machine\<lparr>m_guard := llvm_guard\<rparr>" 0 3 "fst demo_odd" toy_state "\<lambda>L. 0"
      "ConstantExpr 7" 7 "[]"]
  by (simp add: in_int_def)

text \<open>\<open>peelLoop\<close> accepts the end of the loop as its partition point, and then leaves a second loop
  of length zero in the program, which \<open>verify\<close> rejects.\<close>

theorem peeling_everything_breaks_verify:
  "verify_program (fst demo_loop) (snd demo_loop) = Inr () \<and>
   (case peelLoop (fst demo_loop) (snd demo_loop) 0 6 of
      Inr (Some (L2, p', h')) \<Rightarrow> loop_end h' L2 = 0 \<and> verify_program h' p' \<noteq> Inr ()
    | _ \<Rightarrow> False)"
  by code_simp

end
